(* ===== verification/Prelude.thy ===== *)
theory Prelude
  imports Main "HOL-Library.Word" "HOL-Library.Monad_Syntax"
begin

unbundle bit_operations_syntax

text \<open>
  Shared vocabulary of the development.

  \<^item> The C integer types of the kernel are words of their width; a pointer is a natural
    number with 0 for \<^verbatim>\<open>NULL\<close>.
  \<^item> A kernel function is a HOL function into \<open>option\<close>: \<open>None\<close> says that the kernel did not
    come back from it (\<^verbatim>\<open>panic_g\<close> stops the CPU, a loop that never ends, an access outside
    the object it names). Error codes the C code returns are ordinary integer results.
  \<^item> The generic lemmas on option, lists and words that several components use.
\<close>

section \<open>Types\<close>

type_synonym u8 = "8 word"
type_synonym u16 = "16 word"
type_synonym u32 = "32 word"
type_synonym u64 = "64 word"
type_synonym addr = nat

abbreviation (input) NULL :: addr where "NULL \<equiv> 0"

text \<open>Facts that characterise the result of an operation, and facts that an invariant survives.\<close>

named_theorems kspec
named_theorems kinv

section \<open>Option\<close>

lemma bind_SomeE:
  assumes "Option.bind m f = Some r"
  obtains x where "m = Some x" and "f x = Some r"
  using assms by (cases m) auto

lemma if_None_Some_iff [simp]:
  "((if b then None else x) = Some r) = (\<not> b \<and> x = Some r)"
  "((if b then x else None) = Some r) = (b \<and> x = Some r)"
  by auto

section \<open>Lists\<close>

text \<open>Bounds-checked access: a read or write outside the object is not a result.\<close>

definition nth_chk :: "'a list \<Rightarrow> nat \<Rightarrow> 'a option" where
  "nth_chk xs i = (if i < length xs then Some (xs ! i) else None)"

definition upd_chk :: "'a list \<Rightarrow> nat \<Rightarrow> 'a \<Rightarrow> 'a list option" where
  "upd_chk xs i v = (if i < length xs then Some (xs[i := v]) else None)"

lemma nth_chk_eq [simp]: "i < length xs \<Longrightarrow> nth_chk xs i = Some (xs ! i)"
  by (simp add: nth_chk_def)

lemma nth_chk_Some_iff: "nth_chk xs i = Some v \<longleftrightarrow> i < length xs \<and> xs ! i = v"
  by (auto simp: nth_chk_def)

lemma upd_chk_eq [simp]: "i < length xs \<Longrightarrow> upd_chk xs i v = Some (xs[i := v])"
  by (simp add: upd_chk_def)

lemma upd_chk_Some_iff: "upd_chk xs i v = Some ys \<longleftrightarrow> i < length xs \<and> ys = xs[i := v]"
  by (auto simp: upd_chk_def)

lemma list_update_append_Cons [simp]:
  "n = length xs \<Longrightarrow> (xs @ y # ys)[n := v] = xs @ v # ys"
  by simp

lemma drop_eq_Cons_nth: "drop i xs = y # ys \<Longrightarrow> i < length xs \<and> xs ! i = y \<and> drop (Suc i) xs = ys"
  by (metis drop_all not_le_imp_less list.distinct(1) Cons_nth_drop_Suc list.inject)

section \<open>Loops\<close>

text \<open>A loop \<^verbatim>\<open>for (i = 0; i < n; ++i)\<close> with a body that changes the state.\<close>

fun for_each :: "nat list \<Rightarrow> (nat \<Rightarrow> 's \<Rightarrow> 's option) \<Rightarrow> 's \<Rightarrow> 's option" where
  "for_each [] f s = Some s"
| "for_each (i # is) f s = do { s1 \<leftarrow> f i s; for_each is f s1 }"

text \<open>An invariant that every round keeps gives the result of the loop.\<close>

lemma for_each_inv:
  assumes "\<And>k s. k < n \<Longrightarrow> I k s \<Longrightarrow> \<exists>s'. f k s = Some s' \<and> I (Suc k) s'" and "I 0 s"
  shows "\<exists>s'. for_each [0..<n] f s = Some s' \<and> I n s'"
proof -
  have "\<exists>s'. for_each [n - k..<n] f s = Some s' \<and> I n s'" if "k \<le> n" "I (n - k) s" for k s
    using that
  proof (induction k arbitrary: s)
    case (Suc k)
    have u: "[n - Suc k..<n] = (n - Suc k) # [n - k..<n]" using Suc.prems(1) by (subst upt_conv_Cons) (auto simp: Suc_diff_Suc)
    obtain s1 where s1: "f (n - Suc k) s = Some s1" "I (Suc (n - Suc k)) s1" using assms(1)[OF _ Suc.prems(2)] Suc.prems(1) by auto
    then have "I (n - k) s1" using Suc.prems(1) by (simp add: Suc_diff_Suc)
    then show ?case using Suc.IH[of s1] Suc.prems(1) s1(1) unfolding u by simp
  qed simp
  from this[of n s] assms(2) show ?thesis by simp
qed

section \<open>Linked lists\<close>

text \<open>The nodes \<open>ns\<close> that follow \<open>p\<close> when each node names the next one and the last one names \<^verbatim>\<open>NULL\<close>.\<close>

fun lpath :: "(addr \<Rightarrow> addr) \<Rightarrow> addr \<Rightarrow> addr list \<Rightarrow> bool" where
  "lpath nx p [] \<longleftrightarrow> nx p = NULL"
| "lpath nx p (n # ns) \<longleftrightarrow> nx p = n \<and> n \<noteq> NULL \<and> lpath nx n ns"

lemma lpath_last: "lpath nx p ns \<Longrightarrow> nx (last (p # ns)) = NULL"
  by (induction ns arbitrary: p) auto

lemma lpath_frame:
  "lpath nx p ns \<Longrightarrow> (\<And>x. x \<in> set (p # ns) \<Longrightarrow> nx' x = nx x) \<Longrightarrow> lpath nx' p ns"
  by (induction ns arbitrary: p) auto

lemma lpath_snoc:
  "lpath nx p ns \<Longrightarrow> q \<noteq> NULL \<Longrightarrow> nx' (last (p # ns)) = q \<Longrightarrow> nx' q = NULL \<Longrightarrow>
   distinct (p # ns) \<Longrightarrow> (\<And>x. x \<in> set (p # ns) \<Longrightarrow> x \<noteq> last (p # ns) \<Longrightarrow> nx' x = nx x) \<Longrightarrow>
   lpath nx' p (ns @ [q])"
proof (induction ns arbitrary: p)
  case (Cons n ns)
  have "nx' p = nx p" using Cons(6) Cons(7)[of p] by (metis last_ConsR last_in_set list.set_intros(1) list.simps(3) distinct.simps(2))
  moreover have "lpath nx' n (ns @ [q])" using Cons(2-) by (intro Cons(1)) auto
  ultimately show ?case using Cons(2) by simp
qed simp

lemma lpath_remove:
  "lpath nx p (xs @ n # ys) \<Longrightarrow> distinct (p # xs @ n # ys) \<Longrightarrow> nx' (last (p # xs)) = nx n \<Longrightarrow>
   (\<And>x. x \<in> set (p # xs @ ys) \<Longrightarrow> x \<noteq> last (p # xs) \<Longrightarrow> nx' x = nx x) \<Longrightarrow>
   lpath nx' p (xs @ ys)"
proof (induction xs arbitrary: p)
  case Nil
  have "lpath nx' p ys" if "lpath nx n ys" "nx' p = nx n" "p \<notin> set ys"
    "\<And>x. x \<in> set ys \<Longrightarrow> nx' x = nx x"
    using that by (cases ys) (auto intro: lpath_frame)
  then show ?case using Nil by auto
next
  case (Cons x xs)
  have "lpath nx' x (xs @ ys)" using Cons(2-) by (intro Cons(1)) auto
  moreover have "last (x # xs) \<in> set (x # xs)" by (rule last_in_set) simp
  then have "p \<noteq> last (p # x # xs)" using Cons(3) by auto
  then have "nx' p = nx p" using Cons(5)[of p] by simp
  ultimately show ?case using Cons(2) by simp
qed

section \<open>Words\<close>

text \<open>Clearing the low bits rounds down to a multiple of the power of two.\<close>

lemma and_not_mask_eq: "w AND NOT (mask n) = push_bit n (drop_bit n w)" for w :: "'a::len word"
  by (rule bit_word_eqI) (auto simp: bit_simps)

lemma unat_and_not_mask: "unat (w AND NOT (mask n)) = unat w div 2 ^ n * 2 ^ n" for w :: "'a::len word"
proof -
  have "unat w div 2 ^ n * 2 ^ n < 2 ^ LENGTH('a)"
    by (rule le_less_trans[OF div_times_less_eq_dividend unsigned_less])
  then show ?thesis
    unfolding and_not_mask_eq unsigned_push_bit_eq unsigned_drop_bit_eq
    by (simp add: push_bit_eq_mult drop_bit_eq_div take_bit_eq_mod)
qed

text \<open>A loop \<^verbatim>\<open>for (; i < e; ++i)\<close> on machine words does not wrap, and it ends.\<close>

lemma unat_succ_less: "i < e \<Longrightarrow> unat (i + 1) = Suc (unat i)" for i :: "'a::len word"
proof -
  assume "i < e"
  then have "unat i < unat e" by (simp add: word_less_nat_alt)
  then have "Suc (unat i) < 2 ^ LENGTH('a)" using unsigned_less[of e] by (simp add: Suc_lessI less_trans_Suc)
  then show ?thesis by (simp add: unat_word_ariths)
qed

lemma word_succ_measure: "i < e \<Longrightarrow> unat e - unat (i + 1) < unat e - unat i" for i :: "'a::len word"
  by (simp add: unat_succ_less word_less_nat_alt)

end
