(* ===== verification/KMalloc.thy ===== *)
theory KMalloc
  imports Prelude
begin

text \<open>
  The kernel heap: the boundary-tag allocator of \<^verbatim>\<open>kernel/mm/malloc-g.c\<close>.

  The 8 MiB area is a sequence of blocks. Each starts with a \<open>header\<close> and ends with one (the foot);
  the free blocks form a circular doubly linked list that starts at \<open>kpav\<close>. Memory is the map from
  the address of a header to its value (\<open>hmem\<close>): the invariant below keeps all headers and feet
  disjoint, so that no two of them share a byte. The field \<open>hlast\<close> is the C union of \<^verbatim>\<open>last\<close> (of a
  free block's header) and \<^verbatim>\<open>head\<close> (of a foot).

  The lemmas show that \<open>heap_ok\<close> survives both operations, that \<open>kmalloc_g\<close> returns a fresh region
  large enough or \<^verbatim>\<open>NULL\<close> when no free block is large enough, that \<open>kfree_g\<close> gives back exactly the
  block it is given, and that adjacent free blocks never exist.
\<close>

section \<open>State and operations\<close>

record header =
  hlast :: addr
  htag :: int
  hsize :: u32
  hnext :: addr

record kheap =
  hmem :: "addr \<Rightarrow> header"
  kpav :: addr
  kallocbuf :: addr

definition KSL :: nat where "KSL = 8 * 1024 * 1024"
definition EU :: u32 where "EU = 64"
definition ADDR_ALIGN :: nat where "ADDR_ALIGN = 8"
definition sizeof_header :: nat where "sizeof_header = 24"

definition FREE :: int where "FREE = 0"
definition OCCUPIED :: int where "OCCUPIED = 1"

definition set_last :: "addr \<Rightarrow> addr \<Rightarrow> (addr \<Rightarrow> header) \<Rightarrow> (addr \<Rightarrow> header)" where
  "set_last a v m = m(a := (m a)\<lparr>hlast := v\<rparr>)"
definition set_tag :: "addr \<Rightarrow> int \<Rightarrow> (addr \<Rightarrow> header) \<Rightarrow> (addr \<Rightarrow> header)" where
  "set_tag a v m = m(a := (m a)\<lparr>htag := v\<rparr>)"
definition set_size :: "addr \<Rightarrow> u32 \<Rightarrow> (addr \<Rightarrow> header) \<Rightarrow> (addr \<Rightarrow> header)" where
  "set_size a v m = m(a := (m a)\<lparr>hsize := v\<rparr>)"
definition set_next :: "addr \<Rightarrow> addr \<Rightarrow> (addr \<Rightarrow> header) \<Rightarrow> (addr \<Rightarrow> header)" where
  "set_next a v m = m(a := (m a)\<lparr>hnext := v\<rparr>)"

text \<open>\<^verbatim>\<open>ROUND(a, n)\<close> of \<^verbatim>\<open>mm.h\<close> is computed on 64 bits.\<close>

definition ROUND :: "u64 \<Rightarrow> u64 \<Rightarrow> u64" where
  "ROUND a n = (a + n - 1) AND NOT (n - 1)"

definition foot_loc :: "(addr \<Rightarrow> header) \<Rightarrow> addr \<Rightarrow> addr" where
  "foot_loc m p = p + unat (hsize (m p)) - sizeof_header"

definition malloc_init :: "u64 \<Rightarrow> kheap \<Rightarrow> kheap option" where
  "malloc_init bss_end s =
     (let buf = unat (ROUND (bss_end + 16) 16) in
      if buf + KSL > 0xffffffc050e00000 then None
      else
        (let m = set_last buf buf (set_tag buf FREE (set_size buf (of_nat KSL) (set_next buf buf (hmem s))));
             q = foot_loc m buf
         in Some (s\<lparr>kallocbuf := buf, kpav := buf, hmem := set_tag q FREE (set_last q buf m)\<rparr>)))"

partial_function (option) kmalloc_scan :: "(addr \<Rightarrow> header) \<Rightarrow> addr \<Rightarrow> u32 \<Rightarrow> addr \<Rightarrow> addr option" where
  "kmalloc_scan m kp n h =
     (if h \<noteq> NULL \<and> hsize (m h) < n \<and> hnext (m h) \<noteq> kp
      then kmalloc_scan m kp n (hnext (m h)) else Some h)"

definition kmalloc_size :: "u32 \<Rightarrow> u32" where
  "kmalloc_size Size = ucast (ROUND (ucast (Size + 2 * of_nat sizeof_header)) (of_nat ADDR_ALIGN))"

text \<open>The branch of \<^verbatim>\<open>kmalloc_g\<close> that hands out the whole block \<open>h\<close>.\<close>

definition kmalloc_whole :: "addr \<Rightarrow> kheap \<Rightarrow> addr \<times> kheap" where
  "kmalloc_whole h s =
     (let m = hmem s; f = foot_loc m h; kp = hnext (m h);
          (kp', m') = (if h = kp then (NULL, m)
             else (kp, let m1 = set_next (hlast (m h)) kp m in set_last kp (hlast (m1 h)) m1))
      in (h, s\<lparr>kpav := kp', hmem := set_tag h OCCUPIED (set_tag f OCCUPIED m')\<rparr>))"

text \<open>The branch that cuts the last \<open>n\<close> bytes off the block \<open>h\<close>.\<close>

definition kmalloc_split :: "addr \<Rightarrow> u32 \<Rightarrow> kheap \<Rightarrow> addr \<times> kheap" where
  "kmalloc_split h n s =
     (let m = hmem s; f = foot_loc m h; kp = hnext (m h);
          m1 = set_size h (hsize (m h) - n) (set_tag f OCCUPIED m);
          f1 = foot_loc m1 h;
          m2 = set_last f1 h (set_tag f1 FREE m1);
          h' = f1 + sizeof_header;
          m3 = set_tag h' OCCUPIED (set_size h' n m2);
          f2 = foot_loc m3 h'
      in (h', s\<lparr>kpav := kp, hmem := set_last f2 h' m3\<rparr>))"

definition kmalloc_g :: "u32 \<Rightarrow> kheap \<Rightarrow> (addr \<times> kheap) option" where
  "kmalloc_g Size s = do {
     let n = kmalloc_size Size;
     h \<leftarrow> kmalloc_scan (hmem s) (kpav s) n (kpav s);
     if h = NULL \<or> hsize (hmem s h) < n then Some (NULL, s)
     else do {
       let (h', s') = (if hsize (hmem s h) - n < EU then kmalloc_whole h s else kmalloc_split h n s);
       if (h' + sizeof_header) mod ADDR_ALIGN \<noteq> 0 then None
       else Some (h' + sizeof_header, s')
     }
   }"

text \<open>The four cases of \<^verbatim>\<open>kfree_g\<close>, by whether the left and the right neighbour are occupied.\<close>

definition kfree_none :: "addr \<Rightarrow> addr \<Rightarrow> kheap \<Rightarrow> kheap" where
  "kfree_none h f s =
     (let m = set_last f h (set_tag h FREE (set_tag f FREE (hmem s))) in
      if kpav s = NULL then
        s\<lparr>kpav := h, hmem := set_next h h (set_last h h m)\<rparr>
      else
        (let kp = kpav s;
             m1 = set_last h (hlast (m kp)) (set_next h kp m);
             m2 = set_next (hlast (m1 kp)) h m1
         in s\<lparr>kpav := h, hmem := set_last kp h m2\<rparr>))"

definition kfree_right :: "addr \<Rightarrow> addr \<Rightarrow> u32 \<Rightarrow> kheap \<Rightarrow> kheap" where
  "kfree_right h rh n s =
     (let m = set_size h (hsize (hmem s rh) + n) (hmem s);
          m1 = (if hnext (m rh) = rh then set_last h h (set_next h h m)
                else (let ma = set_next h (hnext (m rh)) m in set_last h (hlast (ma rh)) ma));
          f = foot_loc m1 h;
          m2 = set_tag h FREE (set_tag f FREE (set_last f h m1));
          m3 = set_next (hlast (m2 h)) h m2;
          m4 = set_last (hnext (m3 h)) h m3
      in s\<lparr>kpav := h, hmem := m4\<rparr>)"

definition kfree_left :: "addr \<Rightarrow> addr \<Rightarrow> u32 \<Rightarrow> kheap \<Rightarrow> kheap" where
  "kfree_left h lf n s =
     (let m = hmem s; lh = hlast (m lf);
          m1 = set_size lh (hsize (m lh) + n) m;
          f = foot_loc m1 h
      in s\<lparr>hmem := set_tag f FREE (set_last f lh m1)\<rparr>)"

definition kfree_both :: "addr \<Rightarrow> addr \<Rightarrow> addr \<Rightarrow> u32 \<Rightarrow> kheap \<Rightarrow> kheap" where
  "kfree_both h lf rh n s =
     (let m = hmem s; lh = hlast (m lf);
          m1 = set_size lh (hsize (m lh) + (n + hsize (m rh))) m;
          lf' = foot_loc m1 lh;
          m2 = set_last lf' lh m1;
          m3 = set_next (hlast (m2 rh)) (hnext (m2 rh)) m2;
          m4 = set_last (hnext (m3 rh)) (hlast (m3 rh)) m3
      in s\<lparr>kpav := lh, hmem := m4\<rparr>)"

definition kfree_g :: "addr \<Rightarrow> kheap \<Rightarrow> kheap option" where
  "kfree_g P s =
     (let m = hmem s; h = P - sizeof_header; f = foot_loc m h; n = hsize (m h) in
      if P < sizeof_header \<or> P mod ADDR_ALIGN \<noteq> 0 \<or> f mod ADDR_ALIGN \<noteq> 0 \<or> hlast (m f) \<noteq> h then None
      else
        (let lf = h - sizeof_header;
             lf_tag = (if h \<le> kallocbuf s then 1 else htag (m lf));
             rh = f + sizeof_header;
             rh_tag = (if rh \<ge> kallocbuf s + KSL then 1 else htag (m rh))
         in Some (if lf_tag * 2 + rh_tag = 3 then kfree_none h f s
                  else if lf_tag * 2 + rh_tag = 2 then kfree_right h rh n s
                  else if lf_tag * 2 + rh_tag = 1 then kfree_left h lf n s
                  else kfree_both h lf rh n s)))"

section \<open>Blocks and the free list\<close>

text \<open>A block is its start, its size and whether it is free.\<close>

type_synonym blk = "addr \<times> nat \<times> bool"

definition foot_at :: "addr \<Rightarrow> nat \<Rightarrow> addr" where
  "foot_at x sz = x + sz - 24"

definition blk_ok :: "(addr \<Rightarrow> header) \<Rightarrow> blk \<Rightarrow> bool" where
  "blk_ok m b = (case b of (x, sz, fr) \<Rightarrow>
     unat (hsize (m x)) = sz \<and> htag (m x) = (if fr then FREE else OCCUPIED) \<and>
     htag (m (foot_at x sz)) = (if fr then FREE else OCCUPIED) \<and> hlast (m (foot_at x sz)) = x)"

text \<open>The blocks of a list follow each other from \<open>a\<close> to \<open>e\<close>.\<close>

fun chain :: "addr \<Rightarrow> blk list \<Rightarrow> addr \<Rightarrow> bool" where
  "chain a [] e \<longleftrightarrow> a = e"
| "chain a ((x, sz, fr) # bs) e \<longleftrightarrow> x = a \<and> 48 \<le> sz \<and> 8 dvd sz \<and> chain (a + sz) bs e"

text \<open>No two neighbours are both free.\<close>

fun coalesced :: "blk list \<Rightarrow> bool" where
  "coalesced (b # c # bs) \<longleftrightarrow> \<not> (snd (snd b) \<and> snd (snd c)) \<and> coalesced (c # bs)"
| "coalesced _ \<longleftrightarrow> True"

text \<open>Consecutive elements of a list point at each other; in \<open>cyc\<close> the ends do, too.\<close>

fun lnk :: "(addr \<Rightarrow> header) \<Rightarrow> addr list \<Rightarrow> bool" where
  "lnk m (x # y # zs) \<longleftrightarrow> hnext (m x) = y \<and> hlast (m y) = x \<and> lnk m (y # zs)"
| "lnk m _ \<longleftrightarrow> True"

definition cyc :: "(addr \<Rightarrow> header) \<Rightarrow> addr list \<Rightarrow> bool" where
  "cyc m fl \<longleftrightarrow>
     (fl \<noteq> [] \<longrightarrow> lnk m fl \<and> hnext (m (last fl)) = hd fl \<and> hlast (m (hd fl)) = last fl)"

definition heap_inv :: "kheap \<Rightarrow> blk list \<Rightarrow> addr list \<Rightarrow> bool" where
  "heap_inv s bs fl \<longleftrightarrow>
     chain (kallocbuf s) bs (kallocbuf s + KSL) \<and> (\<forall>b \<in> set bs. blk_ok (hmem s) b) \<and> coalesced bs \<and>
     distinct fl \<and> set fl = {x. \<exists>sz. (x, sz, True) \<in> set bs} \<and> cyc (hmem s) fl \<and>
     kpav s = (if fl = [] then NULL else hd fl) \<and> 0 < kallocbuf s \<and> 8 dvd kallocbuf s"

definition heap_ok :: "kheap \<Rightarrow> bool" where
  "heap_ok s \<longleftrightarrow> (\<exists>bs fl. heap_inv s bs fl)"

text \<open>The blocks, read off memory, and the regions that are handed out (address and length).\<close>

function walk :: "(addr \<Rightarrow> header) \<Rightarrow> addr \<Rightarrow> addr \<Rightarrow> blk list" where
  "walk m a e =
     (if a < e \<and> 0 < unat (hsize (m a))
      then (a, unat (hsize (m a)), htag (m a) = FREE) # walk m (a + unat (hsize (m a))) e else [])"
  by pat_completeness auto
termination by (relation "measure (\<lambda>(m, a, e). e - a)") auto

declare walk.simps [simp del]

definition hblocks :: "kheap \<Rightarrow> blk list" where
  "hblocks s = walk (hmem s) (kallocbuf s) (kallocbuf s + KSL)"

definition allocated :: "kheap \<Rightarrow> (addr \<times> nat) list" where
  "allocated s = [(x + 24, sz - 48). (x, sz, fr) \<leftarrow> hblocks s, \<not> fr]"

subsection \<open>Memory updates\<close>

lemma hdr_upd [simp]:
  "hlast (set_last a v m x) = (if x = a then v else hlast (m x))"
  "htag (set_last a v m x) = htag (m x)" "hsize (set_last a v m x) = hsize (m x)"
  "hnext (set_last a v m x) = hnext (m x)"
  "htag (set_tag a t m x) = (if x = a then t else htag (m x))"
  "hlast (set_tag a t m x) = hlast (m x)" "hsize (set_tag a t m x) = hsize (m x)"
  "hnext (set_tag a t m x) = hnext (m x)"
  "hsize (set_size a n m x) = (if x = a then n else hsize (m x))"
  "hlast (set_size a n m x) = hlast (m x)" "htag (set_size a n m x) = htag (m x)"
  "hnext (set_size a n m x) = hnext (m x)"
  "hnext (set_next a v m x) = (if x = a then v else hnext (m x))"
  "hlast (set_next a v m x) = hlast (m x)" "htag (set_next a v m x) = htag (m x)"
  "hsize (set_next a v m x) = hsize (m x)"
  by (simp_all add: set_last_def set_tag_def set_size_def set_next_def)

lemma tags [simp]: "FREE \<noteq> OCCUPIED" "OCCUPIED \<noteq> FREE"
  by (simp_all add: FREE_def OCCUPIED_def)

subsection \<open>Geometry\<close>

lemma chain_append: "chain a (xs @ ys) e \<longleftrightarrow> (\<exists>b. chain a xs b \<and> chain b ys e)"
  by (induction xs arbitrary: a) auto

lemma chain_le: "chain a bs e \<Longrightarrow> a \<le> e"
  by (induction a bs e rule: chain.induct) auto

lemma chain_bounds:
  "chain a bs e \<Longrightarrow> (x, sz, fr) \<in> set bs \<Longrightarrow> a \<le> x \<and> x + sz \<le> e \<and> 48 \<le> sz \<and> 8 dvd sz"
proof (induction a bs e rule: chain.induct)
  case (2 a y t f bs e)
  then show ?case using chain_le[of "a + t" bs e] by fastforce
qed simp

lemma chain_aligned: "chain a bs e \<Longrightarrow> 8 dvd a \<Longrightarrow> (x, sz, fr) \<in> set bs \<Longrightarrow> 8 dvd x"
  by (induction a bs e rule: chain.induct) auto

text \<open>Any two blocks are the same or apart; hence headers and feet never coincide.\<close>

lemma chain_apart:
  assumes "chain a bs e" and "(x, sz, fr) \<in> set bs" and "(y, t, g) \<in> set bs"
  shows "(x, sz, fr) = (y, t, g) \<or> x + sz \<le> y \<or> y + t \<le> x"
  using assms
proof (induction a bs e rule: chain.induct)
  case (2 a z u f bs e)
  then show ?case
    using chain_bounds[of "a + u" bs e x sz fr] chain_bounds[of "a + u" bs e y t g] by auto
qed simp

lemma foot_not_header:
  "chain a bs e \<Longrightarrow> (x, sz, fr) \<in> set bs \<Longrightarrow> (y, t, g) \<in> set bs \<Longrightarrow> foot_at x sz \<noteq> y"
  using chain_apart[of a bs e x sz fr y t g] chain_bounds[of a bs e x sz fr]
    chain_bounds[of a bs e y t g] by (auto simp: foot_at_def)

lemma foot_inj:
  "chain a bs e \<Longrightarrow> (x, sz, fr) \<in> set bs \<Longrightarrow> (y, t, g) \<in> set bs \<Longrightarrow>
   foot_at x sz = foot_at y t \<Longrightarrow> x = y"
  using chain_apart[of a bs e x sz fr y t g] chain_bounds[of a bs e x sz fr]
    chain_bounds[of a bs e y t g] by (auto simp: foot_at_def)

lemma foot_neq:
  "chain a bs e \<Longrightarrow> (x, sz, fr) \<in> set bs \<Longrightarrow> (y, t, g) \<in> set bs \<Longrightarrow> x \<noteq> y \<Longrightarrow>
   foot_at x sz \<noteq> foot_at y t"
  by (rule notI) (drule (3) foot_inj, simp)

lemma start_inj:
  "chain a bs e \<Longrightarrow> (x, sz, fr) \<in> set bs \<Longrightarrow> (x, t, g) \<in> set bs \<Longrightarrow> sz = t \<and> fr = g"
  using chain_apart[of a bs e x sz fr x t g] chain_bounds[of a bs e] by fastforce

lemma chain_split_at:
  assumes "chain a (as @ (h, sz, fr) # cs) e"
  shows "chain a as h" and "chain (h + sz) cs e" and "48 \<le> sz" and "8 dvd sz"
  using assms by (auto simp: chain_append)

lemma chain_other:
  assumes "chain a (as @ (h, sz, fr) # cs) e" and "(x, t, g) \<in> set (as @ cs)"
  shows "48 \<le> t \<and> (x + t \<le> h \<or> h + sz \<le> x)"
proof (cases "(x, t, g) \<in> set as")
  case True
  then show ?thesis using chain_bounds[OF chain_split_at(1)[OF assms(1)]] by blast
next
  case False
  then have "(x, t, g) \<in> set cs" using assms(2) by simp
  then show ?thesis using chain_bounds[OF chain_split_at(2)[OF assms(1)]] by blast
qed

lemma walk_chain:
  "chain a bs e \<Longrightarrow> \<forall>b \<in> set bs. blk_ok m b \<Longrightarrow> walk m a e = bs"
proof (induction a bs e rule: chain.induct)
  case (1 a e)
  then show ?case by (simp add: walk.simps)
next
  case (2 a x sz fr bs e)
  then have "a < e" using chain_le[of "a + sz" bs e] by auto
  with 2 show ?case by (subst walk.simps) (auto simp: blk_ok_def)
qed

lemma hblocks_inv: "heap_inv s bs fl \<Longrightarrow> hblocks s = bs"
  by (simp add: hblocks_def heap_inv_def walk_chain)

subsection \<open>The free list\<close>

lemma lnk_append:
  "lnk m (xs @ ys) \<longleftrightarrow> lnk m xs \<and> lnk m ys \<and>
     (xs \<noteq> [] \<and> ys \<noteq> [] \<longrightarrow> hnext (m (last xs)) = hd ys \<and> hlast (m (hd ys)) = last xs)"
proof (induction xs)
  case (Cons x xs)
  then show ?case by (cases xs; cases ys) auto
qed simp

lemma cyc_rotate: "cyc m (xs @ ys) \<Longrightarrow> cyc m (ys @ xs)"
  by (cases "xs = []"; cases "ys = []") (auto simp: cyc_def lnk_append)

lemma cyc_Cons:
  "cyc m (h # ys) \<longleftrightarrow>
     (if ys = [] then hnext (m h) = h \<and> hlast (m h) = h
      else lnk m ys \<and> hnext (m h) = hd ys \<and> hlast (m (hd ys)) = h \<and>
        hnext (m (last ys)) = h \<and> hlast (m h) = last ys)"
  by (cases ys) (auto simp: cyc_def)

lemma cyc_next: "cyc m (h # l) \<Longrightarrow> hnext (m h) = hd (l @ [h])"
  by (cases l) (auto simp: cyc_Cons split: if_splits)

lemma in_set_tlD: "x \<in> set (tl xs) \<Longrightarrow> x \<in> set xs"
  by (cases xs) auto

lemma lnk_frame:
  "\<forall>x \<in> set (butlast xs). hnext (m' x) = hnext (m x) \<Longrightarrow>
   \<forall>x \<in> set (tl xs). hlast (m' x) = hlast (m x) \<Longrightarrow> lnk m' xs = lnk m xs"
proof (induction xs)
  case (Cons x xs)
  then show ?case by (cases xs) auto
qed simp

lemma cyc_frame:
  "\<forall>x \<in> set fl. hnext (m' x) = hnext (m x) \<and> hlast (m' x) = hlast (m x) \<Longrightarrow> cyc m fl \<Longrightarrow> cyc m' fl"
proof -
  assume a: "\<forall>x \<in> set fl. hnext (m' x) = hnext (m x) \<and> hlast (m' x) = hlast (m x)" "cyc m fl"
  then have "lnk m' fl = lnk m fl"
    by (intro lnk_frame) (auto dest: in_set_butlastD in_set_tlD)
  with a show "cyc m' fl" by (cases fl) (auto simp: cyc_def)
qed

lemma last_notin_butlast: "distinct xs \<Longrightarrow> xs \<noteq> [] \<Longrightarrow> last xs \<notin> set (butlast xs)"
  by (induction xs) auto

lemma hd_notin_tl: "distinct xs \<Longrightarrow> xs \<noteq> [] \<Longrightarrow> hd xs \<notin> set (tl xs)"
  by (cases xs) auto

lemma cyc_remove:
  assumes "cyc m (h # ys)" and "distinct (h # ys)" and "ys \<noteq> []"
    and "\<And>x. x \<in> set ys \<Longrightarrow> hnext (m' x) = (if x = last ys then hd ys else hnext (m x))"
    and "\<And>x. x \<in> set ys \<Longrightarrow> hlast (m' x) = (if x = hd ys then last ys else hlast (m x))"
  shows "cyc m' ys"
proof -
  have "lnk m' ys = lnk m ys"
  proof (rule lnk_frame; intro ballI)
    fix x assume x: "x \<in> set (butlast ys)"
    then have "x \<noteq> last ys" using assms(2,3) last_notin_butlast[of ys] by auto
    then show "hnext (m' x) = hnext (m x)"
      using assms(4)[OF in_set_butlastD[OF x]] by simp
  next
    fix x assume x: "x \<in> set (tl ys)"
    then have "x \<noteq> hd ys" using assms(2,3) hd_notin_tl[of ys] by auto
    then show "hlast (m' x) = hlast (m x)"
      using assms(5)[OF in_set_tlD[OF x]] by simp
  qed
  moreover have "lnk m ys" using assms(1,3) by (simp add: cyc_Cons)
  ultimately show ?thesis using assms(3-5) by (simp add: cyc_def)
qed

text \<open>A new head in front of \<open>ys\<close>, which replaces what stood between the ends of \<open>ys\<close>.\<close>

lemma cyc_insert:
  assumes "lnk m ys" and "distinct (h # ys)" and "ys \<noteq> []"
    and "\<And>x. x \<in> set ys \<Longrightarrow> hnext (m' x) = (if x = last ys then h else hnext (m x))"
    and "\<And>x. x \<in> set ys \<Longrightarrow> hlast (m' x) = (if x = hd ys then h else hlast (m x))"
    and "hnext (m' h) = hd ys" and "hlast (m' h) = last ys"
  shows "cyc m' (h # ys)"
proof -
  have "lnk m' ys = lnk m ys"
  proof (rule lnk_frame; intro ballI)
    fix x assume x: "x \<in> set (butlast ys)"
    then have "x \<noteq> last ys" using assms(2,3) last_notin_butlast[of ys] by auto
    then show "hnext (m' x) = hnext (m x)"
      using assms(4)[OF in_set_butlastD[OF x]] by simp
  next
    fix x assume x: "x \<in> set (tl ys)"
    then have "x \<noteq> hd ys" using assms(2,3) hd_notin_tl[of ys] by auto
    then show "hlast (m' x) = hlast (m x)"
      using assms(5)[OF in_set_tlD[OF x]] by simp
  qed
  with assms show ?thesis by (simp add: cyc_Cons)
qed

lemma coalesced_append:
  "coalesced (xs @ ys) \<longleftrightarrow> coalesced xs \<and> coalesced ys \<and>
     (xs \<noteq> [] \<and> ys \<noteq> [] \<longrightarrow> \<not> (snd (snd (last xs)) \<and> snd (snd (hd ys))))"
proof (induction xs)
  case (Cons x xs)
  then show ?case by (cases xs; cases ys) auto
qed simp

lemma coalesced_Cons:
  "coalesced (b # bs) \<longleftrightarrow> coalesced bs \<and> (bs \<noteq> [] \<longrightarrow> \<not> (snd (snd b) \<and> snd (snd (hd bs))))"
  by (cases bs) auto

section \<open>Allocation\<close>

lemma kmalloc_scan_spec:
  assumes "cyc m fl" and "distinct fl" and "NULL \<notin> set fl" and "fl = xs @ h # ys"
  shows "\<exists>r \<in> set (h # ys). kmalloc_scan m (hd fl) n h = Some r \<and>
     (hsize (m r) < n \<longrightarrow> (\<forall>x \<in> set (h # ys). hsize (m x) < n))"
  using assms(4)
proof (induction ys arbitrary: xs h)
  case Nil
  then have "hnext (m h) = hd fl" using assms(1) by (simp add: cyc_def)
  then have "kmalloc_scan m (hd fl) n h = Some h" by (subst kmalloc_scan.simps) simp
  then show ?case by simp
next
  case (Cons y ys)
  have n: "hnext (m h) = y" using assms(1) Cons.prems by (simp add: cyc_def lnk_append)
  have "y \<noteq> hd fl" using assms(2) Cons.prems by (cases xs) auto
  moreover have "h \<noteq> NULL" using assms(3) Cons.prems by auto
  ultimately have eq: "kmalloc_scan m (hd fl) n h =
    (if hsize (m h) < n then kmalloc_scan m (hd fl) n y else Some h)"
    using n by (subst kmalloc_scan.simps) simp
  show ?case
  proof (cases "hsize (m h) < n")
    case True
    then show ?thesis using Cons.IH[of "xs @ [h]" y] Cons.prems eq by force
  next
    case False
    then show ?thesis using eq by simp
  qed
qed

text \<open>A block in the middle of the heap, its neighbours and the headers that list updates touch.\<close>

lemma heap_inv_free_header:
  "heap_inv s bs fl \<Longrightarrow> y \<in> set fl \<Longrightarrow> \<exists>t. (y, t, True) \<in> set bs"
  by (auto simp: heap_inv_def)

lemma heap_inv_NULL: "heap_inv s bs fl \<Longrightarrow> NULL \<notin> set fl"
proof
  assume inv: "heap_inv s bs fl" and "NULL \<in> set fl"
  then obtain t where "(NULL, t, True) \<in> set bs" using heap_inv_free_header by blast
  then show False using inv chain_bounds[of "kallocbuf s" bs "kallocbuf s + KSL" NULL t True]
    by (simp add: heap_inv_def)
qed

lemma heap_inv_foot_not_free:
  "heap_inv s bs fl \<Longrightarrow> (x, sz, fr) \<in> set bs \<Longrightarrow> foot_at x sz \<notin> set fl"
  using foot_not_header by (fastforce simp: heap_inv_def)

lemma blk_ok_frame:
  assumes "blk_ok m (x, sz, fr)" and "hsize (m' x) = hsize (m x)" and "htag (m' x) = htag (m x)"
    and "htag (m' (foot_at x sz)) = htag (m (foot_at x sz))"
    and "hlast (m' (foot_at x sz)) = hlast (m (foot_at x sz))"
  shows "blk_ok m' (x, sz, fr)"
  using assms by (simp add: blk_ok_def)

lemma free_set_split:
  assumes "chain a (as @ (h, sz, True) # cs) e"
  shows "{x. \<exists>t. (x, t, True) \<in> set (as @ (h, sz, True) # cs)} - {h} =
    {x. \<exists>t. (x, t, True) \<in> set (as @ cs)}"
proof -
  have "x \<noteq> h" if "(x, t, True) \<in> set (as @ cs)" for x t
    using chain_other[OF assms that] chain_split_at(3)[OF assms] by auto
  then show ?thesis by auto
qed

lemma kmalloc_whole_inv:
  assumes inv: "heap_inv s bs fl" and bs: "bs = as @ (h, sz, True) # cs" and fl: "fl = xs @ h # ys"
  shows "\<exists>s'. kmalloc_whole h s = (h, s') \<and> kallocbuf s' = kallocbuf s \<and>
     heap_inv s' (as @ (h, sz, False) # cs) (ys @ xs)"
proof -
  let ?m = "hmem s" and ?f = "foot_at h sz"
  define l where "l = ys @ xs"
  define s' where "s' = snd (kmalloc_whole h s)"
  from inv have ch: "chain (kallocbuf s) bs (kallocbuf s + KSL)" and ok: "\<forall>b \<in> set bs. blk_ok ?m b"
    and co: "coalesced bs" and di: "distinct fl" and cy: "cyc ?m fl" by (auto simp: heap_inv_def)
  have hb: "(h, sz, True) \<in> set bs" using bs by simp
  have foot: "foot_loc ?m h = ?f" using ok bs by (simp add: foot_loc_def blk_ok_def sizeof_header_def foot_at_def)
  have rot: "cyc ?m (h # l)" using cyc_rotate[of ?m xs "h # ys"] cy fl by (simp add: l_def)
  have dl: "distinct (h # l)" using di fl by (auto simp: l_def)
  have set: "set fl = insert h (set l)" using fl by (auto simp: l_def)
  have nf: "foot_at x t \<notin> set fl" if "(x, t, g) \<in> set bs" for x t g
    using heap_inv_foot_not_free[OF inv that] .
  have mem: "hmem s' = set_tag h OCCUPIED (set_tag ?f OCCUPIED
      (if l = [] then ?m else set_last (hd l) (last l) (set_next (last l) (hd l) ?m)))"
    and kp: "kpav s' = (if l = [] then NULL else hd l)" and kb: "kallocbuf s' = kallocbuf s"
    using rot dl foot by (cases "l = []"; auto simp: s'_def kmalloc_whole_def Let_def cyc_Cons split: if_splits)+
  have "blk_ok (hmem s') (x, t, g)" if b: "(x, t, g) \<in> set (as @ cs)" for x t g
  proof -
    have b': "(x, t, g) \<in> set bs" using b bs by auto
    have "x \<noteq> h"
      using chain_other[OF ch[unfolded bs] b] chain_split_at(3)[OF ch[unfolded bs]] by auto
    moreover have "x \<noteq> ?f" using foot_not_header[OF ch hb b'] by simp
    moreover have "foot_at x t \<noteq> h" using foot_not_header[OF ch b' hb] .
    moreover have "foot_at x t \<noteq> ?f" using foot_neq[OF ch b' hb] \<open>x \<noteq> h\<close> .
    moreover have "foot_at x t \<noteq> hd l" if "l \<noteq> []"
      using nf[OF b'] set hd_in_set[OF that] by (metis insert_iff)
    ultimately show ?thesis using ok b' by - (rule blk_ok_frame[of ?m], simp_all add: mem)
  qed
  moreover have "blk_ok (hmem s') (h, sz, False)"
  proof -
    have "?f \<noteq> h" using foot_not_header[OF ch hb hb] .
    moreover have "?f \<noteq> hd l" if "l \<noteq> []"
      using nf[OF hb] set hd_in_set[OF that] by (metis insert_iff)
    ultimately show ?thesis using ok hb by (auto simp: blk_ok_def mem)
  qed
  moreover have "chain (kallocbuf s) (as @ (h, sz, False) # cs) (kallocbuf s + KSL)"
    using ch bs by (auto simp: chain_append)
  moreover have "coalesced (as @ (h, sz, False) # cs)"
    using co bs by (auto simp: coalesced_append coalesced_Cons)
  moreover have "set l = {x. \<exists>t. (x, t, True) \<in> set (as @ (h, sz, False) # cs)}"
  proof -
    have "set l = set fl - {h}" using set dl by auto
    also have "\<dots> = {x. \<exists>t. (x, t, True) \<in> set bs} - {h}" using inv by (simp add: heap_inv_def)
    also have "\<dots> = {x. \<exists>t. (x, t, True) \<in> set (as @ cs)}"
      unfolding bs by (rule free_set_split[OF ch[unfolded bs]])
    finally show ?thesis by auto
  qed
  moreover have "cyc (hmem s') l"
  proof (cases "l = []")
    case False
    show ?thesis by (rule cyc_remove[OF rot dl False]) (auto simp: mem False)
  qed (simp add: cyc_def)
  ultimately have "heap_inv s' (as @ (h, sz, False) # cs) l"
    using inv dl kp kb by (auto simp: heap_inv_def)
  moreover have "kmalloc_whole h s = (h, s')"
    by (simp add: s'_def kmalloc_whole_def Let_def split_beta)
  ultimately show ?thesis using kb unfolding l_def by blast
qed

lemma kmalloc_split_inv:
  assumes inv: "heap_inv s bs fl" and bs: "bs = as @ (h, sz, True) # cs" and fl: "fl = xs @ h # ys"
    and n: "48 \<le> unat n" "8 dvd unat n" "unat n + 64 \<le> sz"
  shows "\<exists>s'. kmalloc_split h n s = (h + sz - unat n, s') \<and> kallocbuf s' = kallocbuf s \<and>
     heap_inv s' (as @ (h, sz - unat n, True) # (h + sz - unat n, unat n, False) # cs) (ys @ xs @ [h])"
proof -
  let ?m = "hmem s" and ?f = "foot_at h sz" and ?g = "foot_at h (sz - unat n)" and ?h = "h + sz - unat n"
  define s' where "s' = snd (kmalloc_split h n s)"
  from inv have ch: "chain (kallocbuf s) bs (kallocbuf s + KSL)" and ok: "\<forall>b \<in> set bs. blk_ok ?m b"
    and co: "coalesced bs" and di: "distinct fl" and cy: "cyc ?m fl" by (auto simp: heap_inv_def)
  have hb: "(h, sz, True) \<in> set bs" using bs by simp
  have szh: "unat (hsize (?m h)) = sz" using ok hb by (auto simp: blk_ok_def)
  have sub: "unat (hsize (?m h) - n) = sz - unat n"
    using n szh by (simp add: unat_sub_if_size word_le_nat_alt)
  have foot: "foot_loc ?m h = ?f" by (simp add: foot_loc_def szh sizeof_header_def foot_at_def)
  have gh: "?g + 24 = ?h" "?h + unat n - 24 = ?f" using n by (auto simp: foot_at_def)
  have mem: "hmem s' = set_last ?f ?h (set_tag ?h OCCUPIED (set_size ?h n
      (set_last ?g h (set_tag ?g FREE (set_size h (hsize (?m h) - n) (set_tag ?f OCCUPIED ?m))))))"
    and kp: "kpav s' = hnext (?m h)" and kb: "kallocbuf s' = kallocbuf s"
    and res: "kmalloc_split h n s = (?h, s')"
    using gh sub foot
    by (simp_all add: s'_def kmalloc_split_def Let_def foot_loc_def sizeof_header_def foot_at_def szh)
  have loc: "h < ?g" "?g < ?h" "?h < ?f" "?f < h + sz" "h \<noteq> ?g" "h \<noteq> ?h" "h \<noteq> ?f" "?g \<noteq> ?h" "?g \<noteq> ?f" "?h \<noteq> ?f"
    using n by (auto simp: foot_at_def)
  have "blk_ok (hmem s') (x, t, g)" if b: "(x, t, g) \<in> set (as @ cs)" for x t g
  proof -
    have b': "(x, t, g) \<in> set bs" using b bs by auto
    have "x + t \<le> h \<or> h + sz \<le> x" "48 \<le> t" using chain_other[OF ch[unfolded bs] b] by auto
    then have "y \<noteq> x \<and> y \<noteq> foot_at x t" if "h \<le> y" "y < h + sz" for y
      using that by (auto simp: foot_at_def)
    then have "h \<noteq> x" "h \<noteq> foot_at x t" "?g \<noteq> x" "?g \<noteq> foot_at x t" "?h \<noteq> x" "?h \<noteq> foot_at x t"
      "?f \<noteq> x" "?f \<noteq> foot_at x t" using loc(1-4) by (metis less_imp_le le_trans less_trans order_refl)+
    then show ?thesis using ok b' by - (rule blk_ok_frame[of ?m], simp_all add: mem)
  qed
  moreover have "blk_ok (hmem s') (h, sz - unat n, True)"
  proof -
    have "htag (?m h) = FREE" using ok hb by (auto simp: blk_ok_def)
    then show ?thesis using sub loc(5-) by (simp add: blk_ok_def mem)
  qed
  moreover have "blk_ok (hmem s') (?h, unat n, False)"
  proof -
    have "foot_at ?h (unat n) = ?f" using gh(2) by (simp add: foot_at_def)
    then show ?thesis using loc(5-) by (simp add: blk_ok_def mem)
  qed
  moreover have "chain (kallocbuf s) (as @ (h, sz - unat n, True) # (?h, unat n, False) # cs) (kallocbuf s + KSL)"
    using ch bs n by (auto simp: chain_append)
  moreover have "coalesced (as @ (h, sz - unat n, True) # (?h, unat n, False) # cs)"
    using co bs by (auto simp: coalesced_append coalesced_Cons)
  moreover have "set (ys @ xs @ [h]) =
      {x. \<exists>t. (x, t, True) \<in> set (as @ (h, sz - unat n, True) # (?h, unat n, False) # cs)}"
    using inv by (auto simp: heap_inv_def bs fl)
  moreover have "cyc (hmem s') (ys @ xs @ [h])"
  proof (rule cyc_frame[of _ _ ?m])
    show "cyc ?m (ys @ xs @ [h])" using cyc_rotate[of ?m "xs @ [h]" ys] cy fl by simp
    have "?f \<notin> set fl" using heap_inv_foot_not_free[OF inv hb] .
    moreover have "?g \<notin> set fl"
    proof
      assume "?g \<in> set fl"
      then obtain t where "(?g, t, True) \<in> set bs" using heap_inv_free_header[OF inv] by blast
      then show False using chain_apart[OF ch _ hb] loc by fastforce
    qed
    ultimately show "\<forall>x \<in> set (ys @ xs @ [h]).
        hnext (hmem s' x) = hnext (?m x) \<and> hlast (hmem s' x) = hlast (?m x)"
      using fl by (auto simp: mem)
  qed
  moreover have "kpav s' = hd (ys @ xs @ [h])"
  proof -
    have "cyc ?m (h # ys @ xs)" using cyc_rotate[of ?m xs "h # ys"] cy fl by simp
    then show ?thesis using cyc_next[of ?m h "ys @ xs"] by (simp add: kp)
  qed
  ultimately have "heap_inv s' (as @ (h, sz - unat n, True) # (?h, unat n, False) # cs) (ys @ xs @ [h])"
    using inv di fl kb by (auto simp: heap_inv_def)
  with res kb show ?thesis by blast
qed

text \<open>The requested length with the two headers, rounded up: no wrap-around below 4 GiB - 56.\<close>

lemma kmalloc_size_nat:
  assumes "unat Size \<le> 4294967240"
  shows "unat Size + 48 \<le> unat (kmalloc_size Size)" and "unat (kmalloc_size Size) \<le> unat Size + 55"
    and "8 dvd unat (kmalloc_size Size)"
proof -
  let ?a = "7 + ucast (Size + 48) :: u64"
  have a: "unat ?a = unat Size + 55"
    using assms by (simp add: unat_word_ariths unsigned_ucast_eq take_bit_eq_mod)
  have "(7 :: u64) = mask 3" by (simp add: mask_eq_exp_minus_1)
  then have "unat (?a AND NOT 7) = 8 * ((unat Size + 55) div 8)"
    using unat_and_not_mask[of ?a 3] a by (simp only:) simp
  then have *: "unat (kmalloc_size Size) = 8 * ((unat Size + 55) div 8)"
    using assms by (simp add: kmalloc_size_def ROUND_def sizeof_header_def ADDR_ALIGN_def
        unsigned_ucast_eq take_bit_eq_mod)
  show "unat Size + 48 \<le> unat (kmalloc_size Size)" "unat (kmalloc_size Size) \<le> unat Size + 55"
    "8 dvd unat (kmalloc_size Size)" using * by simp_all
qed

lemma allocated_inv: "heap_inv s bs fl \<Longrightarrow> allocated s = [(x + 24, sz - 48). (x, sz, fr) \<leftarrow> bs, \<not> fr]"
  by (simp add: allocated_def hblocks_inv)

lemma allocated_image:
  "heap_inv s bs fl \<Longrightarrow> set (allocated s) = (\<lambda>(x, t). (x + 24, t - 48)) ` {(x, t). (x, t, False) \<in> set bs}"
  unfolding allocated_inv by (force simp: image_iff)

lemma allocated_mem_iff:
  assumes "heap_inv s bs fl"
  shows "(p, k) \<in> set (allocated s) \<longleftrightarrow> (\<exists>x sz. (x, sz, False) \<in> set bs \<and> p = x + 24 \<and> k = sz - 48)"
  unfolding allocated_inv[OF assms] by (force split: if_splits)

text \<open>
  What a client relies on: a region \<open>(p, k)\<close> of the heap area that overlaps no other region
  \<open>R\<close> (the 24 bytes of headers on both sides included).
\<close>

definition region_fresh :: "kheap \<Rightarrow> addr \<Rightarrow> nat \<Rightarrow> (addr \<times> nat) set \<Rightarrow> bool" where
  "region_fresh s p k R \<longleftrightarrow>
     kallocbuf s + 24 \<le> p \<and> p + k + 24 \<le> kallocbuf s + KSL \<and> p mod 8 = 0 \<and>
     (\<forall>(q, l) \<in> R. p + k + 48 \<le> q \<or> q + l + 48 \<le> p)"

lemma kmalloc_g_correct:
  assumes ok: "heap_ok s" and sz: "unat Size \<le> 4294967240"
  shows "\<exists>p s'. kmalloc_g Size s = Some (p, s') \<and> heap_ok s' \<and> kallocbuf s' = kallocbuf s \<and>
    (if p = NULL then s' = s \<and> (\<forall>(x, t, fr) \<in> set (hblocks s). fr \<longrightarrow> t < unat (kmalloc_size Size))
     else \<exists>k. unat Size \<le> k \<and> set (allocated s') = insert (p, k) (set (allocated s)) \<and>
       region_fresh s p k (set (allocated s)))"
proof -
  obtain bs fl where inv: "heap_inv s bs fl" using ok by (auto simp: heap_ok_def)
  let ?m = "hmem s" and ?n = "kmalloc_size Size"
  note n = kmalloc_size_nat[OF sz]
  have ch: "chain (kallocbuf s) bs (kallocbuf s + KSL)" and okb: "\<forall>b \<in> set bs. blk_ok ?m b"
    and pos: "0 < kallocbuf s" and al: "8 dvd kallocbuf s" using inv by (auto simp: heap_inv_def)
  have null: "NULL \<notin> set fl" using heap_inv_NULL[OF inv] .
  show ?thesis
  proof (cases fl)
    case Nil
    then have "kmalloc_g Size s = Some (NULL, s)"
      using inv by (simp add: kmalloc_g_def heap_inv_def kmalloc_scan.simps)
    then show ?thesis using ok inv Nil by (auto simp: hblocks_inv[OF inv] heap_inv_def)
  next
    case (Cons f fs)
    then have kp: "kpav s = f" using inv by (simp add: heap_inv_def)
    have cy: "cyc ?m fl" and di: "distinct fl" using inv by (simp_all add: heap_inv_def)
    have "\<exists>r \<in> set (f # fs). kmalloc_scan ?m (hd fl) ?n f = Some r \<and>
       (hsize (?m r) < ?n \<longrightarrow> (\<forall>x \<in> set (f # fs). hsize (?m x) < ?n))"
      using Cons by (intro kmalloc_scan_spec[OF cy di null, of "[]"]) simp
    then obtain h where hfl: "h \<in> set fl" and scan: "kmalloc_scan ?m f ?n f = Some h"
      and small: "hsize (?m h) < ?n \<longrightarrow> (\<forall>x \<in> set fl. hsize (?m x) < ?n)"
      using Cons by auto
    obtain t where hb: "(h, t, True) \<in> set bs" using heap_inv_free_header[OF inv hfl] by blast
    have ht: "unat (hsize (?m h)) = t" using okb hb by (auto simp: blk_ok_def)
    have hnz: "h \<noteq> NULL" using hfl null by metis
    show ?thesis
    proof (cases "hsize (?m h) < ?n")
      case True
      then have "kmalloc_g Size s = Some (NULL, s)"
        using scan kp by (simp add: kmalloc_g_def)
      moreover have "t' < unat ?n" if "(x, t', True) \<in> set bs" for x t'
      proof -
        have "x \<in> set fl" "unat (hsize (?m x)) = t'" using that inv okb by (auto simp: heap_inv_def blk_ok_def)
        then show ?thesis using small True by (auto simp: word_less_nat_alt)
      qed
      ultimately show ?thesis using ok by (auto simp: hblocks_inv[OF inv])
    next
      case False
      then have nt: "unat ?n \<le> t" using ht by (simp add: word_le_nat_alt not_less)
      have sub: "unat (hsize (?m h) - ?n) = t - unat ?n"
        using nt ht by (simp add: unat_sub_if_size word_le_nat_alt)
      obtain as cs where bs: "bs = as @ (h, t, True) # cs" using hb by (metis split_list)
      obtain xs ys where fl: "fl = xs @ h # ys" using hfl by (metis split_list)
      have al8: "8 dvd h" using chain_aligned[OF ch al hb] .
      have bnd: "kallocbuf s \<le> h" "h + t \<le> kallocbuf s + KSL" "8 dvd t" using chain_bounds[OF ch hb] by auto
      have reg: "region_fresh s (x + 24) (u - 48) (set (allocated s))"
        if "h \<le> x" "x + u \<le> h + t" "48 \<le> u" "8 dvd x" for x u
      proof -
        have "x + u + 24 \<le> q \<or> q + l + 24 \<le> x" if ql: "(q, l) \<in> set (allocated s)" for q l
        proof -
          obtain y w where y: "(y, w, False) \<in> set bs" "q = y + 24" "l = w - 48"
            using ql by (auto simp: allocated_mem_iff[OF inv])
          then show ?thesis
            using chain_apart[OF ch hb y(1)] chain_bounds[OF ch y(1)] \<open>h \<le> x\<close> \<open>x + u \<le> h + t\<close> by auto
        qed
        then show ?thesis
          using that bnd by (fastforce simp: region_fresh_def)
      qed
      show ?thesis
      proof (cases "t - unat ?n < 64")
        case True
        obtain s' where s': "kmalloc_whole h s = (h, s')" "kallocbuf s' = kallocbuf s"
          "heap_inv s' (as @ (h, t, False) # cs) (ys @ xs)"
          using kmalloc_whole_inv[OF inv bs fl] by blast
        have "kmalloc_g Size s = Some (h + 24, s')"
          using scan kp False hnz True sub s'(1) al8
          by (simp add: kmalloc_g_def EU_def word_less_nat_alt sizeof_header_def ADDR_ALIGN_def)
        moreover have "set (allocated s') = insert (h + 24, t - 48) (set (allocated s))"
          unfolding allocated_inv[OF s'(3)] allocated_inv[OF inv] bs by auto
        ultimately show ?thesis
          using s'(2,3) reg[of h t] n nt hnz al8 by (auto simp: heap_ok_def intro!: exI[of _ "t - 48"])
      next
        case split: False
        define g where "g = h + t - unat ?n"
        obtain s' where s': "kmalloc_split h ?n s = (g, s')" "kallocbuf s' = kallocbuf s"
          "heap_inv s' (as @ (h, t - unat ?n, True) # (g, unat ?n, False) # cs) (ys @ xs @ [h])"
          using kmalloc_split_inv[OF inv bs fl, of ?n] n split unfolding g_def by force
        have h8: "8 dvd g" using al8 bnd(3) n(3) nt by (simp add: dvd_diff_nat g_def)
        have g: "h \<le> g" "g + unat ?n = h + t" using nt by (simp_all add: g_def)
        from h8 have "kmalloc_g Size s = Some (g + 24, s')"
          using scan kp False hnz split sub s'(1)
          by (simp add: kmalloc_g_def EU_def word_less_nat_alt sizeof_header_def ADDR_ALIGN_def)
        moreover have "set (allocated s') = insert (g + 24, unat ?n - 48) (set (allocated s))"
          unfolding allocated_inv[OF s'(3)] allocated_inv[OF inv] bs by auto
        ultimately show ?thesis
          using s'(2,3) reg[of g "unat ?n"] n nt h8 g
          by (auto simp: heap_ok_def intro!: exI[of _ "unat ?n - 48"])
      qed
    qed
  qed
qed

section \<open>Release\<close>

text \<open>The block that is freed, its neighbours, and what the invariant says of them.\<close>

lemma left_foot:
  assumes "heap_inv s (as @ (h, sz, fr) # cs) fl"
  shows "as = [] \<Longrightarrow> h = kallocbuf s"
    and "as = ls @ [(lx, lsz, lfr)] \<Longrightarrow> kallocbuf s < h \<and> h = lx + lsz \<and> h - 24 = foot_at lx lsz"
  using assms chain_le by (fastforce simp: heap_inv_def chain_append foot_at_def)+

lemma right_head:
  assumes "heap_inv s (as @ (h, sz, fr) # cs) fl"
  shows "cs = [] \<Longrightarrow> h + sz = kallocbuf s + KSL"
    and "cs = (rx, rsz, rfr) # rs \<Longrightarrow> h + sz < kallocbuf s + KSL \<and> rx = h + sz"
  using assms chain_le by (fastforce simp: heap_inv_def chain_append)+

lemma kfree_none_inv:
  assumes inv: "heap_inv s (as @ (h, sz, False) # cs) fl"
    and nf: "as \<noteq> [] \<Longrightarrow> \<not> snd (snd (last as))" "cs \<noteq> [] \<Longrightarrow> \<not> snd (snd (hd cs))"
  shows "heap_inv (kfree_none h (foot_at h sz) s) (as @ (h, sz, True) # cs) (h # fl)"
proof -
  let ?m = "hmem s" and ?f = "foot_at h sz" and ?bs = "as @ (h, sz, False) # cs"
  define s' where "s' = kfree_none h ?f s"
  have ch: "chain (kallocbuf s) ?bs (kallocbuf s + KSL)" and ok: "\<forall>b \<in> set ?bs. blk_ok ?m b"
    and co: "coalesced ?bs" and di: "distinct fl" and cy: "cyc ?m fl" using inv by (auto simp: heap_inv_def)
  have hb: "(h, sz, False) \<in> set ?bs" by simp
  have hfl: "h \<notin> set fl" using heap_inv_free_header[OF inv] start_inj[OF ch hb] by blast
  have kp: "kpav s = (if fl = [] then NULL else hd fl)" using inv by (simp add: heap_inv_def)
  have kpn: "NULL \<notin> set fl" using heap_inv_NULL[OF inv] .
  have ffl: "foot_at x t \<notin> set fl" if "(x, t, g) \<in> set ?bs" for x t g
    using heap_inv_foot_not_free[OF inv that] .
  have kn: "fl \<noteq> [] \<Longrightarrow> hd fl \<noteq> NULL" using kpn by (metis hd_in_set)
  have fh: "?f \<noteq> h" using foot_not_header[OF ch hb hb] .
  have hd_l: "fl \<noteq> [] \<Longrightarrow> hd fl \<in> set fl \<and> last fl \<in> set fl \<and> hlast (?m (hd fl)) = last fl"
    using cy by (auto simp: cyc_def)
  have mem: "hmem s' = (let m = set_last ?f h (set_tag h FREE (set_tag ?f FREE ?m)) in
      if fl = [] then set_next h h (set_last h h m)
      else set_last (hd fl) h (set_next (last fl) h (set_last h (last fl) (set_next h (hd fl) m))))"
  proof (cases "fl = []")
    case False
    have "hd fl \<noteq> h" "hd fl \<noteq> ?f" using hd_l[OF False] hfl ffl[OF hb] by metis+
    then show ?thesis using kp kn False hd_l by (simp add: s'_def kfree_none_def Let_def)
  qed (use kp in \<open>simp add: s'_def kfree_none_def Let_def\<close>)
  have "kpav s' = h" "kallocbuf s' = kallocbuf s" by (simp_all add: s'_def kfree_none_def Let_def)
  moreover have "blk_ok (hmem s') (x, t, g)" if b: "(x, t, g) \<in> set (as @ cs)" for x t g
  proof -
    have b': "(x, t, g) \<in> set ?bs" using b by auto
    have "x \<noteq> h" using chain_other[OF ch b] chain_split_at(3)[OF ch] by auto
    moreover have "x \<noteq> ?f" using foot_not_header[OF ch hb b'] by simp
    moreover have "foot_at x t \<noteq> h" using foot_not_header[OF ch b' hb] .
    moreover have "foot_at x t \<noteq> ?f" using foot_neq[OF ch b' hb] \<open>x \<noteq> h\<close> .
    moreover have "foot_at x t \<noteq> hd fl" if "fl \<noteq> []" using ffl[OF b'] hd_l[OF that] by metis
    ultimately show ?thesis using ok b' by - (rule blk_ok_frame[of ?m], simp_all add: mem Let_def)
  qed
  moreover have "blk_ok (hmem s') (h, sz, True)"
  proof -
    have "unat (hsize (?m h)) = sz" using ok by (simp add: blk_ok_def)
    moreover have "?f \<noteq> hd fl" if "fl \<noteq> []" using ffl[OF hb] hd_l[OF that] by metis
    ultimately show ?thesis using fh by (simp add: blk_ok_def mem Let_def)
  qed
  moreover have "chain (kallocbuf s) (as @ (h, sz, True) # cs) (kallocbuf s + KSL)"
    using ch by (auto simp: chain_append)
  moreover have "coalesced (as @ (h, sz, True) # cs)"
    using co nf by (auto simp: coalesced_append coalesced_Cons)
  moreover have "set (h # fl) = {x. \<exists>t. (x, t, True) \<in> set (as @ (h, sz, True) # cs)}"
    using inv by (auto simp: heap_inv_def)
  moreover have "cyc (hmem s') (h # fl)"
  proof (cases "fl = []")
    case True
    then show ?thesis by (simp add: cyc_Cons mem Let_def)
  next
    case False
    have "lnk ?m fl" using cy False by (simp add: cyc_def)
    moreover have "h \<noteq> hd fl" "h \<noteq> last fl" using hfl hd_l[OF False] by metis+
    moreover have "x \<noteq> h" "x \<noteq> ?f" if "x \<in> set fl" for x using that hfl ffl[OF hb] by metis+
    ultimately show ?thesis using di hfl False
      by - (rule cyc_insert[of ?m], simp_all add: mem Let_def)
  qed
  ultimately show ?thesis using inv di hfl by (auto simp: heap_inv_def s'_def)
qed

lemma unat_hsize_add:
  assumes "unat x = a" and "unat y = b" and "a + b \<le> KSL"
  shows "unat (x + y :: u32) = a + b"
  using assms by (simp add: unat_word_ariths KSL_def)

text \<open>A block outside \<open>[l, r)\<close> is untouched by writes inside it, and list updates spare its foot.\<close>

lemma blk_ok_outside:
  assumes "blk_ok m (x, t, g)" and "48 \<le> t" and "x + t \<le> l \<or> r \<le> x"
    and "\<And>y. y < l \<or> r \<le> y \<Longrightarrow> hsize (m' y) = hsize (m y) \<and> htag (m' y) = htag (m y)"
    and "hlast (m' (foot_at x t)) = hlast (m (foot_at x t))"
  shows "blk_ok m' (x, t, g)"
proof -
  have "x < l \<or> r \<le> x" "foot_at x t < l \<or> r \<le> foot_at x t"
    using assms(2,3) by (auto simp: foot_at_def)
  then show ?thesis using assms(1,4,5) by - (rule blk_ok_frame[of m], simp_all)
qed

lemma kfree_left_inv:
  assumes inv: "heap_inv s (ls @ (lx, lsz, True) # (h, sz, False) # cs) fl" and n: "unat n = sz"
    and nf: "cs \<noteq> [] \<Longrightarrow> \<not> snd (snd (hd cs))"
  shows "heap_inv (kfree_left h (foot_at lx lsz) n s) (ls @ (lx, lsz + sz, True) # cs) fl"
proof -
  let ?m = "hmem s" and ?f = "foot_at h sz" and ?bs = "ls @ (lx, lsz, True) # (h, sz, False) # cs"
  define s' where "s' = kfree_left h (foot_at lx lsz) n s"
  have ch: "chain (kallocbuf s) ?bs (kallocbuf s + KSL)" and ok: "\<forall>b \<in> set ?bs. blk_ok ?m b"
    and co: "coalesced ?bs" and cy: "cyc ?m fl" using inv by (auto simp: heap_inv_def)
  have lb: "(lx, lsz, True) \<in> set ?bs" and hb: "(h, sz, False) \<in> set ?bs" by simp_all
  have h: "h = lx + lsz" "48 \<le> lsz" "48 \<le> sz" using ch by (auto simp: chain_append)
  have tot: "lsz + sz \<le> KSL" using chain_bounds[OF ch lb] chain_bounds[OF ch hb] h by auto
  have lo: "unat (hsize (?m lx)) = lsz" "htag (?m lx) = FREE" "hlast (?m (foot_at lx lsz)) = lx"
    and ho: "unat (hsize (?m h)) = sz" using ok by (simp_all add: blk_ok_def)
  have fe: "foot_at lx (lsz + sz) = ?f" by (simp add: foot_at_def h)
  have "h \<noteq> lx" using h by simp
  then have mem: "hmem s' = set_tag ?f FREE (set_last ?f lx (set_size lx (hsize (?m lx) + n) ?m))"
    using lo ho by (simp add: s'_def kfree_left_def Let_def foot_loc_def foot_at_def sizeof_header_def)
  have loc: "lx < ?f" "?f < h + sz" using h by (auto simp: foot_at_def)
  have ffl: "?f \<notin> set fl" using heap_inv_foot_not_free[OF inv hb] .
  have chN: "chain (kallocbuf s) (ls @ (lx, lsz + sz, True) # cs) (kallocbuf s + KSL)"
    using ch by (auto simp: chain_append add.assoc)
  have "blk_ok (hmem s') (x, t, g)" if b: "(x, t, g) \<in> set (ls @ cs)" for x t g
  proof -
    have b': "(x, t, g) \<in> set ?bs" using b by auto
    have ap: "48 \<le> t" "x + t \<le> lx \<or> h + sz \<le> x"
      using chain_other[OF chN b] by (simp_all add: h add.assoc)
    then have "foot_at x t \<noteq> ?f" using loc h by (auto simp: foot_at_def)
    then show ?thesis using ok b' ap loc
      by - (rule blk_ok_outside[of ?m _ _ _ lx "h + sz"], auto simp: mem h)
  qed
  moreover have "blk_ok (hmem s') (lx, lsz + sz, True)"
  proof -
    have "unat (hsize (?m lx) + n) = lsz + sz" using unat_hsize_add lo(1) n tot by blast
    then show ?thesis using lo loc by (simp add: blk_ok_def mem fe)
  qed
  moreover note chN
  moreover have "coalesced (ls @ (lx, lsz + sz, True) # cs)"
    using co nf by (auto simp: coalesced_append coalesced_Cons)
  moreover have "cyc (hmem s') fl"
    using ffl by (intro cyc_frame[OF _ cy]) (auto simp: mem)
  moreover have "kpav s' = kpav s" "kallocbuf s' = kallocbuf s"
    by (simp_all add: s'_def kfree_left_def Let_def)
  ultimately show ?thesis using inv by (auto simp: heap_inv_def s'_def)
qed

lemma kfree_right_inv:
  assumes inv: "heap_inv s (as @ (h, sz, False) # (rx, rsz, True) # rs) fl" and n: "unat n = sz"
    and fl: "fl = xs @ rx # ys" and nf: "as \<noteq> [] \<Longrightarrow> \<not> snd (snd (last as))"
  shows "heap_inv (kfree_right h rx n s) (as @ (h, sz + rsz, True) # rs) (h # ys @ xs)"
proof -
  let ?m = "hmem s" and ?f = "foot_at rx rsz" and ?bs = "as @ (h, sz, False) # (rx, rsz, True) # rs"
  define l where "l = ys @ xs"
  define s' where "s' = kfree_right h rx n s"
  have ch: "chain (kallocbuf s) ?bs (kallocbuf s + KSL)" and ok: "\<forall>b \<in> set ?bs. blk_ok ?m b"
    and co: "coalesced ?bs" and cy: "cyc ?m fl" and di: "distinct fl" using inv by (auto simp: heap_inv_def)
  have hb: "(h, sz, False) \<in> set ?bs" and rb: "(rx, rsz, True) \<in> set ?bs" by simp_all
  have h: "rx = h + sz" "48 \<le> rsz" "48 \<le> sz" using ch by (auto simp: chain_append)
  have tot: "rsz + sz \<le> KSL" using chain_bounds[OF ch rb] chain_bounds[OF ch hb] h by auto
  have ro: "unat (hsize (?m rx)) = rsz" "htag (?m ?f) = FREE"
    and ho: "unat (hsize (?m h)) = sz" using ok by (simp_all add: blk_ok_def)
  have sum: "unat (hsize (?m rx) + n) = sz + rsz" using unat_hsize_add[OF ro(1) n tot] by simp
  have fe: "foot_at h (sz + rsz) = ?f" by (simp add: foot_at_def h)
  have rot: "cyc ?m (rx # l)" using cyc_rotate[of ?m xs "rx # ys"] cy fl by (simp add: l_def)
  have dl: "distinct (rx # l)" and set: "set fl = insert rx (set l)" using di fl by (auto simp: l_def)
  have hfl: "h \<notin> set fl" using heap_inv_free_header[OF inv] start_inj[OF ch hb] by blast
  have loc: "h < rx" "rx < ?f" "?f < rx + rsz" using h by (auto simp: foot_at_def)
  have nx: "hnext (?m rx) = (if l = [] then rx else hd l)" "hlast (?m rx) = (if l = [] then rx else last l)"
    using rot by (auto simp: cyc_Cons split: if_splits)
  have ffl: "foot_at x t \<notin> set fl" if "(x, t, g) \<in> set ?bs" for x t g
    using heap_inv_foot_not_free[OF inv that] .
  have ends: "l \<noteq> [] \<Longrightarrow> hd l \<noteq> rx \<and> hd l \<noteq> h \<and> last l \<noteq> h \<and> hd l \<in> set fl \<and> last l \<in> set fl"
    using dl hfl set hd_in_set[of l] last_in_set[of l] by (metis distinct.simps(2) insertCI)
  have chN: "chain (kallocbuf s) (as @ (h, sz + rsz, True) # rs) (kallocbuf s + KSL)"
    using ch by (auto simp: chain_append add.assoc)
  have mem: "hmem s' = (let m1 = set_tag h FREE (set_tag ?f FREE (set_last ?f h
        (set_last h (if l = [] then h else last l) (set_next h (if l = [] then h else hd l)
          (set_size h (hsize (?m rx) + n) ?m))))) in
      set_last (if l = [] then h else hd l) h (set_next (if l = [] then h else last l) h m1))"
  proof -
    have "l \<noteq> [] \<Longrightarrow> last l \<noteq> ?f" using ffl[OF rb] ends by metis
    moreover have "foot_loc (set_last h b (set_next h a (set_size h (hsize (?m rx) + n) ?m))) h = ?f" for a b
      using fe by (simp add: foot_loc_def sum sizeof_header_def foot_at_def)
    ultimately show ?thesis using loc ends nx
      by (cases "l = []") (simp_all add: s'_def kfree_right_def Let_def)
  qed
  have "blk_ok (hmem s') (x, t, g)" if b: "(x, t, g) \<in> set (as @ rs)" for x t g
  proof -
    have b': "(x, t, g) \<in> set ?bs" using b by auto
    have ap: "48 \<le> t" "x + t \<le> h \<or> rx + rsz \<le> x"
      using chain_other[OF chN b] by (simp_all add: h add.assoc)
    have "foot_at x t \<noteq> h" "foot_at x t \<noteq> ?f" using ap loc h by (auto simp: foot_at_def)
    moreover have "l \<noteq> [] \<Longrightarrow> foot_at x t \<noteq> hd l" using ffl[OF b'] ends by metis
    ultimately show ?thesis using ok b' ap loc
      by - (rule blk_ok_outside[of ?m _ _ _ h "rx + rsz"], auto simp: mem Let_def)
  qed
  moreover have "blk_ok (hmem s') (h, sz + rsz, True)"
  proof -
    have "l \<noteq> [] \<Longrightarrow> ?f \<noteq> hd l" using ffl[OF rb] ends by metis
    then show ?thesis using sum loc by (simp add: blk_ok_def mem Let_def fe)
  qed
  moreover note chN
  moreover have "coalesced (as @ (h, sz + rsz, True) # rs)"
    using co nf by (auto simp: coalesced_append coalesced_Cons)
  moreover have "set (h # l) = {x. \<exists>t. (x, t, True) \<in> set (as @ (h, sz + rsz, True) # rs)}"
  proof -
    have "set l = set fl - {rx}" using set dl by auto
    also have "\<dots> = {x. \<exists>t. (x, t, True) \<in> set ((as @ [(h, sz, False)]) @ (rx, rsz, True) # rs)} - {rx}"
      using inv by (simp add: heap_inv_def)
    also have "\<dots> = {x. \<exists>t. (x, t, True) \<in> set ((as @ [(h, sz, False)]) @ rs)}"
      using ch by (intro free_set_split) simp
    finally show ?thesis by auto
  qed
  moreover have "cyc (hmem s') (h # l)"
  proof (cases "l = []")
    case True
    then show ?thesis using loc by (simp add: cyc_Cons mem Let_def)
  next
    case False
    have "lnk ?m l" using rot False by (simp add: cyc_Cons)
    moreover have "x \<noteq> h" "x \<noteq> ?f" if "x \<in> set l" for x using that hfl ffl[OF rb] set by (metis insertI2)+
    moreover have "h \<noteq> hd l" "h \<noteq> last l" using ends[OF False] by simp_all
    ultimately show ?thesis using dl hfl set False loc
      by - (rule cyc_insert[of ?m], simp_all add: mem Let_def)
  qed
  moreover have "kpav s' = h" "kallocbuf s' = kallocbuf s"
    by (simp_all add: s'_def kfree_right_def Let_def)
  ultimately have "heap_inv s' (as @ (h, sz + rsz, True) # rs) (h # l)"
    using inv dl hfl set by (auto simp: heap_inv_def)
  then show ?thesis by (simp add: s'_def l_def)
qed

lemma kfree_both_inv:
  assumes inv: "heap_inv s (ls @ (lx, lsz, True) # (h, sz, False) # (rx, rsz, True) # rs) fl"
    and n: "unat n = sz" and fl: "fl = xs @ rx # ys" and l: "ys @ xs = us @ lx # vs"
  shows "heap_inv (kfree_both h (foot_at lx lsz) rx n s)
     (ls @ (lx, lsz + sz + rsz, True) # rs) (lx # vs @ us)"
proof -
  let ?m = "hmem s" and ?f = "foot_at rx rsz"
    and ?bs = "ls @ (lx, lsz, True) # (h, sz, False) # (rx, rsz, True) # rs"
  define l where "l = ys @ xs"
  define s' where "s' = kfree_both h (foot_at lx lsz) rx n s"
  have ch: "chain (kallocbuf s) ?bs (kallocbuf s + KSL)" and ok: "\<forall>b \<in> set ?bs. blk_ok ?m b"
    and co: "coalesced ?bs" and cy: "cyc ?m fl" and di: "distinct fl" using inv by (auto simp: heap_inv_def)
  have lb: "(lx, lsz, True) \<in> set ?bs" and rb: "(rx, rsz, True) \<in> set ?bs" by simp_all
  have h: "h = lx + lsz" "rx = lx + lsz + sz" "48 \<le> lsz" "48 \<le> rsz" "48 \<le> sz"
    using ch by (auto simp: chain_append)
  have tot: "lsz + (sz + rsz) \<le> KSL" using chain_bounds[OF ch rb] chain_bounds[OF ch lb] h by auto
  have ro: "unat (hsize (?m rx)) = rsz" "htag (?m ?f) = FREE"
    and lo: "unat (hsize (?m lx)) = lsz" "htag (?m lx) = FREE" "hlast (?m (foot_at lx lsz)) = lx"
    using ok by (simp_all add: blk_ok_def)
  have sum: "unat (hsize (?m lx) + (n + hsize (?m rx))) = lsz + sz + rsz"
    using unat_hsize_add[OF lo(1) unat_hsize_add[OF n ro(1)]] tot by simp
  have fe: "foot_at lx (lsz + sz + rsz) = ?f" by (simp add: foot_at_def h)
  have rot: "cyc ?m (rx # l)" using cyc_rotate[of ?m xs "rx # ys"] cy fl by (simp add: l_def)
  have dl: "distinct (rx # l)" and set: "set fl = insert rx (set l)" using di fl by (auto simp: l_def)
  have loc: "lx < rx" "lx < ?f" "rx < ?f" "?f < rx + rsz" using h by (auto simp: foot_at_def)
  have ne: "l \<noteq> []" using l by (simp add: l_def)
  have nx: "hnext (?m rx) = hd l" "hlast (?m rx) = last l" using rot ne by (auto simp: cyc_Cons)
  have ffl: "foot_at x t \<notin> set fl" if "(x, t, g) \<in> set ?bs" for x t g
    using heap_inv_foot_not_free[OF inv that] .
  have ends: "hd l \<noteq> rx" "last l \<noteq> rx" "hd l \<noteq> ?f" "last l \<noteq> ?f"
    using dl set hd_in_set[OF ne] last_in_set[OF ne] ffl[OF rb] by (metis distinct.simps(2) insertCI)+
  have chN: "chain (kallocbuf s) (ls @ (lx, lsz + sz + rsz, True) # rs) (kallocbuf s + KSL)"
    using ch by (auto simp: chain_append add.assoc)
  have mem: "hmem s' = set_last (hd l) (last l) (set_next (last l) (hd l)
      (set_last ?f lx (set_size lx (hsize (?m lx) + (n + hsize (?m rx))) ?m)))"
  proof -
    have "foot_loc (set_size lx (hsize (?m lx) + (n + hsize (?m rx))) ?m) lx = ?f"
      using fe by (simp add: foot_loc_def sum sizeof_header_def foot_at_def)
    then show ?thesis using loc ends nx lo by (simp add: s'_def kfree_both_def Let_def)
  qed
  have "blk_ok (hmem s') (x, t, g)" if b: "(x, t, g) \<in> set (ls @ rs)" for x t g
  proof -
    have b': "(x, t, g) \<in> set ?bs" using b by auto
    have ap: "48 \<le> t" "x + t \<le> lx \<or> rx + rsz \<le> x"
      using chain_other[OF chN b] by (simp_all add: h add.assoc)
    have "foot_at x t \<noteq> ?f" using ap loc h by (auto simp: foot_at_def)
    moreover have "foot_at x t \<noteq> hd l" using ffl[OF b'] set hd_in_set[OF ne] by (metis insertCI)
    ultimately show ?thesis using ok b' ap loc
      by - (rule blk_ok_outside[of ?m _ _ _ lx "rx + rsz"], auto simp: mem)
  qed
  moreover have "blk_ok (hmem s') (lx, lsz + sz + rsz, True)"
    using sum ro lo ends by (simp add: blk_ok_def mem fe)
  moreover note chN
  moreover have "coalesced (ls @ (lx, lsz + sz + rsz, True) # rs)"
    using co by (auto simp: coalesced_append coalesced_Cons)
  moreover have sl: "set l = {x. \<exists>t. (x, t, True) \<in> set (ls @ (lx, lsz + sz + rsz, True) # rs)}"
  proof -
    let ?as = "ls @ [(lx, lsz, True), (h, sz, False)]"
    have "set l = set fl - {rx}" using set dl by auto
    also have "\<dots> = {x. \<exists>t. (x, t, True) \<in> set (?as @ (rx, rsz, True) # rs)} - {rx}"
      using inv by (simp add: heap_inv_def)
    also have "\<dots> = {x. \<exists>t. (x, t, True) \<in> set (?as @ rs)}"
      using ch by (intro free_set_split) simp
    finally show ?thesis by auto
  qed
  moreover have "cyc (hmem s') (lx # vs @ us)"
  proof -
    have "x \<noteq> ?f" if "x \<in> set l" for x using that ffl[OF rb] set by (metis insertCI)
    then have "cyc (hmem s') l" using ends
      by - (rule cyc_remove[OF rot dl ne], simp_all add: mem)
    then show ?thesis using cyc_rotate[of "hmem s'" us "lx # vs"] l by (simp add: l_def)
  qed
  moreover have "kpav s' = lx" "kallocbuf s' = kallocbuf s"
    using lo by (simp_all add: s'_def kfree_both_def Let_def)
  moreover have "distinct (lx # vs @ us)" "set (lx # vs @ us) = set l" using l dl by (auto simp: l_def)
  ultimately have "heap_inv s' (ls @ (lx, lsz + sz + rsz, True) # rs) (lx # vs @ us)"
    using inv by (auto simp: heap_inv_def)
  then show ?thesis by (simp add: s'_def)
qed

text \<open>\<^verbatim>\<open>kfree_g\<close> picks the case by the real state of the two neighbours.\<close>

lemma kfree_g_cases:
  assumes inv: "heap_inv s (as @ (h, sz, False) # cs) fl"
  defines "L \<equiv> as \<noteq> [] \<and> snd (snd (last as))" and "R \<equiv> cs \<noteq> [] \<and> snd (snd (hd cs))"
  shows "kfree_g (h + 24) s = Some
    (if L then if R then kfree_both h (h - 24) (h + sz) (hsize (hmem s h)) s
               else kfree_left h (h - 24) (hsize (hmem s h)) s
     else if R then kfree_right h (h + sz) (hsize (hmem s h)) s
     else kfree_none h (foot_at h sz) s)"
proof -
  let ?m = "hmem s" and ?bs = "as @ (h, sz, False) # cs"
  have ch: "chain (kallocbuf s) ?bs (kallocbuf s + KSL)" and ok: "\<forall>b \<in> set ?bs. blk_ok ?m b"
    and al: "8 dvd kallocbuf s" using inv by (auto simp: heap_inv_def)
  have hb: "(h, sz, False) \<in> set ?bs" by simp
  have sz: "48 \<le> sz" "8 dvd sz" "8 dvd h" using chain_bounds[OF ch hb] chain_aligned[OF ch al hb] by auto
  have hm: "unat (hsize (?m h)) = sz" "hlast (?m (foot_at h sz)) = h" using ok by (simp_all add: blk_ok_def)
  have f: "foot_loc ?m h = foot_at h sz" by (simp add: foot_loc_def hm sizeof_header_def foot_at_def)
  have "8 dvd foot_at h sz" using sz by (simp add: foot_at_def dvd_diff_nat)
  then have chk: "\<not> (h + 24 < 24 \<or> (h + 24) mod 8 \<noteq> 0 \<or> foot_at h sz mod 8 \<noteq> 0 \<or> hlast (?m (foot_at h sz)) \<noteq> h)"
    using sz hm by (simp add: mod_0_imp_dvd)
  have lt: "(if h \<le> kallocbuf s then 1 else htag (?m (h - 24))) = (if L then 0 else 1)"
  proof (cases as rule: rev_cases)
    case Nil
    then show ?thesis using left_foot(1)[OF inv] by (simp add: L_def)
  next
    case (snoc ls b)
    obtain lx lsz lfr where b: "b = (lx, lsz, lfr)" by (cases b)
    then have "h - 24 = foot_at lx lsz" "kallocbuf s < h" using left_foot(2)[OF inv] snoc by blast+
    moreover have "blk_ok ?m b" using ok snoc by simp
    ultimately show ?thesis using b snoc by (simp add: L_def blk_ok_def FREE_def OCCUPIED_def)
  qed
  have fs: "foot_at h sz + 24 = h + sz" using sz by (simp add: foot_at_def)
  have rt: "(if kallocbuf s + KSL \<le> h + sz then 1 else htag (?m (h + sz))) = (if R then 0 else 1)"
  proof (cases cs)
    case Nil
    then show ?thesis using right_head(1)[OF inv] by (simp add: R_def)
  next
    case (Cons b rs)
    obtain rx rsz rfr where b: "b = (rx, rsz, rfr)" by (cases b)
    then have "h + sz < kallocbuf s + KSL" "rx = h + sz" using right_head(2)[OF inv] Cons by blast+
    moreover have "blk_ok ?m b" using ok Cons by simp
    ultimately show ?thesis using b Cons by (simp add: R_def blk_ok_def FREE_def OCCUPIED_def)
  qed
  show ?thesis
    unfolding kfree_g_def Let_def sizeof_header_def ADDR_ALIGN_def add_diff_cancel_right' f
      if_not_P[OF chk] fs lt rt
    by (cases L; cases R) simp_all
qed

text \<open>Every release of a region that is handed out succeeds and gives back exactly that region.\<close>

lemma kfree_blocks:
  assumes inv: "heap_inv s bs fl" and bs: "bs = as @ (h, sz, False) # cs"
  shows "\<exists>s' bs' fl'. kfree_g (h + 24) s = Some s' \<and> kallocbuf s' = kallocbuf s \<and>
    heap_inv s' bs' fl' \<and> (\<forall>x t. (x, t, False) \<in> set bs' \<longleftrightarrow> (x, t, False) \<in> set (as @ cs))"
proof -
  let ?n = "hsize (hmem s h)"
  note inv' = inv[unfolded bs]
  have n: "unat ?n = sz" using inv' by (simp add: heap_inv_def blk_ok_def)
  have kb: "kallocbuf (kfree_none h f s) = kallocbuf s" "kallocbuf (kfree_left h f m s) = kallocbuf s"
    "kallocbuf (kfree_right h f m s) = kallocbuf s" "kallocbuf (kfree_both h f g m s) = kallocbuf s" for f g m
    by (simp_all add: kfree_none_def kfree_left_def kfree_right_def kfree_both_def Let_def)
  show ?thesis
  proof (cases "as \<noteq> [] \<and> snd (snd (last as))"; cases "cs \<noteq> [] \<and> snd (snd (hd cs))")
    assume L: "as \<noteq> [] \<and> snd (snd (last as))" and R: "cs \<noteq> [] \<and> snd (snd (hd cs))"
    obtain ls lx lsz where as: "as = ls @ [(lx, lsz, True)]" using L by (cases as rule: rev_cases) auto
    obtain rx rsz rs where cs: "cs = (rx, rsz, True) # rs" using R by (cases cs) auto
    have lr: "h - 24 = foot_at lx lsz" "rx = h + sz" "lx < rx"
      using left_foot(2)[OF inv' as] right_head(2)[OF inv' cs] inv' by (auto simp: heap_inv_def chain_append as cs)
    have mem: "rx \<in> set fl" "lx \<in> set fl" using inv' by (auto simp: heap_inv_def as cs)
    obtain xs ys where fl: "fl = xs @ rx # ys" using mem(1) by (metis split_list)
    then have "lx \<in> set (ys @ xs)" using mem(2) lr(3) by auto
    then obtain us vs where "ys @ xs = us @ lx # vs" by (metis split_list)
    then have "heap_inv (kfree_both h (h - 24) (h + sz) ?n s) (ls @ (lx, lsz + sz + rsz, True) # rs) (lx # vs @ us)"
      using kfree_both_inv[OF _ n fl] inv' as cs lr(1,2) by simp
    with kfree_g_cases[OF inv', unfolded if_P[OF L] if_P[OF R]] kb(4) show ?thesis
      by (intro exI conjI) (assumption | (rule kb)+ | simp add: as cs)+
  next
    assume L: "as \<noteq> [] \<and> snd (snd (last as))" and R: "\<not> (cs \<noteq> [] \<and> snd (snd (hd cs)))"
    obtain ls lx lsz where as: "as = ls @ [(lx, lsz, True)]" using L by (cases as rule: rev_cases) auto
    have "h - 24 = foot_at lx lsz" using left_foot(2)[OF inv' as] by blast
    then have "heap_inv (kfree_left h (h - 24) ?n s) (ls @ (lx, lsz + sz, True) # cs) fl"
      using kfree_left_inv[of s ls lx lsz h sz cs fl, OF _ n] inv' as R by fastforce
    with kfree_g_cases[OF inv', unfolded if_P[OF L] if_not_P[OF R]] kb(2) show ?thesis
      by (intro exI conjI) (assumption | (rule kb)+ | simp add: as)+
  next
    assume L: "\<not> (as \<noteq> [] \<and> snd (snd (last as)))" and R: "cs \<noteq> [] \<and> snd (snd (hd cs))"
    obtain rx rsz rs where cs: "cs = (rx, rsz, True) # rs" using R by (cases cs) auto
    have rx: "rx = h + sz" using right_head(2)[OF inv' cs] by simp
    have "rx \<in> set fl" using inv' by (auto simp: heap_inv_def cs)
    then obtain xs ys where fl: "fl = xs @ rx # ys" by (metis split_list)
    have "\<not> snd (snd (last as))" if "as \<noteq> []" using L that by blast
    then have "heap_inv (kfree_right h (h + sz) ?n s) (as @ (h, sz + rsz, True) # rs) (h # ys @ xs)"
      using kfree_right_inv[OF inv'[unfolded cs] n fl] rx by blast
    with kfree_g_cases[OF inv', unfolded if_not_P[OF L] if_P[OF R]] kb(3) show ?thesis
      by (intro exI conjI) (assumption | (rule kb)+ | simp add: cs)+
  next
    assume L: "\<not> (as \<noteq> [] \<and> snd (snd (last as)))" and R: "\<not> (cs \<noteq> [] \<and> snd (snd (hd cs)))"
    then have "heap_inv (kfree_none h (foot_at h sz) s) (as @ (h, sz, True) # cs) (h # fl)"
      using kfree_none_inv[OF inv'] by blast
    with kfree_g_cases[OF inv', unfolded if_not_P[OF L] if_not_P[OF R]] kb(1) show ?thesis
      by (intro exI conjI) (assumption | (rule kb)+ | simp add: kb)+
  qed
qed

lemma kfree_g_correct:
  assumes ok: "heap_ok s" and p: "(p, k) \<in> set (allocated s)"
  shows "\<exists>s'. kfree_g p s = Some s' \<and> heap_ok s' \<and> kallocbuf s' = kallocbuf s \<and>
    set (allocated s') = set (allocated s) - {(p, k)}"
proof -
  obtain bs fl where inv: "heap_inv s bs fl" using ok by (auto simp: heap_ok_def)
  then obtain h sz where hb: "(h, sz, False) \<in> set bs" and ph: "p = h + 24" "k = sz - 48"
    using p by (auto simp: allocated_mem_iff)
  then obtain as cs where bs: "bs = as @ (h, sz, False) # cs" by (metis split_list)
  obtain s' bs' fl' where s': "kfree_g (h + 24) s = Some s'" "kallocbuf s' = kallocbuf s"
    "heap_inv s' bs' fl'" and eq: "\<forall>x t. (x, t, False) \<in> set bs' \<longleftrightarrow> (x, t, False) \<in> set (as @ cs)"
    using kfree_blocks[OF inv bs] by blast
  have ch: "chain (kallocbuf s) bs (kallocbuf s + KSL)" using inv by (simp add: heap_inv_def)
  have nh: "(h, t, False) \<notin> set (as @ cs)" for t
    using chain_other[OF ch[unfolded bs], of h t False] chain_bounds[OF ch hb] by auto
  have "(p, k) \<notin> (\<lambda>(x, t). (x + 24, t - 48)) ` {(x, t). (x, t, False) \<in> set (as @ cs)}"
    using ph nh by auto
  moreover have "set (allocated s') = (\<lambda>(x, t). (x + 24, t - 48)) ` {(x, t). (x, t, False) \<in> set (as @ cs)}"
    using eq by (simp add: allocated_image[OF s'(3)])
  moreover have "{(x, t). (x, t, False) \<in> set bs} = insert (h, sz) {(x, t). (x, t, False) \<in> set (as @ cs)}"
    unfolding bs by auto
  then have "set (allocated s) =
      insert (p, k) ((\<lambda>(x, t). (x + 24, t - 48)) ` {(x, t). (x, t, False) \<in> set (as @ cs)})"
    by (simp only: allocated_image[OF inv] image_insert) (simp add: ph)
  ultimately have "set (allocated s') = set (allocated s) - {(p, k)}" by simp
  then show ?thesis using s' ph by (auto simp: heap_ok_def)
qed

text \<open>With nothing handed out the heap is one free block again.\<close>

lemma heap_ok_empty:
  assumes "heap_ok s" and "allocated s = []"
  shows "hblocks s = [(kallocbuf s, KSL, True)]"
proof -
  obtain bs fl where inv: "heap_inv s bs fl" using assms(1) by (auto simp: heap_ok_def)
  have free: "fr" if "(x, t, fr) \<in> set bs" for x t fr
    using that assms(2) allocated_mem_iff[OF inv, of "x + 24" "t - 48"] by (cases fr) auto
  have ch: "chain (kallocbuf s) bs (kallocbuf s + KSL)" and co: "coalesced bs"
    using inv by (auto simp: heap_inv_def)
  show ?thesis
  proof (cases bs)
    case Nil
    then show ?thesis using ch by (simp add: KSL_def)
  next
    case (Cons b bs')
    obtain x t fr where b: "b = (x, t, fr)" by (cases b)
    have "fr" using free[of x t fr] Cons b by simp
    moreover have "bs' = []"
    proof (rule ccontr)
      assume "bs' \<noteq> []"
      then obtain y u g bs'' where c: "bs' = (y, u, g) # bs''" by (cases bs') auto
      then have "g" using free[of y u g] Cons by simp
      then show False using co Cons b c \<open>fr\<close> by simp
    qed
    ultimately show ?thesis using ch Cons b by (simp add: hblocks_inv[OF inv])
  qed
qed

lemma malloc_init_correct:
  assumes "unat (ROUND (bss_end + 16) 16) + KSL \<le> 0xffffffc050e00000"
    and "0 < unat (ROUND (bss_end + 16) 16)"
  shows "\<exists>s'. malloc_init bss_end s = Some s' \<and> heap_ok s' \<and> allocated s' = []"
proof -
  let ?b = "unat (ROUND (bss_end + 16) 16)" and ?q = "foot_at (unat (ROUND (bss_end + 16) 16)) KSL"
  let ?m = "set_last ?b ?b (set_tag ?b FREE (set_size ?b (of_nat KSL) (set_next ?b ?b (hmem s))))"
  define s' where "s' = s\<lparr>kallocbuf := ?b, kpav := ?b, hmem := set_tag ?q FREE (set_last ?q ?b ?m)\<rparr>"
  have K: "unat (of_nat KSL :: u32) = KSL" by (simp add: KSL_def)
  have q: "?q \<noteq> ?b" "foot_loc ?m ?b = ?q" by (simp_all add: foot_loc_def K sizeof_header_def foot_at_def) (simp add: KSL_def)
  have "(15 :: u64) = mask 4" by (simp add: mask_eq_exp_minus_1)
  then have "8 dvd ?b" using unat_and_not_mask[of "bss_end + 16 + 16 - 1" 4] by (simp add: ROUND_def)
  moreover have "8 dvd KSL" "48 \<le> KSL" by (simp_all add: KSL_def)
  ultimately have "heap_inv s' [(?b, KSL, True)] [?b]"
    using assms(2) q(1) by (simp add: heap_inv_def s'_def blk_ok_def K cyc_def)
  moreover have "malloc_init bss_end s = Some s'"
    using assms(1) q(2) by (simp add: malloc_init_def Let_def s'_def)
  ultimately show ?thesis by (auto simp: heap_ok_def allocated_inv)
qed

section \<open>The interface\<close>

text \<open>
  What the rest of the kernel relies on: requests (within \<open>fits\<close>) always return, a non-null result is
  not the address of a live region, and a live region can be given back.
\<close>

locale allocator =
  fixes alloc :: "u32 \<Rightarrow> 'h \<Rightarrow> (addr \<times> 'h) option"
    and free :: "addr \<Rightarrow> 'h \<Rightarrow> 'h option"
    and ok :: "'h \<Rightarrow> bool"
    and live :: "'h \<Rightarrow> (addr \<times> nat) set"
    and fits :: "u32 \<Rightarrow> bool"
    and pool :: "'h \<Rightarrow> addr set"
  assumes alloc_law: "ok s \<Longrightarrow> fits n \<Longrightarrow>
      \<exists>p s'. alloc n s = Some (p, s') \<and> ok s' \<and> pool s' = pool s \<and>
        (if p = NULL then s' = s
         else \<exists>k. unat n \<le> k \<and> live s' = insert (p, k) (live s) \<and> p \<notin> fst ` live s)"
    and free_law: "ok s \<Longrightarrow> (p, k) \<in> live s \<Longrightarrow>
      \<exists>s'. free p s = Some s' \<and> ok s' \<and> pool s' = pool s \<and> live s' = live s - {(p, k)}"
    and live_fun: "ok s \<Longrightarrow> (p, k) \<in> live s \<Longrightarrow> (p, l) \<in> live s \<Longrightarrow> k = l"
    and live_pool: "ok s \<Longrightarrow> fst ` live s \<subseteq> pool s"
    and pool_nonnull: "ok s \<Longrightarrow> NULL \<notin> pool s"
begin

lemma alloc_cases:
  assumes "ok s" and "fits n"
  obtains (none) "alloc n s = Some (NULL, s)"
  | (some) p s' where "alloc n s = Some (p, s')" "p \<noteq> NULL" "ok s'" "p \<notin> fst ` live s"
      "fst ` live s' = insert p (fst ` live s)" "p \<in> pool s" "pool s' = pool s"
proof -
  obtain p s' where a: "alloc n s = Some (p, s')" "ok s'" "pool s' = pool s" and
    c: "if p = NULL then s' = s
        else \<exists>k. unat n \<le> k \<and> live s' = insert (p, k) (live s) \<and> p \<notin> fst ` live s"
    using alloc_law[OF assms] by blast
  show thesis
  proof (cases "p = NULL")
    case True
    then show thesis using a c none by simp
  next
    case False
    then have "p \<in> fst ` live s'" using c by auto
    then have "p \<in> pool s" using live_pool[OF a(2)] a(3) by auto
    then show thesis using False a c some by auto
  qed
qed

lemma free_addr:
  assumes "ok s" and "p \<in> fst ` live s"
  obtains s' where "free p s = Some s'" "ok s'" "fst ` live s' = fst ` live s - {p}" "pool s' = pool s"
proof -
  obtain k where k: "(p, k) \<in> live s" using assms(2) by auto
  obtain s' where s': "free p s = Some s'" "ok s'" "live s' = live s - {(p, k)}" "pool s' = pool s"
    using free_law[OF assms(1) k] by blast
  moreover have "fst ` (live s - {(p, k)}) = fst ` live s - {p}"
    using live_fun[OF assms(1) k] by force
  ultimately show thesis using that by simp
qed

text \<open>Exactly the region at the address is given back.\<close>

lemma free_drops:
  assumes "ok s" and "p \<in> fst ` live s"
  obtains s' where "free p s = Some s'" "ok s'" "live s' = {r \<in> live s. fst r \<noteq> p}" "pool s' = pool s"
proof -
  obtain k where k: "(p, k) \<in> live s" using assms(2) by auto
  obtain s' where s': "free p s = Some s'" "ok s'" "live s' = live s - {(p, k)}" "pool s' = pool s"
    using free_law[OF assms(1) k] by blast
  moreover have "live s - {(p, k)} = {r \<in> live s. fst r \<noteq> p}"
    by (auto dest: live_fun[OF assms(1) k])
  ultimately show thesis using that by simp
qed

text \<open>Giving a fresh region back restores the live regions.\<close>

lemma alloc_free:
  assumes "ok s" and "fits n" and "alloc n s = Some (p, s')" and "p \<noteq> NULL"
  shows "\<exists>s''. free p s' = Some s'' \<and> ok s'' \<and> live s'' = live s"
proof -
  obtain k where k: "ok s'" "live s' = insert (p, k) (live s)" "p \<notin> fst ` live s"
    using alloc_law[OF assms(1,2)] assms(3,4) by auto
  obtain s'' where "free p s' = Some s''" "ok s''" "live s'' = live s' - {(p, k)}"
    using free_law[OF k(1), of p k] k(2) by auto
  moreover have "(p, k) \<notin> live s" using k(3) by force
  ultimately show ?thesis using k(2) by auto
qed

end

definition kmalloc_fits :: "u32 \<Rightarrow> bool" where
  "kmalloc_fits n \<longleftrightarrow> unat n \<le> 4294967240"

definition live :: "kheap \<Rightarrow> (addr \<times> nat) set" where
  "live s = set (allocated s)"

lemma live_apart:
  assumes "heap_ok s" and "(p, k) \<in> live s" and "(q, l) \<in> live s"
  shows "(p, k) = (q, l) \<or> p + k + 48 \<le> q \<or> q + l + 48 \<le> p"
proof -
  obtain bs fl where inv: "heap_inv s bs fl" using assms(1) by (auto simp: heap_ok_def)
  then have ch: "chain (kallocbuf s) bs (kallocbuf s + KSL)" by (simp add: heap_inv_def)
  obtain x t y u where b: "(x, t, False) \<in> set bs" "p = x + 24" "k = t - 48"
    "(y, u, False) \<in> set bs" "q = y + 24" "l = u - 48"
    using assms(2,3) by (auto simp: live_def allocated_mem_iff[OF inv])
  then show ?thesis
    using chain_apart[OF ch b(1,4)] chain_bounds[OF ch b(1)] chain_bounds[OF ch b(4)] by auto
qed

definition heap_area :: "kheap \<Rightarrow> addr set" where
  "heap_area s = {kallocbuf s..<kallocbuf s + KSL}"

interpretation km: allocator kmalloc_g kfree_g heap_ok live kmalloc_fits heap_area
proof
  fix s n assume ok: "heap_ok s" and "kmalloc_fits n"
  then obtain p s' where a: "kmalloc_g n s = Some (p, s')" "heap_ok s'" "kallocbuf s' = kallocbuf s" and
    c: "if p = NULL then s' = s \<and> (\<forall>(x, t, fr) \<in> set (hblocks s). fr \<longrightarrow> t < unat (kmalloc_size n))
     else \<exists>k. unat n \<le> k \<and> set (allocated s') = insert (p, k) (set (allocated s)) \<and>
       region_fresh s p k (set (allocated s))"
    using kmalloc_g_correct[OF ok, of n] by (auto simp: kmalloc_fits_def)
  have "p \<notin> fst ` live s" if "region_fresh s p k (set (allocated s))" for k
    using that by (auto simp: region_fresh_def live_def)
  then show "\<exists>p s'. kmalloc_g n s = Some (p, s') \<and> heap_ok s' \<and> heap_area s' = heap_area s \<and>
        (if p = NULL then s' = s
         else \<exists>k. unat n \<le> k \<and> live s' = insert (p, k) (live s) \<and> p \<notin> fst ` live s)"
    using a c by (cases "p = NULL") (auto simp: live_def heap_area_def)
next
  fix s p k l assume ok: "heap_ok s" and p: "(p, k) \<in> live s"
  then show "\<exists>s'. kfree_g p s = Some s' \<and> heap_ok s' \<and> heap_area s' = heap_area s \<and> live s' = live s - {(p, k)}"
    using kfree_g_correct[OF ok, of p k] by (auto simp: live_def heap_area_def)
  assume "(p, l) \<in> live s"
  then show "k = l" using live_apart[OF ok p] by fastforce
next
  fix s assume ok: "heap_ok s"
  then obtain bs fl where inv: "heap_inv s bs fl" by (auto simp: heap_ok_def)
  then show "NULL \<notin> heap_area s" by (auto simp: heap_area_def heap_inv_def)
  have ch: "chain (kallocbuf s) bs (kallocbuf s + KSL)" using inv by (simp add: heap_inv_def)
  show "fst ` live s \<subseteq> heap_area s"
    using chain_bounds[OF ch] by (fastforce simp: live_def heap_area_def allocated_mem_iff[OF inv])
qed

section \<open>Histories of the heap\<close>

text \<open>
  The states the kernel heap can get into: \<^verbatim>\<open>malloc_init\<close>, then requests and releases of live
  regions in any order.
\<close>

inductive heap_reach :: "kheap \<Rightarrow> bool" where
  hr_init: "malloc_init bss_end s = Some s' \<Longrightarrow> 0 < unat (ROUND (bss_end + 16) 16) \<Longrightarrow> heap_reach s'"
| hr_alloc: "heap_reach s \<Longrightarrow> kmalloc_fits n \<Longrightarrow> kmalloc_g n s = Some (p, s') \<Longrightarrow> heap_reach s'"
| hr_free: "heap_reach s \<Longrightarrow> (p, k) \<in> live s \<Longrightarrow> kfree_g p s = Some s' \<Longrightarrow> heap_reach s'"

lemma heap_reach_ok [kinv]: "heap_reach s \<Longrightarrow> heap_ok s"
proof (induction rule: heap_reach.induct)
  case (hr_init bss_end s s')
  then have "unat (ROUND (bss_end + 16) 16) + KSL \<le> 0xffffffc050e00000"
    by (auto simp: malloc_init_def Let_def split: if_splits)
  then show ?case using malloc_init_correct[of bss_end s] hr_init by auto
next
  case (hr_alloc s n p s')
  then show ?case using km.alloc_law[of s n] by auto
next
  case (hr_free s p k s')
  then show ?case using km.free_law[of s p k] by auto
qed

section \<open>Properties\<close>

text \<open>A heap for the witnesses: the state after \<^verbatim>\<open>malloc_init\<close> with \<^verbatim>\<open>__BSS_END__\<close> at a fixed address.\<close>

definition demo_header :: header where
  "demo_header = \<lparr>hlast = 0, htag = 0, hsize = 0, hnext = 0\<rparr>"

definition demo_heap :: kheap where
  "demo_heap = the (malloc_init 0xffffffc050300000 \<lparr>hmem = \<lambda>_. demo_header, kpav = 0, kallocbuf = 0\<rparr>)"

lemma demo_init:
  "malloc_init 0xffffffc050300000 \<lparr>hmem = \<lambda>_. demo_header, kpav = 0, kallocbuf = 0\<rparr> = Some demo_heap"
  by (simp add: demo_heap_def malloc_init_def Let_def ROUND_def KSL_def)

lemma demo_heap_reach: "heap_reach demo_heap"
  by (rule hr_init[OF demo_init]) (simp add: ROUND_def)

lemma demo_heap_empty: "allocated demo_heap = []"
  using malloc_init_correct[of "0xffffffc050300000" "\<lparr>hmem = \<lambda>_. demo_header, kpav = 0, kallocbuf = 0\<rparr>"]
  by (simp add: demo_init ROUND_def KSL_def)

lemma demo_kallocbuf: "kallocbuf demo_heap = 0xffffffc050300010"
  by (simp add: demo_heap_def malloc_init_def Let_def ROUND_def KSL_def)

text \<open>
  C1: On a well-formed heap every request up to 4 GiB - 56 bytes returns; it returns \<^verbatim>\<open>NULL\<close> and
  changes nothing only if every free block is smaller than the rounded size, and otherwise an aligned
  region of the heap area of at least the requested length, apart from every region handed out
  before; the heap stays well-formed.
\<close>

theorem kmalloc_g_allocates:
  assumes "heap_ok s" and "unat Size \<le> 4294967240"
  shows "\<exists>p s'. kmalloc_g Size s = Some (p, s') \<and> heap_ok s' \<and> kallocbuf s' = kallocbuf s \<and>
    (if p = NULL then s' = s \<and> (\<forall>(x, t, fr) \<in> set (hblocks s). fr \<longrightarrow> t < unat (kmalloc_size Size))
     else \<exists>k. unat Size \<le> k \<and> set (allocated s') = insert (p, k) (set (allocated s)) \<and>
       region_fresh s p k (set (allocated s)))"
  by (rule kmalloc_g_correct[OF assms])

theorem kmalloc_g_allocates_witness:
  "\<exists>p s' k. kmalloc_g 1000 demo_heap = Some (p, s') \<and> heap_ok s' \<and> p \<noteq> NULL \<and>
     set (allocated s') = {(p, k)} \<and> 1000 \<le> k"
proof -
  have ok: "heap_ok demo_heap" by (rule heap_reach_ok[OF demo_heap_reach])
  have "kmalloc_size 1000 = 1048"
    by (simp add: kmalloc_size_def ROUND_def sizeof_header_def ADDR_ALIGN_def)
  then show ?thesis
    using kmalloc_g_allocates[OF ok, of 1000] heap_ok_empty[OF ok demo_heap_empty]
    by (auto simp: demo_heap_empty KSL_def split: if_splits)
qed

text \<open>
  C2: On a well-formed heap the release of a region that is handed out never panics, gives back exactly
  that region and keeps the heap well-formed (in particular neighbouring free blocks are merged).
\<close>

theorem kfree_g_releases:
  assumes "heap_ok s" and "(p, k) \<in> set (allocated s)"
  shows "\<exists>s'. kfree_g p s = Some s' \<and> heap_ok s' \<and> kallocbuf s' = kallocbuf s \<and>
    set (allocated s') = set (allocated s) - {(p, k)}"
  by (rule kfree_g_correct[OF assms])

theorem kfree_g_releases_witness:
  "\<exists>p s s'. kmalloc_g 1000 demo_heap = Some (p, s) \<and> kfree_g p s = Some s' \<and> heap_ok s' \<and> allocated s' = []"
proof -
  have ok: "heap_ok demo_heap" by (rule heap_reach_ok[OF demo_heap_reach])
  have "kmalloc_size 1000 = 1048"
    by (simp add: kmalloc_size_def ROUND_def sizeof_header_def ADDR_ALIGN_def)
  then obtain p s k where s: "kmalloc_g 1000 demo_heap = Some (p, s)" "heap_ok s" "set (allocated s) = {(p, k)}"
    using kmalloc_g_correct[OF ok, of 1000] heap_ok_empty[OF ok demo_heap_empty]
    by (auto simp: demo_heap_empty KSL_def split: if_splits)
  then show ?thesis using kfree_g_releases[of s p k] by auto
qed

text \<open>
  C3: Whatever the kernel requests and releases after \<^verbatim>\<open>malloc_init\<close>, the heap is well-formed, two
  regions handed out at the same time are apart, each of them can be released, and once all of them
  are released the heap is again one free block of 8 MiB: nothing is lost to fragmentation.
\<close>

theorem heap_history:
  assumes "heap_reach s"
  shows "heap_ok s \<and>
    (\<forall>(p, k) \<in> live s. \<forall>(q, l) \<in> live s. (p, k) = (q, l) \<or> p + k + 48 \<le> q \<or> q + l + 48 \<le> p) \<and>
    (\<forall>(p, k) \<in> live s. \<exists>s'. kfree_g p s = Some s' \<and> heap_ok s' \<and> live s' = live s - {(p, k)}) \<and>
    (live s = {} \<longrightarrow> hblocks s = [(kallocbuf s, KSL, True)])"
proof -
  note ok = heap_reach_ok[OF assms]
  show ?thesis
    using ok live_apart[OF ok] km.free_law[OF ok] heap_ok_empty[OF ok]
    by (intro conjI) (blast | simp add: live_def)+
qed

theorem heap_history_witness:
  "heap_ok demo_heap \<and> hblocks demo_heap = [(0xffffffc050300010, KSL, True)]"
  using heap_history[OF demo_heap_reach] by (simp add: live_def demo_heap_empty demo_kallocbuf)

end
