(* ===== verification/CString.thy ===== *)
theory CString
  imports Prelude
begin

text \<open>
  The kernel's string library (\<^verbatim>\<open>libs/string.c\<close>) and \<^verbatim>\<open>split\<close> of \<^verbatim>\<open>libs/glucose.c\<close>.

  A C object that holds characters is a list of \<^typ>\<open>char\<close>; a pointer into it is an offset, and
  every access is checked against the object's length, so \<open>None\<close> means that the C code reads or
  writes outside the object. A function of two pointers takes two objects (its arguments do not
  overlap). On RISC-V \<^verbatim>\<open>char\<close> is unsigned, so a character promotes to an \<open>int\<close> in 0..255.

  \<open>cstr b p\<close> is the string that the pointer \<open>p\<close> into \<open>b\<close> denotes; the lemmas show each loop
  equal to a list operation on such strings, within bounds (\<^verbatim>\<open>trim\<close> drops the white space at both ends).
\<close>

abbreviation NUL :: char where "NUL \<equiv> CHR 0x00"

type_synonym cbuf = "char list"

definition c_int :: "char \<Rightarrow> int" where
  "c_int c = of_char c"

definition cstr :: "cbuf \<Rightarrow> nat \<Rightarrow> string" where
  "cstr b p = takeWhile (\<lambda>c. c \<noteq> NUL) (drop p b)"

definition terminated :: "cbuf \<Rightarrow> nat \<Rightarrow> bool" where
  "terminated b p \<longleftrightarrow> NUL \<in> set (drop p b)"

section \<open>The library functions\<close>

function memcpy_loop :: "'a list \<Rightarrow> nat \<Rightarrow> 'a list \<Rightarrow> nat \<Rightarrow> nat \<Rightarrow> 'a list option" where
  "memcpy_loop dest d src s len =
     (if len \<noteq> 0 then do {
        v \<leftarrow> nth_chk src s;
        dest' \<leftarrow> upd_chk dest d v;
        memcpy_loop dest' (d + 1) src (s + 1) (len - 1)
      } else Some dest)"
  by pat_completeness auto
termination by (relation "measure (\<lambda>(dest, d, src, s, len). len)") auto

definition memcpy :: "'a list \<Rightarrow> nat \<Rightarrow> 'a list \<Rightarrow> nat \<Rightarrow> u32 \<Rightarrow> 'a list option" where
  "memcpy dest d src s len = memcpy_loop dest d src s (unat len)"

function memset_loop :: "'a list \<Rightarrow> nat \<Rightarrow> 'a \<Rightarrow> nat \<Rightarrow> 'a list option" where
  "memset_loop dest d val len =
     (if len \<noteq> 0 then do {
        dest' \<leftarrow> upd_chk dest d val;
        memset_loop dest' (d + 1) val (len - 1)
      } else Some dest)"
  by pat_completeness auto
termination by (relation "measure (\<lambda>(dest, d, val, len). len)") auto

definition memset :: "'a list \<Rightarrow> nat \<Rightarrow> 'a \<Rightarrow> u32 \<Rightarrow> 'a list option" where
  "memset dest d val len = memset_loop dest d val (unat len)"

definition bzero :: "'a::zero list \<Rightarrow> nat \<Rightarrow> u32 \<Rightarrow> 'a list option" where
  "bzero dest d len = memset dest d 0 len"

function strlen_loop :: "cbuf \<Rightarrow> nat \<Rightarrow> nat \<Rightarrow> nat option" where
  "strlen_loop src p i =
     (if p + i < length src then
        (if src ! (p + i) \<noteq> NUL then strlen_loop src p (i + 1) else Some i)
      else None)"
  by pat_completeness auto
termination by (relation "measure (\<lambda>(src, p, i). length src - (p + i))") auto

definition strlen :: "cbuf \<Rightarrow> nat \<Rightarrow> nat option" where
  "strlen src p = strlen_loop src p 0"

function strcmp :: "cbuf \<Rightarrow> nat \<Rightarrow> cbuf \<Rightarrow> nat \<Rightarrow> int option" where
  "strcmp str1 p str2 q =
     (if p < length str1 \<and> q < length str2 then
        (if str1 ! p \<noteq> NUL \<and> str2 ! q \<noteq> NUL then
           (if str1 ! p \<noteq> str2 ! q then Some (c_int (str1 ! p) - c_int (str2 ! q))
            else strcmp str1 (p + 1) str2 (q + 1))
         else Some (c_int (str1 ! p) - c_int (str2 ! q)))
      else None)"
  by pat_completeness auto
termination by (relation "measure (\<lambda>(str1, p, str2, q). length str1 - p)") auto

function strncmp_loop :: "cbuf \<Rightarrow> nat \<Rightarrow> cbuf \<Rightarrow> nat \<Rightarrow> nat \<Rightarrow> nat \<Rightarrow> int option" where
  "strncmp_loop str1 p str2 q n i =
     (if i < n then
        (if p + i < length str1 \<and> q + i < length str2 then
           (if str1 ! (p + i) = NUL \<or> str1 ! (p + i) \<noteq> str2 ! (q + i)
            then Some (c_int (str1 ! (p + i)) - c_int (str2 ! (q + i)))
            else strncmp_loop str1 p str2 q n (i + 1))
         else None)
      else Some 0)"
  by pat_completeness auto
termination by (relation "measure (\<lambda>(str1, p, str2, q, n, i). n - i)") auto

definition strncmp :: "cbuf \<Rightarrow> nat \<Rightarrow> cbuf \<Rightarrow> nat \<Rightarrow> u32 \<Rightarrow> int option" where
  "strncmp str1 p str2 q n = strncmp_loop str1 p str2 q (unat n) 0"

text \<open>The copying loop of \<^verbatim>\<open>strcpy\<close> and of the second half of \<^verbatim>\<open>strcat\<close>.\<close>

function strcpy :: "cbuf \<Rightarrow> nat \<Rightarrow> cbuf \<Rightarrow> nat \<Rightarrow> cbuf option" where
  "strcpy dest d src s =
     (if s < length src then
        (if src ! s \<noteq> NUL then do {
           dest' \<leftarrow> upd_chk dest d (src ! s);
           strcpy dest' (d + 1) src (s + 1)
         } else upd_chk dest d NUL)
      else None)"
  by pat_completeness auto
termination by (relation "measure (\<lambda>(dest, d, src, s). length src - s)") auto

text \<open>
  \<^verbatim>\<open>strncpy\<close>: the first loop copies while \<^verbatim>\<open>*src && n-- > 0\<close>; \<open>n\<close> is decremented only when
  \<^verbatim>\<open>*src\<close> is not the terminator. The second loop stores the remaining \<open>n\<close> terminators.
\<close>

fun strncpy_pad :: "cbuf \<Rightarrow> nat \<Rightarrow> nat \<Rightarrow> cbuf option" where
  "strncpy_pad dest d 0 = Some dest"
| "strncpy_pad dest d (Suc n) = do {
     dest' \<leftarrow> upd_chk dest d NUL;
     strncpy_pad dest' (d + 1) n
   }"

fun strncpy :: "cbuf \<Rightarrow> nat \<Rightarrow> cbuf \<Rightarrow> nat \<Rightarrow> nat \<Rightarrow> cbuf option" where
  "strncpy dest d src s 0 = (if s < length src then Some dest else None)"
| "strncpy dest d src s (Suc n) =
     (if s < length src then
        (if src ! s \<noteq> NUL then do {
           dest' \<leftarrow> upd_chk dest d (src ! s);
           strncpy dest' (d + 1) src (s + 1) n
         } else strncpy_pad dest d (Suc n))
      else None)"

definition strcat :: "cbuf \<Rightarrow> nat \<Rightarrow> cbuf \<Rightarrow> nat \<Rightarrow> cbuf option" where
  "strcat dest d src s = do {
     l \<leftarrow> strlen dest d;
     strcpy dest (d + l) src s
   }"

function strrev_loop :: "cbuf \<Rightarrow> nat \<Rightarrow> int \<Rightarrow> int \<Rightarrow> cbuf option" where
  "strrev_loop str p i j =
     (if i < j then do {
        tmp \<leftarrow> nth_chk str (p + nat i);
        v \<leftarrow> nth_chk str (p + nat j);
        str' \<leftarrow> upd_chk str (p + nat i) v;
        str'' \<leftarrow> upd_chk str' (p + nat j) tmp;
        strrev_loop str'' p (i + 1) (j - 1)
      } else Some str)"
  by pat_completeness auto
termination by (relation "measure (\<lambda>(str, p, i, j). nat (j - i))") auto

definition strrev :: "cbuf \<Rightarrow> nat \<Rightarrow> cbuf option" where
  "strrev str p = do {
     len \<leftarrow> strlen str p;
     strrev_loop str p 0 (int len - 1)
   }"

declare memcpy_loop.simps [simp del] memset_loop.simps [simp del] strlen_loop.simps [simp del]
  strcmp.simps [simp del] strncmp_loop.simps [simp del] strcpy.simps [simp del]
  strrev_loop.simps [simp del]

text \<open>
  \<^verbatim>\<open>split\<close>: \<open>p\<close> runs over the string, \<open>acc\<close> is \<^verbatim>\<open>parr[0..i-1]\<close>, \<open>flag_new\<close> says that the next
  character starts a name; a separator is overwritten by a terminator.
\<close>

function split_loop :: "cbuf \<Rightarrow> char \<Rightarrow> nat \<Rightarrow> nat \<Rightarrow> bool \<Rightarrow> nat list \<Rightarrow> (cbuf \<times> nat list) option" where
  "split_loop src Sep pmax p flag_new acc =
     (if p < length src then
        (if src ! p \<noteq> NUL then
           (let acc' = (if flag_new then acc @ [p] else acc) in
            if src ! p = Sep then
              (if length acc' \<ge> pmax then Some (src[p := NUL], acc')
               else split_loop (src[p := NUL]) Sep pmax (p + 1) True acc')
            else split_loop src Sep pmax (p + 1) False acc')
         else Some (src, acc))
      else None)"
  by pat_completeness auto
termination by (relation "measure (\<lambda>(src, Sep, pmax, p, f, acc). length src - p)") auto

declare split_loop.simps [simp del]

definition split :: "cbuf \<Rightarrow> nat \<Rightarrow> char \<Rightarrow> nat \<Rightarrow> (cbuf \<times> nat list) option" where
  "split src p Sep pmax = split_loop src Sep pmax p True []"

text \<open>The specification of \<^verbatim>\<open>split\<close> on strings: the pieces between separators.\<close>

function split_str :: "char \<Rightarrow> string \<Rightarrow> string list" where
  "split_str Sep [] = []"
| "split_str Sep (x # xs) =
     takeWhile (\<lambda>c. c \<noteq> Sep) (x # xs) #
       split_str Sep (tl (dropWhile (\<lambda>c. c \<noteq> Sep) (x # xs)))"
  by pat_completeness auto
termination
  by (relation "measure (\<lambda>(Sep, xs). length xs)")
    (auto simp: less_Suc_eq_le intro: le_trans[OF diff_le_self length_dropWhile_le])

section \<open>Strings in buffers\<close>

lemma terminated_less: "terminated b p \<Longrightarrow> p < length b"
  by (rule ccontr) (simp add: terminated_def)

lemma cstr_step: "p < length b \<Longrightarrow> cstr b p = (if b ! p = NUL then [] else b ! p # cstr b (Suc p))"
  by (simp add: cstr_def flip: Cons_nth_drop_Suc)

lemma terminated_step: "p < length b \<Longrightarrow> terminated b p \<longleftrightarrow> b ! p = NUL \<or> terminated b (Suc p)"
  by (auto simp: terminated_def simp flip: Cons_nth_drop_Suc)

lemma cstr_NUL: "p < length b \<Longrightarrow> b ! p = NUL \<Longrightarrow> cstr b p = []"
  by (simp add: cstr_step)

lemma cstr_Cons: "p < length b \<Longrightarrow> b ! p \<noteq> NUL \<Longrightarrow> cstr b p = b ! p # cstr b (Suc p)"
  by (simp add: cstr_step)

lemma terminated_Suc: "terminated b p \<Longrightarrow> b ! p \<noteq> NUL \<Longrightarrow> terminated b (Suc p)"
  using terminated_step terminated_less by blast

lemmas cstr_steps = cstr_NUL cstr_Cons terminated_Suc terminated_less

lemma NUL_notin_cstr [simp]: "NUL \<notin> set (cstr b p)"
  by (auto simp: cstr_def dest: set_takeWhileD)

lemma cstr_update_before [simp]: "i < p \<Longrightarrow> cstr (b[i := c]) p = cstr b p"
  by (simp add: cstr_def)

lemma terminated_update_before [simp]: "i < p \<Longrightarrow> terminated (b[i := c]) p = terminated b p"
  by (simp add: terminated_def)

text \<open>A buffer described around the pointer: what stands at it, up to the terminator.\<close>

lemma terminated_decomp:
  assumes "terminated b p"
  obtains rest where "drop p b = cstr b p @ NUL # rest"
proof -
  have "dropWhile (\<lambda>c. c \<noteq> NUL) (drop p b) \<noteq> []"
    using assms by (auto simp: terminated_def dropWhile_eq_Nil_conv)
  then obtain y rest where d: "dropWhile (\<lambda>c. c \<noteq> NUL) (drop p b) = y # rest"
    by (cases "dropWhile (\<lambda>c. c \<noteq> NUL) (drop p b)") auto
  then have "y = NUL" using hd_dropWhile[of "\<lambda>c. c \<noteq> NUL" "drop p b"] by auto
  with d have "drop p b = cstr b p @ NUL # rest"
    unfolding cstr_def by (metis takeWhile_dropWhile_id)
  then show thesis by (rule that)
qed

lemma cstr_eqI: "drop p b = xs @ NUL # rest \<Longrightarrow> NUL \<notin> set xs \<Longrightarrow> cstr b p = xs \<and> terminated b p"
  by (force simp: cstr_def terminated_def takeWhile_append)

lemma terminated_bound: "terminated b p \<Longrightarrow> p + length (cstr b p) < length b"
  by (erule terminated_decomp) (auto dest: arg_cong[where f = length])

section \<open>Each loop computes its list function\<close>

lemma memcpy_loop_spec [kspec]:
  "s + len \<le> length src \<Longrightarrow> d + len \<le> length dest \<Longrightarrow>
   memcpy_loop dest d src s len = Some (take d dest @ take len (drop s src) @ drop (d + len) dest)"
proof (induction dest d src s len rule: memcpy_loop.induct)
  case (1 dest d src s len)
  show ?case
  proof (cases len)
    case 0
    then show ?thesis by (simp add: memcpy_loop.simps[of dest d src s 0])
  next
    case (Suc n)
    with 1 have "memcpy_loop (dest[d := src ! s]) (d + 1) src (s + 1) n =
      Some (take (d + 1) (dest[d := src ! s]) @ take n (drop (s + 1) src) @ drop (d + 1 + n) dest)"
      by (simp add: nth_chk_def upd_chk_def)
    moreover from 1 Suc have "take (d + 1) (dest[d := src ! s]) = take d dest @ [src ! s]"
      by (simp add: take_Suc_conv_app_nth)
    moreover from 1 Suc have "take len (drop s src) = src ! s # take n (drop (s + 1) src)"
      by (simp flip: Cons_nth_drop_Suc)
    ultimately show ?thesis
      using 1 Suc by (subst memcpy_loop.simps) simp
  qed
qed

lemma memset_loop_spec [kspec]:
  "d + len \<le> length dest \<Longrightarrow>
   memset_loop dest d val len = Some (take d dest @ replicate len val @ drop (d + len) dest)"
proof (induction dest d val len rule: memset_loop.induct)
  case (1 dest d val len)
  show ?case
  proof (cases len)
    case 0
    then show ?thesis by (simp add: memset_loop.simps[of dest d val 0])
  next
    case (Suc n)
    with 1 have "memset_loop (dest[d := val]) (d + 1) val n =
      Some (take (d + 1) (dest[d := val]) @ replicate n val @ drop (d + 1 + n) dest)"
      by (simp add: upd_chk_def)
    moreover from 1 Suc have "take (d + 1) (dest[d := val]) = take d dest @ [val]"
      by (simp add: take_Suc_conv_app_nth)
    ultimately show ?thesis
      using 1 Suc by (subst memset_loop.simps) simp
  qed
qed

lemma strlen_loop_spec:
  "terminated src (p + i) \<Longrightarrow> strlen_loop src p i = Some (i + length (cstr src (p + i)))"
proof (induction src p i rule: strlen_loop.induct)
  case (1 src p i)
  then show ?case
    by (subst strlen_loop.simps) (auto simp: cstr_steps)
qed

lemma strlen_spec [kspec]: "terminated src p \<Longrightarrow> strlen src p = Some (length (cstr src p))"
  using strlen_loop_spec[of src p 0] by (simp add: strlen_def)

text \<open>\<^verbatim>\<open>strcmp\<close> is the sign of the lexicographic comparison of the two strings.\<close>

fun str_diff :: "string \<Rightarrow> string \<Rightarrow> int" where
  "str_diff [] [] = 0"
| "str_diff (x # xs) [] = c_int x"
| "str_diff [] (y # ys) = - c_int y"
| "str_diff (x # xs) (y # ys) = (if x = y then str_diff xs ys else c_int x - c_int y)"

lemma c_int_eq_iff [simp]: "c_int x = c_int y \<longleftrightarrow> x = y"
  by (simp add: c_int_def)

lemma c_int_NUL [simp]: "c_int NUL = 0"
  by (simp add: c_int_def)

lemma c_int_0_iff [simp]: "c_int x = 0 \<longleftrightarrow> x = NUL"
  using c_int_eq_iff[of x NUL] by (simp del: c_int_eq_iff)

lemma str_diff_0_iff:
  "NUL \<notin> set xs \<Longrightarrow> NUL \<notin> set ys \<Longrightarrow> str_diff xs ys = 0 \<longleftrightarrow> xs = ys"
  by (induction xs ys rule: str_diff.induct) auto

lemma strcmp_diff:
  "terminated str1 p \<Longrightarrow> terminated str2 q \<Longrightarrow>
   strcmp str1 p str2 q = Some (str_diff (cstr str1 p) (cstr str2 q))"
proof (induction str1 p str2 q rule: strcmp.induct)
  case (1 str1 p str2 q)
  then show ?case
    by (subst strcmp.simps) (auto simp: cstr_steps)
qed

lemma strcmp_eq_0_iff [kspec]:
  "terminated str1 p \<Longrightarrow> terminated str2 q \<Longrightarrow>
   strcmp str1 p str2 q = Some 0 \<longleftrightarrow> cstr str1 p = cstr str2 q"
  by (simp add: strcmp_diff str_diff_0_iff)

lemma strncmp_loop_spec:
  "terminated str1 (p + i) \<Longrightarrow> terminated str2 (q + i) \<Longrightarrow>
   strncmp_loop str1 p str2 q n i =
     Some (str_diff (take (n - i) (cstr str1 (p + i))) (take (n - i) (cstr str2 (q + i))))"
proof (induction str1 p str2 q n i rule: strncmp_loop.induct)
  case (1 str1 p str2 q n i)
  show ?case
  proof (cases "i < n")
    case True
    then obtain m where m: "n - i = Suc m" by (metis Suc_diff_Suc)
    then have "n - Suc i = m" by simp
    with 1 True m show ?thesis
      by (subst strncmp_loop.simps, cases "str1 ! (p + i) = NUL"; cases "str2 ! (q + i) = NUL")
        (auto simp: cstr_steps)
  next
    case False
    then show ?thesis by (subst strncmp_loop.simps) simp
  qed
qed

lemma strncmp_eq_0_iff [kspec]:
  "terminated str1 p \<Longrightarrow> terminated str2 q \<Longrightarrow>
   strncmp str1 p str2 q n = Some 0 \<longleftrightarrow>
     take (unat n) (cstr str1 p) = take (unat n) (cstr str2 q)"
proof -
  assume t: "terminated str1 p" "terminated str2 q"
  have "NUL \<notin> set (take k (cstr b r))" for k b r
    using NUL_notin_cstr[of b r] by (metis in_set_takeD)
  then show ?thesis
    using t strncmp_loop_spec[of str1 p 0 str2 q "unat n"]
    by (simp add: strncmp_def str_diff_0_iff)
qed

lemma strcpy_spec [kspec]:
  "terminated src s \<Longrightarrow> d + length (cstr src s) < length dest \<Longrightarrow>
   strcpy dest d src s =
     Some (take d dest @ cstr src s @ NUL # drop (Suc (d + length (cstr src s))) dest)"
proof (induction dest d src s rule: strcpy.induct)
  case (1 dest d src s)
  show ?case
  proof (cases "src ! s = NUL")
    case True
    with 1 show ?thesis
      by (subst strcpy.simps) (auto simp: cstr_steps upd_chk_def upd_conv_take_nth_drop)
  next
    case False
    let ?dest = "dest[d := src ! s]"
    from 1 False have "strcpy ?dest (d + 1) src (s + 1) =
       Some (take (d + 1) ?dest @ cstr src (s + 1) @ NUL # drop (Suc (d + 1 + length (cstr src (s + 1)))) ?dest)"
      by (auto simp: cstr_steps upd_chk_def)
    with 1 False show ?thesis
      by (subst strcpy.simps) (auto simp: cstr_steps upd_chk_def take_Suc_conv_app_nth)
  qed
qed

lemma strcpy_cstr:
  assumes "terminated src s" and "d + length (cstr src s) < length dest"
  obtains dest' where "strcpy dest d src s = Some dest'" and "cstr dest' d = cstr src s"
    and "terminated dest' d" and "length dest' = length dest" and "take d dest' = take d dest"
proof -
  let ?d = "take d dest @ cstr src s @ NUL # drop (Suc (d + length (cstr src s))) dest"
  have "drop d ?d = cstr src s @ NUL # drop (Suc (d + length (cstr src s))) dest"
    using assms(2) by simp
  then have "cstr ?d d = cstr src s \<and> terminated ?d d"
    by (rule cstr_eqI) simp
  with assms show thesis by (intro that[of ?d]) (auto simp: kspec)
qed

lemma strncpy_pad_spec:
  "d + n \<le> length dest \<Longrightarrow>
   strncpy_pad dest d n = Some (take d dest @ replicate n NUL @ drop (d + n) dest)"
  by (induction dest d n rule: strncpy_pad.induct) (auto simp: take_Suc_conv_app_nth)

text \<open>
  \<^verbatim>\<open>strncpy\<close> fills exactly \<open>n\<close> characters: the string, cut to \<open>n\<close>, and terminators after it.
\<close>

lemma strncpy_spec [kspec]:
  "terminated src s \<Longrightarrow> d + n \<le> length dest \<Longrightarrow>
   strncpy dest d src s n =
     Some (take d dest @ take n (cstr src s @ replicate n NUL) @ drop (d + n) dest)"
proof (induction dest d src s n rule: strncpy.induct)
  case (1 dest d src s)
  then show ?case by (simp add: terminated_less)
next
  case (2 dest d src s n)
  show ?case
  proof (cases "src ! s = NUL")
    case True
    with 2 show ?thesis by (simp add: cstr_steps strncpy_pad_spec del: strncpy_pad.simps)
  next
    case False
    let ?dest = "dest[d := src ! s]"
    have "take n (xs @ replicate n NUL) = take n (xs @ NUL # replicate n NUL)" for xs
      by (simp add: take_Cons' flip: replicate_Suc)
    moreover from 2 False have "strncpy ?dest (d + 1) src (s + 1) n =
      Some (take (d + 1) ?dest @ take n (cstr src (s + 1) @ replicate n NUL) @ drop (d + 1 + n) ?dest)"
      by (auto simp: cstr_steps)
    ultimately show ?thesis
      using 2 False by (simp add: cstr_steps take_Suc_conv_app_nth)
  qed
qed

text \<open>The kernel's idiom: copy at most \<open>n\<close> characters into an object of size \<open>n + 1\<close>, then terminate it.\<close>

lemma strncpy_terminated:
  assumes "terminated src s" and "length dest = Suc n"
  obtains dest' where "strncpy dest 0 src s n = Some dest'" and "length dest' = Suc n"
    and "cstr (dest'[n := NUL]) 0 = take n (cstr src s)" and "terminated (dest'[n := NUL]) 0"
proof -
  let ?d = "take n (cstr src s @ replicate n NUL) @ drop n dest"
  let ?k = "n - length (cstr src s)"
  have len: "length (take n (cstr src s @ replicate n NUL)) = n" by simp
  from assms(2) obtain z where z: "drop n dest = [z]"
    by (metis Cons_nth_drop_Suc cancel_comm_monoid_add_class.diff_cancel drop_all length_drop lessI less_or_eq_imp_le)
  have "?d[n := NUL] = take n (cstr src s @ replicate n NUL) @ [NUL]"
    using len z by (metis list_update_length)
  also have "\<dots> = take n (cstr src s) @ replicate ?k NUL @ [NUL]"
    by (simp add: min_def)
  also have "\<dots> = take n (cstr src s) @ NUL # replicate ?k NUL"
    by (simp add: replicate_append_same)
  finally have "drop 0 (?d[n := NUL]) = take n (cstr src s) @ NUL # replicate ?k NUL" by simp
  moreover have "NUL \<notin> set (take n (cstr src s))" by (metis NUL_notin_cstr in_set_takeD)
  ultimately have "cstr (?d[n := NUL]) 0 = take n (cstr src s) \<and> terminated (?d[n := NUL]) 0"
    by (rule cstr_eqI)
  with assms show thesis by (intro that[of ?d]) (auto simp: kspec)
qed

lemma strcat_spec [kspec]:
  assumes "terminated dest d" and "terminated src s"
    and room: "d + length (cstr dest d) + length (cstr src s) < length dest"
  shows "\<exists>dest'. strcat dest d src s = Some dest' \<and> cstr dest' d = cstr dest d @ cstr src s
     \<and> terminated dest' d \<and> length dest' = length dest \<and> take d dest' = take d dest"
proof -
  let ?l = "length (cstr dest d)"
  from assms(2) room obtain dest' where d': "strcpy dest (d + ?l) src s = Some dest'"
    and c: "cstr dest' (d + ?l) = cstr src s" and t: "terminated dest' (d + ?l)"
    and len: "length dest' = length dest" and tk: "take (d + ?l) dest' = take (d + ?l) dest"
    by (rule strcpy_cstr)
  obtain rest where r: "drop (d + ?l) dest' = cstr src s @ NUL # rest"
    using terminated_decomp[OF t] c by metis
  obtain rest0 where "drop d dest = cstr dest d @ NUL # rest0"
    using terminated_decomp[OF assms(1)] by metis
  then have "take ?l (drop d dest') = cstr dest d"
    using arg_cong[OF tk, of "drop d"] by (simp add: drop_take)
  then have "drop d dest' = cstr dest d @ drop (d + ?l) dest'"
    by (metis append_take_drop_id drop_drop add.commute)
  with r have "drop d dest' = (cstr dest d @ cstr src s) @ NUL # rest" by simp
  then have "cstr dest' d = cstr dest d @ cstr src s \<and> terminated dest' d"
    by (rule cstr_eqI) simp
  moreover have "take d dest' = take d dest"
    using arg_cong[OF tk, of "take d"] by (simp add: min_def)
  ultimately show ?thesis
    using d' len assms(1) by (simp add: strcat_def strlen_spec)
qed

section \<open>Splitting\<close>

lemma nth_of_take_eq: "take n xs = take n ys \<Longrightarrow> i < n \<Longrightarrow> i < length xs \<Longrightarrow> xs ! i = ys ! i"
  by (metis nth_take)

text \<open>
  Inside a name (\<open>\<not> flag_new\<close>) the text up to the next separator still belongs to the name that
  started before \<open>p\<close>; at the start of one (\<open>flag_new\<close>) all of it is split.
\<close>

lemma split_loop_spec:
  assumes "terminated src p" and "Sep \<noteq> NUL"
    and "if flag_new then length acc < pmax else length acc \<le> pmax"
  shows "\<exists>b ps. split_loop src Sep pmax p flag_new acc = Some (b, acc @ ps) \<and>
     length b = length src \<and> take p b = take p src \<and> (\<forall>q \<in> set ps. p \<le> q \<and> terminated b q) \<and>
     (if flag_new then map (cstr b) ps = take (pmax - length acc) (split_str Sep (cstr src p))
      else terminated b p \<and> cstr b p = takeWhile (\<lambda>c. c \<noteq> Sep) (cstr src p) \<and>
        map (cstr b) ps = take (pmax - length acc)
          (split_str Sep (tl (dropWhile (\<lambda>c. c \<noteq> Sep) (cstr src p)))))"
  using assms
proof (induction src Sep pmax p flag_new acc rule: split_loop.induct)
  case (1 src Sep pmax p flag_new acc)
  let ?acc = "if flag_new then acc @ [p] else acc"
  have p: "p < length src" using 1(3) by (rule terminated_less)
  consider (nul) "src ! p = NUL" | (stop) "src ! p = Sep" "pmax \<le> length ?acc"
    | (sep) "src ! p = Sep" "\<not> pmax \<le> length ?acc" | (chr) "src ! p \<noteq> NUL" "src ! p \<noteq> Sep"
    by blast
  then show ?case
  proof cases
    case nul
    have "split_loop src Sep pmax p flag_new acc = Some (src, acc)"
      using nul p by (subst split_loop.simps) simp
    moreover have "cstr src p = []" using nul p by (simp add: cstr_NUL)
    ultimately show ?thesis using 1(3) by simp
  next
    case stop
    let ?b = "src[p := NUL]"
    have "terminated ?b p" "cstr ?b p = []" using p by (auto simp: cstr_step terminated_step)
    moreover have "split_loop src Sep pmax p flag_new acc = Some (?b, ?acc)"
      using stop p 1(4) by (subst split_loop.simps) (simp add: Let_def)
    moreover have "cstr src p = Sep # cstr src (p + 1)" using stop p 1(4) by (simp add: cstr_Cons)
    moreover have "pmax - length acc = 1" if flag_new using that stop 1(5) by auto
    ultimately show ?thesis using stop 1(5) by (cases flag_new) auto
  next
    case sep
    let ?b = "src[p := NUL]"
    have "terminated ?b (p + 1)" using 1(3,4) sep by (simp add: terminated_Suc)
    then obtain b ps where r: "split_loop ?b Sep pmax (p + 1) True ?acc = Some (b, ?acc @ ps)"
      and len: "length b = length src" and tk: "take (p + 1) b = take (p + 1) ?b"
      and ps: "\<forall>q \<in> set ps. p + 1 \<le> q \<and> terminated b q"
      and m: "map (cstr b) ps = take (pmax - length ?acc) (split_str Sep (cstr src (p + 1)))"
      using 1(1)[OF p _ refl sep] sep 1(4) by auto
    have "b ! p = NUL" using nth_of_take_eq[OF tk, of p] p len by simp
    then have bp: "terminated b p" "cstr b p = []" using p len by (auto simp: cstr_step terminated_step)
    have "take p b = take p src" using arg_cong[OF tk, of "take p"] by simp
    moreover have "split_loop src Sep pmax p flag_new acc = Some (b, ?acc @ ps)"
      using r p sep 1(4) by (subst split_loop.simps) (simp add: Let_def)
    moreover have "map (cstr b) (p # ps) = take (pmax - length acc) (split_str Sep (cstr src p))"
      if flag_new
    proof -
      have "pmax - length acc = Suc (pmax - length ?acc)" using that sep by simp
      then show ?thesis using that bp m sep p 1(4) by (simp add: cstr_Cons)
    qed
    ultimately show ?thesis
      using bp ps m len p sep 1(4) by (auto simp: cstr_Cons)
  next
    case chr
    have "terminated src (p + 1)" using 1(3) chr by (simp add: terminated_Suc)
    then obtain b ps where r: "split_loop src Sep pmax (p + 1) False ?acc = Some (b, ?acc @ ps)"
      and len: "length b = length src" and tk: "take (p + 1) b = take (p + 1) src"
      and ps: "\<forall>q \<in> set ps. p + 1 \<le> q \<and> terminated b q" and t: "terminated b (p + 1)"
      and c: "cstr b (p + 1) = takeWhile (\<lambda>c. c \<noteq> Sep) (cstr src (p + 1))"
      and m: "map (cstr b) ps = take (pmax - length ?acc)
         (split_str Sep (tl (dropWhile (\<lambda>c. c \<noteq> Sep) (cstr src (p + 1)))))"
      using 1(2)[OF p _ refl] chr 1(4,5) by (auto split: if_splits)
    have "b ! p = src ! p" using nth_of_take_eq[OF tk, of p] p len by simp
    then have bp: "terminated b p" "cstr b p = takeWhile (\<lambda>c. c \<noteq> Sep) (cstr src p)"
      using p len t c chr by (auto simp: cstr_step terminated_step)
    have "take p b = take p src" using arg_cong[OF tk, of "take p"] by simp
    moreover have "split_loop src Sep pmax p flag_new acc = Some (b, ?acc @ ps)"
      using r p chr by (subst split_loop.simps) (simp add: Let_def)
    moreover have "map (cstr b) (p # ps) = take (pmax - length acc) (split_str Sep (cstr src p))"
      if flag_new
    proof -
      have "pmax - length acc = Suc (pmax - length ?acc)" using that 1(5) by simp
      then show ?thesis using that bp m chr p by (simp add: cstr_Cons)
    qed
    ultimately show ?thesis
      using bp ps m len p chr by (auto simp: cstr_Cons)
  qed
qed

lemma split_spec:
  assumes "terminated src p" and "Sep \<noteq> NUL" and "0 < pmax"
  shows "\<exists>b ps. split src p Sep pmax = Some (b, ps) \<and> length b = length src \<and>
     take p b = take p src \<and> (\<forall>q \<in> set ps. p \<le> q \<and> terminated b q) \<and>
     map (cstr b) ps = take pmax (split_str Sep (cstr src p))"
  using split_loop_spec[OF assms(1,2), of True "[]" pmax] assms(3) by (simp add: split_def)

section \<open>Trimming\<close>

text \<open>
  \<^verbatim>\<open>trim\<close> of \<^verbatim>\<open>libs/string.c\<close>: the white space at the beginning is skipped, the rest is copied to the beginning with its terminator (the
  two overlap, the copy runs upwards), and a terminator is put behind the last character that is not white space.
\<close>

definition isspace :: "char \<Rightarrow> bool" where
  "isspace c \<longleftrightarrow> c = CHR '' '' \<or> c = CHR 0x09 \<or> c = CHR 0x0A \<or> c = CHR 0x0B \<or> c = CHR 0x0C \<or> c = CHR 0x0D"

function trim_skip :: "cbuf \<Rightarrow> nat \<Rightarrow> nat option" where
  "trim_skip b t = (if t < length b then (if isspace (b ! t) then trim_skip b (t + 1) else Some t) else None)"
  by pat_completeness auto
termination by (relation "measure (\<lambda>(b, t). length b - t)") auto

function trim_copy :: "cbuf \<Rightarrow> nat \<Rightarrow> nat \<Rightarrow> (cbuf \<times> nat) option" where
  "trim_copy b s t = (if t < length b \<and> s < length b then
     (if b ! t \<noteq> NUL then trim_copy (b[s := b ! t]) (s + 1) (t + 1) else Some (b[s := NUL], s + 1)) else None)"
  by pat_completeness auto
termination by (relation "measure (\<lambda>(b, s, t). length b - t)") auto

text \<open>The last loop, \<open>p\<close> being the beginning of the string; the result is where the terminator goes.\<close>

fun trim_back :: "cbuf \<Rightarrow> nat \<Rightarrow> nat \<Rightarrow> nat option" where
  "trim_back b p 0 = Some 0"
| "trim_back b p (Suc s) = (if s < p then Some (Suc s)
     else do { c \<leftarrow> nth_chk b s; if c = NUL \<or> isspace c then trim_back b p s else Some (Suc s) })"

definition trim :: "cbuf \<Rightarrow> nat \<Rightarrow> cbuf option" where
  "trim b p = do {
     t \<leftarrow> trim_skip b p;
     (b1, s) \<leftarrow> trim_copy b p t;
     e \<leftarrow> trim_back b1 p s;
     upd_chk b1 e NUL }"

declare trim_skip.simps [simp del] trim_copy.simps [simp del]

lemma isspace_NUL [simp]: "\<not> isspace NUL"
  by (simp add: isspace_def)

lemma trim_skip_spec [kspec]:
  "terminated b t \<Longrightarrow> \<exists>t'. trim_skip b t = Some t' \<and> t \<le> t' \<and> terminated b t' \<and> cstr b t' = dropWhile isspace (cstr b t)"
proof (induction b t rule: trim_skip.induct)
  case (1 b t)
  note l = terminated_less[OF 1(2)]
  show ?case
  proof (cases "isspace (b ! t)")
    case True
    then have n: "b ! t \<noteq> NUL" by auto
    obtain t' where "trim_skip b (t + 1) = Some t'" "t + 1 \<le> t'" "terminated b t'" "cstr b t' = dropWhile isspace (cstr b (t + 1))"
      using 1(1)[OF l True] terminated_Suc[OF 1(2) n] by auto
    then show ?thesis using True l n by (subst trim_skip.simps) (auto simp: cstr_Cons[OF l n])
  next
    case False
    then show ?thesis using l 1(2) by (subst trim_skip.simps) (auto simp: cstr_step[OF l])
  qed
qed

lemma trim_copy_spec [kspec]:
  "s \<le> t \<Longrightarrow> terminated b t \<Longrightarrow> \<exists>b'. trim_copy b s t = Some (b', s + length (cstr b t) + 1) \<and> length b' = length b \<and>
     take s b' = take s b \<and> take (length (cstr b t) + 1) (drop s b') = cstr b t @ [NUL]"
proof (induction b s t rule: trim_copy.induct)
  case (1 b s t)
  note l = terminated_less[OF 1(3)]
  have sl: "s < length b" using l 1(2) by simp
  show ?case
  proof (cases "b ! t = NUL")
    case True
    then show ?thesis using l sl by (subst trim_copy.simps) (simp add: cstr_NUL[OF l True] drop_update_swap take_Suc_conv_app_nth flip: Cons_nth_drop_Suc)
  next
    case False
    let ?b = "b[s := b ! t]"
    have c: "cstr ?b (t + 1) = cstr b (t + 1)" "terminated ?b (t + 1)" using 1(2) terminated_Suc[OF 1(3) False] by auto
    obtain b' where b': "trim_copy ?b (s + 1) (t + 1) = Some (b', s + 1 + length (cstr b (t + 1)) + 1)" "length b' = length b"
      "take (s + 1) b' = take (s + 1) ?b" "take (length (cstr b (t + 1)) + 1) (drop (s + 1) b') = cstr b (t + 1) @ [NUL]"
      using 1(1)[OF conjI[OF l sl] False _ c(2)] 1(2) unfolding c(1) by auto
    have "take s b' = take s b" using arg_cong[OF b'(3), of "take s"] by simp
    moreover have "drop s b' = b ! t # drop (s + 1) b'"
    proof -
      have "b' ! s = ?b ! s" using b'(3) by (metis less_add_one nth_take)
      then show ?thesis using sl b'(2) by (simp flip: Cons_nth_drop_Suc)
    qed
    ultimately show ?thesis using b'(1,2,4) False l sl
      by (subst trim_copy.simps) (simp add: cstr_Cons[OF l False])
  qed
qed

lemma trim_back_spec:
  "p + length v \<le> length b \<Longrightarrow> take (length v) (drop p b) = v \<Longrightarrow>
   trim_back b p (p + length v) = Some (p + length (dropWhile (\<lambda>c. c = NUL \<or> isspace c) (rev v)))"
proof (induction v rule: rev_induct)
  case Nil
  then show ?case by (cases p) simp_all
next
  case (snoc c v)
  have "take (length v) (take (length (v @ [c])) (drop p b)) = v" using snoc(3) by simp
  then have v: "take (length v) (drop p b) = v" by simp
  have "drop p b ! length v = (v @ [c]) ! length v" using arg_cong[OF snoc(3), of "\<lambda>xs. xs ! length v"] by simp
  then have "b ! (p + length v) = c" using snoc(2) by simp
  then show ?case using snoc(1)[OF _ v] snoc(2) by simp
qed

text \<open>\<^verbatim>\<open>trim\<close> stays in the buffer and removes the white space at both ends.\<close>

lemma trim_spec [kspec]:
  assumes "terminated b p"
  shows "\<exists>b'. trim b p = Some b' \<and> length b' = length b \<and> terminated b' p \<and>
    cstr b' p = rev (dropWhile isspace (rev (dropWhile isspace (cstr b p))))"
proof -
  obtain t where t: "trim_skip b p = Some t" "p \<le> t" "terminated b t" "cstr b t = dropWhile isspace (cstr b p)"
    using trim_skip_spec[OF assms] by blast
  let ?u = "cstr b t"
  obtain b1 where b1: "trim_copy b p t = Some (b1, p + length ?u + 1)" "length b1 = length b" "take (length ?u + 1) (drop p b1) = ?u @ [NUL]"
    using trim_copy_spec[OF t(2,3)] by blast
  have len: "p + length (?u @ [NUL]) \<le> length b1" using terminated_bound[OF t(3)] t(2) b1(2) by simp
  define w where "w = rev (dropWhile isspace (rev ?u))"
  have dw: "dropWhile (\<lambda>c. c = NUL \<or> isspace c) (rev ?u) = dropWhile isspace (rev ?u)"
    using NUL_notin_cstr[of b t] by (intro dropWhile_cong) auto
  have "trim_back b1 p (p + length (?u @ [NUL])) = Some (p + length w)"
    using trim_back_spec[OF len] b1(3) by (simp add: w_def dw)
  then have tr: "trim b p = Some (b1[p + length w := NUL])"
    using t(1) b1(1) len length_dropWhile_le[of isspace "rev ?u"] by (simp add: trim_def w_def)
  have lw: "length w \<le> length ?u" using length_dropWhile_le[of isspace "rev ?u"] by (simp add: w_def)
  have "?u = w @ rev (takeWhile isspace (rev ?u))" unfolding w_def by (metis rev_append rev_rev_ident takeWhile_dropWhile_id)
  then have "take (length w) ?u = w" by (metis append_eq_conv_conj)
  moreover have "take (length w) (take (length ?u + 1) (drop p b1)) = take (length w) (?u @ [NUL])" unfolding b1(3) ..
  ultimately have "take (length w) (drop p b1) = w" using lw by (simp add: min_absorb1)
  then have "drop p (b1[p + length w := NUL]) = w @ NUL # drop (p + length w + 1) b1"
    using len lw by (simp add: drop_update_swap upd_conv_take_nth_drop take_drop add.commute)
  moreover have "NUL \<notin> set w" using NUL_notin_cstr[of b t] by (auto simp: w_def dest: set_dropWhileD)
  ultimately have "cstr (b1[p + length w := NUL]) p = w \<and> terminated (b1[p + length w := NUL]) p" by (rule cstr_eqI)
  then show ?thesis using tr b1(2) t(4) by (simp add: w_def)
qed

section \<open>Properties\<close>

text \<open>
  \<^verbatim>\<open>strcmp\<close> on two terminated strings returns the difference of the first characters in which
  they differ, as in the lexicographic comparison of the strings, so it is 0 exactly for equal strings.
\<close>

theorem strcmp_compares:
  assumes "terminated str1 p" and "terminated str2 q"
  shows "strcmp str1 p str2 q = Some (str_diff (cstr str1 p) (cstr str2 q)) \<and>
    (strcmp str1 p str2 q = Some 0 \<longleftrightarrow> cstr str1 p = cstr str2 q)"
  using assms by (simp add: strcmp_diff str_diff_0_iff)

theorem strcmp_compares_witness:
  "terminated (''ab'' @ [NUL]) 0 \<and> strcmp (''ab'' @ [NUL]) 0 (''ab'' @ [NUL, CHR ''x'']) 0 = Some 0"
  using strcmp_compares[of "(''ab'' @ [NUL])" 0 "(''ab'' @ [NUL, CHR ''x''])" 0] by (simp add: terminated_def cstr_def)

text \<open>
  \<^verbatim>\<open>split\<close> with a limit of \<open>pmax\<close> pointers stays inside the string's buffer and leaves exactly the
  first \<open>pmax\<close> pieces between separators behind its pointers; later pieces are dropped.
\<close>

theorem split_pieces:
  assumes "terminated src p" and "Sep \<noteq> NUL" and "0 < pmax"
  shows "\<exists>b ps. split src p Sep pmax = Some (b, ps) \<and> length b = length src \<and>
     take p b = take p src \<and> (\<forall>q \<in> set ps. p \<le> q \<and> terminated b q) \<and>
     map (cstr b) ps = take pmax (split_str Sep (cstr src p))"
  by (rule split_spec[OF assms])

theorem split_pieces_witness:
  "\<exists>b ps. split (''a/b/c'' @ [NUL]) 0 CHR ''/'' 2 = Some (b, ps) \<and> map (cstr b) ps = [''a'', ''b'']"
  using split_pieces[of "(''a/b/c'' @ [NUL])" 0 "CHR ''/''" 2] by (auto simp: terminated_def cstr_def)

end
