(* ===== verification/GfsTypes.thy ===== *)
theory GfsTypes
  imports KMalloc CString
begin

text \<open>
  The on-disk structures of the Glucose File System (\<^verbatim>\<open>include/os/gfs.h\<close>), their layout in bytes, and
  the state of the file system in memory.

  A block or a sector is a list of bytes. The C code reinterprets such bytes as an array of directory
  entries, of block pointers, of inodes or of bitmap words; here that is a decoding function, and the
  bytes written back are an encoding. The round trip lemmas say that the two agree.

  The SD card is outside the kernel (the BIOS serves \<^verbatim>\<open>sd_read\<close> and \<^verbatim>\<open>sd_write\<close>): its state is a type
  variable and the two services are fields of the state. \<open>sd_laws\<close> is what the file system relies on.
\<close>

section \<open>Constants\<close>

definition SECTOR_SIZE :: nat where "SECTOR_SIZE = 512"
definition BLOCK_SIZE :: nat where "BLOCK_SIZE = 4096"
definition SEC_PER_BLOCK :: u32 where "SEC_PER_BLOCK = 8"
definition GFS_SIZE :: u32 where "GFS_SIZE = 1024 * 1024 * 1024"
definition INODE_BITMAP_LOC :: u32 where "INODE_BITMAP_LOC = 1"
definition BLOCK_BITMAP_LOC :: u32 where "BLOCK_BITMAP_LOC = 8"
definition INODE_LOC :: u32 where "INODE_LOC = 72"
definition DATA_LOC :: u32 where "DATA_LOC = 3656"
definition NINODE :: u32 where "NINODE = 28672"
definition FNLEN :: nat where "FNLEN = 59"
definition INODE_NDPTR :: nat where "INODE_NDPTR = 10"
definition INODE_INVALID_PTR :: u32 where "INODE_INVALID_PTR = 0"
definition DENTRY_INVALID_INO :: u32 where "DENTRY_INVALID_INO = NOT 0"
definition PATH_LEN :: nat where "PATH_LEN = 71"
definition OFILE_MAX :: nat where "OFILE_MAX = 4"
definition NLINK_MAX :: u8 where "NLINK_MAX = 8"
definition DENT_PER_BLOCK :: nat where "DENT_PER_BLOCK = 64"
definition PTR_PER_BLOCK :: nat where "PTR_PER_BLOCK = 1024"
definition NDENTRIES :: u32 where "NDENTRIES = (10 + 1024) * 64"
definition IT_FILE :: u8 where "IT_FILE = 0"
definition IT_DIR :: u8 where "IT_DIR = 1"
definition O_RDONLY :: u32 where "O_RDONLY = 1"
definition O_WRONLY :: u32 where "O_WRONLY = 2"
definition O_CREAT :: u32 where "O_CREAT = 4"
definition KVA_MIN :: u64 where "KVA_MIN = 0xffffffc000000000"
definition UINT32_MAX :: nat where "UINT32_MAX = 4294967295"
definition GFS_CACHE_BASE :: nat where "GFS_CACHE_BASE = 0xffffffc05f000000"
definition GFS_CACHE_END :: nat where "GFS_CACHE_END = 0xffffffc060000000"

section \<open>Structures\<close>

record GFS_superblock =
  GFS_magic :: "u8 list"
  GFS_size :: u32
  inode_num :: u32
  inode_bitmap_loc :: u32
  block_bitmap_loc :: u32
  inode_loc :: u32
  data_loc :: u32

record GFS_inode =
  nlink :: u8
  itype :: u8
  mode :: u16
  owner :: u32
  isize :: u32
  timestamp :: u32
  dptr :: "u32 list"
  idptr :: u32
  diptr :: u32

record GFS_dentry =
  fname :: cbuf
  ino :: u32

text \<open>A node of the list of open files; \<open>pinode\<close> points into the inode table, so it is an index.\<close>

record flist_node =
  fl_ino :: u32
  nwr :: "16 word"
  nproc :: "16 word"
  pinode :: nat
  fl_next :: addr

record file_desc =
  fnode :: addr
  oflags :: u32
  pos :: u32

record cache_block =
  cblock :: "u8 list"
  tag :: u32

record 'd gfs =
  dev :: 'd
  sd_read :: "'d \<Rightarrow> nat \<Rightarrow> nat \<Rightarrow> u8 list"
  sd_write :: "'d \<Rightarrow> nat \<Rightarrow> nat \<Rightarrow> u8 list \<Rightarrow> 'd"
  GFS_base_sec :: u32
  sblk :: GFS_superblock
  bitmap :: "nat \<Rightarrow> u64 list"
  gfsc_inodes :: "GFS_inode list"
  gfsc_blocks :: "cache_block list"
  gfsc_lru_aseq :: "u16 list"
  gfsc_lru_ptr :: addr
  gfsc_rdhit :: u64
  gfsc_rdmiss :: u64
  gfsc_wrhit :: u64
  gfsc_wrmiss :: u64
  flh :: addr
  fnodes :: "addr \<Rightarrow> flist_node"
  kh :: kheap
  npanic :: nat

text \<open>\<^verbatim>\<open>GFS_panic\<close> only reports: the count of its reports is the effect that matters here.\<close>

definition GFS_panic :: "'d gfs \<Rightarrow> 'd gfs" where
  "GFS_panic s = s\<lparr>npanic := npanic s + 1\<rparr>"

definition gfsc_blocks_num :: "'d gfs \<Rightarrow> nat" where
  "gfsc_blocks_num s = length (gfsc_blocks s)"

definition GFS_DATALOC_BLOCK :: "'d gfs \<Rightarrow> u32" where
  "GFS_DATALOC_BLOCK s = data_loc (sblk s) div SEC_PER_BLOCK"

section \<open>Layout in bytes\<close>

definition bytes_of_u16 :: "u16 \<Rightarrow> u8 list" where
  "bytes_of_u16 w = [ucast w, ucast (drop_bit 8 w)]"

definition u16_of_bytes :: "u8 \<Rightarrow> u8 \<Rightarrow> u16" where
  "u16_of_bytes a b = ucast a OR push_bit 8 (ucast b)"

definition bytes_of_u32 :: "u32 \<Rightarrow> u8 list" where
  "bytes_of_u32 w = [ucast w, ucast (drop_bit 8 w), ucast (drop_bit 16 w), ucast (drop_bit 24 w)]"

definition u32_of_bytes :: "u8 \<Rightarrow> u8 \<Rightarrow> u8 \<Rightarrow> u8 \<Rightarrow> u32" where
  "u32_of_bytes a b c d =
     ucast a OR push_bit 8 (ucast b) OR push_bit 16 (ucast c) OR push_bit 24 (ucast d)"

definition bytes_of_u64 :: "u64 \<Rightarrow> u8 list" where
  "bytes_of_u64 w = map (\<lambda>i. ucast (drop_bit (8 * i) w)) [0..<8]"

definition u64_of_bytes :: "u8 list \<Rightarrow> u64" where
  "u64_of_bytes bs = foldr (\<lambda>b w. ucast b OR push_bit 8 w) (take 8 bs) 0"

function chunks :: "nat \<Rightarrow> 'a list \<Rightarrow> 'a list list" where
  "chunks n xs = (if n = 0 \<or> xs = [] then [] else take n xs # chunks n (drop n xs))"
  by pat_completeness auto
termination by (relation "measure (\<lambda>(n, xs). length xs)") auto

declare chunks.simps [simp del]

definition u32_at :: "u8 list \<Rightarrow> nat \<Rightarrow> u32" where
  "u32_at bs i = u32_of_bytes (bs ! i) (bs ! (i + 1)) (bs ! (i + 2)) (bs ! (i + 3))"

definition ptrs_of_block :: "u8 list \<Rightarrow> u32 list" where
  "ptrs_of_block bs = map (\<lambda>c. u32_at c 0) (chunks 4 bs)"

definition block_of_ptrs :: "u32 list \<Rightarrow> u8 list" where
  "block_of_ptrs ws = concat (map bytes_of_u32 ws)"

definition words_of_sector :: "u8 list \<Rightarrow> u64 list" where
  "words_of_sector bs = map u64_of_bytes (chunks 8 bs)"

definition sector_of_words :: "u64 list \<Rightarrow> u8 list" where
  "sector_of_words ws = concat (map bytes_of_u64 ws)"

definition char_of_u8 :: "u8 \<Rightarrow> char" where
  "char_of_u8 w = char_of (unat w)"

definition u8_of_char :: "char \<Rightarrow> u8" where
  "u8_of_char c = of_nat (of_char c)"

definition dentry_of_bytes :: "u8 list \<Rightarrow> GFS_dentry" where
  "dentry_of_bytes bs = \<lparr>fname = map char_of_u8 (take 60 bs), ino = u32_at bs 60\<rparr>"

definition bytes_of_dentry :: "GFS_dentry \<Rightarrow> u8 list" where
  "bytes_of_dentry d = map u8_of_char (fname d) @ bytes_of_u32 (ino d)"

definition dentries_of_block :: "u8 list \<Rightarrow> GFS_dentry list" where
  "dentries_of_block bs = map dentry_of_bytes (chunks 64 bs)"

definition block_of_dentries :: "GFS_dentry list \<Rightarrow> u8 list" where
  "block_of_dentries ds = concat (map bytes_of_dentry ds)"

definition bytes_of_inode :: "GFS_inode \<Rightarrow> u8 list" where
  "bytes_of_inode i =
     [nlink i, itype i] @ bytes_of_u16 (mode i) @ bytes_of_u32 (owner i) @ bytes_of_u32 (isize i) @
     bytes_of_u32 (timestamp i) @ concat (map bytes_of_u32 (dptr i)) @
     bytes_of_u32 (idptr i) @ bytes_of_u32 (diptr i)"

definition inode_of_bytes :: "u8 list \<Rightarrow> GFS_inode" where
  "inode_of_bytes bs =
     \<lparr>nlink = bs ! 0, itype = bs ! 1, mode = u16_of_bytes (bs ! 2) (bs ! 3), owner = u32_at bs 4,
      isize = u32_at bs 8, timestamp = u32_at bs 12,
      dptr = map (\<lambda>k. u32_at bs (16 + 4 * k)) [0..<10], idptr = u32_at bs 56, diptr = u32_at bs 60\<rparr>"

definition bytes_of_superblock :: "GFS_superblock \<Rightarrow> u8 list" where
  "bytes_of_superblock p =
     GFS_magic p @ bytes_of_u32 (GFS_size p) @ bytes_of_u32 (inode_num p) @
     bytes_of_u32 (inode_bitmap_loc p) @ bytes_of_u32 (block_bitmap_loc p) @
     bytes_of_u32 (inode_loc p) @ bytes_of_u32 (data_loc p)"

definition superblock_of_bytes :: "u8 list \<Rightarrow> GFS_superblock" where
  "superblock_of_bytes bs =
     \<lparr>GFS_magic = take 24 bs, GFS_size = u32_at bs 24, inode_num = u32_at bs 28,
      inode_bitmap_loc = u32_at bs 32, block_bitmap_loc = u32_at bs 36, inode_loc = u32_at bs 40,
      data_loc = u32_at bs 44\<rparr>"

section \<open>Round trips\<close>

lemma u8_bit_beyond [simp]: "8 \<le> n \<Longrightarrow> \<not> bit (w :: u8) n"
  using bit_imp_le_length [of w n] by auto

lemma u16_roundtrip [simp]: "u16_of_bytes (ucast w) (ucast (drop_bit 8 w)) = w"
  unfolding u16_of_bytes_def
  by (rule bit_word_eqI) (auto simp: bit_simps not_less)

lemma u32_roundtrip [simp]:
  "u32_of_bytes (ucast w) (ucast (drop_bit 8 w)) (ucast (drop_bit 16 w)) (ucast (drop_bit 24 w)) = w"
  (is "?v = w")
proof (rule bit_word_eqI)
  fix n assume "n < LENGTH(32)"
  then consider "n < 8" | "8 \<le> n" "n < 16" | "16 \<le> n" "n < 24" | "24 \<le> n" "n < 32" by fastforce
  then show "bit ?v n = bit w n"
    unfolding u32_of_bytes_def by cases (auto simp: bit_simps)
qed

lemma u32_bytes_low:
  "(ucast (u32_of_bytes a b c d) :: u8) = a"
  "(ucast (drop_bit 8 (u32_of_bytes a b c d)) :: u8) = b"
  "(ucast (drop_bit 16 (u32_of_bytes a b c d)) :: u8) = c"
  "(ucast (drop_bit 24 (u32_of_bytes a b c d)) :: u8) = d"
  unfolding u32_of_bytes_def by (rule bit_word_eqI, auto simp: bit_simps)+

lemma bytes_of_u32_of_bytes [simp]: "bytes_of_u32 (u32_of_bytes a b c d) = [a, b, c, d]"
  by (simp add: bytes_of_u32_def u32_bytes_low)

lemma byte_split: "ucast (ucast w :: u8) OR push_bit 8 (drop_bit 8 w) = (w :: u64)" (is "?v = w")
proof (rule bit_word_eqI)
  fix n assume "n < LENGTH(64)"
  then show "bit ?v n = bit w n"
    by (cases "n < 8") (auto simp: bit_simps)
qed

lemma byte_split_drop:
  "ucast (ucast (drop_bit k w) :: u8) OR push_bit 8 (drop_bit (8 + k) w) = drop_bit k (w :: u64)"
  using byte_split [of "drop_bit k w"] by (simp add: drop_bit_drop_bit add.commute)

lemma drop_bit_64 [simp]: "drop_bit 64 (w :: u64) = 0"
  by (rule bit_word_eqI) (auto simp: bit_simps dest: bit_imp_le_length)

lemma u64_roundtrip [simp]: "u64_of_bytes (bytes_of_u64 w) = w"
proof -
  have u: "[0..<8] = [0, 1, 2, 3, 4, 5, 6, 7::nat]" by (simp add: upt_conv_Cons)
  note b = byte_split_drop [of 56 w] byte_split_drop [of 48 w] byte_split_drop [of 40 w]
    byte_split_drop [of 32 w] byte_split_drop [of 24 w] byte_split_drop [of 16 w]
    byte_split_drop [of 8 w] byte_split [of w]
  show ?thesis
    using b unfolding u64_of_bytes_def bytes_of_u64_def u by simp
qed

lemma length_bytes_of [simp]:
  "length (bytes_of_u16 w) = 2" "length (bytes_of_u32 v) = 4" "length (bytes_of_u64 u) = 8"
  by (simp_all add: bytes_of_u16_def bytes_of_u32_def bytes_of_u64_def)

lemma char_u8_roundtrip [simp]: "char_of_u8 (u8_of_char c) = c"
  by (simp add: char_of_u8_def u8_of_char_def unat_of_nat)

lemma u8_char_roundtrip [simp]: "u8_of_char (char_of_u8 w) = w"
proof -
  have "unat w < 256" using unsigned_less [of w] by simp
  then show ?thesis by (simp add: char_of_u8_def u8_of_char_def)
qed

lemma u32_at_bytes [simp]: "u32_at (bytes_of_u32 w @ bs) 0 = w" "u32_at (bytes_of_u32 w) 0 = w"
  by (simp_all add: u32_at_def bytes_of_u32_def)

lemma u32_at_append [simp]: "length as \<le> i \<Longrightarrow> u32_at (as @ bs) i = u32_at bs (i - length as)"
  by (simp add: u32_at_def nth_append Suc_diff_le)

lemma u32_at_Cons [simp]: "0 < i \<Longrightarrow> u32_at (b # bs) i = u32_at bs (i - 1)"
  by (simp add: u32_at_def)

lemma bytes_of_u32_at: "length bs = 4 \<Longrightarrow> bytes_of_u32 (u32_at bs 0) = bs"
  by (auto simp: u32_at_def numeral_eq_Suc length_Suc_conv)

subsection \<open>Arrays\<close>

lemma chunks_Nil [simp]: "chunks n [] = []"
  by (simp add: chunks.simps)

lemma chunks_append [simp]: "length a = n \<Longrightarrow> 0 < n \<Longrightarrow> chunks n (a @ xs) = a # chunks n xs"
  by (subst chunks.simps) auto

lemma chunks_concat: "\<forall>a \<in> set xss. length a = n \<Longrightarrow> 0 < n \<Longrightarrow> chunks n (concat xss) = xss"
  by (induction xss) auto

lemma concat_chunks [simp]: "0 < n \<Longrightarrow> concat (chunks n xs) = xs"
proof (induction n xs rule: chunks.induct)
  case (1 n xs)
  then show ?case by (subst chunks.simps) simp
qed

lemma chunks_length: "0 < n \<Longrightarrow> n dvd length xs \<Longrightarrow> a \<in> set (chunks n xs) \<Longrightarrow> length a = n"
proof (induction n xs rule: chunks.induct)
  case (1 n xs)
  show ?case
  proof (cases "xs = []")
    case False
    then have le: "n \<le> length xs" using 1(3) by (simp add: dvd_imp_le)
    have "n dvd length (drop n xs)" using 1(3) le by (simp add: dvd_diff_nat)
    moreover have "a = take n xs \<or> a \<in> set (chunks n (drop n xs))"
      using 1(4) False 1(2) by (subst (asm) chunks.simps) simp
    ultimately show ?thesis using 1(1) 1(2) False le by auto
  qed (use 1 in simp)
qed

lemma length_chunks [simp]: "0 < n \<Longrightarrow> length (chunks n xs) = (length xs + n - 1) div n"
proof (induction n xs rule: chunks.induct)
  case (1 n xs)
  show ?case
  proof (cases "xs = []")
    case False
    have "length (chunks n (drop n xs)) = (length (drop n xs) + n - 1) div n"
      using 1 False by simp
    moreover have "Suc ((length xs - n + n - 1) div n) = (length xs + n - 1) div n"
    proof (cases "length xs < n")
      case True
      then have "(length xs + n - 1) div n = (length xs - 1 + n) div n" using False by (cases xs) simp_all
      then show ?thesis using True 1(2) False by (cases xs) (simp_all add: div_add_self2[of n])
    next
      case False
      then have "length xs + n - 1 = length xs - 1 + n" using 1(2) by simp
      then show ?thesis using False 1(2) by (simp only: div_add_self2) simp
    qed
    ultimately show ?thesis using False 1(2) by (subst chunks.simps) simp
  qed (use 1 in simp)
qed

lemma ptrs_of_block_of_ptrs [simp]: "ptrs_of_block (block_of_ptrs ws) = ws"
  by (simp add: ptrs_of_block_def block_of_ptrs_def chunks_concat comp_def)

lemma block_of_ptrs_of_block [simp]: "4 dvd length bs \<Longrightarrow> block_of_ptrs (ptrs_of_block bs) = bs"
proof -
  assume d: "4 dvd length bs"
  have "map bytes_of_u32 (map (\<lambda>c. u32_at c 0) (chunks 4 bs)) = chunks 4 bs"
    using chunks_length[OF _ d] by (simp add: map_idI bytes_of_u32_at)
  then show ?thesis unfolding ptrs_of_block_def block_of_ptrs_def by simp
qed

lemma words_of_sector_of_words [simp]: "words_of_sector (sector_of_words ws) = ws"
  by (simp add: words_of_sector_def sector_of_words_def chunks_concat comp_def)

lemma dentry_of_bytes_of_dentry [simp]: "length (fname d) = 60 \<Longrightarrow> dentry_of_bytes (bytes_of_dentry d) = d"
  by (simp add: dentry_of_bytes_def bytes_of_dentry_def comp_def)

lemma bytes_of_dentry_of_bytes [simp]: "length bs = 64 \<Longrightarrow> bytes_of_dentry (dentry_of_bytes bs) = bs"
proof -
  assume l: "length bs = 64"
  have "u32_at bs 60 = u32_at (drop 60 bs) 0" using l by (simp add: u32_at_def)
  then have "bytes_of_u32 (u32_at bs 60) = drop 60 bs" using l by (simp add: bytes_of_u32_at)
  then show ?thesis using l by (simp add: dentry_of_bytes_def bytes_of_dentry_def comp_def)
qed

lemma length_fname_of_bytes: "length bs = 64 \<Longrightarrow> length (fname (dentry_of_bytes bs)) = 60"
  by (simp add: dentry_of_bytes_def)

lemma length_bytes_of_dentry: "length (fname d) = 60 \<Longrightarrow> length (bytes_of_dentry d) = 64"
  by (simp add: bytes_of_dentry_def)

lemma dentries_of_block_of_dentries [simp]:
  "\<forall>d \<in> set ds. length (fname d) = 60 \<Longrightarrow> dentries_of_block (block_of_dentries ds) = ds"
  by (simp add: dentries_of_block_def block_of_dentries_def chunks_concat length_bytes_of_dentry map_idI)

lemma block_of_dentries_of_block [simp]: "64 dvd length bs \<Longrightarrow> block_of_dentries (dentries_of_block bs) = bs"
proof -
  assume d: "64 dvd length bs"
  have "map bytes_of_dentry (map dentry_of_bytes (chunks 64 bs)) = chunks 64 bs"
    using chunks_length[OF _ d] by (simp add: map_idI)
  then show ?thesis unfolding dentries_of_block_def block_of_dentries_def by simp
qed

lemma length_concat_uniform: "\<forall>x \<in> set xs. length (f x) = n \<Longrightarrow> length (concat (map f xs)) = length xs * n"
  by (induction xs) auto

lemma length_block_of_ptrs [simp]: "length (block_of_ptrs ws) = length ws * 4"
  by (simp add: block_of_ptrs_def length_concat_uniform)

lemma length_block_of_dentries [simp]:
  "\<forall>d \<in> set ds. length (fname d) = 60 \<Longrightarrow> length (block_of_dentries ds) = length ds * 64"
  by (simp add: block_of_dentries_def length_concat_uniform length_bytes_of_dentry)

lemma length_dentries_of_block [simp]: "length bs = 4096 \<Longrightarrow> length (dentries_of_block bs) = 64"
  by (simp add: dentries_of_block_def)

lemma length_ptrs_of_block [simp]: "length bs = 4096 \<Longrightarrow> length (ptrs_of_block bs) = 1024"
  by (simp add: ptrs_of_block_def)

lemma fname_in_block:
  assumes "length bs = 4096" and "d \<in> set (dentries_of_block bs)"
  shows "length (fname d) = 60"
proof -
  obtain c where "c \<in> set (chunks 64 bs)" and d: "d = dentry_of_bytes c"
    using assms(2) by (auto simp: dentries_of_block_def)
  then have "length c = 64" using chunks_length[of 64 bs c] assms(1) by simp
  then show ?thesis using d by (simp add: length_fname_of_bytes)
qed

lemma length_bytes_of_inode: "length (dptr i) = 10 \<Longrightarrow> length (bytes_of_inode i) = 64"
  by (simp add: bytes_of_inode_def length_concat_uniform[of _ bytes_of_u32 4])

lemma u32_at_nth: "u32_at (concat (map bytes_of_u32 ws) @ bs) (4 * k) = ws ! k" if "k < length ws"
  using that
proof (induction ws arbitrary: k)
  case (Cons w ws)
  then show ?case by (cases k) simp_all
qed simp

lemma inode_of_bytes_of_inode [simp]:
  assumes "length (dptr i) = 10" shows "inode_of_bytes (bytes_of_inode i) = i"
proof -
  let ?d = "concat (map bytes_of_u32 (dptr i))" and ?t = "bytes_of_u32 (idptr i) @ bytes_of_u32 (diptr i)"
  have len: "length ?d = 40" using assms by (simp add: length_concat_uniform[of _ bytes_of_u32 4])
  have "map (\<lambda>k. u32_at (?d @ ?t) (4 * k)) [0..<10] = dptr i"
    using assms u32_at_nth[of _ "dptr i" ?t] by (intro nth_equalityI) simp_all
  then show ?thesis
    by (simp add: inode_of_bytes_def bytes_of_inode_def len bytes_of_u16_def)
qed

section \<open>The SD card\<close>

text \<open>
  What the BIOS promises: a read delivers as many sectors as asked for, a read of several sectors is
  the sequence of the sectors, and a write changes exactly the sectors it names.
\<close>

definition sd_laws :: "'d gfs \<Rightarrow> bool" where
  "sd_laws s \<longleftrightarrow>
     (\<forall>d n k. length (sd_read s d n k) = n * 512) \<and>
     (\<forall>d m n k. sd_read s d (m + n) k = sd_read s d m k @ sd_read s d n (k + m)) \<and>
     (\<forall>d n k bs j. length bs = n * 512 \<longrightarrow>
        sd_read s (sd_write s d n k bs) 1 j =
          (if k \<le> j \<and> j < k + n then take 512 (drop ((j - k) * 512) bs) else sd_read s d 1 j))"

lemma sd_read_length: "sd_laws s \<Longrightarrow> length (sd_read s d n k) = n * 512"
  by (simp add: sd_laws_def)

lemma sd_read_append: "sd_laws s \<Longrightarrow> sd_read s d (m + n) k = sd_read s d m k @ sd_read s d n (k + m)"
  by (simp add: sd_laws_def)

lemma sd_read_0: "sd_laws s \<Longrightarrow> sd_read s d 0 k = []"
  using sd_read_length[of s d 0 k] by simp

lemma sd_read_Suc: "sd_laws s \<Longrightarrow> sd_read s d (Suc n) k = sd_read s d 1 k @ sd_read s d n (Suc k)"
  using sd_read_append[of s d 1 n k] by simp

lemma sd_read_one_write:
  "sd_laws s \<Longrightarrow> length bs = n * 512 \<Longrightarrow>
   sd_read s (sd_write s d n k bs) 1 j =
     (if k \<le> j \<and> j < k + n then take 512 (drop ((j - k) * 512) bs) else sd_read s d 1 j)"
  by (simp add: sd_laws_def)

lemma sd_read_frame:
  assumes "sd_laws s" and "length bs = n * 512" and "j + m \<le> k \<or> k + n \<le> j"
  shows "sd_read s (sd_write s d n k bs) m j = sd_read s d m j"
  using assms(3)
proof (induction m arbitrary: j)
  case 0
  then show ?case by (simp add: sd_read_0[OF assms(1)])
next
  case (Suc m)
  then have "sd_read s (sd_write s d n k bs) m (Suc j) = sd_read s d m (Suc j)" by auto
  then show ?case
    unfolding sd_read_Suc[OF assms(1), of _ m] sd_read_one_write[OF assms(1,2)] using Suc(2) by auto
qed

lemma sd_read_inside:
  assumes "sd_laws s" and "length bs = n * 512" and "i + m \<le> n"
  shows "sd_read s (sd_write s d n k bs) m (k + i) = take (m * 512) (drop (i * 512) bs)"
  using assms(3)
proof (induction m arbitrary: i)
  case 0
  then show ?case by (simp add: sd_read_0[OF assms(1)])
next
  case (Suc m)
  have "sd_read s (sd_write s d n k bs) m (k + Suc i) = take (m * 512) (drop (Suc i * 512) bs)"
    using Suc(1)[of "Suc i"] Suc(2) by simp
  then show ?case
    unfolding sd_read_Suc[OF assms(1), of _ m] sd_read_one_write[OF assms(1,2)]
    using Suc(2) by (simp add: take_add)
qed

lemma sd_read_written:
  "sd_laws s \<Longrightarrow> length bs = n * 512 \<Longrightarrow> sd_read s (sd_write s d n k bs) n k = bs"
  using sd_read_inside[of s bs n 0 n d k] by simp

section \<open>Round trips\<close>

text \<open>
  The on-disk formats lose nothing. An inode, a directory entry, an indirect block and a bitmap
  sector that are written to the card and read back are the same, and the encodings fill exactly the
  64 bytes of an inode and of an entry and the 4096 bytes of a block.
\<close>

theorem disk_formats_roundtrip:
  assumes "length (dptr x) = 10" and "length ds = 64" and "\<forall>d \<in> set ds. length (fname d) = 60"
    and "length ps = 1024"
  shows "inode_of_bytes (bytes_of_inode x) = x \<and> length (bytes_of_inode x) = 64 \<and>
    dentries_of_block (block_of_dentries ds) = ds \<and> length (block_of_dentries ds) = 4096 \<and>
    ptrs_of_block (block_of_ptrs ps) = ps \<and> length (block_of_ptrs ps) = 4096 \<and>
    words_of_sector (sector_of_words ws) = ws"
  using assms by (simp add: length_bytes_of_inode)

theorem disk_formats_roundtrip_witness:
  "let x = \<lparr>nlink = 1, itype = IT_DIR, mode = 7, owner = 8, isize = 9, timestamp = 10, dptr = replicate 10 457,
             idptr = 11, diptr = 12\<rparr>
   in inode_of_bytes (bytes_of_inode x) = x \<and>
     dentries_of_block (block_of_dentries (replicate 64 \<lparr>fname = replicate 60 CHR ''a'', ino = 3\<rparr>)) =
       replicate 64 \<lparr>fname = replicate 60 CHR ''a'', ino = 3\<rparr>"
  using disk_formats_roundtrip[of "\<lparr>nlink = 1, itype = IT_DIR, mode = 7, owner = 8, isize = 9, timestamp = 10,
    dptr = replicate 10 457, idptr = 11, diptr = 12\<rparr>"
    "replicate 64 \<lparr>fname = replicate 60 CHR ''a'', ino = 3\<rparr>" "replicate 1024 0" "[]"]
  by (simp add: Let_def)

end
