(* ===== verification/GfsDemo.thy ===== *)
theory GfsDemo
  imports GfsTypes
begin

text \<open>
  A small file system on a card in memory, on which the properties of the file system are applied: the
  root directory with the entries \<^verbatim>\<open>.\<close>, \<^verbatim>\<open>..\<close> and \<^verbatim>\<open>a\<close>, and the file \<^verbatim>\<open>a\<close> of one block. The card is a
  function from sector numbers to sectors; it satisfies the laws assumed of the BIOS.
\<close>

section \<open>A card in memory\<close>

definition pad_sector :: "u8 list \<Rightarrow> u8 list" where
  "pad_sector bs = take 512 (bs @ replicate 512 0)"

definition ram_read :: "(nat \<Rightarrow> u8 list) \<Rightarrow> nat \<Rightarrow> nat \<Rightarrow> u8 list" where
  "ram_read d n k = concat (map (\<lambda>i. pad_sector (d i)) [k..<k + n])"

definition ram_write :: "(nat \<Rightarrow> u8 list) \<Rightarrow> nat \<Rightarrow> nat \<Rightarrow> u8 list \<Rightarrow> nat \<Rightarrow> u8 list" where
  "ram_write d n k bs = (\<lambda>i. if k \<le> i \<and> i < k + n then take 512 (drop ((i - k) * 512) bs) else d i)"

lemma length_pad_sector [simp]: "length (pad_sector bs) = 512"
  by (simp add: pad_sector_def)

lemma pad_sector_full [simp]: "length bs = 512 \<Longrightarrow> pad_sector bs = bs"
  by (simp add: pad_sector_def)

lemma length_ram_read: "length (ram_read d n k) = n * 512"
  by (simp add: ram_read_def length_concat_uniform[of _ _ 512] del: upt_Suc)

lemma ram_read_append: "ram_read d (m + n) k = ram_read d m k @ ram_read d n (k + m)"
proof -
  have "[k..<k + (m + n)] = [k..<k + m] @ [k + m..<k + m + n]"
    by (metis add.assoc le_add1 upt_add_eq_append)
  then show ?thesis by (simp add: ram_read_def)
qed

lemma ram_read_1: "ram_read d 1 k = pad_sector (d k)"
  by (simp add: ram_read_def)

lemma ram_write_sector:
  assumes "length bs = n * 512"
  shows "ram_read (ram_write d n k bs) 1 j =
    (if k \<le> j \<and> j < k + n then take 512 (drop ((j - k) * 512) bs) else ram_read d 1 j)"
proof (cases "k \<le> j \<and> j < k + n")
  case True
  then have "(j - k + 1) * 512 \<le> n * 512" by (intro mult_le_mono1) linarith
  then have "length (take 512 (drop ((j - k) * 512) bs)) = 512" using assms by simp
  then show ?thesis using True unfolding ram_read_1 by (simp add: ram_write_def)
next
  case False
  then show ?thesis unfolding ram_read_1 by (auto simp: ram_write_def)
qed

section \<open>The sample\<close>

definition demo_root :: GFS_inode where
  "demo_root = \<lparr>nlink = 1, itype = IT_DIR, mode = 0, owner = 0, isize = 3, timestamp = 0,
     dptr = 457 # replicate 9 0, idptr = 0, diptr = 0\<rparr>"

definition demo_file :: GFS_inode where
  "demo_file = \<lparr>nlink = 1, itype = IT_FILE, mode = 0, owner = 0, isize = 5, timestamp = 0,
     dptr = 458 # replicate 9 0, idptr = 0, diptr = 0\<rparr>"

definition zero_inode :: GFS_inode where
  "zero_inode = \<lparr>nlink = 0, itype = 0, mode = 0, owner = 0, isize = 0, timestamp = 0,
     dptr = replicate 10 0, idptr = 0, diptr = 0\<rparr>"

definition demo_entry :: "string \<Rightarrow> u32 \<Rightarrow> GFS_dentry" where
  "demo_entry nm i = \<lparr>fname = nm @ replicate (60 - length nm) NUL, ino = i\<rparr>"

definition demo_entries :: "GFS_dentry list" where
  "demo_entries = [demo_entry ''.'' 0, demo_entry ''..'' 0, demo_entry ''a'' 1] @
     replicate 61 (demo_entry [] DENTRY_INVALID_INO)"

definition demo_data :: "u8 list" where
  "demo_data = [104, 101, 108, 108, 111] @ replicate 4091 0"

definition demo_bitmap :: "nat \<Rightarrow> u64 list" where
  "demo_bitmap j = (if j = 1 \<or> j = 8 then 0xC000000000000000 # replicate 63 0 else replicate 64 0)"

definition demo_inodes :: "GFS_inode list" where
  "demo_inodes = demo_root # demo_file # replicate 28670 zero_inode"

text \<open>The sectors, counted from the start of the file system.\<close>

definition demo_sector :: "nat \<Rightarrow> u8 list" where
  "demo_sector j =
     (if 1 \<le> j \<and> j < 72 then sector_of_words (demo_bitmap j)
      else if j = 72 then concat (map bytes_of_inode (take 8 demo_inodes))
      else if 3656 \<le> j \<and> j < 3664 then take 512 (drop ((j - 3656) * 512) (block_of_dentries demo_entries))
      else if 3664 \<le> j \<and> j < 3672 then take 512 (drop ((j - 3664) * 512) demo_data)
      else replicate 512 0)"

definition demo_fs :: "(nat \<Rightarrow> u8 list) gfs" where
  "demo_fs = \<lparr>dev = \<lambda>k. demo_sector (k - 8), sd_read = ram_read, sd_write = ram_write, GFS_base_sec = 8,
     sblk = \<lparr>GFS_magic = replicate 24 0, GFS_size = 0x40000000, inode_num = 28672, inode_bitmap_loc = 1,
       block_bitmap_loc = 8, inode_loc = 72, data_loc = 3656\<rparr>,
     bitmap = demo_bitmap, gfsc_inodes = demo_inodes,
     gfsc_blocks = replicate 2 \<lparr>cblock = replicate 4096 0, tag = 0\<rparr>, gfsc_lru_aseq = [0, 1], gfsc_lru_ptr = 0,
     gfsc_rdhit = 0, gfsc_rdmiss = 0, gfsc_wrhit = 0, gfsc_wrmiss = 0, flh = 0x1000,
     fnodes = \<lambda>_. \<lparr>fl_ino = 0, nwr = 0, nproc = 0, pinode = 0, fl_next = 0\<rparr>, kh = demo_heap, npanic = 0\<rparr>"

lemma demo_fs_fields [simp]:
  "dev demo_fs = (\<lambda>k. demo_sector (k - 8))" "sd_read demo_fs = ram_read" "sd_write demo_fs = ram_write"
  "GFS_base_sec demo_fs = 8" "bitmap demo_fs = demo_bitmap" "gfsc_inodes demo_fs = demo_inodes"
  "inode_num (sblk demo_fs) = 28672" "inode_bitmap_loc (sblk demo_fs) = 1" "block_bitmap_loc (sblk demo_fs) = 8"
  "inode_loc (sblk demo_fs) = 72" "data_loc (sblk demo_fs) = 3656" "kh demo_fs = demo_heap" "npanic demo_fs = 0"
  "flh demo_fs = 0x1000" "gfsc_lru_aseq demo_fs = [0, 1]"
  "fnodes demo_fs = (\<lambda>_. \<lparr>fl_ino = 0, nwr = 0, nproc = 0, pinode = 0, fl_next = 0\<rparr>)"
  "gfsc_blocks demo_fs = replicate 2 \<lparr>cblock = replicate 4096 0, tag = 0\<rparr>"
  by (simp_all add: demo_fs_def)

lemma demo_sd_laws: "sd_laws demo_fs"
  unfolding sd_laws_def demo_fs_fields(2,3) using length_ram_read ram_read_append ram_write_sector by blast

lemma length_demo_inodes [simp]: "length demo_inodes = 28672"
  by (simp add: demo_inodes_def)

lemma length_demo_data [simp]: "length demo_data = 4096"
  by (simp add: demo_data_def)

lemma demo_entries_ok [simp]:
  "length demo_entries = 64" "\<And>d. d \<in> set demo_entries \<Longrightarrow> length (fname d) = 60"
  by (auto simp: demo_entries_def demo_entry_def)

lemma length_demo_bitmap [simp]: "length (demo_bitmap j) = 64"
  by (simp add: demo_bitmap_def)

lemma length_dptr_demo [simp]: "x \<in> set demo_inodes \<Longrightarrow> length (dptr x) = 10"
  by (auto simp: demo_inodes_def demo_root_def demo_file_def zero_inode_def)

lemma zero_inode_bytes: "inode_of_bytes (replicate 64 0) = zero_inode"
proof -
  have z: "u32_at (replicate 64 0) j = 0" if "j < 61" for j
    using that by (simp add: u32_at_def u32_of_bytes_def)
  have "map (\<lambda>k. u32_at (replicate 64 0) (16 + 4 * k)) [0..<10] = map (\<lambda>_. 0) [0..<10]"
    by (rule map_cong) (auto simp: z)
  then show ?thesis
    by (simp add: inode_of_bytes_def zero_inode_def z u16_of_bytes_def map_replicate_const del: upt_rec_numeral)
qed

lemma concat_slices: "concat (map (\<lambda>t. take m (drop (t * m) bs)) [0..<n]) = take (n * m) bs"
  by (induction n) (simp_all add: take_add[symmetric] add.commute)

lemma ram_read_map: "ram_read d n k = concat (map (\<lambda>t. pad_sector (d (k + t))) [0..<n])"
proof -
  have "[k..<k + n] = map (\<lambda>t. k + t) [0..<n]" using map_add_upt[of k n] by (simp add: add.commute)
  then show ?thesis by (simp add: ram_read_def comp_def)
qed

end
