(* ===== verification/GfsCache.thy ===== *)
theory GfsCache
  imports GfsDemo
begin

text \<open>
  Disk access (\<^verbatim>\<open>kernel/fs/gfs-io.c\<close>) and the write-through block cache with LRU replacement
  (\<^verbatim>\<open>kernel/fs/gfs-cache.c\<close>).

  A function that fills a buffer returns the bytes. \<open>gfsc_read_block\<close> keeps the address and the old
  contents of the destination as arguments, because the C code picks the copying routine by the
  alignment; \<open>gfsc_read_block_dest\<close> shows that the result does not depend on them, and
  \<open>GFS_read_block\<close> is the call with an aligned destination.

  The lemmas show that the cache is transparent: under \<open>cache_ok\<close> a read delivers what the card
  holds, a write changes exactly the block it names, and both keep \<open>cache_ok\<close>. The locale
  \<open>block_store\<close> is that contract, for the file system's higher layers.
\<close>

section \<open>Sectors\<close>

definition umin :: "u32 \<Rightarrow> u32 \<Rightarrow> u32" where
  "umin x y = (if x < y then x else y)"

partial_function (option) GFS_read_loop :: "'d gfs \<Rightarrow> u32 \<Rightarrow> u32 \<Rightarrow> u8 list option" where
  "GFS_read_loop s e sidx =
     (if sidx < e then do {
        rest \<leftarrow> GFS_read_loop s e (sidx + 64);
        Some (sd_read s (dev s) (unat (umin (e - sidx) 64)) (unat sidx) @ rest)
      } else Some [])"

definition GFS_read_sec :: "u32 \<Rightarrow> u32 \<Rightarrow> 'd gfs \<Rightarrow> u8 list option" where
  "GFS_read_sec sec_idx_in_GFS nsec s =
     (if GFS_base_sec s = 0 then None
      else GFS_read_loop s (GFS_base_sec s + sec_idx_in_GFS + nsec) (GFS_base_sec s + sec_idx_in_GFS))"

partial_function (option) GFS_write_loop :: "u32 \<Rightarrow> u32 \<Rightarrow> u8 list \<Rightarrow> 'd gfs \<Rightarrow> 'd gfs option" where
  "GFS_write_loop e sidx kva s =
     (if sidx < e then
        (let n = unat (umin (e - sidx) 64) in
         if length kva < n * SECTOR_SIZE then None
         else GFS_write_loop e (sidx + 64) (drop (64 * SECTOR_SIZE) kva)
                (s\<lparr>dev := sd_write s (dev s) n (unat sidx) (take (n * SECTOR_SIZE) kva)\<rparr>))
      else Some s)"

definition GFS_write_sec :: "u32 \<Rightarrow> u32 \<Rightarrow> u8 list \<Rightarrow> 'd gfs \<Rightarrow> 'd gfs option" where
  "GFS_write_sec sec_idx_in_GFS nsec kva s =
     GFS_write_loop (GFS_base_sec s + sec_idx_in_GFS + nsec) (GFS_base_sec s + sec_idx_in_GFS) kva s"

section \<open>The block cache\<close>

text \<open>The loop that looks for the first cache block with a given tag.\<close>

fun scan_tag :: "cache_block list \<Rightarrow> u32 \<Rightarrow> nat" where
  "scan_tag [] t = 0"
| "scan_tag (b # bs) t = (if tag b = t then 0 else Suc (scan_tag bs t))"

fun block_copy64_loop :: "nat \<Rightarrow> nat \<Rightarrow> u8 list \<Rightarrow> u8 list \<Rightarrow> u8 list option" where
  "block_copy64_loop 0 i dest src = Some dest"
| "block_copy64_loop (Suc n) i dest src = do {
     dest' \<leftarrow> memcpy_loop dest (8 * i) src (8 * i) 8;
     block_copy64_loop n (i + 1) dest' src
   }"

definition block_copy64 :: "u8 list \<Rightarrow> u8 list \<Rightarrow> u8 list option" where
  "block_copy64 dest src = block_copy64_loop (BLOCK_SIZE div 8) 0 dest src"

definition set_cache_block :: "nat \<Rightarrow> cache_block \<Rightarrow> 'd gfs \<Rightarrow> 'd gfs option" where
  "set_cache_block i b s = do {
     bs \<leftarrow> upd_chk (gfsc_blocks s) i b;
     Some (s\<lparr>gfsc_blocks := bs\<rparr>)
   }"

definition glru_scan_or_evict :: "u32 \<Rightarrow> 'd gfs \<Rightarrow> (nat \<times> 'd gfs) option" where
  "glru_scan_or_evict t s = do {
     let i = scan_tag (gfsc_blocks s) 0;
     i \<leftarrow> (if i \<ge> gfsc_blocks_num s
           then map_option unat (nth_chk (gfsc_lru_aseq s) (gfsc_blocks_num s - 1)) else Some i);
     b \<leftarrow> nth_chk (gfsc_blocks s) i;
     s' \<leftarrow> set_cache_block i (b\<lparr>tag := t\<rparr>) s;
     Some (i, s')
   }"

definition gfsc_scan_and_inv :: "u32 \<Rightarrow> 'd gfs \<Rightarrow> (int \<times> 'd gfs) option" where
  "gfsc_scan_and_inv t s = do {
     let i = scan_tag (gfsc_blocks s) t;
     if i < gfsc_blocks_num s then do {
       b \<leftarrow> nth_chk (gfsc_blocks s) i;
       s' \<leftarrow> set_cache_block i (b\<lparr>tag := 0\<rparr>) s;
       Some (0, s')
     } else Some (1, s)
   }"

text \<open>The two loops of \<^verbatim>\<open>glru_aseq_move\<close>: find the entry from the back, and shift up to it.\<close>

fun aseq_find :: "u16 list \<Rightarrow> u16 \<Rightarrow> nat \<Rightarrow> nat" where
  "aseq_find a c 0 = 0"
| "aseq_find a c (Suc i) = (if a ! Suc i = c then Suc i else aseq_find a c i)"

fun aseq_shift :: "u16 list \<Rightarrow> nat \<Rightarrow> u16 list" where
  "aseq_shift a 0 = a"
| "aseq_shift a (Suc i) = aseq_shift (a[Suc i := a ! i]) i"

definition glru_aseq_move :: "u16 \<Rightarrow> 'd gfs \<Rightarrow> 'd gfs option" where
  "glru_aseq_move cbidx s =
     (if gfsc_blocks_num s = 0 \<or> length (gfsc_lru_aseq s) < gfsc_blocks_num s then None
      else
        (let a = gfsc_lru_aseq s; i = aseq_find a cbidx (gfsc_blocks_num s - 1);
             s' = (if a ! i \<noteq> cbidx then GFS_panic s else s)
         in Some (s'\<lparr>gfsc_lru_aseq := (aseq_shift a i)[0 := cbidx]\<rparr>)))"

definition gfsc_search :: "u32 \<Rightarrow> 'd gfs \<Rightarrow> nat" where
  "gfsc_search t s =
     (let i = scan_tag (gfsc_blocks s) t in if i < gfsc_blocks_num s then i else UINT32_MAX)"

text \<open>The copy at the end of a read and in the middle of a write, by the alignment of the buffer.\<close>

definition cache_copy :: "addr \<Rightarrow> u8 list \<Rightarrow> u8 list \<Rightarrow> u8 list option" where
  "cache_copy kva dest src =
     (if kva mod 8 = 0 then block_copy64 dest src else memcpy dest 0 src 0 (of_nat BLOCK_SIZE))"

definition gfsc_read_block :: "u32 \<Rightarrow> addr \<Rightarrow> u8 list \<Rightarrow> 'd gfs \<Rightarrow> (u8 list \<times> int \<times> 'd gfs) option" where
  "gfsc_read_block bidx kva dest s = do {
     let he = gfsc_search bidx s;
     (he, flag_miss, s1) \<leftarrow>
       (if he \<ge> gfsc_blocks_num s then do {
          (he, s1) \<leftarrow> glru_scan_or_evict bidx s;
          bs \<leftarrow> GFS_read_sec (bidx * SEC_PER_BLOCK) SEC_PER_BLOCK s1;
          b \<leftarrow> nth_chk (gfsc_blocks s1) he;
          s2 \<leftarrow> set_cache_block he (b\<lparr>cblock := bs\<rparr>) s1;
          Some (he, 1, s2\<lparr>gfsc_rdmiss := gfsc_rdmiss s2 + 1\<rparr>)
        } else Some (he, 0, s\<lparr>gfsc_rdhit := gfsc_rdhit s + 1\<rparr>));
     s3 \<leftarrow> glru_aseq_move (of_nat he) s1;
     b \<leftarrow> nth_chk (gfsc_blocks s3) he;
     bs \<leftarrow> cache_copy kva dest (cblock b);
     Some (bs, flag_miss, s3)
   }"

definition gfsc_write_block :: "u32 \<Rightarrow> addr \<Rightarrow> u8 list \<Rightarrow> 'd gfs \<Rightarrow> (int \<times> 'd gfs) option" where
  "gfsc_write_block bidx kva src s = do {
     let he = gfsc_search bidx s;
     (he, flag_miss, s1) \<leftarrow>
       (if he \<ge> gfsc_blocks_num s then do {
          (he, s1) \<leftarrow> glru_scan_or_evict bidx s;
          Some (he, 1, s1\<lparr>gfsc_wrmiss := gfsc_wrmiss s1 + 1\<rparr>)
        } else Some (he, 0, s\<lparr>gfsc_wrhit := gfsc_wrhit s + 1\<rparr>));
     b \<leftarrow> nth_chk (gfsc_blocks s1) he;
     bs \<leftarrow> cache_copy kva (cblock b) src;
     s2 \<leftarrow> set_cache_block he (b\<lparr>cblock := bs\<rparr>) s1;
     s3 \<leftarrow> glru_aseq_move (of_nat he) s2;
     b \<leftarrow> nth_chk (gfsc_blocks s3) he;
     s4 \<leftarrow> GFS_write_sec (bidx * SEC_PER_BLOCK) SEC_PER_BLOCK (cblock b) s3;
     Some (flag_miss, s4)
   }"

definition GFS_read_block :: "u32 \<Rightarrow> 'd gfs \<Rightarrow> (u8 list \<times> int \<times> 'd gfs) option" where
  "GFS_read_block bidx_in_GFS s = gfsc_read_block bidx_in_GFS 0 (replicate BLOCK_SIZE 0) s"

definition GFS_write_block :: "u32 \<Rightarrow> u8 list \<Rightarrow> 'd gfs \<Rightarrow> (int \<times> 'd gfs) option" where
  "GFS_write_block bidx_in_GFS kva s = gfsc_write_block bidx_in_GFS 0 kva s"

text \<open>
  \<^verbatim>\<open>GFS_cache_init\<close>: the memory from the second sector of the cache area receives the sectors from the
  inode bitmap to the data blocks; \<open>junk\<close> is what lies in the cache blocks' memory beforehand.
\<close>

definition FREEMEM_KERNEL :: nat where "FREEMEM_KERNEL = 0xffffffc052000000"
definition NPF :: nat where "NPF = 50 * 1024"
definition NORMAL_PAGE_SIZE :: nat where "NORMAL_PAGE_SIZE = 4096"
definition sizeof_cache_block :: nat where "sizeof_cache_block = 4104"

definition mem_sector :: "u8 list \<Rightarrow> nat \<Rightarrow> u8 list" where
  "mem_sector bs j = take SECTOR_SIZE (drop ((j - 1) * SECTOR_SIZE) bs)"

definition GFS_cache_init :: "(nat \<Rightarrow> u8 list) \<Rightarrow> 'd gfs \<Rightarrow> 'd gfs option" where
  "GFS_cache_init junk s = do {
     let sb = sblk s;
     let blocks = GFS_CACHE_BASE + unat (data_loc sb * of_nat SECTOR_SIZE);
     if FREEMEM_KERNEL + NPF * NORMAL_PAGE_SIZE > GFS_CACHE_BASE then None
     else if blocks \<ge> GFS_CACHE_END then None
     else do {
       let num = (GFS_CACHE_END - blocks) div sizeof_cache_block;
       mem \<leftarrow> GFS_read_sec (inode_bitmap_loc sb) (data_loc sb - inode_bitmap_loc sb) s;
       let s1 = s\<lparr>bitmap := (\<lambda>j. if 1 \<le> j \<and> (j - 1) * SECTOR_SIZE < length mem
                                 then words_of_sector (mem_sector mem j) else bitmap s j),
                  gfsc_inodes := map inode_of_bytes
                    (take (unat (inode_num sb)) (chunks 64 (drop ((unat (inode_loc sb) - 1) * SECTOR_SIZE) mem)))\<rparr>;
       s2 \<leftarrow> (if gfsc_lru_ptr s1 = NULL then do {
               (p, h) \<leftarrow> kmalloc_g (of_nat (num * 2)) (kh s1);
               if p = NULL then None else Some (s1\<lparr>gfsc_lru_ptr := p, kh := h\<rparr>)
             } else Some s1);
       Some (s2\<lparr>gfsc_blocks := map (\<lambda>i. \<lparr>cblock = junk i, tag = 0\<rparr>) [0..<num],
                gfsc_lru_aseq := map of_nat [0..<num],
                gfsc_wrhit := 0, gfsc_wrmiss := 0, gfsc_rdhit := 0, gfsc_rdmiss := 0\<rparr>)
     }
   }"

section \<open>Sector access\<close>

text \<open>The \<open>n\<close> sectors of the file system from sector \<open>k\<close> on, as the card holds them.\<close>

definition disk_secs :: "'d gfs \<Rightarrow> nat \<Rightarrow> nat \<Rightarrow> u8 list" where
  "disk_secs s n k = sd_read s (dev s) n (unat (GFS_base_sec s) + k)"

text \<open>A range of sectors for which the sector arithmetic does not wrap.\<close>

definition secs_ok :: "'d gfs \<Rightarrow> nat \<Rightarrow> nat \<Rightarrow> bool" where
  "secs_ok s n k \<longleftrightarrow> GFS_base_sec s \<noteq> 0 \<and> unat (GFS_base_sec s) + k + n + 64 \<le> 2 ^ 32"

lemma unat_add_small: "unat (x :: u32) + unat y < 2 ^ 32 \<Longrightarrow> unat (x + y) = unat x + unat y"
  by (simp add: unat_word_ariths)

lemma unat_umin: "unat (umin x y) = min (unat x) (unat y)"
  by (auto simp: umin_def word_less_nat_alt)

lemma GFS_read_loop_spec:
  assumes "sd_laws s" and "unat e + 64 \<le> 2 ^ 32"
  shows "GFS_read_loop s e sidx = Some (sd_read s (dev s) (unat e - unat sidx) (unat sidx))"
proof (induction "unat e - unat sidx" arbitrary: sidx rule: less_induct)
  case less
  show ?case
  proof (cases "sidx < e")
    case False
    then show ?thesis
      using assms(1) by (subst GFS_read_loop.simps) (simp add: word_less_nat_alt sd_read_0)
  next
    case True
    then have lt: "unat sidx < unat e" by (simp add: word_less_nat_alt)
    have nx: "unat (sidx + 64) = unat sidx + 64"
      using lt assms(2) unat_add_small[of sidx 64] by simp
    have df: "unat (e - sidx) = unat e - unat sidx"
      using True by (simp add: unat_sub order_less_imp_le)
    let ?n = "min (unat e - unat sidx) 64"
    have "sd_read s (dev s) ?n (unat sidx) @ sd_read s (dev s) (unat e - (unat sidx + 64)) (unat sidx + 64)
        = sd_read s (dev s) (unat e - unat sidx) (unat sidx)"
    proof (cases "unat e - unat sidx \<le> 64")
      case True
      then show ?thesis using sd_read_0[OF assms(1)] by simp
    next
      case False
      then have n: "?n = 64" "unat e - unat sidx = 64 + (unat e - (unat sidx + 64))" by simp_all
      show ?thesis unfolding n by (simp add: sd_read_append[OF assms(1)])
    qed
    then show ?thesis
      using True less[of "sidx + 64"] lt nx df
      by (subst GFS_read_loop.simps) (simp add: unat_umin)
  qed
qed

lemma secs_arith:
  assumes "secs_ok s (unat nsec) (unat sec)"
  shows "unat (GFS_base_sec s + sec) = unat (GFS_base_sec s) + unat sec"
    and "unat (GFS_base_sec s + sec + nsec) = unat (GFS_base_sec s) + unat sec + unat nsec"
proof -
  show *: "unat (GFS_base_sec s + sec) = unat (GFS_base_sec s) + unat sec"
    using assms by (intro unat_add_small) (simp add: secs_ok_def)
  show "unat (GFS_base_sec s + sec + nsec) = unat (GFS_base_sec s) + unat sec + unat nsec"
    using assms * unat_add_small[of "GFS_base_sec s + sec" nsec] by (simp add: secs_ok_def)
qed

lemma GFS_read_sec_spec [kspec]:
  assumes "sd_laws s" and ok: "secs_ok s (unat nsec) (unat sec)"
  shows "GFS_read_sec sec nsec s = Some (disk_secs s (unat nsec) (unat sec))"
  using GFS_read_loop_spec[OF assms(1), of "GFS_base_sec s + sec + nsec" "GFS_base_sec s + sec"] ok
  by (simp add: GFS_read_sec_def secs_ok_def disk_secs_def secs_arith[OF ok])

lemma GFS_write_sec_spec [kspec]:
  assumes ok: "secs_ok s (unat nsec) (unat sec)" and n: "0 < unat nsec" "unat nsec \<le> 64"
    and len: "length kva = unat nsec * 512"
  shows "GFS_write_sec sec nsec kva s =
    Some (s\<lparr>dev := sd_write s (dev s) (unat nsec) (unat (GFS_base_sec s) + unat sec) kva\<rparr>)"
proof -
  let ?b = "GFS_base_sec s + sec" and ?e = "GFS_base_sec s + sec + nsec"
  note a = secs_arith[OF ok]
  have lt: "?b < ?e" using a n by (simp add: word_less_nat_alt)
  have df: "unat (?e - ?b) = unat nsec" by simp
  have "unat (?b + 64) = unat ?b + 64"
    using ok a(1) n(1) unat_add_small[of ?b 64] by (simp add: secs_ok_def)
  then have ge: "\<not> ?b + 64 < ?e" using a n by (simp add: word_less_nat_alt)
  have "min (unat nsec) 64 = unat nsec" using n by simp
  then show ?thesis
    unfolding GFS_write_sec_def using lt len df a(1)
    by (subst GFS_write_loop.simps) (simp add: GFS_write_loop.simps ge unat_umin SECTOR_SIZE_def Let_def)
qed

text \<open>Writing some sectors leaves the others alone, and the written ones can be read back.\<close>

lemma sd_laws_upd [simp]: "sd_laws (s\<lparr>dev := d\<rparr>) = sd_laws s"
  by (simp add: sd_laws_def)

lemma disk_secs_written [simp]:
  assumes "sd_laws s" and "length bs = n * 512"
  shows "disk_secs (s\<lparr>dev := sd_write s (dev s) n (unat (GFS_base_sec s) + k) bs\<rparr>) n k = bs"
  using sd_read_written[OF assms] by (simp add: disk_secs_def)

lemma disk_secs_other:
  assumes "sd_laws s" and "length bs = n * 512" and "j + m \<le> k \<or> k + n \<le> j"
  shows "disk_secs (s\<lparr>dev := sd_write s (dev s) n (unat (GFS_base_sec s) + k) bs\<rparr>) m j = disk_secs s m j"
  using sd_read_frame[OF assms(1,2)] assms(3) by (simp add: disk_secs_def)

section \<open>The cache invariant\<close>

definition disk_block :: "'d gfs \<Rightarrow> u32 \<Rightarrow> u8 list" where
  "disk_block s b = disk_secs s 8 (8 * unat b)"

text \<open>A data block: behind the bitmaps and the inodes, and its sectors have a 32-bit index.\<close>

definition blk_valid :: "'d gfs \<Rightarrow> u32 \<Rightarrow> bool" where
  "blk_valid s b \<longleftrightarrow> b \<noteq> 0 \<and> unat (data_loc (sblk s)) \<le> 8 * unat b \<and> secs_ok s 8 (8 * unat b)"

text \<open>Valid cache blocks have different tags and hold what the card holds.\<close>

definition blocks_ok :: "'d gfs \<Rightarrow> cache_block list \<Rightarrow> bool" where
  "blocks_ok s bl \<longleftrightarrow>
     (\<forall>i < length bl. \<forall>j < length bl. tag (bl ! i) = tag (bl ! j) \<and> tag (bl ! i) \<noteq> 0 \<longrightarrow> i = j) \<and>
     (\<forall>b \<in> set bl. length (cblock b) = 4096 \<and>
        (tag b \<noteq> 0 \<longrightarrow> blk_valid s (tag b) \<and> cblock b = disk_block s (tag b)))"

text \<open>The access sequence is a permutation of the cache indexes.\<close>

definition aseq_ok :: "nat \<Rightarrow> u16 list \<Rightarrow> bool" where
  "aseq_ok n a \<longleftrightarrow> 0 < n \<and> n \<le> 65536 \<and> length a = n \<and> distinct a \<and> (\<forall>x \<in> set a. unat x < n)"

definition cache_ok :: "'d gfs \<Rightarrow> bool" where
  "cache_ok s \<longleftrightarrow> aseq_ok (gfsc_blocks_num s) (gfsc_lru_aseq s) \<and> blocks_ok s (gfsc_blocks s)"

text \<open>The state apart from the cache (and, for a write, the card).\<close>

definition cache_frame :: "'d gfs \<Rightarrow> 'd gfs \<Rightarrow> bool" where
  "cache_frame s s' \<longleftrightarrow>
     s' = s\<lparr>dev := dev s', gfsc_blocks := gfsc_blocks s', gfsc_lru_aseq := gfsc_lru_aseq s',
            gfsc_rdhit := gfsc_rdhit s', gfsc_rdmiss := gfsc_rdmiss s', gfsc_wrhit := gfsc_wrhit s',
            gfsc_wrmiss := gfsc_wrmiss s'\<rparr>"

subsection \<open>The loops\<close>

lemma scan_tag_le: "scan_tag bl t \<le> length bl"
  by (induction bl) auto

lemma scan_tag_hit: "scan_tag bl t < length bl \<Longrightarrow> tag (bl ! scan_tag bl t) = t"
  by (induction bl) (auto split: if_splits)

lemma scan_tag_miss: "\<not> scan_tag bl t < length bl \<Longrightarrow> b \<in> set bl \<Longrightarrow> tag b \<noteq> t"
  by (induction bl) (auto split: if_splits)

lemma scan_tag_eq:
  "i < length bl \<Longrightarrow> tag (bl ! i) = t \<Longrightarrow> scan_tag bl t < length bl"
  using scan_tag_miss nth_mem by blast

lemma block_copy64_loop_spec:
  "length dest = length src \<Longrightarrow> 8 * (i + n) \<le> length src \<Longrightarrow>
   block_copy64_loop n i dest src =
     Some (take (8 * i) dest @ take (8 * n) (drop (8 * i) src) @ drop (8 * (i + n)) dest)"
proof (induction n arbitrary: i dest)
  case (Suc n)
  define d where "d = take (8 * i) dest @ take 8 (drop (8 * i) src) @ drop (8 * i + 8) dest"
  have c: "memcpy_loop dest (8 * i) src (8 * i) 8 = Some d"
    using Suc by (simp add: memcpy_loop_spec d_def)
  have l: "length d = length src" using Suc(2,3) by (simp add: d_def)
  have parts: "take (8 * Suc i) d = take (8 * i) dest @ take 8 (drop (8 * i) src)"
    "drop (8 * (Suc i + n)) d = drop (8 * (i + Suc n)) dest"
    using Suc(2,3) by (simp_all add: d_def add_ac)
  have tk: "take (8 * Suc n) (drop (8 * i) src) =
      take 8 (drop (8 * i) src) @ take (8 * n) (drop (8 * Suc i) src)"
    using take_add[of 8 "8 * n" "drop (8 * i) src"] by (simp add: add.commute)
  have "block_copy64_loop (Suc n) i dest src = block_copy64_loop n (Suc i) d src" by (simp add: c)
  also have "\<dots> = Some (take (8 * Suc i) d @ take (8 * n) (drop (8 * Suc i) src) @ drop (8 * (Suc i + n)) d)"
    using Suc(3) by (intro Suc(1) l) simp
  finally show ?case by (simp only: parts tk append_assoc)
qed simp

lemma block_copy64_spec [kspec]:
  "length dest = 4096 \<Longrightarrow> length src = 4096 \<Longrightarrow> block_copy64 dest src = Some src"
  using block_copy64_loop_spec[of dest src 0 512] by (simp add: block_copy64_def BLOCK_SIZE_def)

lemma cache_copy_spec [kspec]:
  "length dest = 4096 \<Longrightarrow> length src = 4096 \<Longrightarrow> cache_copy kva dest src = Some src"
  by (simp add: cache_copy_def block_copy64_spec memcpy_def memcpy_loop_spec BLOCK_SIZE_def)

lemma aseq_find_spec:
  "i < length a \<Longrightarrow> c \<in> set (take (Suc i) a) \<Longrightarrow> aseq_find a c i \<le> i \<and> a ! aseq_find a c i = c"
proof (induction i)
  case 0
  then show ?case by (cases a) auto
next
  case (Suc i)
  show ?case
  proof (cases "a ! Suc i = c")
    case False
    then have "c \<in> set (take (Suc i) a)" using Suc(2,3) by (auto simp: take_Suc_conv_app_nth)
    then show ?thesis using Suc(1,2) False by simp
  qed (use Suc in simp)
qed

lemma aseq_shift_spec:
  "i < length a \<Longrightarrow> (aseq_shift a i)[0 := c] = c # take i a @ drop (Suc i) a"
proof (induction i arbitrary: a)
  case 0
  then show ?case by (cases a) auto
next
  case (Suc i)
  have "drop (Suc i) (a[Suc i := a ! i]) = a ! i # drop (Suc (Suc i)) a"
    using Suc(2) by (simp add: drop_update_swap Cons_nth_drop_Suc[symmetric])
  then show ?case using Suc(1)[of "a[Suc i := a ! i]"] Suc(2) by (simp add: take_Suc_conv_app_nth)
qed

lemma remove1_nth: "distinct a \<Longrightarrow> i < length a \<Longrightarrow> remove1 (a ! i) a = take i a @ drop (Suc i) a"
proof (induction a arbitrary: i)
  case (Cons x a)
  then show ?case by (cases i) auto
qed simp

text \<open>Moving to the front: the order of the other entries stays.\<close>

lemma glru_aseq_move_spec [kspec]:
  assumes "aseq_ok (gfsc_blocks_num s) (gfsc_lru_aseq s)" and "c \<in> set (gfsc_lru_aseq s)"
  shows "glru_aseq_move c s = Some (s\<lparr>gfsc_lru_aseq := c # remove1 c (gfsc_lru_aseq s)\<rparr>)"
proof -
  let ?a = "gfsc_lru_aseq s" and ?n = "gfsc_blocks_num s"
  let ?i = "aseq_find ?a c (?n - 1)"
  have n: "0 < ?n" "length ?a = ?n" "distinct ?a" using assms(1) by (simp_all add: aseq_ok_def)
  then have f: "?i \<le> ?n - 1" "?a ! ?i = c"
    using aseq_find_spec[of "?n - 1" ?a c] assms(2) by simp_all
  then have "remove1 c ?a = take ?i ?a @ drop (Suc ?i) ?a" using remove1_nth[of ?a ?i] n by simp
  then show ?thesis
    using n f aseq_shift_spec[of ?i ?a c] by (simp add: glru_aseq_move_def Let_def)
qed

lemma aseq_ok_move:
  assumes "aseq_ok n a" and "c \<in> set a"
  shows "aseq_ok n (c # remove1 c a)" and "set (c # remove1 c a) = set a"
  using assms by (auto simp: aseq_ok_def length_remove1 set_remove1_eq)

lemma aseq_all:
  assumes "aseq_ok n a" and "i < n"
  shows "of_nat i \<in> set a" and "unat (of_nat i :: u16) = i"
proof -
  show u: "unat (of_nat i :: u16) = i" using assms by (simp add: unat_of_nat aseq_ok_def)
  have "unat ` set a \<subseteq> {..<n}" using assms by (auto simp: aseq_ok_def)
  moreover have "card (unat ` set a) = n"
    using assms distinct_card[of a] card_image[of "unat :: u16 \<Rightarrow> nat" "set a"]
    by (auto simp: aseq_ok_def intro: inj_onI unsigned_word_eqI)
  ultimately have "unat ` set a = {..<n}" by (simp add: card_subset_eq)
  then have "i \<in> unat ` set a" using assms(2) by simp
  then show "of_nat i \<in> set a" by auto
qed

lemma glru_scan_or_evict_spec:
  assumes "cache_ok s"
  obtains i where "i < gfsc_blocks_num s"
    "glru_scan_or_evict t s = Some (i, s\<lparr>gfsc_blocks := (gfsc_blocks s)[i := (gfsc_blocks s ! i)\<lparr>tag := t\<rparr>]\<rparr>)"
proof -
  let ?n = "gfsc_blocks_num s" and ?a = "gfsc_lru_aseq s"
  define i where "i = (if scan_tag (gfsc_blocks s) 0 \<ge> ?n then unat (?a ! (?n - 1)) else scan_tag (gfsc_blocks s) 0)"
  have a: "0 < ?n" "length ?a = ?n" "\<forall>x \<in> set ?a. unat x < ?n" using assms by (simp_all add: cache_ok_def aseq_ok_def)
  then have "i < ?n" by (simp add: i_def)
  moreover from this a have
    "glru_scan_or_evict t s = Some (i, s\<lparr>gfsc_blocks := (gfsc_blocks s)[i := (gfsc_blocks s ! i)\<lparr>tag := t\<rparr>]\<rparr>)"
    by (auto simp: glru_scan_or_evict_def set_cache_block_def gfsc_blocks_num_def i_def Let_def)
  ultimately show thesis by (rule that)
qed

subsection \<open>Reading and writing through the cache\<close>

lemma blk_arith:
  assumes "blk_valid s b"
  shows "unat (b * SEC_PER_BLOCK) = 8 * unat b" and "unat SEC_PER_BLOCK = 8"
    and "secs_ok s (unat SEC_PER_BLOCK) (unat (b * SEC_PER_BLOCK))"
proof -
  have "8 * unat b < 2 ^ 32" using assms by (simp add: blk_valid_def secs_ok_def)
  then show *: "unat (b * SEC_PER_BLOCK) = 8 * unat b"
    by (simp add: SEC_PER_BLOCK_def unat_word_ariths mult.commute)
  show "unat SEC_PER_BLOCK = 8" by (simp add: SEC_PER_BLOCK_def)
  then show "secs_ok s (unat SEC_PER_BLOCK) (unat (b * SEC_PER_BLOCK))"
    using assms * by (simp add: blk_valid_def)
qed

lemma disk_block_length: "sd_laws s \<Longrightarrow> length (disk_block s b) = 4096"
  by (simp add: disk_block_def disk_secs_def sd_read_length)

lemma blocks_ok_install:
  assumes ok: "blocks_ok s bl" and i: "i < length bl"
    and new: "\<forall>j < length bl. j \<noteq> i \<longrightarrow> tag (bl ! j) \<noteq> b"
    and b: "blk_valid s' b" "disk_block s' b = bs" "length bs = 4096"
    and fr: "\<forall>c. blk_valid s c \<longrightarrow> blk_valid s' c" "\<forall>c. blk_valid s c \<and> c \<noteq> b \<longrightarrow> disk_block s' c = disk_block s c"
  shows "blocks_ok s' (bl[i := \<lparr>cblock = bs, tag = b\<rparr>])" (is "blocks_ok s' ?bl")
proof -
  have "j = k" if "j < length ?bl" "k < length ?bl" "tag (?bl ! j) = tag (?bl ! k)" "tag (?bl ! j) \<noteq> 0" for j k
  proof (cases "j = i"; cases "k = i")
    assume "j \<noteq> i" "k \<noteq> i"
    then show ?thesis using that ok by (auto simp: blocks_ok_def)
  qed (use that new i in auto)
  moreover have "length (cblock x) = 4096 \<and> (tag x \<noteq> 0 \<longrightarrow> blk_valid s' (tag x) \<and> cblock x = disk_block s' (tag x))"
    if x: "x \<in> set ?bl" for x
  proof -
    obtain j where j: "j < length bl" "x = ?bl ! j"
      using x unfolding in_set_conv_nth length_list_update by blast
    show ?thesis
    proof (cases "j = i")
      case True
      then show ?thesis using j b by simp
    next
      case False
      then have x: "x = bl ! j" "tag x \<noteq> b" "x \<in> set bl" using j new by auto
      then show ?thesis using ok fr by (auto simp: blocks_ok_def)
    qed
  qed
  ultimately show ?thesis unfolding blocks_ok_def by blast
qed

lemma gfsc_search_cases:
  assumes "cache_ok s" and "b \<noteq> 0"
  obtains (hit) i where "gfsc_search b s = i" "i < gfsc_blocks_num s" "tag (gfsc_blocks s ! i) = b"
      "\<forall>j < gfsc_blocks_num s. j \<noteq> i \<longrightarrow> tag (gfsc_blocks s ! j) \<noteq> b"
  | (miss) "gfsc_search b s \<ge> gfsc_blocks_num s" "\<forall>j < gfsc_blocks_num s. tag (gfsc_blocks s ! j) \<noteq> b"
proof (cases "scan_tag (gfsc_blocks s) b < gfsc_blocks_num s")
  case True
  then have t: "tag (gfsc_blocks s ! scan_tag (gfsc_blocks s) b) = b"
    by (simp add: scan_tag_hit gfsc_blocks_num_def)
  then have "\<forall>j < gfsc_blocks_num s. j \<noteq> scan_tag (gfsc_blocks s) b \<longrightarrow> tag (gfsc_blocks s ! j) \<noteq> b"
    using assms True by (auto simp: cache_ok_def blocks_ok_def gfsc_blocks_num_def)
  then show thesis using True t hit by (simp add: gfsc_search_def)
next
  case False
  then have "gfsc_search b s \<ge> gfsc_blocks_num s"
    using assms by (simp add: gfsc_search_def UINT32_MAX_def cache_ok_def aseq_ok_def)
  moreover have "\<forall>j < gfsc_blocks_num s. tag (gfsc_blocks s ! j) \<noteq> b"
    using False scan_tag_miss[of "gfsc_blocks s" b] by (simp add: gfsc_blocks_num_def)
  ultimately show thesis by (rule miss)
qed

text \<open>What the lookup of a block does to the cache: the block is at \<open>i\<close>, the rest is as before.\<close>

lemma frame_simps [simp]:
  "disk_secs (s\<lparr>gfsc_blocks := bl\<rparr>) = disk_secs s" "disk_secs (s\<lparr>gfsc_lru_aseq := a\<rparr>) = disk_secs s"
  "disk_secs (s\<lparr>gfsc_rdhit := n\<rparr>) = disk_secs s" "disk_secs (s\<lparr>gfsc_rdmiss := n\<rparr>) = disk_secs s"
  "disk_secs (s\<lparr>gfsc_wrhit := n\<rparr>) = disk_secs s" "disk_secs (s\<lparr>gfsc_wrmiss := n\<rparr>) = disk_secs s"
  "secs_ok (s\<lparr>gfsc_blocks := bl\<rparr>) = secs_ok s" "secs_ok (s\<lparr>gfsc_lru_aseq := a\<rparr>) = secs_ok s"
  "secs_ok (s\<lparr>gfsc_rdhit := n\<rparr>) = secs_ok s" "secs_ok (s\<lparr>gfsc_rdmiss := n\<rparr>) = secs_ok s"
  "secs_ok (s\<lparr>gfsc_wrhit := n\<rparr>) = secs_ok s" "secs_ok (s\<lparr>gfsc_wrmiss := n\<rparr>) = secs_ok s"
  "secs_ok (s\<lparr>dev := d\<rparr>) = secs_ok s"
  "sd_laws (s\<lparr>gfsc_blocks := bl\<rparr>) = sd_laws s" "sd_laws (s\<lparr>gfsc_lru_aseq := a\<rparr>) = sd_laws s"
  "sd_laws (s\<lparr>gfsc_rdhit := n\<rparr>) = sd_laws s" "sd_laws (s\<lparr>gfsc_rdmiss := n\<rparr>) = sd_laws s"
  "sd_laws (s\<lparr>gfsc_wrhit := n\<rparr>) = sd_laws s" "sd_laws (s\<lparr>gfsc_wrmiss := n\<rparr>) = sd_laws s"
  "blk_valid (s\<lparr>gfsc_blocks := bl\<rparr>) = blk_valid s" "blk_valid (s\<lparr>gfsc_lru_aseq := a\<rparr>) = blk_valid s"
  "blk_valid (s\<lparr>gfsc_rdhit := n\<rparr>) = blk_valid s" "blk_valid (s\<lparr>gfsc_rdmiss := n\<rparr>) = blk_valid s"
  "blk_valid (s\<lparr>gfsc_wrhit := n\<rparr>) = blk_valid s" "blk_valid (s\<lparr>gfsc_wrmiss := n\<rparr>) = blk_valid s"
  "blk_valid (s\<lparr>dev := d\<rparr>) = blk_valid s"
  by (simp_all add: disk_secs_def secs_ok_def sd_laws_def blk_valid_def fun_eq_iff)

lemma blocks_ok_cong:
  "blocks_ok s bl \<Longrightarrow> disk_secs s' = disk_secs s \<Longrightarrow> blk_valid s' = blk_valid s \<Longrightarrow> blocks_ok s' bl"
  by (simp only: blocks_ok_def disk_block_def)

text \<open>The last steps of a read or a write on the state \<open>s1\<close> in which the block is at index \<open>i\<close>.\<close>

lemma cache_okI:
  assumes "cache_ok s" and "i < gfsc_blocks_num s" and "blocks_ok s' bl" and "length bl = gfsc_blocks_num s"
    and "gfsc_blocks s' = bl" and "gfsc_lru_aseq s' = of_nat i # remove1 (of_nat i) (gfsc_lru_aseq s)"
  shows "cache_ok s'"
proof -
  have a: "aseq_ok (gfsc_blocks_num s) (gfsc_lru_aseq s)" using assms(1) by (simp add: cache_ok_def)
  show ?thesis
    using assms(3-) aseq_ok_move(1)[OF a aseq_all(1)[OF a assms(2)]]
    by (simp add: cache_ok_def gfsc_blocks_num_def)
qed

lemma glru_aseq_move_at:
  assumes "cache_ok s" and "i < gfsc_blocks_num s" and "gfsc_blocks_num s1 = gfsc_blocks_num s"
    and "gfsc_lru_aseq s1 = gfsc_lru_aseq s"
  shows "glru_aseq_move (of_nat i) s1 = Some (s1\<lparr>gfsc_lru_aseq := of_nat i # remove1 (of_nat i) (gfsc_lru_aseq s)\<rparr>)"
  using assms aseq_all(1)[of "gfsc_blocks_num s" "gfsc_lru_aseq s" i]
  by (simp add: glru_aseq_move_spec cache_ok_def)

lemma cache_block_upd: "(x :: cache_block)\<lparr>tag := t, cblock := c\<rparr> = \<lparr>cblock = c, tag = t\<rparr>"
  by simp

lemma gfsc_read_block_spec:
  assumes ok: "cache_ok s" and sd: "sd_laws s" and b: "blk_valid s b" and dest: "length dest = 4096"
  shows "\<exists>s'. gfsc_read_block b kva dest s =
      Some (disk_block s b, (if \<exists>x \<in> set (gfsc_blocks s). tag x = b then 0 else 1), s') \<and>
    cache_ok s' \<and> cache_frame s s' \<and> dev s' = dev s"
proof -
  let ?bl = "gfsc_blocks s" and ?n = "gfsc_blocks_num s"
  have bok: "blocks_ok s ?bl" using ok by (simp add: cache_ok_def)
  have n: "?n = length ?bl" by (simp add: gfsc_blocks_num_def)
  have b0: "b \<noteq> 0" using b by (simp add: blk_valid_def)
  from ok b0 show ?thesis
  proof (cases rule: gfsc_search_cases)
    case (hit i)
    let ?a = "of_nat i # remove1 (of_nat i) (gfsc_lru_aseq s)"
    let ?s1 = "s\<lparr>gfsc_rdhit := gfsc_rdhit s + 1\<rparr>"
    let ?s' = "?s1\<lparr>gfsc_lru_aseq := ?a\<rparr>"
    have mem: "?bl ! i \<in> set ?bl" using hit n by simp
    then have c: "cblock (?bl ! i) = disk_block s b" "length (cblock (?bl ! i)) = 4096"
      using bok hit b0 by (auto simp: blocks_ok_def)
    have mv: "glru_aseq_move (of_nat i) ?s1 = Some ?s'"
      using glru_aseq_move_at[OF ok hit(2), of ?s1] by (simp add: gfsc_blocks_num_def)
    have "gfsc_read_block b kva dest s = Some (disk_block s b, 0, ?s')"
      using hit n c mv dest by (simp add: gfsc_read_block_def cache_copy_spec)
    moreover have "cache_ok ?s'"
      by (rule cache_okI[OF ok hit(2)]) (auto simp: n intro: blocks_ok_cong[OF bok])
    ultimately show ?thesis using mem hit(3) by (auto simp: cache_frame_def)
  next
    case miss
    obtain i where i: "i < ?n" "glru_scan_or_evict b s = Some (i, s\<lparr>gfsc_blocks := ?bl[i := (?bl ! i)\<lparr>tag := b\<rparr>]\<rparr>)"
      using glru_scan_or_evict_spec[OF ok] by metis
    let ?s1 = "s\<lparr>gfsc_blocks := ?bl[i := (?bl ! i)\<lparr>tag := b\<rparr>]\<rparr>"
    let ?nb = "?bl[i := \<lparr>cblock = disk_block s b, tag = b\<rparr>]"
    let ?s2 = "s\<lparr>gfsc_blocks := ?nb, gfsc_rdmiss := gfsc_rdmiss s + 1\<rparr>"
    let ?s' = "?s2\<lparr>gfsc_lru_aseq := of_nat i # remove1 (of_nat i) (gfsc_lru_aseq s)\<rparr>"
    have rd: "GFS_read_sec (b * SEC_PER_BLOCK) SEC_PER_BLOCK ?s1 = Some (disk_block s b)"
      using GFS_read_sec_spec[of ?s1 SEC_PER_BLOCK "b * SEC_PER_BLOCK"] sd blk_arith[OF b]
      by (simp add: disk_block_def)
    have mv: "glru_aseq_move (of_nat i) ?s2 = Some ?s'"
      using glru_aseq_move_at[OF ok i(1), of ?s2] by (simp add: gfsc_blocks_num_def)
    have il: "i < length ?bl" using i n by simp
    have "gfsc_read_block b kva dest s = Some (disk_block s b, 1, ?s')"
      using miss i il rd mv dest disk_block_length[OF sd]
      by (simp add: gfsc_read_block_def set_cache_block_def cache_copy_spec cache_block_upd)
    moreover have "blocks_ok s ?nb"
      using blocks_ok_install[OF bok il _ b refl disk_block_length[OF sd]] miss n by simp
    then have "cache_ok ?s'"
      by - (rule cache_okI[OF ok i(1)], rule blocks_ok_cong, simp_all add: n)
    moreover have "\<not> (\<exists>x \<in> set ?bl. tag x = b)" using miss n by (auto simp: in_set_conv_nth)
    ultimately show ?thesis by (auto simp: cache_frame_def)
  qed
qed

text \<open>The part of a write that does not touch the card: the block is in the cache under its tag.\<close>

lemma disk_block_write:
  assumes sd: "sd_laws s" and b: "blk_valid s b" and c: "blk_valid s c" and len: "length bs = 4096"
  shows "disk_block (s\<lparr>dev := sd_write s (dev s) 8 (unat (GFS_base_sec s) + 8 * unat b) bs\<rparr>) c =
    (if c = b then bs else disk_block s c)"
proof (cases "c = b")
  case True
  then show ?thesis using disk_secs_written[OF sd, of bs 8 "8 * unat b"] len by (simp add: disk_block_def)
next
  case False
  then have "unat c \<noteq> unat b" by (metis unsigned_word_eqI)
  then have "8 * unat c + 8 \<le> 8 * unat b \<or> 8 * unat b + 8 \<le> 8 * unat c" by linarith
  then show ?thesis
    using disk_secs_other[OF sd, of bs 8 "8 * unat c" 8 "8 * unat b"] len False
    by (simp add: disk_block_def)
qed

lemma cache_block_upd2: "(x :: cache_block)\<lparr>cblock := c\<rparr> = \<lparr>cblock = c, tag = tag x\<rparr>"
  by simp

lemma gfsc_write_block_spec:
  assumes ok: "cache_ok s" and sd: "sd_laws s" and b: "blk_valid s b" and src: "length src = 4096"
  shows "\<exists>s'. gfsc_write_block b kva src s =
      Some ((if \<exists>x \<in> set (gfsc_blocks s). tag x = b then 0 else 1), s') \<and>
    cache_ok s' \<and> cache_frame s s' \<and>
    dev s' = sd_write s (dev s) 8 (unat (GFS_base_sec s) + 8 * unat b) src"
proof -
  let ?bl = "gfsc_blocks s" and ?n = "gfsc_blocks_num s"
  let ?d = "sd_write s (dev s) 8 (unat (GFS_base_sec s) + 8 * unat b) src"
  have bok: "blocks_ok s ?bl" using ok by (simp add: cache_ok_def)
  have n: "?n = length ?bl" by (simp add: gfsc_blocks_num_def)
  have b0: "b \<noteq> 0" using b by (simp add: blk_valid_def)
  have wr: "GFS_write_sec (b * SEC_PER_BLOCK) SEC_PER_BLOCK src t = Some (t\<lparr>dev := ?d\<rparr>)"
    if "dev t = dev s" "GFS_base_sec t = GFS_base_sec s" "sd_write t = sd_write s" "sblk t = sblk s" for t :: "'a gfs"
  proof -
    have "blk_valid t b" using b that by (simp add: blk_valid_def secs_ok_def)
    note a = blk_arith[OF this]
    show ?thesis using GFS_write_sec_spec[OF a(3)] src a(1,2) that by simp
  qed
  have len: "length (cblock (?bl ! i)) = 4096" if "i < ?n" for i
    using that bok n by (simp add: blocks_ok_def)
  have new: "blocks_ok (s\<lparr>dev := ?d\<rparr>) (?bl[i := \<lparr>cblock = src, tag = b\<rparr>])"
    if "i < ?n" "\<forall>j < ?n. j \<noteq> i \<longrightarrow> tag (?bl ! j) \<noteq> b" for i
    using that n b src disk_block_write[OF sd b _ src]
    by (intro blocks_ok_install[OF bok]) (auto simp: blk_valid_def)
  have fin: "cache_ok (t\<lparr>gfsc_blocks := ?bl[i := \<lparr>cblock = src, tag = b\<rparr>],
      gfsc_lru_aseq := of_nat i # remove1 (of_nat i) (gfsc_lru_aseq s), dev := ?d\<rparr>)"
    if "i < ?n" "\<forall>j < ?n. j \<noteq> i \<longrightarrow> tag (?bl ! j) \<noteq> b" "GFS_base_sec t = GFS_base_sec s"
      "sd_read t = sd_read s" "sblk t = sblk s" for i and t :: "'a gfs"
    using that by - (rule cache_okI[OF ok that(1)], rule blocks_ok_cong[OF new[OF that(1,2)]],
        simp_all add: n disk_secs_def secs_ok_def blk_valid_def fun_eq_iff)
  from ok b0 show ?thesis
  proof (cases rule: gfsc_search_cases)
    case (hit i)
    let ?s1 = "s\<lparr>gfsc_wrhit := gfsc_wrhit s + 1\<rparr>"
    let ?s2 = "?s1\<lparr>gfsc_blocks := ?bl[i := \<lparr>cblock = src, tag = b\<rparr>]\<rparr>"
    let ?s3 = "?s2\<lparr>gfsc_lru_aseq := of_nat i # remove1 (of_nat i) (gfsc_lru_aseq s)\<rparr>"
    have mv: "glru_aseq_move (of_nat i) ?s2 = Some ?s3"
      using glru_aseq_move_at[OF ok hit(2), of ?s2] by (simp add: gfsc_blocks_num_def)
    have "gfsc_write_block b kva src s = Some (0, ?s3\<lparr>dev := ?d\<rparr>)"
      using hit n mv src len[OF hit(2)] wr[of ?s3]
      by (simp add: gfsc_write_block_def set_cache_block_def cache_copy_spec cache_block_upd2)
    moreover have "cache_ok (?s3\<lparr>dev := ?d\<rparr>)" using fin[OF hit(2,4), of ?s1] by simp
    moreover have "?bl ! i \<in> set ?bl" using hit n by simp
    ultimately show ?thesis using hit(3) by (auto simp: cache_frame_def)
  next
    case miss
    obtain i where i: "i < ?n" "glru_scan_or_evict b s = Some (i, s\<lparr>gfsc_blocks := ?bl[i := (?bl ! i)\<lparr>tag := b\<rparr>]\<rparr>)"
      using glru_scan_or_evict_spec[OF ok] by metis
    let ?s1 = "s\<lparr>gfsc_wrmiss := gfsc_wrmiss s + 1\<rparr>"
    let ?s2 = "?s1\<lparr>gfsc_blocks := ?bl[i := \<lparr>cblock = src, tag = b\<rparr>]\<rparr>"
    let ?s3 = "?s2\<lparr>gfsc_lru_aseq := of_nat i # remove1 (of_nat i) (gfsc_lru_aseq s)\<rparr>"
    have mv: "glru_aseq_move (of_nat i) ?s2 = Some ?s3"
      using glru_aseq_move_at[OF ok i(1), of ?s2] by (simp add: gfsc_blocks_num_def)
    have eq: "s\<lparr>gfsc_blocks := ?bl[i := \<lparr>cblock = src, tag = b\<rparr>], gfsc_wrmiss := gfsc_wrmiss s + 1\<rparr> = ?s2"
      by simp
    have "gfsc_write_block b kva src s = Some (1, ?s3\<lparr>dev := ?d\<rparr>)"
      using miss(1) i n mv src len[OF i(1)] wr[of ?s3]
      by (simp add: gfsc_write_block_def set_cache_block_def cache_copy_spec cache_block_upd2)
    moreover have "cache_ok (?s3\<lparr>dev := ?d\<rparr>)" using fin[OF i(1) _, of ?s1] miss(2) by simp
    moreover have "\<not> (\<exists>x \<in> set ?bl. tag x = b)" using miss n by (auto simp: in_set_conv_nth)
    ultimately show ?thesis by (auto simp: cache_frame_def)
  qed
qed

section \<open>The contract of the block layer\<close>

locale block_store =
  fixes rd :: "u32 \<Rightarrow> 's \<Rightarrow> ('b \<times> int \<times> 's) option"
    and wr :: "u32 \<Rightarrow> 'b \<Rightarrow> 's \<Rightarrow> (int \<times> 's) option"
    and ok :: "'s \<Rightarrow> bool"
    and valid :: "'s \<Rightarrow> u32 \<Rightarrow> bool"
    and content :: "'s \<Rightarrow> u32 \<Rightarrow> 'b"
    and wf :: "'b \<Rightarrow> bool"
    and same :: "'s \<Rightarrow> 's \<Rightarrow> bool"
  assumes rd_law: "ok s \<Longrightarrow> valid s b \<Longrightarrow>
      \<exists>r s'. rd b s = Some (content s b, r, s') \<and> ok s' \<and> same s s' \<and> content s' = content s"
    and wr_law: "ok s \<Longrightarrow> valid s b \<Longrightarrow> wf bs \<Longrightarrow>
      \<exists>r s'. wr b bs s = Some (r, s') \<and> ok s' \<and> same s s' \<and>
        (\<forall>c. valid s c \<longrightarrow> content s' c = (if c = b then bs else content s c))"
    and content_wf: "ok s \<Longrightarrow> valid s b \<Longrightarrow> wf (content s b)"
    and same_valid: "same s s' \<Longrightarrow> valid s' = valid s"
    and same_refl: "same s s"
    and same_trans: "same s s' \<Longrightarrow> same s' s'' \<Longrightarrow> same s s''"
begin

lemma rd_cases:
  assumes "ok s" and "valid s b"
  obtains r s' where "rd b s = Some (content s b, r, s')" "ok s'" "same s s'" "content s' = content s"
    "valid s' = valid s"
  using rd_law[OF assms] same_valid by blast

lemma wr_cases:
  assumes "ok s" and "valid s b" and "wf bs"
  obtains r s' where "wr b bs s = Some (r, s')" "ok s'" "same s s'" "content s' b = bs"
    "\<And>c. valid s c \<Longrightarrow> c \<noteq> b \<Longrightarrow> content s' c = content s c" "valid s' = valid s"
proof -
  obtain r s' where w: "wr b bs s = Some (r, s')" "ok s'" "same s s'"
    and c: "\<forall>c. valid s c \<longrightarrow> content s' c = (if c = b then bs else content s c)"
    using wr_law[OF assms] by blast
  show thesis
    by (rule that[OF w]) (use c assms(2) same_valid[OF w(3)] in auto)
qed

text \<open>A block that is written reads back, and the others read as before.\<close>

lemma read_after_write:
  assumes "ok s" and "valid s b" and "valid s c" and "wf bs"
  shows "\<exists>r s' q s''. wr b bs s = Some (r, s') \<and>
    rd c s' = Some (if c = b then bs else content s c, q, s'') \<and> ok s''"
proof -
  obtain r s' where w: "wr b bs s = Some (r, s')" "ok s'" "content s' b = bs"
    "\<And>c. valid s c \<Longrightarrow> c \<noteq> b \<Longrightarrow> content s' c = content s c" "valid s' = valid s"
    using wr_cases[OF assms(1,2,4)] by metis
  obtain q s'' where "rd c s' = Some (content s' c, q, s'')" "ok s''"
    using rd_cases[OF w(2), of c] w(5) assms(3) by metis
  then show ?thesis using w assms(3) by (cases "c = b") auto
qed

end

text \<open>The contract holds for the cached block access; \<open>store_ok\<close> is what the client keeps.\<close>

definition store_ok :: "'d gfs \<Rightarrow> bool" where
  "store_ok s \<longleftrightarrow> cache_ok s \<and> sd_laws s"

text \<open>The fields block access does not depend on.\<close>

lemma other_field_simps [simp]:
  "disk_secs (s\<lparr>bitmap := bm\<rparr>) = disk_secs s" "secs_ok (s\<lparr>bitmap := bm\<rparr>) = secs_ok s"
  "sd_laws (s\<lparr>bitmap := bm\<rparr>) = sd_laws s" "blk_valid (s\<lparr>bitmap := bm\<rparr>) = blk_valid s"
  "disk_block (s\<lparr>bitmap := bm\<rparr>) = disk_block s" "cache_ok (s\<lparr>bitmap := bm\<rparr>) = cache_ok s"
  "store_ok (s\<lparr>bitmap := bm\<rparr>) = store_ok s" "disk_secs (s\<lparr>gfsc_inodes := ins\<rparr>) = disk_secs s"
  "secs_ok (s\<lparr>gfsc_inodes := ins\<rparr>) = secs_ok s" "sd_laws (s\<lparr>gfsc_inodes := ins\<rparr>) = sd_laws s"
  "blk_valid (s\<lparr>gfsc_inodes := ins\<rparr>) = blk_valid s" "disk_block (s\<lparr>gfsc_inodes := ins\<rparr>) = disk_block s"
  "cache_ok (s\<lparr>gfsc_inodes := ins\<rparr>) = cache_ok s" "store_ok (s\<lparr>gfsc_inodes := ins\<rparr>) = store_ok s"
  "disk_secs (s\<lparr>gfsc_lru_ptr := lp\<rparr>) = disk_secs s" "secs_ok (s\<lparr>gfsc_lru_ptr := lp\<rparr>) = secs_ok s"
  "sd_laws (s\<lparr>gfsc_lru_ptr := lp\<rparr>) = sd_laws s" "blk_valid (s\<lparr>gfsc_lru_ptr := lp\<rparr>) = blk_valid s"
  "disk_block (s\<lparr>gfsc_lru_ptr := lp\<rparr>) = disk_block s" "cache_ok (s\<lparr>gfsc_lru_ptr := lp\<rparr>) = cache_ok s"
  "store_ok (s\<lparr>gfsc_lru_ptr := lp\<rparr>) = store_ok s" "disk_secs (s\<lparr>fnodes := fn\<rparr>) = disk_secs s"
  "secs_ok (s\<lparr>fnodes := fn\<rparr>) = secs_ok s" "sd_laws (s\<lparr>fnodes := fn\<rparr>) = sd_laws s"
  "blk_valid (s\<lparr>fnodes := fn\<rparr>) = blk_valid s" "disk_block (s\<lparr>fnodes := fn\<rparr>) = disk_block s"
  "cache_ok (s\<lparr>fnodes := fn\<rparr>) = cache_ok s" "store_ok (s\<lparr>fnodes := fn\<rparr>) = store_ok s"
  "disk_secs (s\<lparr>kh := hp\<rparr>) = disk_secs s" "secs_ok (s\<lparr>kh := hp\<rparr>) = secs_ok s"
  "sd_laws (s\<lparr>kh := hp\<rparr>) = sd_laws s" "blk_valid (s\<lparr>kh := hp\<rparr>) = blk_valid s"
  "disk_block (s\<lparr>kh := hp\<rparr>) = disk_block s" "cache_ok (s\<lparr>kh := hp\<rparr>) = cache_ok s"
  "store_ok (s\<lparr>kh := hp\<rparr>) = store_ok s" "disk_secs (s\<lparr>npanic := np\<rparr>) = disk_secs s"
  "secs_ok (s\<lparr>npanic := np\<rparr>) = secs_ok s" "sd_laws (s\<lparr>npanic := np\<rparr>) = sd_laws s"
  "blk_valid (s\<lparr>npanic := np\<rparr>) = blk_valid s" "disk_block (s\<lparr>npanic := np\<rparr>) = disk_block s"
  "cache_ok (s\<lparr>npanic := np\<rparr>) = cache_ok s" "store_ok (s\<lparr>npanic := np\<rparr>) = store_ok s"
  by (simp_all add: disk_secs_def secs_ok_def sd_laws_def blk_valid_def disk_block_def cache_ok_def
      blocks_ok_def store_ok_def gfsc_blocks_num_def fun_eq_iff)

definition whole_block :: "u8 list \<Rightarrow> bool" where
  "whole_block bs \<longleftrightarrow> length bs = 4096"

text \<open>The frame of block access: nothing but the cache and the data blocks of the card changes.\<close>

definition store_frame :: "'d gfs \<Rightarrow> 'd gfs \<Rightarrow> bool" where
  "store_frame s s' \<longleftrightarrow> cache_frame s s' \<and>
     (sd_laws s \<longrightarrow> (\<forall>n k. k + n \<le> unat (data_loc (sblk s)) \<longrightarrow> disk_secs s' n k = disk_secs s n k))"

lemma cache_frame_fields:
  assumes "cache_frame s s'"
  shows "GFS_base_sec s' = GFS_base_sec s" and "sblk s' = sblk s" and "bitmap s' = bitmap s"
    and "gfsc_inodes s' = gfsc_inodes s" and "gfsc_lru_ptr s' = gfsc_lru_ptr s" and "flh s' = flh s"
    and "fnodes s' = fnodes s" and "kh s' = kh s" and "npanic s' = npanic s"
    and "sd_read s' = sd_read s" and "sd_write s' = sd_write s"
    and "blk_valid s' = blk_valid s" and "sd_laws s' = sd_laws s"
  by (subst assms[unfolded cache_frame_def], simp add: blk_valid_def secs_ok_def sd_laws_def fun_eq_iff)+

lemma cache_frame_trans: "cache_frame s s' \<Longrightarrow> cache_frame s' s'' \<Longrightarrow> cache_frame s s''"
  unfolding cache_frame_def by (cases s; cases s'; cases s'') simp

interpretation bs: block_store GFS_read_block GFS_write_block store_ok blk_valid disk_block whole_block store_frame
proof
  fix s :: "'d gfs" and b and bl assume ok: "store_ok s" and v: "blk_valid s b"
  obtain s' where s': "GFS_read_block b s =
      Some (disk_block s b, (if \<exists>x \<in> set (gfsc_blocks s). tag x = b then 0 else 1), s')"
    "cache_ok s'" "cache_frame s s'" "dev s' = dev s"
    using gfsc_read_block_spec[of s b "replicate BLOCK_SIZE 0" 0] ok v
    by (auto simp: GFS_read_block_def store_ok_def BLOCK_SIZE_def)
  have ds: "disk_secs s' = disk_secs s"
    using s'(4) cache_frame_fields(1,10)[OF s'(3)] by (simp add: disk_secs_def fun_eq_iff)
  then have "disk_block s' = disk_block s" by (simp add: disk_block_def fun_eq_iff)
  then show "\<exists>r s'. GFS_read_block b s = Some (disk_block s b, r, s') \<and> store_ok s' \<and> store_frame s s' \<and>
      disk_block s' = disk_block s"
    using s' ds ok cache_frame_fields(13)[OF s'(3)] by (auto simp: store_ok_def store_frame_def)
  show "whole_block (disk_block s b)"
    using ok by (simp add: whole_block_def store_ok_def disk_block_length)
  assume len: "whole_block bl"
  then obtain r s' where s': "GFS_write_block b bl s = Some (r, s')" "cache_ok s'" "cache_frame s s'"
    "dev s' = sd_write s (dev s) 8 (unat (GFS_base_sec s) + 8 * unat b) bl"
    using gfsc_write_block_spec[of s b bl 0] ok v
    by (auto simp: GFS_write_block_def store_ok_def whole_block_def)
  let ?t = "s\<lparr>dev := sd_write s (dev s) 8 (unat (GFS_base_sec s) + 8 * unat b) bl\<rparr>"
  have ds: "disk_secs s' = disk_secs ?t"
    using s'(4) cache_frame_fields(1,10)[OF s'(3)] by (simp add: disk_secs_def fun_eq_iff)
  then have "\<forall>c. blk_valid s c \<longrightarrow> disk_block s' c = (if c = b then bl else disk_block s c)"
    using disk_block_write[of s b _ bl] ok v len by (simp add: disk_block_def store_ok_def whole_block_def)
  moreover have "disk_secs ?t n k = disk_secs s n k" if "k + n \<le> unat (data_loc (sblk s))" for n k
    using that v ok len by (intro disk_secs_other) (auto simp: store_ok_def whole_block_def blk_valid_def)
  ultimately show "\<exists>r s'. GFS_write_block b bl s = Some (r, s') \<and> store_ok s' \<and> store_frame s s' \<and>
      (\<forall>c. blk_valid s c \<longrightarrow> disk_block s' c = (if c = b then bl else disk_block s c))"
    using s' ds ok cache_frame_fields(13)[OF s'(3)] by (auto simp: store_ok_def store_frame_def)
next
  fix s s' s'' :: "'d gfs"
  assume 1: "store_frame s s'"
  then show "blk_valid s' = blk_valid s" by (simp add: store_frame_def cache_frame_fields)
  assume 2: "store_frame s' s''"
  then show "store_frame s s''"
    using 1 cache_frame_trans[of s s' s''] cache_frame_fields(2,13)[of s s'] by (simp add: store_frame_def)
next
  fix s :: "'d gfs"
  show "store_frame s s" by (simp add: store_frame_def cache_frame_def)
qed

section \<open>The sample file system\<close>

lemma demo_disk_secs: "disk_secs demo_fs n k = concat (map (\<lambda>t. pad_sector (demo_sector (k + t))) [0..<n])"
  by (simp add: disk_secs_def ram_read_map)

lemma demo_disk_sector: "disk_secs demo_fs 1 k = pad_sector (demo_sector k)"
  by (simp add: demo_disk_secs)

lemma demo_store_ok: "store_ok demo_fs"
  by (auto simp: store_ok_def demo_sd_laws cache_ok_def aseq_ok_def blocks_ok_def gfsc_blocks_num_def less_Suc_eq numeral_2_eq_2)

lemma demo_blk_valid: "457 \<le> unat b \<Longrightarrow> unat b < 262601 \<Longrightarrow> blk_valid demo_fs b"
  by (auto simp: blk_valid_def secs_ok_def)

lemma demo_block:
  assumes "\<And>t. t < 8 \<Longrightarrow> demo_sector (8 * unat b + t) = take 512 (drop (t * 512) bs)" and "length bs = 4096"
  shows "disk_block demo_fs b = bs"
proof -
  have p: "pad_sector (demo_sector (8 * unat b + t)) = take 512 (drop (t * 512) bs)" if "t \<in> set [0..<8]" for t
  proof -
    from that have "t < 8" by simp
    then have "length (take 512 (drop (t * 512) bs)) = 512" using assms(2) by simp
    then show ?thesis unfolding assms(1)[OF \<open>t < 8\<close>] by (rule pad_sector_full)
  qed
  have "disk_block demo_fs b = concat (map (\<lambda>t. take 512 (drop (t * 512) bs)) [0..<8])"
    by (simp only: disk_block_def demo_disk_secs map_cong[OF refl p])
  then show ?thesis using concat_slices[of 512 bs 8] assms(2) by simp
qed

lemma demo_blocks:
  "disk_block demo_fs 457 = block_of_dentries demo_entries" "disk_block demo_fs 458 = demo_data"
  by (rule demo_block, auto simp: demo_sector_def)+

section \<open>Properties\<close>

text \<open>
  C4: The block cache is invisible. After a block is written through the cache, every valid block reads
  back through the cache as if each access went to the card: the written block with its new contents,
  every other block with what the card held before; no access fails and the cache stays coherent.
\<close>

theorem block_cache_transparent:
  assumes "store_ok s" and "blk_valid s b" and "blk_valid s c" and "length buf = 4096"
  shows "\<exists>r s1 q s2. GFS_write_block b buf s = Some (r, s1) \<and>
    GFS_read_block c s1 = Some (if c = b then buf else disk_block s c, q, s2) \<and> store_ok s2"
  using bs.read_after_write[OF assms(1-3), of buf] assms(4) by (simp add: whole_block_def)

theorem block_cache_transparent_witness:
  "\<exists>r s1 q s2. GFS_write_block 457 (replicate 4096 7) demo_fs = Some (r, s1) \<and>
     GFS_read_block 458 s1 = Some (demo_data, q, s2) \<and> store_ok s2"
  using block_cache_transparent[OF demo_store_ok, of 457 458 "replicate 4096 7"] demo_blk_valid[of 457] demo_blk_valid[of 458]
  by (simp add: demo_blocks)

text \<open>
  A read through the cache delivers what the card holds into a destination of any alignment,
  answers 0 exactly when the block was cached and 1 otherwise, leaves the card alone and keeps the cache
  coherent (tags unique, contents equal to the card, access sequence a permutation), also when a block
  is evicted.
\<close>

theorem gfsc_read_block_coherent:
  assumes "cache_ok s" and "sd_laws s" and "blk_valid s b" and "length dest = 4096"
  shows "\<exists>s'. gfsc_read_block b kva dest s =
      Some (disk_block s b, (if \<exists>x \<in> set (gfsc_blocks s). tag x = b then 0 else 1), s') \<and>
    cache_ok s' \<and> cache_frame s s' \<and> dev s' = dev s"
  by (rule gfsc_read_block_spec[OF assms])

theorem gfsc_read_block_coherent_witness:
  "\<exists>s'. gfsc_read_block 458 3 (replicate 4096 9) demo_fs = Some (demo_data, 1, s') \<and> cache_ok s'"
  using gfsc_read_block_coherent[of demo_fs 458 "replicate 4096 9" 3] demo_store_ok demo_blk_valid[of 458]
  by (auto simp: store_ok_def demo_blocks)

text \<open>
  The access sequence is a least-recently-used order: an access moves the block to the front and
  keeps the order of the others.
\<close>

theorem glru_aseq_move_front:
  assumes "aseq_ok (gfsc_blocks_num s) (gfsc_lru_aseq s)" and "c \<in> set (gfsc_lru_aseq s)"
  shows "glru_aseq_move c s = Some (s\<lparr>gfsc_lru_aseq := c # remove1 c (gfsc_lru_aseq s)\<rparr>)"
  by (rule glru_aseq_move_spec[OF assms])

theorem glru_aseq_move_front_witness:
  "glru_aseq_move 1 demo_fs = Some (demo_fs\<lparr>gfsc_lru_aseq := [1, 0]\<rparr>)"
  using glru_aseq_move_front[of demo_fs 1] demo_store_ok by (simp add: store_ok_def cache_ok_def)

text \<open>
  Sector transfers, cut into runs of at most 64 sectors by the code, are whole: what is written to a
  range of up to 64 sectors reads back, and a read of any length is the sectors of the card in order.
\<close>

theorem sector_roundtrip:
  assumes "sd_laws s" and "secs_ok s (unat n) (unat k)" and "0 < unat n" and "unat n \<le> 64"
    and "length buf = unat n * 512" and "secs_ok s (unat m) (unat j)"
  shows "GFS_read_sec j m s = Some (disk_secs s (unat m) (unat j)) \<and>
    (\<exists>s'. GFS_write_sec k n buf s = Some s' \<and> GFS_read_sec k n s' = Some buf)"
proof -
  let ?s' = "s\<lparr>dev := sd_write s (dev s) (unat n) (unat (GFS_base_sec s) + unat k) buf\<rparr>"
  have "GFS_read_sec k n ?s' = Some (disk_secs ?s' (unat n) (unat k))"
    using assms by (intro GFS_read_sec_spec) (simp_all add: secs_ok_def)
  then have "GFS_read_sec k n ?s' = Some buf" using assms by simp
  then show ?thesis
    using GFS_read_sec_spec[OF assms(1,6)] GFS_write_sec_spec[OF assms(2-5)] by blast
qed

theorem sector_roundtrip_witness:
  "\<exists>s'. GFS_write_sec 100 2 (replicate 1024 5) demo_fs = Some s' \<and> GFS_read_sec 100 2 s' = Some (replicate 1024 5)"
  using sector_roundtrip[OF demo_sd_laws, of 2 100 "replicate 1024 5" 200 3656] by (simp add: secs_ok_def)

end
