(* ===== verification/GfsFlist.thy ===== *)
theory GfsFlist
  imports GfsCache
begin

text \<open>
  The list of open files (\<^verbatim>\<open>kernel/fs/gfs-flist.c\<close>): a singly linked list behind the static node
  \<open>flh\<close> (the root directory), one node from the kernel heap per open inode, with the number of
  holders (\<^verbatim>\<open>nproc\<close>) and of writers (\<^verbatim>\<open>nwr\<close>), both 16-bit signed.

  \<open>flist_ok s ns\<close> says that the nodes are \<open>ns\<close>; \<open>ftab\<close> is the reference-count table they stand
  for. The lemmas show that the operations implement \<open>inc_tab\<close> and \<open>dec_tab\<close> on that table, and that closing gives back to the
  kernel heap exactly the nodes that leave the list.
\<close>

section \<open>Operations\<close>

definition sizeof_flist_node :: u32 where "sizeof_flist_node = 24"

definition upd_fnode :: "addr \<Rightarrow> (flist_node \<Rightarrow> flist_node) \<Rightarrow> 'd gfs \<Rightarrow> 'd gfs" where
  "upd_fnode p f s = s\<lparr>fnodes := (fnodes s)(p := f (fnodes s p))\<rparr>"

definition next_of :: "'d gfs \<Rightarrow> addr \<Rightarrow> addr" where
  "next_of s p = fl_next (fnodes s p)"

partial_function (option) flist_free_all :: "addr \<Rightarrow> 'd gfs \<Rightarrow> 'd gfs option" where
  "flist_free_all p s =
     (if p \<noteq> NULL then do {
        let q = next_of s p;
        h \<leftarrow> kfree_g p (kh s);
        flist_free_all q (s\<lparr>kh := h\<rparr>)
      } else Some s)"

definition flist_init :: "'d gfs \<Rightarrow> 'd gfs option" where
  "flist_init s = do {
     s1 \<leftarrow> flist_free_all (next_of s (flh s)) s;
     let s2 = upd_fnode (flh s1) (\<lambda>n. n\<lparr>fl_next := NULL\<rparr>) s1;
     let s3 = upd_fnode (flh s2) (\<lambda>n. n\<lparr>fl_ino := DENTRY_INVALID_INO, pinode := 0\<rparr>) s2;
     Some (upd_fnode (flh s3) (\<lambda>n. n\<lparr>fl_ino := 0\<rparr>) s3)
   }"

text \<open>The loop that stops at the node before the one with inode number \<open>i\<close>, or at the last node.\<close>

partial_function (option) flist_before :: "'d gfs \<Rightarrow> u32 \<Rightarrow> addr \<Rightarrow> addr option" where
  "flist_before s i p =
     (if next_of s p \<noteq> NULL \<and> fl_ino (fnodes s (next_of s p)) \<noteq> i
      then flist_before s i (next_of s p) else Some p)"

definition flist_inc_fnode :: "u32 \<Rightarrow> bool \<Rightarrow> 'd gfs \<Rightarrow> (addr \<times> 'd gfs) option" where
  "flist_inc_fnode i wr s =
     (if i = 0 then Some (flh s, s)
      else if i \<ge> inode_num (sblk s) then Some (NULL, s)
      else do {
        p \<leftarrow> flist_before s i (flh s);
        if next_of s p = NULL then do {
          (q, h) \<leftarrow> kmalloc_g sizeof_flist_node (kh s);
          let s1 = upd_fnode p (\<lambda>n. n\<lparr>fl_next := q\<rparr>) (s\<lparr>kh := h\<rparr>);
          if q = NULL then Some (NULL, GFS_panic s1)
          else
            (let s2 = upd_fnode q (\<lambda>n. n\<lparr>fl_ino := DENTRY_INVALID_INO, fl_next := NULL, pinode := unat i\<rparr>) s1;
                 s3 = upd_fnode q (\<lambda>n. n\<lparr>fl_ino := i, nwr := (if wr then 1 else 0), nproc := 1\<rparr>) s2
             in Some (q, s3))
        } else
          (let q = next_of s p in
           Some (q, upd_fnode q (\<lambda>n. n\<lparr>nwr := nwr n + (if wr then 1 else 0), nproc := nproc n + 1\<rparr>) s))
      })"

definition flist_dec_fnode :: "u32 \<Rightarrow> bool \<Rightarrow> 'd gfs \<Rightarrow> (int \<times> 'd gfs) option" where
  "flist_dec_fnode i cwr s =
     (if i = 0 then Some (0, s)
      else if i \<ge> inode_num (sblk s) then Some (1, s)
      else do {
        p \<leftarrow> flist_before s i (flh s);
        let q = next_of s p;
        if q = NULL then Some (1, s)
        else
          (let s1 = upd_fnode q (\<lambda>n. n\<lparr>nwr := nwr n - (if cwr then 1 else 0)\<rparr>) s;
               s2 = upd_fnode q (\<lambda>n. n\<lparr>nproc := nproc n - 1\<rparr>) s1
           in if sint (nproc (fnodes s2 q)) \<le> 0 then do {
                let r = next_of s2 q;
                h \<leftarrow> kfree_g q (kh s2);
                Some (0, upd_fnode p (\<lambda>n. n\<lparr>fl_next := r\<rparr>) (s2\<lparr>kh := h\<rparr>))
              } else Some (0, s2))
      })"

partial_function (option) flist_search_loop :: "'d gfs \<Rightarrow> u32 \<Rightarrow> addr \<Rightarrow> addr option" where
  "flist_search_loop s i p =
     (if p \<noteq> NULL then if fl_ino (fnodes s p) = i then Some p else flist_search_loop s i (next_of s p)
      else Some p)"

definition flist_search :: "u32 \<Rightarrow> 'd gfs \<Rightarrow> addr option" where
  "flist_search i s = flist_search_loop s i (flh s)"

section \<open>The table behind the list\<close>

definition node_ok :: "'d gfs \<Rightarrow> addr \<Rightarrow> bool" where
  "node_ok s n \<longleftrightarrow> (let f = fnodes s n in
     fl_ino f \<noteq> 0 \<and> fl_ino f < inode_num (sblk s) \<and> pinode f = unat (fl_ino f) \<and> 0 < sint (nproc f))"

definition flist_ok :: "'d gfs \<Rightarrow> addr list \<Rightarrow> bool" where
  "flist_ok s ns \<longleftrightarrow>
     lpath (next_of s) (flh s) ns \<and> distinct ns \<and> set ns \<subseteq> fst ` live (kh s) \<and> heap_ok (kh s) \<and>
     flh s \<noteq> NULL \<and> flh s \<notin> heap_area (kh s) \<and> fl_ino (fnodes s (flh s)) = 0 \<and>
     distinct (map (\<lambda>n. fl_ino (fnodes s n)) ns) \<and> (\<forall>n \<in> set ns. node_ok s n)"

text \<open>Reference counts: inode number, writers, holders.\<close>

type_synonym ftab = "(u32 \<times> u16 \<times> u16) list"

definition fentry :: "'d gfs \<Rightarrow> addr \<Rightarrow> u32 \<times> u16 \<times> u16" where
  "fentry s n = (fl_ino (fnodes s n), nwr (fnodes s n), nproc (fnodes s n))"

definition ftab_of :: "'d gfs \<Rightarrow> addr list \<Rightarrow> ftab" where
  "ftab_of s ns = map (fentry s) ns"

fun inc_tab :: "u32 \<Rightarrow> bool \<Rightarrow> ftab \<Rightarrow> ftab" where
  "inc_tab i w [] = [(i, if w then 1 else 0, 1)]"
| "inc_tab i w ((j, a, b) # t) =
     (if j = i then (j, a + (if w then 1 else 0), b + 1) # t else (j, a, b) # inc_tab i w t)"

fun dec_tab :: "u32 \<Rightarrow> bool \<Rightarrow> ftab \<Rightarrow> ftab" where
  "dec_tab i w [] = []"
| "dec_tab i w ((j, a, b) # t) =
     (if j = i then (if sint (b - 1) \<le> 0 then t else (j, a - (if w then 1 else 0), b - 1) # t)
      else (j, a, b) # dec_tab i w t)"

subsection \<open>The loops\<close>

lemma flist_before_spec:
  assumes "lpath (next_of s) p ns"
  shows "if \<forall>n \<in> set ns. fl_ino (fnodes s n) \<noteq> i then flist_before s i p = Some (last (p # ns))
    else \<exists>xs n ys. ns = xs @ n # ys \<and> fl_ino (fnodes s n) = i \<and> (\<forall>x \<in> set xs. fl_ino (fnodes s x) \<noteq> i) \<and>
      flist_before s i p = Some (last (p # xs)) \<and> next_of s (last (p # xs)) = n \<and> n \<noteq> NULL"
  using assms
proof (induction ns arbitrary: p)
  case Nil
  then show ?case by (simp add: flist_before.simps)
next
  case (Cons n ns)
  then have n: "next_of s p = n" "n \<noteq> NULL" by simp_all
  show ?case
  proof (cases "fl_ino (fnodes s n) = i")
    case True
    then have "flist_before s i p = Some p" using n by (simp add: flist_before.simps)
    then show ?thesis using True n by (auto intro!: exI[of _ "[]"])
  next
    case False
    then have st: "flist_before s i p = flist_before s i n" using n by (subst flist_before.simps) simp
    have IH: "if \<forall>n \<in> set ns. fl_ino (fnodes s n) \<noteq> i then flist_before s i n = Some (last (n # ns))
      else \<exists>xs m ys. ns = xs @ m # ys \<and> fl_ino (fnodes s m) = i \<and> (\<forall>x \<in> set xs. fl_ino (fnodes s x) \<noteq> i) \<and>
        flist_before s i n = Some (last (n # xs)) \<and> next_of s (last (n # xs)) = m \<and> m \<noteq> NULL"
      by (rule Cons(1)) (use Cons(2) in simp)
    show ?thesis
    proof (cases "\<forall>n \<in> set ns. fl_ino (fnodes s n) \<noteq> i")
      case True
      then show ?thesis using IH False st by simp
    next
      case F: False
      then obtain xs m ys where "ns = xs @ m # ys" "fl_ino (fnodes s m) = i" "\<forall>x \<in> set xs. fl_ino (fnodes s x) \<noteq> i"
        "flist_before s i n = Some (last (n # xs))" "next_of s (last (n # xs)) = m" "m \<noteq> NULL"
        using IH[unfolded if_not_P[OF F]] by blast
      then have "n # ns = (n # xs) @ m # ys \<and> fl_ino (fnodes s m) = i \<and> (\<forall>x \<in> set (n # xs). fl_ino (fnodes s x) \<noteq> i) \<and>
        flist_before s i p = Some (last (p # n # xs)) \<and> next_of s (last (p # n # xs)) = m \<and> m \<noteq> NULL"
        using st False by simp
      moreover have "\<not> (\<forall>x \<in> set (n # ns). fl_ino (fnodes s x) \<noteq> i)" using F by simp
      ultimately show ?thesis by (simp only: if_False) blast
    qed
  qed
qed

lemma flist_search_loop_spec:
  assumes "lpath (next_of s) p ns" and "p \<noteq> NULL"
  shows "flist_search_loop s i p = Some (case find (\<lambda>n. fl_ino (fnodes s n) = i) (p # ns) of
    None \<Rightarrow> NULL | Some n \<Rightarrow> n)"
  using assms
proof (induction ns arbitrary: p)
  case Nil
  then show ?case by (subst flist_search_loop.simps) (simp add: flist_search_loop.simps)
next
  case (Cons n ns)
  then show ?case by (subst flist_search_loop.simps) simp
qed

lemma next_of_upd [simp]:
  "next_of (upd_fnode p f s) x = (if x = p then fl_next (f (fnodes s p)) else next_of s x)"
  "fnodes (upd_fnode p f s) x = (if x = p then f (fnodes s p) else fnodes s x)"
  "flh (upd_fnode p f s) = flh s" "kh (upd_fnode p f s) = kh s" "sblk (upd_fnode p f s) = sblk s"
  "next_of (s\<lparr>kh := h\<rparr>) x = next_of s x"
  by (simp_all add: next_of_def upd_fnode_def)

text \<open>Changing the counts of one node keeps the shape.\<close>

lemma lpath_counts:
  "lpath (next_of s) p ns \<Longrightarrow> (\<And>x. fl_next (f x) = fl_next x) \<Longrightarrow> lpath (next_of (upd_fnode q f s)) p ns"
  by (erule lpath_frame) (simp add: next_of_def)

subsection \<open>Opening\<close>

lemma ftab_of_Nil: "ftab_of s [] = []"
  by (simp add: ftab_of_def)

lemma ftab_of_append: "ftab_of s (xs @ ys) = ftab_of s xs @ ftab_of s ys"
  by (simp add: ftab_of_def)

lemma ftab_of_cong: "(\<And>x. x \<in> set xs \<Longrightarrow> fnodes s' x = fnodes s x) \<Longrightarrow> ftab_of s' xs = ftab_of s xs"
  by (simp add: ftab_of_def fentry_def)

lemma inc_tab_absent:
  "\<forall>(j, a, b) \<in> set t. j \<noteq> i \<Longrightarrow> inc_tab i w t = t @ [(i, if w then 1 else 0, 1)]"
  by (induction i w t rule: inc_tab.induct) auto

lemma inc_tab_present:
  "\<forall>(j, a, b) \<in> set t. j \<noteq> i \<Longrightarrow>
   inc_tab i w (t @ (i, a, b) # u) = t @ (i, a + (if w then 1 else 0), b + 1) # u"
  by (induction i w t rule: inc_tab.induct) auto

lemma dec_tab_absent: "\<forall>(j, a, b) \<in> set t. j \<noteq> i \<Longrightarrow> dec_tab i w t = t"
  by (induction i w t rule: dec_tab.induct) auto

lemma dec_tab_present:
  "\<forall>(j, a, b) \<in> set t. j \<noteq> i \<Longrightarrow>
   dec_tab i w (t @ (i, a, b) # u) =
     t @ (if sint (b - 1) \<le> 0 then u else (i, a - (if w then 1 else 0), b - 1) # u)"
  by (induction i w t rule: dec_tab.induct) auto

lemma ftab_no_ino:
  "\<forall>n \<in> set ns. fl_ino (fnodes s n) \<noteq> i \<Longrightarrow> \<forall>(j, a, b) \<in> set (ftab_of s ns). j \<noteq> i"
  by (auto simp: ftab_of_def fentry_def)

lemma flist_ok_head: "flist_ok s ns \<Longrightarrow> flh s \<notin> set ns"
  unfolding flist_ok_def using km.live_pool[of "kh s"] by blast

lemma sint_add_1: "sint (b :: u16) < 32767 \<Longrightarrow> sint (b + 1) = sint b + 1"
  using sint_greater_eq[of b] by (simp add: sint_word_ariths signed_take_bit_int_eq_self)

text \<open>Adding to the counts of the node of inode \<open>i\<close>.\<close>

lemma flist_count:
  assumes ok: "flist_ok s ns" and ns: "ns = xs @ n # ys"
    and f: "\<And>x. fl_next (f x) = fl_next x" "\<And>x. fl_ino (f x) = fl_ino x" "\<And>x. pinode (f x) = pinode x"
    and pos: "0 < sint (nproc (f (fnodes s n)))"
  shows "flist_ok (upd_fnode n f s) ns"
    and "ftab_of (upd_fnode n f s) ns = ftab_of s xs @ fentry (upd_fnode n f s) n # ftab_of s ys"
proof -
  have d: "n \<notin> set xs" "n \<notin> set ys" "n \<noteq> flh s"
    using ok flist_ok_head[OF ok] ns by (auto simp: flist_ok_def)
  have i: "fl_ino (fnodes (upd_fnode n f s) x) = fl_ino (fnodes s x)" for x by (simp add: f)
  have "node_ok (upd_fnode n f s) x" if "x \<in> set ns" for x
    using ok that pos by (auto simp: flist_ok_def node_ok_def Let_def f)
  moreover have "lpath (next_of (upd_fnode n f s)) (flh s) ns"
    using ok f(1) by (simp add: flist_ok_def lpath_counts)
  ultimately show "flist_ok (upd_fnode n f s) ns"
    using ok unfolding flist_ok_def i by simp
  have "ftab_of (upd_fnode n f s) xs = ftab_of s xs" "ftab_of (upd_fnode n f s) ys = ftab_of s ys"
    using d by (auto intro!: ftab_of_cong)
  then show "ftab_of (upd_fnode n f s) ns = ftab_of s xs @ fentry (upd_fnode n f s) n # ftab_of s ys"
    unfolding ns ftab_of_append by (simp add: ftab_of_def)
qed

text \<open>A fresh node at the end.\<close>

lemma flist_append:
  assumes ok: "flist_ok s ns" and h: "heap_ok h" "q \<notin> fst ` live (kh s)" "fst ` live h = insert q (fst ` live (kh s))"
      "q \<in> heap_area (kh s)" "heap_area h = heap_area (kh s)" "q \<noteq> NULL"
    and i: "i \<noteq> 0" "i < inode_num (sblk s)" "\<forall>n \<in> set ns. fl_ino (fnodes s n) \<noteq> i"
    and s': "s' = upd_fnode q (\<lambda>_. \<lparr>fl_ino = i, nwr = w, nproc = 1, pinode = unat i, fl_next = NULL\<rparr>)
       (upd_fnode (last (flh s # ns)) (\<lambda>n. n\<lparr>fl_next := q\<rparr>) (s\<lparr>kh := h\<rparr>))"
  shows "flist_ok s' (ns @ [q])" and "ftab_of s' (ns @ [q]) = ftab_of s ns @ [(i, w, 1)]"
proof -
  let ?l = "last (flh s # ns)"
  have q: "q \<notin> set ns" "q \<noteq> flh s" using ok h(2,4) by (auto simp: flist_ok_def)
  have "?l \<in> set (flh s # ns)" by (rule last_in_set) simp
  then have ql: "q \<noteq> ?l" using q by auto
  have dist: "distinct (flh s # ns)" using ok flist_ok_head[OF ok] by (simp add: flist_ok_def)
  have lp: "lpath (next_of s) (flh s) ns" using ok by (simp add: flist_ok_def)
  have lp': "lpath (next_of s') (flh s) (ns @ [q])"
    by (rule lpath_snoc[OF lp h(6) _ _ dist]) (use q ql s' in auto)
  have same: "fl_ino (fnodes s' x) = fl_ino (fnodes s x)" "fentry s' x = fentry s x" "node_ok s' x = node_ok s x"
    if "x \<in> set (flh s # ns)" for x
    using that q by (auto simp: s' fentry_def node_ok_def Let_def)
  have new: "fl_ino (fnodes s' q) = i" "fentry s' q = (i, w, 1)" "node_ok s' q"
    using i by (simp_all add: s' fentry_def node_ok_def)
  have st: "flh s' = flh s" "kh s' = h" by (simp_all add: s')
  have "distinct (map (\<lambda>n. fl_ino (fnodes s' n)) (ns @ [q]))"
    using ok i(3) same(1) new(1) by (auto simp: flist_ok_def distinct_map inj_on_def)
  then show "flist_ok s' (ns @ [q])"
    using ok lp' h q same new st by (auto simp: flist_ok_def)
  show "ftab_of s' (ns @ [q]) = ftab_of s ns @ [(i, w, 1)]"
    using same(2) new(2) by (simp add: ftab_of_def)
qed

text \<open>Only the list and the heap change.\<close>

definition flist_frame :: "'d gfs \<Rightarrow> 'd gfs \<Rightarrow> bool" where
  "flist_frame s s' \<longleftrightarrow> s' = s\<lparr>fnodes := fnodes s', kh := kh s'\<rparr>"

lemma flist_frame_upd [simp]:
  "flist_frame s (upd_fnode p f s)" "flist_frame s (upd_fnode p f (s\<lparr>kh := h\<rparr>))"
  "flist_frame s (upd_fnode q g (upd_fnode p f s))"
  "flist_frame s (upd_fnode q g (upd_fnode p f (s\<lparr>kh := h\<rparr>)))"
  "flist_frame s s" "flist_frame s (upd_fnode p f ((upd_fnode q g s)\<lparr>kh := h\<rparr>))"
  by (simp_all add: flist_frame_def upd_fnode_def)

lemma fits_node: "kmalloc_fits sizeof_flist_node"
  by (simp add: kmalloc_fits_def sizeof_flist_node_def)

lemma fnode_upd:
  "(x :: flist_node)\<lparr>fl_next := a, pinode := b, fl_ino := c, nwr := d, nproc := e\<rparr> =
   \<lparr>fl_ino = c, nwr = d, nproc = e, pinode = b, fl_next = a\<rparr>"
  by simp

lemma flist_inc_fnode_spec:
  assumes ok: "flist_ok s ns" and i: "i \<noteq> 0" "i < inode_num (sblk s)"
    and cnt: "\<forall>n \<in> set ns. sint (nproc (fnodes s n)) < 32767"
  shows "(\<exists>p s' ns'. flist_inc_fnode i wr s = Some (p, s') \<and> flist_frame s s' \<and> flist_ok s' ns' \<and>
       p \<in> set ns' \<and> fl_ino (fnodes s' p) = i \<and> ftab_of s' ns' = inc_tab i wr (ftab_of s ns)) \<or>
    flist_inc_fnode i wr s = Some (NULL, GFS_panic s) \<and> kmalloc_g sizeof_flist_node (kh s) = Some (NULL, kh s)"
proof -
  have lp: "lpath (next_of s) (flh s) ns" and hok: "heap_ok (kh s)" using ok by (simp_all add: flist_ok_def)
  have ni: "\<not> inode_num (sblk s) \<le> i" using i by simp
  show ?thesis
  proof (cases "\<forall>n \<in> set ns. fl_ino (fnodes s n) \<noteq> i")
    case True
    let ?l = "last (flh s # ns)"
    have b: "flist_before s i (flh s) = Some ?l" using flist_before_spec[OF lp, of i] by (simp only: if_P[OF True])
    have nx: "next_of s ?l = NULL" by (rule lpath_last[OF lp])
    from hok fits_node show ?thesis
    proof (cases rule: km.alloc_cases)
      case none
      have "(fnodes s)(?l := (fnodes s ?l)\<lparr>fl_next := NULL\<rparr>) = fnodes s"
        using nx by (simp add: next_of_def fun_upd_idem_iff)
      then have "flist_inc_fnode i wr s = Some (NULL, GFS_panic s)"
        using i ni b nx none by (simp add: flist_inc_fnode_def upd_fnode_def del: last.simps)
      then show ?thesis using none by blast
    next
      case (some q h)
      define s' where "s' = upd_fnode q (\<lambda>_. \<lparr>fl_ino = i, nwr = (if wr then 1 else 0), nproc = 1, pinode = unat i, fl_next = NULL\<rparr>)
         (upd_fnode ?l (\<lambda>n. n\<lparr>fl_next := q\<rparr>) (s\<lparr>kh := h\<rparr>))"
      note ap = flist_append[OF ok some(3,4,5,6,7,2) i True s'_def]
      have "flist_inc_fnode i wr s = Some (q, s')"
        using i ni b nx some by (simp add: flist_inc_fnode_def s'_def upd_fnode_def Let_def fnode_upd del: last.simps)
      moreover have "flist_frame s s'" by (simp add: s'_def)
      moreover have "fl_ino (fnodes s' q) = i" by (simp add: s'_def)
      moreover have "inc_tab i wr (ftab_of s ns) = ftab_of s ns @ [(i, if wr then 1 else 0, 1)]"
        using inc_tab_absent[OF ftab_no_ino[OF True]] .
      ultimately show ?thesis using ap by (intro disjI1 exI[of _ q] exI[of _ s'] exI[of _ "ns @ [q]"]) simp
    qed
  next
    case False
    then obtain xs n ys where ns: "ns = xs @ n # ys" and n: "fl_ino (fnodes s n) = i"
      "\<forall>x \<in> set xs. fl_ino (fnodes s x) \<noteq> i" "flist_before s i (flh s) = Some (last (flh s # xs))"
      "next_of s (last (flh s # xs)) = n" "n \<noteq> NULL"
      using flist_before_spec[OF lp, of i, unfolded if_not_P[OF False]] by blast
    let ?f = "\<lambda>n. n\<lparr>nwr := nwr n + (if wr then 1 else 0), nproc := nproc n + 1\<rparr>"
    have "0 < sint (nproc (fnodes s n))" "sint (nproc (fnodes s n)) < 32767"
      using ok cnt ns by (auto simp: flist_ok_def node_ok_def Let_def)
    then have "0 < sint (nproc (?f (fnodes s n)))" by (simp add: sint_add_1)
    note ct = flist_count[OF ok ns, of ?f, simplified, OF this[simplified]]
    have "flist_inc_fnode i wr s = Some (n, upd_fnode n ?f s)"
      using i ni n by (simp add: flist_inc_fnode_def Let_def del: last.simps)
    moreover have "ftab_of s ns = ftab_of s xs @ (i, nwr (fnodes s n), nproc (fnodes s n)) # ftab_of s ys"
      using n(1) by (simp add: ns ftab_of_def fentry_def)
    then have "inc_tab i wr (ftab_of s ns) =
        ftab_of s xs @ (i, nwr (fnodes s n) + (if wr then 1 else 0), nproc (fnodes s n) + 1) # ftab_of s ys"
      using inc_tab_present[OF ftab_no_ino[OF n(2)]] by simp
    ultimately show ?thesis using ct n(1) ns
      by (intro disjI1 exI[of _ n] exI[of _ "upd_fnode n ?f s"] exI[of _ ns]) (simp add: fentry_def)
  qed
qed

subsection \<open>Closing\<close>

lemma flist_remove:
  assumes ok: "flist_ok s ns" and ns: "ns = xs @ n # ys"
    and h: "heap_ok h" "fst ` live h = fst ` live (kh s) - {n}" "heap_area h = heap_area (kh s)"
    and s': "s' = upd_fnode (last (flh s # xs)) (\<lambda>m. m\<lparr>fl_next := next_of s n\<rparr>) ((upd_fnode n f s)\<lparr>kh := h\<rparr>)"
  shows "flist_ok s' (xs @ ys)" and "ftab_of s' (xs @ ys) = ftab_of s xs @ ftab_of s ys"
proof -
  let ?l = "last (flh s # xs)"
  have dist: "distinct (flh s # xs @ n # ys)" using ok flist_ok_head[OF ok] ns by (simp add: flist_ok_def)
  have l: "?l \<in> set (flh s # xs)" by (rule last_in_set) simp
  then have ln: "?l \<noteq> n" using dist by auto
  have lp: "lpath (next_of s) (flh s) (xs @ n # ys)" using ok ns by (simp add: flist_ok_def)
  have lp': "lpath (next_of s') (flh s) (xs @ ys)"
    by (rule lpath_remove[OF lp dist]) (use ln dist s' in auto)
  have same: "fl_ino (fnodes s' x) = fl_ino (fnodes s x)" "fentry s' x = fentry s x" "node_ok s' x = node_ok s x"
    if "x \<noteq> n" for x
    using that ln by (auto simp: s' fentry_def node_ok_def Let_def)
  have nn: "x \<noteq> n" if "x \<in> set (flh s # xs @ ys)" for x using that dist by auto
  have st: "flh s' = flh s" "kh s' = h" by (simp_all add: s')
  have "map (\<lambda>n. fl_ino (fnodes s' n)) (xs @ ys) = map (\<lambda>n. fl_ino (fnodes s n)) (xs @ ys)"
    using same(1) nn by simp
  moreover have "distinct (map (\<lambda>n. fl_ino (fnodes s n)) (xs @ ys))"
    using ok by (auto simp: flist_ok_def ns)
  ultimately have "distinct (map (\<lambda>n. fl_ino (fnodes s' n)) (xs @ ys))" by (simp only:)
  moreover have "set (xs @ ys) \<subseteq> fst ` live h" "distinct (xs @ ys)" "\<forall>x \<in> set (xs @ ys). node_ok s' x"
    "flh s \<noteq> NULL" "flh s \<notin> heap_area h" "fl_ino (fnodes s' (flh s)) = 0"
    using ok h same nn dist by (auto simp: flist_ok_def ns)
  ultimately show "flist_ok s' (xs @ ys)"
    using lp' h(1) unfolding flist_ok_def st by blast
  show "ftab_of s' (xs @ ys) = ftab_of s xs @ ftab_of s ys"
    using same(2) nn by (simp add: ftab_of_def)
qed

lemma sint_minus_1: "0 < sint (b :: u16) \<Longrightarrow> sint (b - 1) = sint b - 1"
  using sint_lt[of b] by (simp add: sint_word_ariths signed_take_bit_int_eq_self)

lemma flist_dec_fnode_spec:
  assumes ok: "flist_ok s ns" and i: "i \<noteq> 0" "i < inode_num (sblk s)"
  shows "\<exists>s' ns'. flist_dec_fnode i cwr s =
      Some (if \<exists>n \<in> set ns. fl_ino (fnodes s n) = i then 0 else 1, s') \<and>
    flist_frame s s' \<and> flist_ok s' ns' \<and> ftab_of s' ns' = dec_tab i cwr (ftab_of s ns) \<and>
    set ns' \<subseteq> set ns \<and> live (kh s') = {r \<in> live (kh s). fst r \<in> set ns \<longrightarrow> fst r \<in> set ns'}"
proof -
  have lp: "lpath (next_of s) (flh s) ns" and hok: "heap_ok (kh s)" using ok by (simp_all add: flist_ok_def)
  have ni: "\<not> inode_num (sblk s) \<le> i" using i by simp
  show ?thesis
  proof (cases "\<forall>n \<in> set ns. fl_ino (fnodes s n) \<noteq> i")
    case True
    then have "flist_before s i (flh s) = Some (last (flh s # ns))"
      using flist_before_spec[OF lp, of i] by (simp only: if_P)
    then have "flist_dec_fnode i cwr s = Some (1, s)"
      using i ni lpath_last[OF lp] by (simp add: flist_dec_fnode_def del: last.simps)
    moreover have "dec_tab i cwr (ftab_of s ns) = ftab_of s ns" by (rule dec_tab_absent[OF ftab_no_ino[OF True]])
    ultimately show ?thesis using ok True by (intro exI[of _ s] exI[of _ ns]) auto
  next
    case False
    then obtain xs n ys where ns: "ns = xs @ n # ys" and n: "fl_ino (fnodes s n) = i"
      "\<forall>x \<in> set xs. fl_ino (fnodes s x) \<noteq> i" "flist_before s i (flh s) = Some (last (flh s # xs))"
      "next_of s (last (flh s # xs)) = n" "n \<noteq> NULL"
      using flist_before_spec[OF lp, of i, unfolded if_not_P[OF False]] by blast
    let ?f = "\<lambda>n. n\<lparr>nwr := nwr n - (if cwr then 1 else 0), nproc := nproc n - 1\<rparr>"
    let ?s2 = "upd_fnode n (\<lambda>n. n\<lparr>nproc := nproc n - 1\<rparr>) (upd_fnode n (\<lambda>n. n\<lparr>nwr := nwr n - (if cwr then 1 else 0)\<rparr>) s)"
    have s2: "?s2 = upd_fnode n ?f s" by (simp add: upd_fnode_def)
    have tab: "ftab_of s ns = ftab_of s xs @ (i, nwr (fnodes s n), nproc (fnodes s n)) # ftab_of s ys"
      using n(1) by (simp add: ns ftab_of_def fentry_def)
    note dt = dec_tab_present[OF ftab_no_ino[OF n(2)], of cwr "nwr (fnodes s n)" "nproc (fnodes s n)" "ftab_of s ys"]
    have ex: "\<exists>n \<in> set ns. fl_ino (fnodes s n) = i" using False by simp
    have run: "flist_dec_fnode i cwr s =
      (if sint (nproc (fnodes s n) - 1) \<le> 0 then do {
         h \<leftarrow> kfree_g n (kh s);
         Some (0, upd_fnode (last (flh s # xs)) (\<lambda>m. m\<lparr>fl_next := next_of s n\<rparr>) ((upd_fnode n ?f s)\<lparr>kh := h\<rparr>))
       } else Some (0, upd_fnode n ?f s))"
      using i ni n by (simp add: flist_dec_fnode_def s2 Let_def next_of_def del: last.simps)
    show ?thesis
    proof (cases "sint (nproc (fnodes s n) - 1) \<le> 0")
      case True
      have "n \<in> fst ` live (kh s)" using ok ns by (auto simp: flist_ok_def)
      with hok obtain h where h: "kfree_g n (kh s) = Some h" "heap_ok h" "live h = {r \<in> live (kh s). fst r \<noteq> n}"
        "heap_area h = heap_area (kh s)" by (rule km.free_drops)
      have hl: "fst ` live h = fst ` live (kh s) - {n}" using h(3) by auto
      note rm = flist_remove[OF ok ns h(2) hl h(4) refl, of ?f]
      have "distinct ns" using ok by (simp add: flist_ok_def)
      then have "live h = {r \<in> live (kh s). fst r \<in> set ns \<longrightarrow> fst r \<in> set (xs @ ys)}" unfolding h(3) ns by auto
      then show ?thesis using True run h(1) rm dt tab ex ns
        by (intro exI[of _ "upd_fnode (last (flh s # xs)) (\<lambda>m. m\<lparr>fl_next := next_of s n\<rparr>) ((upd_fnode n ?f s)\<lparr>kh := h\<rparr>)"]
            exI[of _ "xs @ ys"]) (simp del: last.simps, blast)
    next
      case False
      then have "0 < sint (nproc (?f (fnodes s n)))" by simp
      note ct = flist_count[OF ok ns, of ?f, simplified, OF this[simplified]]
      show ?thesis using False run ct dt tab ex
        by (intro exI[of _ "upd_fnode n ?f s"] exI[of _ ns]) (simp add: fentry_def n(1))
    qed
  qed
qed

subsection \<open>Mounting and searching\<close>

lemma flist_free_all_spec:
  assumes "lpath (next_of s) p ns" and "distinct ns" and "set ns \<subseteq> fst ` live (kh s)" and "heap_ok (kh s)"
  shows "\<exists>h. flist_free_all (next_of s p) s = Some (s\<lparr>kh := h\<rparr>) \<and> heap_ok h \<and>
    heap_area h = heap_area (kh s) \<and> fst ` live h = fst ` live (kh s) - set ns"
  using assms
proof (induction ns arbitrary: p s)
  case Nil
  then show ?case by (intro exI[of _ "kh s"]) (simp add: flist_free_all.simps)
next
  case (Cons n ns)
  then have nx: "next_of s p = n" "n \<noteq> NULL" "lpath (next_of s) n ns" by simp_all
  have "n \<in> fst ` live (kh s)" using Cons(4) by simp
  with Cons(5) obtain h where h: "kfree_g n (kh s) = Some h" "heap_ok h"
    "fst ` live h = fst ` live (kh s) - {n}" "heap_area h = heap_area (kh s)" by (rule km.free_addr)
  have "lpath (next_of (s\<lparr>kh := h\<rparr>)) n ns" using nx(3) by (rule lpath_frame) simp
  moreover have "distinct ns" "set ns \<subseteq> fst ` live (kh (s\<lparr>kh := h\<rparr>))" using Cons(3,4) h(3) by auto
  moreover have "heap_ok (kh (s\<lparr>kh := h\<rparr>))" using h(2) by simp
  ultimately have "\<exists>h'. flist_free_all (next_of (s\<lparr>kh := h\<rparr>) n) (s\<lparr>kh := h\<rparr>) = Some (s\<lparr>kh := h, kh := h'\<rparr>) \<and> heap_ok h' \<and>
      heap_area h' = heap_area (kh (s\<lparr>kh := h\<rparr>)) \<and> fst ` live h' = fst ` live (kh (s\<lparr>kh := h\<rparr>)) - set ns" by (rule Cons(1))
  then obtain h' where h': "flist_free_all (next_of (s\<lparr>kh := h\<rparr>) n) (s\<lparr>kh := h\<rparr>) = Some (s\<lparr>kh := h, kh := h'\<rparr>)"
    "heap_ok h'" "heap_area h' = heap_area h" "fst ` live h' = fst ` live h - set ns" by auto
  have "flist_free_all (next_of s p) s = Some (s\<lparr>kh := h'\<rparr>)"
    using nx h h'(1) by (subst flist_free_all.simps) simp
  then show ?case using h h' by (intro exI[of _ h']) auto
qed

lemma flist_init_spec:
  assumes "flist_ok s ns"
  shows "\<exists>s'. flist_init s = Some s' \<and> flist_frame s s' \<and> flist_ok s' [] \<and>
    fst ` live (kh s') = fst ` live (kh s) - set ns \<and> heap_area (kh s') = heap_area (kh s)"
proof -
  obtain h where h: "flist_free_all (next_of s (flh s)) s = Some (s\<lparr>kh := h\<rparr>)" "heap_ok h"
    "heap_area h = heap_area (kh s)" "fst ` live h = fst ` live (kh s) - set ns"
    using flist_free_all_spec[of s "flh s" ns] assms by (auto simp: flist_ok_def)
  let ?s' = "upd_fnode (flh s) (\<lambda>n. n\<lparr>fl_next := NULL, pinode := 0, fl_ino := 0\<rparr>) (s\<lparr>kh := h\<rparr>)"
  have "flist_init s = Some ?s'" using h by (simp add: flist_init_def upd_fnode_def)
  moreover have "flist_ok ?s' []" using assms h by (simp add: flist_ok_def)
  ultimately show ?thesis using h by (intro exI[of _ ?s']) simp
qed

lemma flist_search_spec:
  assumes ok: "flist_ok s ns" and i: "i \<noteq> 0"
  shows "\<exists>p. flist_search i s = Some p \<and>
    (if i \<in> fst ` set (ftab_of s ns) then p \<in> set ns \<and> p \<noteq> NULL \<and> fl_ino (fnodes s p) = i else p = NULL)"
proof -
  let ?P = "\<lambda>n. fl_ino (fnodes s n) = i"
  have "flist_search i s = Some (case find ?P (flh s # ns) of None \<Rightarrow> NULL | Some n \<Rightarrow> n)"
    using flist_search_loop_spec[of s "flh s" ns i] ok by (simp add: flist_search_def flist_ok_def)
  moreover have "\<not> ?P (flh s)" using ok i by (simp add: flist_ok_def)
  moreover have nz: "NULL \<notin> set ns"
    using ok km.live_pool[of "kh s"] km.pool_nonnull[of "kh s"] unfolding flist_ok_def by blast
  moreover have "i \<in> fst ` set (ftab_of s ns) \<longleftrightarrow> (\<exists>n \<in> set ns. ?P n)"
    by (auto simp: ftab_of_def fentry_def image_image)
  moreover have "find ?P ns = None \<longleftrightarrow> \<not> (\<exists>n \<in> set ns. ?P n)" by (auto simp: find_None_iff)
  moreover have "n \<in> set ns \<and> ?P n \<and> n \<noteq> NULL" if f: "find ?P ns = Some n" for n
  proof -
    have "n \<in> set ns" "?P n" using f by (auto simp: find_Some_iff)
    then show ?thesis using nz by (metis (full_types))
  qed
  ultimately show ?thesis by (cases "find ?P ns") simp_all
qed

lemma demo_flist_ok: "flist_ok demo_fs []"
  using heap_reach_ok[OF demo_heap_reach]
  by (simp add: flist_ok_def next_of_def heap_area_def demo_kallocbuf)

section \<open>Properties\<close>

text \<open>
  Opening refines a table of reference counts. For a valid inode other than the root, unless no
  memory is left (then nothing changes but a report), the list afterwards holds the table with the
  holders of this inode increased by one (and the writers, when opened for writing), a new row being
  added at the end for an inode not yet open; the pointer returned is its node.
\<close>

theorem flist_inc_refines:
  assumes "flist_ok s ns" and "i \<noteq> 0" and "i < inode_num (sblk s)"
    and "\<forall>n \<in> set ns. sint (nproc (fnodes s n)) < 32767"
  shows "(\<exists>p s' ns'. flist_inc_fnode i wr s = Some (p, s') \<and> flist_frame s s' \<and> flist_ok s' ns' \<and>
       p \<in> set ns' \<and> fl_ino (fnodes s' p) = i \<and> ftab_of s' ns' = inc_tab i wr (ftab_of s ns)) \<or>
    flist_inc_fnode i wr s = Some (NULL, GFS_panic s) \<and> kmalloc_g sizeof_flist_node (kh s) = Some (NULL, kh s)"
  by (rule flist_inc_fnode_spec[OF assms])

lemma demo_node_fits: "kmalloc_g sizeof_flist_node demo_heap \<noteq> Some (NULL, demo_heap)"
proof
  assume a: "kmalloc_g sizeof_flist_node demo_heap = Some (NULL, demo_heap)"
  have ok: "heap_ok demo_heap" by (rule heap_reach_ok[OF demo_heap_reach])
  have "unat (kmalloc_size sizeof_flist_node) \<le> 1000"
    by (simp add: sizeof_flist_node_def kmalloc_size_def ROUND_def sizeof_header_def ADDR_ALIGN_def)
  then show False
    using kmalloc_g_correct[OF ok, of sizeof_flist_node] heap_ok_empty[OF ok demo_heap_empty] a
    by (auto simp: sizeof_flist_node_def demo_heap_empty KSL_def)
qed

theorem flist_inc_refines_witness:
  "\<exists>p s' ns'. flist_inc_fnode 1 True demo_fs = Some (p, s') \<and> flist_ok s' ns' \<and> ftab_of s' ns' = [(1, 1, 1)]"
  using flist_inc_refines[OF demo_flist_ok, of 1 True] demo_node_fits by (auto simp: ftab_of_Nil)

text \<open>
  C9: Closing refines the same table: the holders of the inode go down by one, the row is dropped when nobody
  holds it any more, and closing an inode that is not open answers 1 and changes nothing in the table. The regions of the
  kernel heap that are handed out afterwards are those before except the nodes that left the list, so the node of a dropped row
  is given back (nothing leaks) and no other region is.
\<close>

theorem flist_dec_refines:
  assumes "flist_ok s ns" and "i \<noteq> 0" and "i < inode_num (sblk s)"
  shows "\<exists>s' ns'. flist_dec_fnode i cwr s =
      Some (if \<exists>n \<in> set ns. fl_ino (fnodes s n) = i then 0 else 1, s') \<and>
    flist_frame s s' \<and> flist_ok s' ns' \<and> ftab_of s' ns' = dec_tab i cwr (ftab_of s ns) \<and>
    set ns' \<subseteq> set ns \<and> live (kh s') = {r \<in> live (kh s). fst r \<in> set ns \<longrightarrow> fst r \<in> set ns'}"
  by (rule flist_dec_fnode_spec[OF assms])

theorem flist_dec_refines_witness:
  "\<exists>p s ns s' ns'. flist_inc_fnode 1 True demo_fs = Some (p, s) \<and> flist_dec_fnode 1 True s = Some (0, s') \<and>
     flist_ok s ns \<and> flist_ok s' ns' \<and> ftab_of s' ns' = [] \<and> p \<in> fst ` live (kh s) \<and> p \<notin> fst ` live (kh s')"
proof -
  obtain p s ns where s: "flist_inc_fnode 1 True demo_fs = Some (p, s)" "flist_ok s ns" "ftab_of s ns = [(1, 1, 1)]"
    "p \<in> set ns" "fl_ino (fnodes s p) = 1" "flist_frame demo_fs s"
    using flist_inc_fnode_spec[OF demo_flist_ok, of 1 True] demo_node_fits by (auto simp: ftab_of_Nil)
  have "sblk s = sblk demo_fs" by (subst s(6)[unfolded flist_frame_def]) simp
  then have "(1::u32) < inode_num (sblk s)" by simp
  then obtain s' ns' where s': "flist_dec_fnode 1 True s = Some (0, s')" "flist_ok s' ns'" "ftab_of s' ns' = []"
    "live (kh s') = {r \<in> live (kh s). fst r \<in> set ns \<longrightarrow> fst r \<in> set ns'}"
    using flist_dec_refines[OF s(2), of 1 True] s(3,4,5) by (fastforce split: if_splits)
  have "ns' = []" using s'(3) by (simp add: ftab_of_def)
  then have "p \<notin> fst ` live (kh s')" using s'(4) s(4) by auto
  moreover have "p \<in> fst ` live (kh s)" using s(2,4) by (auto simp: flist_ok_def)
  ultimately show ?thesis using s(1,2) s'(1-3) by blast
qed

end
