(* ===== verification/GfsMeta.thy ===== *)
theory GfsMeta
  imports GfsFlist
begin

text \<open>
  Metadata of the file system (\<^verbatim>\<open>kernel/fs/gfs0.c\<close>): the inode and block bitmaps, the inode table, the
  superblock, making and mounting a file system.

  The bitmaps and the inode table live in memory (loaded when the file system is mounted) and every
  change is written through to the sector it is in. A bitmap is read most significant bit first.
  Bytes the C code leaves uninitialised on its stack are arguments.

  The lemmas relate the loops to \<open>grab\<close>, the allocation of the first clear positions of a bit list,
  show that allocation and release change exactly the bits they report, that \<open>meta_ok\<close> (memory and
  card agree) survives, and that a kernel with any other memory that loads the metadata from the same card gets them back.
\<close>

section \<open>Bitmaps\<close>

definition bm_mask :: "nat \<Rightarrow> u64" where
  "bm_mask j = drop_bit j (push_bit 63 1)"

function alloc_bits :: "nat \<Rightarrow> u32 \<Rightarrow> nat \<Rightarrow> u64 \<Rightarrow> u32 list \<Rightarrow> u64 \<times> u32 list" where
  "alloc_bits n base j w iarr =
     (if j < 64 \<and> length iarr < n then
        (let mask = bm_mask j in
         if w AND mask = 0 then alloc_bits n base (j + 1) (w OR mask) (iarr @ [base + of_nat j])
         else alloc_bits n base (j + 1) w iarr)
      else (w, iarr))"
  by pat_completeness auto
termination by (relation "measure (\<lambda>(n, base, j, w, iarr). 64 - j)") auto

function alloc_sector :: "nat \<Rightarrow> u32 \<Rightarrow> nat \<Rightarrow> u64 list \<Rightarrow> u32 list \<Rightarrow> bool \<Rightarrow> u64 list \<times> u32 list \<times> bool" where
  "alloc_sector n base i sector_buf iarr flag_modified =
     (if i < 64 \<and> length iarr < n then
        (if sector_buf ! i \<noteq> NOT 0 then
           (let (w, iarr') = alloc_bits n (base + of_nat i * 64) 0 (sector_buf ! i) iarr
            in alloc_sector n base (i + 1) (sector_buf[i := w]) iarr' True)
         else alloc_sector n base (i + 1) sector_buf iarr flag_modified)
      else (sector_buf, iarr, flag_modified))"
  by pat_completeness auto
termination by (relation "measure (\<lambda>(n, base, i, sector_buf, iarr, f). 64 - i)") auto

declare alloc_bits.simps [simp del] alloc_sector.simps [simp del]

function GFS_alloc_loop :: "nat \<Rightarrow> u32 \<Rightarrow> u32 \<Rightarrow> u32 \<Rightarrow> u32 list \<Rightarrow> 'd gfs \<Rightarrow> (u32 list \<times> 'd gfs) option" where
  "GFS_alloc_loop n start_sec end_sec sidx iarr s =
     (if sidx < end_sec \<and> length iarr < n then
        (let (ws, iarr', flag_modified) =
               alloc_sector n ((sidx - start_sec) * of_nat SECTOR_SIZE * 8) 0 (bitmap s (unat sidx)) iarr False;
             s1 = s\<lparr>bitmap := (bitmap s)(unat sidx := ws)\<rparr>
         in if flag_modified then do {
              s2 \<leftarrow> GFS_write_sec sidx 1 (sector_of_words ws) s1;
              GFS_alloc_loop n start_sec end_sec (sidx + 1) iarr' s2
            } else GFS_alloc_loop n start_sec end_sec (sidx + 1) iarr' s1)
      else Some (iarr, s))"
  by pat_completeness auto
termination
  by (relation "measure (\<lambda>(n, st, e, sidx, iarr, s). unat e - unat sidx)") (auto intro: word_succ_measure)

declare GFS_alloc_loop.simps [simp del]

definition GFS_alloc_in_bitmap :: "u32 \<Rightarrow> u32 \<Rightarrow> u32 \<Rightarrow> 'd gfs \<Rightarrow> (u32 list \<times> 'd gfs) option" where
  "GFS_alloc_in_bitmap n start_sec end_sec s = GFS_alloc_loop (unat n) start_sec end_sec start_sec [] s"

definition GFS_free_in_bitmap :: "u32 \<Rightarrow> u32 \<Rightarrow> u32 \<Rightarrow> 'd gfs \<Rightarrow> (int \<times> 'd gfs) option" where
  "GFS_free_in_bitmap bidx start_sec end_sec s =
     (if end_sec \<le> start_sec \<or> bidx \<ge> (end_sec - start_sec) * of_nat SECTOR_SIZE * 8 then Some (1, s)
      else do {
        let sidx = start_sec + bidx div (of_nat SECTOR_SIZE * 8);
        let bidx = bidx mod (of_nat SECTOR_SIZE * 8);
        let mask = bm_mask (unat (bidx mod 64));
        let ws = bitmap s (unat sidx);
        ws' \<leftarrow> upd_chk ws (unat (bidx div 64)) (ws ! unat (bidx div 64) AND NOT mask);
        s' \<leftarrow> GFS_write_sec sidx 1 (sector_of_words ws') (s\<lparr>bitmap := (bitmap s)(unat sidx := ws')\<rparr>);
        Some (0, s')
      })"

lemma and_pred_less: "l \<noteq> 0 \<Longrightarrow> unat (l AND (l - 1)) < unat l" for l :: u64
proof -
  assume l: "l \<noteq> 0"
  have "l AND (l - 1) \<le> l - 1" by (rule word_and_le1)
  then have "unat (l AND (l - 1)) \<le> unat (l - 1)" by (simp add: word_le_nat_alt)
  also have "\<dots> = unat l - 1" using l by (simp add: unat_minus_one)
  also have "\<dots> < unat l" using l by (simp add: unat_gt_0)
  finally show ?thesis .
qed

function count_ones :: "u64 \<Rightarrow> u32 \<Rightarrow> u32" where
  "count_ones l o_ymr = (if l > 0 then count_ones (l AND (l - 1)) (o_ymr + 1) else o_ymr)"
  by pat_completeness auto
termination
  by (relation "measure (\<lambda>(l, o_ymr). unat l)") (auto intro: and_pred_less)

declare count_ones.simps [simp del]

fun count_sector :: "u64 list \<Rightarrow> u32 \<Rightarrow> u32" where
  "count_sector [] o_ymr = o_ymr"
| "count_sector (l # ls) o_ymr = count_sector ls (count_ones l o_ymr)"

function GFS_count_loop :: "u32 \<Rightarrow> u32 \<Rightarrow> u32 \<Rightarrow> 'd gfs \<Rightarrow> u32" where
  "GFS_count_loop end_sec sidx o_ymr s =
     (if sidx < end_sec
      then GFS_count_loop end_sec (sidx + 1) (count_sector (take 64 (bitmap s (unat sidx))) o_ymr) s
      else o_ymr)"
  by pat_completeness auto
termination
  by (relation "measure (\<lambda>(e, sidx, o_ymr, s). unat e - unat sidx)") (auto intro: word_succ_measure)

declare GFS_count_loop.simps [simp del]

definition GFS_count_in_bitmap :: "u32 \<Rightarrow> u32 \<Rightarrow> 'd gfs \<Rightarrow> u32" where
  "GFS_count_in_bitmap start_sec end_sec s = GFS_count_loop end_sec start_sec 0 s"

section \<open>Inodes\<close>

definition lbytes2sectors :: "u32 \<Rightarrow> u32" where
  "lbytes2sectors lbytes = lbytes div of_nat SECTOR_SIZE"

definition GFS_read_inode :: "u32 \<Rightarrow> 'd gfs \<Rightarrow> (int \<times> GFS_inode option) option" where
  "GFS_read_inode i s =
     (if i \<ge> inode_num (sblk s) then Some (-1, None)
      else do { x \<leftarrow> nth_chk (gfsc_inodes s) (unat i); Some (0, Some x) })"

text \<open>The sector of the inode table in memory that holds inode \<open>i\<close>.\<close>

definition inode_sector :: "GFS_inode list \<Rightarrow> nat \<Rightarrow> u8 list" where
  "inode_sector ins i = concat (map bytes_of_inode (take 8 (drop (8 * (i div 8)) ins)))"

definition GFS_write_inode :: "u32 \<Rightarrow> GFS_inode \<Rightarrow> 'd gfs \<Rightarrow> (int \<times> 'd gfs) option" where
  "GFS_write_inode i x s =
     (if i \<ge> inode_num (sblk s) then Some (-1, s)
      else do {
        ins \<leftarrow> upd_chk (gfsc_inodes s) (unat i) x;
        let s1 = s\<lparr>gfsc_inodes := ins\<rparr>;
        let sidx = inode_loc (sblk s1) + lbytes2sectors (i * 64);
        s2 \<leftarrow> GFS_write_sec sidx 1 (inode_sector ins (unat i)) s1;
        Some (0, s2)
      })"

section \<open>Making and mounting\<close>

definition GFS_Magic :: cbuf where
  "GFS_Magic = ''Z53/4 Beijingxi-Kunming'' @ [NUL]"

definition superblock_check :: "u32 \<Rightarrow> GFS_superblock \<Rightarrow> int" where
  "superblock_check base psb =
     (if (inode_loc psb - block_bitmap_loc psb) * of_nat SECTOR_SIZE * 8 * of_nat BLOCK_SIZE \<noteq> GFS_size psb then 1
      else if (block_bitmap_loc psb - inode_bitmap_loc psb) * of_nat SECTOR_SIZE * 8 \<noteq> inode_num psb then 2
      else if ucast ((data_loc psb - inode_loc psb) * of_nat SECTOR_SIZE) \<noteq> ucast (inode_num psb) * (64 :: u64) then 3
      else if (base + data_loc psb) AND (SEC_PER_BLOCK - 1) \<noteq> 0 then 4
      else 0)"

definition GFS_check :: "'d gfs \<Rightarrow> (int \<times> 'd gfs) option" where
  "GFS_check s = do {
     buf \<leftarrow> GFS_read_sec 0 1 s;
     d \<leftarrow> strcmp (map char_of_u8 buf) 0 GFS_Magic 0;
     if d \<noteq> 0 then Some (-1, s)
     else
       (let psb = superblock_of_bytes buf
        in Some (superblock_check (GFS_base_sec s) psb, s\<lparr>sblk := psb\<rparr>))
   }"

definition GFS_mount :: "(nat \<Rightarrow> u8 list) \<Rightarrow> 'd gfs \<Rightarrow> 'd gfs option" where
  "GFS_mount junk s = do {
     d \<leftarrow> strcmp (map char_of_u8 (bytes_of_superblock (sblk s))) 0 GFS_Magic 0;
     if d \<noteq> 0 then None
     else do {
       s1 \<leftarrow> GFS_cache_init junk s;
       flist_init s1
     }
   }"

definition new_superblock :: GFS_superblock where
  "new_superblock =
     \<lparr>GFS_magic = map u8_of_char GFS_Magic, GFS_size = GFS_SIZE, inode_num = NINODE,
      inode_bitmap_loc = INODE_BITMAP_LOC, block_bitmap_loc = BLOCK_BITMAP_LOC, inode_loc = INODE_LOC,
      data_loc = DATA_LOC\<rparr>"

function GFS_clear_loop :: "u32 \<Rightarrow> u8 list \<Rightarrow> 'd gfs \<Rightarrow> 'd gfs option" where
  "GFS_clear_loop sidx buf s =
     (if sidx < INODE_LOC then do {
        s' \<leftarrow> GFS_write_sec sidx 1 buf s;
        GFS_clear_loop (sidx + 1) buf s'
      } else Some s)"
  by pat_completeness auto
termination
  by (relation "measure (\<lambda>(sidx, buf, s). unat INODE_LOC - unat sidx)") (auto intro: word_succ_measure)

declare GFS_clear_loop.simps [simp del]

text \<open>The loop that writes the remaining sectors of the root directory's block.\<close>

fun root_tail_loop :: "nat \<Rightarrow> u32 \<Rightarrow> u8 list \<Rightarrow> 'd gfs \<Rightarrow> 'd gfs option" where
  "root_tail_loop 0 sec buf s = Some s"
| "root_tail_loop (Suc k) sec buf s = do {
     s' \<leftarrow> GFS_write_sec sec 1 buf s;
     root_tail_loop k (sec + 1) buf s'
   }"

definition name_buf :: "string \<Rightarrow> cbuf" where
  "name_buf nm = nm @ replicate (60 - length nm) NUL"

definition root_dentries :: "u32 \<Rightarrow> u32 \<Rightarrow> GFS_dentry list" where
  "root_dentries a b =
     [\<lparr>fname = name_buf ''.'', ino = a\<rparr>, \<lparr>fname = name_buf ''..'', ino = b\<rparr>] @
     replicate 6 \<lparr>fname = name_buf '''', ino = DENTRY_INVALID_INO\<rparr>"

text \<open>\<open>gsb\<close> and \<open>gino\<close> are the stack contents behind \<^verbatim>\<open>superblock_buf\<close> and \<^verbatim>\<open>rdinode\<close>.\<close>

definition GFS_init :: "(nat \<Rightarrow> u8 list) \<Rightarrow> u8 list \<Rightarrow> GFS_inode \<Rightarrow> 'd gfs \<Rightarrow> (int \<times> 'd gfs) option" where
  "GFS_init junk gsb gino s =
     (if next_of s (flh s) \<noteq> NULL then Some (1, s)
      else do {
        let psb = new_superblock;
        s1 \<leftarrow> GFS_write_sec 0 1 (bytes_of_superblock psb @ drop 48 gsb) s;
        let s2 = s1\<lparr>sblk := psb\<rparr>;
        s3 \<leftarrow> GFS_clear_loop INODE_BITMAP_LOC (replicate 512 0) s2;
        s4 \<leftarrow> GFS_mount junk s3;
        (ia, s5) \<leftarrow> GFS_alloc_in_bitmap 1 (inode_bitmap_loc (sblk s4)) (block_bitmap_loc (sblk s4)) s4;
        if ia \<noteq> [0] then None
        else do {
          (ba, s6) \<leftarrow> GFS_alloc_in_bitmap 1 (block_bitmap_loc (sblk s5)) (inode_loc (sblk s5)) s5;
          if length ba \<noteq> 1 then None
          else do {
            let rdbidx = hd ba;
            let sec = data_loc (sblk s6) + rdbidx * SEC_PER_BLOCK;
            s7 \<leftarrow> GFS_write_sec sec 1 (block_of_dentries (root_dentries 0 0)) s6;
            s8 \<leftarrow> root_tail_loop 7 (sec + 1)
                   (block_of_dentries (root_dentries DENTRY_INVALID_INO DENTRY_INVALID_INO)) s7;
            let rdinode = gino\<lparr>nlink := 1, isize := 2, itype := IT_DIR,
                  dptr := (rdbidx + GFS_DATALOC_BLOCK s8) # replicate 9 INODE_INVALID_PTR,
                  idptr := INODE_INVALID_PTR, diptr := INODE_INVALID_PTR\<rparr>;
            (_, s9) \<leftarrow> GFS_write_inode 0 rdinode s8;
            Some (0, s9)
          }
        }
      })"

definition do_mkfs :: "(nat \<Rightarrow> u8 list) \<Rightarrow> u8 list \<Rightarrow> GFS_inode \<Rightarrow> bool \<Rightarrow> 'd gfs \<Rightarrow> (int \<times> 'd gfs) option" where
  "do_mkfs junk gsb gino force s = do {
     (crt, s1) \<leftarrow> (if force then Some (-1, s) else GFS_check s);
     if force \<or> crt < 0 then do {
       (r, s2) \<leftarrow> GFS_init junk gsb gino s1;
       Some (if r \<noteq> 0 then -2 else 0, s2)
     }
     else if crt = 0 then Some (-1, s1) else Some (crt, s1)
   }"

text \<open>\<open>do_fsinfo\<close> prints; the numbers it prints for a valid file system are the last component.\<close>

definition do_fsinfo :: "'d gfs \<Rightarrow> (int \<times> 'd gfs \<times> (u32 \<times> u32) option) option" where
  "do_fsinfo s = do {
     (crt, s1) \<leftarrow> GFS_check s;
     if crt = 0 then
       (let sb = sblk s1;
            nui = GFS_count_in_bitmap (inode_bitmap_loc sb) (block_bitmap_loc sb) s1;
            nub = GFS_count_in_bitmap (block_bitmap_loc sb) (inode_loc sb) s1
        in Some (crt, s1, Some (nui, nub)))
     else Some (crt, s1, None)
   }"

section \<open>Bit lists\<close>

text \<open>
  The specification of allocation: mark the first \<open>n\<close> clear positions and report them, counting
  from \<open>k\<close>.
\<close>

fun grab :: "nat \<Rightarrow> nat \<Rightarrow> bool list \<Rightarrow> nat list \<times> bool list" where
  "grab n k [] = ([], [])"
| "grab n k (b # bs) =
     (if 0 < n \<and> \<not> b then (let (is, cs) = grab (n - 1) (k + 1) bs in (k # is, True # cs))
      else (let (is, cs) = grab n (k + 1) bs in (is, b # cs)))"

definition bits_of_word :: "u64 \<Rightarrow> bool list" where
  "bits_of_word w = map (\<lambda>j. bit w (63 - j)) [0..<64]"

definition bits :: "u64 list \<Rightarrow> bool list" where
  "bits ws = concat (map bits_of_word ws)"

definition sec_bits :: "(nat \<Rightarrow> u64 list) \<Rightarrow> nat \<Rightarrow> nat \<Rightarrow> bool list" where
  "sec_bits bm a b = concat (map (\<lambda>k. bits (bm k)) [a..<b])"

lemma grab_0 [simp]: "grab 0 k bs = ([], bs)"
  by (induction bs arbitrary: k) auto

lemma grab_full [simp]: "grab n k (replicate m True) = ([], replicate m True)"
  by (induction m arbitrary: k) auto

lemma grab_append:
  "grab n k (xs @ ys) =
     (let (is, cs) = grab n k xs; (js, ds) = grab (n - length is) (k + length xs) ys in (is @ js, cs @ ds))"
  by (induction xs arbitrary: n k) (auto simp: Let_def split: prod.splits)

lemma grab_shift: "grab n (c + k) bs = (map ((+) c) (fst (grab n k bs)), snd (grab n k bs))"
proof (induction bs arbitrary: n k)
  case (Cons b bs)
  have "grab n (c + k + 1) bs = (map ((+) c) (fst (grab n (k + 1) bs)), snd (grab n (k + 1) bs))" for n
    using Cons[of n "k + 1"] by (simp add: add.assoc)
  then show ?case by (auto simp: Let_def split: prod.splits)
qed simp

lemma grab_length: "length (fst (grab n k bs)) \<le> n" "length (snd (grab n k bs)) = length bs"
  by (induction n k bs rule: grab.induct) (auto simp: Let_def split: prod.splits)

text \<open>The positions are the first \<open>n\<close> clear ones, in order, and exactly they get set.\<close>

lemma grab_fst: "fst (grab n k bs) = take n (map ((+) k) (filter (\<lambda>i. \<not> bs ! i) [0..<length bs]))"
proof (induction n k bs rule: grab.induct)
  case (2 n k b bs)
  let ?f = "\<lambda>bs. filter (\<lambda>i. \<not> bs ! i) [0..<length bs]"
  have sh: "map ((+) k) (?f (b # bs)) = (if b then [] else [k]) @ map (\<lambda>a. Suc (k + a)) (?f bs)"
    by (simp add: upt_conv_Cons map_Suc_upt[symmetric] filter_map comp_def del: upt_Suc)
  show ?case
  proof (cases "0 < n \<and> \<not> b")
    case True
    then show ?thesis using 2(1) sh by (cases n) (auto simp: split_beta simp del: upt_Suc)
  next
    case False
    then show ?thesis using 2(2) sh by (auto simp: split_beta simp del: upt_Suc)
  qed
qed simp

lemma grab_snd:
  "i < length bs \<Longrightarrow> snd (grab n k bs) ! i \<longleftrightarrow> bs ! i \<or> k + i \<in> set (fst (grab n k bs))"
proof (induction n k bs arbitrary: i rule: grab.induct)
  case (2 n k b bs)
  have ge: "x \<in> set (fst (grab m (Suc k) bs)) \<Longrightarrow> k < x" for x m
    unfolding grab_fst by (auto dest!: in_set_takeD)
  show ?case
  proof (cases "0 < n \<and> \<not> b")
    case True
    then show ?thesis using 2(1)[OF True, of "i - 1"] 2(3) by (cases i) (auto simp: split_beta)
  next
    case False
    then show ?thesis using 2(2)[OF False, of "i - 1"] 2(3) ge[of k n] by (cases i) (auto simp: split_beta)
  qed
qed simp

subsection \<open>Words\<close>

lemma length_bits_of_word [simp]: "length (bits_of_word w) = 64"
  by (simp add: bits_of_word_def)

lemma length_bits [simp]: "length (bits ws) = 64 * length ws"
  by (simp add: bits_def length_concat_uniform[of _ bits_of_word 64])

lemma nth_bits_of_word [simp]: "j < 64 \<Longrightarrow> bits_of_word w ! j = bit w (63 - j)"
  by (simp add: bits_of_word_def)

lemma bit_mask_j: "j < 64 \<Longrightarrow> bit (bm_mask j) m \<longleftrightarrow> m = 63 - j"
  unfolding bm_mask_def push_bit_of_1 bit_drop_bit_eq comp_def bit_exp_iff by auto

lemma and_mask_j:
  assumes j: "j < 64"
  shows "w AND bm_mask j = 0 \<longleftrightarrow> \<not> bit (w :: u64) (63 - j)"
proof
  assume "w AND bm_mask j = 0"
  then have "\<not> bit (w AND bm_mask j) (63 - j)" by simp
  then show "\<not> bit w (63 - j)" by (simp add: bit_and_iff bit_mask_j[OF j])
next
  assume "\<not> bit w (63 - j)"
  then show "w AND bm_mask j = 0" by - (rule bit_word_eqI, auto simp: bit_and_iff bit_mask_j[OF j])
qed

lemma bits_of_word_set: "j < 64 \<Longrightarrow> bits_of_word (w OR bm_mask j) = (bits_of_word w)[j := True]"
  by (rule nth_equalityI) (auto simp: nth_list_update bit_or_iff bit_mask_j)

lemma bits_of_word_clear:
  "j < 64 \<Longrightarrow> bits_of_word (w AND NOT (bm_mask j)) = (bits_of_word w)[j := False]"
  by (rule nth_equalityI) (auto simp: nth_list_update bit_and_iff bit_not_iff bit_mask_j)

lemma bits_of_word_full [simp]: "bits_of_word (- 1) = replicate 64 True"
  by (rule nth_equalityI) (auto simp: bit_simps)

lemma alloc_bits_spec:
  assumes "j \<le> 64" and "length iarr \<le> n"
  shows "\<exists>w'. alloc_bits n base j w iarr =
      (w', iarr @ map (\<lambda>k. base + of_nat k) (fst (grab (n - length iarr) j (drop j (bits_of_word w))))) \<and>
    bits_of_word w' = take j (bits_of_word w) @ snd (grab (n - length iarr) j (drop j (bits_of_word w)))"
  using assms
proof (induction n base j w iarr rule: alloc_bits.induct)
  case (1 n base j w iarr)
  show ?case
  proof (cases "j < 64 \<and> length iarr < n")
    case False
    then have "alloc_bits n base j w iarr = (w, iarr)"
      by (subst alloc_bits.simps) (simp only: if_not_P[OF False] if_False)
    moreover have "drop j (bits_of_word w) = [] \<or> n - length iarr = 0" using False by auto
    ultimately show ?thesis by auto
  next
    case True
    let ?m = "bm_mask j"
    have d: "drop j (bits_of_word w) = bit w (63 - j) # drop (Suc j) (bits_of_word w)"
      using True by (simp add: Cons_nth_drop_Suc[symmetric])
    have t: "take (Suc j) (bits_of_word v) = take j (bits_of_word v) @ [bit v (63 - j)]" for v
      using True by (simp add: take_Suc_conv_app_nth)
    show ?thesis
    proof (cases "bit w (63 - j)")
      case b: True
      have st: "alloc_bits n base j w iarr = alloc_bits n base (j + 1) w iarr"
        using True b and_mask_j[of j w] by (subst alloc_bits.simps) (simp add: Let_def)
      show ?thesis
        using 1(2)[OF True refl] True b 1(4) and_mask_j[of j w] by (simp add: st d t split_beta)
    next
      case b: False
      let ?w = "w OR ?m"
      have st: "alloc_bits n base j w iarr = alloc_bits n base (j + 1) ?w (iarr @ [base + of_nat j])"
        using True b and_mask_j[of j w] by (subst alloc_bits.simps) (simp add: Let_def)
      have bw: "bits_of_word ?w = (bits_of_word w)[j := True]" using True by (simp add: bits_of_word_set)
      then have "drop (Suc j) (bits_of_word ?w) = drop (Suc j) (bits_of_word w)"
        "take (Suc j) (bits_of_word ?w) = take j (bits_of_word w) @ [True]"
        using True by (simp_all add: take_Suc_conv_app_nth)
      then show ?thesis
        using 1(1)[OF True refl] True b and_mask_j[of j w] by (simp add: st d split_beta)
    qed
  qed
qed

subsection \<open>Sectors\<close>

lemma bits_Nil [simp]: "bits [] = []"
  by (simp add: bits_def)

lemma bits_Cons: "bits (w # ws) = bits_of_word w @ bits ws"
  by (simp add: bits_def)

lemma bits_append: "bits (xs @ ys) = bits xs @ bits ys"
  by (simp add: bits_def)

lemma bits_take: "bits (take i ws) = take (64 * i) (bits ws)"
proof (induction ws arbitrary: i)
  case (Cons w ws)
  then show ?case by (cases i) (simp_all add: bits_Cons)
qed (simp add: bits_def)

lemma bits_drop: "bits (drop i ws) = drop (64 * i) (bits ws)"
proof (induction ws arbitrary: i)
  case (Cons w ws)
  then show ?case by (cases i) (simp_all add: bits_Cons)
qed (simp add: bits_def)

lemma alloc_sector_flag: "alloc_sector n base i ws iarr True = (ws', iarr', f') \<Longrightarrow> f'"
proof (induction n base i ws iarr True arbitrary: ws' iarr' f' rule: alloc_sector.induct)
  case (1 n base i ws iarr)
  show ?case
  proof (cases "i < 64 \<and> length iarr < n")
    case False
    then have "alloc_sector n base i ws iarr True = (ws, iarr, True)"
      by (subst alloc_sector.simps) (simp only: if_not_P[OF False] if_False)
    then show ?thesis using 1(3) by simp
  next
    case True
    show ?thesis
    proof (cases "ws ! i = NOT 0")
      case full: True
      then have st: "alloc_sector n base i ws iarr True = alloc_sector n base (i + 1) ws iarr True"
        using True by (subst alloc_sector.simps) simp
      show ?thesis by (rule 1(2)[OF True]) (use full 1(3) in \<open>simp_all only: st not_not\<close>)
    next
      case False
      obtain w ia where w: "alloc_bits n (base + of_nat i * 64) 0 (ws ! i) iarr = (w, ia)" by fastforce
      then have st: "alloc_sector n base i ws iarr True = alloc_sector n base (i + 1) (ws[i := w]) ia True"
        using True False by (subst alloc_sector.simps) simp
      show ?thesis by (rule 1(1)[OF True False w[symmetric] refl]) (use 1(3) in \<open>simp_all only: st\<close>)
    qed
  qed
qed

lemma alloc_sector_spec:
  assumes "i \<le> 64" and "length iarr \<le> n" and "length ws = 64"
  shows "\<exists>ws' f'. alloc_sector n base i ws iarr f =
      (ws', iarr @ map (\<lambda>k. base + of_nat k) (fst (grab (n - length iarr) (64 * i) (drop (64 * i) (bits ws)))), f') \<and>
    bits ws' = take (64 * i) (bits ws) @ snd (grab (n - length iarr) (64 * i) (drop (64 * i) (bits ws))) \<and>
    length ws' = 64 \<and> (\<not> f' \<longrightarrow> ws' = ws)"
  using assms
proof (induction n base i ws iarr f rule: alloc_sector.induct)
  case (1 n base i ws iarr f)
  show ?case
  proof (cases "i < 64 \<and> length iarr < n")
    case False
    then have "alloc_sector n base i ws iarr f = (ws, iarr, f)"
      by (subst alloc_sector.simps) (simp only: if_not_P[OF False] if_False)
    moreover have "drop (64 * i) (bits ws) = [] \<or> n - length iarr = 0" using False 1(5) by auto
    ultimately show ?thesis using 1(5) by auto
  next
    case True
    let ?N = "n - length iarr"
    have "drop i ws = ws ! i # drop (Suc i) ws" using True 1(5) by (simp add: Cons_nth_drop_Suc)
    then have dr: "drop (64 * i) (bits ws) = bits_of_word (ws ! i) @ drop (64 * Suc i) (bits ws)"
      by (simp only: bits_drop[symmetric] bits_Cons)
    show ?thesis
    proof (cases "ws ! i = NOT 0")
      case full: True
      have st: "alloc_sector n base i ws iarr f = alloc_sector n base (i + 1) ws iarr f"
        using True full by (subst alloc_sector.simps) simp
      have tk: "take (64 + 64 * i) (bits ws) = take (64 * i) (bits ws) @ replicate 64 True"
        using take_add[of "64 * i" 64 "bits ws"] dr full by (simp add: add.commute)
      have "grab ?N (64 * i) (drop (64 * i) (bits ws)) =
          (fst (grab ?N (64 * Suc i) (drop (64 * Suc i) (bits ws))),
           replicate 64 True @ snd (grab ?N (64 * Suc i) (drop (64 * Suc i) (bits ws))))"
        using full by (simp add: dr grab_append split_beta add.commute)
      then show ?thesis
        using 1(2)[OF True] full True 1(4,5) by (simp add: st tk)
    next
      case part: False
      let ?b = "base + of_nat i * 64"
      let ?g = "grab ?N 0 (bits_of_word (ws ! i))"
      obtain w where w: "alloc_bits n ?b 0 (ws ! i) iarr = (w, iarr @ map (\<lambda>k. ?b + of_nat k) (fst ?g))"
        and bw: "bits_of_word w = snd ?g"
        using alloc_bits_spec[of 0 iarr n ?b "ws ! i"] 1(4) by auto
      define ia where "ia = iarr @ map (\<lambda>k. ?b + of_nat k) (fst ?g)"
      let ?ws = "ws[i := w]"
      have st: "alloc_sector n base i ws iarr f = alloc_sector n base (i + 1) ?ws ia True"
        using True part w by (subst alloc_sector.simps) (simp add: ia_def)
      have lia: "length ia \<le> n" "n - length ia = ?N - length (fst ?g)"
        using grab_length(1)[of ?N 0 "bits_of_word (ws ! i)"] True by (auto simp: ia_def)
      have "drop (Suc i) ?ws = drop (Suc i) ws" "take (Suc i) ?ws = take i ws @ [w]"
        using True 1(5) by (simp_all add: take_Suc_conv_app_nth)
      then have b': "drop (64 * Suc i) (bits ?ws) = drop (64 * Suc i) (bits ws)"
        "take (64 * Suc i) (bits ?ws) = take (64 * i) (bits ws) @ snd ?g"
        by (simp_all only: bits_drop[symmetric] bits_take[symmetric] bits_append bits_Cons bits_Nil append_Nil2 bw)
      have g: "grab ?N (64 * i) (bits_of_word (ws ! i)) = (map ((+) (64 * i)) (fst ?g), snd ?g)"
        using grab_shift[of ?N "64 * i" 0 "bits_of_word (ws ! i)"] by simp
      let ?r = "grab (?N - length (fst ?g)) (64 * Suc i) (drop (64 * Suc i) (bits ws))"
      have G: "grab ?N (64 * i) (drop (64 * i) (bits ws)) = (map ((+) (64 * i)) (fst ?g) @ fst ?r, snd ?g @ snd ?r)"
        by (simp add: dr grab_append g split_beta add.commute)
      have mp: "map (\<lambda>k. ?b + of_nat k) (fst ?g) = map (\<lambda>k. base + of_nat k) (map ((+) (64 * i)) (fst ?g))"
        by (simp add: algebra_simps)
      have "\<exists>ws' f'. alloc_sector n base (i + 1) ?ws ia True =
          (ws', ia @ map (\<lambda>k. base + of_nat k) (fst (grab (n - length ia) (64 * (i + 1)) (drop (64 * (i + 1)) (bits ?ws)))), f') \<and>
        bits ws' = take (64 * (i + 1)) (bits ?ws) @ snd (grab (n - length ia) (64 * (i + 1)) (drop (64 * (i + 1)) (bits ?ws))) \<and>
        length ws' = 64 \<and> (\<not> f' \<longrightarrow> ws' = ?ws)"
        by (rule 1(1)[OF True part w[folded ia_def, symmetric] refl]) (use True lia 1(5) in auto)
      then obtain ws' f' where R: "alloc_sector n base (i + 1) ?ws ia True = (ws', ia @ map (\<lambda>k. base + of_nat k) (fst ?r), f')"
        "bits ws' = take (64 * i) (bits ws) @ snd ?g @ snd ?r" "length ws' = 64"
        by (simp only: lia(2) Suc_eq_plus1[symmetric] b' append_assoc) blast
      have "alloc_sector n base i ws iarr f =
          (ws', iarr @ map (\<lambda>k. base + of_nat k) (fst (grab ?N (64 * i) (drop (64 * i) (bits ws)))), f')"
        by (simp only: st R(1) G fst_conv map_append append_assoc) (simp only: ia_def mp append_assoc)
      moreover have "f'" by (rule alloc_sector_flag[OF R(1)])
      ultimately show ?thesis using R(2,3) by (simp only: G snd_conv) blast
    qed
  qed
qed

section \<open>Memory and card agree\<close>

text \<open>The layout \<open>GFS_init\<close> makes, on a card where its sectors have 32-bit indexes.\<close>

definition std_layout :: "'d gfs \<Rightarrow> bool" where
  "std_layout s \<longleftrightarrow>
     inode_bitmap_loc (sblk s) = 1 \<and> block_bitmap_loc (sblk s) = 8 \<and> inode_loc (sblk s) = 72 \<and>
     data_loc (sblk s) = 3656 \<and> inode_num (sblk s) = 28672 \<and> GFS_base_sec s \<noteq> 0 \<and>
     unat (GFS_base_sec s) + 4194304 \<le> 2 ^ 32"

definition bitmap_ok :: "'d gfs \<Rightarrow> bool" where
  "bitmap_ok s \<longleftrightarrow>
     (\<forall>j \<in> {1..<72}. length (bitmap s j) = 64 \<and> words_of_sector (disk_secs s 1 j) = bitmap s j)"

definition inodes_ok :: "'d gfs \<Rightarrow> bool" where
  "inodes_ok s \<longleftrightarrow>
     length (gfsc_inodes s) = 28672 \<and> (\<forall>x \<in> set (gfsc_inodes s). length (dptr x) = 10) \<and>
     (\<forall>k < 3584. map inode_of_bytes (chunks 64 (disk_secs s 1 (72 + k))) = take 8 (drop (8 * k) (gfsc_inodes s)))"

definition meta_ok :: "'d gfs \<Rightarrow> bool" where
  "meta_ok s \<longleftrightarrow> store_ok s \<and> std_layout s \<and> bitmap_ok s \<and> inodes_ok s"

lemma layout_simps [simp]:
  "std_layout (s\<lparr>dev := d\<rparr>) = std_layout s" "std_layout (s\<lparr>bitmap := bm\<rparr>) = std_layout s"
  "std_layout (s\<lparr>gfsc_inodes := ins\<rparr>) = std_layout s" "std_layout (s\<lparr>fnodes := fn\<rparr>) = std_layout s"
  "std_layout (s\<lparr>kh := hp\<rparr>) = std_layout s" "std_layout (s\<lparr>npanic := np\<rparr>) = std_layout s"
  by (simp_all add: std_layout_def)

lemma length_sector_of_words [simp]: "length (sector_of_words ws) = 8 * length ws"
  by (simp add: sector_of_words_def length_concat_uniform[of _ bytes_of_u64 8])

text \<open>A write to a metadata sector changes that sector and no data block.\<close>

lemma meta_write:
  assumes ok: "store_ok s" and lay: "std_layout s" and j: "unat j < 3656" and len: "length buf = 512"
  obtains d where "GFS_write_sec j 1 buf s = Some (s\<lparr>dev := d\<rparr>)" and "store_ok (s\<lparr>dev := d\<rparr>)"
    and "\<And>k. disk_secs (s\<lparr>dev := d\<rparr>) 1 k = (if k = unat j then buf else disk_secs s 1 k)"
    and "\<And>b. blk_valid s b \<Longrightarrow> disk_block (s\<lparr>dev := d\<rparr>) b = disk_block s b"
proof -
  let ?d = "sd_write s (dev s) 1 (unat (GFS_base_sec s) + unat j) buf"
  have sd: "sd_laws s" and c: "cache_ok s" using ok by (auto simp: store_ok_def)
  have so: "secs_ok s (unat 1) (unat j)" using lay j by (simp add: secs_ok_def std_layout_def)
  have w: "GFS_write_sec j 1 buf s = Some (s\<lparr>dev := ?d\<rparr>)"
    using GFS_write_sec_spec[OF so] len by simp
  have k: "disk_secs (s\<lparr>dev := ?d\<rparr>) 1 k = (if k = unat j then buf else disk_secs s 1 k)" for k
  proof (cases "k = unat j")
    case True
    then show ?thesis using disk_secs_written[OF sd, of buf 1 "unat j"] len by simp
  next
    case False
    then have "k + 1 \<le> unat j \<or> unat j + 1 \<le> k" by linarith
    then show ?thesis using disk_secs_other[OF sd, of buf 1 k 1 "unat j"] len False by simp
  qed
  have b: "disk_block (s\<lparr>dev := ?d\<rparr>) b = disk_block s b" if "blk_valid s b" for b
    using that j lay disk_secs_other[OF sd, of buf 1 "8 * unat b" 8 "unat j"] len
    by (simp add: disk_block_def blk_valid_def std_layout_def)
  have "blocks_ok (s\<lparr>dev := ?d\<rparr>) (gfsc_blocks s)"
    using c b by (auto simp: cache_ok_def blocks_ok_def)
  then have "cache_ok (s\<lparr>dev := ?d\<rparr>)" using c by (simp add: cache_ok_def gfsc_blocks_num_def)
  then show thesis using that w k b sd by (simp add: store_ok_def)
qed

text \<open>Replacing one sector of the bitmaps, in memory and on the card.\<close>

lemma meta_bitmap_write:
  assumes ok: "meta_ok s" and j: "1 \<le> unat j" "unat j < 72" and len: "length ws = 64"
  obtains d where
    "GFS_write_sec j 1 (sector_of_words ws) (s\<lparr>bitmap := (bitmap s)(unat j := ws)\<rparr>)
       = Some (s\<lparr>bitmap := (bitmap s)(unat j := ws), dev := d\<rparr>)"
    "meta_ok (s\<lparr>bitmap := (bitmap s)(unat j := ws), dev := d\<rparr>)"
    "\<And>b. blk_valid s b \<Longrightarrow> disk_block (s\<lparr>bitmap := (bitmap s)(unat j := ws), dev := d\<rparr>) b = disk_block s b"
proof -
  let ?s = "s\<lparr>bitmap := (bitmap s)(unat j := ws)\<rparr>"
  have m: "store_ok ?s" "std_layout ?s" using ok by (simp_all add: meta_ok_def)
  obtain d where d: "GFS_write_sec j 1 (sector_of_words ws) ?s = Some (?s\<lparr>dev := d\<rparr>)" "store_ok (?s\<lparr>dev := d\<rparr>)"
    "\<And>k. disk_secs (?s\<lparr>dev := d\<rparr>) 1 k = (if k = unat j then sector_of_words ws else disk_secs ?s 1 k)"
    "\<And>b. blk_valid ?s b \<Longrightarrow> disk_block (?s\<lparr>dev := d\<rparr>) b = disk_block ?s b"
    using meta_write[OF m, of j "sector_of_words ws"] j len by auto
  have "bitmap_ok (?s\<lparr>dev := d\<rparr>)"
    using ok len unfolding bitmap_ok_def d(3) meta_ok_def by auto
  moreover have "inodes_ok (?s\<lparr>dev := d\<rparr>)"
    using ok j unfolding inodes_ok_def d(3) meta_ok_def by auto
  ultimately have "meta_ok (?s\<lparr>dev := d\<rparr>)" using d(2) m(2) by (simp add: meta_ok_def)
  then show thesis using that d by simp
qed

lemma meta_ok_same_bitmap: "(bitmap s)(j := bitmap s j) = bitmap s"
  by simp

subsection \<open>Allocation over sectors\<close>

lemma sec_bits_Cons: "a < b \<Longrightarrow> sec_bits bm a b = bits (bm a) @ sec_bits bm (Suc a) b"
  by (simp add: sec_bits_def upt_conv_Cons)

lemma sec_bits_Nil [simp]: "b \<le> a \<Longrightarrow> sec_bits bm a b = []"
  by (simp add: sec_bits_def)

lemma sec_bits_cong: "(\<And>k. a \<le> k \<Longrightarrow> k < b \<Longrightarrow> bm k = bm' k) \<Longrightarrow> sec_bits bm a b = sec_bits bm' a b"
  unfolding sec_bits_def by (metis (mono_tags, lifting) atLeastLessThan_iff map_eq_conv set_upt)

text \<open>Only the bitmaps change, in memory and on the card; the data blocks stay.\<close>

definition bitmap_frame :: "'d gfs \<Rightarrow> 'd gfs \<Rightarrow> bool" where
  "bitmap_frame s s' \<longleftrightarrow> s' = s\<lparr>bitmap := bitmap s', dev := dev s'\<rparr> \<and>
     (\<forall>b. blk_valid s b \<longrightarrow> disk_block s' b = disk_block s b)"

lemma bitmap_frame_refl [simp]: "bitmap_frame s s"
  by (simp add: bitmap_frame_def)

lemma bitmap_frame_valid: "bitmap_frame s s' \<Longrightarrow> blk_valid s' = blk_valid s"
proof -
  assume "bitmap_frame s s'"
  then have e: "s' = s\<lparr>bitmap := bitmap s', dev := dev s'\<rparr>" by (simp add: bitmap_frame_def)
  show ?thesis by (subst e) simp
qed

lemma bitmap_frame_trans: "bitmap_frame s s' \<Longrightarrow> bitmap_frame s' s'' \<Longrightarrow> bitmap_frame s s''"
proof -
  assume 1: "bitmap_frame s s'" and 2: "bitmap_frame s' s''"
  have "s'' = s\<lparr>bitmap := bitmap s'', dev := dev s''\<rparr>"
    using 1 2 unfolding bitmap_frame_def by (cases s; cases s'; cases s'') simp
  moreover have "disk_block s'' b = disk_block s b" if "blk_valid s b" for b
    using 1 2 that bitmap_frame_valid[OF 1] by (simp add: bitmap_frame_def)
  ultimately show ?thesis by (simp add: bitmap_frame_def)
qed

lemma GFS_alloc_loop_spec:
  assumes "meta_ok s" and "1 \<le> unat start_sec" and "start_sec \<le> sidx" and "unat end_sec \<le> 72"
    and "length iarr \<le> n"
  defines "k0 \<equiv> 4096 * (unat sidx - unat start_sec)"
  shows "\<exists>s'. GFS_alloc_loop n start_sec end_sec sidx iarr s =
      Some (iarr @ map of_nat (fst (grab (n - length iarr) k0 (sec_bits (bitmap s) (unat sidx) (unat end_sec)))), s') \<and>
    sec_bits (bitmap s') (unat sidx) (unat end_sec) =
      snd (grab (n - length iarr) k0 (sec_bits (bitmap s) (unat sidx) (unat end_sec))) \<and>
    (\<forall>k. k < unat sidx \<or> unat end_sec \<le> k \<longrightarrow> bitmap s' k = bitmap s k) \<and> meta_ok s' \<and> bitmap_frame s s'"
  using assms(1-5) unfolding k0_def
proof (induction n start_sec end_sec sidx iarr s rule: GFS_alloc_loop.induct)
  case (1 n start_sec end_sec sidx iarr s)
  let ?N = "n - length iarr" and ?k = "4096 * (unat sidx - unat start_sec)"
  let ?B = "sec_bits (bitmap s) (unat sidx) (unat end_sec)"
  show ?case
  proof (cases "sidx < end_sec \<and> length iarr < n")
    case False
    then have "GFS_alloc_loop n start_sec end_sec sidx iarr s = Some (iarr, s)"
      by (subst GFS_alloc_loop.simps) (simp only: if_not_P[OF False] if_False)
    moreover have "?B = [] \<or> ?N = 0" using False by (auto simp: word_less_nat_alt)
    ultimately show ?thesis using 1(3) by auto
  next
    case True
    let ?base = "(sidx - start_sec) * of_nat SECTOR_SIZE * 8" and ?ws = "bitmap s (unat sidx)"
    have lt: "unat sidx < unat end_sec" "unat start_sec \<le> unat sidx"
      using True 1(5) by (simp_all add: word_less_nat_alt word_le_nat_alt)
    have rng: "1 \<le> unat sidx" "unat sidx < 72" using lt 1(4,6) by simp_all
    have nx: "unat (sidx + 1) = Suc (unat sidx)" using True unat_succ_less[of sidx end_sec] by simp
    have wl: "length ?ws = 64" using 1(3) rng by (simp add: meta_ok_def bitmap_ok_def)
    let ?g = "grab ?N 0 (bits ?ws)"
    obtain ws f where a: "alloc_sector n ?base 0 ?ws iarr False = (ws, iarr @ map (\<lambda>k. ?base + of_nat k) (fst ?g), f)"
      and w: "bits ws = snd ?g" "length ws = 64" "\<not> f \<longrightarrow> ws = ?ws"
      using alloc_sector_spec[of 0 iarr n ?ws ?base False] wl 1(7) by auto
    have bs: "?base = of_nat ?k"
      using lt(2) by (simp add: SECTOR_SIZE_def of_nat_diff)
    define ia where "ia = iarr @ map (\<lambda>k. ?base + of_nat k) (fst ?g)"
    have gs: "grab ?N ?k (bits ?ws) = (map ((+) ?k) (fst ?g), snd ?g)"
      using grab_shift[of ?N ?k 0 "bits ?ws"] by simp
    have iae: "ia = iarr @ map of_nat (map ((+) ?k) (fst ?g))" unfolding ia_def bs by simp
    have lia: "length ia \<le> n" "n - length ia = ?N - length (fst ?g)"
      using grab_length(1)[of ?N 0 "bits ?ws"] True by (auto simp: ia_def)
    have kn: "4096 * (Suc (unat sidx) - unat start_sec) = ?k + 4096" using lt by (simp add: Suc_diff_le)
    let ?r = "grab (?N - length (fst ?g)) (?k + 4096) (sec_bits (bitmap s) (Suc (unat sidx)) (unat end_sec))"
    have G: "grab ?N ?k ?B = (map ((+) ?k) (fst ?g) @ fst ?r, snd ?g @ snd ?r)"
      using lt(1) wl by (simp add: sec_bits_Cons grab_append gs split_beta)
    let ?s1 = "s\<lparr>bitmap := (bitmap s)(unat sidx := ws)\<rparr>"
    have fin: "\<exists>s'. GFS_alloc_loop n start_sec end_sec (sidx + 1) ia t =
        Some (iarr @ map of_nat (fst (grab ?N ?k ?B)), s') \<and>
      sec_bits (bitmap s') (unat sidx) (unat end_sec) = snd (grab ?N ?k ?B) \<and>
      (\<forall>k. k < unat sidx \<or> unat end_sec \<le> k \<longrightarrow> bitmap s' k = bitmap s k) \<and> meta_ok s' \<and> bitmap_frame s s'"
      if IH: "\<exists>s'. GFS_alloc_loop n start_sec end_sec (sidx + 1) ia t =
          Some (ia @ map of_nat (fst (grab (n - length ia) (4096 * (unat (sidx + 1) - unat start_sec))
            (sec_bits (bitmap t) (unat (sidx + 1)) (unat end_sec)))), s') \<and>
        sec_bits (bitmap s') (unat (sidx + 1)) (unat end_sec) =
          snd (grab (n - length ia) (4096 * (unat (sidx + 1) - unat start_sec))
            (sec_bits (bitmap t) (unat (sidx + 1)) (unat end_sec))) \<and>
        (\<forall>k. k < unat (sidx + 1) \<or> unat end_sec \<le> k \<longrightarrow> bitmap s' k = bitmap t k) \<and> meta_ok s' \<and> bitmap_frame t s'"
        and t: "bitmap t = (bitmap s)(unat sidx := ws)" "bitmap_frame s t" for t
    proof -
      have sb: "sec_bits (bitmap t) (Suc (unat sidx)) (unat end_sec) = sec_bits (bitmap s) (Suc (unat sidx)) (unat end_sec)"
        by (rule sec_bits_cong) (simp add: t)
      obtain s' where s': "GFS_alloc_loop n start_sec end_sec (sidx + 1) ia t = Some (ia @ map of_nat (fst ?r), s')"
        "sec_bits (bitmap s') (Suc (unat sidx)) (unat end_sec) = snd ?r"
        "\<forall>k. k < Suc (unat sidx) \<or> unat end_sec \<le> k \<longrightarrow> bitmap s' k = bitmap t k" "meta_ok s'" "bitmap_frame t s'"
        using IH unfolding lia(2) kn nx sb by (elim exE conjE) (rule that)
      have "bitmap s' (unat sidx) = ws" using s'(3) t by simp
      then have "sec_bits (bitmap s') (unat sidx) (unat end_sec) = snd ?g @ snd ?r"
        using lt(1) s'(2) w(1) by (simp add: sec_bits_Cons)
      moreover have "\<forall>k. k < unat sidx \<or> unat end_sec \<le> k \<longrightarrow> bitmap s' k = bitmap s k"
        using s'(3) t(1) lt(1) by auto
      ultimately show ?thesis
        using s'(1,4) iae bitmap_frame_trans[OF t(2) s'(5)] unfolding G by simp
    qed
    show ?thesis
    proof (cases f)
      case True': True
      obtain d where d: "GFS_write_sec sidx 1 (sector_of_words ws) ?s1 = Some (?s1\<lparr>dev := d\<rparr>)" "meta_ok (?s1\<lparr>dev := d\<rparr>)"
        "\<And>b. blk_valid s b \<Longrightarrow> disk_block (?s1\<lparr>dev := d\<rparr>) b = disk_block s b"
        using meta_bitmap_write[OF 1(3) rng w(2)] by auto
      have st: "GFS_alloc_loop n start_sec end_sec sidx iarr s =
          GFS_alloc_loop n start_sec end_sec (sidx + 1) ia (?s1\<lparr>dev := d\<rparr>)"
        using True a True' d(1) by (subst GFS_alloc_loop.simps) (simp add: ia_def)
      have "bitmap_frame s (?s1\<lparr>dev := d\<rparr>)" using d(3) by (simp add: bitmap_frame_def)
      then show ?thesis unfolding st
        by (intro fin 1(1)[OF True a[symmetric, folded ia_def] refl refl refl True' d(1)])
          (use d lia 1(4,6) lt nx in \<open>auto simp: word_le_nat_alt\<close>)
    next
      case False
      then have ws: "ws = ?ws" using w(3) by simp
      have s1: "?s1 = s" by (simp add: ws)
      have st: "GFS_alloc_loop n start_sec end_sec sidx iarr s =
          GFS_alloc_loop n start_sec end_sec (sidx + 1) ia ?s1"
        using True a False by (subst GFS_alloc_loop.simps) (simp add: ia_def)
      show ?thesis unfolding st
        by (intro fin 1(2)[OF True a[symmetric, folded ia_def] refl refl refl False])
          (use 1(3) ws s1 lia 1(4,6) lt nx in \<open>auto simp: word_le_nat_alt bitmap_frame_def\<close>)
    qed
  qed
qed

text \<open>The two bitmaps as bit lists.\<close>

definition inode_bits :: "'d gfs \<Rightarrow> bool list" where
  "inode_bits s = sec_bits (bitmap s) 1 8"

definition block_bits :: "'d gfs \<Rightarrow> bool list" where
  "block_bits s = sec_bits (bitmap s) 8 72"

lemma length_sec_bits:
  "(\<And>k. a \<le> k \<Longrightarrow> k < b \<Longrightarrow> length (bm k) = 64) \<Longrightarrow> length (sec_bits bm a b) = 4096 * (b - a)"
proof (induction "b - a" arbitrary: a)
  case (Suc n)
  then have "a < b" by simp
  then have "length (sec_bits bm (Suc a) b) = 4096 * (b - Suc a)" using Suc by simp
  then show ?case using \<open>a < b\<close> Suc(3)[of a] by (simp add: sec_bits_Cons)
qed simp

lemma length_inode_bits: "meta_ok s \<Longrightarrow> length (inode_bits s) = 28672"
  using length_sec_bits[of 1 8 "bitmap s"] by (simp add: inode_bits_def meta_ok_def bitmap_ok_def)

lemma length_block_bits: "meta_ok s \<Longrightarrow> length (block_bits s) = 262144"
  using length_sec_bits[of 8 72 "bitmap s"] by (simp add: block_bits_def meta_ok_def bitmap_ok_def)

lemma GFS_alloc_inode_bits:
  assumes "meta_ok s"
  shows "\<exists>s'. GFS_alloc_in_bitmap n (inode_bitmap_loc (sblk s)) (block_bitmap_loc (sblk s)) s =
      Some (map of_nat (fst (grab (unat n) 0 (inode_bits s))), s') \<and>
    inode_bits s' = snd (grab (unat n) 0 (inode_bits s)) \<and> block_bits s' = block_bits s \<and>
    meta_ok s' \<and> bitmap_frame s s'"
proof -
  have l: "inode_bitmap_loc (sblk s) = 1" "block_bitmap_loc (sblk s) = 8"
    using assms by (simp_all add: meta_ok_def std_layout_def)
  obtain s' where s': "GFS_alloc_loop (unat n) 1 8 1 [] s =
      Some (map of_nat (fst (grab (unat n) 0 (sec_bits (bitmap s) 1 8))), s')"
    "sec_bits (bitmap s') 1 8 = snd (grab (unat n) 0 (sec_bits (bitmap s) 1 8))"
    "\<forall>k. k < 1 \<or> 8 \<le> k \<longrightarrow> bitmap s' k = bitmap s k" "meta_ok s'" "bitmap_frame s s'"
    using GFS_alloc_loop_spec[OF assms, of 1 1 8 "[]" "unat n"] by auto
  have "sec_bits (bitmap s') 8 72 = sec_bits (bitmap s) 8 72" by (rule sec_bits_cong) (use s'(3) in simp)
  then show ?thesis
    using s' by (simp add: GFS_alloc_in_bitmap_def l inode_bits_def block_bits_def)
qed

lemma GFS_alloc_block_bits:
  assumes "meta_ok s"
  shows "\<exists>s'. GFS_alloc_in_bitmap n (block_bitmap_loc (sblk s)) (inode_loc (sblk s)) s =
      Some (map of_nat (fst (grab (unat n) 0 (block_bits s))), s') \<and>
    block_bits s' = snd (grab (unat n) 0 (block_bits s)) \<and> inode_bits s' = inode_bits s \<and>
    meta_ok s' \<and> bitmap_frame s s'"
proof -
  have l: "block_bitmap_loc (sblk s) = 8" "inode_loc (sblk s) = 72"
    using assms by (simp_all add: meta_ok_def std_layout_def)
  obtain s' where s': "GFS_alloc_loop (unat n) 8 72 8 [] s =
      Some (map of_nat (fst (grab (unat n) 0 (sec_bits (bitmap s) 8 72))), s')"
    "sec_bits (bitmap s') 8 72 = snd (grab (unat n) 0 (sec_bits (bitmap s) 8 72))"
    "\<forall>k. k < 8 \<or> 72 \<le> k \<longrightarrow> bitmap s' k = bitmap s k" "meta_ok s'" "bitmap_frame s s'"
    using GFS_alloc_loop_spec[OF assms, of 8 8 72 "[]" "unat n"] by auto
  have "sec_bits (bitmap s') 1 8 = sec_bits (bitmap s) 1 8" by (rule sec_bits_cong) (use s'(3) in simp)
  then show ?thesis
    using s' by (simp add: GFS_alloc_in_bitmap_def l inode_bits_def block_bits_def)
qed

subsection \<open>Release\<close>

lemma bits_update:
  assumes "i < length ws" and "j < 64"
  shows "bits (ws[i := ws ! i AND NOT (bm_mask j)]) = (bits ws)[64 * i + j := False]"
proof -
  have ws: "ws = take i ws @ ws ! i # drop (Suc i) ws" using assms(1) by (simp add: id_take_nth_drop)
  have "ws[i := ws ! i AND NOT (bm_mask j)] = take i ws @ (ws ! i AND NOT (bm_mask j)) # drop (Suc i) ws"
    using assms(1) by (simp add: upd_conv_take_nth_drop)
  then have "bits (ws[i := ws ! i AND NOT (bm_mask j)]) =
      bits (take i ws) @ (bits_of_word (ws ! i))[j := False] @ bits (drop (Suc i) ws)"
    using assms(2) by (simp add: bits_append bits_Cons bits_of_word_clear)
  also have "\<dots> = (bits (take i ws) @ bits_of_word (ws ! i) @ bits (drop (Suc i) ws))[64 * i + j := False]"
    using assms by (simp add: list_update_append)
  also have "\<dots> = (bits ws)[64 * i + j := False]"
    by (subst (4) ws) (simp add: bits_append bits_Cons)
  finally show ?thesis .
qed

lemma sec_bits_update:
  assumes "a \<le> k" and "k < b" and "\<And>i. a \<le> i \<Longrightarrow> i < b \<Longrightarrow> length (bm i) = 64" and "m < 4096"
    and "bits ws = (bits (bm k))[m := v]"
  shows "sec_bits (bm(k := ws)) a b = (sec_bits bm a b)[4096 * (k - a) + m := v]"
  using assms(1,3)
proof (induction "k - a" arbitrary: a)
  case 0
  then have "a = k" by simp
  moreover have "sec_bits (bm(k := ws)) (Suc k) b = sec_bits bm (Suc k) b" by (rule sec_bits_cong) simp
  ultimately show ?case
    using assms(2,4,5) 0(3)[of k] by (simp add: sec_bits_Cons list_update_append fun_upd_same del: fun_upd_apply)
next
  case (Suc n)
  then have a: "a < k" "a < b" using assms(2) by simp_all
  have "sec_bits (bm(k := ws)) (Suc a) b = (sec_bits bm (Suc a) b)[4096 * (k - Suc a) + m := v]"
    using Suc a by simp
  moreover have "4096 * (k - a) + m = 4096 + (4096 * (k - Suc a) + m)" using a by (simp add: Suc_diff_Suc[symmetric])
  ultimately show ?case
    using a Suc(4)[of a] by (simp add: sec_bits_Cons list_update_append)
qed

lemma GFS_free_in_bitmap_spec:
  assumes ok: "meta_ok s" and r: "1 \<le> unat a" "unat a < unat b" "unat b \<le> 72"
    and i: "unat bidx < 4096 * (unat b - unat a)"
  shows "\<exists>s'. GFS_free_in_bitmap bidx a b s = Some (0, s') \<and> meta_ok s' \<and> bitmap_frame s s' \<and>
    sec_bits (bitmap s') (unat a) (unat b) = (sec_bits (bitmap s) (unat a) (unat b))[unat bidx := False] \<and>
    (\<forall>k. k < unat a \<or> unat b \<le> k \<longrightarrow> bitmap s' k = bitmap s k)"
proof -
  have ab: "unat (b - a) = unat b - unat a" using r(2) by (simp add: unat_sub word_le_nat_alt)
  have "unat (c * of_nat SECTOR_SIZE * 8) = 4096 * unat c" if "unat c \<le> 72" for c :: u32
    using that by (simp add: SECTOR_SIZE_def unat_word_ariths mult.commute)
  then have lim: "unat ((b - a) * of_nat SECTOR_SIZE * 8) = 4096 * (unat b - unat a)"
    using ab r(3) by simp
  define j where "j = a + bidx div (of_nat SECTOR_SIZE * 8)"
  define m where "m = bidx mod (of_nat SECTOR_SIZE * 8)"
  have q: "unat bidx div 4096 < unat b - unat a" using i by (simp add: less_mult_imp_div_less mult.commute)
  have j: "unat j = unat a + unat bidx div 4096"
    using q r(3) by (simp add: j_def SECTOR_SIZE_def unat_word_ariths unat_div)
  have m: "unat m = unat bidx mod 4096" by (simp add: m_def SECTOR_SIZE_def unat_mod)
  have m64: "unat (m div 64) = unat m div 64" "unat (m mod 64) = unat m mod 64"
    by (simp_all add: unat_div unat_mod)
  have rj: "1 \<le> unat j" "unat j < 72" using j q r by simp_all
  let ?ws = "bitmap s (unat j)"
  let ?i = "unat m div 64"
  have wl: "length ?ws = 64" using ok rj by (simp add: meta_ok_def bitmap_ok_def)
  have il: "?i < 64" using m by (simp add: less_mult_imp_div_less)
  let ?w = "?ws[?i := ?ws ! ?i AND NOT (bm_mask (unat m mod 64))]"
  obtain d where d: "GFS_write_sec j 1 (sector_of_words ?w) (s\<lparr>bitmap := (bitmap s)(unat j := ?w)\<rparr>)
      = Some (s\<lparr>bitmap := (bitmap s)(unat j := ?w), dev := d\<rparr>)"
    "meta_ok (s\<lparr>bitmap := (bitmap s)(unat j := ?w), dev := d\<rparr>)"
    "\<And>b. blk_valid s b \<Longrightarrow> disk_block (s\<lparr>bitmap := (bitmap s)(unat j := ?w), dev := d\<rparr>) b = disk_block s b"
    using meta_bitmap_write[OF ok rj, of ?w] wl by auto
  have "\<not> (b \<le> a \<or> (b - a) * of_nat SECTOR_SIZE * 8 \<le> bidx)"
    using r(2) lim i by (simp add: word_le_nat_alt not_le)
  then have run: "GFS_free_in_bitmap bidx a b s = Some (0, s\<lparr>bitmap := (bitmap s)(unat j := ?w), dev := d\<rparr>)"
    using d(1) il wl unfolding GFS_free_in_bitmap_def Let_def j_def[symmetric] m_def[symmetric] m64
    by (simp del: of_nat_numeral)
  have "bits ?w = (bits ?ws)[unat m := False]"
    using bits_update[of ?i ?ws "unat m mod 64"] il wl by (simp add: mult_div_mod_eq)
  then have "sec_bits ((bitmap s)(unat j := ?w)) (unat a) (unat b) =
      (sec_bits (bitmap s) (unat a) (unat b))[4096 * (unat j - unat a) + unat m := False]"
    using j q m ok r by (intro sec_bits_update) (auto simp: meta_ok_def bitmap_ok_def)
  moreover have "4096 * (unat j - unat a) + unat m = unat bidx" using j m by simp
  ultimately show ?thesis using run d r j q by (auto simp: bitmap_frame_def)
qed

subsection \<open>Counting\<close>

text \<open>Clearing the lowest set bit removes one bit.\<close>

lemma and_pred_bits:
  assumes "l \<noteq> 0"
  shows "\<exists>m < 64. bit l m \<and> {k. bit (l AND (l - 1)) k} = {k. bit (l :: u64) k} - {m}"
proof -
  define m where "m = (LEAST k. bit l k)"
  have "\<exists>k. bit l k" using assms by (auto simp: bit_eq_iff)
  then have m: "bit l m" "\<And>k. k < m \<Longrightarrow> \<not> bit l k" unfolding m_def by (auto intro: LeastI_ex dest: not_less_Least)
  have m64: "m < 64" using m(1) bit_imp_le_length[of l m] by simp
  define h where "h = push_bit (Suc m) (drop_bit (Suc m) l)"
  have bh: "bit h n \<longleftrightarrow> m < n \<and> bit l n" for n
    unfolding h_def bit_push_bit_iff bit_drop_bit_eq comp_def
    using bit_imp_le_length[of l n] by (auto simp: Suc_le_eq)
  define b where "b = (push_bit m 1 :: u64)"
  have bb: "bit b n \<longleftrightarrow> n = m" for n
    using m64 unfolding b_def push_bit_of_1 bit_exp_iff by auto
  have lo: "m \<le> n" if "bit l n" for n using m(2) that by (meson not_le)
  have "l = h OR b"
    by (rule bit_word_eqI) (use m lo in \<open>auto simp: bit_or_iff bh bb le_less\<close>)
  also have "\<dots> = h + b"
    by (rule disjunctive_add_eq_or[symmetric], rule bit_word_eqI) (auto simp: bit_and_iff bh bb)
  finally have "l - 1 = h + mask m" by (simp add: b_def push_bit_of_1 mask_eq_exp_minus_1)
  also have "\<dots> = h OR mask m"
    by (rule disjunctive_add_eq_or, rule bit_word_eqI) (auto simp: bit_and_iff bh bit_mask_iff)
  finally have p: "l - 1 = h OR mask m" .
  have "bit (l AND (l - 1)) k \<longleftrightarrow> bit l k \<and> k \<noteq> m" for k
    unfolding p bit_and_iff bit_or_iff bh bit_mask_iff using lo[of k] m(2)[of k] by (auto simp: le_less)
  then show ?thesis using m(1) m64 by auto
qed

lemma count_ones_spec: "count_ones l c = c + of_nat (card {k. bit l k})"
proof (induction l c rule: count_ones.induct)
  case (1 l c)
  show ?case
  proof (cases "l = 0")
    case True
    then show ?thesis by (subst count_ones.simps) (simp add: bot_fun_def)
  next
    case False
    then obtain m where m: "bit l m" "{k. bit (l AND (l - 1)) k} = {k. bit l k} - {m}"
      using and_pred_bits by blast
    have fin: "finite {k. bit l k}" by (rule finite_subset[of _ "{..<64}"]) (auto dest: bit_imp_le_length)
    have "card {k. bit l k} = Suc (card ({k. bit l k} - {m}))"
      by (rule card_Suc_Diff1[symmetric]) (use fin m(1) in auto)
    then have "of_nat (card {k. bit l k}) = (of_nat (card {k. bit (l AND (l - 1)) k}) :: u32) + 1"
      unfolding m(2) by simp
    then show ?thesis
      using False 1 by (subst count_ones.simps) (simp add: word_gt_0 add_ac)
  qed
qed

lemma card_bits_of_word: "card {k. bit w k} = count_list (bits_of_word w) True"
proof -
  have "{k. bit w k} = (\<lambda>j. 63 - j) ` {j. j < 64 \<and> bit w (63 - j)}"
  proof (intro set_eqI iffI)
    fix k assume "k \<in> {k. bit w k}"
    then have "k < 64" "bit w k" using bit_imp_le_length[of w k] by auto
    then show "k \<in> (\<lambda>j. 63 - j) ` {j. j < 64 \<and> bit w (63 - j)}" by (intro image_eqI[of _ _ "63 - k"]) auto
  qed auto
  moreover have "inj_on (\<lambda>j. 63 - j) {j. j < 64 \<and> bit w (63 - j)}" by (auto simp: inj_on_def)
  ultimately have "card {k. bit w k} = card {j. j < 64 \<and> bit w (63 - j)}" by (simp add: card_image)
  also have "{j. j < 64 \<and> bit w (63 - j)} = {j. j < length (bits_of_word w) \<and> bits_of_word w ! j}" by auto
  also have "card \<dots> = length (filter (\<lambda>b. b) (bits_of_word w))" by (simp add: length_filter_conv_card)
  also have "\<dots> = count_list (bits_of_word w) True"
  proof -
    have "(\<lambda>b. b) = (=) True" by (simp add: fun_eq_iff)
    then show ?thesis by (simp only: count_list_eq_length_filter)
  qed
  finally show ?thesis .
qed

lemma count_sector_spec: "count_sector ws c = c + of_nat (count_list (bits ws) True)"
  by (induction ws c rule: count_sector.induct) (simp_all add: count_ones_spec card_bits_of_word bits_Cons)

lemma GFS_count_loop_spec:
  assumes "\<And>k. unat sidx \<le> k \<Longrightarrow> k < unat e \<Longrightarrow> length (bitmap s k) = 64"
  shows "GFS_count_loop e sidx c s = c + of_nat (count_list (sec_bits (bitmap s) (unat sidx) (unat e)) True)"
  using assms
proof (induction e sidx c s rule: GFS_count_loop.induct)
  case (1 e sidx c s)
  show ?case
  proof (cases "sidx < e")
    case True
    then have lt: "unat sidx < unat e" by (simp add: word_less_nat_alt)
    note nx = unat_succ_less[OF True]
    have "GFS_count_loop e sidx c s = GFS_count_loop e (sidx + 1) (count_sector (bitmap s (unat sidx)) c) s"
      using True 1(2)[of "unat sidx"] lt by (subst GFS_count_loop.simps) simp
    also have "\<dots> = count_sector (bitmap s (unat sidx)) c +
        of_nat (count_list (sec_bits (bitmap s) (Suc (unat sidx)) (unat e)) True)"
      using 1(1)[OF True] 1(2) lt nx by simp
    finally show ?thesis using lt by (simp add: count_sector_spec sec_bits_Cons)
  next
    case False
    then show ?thesis by (subst GFS_count_loop.simps) (simp add: word_less_nat_alt)
  qed
qed

subsection \<open>Inodes\<close>

text \<open>The inode table changes, in memory and on the card; the data blocks stay.\<close>

definition inode_frame :: "'d gfs \<Rightarrow> 'd gfs \<Rightarrow> bool" where
  "inode_frame s s' \<longleftrightarrow> s' = s\<lparr>gfsc_inodes := gfsc_inodes s', dev := dev s'\<rparr> \<and>
     (\<forall>b. blk_valid s b \<longrightarrow> disk_block s' b = disk_block s b)"

lemma take_drop_update_other: "i < a \<or> a + n \<le> i \<Longrightarrow> take n (drop a (xs[i := x])) = take n (drop a xs)"
  by (auto simp: drop_update_swap take_update_swap drop_update_cancel list_update_beyond)

lemma GFS_write_inode_spec:
  assumes ok: "meta_ok s" and i: "unat i < 28672" and x: "length (dptr x) = 10"
  shows "\<exists>s'. GFS_write_inode i x s = Some (0, s') \<and> meta_ok s' \<and> inode_frame s s' \<and>
    gfsc_inodes s' = (gfsc_inodes s)[unat i := x]"
proof -
  let ?ins = "(gfsc_inodes s)[unat i := x]"
  let ?s = "s\<lparr>gfsc_inodes := ?ins\<rparr>"
  let ?j = "inode_loc (sblk s) + lbytes2sectors (i * 64)"
  have len: "length (gfsc_inodes s) = 28672" using ok by (simp add: meta_ok_def inodes_ok_def)
  have dp: "length (dptr y) = 10" if "y \<in> set ?ins" for y
    using that set_update_subset_insert[of "gfsc_inodes s" "unat i" x] ok x
    by (auto simp: meta_ok_def inodes_ok_def)
  have j: "unat ?j = 72 + unat i div 8"
  proof -
    have "unat (lbytes2sectors (i * 64)) = unat i div 8"
      using i by (simp add: lbytes2sectors_def SECTOR_SIZE_def unat_div unat_word_ariths)
    then show ?thesis using ok i by (simp add: meta_ok_def std_layout_def unat_word_ariths)
  qed
  let ?c = "take 8 (drop (8 * (unat i div 8)) ?ins)"
  have dpc: "length (dptr y) = 10" if "y \<in> set ?c" for y
    using that dp by (meson in_set_dropD in_set_takeD)
  have sl: "length (inode_sector ?ins (unat i)) = 512"
  proof -
    have "8 * (unat i div 8) + 8 \<le> 28672" using i by simp
    then have "length ?c = 8" using len by simp
    then show ?thesis
      using dpc by (simp add: inode_sector_def length_concat_uniform[of _ bytes_of_inode 64] length_bytes_of_inode)
  qed
  have m: "store_ok ?s" "std_layout ?s" "unat ?j < 3656"
    using ok i j by (simp_all add: meta_ok_def)
  obtain d where d: "GFS_write_sec ?j 1 (inode_sector ?ins (unat i)) ?s = Some (?s\<lparr>dev := d\<rparr>)" "store_ok (?s\<lparr>dev := d\<rparr>)"
    "\<And>k. disk_secs (?s\<lparr>dev := d\<rparr>) 1 k = (if k = unat ?j then inode_sector ?ins (unat i) else disk_secs ?s 1 k)"
    "\<And>b. blk_valid ?s b \<Longrightarrow> disk_block (?s\<lparr>dev := d\<rparr>) b = disk_block ?s b"
    using meta_write[OF m sl] by metis
  have run: "GFS_write_inode i x s = Some (0, ?s\<lparr>dev := d\<rparr>)"
    using ok i len d(1) by (simp add: GFS_write_inode_def meta_ok_def std_layout_def word_le_nat_alt not_le)
  have dec: "map inode_of_bytes (chunks 64 (inode_sector ?ins (unat i))) = ?c"
    using dpc by (simp add: inode_sector_def chunks_concat length_bytes_of_inode map_idI)
  have "map inode_of_bytes (chunks 64 (disk_secs (?s\<lparr>dev := d\<rparr>) 1 (72 + k))) = take 8 (drop (8 * k) ?ins)"
    if k: "k < 3584" for k
  proof (cases "k = unat i div 8")
    case True
    then show ?thesis using dec unfolding d(3) j by simp
  next
    case False
    then have "unat i < 8 * k \<or> 8 * k + 8 \<le> unat i" by linarith
    then have "take 8 (drop (8 * k) ?ins) = take 8 (drop (8 * k) (gfsc_inodes s))" by (rule take_drop_update_other)
    then show ?thesis using False ok k unfolding d(3) j by (simp add: meta_ok_def inodes_ok_def)
  qed
  then have "inodes_ok (?s\<lparr>dev := d\<rparr>)" using len dp by (simp add: inodes_ok_def)
  moreover have "bitmap_ok (?s\<lparr>dev := d\<rparr>)"
    using ok j unfolding bitmap_ok_def d(3) meta_ok_def by auto
  ultimately have "meta_ok (?s\<lparr>dev := d\<rparr>)" using d(2) m(2) by (simp add: meta_ok_def)
  then show ?thesis using run d(4) by (auto simp: inode_frame_def)
qed

lemma GFS_read_inode_spec:
  assumes "meta_ok s"
  shows "GFS_read_inode i s =
    Some (if unat i < 28672 then (0, Some (gfsc_inodes s ! unat i)) else (-1, None))"
  using assms by (auto simp: GFS_read_inode_def meta_ok_def std_layout_def inodes_ok_def word_le_nat_alt)

subsection \<open>Mounting again\<close>

lemma disk_secs_append: "sd_laws s \<Longrightarrow> disk_secs s (m + n) k = disk_secs s m k @ disk_secs s n (k + m)"
  by (simp add: disk_secs_def sd_read_append add.assoc)

lemma disk_secs_length: "sd_laws s \<Longrightarrow> length (disk_secs s n k) = n * 512"
  by (simp add: disk_secs_def sd_read_length)

lemma disk_secs_part:
  assumes "sd_laws s" and "i + m \<le> n"
  shows "take (m * 512) (drop (i * 512) (disk_secs s n k)) = disk_secs s m (k + i)"
proof -
  have "disk_secs s n k = disk_secs s i k @ disk_secs s m (k + i) @ disk_secs s (n - i - m) (k + i + m)"
    using assms disk_secs_append[OF assms(1), of i "n - i" k] disk_secs_append[OF assms(1), of m "n - i - m" "k + i"] by simp
  then show ?thesis using assms(1) by (simp add: disk_secs_length)
qed

lemma chunks_append_dvd:
  "64 dvd length xs \<Longrightarrow> chunks 64 (xs @ ys) = chunks 64 xs @ chunks 64 ys" for xs ys :: "u8 list"
proof (induction "64 :: nat" xs rule: chunks.induct)
  case (1 xs)
  show ?case
  proof (cases "xs = []")
    case False
    then have "64 \<le> length xs" using 1(2) by (simp add: dvd_imp_le)
    then have l: "length (take 64 xs) = 64" "64 dvd length (drop 64 xs)" using 1(2) by (simp_all add: dvd_diff_nat)
    have "chunks 64 (xs @ ys) = chunks 64 (take 64 xs @ drop 64 xs @ ys)"
      by (simp only: append_assoc[symmetric] append_take_drop_id)
    also have "\<dots> = take 64 xs # chunks 64 (drop 64 xs @ ys)" using l(1) by (intro chunks_append) simp_all
    also have "chunks 64 (drop 64 xs @ ys) = chunks 64 (drop 64 xs) @ chunks 64 ys" using 1(1) False l(2) by simp
    finally show ?thesis using False by (subst (2) chunks.simps) simp
  qed simp
qed

lemma chunks_part:
  fixes xs :: "u8 list"
  assumes "k * 512 + 512 \<le> length xs"
  shows "take 8 (drop (8 * k) (chunks 64 xs)) = chunks 64 (take 512 (drop (k * 512) xs))"
proof -
  let ?a = "take (k * 512) xs" and ?b = "take 512 (drop (k * 512) xs)" and ?c = "drop (k * 512 + 512) xs"
  have xs: "xs = ?a @ ?b @ ?c"
    by (metis append_take_drop_id drop_drop add.commute)
  have l: "length ?a = k * 512" "length ?b = 512" using assms by simp_all
  have "chunks 64 xs = chunks 64 ?a @ chunks 64 ?b @ chunks 64 ?c"
  proof -
    have dv: "64 dvd length ?a" "64 dvd length ?b" unfolding l by simp_all
    show ?thesis by (subst xs) (simp only: chunks_append_dvd[OF dv(1)] chunks_append_dvd[OF dv(2)])
  qed
  moreover have "length (chunks 64 ?a) = 8 * k" "length (chunks 64 ?b) = 8" using l by simp_all
  ultimately show ?thesis by simp
qed

lemma map_chunks_sectors:
  assumes "sd_laws s" and "\<And>k. k < n \<Longrightarrow> map inode_of_bytes (chunks 64 (disk_secs s 1 (a + k))) = take 8 (drop (8 * k) xs)"
  shows "map inode_of_bytes (chunks 64 (disk_secs s n a)) = take (8 * n) xs"
  using assms(2)
proof (induction n)
  case 0
  then show ?case using disk_secs_length[OF assms(1), of 0 a] by simp
next
  case (Suc n)
  have "disk_secs s (Suc n) a = disk_secs s n a @ disk_secs s 1 (a + n)"
    using disk_secs_append[OF assms(1), of n 1 a] by simp
  moreover have "64 dvd length (disk_secs s n a)" by (simp add: disk_secs_length[OF assms(1)])
  moreover have "take (8 * Suc n) xs = take (8 * n) xs @ take 8 (drop (8 * n) xs)"
    using take_add[of "8 * n" 8 xs] by (simp add: add.commute)
  ultimately show ?case using Suc by (simp add: chunks_append_dvd)
qed

text \<open>
  Loading: whatever the card holds, the bitmaps and the inodes in memory are its decoding afterwards,
  and the cache is empty. The array of the access sequence takes 7262 bytes of the heap, once.
\<close>

lemma length_inode_of_bytes [simp]: "length (dptr (inode_of_bytes bs)) = 10"
  by (simp add: inode_of_bytes_def)

definition lru_ready :: "'d gfs \<Rightarrow> bool" where
  "lru_ready s \<longleftrightarrow> gfsc_lru_ptr s \<noteq> NULL \<or> (\<exists>p h. kmalloc_g 7262 (kh s) = Some (p, h) \<and> p \<noteq> NULL)"

lemma aseq_init: "aseq_ok 3631 (map of_nat [0..<3631])"
proof -
  have u: "unat (of_nat i :: u16) = i" if "i < 3631" for i using that by (simp add: unat_of_nat)
  then have "inj_on (of_nat :: nat \<Rightarrow> u16) {0..<3631}" by (metis (no_types, lifting) atLeastLessThan_iff inj_onI)
  then show ?thesis using u by (auto simp: aseq_ok_def distinct_map)
qed

lemma GFS_cache_init_spec:
  assumes sd: "sd_laws s" and lay: "std_layout s" and lru: "lru_ready s" and junk: "\<And>i. length (junk i) = 4096"
  shows "\<exists>s'. GFS_cache_init junk s = Some s' \<and> meta_ok s' \<and> dev s' = dev s \<and> sblk s' = sblk s \<and>
    flh s' = flh s \<and> fnodes s' = fnodes s \<and> (gfsc_lru_ptr s \<noteq> NULL \<longrightarrow> kh s' = kh s) \<and>
    disk_secs s' = disk_secs s \<and>
    (\<forall>j \<in> {1..<72}. bitmap s' j = words_of_sector (disk_secs s 1 j)) \<and>
    gfsc_inodes s' = map inode_of_bytes (chunks 64 (disk_secs s 3584 72)) \<and> gfsc_lru_ptr s' \<noteq> NULL"
proof -
  have loc: "inode_bitmap_loc (sblk s) = 1" "inode_loc (sblk s) = 72" "data_loc (sblk s) = 3656" "inode_num (sblk s) = 28672"
    using lay by (simp_all add: std_layout_def)
  have "secs_ok s (unat (3655 :: u32)) (unat (1 :: u32))" using lay by (simp add: secs_ok_def std_layout_def)
  from GFS_read_sec_spec[OF sd this]
  have rd: "GFS_read_sec 1 3655 s = Some (disk_secs s 3655 1)" by simp
  let ?m = "disk_secs s 3655 1"
  let ?bm = "\<lambda>j. if 1 \<le> j \<and> (j - 1) * SECTOR_SIZE < length ?m then words_of_sector (mem_sector ?m j) else bitmap s j"
  let ?ins = "map inode_of_bytes (take 28672 (chunks 64 (drop (71 * SECTOR_SIZE) ?m)))"
  obtain p h where ph: "(if gfsc_lru_ptr s = NULL then kmalloc_g 7262 (kh s) = Some (p, h) else p = gfsc_lru_ptr s \<and> h = kh s)" "p \<noteq> NULL"
    using lru by (cases "gfsc_lru_ptr s = NULL") (auto simp: lru_ready_def)
  define s' where "s' = s\<lparr>bitmap := ?bm, gfsc_inodes := ?ins, gfsc_lru_ptr := p, kh := h,
      gfsc_blocks := map (\<lambda>i. \<lparr>cblock = junk i, tag = 0\<rparr>) [0..<3631], gfsc_lru_aseq := map of_nat [0..<3631],
      gfsc_wrhit := 0, gfsc_wrmiss := 0, gfsc_rdhit := 0, gfsc_rdmiss := 0\<rparr>"
  have run: "GFS_cache_init junk s = Some s'"
  proof -
    have num: "(GFS_CACHE_END - (GFS_CACHE_BASE + unat (data_loc (sblk s) * of_nat SECTOR_SIZE))) div sizeof_cache_block = 3631"
      "\<not> GFS_CACHE_END \<le> GFS_CACHE_BASE + unat (data_loc (sblk s) * of_nat SECTOR_SIZE)"
      "\<not> GFS_CACHE_BASE < FREEMEM_KERNEL + NPF * NORMAL_PAGE_SIZE"
      by (simp_all add: loc GFS_CACHE_END_def GFS_CACHE_BASE_def SECTOR_SIZE_def sizeof_cache_block_def
          FREEMEM_KERNEL_def NPF_def NORMAL_PAGE_SIZE_def)
    have ln: "data_loc (sblk s) - 1 = 3655" "unat (inode_loc (sblk s)) - 1 = 71" "unat (inode_num (sblk s)) = 28672"
      by (simp_all add: loc)
    have sz: "(of_nat (3631 * 2) :: u32) = 7262" by simp
    show ?thesis
      unfolding GFS_cache_init_def Let_def num(1) if_not_P[OF num(2)] if_not_P[OF num(3)] ln loc(1) rd sz bind.simps
      using ph by (cases "gfsc_lru_ptr s = NULL") (simp_all add: s'_def)
  qed
  have fr: "disk_secs s' = disk_secs s" "secs_ok s' = secs_ok s" "sd_laws s'" "std_layout s'" "dev s' = dev s"
    using sd lay by (simp_all add: s'_def disk_secs_def secs_ok_def sd_laws_def std_layout_def fun_eq_iff)
  have bm: "bitmap s' j = words_of_sector (disk_secs s 1 j)" if "1 \<le> j" "j < 72" for j
  proof -
    have "take 512 (drop ((j - 1) * 512) ?m) = disk_secs s 1 j"
      using disk_secs_part[OF sd, of "j - 1" 1 3655 1] that by simp
    moreover have "j - 1 < 3655" using that by simp
    ultimately show ?thesis using that sd by (simp add: s'_def mem_sector_def SECTOR_SIZE_def disk_secs_length)
  qed
  have bl: "length (words_of_sector (disk_secs s 1 j)) = 64" for j
    by (simp add: words_of_sector_def disk_secs_length[OF sd])
  have ins: "gfsc_inodes s' = map inode_of_bytes (chunks 64 (disk_secs s 3584 72))"
  proof -
    have d: "drop (71 * SECTOR_SIZE) ?m = disk_secs s 3584 72"
      using disk_secs_append[OF sd, of 71 3584 1] by (simp add: SECTOR_SIZE_def disk_secs_length[OF sd])
    have l: "length (chunks 64 (disk_secs s 3584 72)) = 28672" by (simp add: disk_secs_length[OF sd])
    have "gfsc_inodes s' = map inode_of_bytes (take 28672 (chunks 64 (drop (71 * SECTOR_SIZE) ?m)))" by (simp add: s'_def)
    also have "take 28672 (chunks 64 (drop (71 * SECTOR_SIZE) ?m)) = chunks 64 (disk_secs s 3584 72)"
      unfolding d using l by simp
    finally show ?thesis .
  qed
  have "inodes_ok s'"
  proof -
    have "map inode_of_bytes (chunks 64 (disk_secs s 1 (72 + k))) = take 8 (drop (8 * k) (gfsc_inodes s'))" if "k < 3584" for k
      unfolding ins take_map drop_map
      using chunks_part[of k "disk_secs s 3584 72"] that sd disk_secs_part[OF sd, of k 1 3584 72]
      by (simp add: disk_secs_length)
    moreover have "length (gfsc_inodes s') = 28672" by (simp add: ins disk_secs_length[OF sd])
    ultimately show ?thesis unfolding inodes_ok_def fr(1) by (auto simp: ins)
  qed
  moreover have "bitmap_ok s'" using bm bl unfolding bitmap_ok_def fr(1) by auto
  moreover have "cache_ok s'"
    using aseq_init junk by (auto simp: s'_def cache_ok_def gfsc_blocks_num_def blocks_ok_def)
  ultimately have "meta_ok s'" using fr by (simp add: meta_ok_def store_ok_def)
  then show ?thesis
    using run fr(1,5) bm ins ph by (auto simp: s'_def)
qed

text \<open>
  The file system \<open>s\<close> before the kernel stops and the state \<open>m\<close> of a kernel that starts on the same card: the driver and
  the card are the same and the superblock has been read; what the memory holds besides is arbitrary.
\<close>

definition same_card :: "'d gfs \<Rightarrow> 'd gfs \<Rightarrow> bool" where
  "same_card s m \<longleftrightarrow> dev m = dev s \<and> sd_read m = sd_read s \<and> sd_write m = sd_write s \<and> GFS_base_sec m = GFS_base_sec s \<and> sblk m = sblk s"

lemma same_card_laws:
  assumes "same_card s m"
  shows "sd_laws m = sd_laws s" "std_layout m = std_layout s" "disk_secs m = disk_secs s"
  using assms by (simp_all add: same_card_def sd_laws_def std_layout_def disk_secs_def fun_eq_iff)

lemma remount_same:
  assumes ok: "meta_ok s" and card: "same_card s m" and lru: "lru_ready m" and junk: "\<And>i. length (junk i) = 4096"
  shows "\<exists>s'. GFS_cache_init junk m = Some s' \<and> meta_ok s' \<and>
    (\<forall>j \<in> {1..<72}. bitmap s' j = bitmap s j) \<and> gfsc_inodes s' = gfsc_inodes s \<and>
    (\<forall>b. disk_block s' b = disk_block s b)"
proof -
  note c = same_card_laws[OF card]
  have sd: "sd_laws s" "sd_laws m" and lay: "std_layout m" using ok by (simp_all add: c meta_ok_def store_ok_def)
  obtain s' where s': "GFS_cache_init junk m = Some s'" "meta_ok s'" "disk_secs s' = disk_secs s"
    "\<forall>j \<in> {1..<72}. bitmap s' j = words_of_sector (disk_secs s 1 j)"
    "gfsc_inodes s' = map inode_of_bytes (chunks 64 (disk_secs s 3584 72))"
    using GFS_cache_init_spec[where junk = junk, OF sd(2) lay lru junk] unfolding c by blast
  have "map inode_of_bytes (chunks 64 (disk_secs s 3584 72)) = take (8 * 3584) (gfsc_inodes s)"
    by (rule map_chunks_sectors[OF sd(1)]) (use ok in \<open>simp add: meta_ok_def inodes_ok_def\<close>)
  then have "gfsc_inodes s' = gfsc_inodes s" using s'(5) ok by (simp add: meta_ok_def inodes_ok_def)
  moreover have "\<forall>j \<in> {1..<72}. bitmap s' j = bitmap s j"
    using s'(4) ok unfolding meta_ok_def bitmap_ok_def by simp
  ultimately show ?thesis using s' by (auto simp: disk_block_def)
qed

section \<open>Properties\<close>

lemma demo_meta_ok: "meta_ok demo_fs"
proof -
  have "std_layout demo_fs" by (simp add: std_layout_def)
  moreover have "bitmap_ok demo_fs"
    unfolding bitmap_ok_def demo_disk_sector by (auto simp: demo_sector_def)
  moreover have "inodes_ok demo_fs"
    unfolding inodes_ok_def demo_disk_sector
  proof (intro conjI allI impI ballI)
    fix k :: nat assume k: "k < 3584"
    have len: "length (bytes_of_inode x) = 64" if "x \<in> set demo_inodes" for x
      using length_bytes_of_inode length_dptr_demo[OF that] by simp
    show "map inode_of_bytes (chunks 64 (pad_sector (demo_sector (72 + k)))) = take 8 (drop (8 * k) (gfsc_inodes demo_fs))"
    proof (cases k)
      case 0
      have t8: "set (take 8 demo_inodes) \<subseteq> set demo_inodes" by (rule set_take_subset)
      have "chunks 64 (concat (map bytes_of_inode (take 8 demo_inodes))) = map bytes_of_inode (take 8 demo_inodes)"
        by (rule chunks_concat) (use len t8 in auto)
      moreover have "map (\<lambda>x. inode_of_bytes (bytes_of_inode x)) (take 8 demo_inodes) = map (\<lambda>x. x) (take 8 demo_inodes)"
        by (rule map_cong) (use t8 in auto)
      moreover have "length (concat (map bytes_of_inode (take 8 demo_inodes))) = 512"
        by (subst length_concat_uniform[of _ _ 64]) (use len t8 in auto)
      ultimately show ?thesis using 0 by (simp add: demo_sector_def comp_def)
    next
      case (Suc n)
      have r: "replicate 512 (0::u8) = concat (replicate 8 (replicate 64 0))" by (simp add: numeral_eq_Suc)
      have "chunks 64 (replicate 512 (0::u8)) = replicate 8 (replicate 64 0)"
        unfolding r by (rule chunks_concat) simp_all
      moreover have "demo_sector (72 + k) = replicate 512 0" using Suc k by (simp add: demo_sector_def)
      moreover have "drop (8 * k) demo_inodes = replicate (28672 - 8 * k) zero_inode"
      proof -
        have "8 * k = Suc (Suc (8 * n + 6))" using Suc by simp
        then show ?thesis by (simp only: demo_inodes_def drop_Suc_Cons drop_replicate) simp
      qed
      moreover have "8 \<le> 28672 - 8 * k" using k by simp
      ultimately show ?thesis by (simp add: zero_inode_bytes)
    qed
  qed auto
  ultimately show ?thesis by (simp add: meta_ok_def demo_store_ok)
qed

lemma demo_lru_ready: "lru_ready demo_fs"
proof -
  have ok: "heap_ok demo_heap" by (rule heap_reach_ok[OF demo_heap_reach])
  have "unat (kmalloc_size 7262) \<le> 10000"
    by (simp add: kmalloc_size_def ROUND_def sizeof_header_def ADDR_ALIGN_def)
  then show ?thesis
    using kmalloc_g_correct[OF ok, of 7262] heap_ok_empty[OF ok demo_heap_empty]
    by (fastforce simp: lru_ready_def demo_heap_empty KSL_def)
qed

text \<open>
  C6: Block allocation takes exactly the first \<open>n\<close> clear bits of the block bitmap, in increasing order (or
  all of them when fewer are left), reports their indexes, sets them and no other bit, leaves the inode
  bitmap, the inodes and every data block alone, and keeps memory and card in agreement.
\<close>

theorem block_alloc_first_free:
  assumes "meta_ok s"
  shows "\<exists>is s'. is = take (unat n) (filter (\<lambda>i. \<not> block_bits s ! i) [0..<262144]) \<and>
    GFS_alloc_in_bitmap n (block_bitmap_loc (sblk s)) (inode_loc (sblk s)) s = Some (map of_nat is, s') \<and>
    length (block_bits s') = 262144 \<and>
    (\<forall>i < 262144. block_bits s' ! i = (block_bits s ! i \<or> i \<in> set is)) \<and>
    inode_bits s' = inode_bits s \<and> meta_ok s' \<and> bitmap_frame s s'"
proof -
  note len = length_block_bits[OF assms]
  have "((+) 0 :: nat \<Rightarrow> nat) = id" by (rule ext) simp
  then have f: "fst (grab (unat n) 0 (block_bits s)) = take (unat n) (filter (\<lambda>i. \<not> block_bits s ! i) [0..<262144])"
    using grab_fst[of "unat n" 0 "block_bits s"] len by simp
  obtain s' where s': "GFS_alloc_in_bitmap n (block_bitmap_loc (sblk s)) (inode_loc (sblk s)) s =
      Some (map of_nat (fst (grab (unat n) 0 (block_bits s))), s')"
    "block_bits s' = snd (grab (unat n) 0 (block_bits s))" "inode_bits s' = inode_bits s" "meta_ok s'" "bitmap_frame s s'"
    using GFS_alloc_block_bits[OF assms, of n] by blast
  have bit: "\<forall>i < 262144. block_bits s' ! i = (block_bits s ! i \<or> i \<in> set (fst (grab (unat n) 0 (block_bits s))))"
    using grab_snd[of _ "block_bits s" "unat n" 0] len s'(2) by simp
  show ?thesis
    by (rule exI, rule exI[of _ s'], intro conjI, rule f, rule s'(1), rule length_block_bits[OF s'(4)], rule bit, rule s'(3), rule s'(4), rule s'(5))
qed

lemma demo_block_bits: "block_bits demo_fs ! 0" "block_bits demo_fs ! 1" "\<not> block_bits demo_fs ! 2"
proof -
  have u: "[8..<72] = 8 # [9..<72]" by (simp add: upt_rec)
  have b: "bits (demo_bitmap 8) = bits_of_word 0xC000000000000000 @ bits (replicate 63 0)"
    by (simp add: demo_bitmap_def bits_def)
  have "block_bits demo_fs = bits_of_word 0xC000000000000000 @ bits (replicate 63 0) @ sec_bits demo_bitmap 9 72"
    unfolding block_bits_def sec_bits_def u by (simp add: b del: upt_rec_numeral)
  then show "block_bits demo_fs ! 0" "block_bits demo_fs ! 1" "\<not> block_bits demo_fs ! 2"
    by (simp_all add: nth_append nth_bits_of_word length_bits_of_word)
qed

theorem block_alloc_first_free_witness:
  "\<exists>s'. GFS_alloc_in_bitmap 1 8 72 demo_fs = Some ([2], s') \<and> block_bits s' ! 2 \<and> meta_ok s'"
proof -
  have "take 1 (filter P [0..<n]) = [2]" if "2 < n" "\<not> P 0" "\<not> P 1" "P 2" for P n
    using that by (simp add: upt_conv_Cons numeral_eq_Suc)
  from this[of 262144 "\<lambda>i. \<not> block_bits demo_fs ! i"] demo_block_bits
  have f: "take 1 (filter (\<lambda>i. \<not> block_bits demo_fs ! i) [0..<262144]) = [2]" by (simp del: upt_rec_numeral)
  show ?thesis using block_alloc_first_free[OF demo_meta_ok, of 1] f
    by (elim exE conjE) (simp del: upt_rec_numeral)
qed

text \<open>
  Freeing a block clears exactly its bit, on the card as well; an index beyond the bitmap is refused
  with 1 and changes nothing.
\<close>

theorem block_free_one_bit:
  assumes "meta_ok s"
  shows "\<exists>s'. GFS_free_in_bitmap i (block_bitmap_loc (sblk s)) (inode_loc (sblk s)) s =
      Some (if unat i < 262144 then 0 else 1, s') \<and>
    block_bits s' = (block_bits s)[unat i := False] \<and> inode_bits s' = inode_bits s \<and> meta_ok s' \<and> bitmap_frame s s'"
proof -
  have l: "block_bitmap_loc (sblk s) = 8" "inode_loc (sblk s) = 72"
    using assms by (simp_all add: meta_ok_def std_layout_def)
  show ?thesis
  proof (cases "unat i < 262144")
    case True
    obtain s' where s': "GFS_free_in_bitmap i 8 72 s = Some (0, s')" "meta_ok s'" "bitmap_frame s s'"
      "sec_bits (bitmap s') 8 72 = (sec_bits (bitmap s) 8 72)[unat i := False]"
      "\<forall>k. k < 8 \<or> 72 \<le> k \<longrightarrow> bitmap s' k = bitmap s k"
      using GFS_free_in_bitmap_spec[OF assms, of 8 72 i] True by auto
    have "sec_bits (bitmap s') 1 8 = sec_bits (bitmap s) 1 8" by (rule sec_bits_cong) (use s'(5) in simp)
    then show ?thesis using s' True l by (simp add: block_bits_def inode_bits_def)
  next
    case False
    then have "(72 - 8) * of_nat SECTOR_SIZE * 8 \<le> i" by (simp add: SECTOR_SIZE_def word_le_nat_alt)
    then show ?thesis
      using False l assms length_block_bits[OF assms] by (simp add: GFS_free_in_bitmap_def list_update_beyond)
  qed
qed

theorem block_free_one_bit_witness:
  "\<exists>s'. GFS_free_in_bitmap 1 8 72 demo_fs = Some (0, s') \<and> block_bits s' = (block_bits demo_fs)[1 := False] \<and> meta_ok s'"
  using block_free_one_bit[OF demo_meta_ok, of 1] by auto

text \<open>
  C10: The bit-clearing loop counts: the number reported by \<^verbatim>\<open>statfs\<close> for used blocks is the number of set
  bits of the bitmap.
\<close>

theorem block_count_is_popcount:
  assumes "meta_ok s"
  shows "unat (GFS_count_in_bitmap (block_bitmap_loc (sblk s)) (inode_loc (sblk s)) s) = count_list (block_bits s) True"
proof -
  have l: "block_bitmap_loc (sblk s) = 8" "inode_loc (sblk s) = 72"
    using assms by (simp_all add: meta_ok_def std_layout_def)
  have "GFS_count_loop 72 8 0 s = of_nat (count_list (block_bits s) True)"
    using GFS_count_loop_spec[of 8 72 s 0] assms by (simp add: block_bits_def meta_ok_def bitmap_ok_def)
  moreover have "count_list (block_bits s) True \<le> 262144"
    using count_le_length[of "block_bits s" True] length_block_bits[OF assms] by simp
  ultimately show ?thesis by (simp add: GFS_count_in_bitmap_def l unat_of_nat)
qed

theorem block_count_is_popcount_witness:
  "unat (GFS_count_in_bitmap 8 72 demo_fs) = count_list (block_bits demo_fs) True"
  using block_count_is_popcount[OF demo_meta_ok] by simp

text \<open>
  C8: An inode that is written is read back, all other inodes and all data blocks keep their contents, and
  the sector on the card agrees with memory again; an inode number out of range is refused with -1.
\<close>

theorem inode_write_read:
  assumes "meta_ok s" and "length (dptr x) = 10"
  shows "\<exists>s'. GFS_write_inode i x s = Some (if unat i < 28672 then 0 else -1, s') \<and> meta_ok s' \<and> inode_frame s s' \<and>
    (\<forall>j. GFS_read_inode j s' = (if j = i \<and> unat i < 28672 then Some (0, Some x) else GFS_read_inode j s))"
proof (cases "unat i < 28672")
  case True
  obtain s' where s': "GFS_write_inode i x s = Some (0, s')" "meta_ok s'" "inode_frame s s'"
    "gfsc_inodes s' = (gfsc_inodes s)[unat i := x]"
    using GFS_write_inode_spec[OF assms(1) True assms(2)] by blast
  have "length (gfsc_inodes s) = 28672" using assms(1) by (simp add: meta_ok_def inodes_ok_def)
  then show ?thesis
    using s' True GFS_read_inode_spec[OF assms(1)] GFS_read_inode_spec[OF s'(2)]
    by (auto simp: nth_list_update word_unat_eq_iff)
next
  case False
  then show ?thesis
    using assms(1) by (auto simp: GFS_write_inode_def meta_ok_def std_layout_def word_le_nat_alt inode_frame_def)
qed

theorem inode_write_read_witness:
  "\<exists>s'. GFS_write_inode 5 demo_root demo_fs = Some (0, s') \<and> GFS_read_inode 5 s' = Some (0, Some demo_root)"
  using inode_write_read[OF demo_meta_ok, of demo_root 5] by (auto simp: demo_root_def)

text \<open>
  C7: Nothing is lost when the kernel stops and mounts the card again. Whatever is in memory when the new kernel starts (the
  bitmaps, the inode table and the block cache may hold anything), loading the metadata from a card that a consistent file system has
  written gives back its bitmaps, its inode table and its data blocks, and the file system is consistent again.
\<close>

theorem remount_keeps_everything:
  assumes "meta_ok s" and "same_card s m" and "lru_ready m" and "\<forall>i. length (junk i) = 4096"
  shows "\<exists>s'. GFS_cache_init junk m = Some s' \<and> meta_ok s' \<and>
    (\<forall>j. 1 \<le> j \<and> j < 72 \<longrightarrow> bitmap s' j = bitmap s j) \<and> gfsc_inodes s' = gfsc_inodes s \<and>
    (\<forall>b. disk_block s' b = disk_block s b)"
  using remount_same[OF assms(1-3), of junk] assms(4) by auto

text \<open>The memory of the kernel is empty before.\<close>

theorem remount_keeps_everything_witness:
  "\<exists>s'. GFS_cache_init (\<lambda>_. replicate 4096 3) (demo_fs\<lparr>bitmap := \<lambda>_. [], gfsc_inodes := [], gfsc_blocks := []\<rparr>) = Some s' \<and>
     gfsc_inodes s' = demo_inodes \<and> bitmap s' 8 = bitmap demo_fs 8"
proof -
  let ?m = "demo_fs\<lparr>bitmap := \<lambda>_. [], gfsc_inodes := [], gfsc_blocks := []\<rparr>"
  have c: "same_card demo_fs ?m" by (simp add: same_card_def)
  have l: "lru_ready ?m" using demo_lru_ready by (simp add: lru_ready_def)
  obtain s' where s': "GFS_cache_init (\<lambda>_. replicate 4096 3) ?m = Some s'" "\<forall>j. 1 \<le> j \<and> j < 72 \<longrightarrow> bitmap s' j = bitmap demo_fs j"
    "gfsc_inodes s' = gfsc_inodes demo_fs"
    using remount_keeps_everything[OF demo_meta_ok c l, of "\<lambda>_. replicate 4096 3"] by auto
  show ?thesis by (rule exI[of _ s']) (use s'(1,3) s'(2)[rule_format, of 8] in simp)
qed

end
