(* ===== verification/GfsPath.thy ===== *)
theory GfsPath
  imports GfsMeta
begin

text \<open>
  Directories as they are searched, and paths (\<^verbatim>\<open>kernel/fs/gfs-path.c\<close>).

  \<open>fproc\<close> is the part of a PCB the file system uses. A string argument is the buffer it is in; a local
  buffer starts as zeros (the code never reads it before it is written). Reading a block may change
  the cache, so every search returns the state, too.

  The lemmas show that a search is a lookup in the list of the directory's entries, that \<open>path_anal\<close>
  is the walk over the first 16 components of the path, and what \<open>path_squeeze\<close> does to the paths
  \<^verbatim>\<open>cd\<close> makes; a theorem records a path on which it goes wrong.
\<close>

record fproc =
  cpath :: cbuf
  cur_ino :: u32
  fds :: "file_desc list"

section \<open>Searching a directory\<close>

fun find_dentry :: "GFS_dentry list \<Rightarrow> cbuf \<Rightarrow> nat \<Rightarrow> u32 option" where
  "find_dentry [] b f = Some DENTRY_INVALID_INO"
| "find_dentry (d # ds) b f =
     (if ino d \<noteq> DENTRY_INVALID_INO then do {
        c \<leftarrow> strcmp (fname d) 0 b f;
        if c = 0 then Some (ino d) else find_dentry ds b f
      } else find_dentry ds b f)"

fun search_dentry_on_ptr_arr :: "u32 list \<Rightarrow> cbuf \<Rightarrow> nat \<Rightarrow> 'd gfs \<Rightarrow> (u32 \<times> 'd gfs) option" where
  "search_dentry_on_ptr_arr [] b f s = Some (DENTRY_INVALID_INO, s)"
| "search_dentry_on_ptr_arr (p # ps) b f s =
     (if p = INODE_INVALID_PTR then search_dentry_on_ptr_arr ps b f s
      else do {
        (buf, _, s1) \<leftarrow> GFS_read_block p s;
        i \<leftarrow> find_dentry (dentries_of_block buf) b f;
        if i \<noteq> DENTRY_INVALID_INO then Some (i, s1) else search_dentry_on_ptr_arr ps b f s1
      })"

definition search_dentry_in_dir_inode :: "GFS_inode \<Rightarrow> cbuf \<Rightarrow> nat \<Rightarrow> 'd gfs \<Rightarrow> (u32 \<times> 'd gfs) option" where
  "search_dentry_in_dir_inode x b f s =
     (if itype x \<noteq> IT_DIR then Some (DENTRY_INVALID_INO, s)
      else do {
        (i, s1) \<leftarrow> search_dentry_on_ptr_arr (dptr x) b f s;
        if i = DENTRY_INVALID_INO \<and> idptr x \<noteq> INODE_INVALID_PTR then do {
          (buf, _, s2) \<leftarrow> GFS_read_block (idptr x) s1;
          search_dentry_on_ptr_arr (ptrs_of_block buf) b f s2
        } else Some (i, s1)
      })"

section \<open>Paths\<close>

fun path_walk :: "cbuf \<Rightarrow> nat list \<Rightarrow> u32 \<Rightarrow> 'd gfs \<Rightarrow> (u32 \<times> 'd gfs) option" where
  "path_walk b [] cur s =
     (if cur \<ge> inode_num (sblk s) then Some (DENTRY_INVALID_INO, GFS_panic s) else Some (cur, s))"
| "path_walk b (f # fs) cur s = do {
     (rt, xo) \<leftarrow> GFS_read_inode cur s;
     case xo of None \<Rightarrow> Some (DENTRY_INVALID_INO, GFS_panic s)
     | Some x \<Rightarrow>
         if itype x \<noteq> IT_DIR then Some (DENTRY_INVALID_INO, s)
         else do {
           (i, s1) \<leftarrow> search_dentry_in_dir_inode x b f s;
           if i = DENTRY_INVALID_INO then Some (DENTRY_INVALID_INO, s1) else path_walk b fs i s1
         }
   }"

definition path_anal :: "fproc \<Rightarrow> cbuf \<Rightarrow> 'd gfs \<Rightarrow> (u32 \<times> 'd gfs) option" where
  "path_anal pc spath s = do {
     l \<leftarrow> strlen spath 0;
     if l > PATH_LEN then Some (DENTRY_INVALID_INO, s)
     else do {
       path \<leftarrow> strcpy (replicate (PATH_LEN + 1) NUL) 0 spath 0;
       let cur = (if path ! 0 = CHR ''/'' then 0 else cur_ino pc);
       (b, fnames) \<leftarrow> split path (if path ! 0 = CHR ''/'' then 1 else 0) CHR ''/'' 16;
       path_walk b fnames cur s
     }
   }"

text \<open>\<^verbatim>\<open>path_squeeze\<close>: \<open>fn\<close> is the array of pointers, \<open>None\<close> for \<^verbatim>\<open>NULL\<close>.\<close>

function squeeze_scan :: "cbuf \<Rightarrow> nat option list \<Rightarrow> nat \<Rightarrow> int \<Rightarrow> nat option list option" where
  "squeeze_scan b fn i j =
     (if i < length fn then do {
        q \<leftarrow> fn ! i;
        c \<leftarrow> strcmp b q (''..'' @ [NUL]) 0;
        if c = 0 then
          (if j \<ge> 0 then squeeze_scan b ((fn[i := None])[nat j := None]) (i + 1) (j - 1)
           else squeeze_scan b (fn[i := None]) (i + 1) j)
        else do {
          c1 \<leftarrow> strcmp b q (''.'' @ [NUL]) 0;
          if c1 = 0 then squeeze_scan b (fn[i := None]) (i + 1) j
          else squeeze_scan b fn (i + 1) (int i)
        }
      } else Some fn)"
  by pat_completeness auto
termination by (relation "measure (\<lambda>(b, fn, i, j). length fn - i)") auto

function squeeze_copy :: "cbuf \<Rightarrow> nat \<Rightarrow> nat \<Rightarrow> (cbuf \<times> nat) option" where
  "squeeze_copy b q l =
     (if q < length b then
        (if b ! q \<noteq> NUL then
           (if l + 1 < length b then squeeze_copy (b[l + 1 := b ! q]) (q + 1) (l + 1) else None)
         else Some (b, l))
      else None)"
  by pat_completeness auto
termination by (relation "measure (\<lambda>(b, q, l). length b - q)") auto

declare squeeze_scan.simps [simp del] squeeze_copy.simps [simp del]

fun squeeze_join :: "cbuf \<Rightarrow> nat option list \<Rightarrow> nat \<Rightarrow> (cbuf \<times> nat) option" where
  "squeeze_join b [] l = Some (b, l)"
| "squeeze_join b (None # fn) l = squeeze_join b fn l"
| "squeeze_join b (Some q # fn) l = do {
     (b1, l1) \<leftarrow> squeeze_copy b q l;
     b2 \<leftarrow> upd_chk b1 (l1 + 1) CHR ''/'';
     squeeze_join b2 fn (l1 + 1)
   }"

definition path_squeeze :: "cbuf \<Rightarrow> (nat \<times> cbuf) option" where
  "path_squeeze path = do {
     c \<leftarrow> nth_chk path 0;
     if c \<noteq> CHR ''/'' then Some (0, path)
     else do {
       (b, fnames) \<leftarrow> split path 1 CHR ''/'' 20;
       fn \<leftarrow> squeeze_scan b (map Some fnames) 0 (-1);
       (b1, l) \<leftarrow> squeeze_join b fn 0;
       let l = (if l > 0 then l - 1 else l);
       b2 \<leftarrow> upd_chk b1 (l + 1) NUL;
       Some (l + 1, b2)
     }
   }"

text \<open>The loop that looks for the last slash from index \<open>n - 1\<close> down; -1 if there is none.\<close>

fun last_slash :: "cbuf \<Rightarrow> nat \<Rightarrow> int" where
  "last_slash b 0 = -1"
| "last_slash b (Suc n) = (if b ! n = CHR ''/'' then int n else last_slash b n)"

text \<open>\<open>path_anal_2\<close> returns the parent's inode, the buffer and the offset of the target name in it.\<close>

definition path_anal_2 :: "fproc \<Rightarrow> cbuf \<Rightarrow> cbuf \<Rightarrow> 'd gfs \<Rightarrow> (u32 \<times> cbuf \<times> nat \<times> 'd gfs) option" where
  "path_anal_2 pc spath tpath s = do {
     t1 \<leftarrow> strncpy tpath 0 spath 0 PATH_LEN;
     t2 \<leftarrow> upd_chk t1 PATH_LEN NUL;
     l \<leftarrow> strlen t2 0;
     let ils = last_slash t2 (l + 1);
     let t3 = (if ils \<ge> 0 then t2[nat ils := NUL] else t2);
     let tname = nat (ils + 1);
     if ils = 0 then Some (0, t3, tname, s)
     else if ils < 0 then Some (cur_ino pc, t3, tname, s)
     else do {
       (ppino, s1) \<leftarrow> path_anal pc t3 s;
       Some (ppino, t3, tname, s1)
     }
   }"

definition do_getpath :: "fproc \<Rightarrow> u64 \<Rightarrow> cbuf \<Rightarrow> (u32 \<times> cbuf) option" where
  "do_getpath pc addr path =
     (if addr \<ge> KVA_MIN then Some (DENTRY_INVALID_INO, path)
      else do {
        path' \<leftarrow> strcpy path 0 (cpath pc) 0;
        Some (cur_ino pc, path')
      })"

text \<open>The new current path before it is squeezed.\<close>

definition changedir_path :: "cbuf \<Rightarrow> nat \<Rightarrow> cbuf \<Rightarrow> cbuf option" where
  "changedir_path cp cplen tpath = do {
     c0 \<leftarrow> nth_chk tpath 0;
     if c0 = CHR ''/'' then strcpy cp 0 tpath 0
     else if cplen = 0 then None
     else do {
       c \<leftarrow> nth_chk cp (cplen - 1);
       cp1 \<leftarrow> (if c \<noteq> CHR ''/'' then do {
                a \<leftarrow> upd_chk cp cplen CHR ''/'';
                upd_chk a (cplen + 1) NUL
              } else Some cp);
       strcat cp1 0 tpath 0
     }
   }"

definition do_changedir :: "fproc \<Rightarrow> cbuf \<Rightarrow> 'd gfs \<Rightarrow> (int \<times> fproc \<times> 'd gfs) option" where
  "do_changedir pc tpath s = do {
     cplen \<leftarrow> strlen (cpath pc) 0;
     tplen \<leftarrow> strlen tpath 0;
     c0 \<leftarrow> nth_chk tpath 0;
     if tplen > PATH_LEN \<or> (c0 \<noteq> CHR ''/'' \<and> cplen + tplen + 1 > PATH_LEN) then Some (2, pc, s)
     else do {
       (target_ino, s1) \<leftarrow> path_anal pc tpath s;
       if target_ino = DENTRY_INVALID_INO then Some (1, pc, s1)
       else do {
         (_, xo) \<leftarrow> GFS_read_inode target_ino s1;
         x \<leftarrow> xo;
         if itype x \<noteq> IT_DIR then Some (1, pc, s1)
         else do {
           cp \<leftarrow> changedir_path (cpath pc) cplen tpath;
           s4 \<leftarrow> (if target_ino \<noteq> cur_ino pc then do {
                   (r, s2) \<leftarrow> flist_dec_fnode (cur_ino pc) False s1;
                   let s3 = (if r \<noteq> 0 then GFS_panic s2 else s2);
                   (_, s4) \<leftarrow> flist_inc_fnode target_ino False s3;
                   Some s4
                 } else Some s1);
           (n, cp') \<leftarrow> path_squeeze cp;
           if n = 0 then None
           else Some (0, pc\<lparr>cpath := cp', cur_ino := target_ino\<rparr>, s4)
         }
       }
     }
   }"

section \<open>Directories as lists of entries\<close>

definition blk_entries :: "'d gfs \<Rightarrow> u32 \<Rightarrow> GFS_dentry list" where
  "blk_entries s p = (if p = INODE_INVALID_PTR then [] else dentries_of_block (disk_block s p))"

definition ptr_entries :: "'d gfs \<Rightarrow> u32 list \<Rightarrow> GFS_dentry list" where
  "ptr_entries s ps = concat (map (blk_entries s) ps)"

definition dir_dentries :: "'d gfs \<Rightarrow> GFS_inode \<Rightarrow> GFS_dentry list" where
  "dir_dentries s x = ptr_entries s (dptr x) @
     (if idptr x = INODE_INVALID_PTR then [] else ptr_entries s (ptrs_of_block (disk_block s (idptr x))))"

definition live_entries :: "GFS_dentry list \<Rightarrow> (string \<times> u32) list" where
  "live_entries ds = map (\<lambda>d. (cstr (fname d) 0, ino d)) (filter (\<lambda>d. ino d \<noteq> DENTRY_INVALID_INO) ds)"

definition lookup :: "GFS_dentry list \<Rightarrow> string \<Rightarrow> u32" where
  "lookup ds nm = (case map_of (live_entries ds) nm of None \<Rightarrow> DENTRY_INVALID_INO | Some i \<Rightarrow> i)"

definition ptrs_ok :: "'d gfs \<Rightarrow> u32 list \<Rightarrow> bool" where
  "ptrs_ok s ps \<longleftrightarrow> (\<forall>p \<in> set ps. p \<noteq> INODE_INVALID_PTR \<longrightarrow> blk_valid s p)"

definition names_ok :: "GFS_dentry list \<Rightarrow> bool" where
  "names_ok ds \<longleftrightarrow> (\<forall>d \<in> set ds. ino d \<noteq> DENTRY_INVALID_INO \<longrightarrow> terminated (fname d) 0)"

definition dir_ok :: "'d gfs \<Rightarrow> GFS_inode \<Rightarrow> bool" where
  "dir_ok s x \<longleftrightarrow> itype x = IT_DIR \<and> ptrs_ok s (dptr x) \<and>
     (idptr x \<noteq> INODE_INVALID_PTR \<longrightarrow>
        blk_valid s (idptr x) \<and> ptrs_ok s (ptrs_of_block (disk_block s (idptr x)))) \<and>
     names_ok (dir_dentries s x)"

text \<open>What a search does to the state: the cache changes, the contents of the card do not.\<close>

definition read_only :: "'d gfs \<Rightarrow> 'd gfs \<Rightarrow> bool" where
  "read_only s s' \<longleftrightarrow> store_ok s' \<and> store_frame s s' \<and> disk_block s' = disk_block s"

lemma read_only_refl: "store_ok s \<Longrightarrow> read_only s s"
  by (simp add: read_only_def bs.same_refl)

lemma read_only_trans: "read_only s s' \<Longrightarrow> read_only s' s'' \<Longrightarrow> read_only s s''"
  using bs.same_trans[of s s' s''] by (simp add: read_only_def)

lemma read_only_fields:
  assumes "read_only s s'"
  shows "GFS_base_sec s' = GFS_base_sec s" "sblk s' = sblk s" "bitmap s' = bitmap s"
    "gfsc_inodes s' = gfsc_inodes s" "flh s' = flh s" "fnodes s' = fnodes s" "kh s' = kh s"
    "npanic s' = npanic s" "blk_valid s' = blk_valid s" "disk_block s' = disk_block s"
proof -
  have cf: "cache_frame s s'" "disk_block s' = disk_block s" using assms by (simp_all add: read_only_def store_frame_def)
  note f = cache_frame_fields[OF cf(1)]
  show "GFS_base_sec s' = GFS_base_sec s" "sblk s' = sblk s" "bitmap s' = bitmap s"
    "gfsc_inodes s' = gfsc_inodes s" "flh s' = flh s" "fnodes s' = fnodes s" "kh s' = kh s"
    "npanic s' = npanic s" "blk_valid s' = blk_valid s" "disk_block s' = disk_block s"
    by (rule f cf(2))+
qed

lemma ptr_entries_cong: "disk_block s' = disk_block s \<Longrightarrow> ptr_entries s' = ptr_entries s"
proof -
  assume "disk_block s' = disk_block s"
  then have "blk_entries s' = blk_entries s" by (intro ext) (simp add: blk_entries_def)
  then show ?thesis by (intro ext) (simp add: ptr_entries_def)
qed

lemma store_frame_meta:
  assumes "meta_ok s" and "store_ok s'" and "store_frame s s'"
  shows "meta_ok s'"
proof -
  have cf: "cache_frame s s'" and sd: "sd_laws s" and lay: "std_layout s"
    using assms by (auto simp: store_frame_def meta_ok_def store_ok_def)
  note f = cache_frame_fields[OF cf]
  have dl: "unat (data_loc (sblk s)) = 3656" using lay by (simp add: std_layout_def)
  have ds: "disk_secs s' n k = disk_secs s n k" if "k + n \<le> 3656" for n k
    using assms(3) sd that dl by (simp add: store_frame_def)
  have "bitmap_ok s'" using assms(1) ds[of _ 1] by (simp add: meta_ok_def bitmap_ok_def f)
  moreover have "inodes_ok s'" using assms(1) ds[of _ 1] by (simp add: meta_ok_def inodes_ok_def f)
  moreover have "std_layout s'" using lay by (simp add: std_layout_def f)
  ultimately show ?thesis using assms(2) by (simp add: meta_ok_def)
qed

lemma read_only_meta: "meta_ok s \<Longrightarrow> read_only s s' \<Longrightarrow> meta_ok s'"
  by (auto simp: read_only_def intro: store_frame_meta)

lemma GFS_read_block_ro:
  assumes "store_ok s" and "blk_valid s b"
  obtains r s' where "GFS_read_block b s = Some (disk_block s b, r, s')" "read_only s s'"
  by (rule bs.rd_cases[OF assms]) (rule that, auto simp: read_only_def)

lemma lookup_append:
  "lookup (ds @ es) nm = (if lookup ds nm \<noteq> DENTRY_INVALID_INO then lookup ds nm else lookup es nm)"
proof -
  have "i \<noteq> DENTRY_INVALID_INO" if "map_of (live_entries ds) nm = Some i" for i
    using map_of_SomeD[OF that] by (auto simp: live_entries_def)
  moreover have "live_entries (ds @ es) = live_entries ds @ live_entries es" by (simp add: live_entries_def)
  ultimately show ?thesis by (auto simp: lookup_def map_add_def split: option.splits)
qed

lemma lookup_Nil [simp]: "lookup [] nm = DENTRY_INVALID_INO"
  by (simp add: lookup_def live_entries_def)

lemma lookup_Cons:
  "lookup (d # ds) nm = (if ino d \<noteq> DENTRY_INVALID_INO \<and> cstr (fname d) 0 = nm then ino d else lookup ds nm)"
  by (auto simp: lookup_def live_entries_def)

lemma find_dentry_spec:
  assumes "terminated b f" and "names_ok ds"
  shows "find_dentry ds b f = Some (lookup ds (cstr b f))"
  using assms(2)
proof (induction ds)
  case (Cons d ds)
  then have IH: "find_dentry ds b f = Some (lookup ds (cstr b f))" by (simp add: names_ok_def)
  show ?case
  proof (cases "ino d = DENTRY_INVALID_INO")
    case False
    then have "terminated (fname d) 0" using Cons(2) by (simp add: names_ok_def)
    then show ?thesis
      using IH False assms(1) by (simp add: lookup_Cons strcmp_diff str_diff_0_iff)
  qed (use IH in \<open>simp add: lookup_Cons\<close>)
qed simp

lemma search_ptr_arr_spec:
  assumes "store_ok s" and "ptrs_ok s ps" and "names_ok (ptr_entries s ps)" and b: "terminated b f"
  shows "\<exists>s'. search_dentry_on_ptr_arr ps b f s = Some (lookup (ptr_entries s ps) (cstr b f), s') \<and> read_only s s'"
  using assms(1-3)
proof (induction ps arbitrary: s)
  case Nil
  then show ?case by (simp add: ptr_entries_def read_only_refl)
next
  case (Cons p ps)
  show ?case
  proof (cases "p = INODE_INVALID_PTR")
    case True
    have "ptr_entries s (p # ps) = ptr_entries s ps" using True by (simp add: ptr_entries_def blk_entries_def)
    then show ?thesis using Cons True by (simp add: ptrs_ok_def)
  next
    case False
    let ?ds = "dentries_of_block (disk_block s p)"
    have pe: "ptr_entries s (p # ps) = ?ds @ ptr_entries s ps" using False by (simp add: ptr_entries_def blk_entries_def)
    have v: "blk_valid s p" using Cons(3) False by (simp add: ptrs_ok_def)
    obtain r s1 where r: "GFS_read_block p s = Some (disk_block s p, r, s1)" "read_only s s1"
      using GFS_read_block_ro[OF Cons(2) v] .
    note f = read_only_fields[OF r(2)]
    have "ptr_entries s1 ps = ptr_entries s ps" by (simp add: ptr_entries_cong[OF f(10)])
    moreover have "ptrs_ok s1 ps" using Cons(3) by (simp add: ptrs_ok_def f)
    moreover have "names_ok (ptr_entries s ps)" "names_ok ?ds" using Cons(4) by (auto simp: names_ok_def pe)
    moreover have "store_ok s1" using r(2) by (simp add: read_only_def)
    ultimately obtain s2 where s2: "search_dentry_on_ptr_arr ps b f s1 = Some (lookup (ptr_entries s ps) (cstr b f), s2)" "read_only s1 s2"
      using Cons(1)[of s1] by auto
    have "find_dentry ?ds b f = Some (lookup ?ds (cstr b f))"
      by (rule find_dentry_spec[OF b \<open>names_ok ?ds\<close>])
    then show ?thesis
      using False r s2 read_only_trans[OF r(2) s2(2)] by (auto simp: pe lookup_append)
  qed
qed

lemma search_dir_spec:
  assumes ok: "store_ok s" and d: "dir_ok s x" and b: "terminated b f"
  shows "\<exists>s'. search_dentry_in_dir_inode x b f s = Some (lookup (dir_dentries s x) (cstr b f), s') \<and> read_only s s'"
proof -
  let ?e = "ptr_entries s (dptr x)" and ?nm = "cstr b f"
  have "names_ok ?e" using d by (simp add: dir_ok_def names_ok_def dir_dentries_def)
  then obtain s1 where s1: "search_dentry_on_ptr_arr (dptr x) b f s = Some (lookup ?e ?nm, s1)" "read_only s s1"
    using search_ptr_arr_spec[OF ok, of "dptr x" b f] d b by (auto simp: dir_ok_def)
  note f = read_only_fields[OF s1(2)]
  show ?thesis
  proof (cases "lookup ?e ?nm = DENTRY_INVALID_INO \<and> idptr x \<noteq> INODE_INVALID_PTR")
    case False
    then have "lookup (dir_dentries s x) ?nm = lookup ?e ?nm" by (auto simp: dir_dentries_def lookup_append)
    moreover have "search_dentry_in_dir_inode x b f s = Some (lookup ?e ?nm, s1)"
      using d s1(1) False by (auto simp: search_dentry_in_dir_inode_def dir_ok_def)
    ultimately show ?thesis using s1(2) by simp
  next
    case True
    let ?ps = "ptrs_of_block (disk_block s (idptr x))"
    have st: "store_ok s1" using s1(2) by (simp add: read_only_def)
    have v: "blk_valid s1 (idptr x)" "ptrs_ok s ?ps" using d True by (auto simp: dir_ok_def f)
    obtain r s2 where r: "GFS_read_block (idptr x) s1 = Some (disk_block s1 (idptr x), r, s2)" "read_only s1 s2"
      using GFS_read_block_ro[OF st v(1)] .
    note ro = read_only_trans[OF s1(2) r(2)]
    note f2 = read_only_fields[OF ro]
    have e2: "ptr_entries s2 ?ps = ptr_entries s ?ps" by (simp add: ptr_entries_cong[OF f2(10)])
    have nm: "names_ok (ptr_entries s ?ps)" using d True by (simp add: dir_ok_def names_ok_def dir_dentries_def)
    obtain s3 where s3: "search_dentry_on_ptr_arr ?ps b f s2 = Some (lookup (ptr_entries s ?ps) ?nm, s3)" "read_only s2 s3"
      using search_ptr_arr_spec[of s2 ?ps b f] v(2) nm b ro by (auto simp: e2 read_only_def ptrs_ok_def f2)
    have "search_dentry_in_dir_inode x b f s = Some (lookup (ptr_entries s ?ps) ?nm, s3)"
      using d True s1(1) r(1) s3(1) by (simp add: search_dentry_in_dir_inode_def dir_ok_def f)
    moreover have "lookup (dir_dentries s x) ?nm = lookup (ptr_entries s ?ps) ?nm"
      using True by (simp add: dir_dentries_def lookup_append)
    ultimately show ?thesis using read_only_trans[OF ro s3(2)] by simp
  qed
qed

section \<open>Resolving a path\<close>

text \<open>
  The directory tree: every directory inode in use is well-formed, and its entries name inodes in use.
\<close>

definition used_ino :: "'d gfs \<Rightarrow> u32 \<Rightarrow> bool" where
  "used_ino s i \<longleftrightarrow> unat i < 28672 \<and> inode_bits s ! unat i"

definition tree_ok :: "'d gfs \<Rightarrow> bool" where
  "tree_ok s \<longleftrightarrow>
     (\<forall>i. used_ino s i \<and> itype (gfsc_inodes s ! unat i) = IT_DIR \<longrightarrow>
        dir_ok s (gfsc_inodes s ! unat i) \<and>
        (\<forall>(nm, k) \<in> set (live_entries (dir_dentries s (gfsc_inodes s ! unat i))). used_ino s k))"

fun resolve :: "'d gfs \<Rightarrow> string list \<Rightarrow> u32 \<Rightarrow> u32" where
  "resolve s [] cur = cur"
| "resolve s (n # ns) cur =
     (let x = gfsc_inodes s ! unat cur in
      if itype x \<noteq> IT_DIR then DENTRY_INVALID_INO
      else (let i = lookup (dir_dentries s x) n in
            if i = DENTRY_INVALID_INO then DENTRY_INVALID_INO else resolve s ns i))"

lemma dir_dentries_cong:
  assumes d: "disk_block s' = disk_block s" shows "dir_dentries s' = dir_dentries s"
  by (rule ext) (simp add: dir_dentries_def ptr_entries_cong[OF d] d)

lemma dir_ok_cong:
  assumes d: "disk_block s' = disk_block s" and v: "blk_valid s' = blk_valid s" shows "dir_ok s' x = dir_ok s x"
  by (simp add: dir_ok_def ptrs_ok_def dir_dentries_cong[OF d] d v)

lemma tree_ok_read_only:
  assumes "read_only s s'"
  shows "tree_ok s' = tree_ok s" and "used_ino s' = used_ino s" and "resolve s' ns cur = resolve s ns cur"
proof -
  note f = read_only_fields[OF assms]
  show u: "used_ino s' = used_ino s" by (intro ext) (simp add: used_ino_def inode_bits_def f)
  show "tree_ok s' = tree_ok s"
    unfolding tree_ok_def u f(4) dir_dentries_cong[OF f(10)] dir_ok_cong[OF f(10) f(9)] ..
  show "resolve s' ns cur = resolve s ns cur"
    by (induction ns arbitrary: cur) (simp_all add: f(4) dir_dentries_cong[OF f(10)] Let_def)
qed

lemma lookup_live: "lookup ds nm \<noteq> DENTRY_INVALID_INO \<Longrightarrow> (nm, lookup ds nm) \<in> set (live_entries ds)"
  by (auto simp: lookup_def split: option.splits dest: map_of_SomeD)

lemma path_walk_spec:
  assumes "meta_ok s" and "tree_ok s" and "used_ino s cur" and "\<forall>q \<in> set fs. terminated b q"
  shows "\<exists>s'. path_walk b fs cur s = Some (resolve s (map (cstr b) fs) cur, s') \<and> read_only s s'"
  using assms
proof (induction fs arbitrary: cur s)
  case Nil
  then have "\<not> cur \<ge> inode_num (sblk s)"
    by (simp add: meta_ok_def std_layout_def used_ino_def word_le_nat_alt)
  then show ?case using Nil by (simp add: read_only_refl meta_ok_def)
next
  case (Cons f fs)
  let ?x = "gfsc_inodes s ! unat cur"
  have rd: "GFS_read_inode cur s = Some (0, Some ?x)"
    using GFS_read_inode_spec[OF Cons(2), of cur] Cons(4) by (simp add: used_ino_def)
  have st: "store_ok s" using Cons(2) by (simp add: meta_ok_def)
  show ?case
  proof (cases "itype ?x = IT_DIR")
    case False
    then show ?thesis using rd st by (auto simp: read_only_refl Let_def)
  next
    case True
    then have d: "dir_ok s ?x" and e: "\<forall>(nm, k) \<in> set (live_entries (dir_dentries s ?x)). used_ino s k"
      using Cons(3,4) by (auto simp: tree_ok_def)
    let ?i = "lookup (dir_dentries s ?x) (cstr b f)"
    obtain s1 where s1: "search_dentry_in_dir_inode ?x b f s = Some (?i, s1)" "read_only s s1"
      using search_dir_spec[OF st d, of b f] Cons(5) by auto
    show ?thesis
    proof (cases "?i = DENTRY_INVALID_INO")
      case i: True
      then show ?thesis using True rd s1 by (auto simp: Let_def)
    next
      case False
      then have u: "used_ino s ?i" using e lookup_live[OF False] by auto
      note t = tree_ok_read_only[OF s1(2)]
      obtain s2 where s2: "path_walk b fs ?i s1 = Some (resolve s1 (map (cstr b) fs) ?i, s2)" "read_only s1 s2"
        using Cons(1)[of s1 ?i] read_only_meta[OF Cons(2) s1(2)] t Cons(3,5) u by auto
      then show ?thesis using True False rd s1 read_only_trans[OF s1(2) s2(2)] by (auto simp: Let_def t)
    qed
  qed
qed

text \<open>The components of a path that are looked at.\<close>

definition path_parts :: "string \<Rightarrow> string list" where
  "path_parts p = take 16 (split_str CHR ''/'' (if p \<noteq> [] \<and> hd p = CHR ''/'' then tl p else p))"

definition path_start :: "fproc \<Rightarrow> string \<Rightarrow> u32" where
  "path_start pc p = (if p \<noteq> [] \<and> hd p = CHR ''/'' then 0 else cur_ino pc)"

lemma path_anal_spec:
  assumes m: "meta_ok s" "tree_ok s" and u: "used_ino s 0" "used_ino s (cur_ino pc)" and t: "terminated spath 0"
  shows "\<exists>s'. path_anal pc spath s =
      Some (if length (cstr spath 0) > PATH_LEN then DENTRY_INVALID_INO
            else resolve s (path_parts (cstr spath 0)) (path_start pc (cstr spath 0)), s') \<and> read_only s s'"
proof (cases "length (cstr spath 0) > PATH_LEN")
  case True
  then show ?thesis using m t by (simp add: path_anal_def strlen_spec read_only_refl meta_ok_def)
next
  case False
  let ?p = "cstr spath 0"
  obtain path where path: "strcpy (replicate (PATH_LEN + 1) NUL) 0 spath 0 = Some path" "cstr path 0 = ?p"
    "terminated path 0" "length path = PATH_LEN + 1"
    by (rule strcpy_cstr[OF t, of 0 "replicate (PATH_LEN + 1) NUL"]) (use False in auto)
  have lt: "0 < length path" using path(4) by simp
  let ?o = "if path ! 0 = CHR ''/'' then 1 else 0 :: nat"
  have sl: "path ! 0 = CHR ''/'' \<longleftrightarrow> ?p \<noteq> [] \<and> hd ?p = CHR ''/''"
    using cstr_step[OF lt] path(2) by auto
  have o: "terminated path ?o" "cstr path ?o = (if ?p \<noteq> [] \<and> hd ?p = CHR ''/'' then tl ?p else ?p)"
  proof -
    show "terminated path ?o" using path(3) terminated_Suc[OF path(3)] by auto
    show "cstr path ?o = (if ?p \<noteq> [] \<and> hd ?p = CHR ''/'' then tl ?p else ?p)"
    proof (cases "path ! 0 = CHR ''/''")
      case True
      then have "tl (cstr path 0) = cstr path (Suc 0)" by (subst cstr_step[OF lt]) simp
      then show ?thesis using True sl path(2) by simp
    qed (use sl path(2) in auto)
  qed
  obtain b ps where sp: "split path ?o CHR ''/'' 16 = Some (b, ps)" "\<forall>q \<in> set ps. terminated b q"
    "map (cstr b) ps = take 16 (split_str CHR ''/'' (cstr path ?o))"
    using split_spec[OF o(1), of "CHR ''/''" 16] by auto
  let ?cur = "path_start pc ?p"
  have cur: "(if path ! 0 = CHR ''/'' then 0 else cur_ino pc) = ?cur" using sl by (auto simp: path_start_def)
  have "used_ino s ?cur" using u by (simp add: path_start_def)
  then obtain s' where "path_walk b ps ?cur s = Some (resolve s (map (cstr b) ps) ?cur, s')" "read_only s s'"
    using path_walk_spec[OF m, of ?cur ps b] sp(2) by auto
  moreover have "map (cstr b) ps = path_parts ?p" by (simp only: sp(3) o(2) path_parts_def)
  ultimately show ?thesis
    using False path(1) sp(1) cur t by (simp add: path_anal_def strlen_spec)
qed

section \<open>Squeezing a path\<close>

text \<open>A path in a buffer of \<^verbatim>\<open>PATH_LEN + 1\<close> bytes.\<close>

definition path_buf :: "string \<Rightarrow> cbuf" where
  "path_buf p = p @ replicate (PATH_LEN + 1 - length p) NUL"

definition squeezed :: "string \<Rightarrow> string option" where
  "squeezed p = map_option (\<lambda>(n, b). cstr b 0) (path_squeeze (path_buf p))"

text \<open>
  A ".." that follows a removed component takes away nothing: the scan steps one entry back, onto the
  pointer that is already cleared. The example in the comment of the code is right, but the parent of the
  parent of \<^verbatim>\<open>/a\<close> is not \<^verbatim>\<open>/a\<close>.
\<close>

lemma path_squeeze_example: "squeezed ''/home/glucoes/./../tiepi'' = Some ''/home/tiepi''"
  by code_simp

lemma path_squeeze_keeps_too_much: "squeezed ''/a/b/../c/../..'' = Some ''/a''"
  by code_simp

section \<open>Properties\<close>

lemma demo_inode_nth: "unat i < 28672 \<Longrightarrow> itype (demo_inodes ! unat i) = IT_DIR \<Longrightarrow> i = 0"
proof (rule ccontr)
  assume a: "unat i < 28672" "itype (demo_inodes ! unat i) = IT_DIR" and "i \<noteq> 0"
  then obtain n where n: "unat i = Suc n" by (metis unat_eq_zero old.nat.exhaust)
  have "demo_inodes ! unat i \<in> set (demo_file # replicate 28670 zero_inode)"
    unfolding n demo_inodes_def nth_Cons_Suc by (rule nth_mem) (use a n in simp)
  then show False using a(2) by (auto simp: demo_file_def zero_inode_def IT_DIR_def IT_FILE_def)
qed

lemma demo_used: "used_ino demo_fs 0" "used_ino demo_fs 1"
  by (simp_all add: used_ino_def inode_bits_def sec_bits_def demo_bitmap_def bits_def bits_of_word_def upt_conv_Cons)

lemma demo_dir: "dir_dentries demo_fs demo_root = demo_entries"
  by (simp add: dir_dentries_def demo_root_def ptr_entries_def blk_entries_def INODE_INVALID_PTR_def demo_blocks)

lemma demo_dir_ok: "dir_ok demo_fs demo_root"
proof -
  have "names_ok demo_entries"
    by (auto simp: names_ok_def demo_entries_def demo_entry_def terminated_def)
  moreover have "blk_valid demo_fs 457" by (rule demo_blk_valid) simp_all
  ultimately show ?thesis
    by (auto simp: dir_ok_def demo_dir) (auto simp: demo_root_def ptrs_ok_def INODE_INVALID_PTR_def)
qed

lemma demo_live: "live_entries demo_entries = [(''.'', 0), (''..'', 0), (''a'', 1)]"
  by (simp add: live_entries_def demo_entries_def demo_entry_def DENTRY_INVALID_INO_def cstr_def)

lemma demo_tree_ok: "tree_ok demo_fs"
  unfolding tree_ok_def
proof (intro allI impI)
  fix i assume "used_ino demo_fs i \<and> itype (gfsc_inodes demo_fs ! unat i) = IT_DIR"
  then have i: "i = 0" using demo_inode_nth[of i] by (simp add: used_ino_def)
  have "gfsc_inodes demo_fs ! unat i = demo_root" by (simp add: i demo_inodes_def)
  then show "dir_ok demo_fs (gfsc_inodes demo_fs ! unat i) \<and>
      (\<forall>(nm, k) \<in> set (live_entries (dir_dentries demo_fs (gfsc_inodes demo_fs ! unat i))). used_ino demo_fs k)"
    using demo_dir_ok demo_used by (simp add: demo_dir demo_live)
qed

text \<open>
  C5: Path resolution is the walk down the tree. For a path of at most 71 characters \<^verbatim>\<open>path_anal\<close> returns
  the inode reached from the root (or from the current directory) by looking up the first sixteen
  components one after the other, the invalid number when a component is missing or is looked up in a
  file, and refuses a longer path; the disk is not changed and no error is reported.
\<close>

theorem path_anal_resolves:
  assumes "meta_ok s" and "tree_ok s" and "used_ino s 0" and "used_ino s (cur_ino pc)" and "terminated spath 0"
  shows "\<exists>s'. path_anal pc spath s =
      Some (if length (cstr spath 0) > PATH_LEN then DENTRY_INVALID_INO
            else resolve s (path_parts (cstr spath 0)) (path_start pc (cstr spath 0)), s') \<and> read_only s s'"
  by (rule path_anal_spec[OF assms])

definition demo_proc :: fproc where
  "demo_proc = \<lparr>cpath = path_buf ''/'', cur_ino = 0, fds = replicate 4 \<lparr>fnode = 0, oflags = 0, pos = 0\<rparr>\<rparr>"

lemma demo_resolve: "resolve demo_fs [''a''] 0 = 1"
proof -
  have "gfsc_inodes demo_fs ! unat (0 :: u32) = demo_root" by (simp add: demo_inodes_def)
  then show ?thesis
    by (simp add: demo_dir lookup_def demo_live DENTRY_INVALID_INO_def Let_def) (simp add: demo_root_def)
qed

theorem path_anal_resolves_witness:
  "\<exists>s'. path_anal demo_proc (''/a'' @ [NUL]) demo_fs = Some (1, s') \<and> read_only demo_fs s'"
proof -
  have p: "cstr [CHR ''/'', CHR ''a'', NUL] 0 = ''/a''" "cur_ino demo_proc = 0" by (simp_all add: cstr_def demo_proc_def)
  have "path_parts ''/a'' = [''a'']" "path_start demo_proc ''/a'' = 0" by (simp_all add: path_parts_def path_start_def)
  then show ?thesis
    using path_anal_resolves[OF demo_meta_ok demo_tree_ok demo_used(1), of demo_proc "''/a'' @ [NUL]"] demo_used(1)
    by (simp add: p PATH_LEN_def demo_resolve terminated_def del: resolve.simps)
qed

end
