(* ===== verification/GfsDir.thy ===== *)
theory GfsDir
  imports GfsPath
begin

text \<open>
  Operations on directories (\<^verbatim>\<open>kernel/fs/gfs-dir.c\<close>): adding an entry, making and listing a directory,
  and removing files and directories recursively.

  The blocks of entries the code keeps on the stack start with unknown bytes, which reach the disk as
  the names of free entries; they are arguments (\<open>gdeb\<close>, \<open>gino\<close>). \<^verbatim>\<open>GFS_remove_file_or_dir\<close> and
  \<^verbatim>\<open>rm_dentries_on_ptr_arr\<close> call each other; the depth of the calls is bounded by \<open>fuel\<close>.

  The lemmas show that an entry is added whenever there is room for it (\<open>no_room\<close> says when there is none), that the name
  is found afterwards with its inode number and that no other lookup changes, and what becomes of names that are too long for an entry; those about removing an
  entry are in the theory \<open>GfsRemove\<close>.
\<close>

section \<open>Adding an entry\<close>

fun first_free :: "GFS_dentry list \<Rightarrow> nat" where
  "first_free [] = 0"
| "first_free (d # ds) = (if ino d = DENTRY_INVALID_INO then 0 else Suc (first_free ds))"

text \<open>
  The scan for a block with a free entry: the index of the pointer, the index of the entry and the last
  block read. It stops at the first invalid pointer.
\<close>

fun add_scan :: "u32 list \<Rightarrow> GFS_dentry list \<Rightarrow> 'd gfs \<Rightarrow> (nat \<times> nat \<times> GFS_dentry list \<times> 'd gfs) option" where
  "add_scan [] deb s = Some (0, 0, deb, s)"
| "add_scan (p # ps) deb s =
     (if p = INODE_INVALID_PTR then Some (0, 0, deb, s)
      else do {
        (buf, _, s1) \<leftarrow> GFS_read_block p s;
        let ds = dentries_of_block buf;
        let j = first_free ds;
        if j < DENT_PER_BLOCK then Some (0, j, ds, s1)
        else do {
          (i, j', ds', s2) \<leftarrow> add_scan ps ds s1;
          Some (Suc i, j', ds', s2)
        }
      })"

definition set_dentry :: "GFS_dentry list \<Rightarrow> nat \<Rightarrow> cbuf \<Rightarrow> nat \<Rightarrow> u32 \<Rightarrow> GFS_dentry list option" where
  "set_dentry deb j b f i = do {
     d \<leftarrow> nth_chk deb j;
     nm \<leftarrow> strncpy (fname d) 0 b f FNLEN;
     nm' \<leftarrow> upd_chk nm FNLEN NUL;
     upd_chk deb j \<lparr>fname = nm', ino = i\<rparr>
   }"

definition alloc_data_block :: "'d gfs \<Rightarrow> (u32 option \<times> 'd gfs) option" where
  "alloc_data_block s = do {
     (ia, s1) \<leftarrow> GFS_alloc_in_bitmap 1 (block_bitmap_loc (sblk s)) (inode_loc (sblk s)) s;
     Some (if length ia \<noteq> 1 then None else Some (hd ia + GFS_DATALOC_BLOCK s1), s1)
   }"

text \<open>
  What the code does twice, on the direct and on the indirect pointers: scan, take a new block if need
  be, store the entry. The result is 0, 2 (no free block) or -3 (no free entry), the pointers and the
  block buffer.
\<close>

definition add_on_ptr_arr ::
  "u32 list \<Rightarrow> GFS_dentry list \<Rightarrow> cbuf \<Rightarrow> nat \<Rightarrow> u32 \<Rightarrow> 'd gfs \<Rightarrow> (int \<times> u32 list \<times> GFS_dentry list \<times> 'd gfs) option" where
  "add_on_ptr_arr ps deb b f inum s = do {
     (i, j, deb1, s1) \<leftarrow> add_scan ps deb s;
     if i < length ps then
       (if ps ! i = INODE_INVALID_PTR then do {
          (bo, s2) \<leftarrow> alloc_data_block s1;
          case bo of None \<Rightarrow> Some (2, ps, deb1, s2)
          | Some bidx \<Rightarrow> do {
              deb2 \<leftarrow> set_dentry deb1 0 b f inum;
              let deb3 = take 1 deb2 @ map (\<lambda>d. d\<lparr>ino := DENTRY_INVALID_INO\<rparr>) (drop 1 deb2);
              (_, s3) \<leftarrow> GFS_write_block bidx (block_of_dentries deb3) s2;
              Some (0, ps[i := bidx], deb3, s3)
            }
        } else do {
          deb2 \<leftarrow> set_dentry deb1 j b f inum;
          (_, s3) \<leftarrow> GFS_write_block (ps ! i) (block_of_dentries deb2) s1;
          Some (0, ps, deb2, s3)
        })
     else Some (-3, ps, deb1, s1)
   }"

definition GFS_add_dentry ::
  "GFS_dentry list \<Rightarrow> GFS_inode \<Rightarrow> cbuf \<Rightarrow> nat \<Rightarrow> u32 \<Rightarrow> 'd gfs \<Rightarrow> (int \<times> GFS_inode \<times> 'd gfs) option" where
  "GFS_add_dentry gdeb x b f inum s =
     (if itype x \<noteq> IT_DIR then Some (-1, x, s)
      else if isize x \<ge> NDENTRIES then Some (1, x, s)
      else do {
        (r, ps, deb, s1) \<leftarrow> add_on_ptr_arr (dptr x) gdeb b f inum s;
        if r = 0 then Some (0, x\<lparr>dptr := ps, isize := isize x + 1\<rparr>, s1)
        else if r = 2 then Some (2, x, s1)
        else do {
          (io, idb, s2) \<leftarrow>
            (if idptr x = INODE_INVALID_PTR then do {
               (bo, s2) \<leftarrow> alloc_data_block s1;
               case bo of None \<Rightarrow> Some (None, [], s2)
               | Some idbidx \<Rightarrow> do {
                   let idb = replicate PTR_PER_BLOCK INODE_INVALID_PTR;
                   (_, s3) \<leftarrow> GFS_write_block idbidx (block_of_ptrs idb) s2;
                   Some (Some idbidx, idb, s3)
                 }
             } else do {
               (buf, _, s2) \<leftarrow> GFS_read_block (idptr x) s1;
               Some (Some (idptr x), ptrs_of_block buf, s2)
             });
          case io of None \<Rightarrow> Some (2, x, s2)
          | Some idbidx \<Rightarrow> do {
              let x1 = x\<lparr>idptr := idbidx\<rparr>;
              (r2, idb', _, s3) \<leftarrow> add_on_ptr_arr idb deb b f inum s2;
              if r2 = 0 then do {
                (_, s4) \<leftarrow> GFS_write_block idbidx (block_of_ptrs idb') s3;
                Some (0, x1\<lparr>isize := isize x1 + 1\<rparr>, s4)
              } else Some (r2, x1, s3)
            }
        }
      })"

section \<open>Making and listing\<close>

definition new_dir_inode :: "GFS_inode \<Rightarrow> GFS_inode" where
  "new_dir_inode gino = gino\<lparr>nlink := 1, itype := IT_DIR, isize := 0,
     dptr := replicate INODE_NDPTR INODE_INVALID_PTR, idptr := INODE_INVALID_PTR, diptr := INODE_INVALID_PTR\<rparr>"

text \<open>The entries \<^verbatim>\<open>.\<close> and \<^verbatim>\<open>..\<close> of the new directory: each failure ends the call with -1.\<close>

definition mkdir_add ::
  "GFS_dentry list \<Rightarrow> u32 \<Rightarrow> GFS_inode \<Rightarrow> string \<Rightarrow> u32 \<Rightarrow> 'd gfs \<Rightarrow> (GFS_inode option \<times> 'd gfs) option" where
  "mkdir_add gdeb tino x nm i s = do {
     (adrt, x', s1) \<leftarrow> GFS_add_dentry gdeb x (nm @ [NUL]) 0 i s;
     if adrt = 0 then Some (Some x', s1)
     else if adrt = 2 then do {
       (_, s2) \<leftarrow> GFS_free_in_bitmap tino (inode_bitmap_loc (sblk s1)) (block_bitmap_loc (sblk s1)) s1;
       Some (None, GFS_panic s2)
     } else Some (None, GFS_panic s1)
   }"

definition do_mkdir ::
  "(nat \<Rightarrow> GFS_dentry list) \<Rightarrow> GFS_inode \<Rightarrow> fproc \<Rightarrow> cbuf \<Rightarrow> 'd gfs \<Rightarrow> (int \<times> 'd gfs) option" where
  "do_mkdir gdeb gino pc stpath s = do {
     (ppino, tpath, tname, s1) \<leftarrow> path_anal_2 pc stpath (replicate (PATH_LEN + 1) NUL) s;
     if ppino = DENTRY_INVALID_INO then Some (1, s1)
     else do {
       c \<leftarrow> nth_chk tpath tname;
       if c = NUL then Some (2, s1)
       else do {
         (_, xo) \<leftarrow> GFS_read_inode ppino s1;
         case xo of None \<Rightarrow> Some (-1, GFS_panic s1)
         | Some x \<Rightarrow>
             if itype x \<noteq> IT_DIR then Some (1, s1)
             else if isize x \<ge> NDENTRIES then Some (3, s1)
             else do {
               (i, s2) \<leftarrow> search_dentry_in_dir_inode x tpath tname s1;
               if i \<noteq> DENTRY_INVALID_INO then Some (4, s2)
               else do {
                 (ia, s3) \<leftarrow> GFS_alloc_in_bitmap 1 (inode_bitmap_loc (sblk s2)) (block_bitmap_loc (sblk s2)) s2;
                 if length ia \<noteq> 1 then Some (5, s3)
                 else do {
                   let tino = hd ia;
                   (adrt, x1, s4) \<leftarrow> GFS_add_dentry (gdeb 0) x tpath tname tino s3;
                   if adrt = 2 then do {
                     (r, s5) \<leftarrow> GFS_free_in_bitmap tino (inode_bitmap_loc (sblk s4)) (block_bitmap_loc (sblk s4)) s4;
                     Some (3, if r \<noteq> 0 then GFS_panic s5 else s5)
                   }
                   else if adrt \<noteq> 0 then Some (-1, GFS_panic s4)
                   else do {
                     (t1, s5) \<leftarrow> mkdir_add (gdeb 1) tino (new_dir_inode gino) ''.'' tino s4;
                     case t1 of None \<Rightarrow> Some (-1, s5)
                     | Some tx \<Rightarrow> do {
                         (t2, s6) \<leftarrow> mkdir_add (gdeb 2) tino tx ''..'' ppino s5;
                         case t2 of None \<Rightarrow> Some (-1, s6)
                         | Some ty \<Rightarrow> do {
                             (_, s7) \<leftarrow> GFS_write_inode ppino x1 s6;
                             (r, s8) \<leftarrow> GFS_write_inode tino ty s7;
                             if r \<noteq> 0 then Some (-1, GFS_panic s8) else Some (0, s8)
                           }
                       }
                   }
                 }
               }
             }
       }
     }
   }"

fun scan_dentries_on_ptr_arr :: "u32 list \<Rightarrow> u32 \<Rightarrow> 'd gfs \<Rightarrow> (u32 \<times> 'd gfs) option" where
  "scan_dentries_on_ptr_arr [] e_ymr s = Some (e_ymr, s)"
| "scan_dentries_on_ptr_arr (p # ps) e_ymr s =
     (if p = INODE_INVALID_PTR then scan_dentries_on_ptr_arr ps e_ymr s
      else do {
        (buf, _, s1) \<leftarrow> GFS_read_block p s;
        scan_dentries_on_ptr_arr ps
          (fold (\<lambda>d n. if ino d \<noteq> DENTRY_INVALID_INO then n + 1 else n) (dentries_of_block buf) e_ymr) s1
      })"

text \<open>\<open>do_readdir\<close>: the number it returns; what it prints are the names counted.\<close>

definition do_readdir :: "fproc \<Rightarrow> cbuf option \<Rightarrow> 'd gfs \<Rightarrow> (u32 \<times> 'd gfs) option" where
  "do_readdir pc stpath s = do {
     (tino, s1) \<leftarrow> (case stpath of None \<Rightarrow> Some (cur_ino pc, s) | Some p \<Rightarrow> path_anal pc p s);
     if stpath \<noteq> None \<and> tino = DENTRY_INVALID_INO then Some (0, s1)
     else do {
       (_, xo) \<leftarrow> GFS_read_inode tino s1;
       case xo of None \<Rightarrow> Some (0, GFS_panic s1)
       | Some x \<Rightarrow>
           if itype x \<noteq> IT_DIR then Some (0, s1)
           else do {
             (n, s2) \<leftarrow> scan_dentries_on_ptr_arr (dptr x) 0 s1;
             if idptr x \<noteq> INODE_INVALID_PTR then do {
               (buf, _, s3) \<leftarrow> GFS_read_block (idptr x) s2;
               (m, s4) \<leftarrow> scan_dentries_on_ptr_arr (ptrs_of_block buf) 0 s3;
               Some (n + m, s4)
             } else Some (n, s2)
           }
     }
   }"

section \<open>Removing\<close>

type_synonym 'd remover = "u32 \<Rightarrow> 'd gfs \<Rightarrow> (int \<times> 'd gfs) option"

text \<open>
  The loop over the entries of a block: the entries, the number removed, whether one is left, and
  whether the whole call is given up.
\<close>

fun rm_entries ::
  "'d remover \<Rightarrow> GFS_dentry list \<Rightarrow> u32 \<Rightarrow> bool \<Rightarrow> 'd gfs \<Rightarrow> (GFS_dentry list \<times> u32 \<times> bool \<times> bool \<times> 'd gfs) option" where
  "rm_entries rm [] rm_ymr left s = Some ([], rm_ymr, left, False, s)"
| "rm_entries rm (d # ds) rm_ymr left s =
     (if ino d = DENTRY_INVALID_INO then do {
        (ds', n, l, a, s1) \<leftarrow> rm_entries rm ds rm_ymr left s; Some (d # ds', n, l, a, s1)
      } else do {
        c1 \<leftarrow> strcmp (fname d) 0 (''.'' @ [NUL]) 0;
        c2 \<leftarrow> (if c1 = 0 then Some 0 else strcmp (fname d) 0 (''..'' @ [NUL]) 0);
        if c2 = 0 then do {
          (ds', n, l, a, s1) \<leftarrow> rm_entries rm ds rm_ymr left s; Some (d # ds', n, l, a, s1)
        } else do {
          (rmit, s1) \<leftarrow> rm (ino d) s;
          if rmit = 0 \<or> rmit = 1 then do {
            (ds', n, l, a, s2) \<leftarrow> rm_entries rm ds (rm_ymr + 1) left s1;
            Some (d\<lparr>ino := DENTRY_INVALID_INO\<rparr> # ds', n, l, a, s2)
          }
          else if rmit < 0 then Some (d # ds, rm_ymr, True, True, GFS_panic s1)
          else do {
            (ds', n, l, a, s2) \<leftarrow> rm_entries rm ds rm_ymr (if rmit = 2 then True else left) s1;
            Some (d # ds', n, l, a, s2)
          }
        }
      })"

definition free_data_block :: "u32 \<Rightarrow> 'd gfs \<Rightarrow> (int \<times> 'd gfs) option" where
  "free_data_block p s =
     GFS_free_in_bitmap (p - GFS_DATALOC_BLOCK s) (block_bitmap_loc (sblk s)) (inode_loc (sblk s)) s"

fun rm_blocks :: "'d remover \<Rightarrow> u32 list \<Rightarrow> u32 \<Rightarrow> 'd gfs \<Rightarrow> (u32 list \<times> u32 \<times> bool \<times> 'd gfs) option" where
  "rm_blocks rm [] rm_ymr s = Some ([], rm_ymr, False, s)"
| "rm_blocks rm (p # ps) rm_ymr s =
     (if p = INODE_INVALID_PTR then do {
        (ps', n, a, s1) \<leftarrow> rm_blocks rm ps rm_ymr s; Some (p # ps', n, a, s1)
      } else do {
        (buf, _, s1) \<leftarrow> GFS_read_block p s;
        (ds, n, left, abort, s2) \<leftarrow> rm_entries rm (dentries_of_block buf) rm_ymr False s1;
        if abort then Some (p # ps, n, True, s2)
        else if left then do {
          (_, s3) \<leftarrow> GFS_write_block p (block_of_dentries ds) s2;
          (ps', m, a, s4) \<leftarrow> rm_blocks rm ps n s3;
          Some (p # ps', m, a, s4)
        } else do {
          (r, s3) \<leftarrow> free_data_block p s2;
          if r \<noteq> 0 then Some (p # ps, n, True, GFS_panic s3)
          else do {
            (ps', m, a, s4) \<leftarrow> rm_blocks rm ps n s3;
            Some (INODE_INVALID_PTR # ps', m, a, s4)
          }
        }
      })"

definition rm_dentries_on_ptr_arr ::
  "'d remover \<Rightarrow> u32 list \<Rightarrow> 'd gfs \<Rightarrow> (u32 \<times> u32 list \<times> 'd gfs) option" where
  "rm_dentries_on_ptr_arr rm parr s = do {
     (deb, h) \<leftarrow> kmalloc_g (of_nat BLOCK_SIZE) (kh s);
     let s1 = s\<lparr>kh := h\<rparr>;
     if deb = NULL then Some (0, parr, GFS_panic s1)
     else do {
       (parr', n, abort, s2) \<leftarrow> rm_blocks rm parr 0 s1;
       if abort then Some (n, parr', s2)
       else do {
         h2 \<leftarrow> kfree_g deb (kh s2);
         Some (n, parr', s2\<lparr>kh := h2\<rparr>)
       }
     }
   }"

text \<open>Freeing the blocks behind some pointers; \<open>False\<close> when a pointer is invalid.\<close>

fun free_ptrs :: "u32 list \<Rightarrow> 'd gfs \<Rightarrow> (bool \<times> 'd gfs) option" where
  "free_ptrs [] s = Some (True, s)"
| "free_ptrs (p # ps) s =
     (if p \<noteq> INODE_INVALID_PTR then do {
        (r, s1) \<leftarrow> free_data_block p s;
        if r \<noteq> 0 then Some (False, s1) else free_ptrs ps s1
      } else free_ptrs ps s)"

text \<open>The label \<^verbatim>\<open>rm_f_d_end\<close>.\<close>

definition rm_f_d_end :: "addr \<Rightarrow> addr \<Rightarrow> int \<Rightarrow> 'd gfs \<Rightarrow> (int \<times> 'd gfs) option" where
  "rm_f_d_end dibbuf idbbuf rt s = do {
     h1 \<leftarrow> (if dibbuf \<noteq> NULL then kfree_g dibbuf (kh s) else Some (kh s));
     h2 \<leftarrow> (if idbbuf \<noteq> NULL then kfree_g idbbuf h1 else Some h1);
     Some (rt, s\<lparr>kh := h2\<rparr>)
   }"

definition free_inode_bit :: "u32 \<Rightarrow> 'd gfs \<Rightarrow> (int \<times> 'd gfs) option" where
  "free_inode_bit i s = GFS_free_in_bitmap i (inode_bitmap_loc (sblk s)) (block_bitmap_loc (sblk s)) s"

definition remove_dir :: "'d remover \<Rightarrow> u32 \<Rightarrow> GFS_inode \<Rightarrow> 'd gfs \<Rightarrow> (int \<times> 'd gfs) option" where
  "remove_dir rm i x s = do {
     (n1, ps, s1) \<leftarrow> rm_dentries_on_ptr_arr rm (dptr x) s;
     let x1 = x\<lparr>dptr := ps\<rparr>;
     if idptr x1 \<noteq> INODE_INVALID_PTR then do {
       (idbbuf, h) \<leftarrow> kmalloc_g (of_nat BLOCK_SIZE) (kh s1);
       let s2 = s1\<lparr>kh := h\<rparr>;
       if idbbuf = NULL then Some (-2, s2)
       else do {
         (buf, _, s3) \<leftarrow> GFS_read_block (idptr x1) s2;
         (n2, qs, s4) \<leftarrow> rm_dentries_on_ptr_arr rm (ptrs_of_block buf) s3;
         if \<exists>q \<in> set qs. q \<noteq> INODE_INVALID_PTR then do {
           (_, s5) \<leftarrow> GFS_write_block (idptr x1) (block_of_ptrs qs) s4;
           let x2 = x1\<lparr>isize := isize x1 - (n1 + n2)\<rparr>;
           if isize x2 > 2 then do {
             (_, s6) \<leftarrow> GFS_write_inode i x2 s5;
             rm_f_d_end NULL idbbuf 2 s6
           } else do {
             (_, s6) \<leftarrow> free_inode_bit i s5;
             rm_f_d_end NULL idbbuf 0 s6
           }
         } else do {
           (r, s5) \<leftarrow> free_data_block (idptr x1) s4;
           if r \<noteq> 0 then Some (-3, s5)
           else do {
             let x2 = x1\<lparr>idptr := INODE_INVALID_PTR, isize := isize x1 - (n1 + n2)\<rparr>;
             if isize x2 > 2 then do {
               (_, s6) \<leftarrow> GFS_write_inode i x2 s5;
               rm_f_d_end NULL idbbuf 2 s6
             } else do {
               (_, s6) \<leftarrow> free_inode_bit i s5;
               rm_f_d_end NULL idbbuf 0 s6
             }
           }
         }
       }
     } else do {
       let x2 = x1\<lparr>isize := isize x1 - (n1 + 0)\<rparr>;
       if isize x2 > 2 then do {
         (_, s2) \<leftarrow> GFS_write_inode i x2 s1;
         rm_f_d_end NULL NULL 2 s2
       } else do {
         (_, s2) \<leftarrow> free_inode_bit i s1;
         rm_f_d_end NULL NULL 0 s2
       }
     }
   }"

text \<open>
  The loop over the double indirect block: the result code (0 to go on) and the buffer \<open>idb\<close>, which is
  allocated on the first use.
\<close>

fun free_double :: "u32 list \<Rightarrow> addr \<Rightarrow> 'd gfs \<Rightarrow> (int \<times> addr \<times> 'd gfs) option" where
  "free_double [] idb s = Some (0, idb, s)"
| "free_double (q # qs) idb s =
     (if q = INODE_INVALID_PTR then free_double qs idb s
      else do {
        (idb1, s1) \<leftarrow> (if idb = NULL then do {
            (p, h) \<leftarrow> kmalloc_g (of_nat BLOCK_SIZE) (kh s); Some (p, s\<lparr>kh := h\<rparr>)
          } else Some (idb, s));
        if idb1 = NULL then Some (-2, idb1, s1)
        else do {
          (buf, _, s2) \<leftarrow> GFS_read_block q s1;
          (ok, s3) \<leftarrow> free_ptrs (ptrs_of_block buf) s2;
          if \<not> ok then Some (-7, idb1, s3)
          else do {
            (r, s4) \<leftarrow> free_data_block q s3;
            if r \<noteq> 0 then Some (-8, idb1, s4) else free_double qs idb1 s4
          }
        }
      })"

text \<open>The indirect block of a file: the result code (0 to go on), and the buffer.\<close>

definition free_indirect :: "GFS_inode \<Rightarrow> 'd gfs \<Rightarrow> (int \<times> addr \<times> 'd gfs) option" where
  "free_indirect x s =
     (if idptr x \<noteq> INODE_INVALID_PTR then do {
        (idb, h) \<leftarrow> kmalloc_g (of_nat BLOCK_SIZE) (kh s);
        let s1 = s\<lparr>kh := h\<rparr>;
        if idb = NULL then Some (-2, NULL, s1)
        else do {
          (buf, _, s2) \<leftarrow> GFS_read_block (idptr x) s1;
          (ok, s3) \<leftarrow> free_ptrs (ptrs_of_block buf) s2;
          if \<not> ok then Some (-5, idb, s3)
          else do {
            (r, s4) \<leftarrow> free_data_block (idptr x) s3;
            Some (if r \<noteq> 0 then -6 else 0, idb, s4)
          }
        }
      } else Some (0, NULL, s))"

definition remove_file :: "u32 \<Rightarrow> GFS_inode \<Rightarrow> 'd gfs \<Rightarrow> (int \<times> 'd gfs) option" where
  "remove_file i x s =
     (if nlink x \<ge> 2 then do {
        (_, s1) \<leftarrow> GFS_write_inode i (x\<lparr>nlink := nlink x - 1\<rparr>) s;
        Some (1, s1)
      } else do {
        (ok, s1) \<leftarrow> free_ptrs (dptr x) s;
        if \<not> ok then Some (-4, s1)
        else do {
          (r, idb, s2) \<leftarrow> free_indirect x s1;
          if r \<noteq> 0 then rm_f_d_end NULL idb r s2
          else if diptr x \<noteq> INODE_INVALID_PTR then do {
            (dib, h) \<leftarrow> kmalloc_g (of_nat BLOCK_SIZE) (kh s2);
            let s3 = s2\<lparr>kh := h\<rparr>;
            if dib = NULL then rm_f_d_end NULL idb (-2) s3
            else do {
              (buf, _, s4) \<leftarrow> GFS_read_block (diptr x) s3;
              (r2, idb2, s5) \<leftarrow> free_double (ptrs_of_block buf) idb s4;
              if r2 \<noteq> 0 then rm_f_d_end dib idb2 r2 s5
              else do {
                (r3, s6) \<leftarrow> free_data_block (diptr x) s5;
                if r3 \<noteq> 0 then rm_f_d_end dib idb2 (-9) s6
                else do {
                  (_, s7) \<leftarrow> free_inode_bit i s6;
                  rm_f_d_end dib idb2 0 s7
                }
              }
            }
          } else do {
            (_, s3) \<leftarrow> free_inode_bit i s2;
            rm_f_d_end NULL idb 0 s3
          }
        }
      })"

fun GFS_remove_file_or_dir :: "nat \<Rightarrow> 'd remover" where
  "GFS_remove_file_or_dir 0 i s = None"
| "GFS_remove_file_or_dir (Suc fuel) i s = do {
     p \<leftarrow> flist_search i s;
     if p \<noteq> NULL then Some (2, s)
     else do {
       (_, xo) \<leftarrow> GFS_read_inode i s;
       case xo of None \<Rightarrow> Some (-1, s)
       | Some x \<Rightarrow>
           if itype x = IT_DIR then remove_dir (GFS_remove_file_or_dir fuel) i x s else remove_file i x s
     }
   }"

text \<open>One block of entries: clear the entries whose first 59 characters are the name.\<close>

fun remove_in_block :: "GFS_dentry list \<Rightarrow> cbuf \<Rightarrow> nat \<Rightarrow> (GFS_dentry list \<times> nat) option" where
  "remove_in_block [] b f = Some ([], 0)"
| "remove_in_block (d # ds) b f = do {
     c \<leftarrow> (if ino d \<noteq> DENTRY_INVALID_INO then strncmp (fname d) 0 b f (of_nat FNLEN) else Some 1);
     (ds', n) \<leftarrow> remove_in_block ds b f;
     if ino d \<noteq> DENTRY_INVALID_INO \<and> c = 0 then Some (d\<lparr>ino := DENTRY_INVALID_INO\<rparr> # ds', Suc n)
     else Some (d # ds', n)
   }"

fun remove_dentry_on_ptr_arr :: "u32 list \<Rightarrow> cbuf \<Rightarrow> nat \<Rightarrow> u32 \<Rightarrow> 'd gfs \<Rightarrow> (u32 \<times> 'd gfs) option" where
  "remove_dentry_on_ptr_arr [] b f r_ymr s = Some (r_ymr, s)"
| "remove_dentry_on_ptr_arr (p # ps) b f r_ymr s =
     (if p = INODE_INVALID_PTR then remove_dentry_on_ptr_arr ps b f r_ymr s
      else do {
        (buf, _, s1) \<leftarrow> GFS_read_block p s;
        (ds, n) \<leftarrow> remove_in_block (dentries_of_block buf) b f;
        s2 \<leftarrow> (if n \<noteq> 0 then do { (_, t) \<leftarrow> GFS_write_block p (block_of_dentries ds) s1; Some t } else Some s1);
        remove_dentry_on_ptr_arr ps b f (r_ymr + of_nat n) s2
      })"

definition remove_dentry_in_dir_inode :: "GFS_inode \<Rightarrow> cbuf \<Rightarrow> nat \<Rightarrow> 'd gfs \<Rightarrow> (u32 \<times> GFS_inode \<times> 'd gfs) option" where
  "remove_dentry_in_dir_inode x b f s =
     (if itype x \<noteq> IT_DIR then Some (0, x, s)
      else do {
        (r1, s1) \<leftarrow> remove_dentry_on_ptr_arr (dptr x) b f 0 s;
        (r, s2) \<leftarrow> (if idptr x \<noteq> INODE_INVALID_PTR then do {
            (buf, _, t1) \<leftarrow> GFS_read_block (idptr x) s1;
            (r2, t2) \<leftarrow> remove_dentry_on_ptr_arr (ptrs_of_block buf) b f 0 t1;
            Some (r1 + r2, t2)
          } else Some (r1, s1));
        if isize x < r + 2 then Some (r, x, GFS_panic s2)
        else Some (r, x\<lparr>isize := isize x - r\<rparr>, s2)
      })"

definition do_remove :: "nat \<Rightarrow> fproc \<Rightarrow> cbuf \<Rightarrow> 'd gfs \<Rightarrow> (int \<times> 'd gfs) option" where
  "do_remove fuel pc stpath s = do {
     (ppino, tpath, tname, s1) \<leftarrow> path_anal_2 pc stpath (replicate (PATH_LEN + 1) NUL) s;
     if ppino = DENTRY_INVALID_INO then Some (1, s1)
     else do {
       c \<leftarrow> nth_chk tpath tname;
       c1 \<leftarrow> (if c = NUL then Some 0 else strcmp tpath tname (''.'' @ [NUL]) 0);
       c2 \<leftarrow> (if c1 = 0 then Some 0 else strcmp tpath tname (''..'' @ [NUL]) 0);
       if c2 = 0 then Some (1, s1)
       else do {
         (_, xo) \<leftarrow> GFS_read_inode ppino s1;
         case xo of None \<Rightarrow> Some (-1, GFS_panic s1)
         | Some x \<Rightarrow> do {
             (tino, s2) \<leftarrow> search_dentry_in_dir_inode x tpath tname s1;
             if tino = DENTRY_INVALID_INO then Some (1, s2)
             else do {
               (rmdrt, s3) \<leftarrow> GFS_remove_file_or_dir fuel tino s2;
               if rmdrt = 2 then Some (2, s3)
               else if rmdrt \<noteq> 0 \<and> rmdrt \<noteq> 1 then Some (-1, GFS_panic s3)
               else do {
                 (n, x1, s4) \<leftarrow> remove_dentry_in_dir_inode x tpath tname s3;
                 if n \<noteq> 1 then Some (-1, GFS_panic s4)
                 else do {
                   (_, s5) \<leftarrow> GFS_write_inode ppino x1 s4;
                   Some (0, s5)
                 }
               }
             }
           }
       }
     }
   }"

section \<open>Blocks in use\<close>

definition ptr_used :: "'d gfs \<Rightarrow> u32 \<Rightarrow> bool" where
  "ptr_used s p \<longleftrightarrow> 457 \<le> unat p \<and> unat p < 262601 \<and> block_bits s ! (unat p - 457)"

lemma ptr_range_valid: "meta_ok s \<Longrightarrow> 457 \<le> unat p \<Longrightarrow> unat p < 262601 \<Longrightarrow> blk_valid s p"
  by (auto simp: meta_ok_def std_layout_def blk_valid_def secs_ok_def)

lemma ptr_used_valid: "meta_ok s \<Longrightarrow> ptr_used s p \<Longrightarrow> blk_valid s p"
  by (simp add: ptr_used_def ptr_range_valid)

lemma ptr_used_nonzero: "ptr_used s p \<Longrightarrow> p \<noteq> INODE_INVALID_PTR"
  by (auto simp: ptr_used_def INODE_INVALID_PTR_def)

lemma write_block_meta:
  assumes "meta_ok s" and "blk_valid s p" and "length buf = 4096"
  obtains r s' where "GFS_write_block p buf s = Some (r, s')" "meta_ok s'" "store_frame s s'"
    "disk_block s' p = buf" "\<And>c. blk_valid s c \<Longrightarrow> c \<noteq> p \<Longrightarrow> disk_block s' c = disk_block s c"
proof -
  have ok: "store_ok s" and w: "whole_block buf" using assms by (auto simp: meta_ok_def whole_block_def)
  obtain r s' where s': "GFS_write_block p buf s = Some (r, s')" "store_ok s'" "store_frame s s'"
    "disk_block s' p = buf" "\<And>c. blk_valid s c \<Longrightarrow> c \<noteq> p \<Longrightarrow> disk_block s' c = disk_block s c"
    by (rule bs.wr_cases[OF ok assms(2) w]) (rule that)
  show thesis by (rule that[OF s'(1) store_frame_meta[OF assms(1) s'(2,3)] s'(3-5)])
qed

lemma store_frame_bits:
  assumes "store_frame s s'"
  shows "block_bits s' = block_bits s" "inode_bits s' = inode_bits s" "ptr_used s' = ptr_used s"
    "gfsc_inodes s' = gfsc_inodes s" "blk_valid s' = blk_valid s" "sblk s' = sblk s"
proof -
  have cf: "cache_frame s s'" using assms by (simp add: store_frame_def)
  note f = cache_frame_fields[OF cf]
  show b: "block_bits s' = block_bits s" "inode_bits s' = inode_bits s" by (simp_all add: block_bits_def inode_bits_def f(3))
  show "ptr_used s' = ptr_used s" by (rule ext) (simp add: ptr_used_def b)
  show "gfsc_inodes s' = gfsc_inodes s" "blk_valid s' = blk_valid s" "sblk s' = sblk s" by (rule f)+
qed

lemma bitmap_frame_fields:
  assumes "bitmap_frame s s'"
  shows "gfsc_inodes s' = gfsc_inodes s" "sblk s' = sblk s" "kh s' = kh s" "fnodes s' = fnodes s" "flh s' = flh s"
    "npanic s' = npanic s" "blk_valid s' = blk_valid s"
    "\<And>b. blk_valid s b \<Longrightarrow> disk_block s' b = disk_block s b"
proof -
  have e: "s' = s\<lparr>bitmap := bitmap s', dev := dev s'\<rparr>" using assms by (simp add: bitmap_frame_def)
  show "gfsc_inodes s' = gfsc_inodes s" "sblk s' = sblk s" "kh s' = kh s" "fnodes s' = fnodes s" "flh s' = flh s"
    "npanic s' = npanic s" by (subst e, simp)+
  show "blk_valid s' = blk_valid s" by (rule bitmap_frame_valid[OF assms])
  show "\<And>b. blk_valid s b \<Longrightarrow> disk_block s' b = disk_block s b" using assms by (simp add: bitmap_frame_def)
qed

lemma grab_1:
  "(\<forall>i < length bs. bs ! i) \<and> grab 1 0 bs = ([], bs) \<or>
   (\<exists>k < length bs. \<not> bs ! k \<and> grab 1 0 bs = ([k], bs[k := True]))"
proof -
  let ?c = "filter (\<lambda>i. \<not> bs ! i) [0..<length bs]"
  have "((+) 0 :: nat \<Rightarrow> nat) = id" by (rule ext) simp
  then have f: "fst (grab 1 0 bs) = take 1 ?c" using grab_fst[of 1 0 bs] by simp
  show ?thesis
  proof (cases ?c)
    case Nil
    then have all: "\<forall>i < length bs. bs ! i" by (auto simp: filter_empty_conv)
    moreover have "snd (grab 1 0 bs) = bs"
      by (rule nth_equalityI) (use grab_length(2)[of 1 0 bs] grab_snd[of _ bs 1 0] all in auto)
    ultimately show ?thesis using f Nil by (auto simp: prod_eq_iff)
  next
    case (Cons k ks)
    then have "k \<in> set ?c" by simp
    then have k: "k < length bs" "\<not> bs ! k" by auto
    have f1: "fst (grab 1 0 bs) = [k]" using f Cons by simp
    have "snd (grab 1 0 bs) = bs[k := True]"
      by (rule nth_equalityI) (use grab_length(2)[of 1 0 bs] grab_snd[of _ bs 1 0] f1 k in \<open>auto simp: nth_list_update\<close>)
    then show ?thesis using k f1 by (intro disjI2 exI[of _ k]) (simp add: prod_eq_iff)
  qed
qed

lemma alloc_data_block_spec:
  assumes "meta_ok s"
  shows "\<exists>po s'. alloc_data_block s = Some (po, s') \<and> meta_ok s' \<and> bitmap_frame s s' \<and> inode_bits s' = inode_bits s \<and>
    (case po of None \<Rightarrow> (\<forall>k < 262144. block_bits s ! k) \<and> block_bits s' = block_bits s
     | Some p \<Rightarrow> 457 \<le> unat p \<and> unat p < 262601 \<and> \<not> block_bits s ! (unat p - 457) \<and>
         block_bits s' = (block_bits s)[unat p - 457 := True])"
proof -
  obtain s' where a: "GFS_alloc_in_bitmap 1 (block_bitmap_loc (sblk s)) (inode_loc (sblk s)) s =
      Some (map of_nat (fst (grab 1 0 (block_bits s))), s')"
    "block_bits s' = snd (grab 1 0 (block_bits s))" "inode_bits s' = inode_bits s" "meta_ok s'" "bitmap_frame s s'"
    using GFS_alloc_block_bits[OF assms, of 1] by auto
  have dl: "GFS_DATALOC_BLOCK s' = 457"
    using a(4) by (simp add: GFS_DATALOC_BLOCK_def meta_ok_def std_layout_def SEC_PER_BLOCK_def)
  note len = length_block_bits[OF assms]
  consider "\<forall>i < length (block_bits s). block_bits s ! i" "grab 1 0 (block_bits s) = ([], block_bits s)"
    | k where "k < length (block_bits s)" "\<not> block_bits s ! k" "grab 1 0 (block_bits s) = ([k], (block_bits s)[k := True])"
    using grab_1[of "block_bits s"] by blast
  then show ?thesis
  proof cases
    case 1
    then show ?thesis using a len by (intro exI[of _ None] exI[of _ s']) (simp add: alloc_data_block_def)
  next
    case (2 k)
    then have k: "k < 262144" using len by simp
    have u: "unat (of_nat k + 457 :: u32) = k + 457" using k by (simp add: unat_word_ariths unat_of_nat)
    show ?thesis using 2 a k u dl
      by (intro exI[of _ "Some (of_nat k + 457)"] exI[of _ s']) (simp add: alloc_data_block_def)
  qed
qed

section \<open>Insert and lookup\<close>

text \<open>\<open>es\<close> is \<open>ds\<close> with the name \<open>nm\<close> bound to \<open>i\<close>.\<close>

definition binds :: "GFS_dentry list \<Rightarrow> GFS_dentry list \<Rightarrow> string \<Rightarrow> u32 \<Rightarrow> bool" where
  "binds ds es nm i \<longleftrightarrow> (\<forall>n. lookup es n = (if n = nm then i else lookup ds n))"

lemma binds_context:
  "binds ds es nm i \<Longrightarrow> lookup xs nm = DENTRY_INVALID_INO \<Longrightarrow> i \<noteq> DENTRY_INVALID_INO \<Longrightarrow>
   binds (xs @ ds @ ys) (xs @ es @ ys) nm i"
  by (simp add: binds_def lookup_append)

lemma lookup_free [simp]: "ino d = DENTRY_INVALID_INO \<Longrightarrow> lookup (d # ds) n = lookup ds n"
  by (simp add: lookup_Cons)

lemma lookup_all_free: "lookup (map (\<lambda>d. d\<lparr>ino := DENTRY_INVALID_INO\<rparr>) ds) n = DENTRY_INVALID_INO"
  by (induction ds) simp_all

lemma binds_set:
  assumes "j < length ds" and "ino (ds ! j) = DENTRY_INVALID_INO" and "i \<noteq> DENTRY_INVALID_INO"
    and "lookup ds nm = DENTRY_INVALID_INO" and "cstr (fname d) 0 = nm" and "ino d = i"
  shows "binds ds (ds[j := d]) nm i"
proof -
  have ds: "ds = take j ds @ ds ! j # drop (Suc j) ds" using assms(1) by (simp add: id_take_nth_drop)
  have "lookup ds n = lookup (take j ds @ drop (Suc j) ds) n" for n
    by (subst ds) (simp add: lookup_append assms(2))
  moreover have "ds[j := d] = take j ds @ d # drop (Suc j) ds" using assms(1) by (simp add: upd_conv_take_nth_drop)
  ultimately show ?thesis
    using assms by (auto simp: binds_def lookup_append lookup_Cons split: if_splits)
qed

definition deb_ok :: "GFS_dentry list \<Rightarrow> bool" where
  "deb_ok ds \<longleftrightarrow> length ds = 64 \<and> (\<forall>d \<in> set ds. length (fname d) = 60)"

lemma deb_ok_block: "length buf = 4096 \<Longrightarrow> deb_ok (dentries_of_block buf)"
  by (simp add: deb_ok_def fname_in_block)

lemma deb_ok_roundtrip: "deb_ok ds \<Longrightarrow> dentries_of_block (block_of_dentries ds) = ds \<and> length (block_of_dentries ds) = 4096"
  by (simp add: deb_ok_def)

lemma set_dentry_spec:
  assumes "deb_ok ds" and "j < 64" and "terminated b f"
  obtains d where "set_dentry ds j b f i = Some (ds[j := d])" "cstr (fname d) 0 = take 59 (cstr b f)" "ino d = i"
    "terminated (fname d) 0" "deb_ok (ds[j := d])"
proof -
  have j: "j < length ds" "length (fname (ds ! j)) = Suc 59" using assms(1,2) by (auto simp: deb_ok_def)
  obtain nm where nm: "strncpy (fname (ds ! j)) 0 b f 59 = Some nm" "length nm = Suc 59"
    "cstr (nm[59 := NUL]) 0 = take 59 (cstr b f)" "terminated (nm[59 := NUL]) 0"
    by (rule strncpy_terminated[OF assms(3) j(2)])
  let ?d = "\<lparr>fname = nm[59 := NUL], ino = i\<rparr>"
  have "set_dentry ds j b f i = Some (ds[j := ?d])" using j nm by (simp add: set_dentry_def FNLEN_def)
  moreover have "deb_ok (ds[j := ?d])"
    using assms(1) nm(2) set_update_subset_insert[of ds j ?d] by (auto simp: deb_ok_def)
  ultimately show thesis using that nm by simp
qed

text \<open>The pointers of a directory lead to different blocks in use.\<close>

definition used_ptrs :: "'d gfs \<Rightarrow> u32 list \<Rightarrow> bool" where
  "used_ptrs s ps \<longleftrightarrow> distinct (filter (\<lambda>p. p \<noteq> INODE_INVALID_PTR) ps) \<and>
     (\<forall>p \<in> set ps. p \<noteq> INODE_INVALID_PTR \<longrightarrow> ptr_used s p)"

lemma used_ptrs_ok: "meta_ok s \<Longrightarrow> used_ptrs s ps \<Longrightarrow> ptrs_ok s ps"
  by (auto simp: used_ptrs_def ptrs_ok_def ptr_used_valid)

lemma used_ptrs_split:
  assumes "used_ptrs s ps" and "i < length ps" and "ps ! i \<noteq> INODE_INVALID_PTR"
  shows "ps ! i \<notin> set (take i ps) \<union> set (drop (Suc i) ps)"
proof -
  have e: "take i ps @ ps ! i # drop (Suc i) ps = ps" using assms(2) by (simp add: id_take_nth_drop[symmetric])
  have "distinct (filter (\<lambda>p. p \<noteq> INODE_INVALID_PTR) (take i ps @ ps ! i # drop (Suc i) ps))"
    unfolding e using assms(1) by (simp add: used_ptrs_def)
  then show ?thesis using assms(3) by auto
qed

lemma first_free_spec:
  "first_free ds \<le> length ds" "first_free ds < length ds \<Longrightarrow> ino (ds ! first_free ds) = DENTRY_INVALID_INO"
  by (induction ds) auto

lemma first_free_full: "length ds \<le> first_free ds \<Longrightarrow> \<forall>d \<in> set ds. ino d \<noteq> DENTRY_INVALID_INO"
  by (induction ds) (auto split: if_splits)

text \<open>No entry is free in the blocks before the first invalid pointer, which are those the scan looks at.\<close>

definition scan_full :: "'d gfs \<Rightarrow> u32 list \<Rightarrow> bool" where
  "scan_full s ps \<longleftrightarrow> (\<forall>p \<in> set (takeWhile (\<lambda>p. p \<noteq> INODE_INVALID_PTR) ps). \<forall>d \<in> set (blk_entries s p). ino d \<noteq> DENTRY_INVALID_INO)"

text \<open>No data block is free.\<close>

definition disk_full :: "'d gfs \<Rightarrow> bool" where
  "disk_full s \<longleftrightarrow> (\<forall>p. 457 \<le> unat p \<and> unat p < 262601 \<longrightarrow> ptr_used s p)"

lemma scan_full_simps [simp]:
  "scan_full s []" "scan_full s (INODE_INVALID_PTR # ps)" "scan_full s (replicate n INODE_INVALID_PTR)"
  "p \<noteq> INODE_INVALID_PTR \<Longrightarrow> scan_full s (p # ps) \<longleftrightarrow> (\<forall>d \<in> set (blk_entries s p). ino d \<noteq> DENTRY_INVALID_INO) \<and> scan_full s ps"
  by (auto simp: scan_full_def)

lemma scan_full_append:
  "scan_full s (ps @ qs) \<longleftrightarrow> (if INODE_INVALID_PTR \<in> set ps then scan_full s ps else scan_full s ps \<and> scan_full s qs)"
proof (cases "INODE_INVALID_PTR \<in> set ps")
  case True
  then have "takeWhile (\<lambda>p. p \<noteq> INODE_INVALID_PTR) (ps @ qs) = takeWhile (\<lambda>p. p \<noteq> INODE_INVALID_PTR) ps" by simp
  then show ?thesis using True by (simp only: scan_full_def if_True)
next
  case False
  then have a: "\<forall>p \<in> set ps. p \<noteq> INODE_INVALID_PTR" by metis
  have "takeWhile (\<lambda>p. p \<noteq> INODE_INVALID_PTR) (ps @ qs) = ps @ takeWhile (\<lambda>p. p \<noteq> INODE_INVALID_PTR) qs"
    by (rule takeWhile_append2) (use a in blast)
  moreover have "takeWhile (\<lambda>p. p \<noteq> INODE_INVALID_PTR) ps = ps" unfolding takeWhile_eq_all_conv by (rule a)
  ultimately show ?thesis using False by (simp only: scan_full_def if_False set_append ball_Un)
qed

lemma scan_full_same:
  "(\<And>q. q \<in> set ps \<Longrightarrow> q \<noteq> INODE_INVALID_PTR \<Longrightarrow> disk_block s' q = disk_block s q) \<Longrightarrow> scan_full s' ps = scan_full s ps"
  unfolding scan_full_def by (rule ball_cong[OF refl]) (auto simp: blk_entries_def dest: set_takeWhileD)

lemma add_scan_spec:
  assumes "store_ok s" and "ptrs_ok s ps" and "deb_ok deb"
  shows "\<exists>i j deb' s'. add_scan ps deb s = Some (i, j, deb', s') \<and> read_only s s' \<and> deb_ok deb' \<and>
    (i < length ps \<longrightarrow> ps ! i \<noteq> INODE_INVALID_PTR \<longrightarrow>
       j < 64 \<and> deb' = dentries_of_block (disk_block s (ps ! i)) \<and> ino (deb' ! j) = DENTRY_INVALID_INO) \<and>
    (i < length ps \<and> ps ! i \<noteq> INODE_INVALID_PTR \<or> scan_full s ps \<and> (i < length ps \<longleftrightarrow> INODE_INVALID_PTR \<in> set ps))"
  using assms
proof (induction ps arbitrary: deb s)
  case Nil
  then show ?case by (simp add: read_only_refl)
next
  case (Cons p ps)
  show ?case
  proof (cases "p = INODE_INVALID_PTR")
    case True
    then show ?thesis using Cons(2,4) by (simp add: read_only_refl)
  next
    case False
    then have v: "blk_valid s p" using Cons(3) by (simp add: ptrs_ok_def)
    obtain r s1 where rd: "GFS_read_block p s = Some (disk_block s p, r, s1)" "read_only s s1"
      by (rule GFS_read_block_ro[OF Cons(2) v])
    let ?ds = "dentries_of_block (disk_block s p)"
    have len: "length (disk_block s p) = 4096"
      using Cons(2) by (simp add: disk_block_length store_ok_def)
    have ds: "deb_ok ?ds" by (rule deb_ok_block[OF len])
    then have l64: "length ?ds = 64" by (simp add: deb_ok_def)
    show ?thesis
    proof (cases "first_free ?ds < 64")
      case ff: True
      have "add_scan (p # ps) deb s = Some (0, first_free ?ds, ?ds, s1)"
        using False rd(1) ff by (simp add: DENT_PER_BLOCK_def Let_def)
      then show ?thesis using rd(2) ds ff first_free_spec(2)[of ?ds] l64 by simp
    next
      case nf: False
      note f = read_only_fields[OF rd(2)]
      have "store_ok s1" using rd(2) by (simp add: read_only_def)
      moreover have "ptrs_ok s1 ps" using Cons(3) by (simp add: ptrs_ok_def f)
      ultimately obtain i j deb' s2 where IH: "add_scan ps ?ds s1 = Some (i, j, deb', s2)" "read_only s1 s2" "deb_ok deb'"
        "i < length ps \<longrightarrow> ps ! i \<noteq> INODE_INVALID_PTR \<longrightarrow>
           j < 64 \<and> deb' = dentries_of_block (disk_block s1 (ps ! i)) \<and> ino (deb' ! j) = DENTRY_INVALID_INO"
        "i < length ps \<and> ps ! i \<noteq> INODE_INVALID_PTR \<or> scan_full s1 ps \<and> (i < length ps \<longleftrightarrow> INODE_INVALID_PTR \<in> set ps)"
        using Cons(1)[OF _ _ ds, of s1] by blast
      have "add_scan (p # ps) deb s = Some (Suc i, j, deb', s2)"
        using False rd(1) nf IH(1) by (simp add: DENT_PER_BLOCK_def Let_def)
      moreover have "Suc i < length (p # ps) \<longrightarrow> (p # ps) ! Suc i \<noteq> INODE_INVALID_PTR \<longrightarrow>
          j < 64 \<and> deb' = dentries_of_block (disk_block s ((p # ps) ! Suc i)) \<and> ino (deb' ! j) = DENTRY_INVALID_INO"
        using IH(4) by (simp only: nth_Cons_Suc length_Cons Suc_less_eq f(10))
      moreover have "scan_full s1 ps = scan_full s ps" by (rule scan_full_same) (simp add: f(10))
      moreover have "\<forall>d \<in> set (blk_entries s p). ino d \<noteq> DENTRY_INVALID_INO"
        using first_free_full[of ?ds] nf l64 False by (simp add: blk_entries_def)
      ultimately show ?thesis using read_only_trans[OF rd(2) IH(2)] IH(3,5) False by auto
    qed
  qed
qed

text \<open>The effect of adding an entry apart from the blocks: only blocks are taken into use.\<close>

definition alloc_frame :: "'d gfs \<Rightarrow> 'd gfs \<Rightarrow> bool" where
  "alloc_frame s s' \<longleftrightarrow> meta_ok s' \<and> inode_bits s' = inode_bits s \<and> gfsc_inodes s' = gfsc_inodes s \<and> sblk s' = sblk s \<and>
     kh s' = kh s \<and> fnodes s' = fnodes s \<and> flh s' = flh s \<and> npanic s' = npanic s \<and> (\<forall>p. ptr_used s p \<longrightarrow> ptr_used s' p)"

lemma alloc_frame_trans: "alloc_frame s s' \<Longrightarrow> alloc_frame s' s'' \<Longrightarrow> alloc_frame s s''"
  by (simp add: alloc_frame_def)

lemma alloc_frame_store: "meta_ok s' \<Longrightarrow> store_frame s s' \<Longrightarrow> alloc_frame s s'"
  using store_frame_bits[of s s'] cache_frame_fields[of s s'] by (simp add: alloc_frame_def store_frame_def)

lemma alloc_frame_read: "meta_ok s \<Longrightarrow> read_only s s' \<Longrightarrow> alloc_frame s s'"
  by (rule alloc_frame_store) (auto simp: read_only_meta, simp add: read_only_def)

text \<open>A new data block: nobody used it, everything in use stays as it is.\<close>

lemma alloc_data_block_cases:
  assumes "meta_ok s"
  obtains (none) s' where "alloc_data_block s = Some (None, s')" "alloc_frame s s'"
      "\<And>p. ptr_used s p \<Longrightarrow> disk_block s' p = disk_block s p" "disk_full s'"
    | (some) p s' where "alloc_data_block s = Some (Some p, s')" "alloc_frame s s'" "\<not> ptr_used s p" "ptr_used s' p"
      "\<And>q. ptr_used s q \<Longrightarrow> disk_block s' q = disk_block s q"
proof -
  obtain po s' where a: "alloc_data_block s = Some (po, s')" "meta_ok s'" "bitmap_frame s s'" "inode_bits s' = inode_bits s"
    "case po of None \<Rightarrow> (\<forall>k < 262144. block_bits s ! k) \<and> block_bits s' = block_bits s
     | Some p \<Rightarrow> 457 \<le> unat p \<and> unat p < 262601 \<and> \<not> block_bits s ! (unat p - 457) \<and>
         block_bits s' = (block_bits s)[unat p - 457 := True]"
    using alloc_data_block_spec[OF assms] by blast
  note f = bitmap_frame_fields[OF a(3)]
  have d: "disk_block s' p = disk_block s p" if "ptr_used s p" for p
    by (rule f(8)[OF ptr_used_valid[OF assms that]])
  have mono: "ptr_used s p \<longrightarrow> ptr_used s' p" for p
    using a(5) length_block_bits[OF assms] by (cases po) (auto simp: ptr_used_def nth_list_update)
  then have fr: "alloc_frame s s'" using a(2,4) f by (simp add: alloc_frame_def)
  show thesis
  proof (cases po)
    case None
    then have "disk_full s'" using a(5) by (auto simp: disk_full_def ptr_used_def)
    then show thesis using none a(1) fr d None by blast
  next
    case (Some p)
    then have "\<not> ptr_used s p" "ptr_used s' p" using a(5) length_block_bits[OF assms] by (auto simp: ptr_used_def)
    then show thesis using some a(1) fr d Some by blast
  qed
qed

lemma names_ok_append: "names_ok (ds @ es) \<longleftrightarrow> names_ok ds \<and> names_ok es"
  by (auto simp: names_ok_def)

lemma ptr_entries_append: "ptr_entries s (ps @ qs) = ptr_entries s ps @ ptr_entries s qs"
  by (simp add: ptr_entries_def)

lemma ptr_entries_same:
  "(\<And>q. q \<in> set ps \<Longrightarrow> q \<noteq> INODE_INVALID_PTR \<Longrightarrow> disk_block s' q = disk_block s q) \<Longrightarrow> ptr_entries s' ps = ptr_entries s ps"
  unfolding ptr_entries_def blk_entries_def by (rule arg_cong[where f = concat]) (auto intro: map_cong)

text \<open>Replacing the block of entries behind one pointer.\<close>

lemma binds_block:
  assumes i: "i < length ps" and p: "p \<noteq> INODE_INVALID_PTR"
    and same: "\<And>q. q \<in> set (take i ps) \<union> set (drop (Suc i) ps) \<Longrightarrow> q \<noteq> INODE_INVALID_PTR \<Longrightarrow> disk_block s' q = disk_block s q"
    and es: "dentries_of_block (disk_block s' p) = es" and b: "binds (blk_entries s (ps ! i)) es nm inum"
    and abs: "lookup (ptr_entries s ps) nm = DENTRY_INVALID_INO" and inum: "inum \<noteq> DENTRY_INVALID_INO"
    and ok: "names_ok (ptr_entries s ps)" "names_ok es"
  shows "binds (ptr_entries s ps) (ptr_entries s' (ps[i := p])) nm inum \<and> names_ok (ptr_entries s' (ps[i := p]))"
proof -
  let ?a = "ptr_entries s (take i ps)" and ?c = "ptr_entries s (drop (Suc i) ps)"
  have "ptr_entries s ps = ptr_entries s (take i ps @ [ps ! i] @ drop (Suc i) ps)"
    using i by (simp add: id_take_nth_drop[symmetric])
  then have old: "ptr_entries s ps = ?a @ blk_entries s (ps ! i) @ ?c"
    by (simp only: ptr_entries_append) (simp add: ptr_entries_def)
  have "ps[i := p] = take i ps @ [p] @ drop (Suc i) ps" using i by (simp add: upd_conv_take_nth_drop)
  then have "ptr_entries s' (ps[i := p]) = ptr_entries s' (take i ps) @ blk_entries s' p @ ptr_entries s' (drop (Suc i) ps)"
    by (simp only: ptr_entries_append) (simp add: ptr_entries_def)
  also have "ptr_entries s' (take i ps) = ?a" by (rule ptr_entries_same) (use same in auto)
  also have "ptr_entries s' (drop (Suc i) ps) = ?c" by (rule ptr_entries_same) (use same in auto)
  also have "blk_entries s' p = es" using p es by (simp add: blk_entries_def)
  finally have new: "ptr_entries s' (ps[i := p]) = ?a @ es @ ?c" .
  have "lookup ?a nm = DENTRY_INVALID_INO" using abs unfolding old lookup_append by presburger
  then show ?thesis unfolding old new using binds_context[OF b _ inum] ok
    unfolding old names_ok_append by blast
qed

lemma names_ok_update:
  "names_ok ds \<Longrightarrow> terminated (fname d) 0 \<Longrightarrow> names_ok (ds[j := d])"
  using set_update_subset_insert[of ds j d] by (auto simp: names_ok_def)

lemma names_ok_free: "names_ok (map (\<lambda>d. d\<lparr>ino := DENTRY_INVALID_INO\<rparr>) ds)"
  by (auto simp: names_ok_def)

lemma binds_new_block:
  "cstr (fname d) 0 = nm \<Longrightarrow> ino d = i \<Longrightarrow> i \<noteq> DENTRY_INVALID_INO \<Longrightarrow>
   binds [] (d # map (\<lambda>d. d\<lparr>ino := DENTRY_INVALID_INO\<rparr>) ds) nm i"
  using lookup_all_free[of ds] by (simp add: binds_def lookup_Cons)

text \<open>What a call of \<open>add_on_ptr_arr\<close> gives: the entry is added, or the blocks in use are as before.\<close>

definition add_result :: "'d gfs \<Rightarrow> 'd gfs \<Rightarrow> u32 list \<Rightarrow> u32 list \<Rightarrow> string \<Rightarrow> u32 \<Rightarrow> int \<Rightarrow> bool" where
  "add_result s s' ps ps' nm inum r \<longleftrightarrow> alloc_frame s s' \<and>
     (\<forall>p. ptr_used s p \<and> p \<notin> set ps \<longrightarrow> disk_block s' p = disk_block s p) \<and>
     (if r = 0 then length ps' = length ps \<and> used_ptrs s' ps' \<and>
        (\<forall>p \<in> set ps'. p \<in> set ps \<or> \<not> ptr_used s p) \<and>
        binds (ptr_entries s ps) (ptr_entries s' ps') nm inum \<and> names_ok (ptr_entries s' ps')
      else (r = 2 \<and> disk_full s' \<and> INODE_INVALID_PTR \<in> set ps \<or> r = -3 \<and> INODE_INVALID_PTR \<notin> set ps) \<and> scan_full s ps \<and>
        ps' = ps \<and> (\<forall>p. ptr_used s p \<longrightarrow> disk_block s' p = disk_block s p))"

lemma used_ptrs_mono: "used_ptrs s ps \<Longrightarrow> (\<And>p. ptr_used s p \<Longrightarrow> ptr_used s' p) \<Longrightarrow> used_ptrs s' ps"
  by (auto simp: used_ptrs_def)

lemma used_ptrs_new:
  assumes "used_ptrs s ps" and "i < length ps" and "ps ! i = INODE_INVALID_PTR" and "\<not> ptr_used s p" and "ptr_used s' p"
    and "\<And>q. ptr_used s q \<Longrightarrow> ptr_used s' q"
  shows "used_ptrs s' (ps[i := p])"
proof -
  let ?P = "\<lambda>p. p \<noteq> INODE_INVALID_PTR"
  have e: "take i ps @ ps ! i # drop (Suc i) ps = ps" using assms(2) by (simp add: id_take_nth_drop[symmetric])
  have "distinct (filter ?P (take i ps @ ps ! i # drop (Suc i) ps))"
    unfolding e using assms(1) by (simp add: used_ptrs_def)
  moreover have "p \<notin> set ps \<or> p = INODE_INVALID_PTR" using assms(1,4) by (auto simp: used_ptrs_def)
  moreover have "p \<noteq> INODE_INVALID_PTR" by (rule ptr_used_nonzero[OF assms(5)])
  ultimately have "distinct (filter ?P (take i ps @ p # drop (Suc i) ps))"
    using assms(3) set_take_subset[of i ps] set_drop_subset[of "Suc i" ps] by auto
  then show ?thesis using assms set_update_subset_insert[of ps i p]
    by (auto simp: used_ptrs_def upd_conv_take_nth_drop)
qed

text \<open>When a name can be added: its first 59 characters are not in the directory yet.\<close>

definition add_pre :: "'d gfs \<Rightarrow> u32 list \<Rightarrow> cbuf \<Rightarrow> nat \<Rightarrow> u32 \<Rightarrow> bool" where
  "add_pre s ps b f inum \<longleftrightarrow> meta_ok s \<and> used_ptrs s ps \<and> names_ok (ptr_entries s ps) \<and>
     terminated b f \<and> inum \<noteq> DENTRY_INVALID_INO \<and>
     lookup (ptr_entries s ps) (take 59 (cstr b f)) = DENTRY_INVALID_INO"

lemma add_preD:
  assumes "add_pre s ps b f inum"
  shows "meta_ok s" "used_ptrs s ps" "names_ok (ptr_entries s ps)" "terminated b f"
    "inum \<noteq> DENTRY_INVALID_INO" "lookup (ptr_entries s ps) (take 59 (cstr b f)) = DENTRY_INVALID_INO"
  using assms by (simp_all add: add_pre_def)

lemma entries_at:
  assumes "i < length ps" and "blk_entries s (ps ! i) = ds"
  shows "ptr_entries s ps = ptr_entries s (take i ps) @ ds @ ptr_entries s (drop (Suc i) ps)"
proof -
  have "ptr_entries s ps = ptr_entries s (take i ps @ [ps ! i] @ drop (Suc i) ps)"
    using assms(1) by (simp add: id_take_nth_drop[symmetric])
  then show ?thesis by (simp only: ptr_entries_append) (simp add: ptr_entries_def assms(2))
qed

lemma used_neighbour:
  assumes "used_ptrs s ps" and "q \<in> set (take i ps) \<union> set (drop (Suc i) ps)" and "q \<noteq> INODE_INVALID_PTR"
  shows "ptr_used s q"
  using assms by (auto simp: used_ptrs_def dest: in_set_takeD in_set_dropD)

lemma add_existing_block:
  assumes pre: "add_pre s ps b f inum" and ro1: "read_only s s1" and deb1: "deb_ok deb1"
    and i: "i < length ps" and nz: "ps ! i \<noteq> INODE_INVALID_PTR"
    and j: "j < 64" "deb1 = dentries_of_block (disk_block s (ps ! i))" "ino (deb1 ! j) = DENTRY_INVALID_INO"
  shows "\<exists>d r s2. set_dentry deb1 j b f inum = Some (deb1[j := d]) \<and> deb_ok (deb1[j := d]) \<and>
    GFS_write_block (ps ! i) (block_of_dentries (deb1[j := d])) s1 = Some (r, s2) \<and>
    add_result s s2 ps ps (take 59 (cstr b f)) inum 0"
proof -
  note p = add_preD[OF pre] and ro = read_only_fields[OF ro1]
  note f1 = alloc_frame_read[OF p(1) ro1] and m1 = read_only_meta[OF p(1) ro1]
  obtain d where d: "set_dentry deb1 j b f inum = Some (deb1[j := d])" "cstr (fname d) 0 = take 59 (cstr b f)" "ino d = inum"
    "terminated (fname d) 0" "deb_ok (deb1[j := d])"
    by (rule set_dentry_spec[OF deb1 j(1) p(4), of inum]) (rule that)
  have pu: "ptr_used s (ps ! i)" using p(2) i nz by (auto simp: used_ptrs_def)
  have pv: "blk_valid s1 (ps ! i)" using ptr_used_valid[OF p(1) pu] by (simp add: ro(9))
  obtain r s2 where w: "GFS_write_block (ps ! i) (block_of_dentries (deb1[j := d])) s1 = Some (r, s2)" "meta_ok s2"
    "store_frame s1 s2" "disk_block s2 (ps ! i) = block_of_dentries (deb1[j := d])"
    "\<And>c. blk_valid s1 c \<Longrightarrow> c \<noteq> ps ! i \<Longrightarrow> disk_block s2 c = disk_block s1 c"
    using write_block_meta[OF m1 pv, of "block_of_dentries (deb1[j := d])"] deb_ok_roundtrip[OF d(5)] by metis
  have fr: "alloc_frame s s2" by (rule alloc_frame_trans[OF f1 alloc_frame_store[OF w(2,3)]])
  have other: "disk_block s2 q = disk_block s q" if "ptr_used s q" "q \<noteq> ps ! i" for q
    using w(5)[of q] ptr_used_valid[OF p(1) that(1)] that(2) by (simp add: ro(9,10))
  have be: "blk_entries s (ps ! i) = deb1" using nz j(2) by (simp add: blk_entries_def)
  have dn: "names_ok deb1" using p(3) unfolding entries_at[OF i be] names_ok_append by blast
  have da: "lookup deb1 (take 59 (cstr b f)) = DENTRY_INVALID_INO"
    using p(6) unfolding entries_at[OF i be] lookup_append by presburger
  have bd: "binds (blk_entries s (ps ! i)) (deb1[j := d]) (take 59 (cstr b f)) inum"
    unfolding be by (rule binds_set[OF _ j(3) p(5) da d(2,3)]) (use j(1) deb1 in \<open>simp add: deb_ok_def\<close>)
  have "binds (ptr_entries s ps) (ptr_entries s2 (ps[i := ps ! i])) (take 59 (cstr b f)) inum \<and>
      names_ok (ptr_entries s2 (ps[i := ps ! i]))"
    by (rule binds_block[OF i nz _ _ bd p(6,5,3) names_ok_update[OF dn d(4)]])
      (use other used_ptrs_split[OF p(2) i nz] used_neighbour[OF p(2), of _ i] w(4) deb_ok_roundtrip[OF d(5)] in auto)
  moreover have "used_ptrs s2 ps" using used_ptrs_mono[OF p(2)] fr by (auto simp: alloc_frame_def)
  ultimately have "add_result s s2 ps ps (take 59 (cstr b f)) inum 0"
    using fr other nth_mem[OF i] by (auto simp: add_result_def)
  then show ?thesis using d(1,5) w(1) by blast
qed

lemma add_new_block:
  assumes pre: "add_pre s ps b f inum" and ro1: "read_only s s1" and deb1: "deb_ok deb1"
    and i: "i < length ps" and inv: "ps ! i = INODE_INVALID_PTR"
    and a: "alloc_frame s1 s2" "\<not> ptr_used s1 p" "ptr_used s2 p" "\<forall>q. ptr_used s1 q \<longrightarrow> disk_block s2 q = disk_block s1 q"
  shows "\<exists>d r s3. set_dentry deb1 0 b f inum = Some (deb1[0 := d]) \<and>
    (let es = take 1 (deb1[0 := d]) @ map (\<lambda>d. d\<lparr>ino := DENTRY_INVALID_INO\<rparr>) (drop 1 (deb1[0 := d])) in
     deb_ok es \<and> GFS_write_block p (block_of_dentries es) s2 = Some (r, s3) \<and>
     add_result s s3 ps (ps[i := p]) (take 59 (cstr b f)) inum 0)"
proof -
  note pp = add_preD[OF pre] and ro = read_only_fields[OF ro1]
  have u1: "ptr_used s1 = ptr_used s" using store_frame_bits(3) ro1 by (auto simp: read_only_def)
  have m2: "meta_ok s2" using a(1) by (simp add: alloc_frame_def)
  obtain d where d: "set_dentry deb1 0 b f inum = Some (deb1[0 := d])" "cstr (fname d) 0 = take 59 (cstr b f)" "ino d = inum"
    "terminated (fname d) 0" "deb_ok (deb1[0 := d])"
    by (rule set_dentry_spec[OF deb1 _ pp(4), of 0 inum]) (simp, rule that)
  let ?es = "d # map (\<lambda>d. d\<lparr>ino := DENTRY_INVALID_INO\<rparr>) (drop 1 deb1)"
  have es: "take 1 (deb1[0 := d]) @ map (\<lambda>d. d\<lparr>ino := DENTRY_INVALID_INO\<rparr>) (drop 1 (deb1[0 := d])) = ?es"
    using deb1 by (cases deb1) (simp_all add: deb_ok_def)
  have eok: "deb_ok ?es" using deb1 d(5) by (cases deb1) (auto simp: deb_ok_def)
  obtain r s3 where w: "GFS_write_block p (block_of_dentries ?es) s2 = Some (r, s3)" "meta_ok s3"
    "store_frame s2 s3" "disk_block s3 p = block_of_dentries ?es"
    "\<And>c. blk_valid s2 c \<Longrightarrow> c \<noteq> p \<Longrightarrow> disk_block s3 c = disk_block s2 c"
    using write_block_meta[OF m2 ptr_used_valid[OF m2 a(3)], of "block_of_dentries ?es"] deb_ok_roundtrip[OF eok] by metis
  have fr: "alloc_frame s s3"
    by (rule alloc_frame_trans[OF alloc_frame_trans[OF alloc_frame_read[OF pp(1) ro1] a(1)] alloc_frame_store[OF w(2,3)]])
  have np: "\<not> ptr_used s p" using a(2) by (simp add: u1)
  have other: "disk_block s3 q = disk_block s q" if "ptr_used s q" for q
  proof -
    have "ptr_used s2 q" using a(1) that by (simp add: alloc_frame_def u1)
    then have "disk_block s3 q = disk_block s2 q" using w(5)[of q] ptr_used_valid[OF m2] np that by metis
    then show ?thesis using a(4) that by (simp add: u1 ro(10))
  qed
  have bd: "binds (blk_entries s (ps ! i)) ?es (take 59 (cstr b f)) inum"
    unfolding inv using binds_new_block[OF d(2,3) pp(5), of "drop 1 deb1"] by (simp add: blk_entries_def)
  have "names_ok ?es" using names_ok_free d(4) by (auto simp: names_ok_def)
  then have "binds (ptr_entries s ps) (ptr_entries s3 (ps[i := p])) (take 59 (cstr b f)) inum \<and> names_ok (ptr_entries s3 (ps[i := p]))"
    by (intro binds_block[OF i ptr_used_nonzero[OF a(3)] _ _ bd pp(6,5,3)])
      (use other used_neighbour[OF pp(2), of _ i] w(4) deb_ok_roundtrip[OF eok] in auto)
  moreover have "used_ptrs s3 (ps[i := p])"
    using used_ptrs_new[OF pp(2) i inv np, of s3] a(3) store_frame_bits(3)[OF w(3)] fr by (auto simp: alloc_frame_def)
  ultimately have "add_result s s3 ps (ps[i := p]) (take 59 (cstr b f)) inum 0"
    using fr other np set_update_subset_insert[of ps i p] by (auto simp: add_result_def)
  then show ?thesis using d(1) eok w(1) unfolding Let_def by (intro exI[of _ d] exI[of _ r] exI[of _ s3]) (simp only: es)
qed

lemma add_on_ptr_arr_spec:
  assumes pre: "add_pre s ps b f inum" and deb: "deb_ok deb"
  shows "\<exists>r ps' deb' s'. add_on_ptr_arr ps deb b f inum s = Some (r, ps', deb', s') \<and> deb_ok deb' \<and>
    add_result s s' ps ps' (take 59 (cstr b f)) inum r"
proof -
  note p = add_preD[OF pre]
  have st: "store_ok s" using p(1) by (simp add: meta_ok_def)
  obtain i j deb1 s1 where sc: "add_scan ps deb s = Some (i, j, deb1, s1)" "read_only s s1" "deb_ok deb1"
    "i < length ps \<longrightarrow> ps ! i \<noteq> INODE_INVALID_PTR \<longrightarrow>
       j < 64 \<and> deb1 = dentries_of_block (disk_block s (ps ! i)) \<and> ino (deb1 ! j) = DENTRY_INVALID_INO"
    "i < length ps \<and> ps ! i \<noteq> INODE_INVALID_PTR \<or> scan_full s ps \<and> (i < length ps \<longleftrightarrow> INODE_INVALID_PTR \<in> set ps)"
    using add_scan_spec[OF st used_ptrs_ok[OF p(1,2)] deb] by blast
  note ro = read_only_fields[OF sc(2)] and f1 = alloc_frame_read[OF p(1) sc(2)]
  have u1: "ptr_used s1 = ptr_used s" using store_frame_bits(3) sc(2) by (auto simp: read_only_def)
  consider (full) "\<not> i < length ps" | (old) "i < length ps" "ps ! i \<noteq> INODE_INVALID_PTR"
    | (new) "i < length ps" "ps ! i = INODE_INVALID_PTR" by blast
  then show ?thesis
  proof cases
    case full
    then show ?thesis using sc f1 ro(10) by (simp add: add_on_ptr_arr_def add_result_def)
  next
    case old
    then have "j < 64" "deb1 = dentries_of_block (disk_block s (ps ! i))" "ino (deb1 ! j) = DENTRY_INVALID_INO"
      using sc(4) by auto
    from add_existing_block[OF pre sc(2,3) old this] show ?thesis
      using sc(1) old by (elim exE conjE) (simp add: add_on_ptr_arr_def)
  next
    case new
    from read_only_meta[OF p(1) sc(2)] show ?thesis
    proof (cases rule: alloc_data_block_cases)
      case (none s2)
      have "add_on_ptr_arr ps deb b f inum s = Some (2, ps, deb1, s2)"
        using sc(1) new none(1) by (simp add: add_on_ptr_arr_def)
      then show ?thesis using sc(3,5) new alloc_frame_trans[OF f1 none(2)] none(3,4)
        by (intro exI[of _ 2] exI[of _ ps] exI[of _ deb1] exI[of _ s2]) (simp add: add_result_def u1 ro(10))
    next
      case (some q s2)
      have "\<forall>q. ptr_used s1 q \<longrightarrow> disk_block s2 q = disk_block s1 q" using some(5) by blast
      from add_new_block[OF pre sc(2,3) new some(2-4) this] show ?thesis
        using sc(1) new some(1) unfolding Let_def by (elim exE conjE) (simp add: add_on_ptr_arr_def Let_def)
    qed
  qed
qed

lemma used_ptrs_append:
  "used_ptrs s (ps @ qs) \<longleftrightarrow> used_ptrs s ps \<and> used_ptrs s qs \<and> (\<forall>p \<in> set ps. p \<noteq> INODE_INVALID_PTR \<longrightarrow> p \<notin> set qs)"
  by (auto simp: used_ptrs_def)

lemma used_ptrs_Cons:
  "used_ptrs s (p # qs) \<longleftrightarrow> (p \<noteq> INODE_INVALID_PTR \<longrightarrow> ptr_used s p \<and> p \<notin> set qs) \<and> used_ptrs s qs"
  by (auto simp: used_ptrs_def)

lemma used_ptrs_grow:
  assumes "used_ptrs s (ps @ qs)" and "used_ptrs s' qs'" and "\<And>p. ptr_used s p \<Longrightarrow> ptr_used s' p"
    and "\<forall>p \<in> set qs'. p \<in> set qs \<or> \<not> ptr_used s p"
  shows "used_ptrs s' (ps @ qs')"
  using assms used_ptrs_mono[of s ps s'] unfolding used_ptrs_append by (auto simp: used_ptrs_def)

lemma used_ptrs_commute: "used_ptrs s (ps @ qs) = used_ptrs s (qs @ ps)"
  by (auto simp: used_ptrs_def)

text \<open>The second half of the code: an entry below the indirect block \<open>p\<close>, which holds \<open>idb\<close>.\<close>

lemma add_indirect:
  assumes pre: "add_pre s idb b f inum" and deb: "deb_ok deb" and u: "used_ptrs s (ps @ p # idb)" and p: "p \<noteq> INODE_INVALID_PTR"
    and len: "length idb = 1024"
  shows "\<exists>r idb' deb' s1. add_on_ptr_arr idb deb b f inum s = Some (r, idb', deb', s1) \<and>
    (if r = 0 then \<exists>q s2. GFS_write_block p (block_of_ptrs idb') s1 = Some (q, s2) \<and> alloc_frame s s2 \<and>
       (\<forall>c. ptr_used s c \<and> c \<notin> set (p # idb) \<longrightarrow> disk_block s2 c = disk_block s c) \<and>
       ptrs_of_block (disk_block s2 p) = idb' \<and> used_ptrs s2 (ps @ p # idb') \<and>
       binds (ptr_entries s idb) (ptr_entries s2 idb') (take 59 (cstr b f)) inum \<and> names_ok (ptr_entries s2 idb')
     else (r = 2 \<and> disk_full s1 \<or> r = -3 \<and> INODE_INVALID_PTR \<notin> set idb) \<and> scan_full s idb \<and>
       alloc_frame s s1 \<and> (\<forall>c. ptr_used s c \<longrightarrow> disk_block s1 c = disk_block s c))"
proof -
  obtain r idb' deb' s1 where a: "add_on_ptr_arr idb deb b f inum s = Some (r, idb', deb', s1)"
    and res: "add_result s s1 idb idb' (take 59 (cstr b f)) inum r" using add_on_ptr_arr_spec[OF pre deb] by blast
  show ?thesis
  proof (cases "r = 0")
    case False
    then show ?thesis using a res by (auto simp: add_result_def)
  next
    case True
    note m = add_preD(1)[OF pre]
    have res': "alloc_frame s s1" "\<And>c. ptr_used s c \<Longrightarrow> c \<notin> set idb \<Longrightarrow> disk_block s1 c = disk_block s c"
      "length idb' = 1024" "used_ptrs s1 idb'" "\<forall>c \<in> set idb'. c \<in> set idb \<or> \<not> ptr_used s c"
      "binds (ptr_entries s idb) (ptr_entries s1 idb') (take 59 (cstr b f)) inum" "names_ok (ptr_entries s1 idb')"
      using res True len by (auto simp: add_result_def)
    have m1: "meta_ok s1" and mono: "\<And>c. ptr_used s c \<Longrightarrow> ptr_used s1 c" using res'(1) by (auto simp: alloc_frame_def)
    have pu: "ptr_used s p" "p \<notin> set idb" using u p unfolding used_ptrs_append by (auto simp: used_ptrs_def)
    have pn: "p \<notin> set idb'" using res'(5) pu by auto
    obtain q s2 where w: "GFS_write_block p (block_of_ptrs idb') s1 = Some (q, s2)" "meta_ok s2" "store_frame s1 s2"
      "disk_block s2 p = block_of_ptrs idb'" "\<And>c. blk_valid s1 c \<Longrightarrow> c \<noteq> p \<Longrightarrow> disk_block s2 c = disk_block s1 c"
      using write_block_meta[OF m1 ptr_used_valid[OF m1 mono[OF pu(1)]], of "block_of_ptrs idb'"] res'(3) by auto
    have u2: "ptr_used s2 = ptr_used s1" by (rule store_frame_bits(3)[OF w(3)])
    have fr: "alloc_frame s s2" by (rule alloc_frame_trans[OF res'(1) alloc_frame_store[OF w(2,3)]])
    have oth: "disk_block s2 c = disk_block s1 c" if "ptr_used s1 c" "c \<noteq> p" for c
      by (rule w(5)[OF ptr_used_valid[OF m1 that(1)] that(2)])
    have e: "ptr_entries s2 idb' = ptr_entries s1 idb'"
      by (rule ptr_entries_same) (use oth pn res'(4) in \<open>auto simp: used_ptrs_def\<close>)
    have "used_ptrs s1 ((ps @ [p]) @ idb')"
      by (rule used_ptrs_grow[of s _ idb]) (use u res'(4,5) mono in simp_all)
    then have "used_ptrs s2 (ps @ p # idb')" by (simp add: used_ptrs_def u2)
    moreover have "disk_block s2 c = disk_block s c" if "ptr_used s c" "c \<notin> set (p # idb)" for c
      using oth[OF mono[OF that(1)]] res'(2)[OF that(1)] that(2) by simp
    ultimately show ?thesis using True a w(1,4) fr e res'(6,7)
      by (intro exI[of _ r] exI[of _ idb'] exI[of _ deb'] exI[of _ s1]) auto
  qed
qed

text \<open>All the blocks of a directory: direct, the indirect block, and those behind it.\<close>

definition ind_ptrs :: "'d gfs \<Rightarrow> GFS_inode \<Rightarrow> u32 list" where
  "ind_ptrs s x = (if idptr x = INODE_INVALID_PTR then [] else ptrs_of_block (disk_block s (idptr x)))"

definition dir_ptrs :: "'d gfs \<Rightarrow> GFS_inode \<Rightarrow> u32 list" where
  "dir_ptrs s x = dptr x @ idptr x # ind_ptrs s x"

definition dir_wf :: "'d gfs \<Rightarrow> GFS_inode \<Rightarrow> bool" where
  "dir_wf s x \<longleftrightarrow> itype x = IT_DIR \<and> used_ptrs s (dir_ptrs s x) \<and> names_ok (dir_dentries s x)"

lemma ptr_entries_Nil [simp]: "ptr_entries s [] = []"
  by (simp add: ptr_entries_def)

lemma ptr_entries_invalid: "ptr_entries s (replicate n INODE_INVALID_PTR) = []"
  by (simp add: ptr_entries_def blk_entries_def)

lemma dir_dentries_split: "dir_dentries s x = ptr_entries s (dptr x) @ ptr_entries s (ind_ptrs s x)"
  by (simp add: dir_dentries_def ind_ptrs_def)

lemma dir_wf_ok: "meta_ok s \<Longrightarrow> dir_wf s x \<Longrightarrow> dir_ok s x"
  by (auto simp: dir_wf_def dir_ok_def dir_ptrs_def ind_ptrs_def used_ptrs_def ptrs_ok_def ptr_used_valid)

lemma dir_same:
  assumes "used_ptrs s (dir_ptrs s x)" and "\<And>c. ptr_used s c \<Longrightarrow> disk_block s' c = disk_block s c"
  shows "dir_dentries s' x = dir_dentries s x" "ind_ptrs s' x = ind_ptrs s x"
proof -
  have "\<And>c. c \<in> set (dir_ptrs s x) \<Longrightarrow> c \<noteq> INODE_INVALID_PTR \<Longrightarrow> disk_block s' c = disk_block s c"
    using assms by (simp add: used_ptrs_def)
  then show i: "ind_ptrs s' x = ind_ptrs s x" and "dir_dentries s' x = dir_dentries s x"
    unfolding dir_dentries_split by (auto simp: ind_ptrs_def dir_ptrs_def intro!: arg_cong2[where f = append] ptr_entries_same)
qed

text \<open>
  Why an entry cannot be added: in no block that is searched an entry is free, and either a block is needed and none is free on
  the disk (2), or all the pointers of the directory are taken (-3).
\<close>

definition no_room :: "'d gfs \<Rightarrow> 'd gfs \<Rightarrow> GFS_inode \<Rightarrow> int \<Rightarrow> bool" where
  "no_room s s' x r \<longleftrightarrow> scan_full s (dptr x @ ind_ptrs s x) \<and>
     (r = 2 \<and> disk_full s' \<or> r = -3 \<and> INODE_INVALID_PTR \<notin> set (dptr x) \<and> idptr x \<noteq> INODE_INVALID_PTR \<and> INODE_INVALID_PTR \<notin> set (ind_ptrs s x))"

definition dir_add_result :: "'d gfs \<Rightarrow> 'd gfs \<Rightarrow> GFS_inode \<Rightarrow> GFS_inode \<Rightarrow> string \<Rightarrow> u32 \<Rightarrow> int \<Rightarrow> bool" where
  "dir_add_result s s' x x' nm inum r \<longleftrightarrow> alloc_frame s s' \<and>
     (\<forall>p. ptr_used s p \<and> p \<notin> set (dir_ptrs s x) \<longrightarrow> disk_block s' p = disk_block s p) \<and>
     (if r = 0 then dir_wf s' x' \<and> length (dptr x') = length (dptr x) \<and> isize x' = isize x + 1 \<and> nlink x' = nlink x \<and>
        binds (dir_dentries s x) (dir_dentries s' x') nm inum
      else no_room s s' x r \<and> dir_dentries s' x = dir_dentries s x)"

definition dir_add_pre :: "'d gfs \<Rightarrow> GFS_inode \<Rightarrow> cbuf \<Rightarrow> nat \<Rightarrow> u32 \<Rightarrow> bool" where
  "dir_add_pre s x b f inum \<longleftrightarrow> meta_ok s \<and> dir_wf s x \<and> terminated b f \<and>
     inum \<noteq> DENTRY_INVALID_INO \<and> lookup (dir_dentries s x) (take 59 (cstr b f)) = DENTRY_INVALID_INO"

lemma dir_add_pre_parts:
  assumes "dir_add_pre s x b f inum"
  shows "add_pre s (dptr x) b f inum" "add_pre s (ind_ptrs s x) b f inum"
    "meta_ok s" "used_ptrs s (dir_ptrs s x)" "itype x = IT_DIR" "names_ok (dir_dentries s x)"
    "lookup (ptr_entries s (dptr x)) (take 59 (cstr b f)) = DENTRY_INVALID_INO" "inum \<noteq> DENTRY_INVALID_INO"
proof -
  have l: "lookup (ptr_entries s (dptr x)) (take 59 (cstr b f)) = DENTRY_INVALID_INO"
    "lookup (ptr_entries s (ind_ptrs s x)) (take 59 (cstr b f)) = DENTRY_INVALID_INO"
    using assms unfolding dir_add_pre_def dir_dentries_split lookup_append by presburger+
  have u: "used_ptrs s (dptr x)" "used_ptrs s (ind_ptrs s x)"
    using assms by (auto simp: dir_add_pre_def dir_wf_def dir_ptrs_def used_ptrs_append used_ptrs_Cons)
  have n: "names_ok (ptr_entries s (dptr x))" "names_ok (ptr_entries s (ind_ptrs s x))"
    using assms unfolding dir_add_pre_def dir_wf_def dir_dentries_split names_ok_append by blast+
  show "add_pre s (dptr x) b f inum" "add_pre s (ind_ptrs s x) b f inum"
    using assms l u n by (simp_all add: add_pre_def dir_add_pre_def)
  show "meta_ok s" "used_ptrs s (dir_ptrs s x)" "itype x = IT_DIR" "names_ok (dir_dentries s x)"
    "lookup (ptr_entries s (dptr x)) (take 59 (cstr b f)) = DENTRY_INVALID_INO" "inum \<noteq> DENTRY_INVALID_INO"
    using assms l by (auto simp: dir_add_pre_def dir_wf_def)
qed

text \<open>The entry goes into a block behind a direct pointer.\<close>

lemma dir_add_direct:
  assumes pre: "dir_add_pre s x b f inum" and res: "add_result s s' (dptr x) ps (take 59 (cstr b f)) inum 0"
  shows "dir_add_result s s' x (x\<lparr>dptr := ps, isize := isize x + 1\<rparr>) (take 59 (cstr b f)) inum 0"
proof -
  let ?x = "x\<lparr>dptr := ps, isize := isize x + 1\<rparr>"
  note p = dir_add_pre_parts[OF pre]
  have r: "alloc_frame s s'" "\<And>c. ptr_used s c \<Longrightarrow> c \<notin> set (dptr x) \<Longrightarrow> disk_block s' c = disk_block s c"
    "length ps = length (dptr x)" "used_ptrs s' ps" "\<forall>c \<in> set ps. c \<in> set (dptr x) \<or> \<not> ptr_used s c"
    "binds (ptr_entries s (dptr x)) (ptr_entries s' ps) (take 59 (cstr b f)) inum" "names_ok (ptr_entries s' ps)"
    using res by (auto simp: add_result_def)
  have mono: "\<And>c. ptr_used s c \<Longrightarrow> ptr_used s' c" using r(1) by (simp add: alloc_frame_def)
  have rest: "\<And>c. c \<in> set (idptr x # ind_ptrs s x) \<Longrightarrow> c \<noteq> INODE_INVALID_PTR \<Longrightarrow> disk_block s' c = disk_block s c"
    using p(4) r(2) unfolding dir_ptrs_def used_ptrs_append by (auto simp: used_ptrs_def)
  have i: "ind_ptrs s' ?x = ind_ptrs s x" using rest by (simp add: ind_ptrs_def)
  have e: "ptr_entries s' (ind_ptrs s x) = ptr_entries s (ind_ptrs s x)" by (rule ptr_entries_same) (use rest in auto)
  have b: "binds (dir_dentries s x) (dir_dentries s' ?x) (take 59 (cstr b f)) inum"
    using binds_context[OF r(6), of "[]" "ptr_entries s (ind_ptrs s x)"] p(8)
    by (simp add: dir_dentries_split i e)
  have "used_ptrs s' ((idptr x # ind_ptrs s x) @ ps)"
    by (rule used_ptrs_grow[of s _ "dptr x"])
      (use p(4) r(4,5) mono in \<open>simp_all add: dir_ptrs_def used_ptrs_commute[of s "dptr x"]\<close>)
  then have "used_ptrs s' (dir_ptrs s' ?x)" by (simp add: dir_ptrs_def i used_ptrs_commute[of s' ps])
  moreover have "names_ok (dir_dentries s' ?x)"
    using p(6) r(7) by (simp add: dir_dentries_split i e names_ok_append)
  ultimately have "dir_wf s' ?x" using p(5) by (simp add: dir_wf_def)
  then show ?thesis using r(1-3) b by (simp add: dir_add_result_def dir_ptrs_def)
qed

text \<open>The entry goes into a block behind the indirect block \<open>p\<close>, which may be new.\<close>

lemma dir_add_indirect:
  assumes pre: "dir_add_pre s x b f inum" and fr: "alloc_frame s s2" "\<And>c. ptr_used s c \<Longrightarrow> disk_block s2 c = disk_block s c"
    and p: "p \<noteq> INODE_INVALID_PTR" and u: "used_ptrs s2 (dptr x @ p # idb)"
    and e: "ptr_entries s2 idb = ptr_entries s (ind_ptrs s x)"
    and own: "\<And>c. c \<in> set (p # idb) \<Longrightarrow> ptr_used s c \<Longrightarrow> c \<in> set (dir_ptrs s x)"
    and r: "alloc_frame s2 s4" "\<forall>c. ptr_used s2 c \<and> c \<notin> set (p # idb) \<longrightarrow> disk_block s4 c = disk_block s2 c"
      "ptrs_of_block (disk_block s4 p) = idb'" "used_ptrs s4 (dptr x @ p # idb')"
      "binds (ptr_entries s2 idb) (ptr_entries s4 idb') (take 59 (cstr b f)) inum" "names_ok (ptr_entries s4 idb')"
  shows "dir_add_result s s4 x (x\<lparr>idptr := p, isize := isize x + 1\<rparr>) (take 59 (cstr b f)) inum 0"
proof -
  let ?x = "x\<lparr>idptr := p, isize := isize x + 1\<rparr>"
  note q = dir_add_pre_parts[OF pre]
  have mono: "\<And>c. ptr_used s c \<Longrightarrow> ptr_used s2 c" using fr(1) by (simp add: alloc_frame_def)
  have i: "ind_ptrs s4 ?x = idb'" using p r(3) by (simp add: ind_ptrs_def)
  have d: "ptr_entries s4 (dptr x) = ptr_entries s (dptr x)"
  proof (rule ptr_entries_same)
    fix c assume c: "c \<in> set (dptr x)" "c \<noteq> INODE_INVALID_PTR"
    then have "ptr_used s c" using q(4) by (simp add: used_ptrs_def dir_ptrs_def)
    moreover have "c \<notin> set (p # idb)" using u c unfolding used_ptrs_append by blast
    ultimately show "disk_block s4 c = disk_block s c" using r(2) fr(2) mono by metis
  qed
  have "binds (dir_dentries s x) (dir_dentries s4 ?x) (take 59 (cstr b f)) inum"
    using binds_context[OF r(5)[unfolded e] q(7,8), of "[]"] by (simp add: dir_dentries_split i d)
  moreover have "dir_wf s4 ?x"
    using q(5,6) r(4,6) by (simp add: dir_wf_def dir_ptrs_def i dir_dentries_split d names_ok_append)
  moreover have "disk_block s4 c = disk_block s c" if "ptr_used s c" "c \<notin> set (dir_ptrs s x)" for c
    using that r(2) fr(2) mono own by metis
  ultimately show ?thesis using alloc_frame_trans[OF fr(1) r(1)] by (simp add: dir_add_result_def)
qed

lemma dir_add_nothing:
  assumes "dir_add_pre s x b f inum" and "alloc_frame s s'" and "\<And>c. ptr_used s c \<Longrightarrow> disk_block s' c = disk_block s c"
    and "no_room s s' x r"
  shows "dir_add_result s s' x x' (take 59 (cstr b f)) inum r"
  using assms dir_same(1)[OF dir_add_pre_parts(4)[OF assms(1)], of s'] by (auto simp: dir_add_result_def no_room_def)

text \<open>Both halves of what follows the choice of the indirect block.\<close>

lemma dir_add_below:
  assumes pre: "dir_add_pre s x b f inum" and fr: "alloc_frame s s2" "\<And>c. ptr_used s c \<Longrightarrow> disk_block s2 c = disk_block s c"
    and p: "p \<noteq> INODE_INVALID_PTR" and u: "used_ptrs s2 (dptr x @ p # idb)" and len: "length idb = 1024"
    and e: "ptr_entries s2 idb = ptr_entries s (ind_ptrs s x)" and deb: "deb_ok deb"
    and own: "\<And>c. c \<in> set (p # idb) \<Longrightarrow> ptr_used s c \<Longrightarrow> c \<in> set (dir_ptrs s x)"
    and full: "scan_full s (dptr x)" "INODE_INVALID_PTR \<notin> set (dptr x)" "scan_full s2 idb \<Longrightarrow> scan_full s (ind_ptrs s x)"
    and some: "INODE_INVALID_PTR \<notin> set idb \<Longrightarrow> idptr x \<noteq> INODE_INVALID_PTR \<and> INODE_INVALID_PTR \<notin> set (ind_ptrs s x)"
  shows "\<exists>r x' s'. (do {
      (r2, idb', _, s3) \<leftarrow> add_on_ptr_arr idb deb b f inum s2;
      if r2 = 0 then do {
        (_, s4) \<leftarrow> GFS_write_block p (block_of_ptrs idb') s3;
        Some (0, x\<lparr>idptr := p\<rparr>\<lparr>isize := isize (x\<lparr>idptr := p\<rparr>) + 1\<rparr>, s4)
      } else Some (r2, x\<lparr>idptr := p\<rparr>, s3)
    }) = Some (r, x', s') \<and> dir_add_result s s' x x' (take 59 (cstr b f)) inum r"
proof -
  note q = dir_add_pre_parts[OF pre]
  have m2: "meta_ok s2" using fr(1) by (simp add: alloc_frame_def)
  have "used_ptrs s2 idb" using u by (simp add: used_ptrs_append used_ptrs_Cons)
  then have pre2: "add_pre s2 idb b f inum" using q(2) m2 e by (simp add: add_pre_def)
  obtain r idb' deb' s3 where a: "add_on_ptr_arr idb deb b f inum s2 = Some (r, idb', deb', s3)"
    and res: "if r = 0 then \<exists>q s4. GFS_write_block p (block_of_ptrs idb') s3 = Some (q, s4) \<and> alloc_frame s2 s4 \<and>
       (\<forall>c. ptr_used s2 c \<and> c \<notin> set (p # idb) \<longrightarrow> disk_block s4 c = disk_block s2 c) \<and>
       ptrs_of_block (disk_block s4 p) = idb' \<and> used_ptrs s4 (dptr x @ p # idb') \<and>
       binds (ptr_entries s2 idb) (ptr_entries s4 idb') (take 59 (cstr b f)) inum \<and> names_ok (ptr_entries s4 idb')
     else (r = 2 \<and> disk_full s3 \<or> r = -3 \<and> INODE_INVALID_PTR \<notin> set idb) \<and> scan_full s2 idb \<and>
       alloc_frame s2 s3 \<and> (\<forall>c. ptr_used s2 c \<longrightarrow> disk_block s3 c = disk_block s2 c)"
    using add_indirect[OF pre2 deb u p len] by blast
  show ?thesis
  proof (cases "r = 0")
    case True
    obtain q s4 where w: "GFS_write_block p (block_of_ptrs idb') s3 = Some (q, s4)" "alloc_frame s2 s4"
      "\<forall>c. ptr_used s2 c \<and> c \<notin> set (p # idb) \<longrightarrow> disk_block s4 c = disk_block s2 c"
      "ptrs_of_block (disk_block s4 p) = idb'" "used_ptrs s4 (dptr x @ p # idb')"
      "binds (ptr_entries s2 idb) (ptr_entries s4 idb') (take 59 (cstr b f)) inum" "names_ok (ptr_entries s4 idb')"
      using res[unfolded if_P[OF True]] by blast
    have "dir_add_result s s4 x (x\<lparr>idptr := p, isize := isize x + 1\<rparr>) (take 59 (cstr b f)) inum 0"
      by (rule dir_add_indirect[OF pre fr p u e own w(2-7)])
    then show ?thesis using a w(1) True by simp
  next
    case False
    have mono: "\<And>c. ptr_used s c \<Longrightarrow> ptr_used s2 c" using fr(1) by (simp add: alloc_frame_def)
    have "no_room s s3 x r"
      using res[unfolded if_not_P[OF False]] full some by (auto simp: no_room_def scan_full_append)
    then have "dir_add_result s s3 x (x\<lparr>idptr := p\<rparr>) (take 59 (cstr b f)) inum r"
      using res[unfolded if_not_P[OF False]] fr mono alloc_frame_trans[of s s2 s3] by (intro dir_add_nothing[OF pre]) auto
    then show ?thesis using a False by simp
  qed
qed

lemma add_new_indirect:
  assumes pre: "dir_add_pre s x b f inum" and fr: "alloc_frame s s1" "\<And>c. ptr_used s c \<Longrightarrow> disk_block s1 c = disk_block s c"
    and inv: "idptr x = INODE_INVALID_PTR" and deb: "deb_ok deb"
    and a: "alloc_frame s1 s2" "\<not> ptr_used s1 p" "ptr_used s2 p" "\<And>q. ptr_used s1 q \<Longrightarrow> disk_block s2 q = disk_block s1 q"
  shows "\<exists>q s3. GFS_write_block p (block_of_ptrs (replicate PTR_PER_BLOCK INODE_INVALID_PTR)) s2 = Some (q, s3) \<and>
    alloc_frame s s3 \<and> (\<forall>c. ptr_used s c \<longrightarrow> disk_block s3 c = disk_block s c) \<and>
    used_ptrs s3 (dptr x @ p # replicate PTR_PER_BLOCK INODE_INVALID_PTR) \<and> \<not> ptr_used s p"
proof -
  let ?idb = "replicate PTR_PER_BLOCK INODE_INVALID_PTR"
  note q = dir_add_pre_parts[OF pre]
  have m: "meta_ok s2" and mono: "\<And>c. ptr_used s c \<Longrightarrow> ptr_used s1 c" "\<And>c. ptr_used s1 c \<Longrightarrow> ptr_used s2 c"
    using fr(1) a(1) by (auto simp: alloc_frame_def)
  have np: "\<not> ptr_used s p" using a(2) mono by blast
  obtain r s3 where w: "GFS_write_block p (block_of_ptrs ?idb) s2 = Some (r, s3)" "meta_ok s3" "store_frame s2 s3"
    "disk_block s3 p = block_of_ptrs ?idb" "\<And>c. blk_valid s2 c \<Longrightarrow> c \<noteq> p \<Longrightarrow> disk_block s3 c = disk_block s2 c"
    by (rule write_block_meta[OF m ptr_used_valid[OF m a(3)], of "block_of_ptrs ?idb"]) (simp add: PTR_PER_BLOCK_def, rule that)
  have u3: "ptr_used s3 = ptr_used s2" by (rule store_frame_bits(3)[OF w(3)])
  have f3: "alloc_frame s s3"
    by (rule alloc_frame_trans[OF alloc_frame_trans[OF fr(1) a(1)] alloc_frame_store[OF w(2,3)]])
  have "disk_block s3 c = disk_block s c" if c: "ptr_used s c" for c
    using w(5)[OF ptr_used_valid[OF m mono(2)[OF mono(1)[OF c]]]] a(4)[OF mono(1)[OF c]] fr(2)[OF c] np c by metis
  moreover have "used_ptrs s3 (dptr x @ p # ?idb)"
  proof -
    have "used_ptrs s (dptr x)" using q(4) by (simp add: dir_ptrs_def used_ptrs_append)
    moreover have "used_ptrs s3 (dptr x)" by (rule used_ptrs_mono[OF calculation]) (use mono u3 in simp)
    ultimately show ?thesis using a(3) np ptr_used_nonzero[OF a(3)]
      by (auto simp: used_ptrs_append used_ptrs_Cons u3) (auto simp: used_ptrs_def)
  qed
  ultimately show ?thesis using w(1) f3 np by blast
qed

lemma GFS_add_dentry_spec:
  assumes pre: "dir_add_pre s x b f inum" and deb: "deb_ok gdeb" and sz: "isize x < NDENTRIES"
  shows "\<exists>r x' s'. GFS_add_dentry gdeb x b f inum s = Some (r, x', s') \<and> dir_add_result s s' x x' (take 59 (cstr b f)) inum r"
proof -
  note q = dir_add_pre_parts[OF pre]
  obtain r ps deb1 s1 where a: "add_on_ptr_arr (dptr x) gdeb b f inum s = Some (r, ps, deb1, s1)" "deb_ok deb1"
    and res: "add_result s s1 (dptr x) ps (take 59 (cstr b f)) inum r" using add_on_ptr_arr_spec[OF q(1) deb] by blast
  have t: "itype x = IT_DIR" "\<not> NDENTRIES \<le> isize x" using q(5) sz by auto
  show ?thesis
  proof (cases "r = 0")
    case True
    then have "GFS_add_dentry gdeb x b f inum s = Some (0, x\<lparr>dptr := ps, isize := isize x + 1\<rparr>, s1)"
      using t a(1) by (simp add: GFS_add_dentry_def)
    then show ?thesis using dir_add_direct[OF pre] res True by blast
  next
    case False
    then have r: "r = 2 \<or> r = -3" "alloc_frame s s1" "\<And>c. ptr_used s c \<Longrightarrow> disk_block s1 c = disk_block s c"
      and fl: "scan_full s (dptr x)" "r = 2 \<Longrightarrow> disk_full s1" "INODE_INVALID_PTR \<in> set (dptr x) \<longleftrightarrow> r = 2"
      using res by (auto simp: add_result_def)
    have m1: "meta_ok s1" and mono: "\<And>c. ptr_used s c \<Longrightarrow> ptr_used s1 c" using r(2) by (auto simp: alloc_frame_def)
    consider (blocks) "r = 2" | (new) "r = -3" "idptr x = INODE_INVALID_PTR" | (old) "r = -3" "idptr x \<noteq> INODE_INVALID_PTR"
      using r(1) by blast
    then show ?thesis
    proof cases
      case blocks
      then have "GFS_add_dentry gdeb x b f inum s = Some (2, x, s1)" using t a(1) by (simp add: GFS_add_dentry_def)
      moreover have "no_room s s1 x 2" using fl blocks by (simp add: no_room_def scan_full_append)
      ultimately show ?thesis using dir_add_nothing[OF pre r(2,3)] by blast
    next
      case new
      from m1 show ?thesis
      proof (cases rule: alloc_data_block_cases)
        case (none s2)
        then have "GFS_add_dentry gdeb x b f inum s = Some (2, x, s2)"
          using t a(1) new by (simp add: GFS_add_dentry_def)
        moreover have "no_room s s2 x 2" using fl new none(4) by (simp add: no_room_def scan_full_append ind_ptrs_def)
        ultimately show ?thesis using dir_add_nothing[OF pre alloc_frame_trans[OF r(2) none(2)]] none(3) r(3) mono by metis
      next
        case (some p s2)
        let ?idb = "replicate PTR_PER_BLOCK INODE_INVALID_PTR"
        obtain c s3 where w: "GFS_write_block p (block_of_ptrs ?idb) s2 = Some (c, s3)" "alloc_frame s s3"
          "\<forall>c. ptr_used s c \<longrightarrow> disk_block s3 c = disk_block s c" "used_ptrs s3 (dptr x @ p # ?idb)" "\<not> ptr_used s p"
          using add_new_indirect[OF pre r(2,3) new(2) a(2) some(2-5)] by blast
        have e: "ptr_entries s3 ?idb = ptr_entries s (ind_ptrs s x)" by (simp add: ptr_entries_invalid ind_ptrs_def new(2))
        have full: "INODE_INVALID_PTR \<notin> set (dptr x)" "scan_full s (ind_ptrs s x)" using fl(3) new by (simp_all add: ind_ptrs_def)
        from dir_add_below[OF pre w(2) _ ptr_used_nonzero[OF some(4)] w(4) _ e a(2) _ fl(1) full] show ?thesis
          using w(1,3,5) t a(1) new some(1) ptr_used_nonzero[of s]
          by (auto simp: GFS_add_dentry_def Let_def PTR_PER_BLOCK_def)
      qed
    next
      case old
      then have iu: "ptr_used s (idptr x)" using q(4) by (simp add: dir_ptrs_def used_ptrs_append used_ptrs_Cons)
      have dn: "INODE_INVALID_PTR \<notin> set (dptr x)" using fl(3) old by simp
      obtain c s2 where rd: "GFS_read_block (idptr x) s1 = Some (disk_block s1 (idptr x), c, s2)" "read_only s1 s2"
        using m1 by (auto simp: meta_ok_def intro: GFS_read_block_ro[OF _ ptr_used_valid[OF m1 mono[OF iu]]])
      have idb: "ptrs_of_block (disk_block s1 (idptr x)) = ind_ptrs s x" using old(2) r(3)[OF iu] by (simp add: ind_ptrs_def)
      have d2: "\<And>c. ptr_used s c \<Longrightarrow> disk_block s2 c = disk_block s c" using r(3) read_only_fields(10)[OF rd(2)] by simp
      have f2: "alloc_frame s s2" by (rule alloc_frame_trans[OF r(2) alloc_frame_read[OF m1 rd(2)]])
      have u2: "used_ptrs s2 (dptr x @ idptr x # ind_ptrs s x)"
        using used_ptrs_mono[OF q(4), of s2] f2 by (simp add: alloc_frame_def dir_ptrs_def)
      have e: "ptr_entries s2 (ind_ptrs s x) = ptr_entries s (ind_ptrs s x)"
        by (rule ptr_entries_same) (use d2 q(4) in \<open>auto simp: dir_ptrs_def used_ptrs_def\<close>)
      have len: "length (ind_ptrs s x) = 1024"
        using q(3) old(2) by (simp add: ind_ptrs_def disk_block_length meta_ok_def store_ok_def)
      have own: "c \<in> set (dir_ptrs s x)" if "c \<in> set (idptr x # ind_ptrs s x)" for c
        using that by (auto simp: dir_ptrs_def)
      have xe: "x\<lparr>idptr := idptr x\<rparr> = x" by simp
      have "scan_full s2 (ind_ptrs s x) = scan_full s (ind_ptrs s x)"
        by (rule scan_full_same) (use d2 q(4) in \<open>auto simp: dir_ptrs_def used_ptrs_def\<close>)
      then show ?thesis
        using dir_add_below[OF pre f2 d2 old(2) u2 len e a(2) own fl(1) dn, unfolded xe] t a(1) old rd(1) idb
        by (simp add: GFS_add_dentry_def Let_def)
    qed
  qed
qed

section \<open>Properties\<close>

lemma entry_name_short: "deb_ok ds \<Longrightarrow> names_ok ds \<Longrightarrow> length n > 59 \<Longrightarrow> lookup ds n = DENTRY_INVALID_INO"
proof (rule ccontr)
  assume a: "deb_ok ds" "names_ok ds" "length n > 59" "lookup ds n \<noteq> DENTRY_INVALID_INO"
  then obtain d where d: "d \<in> set ds" "n = cstr (fname d) 0" "ino d \<noteq> DENTRY_INVALID_INO"
    using lookup_live[of ds n] by (auto simp: live_entries_def)
  then have "length n < 60" using a(1,2) terminated_bound[of "fname d" 0] by (auto simp: names_ok_def deb_ok_def)
  then show False using a(3) by simp
qed

lemma ptr_entries_short:
  assumes "store_ok s" and "names_ok (ptr_entries s ps)" and "length n > 59"
  shows "lookup (ptr_entries s ps) n = DENTRY_INVALID_INO"
  using assms(2)
proof (induction ps)
  case (Cons p ps)
  have e: "ptr_entries s (p # ps) = blk_entries s p @ ptr_entries s ps" by (simp add: ptr_entries_def)
  have "deb_ok (blk_entries s p) \<or> blk_entries s p = []"
    using deb_ok_block assms(1) by (simp add: blk_entries_def disk_block_length store_ok_def)
  then show ?case using Cons entry_name_short[of "blk_entries s p" n] assms(3)
    unfolding e lookup_append names_ok_append by auto
qed simp

text \<open>
  C11: Insert and lookup. \<^verbatim>\<open>GFS_add_dentry\<close> on a well-formed directory always returns. A full directory is
  refused with 1 and nothing changes. Otherwise the entry is added whenever there is room: it answers 2 only when no block the search
  reaches has a free entry and no data block is free on the disk, and -3 only when every pointer of the directory
  leads to a block and every entry of these is taken; the directory has the entries it had then. In every other case it answers 0, the
  directory is well-formed, has one entry more, a search for a name finds the new inode exactly for the name added (cut to 59
  characters) and the old one for every other name. Every block in use outside the directory keeps its contents.
\<close>

theorem add_dentry_then_search:
  assumes "dir_add_pre s x b f inum" and "deb_ok gdeb"
  shows "\<exists>r x' s'. GFS_add_dentry gdeb x b f inum s = Some (r, x', s') \<and> meta_ok s' \<and>
    (\<forall>p. ptr_used s p \<and> p \<notin> set (dir_ptrs s x) \<longrightarrow> disk_block s' p = disk_block s p) \<and>
    (if isize x \<ge> NDENTRIES then r = 1 \<and> x' = x \<and> s' = s
     else if r = 0 then dir_wf s' x' \<and> isize x' = isize x + 1 \<and>
       (\<forall>c g. terminated c g \<longrightarrow> (\<exists>t. search_dentry_in_dir_inode x' c g s' =
          Some (if cstr c g = take 59 (cstr b f) then inum else lookup (dir_dentries s x) (cstr c g), t)))
     else no_room s s' x r \<and> dir_dentries s' x = dir_dentries s x)"
proof (cases "isize x \<ge> NDENTRIES")
  case True
  then have "GFS_add_dentry gdeb x b f inum s = Some (1, x, s)"
    using dir_add_pre_parts(5)[OF assms(1)] by (simp add: GFS_add_dentry_def)
  then show ?thesis using True dir_add_pre_parts(3)[OF assms(1)] by simp
next
  case False
  then have "isize x < NDENTRIES" by simp
  then obtain r x' s' where a: "GFS_add_dentry gdeb x b f inum s = Some (r, x', s')"
    and res: "dir_add_result s s' x x' (take 59 (cstr b f)) inum r"
    using GFS_add_dentry_spec[OF assms] by blast
  have m: "meta_ok s'" using res by (simp add: dir_add_result_def alloc_frame_def)
  have "\<exists>t. search_dentry_in_dir_inode x' c g s' =
      Some (if cstr c g = take 59 (cstr b f) then inum else lookup (dir_dentries s x) (cstr c g), t)"
    if "r = 0" "terminated c g" for c g
  proof -
    have "dir_wf s' x'" "binds (dir_dentries s x) (dir_dentries s' x') (take 59 (cstr b f)) inum"
      using res that(1) by (auto simp: dir_add_result_def)
    then show ?thesis using search_dir_spec[of s' x' c g] dir_wf_ok[OF m] m that(2)
      by (auto simp: binds_def meta_ok_def)
  qed
  then show ?thesis using a m res False by (auto simp: dir_add_result_def)
qed

lemma demo_dir_wf: "dir_wf demo_fs demo_root"
proof -
  have "ptr_used demo_fs 457" using demo_block_bits(1) by (simp add: ptr_used_def)
  then have "used_ptrs demo_fs (dir_ptrs demo_fs demo_root)"
    by (simp add: used_ptrs_def dir_ptrs_def ind_ptrs_def demo_root_def INODE_INVALID_PTR_def)
  then show ?thesis using demo_dir_ok by (simp add: dir_wf_def dir_ok_def)
qed

lemma demo_gdeb: "deb_ok (replicate 64 (demo_entry [] 0))"
  by (simp add: deb_ok_def demo_entry_def)

lemma demo_add_pre:
  assumes "length n \<le> 71" and "NUL \<notin> set n" and "take 59 n \<notin> {''.'', ''..'', ''a''}"
  shows "dir_add_pre demo_fs demo_root (n @ [NUL]) 0 2" "cstr (n @ [NUL]) 0 = n" "terminated (n @ [NUL]) 0"
proof -
  show c: "cstr (n @ [NUL]) 0 = n" and t: "terminated (n @ [NUL]) 0"
    using cstr_eqI[of 0 "n @ [NUL]" n "[]"] assms(2) by simp_all
  show "dir_add_pre demo_fs demo_root (n @ [NUL]) 0 2"
    using assms(3) t unfolding dir_add_pre_def c
    by (simp add: demo_meta_ok demo_dir_wf demo_dir lookup_def demo_live DENTRY_INVALID_INO_def)
qed

lemma demo_room: "\<not> scan_full demo_fs (dptr demo_root @ qs)"
proof -
  have "INODE_INVALID_PTR \<in> set (dptr demo_root)" by (simp add: demo_root_def INODE_INVALID_PTR_def)
  moreover have "\<not> scan_full demo_fs (dptr demo_root)"
    by (auto simp: demo_root_def INODE_INVALID_PTR_def scan_full_def blk_entries_def demo_blocks demo_entries_def demo_entry_def)
  ultimately show ?thesis by (simp add: scan_full_append)
qed

theorem add_dentry_then_search_witness:
  "\<exists>x' s' t. GFS_add_dentry (replicate 64 (demo_entry [] 0)) demo_root (''b'' @ [NUL]) 0 2 demo_fs = Some (0, x', s') \<and>
     meta_ok s' \<and> isize x' = isize demo_root + 1 \<and> search_dentry_in_dir_inode x' (''b'' @ [NUL]) 0 s' = Some (2, t)"
proof -
  have n: "\<not> NDENTRIES \<le> isize demo_root" by (simp add: demo_root_def NDENTRIES_def)
  note p = demo_add_pre[of "''b''", simplified]
  obtain r x' s' where a: "GFS_add_dentry (replicate 64 (demo_entry [] 0)) demo_root (''b'' @ [NUL]) 0 2 demo_fs = Some (r, x', s')" "meta_ok s'"
    "if r = 0 then isize x' = isize demo_root + 1 \<and> (\<exists>t. search_dentry_in_dir_inode x' (''b'' @ [NUL]) 0 s' = Some (2, t))
     else no_room demo_fs s' demo_root r"
    using add_dentry_then_search[OF p(1) demo_gdeb] p(2,3) n by (fastforce split: if_splits)
  have "r = 0" using a(3) demo_room by (auto simp: no_room_def split: if_splits)
  then show ?thesis using a by auto
qed

text \<open>
  A name of more than 59 characters is stored cut off and is not found again under the name it was
  added with, although the call reports success: a file created with such a name cannot be opened again.
\<close>

theorem long_name_not_found:
  assumes "dir_add_pre s x b f inum" and "deb_ok gdeb" and "isize x < NDENTRIES" and "length (cstr b f) > 59"
  shows "\<exists>r x' s'. GFS_add_dentry gdeb x b f inum s = Some (r, x', s') \<and>
    (r = 0 \<longrightarrow> (\<exists>t. search_dentry_in_dir_inode x' b f s' = Some (DENTRY_INVALID_INO, t)))"
proof -
  obtain r x' s' where a: "GFS_add_dentry gdeb x b f inum s = Some (r, x', s')"
    and res: "dir_add_result s s' x x' (take 59 (cstr b f)) inum r"
    using GFS_add_dentry_spec[OF assms(1-3)] by blast
  have m: "meta_ok s'" using res by (simp add: dir_add_result_def alloc_frame_def)
  then have st: "store_ok s'" by (simp add: meta_ok_def)
  have b: "terminated b f" using assms(1) by (simp add: dir_add_pre_def)
  have "\<exists>t. search_dentry_in_dir_inode x' b f s' = Some (DENTRY_INVALID_INO, t)" if "r = 0"
  proof -
    have wf: "dir_wf s' x'" using res that by (simp add: dir_add_result_def)
    then have "names_ok (ptr_entries s' (dptr x'))" "names_ok (ptr_entries s' (ind_ptrs s' x'))"
      by (simp_all add: dir_wf_def dir_dentries_split names_ok_append)
    then have "lookup (dir_dentries s' x') (cstr b f) = DENTRY_INVALID_INO"
      using ptr_entries_short[OF st _ assms(4)] by (simp add: dir_dentries_split lookup_append)
    then show ?thesis using search_dir_spec[OF st dir_wf_ok[OF m wf] b] by auto
  qed
  then show ?thesis using a by blast
qed

theorem long_name_not_found_witness:
  "\<exists>r x' s'. GFS_add_dentry (replicate 64 (demo_entry [] 0)) demo_root (replicate 60 CHR ''n'' @ [NUL]) 0 2 demo_fs = Some (r, x', s') \<and>
     (r = 0 \<longrightarrow> (\<exists>t. search_dentry_in_dir_inode x' (replicate 60 CHR ''n'' @ [NUL]) 0 s' = Some (DENTRY_INVALID_INO, t)))"
proof -
  have nz: "isize demo_root < NDENTRIES" by (simp add: demo_root_def NDENTRIES_def)
  have "take 59 (replicate 60 CHR ''n'') \<notin> {''.'', ''..'', ''a''}" by (simp add: numeral_eq_Suc)
  note p = demo_add_pre[of "replicate 60 CHR ''n''", OF _ _ this]
  show ?thesis by (rule long_name_not_found[OF p(1) demo_gdeb nz]) (simp_all add: p(2))
qed

end
