(* ===== verification/GfsRemove.thy ===== *)
theory GfsRemove
  imports GfsDir
begin

text \<open>
  Removing an entry from a directory (\<^verbatim>\<open>remove_dentry_in_dir_inode\<close> in \<^verbatim>\<open>kernel/fs/gfs-dir.c\<close>): the entries
  whose first 59 characters are the name are cleared and no other entry changes, so a later search does
  not find the name and finds every other name as before.
\<close>

section \<open>One block\<close>

text \<open>What the removal does to an entry and to a list of entries.\<close>

definition hit :: "string \<Rightarrow> GFS_dentry \<Rightarrow> bool" where
  "hit nm d \<longleftrightarrow> ino d \<noteq> DENTRY_INVALID_INO \<and> take 59 (cstr (fname d) 0) = take 59 nm"

definition clear :: "string \<Rightarrow> GFS_dentry list \<Rightarrow> GFS_dentry list" where
  "clear nm ds = map (\<lambda>d. if hit nm d then d\<lparr>ino := DENTRY_INVALID_INO\<rparr> else d) ds"

definition hits :: "string \<Rightarrow> GFS_dentry list \<Rightarrow> nat" where
  "hits nm ds = length (filter (hit nm) ds)"

lemma clear_append [simp]: "clear nm (ds @ es) = clear nm ds @ clear nm es"
  by (simp add: clear_def)

lemma hits_append [simp]: "hits nm (ds @ es) = hits nm ds + hits nm es"
  by (simp add: hits_def)

lemma clear_none: "hits nm ds = 0 \<Longrightarrow> clear nm ds = ds"
  by (auto simp: clear_def hits_def filter_empty_conv intro: map_idI)

lemma names_ok_clear: "names_ok ds \<Longrightarrow> names_ok (clear nm ds)"
  by (auto simp: names_ok_def clear_def split: if_splits)

lemma deb_ok_clear: "deb_ok ds \<Longrightarrow> deb_ok (clear nm ds)"
  by (auto simp: deb_ok_def clear_def split: if_splits)

lemma lookup_clear:
  "lookup (clear nm ds) n = (if take 59 n = take 59 nm then DENTRY_INVALID_INO else lookup ds n)"
  by (induction ds) (auto simp: clear_def lookup_Cons hit_def)

lemma remove_in_block_spec:
  "names_ok ds \<Longrightarrow> terminated b f \<Longrightarrow> remove_in_block ds b f = Some (clear (cstr b f) ds, hits (cstr b f) ds)"
proof (induction ds)
  case (Cons d ds)
  then have IH: "remove_in_block ds b f = Some (clear (cstr b f) ds, hits (cstr b f) ds)" by (simp add: names_ok_def)
  show ?case
  proof (cases "ino d = DENTRY_INVALID_INO")
    case True
    then show ?thesis using IH by (simp add: clear_def hits_def hit_def)
  next
    case False
    then have t: "terminated (fname d) 0" using Cons(2) by (simp add: names_ok_def)
    have "\<exists>c. strncmp (fname d) 0 b f (of_nat FNLEN) = Some c"
      using strncmp_loop_spec[of "fname d" 0 0 b f "unat (of_nat FNLEN :: u32)"] t Cons(3) by (simp add: strncmp_def)
    then obtain c where c: "strncmp (fname d) 0 b f (of_nat FNLEN) = Some c" ..
    then have "c = 0 \<longleftrightarrow> hit (cstr b f) d"
      using strncmp_eq_0_iff[OF t Cons(3), of "of_nat FNLEN"] False by (auto simp: hit_def FNLEN_def)
    then show ?thesis using IH c False by (simp add: clear_def hits_def)
  qed
qed (simp add: clear_def hits_def)

section \<open>An array of pointers\<close>

text \<open>Writing blocks in use, nothing else.\<close>

definition write_frame :: "'d gfs \<Rightarrow> 'd gfs \<Rightarrow> u32 set \<Rightarrow> bool" where
  "write_frame s s' P \<longleftrightarrow> meta_ok s' \<and> store_frame s s' \<and> (\<forall>p. blk_valid s p \<and> p \<notin> P \<longrightarrow> disk_block s' p = disk_block s p)"

lemma write_frame_trans:
  assumes "write_frame s s' P" and "write_frame s' s'' Q" shows "write_frame s s'' (P \<union> Q)"
proof -
  have v: "blk_valid s' = blk_valid s" using assms(1) by (simp add: write_frame_def store_frame_bits)
  show ?thesis using assms bs.same_trans[of s s' s''] by (auto simp: write_frame_def v)
qed

lemma write_frame_read: "meta_ok s \<Longrightarrow> read_only s s' \<Longrightarrow> write_frame s s' {}"
  using read_only_meta[of s s'] by (simp add: write_frame_def read_only_def)

text \<open>The part of the loop that deals with one block, and the loop over it.\<close>

definition remove_block :: "u32 \<Rightarrow> cbuf \<Rightarrow> nat \<Rightarrow> 'd gfs \<Rightarrow> (nat \<times> 'd gfs) option" where
  "remove_block p b f s = do {
     (buf, _, s1) \<leftarrow> GFS_read_block p s;
     (ds, k) \<leftarrow> remove_in_block (dentries_of_block buf) b f;
     s2 \<leftarrow> (if k \<noteq> 0 then do { (_, t) \<leftarrow> GFS_write_block p (block_of_dentries ds) s1; Some t } else Some s1);
     Some (k, s2)
   }"

lemma remove_step:
  "p \<noteq> INODE_INVALID_PTR \<Longrightarrow> remove_dentry_on_ptr_arr (p # ps) b f r s =
   do { (k, s2) \<leftarrow> remove_block p b f s; remove_dentry_on_ptr_arr ps b f (r + of_nat k) s2 }"
  by (auto simp: remove_block_def split: Option.bind_split prod.split)

lemma remove_one_block:
  assumes m: "meta_ok s" and u: "ptr_used s p" and n: "names_ok (dentries_of_block (disk_block s p))" and b: "terminated b f"
  shows "\<exists>s'. remove_block p b f s = Some (hits (cstr b f) (dentries_of_block (disk_block s p)), s') \<and> write_frame s s' {p} \<and>
    dentries_of_block (disk_block s' p) = clear (cstr b f) (dentries_of_block (disk_block s p))"
proof -
  let ?ds = "dentries_of_block (disk_block s p)"
  have st: "store_ok s" using m by (simp add: meta_ok_def)
  obtain r s1 where rd: "GFS_read_block p s = Some (disk_block s p, r, s1)" "read_only s s1"
    by (rule GFS_read_block_ro[OF st ptr_used_valid[OF m u]])
  note f = read_only_fields[OF rd(2)]
  note rm = remove_in_block_spec[OF n b]
  show ?thesis
  proof (cases "hits (cstr b f) ?ds = 0")
    case True
    then show ?thesis using rd rm clear_none[OF True] write_frame_read[OF m rd(2)] f(10)
      by (intro exI[of _ s1]) (simp add: write_frame_def remove_block_def)
  next
    case False
    have dok: "deb_ok ?ds" using deb_ok_block st by (simp add: disk_block_length store_ok_def)
    note rt = deb_ok_roundtrip[OF deb_ok_clear[OF dok]]
    have v1: "blk_valid s1 p" using ptr_used_valid[OF m u] by (simp add: f(9))
    obtain q s2 where w: "GFS_write_block p (block_of_dentries (clear (cstr b f) ?ds)) s1 = Some (q, s2)" "meta_ok s2"
      "store_frame s1 s2" "disk_block s2 p = block_of_dentries (clear (cstr b f) ?ds)"
      "\<And>c. blk_valid s1 c \<Longrightarrow> c \<noteq> p \<Longrightarrow> disk_block s2 c = disk_block s1 c"
      using write_block_meta[OF read_only_meta[OF m rd(2)] v1, of "block_of_dentries (clear (cstr b f) ?ds)"] rt by metis
    have "write_frame s1 s2 {p}" using w by (simp add: write_frame_def)
    from write_frame_trans[OF write_frame_read[OF m rd(2)] this] have "write_frame s s2 {p}" by simp
    then show ?thesis using rd(1) rm False w(1,4) rt by (intro exI[of _ s2]) (simp add: remove_block_def)
  qed
qed

lemma remove_on_ptr_arr_spec:
  assumes "meta_ok s" and "used_ptrs s ps" and "names_ok (ptr_entries s ps)" and b: "terminated b f"
  shows "\<exists>s'. remove_dentry_on_ptr_arr ps b f r s = Some (r + of_nat (hits (cstr b f) (ptr_entries s ps)), s') \<and>
    write_frame s s' (set ps - {INODE_INVALID_PTR}) \<and> ptr_entries s' ps = clear (cstr b f) (ptr_entries s ps)"
  using assms(1-3)
proof (induction ps arbitrary: r s)
  case Nil
  then show ?case
    by (simp add: hits_def clear_def write_frame_def bs.same_refl)
next
  case (Cons p ps)
  have e: "ptr_entries t (q # ps) = blk_entries t q @ ptr_entries t ps" for t :: "'a gfs" and q by (simp add: ptr_entries_def)
  have u: "used_ptrs s ps" "names_ok (ptr_entries s ps)" using Cons(3,4) by (simp_all add: used_ptrs_Cons e names_ok_append)
  show ?case
  proof (cases "p = INODE_INVALID_PTR")
    case True
    have "blk_entries t p = []" for t :: "'a gfs" using True by (simp add: blk_entries_def)
    then show ?thesis using Cons(1)[OF Cons(2) u, of r] True by (simp add: e)
  next
    case False
    then have pu: "ptr_used s p" "p \<notin> set ps" using Cons(3) by (simp_all add: used_ptrs_Cons)
    let ?ds = "dentries_of_block (disk_block s p)"
    have be: "blk_entries t p = dentries_of_block (disk_block t p)" for t :: "'a gfs" using False by (simp add: blk_entries_def)
    have n: "names_ok ?ds" using Cons(4) by (simp add: e names_ok_append be)
    obtain s1 where s1: "remove_block p b f s = Some (hits (cstr b f) ?ds, s1)" "write_frame s s1 {p}" "dentries_of_block (disk_block s1 p) = clear (cstr b f) ?ds"
      using remove_one_block[OF Cons(2) pu(1) n b] by blast
    have m1: "meta_ok s1" and sf: "store_frame s s1" using s1(2) by (simp_all add: write_frame_def)
    have same: "disk_block s1 q = disk_block s q" if "q \<in> set ps" "q \<noteq> INODE_INVALID_PTR" for q
      using s1(2) that u(1) pu(2) ptr_used_valid[OF Cons(2)] by (auto simp: write_frame_def used_ptrs_def)
    have e1: "ptr_entries s1 ps = ptr_entries s ps" by (rule ptr_entries_same) (rule same)
    have u1: "used_ptrs s1 ps" using u(1) store_frame_bits(3)[OF sf] by (simp add: used_ptrs_def)
    obtain s2 where s2: "remove_dentry_on_ptr_arr ps b f (r + of_nat (hits (cstr b f) ?ds)) s1 =
        Some (r + of_nat (hits (cstr b f) ?ds) + of_nat (hits (cstr b f) (ptr_entries s ps)), s2)"
      "write_frame s1 s2 (set ps - {INODE_INVALID_PTR})" "ptr_entries s2 ps = clear (cstr b f) (ptr_entries s ps)"
      using Cons(1)[OF m1 u1, of "r + of_nat (hits (cstr b f) ?ds)"] u(2) e1 by auto
    have "disk_block s2 p = disk_block s1 p"
      using s2(2) pu ptr_used_valid[OF Cons(2) pu(1)] store_frame_bits(5)[OF sf] by (simp add: write_frame_def)
    then have ent: "ptr_entries s2 (p # ps) = clear (cstr b f) (ptr_entries s (p # ps))"
      by (simp add: e be s2(3) s1(3))
    have "remove_dentry_on_ptr_arr (p # ps) b f r s = Some (r + of_nat (hits (cstr b f) (ptr_entries s (p # ps))), s2)"
      using s1(1) s2(1) unfolding remove_step[OF False] by (simp add: e be add.assoc)
    moreover have "write_frame s s2 (set (p # ps) - {INODE_INVALID_PTR})"
      using write_frame_trans[OF s1(2) s2(2)] False by (simp add: insert_Diff_if)
    ultimately show ?thesis using ent by blast
  qed
qed

section \<open>A directory\<close>

lemma panic_simps [simp]:
  "disk_block (GFS_panic s) = disk_block s" "meta_ok (GFS_panic s) = meta_ok s" "ptr_used (GFS_panic s) = ptr_used s"
  by (auto simp: GFS_panic_def meta_ok_def bitmap_ok_def inodes_ok_def ptr_used_def block_bits_def fun_eq_iff)

lemma dir_parts:
  assumes "dir_wf s x"
  shows "used_ptrs s (dptr x)" "used_ptrs s (ind_ptrs s x)" "names_ok (ptr_entries s (dptr x))"
    "names_ok (ptr_entries s (ind_ptrs s x))" "\<And>c. c \<in> set (dptr x) \<Longrightarrow> c \<noteq> INODE_INVALID_PTR \<Longrightarrow> c \<notin> set (idptr x # ind_ptrs s x)"
    "idptr x \<noteq> INODE_INVALID_PTR \<Longrightarrow> ptr_used s (idptr x) \<and> idptr x \<notin> set (ind_ptrs s x)"
  using assms by (auto simp: dir_wf_def dir_ptrs_def used_ptrs_append used_ptrs_Cons dir_dentries_split names_ok_append)

lemma write_frame_used: "write_frame s s' P \<Longrightarrow> ptr_used s' = ptr_used s"
  by (simp add: write_frame_def store_frame_bits)

definition remove_both :: "GFS_inode \<Rightarrow> cbuf \<Rightarrow> nat \<Rightarrow> 'd gfs \<Rightarrow> (u32 \<times> 'd gfs) option" where
  "remove_both x b f s = do {
     (r1, s1) \<leftarrow> remove_dentry_on_ptr_arr (dptr x) b f 0 s;
     if idptr x \<noteq> INODE_INVALID_PTR then do {
       (buf, _, t1) \<leftarrow> GFS_read_block (idptr x) s1;
       (r2, t2) \<leftarrow> remove_dentry_on_ptr_arr (ptrs_of_block buf) b f 0 t1;
       Some (r1 + r2, t2)
     } else Some (r1, s1)
   }"

lemma remove_in_dir_step:
  "itype x = IT_DIR \<Longrightarrow> remove_dentry_in_dir_inode x b f s = do {
     (r, s2) \<leftarrow> remove_both x b f s;
     if isize x < r + 2 then Some (r, x, GFS_panic s2) else Some (r, x\<lparr>isize := isize x - r\<rparr>, s2)
   }"
  by (auto simp: remove_dentry_in_dir_inode_def remove_both_def split: Option.bind_split prod.split)

text \<open>The two scans, over the direct pointers and over the indirect ones.\<close>

lemma remove_scans:
  assumes m: "meta_ok s" and wf: "dir_wf s x" and b: "terminated b f"
  shows "\<exists>s'. remove_both x b f s = Some (of_nat (hits (cstr b f) (dir_dentries s x)), s') \<and> meta_ok s' \<and> ptr_used s' = ptr_used s \<and>
    ind_ptrs s' x = ind_ptrs s x \<and> dir_dentries s' x = clear (cstr b f) (dir_dentries s x)"
proof -
  note d = dir_parts[OF wf]
  obtain s1 where s1: "remove_dentry_on_ptr_arr (dptr x) b f 0 s = Some (of_nat (hits (cstr b f) (ptr_entries s (dptr x))), s1)"
    "write_frame s s1 (set (dptr x) - {INODE_INVALID_PTR})" "ptr_entries s1 (dptr x) = clear (cstr b f) (ptr_entries s (dptr x))"
    using remove_on_ptr_arr_spec[OF m d(1,3) b, of 0] by auto
  have m1: "meta_ok s1" and u1: "ptr_used s1 = ptr_used s" using s1(2) write_frame_used by (auto simp: write_frame_def)
  have same: "disk_block s1 c = disk_block s c" if "c \<in> set (idptr x # ind_ptrs s x)" "c \<noteq> INODE_INVALID_PTR" for c
  proof -
    have "ptr_used s c" using that wf by (auto simp: dir_wf_def dir_ptrs_def used_ptrs_def)
    then show ?thesis using s1(2) that d(5)[of c] ptr_used_valid[OF m] by (auto simp: write_frame_def)
  qed
  have i1: "ind_ptrs s1 x = ind_ptrs s x" using same by (simp add: ind_ptrs_def)
  show ?thesis
  proof (cases "idptr x = INODE_INVALID_PTR")
    case True
    then have "ind_ptrs t x = []" for t :: "'a gfs" by (simp add: ind_ptrs_def)
    then show ?thesis using True s1(1,3) m1 u1 by (intro exI[of _ s1]) (simp add: dir_dentries_split remove_both_def)
  next
    case False
    note ip = d(6)[OF False]
    have "ptr_used s1 (idptr x)" using ip u1 by simp
    then obtain r t1 where rd: "GFS_read_block (idptr x) s1 = Some (disk_block s1 (idptr x), r, t1)" "read_only s1 t1"
      using m1 by (auto simp: meta_ok_def intro: GFS_read_block_ro[OF _ ptr_used_valid[OF m1]])
    note mt = read_only_meta[OF m1 rd(2)] and ft = read_only_fields[OF rd(2)]
    have ut: "ptr_used t1 = ptr_used s" using write_frame_used[OF write_frame_read[OF m1 rd(2)]] u1 by simp
    have ptrs: "ptrs_of_block (disk_block s1 (idptr x)) = ind_ptrs s x" using i1 False by (simp add: ind_ptrs_def)
    have et: "ptr_entries t1 (ind_ptrs s x) = ptr_entries s (ind_ptrs s x)"
      by (rule ptr_entries_same) (use same ft(10) in auto)
    obtain t2 where t2: "remove_dentry_on_ptr_arr (ind_ptrs s x) b f 0 t1 =
        Some (of_nat (hits (cstr b f) (ptr_entries s (ind_ptrs s x))), t2)"
      "write_frame t1 t2 (set (ind_ptrs s x) - {INODE_INVALID_PTR})"
      "ptr_entries t2 (ind_ptrs s x) = clear (cstr b f) (ptr_entries s (ind_ptrs s x))"
      using remove_on_ptr_arr_spec[OF mt, of "ind_ptrs s x" b f 0] d(2,4) b et ut by (auto simp: used_ptrs_def)
    have keep: "disk_block t2 c = disk_block s1 c" if "c \<notin> set (ind_ptrs s x)" "ptr_used s c" for c
      using t2(2) that ptr_used_valid[OF mt] ft(10) by (auto simp: write_frame_def ut)
    have i2: "ind_ptrs t2 x = ind_ptrs s x" using keep[of "idptr x"] ip i1 False by (simp add: ind_ptrs_def)
    have "ptr_entries t2 (dptr x) = ptr_entries s1 (dptr x)"
      by (rule ptr_entries_same) (use keep d(5) d(1) in \<open>auto simp: used_ptrs_def\<close>)
    then have "dir_dentries t2 x = clear (cstr b f) (dir_dentries s x)"
      by (simp add: dir_dentries_split i2 t2(3) s1(3))
    then show ?thesis using False s1(1) rd(1) ptrs t2(1) i2 t2(2) write_frame_used[OF t2(2)] ut
      by (intro exI[of _ t2]) (simp add: dir_dentries_split write_frame_def remove_both_def)
  qed
qed

text \<open>
  C12: Remove and lookup. On a well-formed directory the removal of a name returns the number of entries
  whose first 59 characters are the name; afterwards the directory is well-formed, no name with these 59
  characters is found, every other name is found with the inode it had, and the size is lower by the
  number of entries removed (unless that would not leave the two entries every directory has, which is
  reported and leaves the size alone).
\<close>

theorem remove_dentry_then_search:
  assumes "meta_ok s" and "dir_wf s x" and "terminated b f"
  shows "\<exists>r x' s'. remove_dentry_in_dir_inode x b f s = Some (r, x', s') \<and> r = of_nat (hits (cstr b f) (dir_dentries s x)) \<and>
    meta_ok s' \<and> dir_wf s' x' \<and> isize x' = (if isize x < r + 2 then isize x else isize x - r) \<and>
    (\<forall>c g. terminated c g \<longrightarrow> (\<exists>t. search_dentry_in_dir_inode x' c g s' =
       Some (if take 59 (cstr c g) = take 59 (cstr b f) then DENTRY_INVALID_INO else lookup (dir_dentries s x) (cstr c g), t)))"
proof -
  let ?r = "of_nat (hits (cstr b f) (dir_dentries s x)) :: u32"
  obtain s1 where s1: "remove_both x b f s = Some (?r, s1)" "meta_ok s1" "ptr_used s1 = ptr_used s" "ind_ptrs s1 x = ind_ptrs s x"
    "dir_dentries s1 x = clear (cstr b f) (dir_dentries s x)"
    using remove_scans[OF assms] by blast
  let ?s' = "if isize x < ?r + 2 then GFS_panic s1 else s1"
  let ?x' = "if isize x < ?r + 2 then x else x\<lparr>isize := isize x - ?r\<rparr>"
  have run: "remove_dentry_in_dir_inode x b f s = Some (?r, ?x', ?s')"
    using s1(1) assms(2) by (simp add: remove_in_dir_step dir_wf_def)
  have d: "disk_block ?s' = disk_block s1" "ptr_used ?s' = ptr_used s" using s1(3) by simp_all
  have i: "ind_ptrs ?s' ?x' = ind_ptrs s x" using s1(4) by (auto simp: ind_ptrs_def d(1) split: if_splits)
  have e: "dir_dentries ?s' ?x' = clear (cstr b f) (dir_dentries s x)"
  proof -
    have "dir_dentries t ?x' = dir_dentries t x" for t :: "'a gfs" by (simp add: dir_dentries_def)
    then show ?thesis unfolding dir_dentries_cong[OF d(1)] using s1(5) by (simp only:)
  qed
  have m: "meta_ok ?s'" using s1(2) by simp
  have wf: "dir_wf ?s' ?x'"
  proof -
    have u: "used_ptrs ?s' qs = used_ptrs s qs" for qs by (simp only: used_ptrs_def d(2))
    have "dptr ?x' = dptr x" "idptr ?x' = idptr x" "itype ?x' = itype x" by simp_all
    then show ?thesis
      using assms(2) names_ok_clear unfolding dir_wf_def e dir_ptrs_def i u by metis
  qed
  have "\<exists>t. search_dentry_in_dir_inode ?x' c g ?s' =
      Some (if take 59 (cstr c g) = take 59 (cstr b f) then DENTRY_INVALID_INO else lookup (dir_dentries s x) (cstr c g), t)"
    if "terminated c g" for c g
    using search_dir_spec[OF _ dir_wf_ok[OF m wf] that] m unfolding e lookup_clear by (auto simp: meta_ok_def)
  moreover have "isize ?x' = (if isize x < ?r + 2 then isize x else isize x - ?r)" by simp
  ultimately show ?thesis using run m wf by blast
qed

theorem remove_dentry_then_search_witness:
  "\<exists>x' s' t. remove_dentry_in_dir_inode demo_root (''a'' @ [NUL]) 0 demo_fs = Some (1, x', s') \<and>
     search_dentry_in_dir_inode x' (''a'' @ [NUL]) 0 s' = Some (DENTRY_INVALID_INO, t)"
proof -
  have c: "cstr [CHR ''a'', NUL] 0 = ''a''" "terminated [CHR ''a'', NUL] 0" by (simp_all add: cstr_def terminated_def)
  have h: "hits ''a'' (dir_dentries demo_fs demo_root) = 1"
    by (simp add: demo_dir hits_def hit_def demo_entries_def demo_entry_def cstr_def DENTRY_INVALID_INO_def)
  show ?thesis
    using remove_dentry_then_search[OF demo_meta_ok demo_dir_wf c(2)] c h by fastforce
qed

end
