(* ===== verification/GfsFile.thy ===== *)
theory GfsFile
  imports GfsRemove
begin

text \<open>
  Operations on files (\<^verbatim>\<open>kernel/fs/gfs-file.c\<close>).

  A user buffer is its address, which the code checks, and its contents: \<open>do_read\<close> returns the bytes it
  stored, \<open>do_write\<close> takes the bytes (\<open>None\<close> for the \<^verbatim>\<open>NULL\<close> buffer, which stands for zeros). The loops that
  copy bytes between a block and a buffer are \<open>take\<close> and \<open>drop\<close>. A node of the list of open files points
  into the inode table, so \<^verbatim>\<open>pinode->size\<close> reads and writes the table. \<open>do_write\<close> calls itself to write the
  zero padding; the depth of the calls is bounded by \<open>fuel\<close>.

  The lemmas show that the count of blocks never overflows, that a read returns the bytes of the file at
  the position and advances by what it returns, what \<open>do_lseek\<close> accepts, and that reading
  through an array of pointers is a slice of the concatenated blocks.
\<close>

section \<open>Sizes\<close>

definition udiv :: "u32 \<Rightarrow> u32 \<Rightarrow> u32" where
  "udiv x d = (x + (d - 1)) div d"

definition GFS_nbytes2blocks :: "u32 \<Rightarrow> u32" where
  "GFS_nbytes2blocks sz =
     (let bs = of_nat BLOCK_SIZE; nd = of_nat INODE_NDPTR; pb = of_nat PTR_PER_BLOCK in
      if sz \<le> nd * bs then udiv sz bs
      else (let sz1 = sz - nd * bs; nblk = nd + 1 in
        if sz1 \<le> pb * bs then nblk + udiv sz1 bs
        else (let sz2 = sz1 - pb * bs; nblk2 = nblk + (1 + pb) in
          nblk2 + udiv sz2 bs + udiv sz2 (pb * bs))))"

section \<open>Descriptors\<close>

definition null_fd :: "file_desc \<Rightarrow> file_desc" where
  "null_fd d = d\<lparr>fnode := NULL\<rparr>"

text \<open>The descriptors of a new process: cleared, or those of the parent \<open>s\<close>, whose files gain a holder.\<close>

definition fd_init_clear :: "fproc \<Rightarrow> fproc" where
  "fd_init_clear p = p\<lparr>fds := map null_fd (fds p)\<rparr>"

fun fd_copy :: "file_desc list \<Rightarrow> file_desc list \<Rightarrow> 'd gfs \<Rightarrow> file_desc list \<times> 'd gfs" where
  "fd_copy (p # ps) (d # ds) s =
     (if fnode d \<noteq> NULL then
        (let (qs, s') = fd_copy ps ds (upd_fnode (fnode d) (\<lambda>n. n\<lparr>nproc := nproc n + 1\<rparr>) s) in (d # qs, s'))
      else (let (qs, s') = fd_copy ps ds s in (null_fd p # qs, s')))"
| "fd_copy ps _ s = (ps, s)"

definition fd_init :: "fproc \<Rightarrow> fproc option \<Rightarrow> 'd gfs \<Rightarrow> fproc \<times> 'd gfs" where
  "fd_init p so s =
     (case so of None \<Rightarrow> (fd_init_clear p, s)
      | Some q \<Rightarrow> (let (ds, s') = fd_copy (fds p) (fds q) s in (p\<lparr>fds := ds\<rparr>, s')))"

fun first_fd :: "file_desc list \<Rightarrow> nat" where
  "first_fd [] = 0"
| "first_fd (d # ds) = (if fnode d = NULL then 0 else Suc (first_fd ds))"

definition new_file_inode :: "GFS_inode \<Rightarrow> GFS_inode" where
  "new_file_inode gino = gino\<lparr>nlink := 1, isize := 0, itype := IT_FILE,
     dptr := replicate INODE_NDPTR INODE_INVALID_PTR, idptr := INODE_INVALID_PTR, diptr := INODE_INVALID_PTR\<rparr>"

text \<open>The end of \<^verbatim>\<open>do_open\<close>: the node and the descriptor.\<close>

definition open_fd :: "nat \<Rightarrow> u32 \<Rightarrow> u32 \<Rightarrow> fproc \<Rightarrow> 'd gfs \<Rightarrow> (int \<times> fproc \<times> 'd gfs) option" where
  "open_fd fd tino flags pc s = do {
     (pf, s1) \<leftarrow> flist_inc_fnode tino (flags AND O_WRONLY \<noteq> 0) s;
     if pf = NULL then Some (-8, pc, s1)
     else Some (int fd, pc\<lparr>fds := (fds pc)[fd := \<lparr>fnode = pf, oflags = flags, pos = 0\<rparr>]\<rparr>, s1)
   }"

definition do_open ::
  "GFS_dentry list \<Rightarrow> GFS_inode \<Rightarrow> fproc \<Rightarrow> cbuf \<Rightarrow> u32 \<Rightarrow> 'd gfs \<Rightarrow> (int \<times> fproc \<times> 'd gfs) option" where
  "do_open gdeb gino pc fpath flags s = do {
     (ppino, tpath, tname, s1) \<leftarrow> path_anal_2 pc fpath (replicate (PATH_LEN + 1) NUL) s;
     if ppino = DENTRY_INVALID_INO then Some (-2, pc, s1)
     else do {
       c \<leftarrow> nth_chk tpath tname;
       let fd = first_fd (fds pc);
       if c = NUL then Some (-1, pc, s1)
       else if fd \<ge> length (fds pc) then Some (-3, pc, s1)
       else do {
         (_, xo) \<leftarrow> GFS_read_inode ppino s1;
         case xo of None \<Rightarrow> Some (-8, pc, GFS_panic s1)
         | Some x \<Rightarrow> do {
             (tino, s2) \<leftarrow> search_dentry_in_dir_inode x tpath tname s1;
             if tino = DENTRY_INVALID_INO then
               (if flags AND O_CREAT \<noteq> 0 then do {
                  (ia, s3) \<leftarrow> GFS_alloc_in_bitmap 1 (inode_bitmap_loc (sblk s2)) (block_bitmap_loc (sblk s2)) s2;
                  if length ia \<noteq> 1 then Some (-4, pc, s3)
                  else do {
                    let tino = hd ia;
                    let tx = new_file_inode gino;
                    (adrt, x1, s4) \<leftarrow> GFS_add_dentry gdeb x tpath tname tino s3;
                    if adrt = 1 \<or> adrt = 2 then do {
                      (_, s5) \<leftarrow> GFS_free_in_bitmap tino (inode_bitmap_loc (sblk s4)) (block_bitmap_loc (sblk s4)) s4;
                      Some (-3 - adrt, pc, s5)
                    }
                    else if adrt \<noteq> 0 then Some (-8, pc, GFS_panic s4)
                    else do {
                      (_, s5) \<leftarrow> GFS_write_inode tino tx s4;
                      (_, s6) \<leftarrow> GFS_write_inode ppino x1 s5;
                      open_fd fd tino flags pc s6
                    }
                  }
                } else Some (-1, pc, s2))
             else do {
               (_, to) \<leftarrow> GFS_read_inode tino s2;
               let tx = (case to of None \<Rightarrow> gino | Some tx \<Rightarrow> tx);
               if itype tx \<noteq> IT_FILE then Some (-1, pc, s2) else open_fd fd tino flags pc s2
             }
           }
       }
     }
   }"

definition do_close :: "int \<Rightarrow> fproc \<Rightarrow> 'd gfs \<Rightarrow> (int \<times> fproc \<times> 'd gfs) option" where
  "do_close fd pc s =
     (if fd < 0 \<or> fd \<ge> int OFILE_MAX then Some (-1, pc, s)
      else do {
        d \<leftarrow> nth_chk (fds pc) (nat fd);
        if fnode d = NULL then Some (-1, pc, s)
        else do {
          (r, s1) \<leftarrow> flist_dec_fnode (fl_ino (fnodes s (fnode d))) (oflags d AND O_WRONLY \<noteq> 0) s;
          if r \<noteq> 0 then Some (-1, pc, GFS_panic s1)
          else Some (fd, pc\<lparr>fds := (fds pc)[nat fd := null_fd d]\<rparr>, s1)
        }
      })"

fun close_all_files :: "file_desc list \<Rightarrow> 'd gfs \<Rightarrow> 'd gfs option" where
  "close_all_files [] s = Some s"
| "close_all_files (d # ds) s =
     (if fnode d \<noteq> NULL then do {
        (r, s1) \<leftarrow> flist_dec_fnode (fl_ino (fnodes s (fnode d))) (oflags d AND O_WRONLY \<noteq> 0) s;
        close_all_files ds (if r \<noteq> 0 then GFS_panic s1 else s1)
      } else close_all_files ds s)"

section \<open>Reading\<close>

function read_loop :: "u32 list \<Rightarrow> nat \<Rightarrow> nat \<Rightarrow> nat \<Rightarrow> nat \<Rightarrow> u8 list \<Rightarrow> 'd gfs \<Rightarrow> (u8 list \<times> 'd gfs) option" where
  "read_loop parr pidx end_pidx boffset len acc s =
     (if pidx \<le> end_pidx then do {
        p \<leftarrow> nth_chk parr pidx;
        if p = INODE_INVALID_PTR then Some (acc, s)
        else do {
          (blk, _, s1) \<leftarrow> GFS_read_block p s;
          read_loop parr (pidx + 1) end_pidx 0 len (acc @ take (len - length acc) (drop boffset blk)) s1
        }
      } else Some (acc, s))"
  by pat_completeness auto
termination
  by (relation "measure (\<lambda>(parr, pidx, end_pidx, boffset, len, acc, s). Suc end_pidx - pidx)") auto

declare read_loop.simps [simp del]

definition last_pidx :: "u32 \<Rightarrow> u32 \<Rightarrow> u32 \<Rightarrow> u32" where
  "last_pidx n start_pos len =
     (let end_pidx = (start_pos + len - 1) div of_nat BLOCK_SIZE in if end_pidx > n - 1 then n - 1 else end_pidx)"

definition read_file_on_ptr_arr :: "u32 list \<Rightarrow> u32 \<Rightarrow> u32 \<Rightarrow> u32 \<Rightarrow> 'd gfs \<Rightarrow> (u8 list \<times> 'd gfs) option" where
  "read_file_on_ptr_arr parr n start_pos len s =
     (if len = 0 \<or> n = 0 then Some ([], s)
      else read_loop parr (unat (start_pos div of_nat BLOCK_SIZE)) (unat (last_pidx n start_pos len))
             (unat (start_pos mod of_nat BLOCK_SIZE)) (unat len) [] s)"

text \<open>The position relative to the block behind pointer \<open>i\<close> of the double indirect block.\<close>

definition dib_pos :: "u32 \<Rightarrow> nat \<Rightarrow> nat \<Rightarrow> int" where
  "dib_pos p ymr i = uint p + int ymr - (int INODE_NDPTR * int BLOCK_SIZE + int (i + 1) * int BLOCK_SIZE * int PTR_PER_BLOCK)"

text \<open>The loop over the double indirect block from pointer \<open>i\<close> on; \<open>False\<close> for the return with -10.\<close>

function read_double :: "u32 list \<Rightarrow> nat \<Rightarrow> u32 \<Rightarrow> u32 \<Rightarrow> u8 list \<Rightarrow> 'd gfs \<Rightarrow> (bool \<times> u8 list \<times> 'd gfs) option" where
  "read_double dib i p len acc s =
     (if i < PTR_PER_BLOCK \<and> length acc < unat len then do {
        q \<leftarrow> nth_chk dib i;
        if q = INODE_INVALID_PTR then Some (True, acc, s)
        else if dib_pos p (length acc) i < 0 then Some (False, acc, GFS_panic s)
        else do {
          (buf, _, s1) \<leftarrow> GFS_read_block q s;
          (bs, s2) \<leftarrow> read_file_on_ptr_arr (ptrs_of_block buf) (of_nat PTR_PER_BLOCK)
                        (word_of_int (dib_pos p (length acc) i)) (len - of_nat (length acc)) s1;
          read_double dib (i + 1) p len (acc @ bs) s2
        }
      } else Some (True, acc, s))"
  by pat_completeness auto
termination
  by (relation "measure (\<lambda>(dib, i, p, len, acc, s). PTR_PER_BLOCK - i)") auto

declare read_double.simps [simp del]

text \<open>A node of the list of open files and its inode.\<close>

definition fd_inode :: "file_desc \<Rightarrow> 'd gfs \<Rightarrow> GFS_inode option" where
  "fd_inode d s = nth_chk (gfsc_inodes s) (pinode (fnodes s (fnode d)))"

definition add_pos :: "nat \<Rightarrow> u32 \<Rightarrow> fproc \<Rightarrow> fproc" where
  "add_pos fd len pc = pc\<lparr>fds := (fds pc)[fd := (fds pc ! fd)\<lparr>pos := pos (fds pc ! fd) + len\<rparr>]\<rparr>"

text \<open>The rest of \<^verbatim>\<open>do_read\<close> once the length is cut to what is left of the file.\<close>

definition read_data :: "nat \<Rightarrow> u32 \<Rightarrow> GFS_inode \<Rightarrow> u32 \<Rightarrow> fproc \<Rightarrow> 'd gfs \<Rightarrow> (int \<times> u8 list \<times> fproc \<times> 'd gfs) option" where
  "read_data fd p x len pc s = do {
     (bs, s1) \<leftarrow> read_file_on_ptr_arr (dptr x) (of_nat INODE_NDPTR) p len s;
     if length bs \<ge> unat len then Some (int (length bs), bs, add_pos fd len pc, s1)
     else do {
       let rpos = uint p + int (length bs) - int (INODE_NDPTR * BLOCK_SIZE);
       if rpos < 0 \<or> idptr x = INODE_INVALID_PTR then Some (-8, bs, pc, GFS_panic s1)
       else do {
         (buf, _, s2) \<leftarrow> GFS_read_block (idptr x) s1;
         (bs2, s3) \<leftarrow> read_file_on_ptr_arr (ptrs_of_block buf) (of_nat PTR_PER_BLOCK) (word_of_int rpos)
                       (len - of_nat (length bs)) s2;
         let acc = bs @ bs2;
         if length acc \<ge> unat len then Some (int (length acc), acc, add_pos fd len pc, s3)
         else if diptr x = INODE_INVALID_PTR then Some (-9, acc, pc, GFS_panic s3)
         else do {
           (dbuf, _, s4) \<leftarrow> GFS_read_block (diptr x) s3;
           (ok, acc2, s5) \<leftarrow> read_double (ptrs_of_block dbuf) 0 p len acc s4;
           if \<not> ok then Some (-10, acc2, pc, s5)
           else if length acc2 = unat len then Some (int (length acc2), acc2, add_pos fd len pc, s5)
           else Some (-11, acc2, pc, GFS_panic s5)
         }
       }
     }
   }"

definition do_read :: "int \<Rightarrow> u64 \<Rightarrow> u32 \<Rightarrow> fproc \<Rightarrow> 'd gfs \<Rightarrow> (int \<times> u8 list \<times> fproc \<times> 'd gfs) option" where
  "do_read fd buf len pc s =
     (if fd < 0 \<or> fd \<ge> int OFILE_MAX then Some (-1, [], pc, s)
      else do {
        d \<leftarrow> nth_chk (fds pc) (nat fd);
        if fnode d = NULL \<or> oflags d AND O_RDONLY = 0 then Some (-1, [], pc, s)
        else if buf \<ge> KVA_MIN then Some (-2, [], pc, s)
        else do {
          x \<leftarrow> fd_inode d s;
          if len = 0 \<or> pos d \<ge> isize x then Some (0, [], pc, s)
          else read_data (nat fd) (pos d) x (if isize x - pos d < len then isize x - pos d else len) pc s
        }
      })"

section \<open>Writing\<close>

definition put_bytes :: "u8 list \<Rightarrow> nat \<Rightarrow> u8 list \<Rightarrow> u8 list" where
  "put_bytes blk boffset bs = take boffset blk @ bs @ drop (boffset + length bs) blk"

text \<open>The bytes for positions \<open>w\<close> to \<open>w + k\<close> of the request; a \<^verbatim>\<open>NULL\<close> buffer gives zeros.\<close>

definition src_bytes :: "u8 list option \<Rightarrow> nat \<Rightarrow> nat \<Rightarrow> u8 list option" where
  "src_bytes buf w k =
     (case buf of None \<Rightarrow> Some (replicate k 0)
      | Some b \<Rightarrow> if w + k \<le> length b then Some (take k (drop w b)) else None)"

function write_loop :: "u32 list \<Rightarrow> nat \<Rightarrow> nat \<Rightarrow> nat \<Rightarrow> nat \<Rightarrow> u8 list option \<Rightarrow> nat \<Rightarrow> 'd gfs \<Rightarrow> (nat \<times> 'd gfs) option" where
  "write_loop parr pidx end_pidx boffset len buf w s =
     (if pidx \<le> end_pidx then do {
        p \<leftarrow> nth_chk parr pidx;
        if p = INODE_INVALID_PTR then Some (w, s)
        else do {
          (blk, _, s1) \<leftarrow> GFS_read_block p s;
          bs \<leftarrow> src_bytes buf w (min (BLOCK_SIZE - boffset) (len - w));
          (_, s2) \<leftarrow> GFS_write_block p (put_bytes blk boffset bs) s1;
          write_loop parr (pidx + 1) end_pidx 0 len buf (w + length bs) s2
        }
      } else Some (w, s))"
  by pat_completeness auto
termination
  by (relation "measure (\<lambda>(parr, pidx, end_pidx, boffset, len, buf, w, s). Suc end_pidx - pidx)") auto

declare write_loop.simps [simp del]

definition write_file_on_ptr_arr ::
  "u32 list \<Rightarrow> u32 \<Rightarrow> u32 \<Rightarrow> u32 \<Rightarrow> u8 list option \<Rightarrow> 'd gfs \<Rightarrow> (nat \<times> 'd gfs) option" where
  "write_file_on_ptr_arr parr n start_pos len buf s =
     (if len = 0 \<or> n = 0 then Some (0, s)
      else write_loop parr (unat (start_pos div of_nat BLOCK_SIZE)) (unat (last_pidx n start_pos len))
             (unat (start_pos mod of_nat BLOCK_SIZE)) (unat len) buf 0 s)"

text \<open>Filling invalid pointers with allocated blocks, in order; what is left of them.\<close>

fun fill_ptrs :: "u32 list \<Rightarrow> u32 list \<Rightarrow> u32 list \<times> u32 list" where
  "fill_ptrs [] as = ([], as)"
| "fill_ptrs (p # ps) [] = (p # ps, [])"
| "fill_ptrs (p # ps) (a # as) =
     (if p = INODE_INVALID_PTR then (let (qs, bs) = fill_ptrs ps as in (a # qs, bs))
      else (let (qs, bs) = fill_ptrs ps (a # as) in (p # qs, bs)))"

definition new_ptr_block :: "u32 list \<Rightarrow> u32 list \<times> u32 list" where
  "new_ptr_block as = (take PTR_PER_BLOCK as @ replicate (PTR_PER_BLOCK - length as) INODE_INVALID_PTR, drop PTR_PER_BLOCK as)"

definition fill_indirect :: "GFS_inode \<Rightarrow> u32 list \<Rightarrow> 'd gfs \<Rightarrow> (GFS_inode \<times> u32 list \<times> 'd gfs) option" where
  "fill_indirect x as s =
     (if as = [] then Some (x, as, s)
      else if idptr x = INODE_INVALID_PTR then do {
        let (idb, as') = new_ptr_block (tl as);
        (_, s1) \<leftarrow> GFS_write_block (hd as) (block_of_ptrs idb) s;
        Some (x\<lparr>idptr := hd as\<rparr>, as', s1)
      } else do {
        (buf, _, s1) \<leftarrow> GFS_read_block (idptr x) s;
        let (idb, as') = fill_ptrs (ptrs_of_block buf) as;
        s2 \<leftarrow> (if length as' \<noteq> length as then do { (_, t) \<leftarrow> GFS_write_block (idptr x) (block_of_ptrs idb) s1; Some t }
               else Some s1);
        Some (x, as', s2)
      })"

text \<open>The new double indirect block: the remaining \<open>n\<close> pointers.\<close>

fun fill_double_new :: "nat \<Rightarrow> u32 list \<Rightarrow> 'd gfs \<Rightarrow> (u32 list \<times> u32 list \<times> 'd gfs) option" where
  "fill_double_new 0 as s = Some ([], as, s)"
| "fill_double_new (Suc n) as s =
     (if as = [] then Some (replicate (Suc n) INODE_INVALID_PTR, [], s)
      else do {
        let (idb, as') = new_ptr_block (tl as);
        (_, s1) \<leftarrow> GFS_write_block (hd as) (block_of_ptrs idb) s;
        (dib, as'', s2) \<leftarrow> fill_double_new n as' s1;
        Some (hd as # dib, as'', s2)
      })"

text \<open>An existing double indirect block, and whether one of its pointers was filled.\<close>

fun fill_double_old :: "u32 list \<Rightarrow> u32 list \<Rightarrow> 'd gfs \<Rightarrow> (u32 list \<times> bool \<times> u32 list \<times> 'd gfs) option" where
  "fill_double_old [] as s = Some ([], False, as, s)"
| "fill_double_old (q # qs) as s =
     (if as = [] then Some (q # qs, False, [], s)
      else if q = INODE_INVALID_PTR then do {
        let (idb, as') = new_ptr_block (tl as);
        (_, s1) \<leftarrow> GFS_write_block (hd as) (block_of_ptrs idb) s;
        (dib, _, as'', s2) \<leftarrow> fill_double_old qs as' s1;
        Some (hd as # dib, True, as'', s2)
      } else do {
        (buf, _, s1) \<leftarrow> GFS_read_block q s;
        let (idb, as') = fill_ptrs (ptrs_of_block buf) as;
        s2 \<leftarrow> (if length as' \<noteq> length as then do { (_, t) \<leftarrow> GFS_write_block q (block_of_ptrs idb) s1; Some t } else Some s1);
        (dib, m, as'', s3) \<leftarrow> fill_double_old qs as' s2;
        Some (q # dib, m, as'', s3)
      })"

definition fill_double :: "GFS_inode \<Rightarrow> u32 list \<Rightarrow> 'd gfs \<Rightarrow> (GFS_inode \<times> 'd gfs) option" where
  "fill_double x as s =
     (if as = [] then Some (x, s)
      else if diptr x = INODE_INVALID_PTR then do {
        (dib, _, s1) \<leftarrow> fill_double_new PTR_PER_BLOCK (tl as) s;
        (_, s2) \<leftarrow> GFS_write_block (hd as) (block_of_ptrs dib) s1;
        Some (x\<lparr>diptr := hd as\<rparr>, s2)
      } else do {
        (buf, _, s1) \<leftarrow> GFS_read_block (diptr x) s;
        (dib, m, _, s2) \<leftarrow> fill_double_old (ptrs_of_block buf) as s1;
        s3 \<leftarrow> (if m then do { (_, t) \<leftarrow> GFS_write_block (diptr x) (block_of_ptrs dib) s2; Some t } else Some s2);
        Some (x, s3)
      })"

definition set_inode :: "nat \<Rightarrow> GFS_inode \<Rightarrow> 'd gfs \<Rightarrow> 'd gfs" where
  "set_inode i x s = s\<lparr>gfsc_inodes := (gfsc_inodes s)[i := x]\<rparr>"

text \<open>The blocks for a longer file; \<open>False\<close> when no memory is left for the array of pointers.\<close>

definition alloc_file_blocks :: "nat \<Rightarrow> GFS_inode \<Rightarrow> u32 \<Rightarrow> 'd gfs \<Rightarrow> (bool \<times> 'd gfs) option" where
  "alloc_file_blocks xi x n s = do {
     (aptr, h) \<leftarrow> kmalloc_g (n * 4) (kh s);
     let s1 = s\<lparr>kh := h\<rparr>;
     if aptr = NULL then Some (False, s1)
     else do {
       (ia, s2) \<leftarrow> GFS_alloc_in_bitmap n (block_bitmap_loc (sblk s1)) (inode_loc (sblk s1)) s1;
       let as = map (\<lambda>i. i + GFS_DATALOC_BLOCK s2) ia;
       let (dp, as1) = fill_ptrs (dptr x) as;
       (x1, as2, s3) \<leftarrow> fill_indirect (x\<lparr>dptr := dp\<rparr>) as1 s2;
       (x2, s4) \<leftarrow> fill_double x1 as2 s3;
       h2 \<leftarrow> kfree_g aptr (kh s4);
       Some (True, set_inode xi x2 (s4\<lparr>kh := h2\<rparr>))
     }
   }"

definition buf_from :: "u8 list option \<Rightarrow> nat \<Rightarrow> u8 list option" where
  "buf_from buf w = map_option (drop w) buf"

function write_double :: "u32 list \<Rightarrow> nat \<Rightarrow> u32 \<Rightarrow> u32 \<Rightarrow> u8 list option \<Rightarrow> nat \<Rightarrow> 'd gfs \<Rightarrow> (bool \<times> nat \<times> 'd gfs) option" where
  "write_double dib i p len buf w s =
     (if i < PTR_PER_BLOCK \<and> w < unat len then do {
        q \<leftarrow> nth_chk dib i;
        if q = INODE_INVALID_PTR then Some (True, w, s)
        else if dib_pos p w i < 0 then Some (False, w, GFS_panic s)
        else do {
          (ib, _, s1) \<leftarrow> GFS_read_block q s;
          (k, s2) \<leftarrow> write_file_on_ptr_arr (ptrs_of_block ib) (of_nat PTR_PER_BLOCK) (word_of_int (dib_pos p w i))
                      (len - of_nat w) (buf_from buf w) s1;
          (_, s3) \<leftarrow> GFS_write_block q ib s2;
          write_double dib (i + 1) p len buf (w + k) s3
        }
      } else Some (True, w, s))"
  by pat_completeness auto
termination
  by (relation "measure (\<lambda>(dib, i, p, len, buf, w, s). PTR_PER_BLOCK - i)") auto

declare write_double.simps [simp del]

text \<open>The label \<^verbatim>\<open>f_w_end\<close>.\<close>

definition f_w_end :: "nat \<Rightarrow> u32 \<Rightarrow> nat \<Rightarrow> fproc \<Rightarrow> 'd gfs \<Rightarrow> (int \<times> fproc \<times> 'd gfs) option" where
  "f_w_end fd len w pc s = do {
     let pc1 = add_pos fd len pc;
     let d = fds pc1 ! fd;
     x \<leftarrow> fd_inode d s;
     let x1 = (if pos d > isize x then x\<lparr>isize := pos d\<rparr> else x);
     (_, s1) \<leftarrow> GFS_write_inode (fl_ino (fnodes s (fnode d))) x1 s;
     Some (int w, pc1, s1)
   }"

text \<open>The transfer itself, once the blocks are there.\<close>

definition write_data :: "nat \<Rightarrow> GFS_inode \<Rightarrow> u8 list option \<Rightarrow> u32 \<Rightarrow> fproc \<Rightarrow> 'd gfs \<Rightarrow> (int \<times> fproc \<times> 'd gfs) option" where
  "write_data fd x buf len pc s = do {
     let p = pos (fds pc ! fd);
     (w, s1) \<leftarrow> write_file_on_ptr_arr (dptr x) (of_nat INODE_NDPTR) p len buf s;
     if w \<ge> unat len then f_w_end fd len w pc s1
     else do {
       let rpos = uint p + int w - int (INODE_NDPTR * BLOCK_SIZE);
       if rpos < 0 \<or> idptr x = INODE_INVALID_PTR then Some (-8, pc, GFS_panic s1)
       else do {
         (ib, _, s2) \<leftarrow> GFS_read_block (idptr x) s1;
         (k, s3) \<leftarrow> write_file_on_ptr_arr (ptrs_of_block ib) (of_nat PTR_PER_BLOCK) (word_of_int rpos)
                     (len - of_nat w) (buf_from buf w) s2;
         (_, s4) \<leftarrow> GFS_write_block (idptr x) ib s3;
         if w + k \<ge> unat len then f_w_end fd len (w + k) pc s4
         else if diptr x = INODE_INVALID_PTR then Some (-9, pc, GFS_panic s4)
         else do {
           (db, _, s5) \<leftarrow> GFS_read_block (diptr x) s4;
           (ok, w2, s6) \<leftarrow> write_double (ptrs_of_block db) 0 p len buf (w + k) s5;
           if \<not> ok then Some (-10, pc, s6)
           else do {
             (_, s7) \<leftarrow> GFS_write_block (diptr x) db s6;
             f_w_end fd len w2 pc s7
           }
         }
       }
     }
   }"

fun do_write :: "nat \<Rightarrow> int \<Rightarrow> u64 \<Rightarrow> u8 list option \<Rightarrow> u32 \<Rightarrow> fproc \<Rightarrow> 'd gfs \<Rightarrow> (int \<times> fproc \<times> 'd gfs) option" where
  "do_write 0 fd addr buf len pc s = None"
| "do_write (Suc fuel) fd addr buf len pc s =
     (if fd < 0 \<or> fd \<ge> int OFILE_MAX then Some (-1, pc, s)
      else do {
        d \<leftarrow> nth_chk (fds pc) (nat fd);
        if fnode d = NULL \<or> oflags d AND O_WRONLY = 0 then Some (-1, pc, s)
        else if addr \<ge> KVA_MIN then Some (-2, pc, s)
        else if len = 0 then Some (0, pc, s)
        else do {
          let xi = pinode (fnodes s (fnode d));
          x \<leftarrow> nth_chk (gfsc_inodes s) xi;
          let len1 = (if len > of_nat UINT32_MAX - pos d then of_nat UINT32_MAX - pos d else len);
          let nblk0 = GFS_nbytes2blocks (isize x);
          let nblk = GFS_nbytes2blocks (pos d + len1);
          (ok, s1) \<leftarrow> (if nblk > nblk0 then alloc_file_blocks xi x (nblk - nblk0) s else Some (True, s));
          if \<not> ok then Some (-3, pc, s1)
          else do {
            x1 \<leftarrow> nth_chk (gfsc_inodes s1) xi;
            if isize x1 < pos d then do {
              let npd = pos d - isize x1;
              let pc1 = pc\<lparr>fds := (fds pc)[nat fd := d\<lparr>pos := isize x1\<rparr>]\<rparr>;
              let s2 = set_inode xi (x1\<lparr>isize := isize x1 + npd\<rparr>) s1;
              (rrt, pc2, s3) \<leftarrow> do_write fuel fd 0 None npd pc1 s2;
              x2 \<leftarrow> nth_chk (gfsc_inodes s3) xi;
              if rrt \<noteq> int (unat npd) then do {
                (_, s4) \<leftarrow> GFS_write_inode (fl_ino (fnodes s3 (fnode d))) x2 s3;
                Some (rrt, pc2, s4)
              } else write_data (nat fd) x2 buf len1 pc2 s3
            } else write_data (nat fd) x1 buf len1 pc s1
          }
        }
      })"

section \<open>Seeking and linking\<close>

definition do_lseek :: "int \<Rightarrow> int \<Rightarrow> int \<Rightarrow> fproc \<Rightarrow> 'd gfs \<Rightarrow> (int \<times> fproc) option" where
  "do_lseek fd offset whence pc s =
     (if fd < 0 \<or> fd \<ge> int OFILE_MAX then Some (-1, pc)
      else do {
        d \<leftarrow> nth_chk (fds pc) (nat fd);
        if fnode d = NULL then Some (-1, pc)
        else if offset > int UINT32_MAX \<or> offset < -2147483648 then Some (-2, pc)
        else do {
          let to = (\<lambda>p. Some (p, pc\<lparr>fds := (fds pc)[nat fd := d\<lparr>pos := word_of_int p\<rparr>]\<rparr>));
          if whence = 0 then (if offset \<ge> 0 then to offset else Some (-2, pc))
          else if whence = 1 then
            (if uint (pos d) + offset < 0 \<or> uint (pos d) + offset \<ge> int UINT32_MAX then Some (-2, pc)
             else to (uint (pos d) + offset))
          else if whence = 2 then do {
            x \<leftarrow> fd_inode d s;
            if uint (isize x) + offset < 0 \<or> uint (isize x) + offset \<ge> int UINT32_MAX then Some (-2, pc)
            else to (uint (isize x) + offset)
          } else Some (-3, pc)
        }
      })"

text \<open>\<open>tlen\<close> is the size of the local buffer for the path of the target: the code declares \<^verbatim>\<open>PATH_LEN\<close> bytes.\<close>

definition hlink_with :: "nat \<Rightarrow> GFS_dentry list \<Rightarrow> GFS_inode \<Rightarrow> fproc \<Rightarrow> cbuf \<Rightarrow> cbuf \<Rightarrow> 'd gfs \<Rightarrow> (int \<times> 'd gfs) option" where
  "hlink_with tlen gdeb gino pc sfpath tfpath s = do {
     (sino, s1) \<leftarrow> path_anal pc sfpath s;
     if sino = DENTRY_INVALID_INO then Some (-1, s1)
     else do {
       (_, so) \<leftarrow> GFS_read_inode sino s1;
       let sx = (case so of None \<Rightarrow> gino | Some x \<Rightarrow> x);
       if itype sx = IT_DIR then Some (-2, s1)
       else if nlink sx \<ge> NLINK_MAX then Some (-3, s1)
       else do {
         let sx1 = sx\<lparr>nlink := nlink sx + 1\<rparr>;
         (pino, tpath, tname, s2) \<leftarrow> path_anal_2 pc tfpath (replicate tlen NUL) s1;
         if pino = DENTRY_INVALID_INO then Some (-4, s2)
         else do {
           (_, po) \<leftarrow> GFS_read_inode pino s2;
           case po of None \<Rightarrow> Some (-8, GFS_panic s2)
           | Some px \<Rightarrow> do {
               c \<leftarrow> nth_chk tpath tname;
               if c = NUL then Some (-5, s2)
               else do {
                 (i, s3) \<leftarrow> search_dentry_in_dir_inode px tpath tname s2;
                 if i \<noteq> DENTRY_INVALID_INO then Some (-6, s3)
                 else do {
                   (adrt, px1, s4) \<leftarrow> GFS_add_dentry gdeb px tpath tname sino s3;
                   if adrt = 1 then Some (-7, s4)
                   else if adrt \<noteq> 0 then Some (-12 + adrt, GFS_panic s4)
                   else do {
                     (_, s5) \<leftarrow> GFS_write_inode sino sx1 s4;
                     (_, s6) \<leftarrow> GFS_write_inode pino px1 s5;
                     Some (0, s6)
                   }
                 }
               }
             }
         }
       }
     }
   }"

definition do_hlink :: "GFS_dentry list \<Rightarrow> GFS_inode \<Rightarrow> fproc \<Rightarrow> cbuf \<Rightarrow> cbuf \<Rightarrow> 'd gfs \<Rightarrow> (int \<times> 'd gfs) option" where
  "do_hlink = hlink_with PATH_LEN"

section \<open>The number of blocks of a file\<close>

text \<open>Data blocks, the indirect block once there are more than ten, and the blocks of the double indirect tree.\<close>

definition file_blocks :: "nat \<Rightarrow> nat" where
  "file_blocks n = (let d = (n + 4095) div 4096 in
     d + (if d > 10 then 1 else 0) + (if d > 1034 then 1 + (d - 1034 + 1023) div 1024 else 0))"

lemma unat_udiv: "0 < unat d \<Longrightarrow> unat x + unat d \<le> 2 ^ 32 \<Longrightarrow> unat (udiv x d) = (unat x + (unat d - 1)) div unat d"
  by (simp add: udiv_def unat_div unat_word_ariths unat_sub word_le_nat_alt)

lemma ceil_ceil: "(n + 4194303) div 4194304 = ((n + 4095) div 4096 + 1023) div (1024 :: nat)"
  by linarith

lemma nbytes2blocks_file_blocks: "unat (GFS_nbytes2blocks sz) = file_blocks (unat sz)"
proof -
  let ?n = "unat sz"
  have n32: "?n < 4294967296" using unsigned_less[of sz] by simp
  consider (direct) "?n \<le> 40960" | (indirect) "40960 < ?n" "?n \<le> 4235264" | (double) "4235264 < ?n" by linarith
  then show ?thesis
  proof cases
    case direct
    then have "sz \<le> 40960" by (simp add: word_le_nat_alt)
    moreover have "unat (udiv sz 4096) = (?n + 4095) div 4096" using unat_udiv[of 4096 sz] direct by simp
    moreover have "(?n + 4095) div 4096 \<le> 10" using direct by linarith
    ultimately show ?thesis
      by (simp add: GFS_nbytes2blocks_def file_blocks_def BLOCK_SIZE_def INODE_NDPTR_def Let_def)
  next
    case indirect
    let ?m = "?n - 40960"
    have s1: "unat (sz - 40960) = ?m" using indirect by (simp add: unat_sub word_le_nat_alt)
    have c: "\<not> sz \<le> 40960" "sz - 40960 \<le> 4194304" using indirect s1 by (simp_all add: word_le_nat_alt)
    have u: "unat (udiv (sz - 40960) 4096) = (?m + 4095) div 4096" using unat_udiv[of 4096 "sz - 40960"] indirect s1 by simp
    have "(?m + 4095) div 4096 = (?n + 4095) div 4096 - 10" "10 < (?n + 4095) div 4096" "(?n + 4095) div 4096 \<le> 1034"
      using indirect by linarith+
    then show ?thesis using c u
      by (simp add: GFS_nbytes2blocks_def file_blocks_def BLOCK_SIZE_def INODE_NDPTR_def PTR_PER_BLOCK_def Let_def unat_word_ariths)
  next
    case double
    let ?m = "?n - 4235264"
    have s1: "unat (sz - 40960) = ?n - 40960" using double by (simp add: unat_sub word_le_nat_alt)
    have s2: "unat (sz - 40960 - 4194304) = ?m" using double s1 by (simp add: unat_sub word_le_nat_alt)
    have c: "\<not> sz \<le> 40960" "\<not> sz - 40960 \<le> 4194304" using double s1 by (simp_all add: word_le_nat_alt)
    have u: "unat (udiv (sz - 40960 - 4194304) 4096) = (?m + 4095) div 4096"
      "unat (udiv (sz - 40960 - 4194304) 4194304) = (?m + 4194303) div 4194304"
      using unat_udiv[of 4096 "sz - 40960 - 4194304"] unat_udiv[of 4194304 "sz - 40960 - 4194304"] n32 s2 by simp_all
    have d: "(?m + 4095) div 4096 = (?n + 4095) div 4096 - 1034" "1034 < (?n + 4095) div 4096" "(?n + 4095) div 4096 \<le> 1048576"
      using double n32 by linarith+
    have "(?m + 4194303) div 4194304 = ((?n + 4095) div 4096 - 1034 + 1023) div 1024"
      using ceil_ceil[of ?m] d(1) by simp
    moreover have "((?n + 4095) div 4096 - 1034 + 1023) div 1024 \<le> 1024" using d(3) by linarith
    ultimately show ?thesis using c u d
      by (simp add: GFS_nbytes2blocks_def file_blocks_def BLOCK_SIZE_def INODE_NDPTR_def PTR_PER_BLOCK_def Let_def unat_word_ariths)
  qed
qed

section \<open>Reading through pointers\<close>

text \<open>The bytes behind an array of pointers.\<close>

definition ptr_bytes :: "'d gfs \<Rightarrow> u32 list \<Rightarrow> u8 list" where
  "ptr_bytes s ps = concat (map (disk_block s) ps)"

lemma length_ptr_bytes: "store_ok s \<Longrightarrow> length (ptr_bytes s ps) = length ps * 4096"
  by (simp add: ptr_bytes_def length_concat_uniform[of _ _ 4096] disk_block_length store_ok_def)

lemma ptr_bytes_cong: "disk_block s' = disk_block s \<Longrightarrow> ptr_bytes s' = ptr_bytes s"
  by (rule ext) (simp add: ptr_bytes_def)

lemma ptr_bytes_append: "ptr_bytes s (ps @ qs) = ptr_bytes s ps @ ptr_bytes s qs"
  by (simp add: ptr_bytes_def)

lemma ptr_bytes_Cons: "ptr_bytes s (p # ps) = disk_block s p @ ptr_bytes s ps"
  by (simp add: ptr_bytes_def)

lemma drop_ptr_bytes: "store_ok s \<Longrightarrow> drop (k * 4096) (ptr_bytes s ps) = ptr_bytes s (drop k ps)"
proof (induction k arbitrary: ps)
  case (Suc k)
  show ?case
  proof (cases ps)
    case (Cons p ps')
    have "length (disk_block s p) = 4096" using Suc(2) by (simp add: disk_block_length store_ok_def)
    then show ?thesis using Suc Cons by (simp add: ptr_bytes_Cons add.commute)
  qed (simp add: ptr_bytes_def)
qed simp

lemma take_drop_cat:
  assumes "k \<le> length xs"
  shows "take n (drop k (xs @ ys)) = take n (drop k xs) @ take (n - length (take n (drop k xs))) ys"
proof -
  have "n - length (drop k xs) = n - length (take n (drop k xs))" by (simp add: min_def)
  then show ?thesis using assms by (simp add: take_append)
qed

lemma read_loop_spec:
  assumes "store_ok s" and "e < length parr" and "\<And>k. pidx \<le> k \<Longrightarrow> k \<le> e \<Longrightarrow> parr ! k \<noteq> INODE_INVALID_PTR \<and> blk_valid s (parr ! k)"
    and "boff \<le> 4096" and "length acc \<le> len"
  shows "\<exists>s'. read_loop parr pidx e boff len acc s =
      Some (acc @ take (len - length acc) (drop boff (ptr_bytes s (take (Suc e - pidx) (drop pidx parr)))), s') \<and> read_only s s'"
  using assms
proof (induction parr pidx e boff len acc s rule: read_loop.induct)
  case (1 parr pidx e boff len acc s)
  show ?case
  proof (cases "pidx \<le> e")
    case False
    then show ?thesis using 1(2) by (subst read_loop.simps) (simp add: read_only_refl ptr_bytes_def)
  next
    case True
    let ?p = "parr ! pidx"
    have p: "?p \<noteq> INODE_INVALID_PTR" "blk_valid s ?p" using 1(4)[of pidx] True by auto
    have ch: "nth_chk parr pidx = Some ?p" using True 1(3) by simp
    obtain r s1 where rd: "GFS_read_block ?p s = Some (disk_block s ?p, r, s1)" "read_only s s1"
      by (rule GFS_read_block_ro[OF 1(2) p(2)])
    note f = read_only_fields[OF rd(2)]
    have st: "store_ok s1" using rd(2) by (simp add: read_only_def)
    have lb: "length (disk_block s ?p) = 4096" using 1(2) by (simp add: disk_block_length store_ok_def)
    let ?c = "take (len - length acc) (drop boff (disk_block s ?p))"
    let ?F = "ptr_bytes s (take (Suc e - Suc pidx) (drop (Suc pidx) parr))"
    have "length (acc @ ?c) \<le> len" using 1(6) by simp
    then obtain s2 where s2: "read_loop parr (pidx + 1) e 0 len (acc @ ?c) s1 =
        Some ((acc @ ?c) @ take (len - length (acc @ ?c)) ?F, s2)" "read_only s1 s2"
      using 1(1)[OF True ch p(1) rd(1) refl refl st 1(3), of] 1(4)
      by (fastforce simp: f(9) ptr_bytes_cong[OF f(10)])
    have "drop pidx parr = ?p # drop (Suc pidx) parr" using True 1(3) by (simp add: Cons_nth_drop_Suc)
    then have F: "ptr_bytes s (take (Suc e - pidx) (drop pidx parr)) = disk_block s ?p @ ?F"
      using True by (simp add: Suc_diff_le ptr_bytes_Cons)
    have "take (len - length acc) (drop boff (disk_block s ?p @ ?F)) = ?c @ take (len - length (acc @ ?c)) ?F"
      using take_drop_cat[of boff "disk_block s ?p" "len - length acc" ?F] 1(5) lb by (simp only: length_append diff_diff_left)
    then show ?thesis
      using True ch p(1) rd(1) s2(1) read_only_trans[OF rd(2) s2(2)] by (subst read_loop.simps) (simp add: F)
  qed
qed

text \<open>Every block that holds one of the first \<open>n\<close> bytes is there.\<close>

definition covered :: "'d gfs \<Rightarrow> u32 list \<Rightarrow> nat \<Rightarrow> bool" where
  "covered s ps n \<longleftrightarrow> (\<forall>k < length ps. k * 4096 < n \<longrightarrow> ps ! k \<noteq> INODE_INVALID_PTR \<and> blk_valid s (ps ! k))"

lemma last_pidx_nat:
  assumes "0 < unat len" and "unat start + unat len < 2 ^ 32" and "0 < unat n"
  shows "unat (last_pidx n start len) = min (unat n - 1) ((unat start + unat len - 1) div 4096)"
proof -
  have l: "unat (start + len) = unat start + unat len" using assms(2) by (simp add: unat_word_ariths)
  have a: "unat (start + len - 1) = unat start + unat len - 1"
    using assms(1) l by (subst unat_sub) (auto simp: word_le_nat_alt)
  have b: "unat (n - 1) = unat n - 1" using assms(3) by (subst unat_sub) (auto simp: word_le_nat_alt)
  show ?thesis using a b by (simp add: last_pidx_def Let_def BLOCK_SIZE_def word_less_nat_alt unat_div min_def)
qed

lemma blocks_span:
  fixes s l :: nat assumes "0 < l"
  shows "s mod 4096 + l \<le> (Suc ((s + l - 1) div 4096) - s div 4096) * 4096"
proof -
  let ?x = "s mod 4096 + l - 1"
  have "s div 4096 * 4096 + s mod 4096 = s" by simp
  then have "s + l - 1 = ?x + s div 4096 * 4096" using assms by linarith
  then have d: "(s + l - 1) div 4096 = ?x div 4096 + s div 4096" by simp
  have "?x < 4096 + ?x div 4096 * 4096" by (rule dividend_less_div_times) simp
  moreover have "z + l - 1 < y \<Longrightarrow> z + l \<le> y" for z y :: nat using assms by linarith
  ultimately have "s mod 4096 + l \<le> 4096 + ?x div 4096 * 4096" by blast
  then show ?thesis using d by simp
qed

lemma read_file_on_ptr_arr_spec:
  assumes st: "store_ok s" and cov: "covered s parr (unat start + unat len)" and n: "unat n = length parr"
    and len: "unat start + unat len < 2 ^ 32"
  shows "\<exists>s'. read_file_on_ptr_arr parr n start len s = Some (take (unat len) (drop (unat start) (ptr_bytes s parr)), s') \<and>
    read_only s s'"
proof (cases "len = 0 \<or> n = 0")
  case True
  then have "len = 0 \<or> parr = []" using n by auto
  then show ?thesis using True st by (auto simp: read_file_on_ptr_arr_def read_only_refl ptr_bytes_def)
next
  case False
  then have pos: "0 < unat len" "0 < unat n" by (simp_all add: unat_gt_0)
  let ?b = "unat start div 4096" and ?o = "unat start mod 4096" and ?e = "unat (last_pidx n start len)"
  have e: "?e = min (length parr - 1) ((unat start + unat len - 1) div 4096)"
    using last_pidx_nat[OF pos(1) len pos(2)] n by simp
  have el: "?e < length parr" using e pos(2) n by linarith
  have v: "parr ! k \<noteq> INODE_INVALID_PTR \<and> blk_valid s (parr ! k)" if "k \<le> ?e" for k
  proof -
    have "k * 4096 < unat start + unat len" using that e pos(1) by linarith
    then show ?thesis using cov that el by (simp add: covered_def)
  qed
  have ob: "unat (start div of_nat BLOCK_SIZE) = ?b" "unat (start mod of_nat BLOCK_SIZE) = ?o"
    by (simp_all add: BLOCK_SIZE_def unat_div unat_mod)
  obtain s' where s': "read_loop parr ?b ?e ?o (unat len) [] s =
      Some (take (unat len) (drop ?o (ptr_bytes s (take (Suc ?e - ?b) (drop ?b parr)))), s')" "read_only s s'"
    using read_loop_spec[OF st el, of ?b ?o "[]" "unat len"] v by auto
  have "take (unat len) (drop ?o (ptr_bytes s (take (Suc ?e - ?b) (drop ?b parr)))) =
      take (unat len) (drop (unat start) (ptr_bytes s parr))"
  proof -
    let ?G = "ptr_bytes s (drop ?b parr)" and ?m = "Suc ?e - ?b"
    have "drop (unat start) (ptr_bytes s parr) = drop ?o (drop (?b * 4096) (ptr_bytes s parr))"
      by (simp add: mult.commute[of ?b] del: drop_drop) (simp add: add.commute)
    then have d: "drop (unat start) (ptr_bytes s parr) = drop ?o ?G" by (simp add: drop_ptr_bytes[OF st])
    have g: "?G = ptr_bytes s (take ?m (drop ?b parr)) @ ptr_bytes s (drop ?m (drop ?b parr))"
      unfolding ptr_bytes_append[symmetric] by (simp only: append_take_drop_id)
    show ?thesis
    proof (cases "?m \<ge> length (drop ?b parr)")
      case True
      then show ?thesis unfolding d by simp
    next
      case False
      then have "?e < length parr - 1" by simp
      then have "?e = (unat start + unat len - 1) div 4096" using e by linarith
      then have "?o + unat len \<le> ?m * 4096" using blocks_span[OF pos(1), of "unat start"] by simp
      moreover have "length (ptr_bytes s (take ?m (drop ?b parr))) = ?m * 4096"
        using False by (simp add: length_ptr_bytes[OF st])
      ultimately show ?thesis unfolding d by (subst g) simp
    qed
  qed
  then show ?thesis using False s' ob by (simp add: read_file_on_ptr_arr_def)
qed

section \<open>Reading a file\<close>

text \<open>
  A read goes through consecutive segments of the file. \<open>rd_inv D p len b acc\<close>: \<open>acc\<close> are the first bytes
  from position \<open>p\<close> on, and unless they are all there everything before \<open>b\<close> has been dealt with.
\<close>

definition rd_inv :: "u8 list \<Rightarrow> nat \<Rightarrow> nat \<Rightarrow> nat \<Rightarrow> u8 list \<Rightarrow> bool" where
  "rd_inv D p len b acc \<longleftrightarrow>
     acc = take (length acc) (drop p D) \<and> length acc \<le> len \<and> (length acc < len \<longrightarrow> b \<le> p + length acc)"

lemma rd_inv_le: "rd_inv D p len b acc \<Longrightarrow> length acc \<le> len"
  unfolding rd_inv_def by blast

lemma rd_inv_0: "rd_inv D p len 0 []"
  by (simp add: rd_inv_def)

lemma rd_inv_step:
  assumes inv: "rd_inv (A @ F @ B) p len b acc" and b: "length A = b" and lt: "length acc < len"
  shows "rd_inv (A @ F @ B) p len (b + length F) (acc @ take (len - length acc) (drop (p + length acc - b) F))"
proof -
  let ?D = "A @ F @ B" and ?k = "p + length acc - b"
  let ?c = "take (len - length acc) (drop ?k F)"
  have k: "b \<le> p + length acc" using inv lt by (simp add: rd_inv_def)
  have "drop (p + length acc) ?D = drop ?k (F @ B)" using k b by simp
  moreover have "take (length (take n xs)) (xs @ ys) = take n xs" for n and xs ys :: "u8 list" by (simp add: min_def)
  then have "take (length ?c) (drop ?k (F @ B)) = ?c" unfolding drop_append .
  ultimately have "take (length ?c) (drop (length acc) (drop p ?D)) = ?c" by (simp only: drop_drop add.commute)
  then have "acc @ ?c = take (length acc + length ?c) (drop p ?D)"
    using inv unfolding rd_inv_def take_add by metis
  then have "acc @ ?c = take (length (acc @ ?c)) (drop p ?D)" unfolding length_append .
  moreover have "length (acc @ ?c) < len \<longrightarrow> b + length F \<le> p + length (acc @ ?c)" using k by auto
  moreover have "length (acc @ ?c) \<le> len" using lt by simp
  ultimately show ?thesis unfolding rd_inv_def by blast
qed

lemma rd_inv_done:
  assumes "rd_inv D p len b acc" and "p + len \<le> b"
  shows "length acc = len" "acc = take len (drop p D)"
  using assms by (auto simp: rd_inv_def)

text \<open>The pointers of a file in order; a missing indirect block stands for invalid pointers.\<close>

definition block_ptrs :: "'d gfs \<Rightarrow> u32 \<Rightarrow> u32 list" where
  "block_ptrs s q = (if q = INODE_INVALID_PTR then replicate 1024 INODE_INVALID_PTR else ptrs_of_block (disk_block s q))"

definition file_ptrs :: "'d gfs \<Rightarrow> GFS_inode \<Rightarrow> u32 list" where
  "file_ptrs s x = dptr x @ block_ptrs s (idptr x) @
     (if diptr x = INODE_INVALID_PTR then [] else concat (map (block_ptrs s) (block_ptrs s (diptr x))))"

definition file_bytes :: "'d gfs \<Rightarrow> GFS_inode \<Rightarrow> u8 list" where
  "file_bytes s x = take (unat (isize x)) (ptr_bytes s (file_ptrs s x))"

text \<open>
  A well-formed file: every block that holds one of its bytes is there, and so are the indirect blocks
  on the way to it.
\<close>

definition file_wf :: "'d gfs \<Rightarrow> GFS_inode \<Rightarrow> bool" where
  "file_wf s x \<longleftrightarrow> length (dptr x) = 10 \<and> covered s (file_ptrs s x) (unat (isize x)) \<and>
     unat (isize x) \<le> length (file_ptrs s x) * 4096 \<and>
     (unat (isize x) > 40960 \<longrightarrow> idptr x \<noteq> INODE_INVALID_PTR \<and> blk_valid s (idptr x)) \<and>
     (unat (isize x) > 4235264 \<longrightarrow> diptr x \<noteq> INODE_INVALID_PTR \<and> blk_valid s (diptr x) \<and>
        (\<forall>i < 1024. 4235264 + i * 4194304 < unat (isize x) \<longrightarrow>
           block_ptrs s (diptr x) ! i \<noteq> INODE_INVALID_PTR \<and> blk_valid s (block_ptrs s (diptr x) ! i)))"

lemma covered_append:
  assumes "covered s (ps @ qs) n"
  shows "covered s ps n" and "covered s qs (n - length ps * 4096)"
proof -
  have a: "(ps @ qs) ! k \<noteq> INODE_INVALID_PTR \<and> blk_valid s ((ps @ qs) ! k)" if "k < length (ps @ qs)" "k * 4096 < n" for k
    using assms that by (simp add: covered_def)
  have "ps ! k \<noteq> INODE_INVALID_PTR \<and> blk_valid s (ps ! k)" if "k < length ps" "k * 4096 < n" for k
    using a[of k] that by (simp add: nth_append)
  then show "covered s ps n" by (simp add: covered_def)
  show "covered s qs (n - length ps * 4096)"
    unfolding covered_def
  proof (intro allI impI)
    fix k assume "k < length qs" "k * 4096 < n - length ps * 4096"
    then show "qs ! k \<noteq> INODE_INVALID_PTR \<and> blk_valid s (qs ! k)" using a[of "length ps + k"] by simp
  qed
qed

lemma covered_mono: "covered s ps n \<Longrightarrow> m \<le> n \<Longrightarrow> covered s ps m"
  by (auto simp: covered_def)

lemma length_block_ptrs [simp]: "store_ok s \<Longrightarrow> length (block_ptrs s q) = 1024"
  by (simp add: block_ptrs_def disk_block_length store_ok_def)

lemma read_only_file:
  assumes "read_only s s'"
  shows "block_ptrs s' = block_ptrs s" "ptr_bytes s' = ptr_bytes s" "covered s' = covered s" "file_ptrs s' = file_ptrs s"
    "store_ok s'"
proof -
  note f = read_only_fields[OF assms]
  show b: "block_ptrs s' = block_ptrs s" by (rule ext) (simp add: block_ptrs_def f(10))
  show "ptr_bytes s' = ptr_bytes s" by (rule ptr_bytes_cong[OF f(10)])
  show "covered s' = covered s" by (intro ext) (simp add: covered_def f(9))
  show "file_ptrs s' = file_ptrs s" by (rule ext) (simp add: file_ptrs_def b)
  show "store_ok s'" using assms by (simp add: read_only_def)
qed

text \<open>One segment: the code reads from the array \<open>qs\<close>, whose bytes start at \<open>b\<close> in the file.\<close>

lemma read_segment:
  assumes st: "store_ok s" and inv: "rd_inv D p (unat len) b acc" and D: "D = A @ ptr_bytes s qs @ B" and b: "length A = b"
    and lt: "length acc < unat len" and n: "unat n = length qs" and cov: "covered s qs (p + unat len - b)"
    and start: "unat start = p + length acc - b" and sz: "p + unat len < 2 ^ 32"
  obtains bs s' where "read_file_on_ptr_arr qs n start (len - of_nat (length acc)) s = Some (bs, s')" "read_only s s'"
    "rd_inv D p (unat len) (b + length qs * 4096) (acc @ bs)"
proof -
  have le: "b \<le> p + length acc" using inv lt by (simp add: rd_inv_def)
  have a32: "length acc < 2 ^ 32" using lt sz by linarith
  have l: "unat (len - of_nat (length acc)) = unat len - length acc"
    using lt a32 by (subst unat_sub) (auto simp: word_le_nat_alt unat_of_nat)
  have sum: "p + length acc - b + (unat len - length acc) < 2 ^ 32" using sz lt le by linarith
  have c: "covered s qs (unat start + unat (len - of_nat (length acc)))"
    by (rule covered_mono[OF cov]) (use start l lt le in simp)
  obtain s' where s': "read_file_on_ptr_arr qs n start (len - of_nat (length acc)) s =
      Some (take (unat len - length acc) (drop (p + length acc - b) (ptr_bytes s qs)), s')" "read_only s s'"
    using read_file_on_ptr_arr_spec[OF st c n] sum unfolding start l by blast
  have "rd_inv D p (unat len) (b + length qs * 4096)
      (acc @ take (unat len - length acc) (drop (p + length acc - b) (ptr_bytes s qs)))"
    using rd_inv_step[OF inv[unfolded D] b lt] by (simp only: D length_ptr_bytes[OF st])
  with s' show thesis by (rule that)
qed

lemma dib_pos_nat:
  assumes "4235264 + i * 4194304 \<le> unat p + w"
  shows "dib_pos p w i = int (unat p + w - (4235264 + i * 4194304))"
  unfolding of_nat_diff[OF assms] dib_pos_def BLOCK_SIZE_def INODE_NDPTR_def PTR_PER_BLOCK_def by simp

lemma read_double_spec:
  assumes "store_ok s" and "length dib = 1024" and "length pre = 1034"
    and "D = ptr_bytes s (pre @ concat (map (block_ptrs s) dib))"
    and "covered s (pre @ concat (map (block_ptrs s) dib)) (unat p + unat len)"
    and "\<And>k. k < 1024 \<Longrightarrow> 4235264 + k * 4194304 < unat p + unat len \<Longrightarrow> dib ! k \<noteq> INODE_INVALID_PTR \<and> blk_valid s (dib ! k)"
    and "unat p + unat len < 2 ^ 32" and "i \<le> 1024" and "rd_inv D (unat p) (unat len) (4235264 + i * 4194304) acc"
  shows "\<exists>s'. read_double dib i p len acc s = Some (True, take (unat len) (drop (unat p) D), s') \<and> read_only s s'"
  using assms
proof (induction dib i p len acc s rule: read_double.induct)
  case (1 dib i p len acc s)
  show ?case
  proof (cases "i < 1024 \<and> length acc < unat len")
    case False
    then have "length acc = unat len"
      using 1(8,9,10) by (auto simp: rd_inv_def)
    then have "take (unat len) (drop (unat p) D) = acc" using 1(10) by (simp add: rd_inv_def)
    moreover have "read_double dib i p len acc s = Some (True, acc, s)"
      using False by (subst read_double.simps) (auto simp: PTR_PER_BLOCK_def)
    ultimately show ?thesis using read_only_refl[OF 1(2)] by blast
  next
    case True
    then have i: "i < 1024" and lt: "length acc < unat len" by simp_all
    let ?b = "4235264 + i * 4194304" and ?q = "dib ! i"
    let ?A = "pre @ concat (map (block_ptrs s) (take i dib))" and ?B = "concat (map (block_ptrs s) (drop (Suc i) dib))"
    have le: "?b \<le> unat p + length acc" using 1(10) lt by (simp add: rd_inv_def)
    have q: "?q \<noteq> INODE_INVALID_PTR" "blk_valid s ?q" using 1(7)[OF i] le lt by auto
    have lenA: "length ?A = 1034 + i * 1024"
      using 1(2,3,4) i by (simp add: length_concat_uniform[of _ "block_ptrs s" 1024])
    have "dib = take i dib @ ?q # drop (Suc i) dib" using i 1(3) by (simp add: id_take_nth_drop)
    then have sp: "pre @ concat (map (block_ptrs s) dib) = ?A @ block_ptrs s ?q @ ?B"
      by (metis (no_types, lifting) append.assoc concat.simps(2) concat_append list.simps(9) map_append)
    have D: "D = ptr_bytes s ?A @ ptr_bytes s (block_ptrs s ?q) @ ptr_bytes s ?B" unfolding 1(5) sp by (simp only: ptr_bytes_append)
    have cov: "covered s (block_ptrs s ?q) (unat p + unat len - ?b)"
    proof -
      have "covered s (?A @ block_ptrs s ?q @ ?B) (unat p + unat len)" using 1(6) by (simp only: sp)
      from covered_append(1)[OF covered_append(2)[OF this]] show ?thesis unfolding lenA
        by (rule covered_mono) simp
    qed
    obtain r s1 where rd: "GFS_read_block ?q s = Some (disk_block s ?q, r, s1)" "read_only s s1"
      by (rule GFS_read_block_ro[OF 1(2) q(2)])
    note f = read_only_file[OF rd(2)]
    have ptrs: "ptrs_of_block (disk_block s ?q) = block_ptrs s ?q" using q(1) by (simp add: block_ptrs_def)
    have dp: "dib_pos p (length acc) i = int (unat p + length acc - ?b)"
      by (rule dib_pos_nat[OF le])
    have st: "unat (word_of_int (dib_pos p (length acc) i) :: u32) = unat p + length acc - ?b"
      using dp 1(8) lt by (simp add: unat_of_nat)
    obtain bs s2 where s2: "read_file_on_ptr_arr (block_ptrs s ?q) (of_nat PTR_PER_BLOCK) (word_of_int (dib_pos p (length acc) i))
        (len - of_nat (length acc)) s1 = Some (bs, s2)" "read_only s1 s2"
      "rd_inv D (unat p) (unat len) (?b + length (block_ptrs s ?q) * 4096) (acc @ bs)"
      by (rule read_segment[OF f(5) 1(10) _ _ lt, of "ptr_bytes s ?A" "block_ptrs s ?q" "ptr_bytes s ?B" "of_nat PTR_PER_BLOCK"
          "word_of_int (dib_pos p (length acc) i)"])
        (use D f(2) lenA length_ptr_bytes[OF 1(2)] cov st 1(2,8) in \<open>simp_all add: f(3) PTR_PER_BLOCK_def\<close>)
    note f2 = read_only_file[OF s2(2)]
    have inv: "rd_inv D (unat p) (unat len) (4235264 + (i + 1) * 4194304) (acc @ bs)" using s2(3) 1(2) by (simp add: algebra_simps)
    have v: "blk_valid s2 = blk_valid s" using read_only_fields(9)[OF rd(2)] read_only_fields(9)[OF s2(2)] by simp
    obtain s3 where s3: "read_double dib (i + 1) p len (acc @ bs) s2 = Some (True, take (unat len) (drop (unat p) D), s3)" "read_only s2 s3"
      using 1(1)[of ?q "(disk_block s ?q, r, s1)" "disk_block s ?q" "(r, s1)" r s1 "(bs, s2)" bs s2]
        True q(1) dp rd(1) s2(1) ptrs 1(3,4,5,6,7,8) i inv f f2 v
      by (simp add: PTR_PER_BLOCK_def) blast
    have "read_double dib i p len acc s = Some (True, take (unat len) (drop (unat p) D), s3)"
      using True q(1) dp rd(1) s2(1) ptrs s3(1) 1(3) by (subst read_double.simps) (simp add: PTR_PER_BLOCK_def)
    then show ?thesis using read_only_trans[OF read_only_trans[OF rd(2) s2(2)] s3(2)] by blast
  qed
qed

lemma length_file_ptrs: "store_ok s \<Longrightarrow> length (dptr x) = 10 \<Longrightarrow> diptr x \<noteq> INODE_INVALID_PTR \<Longrightarrow> length (file_ptrs s x) = 1049610"
  by (simp add: file_ptrs_def length_concat_uniform[of _ "block_ptrs s" 1024])

lemma file_wf_parts:
  assumes st: "store_ok s" and wf: "file_wf s x" and n: "n \<le> unat (isize x)"
  shows "length (dptr x) = 10" "covered s (dptr x) n" "covered s (block_ptrs s (idptr x)) (n - 40960)"
    "n > 40960 \<Longrightarrow> idptr x \<noteq> INODE_INVALID_PTR \<and> blk_valid s (idptr x)"
    "n > 4235264 \<Longrightarrow> diptr x \<noteq> INODE_INVALID_PTR \<and> blk_valid s (diptr x)"
    "n > 4235264 \<Longrightarrow> k < 1024 \<Longrightarrow> 4235264 + k * 4194304 < n \<Longrightarrow>
       block_ptrs s (diptr x) ! k \<noteq> INODE_INVALID_PTR \<and> blk_valid s (block_ptrs s (diptr x) ! k)"
    "covered s (file_ptrs s x) n" "n \<le> length (file_ptrs s x) * 4096"
proof -
  show l: "length (dptr x) = 10" and c: "covered s (file_ptrs s x) n" and "n \<le> length (file_ptrs s x) * 4096"
    using wf n covered_mono[of s "file_ptrs s x" "unat (isize x)" n] by (simp_all add: file_wf_def)
  show "covered s (dptr x) n" "covered s (block_ptrs s (idptr x)) (n - 40960)"
    using covered_append(1)[of s "dptr x"] covered_append(1)[OF covered_append(2)[of s "dptr x"]] c l by (simp_all add: file_ptrs_def)
  show "n > 40960 \<Longrightarrow> idptr x \<noteq> INODE_INVALID_PTR \<and> blk_valid s (idptr x)"
    "n > 4235264 \<Longrightarrow> diptr x \<noteq> INODE_INVALID_PTR \<and> blk_valid s (diptr x)"
    "n > 4235264 \<Longrightarrow> k < 1024 \<Longrightarrow> 4235264 + k * 4194304 < n \<Longrightarrow>
       block_ptrs s (diptr x) ! k \<noteq> INODE_INVALID_PTR \<and> blk_valid s (block_ptrs s (diptr x) ! k)"
    using wf n by (auto simp: file_wf_def)
qed

lemma read_data_spec:
  assumes st: "store_ok s" and wf: "file_wf s x" and len: "0 < unat len" "unat p + unat len \<le> unat (isize x)"
  shows "\<exists>s'. read_data fd p x len pc s =
      Some (int (unat len), take (unat len) (drop (unat p) (ptr_bytes s (file_ptrs s x))), add_pos fd len pc, s') \<and> read_only s s'"
proof -
  note w = file_wf_parts[OF st wf len(2)]
  let ?D = "ptr_bytes s (file_ptrs s x)"
  let ?dd = "if diptr x = INODE_INVALID_PTR then [] else concat (map (block_ptrs s) (block_ptrs s (diptr x)))"
  have D: "?D = ptr_bytes s (dptr x) @ ptr_bytes s (block_ptrs s (idptr x)) @ ptr_bytes s ?dd"
    by (simp only: file_ptrs_def ptr_bytes_append)
  have "unat (isize x) < 2 ^ LENGTH(32)" by (rule unsigned_less)
  then have sz: "unat p + unat len < 2 ^ 32" using len(2) by simp
  have ll: "length (ptr_bytes s (dptr x)) = 40960" "length (ptr_bytes s (dptr x) @ ptr_bytes s (block_ptrs s (idptr x))) = 4235264"
    using w(1) st by (simp_all add: length_ptr_bytes)
  have fin: "acc = take (unat len) (drop (unat p) ?D)" if "rd_inv ?D (unat p) (unat len) b acc" "\<not> length acc < unat len" for b acc
    using that by (auto simp: rd_inv_def)
  obtain bs s1 where s1: "read_file_on_ptr_arr (dptr x) (of_nat INODE_NDPTR) p len s = Some (bs, s1)" "read_only s s1"
    "rd_inv ?D (unat p) (unat len) 40960 bs"
    using read_segment[OF st rd_inv_0 _ _ _ _ _ _ sz, of ?D "[]" "dptr x" _ "of_nat INODE_NDPTR" p] D w(1,2) len(1)
    by (auto simp: INODE_NDPTR_def)
  show ?thesis
  proof (cases "length bs < unat len")
    case False
    then show ?thesis using s1 fin[OF s1(3) False] len(1)
      by (intro exI[of _ s1]) (auto simp: read_data_def rd_inv_def)
  next
    case lt: True
    have le: "40960 \<le> unat p + length bs" using s1(3) lt by (simp add: rd_inv_def)
    then have i: "idptr x \<noteq> INODE_INVALID_PTR" "blk_valid s (idptr x)" using w(4) lt by auto
    note f1 = read_only_file[OF s1(2)]
    obtain r s2 where rd: "GFS_read_block (idptr x) s1 = Some (disk_block s1 (idptr x), r, s2)" "read_only s1 s2"
      using GFS_read_block_ro[OF f1(5), of "idptr x"] i(2) read_only_fields(9)[OF s1(2)] by metis
    note f2 = read_only_file[OF rd(2)]
    have rp: "uint p + int (length bs) - int (INODE_NDPTR * BLOCK_SIZE) = int (unat p + length bs - 40960)"
      unfolding of_nat_diff[OF le] by (simp add: INODE_NDPTR_def BLOCK_SIZE_def)
    have ptrs: "ptrs_of_block (disk_block s1 (idptr x)) = block_ptrs s (idptr x)"
      using i(1) fun_cong[OF f1(1), of "idptr x"] by (simp add: block_ptrs_def)
    have st2: "unat (of_nat (unat p + length bs - 40960) :: u32) = unat p + length bs - 40960"
      using lt sz by (simp add: unat_of_nat)
    obtain bs2 s3 where s3: "read_file_on_ptr_arr (block_ptrs s (idptr x)) (of_nat PTR_PER_BLOCK) (of_nat (unat p + length bs - 40960))
        (len - of_nat (length bs)) s2 = Some (bs2, s3)" "read_only s2 s3" "rd_inv ?D (unat p) (unat len) 4235264 (bs @ bs2)"
      using read_segment[OF f2(5) s1(3) _ ll(1) lt _ _ st2 sz, of "block_ptrs s (idptr x)" "ptr_bytes s ?dd" "of_nat PTR_PER_BLOCK"]
        D w(3) st by (auto simp: PTR_PER_BLOCK_def f1 f2)
    note f3 = read_only_file[OF s3(2)]
    have ro3: "read_only s s3" by (rule read_only_trans[OF read_only_trans[OF s1(2) rd(2)] s3(2)])
    note run = s1(1) lt rp i(1) rd(1) ptrs s3(1)
    show ?thesis
    proof (cases "length (bs @ bs2) < unat len")
      case False
      have l: "length (bs @ bs2) = unat len" using rd_inv_le[OF s3(3)] False by linarith
      then have "read_data fd p x len pc s = Some (int (unat len), bs @ bs2, add_pos fd len pc, s3)"
        using run by (simp add: read_data_def Let_def)
      then show ?thesis using ro3 unfolding fin[OF s3(3) False] by blast
    next
      case lt2: True
      then have n: "4235264 < unat p + unat len" using s3(3) by (auto simp: rd_inv_def)
      have d: "diptr x \<noteq> INODE_INVALID_PTR" "blk_valid s (diptr x)" using w(5)[OF n] by auto
      note g3 = read_only_file[OF ro3]
      obtain q s4 where rd4: "GFS_read_block (diptr x) s3 = Some (disk_block s3 (diptr x), q, s4)" "read_only s3 s4"
        using GFS_read_block_ro[OF g3(5), of "diptr x"] d(2) read_only_fields(9)[OF ro3] by metis
      have ro4: "read_only s s4" by (rule read_only_trans[OF ro3 rd4(2)])
      note g4 = read_only_file[OF ro4]
      have dp: "ptrs_of_block (disk_block s3 (diptr x)) = block_ptrs s (diptr x)"
        using d(1) fun_cong[OF g3(1), of "diptr x"] by (simp add: block_ptrs_def)
      have fp: "file_ptrs s x = (dptr x @ block_ptrs s (idptr x)) @ concat (map (block_ptrs s) (block_ptrs s (diptr x)))"
        using d(1) by (simp add: file_ptrs_def)
      obtain s5 where s5: "read_double (block_ptrs s (diptr x)) 0 p len (bs @ bs2) s4 =
          Some (True, take (unat len) (drop (unat p) ?D), s5)" "read_only s4 s5"
        using read_double_spec[OF g4(5), of "block_ptrs s (diptr x)" "dptr x @ block_ptrs s (idptr x)" ?D p len 0 "bs @ bs2"]
          w(1) st s3(3) sz w(7) w(6)[OF n] read_only_fields(9)[OF ro4] by (auto simp: g4 fp)
      have "length (take (unat len) (drop (unat p) ?D)) = unat len" using w(8) st by (simp add: length_ptr_bytes)
      then show ?thesis using run lt2 d(1) rd4(1) dp s5(1) read_only_trans[OF ro4 s5(2)]
        by (intro exI[of _ s5]) (simp add: read_data_def Let_def)
    qed
  qed
qed

section \<open>What the operations guarantee\<close>

lemma file_blocks_mono: "m \<le> n \<Longrightarrow> file_blocks m \<le> file_blocks n"
proof -
  assume "m \<le> n"
  then have d: "(m + 4095) div 4096 \<le> (n + 4095) div 4096" by (intro div_le_mono) simp
  have e: "a \<le> b \<Longrightarrow> (a - 1034 + 1023) div 1024 \<le> (b - 1034 + 1023) div 1024" for a b :: nat
    by (intro div_le_mono) simp
  show ?thesis using d e[OF d] by (auto simp: file_blocks_def Let_def)
qed

text \<open>
  C14: \<open>GFS_nbytes2blocks\<close> is exact for every 32-bit size. None of its additions wraps, and the result is the
  number of data blocks plus the blocks of the pointer tree above them. A longer file never needs fewer
  blocks, so the difference that \<open>do_write\<close> allocates never wraps either.
\<close>
theorem nbytes2blocks_exact:
  "unat (GFS_nbytes2blocks sz) = file_blocks (unat sz) \<and>
   GFS_nbytes2blocks (min sz sz') \<le> GFS_nbytes2blocks (max sz sz')"
proof -
  have "unat (min sz sz') \<le> unat (max sz sz')" by (auto simp: min_def max_def word_le_nat_alt)
  then show ?thesis by (simp add: word_le_nat_alt nbytes2blocks_file_blocks file_blocks_mono)
qed

text \<open>
  C13: Reading. On an open descriptor with read permission and a well-formed file, \<open>do_read\<close> always
  returns: as many bytes as asked for or as the file has left, and they are the bytes of the file from the
  position on, through direct, indirect and double indirect blocks alike. The position advances by that
  number, no block and no metadata changes, and the block cache stays coherent.
\<close>
theorem do_read_returns:
  assumes st: "store_ok s" and fd: "0 \<le> fd" "fd < int OFILE_MAX" "nat fd < length (fds pc)"
    and d: "fds pc ! nat fd = d" "fnode d \<noteq> NULL" "oflags d AND O_RDONLY \<noteq> 0" and buf: "buf < KVA_MIN"
    and x: "fd_inode d s = Some x" "file_wf s x"
    and n: "n = min (unat len) (unat (isize x) - unat (pos d))"
  shows "\<exists>s'. do_read fd buf len pc s =
      Some (int n, take n (drop (unat (pos d)) (file_bytes s x)), pc\<lparr>fds := (fds pc)[nat fd := d\<lparr>pos := pos d + of_nat n\<rparr>]\<rparr>, s') \<and>
    read_only s s'"
proof (cases "len = 0 \<or> isize x \<le> pos d")
  case True
  then have "n = 0" using n by (auto simp: word_le_nat_alt)
  moreover have "(fds pc)[nat fd := d] = fds pc" "d\<lparr>pos := pos d\<rparr> = d" "pc\<lparr>fds := fds pc\<rparr> = pc" using d(1) by auto
  ultimately show ?thesis using True fd d buf x st by (auto simp: do_read_def read_only_refl)
next
  case False
  let ?l = "if isize x - pos d < len then isize x - pos d else len"
  have sub: "unat (isize x - pos d) = unat (isize x) - unat (pos d)" using False by (simp add: unat_sub word_le_nat_alt)
  then have l: "unat ?l = n" using n by (auto simp: word_less_nat_alt)
  have pos: "unat (pos d) < unat (isize x)" "0 < unat len" using False by (simp_all add: word_le_nat_alt not_le unat_gt_0)
  then have l2: "0 < unat ?l" "unat (pos d) + unat ?l \<le> unat (isize x)" unfolding l using n by auto
  obtain s' where s': "read_data (nat fd) (pos d) x ?l pc s =
      Some (int (unat ?l), take (unat ?l) (drop (unat (pos d)) (ptr_bytes s (file_ptrs s x))), add_pos (nat fd) ?l pc, s')" "read_only s s'"
    using read_data_spec[OF st x(2) l2] by blast
  have ol: "of_nat n = ?l" unfolding l[symmetric] by simp
  have "\<not> KVA_MIN \<le> buf" using buf by simp
  then have run: "do_read fd buf len pc s = read_data (nat fd) (pos d) x ?l pc s"
    using False fd d x(1) by (simp add: do_read_def)
  have fb: "take n (drop (unat (pos d)) (file_bytes s x)) = take n (drop (unat (pos d)) (ptr_bytes s (file_ptrs s x)))"
    using l2(2) unfolding l by (simp add: file_bytes_def drop_take)
  show ?thesis using s' unfolding run fb l add_pos_def d(1) ol by blast
qed

text \<open>The sample with the file \<^verbatim>\<open>a\<close> open.\<close>

definition demo_opened :: "(nat \<Rightarrow> u8 list) gfs" where
  "demo_opened = demo_fs\<lparr>fnodes := \<lambda>_. \<lparr>fl_ino = 1, nwr = 1, nproc = 1, pinode = 1, fl_next = 0\<rparr>\<rparr>"

definition demo_fd :: file_desc where
  "demo_fd = \<lparr>fnode = 0x2000, oflags = O_RDONLY OR O_WRONLY, pos = 1\<rparr>"

definition demo_user :: fproc where
  "demo_user = demo_proc\<lparr>fds := demo_fd # replicate 3 \<lparr>fnode = 0, oflags = 0, pos = 0\<rparr>\<rparr>"

lemma demo_opened_ok: "store_ok demo_opened" "blk_valid demo_opened = blk_valid demo_fs" "disk_block demo_opened = disk_block demo_fs"
  by (simp_all add: demo_opened_def demo_store_ok)

lemma demo_fd_inode: "fd_inode demo_fd demo_opened = Some demo_file"
  by (simp add: fd_inode_def demo_fd_def demo_opened_def nth_chk_def demo_inodes_def)

lemma demo_file_wf: "file_wf demo_opened demo_file"
proof -
  have "blk_valid demo_fs 458" by (rule demo_blk_valid) simp_all
  moreover have l: "length (block_ptrs demo_opened q) = 1024" for q using demo_opened_ok(1) by simp
  ultimately show ?thesis
    by (auto simp: file_wf_def demo_file_def covered_def file_ptrs_def nth_append nth_Cons' INODE_INVALID_PTR_def demo_opened_ok(2))
qed

lemma demo_file_bytes: "file_bytes demo_opened demo_file = [104, 101, 108, 108, 111]"
  by (simp add: file_bytes_def demo_file_def file_ptrs_def ptr_bytes_def demo_opened_ok(3) demo_blocks demo_data_def)

theorem do_read_returns_witness:
  "\<exists>s'. do_read 0 0x10000 100 demo_user demo_opened =
     Some (4, [101, 108, 108, 111], demo_user\<lparr>fds := (fds demo_user)[0 := demo_fd\<lparr>pos := 5\<rparr>]\<rparr>, s') \<and> read_only demo_opened s'"
proof -
  have a: "fds demo_user ! nat 0 = demo_fd" "nat 0 < length (fds demo_user)" "fnode demo_fd \<noteq> NULL"
    "oflags demo_fd AND O_RDONLY \<noteq> 0" "pos demo_fd = 1" "(0x10000 :: u64) < KVA_MIN" "isize demo_file = 5"
    by (simp_all add: demo_user_def demo_fd_def O_RDONLY_def O_WRONLY_def KVA_MIN_def demo_file_def)
  have n: "4 = min (unat (100 :: u32)) (unat (isize demo_file) - unat (pos demo_fd))" by (simp add: a(5,7))
  have fd: "0 \<le> (0 :: int)" "0 < int OFILE_MAX" by (simp_all add: OFILE_MAX_def)
  have v: "take 4 (drop (unat (pos demo_fd)) (file_bytes demo_opened demo_file)) = [101, 108, 108, 111]" "pos demo_fd + of_nat 4 = 5"
    by (simp_all add: a(5) demo_file_bytes)
  show ?thesis
    using do_read_returns[OF demo_opened_ok(1) fd a(2,1,3,4,6) demo_fd_inode demo_file_wf n] unfolding v by simp
qed

text \<open>
  Seeking. Every call on an open file returns. Either it is refused with a negative code and
  nothing changes, or the result lies within 32 bits, it is the position the descriptor has afterwards
  (no truncation happens), and nothing but that position changes.
\<close>
theorem do_lseek_bounds:
  assumes fd: "0 \<le> fd" "fd < int OFILE_MAX" "nat fd < length (fds pc)"
    and d: "fds pc ! nat fd = d" "fnode d \<noteq> NULL" and x: "fd_inode d s = Some x"
  shows "\<exists>r pc'. do_lseek fd offset whence pc s = Some (r, pc') \<and>
    (r < 0 \<and> pc' = pc \<or>
     0 \<le> r \<and> r \<le> int UINT32_MAX \<and> whence \<in> {0, 1, 2} \<and>
     r = (if whence = 0 then 0 else if whence = 1 then uint (pos d) else uint (isize x)) + offset \<and>
     (\<exists>p. uint p = r \<and> pc' = pc\<lparr>fds := (fds pc)[nat fd := d\<lparr>pos := p\<rparr>]\<rparr>))"
proof -
  have u: "uint (word_of_int r :: u32) = r" if "0 \<le> r" "r \<le> int UINT32_MAX" for r
    using that by (simp add: uint_word_of_int UINT32_MAX_def)
  have m: "\<exists>p. uint p = r \<and> pc\<lparr>fds := (fds pc)[nat fd := d\<lparr>pos := word_of_int r\<rparr>]\<rparr> = pc\<lparr>fds := (fds pc)[nat fd := d\<lparr>pos := p\<rparr>]\<rparr>"
    if "0 \<le> r" "r \<le> int UINT32_MAX" for r
    using u[OF that] by blast
  have ch: "nth_chk (fds pc) (nat fd) = Some d" using fd(3) d(1) by simp
  consider "whence = 0" | "whence = 1" | "whence = 2" | "whence \<notin> {0, 1, 2}" by blast
  then show ?thesis
  proof cases
    case 1
    then show ?thesis using fd d(2) ch m[of offset] by (simp add: do_lseek_def)
  next
    case 2
    then show ?thesis using fd d(2) ch m[of "uint (pos d) + offset"] by (simp add: do_lseek_def del: of_int_add)
  next
    case 3
    then show ?thesis using fd d(2) ch x m[of "uint (isize x) + offset"] by (simp add: do_lseek_def del: of_int_add)
  next
    case 4
    then show ?thesis using fd d(2) ch by (simp add: do_lseek_def)
  qed
qed

theorem do_lseek_bounds_witness:
  "\<exists>p. do_lseek 0 (-2) 2 demo_user demo_opened = Some (3, demo_user\<lparr>fds := (fds demo_user)[0 := demo_fd\<lparr>pos := p\<rparr>]\<rparr>) \<and> uint p = 3"
proof -
  have a: "fds demo_user ! nat 0 = demo_fd" "nat 0 < length (fds demo_user)" "fnode demo_fd \<noteq> NULL" "isize demo_file = 5"
    by (simp_all add: demo_user_def demo_fd_def demo_file_def)
  have "nth_chk (fds demo_user) 0 = Some demo_fd" using a(1,2) by simp
  then have r: "fst (the (do_lseek 0 (-2) 2 demo_user demo_opened)) = 3"
    using a(3) by (simp add: do_lseek_def OFILE_MAX_def a(4) demo_fd_inode UINT32_MAX_def)
  show ?thesis
    using do_lseek_bounds[OF _ _ a(2,1,3) demo_fd_inode, of "-2" 2] r by (auto simp: a OFILE_MAX_def)
qed

text \<open>
  The local buffer of \<open>do_hlink\<close> has \<^verbatim>\<open>PATH_LEN\<close> bytes, and \<open>path_anal_2\<close> stores a terminator behind them: whenever
  the source is a file that can be linked, the call writes out of bounds. With one byte more it does not.
\<close>

lemma strncpy_pad_length: "strncpy_pad dest d n = Some b \<Longrightarrow> length b = length dest"
  by (induction dest d n rule: strncpy_pad.induct) (auto simp: upd_chk_def split: if_splits Option.bind_splits)

lemma strncpy_length: "strncpy dest d src s n = Some b \<Longrightarrow> length b = length dest"
  by (induction dest d src s n rule: strncpy.induct)
    (auto simp: upd_chk_def strncpy_pad_length simp del: strncpy_pad.simps split: if_splits Option.bind_splits)

lemma do_hlink_overflows:
  assumes "path_anal pc sfpath s = Some (i, s1)" and "i \<noteq> DENTRY_INVALID_INO" and "GFS_read_inode i s1 = Some (0, Some x)"
    and "itype x \<noteq> IT_DIR" and "nlink x < NLINK_MAX"
  shows "do_hlink gdeb gino pc sfpath tfpath s = None"
proof -
  have "path_anal_2 pc tfpath (replicate PATH_LEN NUL) s1 = None"
    by (cases "strncpy (replicate PATH_LEN NUL) 0 tfpath 0 PATH_LEN")
      (auto simp: path_anal_2_def upd_chk_def dest!: strncpy_length)
  then show ?thesis using assms by (simp add: do_hlink_def hlink_with_def)
qed

end
