(* ===== verification/PcbList.thy ===== *)
theory PcbList
  imports GfsFile
begin

text \<open>
  Process control blocks and the circular lists they are kept in
  (\<^verbatim>\<open>kernel/sched/pcb-list-g.c\<close>, types of \<^verbatim>\<open>include/os/sched.h\<close>).

  The PCBs live in a memory from addresses to \<open>pcb\<close>. A queue is known by the variable that holds its head,
  because \<^verbatim>\<open>pcb_t.phead\<close> and \<^verbatim>\<open>do_block\<close> take the address of that variable: \<open>qref\<close> names those variables
  (\<open>WaitQ p\<close> is the field \<^verbatim>\<open>wait_queue\<close> of the PCB at \<open>p\<close>). A loop round a list that is not circular would
  not end: those loops are partial functions.

  \<open>ring m h ps\<close> says that the list with head \<open>h\<close> consists of the PCBs \<open>ps\<close>, in this order. Every operation
  is shown to be the corresponding operation on \<open>ps\<close>, and to come back.
\<close>

section \<open>Types\<close>

datatype task_status = TASK_SLEEPING | TASK_RUNNING | TASK_READY | TASK_EXITED | TASK_EXITING | TASK_ZOMBIE

datatype qref = ReadyQ | SleepQ | NicSendQ | NicRecvQ | WaitQ addr | MutexQ nat | SemaQ nat | BarrierQ nat | SendQ nat | RecvQ nat

record pcb =
  pid :: int
  tid :: int
  pnext :: addr
  phead :: qref
  status :: task_status
  wakeup_time :: u64
  req_len :: u32
  cpu_mask :: u32
  kernel_stack :: addr
  pname :: cbuf
  pfiles :: fproc
  kernel_sp :: u64
  user_sp :: u64
  trapframe :: u64
  pgdir_kva :: u64
  seg_start :: u64
  seg_end :: u64
  cursor_x :: int
  cursor_y :: int
  cylim_l :: int
  cylim_h :: int
  ctx_regs :: "u64 list"

text \<open>The registers saved on a trap, to which \<^verbatim>\<open>trapframe\<close> points.\<close>

record regs_context =
  tf_regs :: "u64 list"
  tf_sstatus :: u64
  tf_sepc :: u64
  tf_sbadaddr :: u64
  tf_scause :: u64

type_synonym pmem = "addr \<Rightarrow> pcb"

text \<open>The size of \<^verbatim>\<open>pcb_t\<close> on the 64-bit target.\<close>

definition sizeof_pcb :: u32 where "sizeof_pcb = 416"

definition set_pnext :: "addr \<Rightarrow> addr \<Rightarrow> pmem \<Rightarrow> pmem" where
  "set_pnext p q m = m(p := (m p)\<lparr>pnext := q\<rparr>)"

definition set_phead :: "addr \<Rightarrow> qref \<Rightarrow> pmem \<Rightarrow> pmem" where
  "set_phead p h m = m(p := (m p)\<lparr>phead := h\<rparr>)"

section \<open>Operations\<close>

text \<open>The loop \<^verbatim>\<open>for (p = Head; p->next != Head; p = p->next)\<close> that finds the tail.\<close>

partial_function (option) lpcb_tail :: "pmem \<Rightarrow> addr \<Rightarrow> addr \<Rightarrow> addr option" where
  "lpcb_tail m Head p = (if pnext (m p) = Head then Some p else lpcb_tail m Head (pnext (m p)))"

definition lpcb_add_node_to_tail :: "addr \<Rightarrow> qref \<Rightarrow> pmem \<Rightarrow> kheap \<Rightarrow> (addr \<times> addr \<times> pmem \<times> kheap) option" where
  "lpcb_add_node_to_tail Head Phead m h = do {
     (pnew, h1) \<leftarrow> kmalloc_g sizeof_pcb h;
     if pnew = NULL then Some (NULL, pnew, m, h1)
     else if Head = NULL then Some (pnew, pnew, set_phead pnew Phead (set_pnext pnew pnew m), h1)
     else do {
       p \<leftarrow> lpcb_tail m Head Head;
       Some (Head, pnew, set_phead pnew Phead (set_pnext pnew Head (set_pnext p pnew m)), h1)
     }
   }"

text \<open>The same loop left early at \<open>Pprior\<close>.\<close>

partial_function (option) lpcb_find_prior :: "pmem \<Rightarrow> addr \<Rightarrow> addr \<Rightarrow> addr \<Rightarrow> addr option" where
  "lpcb_find_prior m Head Pprior p =
     (if pnext (m p) = Head then Some p
      else if p = Pprior then Some p
      else lpcb_find_prior m Head Pprior (pnext (m p)))"

definition lpcb_insert_node :: "addr \<Rightarrow> addr \<Rightarrow> addr \<Rightarrow> qref \<Rightarrow> pmem \<Rightarrow> (addr \<times> pmem) option" where
  "lpcb_insert_node Head Pnew Pprior Phead m =
     (if Head = NULL then
        (if Pprior = NULL then Some (Pnew, set_pnext Pnew Pnew (set_phead Pnew Phead m)) else Some (NULL, m))
      else do {
        p \<leftarrow> lpcb_find_prior m Head Pprior Head;
        if p \<noteq> Pprior \<and> Pprior \<noteq> NULL then Some (NULL, m)
        else Some (Head, set_phead Pnew Phead (set_pnext p Pnew (set_pnext Pnew (pnext (m p)) m)))
      })"

partial_function (option) lpcb_search_loop :: "pmem \<Rightarrow> (pcb \<Rightarrow> bool) \<Rightarrow> addr \<Rightarrow> addr \<Rightarrow> addr option" where
  "lpcb_search_loop m P Head p =
     (if p = Head then Some NULL
      else if P (m p) then Some p
      else lpcb_search_loop m P Head (pnext (m p)))"

definition lpcb_search_node :: "addr \<Rightarrow> int \<Rightarrow> pmem \<Rightarrow> addr option" where
  "lpcb_search_node Head Pid m =
     (if Head = NULL \<or> pid (m Head) = Pid then Some Head
      else lpcb_search_loop m (\<lambda>c. pid c = Pid) Head (pnext (m Head)))"

definition lpcb_search_node_tcb :: "addr \<Rightarrow> int \<Rightarrow> int \<Rightarrow> pmem \<Rightarrow> addr option" where
  "lpcb_search_node_tcb Head Pid Tid m =
     (if Head = NULL \<or> pid (m Head) = Pid \<and> tid (m Head) = Tid then Some Head
      else lpcb_search_loop m (\<lambda>c. pid c = Pid \<and> tid c = Tid) Head (pnext (m Head)))"

text \<open>The loop that finds the node before \<open>T\<close>; \<open>NULL\<close> when \<open>T\<close> is not in the list.\<close>

partial_function (option) lpcb_before :: "pmem \<Rightarrow> addr \<Rightarrow> addr \<Rightarrow> addr \<Rightarrow> addr option" where
  "lpcb_before m Head T p =
     (if pnext (m p) = Head then Some NULL
      else if pnext (m p) = T then Some p
      else lpcb_before m Head T (pnext (m p)))"

text \<open>The result: the new head, \<^verbatim>\<open>*ppdel\<close> and the memory.\<close>

definition lpcb_del_node :: "addr \<Rightarrow> addr \<Rightarrow> pmem \<Rightarrow> (addr \<times> addr \<times> pmem) option" where
  "lpcb_del_node Head T m =
     (if Head = NULL then Some (NULL, NULL, m)
      else if pnext (m Head) = Head then Some (NULL, if Head = T then Head else NULL, m)
      else if Head = T then do {
        p \<leftarrow> lpcb_tail m Head Head;
        Some (pnext (m Head), Head, set_pnext p (pnext (m Head)) m)
      } else do {
        p \<leftarrow> lpcb_before m Head T Head;
        if p = NULL then Some (Head, NULL, m) else Some (Head, T, set_pnext p (pnext (m T)) m)
      })"

section \<open>Lists behind the pointers\<close>

abbreviation (input) follows :: "pmem \<Rightarrow> addr list \<Rightarrow> bool" where
  "follows m \<equiv> successively (\<lambda>x y. pnext (m x) = y)"

definition ring :: "pmem \<Rightarrow> addr \<Rightarrow> addr list \<Rightarrow> bool" where
  "ring m h ps \<longleftrightarrow> distinct ps \<and> NULL \<notin> set ps \<and> h = (if ps = [] then NULL else hd ps) \<and> (ps \<noteq> [] \<longrightarrow> follows m (ps @ [h]))"

lemma set_pnext_simps [simp]:
  "pnext (set_pnext p q m x) = (if x = p then q else pnext (m x))" "phead (set_pnext p q m x) = phead (m x)"
  "status (set_pnext p q m x) = status (m x)" "pid (set_pnext p q m x) = pid (m x)" "tid (set_pnext p q m x) = tid (m x)"
  "wakeup_time (set_pnext p q m x) = wakeup_time (m x)" "req_len (set_pnext p q m x) = req_len (m x)"
  "cpu_mask (set_pnext p q m x) = cpu_mask (m x)" "kernel_stack (set_pnext p q m x) = kernel_stack (m x)"
  "pname (set_pnext p q m x) = pname (m x)" "pfiles (set_pnext p q m x) = pfiles (m x)"
  by (simp_all add: set_pnext_def)

lemma set_phead_simps [simp]:
  "phead (set_phead p q m x) = (if x = p then q else phead (m x))" "pnext (set_phead p q m x) = pnext (m x)"
  "status (set_phead p q m x) = status (m x)" "pid (set_phead p q m x) = pid (m x)" "tid (set_phead p q m x) = tid (m x)"
  "wakeup_time (set_phead p q m x) = wakeup_time (m x)" "req_len (set_phead p q m x) = req_len (m x)"
  "cpu_mask (set_phead p q m x) = cpu_mask (m x)" "kernel_stack (set_phead p q m x) = kernel_stack (m x)"
  "pname (set_phead p q m x) = pname (m x)" "pfiles (set_phead p q m x) = pfiles (m x)"
  by (simp_all add: set_phead_def)

lemma follows_cong: "(\<And>x. x \<in> set (butlast ps) \<Longrightarrow> pnext (m' x) = pnext (m x)) \<Longrightarrow> follows m' ps = follows m ps"
proof (induction ps)
  case (Cons x ps)
  then show ?case by (cases ps) auto
qed simp

lemma follows_split: "follows m (xs @ p # ys) \<longleftrightarrow> follows m (xs @ [p]) \<and> follows m (p # ys)"
proof (induction xs)
  case (Cons x xs)
  then show ?case by (cases xs) auto
qed simp

lemma ring_cong: "(\<And>x. x \<in> set ps \<Longrightarrow> pnext (m' x) = pnext (m x)) \<Longrightarrow> ring m' h ps = ring m h ps"
  using follows_cong[of "ps @ [h]" m' m] by (simp add: ring_def)

lemma ring_NULL: "ring m h ps \<Longrightarrow> h = NULL \<longleftrightarrow> ps = []"
  by (cases ps) (auto simp: ring_def)

lemma ring_Nil [simp]: "ring m h [] \<longleftrightarrow> h = NULL"
  by (simp add: ring_def)

lemma ring_singleton: "ring m h [p] \<longleftrightarrow> h = p \<and> p \<noteq> NULL \<and> pnext (m p) = p"
  by (auto simp: ring_def)

lemma ring_split:
  "ring m h (xs @ p # ys) \<longleftrightarrow> distinct (xs @ p # ys) \<and> NULL \<notin> set (xs @ p # ys) \<and> h = hd (xs @ [p]) \<and>
     follows m (xs @ [p]) \<and> follows m (p # ys @ [h])"
proof -
  have "hd (xs @ p # ys) = hd (xs @ [p])" by (cases xs) auto
  then show ?thesis using follows_split[of m xs p "ys @ [h]"] by (auto simp: ring_def)
qed

lemma follows_tl_hd: "follows m (p # ys @ [h]) \<Longrightarrow> pnext (m p) = hd (ys @ [h])"
  by (cases ys) auto

text \<open>The loops, started anywhere in the list.\<close>

lemma lpcb_tail_spec:
  "follows m (p # ys @ [h]) \<Longrightarrow> h \<notin> set ys \<Longrightarrow> lpcb_tail m h p = Some (last (p # ys))"
proof (induction ys arbitrary: p)
  case Nil
  then show ?case by (subst lpcb_tail.simps) simp
next
  case (Cons y ys)
  then show ?case by (subst lpcb_tail.simps) auto
qed

lemma lpcb_find_prior_hit:
  "follows m (xs @ [p]) \<Longrightarrow> h \<notin> set (tl (xs @ [p])) \<Longrightarrow> p \<notin> set xs \<Longrightarrow>
   lpcb_find_prior m h p (hd (xs @ [p])) = Some p"
proof (induction xs)
  case Nil
  then show ?case by (subst lpcb_find_prior.simps) simp
next
  case (Cons x xs)
  then have "pnext (m x) = hd (xs @ [p])" "hd (xs @ [p]) \<noteq> h" by (cases xs; simp)+
  moreover have "follows m (xs @ [p])" "h \<notin> set (tl (xs @ [p]))" using Cons(2,3) by (cases xs; auto)+
  ultimately show ?case using Cons by (subst lpcb_find_prior.simps) simp
qed

lemma lpcb_find_prior_miss:
  "follows m (p # ys @ [h]) \<Longrightarrow> h \<notin> set ys \<Longrightarrow> q \<notin> set (p # ys) \<Longrightarrow> lpcb_find_prior m h q p = Some (last (p # ys))"
proof (induction ys arbitrary: p)
  case Nil
  then show ?case by (subst lpcb_find_prior.simps) simp
next
  case (Cons y ys)
  then show ?case by (subst lpcb_find_prior.simps) auto
qed

lemma lpcb_search_loop_spec:
  "follows m (ys @ [h]) \<Longrightarrow> h \<notin> set ys \<Longrightarrow>
   lpcb_search_loop m P h (hd (ys @ [h])) = Some (case find (\<lambda>p. P (m p)) ys of None \<Rightarrow> NULL | Some p \<Rightarrow> p)"
proof (induction ys)
  case Nil
  then show ?case by (subst lpcb_search_loop.simps) simp
next
  case (Cons y ys)
  then have "pnext (m y) = hd (ys @ [h])" "follows m (ys @ [h])" by (cases ys; simp)+
  then show ?case using Cons by (subst lpcb_search_loop.simps) auto
qed

lemma lpcb_before_hit:
  "follows m (p # xs @ [t]) \<Longrightarrow> h \<notin> set xs \<Longrightarrow> h \<noteq> t \<Longrightarrow> t \<notin> set xs \<Longrightarrow> lpcb_before m h t p = Some (last (p # xs))"
proof (induction xs arbitrary: p)
  case Nil
  then show ?case by (subst lpcb_before.simps) simp
next
  case (Cons x xs)
  then show ?case by (subst lpcb_before.simps) auto
qed

lemma lpcb_before_miss:
  "follows m (p # ys @ [h]) \<Longrightarrow> h \<notin> set ys \<Longrightarrow> t \<notin> set ys \<Longrightarrow> lpcb_before m h t p = Some NULL"
proof (induction ys arbitrary: p)
  case Nil
  then show ?case by (subst lpcb_before.simps) simp
next
  case (Cons y ys)
  then show ?case by (subst lpcb_before.simps) auto
qed

section \<open>The operations on the lists\<close>

lemma ring_insert_after:
  assumes r: "ring m h (xs @ p # ys)" and n: "n \<noteq> NULL" "n \<notin> set (xs @ p # ys)"
    and m': "\<And>x. x \<noteq> p \<Longrightarrow> x \<noteq> n \<Longrightarrow> pnext (m' x) = pnext (m x)" "pnext (m' p) = n" "pnext (m' n) = pnext (m p)"
  shows "ring m' h (xs @ p # n # ys)"
proof -
  have s: "distinct (xs @ p # ys)" "NULL \<notin> set (xs @ p # ys)" "h = hd (xs @ [p])" "follows m (xs @ [p])" "follows m (p # ys @ [h])"
    using r unfolding ring_split by auto
  have e: "pnext (m' x) = pnext (m x)" if "x \<in> set xs \<union> set ys" for x
    by (rule m'(1)) (use that s(1) n in auto)
  have a: "follows m' (xs @ [p])" using s(4) e follows_cong[of "xs @ [p]" m' m] by simp
  have "follows m (ys @ [h])" using s(5) by (cases ys) auto
  then have "follows m' (ys @ [h])" using e follows_cong[of "ys @ [h]" m' m] by simp
  then have "follows m' (p # n # ys @ [h])" using follows_tl_hd[OF s(5)] m'(2,3) by (cases ys) auto
  then show ?thesis using a s n unfolding ring_split by auto
qed

lemma lpcb_insert_after_spec [kspec]:
  assumes "ring m h (xs @ p # ys)" and "n \<noteq> NULL" and "n \<notin> set (xs @ p # ys)"
  shows "\<exists>m'. lpcb_insert_node h n p q m = Some (h, m') \<and> ring m' h (xs @ p # n # ys) \<and>
    m' = set_phead n q (set_pnext p n (set_pnext n (pnext (m p)) m))"
proof -
  have s: "distinct (xs @ p # ys)" "NULL \<notin> set (xs @ p # ys)" "h = hd (xs @ [p])" "follows m (xs @ [p])"
    using assms(1) unfolding ring_split by auto
  have "h \<notin> set (tl (xs @ [p]))" using s(1,3) by (cases xs) auto
  then have "lpcb_find_prior m h p h = Some p" using lpcb_find_prior_hit[of m xs p h] s by auto
  moreover have "h \<noteq> NULL" using s(2,3) by (cases xs) auto
  moreover have "ring (set_phead n q (set_pnext p n (set_pnext n (pnext (m p)) m))) h (xs @ p # n # ys)"
    by (rule ring_insert_after[OF assms]) (use assms(3) in auto)
  ultimately show ?thesis by (auto simp: lpcb_insert_node_def)
qed

lemma lpcb_insert_tail_spec [kspec]:
  assumes "ring m h ps" and "n \<noteq> NULL" and "n \<notin> set ps"
  shows "\<exists>m'. lpcb_insert_node h n NULL q m = Some (if ps = [] then n else h, m') \<and> ring m' (if ps = [] then n else h) (ps @ [n]) \<and>
    (\<forall>x. m' x = (m x)\<lparr>pnext := pnext (m' x), phead := if x = n then q else phead (m x)\<rparr>) \<and>
    (\<forall>x. x \<notin> set ps \<longrightarrow> x \<noteq> n \<longrightarrow> m' x = m x)"
proof (cases "ps = []")
  case True
  then show ?thesis using assms by (auto simp: lpcb_insert_node_def ring_singleton set_pnext_def set_phead_def)
next
  case False
  let ?l = "last ps"
  have h: "h = hd ps" "h \<noteq> NULL" "distinct ps" "follows m (ps @ [h])" "NULL \<notin> set ps"
    using assms(1) False ring_NULL[OF assms(1)] unfolding ring_def by auto
  obtain ys where ps: "ps = h # ys" using False h(1) by (cases ps) auto
  have l: "lpcb_find_prior m h NULL h = Some ?l"
    using lpcb_find_prior_miss[of m h ys h NULL] h(3,4,5) unfolding ps by simp
  have sp: "ps = butlast ps @ [?l]" using False by simp
  let ?m = "set_phead n q (set_pnext ?l n (set_pnext n (pnext (m ?l)) m))"
  have "ring m h (butlast ps @ ?l # [])" using assms(1) sp by simp
  from ring_insert_after[OF this, of n ?m] have "ring ?m h (butlast ps @ [?l, n])"
    using assms(2,3) sp by (metis (no_types, lifting) last_in_set False set_pnext_simps(1) set_phead_simps(2))
  then have "ring ?m h (ps @ [n])" using sp by (metis append.assoc append_Cons append_Nil)
  moreover have "lpcb_insert_node h n NULL q m = Some (h, ?m)" using l h(2) by (simp add: lpcb_insert_node_def)
  ultimately show ?thesis using False last_in_set[OF False] by (auto simp: set_pnext_def set_phead_def)
qed

lemma ring_remove:
  assumes r: "ring m h (xs @ p # ys)" and ne: "xs @ ys \<noteq> []"
    and m': "m' = set_pnext (last (ys @ xs)) (pnext (m p)) m"
  shows "ring m' (hd (xs @ ys)) (xs @ ys)"
proof -
  have s: "distinct (xs @ p # ys)" "NULL \<notin> set (xs @ p # ys)" "h = hd (xs @ [p])" "follows m (xs @ [p])" "follows m (p # ys @ [h])"
    using r unfolding ring_split by auto
  have np: "pnext (m p) = hd (ys @ [h])" by (rule follows_tl_hd[OF s(5)])
  have y: "follows m (ys @ [h])" using s(5) by (cases ys) auto
  show ?thesis
  proof (cases "xs = []")
    case True
    then have h: "h = p" using s(3) by simp
    have ne': "ys \<noteq> []" using ne True by simp
    have "follows m (butlast ys @ [last ys])" using y ne' by (metis append_butlast_last_id successively_append_iff)
    then have "follows m' (butlast ys @ [last ys])"
      using s(1) ne' True last_notin_butlast[of ys] by (subst follows_cong[of _ m' m]) (auto simp: m')
    then show ?thesis using True ne' s(1,2) np h m' by (simp add: ring_def successively_append_iff)
  next
    case False
    have l: "last (ys @ xs) = last xs" using False by simp
    have hx: "h = hd xs" using s(3) False by simp
    have "follows m' xs"
    proof -
      have "follows m xs" using s(4) by (simp add: successively_append_iff)
      moreover have "last xs \<notin> set (butlast xs)" using s(1) by (intro last_notin_butlast) (use False in auto)
      ultimately show ?thesis by (subst follows_cong[of _ m' m]) (auto simp: m' l)
    qed
    moreover have "follows m' (ys @ [h])"
    proof -
      have "last xs \<notin> set ys" using s(1) last_in_set[OF False] by (metis disjoint_iff distinct_append set_subset_Cons subsetD)
      then show ?thesis using y by (subst follows_cong[of _ m' m]) (auto simp: m' l)
    qed
    ultimately have "follows m' (xs @ ys @ [h])"
      using False np by (auto simp: successively_append_iff m' l hd_append)
    then show ?thesis using s(1,2) hx False by (auto simp: ring_def hd_append)
  qed
qed

lemma lpcb_del_spec [kspec]:
  assumes r: "ring m h (xs @ p # ys)"
  shows "\<exists>m'. lpcb_del_node h p m = Some (if xs @ ys = [] then NULL else hd (xs @ ys), p, m') \<and>
    ring m' (if xs @ ys = [] then NULL else hd (xs @ ys)) (xs @ ys) \<and>
    (\<forall>x. m' x = (m x)\<lparr>pnext := pnext (m' x)\<rparr>) \<and> (\<forall>x. x \<notin> set (xs @ ys) \<longrightarrow> m' x = m x)"
proof -
  have s: "distinct (xs @ p # ys)" "NULL \<notin> set (xs @ p # ys)" "h = hd (xs @ [p])" "follows m (xs @ [p])" "follows m (p # ys @ [h])"
    using r unfolding ring_split by auto
  have h0: "h \<noteq> NULL" using s(2,3) by (cases xs) auto
  have np: "pnext (m p) = hd (ys @ [h])" by (rule follows_tl_hd[OF s(5)])
  let ?m = "set_pnext (last (ys @ xs)) (pnext (m p)) m"
  have fr: "\<forall>x. ?m x = (m x)\<lparr>pnext := pnext (?m x)\<rparr>" by (simp add: set_pnext_def)
  have fr2: "x \<notin> set (xs @ ys) \<longrightarrow> ?m x = m x" if "xs @ ys \<noteq> []" for x
    using that last_in_set[of "ys @ xs"] by (auto simp: set_pnext_def)
  consider (single) "xs = []" "ys = []" | (head) "xs = []" "ys \<noteq> []" | (inner) "xs \<noteq> []" by blast
  then show ?thesis
  proof cases
    case single
    then show ?thesis using s h0 np by (auto simp: lpcb_del_node_def)
  next
    case head
    then have h: "h = p" using s(3) by simp
    have "lpcb_tail m p p = Some (last (p # ys))" using lpcb_tail_spec[of m p ys p] s(1,5) h by simp
    moreover have "pnext (m p) \<noteq> p" "pnext (m p) = hd ys" using np head s(1) hd_in_set[of ys] by auto
    ultimately have "lpcb_del_node h p m = Some (hd ys, p, ?m)"
      using head h h0 by (simp add: lpcb_del_node_def)
    then show ?thesis using ring_remove[OF r _ refl] fr fr2 head by auto
  next
    case inner
    then obtain xs' where xs: "xs = h # xs'" using s(3) by (cases xs) auto
    have hp: "h \<noteq> p" using s(1) xs by auto
    have b: "lpcb_before m h p h = Some (last xs)"
      using lpcb_before_hit[of m h xs' p h] s(1,4) xs hp by auto
    have "pnext (m h) = hd (xs' @ [p])" using s(4) xs by (cases xs') auto
    then have "pnext (m h) \<noteq> h" using s(1) xs by (cases xs') auto
    moreover have "last xs \<noteq> NULL" using s(2) last_in_set[OF inner] by (metis in_set_conv_decomp_first Un_iff set_append)
    ultimately have "lpcb_del_node h p m = Some (h, p, ?m)"
      using inner hp h0 b by (simp add: lpcb_del_node_def)
    then show ?thesis using ring_remove[OF r _ refl] fr fr2 inner xs by auto
  qed
qed

lemma lpcb_search_spec [kspec]:
  assumes "ring m h ps"
  shows "lpcb_search_node h i m = Some (case find (\<lambda>p. pid (m p) = i) ps of None \<Rightarrow> NULL | Some p \<Rightarrow> p)"
proof (cases ps)
  case (Cons p ys)
  then have s: "follows m (p # ys @ [h])" "h = p" "h \<notin> set ys" "h \<noteq> NULL" using assms by (auto simp: ring_def)
  have "follows m (ys @ [h])" using s(1) by (cases ys) auto
  then show ?thesis using Cons s lpcb_search_loop_spec[of m ys h "\<lambda>c. pid c = i"] follows_tl_hd[OF s(1)]
    by (auto simp: lpcb_search_node_def)
qed (use assms in \<open>simp add: lpcb_search_node_def\<close>)

text \<open>What the operations do to the list.\<close>

fun insert_after :: "'a \<Rightarrow> 'a \<Rightarrow> 'a list \<Rightarrow> 'a list" where
  "insert_after p n [] = []"
| "insert_after p n (x # xs) = (if x = p then x # n # xs else x # insert_after p n xs)"

lemma insert_after_append: "p \<notin> set xs \<Longrightarrow> insert_after p n (xs @ p # ys) = xs @ p # n # ys"
  by (induction xs) auto

lemma set_insert_after: "set (insert_after p n xs) = (if p \<in> set xs then insert n (set xs) else set xs)"
  by (induction xs) auto

lemma distinct_insert_after: "distinct xs \<Longrightarrow> n \<notin> set xs \<Longrightarrow> distinct (insert_after p n xs)"
  by (induction xs) (auto simp: set_insert_after)

lemma hd_insert_after: "xs \<noteq> [] \<Longrightarrow> hd (insert_after p n xs) = hd xs"
  by (cases xs) auto

lemma insert_after_Nil_iff [simp]: "insert_after p n xs = [] \<longleftrightarrow> xs = []"
  by (cases xs) auto

lemma lpcb_insert_miss:
  assumes "ring m h ps" and "p \<notin> set ps" and "p \<noteq> NULL"
  shows "lpcb_insert_node h n p q m = Some (NULL, m)"
proof (cases ps)
  case (Cons x ys)
  then have s: "follows m (h # ys @ [h])" "h \<notin> set ys" "h \<noteq> NULL" "p \<notin> set (h # ys)"
    using assms by (auto simp: ring_def)
  then have "last (h # ys) \<noteq> p" by (metis last_in_set list.distinct(1))
  then show ?thesis using lpcb_find_prior_miss[OF s(1,2,4)] s(3) assms(3) by (simp add: lpcb_insert_node_def)
qed (use assms in \<open>simp add: lpcb_insert_node_def\<close>)

lemma lpcb_del_miss:
  assumes "ring m h ps" and "t \<notin> set ps" and "length ps \<noteq> 1"
  shows "lpcb_del_node h t m = Some (h, NULL, m)"
proof (cases ps)
  case (Cons x ys)
  then have s: "follows m (h # ys @ [h])" "h \<notin> set ys" "h \<noteq> NULL" "t \<notin> set (h # ys)" "ys \<noteq> []"
    using assms by (auto simp: ring_def)
  have "pnext (m h) = hd ys" using follows_tl_hd[OF s(1)] s(5) by simp
  then have "pnext (m h) \<noteq> h" using s(2,5) by auto
  then show ?thesis using lpcb_before_miss[of m h ys h t] s by (simp add: lpcb_del_node_def)
qed (use assms in \<open>simp add: lpcb_del_node_def\<close>)

text \<open>On a list of one node a node that is not in it makes \<^verbatim>\<open>lpcb_del_node\<close> lose the list.\<close>

lemma lpcb_del_singleton_loses: "ring m h [p] \<Longrightarrow> t \<noteq> p \<Longrightarrow> lpcb_del_node h t m = Some (NULL, NULL, m)"
  by (auto simp: ring_singleton lpcb_del_node_def)

lemma lpcb_insert_list [kspec]:
  assumes "ring m h ps" and "n \<noteq> NULL" and "n \<notin> set ps"
  shows "\<exists>h' m'. lpcb_insert_node h n p q m = Some (h', m') \<and>
    (if p \<noteq> NULL \<and> p \<notin> set ps then h' = NULL \<and> m' = m
     else ring m' h' (if p = NULL then ps @ [n] else insert_after p n ps) \<and>
       (\<forall>x. m' x = (m x)\<lparr>pnext := pnext (m' x), phead := if x = n then q else phead (m x)\<rparr>) \<and> (\<forall>x. x \<notin> set ps \<longrightarrow> x \<noteq> n \<longrightarrow> m' x = m x))"
proof -
  consider "p = NULL" | "p \<noteq> NULL" "p \<in> set ps" | "p \<noteq> NULL" "p \<notin> set ps" by blast
  then show ?thesis
  proof cases
    case 1
    then show ?thesis using lpcb_insert_tail_spec[OF assms, of q] by (simp only: simp_thms if_True if_False) blast
  next
    case 2
    then obtain xs ys where ps: "ps = xs @ p # ys" by (auto dest: split_list)
    have "p \<notin> set xs" using assms(1) ps by (auto simp: ring_def)
    then show ?thesis using lpcb_insert_after_spec[of m h xs p ys n q] assms 2 unfolding ps
      by (auto simp: insert_after_append set_pnext_def set_phead_def)
  next
    case 3
    then show ?thesis using lpcb_insert_miss[OF assms(1) 3(2,1)] by simp
  qed
qed

text \<open>
  C15: Insertion into a circular list of PCBs refines insertion into a list. A new node goes right behind
  \<^verbatim>\<open>Pprior\<close>, or to the tail when \<^verbatim>\<open>Pprior\<close> is \<^verbatim>\<open>NULL\<close>, and a \<^verbatim>\<open>Pprior\<close> that is not in the list is refused with \<^verbatim>\<open>NULL\<close>
  and no change. The search loop always ends, only the links and the queue of the new node change, and the new
  node knows its queue.
\<close>
theorem pcb_insert_refines:
  assumes "ring m h ps" and "n \<noteq> NULL" and "n \<notin> set ps"
  shows "\<exists>h' m'. lpcb_insert_node h n p q m = Some (h', m') \<and>
    (if p \<noteq> NULL \<and> p \<notin> set ps then h' = NULL \<and> m' = m
     else ring m' h' (if p = NULL then ps @ [n] else insert_after p n ps) \<and>
       (\<forall>x. m' x = (m x)\<lparr>pnext := pnext (m' x), phead := if x = n then q else phead (m x)\<rparr>) \<and> (\<forall>x. x \<notin> set ps \<longrightarrow> x \<noteq> n \<longrightarrow> m' x = m x))"
  by (rule lpcb_insert_list[OF assms])

text \<open>A ready queue of three processes, two of them running, and one process asleep.\<close>

definition demo_pmem :: pmem where
  "demo_pmem p = \<lparr>pid = int p div 16, tid = 0, pnext = (if p = 0x20 then 0x30 else if p = 0x30 then 0x40 else if p = 0x50 then 0x50 else 0x20),
     phead = (if p = 0x50 then SleepQ else ReadyQ),
     status = (if p = 0x20 \<or> p = 0x30 then TASK_RUNNING else if p = 0x50 then TASK_SLEEPING else TASK_READY), wakeup_time = 5, req_len = 0, cpu_mask = 3, kernel_stack = 0, pname = replicate 32 NUL,
     pfiles = \<lparr>cpath = path_buf ''/'', cur_ino = 0, fds = replicate 4 \<lparr>fnode = 0, oflags = 0, pos = 0\<rparr>\<rparr>,
     kernel_sp = 0, user_sp = 0xf00010000, trapframe = 0, pgdir_kva = 0xffffffc051002000, seg_start = 0x10000, seg_end = 0x20000,
     cursor_x = 0, cursor_y = 0, cylim_l = -1, cylim_h = -1, ctx_regs = replicate 14 0\<rparr>"

lemma demo_ring: "ring demo_pmem 0x20 [0x20, 0x30, 0x40]"
  by (simp add: ring_def demo_pmem_def)

theorem pcb_insert_refines_witness:
  "\<exists>h' m'. lpcb_insert_node 0x20 0x50 0x30 SleepQ demo_pmem = Some (h', m') \<and> ring m' h' [0x20, 0x30, 0x50, 0x40]"
  using pcb_insert_refines[OF demo_ring, of "0x50" "0x30" SleepQ] by auto

lemma lpcb_del_list [kspec]:
  assumes "ring m h ps" and "t \<in> set ps \<or> length ps \<noteq> 1"
  shows "\<exists>h' m'. lpcb_del_node h t m = Some (h', if t \<in> set ps then t else NULL, m') \<and> ring m' h' (remove1 t ps) \<and>
    (\<forall>x. m' x = (m x)\<lparr>pnext := pnext (m' x)\<rparr>) \<and> (\<forall>x. x \<notin> set (remove1 t ps) \<longrightarrow> m' x = m x)"
proof (cases "t \<in> set ps")
  case True
  then obtain xs ys where ps: "ps = xs @ t # ys" by (auto dest: split_list)
  have "t \<notin> set xs" using assms(1) ps by (auto simp: ring_def)
  then have "remove1 t ps = xs @ ys" using ps by (simp add: remove1_append)
  then show ?thesis using lpcb_del_spec[of m h xs t ys] assms(1) True ps by auto
next
  case False
  then show ?thesis using lpcb_del_miss[OF assms(1) False] assms by (simp add: remove1_idem)
qed

text \<open>
  Deletion from a circular list of PCBs refines deletion from a list. Every node of the list, the
  head and the last one included, is unlinked and handed back, the head moves on when it is the one, and the search ends.
  A node that is not in a list of other than one node is reported with \<^verbatim>\<open>NULL\<close> and nothing changes.
\<close>
theorem pcb_del_refines:
  assumes "ring m h ps" and "t \<in> set ps \<or> length ps \<noteq> 1"
  shows "\<exists>h' m'. lpcb_del_node h t m = Some (h', if t \<in> set ps then t else NULL, m') \<and> ring m' h' (remove1 t ps) \<and>
    (\<forall>x. m' x = (m x)\<lparr>pnext := pnext (m' x)\<rparr>) \<and> (\<forall>x. x \<notin> set (remove1 t ps) \<longrightarrow> m' x = m x)"
  by (rule lpcb_del_list[OF assms])

theorem pcb_del_refines_witness:
  "\<exists>h' m'. lpcb_del_node 0x20 0x20 demo_pmem = Some (h', 0x20, m') \<and> ring m' h' [0x30, 0x40]"
  using pcb_del_refines[OF demo_ring, of "0x20"] by auto

end
