(* ===== verification/PageTable.thy ===== *)
theory PageTable
  imports GfsCache
begin

text \<open>
  Page frames and page tables (\<^verbatim>\<open>kernel/mm/mm.c\<close>, \<^verbatim>\<open>arch/riscv/include/pgtable.h\<close>), the page map of the swap
  partition and detaching of shared pages (parts of \<^verbatim>\<open>mm-swap.c\<close> and \<^verbatim>\<open>mm-shared.c\<close>).

  Memory is addressed by kernel virtual addresses (64 bits). \<open>ptes\<close> is the memory of the page tables in units of page
  table entries, \<open>umem\<close> the memory of the page frames in bytes. The char maps and the array \<^verbatim>\<open>pg_uva\<close> are lists of their
  length. Operations that need no process are functions of this state \<open>mm\<close>.
\<close>

section \<open>Constants\<close>

definition NORMAL_PAGE_SHIFT :: nat where "NORMAL_PAGE_SHIFT = 12"
definition PPN_BITS :: nat where "PPN_BITS = 9"
definition PAGE_PRESENT :: u64 where "PAGE_PRESENT = 0x1"
definition PAGE_READ :: u64 where "PAGE_READ = 0x2"
definition PAGE_WRITE :: u64 where "PAGE_WRITE = 0x4"
definition PAGE_EXEC :: u64 where "PAGE_EXEC = 0x8"
definition PAGE_USER :: u64 where "PAGE_USER = 0x10"
definition PAGE_ACCESSED :: u64 where "PAGE_ACCESSED = 0x40"
definition PAGE_DIRTY :: u64 where "PAGE_DIRTY = 0x80"
definition PAGE_SHARED :: u64 where "PAGE_SHARED = 0x100"
definition PAGE_COW :: u64 where "PAGE_COW = 0x200"
definition PAGE_XWR :: u64 where "PAGE_XWR = PAGE_EXEC OR PAGE_WRITE OR PAGE_READ"
definition PAGE_VURWXAD :: u64 where
  "PAGE_VURWXAD = PAGE_PRESENT OR PAGE_USER OR PAGE_READ OR PAGE_WRITE OR PAGE_EXEC OR PAGE_ACCESSED OR PAGE_DIRTY"
definition PAGE_PPN_MASK :: u64 where "PAGE_PPN_MASK = push_bit 10 (NOT 0) AND NOT (push_bit 54 (NOT 0))"
definition PAGE_ATTRIBUTE_MASK :: u64 where "PAGE_ATTRIBUTE_MASK = NOT (push_bit 10 (NOT 0))"
definition VA_MASK :: u64 where "VA_MASK = push_bit 39 1 - 1"
definition NPT :: nat where "NPT = 3840"
definition NPSWAP :: nat where "NPSWAP = 128"
definition NPSHM :: nat where "NPSHM = 24"
definition NSHM :: nat where "NSHM = 3"
definition CMAP_FREE :: u8 where "CMAP_FREE = 0xff"
definition CMAP_SHARED :: u8 where "CMAP_SHARED = 0xfe"
definition UPROC_MAX :: nat where "UPROC_MAX = 16"
definition Pgtb_base :: u64 where "Pgtb_base = 0xffffffc051000000"
definition Pg_base :: u64 where "Pg_base = ROUND (of_nat FREEMEM_KERNEL) 4096"

lemmas pgconst = NORMAL_PAGE_SHIFT_def PPN_BITS_def NPT_def NPF_def NPSWAP_def NPSHM_def NSHM_def UPROC_MAX_def NORMAL_PAGE_SIZE_def
lemmas pgattr = PAGE_PRESENT_def PAGE_READ_def PAGE_WRITE_def PAGE_EXEC_def PAGE_USER_def PAGE_ACCESSED_def PAGE_DIRTY_def
  PAGE_SHARED_def PAGE_COW_def

section \<open>Page table entries\<close>

definition VPN :: "u64 \<Rightarrow> nat \<Rightarrow> u64" where
  "VPN va level = drop_bit (NORMAL_PAGE_SHIFT + PPN_BITS * level) va AND (push_bit PPN_BITS 1 - 1)"

definition kva2pa :: "u64 \<Rightarrow> u64" where "kva2pa kva = kva - push_bit 32 0xffffffc0"
definition pa2kva :: "u64 \<Rightarrow> u64" where "pa2kva pa = pa + push_bit 32 0xffffffc0"

definition get_pa :: "u64 \<Rightarrow> u64" where "get_pa e = push_bit 2 (e AND PAGE_PPN_MASK)"
definition get_pfn :: "u64 \<Rightarrow> u64" where "get_pfn e = drop_bit 10 (e AND PAGE_PPN_MASK)"
definition set_pfn :: "u64 \<Rightarrow> u64 \<Rightarrow> u64" where
  "set_pfn e pfn = (e AND NOT PAGE_PPN_MASK) OR (push_bit 10 pfn AND PAGE_PPN_MASK)"
definition get_attribute :: "u64 \<Rightarrow> u64 \<Rightarrow> u64" where "get_attribute e m = e AND m AND PAGE_ATTRIBUTE_MASK"
definition set_attribute :: "u64 \<Rightarrow> u64 \<Rightarrow> u64" where "set_attribute e a = e OR (a AND PAGE_ATTRIBUTE_MASK)"
definition clear_attribute :: "u64 \<Rightarrow> u64 \<Rightarrow> u64" where "clear_attribute e a = e AND NOT (a AND PAGE_ATTRIBUTE_MASK)"

text \<open>The shifts are those of \<^verbatim>\<open>unsigned int\<close>, and only the sum is widened.\<close>

definition vpn2va :: "u32 \<Rightarrow> u32 \<Rightarrow> u32 \<Rightarrow> u64" where
  "vpn2va vpn2 vpn1 vpn0 = ucast (push_bit (NORMAL_PAGE_SHIFT + PPN_BITS + PPN_BITS) vpn2 +
     push_bit (NORMAL_PAGE_SHIFT + PPN_BITS) vpn1 + push_bit NORMAL_PAGE_SHIFT vpn0)"

definition get_pgidx :: "u64 \<Rightarrow> u32" where
  "get_pgidx e = ucast (drop_bit NORMAL_PAGE_SHIFT (pa2kva (get_pa e) - Pg_base))"

section \<open>State\<close>

record shm_ctrl =
  shm_nproc :: u32
  shm_pgidx :: u32
  shm_opid :: "int list"

record mm =
  ptes :: "u64 \<Rightarrow> u64"
  umem :: "u64 \<Rightarrow> u8"
  pgtb_charmap :: "u8 list"
  pgtb_ffree :: nat
  pg_charmap :: "u8 list"
  pg_ffree :: nat
  pg_uva :: "u64 list"
  spg_charmap :: "u8 list"
  spg_ffree :: nat
  clock_pt :: nat
  swap_start :: u32
  shm_ctrls :: "shm_ctrl list"

definition set_pte :: "u64 \<Rightarrow> u64 \<Rightarrow> mm \<Rightarrow> mm" where
  "set_pte a e m = m\<lparr>ptes := (ptes m)(a := e)\<rparr>"

text \<open>The loop that looks for the next free entry of a char map.\<close>

function next_free :: "u8 list \<Rightarrow> nat \<Rightarrow> nat" where
  "next_free cm i = (if i < length cm then if cm ! i = CMAP_FREE then i else next_free cm (i + 1) else i)"
  by pat_completeness auto
termination by (relation "measure (\<lambda>(cm, i). length cm - i)") auto

declare next_free.simps [simp del]

section \<open>Page frames\<close>

definition free_page :: "u64 \<Rightarrow> mm \<Rightarrow> mm option" where
  "free_page pg_kva m =
     (let i = unat (ucast (drop_bit NORMAL_PAGE_SHIFT (pg_kva - Pg_base)) :: u32) in
      if pg_kva < Pg_base \<or> pg_kva AND 4095 \<noteq> 0 \<or> i \<ge> NPF then None
      else do {
        c \<leftarrow> nth_chk (pg_charmap m) i;
        if c = CMAP_FREE then None
        else Some (m\<lparr>pg_charmap := (pg_charmap m)[i := CMAP_FREE], pg_ffree := if i < pg_ffree m then i else pg_ffree m\<rparr>)
      })"

text \<open>\<^verbatim>\<open>memcpy\<close> of a page and \<^verbatim>\<open>clear_pgdir\<close> of a page frame.\<close>

definition copy_frame :: "u64 \<Rightarrow> u64 \<Rightarrow> mm \<Rightarrow> mm" where
  "copy_frame dst src m = m\<lparr>umem := (\<lambda>a. if a - dst < 4096 then umem m (src + (a - dst)) else umem m a)\<rparr>"

definition clear_frame :: "u64 \<Rightarrow> mm \<Rightarrow> mm" where
  "clear_frame dst m = m\<lparr>umem := (\<lambda>a. if a - dst < 4096 then 0 else umem m a)\<rparr>"

definition frame_bytes :: "u64 \<Rightarrow> mm \<Rightarrow> u8 list" where
  "frame_bytes src m = map (\<lambda>k. umem m (src + of_nat k)) [0..<4096]"

definition store_page :: "u64 \<Rightarrow> u8 list \<Rightarrow> mm \<Rightarrow> mm" where
  "store_page dst bs m = m\<lparr>umem := (\<lambda>a. if unat (a - dst) < length bs then bs ! unat (a - dst) else umem m a)\<rparr>"

section \<open>Page tables\<close>

text \<open>\<^verbatim>\<open>while (ne-- > 0) ((PTE *)pgdir_addr)[ne] = 0\<close>\<close>

fun clear_ptes :: "nat \<Rightarrow> u64 \<Rightarrow> (u64 \<Rightarrow> u64) \<Rightarrow> (u64 \<Rightarrow> u64)" where
  "clear_ptes 0 a p = p"
| "clear_ptes (Suc ne) a p = clear_ptes ne a (p(a + 8 * of_nat ne := 0))"

definition clear_pgdir :: "u64 \<Rightarrow> mm \<Rightarrow> mm" where
  "clear_pgdir a m = m\<lparr>ptes := clear_ptes 512 a (ptes m)\<rparr>"

definition alloc_pagetable :: "int \<Rightarrow> mm \<Rightarrow> (u64 \<times> mm) option" where
  "alloc_pagetable pid m =
     (if (word_of_int pid :: u8) = CMAP_FREE then None
      else if pgtb_ffree m \<ge> NPT then None
      else do {
        let rt = Pgtb_base + of_nat (pgtb_ffree m) * of_nat NORMAL_PAGE_SIZE;
        let m1 = clear_pgdir rt m;
        cm \<leftarrow> upd_chk (pgtb_charmap m1) (pgtb_ffree m1) (word_of_int pid);
        Some (rt, m1\<lparr>pgtb_charmap := cm, pgtb_ffree := next_free cm (pgtb_ffree m1)\<rparr>)
      })"

definition free_pagetable :: "u64 \<Rightarrow> mm \<Rightarrow> mm option" where
  "free_pagetable pgtb_kva m =
     (let i = unat (ucast (drop_bit NORMAL_PAGE_SHIFT (pgtb_kva - Pgtb_base)) :: u32) in
      if pgtb_kva < Pgtb_base \<or> pgtb_kva AND 4095 \<noteq> 0 \<or> i \<ge> NPT then None
      else do {
        c \<leftarrow> nth_chk (pgtb_charmap m) i;
        if c = 0 then None
        else if c = CMAP_FREE then None
        else Some (m\<lparr>pgtb_charmap := (pgtb_charmap m)[i := CMAP_FREE], pgtb_ffree := if i < pgtb_ffree m then i else pgtb_ffree m\<rparr>)
      })"

definition share_pgtable :: "u64 \<Rightarrow> u64 \<Rightarrow> mm \<Rightarrow> mm" where
  "share_pgtable dest src m = fold (\<lambda>i m. set_pte (dest + 8 * of_nat i) (ptes m (src + 8 * of_nat i)) m) [256..<512] m"

text \<open>
  The walk; \<open>n\<close> counts the levels that are left. The result is the address of the entry plus its level.
\<close>

fun va2pte_loop :: "nat \<Rightarrow> u64 \<Rightarrow> u64 \<Rightarrow> bool \<Rightarrow> int \<Rightarrow> mm \<Rightarrow> (u64 \<times> mm) option" where
  "va2pte_loop 0 va pgdir alloc pid m = None"
| "va2pte_loop (Suc level) va pgdir alloc pid m =
     (let ppte = pgdir + 8 * VPN va level; e = ptes m ppte in
      if get_attribute e PAGE_PRESENT \<noteq> 0 then
        if get_attribute e PAGE_XWR = 0 then va2pte_loop level va (pa2kva (get_pa e)) alloc pid m
        else Some (ppte + of_nat level, m)
      else if level > 0 \<and> alloc then
        if e \<noteq> 0 then None
        else do {
          (t, m1) \<leftarrow> alloc_pagetable pid m;
          let m2 = set_pte ppte (set_pfn (ptes m1 ppte) (drop_bit NORMAL_PAGE_SHIFT (kva2pa t))) m1;
          let m3 = set_pte ppte (set_attribute (ptes m2 ppte) PAGE_PRESENT) m2;
          va2pte_loop level va t alloc pid m3
        }
      else Some (ppte + of_nat level, m))"

definition va2pte :: "u64 \<Rightarrow> u64 \<Rightarrow> bool \<Rightarrow> int \<Rightarrow> mm \<Rightarrow> (u64 \<times> mm) option" where
  "va2pte va pgdir alloc pid m = va2pte_loop 3 va pgdir alloc pid m"

definition va2kva :: "u64 \<Rightarrow> u64 \<Rightarrow> mm \<Rightarrow> u64 option" where
  "va2kva va0 pgdir_kva m =
     (let va = va0 AND VA_MASK;
          vpn2 = drop_bit (NORMAL_PAGE_SHIFT + PPN_BITS + PPN_BITS) va;
          vpn1 = push_bit PPN_BITS vpn2 XOR drop_bit (NORMAL_PAGE_SHIFT + PPN_BITS) va;
          vpn0 = drop_bit NORMAL_PAGE_SHIFT va AND NOT (push_bit NORMAL_PAGE_SHIFT (NOT 0));
          offset = va AND (of_nat NORMAL_PAGE_SIZE - 1)
      in do {
        (lpte, m1) \<leftarrow> va2pte va pgdir_kva False 0 m;
        let e = ptes m (lpte AND NOT 7);
        let l = lpte AND 7;
        if get_attribute e PAGE_PRESENT \<noteq> 0 then
          (if l = 2 then Some (pa2kva (get_pa e + push_bit (NORMAL_PAGE_SHIFT + PPN_BITS) vpn1 + push_bit NORMAL_PAGE_SHIFT vpn0 + offset))
           else if l = 1 then Some (pa2kva (get_pa e + push_bit NORMAL_PAGE_SHIFT vpn0 + offset))
           else if l = 0 then Some (pa2kva (get_pa e + offset))
           else None)
        else Some 0
      })"

section \<open>The swap partition\<close>

definition get_sec_idx :: "nat \<Rightarrow> mm \<Rightarrow> u32" where
  "get_sec_idx spg_idx m = swap_start m + of_nat (NORMAL_PAGE_SIZE div SECTOR_SIZE) * of_nat spg_idx"

text \<open>\<open>NPSWAP\<close> or more is no page.\<close>

definition alloc_swap_page :: "int \<Rightarrow> mm \<Rightarrow> (nat \<times> mm) option" where
  "alloc_swap_page pid m =
     (if (word_of_int pid :: u8) = CMAP_FREE then None
      else if spg_ffree m \<ge> NPSWAP then Some (UINT32_MAX, m)
      else do {
        cm \<leftarrow> upd_chk (spg_charmap m) (spg_ffree m) (word_of_int pid);
        Some (spg_ffree m, m\<lparr>spg_charmap := cm, spg_ffree := next_free cm (spg_ffree m)\<rparr>)
      })"

definition free_swap_page :: "u32 \<Rightarrow> mm \<Rightarrow> mm option" where
  "free_swap_page spg_idx m =
     (let i = unat spg_idx in
      if i \<ge> NPSWAP then None
      else do {
        c \<leftarrow> nth_chk (spg_charmap m) i;
        if c = CMAP_FREE then None
        else Some (m\<lparr>spg_charmap := (spg_charmap m)[i := CMAP_FREE], spg_ffree := if i < spg_ffree m then i else spg_ffree m\<rparr>)
      })"

section \<open>Detaching a shared page\<close>

text \<open>
  \<^verbatim>\<open>shm_page_dt\<close> once it is known for which process and which page directory; -1 on error, else the number of
  page frames freed.
\<close>

definition shm_detach :: "u64 \<Rightarrow> int \<Rightarrow> u64 \<Rightarrow> mm \<Rightarrow> (int \<times> mm) option" where
  "shm_detach addr pid pgdir m = do {
     (lpte, m0) \<leftarrow> va2pte addr pgdir False 0 m;
     let ppte = lpte AND NOT 7;
     let e = ptes m ppte;
     if lpte AND 7 \<noteq> 0 \<or> get_attribute e PAGE_SHARED = 0 then Some (-1, m)
     else if get_attribute e PAGE_PRESENT = 0 then None
     else do {
       let kva = pa2kva (get_pa e);
       let m1 = set_pte ppte 0 m;
       let pgidx = (ucast (drop_bit NORMAL_PAGE_SHIFT (kva - Pg_base)) :: u32);
       let i = length (takeWhile (\<lambda>c. \<not> (shm_nproc c > 0 \<and> shm_pgidx c = pgidx)) (shm_ctrls m1));
       c \<leftarrow> nth_chk (shm_ctrls m1) i;
       let k = length (takeWhile (\<lambda>p. p \<noteq> pid) (shm_opid c));
       if k \<ge> NPSHM \<or> shm_nproc c = 0 then None
       else do {
         u \<leftarrow> nth_chk (pg_uva m1) (unat (shm_pgidx c));
         if u \<noteq> ucast (shm_nproc c) then None
         else do {
           let m2 = m1\<lparr>pg_uva := (pg_uva m1)[unat (shm_pgidx c) := u - 1],
             shm_ctrls := (shm_ctrls m1)[i := c\<lparr>shm_nproc := shm_nproc c - 1, shm_opid := (shm_opid c)[k := -1]\<rparr>]\<rparr>;
           if shm_nproc c - 1 = 0 then do { m3 \<leftarrow> free_page kva m2; Some (1, m3) } else Some (0, m2)
         }
       }
     }
   }"

section \<open>Releasing the memory of a process\<close>

text \<open>One entry of an L0 page table; the state of the loops is the number of pages freed and the memory.\<close>

definition free_pte :: "nat \<Rightarrow> nat \<Rightarrow> nat \<Rightarrow> u64 \<Rightarrow> int \<Rightarrow> u64 \<Rightarrow> nat \<times> mm \<Rightarrow> (nat \<times> mm) option" where
  "free_pte i j k l0 pid pgdir s = do {
     let (f, m) = s;
     let e = ptes m (l0 + 8 * of_nat k);
     if get_attribute e PAGE_PRESENT \<noteq> 0 then
       if get_attribute e PAGE_XWR = 0 then None
       else if get_attribute e PAGE_SHARED \<noteq> 0 then do {
         (drt, m1) \<leftarrow> shm_detach (vpn2va (of_nat i) (of_nat j) (of_nat k)) pid pgdir m;
         if drt < 0 then None else Some (if drt > 0 then f + 1 else f, m1)
       } else if get_attribute e PAGE_COW \<noteq> 0 then do {
         let pgidx = unat (get_pgidx e);
         u \<leftarrow> nth_chk (pg_uva m) pgidx;
         if u = 0 \<or> u > of_nat UPROC_MAX then None
         else do {
           let m1 = m\<lparr>pg_uva := (pg_uva m)[pgidx := u - 1]\<rparr>;
           if u - 1 = 0 then do { m2 \<leftarrow> free_page (pa2kva (get_pa e)) m1; Some (f + 1, m2) } else Some (f, m1)
         }
       } else do { m1 \<leftarrow> free_page (pa2kva (get_pa e)) m; Some (f + 1, m1) }
     else if e \<noteq> 0 then do { m1 \<leftarrow> free_swap_page (ucast (get_pfn e)) m; Some (f + 1, m1) }
     else Some (f, m)
   }"

definition free_l1_entry :: "nat \<Rightarrow> nat \<Rightarrow> u64 \<Rightarrow> int \<Rightarrow> u64 \<Rightarrow> nat \<times> mm \<Rightarrow> (nat \<times> mm) option" where
  "free_l1_entry i j l1 pid pgdir s =
     (let e = ptes (snd s) (l1 + 8 * of_nat j) in
      if get_attribute e PAGE_PRESENT \<noteq> 0 then
        if get_attribute e PAGE_XWR \<noteq> 0 then None
        else do {
          let l0 = pa2kva (get_pa e);
          (f, m) \<leftarrow> for_each [0..<512] (\<lambda>k. free_pte i j k l0 pid pgdir) s;
          m1 \<leftarrow> free_pagetable l0 m;
          Some (f, m1)
        }
      else Some s)"

definition free_l2_entry :: "nat \<Rightarrow> u64 \<Rightarrow> int \<Rightarrow> nat \<times> mm \<Rightarrow> (nat \<times> mm) option" where
  "free_l2_entry i pgdir pid s =
     (let e = ptes (snd s) (pgdir + 8 * of_nat i) in
      if get_attribute e PAGE_PRESENT \<noteq> 0 then
        if get_attribute e PAGE_XWR \<noteq> 0 then None
        else do {
          let l1 = pa2kva (get_pa e);
          (f, m) \<leftarrow> for_each [0..<512] (\<lambda>j. free_l1_entry i j l1 pid pgdir) s;
          m1 \<leftarrow> free_pagetable l1 m;
          Some (f, m1)
        }
      else Some s)"

definition free_pages_of_proc :: "u64 \<Rightarrow> int \<Rightarrow> mm \<Rightarrow> (nat \<times> mm) option" where
  "free_pages_of_proc pgdir pid m = do {
     (f, m1) \<leftarrow> for_each [0..<256] (\<lambda>i. free_l2_entry i pgdir pid) (0, m);
     m2 \<leftarrow> free_pagetable pgdir m1;
     Some (f, m2)
   }"

section \<open>An empty memory\<close>

text \<open>No page is in use; the third page table is the root of process 2.\<close>

definition demo_mm :: mm where
  "demo_mm = \<lparr>ptes = (\<lambda>_. 0), umem = (\<lambda>_. 0), pgtb_charmap = [0, 0, 2] @ replicate 3837 CMAP_FREE, pgtb_ffree = 3,
     pg_charmap = replicate 51200 CMAP_FREE, pg_ffree = 0, pg_uva = replicate 51200 0, spg_charmap = replicate 128 CMAP_FREE, spg_ffree = 0,
     clock_pt = 0, swap_start = 1000, shm_ctrls = replicate 3 \<lparr>shm_nproc = 0, shm_pgidx = 0, shm_opid = replicate 24 (-1)\<rparr>\<rparr>"

end
