(* ===== verification/KState.thy ===== *)
theory KState
  imports PcbList PageTable
begin

text \<open>
  The state of the kernel beside the file system: processes, queues, the process table, the clock and the
  objects of \<^verbatim>\<open>include/os/lock.h\<close>; and spin locks (first part of \<^verbatim>\<open>kernel/locking/lock.c\<close>).

  The kernel runs under one lock, so at any moment one CPU (\<open>cpu_id\<close>) executes kernel code and every
  function is a step of this state. A spin lock that is already held would be waited for without end:
  acquiring it is \<open>None\<close>. \<^verbatim>\<open>switch_to\<close> hands the CPU to another process; an operation that blocks is the part up
  to there, which answers \<open>Blocked\<close>, and the part that runs when the process is scheduled again.
\<close>

section \<open>Constants\<close>

definition NCPU :: nat where "NCPU = 2"
definition TASK_NAMELEN :: nat where "TASK_NAMELEN = 31"
definition INVALID_PID :: int where "INVALID_PID = -1"
definition LOCK_NUM :: nat where "LOCK_NUM = 16"
definition SEMAPHORE_NUM :: nat where "SEMAPHORE_NUM = 16"
definition BARRIER_NUM :: nat where "BARRIER_NUM = 16"
definition MBOX_NUM :: nat where "MBOX_NUM = 16"
definition MAX_MBOX_LENGTH :: u32 where "MAX_MBOX_LENGTH = 71"
definition INT32_MIN :: int where "INT32_MIN = -2147483648"
definition TID_MAX :: int where "TID_MAX = 5"
definition INVALID_TID :: int where "INVALID_TID = INVALID_PID"

lemmas kconst = UPROC_MAX_def NCPU_def TASK_NAMELEN_def INVALID_PID_def LOCK_NUM_def SEMAPHORE_NUM_def BARRIER_NUM_def
  MBOX_NUM_def MAX_MBOX_LENGTH_def INT32_MIN_def TID_MAX_def INVALID_TID_def

section \<open>Objects\<close>

datatype lock_status = UNLOCKED | LOCKED

text \<open>The queues of these objects are the variables \<open>MutexQ i\<close>, \<open>SemaQ i\<close>, \<open>BarrierQ i\<close>, \<open>SendQ i\<close> and \<open>RecvQ i\<close>.\<close>

record mutex_lock =
  mslock :: lock_status
  mstatus :: lock_status
  mkey :: int
  mopid :: int

record semaphore =
  sslock :: lock_status
  sopid :: int
  svalue :: int

record barrier =
  bslock :: lock_status
  bopid :: int
  goal :: int
  come :: int

record mailbox =
  xslock :: lock_status
  xopid :: int
  xbuf :: "u8 list"
  buf_head :: u32
  buf_tail :: u32

text \<open>A program in the image, and the static variables of \<^verbatim>\<open>handle_pagefault\<close>.\<close>

record task_info =
  ti_offset :: u32
  ti_fsize :: u32
  ti_vaddr :: u64
  ti_ventr :: u64
  ti_msize :: u32
  ti_name :: cbuf

record pf_state =
  pf_ymr :: u32
  last_stval :: u64
  last_pid :: int
  last_time :: u32

text \<open>The last two fields are the addresses of these functions in the kernel image.\<close>

record 'd kstate =
  pcbs :: pmem
  heads :: "qref \<Rightarrow> addr"
  current_running :: "addr list"
  cpu_id :: nat
  pcb_table :: "addr list"
  proc_ymr :: int
  free_pt :: nat
  ticks :: u64
  time_base :: u64
  time_max_sec :: u64
  mlocks :: "mutex_lock list"
  semaphores :: "semaphore list"
  barriers :: "barrier list"
  mailboxes :: "mailbox list"
  fs :: "'d gfs"
  vm :: mm
  trapframes :: "u64 \<Rightarrow> regs_context"
  csr_sstatus :: u64
  pid_glush :: int
  taskinfo :: "task_info list"
  pf :: pf_state
  ret_from_exception :: u64
  addr_do_exit :: u64

datatype 'a outcome = Done 'a | Blocked

definition cur_cpu :: "'d kstate \<Rightarrow> addr" where
  "cur_cpu s = current_running s ! cpu_id s"

definition cur_pcb :: "'d kstate \<Rightarrow> pcb" where
  "cur_pcb s = pcbs s (cur_cpu s)"

definition upd_pcb :: "addr \<Rightarrow> (pcb \<Rightarrow> pcb) \<Rightarrow> 'd kstate \<Rightarrow> 'd kstate" where
  "upd_pcb p f s = s\<lparr>pcbs := (pcbs s)(p := f (pcbs s p))\<rparr>"

definition set_head :: "qref \<Rightarrow> addr \<Rightarrow> 'd kstate \<Rightarrow> 'd kstate" where
  "set_head q h s = s\<lparr>heads := (heads s)(q := h)\<rparr>"

text \<open>A signed 32-bit result; signed overflow is undefined.\<close>

definition c_int32 :: "int \<Rightarrow> int option" where
  "c_int32 v = (if -2147483648 \<le> v \<and> v < 2147483648 then Some v else None)"

section \<open>Spin locks\<close>

definition spin_lock_init :: "lock_status \<Rightarrow> lock_status" where
  "spin_lock_init l = UNLOCKED"

text \<open>\<^verbatim>\<open>__sync_lock_test_and_set\<close> stores \<open>LOCKED\<close> and answers the old value.\<close>

definition test_and_set :: "lock_status \<Rightarrow> lock_status \<times> lock_status" where
  "test_and_set l = (l, LOCKED)"

definition spin_lock_try_acquire :: "lock_status \<Rightarrow> int \<times> lock_status" where
  "spin_lock_try_acquire l = (let (old, l') = test_and_set l in (if old = LOCKED then 1 else 0, l'))"

definition spin_lock_acquire :: "lock_status \<Rightarrow> lock_status option" where
  "spin_lock_acquire l = (let (old, l') = test_and_set l in if old = LOCKED then None else Some l')"

definition spin_lock_release :: "lock_status \<Rightarrow> lock_status option" where
  "spin_lock_release l = (if l = UNLOCKED then None else Some UNLOCKED)"

text \<open>The spin lock inside an object, as \<^verbatim>\<open>do_block\<close> receives it.\<close>

datatype sref = MutexS nat | SemaS nat | BarrierS nat | MboxS nat

fun slock_upd :: "sref \<Rightarrow> (lock_status \<Rightarrow> lock_status option) \<Rightarrow> 'd kstate \<Rightarrow> 'd kstate option" where
  "slock_upd (MutexS i) f s = do {
     l \<leftarrow> nth_chk (mlocks s) i; v \<leftarrow> f (mslock l); Some (s\<lparr>mlocks := (mlocks s)[i := l\<lparr>mslock := v\<rparr>]\<rparr>) }"
| "slock_upd (SemaS i) f s = do {
     l \<leftarrow> nth_chk (semaphores s) i; v \<leftarrow> f (sslock l); Some (s\<lparr>semaphores := (semaphores s)[i := l\<lparr>sslock := v\<rparr>]\<rparr>) }"
| "slock_upd (BarrierS i) f s = do {
     l \<leftarrow> nth_chk (barriers s) i; v \<leftarrow> f (bslock l); Some (s\<lparr>barriers := (barriers s)[i := l\<lparr>bslock := v\<rparr>]\<rparr>) }"
| "slock_upd (MboxS i) f s = do {
     l \<leftarrow> nth_chk (mailboxes s) i; v \<leftarrow> f (xslock l); Some (s\<lparr>mailboxes := (mailboxes s)[i := l\<lparr>xslock := v\<rparr>]\<rparr>) }"

abbreviation slock_acquire :: "sref \<Rightarrow> 'd kstate \<Rightarrow> 'd kstate option" where
  "slock_acquire r \<equiv> slock_upd r spin_lock_acquire"

abbreviation slock_release :: "sref \<Rightarrow> 'd kstate \<Rightarrow> 'd kstate option" where
  "slock_release r \<equiv> slock_upd r spin_lock_release"

lemma spin_lock_simps [simp]:
  "spin_lock_acquire UNLOCKED = Some LOCKED" "spin_lock_acquire LOCKED = None"
  "spin_lock_release LOCKED = Some UNLOCKED" "spin_lock_release UNLOCKED = None"
  by (simp_all add: spin_lock_acquire_def spin_lock_release_def test_and_set_def)

end
