(* ===== verification/PcbTable.thy ===== *)
theory PcbTable
  imports KState
begin

text \<open>
  The table of all PCBs (\<^verbatim>\<open>kernel/sched/pcb-table.c\<close>) and the allocation of process and thread identifiers.

  \<open>tab_ok\<close> is the invariant of the table; \<open>procs\<close> is the list of the processes it holds. Adding, deleting and
  searching are shown to be the operations on that list, also when the table has to be compacted first.
\<close>

section \<open>Operations\<close>

text \<open>The two indices of \<^verbatim>\<open>pcb_table_rearrange\<close>.\<close>

function rearrange_loop :: "nat \<Rightarrow> nat \<Rightarrow> nat \<Rightarrow> addr list \<Rightarrow> (nat \<times> addr list) option" where
  "rearrange_loop n i j t =
     (if i < n then do {
        p \<leftarrow> nth_chk t i;
        if p \<noteq> NULL then do { t' \<leftarrow> upd_chk t j p; rearrange_loop n (i + 1) (j + 1) t' }
        else rearrange_loop n (i + 1) j t
      } else Some (j, t))"
  by pat_completeness auto
termination by (relation "measure (\<lambda>(n, i, j, t). n - i)") auto

declare rearrange_loop.simps [simp del]

definition pcb_table_rearrange :: "'d kstate \<Rightarrow> 'd kstate option" where
  "pcb_table_rearrange s = do {
     (j, t) \<leftarrow> rearrange_loop (free_pt s) 0 0 (pcb_table s);
     if int j \<noteq> proc_ymr s then None
     else Some (s\<lparr>free_pt := j, pcb_table := take j t @ replicate (UPROC_MAX + NCPU - j) NULL\<rparr>)
   }"

definition pcb_table_add :: "addr \<Rightarrow> 'd kstate \<Rightarrow> (int \<times> 'd kstate) option" where
  "pcb_table_add p s =
     (if proc_ymr s \<ge> int (UPROC_MAX + NCPU) then Some (-1, s)
      else do {
        s1 \<leftarrow> (if free_pt s \<ge> UPROC_MAX + NCPU then pcb_table_rearrange s else Some s);
        t \<leftarrow> upd_chk (pcb_table s1) (free_pt s1) p;
        Some (int (free_pt s1), s1\<lparr>pcb_table := t, free_pt := free_pt s1 + 1, proc_ymr := proc_ymr s1 + 1\<rparr>)
      })"

text \<open>The first index below \<open>free_pt\<close> whose entry satisfies \<open>P\<close>, or \<open>free_pt\<close>.\<close>

definition table_index :: "(addr \<Rightarrow> bool) \<Rightarrow> 'd kstate \<Rightarrow> nat" where
  "table_index P s = length (takeWhile (\<lambda>p. \<not> P p) (take (free_pt s) (pcb_table s)))"

definition pcb_table_del :: "addr \<Rightarrow> 'd kstate \<Rightarrow> int \<times> 'd kstate" where
  "pcb_table_del p s =
     (let i = table_index (\<lambda>q. q = p) s in
      if i < free_pt s then (int i, s\<lparr>pcb_table := (pcb_table s)[i := NULL], proc_ymr := proc_ymr s - 1\<rparr>) else (-1, s))"

definition get_proc_num :: "'d kstate \<Rightarrow> int" where
  "get_proc_num s = proc_ymr s"

definition table_search :: "(pcb \<Rightarrow> bool) \<Rightarrow> 'd kstate \<Rightarrow> addr" where
  "table_search P s =
     (let i = table_index (\<lambda>p. p \<noteq> NULL \<and> P (pcbs s p)) s in if i < free_pt s then pcb_table s ! i else NULL)"

definition pcb_search :: "int \<Rightarrow> 'd kstate \<Rightarrow> addr" where
  "pcb_search i s = table_search (\<lambda>c. pid c = i) s"

definition pcb_search_tcb :: "int \<Rightarrow> 'd kstate \<Rightarrow> addr" where
  "pcb_search_tcb t s = table_search (\<lambda>c. pid c = pid (cur_pcb s) \<and> tid c = t) s"

definition pcb_search_all :: "int \<Rightarrow> 'd kstate \<Rightarrow> addr list" where
  "pcb_search_all i s = filter (\<lambda>p. p \<noteq> NULL \<and> pid (pcbs s p) = i) (take (free_pt s) (pcb_table s))"

text \<open>\<^verbatim>\<open>strncmp\<close> reads the name, so it may leave the buffer.\<close>

fun search_name_loop :: "cbuf \<Rightarrow> pmem \<Rightarrow> addr list \<Rightarrow> addr option" where
  "search_name_loop name m [] = Some NULL"
| "search_name_loop name m (p # ps) =
     (if p \<noteq> NULL then do {
        r \<leftarrow> strncmp name 0 (pname (m p)) 0 (of_nat TASK_NAMELEN);
        if r = 0 then Some p else search_name_loop name m ps
      } else search_name_loop name m ps)"

definition pcb_search_name :: "cbuf \<Rightarrow> 'd kstate \<Rightarrow> addr option" where
  "pcb_search_name name s = search_name_loop name (pcbs s) (take (free_pt s) (pcb_table s))"

definition alloc_pid :: "'d kstate \<Rightarrow> int" where
  "alloc_pid s =
     (case find (\<lambda>i. pcb_search i s = NULL) (map int [NCPU..<2 * UPROC_MAX + 1]) of None \<Rightarrow> INVALID_PID | Some i \<Rightarrow> i)"

definition alloc_tid :: "'d kstate \<Rightarrow> int" where
  "alloc_tid s =
     (case find (\<lambda>i. pcb_search_tcb i s = NULL) [1..TID_MAX] of None \<Rightarrow> INVALID_TID | Some i \<Rightarrow> i)"

section \<open>The table as a list\<close>

definition procs :: "'d kstate \<Rightarrow> addr list" where
  "procs s = filter (\<lambda>p. p \<noteq> NULL) (pcb_table s)"

definition tab_ok :: "'d kstate \<Rightarrow> bool" where
  "tab_ok s \<longleftrightarrow> length (pcb_table s) = 18 \<and> free_pt s \<le> 18 \<and> (\<forall>p \<in> set (drop (free_pt s) (pcb_table s)). p = NULL) \<and>
     proc_ymr s = int (length (procs s))"

lemma procs_take: "tab_ok s \<Longrightarrow> procs s = filter (\<lambda>p. p \<noteq> NULL) (take (free_pt s) (pcb_table s))"
proof -
  assume t: "tab_ok s"
  have "procs s = filter (\<lambda>p. p \<noteq> NULL) (take (free_pt s) (pcb_table s) @ drop (free_pt s) (pcb_table s))"
    by (simp add: procs_def)
  also have "\<dots> = filter (\<lambda>p. p \<noteq> NULL) (take (free_pt s) (pcb_table s))"
    using t unfolding filter_append by (simp add: tab_ok_def filter_empty_conv)
  finally show ?thesis .
qed

lemma rearrange_loop_spec:
  assumes "n \<le> length t" and "j \<le> i" and "i \<le> n"
  shows "\<exists>t'. rearrange_loop n i j t = Some (j + length (filter (\<lambda>p. p \<noteq> NULL) (take (n - i) (drop i t))), t') \<and> length t' = length t \<and>
    take (j + length (filter (\<lambda>p. p \<noteq> NULL) (take (n - i) (drop i t)))) t' =
      take j t @ filter (\<lambda>p. p \<noteq> NULL) (take (n - i) (drop i t))"
  using assms
proof (induction n i j t rule: rearrange_loop.induct)
  case (1 n i j t)
  show ?case
  proof (cases "i < n")
    case False
    then show ?thesis using 1(5) by (subst rearrange_loop.simps) simp
  next
    case True
    then have i: "i < length t" using 1(3) by simp
    have d: "take (n - i) (drop i t) = t ! i # take (n - Suc i) (drop (Suc i) t)"
      using True i by (simp add: Cons_nth_drop_Suc[symmetric] take_Cons' Suc_diff_Suc)
    show ?thesis
    proof (cases "t ! i = NULL")
      case True
      then show ?thesis using 1(2)[of "t ! i"] 1(3,4) \<open>i < n\<close> i unfolding d by (subst rearrange_loop.simps) simp
    next
      case False
      let ?t = "t[j := t ! i]"
      have j: "j < length t" using 1(4) i by simp
      have dd: "drop (Suc i) ?t = drop (Suc i) t" using 1(4) by simp
      have tk: "take (Suc j) ?t = take j t @ [t ! i]" using j by (simp add: take_Suc_conv_app_nth)
      have "Suc j \<le> Suc i" "Suc i \<le> n" using 1(4) True by simp_all
      then show ?thesis using 1(1)[of "t ! i" ?t] 1(3) \<open>i < n\<close> i j False unfolding d
        by (subst rearrange_loop.simps) (simp add: dd tk)
    qed
  qed
qed

lemma pcb_table_rearrange_spec:
  assumes "tab_ok s"
  shows "\<exists>t. pcb_table_rearrange s = Some (s\<lparr>free_pt := length (procs s), pcb_table := t\<rparr>) \<and> tab_ok (s\<lparr>free_pt := length (procs s), pcb_table := t\<rparr>) \<and>
    procs (s\<lparr>free_pt := length (procs s), pcb_table := t\<rparr>) = procs s"
proof -
  have l: "length (pcb_table s) = 18" "free_pt s \<le> 18" using assms by (simp_all add: tab_ok_def)
  obtain t where t: "rearrange_loop (free_pt s) 0 0 (pcb_table s) = Some (length (procs s), t)"
    "length t = 18" "take (length (procs s)) t = procs s"
    using rearrange_loop_spec[of "free_pt s" "pcb_table s" 0 0] l by (auto simp: procs_take[OF assms])
  have le: "length (procs s) \<le> 18" using l(1) length_filter_le[of _ "pcb_table s"] by (simp add: procs_def)
  have "filter (\<lambda>p. p \<noteq> NULL) (procs s) = procs s" by (simp add: procs_def)
  then show ?thesis using t assms le by (auto simp: pcb_table_rearrange_def tab_ok_def procs_def kconst)
qed

lemma find_takeWhile:
  "find Q xs = (let i = length (takeWhile (\<lambda>x. \<not> Q x) xs) in if i < length xs then Some (xs ! i) else None)"
  by (induction xs) (auto simp: Let_def)

lemma find_filter: "find (\<lambda>x. R x \<and> Q x) xs = find Q (filter R xs)"
  by (induction xs) auto

lemma table_search_spec:
  assumes "tab_ok s"
  shows "table_search P s = (case find (\<lambda>p. P (pcbs s p)) (procs s) of None \<Rightarrow> NULL | Some p \<Rightarrow> p)"
proof -
  let ?Q = "\<lambda>p. p \<noteq> NULL \<and> P (pcbs s p)"
  have "length (take (free_pt s) (pcb_table s)) = free_pt s" using assms by (simp add: tab_ok_def)
  then have "table_search P s = (case find ?Q (take (free_pt s) (pcb_table s)) of None \<Rightarrow> NULL | Some p \<Rightarrow> p)"
    unfolding table_search_def table_index_def find_takeWhile Let_def by auto
  then show ?thesis unfolding find_filter procs_take[OF assms] .
qed

lemma find_SomeD: "find P xs = Some x \<Longrightarrow> x \<in> set xs \<and> P x"
  by (auto simp: find_Some_iff)

lemma table_search_found:
  assumes "tab_ok s" and "table_search P s \<noteq> NULL"
  shows "table_search P s \<in> set (procs s) \<and> P (pcbs s (table_search P s))"
  using assms(2) unfolding table_search_spec[OF assms(1)]
  by (cases "find (\<lambda>p. P (pcbs s p)) (procs s)") (simp, simp, blast dest: find_SomeD)

lemma table_search_none:
  assumes "tab_ok s"
  shows "table_search P s = NULL \<longleftrightarrow> (\<forall>p \<in> set (procs s). \<not> P (pcbs s p))"
proof -
  have n: "NULL \<notin> set (procs s)" by (simp add: procs_def)
  show ?thesis
  proof (cases "find (\<lambda>p. P (pcbs s p)) (procs s)")
    case None
    then have "\<forall>p \<in> set (procs s). \<not> P (pcbs s p)" unfolding find_None_iff by blast
    then show ?thesis unfolding table_search_spec[OF assms] None by simp
  next
    case (Some p)
    show ?thesis using find_SomeD[OF Some] n unfolding table_search_spec[OF assms] Some by auto
  qed
qed

lemma length_procs: "tab_ok s \<Longrightarrow> length (procs s) \<le> 18"
  using length_filter_le[of _ "pcb_table s"] by (simp add: tab_ok_def procs_def)

lemma filter_upd_NULL:
  "i < length t \<Longrightarrow> (\<forall>j < i. t ! j \<noteq> t ! i) \<Longrightarrow> t ! i \<noteq> NULL \<Longrightarrow>
   filter (\<lambda>p. p \<noteq> NULL) (t[i := NULL]) = remove1 (t ! i) (filter (\<lambda>p. p \<noteq> NULL) t)" for t :: "addr list"
proof (induction t arbitrary: i)
  case (Cons x t)
  show ?case
  proof (cases i)
    case (Suc k)
    then have "\<forall>j < k. t ! j \<noteq> t ! k" using Cons(3) by auto
    moreover have "x \<noteq> t ! k" using Cons(3) Suc by auto
    ultimately show ?thesis using Cons(1)[of k] Cons(2,4) Suc by simp
  qed (use Cons(4) in simp)
qed simp

lemma table_add_free:
  assumes "tab_ok s" and "free_pt s < 18" and "p \<noteq> NULL"
  shows "tab_ok (s\<lparr>pcb_table := (pcb_table s)[free_pt s := p], free_pt := free_pt s + 1, proc_ymr := proc_ymr s + 1\<rparr>) \<and>
    filter (\<lambda>q. q \<noteq> NULL) ((pcb_table s)[free_pt s := p]) = procs s @ [p]"
proof -
  let ?t = "pcb_table s" and ?n = "free_pt s"
  have l: "length ?t = 18" "\<forall>q \<in> set (drop ?n ?t). q = NULL" using assms(1) by (simp_all add: tab_ok_def)
  have d: "?t[?n := p] = take ?n ?t @ p # drop (Suc ?n) ?t" using l(1) assms(2) by (simp add: upd_conv_take_nth_drop)
  have z: "\<forall>q \<in> set (drop (Suc ?n) ?t). q = NULL" using l(2) by (metis drop_Suc in_set_dropD drop_drop Suc_eq_plus1_left)
  have "filter (\<lambda>q. q \<noteq> NULL) (?t[?n := p]) = procs s @ [p]"
    using z assms(3) unfolding d by (simp add: procs_take[OF assms(1)] filter_empty_conv)
  moreover have "drop (Suc ?n) (?t[?n := p]) = drop (Suc ?n) ?t" by simp
  ultimately show ?thesis using assms l z by (simp add: tab_ok_def procs_def)
qed

text \<open>What a change of the table touches.\<close>

definition table_frame :: "'d kstate \<Rightarrow> 'd kstate \<Rightarrow> bool" where
  "table_frame s s' \<longleftrightarrow> s' = s\<lparr>pcb_table := pcb_table s', free_pt := free_pt s', proc_ymr := proc_ymr s'\<rparr>"

lemma pcb_table_add_room:
  assumes u: "tab_ok u" "free_pt u < 18" and p: "p \<noteq> NULL"
  shows "\<exists>r s'. pcb_table_add p u = Some (r, s') \<and> tab_ok s' \<and> table_frame u s' \<and> 0 \<le> r \<and> pcb_table s' ! nat r = p \<and> procs s' = procs u @ [p]"
proof -
  have "length (filter (\<lambda>p. p \<noteq> NULL) (take (free_pt u) (pcb_table u))) \<le> free_pt u"
    by (rule order.trans[OF length_filter_le]) simp
  then have "proc_ymr u < 18" "length (pcb_table u) = 18" using u procs_take[OF u(1)] by (simp_all add: tab_ok_def)
  then show ?thesis using table_add_free[OF u p] u(2) by (auto simp: pcb_table_add_def kconst procs_def table_frame_def)
qed

lemma pcb_table_add_spec [kspec]:
  assumes ok: "tab_ok s" and p: "p \<noteq> NULL"
  shows "\<exists>r s'. pcb_table_add p s = Some (r, s') \<and> tab_ok s' \<and> table_frame s s' \<and>
    (if length (procs s) < 18 then 0 \<le> r \<and> pcb_table s' ! nat r = p \<and> procs s' = procs s @ [p] else r = -1 \<and> s' = s)"
proof (cases "length (procs s) < 18")
  case full: False
  then show ?thesis using ok by (simp add: pcb_table_add_def kconst tab_ok_def table_frame_def)
next
  case True
  show ?thesis
  proof (cases "free_pt s < 18")
    case False
    obtain t u where u: "u = s\<lparr>free_pt := length (procs s), pcb_table := t\<rparr>" "pcb_table_rearrange s = Some u" "tab_ok u" "procs u = procs s"
      using pcb_table_rearrange_spec[OF ok] by blast
    have f: "proc_ymr s < 18" "free_pt u < 18" "proc_ymr u = proc_ymr s" using True ok by (simp_all add: tab_ok_def u(1))
    then have "pcb_table_add p s = pcb_table_add p u" using False u(2) by (simp add: pcb_table_add_def kconst)
    moreover have "table_frame u s' \<Longrightarrow> table_frame s s'" for s' by (simp add: table_frame_def u(1))
    ultimately show ?thesis using pcb_table_add_room[OF u(3) f(2) p] u(4) True by auto
  qed (use pcb_table_add_room[OF ok _ p] True in auto)
qed

lemma table_index_spec:
  assumes ok: "tab_ok s" and p: "p \<noteq> NULL"
  shows "table_index (\<lambda>q. q = p) s < free_pt s \<longleftrightarrow> p \<in> set (procs s)"
    "p \<in> set (procs s) \<Longrightarrow> pcb_table s ! table_index (\<lambda>q. q = p) s = p"
    "p \<in> set (procs s) \<Longrightarrow> j < table_index (\<lambda>q. q = p) s \<Longrightarrow> pcb_table s ! j \<noteq> p"
proof -
  let ?x = "take (free_pt s) (pcb_table s)" and ?i = "table_index (\<lambda>q. q = p) s"
  have lx: "length ?x = free_pt s" using ok by (simp add: tab_ok_def)
  have i: "?i = length (takeWhile (\<lambda>q. q \<noteq> p) ?x)" by (simp add: table_index_def)
  have "?i < free_pt s \<longleftrightarrow> find (\<lambda>q. q = p) ?x \<noteq> None" unfolding find_takeWhile i using lx by (simp add: Let_def)
  then show m: "?i < free_pt s \<longleftrightarrow> p \<in> set (procs s)" using p by (auto simp: find_None_iff procs_take[OF ok])
  assume "p \<in> set (procs s)"
  then have l: "?i < free_pt s" using m by simp
  show "pcb_table s ! ?i = p" using l lx nth_length_takeWhile[of "\<lambda>q. q \<noteq> p" ?x] unfolding i by auto
  show "pcb_table s ! j \<noteq> p" if "j < ?i"
    using l that takeWhile_nth[of j "\<lambda>q. q \<noteq> p" ?x] set_takeWhileD[OF nth_mem, of j "\<lambda>q. q \<noteq> p" ?x] unfolding i by force
qed

lemma pcb_table_del_spec [kspec]:
  assumes ok: "tab_ok s" and p: "p \<noteq> NULL"
  shows "\<exists>r s'. pcb_table_del p s = (r, s') \<and> tab_ok s' \<and> table_frame s s' \<and> procs s' = remove1 p (procs s) \<and>
    (if p \<in> set (procs s) then 0 \<le> r \<and> pcb_table s ! nat r = p else r = -1 \<and> s' = s)"
proof (cases "p \<in> set (procs s)")
  case False
  then show ?thesis using table_index_spec(1)[OF ok p] ok by (simp add: pcb_table_del_def Let_def remove1_idem table_frame_def)
next
  case True
  let ?i = "table_index (\<lambda>q. q = p) s"
  have i: "?i < free_pt s" "?i < length (pcb_table s)" using table_index_spec(1)[OF ok p] True ok by (auto simp: tab_ok_def)
  note at = table_index_spec(2)[OF ok p True] and nb = table_index_spec(3)[OF ok p True]
  let ?s = "s\<lparr>pcb_table := (pcb_table s)[?i := NULL], proc_ymr := proc_ymr s - 1\<rparr>"
  have pr: "procs ?s = remove1 p (procs s)"
    using filter_upd_NULL[OF i(2)] at nb p by (simp add: procs_def)
  have "drop (free_pt s) ((pcb_table s)[?i := NULL]) = drop (free_pt s) (pcb_table s)" using i(1) by simp
  moreover have "int (length (procs s)) - 1 = int (length (remove1 p (procs s)))"
    using True length_pos_if_in_set[of p "procs s"] by (simp add: length_remove1 of_nat_diff Suc_le_eq)
  ultimately have "tab_ok ?s" using ok unfolding tab_ok_def pr by simp
  moreover have "pcb_table_del p s = (int ?i, ?s)" using i(1) by (simp add: pcb_table_del_def Let_def)
  ultimately show ?thesis using True at pr by (simp add: table_frame_def)
qed

text \<open>
  C16: The process table refines a list of at most eighteen processes. Adding returns the index of the new
  entry and appends the process, after compacting the table when its end is reached, or refuses with -1 when eighteen
  are there. Deleting returns the index and removes the process, or answers -1 when it is not there. Searching by process
  identifier, or by thread identifier within the current process, finds the first process of the list that has it, or \<^verbatim>\<open>NULL\<close> when
  none has, and \<^verbatim>\<open>pcb_search_all\<close> finds all with the identifier in their order. The count is always the number of processes, nothing but the
  table changes, and the panic in the compaction is never reached.
\<close>
theorem pcb_table_refines:
  assumes "tab_ok s" and "p \<noteq> NULL"
  shows "(\<exists>r s'. pcb_table_add p s = Some (r, s') \<and> tab_ok s' \<and> table_frame s s' \<and>
      (if length (procs s) < 18 then 0 \<le> r \<and> pcb_table s' ! nat r = p \<and> procs s' = procs s @ [p] else r = -1 \<and> s' = s)) \<and>
    (\<exists>r s'. pcb_table_del p s = (r, s') \<and> tab_ok s' \<and> table_frame s s' \<and> procs s' = remove1 p (procs s) \<and>
      (if p \<in> set (procs s) then 0 \<le> r \<and> pcb_table s ! nat r = p else r = -1 \<and> s' = s)) \<and>
    pcb_search i s = (case find (\<lambda>q. pid (pcbs s q) = i) (procs s) of None \<Rightarrow> NULL | Some q \<Rightarrow> q) \<and>
    pcb_search_tcb t s = (case find (\<lambda>q. pid (pcbs s q) = pid (cur_pcb s) \<and> tid (pcbs s q) = t) (procs s) of None \<Rightarrow> NULL | Some q \<Rightarrow> q) \<and>
    pcb_search_all i s = filter (\<lambda>q. pid (pcbs s q) = i) (procs s) \<and>
    get_proc_num s = int (length (procs s))"
proof (intro conjI)
  show "pcb_search_all i s = filter (\<lambda>q. pid (pcbs s q) = i) (procs s)"
    by (simp add: pcb_search_all_def procs_take[OF assms(1)] conj_commute)
  show "get_proc_num s = int (length (procs s))" using assms(1) by (simp add: get_proc_num_def tab_ok_def)
qed (use pcb_table_add_spec[OF assms] pcb_table_del_spec[OF assms] in \<open>simp_all add: pcb_search_def pcb_search_tcb_def table_search_spec[OF assms(1)]\<close>)

text \<open>A table with three processes.\<close>

definition demo_ks :: "(nat \<Rightarrow> u8 list) kstate" where
  "demo_ks = \<lparr>pcbs = demo_pmem, heads = (\<lambda>q. if q = ReadyQ then 0x20 else if q = SleepQ then 0x50 else NULL), current_running = [0x20, 0x30], cpu_id = 0,
     pcb_table = [0x20, 0x30, 0x40] @ replicate 15 NULL, proc_ymr = 3, free_pt = 3, ticks = 100, time_base = 10, time_max_sec = 1000,
     mlocks = replicate 16 \<lparr>mslock = UNLOCKED, mstatus = UNLOCKED, mkey = 0, mopid = -1\<rparr>,
     semaphores = replicate 16 \<lparr>sslock = UNLOCKED, sopid = -1, svalue = 0\<rparr>,
     barriers = replicate 16 \<lparr>bslock = UNLOCKED, bopid = -1, goal = 0, come = 0\<rparr>,
     mailboxes = replicate 16 \<lparr>xslock = UNLOCKED, xopid = -1, xbuf = replicate 72 0, buf_head = 0, buf_tail = 0\<rparr>, fs = demo_fs,
     vm = demo_mm, trapframes = (\<lambda>_. \<lparr>tf_regs = replicate 32 0, tf_sstatus = 0, tf_sepc = 0, tf_sbadaddr = 0, tf_scause = 0\<rparr>),
     csr_sstatus = 0, pid_glush = 2, taskinfo = [], pf = \<lparr>pf_ymr = 0, last_stval = 0, last_pid = -1, last_time = 0\<rparr>, ret_from_exception = 0xffffffc050202000, addr_do_exit = 0xffffffc050203000\<rparr>"

lemma demo_tab_ok: "tab_ok demo_ks"
  by (simp add: tab_ok_def demo_ks_def procs_def)

theorem pcb_table_refines_witness:
  "(\<exists>r s'. pcb_table_add 0x50 demo_ks = Some (r, s') \<and> tab_ok s' \<and> procs s' = [0x20, 0x30, 0x40, 0x50]) \<and> pcb_search 3 demo_ks = 0x30"
proof -
  have p: "procs demo_ks = [0x20, 0x30, 0x40]" by (simp add: procs_def demo_ks_def)
  have "pid (pcbs demo_ks q) = int q div 16" for q by (simp add: demo_ks_def demo_pmem_def)
  then show ?thesis using pcb_table_refines[OF demo_tab_ok, of "0x50" 3 0] p by auto
qed

lemma pcb_search_NULL: "tab_ok s \<Longrightarrow> pcb_search i s = NULL \<longleftrightarrow> i \<notin> (\<lambda>p. pid (pcbs s p)) ` set (procs s)"
  by (auto simp: pcb_search_def table_search_none)

text \<open>
  A free process identifier is always found. The table holds at most eighteen processes and there are
  thirty-one identifiers from \<^verbatim>\<open>NCPU\<close> to \<^verbatim>\<open>2 * UPROC_MAX\<close>, so \<open>alloc_pid\<close> never answers \<^verbatim>\<open>INVALID_PID\<close> (the panic
  in \<^verbatim>\<open>create_proc\<close> is never reached): it answers the smallest identifier in that range that no process has.
\<close>
theorem alloc_pid_fresh:
  assumes "tab_ok s"
  shows "2 \<le> alloc_pid s \<and> alloc_pid s \<le> 32 \<and> (\<forall>p \<in> set (procs s). pid (pcbs s p) \<noteq> alloc_pid s) \<and>
    (\<forall>i. 2 \<le> i \<and> i < alloc_pid s \<longrightarrow> (\<exists>p \<in> set (procs s). pid (pcbs s p) = i))"
proof -
  let ?c = "map int [2..<33]" and ?used = "(\<lambda>p. pid (pcbs s p)) ` set (procs s)"
  have "card ?used \<le> 18"
    using card_image_le[of "set (procs s)"] card_length[of "procs s"] length_procs[OF assms] by (meson List.finite_set order.trans)
  moreover have "card (set ?c) = 31" by (simp add: card_image)
  ultimately have "\<not> set ?c \<subseteq> ?used" using card_mono[of ?used "set ?c"] by auto
  then obtain i where "i \<in> set ?c" "i \<notin> ?used" by blast
  then have ne: "find (\<lambda>i. pcb_search i s = NULL) ?c \<noteq> None"
    unfolding find_None_iff pcb_search_NULL[OF assms] by blast
  then obtain k where k: "find (\<lambda>i. pcb_search i s = NULL) ?c = Some k" by blast
  then have a: "alloc_pid s = k" by (simp add: alloc_pid_def kconst)
  obtain j where j: "j < length ?c" "k = ?c ! j" "pcb_search k s = NULL" "\<forall>l < j. pcb_search (?c ! l) s \<noteq> NULL"
    using k unfolding find_Some_iff by blast
  have jn: "k = int (2 + j)" "j < 31" using j(1,2) by (simp_all del: upt_rec_numeral)
  have "i \<in> ?used" if i: "2 \<le> i" "i < k" for i
  proof -
    let ?l = "nat i - 2"
    have l: "?l < j" "i = ?c ! ?l" using i jn by (simp_all del: upt_rec_numeral)
    then show ?thesis using j(4)[rule_format, OF l(1)] unfolding l(2)[symmetric] pcb_search_NULL[OF assms] by simp
  qed
  then have "\<forall>i. 2 \<le> i \<and> i < k \<longrightarrow> (\<exists>p \<in> set (procs s). pid (pcbs s p) = i)" by blast
  moreover have "\<forall>p \<in> set (procs s). pid (pcbs s p) \<noteq> k" using j(3) unfolding pcb_search_NULL[OF assms] by blast
  ultimately show ?thesis using jn unfolding a by simp
qed

theorem alloc_pid_fresh_witness: "alloc_pid demo_ks = 5"
proof -
  have "set (procs demo_ks) = {0x20, 0x30, 0x40}" by (simp add: procs_def demo_ks_def)
  moreover have "pid (pcbs demo_ks p) = int p div 16" for p by (simp add: demo_ks_def demo_pmem_def)
  ultimately have f: "2 \<le> alloc_pid demo_ks" "alloc_pid demo_ks \<noteq> 2" "alloc_pid demo_ks \<noteq> 3" "alloc_pid demo_ks \<noteq> 4"
    "\<forall>i. 2 \<le> i \<and> i < alloc_pid demo_ks \<longrightarrow> i = 2 \<or> i = 3 \<or> i = 4"
    using alloc_pid_fresh[OF demo_tab_ok] by auto
  then show ?thesis using f(5)[rule_format, of 5] by linarith
qed

end
