(* ===== verification/Sched.thy ===== *)
theory Sched
  imports PcbTable
begin

text \<open>
  Blocking, waking and sleeping (\<^verbatim>\<open>kernel/sched/sched.c\<close>, parts of \<^verbatim>\<open>sched-thread.c\<close> and \<^verbatim>\<open>time.c\<close>).

  \<open>qs_ok m hs Q\<close>: the list with head \<open>hs q\<close> is \<open>Q q\<close> for every queue, no PCB is in two queues, and each knows its
  own. \<open>kq_ok\<close> adds what the kernel relies on: the running process is in the ready queue and all processes in the
  other queues sleep. Blocking, waking one and waking all move PCBs between the lists \<open>Q\<close> and keep this.
\<close>

section \<open>Operations\<close>

definition get_timer :: "'d kstate \<Rightarrow> u64" where
  "get_timer s = ticks s div time_base s"

definition set_status :: "addr \<Rightarrow> task_status \<Rightarrow> 'd kstate \<Rightarrow> 'd kstate" where
  "set_status p st = upd_pcb p (\<lambda>c. c\<lparr>status := st\<rparr>)"

definition set_queue :: "qref \<Rightarrow> addr \<Rightarrow> pmem \<Rightarrow> 'd kstate \<Rightarrow> 'd kstate" where
  "set_queue q h m s = (set_head q h s)\<lparr>pcbs := m\<rparr>"

text \<open>A process that the executing CPU may run.\<close>

definition can_run :: "nat \<Rightarrow> pcb \<Rightarrow> bool" where
  "can_run cpu c \<longleftrightarrow> status c = TASK_READY \<and> cpu_mask c AND push_bit cpu 1 \<noteq> 0"

text \<open>\<^verbatim>\<open>do_block\<close> up to \<^verbatim>\<open>switch_to\<close>, and the rest, when the process runs again.\<close>

definition do_block :: "qref \<Rightarrow> sref option \<Rightarrow> 'd kstate \<Rightarrow> 'd kstate option" where
  "do_block q slock s = do {
     let c = cur_cpu s;
     p \<leftarrow> lpcb_search_loop (pcbs s) (can_run (cpu_id s)) c (pnext (pcbs s c));
     if p = NULL then None
     else do {
       let s1 = set_status p TASK_RUNNING (s\<lparr>current_running := (current_running s)[cpu_id s := p]\<rparr>);
       (h, d, m) \<leftarrow> lpcb_del_node (heads s1 ReadyQ) c (pcbs s1);
       if d \<noteq> c then None
       else do {
         let s2 = set_status d TASK_SLEEPING (set_queue ReadyQ h m s1);
         (t, m2) \<leftarrow> lpcb_insert_node (heads s2 q) d NULL q (pcbs s2);
         if t = NULL then None
         else (case slock of None \<Rightarrow> Some (set_queue q t m2 s2) | Some r \<Rightarrow> slock_release r (set_queue q t m2 s2))
       }
     }
   }"

definition do_block_resume :: "sref option \<Rightarrow> 'd kstate \<Rightarrow> 'd kstate option" where
  "do_block_resume slock s = (case slock of None \<Rightarrow> Some s | Some r \<Rightarrow> slock_acquire r s)"

definition do_unblock :: "addr \<Rightarrow> 'd kstate \<Rightarrow> (addr \<times> 'd kstate) option" where
  "do_unblock Queue s = do {
     (nq, prec, m) \<leftarrow> lpcb_del_node Queue Queue (pcbs s);
     if prec = NULL then None
     else if status (m prec) \<noteq> TASK_SLEEPING then None
     else do {
       let s1 = set_status prec TASK_READY (s\<lparr>pcbs := m\<rparr>);
       (temp, m2) \<leftarrow> lpcb_insert_node (heads s1 ReadyQ) prec (cur_cpu s1) ReadyQ (pcbs s1);
       if temp = NULL then None else Some (nq, set_queue ReadyQ temp m2 s1)
     }
   }"

text \<open>The assignment \<^verbatim>\<open>queue = do_unblock(queue)\<close>, and the loop over it.\<close>

definition unblock_head :: "qref \<Rightarrow> 'd kstate \<Rightarrow> 'd kstate option" where
  "unblock_head q s = do { (nq, s1) \<leftarrow> do_unblock (heads s q) s; Some (set_head q nq s1) }"

partial_function (option) unblock_all :: "qref \<Rightarrow> 'd kstate \<Rightarrow> 'd kstate option" where
  "unblock_all q s = (if heads s q = NULL then Some s else do { s1 \<leftarrow> unblock_head q s; unblock_all q s1 })"

definition wake_up :: "addr \<Rightarrow> 'd kstate \<Rightarrow> 'd kstate option" where
  "wake_up T s =
     (if status (pcbs s T) \<noteq> TASK_SLEEPING then None
      else do {
        (h, pw, m) \<leftarrow> lpcb_del_node (heads s SleepQ) T (pcbs s);
        let s1 = set_queue SleepQ h m s;
        if pw \<noteq> T then None
        else do {
          let s2 = set_status pw TASK_READY s1;
          (r, m2) \<leftarrow> lpcb_insert_node (heads s2 ReadyQ) pw (cur_cpu s2) ReadyQ (pcbs s2);
          let s3 = set_queue ReadyQ r m2 s2;
          if r = NULL then None
          else if cur_cpu s3 = NULL then Some (s3\<lparr>current_running := (current_running s3)[cpu_id s3 := r]\<rparr>)
          else Some s3
        }
      })"

text \<open>The body of the \<^verbatim>\<open>do\<close> loop at \<^verbatim>\<open>pw\<close>, and the iterations after it.\<close>

partial_function (option) check_sleeping_loop :: "u64 \<Rightarrow> addr \<Rightarrow> 'd kstate \<Rightarrow> 'd kstate option" where
  "check_sleeping_loop time_now pw s =
     (if status (pcbs s pw) \<noteq> TASK_SLEEPING then None
      else do {
        let temp_next = pnext (pcbs s pw);
        let temp_sleep = heads s SleepQ;
        s1 \<leftarrow> (if time_now \<ge> wakeup_time (pcbs s pw) then wake_up pw s else Some s);
        if heads s1 SleepQ = NULL \<and> temp_next \<noteq> temp_sleep then None
        else if temp_next \<noteq> temp_sleep then check_sleeping_loop time_now temp_next s1
        else Some s1
      })"

definition check_sleeping :: "'d kstate \<Rightarrow> 'd kstate option" where
  "check_sleeping s = (if heads s SleepQ = NULL then Some s else check_sleeping_loop (get_timer s) (heads s SleepQ) s)"

definition do_sleep :: "u32 \<Rightarrow> 'd kstate \<Rightarrow> 'd kstate option" where
  "do_sleep sleep_time s =
     (let t = get_timer s + ucast sleep_time; w = (if t > time_max_sec s then time_max_sec s else t) in
      do_block SleepQ None (upd_pcb (cur_cpu s) (\<lambda>c. c\<lparr>status := TASK_SLEEPING, wakeup_time := w\<rparr>) s))"

definition do_waitpid :: "int \<Rightarrow> 'd kstate \<Rightarrow> (int outcome \<times> 'd kstate) option" where
  "do_waitpid i s =
     (let p = pcb_search i s in
      if p = NULL then Some (Done INVALID_PID, s)
      else if i = pid (cur_pcb s) then Some (Done INVALID_PID, s)
      else do {
        w \<leftarrow> lpcb_search_node (heads s (WaitQ (cur_cpu s))) i (pcbs s);
        if w \<noteq> NULL then Some (Done INVALID_PID, s)
        else do { s1 \<leftarrow> do_block (WaitQ p) None s; Some (Blocked, s1) }
      })"

definition do_getpid :: "'d kstate \<Rightarrow> int" where
  "do_getpid s = pid (cur_pcb s)"

definition do_thread_wait :: "int \<Rightarrow> 'd kstate \<Rightarrow> (int outcome \<times> 'd kstate) option" where
  "do_thread_wait t s =
     (if t = 0 \<or> t = tid (cur_pcb s) then Some (Done 1, s)
      else (let p = pcb_search_tcb t s in
        if p = NULL then Some (Done 2, s)
        else do { s1 \<leftarrow> do_block (WaitQ p) None s; Some (Blocked, s1) }))"

text \<open>The branch of \<^verbatim>\<open>do_taskset\<close> for an existing process.\<close>

definition taskset_pid :: "int \<Rightarrow> u32 \<Rightarrow> 'd kstate \<Rightarrow> int \<times> 'd kstate" where
  "taskset_pid i msk s =
     (if i < int NCPU then (INVALID_PID, s)
      else (let ps = pcb_search_all i s in
        if ps = [] then (INVALID_PID, s) else (i, fold (\<lambda>p. upd_pcb p (\<lambda>c. c\<lparr>cpu_mask := msk\<rparr>)) ps s)))"

definition do_process_show :: "'d kstate \<Rightarrow> int option" where
  "do_process_show s =
     (let n = int (length (filter (\<lambda>p. p \<noteq> NULL \<and> pid (pcbs s p) \<ge> int NCPU) (pcb_table s))) in
      if n + int NCPU \<noteq> get_proc_num s then None else Some n)"

definition thread_kill :: "addr \<Rightarrow> 'd kstate \<Rightarrow> 'd kstate option" where
  "thread_kill p s =
     (if status (pcbs s p) = TASK_RUNNING then None
      else do {
        let q = phead (pcbs s p);
        r \<leftarrow> lpcb_search_node_tcb (heads s q) (pid (pcbs s p)) (tid (pcbs s p)) (pcbs s);
        if r \<noteq> p then None
        else do {
          s1 \<leftarrow> unblock_all (WaitQ p) s;
          h1 \<leftarrow> kfree_g (kernel_stack (pcbs s1 p)) (kh (fs s1));
          (h, pdel, m) \<leftarrow> lpcb_del_node (heads s1 q) p (pcbs s1);
          let s2 = (set_queue q h m s1)\<lparr>fs := (fs s1)\<lparr>kh := h1\<rparr>\<rparr>;
          if pdel = NULL then None
          else do {
            let i = cur_ino (pfiles (pcbs s2 p));
            f1 \<leftarrow> close_all_files (fds (pfiles (pcbs s2 p))) (fs s2);
            h2 \<leftarrow> kfree_g pdel (kh f1);
            let (rt, s3) = pcb_table_del pdel (s2\<lparr>fs := f1\<lparr>kh := h2\<rparr>\<rparr>);
            if rt < 0 then None
            else do { (_, f2) \<leftarrow> flist_dec_fnode i False (fs s3); Some (s3\<lparr>fs := f2\<rparr>) }
          }
        }
      })"

section \<open>Queues\<close>

definition qs_ok :: "pmem \<Rightarrow> (qref \<Rightarrow> addr) \<Rightarrow> (qref \<Rightarrow> addr list) \<Rightarrow> bool" where
  "qs_ok m hs Q \<longleftrightarrow> (\<forall>q. ring m (hs q) (Q q)) \<and> (\<forall>q q'. q \<noteq> q' \<longrightarrow> set (Q q) \<inter> set (Q q') = {}) \<and>
     (\<forall>q. \<forall>p \<in> set (Q q). phead (m p) = q)"

definition kq_ok :: "'d kstate \<Rightarrow> (qref \<Rightarrow> addr list) \<Rightarrow> bool" where
  "kq_ok s Q \<longleftrightarrow> qs_ok (pcbs s) (heads s) Q \<and> (\<forall>q. q \<noteq> ReadyQ \<longrightarrow> (\<forall>p \<in> set (Q q). status (pcbs s p) = TASK_SLEEPING)) \<and>
     cpu_id s < length (current_running s) \<and> cur_cpu s \<in> set (Q ReadyQ)"

text \<open>The same PCB except for its place in a queue and its status.\<close>

definition same_pcb :: "pcb \<Rightarrow> pcb \<Rightarrow> bool" where
  "same_pcb c d \<longleftrightarrow> c = d\<lparr>pnext := pnext c, phead := phead c, status := status c\<rparr>"

lemma same_pcb_refl [simp]: "same_pcb c c"
  by (simp add: same_pcb_def)

lemma same_pcb_trans [trans]: "same_pcb c d \<Longrightarrow> same_pcb d e \<Longrightarrow> same_pcb c e"
  unfolding same_pcb_def by (cases c; cases d; cases e) simp

lemma same_pcb_fields:
  assumes "same_pcb c d"
  shows "pid c = pid d" "tid c = tid d" "wakeup_time c = wakeup_time d" "req_len c = req_len d" "cpu_mask c = cpu_mask d"
    "kernel_stack c = kernel_stack d" "pname c = pname d" "pfiles c = pfiles d"
  by (subst assms[unfolded same_pcb_def], simp)+

lemma ring_distinct: "ring m h ps \<Longrightarrow> distinct ps \<and> NULL \<notin> set ps"
  by (simp add: ring_def)

lemma qs_okD:
  assumes "qs_ok m hs Q"
  shows "ring m (hs q) (Q q)" "q \<noteq> q' \<Longrightarrow> p \<in> set (Q q) \<Longrightarrow> p \<notin> set (Q q')" "p \<in> set (Q q) \<Longrightarrow> phead (m p) = q"
    "p \<in> set (Q q) \<Longrightarrow> p \<noteq> NULL" "distinct (Q q)" "hs q = NULL \<longleftrightarrow> Q q = []"
proof -
  show r: "ring m (hs q) (Q q)" using assms by (simp add: qs_ok_def)
  show "q \<noteq> q' \<Longrightarrow> p \<in> set (Q q) \<Longrightarrow> p \<notin> set (Q q')" "p \<in> set (Q q) \<Longrightarrow> phead (m p) = q"
    using assms by (auto simp: qs_ok_def)
  show "p \<in> set (Q q) \<Longrightarrow> p \<noteq> NULL" "distinct (Q q)" using ring_distinct[OF r] by metis+
  show "hs q = NULL \<longleftrightarrow> Q q = []" by (rule ring_NULL[OF r])
qed

text \<open>A PCB leaves one queue and enters another, behind \<open>c\<close> or at the tail, with a new status.\<close>

definition moved :: "qref \<Rightarrow> addr \<Rightarrow> qref \<Rightarrow> addr \<Rightarrow> (qref \<Rightarrow> addr list) \<Rightarrow> qref \<Rightarrow> addr list" where
  "moved q1 p q2 c Q = Q(q1 := remove1 p (Q q1), q2 := if c = NULL then Q q2 @ [p] else insert_after c p (Q q2))"

lemma ring_status: "ring (m(p := (m p)\<lparr>status := st\<rparr>)) h ps = ring m h ps"
  by (rule ring_cong) auto

lemma qs_move:
  assumes qs: "qs_ok m hs Q" and p: "p \<in> set (Q q1)" and ne: "q1 \<noteq> q2" and c: "c = NULL \<or> c \<in> set (Q q2)"
  shows "\<exists>h1 m1. lpcb_del_node (hs q1) p m = Some (h1, p, m1) \<and> status (m1 p) = status (m p) \<and>
    (\<forall>st. \<exists>h2 m2. lpcb_insert_node (hs q2) p c q2 (m1(p := (m1 p)\<lparr>status := st\<rparr>)) = Some (h2, m2) \<and> h2 \<noteq> NULL \<and>
      qs_ok m2 (hs(q1 := h1, q2 := h2)) (moved q1 p q2 c Q) \<and>
      (\<forall>x. same_pcb (m2 x) (m x) \<and> status (m2 x) = (if x = p then st else status (m x))))"
proof -
  note d = qs_okD[OF qs]
  obtain h1 m1 where d1: "lpcb_del_node (hs q1) p m = Some (h1, p, m1)" "ring m1 h1 (remove1 p (Q q1))"
    "\<forall>x. m1 x = (m x)\<lparr>pnext := pnext (m1 x)\<rparr>" "\<forall>x. x \<notin> set (remove1 p (Q q1)) \<longrightarrow> m1 x = m x"
    using lpcb_del_list[OF d(1), of p q1] p by auto
  have pr: "p \<notin> set (remove1 p (Q q1))" using d(5)[of q1] by simp
  then have m1p: "m1 p = m p" using d1(4) by blast
  have p2: "p \<notin> set (Q q)" if "q \<noteq> q1" for q using d(2)[OF that[symmetric] p] .
  have oth1: "m1 x = m x" if "q \<noteq> q1" "x \<in> set (Q q)" for x q
    using d1(4) d(2)[OF that] set_remove1_subset[of p "Q q1"] by blast
  have "\<exists>h2 m2. lpcb_insert_node (hs q2) p c q2 (m1(p := (m1 p)\<lparr>status := st\<rparr>)) = Some (h2, m2) \<and> h2 \<noteq> NULL \<and>
      qs_ok m2 (hs(q1 := h1, q2 := h2)) (moved q1 p q2 c Q) \<and>
      (\<forall>x. same_pcb (m2 x) (m x) \<and> status (m2 x) = (if x = p then st else status (m x)))" for st
  proof -
    let ?m = "m1(p := (m1 p)\<lparr>status := st\<rparr>)" and ?q2 = "if c = NULL then Q q2 @ [p] else insert_after c p (Q q2)"
    have r2: "ring ?m (hs q2) (Q q2)" unfolding ring_status
      using ring_cong[of "Q q2" m1 m] oth1[of q2] ne d(1)[of q2] by simp
    have cm: "\<not> (c \<noteq> NULL \<and> c \<notin> set (Q q2))" using c by blast
    obtain h2 m2 where i: "lpcb_insert_node (hs q2) p c q2 ?m = Some (h2, m2)" "ring m2 h2 ?q2"
      "\<forall>x. m2 x = (?m x)\<lparr>pnext := pnext (m2 x), phead := if x = p then q2 else phead (?m x)\<rparr>"
      "\<forall>x. x \<notin> set (Q q2) \<longrightarrow> x \<noteq> p \<longrightarrow> m2 x = ?m x"
      using lpcb_insert_list[OF r2 d(4)[OF p] p2, of c q2] ne unfolding if_not_P[OF cm] by blast
    have q2: "set ?q2 = insert p (set (Q q2))" "?q2 \<noteq> []" using c p2[of q2] ne by (auto simp: set_insert_after)
    have upd: "m2 x = (m x)\<lparr>pnext := pnext (m2 x), phead := if x = p then q2 else phead (m x), status := if x = p then st else status (m x)\<rparr>" for x
    proof -
      obtain j k where a: "m2 x = (?m x)\<lparr>pnext := k, phead := if x = p then q2 else phead (?m x)\<rparr>" "m1 x = (m x)\<lparr>pnext := j\<rparr>"
        using i(3) d1(3) by metis
      show ?thesis unfolding a(1) using a(2) by (cases "x = p") simp_all
    qed
    have f: "phead (m2 x) = (if x = p then q2 else phead (m x))" "status (m2 x) = (if x = p then st else status (m x))"
      "same_pcb (m2 x) (m x)" for x
    proof -
      show "phead (m2 x) = (if x = p then q2 else phead (m x))" "status (m2 x) = (if x = p then st else status (m x))"
        by (subst upd, simp)+
      show "same_pcb (m2 x) (m x)" unfolding same_pcb_def by (subst (1 2 3 4) upd) simp
    qed
    let ?Q = "moved q1 p q2 c Q" and ?h = "hs(q1 := h1, q2 := h2)"
    have Q: "set (?Q q) = (if q = q2 then insert p (set (Q q2)) else if q = q1 then set (Q q1) - {p} else set (Q q))" for q
      using q2 ne d(5)[of q1] by (simp add: moved_def)
    have "ring m2 (?h q) (?Q q)" for q
    proof -
      consider "q = q2" | "q = q1" | "q \<noteq> q1" "q \<noteq> q2" by blast
      then show ?thesis
      proof cases
        case 1
        then show ?thesis using i(2) by (simp add: moved_def)
      next
        case 2
        have "m2 x = m1 x" if "x \<in> set (remove1 p (Q q1))" for x
          using that pr d(2)[OF ne, of x] set_remove1_subset[of p "Q q1"] i(4) by (metis fun_upd_other subsetD)
        then show ?thesis using 2 ne d1(2) ring_cong[of "remove1 p (Q q1)" m2 m1 h1] by (simp add: moved_def)
      next
        case 3
        have "m2 x = m x" if x: "x \<in> set (Q q)" for x
        proof -
          have "x \<noteq> p" "x \<notin> set (Q q2)" using x p2[OF 3(1)] d(2)[OF 3(2)] by auto
          then show ?thesis using i(4) oth1[OF 3(1) x] by simp
        qed
        then show ?thesis using 3 d(1)[of q] ring_cong[of "Q q" m2 m "hs q"] by (simp add: moved_def)
      qed
    qed
    moreover have "set (?Q q) \<inter> set (?Q q') = {}" if "q \<noteq> q'" for q q'
      using that p2 d(2) unfolding Q by auto
    moreover have "phead (m2 x) = q" if "x \<in> set (?Q q)" for q x
      using that p2 d(3) ne unfolding Q f(1) by (auto split: if_splits)
    ultimately have "qs_ok m2 ?h ?Q" unfolding qs_ok_def by blast
    moreover have "h2 \<noteq> NULL" using ring_NULL[OF i(2)] q2(2) by blast
    ultimately show ?thesis using i(1) f by blast
  qed
  then show ?thesis using d1(1) m1p by auto
qed

section \<open>Waking\<close>

text \<open>Only queues and the processes in \<open>P\<close>, which have become ready, differ.\<close>

definition woke :: "addr set \<Rightarrow> 'd kstate \<Rightarrow> 'd kstate \<Rightarrow> bool" where
  "woke P s s' \<longleftrightarrow> s' = s\<lparr>pcbs := pcbs s', heads := heads s'\<rparr> \<and>
     (\<forall>x. same_pcb (pcbs s' x) (pcbs s x) \<and> status (pcbs s' x) = (if x \<in> P then TASK_READY else status (pcbs s x)))"

lemma wokeD:
  assumes "woke P s s'"
  shows "s' = s\<lparr>pcbs := pcbs s', heads := heads s'\<rparr>" "same_pcb (pcbs s' x) (pcbs s x)"
    "status (pcbs s' x) = (if x \<in> P then TASK_READY else status (pcbs s x))"
  using assms by (simp_all only: woke_def)

lemma woke_fields:
  assumes "woke P s s'"
  shows "current_running s' = current_running s" "cpu_id s' = cpu_id s" "cur_cpu s' = cur_cpu s" "pcb_table s' = pcb_table s"
    "proc_ymr s' = proc_ymr s" "free_pt s' = free_pt s" "ticks s' = ticks s" "time_base s' = time_base s"
    "time_max_sec s' = time_max_sec s" "mlocks s' = mlocks s" "semaphores s' = semaphores s" "barriers s' = barriers s"
    "mailboxes s' = mailboxes s" "fs s' = fs s"
  unfolding cur_cpu_def by (subst wokeD(1)[OF assms], simp)+

lemma woke_refl: "woke {} s s"
  by (simp add: woke_def)

lemma woke_trans:
  assumes "woke A s s'" and "woke B s' s''"
  shows "woke (A \<union> B) s s''"
proof -
  have "s'' = s\<lparr>pcbs := pcbs s'', heads := heads s''\<rparr>"
    by (subst wokeD(1)[OF assms(2)], subst wokeD(1)[OF assms(1)]) simp
  then show ?thesis
    using same_pcb_trans[OF wokeD(2)[OF assms(2)] wokeD(2)[OF assms(1)]] wokeD(3)[OF assms(1)] wokeD(3)[OF assms(2)]
    unfolding woke_def by simp
qed

lemma kq_okD:
  assumes "kq_ok s Q"
  shows "qs_ok (pcbs s) (heads s) Q" "cur_cpu s \<in> set (Q ReadyQ)" "cur_cpu s \<noteq> NULL"
    "q \<noteq> ReadyQ \<Longrightarrow> p \<in> set (Q q) \<Longrightarrow> status (pcbs s p) = TASK_SLEEPING"
proof -
  show a: "qs_ok (pcbs s) (heads s) Q" "cur_cpu s \<in> set (Q ReadyQ)" using assms by (simp_all add: kq_ok_def)
  show "cur_cpu s \<noteq> NULL" by (rule qs_okD(4)[OF a])
  show "q \<noteq> ReadyQ \<Longrightarrow> p \<in> set (Q q) \<Longrightarrow> status (pcbs s p) = TASK_SLEEPING" using assms by (simp add: kq_ok_def)
qed

lemma set_moved:
  assumes "qs_ok m hs Q" and "q1 \<noteq> q2" and "c = NULL \<or> c \<in> set (Q q2)"
  shows "set (moved q1 p q2 c Q q) = (if q = q2 then insert p (set (Q q2)) else if q = q1 then set (Q q1) - {p} else set (Q q))"
  using assms(2,3) qs_okD(5)[OF assms(1), of q1] by (auto simp: moved_def set_insert_after)

text \<open>A woken process keeps the invariant.\<close>

lemma kq_ok_woken:
  assumes k: "kq_ok s Q" and q: "q \<noteq> ReadyQ" and p: "p \<in> set (Q q)" and w: "woke {p} s s'"
    and qs: "qs_ok (pcbs s') (heads s') (moved q p ReadyQ (cur_cpu s) Q)"
  shows "kq_ok s' (moved q p ReadyQ (cur_cpu s) Q)"
proof -
  note d = kq_okD[OF k]
  have st: "set (moved q p ReadyQ (cur_cpu s) Q q') =
      (if q' = ReadyQ then insert p (set (Q ReadyQ)) else if q' = q then set (Q q) - {p} else set (Q q'))" for q'
    by (rule set_moved[OF d(1) q]) (use d(2) in simp)
  have "p \<notin> set (Q q')" if "q' \<noteq> q" for q' using qs_okD(2)[OF d(1) that[symmetric] p] .
  then have "status (pcbs s' x) = TASK_SLEEPING" if "q' \<noteq> ReadyQ" "x \<in> set (moved q p ReadyQ (cur_cpu s) Q q')" for q' x
    using that d(4) wokeD(3)[OF w, of x] unfolding st by (auto split: if_splits)
  moreover have "cur_cpu s' \<in> set (moved q p ReadyQ (cur_cpu s) Q ReadyQ)" using d(2) unfolding st by (simp add: woke_fields[OF w])
  moreover have "cpu_id s' < length (current_running s')" using k by (simp add: woke_fields[OF w] kq_ok_def)
  ultimately show ?thesis using qs unfolding kq_ok_def by blast
qed

lemma unblock_head_spec [kspec]:
  assumes k: "kq_ok s Q" and q: "q \<noteq> ReadyQ" and p: "Q q = p # ps"
  shows "\<exists>s'. unblock_head q s = Some s' \<and> kq_ok s' (moved q p ReadyQ (cur_cpu s) Q) \<and> woke {p} s s'"
proof -
  note d = kq_okD[OF k]
  have pin: "p \<in> set (Q q)" using p by simp
  have hd: "heads s q = p" using qs_okD(1)[OF d(1), of q] p by (simp add: ring_def)
  obtain h1 m1 where m1: "lpcb_del_node p p (pcbs s) = Some (h1, p, m1)" "status (m1 p) = TASK_SLEEPING"
    "\<And>st. \<exists>h2 m2. lpcb_insert_node (heads s ReadyQ) p (cur_cpu s) ReadyQ (m1(p := (m1 p)\<lparr>status := st\<rparr>)) = Some (h2, m2) \<and> h2 \<noteq> NULL \<and>
      qs_ok m2 ((heads s)(q := h1, ReadyQ := h2)) (moved q p ReadyQ (cur_cpu s) Q) \<and>
      (\<forall>x. same_pcb (m2 x) (pcbs s x) \<and> status (m2 x) = (if x = p then st else status (pcbs s x)))"
    using qs_move[OF d(1) pin q, of "cur_cpu s"] d(2) d(4)[OF q pin] unfolding hd by metis
  obtain h2 m2 where m2: "lpcb_insert_node (heads s ReadyQ) p (cur_cpu s) ReadyQ (m1(p := (m1 p)\<lparr>status := TASK_READY\<rparr>)) = Some (h2, m2)"
    "h2 \<noteq> NULL" "qs_ok m2 ((heads s)(q := h1, ReadyQ := h2)) (moved q p ReadyQ (cur_cpu s) Q)"
    "\<forall>x. same_pcb (m2 x) (pcbs s x) \<and> status (m2 x) = (if x = p then TASK_READY else status (pcbs s x))"
    using m1(3)[of TASK_READY] by blast
  let ?s = "s\<lparr>pcbs := m2, heads := (heads s)(q := h1, ReadyQ := h2)\<rparr>"
  have "p \<noteq> NULL" by (rule qs_okD(4)[OF d(1) pin])
  then have "unblock_head q s = Some ?s"
    using m1(1,2) m2(1,2) q hd
    by (simp add: unblock_head_def do_unblock_def set_status_def upd_pcb_def set_queue_def set_head_def cur_cpu_def fun_upd_twist)
  moreover have w: "woke {p} s ?s" using m2(4) by (simp add: woke_def)
  ultimately show ?thesis using kq_ok_woken[OF k q pin w] m2(3) by auto
qed

text \<open>What the objects of the kernel use of the queues: waking the first process, and waking all.\<close>

definition all_woken :: "addr \<Rightarrow> qref \<Rightarrow> (qref \<Rightarrow> addr list) \<Rightarrow> qref \<Rightarrow> addr list" where
  "all_woken c q Q = Q(q := [], ReadyQ := fold (insert_after c) (Q q) (Q ReadyQ))"

locale wait_queues =
  fixes ok :: "'s \<Rightarrow> (qref \<Rightarrow> addr list) \<Rightarrow> bool"
    and running :: "'s \<Rightarrow> addr"
    and is_empty :: "qref \<Rightarrow> 's \<Rightarrow> bool"
    and wake :: "qref \<Rightarrow> 's \<Rightarrow> 's option"
    and wake_all :: "qref \<Rightarrow> 's \<Rightarrow> 's option"
    and awake :: "addr set \<Rightarrow> 's \<Rightarrow> 's \<Rightarrow> bool"
  assumes empty_iff: "ok s Q \<Longrightarrow> is_empty q s \<longleftrightarrow> Q q = []"
    and running_there: "ok s Q \<Longrightarrow> running s \<noteq> NULL"
    and wake_first: "ok s Q \<Longrightarrow> q \<noteq> ReadyQ \<Longrightarrow> Q q = p # ps \<Longrightarrow>
      \<exists>s'. wake q s = Some s' \<and> ok s' (moved q p ReadyQ (running s) Q) \<and> awake {p} s s'"
    and wake_all_step: "wake_all q s = (if is_empty q s then Some s else do { s1 \<leftarrow> wake q s; wake_all q s1 })"
    and awake_refl: "awake {} s s"
    and awake_trans: "awake A s s' \<Longrightarrow> awake B s' s'' \<Longrightarrow> awake (A \<union> B) s s''"
    and awake_running: "awake A s s' \<Longrightarrow> running s' = running s"
begin

lemma wake_all_empties:
  assumes "ok s Q" and "q \<noteq> ReadyQ"
  shows "\<exists>s'. wake_all q s = Some s' \<and> ok s' (all_woken (running s) q Q) \<and> awake (set (Q q)) s s'"
  using assms
proof (induction "Q q" arbitrary: s Q)
  case Nil
  then have "all_woken (running s) q Q = Q" by (auto simp: all_woken_def fun_eq_iff)
  then show ?case using Nil empty_iff[of s Q q] by (subst wake_all_step) (simp add: awake_refl)
next
  case (Cons p ps)
  let ?Q = "moved q p ReadyQ (running s) Q"
  obtain s1 where s1: "wake q s = Some s1" "ok s1 ?Q" "awake {p} s s1"
    using wake_first[OF Cons(3,4), of p ps] Cons(2) by auto
  have q: "?Q q = ps" using Cons(2,4) by (simp add: moved_def flip: Cons(2))
  obtain s2 where s2: "wake_all q s1 = Some s2" "ok s2 (all_woken (running s1) q ?Q)" "awake (set (?Q q)) s1 s2"
    using Cons(1)[OF q[symmetric] s1(2) Cons(4)] by blast
  have "all_woken (running s1) q ?Q = all_woken (running s) q Q"
    using running_there[OF Cons(3)] Cons(4) unfolding awake_running[OF s1(3)]
    by (auto simp: all_woken_def moved_def fun_eq_iff simp flip: Cons(2))
  moreover have "awake (set (Q q)) s s2" using awake_trans[OF s1(3) s2(3)] unfolding q by (simp flip: Cons(2))
  moreover have "wake_all q s = Some s2"
    using empty_iff[OF Cons(3), of q] s1(1) s2(1) by (subst wake_all_step) (simp flip: Cons(2))
  ultimately show ?case using s2(2) by auto
qed

end

interpretation wq: wait_queues kq_ok cur_cpu "\<lambda>q s. heads s q = NULL" unblock_head unblock_all woke
proof unfold_locales
  fix s :: "'a kstate" and Q q assume "kq_ok s Q"
  then show "heads s q = NULL \<longleftrightarrow> Q q = []" by (rule qs_okD(6)[OF kq_okD(1)])
next
  fix q and s :: "'a kstate"
  show "unblock_all q s = (if heads s q = NULL then Some s else do { s1 \<leftarrow> unblock_head q s; unblock_all q s1 })"
    by (rule unblock_all.simps)
qed (auto intro: unblock_head_spec woke_refl woke_trans simp: woke_fields dest: kq_okD(3))

section \<open>Sleeping\<close>

lemma wake_up_spec [kspec]:
  assumes k: "kq_ok s Q" and p: "p \<in> set (Q SleepQ)"
  shows "\<exists>s'. wake_up p s = Some s' \<and> kq_ok s' (moved SleepQ p ReadyQ (cur_cpu s) Q) \<and> woke {p} s s'"
proof -
  note d = kq_okD[OF k]
  have q: "SleepQ \<noteq> ReadyQ" by simp
  obtain h1 m1 where m1: "lpcb_del_node (heads s SleepQ) p (pcbs s) = Some (h1, p, m1)"
    "\<And>st. \<exists>h2 m2. lpcb_insert_node (heads s ReadyQ) p (cur_cpu s) ReadyQ (m1(p := (m1 p)\<lparr>status := st\<rparr>)) = Some (h2, m2) \<and> h2 \<noteq> NULL \<and>
      qs_ok m2 ((heads s)(SleepQ := h1, ReadyQ := h2)) (moved SleepQ p ReadyQ (cur_cpu s) Q) \<and>
      (\<forall>x. same_pcb (m2 x) (pcbs s x) \<and> status (m2 x) = (if x = p then st else status (pcbs s x)))"
    using qs_move[OF d(1) p q, of "cur_cpu s"] d(2) by metis
  obtain h2 m2 where m2: "lpcb_insert_node (heads s ReadyQ) p (cur_cpu s) ReadyQ (m1(p := (m1 p)\<lparr>status := TASK_READY\<rparr>)) = Some (h2, m2)"
    "h2 \<noteq> NULL" "qs_ok m2 ((heads s)(SleepQ := h1, ReadyQ := h2)) (moved SleepQ p ReadyQ (cur_cpu s) Q)"
    "\<forall>x. same_pcb (m2 x) (pcbs s x) \<and> status (m2 x) = (if x = p then TASK_READY else status (pcbs s x))"
    using m1(2)[of TASK_READY] by blast
  let ?s = "s\<lparr>pcbs := m2, heads := (heads s)(SleepQ := h1, ReadyQ := h2)\<rparr>"
  have "wake_up p s = Some ?s"
    using m1(1) m2(1,2) d(3) d(4)[OF q p]
    by (simp add: wake_up_def set_status_def upd_pcb_def set_queue_def set_head_def cur_cpu_def)
  moreover have w: "woke {p} s ?s" using m2(4) by (simp add: woke_def)
  ultimately show ?thesis using kq_ok_woken[OF k q p w] m2(3) by auto
qed

definition due :: "u64 \<Rightarrow> 'd kstate \<Rightarrow> addr \<Rightarrow> bool" where
  "due now s p \<longleftrightarrow> wakeup_time (pcbs s p) \<le> now"

lemma due_woke: "woke A s s' \<Longrightarrow> due now s' = due now s"
  by (simp add: due_def fun_eq_iff same_pcb_fields(3)[OF wokeD(2)])

lemma check_sleeping_loop_spec:
  assumes "kq_ok s Q" and "Q SleepQ = xs @ pw # ys"
  shows "\<exists>s'. check_sleeping_loop now pw s = Some s' \<and>
    kq_ok s' (Q(SleepQ := xs @ filter (\<lambda>p. \<not> due now s p) (pw # ys),
      ReadyQ := fold (insert_after (cur_cpu s)) (filter (due now s) (pw # ys)) (Q ReadyQ))) \<and>
    woke (set (filter (due now s) (pw # ys))) s s'"
  using assms
proof (induction ys arbitrary: pw xs s Q)
  case Nil
  note d = kq_okD[OF Nil(1)]
  have pin: "pw \<in> set (Q SleepQ)" using Nil(2) by simp
  have r: "ring (pcbs s) (heads s SleepQ) (xs @ pw # [])" using qs_okD(1)[OF d(1), of SleepQ] Nil(2) by simp
  then have "follows (pcbs s) (pw # [] @ [heads s SleepQ])" unfolding ring_split by blast
  then have nx: "pnext (pcbs s pw) = heads s SleepQ" by simp
  have st: "status (pcbs s pw) = TASK_SLEEPING" by (rule d(4)[OF _ pin]) simp
  show ?case
  proof (cases "due now s pw")
    case True
    obtain s1 where s1: "wake_up pw s = Some s1" "kq_ok s1 (moved SleepQ pw ReadyQ (cur_cpu s) Q)" "woke {pw} s s1"
      using wake_up_spec[OF Nil(1) pin] by blast
    have nin: "pw \<notin> set xs" using ring_distinct[OF r] by simp
    have "moved SleepQ pw ReadyQ (cur_cpu s) Q = Q(SleepQ := xs, ReadyQ := insert_after (cur_cpu s) pw (Q ReadyQ))"
      using d(3) nin by (simp add: moved_def Nil(2) remove1_append)
    then show ?thesis using True s1 st nx by (subst check_sleeping_loop.simps) (simp add: due_def)
  next
    case False
    have "Q(SleepQ := xs @ [pw], ReadyQ := Q ReadyQ) = Q" using Nil(2) by auto
    then show ?thesis using False Nil(1) st nx
      by (subst check_sleeping_loop.simps) (auto simp: due_def woke_refl)
  qed
next
  case (Cons y ys)
  note d = kq_okD[OF Cons(2)]
  have pin: "pw \<in> set (Q SleepQ)" using Cons(3) by simp
  have r: "ring (pcbs s) (heads s SleepQ) (xs @ pw # y # ys)" using qs_okD(1)[OF d(1), of SleepQ] Cons(3) by simp
  then have "follows (pcbs s) (pw # (y # ys) @ [heads s SleepQ])" unfolding ring_split by blast
  then have nx: "pnext (pcbs s pw) = y" by simp
  have dist: "distinct (xs @ pw # y # ys)" using ring_distinct[OF r] by blast
  have "heads s SleepQ = hd (xs @ [pw])" using r unfolding ring_split by blast
  then have ny: "y \<noteq> heads s SleepQ" using dist by (cases xs) auto
  have st: "status (pcbs s pw) = TASK_SLEEPING" by (rule d(4)[OF _ pin]) simp
  show ?case
  proof (cases "due now s pw")
    case True
    obtain s1 where s1: "wake_up pw s = Some s1" "kq_ok s1 (moved SleepQ pw ReadyQ (cur_cpu s) Q)" "woke {pw} s s1"
      using wake_up_spec[OF Cons(2) pin] by blast
    have m: "moved SleepQ pw ReadyQ (cur_cpu s) Q = Q(SleepQ := xs @ y # ys, ReadyQ := insert_after (cur_cpu s) pw (Q ReadyQ))"
      using d(3) dist by (simp add: moved_def Cons(3) remove1_append)
    let ?Q = "Q(SleepQ := xs @ y # ys, ReadyQ := insert_after (cur_cpu s) pw (Q ReadyQ))"
    have u: "?Q(SleepQ := A, ReadyQ := B) = Q(SleepQ := A, ReadyQ := B)" "?Q SleepQ = xs @ y # ys"
      "?Q ReadyQ = insert_after (cur_cpu s) pw (Q ReadyQ)" for A B by (auto simp: fun_eq_iff)
    obtain s2 where s2: "check_sleeping_loop now y s1 = Some s2"
      "kq_ok s2 (Q(SleepQ := xs @ filter (\<lambda>p. \<not> due now s p) (y # ys),
        ReadyQ := fold (insert_after (cur_cpu s)) (filter (due now s) (y # ys)) (insert_after (cur_cpu s) pw (Q ReadyQ))))"
      "woke (set (filter (due now s) (y # ys))) s1 s2"
      using Cons(1)[OF s1(2)[unfolded m] u(2)] unfolding due_woke[OF s1(3)] woke_fields[OF s1(3)] u(1,3) by blast
    have "heads s1 SleepQ \<noteq> NULL" using qs_okD(6)[OF kq_okD(1)[OF s1(2)], of SleepQ] by (simp add: m)
    moreover have "woke (set (filter (due now s) (pw # y # ys))) s s2"
      using woke_trans[OF s1(3) s2(3)] True by simp
    ultimately show ?thesis using True s1(1) s2(1,2) st nx ny by (subst check_sleeping_loop.simps) (simp add: due_def)
  next
    case False
    have sp: "Q SleepQ = (xs @ [pw]) @ y # ys" using Cons(3) by simp
    obtain s2 where s2: "check_sleeping_loop now y s = Some s2"
      "kq_ok s2 (Q(SleepQ := (xs @ [pw]) @ filter (\<lambda>p. \<not> due now s p) (y # ys),
        ReadyQ := fold (insert_after (cur_cpu s)) (filter (due now s) (y # ys)) (Q ReadyQ)))"
      "woke (set (filter (due now s) (y # ys))) s s2"
      using Cons(1)[OF Cons(2) sp] by blast
    have "heads s SleepQ \<noteq> NULL" using qs_okD(6)[OF d(1), of SleepQ] Cons(3) by simp
    then show ?thesis using False s2 st nx ny by (subst check_sleeping_loop.simps) (simp add: due_def)
  qed
qed

section \<open>Blocking\<close>

lemma ring_rotate:
  assumes "ring m h (xs @ c # ys)"
  shows "follows m ((ys @ xs) @ [c])" "pnext (m c) = hd ((ys @ xs) @ [c])" "c \<notin> set (ys @ xs)"
proof -
  have s: "distinct (xs @ c # ys)" "h = hd (xs @ [c])" "follows m (xs @ [c])" "follows m (c # ys @ [h])"
    using assms unfolding ring_split by auto
  have y: "follows m (ys @ [h])" using s(4) by (cases ys) auto
  show "follows m ((ys @ xs) @ [c])"
  proof (cases xs)
    case (Cons x xs')
    then show ?thesis using s(2,3) y follows_split[of m ys x "xs' @ [c]"] by simp
  qed (use y s(2) in simp)
  show "pnext (m c) = hd ((ys @ xs) @ [c])" using follows_tl_hd[OF s(4)] s(2) by (cases ys; cases xs) auto
  show "c \<notin> set (ys @ xs)" using s(1) by auto
qed

text \<open>The ready queue in the order in which \<open>do_block\<close> looks through it, the running process left out.\<close>

definition others :: "addr \<Rightarrow> addr list \<Rightarrow> addr list" where
  "others c r = tl (dropWhile (\<lambda>x. x \<noteq> c) r) @ takeWhile (\<lambda>x. x \<noteq> c) r"

lemma others_append: "c \<notin> set xs \<Longrightarrow> others c (xs @ c # ys) = ys @ xs"
proof -
  assume "c \<notin> set xs"
  then have "takeWhile (\<lambda>x. x \<noteq> c) (xs @ c # ys) = xs" "dropWhile (\<lambda>x. x \<noteq> c) (xs @ c # ys) = c # ys"
    by (induction xs) auto
  then show ?thesis by (simp add: others_def)
qed

lemma others_subset: "set (others c r) \<subseteq> set r"
  by (auto simp: others_def dest: set_takeWhileD set_dropWhileD in_set_tlD)

definition next_ready :: "'d kstate \<Rightarrow> (qref \<Rightarrow> addr list) \<Rightarrow> addr option" where
  "next_ready s Q = find (\<lambda>p. can_run (cpu_id s) (pcbs s p)) (others (cur_cpu s) (Q ReadyQ))"

lemma qs_status: "qs_ok (m(p := (m p)\<lparr>status := st\<rparr>)) hs Q = qs_ok m hs Q"
  by (auto simp: qs_ok_def ring_status)

text \<open>The process \<open>c\<close> has gone to sleep and \<open>p\<close> runs; nothing else but queues differs.\<close>

definition handed :: "addr \<Rightarrow> addr \<Rightarrow> 'd kstate \<Rightarrow> 'd kstate \<Rightarrow> bool" where
  "handed c p s s' \<longleftrightarrow> s' = s\<lparr>pcbs := pcbs s', heads := heads s', current_running := (current_running s)[cpu_id s := p]\<rparr> \<and>
     (\<forall>x. same_pcb (pcbs s' x) (pcbs s x) \<and>
       status (pcbs s' x) = (if x = c then TASK_SLEEPING else if x = p then TASK_RUNNING else status (pcbs s x)))"

lemma do_block_spec [kspec]:
  assumes k: "kq_ok s Q" and q: "q \<noteq> ReadyQ"
  shows "case next_ready s Q of None \<Rightarrow> do_block q None s = None
    | Some p \<Rightarrow> (\<exists>s'. do_block q None s = Some s' \<and> kq_ok s' (moved ReadyQ (cur_cpu s) q NULL Q) \<and> handed (cur_cpu s) p s s' \<and>
        p \<noteq> cur_cpu s \<and> cur_cpu s' = p \<and> (\<forall>l. do_block q (Some l) s = slock_release l s'))"
proof -
  note d = kq_okD[OF k]
  let ?c = "cur_cpu s" and ?f = "\<lambda>p. can_run (cpu_id s) (pcbs s p)"
  obtain xs ys where sp: "Q ReadyQ = xs @ ?c # ys" using d(2) by (auto dest: split_list)
  have r: "ring (pcbs s) (heads s ReadyQ) (xs @ ?c # ys)" using qs_okD(1)[OF d(1), of ReadyQ] sp by simp
  have cx: "?c \<notin> set xs" using ring_distinct[OF r] by simp
  have ot: "others ?c (Q ReadyQ) = ys @ xs" unfolding sp by (rule others_append[OF cx])
  have loop: "lpcb_search_loop (pcbs s) (can_run (cpu_id s)) ?c (pnext (pcbs s ?c)) =
      Some (case next_ready s Q of None \<Rightarrow> NULL | Some p \<Rightarrow> p)"
    using lpcb_search_loop_spec[OF ring_rotate(1,3)[OF r], of "can_run (cpu_id s)"] ring_rotate(2)[OF r]
    unfolding next_ready_def ot by simp
  show ?thesis
  proof (cases "next_ready s Q")
    case None
    then show ?thesis using loop by (simp add: do_block_def Let_def)
  next
    case (Some p)
    then have p: "p \<in> set (ys @ xs)" using find_SomeD[of ?f] unfolding next_ready_def ot by blast
    have pc: "p \<noteq> ?c" using p ring_rotate(3)[OF r] by blast
    have p0: "p \<noteq> NULL" using p ring_distinct[OF r] by auto
    have pr: "p \<in> set (Q ReadyQ)" using p sp by auto
    let ?m = "(pcbs s)(p := (pcbs s p)\<lparr>status := TASK_RUNNING\<rparr>)"
    have qs: "qs_ok ?m (heads s) Q" unfolding qs_status by (rule d(1))
    obtain h1 m1 where m1: "lpcb_del_node (heads s ReadyQ) ?c ?m = Some (h1, ?c, m1)"
      "\<And>st. \<exists>h2 m2. lpcb_insert_node (heads s q) ?c NULL q (m1(?c := (m1 ?c)\<lparr>status := st\<rparr>)) = Some (h2, m2) \<and> h2 \<noteq> NULL \<and>
        qs_ok m2 ((heads s)(ReadyQ := h1, q := h2)) (moved ReadyQ ?c q NULL Q) \<and>
        (\<forall>x. same_pcb (m2 x) (?m x) \<and> status (m2 x) = (if x = ?c then st else status (?m x)))"
      using qs_move[OF qs d(2) q[symmetric], of NULL] by blast
    obtain h2 m2 where m2: "lpcb_insert_node (heads s q) ?c NULL q (m1(?c := (m1 ?c)\<lparr>status := TASK_SLEEPING\<rparr>)) = Some (h2, m2)"
      "h2 \<noteq> NULL" "qs_ok m2 ((heads s)(ReadyQ := h1, q := h2)) (moved ReadyQ ?c q NULL Q)"
      "\<forall>x. same_pcb (m2 x) (?m x) \<and> status (m2 x) = (if x = ?c then TASK_SLEEPING else status (?m x))"
      using m1(2)[of TASK_SLEEPING] by blast
    let ?s = "s\<lparr>current_running := (current_running s)[cpu_id s := p], heads := (heads s)(ReadyQ := h1, q := h2), pcbs := m2\<rparr>"
    have run: "do_block q None s = Some ?s" "\<forall>l. do_block q (Some l) s = slock_release l ?s"
      using loop Some p0 m1(1) m2(1,2) q
      by (simp_all add: do_block_def Let_def set_status_def upd_pcb_def set_queue_def set_head_def)
    have sm: "same_pcb (?m x) (pcbs s x)" for x by (simp add: same_pcb_def)
    have h: "handed ?c p s ?s" using m2(4) same_pcb_trans[OF _ sm] by (auto simp: handed_def)
    have cur: "cur_cpu ?s = p" using k by (simp add: cur_cpu_def kq_ok_def)
    have st: "set (moved ReadyQ ?c q NULL Q q') =
        (if q' = q then insert ?c (set (Q q)) else if q' = ReadyQ then set (Q ReadyQ) - {?c} else set (Q q'))" for q'
      by (rule set_moved[OF d(1) q[symmetric]]) simp
    have "kq_ok ?s (moved ReadyQ ?c q NULL Q)"
    proof -
      have np: "p \<notin> set (Q q')" if "q' \<noteq> ReadyQ" for q' using qs_okD(2)[OF d(1) that[symmetric] pr] .
      have "status (m2 x) = TASK_SLEEPING" if x: "q' \<noteq> ReadyQ" "x \<in> set (moved ReadyQ ?c q NULL Q q')" for q' x
      proof (cases "x = ?c")
        case False
        then have "x \<in> set (Q q')" using x unfolding st by (cases "q' = q") simp_all
        then show ?thesis using d(4)[OF x(1)] np[OF x(1)] False m2(4)[rule_format, of x] by (cases "x = p") simp_all
      qed (use m2(4) in simp)
      moreover have "p \<in> set (moved ReadyQ ?c q NULL Q ReadyQ)" using pr pc q unfolding st by simp
      ultimately show ?thesis using m2(3) k unfolding kq_ok_def cur by simp
    qed
    then show ?thesis using run h pc cur Some by auto
  qed
qed

section \<open>Histories\<close>

text \<open>Every CPU runs a process of its own, which is in the ready queue.\<close>

definition cpus_ok :: "'d kstate \<Rightarrow> (qref \<Rightarrow> addr list) \<Rightarrow> bool" where
  "cpus_ok s Q \<longleftrightarrow> kq_ok s Q \<and> distinct (current_running s) \<and>
     (\<forall>p \<in> set (current_running s). p \<in> set (Q ReadyQ) \<and> status (pcbs s p) = TASK_RUNNING)"

definition queued :: "(qref \<Rightarrow> addr list) \<Rightarrow> addr set" where
  "queued Q = (\<Union>q. set (Q q))"

text \<open>What processes, the clock and the other CPU do to the queues.\<close>

inductive kstep :: "'d kstate \<Rightarrow> 'd kstate \<Rightarrow> bool" where
  block: "q \<noteq> ReadyQ \<Longrightarrow> do_block q None s = Some s' \<Longrightarrow> kstep s s'"
| unblock: "q \<noteq> ReadyQ \<Longrightarrow> heads s q \<noteq> NULL \<Longrightarrow> unblock_head q s = Some s' \<Longrightarrow> kstep s s'"
| unblock_all: "q \<noteq> ReadyQ \<Longrightarrow> unblock_all q s = Some s' \<Longrightarrow> kstep s s'"
| sleep: "do_sleep t s = Some s' \<Longrightarrow> kstep s s'"
| wake: "check_sleeping s = Some s' \<Longrightarrow> kstep s s'"
| clock: "kstep s (s\<lparr>ticks := t\<rparr>)"
| other_cpu: "i < length (current_running s) \<Longrightarrow> kstep s (s\<lparr>cpu_id := i\<rparr>)"

lemma fold_insert_after:
  "c \<in> set r \<Longrightarrow> set (fold (insert_after c) ps r) = set ps \<union> set r"
proof (induction ps arbitrary: r)
  case (Cons p ps)
  then have "c \<in> set (insert_after c p r)" by (simp add: set_insert_after)
  from Cons(1)[OF this] Cons(2) show ?case by (auto simp: set_insert_after)
qed simp

lemma cpus_ok_woke:
  assumes c: "cpus_ok s Q" and k: "kq_ok s' Q'" and w: "woke A s s'" and A: "\<And>p. p \<in> A \<Longrightarrow> p \<notin> set (Q ReadyQ)"
    and r: "set (Q ReadyQ) \<subseteq> set (Q' ReadyQ)"
  shows "cpus_ok s' Q'"
proof -
  have "status (pcbs s' p) = TASK_RUNNING \<and> p \<in> set (Q' ReadyQ)" if "p \<in> set (current_running s)" for p
    using c A[of p] r that wokeD(3)[OF w, of p] by (auto simp: cpus_ok_def)
  then show ?thesis using c k by (simp add: cpus_ok_def woke_fields[OF w])
qed

lemma cpus_ok_blocked:
  assumes c: "cpus_ok s Q" and q: "q \<noteq> ReadyQ" and s0: "kq_ok s0 Q" "current_running s0 = current_running s" "cur_cpu s0 = cur_cpu s"
    "cpu_id s0 = cpu_id s" "\<And>x. x \<noteq> cur_cpu s \<Longrightarrow> pcbs s0 x = pcbs s x"
    and b: "do_block q None s0 = Some s'"
  shows "cpus_ok s' (moved ReadyQ (cur_cpu s) q NULL Q)"
proof -
  obtain p where p: "next_ready s0 Q = Some p" "kq_ok s' (moved ReadyQ (cur_cpu s) q NULL Q)" "handed (cur_cpu s) p s0 s'" "p \<noteq> cur_cpu s"
    using do_block_spec[OF s0(1) q] b s0(3) by (auto split: option.splits)
  have "can_run (cpu_id s0) (pcbs s0 p)" using find_SomeD[OF p(1)[unfolded next_ready_def]] by simp
  then have rp: "status (pcbs s p) = TASK_READY" using s0(5)[OF p(4)] by (simp add: can_run_def)
  have cr: "current_running s' = (current_running s)[cpu_id s := p]" by (subst p(3)[unfolded handed_def, THEN conjunct1]) (simp add: s0)
  have i: "cpu_id s < length (current_running s)" using c by (simp add: cpus_ok_def kq_ok_def)
  have np: "p \<notin> set (current_running s)" using c rp by (auto simp: cpus_ok_def)
  have dist: "distinct (current_running s')" unfolding cr using c np by (auto simp: cpus_ok_def distinct_list_update dest: in_set_takeD in_set_dropD)
  have qs: "qs_ok (pcbs s) (heads s) Q" using c by (simp add: cpus_ok_def kq_ok_def)
  have st: "set (moved ReadyQ (cur_cpu s) q NULL Q ReadyQ) = set (Q ReadyQ) - {cur_cpu s}"
    using set_moved[OF qs q[symmetric], of NULL "cur_cpu s" ReadyQ] q by simp
  have "x \<in> set (Q ReadyQ) - {cur_cpu s} \<and> status (pcbs s' x) = TASK_RUNNING" if x: "x \<in> set (current_running s')" for x
  proof -
    have k: "kq_ok s0 Q" by (rule s0(1))
    have "p \<in> set (Q ReadyQ)" using find_SomeD[OF p(1)[unfolded next_ready_def]] others_subset by blast
    moreover have "x = p \<or> x \<in> set (current_running s) \<and> x \<noteq> cur_cpu s"
    proof -
      obtain j where j: "j < length (current_running s)" "x = (current_running s)[cpu_id s := p] ! j" using x unfolding cr in_set_conv_nth by auto
      show ?thesis
      proof (cases "j = cpu_id s")
        case False
        then have "x = current_running s ! j" using j by simp
        moreover have "current_running s ! j \<noteq> current_running s ! cpu_id s"
          using c False i j(1) nth_eq_iff_index_eq[of "current_running s"] by (auto simp: cpus_ok_def)
        ultimately show ?thesis using j(1) by (simp add: cur_cpu_def)
      qed (use j i in simp)
    qed
    moreover have "status (pcbs s' y) = (if y = cur_cpu s then TASK_SLEEPING else if y = p then TASK_RUNNING else status (pcbs s0 y))" for y
      using p(3) by (simp add: handed_def)
    ultimately show ?thesis using c p(4) s0(5) by (auto simp: cpus_ok_def)
  qed
  then show ?thesis using p(2) dist unfolding cpus_ok_def st by blast
qed

lemma queued_split: "queued Q = set (Q a) \<union> set (Q b) \<union> (\<Union>q \<in> - {a, b}. set (Q q))"
  by (auto simp: queued_def)

lemma queued_moved: "qs_ok m hs Q \<Longrightarrow> q1 \<noteq> q2 \<Longrightarrow> c = NULL \<or> c \<in> set (Q q2) \<Longrightarrow> p \<in> set (Q q1) \<Longrightarrow> queued (moved q1 p q2 c Q) = queued Q"
  unfolding queued_def by (auto simp: set_moved split: if_splits)

lemma kq_ok_cur_status: "kq_ok s Q \<Longrightarrow> kq_ok (upd_pcb (cur_cpu s) (\<lambda>c. c\<lparr>status := st, wakeup_time := w\<rparr>) s) Q"
proof -
  assume k: "kq_ok s Q"
  note d = kq_okD[OF k]
  let ?m = "(pcbs s)(cur_cpu s := (pcbs s (cur_cpu s))\<lparr>status := st, wakeup_time := w\<rparr>)"
  have "ring ?m h ps = ring (pcbs s) h ps" for h ps by (rule ring_cong) simp
  then have "qs_ok ?m (heads s) Q" using d(1) by (simp add: qs_ok_def)
  moreover have "cur_cpu s \<notin> set (Q q)" if "q \<noteq> ReadyQ" for q using qs_okD(2)[OF d(1) that[symmetric] d(2)] .
  ultimately show ?thesis using k by (auto simp: kq_ok_def upd_pcb_def cur_cpu_def)
qed

lemma check_sleeping_spec [kspec]:
  assumes k: "kq_ok s Q"
  shows "\<exists>s'. check_sleeping s = Some s' \<and>
    kq_ok s' (Q(SleepQ := filter (\<lambda>p. \<not> due (get_timer s) s p) (Q SleepQ),
      ReadyQ := fold (insert_after (cur_cpu s)) (filter (due (get_timer s) s) (Q SleepQ)) (Q ReadyQ))) \<and>
    woke (set (filter (due (get_timer s) s) (Q SleepQ))) s s'"
proof (cases "Q SleepQ")
  case Nil
  then have "Q(SleepQ := [], ReadyQ := Q ReadyQ) = Q" by (auto simp: fun_eq_iff)
  then show ?thesis using Nil k qs_okD(6)[OF kq_okD(1)[OF k], of SleepQ] by (simp add: check_sleeping_def woke_refl)
next
  case (Cons p ps)
  have "heads s SleepQ = p" "p \<noteq> NULL" using qs_okD(1)[OF kq_okD(1)[OF k], of SleepQ] Cons by (auto simp: ring_def)
  then show ?thesis using check_sleeping_loop_spec[OF k, of "[]" p ps "get_timer s"] Cons by (simp add: check_sleeping_def)
qed

lemma kstep_ok:
  assumes "kstep s s'" and "cpus_ok s Q"
  shows "\<exists>Q'. cpus_ok s' Q' \<and> queued Q' = queued Q"
  using assms
proof (induction rule: kstep.induct)
  case (block q s s')
  have k: "kq_ok s Q" using block(3) by (simp add: cpus_ok_def)
  show ?case
    using cpus_ok_blocked[OF block(3,1) k refl refl refl refl block(2)] queued_moved[OF kq_okD(1)[OF k] block(1)[symmetric]] kq_okD(2)[OF k] by blast
next
  case (unblock q s s')
  have k: "kq_ok s Q" using unblock(4) by (simp add: cpus_ok_def)
  note d = kq_okD[OF k]
  obtain p ps where p: "Q q = p # ps" using unblock(2) qs_okD(6)[OF d(1), of q] by (cases "Q q") auto
  have s': "kq_ok s' (moved q p ReadyQ (cur_cpu s) Q)" "woke {p} s s'"
    using unblock_head_spec[OF k unblock(1) p] unblock(3) by auto
  have "p \<notin> set (Q ReadyQ)" using qs_okD(2)[OF d(1) unblock(1)] p by simp
  moreover have "set (Q ReadyQ) \<subseteq> set (moved q p ReadyQ (cur_cpu s) Q ReadyQ)"
    using set_moved[OF d(1) unblock(1), of "cur_cpu s" p ReadyQ] d(2) by auto
  ultimately have "cpus_ok s' (moved q p ReadyQ (cur_cpu s) Q)" using cpus_ok_woke[OF unblock(4) s'] by blast
  then show ?case using queued_moved[OF d(1) unblock(1), of "cur_cpu s" p] d(2) p by auto
next
  case (unblock_all q s s')
  have k: "kq_ok s Q" using unblock_all(3) by (simp add: cpus_ok_def)
  note d = kq_okD[OF k]
  have s': "kq_ok s' (all_woken (cur_cpu s) q Q)" "woke (set (Q q)) s s'"
    using wq.wake_all_empties[OF k unblock_all(1)] unblock_all(2) by auto
  have r: "set (all_woken (cur_cpu s) q Q ReadyQ) = set (Q q) \<union> set (Q ReadyQ)"
    using fold_insert_after[OF d(2)] by (simp add: all_woken_def)
  have "cpus_ok s' (all_woken (cur_cpu s) q Q)"
    using cpus_ok_woke[OF unblock_all(3) s'] qs_okD(2)[OF d(1) unblock_all(1)] r by blast
  moreover have "queued (all_woken (cur_cpu s) q Q) = queued Q"
    using fold_insert_after[OF d(2), of "Q q"] unblock_all(1) unfolding queued_split[of _ q ReadyQ] by (auto simp: all_woken_def)
  ultimately show ?case by blast
next
  case (sleep t s s')
  have k: "kq_ok s Q" using sleep(2) by (simp add: cpus_ok_def)
  obtain w where b: "do_block SleepQ None (upd_pcb (cur_cpu s) (\<lambda>c. c\<lparr>status := TASK_SLEEPING, wakeup_time := w\<rparr>) s) = Some s'"
    using sleep(1) by (auto simp: do_sleep_def Let_def)
  have q: "SleepQ \<noteq> ReadyQ" by simp
  have "cpus_ok s' (moved ReadyQ (cur_cpu s) SleepQ NULL Q)"
    by (rule cpus_ok_blocked[OF sleep(2) q kq_ok_cur_status[OF k] _ _ _ _ b]) (simp_all add: upd_pcb_def cur_cpu_def)
  then show ?case using queued_moved[OF kq_okD(1)[OF k], of ReadyQ SleepQ NULL] kq_okD(2)[OF k] by auto
next
  case (wake s s')
  have k: "kq_ok s Q" using wake(2) by (simp add: cpus_ok_def)
  note d = kq_okD[OF k]
  let ?f = "due (get_timer s) s"
  let ?Q = "Q(SleepQ := filter (\<lambda>p. \<not> ?f p) (Q SleepQ), ReadyQ := fold (insert_after (cur_cpu s)) (filter ?f (Q SleepQ)) (Q ReadyQ))"
  have s': "kq_ok s' ?Q" "woke (set (filter ?f (Q SleepQ))) s s'"
    using check_sleeping_spec[OF k] wake(1) by auto
  have r: "set (?Q ReadyQ) = set (filter ?f (Q SleepQ)) \<union> set (Q ReadyQ)" using fold_insert_after[OF d(2)] by simp
  have "cpus_ok s' ?Q"
    using cpus_ok_woke[OF wake(2) s'] qs_okD(2)[OF d(1), of SleepQ ReadyQ] r by auto
  moreover have "queued ?Q = queued Q"
    using fold_insert_after[OF d(2), of "filter ?f (Q SleepQ)"] unfolding queued_split[of _ SleepQ ReadyQ] by auto
  ultimately show ?case by blast
next
  case (clock s t)
  then have "cpus_ok (s\<lparr>ticks := t\<rparr>) Q" by (simp add: cpus_ok_def kq_ok_def cur_cpu_def)
  then show ?case by blast
next
  case (other_cpu i s)
  then have "cpus_ok (s\<lparr>cpu_id := i\<rparr>) Q" by (simp add: cpus_ok_def kq_ok_def cur_cpu_def)
  then show ?case by blast
qed

section \<open>What scheduling guarantees\<close>

definition demo_Q :: "qref \<Rightarrow> addr list" where
  "demo_Q q = (if q = ReadyQ then [0x20, 0x30, 0x40] else if q = SleepQ then [0x50] else [])"

lemma demo_kq_ok: "kq_ok demo_ks demo_Q"
  by (auto simp: kq_ok_def qs_ok_def demo_ks_def demo_Q_def demo_pmem_def ring_def cur_cpu_def)

lemma demo_cpus_ok: "cpus_ok demo_ks demo_Q"
  using demo_kq_ok by (auto simp: cpus_ok_def demo_ks_def demo_Q_def demo_pmem_def)

text \<open>
  C17: Scheduling histories. Whatever sequence of blocking, sleeping, waking one process or all of a queue,
  clock ticks and changes of the executing CPU happens, every queue stays a well-formed circular list, each
  process is in exactly one queue and knows which, processes in a queue other than the ready queue sleep, no
  two CPUs run the same process, what they run is in the ready queue, and no process is ever lost or invented.
\<close>
theorem sched_history:
  assumes "rtranclp kstep s s'" and "cpus_ok s Q"
  shows "\<exists>Q'. cpus_ok s' Q' \<and> queued Q' = queued Q"
  using assms
proof (induction rule: rtranclp_induct)
  case (step s1 s2)
  then show ?case using kstep_ok by metis
qed blast

theorem sched_history_witness:
  "\<exists>s1 s2 Q'. check_sleeping demo_ks = Some s1 \<and> unblock_all SleepQ s1 = Some s2 \<and> cpus_ok s2 Q' \<and> queued Q' = {0x20, 0x30, 0x40, 0x50}"
proof -
  obtain s1 Q1 where s1: "check_sleeping demo_ks = Some s1" "kq_ok s1 Q1" using check_sleeping_spec[OF demo_kq_ok] by blast
  obtain s2 where s2: "unblock_all SleepQ s1 = Some s2" using wq.wake_all_empties[OF s1(2), of SleepQ] by auto
  have "rtranclp kstep demo_ks s2" using kstep.wake[OF s1(1)] kstep.unblock_all[OF _ s2] by auto
  moreover have "queued demo_Q = {0x20, 0x30, 0x40, 0x50}" by (auto simp: queued_def demo_Q_def split: if_splits)
  ultimately show ?thesis using sched_history[OF _ demo_cpus_ok, of s2] s1(1) s2 by auto
qed

text \<open>
  C20: Blocking hands the CPU over. \<open>do_block\<close> looks through the ready queue from the process behind the
  running one, round to the one before it. The first that is ready and allowed on this CPU becomes the running process;
  the caller leaves the ready queue, sleeps, and is the last of the queue it blocks on; the spin lock, when one
  is passed, is released last. Only when there is no such process does the kernel stop.
\<close>
theorem do_block_hands_over:
  assumes "kq_ok s Q" and "q \<noteq> ReadyQ"
  shows "case next_ready s Q of None \<Rightarrow> do_block q None s = None
    | Some p \<Rightarrow> (\<exists>s'. do_block q None s = Some s' \<and> kq_ok s' (moved ReadyQ (cur_cpu s) q NULL Q) \<and> handed (cur_cpu s) p s s' \<and>
        p \<noteq> cur_cpu s \<and> cur_cpu s' = p \<and> (\<forall>l. do_block q (Some l) s = slock_release l s'))"
  by (rule do_block_spec[OF assms])

lemma demo_next: "next_ready demo_ks demo_Q = Some 0x40" "cur_cpu demo_ks = 0x20"
  by (simp_all add: next_ready_def others_def can_run_def demo_Q_def demo_ks_def demo_pmem_def cur_cpu_def)

theorem do_block_hands_over_witness:
  "\<exists>s'. do_block (MutexQ 3) None demo_ks = Some s' \<and> kq_ok s' (demo_Q(ReadyQ := [0x30, 0x40], MutexQ 3 := [0x20])) \<and> cur_cpu s' = 0x40"
proof -
  have "moved ReadyQ 0x20 (MutexQ 3) NULL demo_Q = demo_Q(ReadyQ := [0x30, 0x40], MutexQ 3 := [0x20])"
    by (simp add: moved_def demo_Q_def)
  then show ?thesis using do_block_hands_over[OF demo_kq_ok, of "MutexQ 3"] by (auto simp: demo_next)
qed

text \<open>
  Waking all processes of a queue ends. The loop over \<open>do_unblock\<close> runs until the queue is empty, each process
  of the queue becomes ready and stands behind the running one in the ready queue (the last one first), and no
  other queue and nothing else of any process changes.
\<close>
theorem unblock_all_wakes_everyone:
  assumes "kq_ok s Q" and "q \<noteq> ReadyQ"
  shows "\<exists>s'. unblock_all q s = Some s' \<and> heads s' q = NULL \<and> kq_ok s' (all_woken (cur_cpu s) q Q) \<and> woke (set (Q q)) s s'"
proof -
  obtain s' where s': "unblock_all q s = Some s'" "kq_ok s' (all_woken (cur_cpu s) q Q)" "woke (set (Q q)) s s'"
    using wq.wake_all_empties[OF assms] by blast
  moreover have "all_woken (cur_cpu s) q Q q = []" using assms(2) by (simp add: all_woken_def)
  ultimately show ?thesis using qs_okD(6)[OF kq_okD(1)[OF s'(2)], of q] by auto
qed

theorem unblock_all_wakes_everyone_witness:
  "\<exists>s'. unblock_all SleepQ demo_ks = Some s' \<and> kq_ok s' (demo_Q(SleepQ := [], ReadyQ := [0x20, 0x50, 0x30, 0x40]))"
proof -
  have "all_woken 0x20 SleepQ demo_Q = demo_Q(SleepQ := [], ReadyQ := [0x20, 0x50, 0x30, 0x40])"
    by (simp add: all_woken_def demo_Q_def)
  then show ?thesis using unblock_all_wakes_everyone[OF demo_kq_ok, of SleepQ] by (auto simp: demo_next)
qed

text \<open>
  The sleep queue. One pass of \<open>check_sleeping\<close> ends although waking changes the list it walks; exactly
  the processes whose time has come leave the sleep queue and become ready, the others keep their order, and the
  panics on a broken list are never reached.
\<close>
theorem check_sleeping_wakes_due:
  assumes "kq_ok s Q"
  shows "\<exists>s'. check_sleeping s = Some s' \<and>
    kq_ok s' (Q(SleepQ := filter (\<lambda>p. \<not> due (get_timer s) s p) (Q SleepQ),
      ReadyQ := fold (insert_after (cur_cpu s)) (filter (due (get_timer s) s) (Q SleepQ)) (Q ReadyQ))) \<and>
    woke (set (filter (due (get_timer s) s) (Q SleepQ))) s s'"
  by (rule check_sleeping_spec[OF assms])

theorem check_sleeping_wakes_due_witness:
  "\<exists>s'. check_sleeping demo_ks = Some s' \<and> kq_ok s' (demo_Q(SleepQ := [], ReadyQ := [0x20, 0x50, 0x30, 0x40]))"
proof -
  have d: "due (get_timer demo_ks) demo_ks 0x50" by (simp add: due_def get_timer_def demo_ks_def demo_pmem_def)
  show ?thesis using check_sleeping_wakes_due[OF demo_kq_ok] d by (auto simp: demo_next demo_Q_def)
qed

text \<open>
  Blocking and waking are inverse. The process that blocks on an empty queue is the one that the next wake-up
  of this queue makes ready; it is put behind the process that runs then, and the other queues are as before.
\<close>
theorem block_then_unblock:
  assumes k: "kq_ok s Q" and q: "q \<noteq> ReadyQ" "Q q = []" and p: "next_ready s Q = Some p"
  shows "\<exists>s1 s2. do_block q None s = Some s1 \<and> unblock_head q s1 = Some s2 \<and> cur_cpu s2 = p \<and>
    kq_ok s2 (Q(ReadyQ := insert_after p (cur_cpu s) (remove1 (cur_cpu s) (Q ReadyQ)))) \<and>
    status (pcbs s2 (cur_cpu s)) = TASK_READY \<and> same_pcb (pcbs s2 (cur_cpu s)) (pcbs s (cur_cpu s))"
proof -
  let ?c = "cur_cpu s" and ?Q1 = "moved ReadyQ (cur_cpu s) q NULL Q"
  obtain s1 where s1: "do_block q None s = Some s1" "kq_ok s1 ?Q1" "handed ?c p s s1" "cur_cpu s1 = p"
    using do_block_spec[OF k q(1)] p by auto
  have "?Q1 q = [?c]" using q by (simp add: moved_def)
  then obtain s2 where s2: "unblock_head q s1 = Some s2" "kq_ok s2 (moved q ?c ReadyQ p ?Q1)" "woke {?c} s1 s2"
    using unblock_head_spec[OF s1(2) q(1)] s1(4) by blast
  have "p \<noteq> NULL" using kq_okD(3)[OF s1(2)] s1(4) by simp
  then have "moved q ?c ReadyQ p ?Q1 = Q(ReadyQ := insert_after p ?c (remove1 ?c (Q ReadyQ)))"
    using q by (auto simp: moved_def fun_eq_iff)
  moreover have "same_pcb (pcbs s2 ?c) (pcbs s ?c)"
    using same_pcb_trans[OF wokeD(2)[OF s2(3)]] s1(3) by (simp add: handed_def)
  ultimately show ?thesis using s1 s2 wokeD(3)[OF s2(3)] woke_fields(3)[OF s2(3)] by auto
qed

theorem block_then_unblock_witness:
  "\<exists>s1 s2. do_block (SemaQ 1) None demo_ks = Some s1 \<and> unblock_head (SemaQ 1) s1 = Some s2 \<and>
     kq_ok s2 (demo_Q(ReadyQ := [0x30, 0x40, 0x20])) \<and> cur_cpu s2 = 0x40"
proof -
  have "insert_after 0x40 0x20 (remove1 0x20 (demo_Q ReadyQ)) = [0x30, 0x40, 0x20]" "demo_Q (SemaQ 1) = []" by (simp_all add: demo_Q_def)
  then show ?thesis using block_then_unblock[OF demo_kq_ok _ _ demo_next(1), of "SemaQ 1"] by (auto simp: demo_next(2))
qed

end
