(* ===== verification/Lock.thy ===== *)
theory Lock
  imports Sched
begin

text \<open>
  Mutex locks, semaphores and barriers (\<^verbatim>\<open>kernel/locking/lock.c\<close>).

  Each operation holds the spin lock of its object. An operation that may block is split at the call of
  \<^verbatim>\<open>do_block\<close>: it ends with \<open>Blocked\<close>, and \<open>_resume\<close> is what runs when the process is scheduled again. The
  invariants \<open>sema_ok\<close> and \<open>barrier_ok\<close> relate the counters to the queues. \<open>barrier_waits\<close> is a row of calls that meet at a
  barrier, and \<open>opened\<close> says where the processes are when it has opened.
\<close>

section \<open>Mutex locks\<close>

definition do_mutex_lock_init :: "int \<Rightarrow> int" where
  "do_mutex_lock_init key = (key mod 2 ^ 32) mod int LOCK_NUM"

definition upd_mutex :: "nat \<Rightarrow> (mutex_lock \<Rightarrow> mutex_lock) \<Rightarrow> 'd kstate \<Rightarrow> 'd kstate" where
  "upd_mutex i f s = s\<lparr>mlocks := (mlocks s)[i := f (mlocks s ! i)]\<rparr>"

text \<open>From the test of the loop on, with the spin lock held.\<close>

definition mutex_loop :: "nat \<Rightarrow> 'd kstate \<Rightarrow> (int outcome \<times> 'd kstate) option" where
  "mutex_loop i s = do {
     l \<leftarrow> nth_chk (mlocks s) i;
     if mstatus l = LOCKED \<and> mopid l \<noteq> pid (cur_pcb s) then do {
       s1 \<leftarrow> do_block (MutexQ i) (Some (MutexS i)) s;
       Some (Blocked, s1)
     } else do {
       s1 \<leftarrow> slock_release (MutexS i) (upd_mutex i (\<lambda>l. l\<lparr>mstatus := LOCKED, mopid := pid (cur_pcb s)\<rparr>) s);
       Some (Done (int i), s1)
     }
   }"

definition do_mutex_lock_acquire :: "int \<Rightarrow> 'd kstate \<Rightarrow> (int outcome \<times> 'd kstate) option" where
  "do_mutex_lock_acquire idx s =
     (if idx \<ge> int LOCK_NUM \<or> idx < 0 then Some (Done (-1), s)
      else do { s1 \<leftarrow> slock_acquire (MutexS (nat idx)) s; mutex_loop (nat idx) s1 })"

definition do_mutex_lock_acquire_resume :: "int \<Rightarrow> 'd kstate \<Rightarrow> (int outcome \<times> 'd kstate) option" where
  "do_mutex_lock_acquire_resume idx s = do {
     s1 \<leftarrow> do_block_resume (Some (MutexS (nat idx))) s; mutex_loop (nat idx) s1 }"

definition do_mutex_lock_release :: "int \<Rightarrow> 'd kstate \<Rightarrow> (int \<times> 'd kstate) option" where
  "do_mutex_lock_release idx s =
     (if idx \<ge> int LOCK_NUM \<or> idx < 0 then Some (-1, s)
      else do {
        let i = nat idx;
        s1 \<leftarrow> slock_acquire (MutexS i) s;
        l \<leftarrow> nth_chk (mlocks s1) i;
        if mstatus l = LOCKED \<and> mopid l \<noteq> pid (cur_pcb s1) then do { s2 \<leftarrow> slock_release (MutexS i) s1; Some (-2, s2) }
        else if mstatus l = UNLOCKED then do { s2 \<leftarrow> slock_release (MutexS i) s1; Some (-3, s2) }
        else do {
          let s2 = upd_mutex i (\<lambda>l. l\<lparr>mstatus := UNLOCKED\<rparr>) s1;
          s3 \<leftarrow> (if heads s2 (MutexQ i) \<noteq> NULL then unblock_head (MutexQ i) s2 else Some s2);
          s4 \<leftarrow> slock_release (MutexS i) s3;
          Some (idx, s4)
        }
      })"

definition mutex_killed :: "int \<Rightarrow> nat \<Rightarrow> 'd kstate \<Rightarrow> 'd kstate option" where
  "mutex_killed kpid i s = do {
     s1 \<leftarrow> slock_acquire (MutexS i) s;
     l \<leftarrow> nth_chk (mlocks s1) i;
     s2 \<leftarrow> (if mstatus l = LOCKED \<and> mopid l = kpid then
             (if heads s1 (MutexQ i) = NULL then Some (upd_mutex i (\<lambda>l. l\<lparr>mstatus := UNLOCKED\<rparr>) s1)
              else do {
                let temp = heads s1 (MutexQ i);
                t \<leftarrow> unblock_head (MutexQ i) s1;
                Some (upd_mutex i (\<lambda>l. l\<lparr>mopid := pid (pcbs t temp)\<rparr>) t)
              })
           else Some s1);
     slock_release (MutexS i) s2
   }"

section \<open>Semaphores\<close>

definition upd_sema :: "nat \<Rightarrow> (semaphore \<Rightarrow> semaphore) \<Rightarrow> 'd kstate \<Rightarrow> 'd kstate" where
  "upd_sema i f s = s\<lparr>semaphores := (semaphores s)[i := f (semaphores s ! i)]\<rparr>"

definition init_semaphores :: "'d kstate \<Rightarrow> 'd kstate" where
  "init_semaphores s = s\<lparr>semaphores := map (\<lambda>x. x\<lparr>sslock := spin_lock_init (sslock x), sopid := INVALID_PID\<rparr>) (semaphores s)\<rparr>"

definition do_semaphore_init :: "int \<Rightarrow> int \<Rightarrow> 'd kstate \<Rightarrow> (int \<times> 'd kstate) option" where
  "do_semaphore_init key val s = do {
     let i = nat ((key mod 2 ^ 32) mod int SEMAPHORE_NUM);
     s1 \<leftarrow> slock_acquire (SemaS i) s;
     x \<leftarrow> nth_chk (semaphores s1) i;
     let (rt, s2) =
       (if sopid x \<noteq> INVALID_PID then (INT32_MIN, s1)
        else (int i, upd_sema i (\<lambda>x. x\<lparr>sopid := pid (cur_pcb s1), svalue := val\<rparr>) (set_head (SemaQ i) NULL s1)));
     s3 \<leftarrow> slock_release (SemaS i) s2;
     Some (rt, s3)
   }"

definition do_semaphore_up :: "int \<Rightarrow> 'd kstate \<Rightarrow> (int \<times> 'd kstate) option" where
  "do_semaphore_up sidx s =
     (if sidx \<ge> int SEMAPHORE_NUM \<or> sidx < 0 then Some (INT32_MIN, s)
      else do {
        let i = nat sidx;
        s1 \<leftarrow> slock_acquire (SemaS i) s;
        x \<leftarrow> nth_chk (semaphores s1) i;
        if sopid x = INVALID_PID then do { s2 \<leftarrow> slock_release (SemaS i) s1; Some (INT32_MIN, s2) }
        else do {
          v \<leftarrow> c_int32 (svalue x + 1);
          let s2 = upd_sema i (\<lambda>x. x\<lparr>svalue := v\<rparr>) s1;
          s3 \<leftarrow> (if svalue x < 0 then
                  (if heads s2 (SemaQ i) = NULL then Some (upd_sema i (\<lambda>x. x\<lparr>svalue := 0\<rparr>) s2)
                   else unblock_head (SemaQ i) s2)
                else Some s2);
          y \<leftarrow> nth_chk (semaphores s3) i;
          if svalue y \<ge> 0 \<and> heads s3 (SemaQ i) \<noteq> NULL then None
          else do { s4 \<leftarrow> slock_release (SemaS i) s3; Some (svalue y, s4) }
        }
      })"

text \<open>From \<^verbatim>\<open>val = ptsema->value\<close> on.\<close>

definition sema_down_end :: "nat \<Rightarrow> 'd kstate \<Rightarrow> (int \<times> 'd kstate) option" where
  "sema_down_end i s = do {
     x \<leftarrow> nth_chk (semaphores s) i;
     s1 \<leftarrow> slock_release (SemaS i) s;
     Some (svalue x, s1)
   }"

definition do_semaphore_down :: "int \<Rightarrow> 'd kstate \<Rightarrow> (int outcome \<times> 'd kstate) option" where
  "do_semaphore_down sidx s =
     (if sidx \<ge> int SEMAPHORE_NUM \<or> sidx < 0 then Some (Done INT32_MIN, s)
      else do {
        let i = nat sidx;
        s1 \<leftarrow> slock_acquire (SemaS i) s;
        x \<leftarrow> nth_chk (semaphores s1) i;
        if sopid x = INVALID_PID then do { s2 \<leftarrow> slock_release (SemaS i) s1; Some (Done INT32_MIN, s2) }
        else do {
          v \<leftarrow> c_int32 (svalue x - 1);
          let s2 = upd_sema i (\<lambda>x. x\<lparr>svalue := v\<rparr>) s1;
          if v < 0 then do { s3 \<leftarrow> do_block (SemaQ i) (Some (SemaS i)) s2; Some (Blocked, s3) }
          else do { (r, s3) \<leftarrow> sema_down_end i s2; Some (Done r, s3) }
        }
      })"

definition do_semaphore_down_resume :: "int \<Rightarrow> 'd kstate \<Rightarrow> (int \<times> 'd kstate) option" where
  "do_semaphore_down_resume sidx s = do {
     s1 \<leftarrow> do_block_resume (Some (SemaS (nat sidx))) s; sema_down_end (nat sidx) s1 }"

definition do_semaphore_destroy :: "int \<Rightarrow> 'd kstate \<Rightarrow> (int \<times> 'd kstate) option" where
  "do_semaphore_destroy sidx s =
     (if sidx \<ge> int SEMAPHORE_NUM \<or> sidx < 0 then Some (INT32_MIN, s)
      else do {
        let i = nat sidx;
        s1 \<leftarrow> slock_acquire (SemaS i) s;
        x \<leftarrow> nth_chk (semaphores s1) i;
        (rt, s2) \<leftarrow> (if sopid x \<noteq> INVALID_PID \<and> sopid x \<noteq> pid (cur_pcb s1) then Some (INT32_MIN, s1)
                    else do { t \<leftarrow> unblock_all (SemaQ i) (upd_sema i (\<lambda>x. x\<lparr>sopid := INVALID_PID\<rparr>) s1); Some (sidx, t) });
        s3 \<leftarrow> slock_release (SemaS i) s2;
        Some (rt, s3)
      })"

definition sema_killed :: "int \<Rightarrow> nat \<Rightarrow> 'd kstate \<Rightarrow> 'd kstate option" where
  "sema_killed kpid i s = do {
     s1 \<leftarrow> slock_acquire (SemaS i) s;
     x \<leftarrow> nth_chk (semaphores s1) i;
     s2 \<leftarrow> (if sopid x = kpid then unblock_all (SemaQ i) (upd_sema i (\<lambda>x. x\<lparr>sopid := INVALID_PID\<rparr>) s1) else Some s1);
     slock_release (SemaS i) s2
   }"

section \<open>Barriers\<close>

definition upd_barrier :: "nat \<Rightarrow> (barrier \<Rightarrow> barrier) \<Rightarrow> 'd kstate \<Rightarrow> 'd kstate" where
  "upd_barrier i f s = s\<lparr>barriers := (barriers s)[i := f (barriers s ! i)]\<rparr>"

definition init_barriers :: "'d kstate \<Rightarrow> 'd kstate" where
  "init_barriers s = s\<lparr>barriers := map (\<lambda>x. x\<lparr>bslock := spin_lock_init (bslock x), bopid := INVALID_PID\<rparr>) (barriers s)\<rparr>"

definition do_barrier_init :: "int \<Rightarrow> int \<Rightarrow> 'd kstate \<Rightarrow> (int \<times> 'd kstate) option" where
  "do_barrier_init key g s = do {
     let i = nat ((key mod 2 ^ 32) mod int BARRIER_NUM);
     s1 \<leftarrow> slock_acquire (BarrierS i) s;
     x \<leftarrow> nth_chk (barriers s1) i;
     let (rt, s2) =
       (if bopid x \<noteq> INVALID_PID then (INT32_MIN, s1)
        else (int i, upd_barrier i (\<lambda>x. x\<lparr>goal := g, come := 0, bopid := pid (cur_pcb s1)\<rparr>) (set_head (BarrierQ i) NULL s1)));
     s3 \<leftarrow> slock_release (BarrierS i) s2;
     Some (rt, s3)
   }"

definition do_barrier_wait :: "int \<Rightarrow> 'd kstate \<Rightarrow> (int outcome \<times> 'd kstate) option" where
  "do_barrier_wait bidx s =
     (if bidx < 0 \<or> bidx \<ge> int BARRIER_NUM then Some (Done INT32_MIN, s)
      else do {
        let i = nat bidx;
        s1 \<leftarrow> slock_acquire (BarrierS i) s;
        x \<leftarrow> nth_chk (barriers s1) i;
        if bopid x = INVALID_PID then do { s2 \<leftarrow> slock_release (BarrierS i) s1; Some (Done INT32_MIN, s2) }
        else do {
          v \<leftarrow> c_int32 (come x + 1);
          let s2 = upd_barrier i (\<lambda>x. x\<lparr>come := v\<rparr>) s1;
          if v \<ge> goal x then do {
            s3 \<leftarrow> unblock_all (BarrierQ i) (upd_barrier i (\<lambda>x. x\<lparr>come := 0\<rparr>) s2);
            s4 \<leftarrow> slock_release (BarrierS i) s3;
            Some (Done (goal x), s4)
          } else do { s3 \<leftarrow> do_block (BarrierQ i) (Some (BarrierS i)) s2; Some (Blocked, s3) }
        }
      })"

text \<open>The goal the process has read before it blocked is its result.\<close>

definition do_barrier_wait_resume :: "int \<Rightarrow> int \<Rightarrow> 'd kstate \<Rightarrow> (int \<times> 'd kstate) option" where
  "do_barrier_wait_resume bidx g s = do {
     s1 \<leftarrow> do_block_resume (Some (BarrierS (nat bidx))) s;
     s2 \<leftarrow> slock_release (BarrierS (nat bidx)) s1;
     Some (g, s2)
   }"

definition do_barrier_destroy :: "int \<Rightarrow> 'd kstate \<Rightarrow> (int \<times> 'd kstate) option" where
  "do_barrier_destroy bidx s =
     (if bidx < 0 \<or> bidx \<ge> int BARRIER_NUM then Some (INT32_MIN, s)
      else do {
        let i = nat bidx;
        s1 \<leftarrow> slock_acquire (BarrierS i) s;
        x \<leftarrow> nth_chk (barriers s1) i;
        (rt, s2) \<leftarrow> (if bopid x \<noteq> INVALID_PID \<and> bopid x \<noteq> pid (cur_pcb s1) then Some (INT32_MIN, s1)
                    else do { t \<leftarrow> unblock_all (BarrierQ i) (upd_barrier i (\<lambda>x. x\<lparr>bopid := INVALID_PID\<rparr>) s1); Some (bidx, t) });
        s3 \<leftarrow> slock_release (BarrierS i) s2;
        Some (rt, s3)
      })"

definition barrier_killed :: "int \<Rightarrow> nat \<Rightarrow> 'd kstate \<Rightarrow> 'd kstate option" where
  "barrier_killed kpid i s = do {
     s1 \<leftarrow> slock_acquire (BarrierS i) s;
     x \<leftarrow> nth_chk (barriers s1) i;
     s2 \<leftarrow> (if bopid x = kpid then unblock_all (BarrierQ i) (upd_barrier i (\<lambda>x. x\<lparr>bopid := INVALID_PID\<rparr>) s1) else Some s1);
     slock_release (BarrierS i) s2
   }"

section \<open>Objects and queues are independent\<close>

text \<open>All objects are there and no spin lock is held: the state in which the kernel is entered.\<close>

definition spin_free :: "'d kstate \<Rightarrow> bool" where
  "spin_free s \<longleftrightarrow> length (mlocks s) = 16 \<and> length (semaphores s) = 16 \<and> length (barriers s) = 16 \<and> length (mailboxes s) = 16 \<and>
     (\<forall>x \<in> set (mlocks s). mslock x = UNLOCKED) \<and> (\<forall>x \<in> set (semaphores s). sslock x = UNLOCKED) \<and>
     (\<forall>x \<in> set (barriers s). bslock x = UNLOCKED) \<and> (\<forall>x \<in> set (mailboxes s). xslock x = UNLOCKED)"

lemma obj_simps [simp]:
  "kq_ok (s\<lparr>mlocks := ml\<rparr>) Q = kq_ok s Q" "kq_ok (s\<lparr>semaphores := se\<rparr>) Q = kq_ok s Q"
  "kq_ok (s\<lparr>barriers := ba\<rparr>) Q = kq_ok s Q" "kq_ok (s\<lparr>mailboxes := mb\<rparr>) Q = kq_ok s Q"
  "cur_cpu (s\<lparr>mlocks := ml\<rparr>) = cur_cpu s" "cur_cpu (s\<lparr>semaphores := se\<rparr>) = cur_cpu s"
  "cur_cpu (s\<lparr>barriers := ba\<rparr>) = cur_cpu s" "cur_cpu (s\<lparr>mailboxes := mb\<rparr>) = cur_cpu s"
  "next_ready (s\<lparr>mlocks := ml\<rparr>) Q = next_ready s Q" "next_ready (s\<lparr>semaphores := se\<rparr>) Q = next_ready s Q"
  "next_ready (s\<lparr>barriers := ba\<rparr>) Q = next_ready s Q" "next_ready (s\<lparr>mailboxes := mb\<rparr>) Q = next_ready s Q"
  by (simp_all add: kq_ok_def cur_cpu_def next_ready_def)

lemma slock_simps:
  "i < length (mlocks s) \<Longrightarrow> slock_upd (MutexS i) f s =
     map_option (\<lambda>v. s\<lparr>mlocks := (mlocks s)[i := (mlocks s ! i)\<lparr>mslock := v\<rparr>]\<rparr>) (f (mslock (mlocks s ! i)))"
  "i < length (semaphores s) \<Longrightarrow> slock_upd (SemaS i) f s =
     map_option (\<lambda>v. s\<lparr>semaphores := (semaphores s)[i := (semaphores s ! i)\<lparr>sslock := v\<rparr>]\<rparr>) (f (sslock (semaphores s ! i)))"
  "i < length (barriers s) \<Longrightarrow> slock_upd (BarrierS i) f s =
     map_option (\<lambda>v. s\<lparr>barriers := (barriers s)[i := (barriers s ! i)\<lparr>bslock := v\<rparr>]\<rparr>) (f (bslock (barriers s ! i)))"
  "i < length (mailboxes s) \<Longrightarrow> slock_upd (MboxS i) f s =
     map_option (\<lambda>v. s\<lparr>mailboxes := (mailboxes s)[i := (mailboxes s ! i)\<lparr>xslock := v\<rparr>]\<rparr>) (f (xslock (mailboxes s ! i)))"
  by (cases "f (mslock (mlocks s ! i))"; cases "f (sslock (semaphores s ! i))"; cases "f (bslock (barriers s ! i))";
      cases "f (xslock (mailboxes s ! i))"; simp)+

lemma spin_freeD:
  assumes "spin_free s" and "i < 16"
  shows "i < length (mlocks s)" "i < length (semaphores s)" "i < length (barriers s)" "i < length (mailboxes s)"
    "mslock (mlocks s ! i) = UNLOCKED" "sslock (semaphores s ! i) = UNLOCKED" "bslock (barriers s ! i) = UNLOCKED"
    "xslock (mailboxes s ! i) = UNLOCKED"
  using assms by (simp_all add: spin_free_def)

lemma spin_free_upd:
  assumes "spin_free s"
  shows "mslock m = UNLOCKED \<Longrightarrow> spin_free (s\<lparr>mlocks := (mlocks s)[i := m]\<rparr>)"
    "sslock x = UNLOCKED \<Longrightarrow> spin_free (s\<lparr>semaphores := (semaphores s)[i := x]\<rparr>)"
    "bslock b = UNLOCKED \<Longrightarrow> spin_free (s\<lparr>barriers := (barriers s)[i := b]\<rparr>)"
    "xslock c = UNLOCKED \<Longrightarrow> spin_free (s\<lparr>mailboxes := (mailboxes s)[i := c]\<rparr>)"
  using assms by (auto simp: spin_free_def dest: set_update_subset_insert[THEN subsetD])

lemma spin_free_woke: "woke A s t \<Longrightarrow> spin_free t = spin_free s"
  by (simp add: spin_free_def woke_fields)

lemma handed_fields:
  assumes "handed c p s s'"
  shows "mlocks s' = mlocks s" "semaphores s' = semaphores s" "barriers s' = barriers s" "mailboxes s' = mailboxes s" "cpu_id s' = cpu_id s"
  by (subst assms[unfolded handed_def, THEN conjunct1], simp)+

section \<open>Semaphores as counters with a waiting list\<close>

text \<open>
  While nobody is killed a negative value counts the waiting processes; a killed process leaves the queue but not
  the count, so that in general the queue is not longer than that. A free semaphore has no waiting process.
\<close>

definition sema_ok :: "'d kstate \<Rightarrow> (qref \<Rightarrow> addr list) \<Rightarrow> nat \<Rightarrow> bool" where
  "sema_ok s Q i \<longleftrightarrow> (let x = semaphores s ! i in
     if sopid x = INVALID_PID then Q (SemaQ i) = []
     else int (length (Q (SemaQ i))) \<le> max 0 (- svalue x) \<and> -2147483648 \<le> svalue x \<and> svalue x < 2147483648)"

text \<open>The abstract counter: its value and the processes that wait.\<close>

fun sema_V :: "int \<times> addr list \<Rightarrow> int \<times> addr list" where
  "sema_V (v, w) = (if v < 0 then (if w = [] then (0, []) else (v + 1, tl w)) else (v + 1, w))"

fun sema_P :: "addr \<Rightarrow> int \<times> addr list \<Rightarrow> int \<times> addr list" where
  "sema_P c (v, w) = (v - 1, if v - 1 < 0 then w @ [c] else w)"

definition sema_abs :: "'d kstate \<Rightarrow> (qref \<Rightarrow> addr list) \<Rightarrow> nat \<Rightarrow> int \<times> addr list" where
  "sema_abs s Q i = (svalue (semaphores s ! i), Q (SemaQ i))"

lemma semaphore_up_spec [kspec]:
  assumes k: "kq_ok s Q" and sf: "spin_free s" and i: "i < 16" and ok: "sema_ok s Q i"
    and x: "sopid (semaphores s ! i) \<noteq> INVALID_PID" "svalue (semaphores s ! i) < 2147483647"
  shows "\<exists>s' Q'. do_semaphore_up (int i) s = Some (fst (sema_V (sema_abs s Q i)), s') \<and> kq_ok s' Q' \<and> spin_free s' \<and> sema_ok s' Q' i \<and>
    sema_abs s' Q' i = sema_V (sema_abs s Q i) \<and> sopid (semaphores s' ! i) = sopid (semaphores s ! i) \<and>
    (if svalue (semaphores s ! i) < 0 \<and> Q (SemaQ i) \<noteq> [] then Q' = moved (SemaQ i) (hd (Q (SemaQ i))) ReadyQ (cur_cpu s) Q else Q' = Q)"
proof -
  note f = spin_freeD[OF sf i]
  let ?x = "semaphores s ! i"
  let ?v = "svalue ?x + 1"
  let ?s1 = "s\<lparr>semaphores := (semaphores s)[i := ?x\<lparr>sslock := LOCKED, svalue := ?v\<rparr>]\<rparr>"
  have c: "c_int32 ?v = Some ?v" using ok x by (simp add: c_int32_def sema_ok_def Let_def)
  have k1: "kq_ok ?s1 Q" using k by simp
  have hn: "heads s (SemaQ i) = NULL \<longleftrightarrow> Q (SemaQ i) = []" by (rule qs_okD(6)[OF kq_okD(1)[OF k]])
  consider (pos) "svalue ?x \<ge> 0" | (none) "svalue ?x < 0" "Q (SemaQ i) = []" | (wake) "svalue ?x < 0" "Q (SemaQ i) \<noteq> []" by linarith
  then show ?thesis
  proof cases
    case pos
    let ?s = "s\<lparr>semaphores := (semaphores s)[i := ?x\<lparr>svalue := ?v, sslock := UNLOCKED\<rparr>]\<rparr>"
    have e: "Q (SemaQ i) = []" using ok x pos by (simp add: sema_ok_def Let_def)
    have "do_semaphore_up (int i) s = Some (?v, ?s)"
      using i f(2,6) x c pos e hn by (simp add: do_semaphore_up_def slock_simps upd_sema_def kconst Let_def)
    then show ?thesis using k e pos x f(2) ok spin_free_upd(2)[OF sf, of "?x\<lparr>svalue := ?v, sslock := UNLOCKED\<rparr>" i]
      by (intro exI[of _ ?s] exI[of _ Q]) (simp add: sema_abs_def sema_ok_def Let_def)
  next
    case none
    let ?s = "s\<lparr>semaphores := (semaphores s)[i := ?x\<lparr>svalue := 0, sslock := UNLOCKED\<rparr>]\<rparr>"
    have "do_semaphore_up (int i) s = Some (0, ?s)"
      using i f(2,6) x c none hn by (simp add: do_semaphore_up_def slock_simps upd_sema_def kconst Let_def)
    then show ?thesis using k none x f(2) ok spin_free_upd(2)[OF sf, of "?x\<lparr>svalue := 0, sslock := UNLOCKED\<rparr>" i]
      by (intro exI[of _ ?s] exI[of _ Q]) (simp add: sema_abs_def sema_ok_def Let_def)
  next
    case wake
    then obtain p ps where p: "Q (SemaQ i) = p # ps" by (cases "Q (SemaQ i)") auto
    let ?Q = "moved (SemaQ i) p ReadyQ (cur_cpu s) Q"
    obtain s2 where s2: "unblock_head (SemaQ i) ?s1 = Some s2" "kq_ok s2 ?Q" "woke {p} ?s1 s2"
      using unblock_head_spec[OF k1 _ p] by auto
    have se: "semaphores s2 = (semaphores s)[i := ?x\<lparr>sslock := LOCKED, svalue := ?v\<rparr>]" using woke_fields(11)[OF s2(3)] by simp
    have Q': "?Q (SemaQ i) = ps" using p by (simp add: moved_def)
    have ln: "int (length (p # ps)) \<le> - svalue ?x" using ok x wake p by (simp add: sema_ok_def Let_def)
    have h2: "svalue ?x + 1 \<ge> 0 \<longrightarrow> heads s2 (SemaQ i) = NULL"
      using qs_okD(6)[OF kq_okD(1)[OF s2(2)], of "SemaQ i"] ln unfolding Q' by (cases ps) auto
    let ?s = "s2\<lparr>semaphores := (semaphores s2)[i := ?x\<lparr>svalue := ?v, sslock := UNLOCKED\<rparr>]\<rparr>"
    have sf2: "spin_free ?s"
    proof -
      have "spin_free (s\<lparr>semaphores := (semaphores s)[i := ?x\<lparr>svalue := ?v, sslock := UNLOCKED\<rparr>]\<rparr>)" by (rule spin_free_upd(2)[OF sf]) simp
      then show ?thesis using se by (simp add: spin_free_def woke_fields[OF s2(3)])
    qed
    have "do_semaphore_up (int i) s = Some (?v, ?s)"
      using i f(2,6) x c wake hn s2(1) h2 se
      by (simp add: do_semaphore_up_def slock_simps upd_sema_def kconst Let_def)
    then show ?thesis using s2(2) sf2 wake p Q' ln f(2) ok x
      by (intro exI[of _ ?s] exI[of _ ?Q]) (simp add: sema_abs_def sema_ok_def Let_def se)
  qed
qed

lemma semaphore_down_spec [kspec]:
  assumes k: "kq_ok s Q" and sf: "spin_free s" and i: "i < 16" and ok: "sema_ok s Q i"
    and x: "sopid (semaphores s ! i) \<noteq> INVALID_PID" "-2147483648 < svalue (semaphores s ! i)"
    and n: "svalue (semaphores s ! i) > 0 \<or> next_ready s Q \<noteq> None"
  shows "\<exists>r s' Q'. do_semaphore_down (int i) s = Some (r, s') \<and> kq_ok s' Q' \<and> spin_free s' \<and> sema_ok s' Q' i \<and>
    sema_abs s' Q' i = sema_P (cur_cpu s) (sema_abs s Q i) \<and>
    (if svalue (semaphores s ! i) > 0 then r = Done (svalue (semaphores s ! i) - 1) \<and> Q' = Q
     else r = Blocked \<and> Q' = moved ReadyQ (cur_cpu s) (SemaQ i) NULL Q \<and> Some (cur_cpu s') = next_ready s Q)"
proof -
  note f = spin_freeD[OF sf i]
  let ?x = "semaphores s ! i"
  let ?v = "svalue ?x - 1"
  let ?s1 = "s\<lparr>semaphores := (semaphores s)[i := ?x\<lparr>sslock := LOCKED, svalue := ?v\<rparr>]\<rparr>"
  have c: "c_int32 ?v = Some ?v" using ok x by (simp add: c_int32_def sema_ok_def Let_def)
  show ?thesis
  proof (cases "svalue ?x > 0")
    case True
    let ?s = "s\<lparr>semaphores := (semaphores s)[i := ?x\<lparr>svalue := ?v, sslock := UNLOCKED\<rparr>]\<rparr>"
    have "do_semaphore_down (int i) s = Some (Done ?v, ?s)"
      using i f(2,6) x c True by (simp add: do_semaphore_down_def sema_down_end_def slock_simps upd_sema_def kconst Let_def)
    moreover have "sema_ok ?s Q i" using ok x True f(2) by (auto simp: sema_ok_def Let_def)
    ultimately show ?thesis using k x f(2) True spin_free_upd(2)[OF sf, of "?x\<lparr>svalue := ?v, sslock := UNLOCKED\<rparr>" i]
      by (intro exI[of _ "Done ?v"] exI[of _ ?s] exI[of _ Q]) (simp add: sema_abs_def)
  next
    case False
    then obtain p where p: "next_ready s Q = Some p" using n by auto
    have k1: "kq_ok ?s1 Q" using k by simp
    let ?Q = "moved ReadyQ (cur_cpu s) (SemaQ i) NULL Q"
    obtain s2 where s2: "kq_ok s2 ?Q" "handed (cur_cpu s) p ?s1 s2" "cur_cpu s2 = p"
      "\<forall>l. do_block (SemaQ i) (Some l) ?s1 = slock_release l s2"
      using do_block_spec[OF k1, of "SemaQ i"] p by auto
    have se: "semaphores s2 = (semaphores s)[i := ?x\<lparr>sslock := LOCKED, svalue := ?v\<rparr>]" using handed_fields(2)[OF s2(2)] by simp
    let ?s = "s2\<lparr>semaphores := (semaphores s2)[i := ?x\<lparr>svalue := ?v, sslock := UNLOCKED\<rparr>]\<rparr>"
    have sf2: "spin_free ?s"
    proof -
      have "spin_free (s\<lparr>semaphores := (semaphores s)[i := ?x\<lparr>svalue := ?v, sslock := UNLOCKED\<rparr>]\<rparr>)" by (rule spin_free_upd(2)[OF sf]) simp
      then show ?thesis using se by (simp add: spin_free_def handed_fields[OF s2(2)])
    qed
    have Q': "?Q (SemaQ i) = Q (SemaQ i) @ [cur_cpu s]" by (simp add: moved_def)
    have so: "sema_ok ?s ?Q i" using ok x False f(2) unfolding sema_ok_def Q' by (auto simp: Let_def se)
    have "do_semaphore_down (int i) s = Some (Blocked, ?s)"
      using i f(2,6) x c False s2(4) se by (simp add: do_semaphore_down_def slock_simps upd_sema_def kconst Let_def)
    then show ?thesis using s2(1,3) p sf2 so False f(2) Q'
      by (intro exI[of _ Blocked] exI[of _ ?s] exI[of _ ?Q]) (simp add: sema_abs_def se)
  qed
qed

section \<open>Barriers\<close>

text \<open>As many processes wait as have come; a killed one may be missing. A free barrier has no waiting process.\<close>

definition barrier_ok :: "'d kstate \<Rightarrow> (qref \<Rightarrow> addr list) \<Rightarrow> nat \<Rightarrow> bool" where
  "barrier_ok s Q i \<longleftrightarrow> (let x = barriers s ! i in
     if bopid x = INVALID_PID then Q (BarrierQ i) = []
     else int (length (Q (BarrierQ i))) \<le> come x \<and> 0 \<le> come x \<and> come x \<le> max 0 (goal x - 1) \<and> goal x < 2147483648)"

lemma barrier_wait_spec [kspec]:
  assumes k: "kq_ok s Q" and sf: "spin_free s" and i: "i < 16" and ok: "barrier_ok s Q i" and x: "bopid (barriers s ! i) \<noteq> INVALID_PID"
    and n: "come (barriers s ! i) + 1 \<ge> goal (barriers s ! i) \<or> next_ready s Q \<noteq> None"
  shows "\<exists>r s' Q'. do_barrier_wait (int i) s = Some (r, s') \<and> kq_ok s' Q' \<and> spin_free s' \<and> barrier_ok s' Q' i \<and>
    goal (barriers s' ! i) = goal (barriers s ! i) \<and> bopid (barriers s' ! i) = bopid (barriers s ! i) \<and>
    (if come (barriers s ! i) + 1 \<ge> goal (barriers s ! i)
     then r = Done (goal (barriers s ! i)) \<and> Q' = all_woken (cur_cpu s) (BarrierQ i) Q \<and> come (barriers s' ! i) = 0 \<and>
       cur_cpu s' = cur_cpu s \<and> (\<forall>p \<in> set (Q (BarrierQ i)). status (pcbs s' p) = TASK_READY)
     else r = Blocked \<and> Q' = moved ReadyQ (cur_cpu s) (BarrierQ i) NULL Q \<and> come (barriers s' ! i) = come (barriers s ! i) + 1 \<and>
       Some (cur_cpu s') = next_ready s Q)"
proof -
  note f = spin_freeD[OF sf i]
  let ?x = "barriers s ! i"
  let ?v = "come ?x + 1"
  have c: "c_int32 ?v = Some ?v" using ok x by (auto simp: c_int32_def barrier_ok_def Let_def)
  show ?thesis
  proof (cases "?v \<ge> goal ?x")
    case True
    let ?s1 = "s\<lparr>barriers := (barriers s)[i := ?x\<lparr>bslock := LOCKED, come := 0\<rparr>]\<rparr>" and ?Q = "all_woken (cur_cpu s) (BarrierQ i) Q"
    have k1: "kq_ok ?s1 Q" using k by simp
    obtain s2 where s2: "unblock_all (BarrierQ i) ?s1 = Some s2" "kq_ok s2 ?Q" "woke (set (Q (BarrierQ i))) ?s1 s2"
      using wq.wake_all_empties[OF k1, of "BarrierQ i"] by auto
    have se: "barriers s2 = (barriers s)[i := ?x\<lparr>bslock := LOCKED, come := 0\<rparr>]" using woke_fields(12)[OF s2(3)] by simp
    let ?s = "s2\<lparr>barriers := (barriers s2)[i := ?x\<lparr>come := 0, bslock := UNLOCKED\<rparr>]\<rparr>"
    have sf2: "spin_free ?s"
    proof -
      have "spin_free (s\<lparr>barriers := (barriers s)[i := ?x\<lparr>come := 0, bslock := UNLOCKED\<rparr>]\<rparr>)" by (rule spin_free_upd(3)[OF sf]) simp
      then show ?thesis using se by (simp add: spin_free_def woke_fields[OF s2(3)])
    qed
    have "do_barrier_wait (int i) s = Some (Done (goal ?x), ?s)"
      using i f(3,7) x c True s2(1) se by (simp add: do_barrier_wait_def slock_simps upd_barrier_def kconst Let_def)
    moreover have "barrier_ok ?s ?Q i" using ok f(3) x by (simp add: barrier_ok_def Let_def se all_woken_def)
    moreover have "cur_cpu s2 = cur_cpu s" "\<forall>p \<in> set (Q (BarrierQ i)). status (pcbs s2 p) = TASK_READY"
      using woke_fields(3)[OF s2(3)] wokeD(3)[OF s2(3)] by simp_all
    ultimately show ?thesis using s2(2) sf2 True f(3)
      by (intro exI[of _ "Done (goal ?x)"] exI[of _ ?s] exI[of _ ?Q]) (simp add: se)
  next
    case False
    then obtain p where p: "next_ready s Q = Some p" using n by auto
    let ?s1 = "s\<lparr>barriers := (barriers s)[i := ?x\<lparr>bslock := LOCKED, come := ?v\<rparr>]\<rparr>" and ?Q = "moved ReadyQ (cur_cpu s) (BarrierQ i) NULL Q"
    have k1: "kq_ok ?s1 Q" using k by simp
    obtain s2 where s2: "kq_ok s2 ?Q" "handed (cur_cpu s) p ?s1 s2" "cur_cpu s2 = p"
      "\<forall>l. do_block (BarrierQ i) (Some l) ?s1 = slock_release l s2"
      using do_block_spec[OF k1, of "BarrierQ i"] p by auto
    have se: "barriers s2 = (barriers s)[i := ?x\<lparr>bslock := LOCKED, come := ?v\<rparr>]" using handed_fields(3)[OF s2(2)] by simp
    let ?s = "s2\<lparr>barriers := (barriers s2)[i := ?x\<lparr>come := ?v, bslock := UNLOCKED\<rparr>]\<rparr>"
    have sf2: "spin_free ?s"
    proof -
      have "spin_free (s\<lparr>barriers := (barriers s)[i := ?x\<lparr>come := ?v, bslock := UNLOCKED\<rparr>]\<rparr>)" by (rule spin_free_upd(3)[OF sf]) simp
      then show ?thesis using se by (simp add: spin_free_def handed_fields[OF s2(2)])
    qed
    have Q': "?Q (BarrierQ i) = Q (BarrierQ i) @ [cur_cpu s]" by (simp add: moved_def)
    have "barrier_ok ?s ?Q i" using ok x False f(3) unfolding barrier_ok_def Q' by (auto simp: Let_def se)
    moreover have "do_barrier_wait (int i) s = Some (Blocked, ?s)"
      using i f(3,7) x c False s2(4) se by (simp add: do_barrier_wait_def slock_simps upd_barrier_def kconst Let_def)
    ultimately show ?thesis using s2(1,3) p sf2 False f(3)
      by (intro exI[of _ Blocked] exI[of _ ?s] exI[of _ ?Q]) (simp add: se)
  qed
qed

section \<open>Mutex locks and their owners\<close>

definition holder :: "'d kstate \<Rightarrow> nat \<Rightarrow> int option" where
  "holder s i = (if mstatus (mlocks s ! i) = LOCKED then Some (mopid (mlocks s ! i)) else None)"

lemma same_mslock: "mslock (l ! i) = UNLOCKED \<Longrightarrow> l[i := (l ! i)\<lparr>mslock := UNLOCKED\<rparr>] = l"
proof -
  assume "mslock (l ! i) = UNLOCKED"
  then have "(l ! i)\<lparr>mslock := UNLOCKED\<rparr> = l ! i" by (cases "l ! i") simp
  then show ?thesis by (simp only: list_update_id)
qed

lemma mutex_acquire_spec [kspec]:
  assumes k: "kq_ok s Q" and sf: "spin_free s" and i: "i < 16"
    and n: "holder s i \<in> {None, Some (pid (cur_pcb s))} \<or> next_ready s Q \<noteq> None"
  shows "\<exists>r s' Q'. do_mutex_lock_acquire (int i) s = Some (r, s') \<and> kq_ok s' Q' \<and> spin_free s' \<and>
    (\<forall>j < 16. j \<noteq> i \<longrightarrow> holder s' j = holder s j) \<and>
    (if holder s i \<in> {None, Some (pid (cur_pcb s))} then r = Done (int i) \<and> Q' = Q \<and> holder s' i = Some (pid (cur_pcb s))
     else r = Blocked \<and> Q' = moved ReadyQ (cur_cpu s) (MutexQ i) NULL Q \<and> holder s' i = holder s i \<and> Some (cur_cpu s') = next_ready s Q)"
proof -
  note f = spin_freeD[OF sf i]
  let ?x = "mlocks s ! i" and ?me = "pid (cur_pcb s)"
  let ?s1 = "s\<lparr>mlocks := (mlocks s)[i := ?x\<lparr>mslock := LOCKED\<rparr>]\<rparr>"
  have me: "cur_pcb ?s1 = cur_pcb s" by (simp add: cur_pcb_def)
  show ?thesis
  proof (cases "holder s i \<in> {None, Some ?me}")
    case True
    then have t: "\<not> (mstatus ?x = LOCKED \<and> mopid ?x \<noteq> ?me)" by (auto simp: holder_def split: if_splits)
    let ?y = "?x\<lparr>mstatus := LOCKED, mopid := ?me, mslock := UNLOCKED\<rparr>"
    have "do_mutex_lock_acquire (int i) s = Some (Done (int i), s\<lparr>mlocks := (mlocks s)[i := ?y]\<rparr>)"
      using i f(1,5) t me by (auto simp: do_mutex_lock_acquire_def mutex_loop_def slock_simps upd_mutex_def kconst Let_def)
    then show ?thesis using k True f(1) spin_free_upd(1)[OF sf, of ?y i]
      by (intro exI[of _ "Done (int i)"] exI[of _ "s\<lparr>mlocks := (mlocks s)[i := ?y]\<rparr>"] exI[of _ Q]) (simp add: holder_def)
  next
    case False
    then obtain p where p: "next_ready s Q = Some p" using n by auto
    have t: "mstatus ?x = LOCKED" "mopid ?x \<noteq> ?me" using False by (auto simp: holder_def split: if_splits)
    have k1: "kq_ok ?s1 Q" using k by simp
    let ?Q = "moved ReadyQ (cur_cpu s) (MutexQ i) NULL Q"
    obtain s2 where s2: "kq_ok s2 ?Q" "handed (cur_cpu s) p ?s1 s2" "cur_cpu s2 = p"
      "\<forall>l. do_block (MutexQ i) (Some l) ?s1 = slock_release l s2"
      using do_block_spec[OF k1, of "MutexQ i"] p by auto
    have se: "mlocks s2 = (mlocks s)[i := ?x\<lparr>mslock := LOCKED\<rparr>]" using handed_fields(1)[OF s2(2)] by simp
    let ?s = "s2\<lparr>mlocks := mlocks s\<rparr>"
    have sf2: "spin_free ?s" using sf by (simp add: spin_free_def handed_fields[OF s2(2)])
    have "do_mutex_lock_acquire (int i) s = Some (Blocked, s2\<lparr>mlocks := (mlocks s)[i := ?x\<lparr>mslock := UNLOCKED\<rparr>]\<rparr>)"
      using i f(1,5) t me s2(4) se
      by (simp add: do_mutex_lock_acquire_def mutex_loop_def slock_simps upd_mutex_def kconst Let_def)
    then have "do_mutex_lock_acquire (int i) s = Some (Blocked, ?s)" unfolding same_mslock[OF f(5)] .
    then show ?thesis using s2(1,3) p sf2 False by (intro exI[of _ Blocked] exI[of _ ?s] exI[of _ ?Q]) (simp add: holder_def)
  qed
qed

lemma mutex_release_spec [kspec]:
  assumes k: "kq_ok s Q" and sf: "spin_free s" and i: "i < 16"
  shows "\<exists>r s' Q'. do_mutex_lock_release (int i) s = Some (r, s') \<and> kq_ok s' Q' \<and> spin_free s' \<and>
    (\<forall>j < 16. j \<noteq> i \<longrightarrow> holder s' j = holder s j) \<and>
    (case holder s i of None \<Rightarrow> r = -3 \<and> s' = s \<and> Q' = Q
     | Some p \<Rightarrow> if p \<noteq> pid (cur_pcb s) then r = -2 \<and> s' = s \<and> Q' = Q
         else r = int i \<and> holder s' i = None \<and>
           Q' = (if Q (MutexQ i) = [] then Q else moved (MutexQ i) (hd (Q (MutexQ i))) ReadyQ (cur_cpu s) Q))"
proof -
  note f = spin_freeD[OF sf i]
  let ?x = "mlocks s ! i" and ?me = "pid (cur_pcb s)"
  let ?s1 = "s\<lparr>mlocks := (mlocks s)[i := ?x\<lparr>mslock := LOCKED\<rparr>]\<rparr>"
  have me: "cur_pcb ?s1 = cur_pcb s" by (simp add: cur_pcb_def)
  show ?thesis
  proof (cases "holder s i = Some ?me")
    case False
    then have t: "mstatus ?x = LOCKED \<longrightarrow> mopid ?x \<noteq> ?me" by (auto simp: holder_def split: if_splits)
    have "do_mutex_lock_release (int i) s =
        Some (if mstatus ?x = LOCKED then -2 else -3, s\<lparr>mlocks := (mlocks s)[i := ?x\<lparr>mslock := UNLOCKED\<rparr>]\<rparr>)"
      using i f(1,5) t me
      by (cases "mstatus ?x") (simp_all add: do_mutex_lock_release_def slock_simps upd_mutex_def kconst Let_def)
    then have "do_mutex_lock_release (int i) s = Some (if mstatus ?x = LOCKED then -2 else -3, s)"
      unfolding same_mslock[OF f(5)] by simp
    then show ?thesis using k sf t
      by (intro exI[of _ "if mstatus ?x = LOCKED then -2 else -3"] exI[of _ s] exI[of _ Q]) (cases "mstatus ?x"; simp add: holder_def)
  next
    case True
    then have t: "mstatus ?x = LOCKED" "mopid ?x = ?me" by (auto simp: holder_def split: if_splits)
    let ?y = "?x\<lparr>mslock := LOCKED, mstatus := UNLOCKED\<rparr>" and ?z = "?x\<lparr>mstatus := UNLOCKED, mslock := UNLOCKED\<rparr>"
    let ?s2 = "s\<lparr>mlocks := (mlocks s)[i := ?y]\<rparr>"
    have hn: "heads s (MutexQ i) = NULL \<longleftrightarrow> Q (MutexQ i) = []" by (rule qs_okD(6)[OF kq_okD(1)[OF k]])
    have sf1: "spin_free (s\<lparr>mlocks := (mlocks s)[i := ?z]\<rparr>)" by (rule spin_free_upd(1)[OF sf]) simp
    show ?thesis
    proof (cases "Q (MutexQ i)")
      case Nil
      have "do_mutex_lock_release (int i) s = Some (int i, s\<lparr>mlocks := (mlocks s)[i := ?z]\<rparr>)"
        using i f(1,5) t me hn Nil by (simp add: do_mutex_lock_release_def slock_simps upd_mutex_def kconst Let_def)
      then show ?thesis using k True f(1) sf1 Nil
        by (intro exI[of _ "int i"] exI[of _ "s\<lparr>mlocks := (mlocks s)[i := ?z]\<rparr>"] exI[of _ Q]) (simp add: holder_def)
    next
      case (Cons p ps)
      have k2: "kq_ok ?s2 Q" using k by simp
      obtain s3 where s3: "unblock_head (MutexQ i) ?s2 = Some s3" "kq_ok s3 (moved (MutexQ i) p ReadyQ (cur_cpu s) Q)" "woke {p} ?s2 s3"
        using unblock_head_spec[OF k2 _ Cons] by auto
      have se: "mlocks s3 = (mlocks s)[i := ?y]" using woke_fields(10)[OF s3(3)] by simp
      let ?s = "s3\<lparr>mlocks := (mlocks s)[i := ?z]\<rparr>"
      have sf2: "spin_free ?s" using sf1 by (simp add: spin_free_def woke_fields[OF s3(3)])
      have "do_mutex_lock_release (int i) s = Some (int i, ?s)"
        using i f(1,5) t me hn Cons s3(1) se by (simp add: do_mutex_lock_release_def slock_simps upd_mutex_def kconst Let_def)
      then show ?thesis using s3(2) True f(1) sf2 Cons
        by (intro exI[of _ "int i"] exI[of _ ?s] exI[of _ "moved (MutexQ i) p ReadyQ (cur_cpu s) Q"]) (simp add: holder_def)
    qed
  qed
qed

section \<open>A round of a barrier\<close>

text \<open>The processes the CPU could switch to.\<close>

definition runnable :: "'d kstate \<Rightarrow> (qref \<Rightarrow> addr list) \<Rightarrow> addr set" where
  "runnable s Q = {x \<in> set (Q ReadyQ). x \<noteq> cur_cpu s \<and> can_run (cpu_id s) (pcbs s x)}"

lemma set_others: "c \<in> set r \<Longrightarrow> distinct r \<Longrightarrow> set (others c r) = set r - {c}"
proof -
  assume c: "c \<in> set r" "distinct r"
  then obtain xs ys where r: "r = xs @ c # ys" by (auto dest: split_list)
  then show ?thesis using c others_append[of c xs ys] by auto
qed

lemma next_ready_runnable:
  assumes "kq_ok s Q"
  shows "next_ready s Q = None \<longleftrightarrow> runnable s Q = {}" "next_ready s Q = Some p \<Longrightarrow> p \<in> runnable s Q"
proof -
  have o: "set (others (cur_cpu s) (Q ReadyQ)) = set (Q ReadyQ) - {cur_cpu s}"
    by (rule set_others) (use kq_okD[OF assms] qs_okD(5)[OF kq_okD(1)[OF assms]] in auto)
  show "next_ready s Q = None \<longleftrightarrow> runnable s Q = {}" unfolding next_ready_def find_None_iff runnable_def
    using o by blast
  assume "next_ready s Q = Some p"
  from find_SomeD[OF this[unfolded next_ready_def]] show "p \<in> runnable s Q" using o by (auto simp: runnable_def)
qed

text \<open>
  \<open>n\<close> processes in turn wait at the barrier, each the one that runs when the one before it has blocked: who calls and
  what the call answers.
\<close>

fun barrier_waits :: "int \<Rightarrow> nat \<Rightarrow> 'd kstate \<Rightarrow> ((addr \<times> int outcome) list \<times> 'd kstate) option" where
  "barrier_waits b 0 s = Some ([], s)"
| "barrier_waits b (Suc n) s = do { (r, s1) \<leftarrow> do_barrier_wait b s; (rs, s2) \<leftarrow> barrier_waits b n s1; Some ((cur_cpu s, r) # rs, s2) }"

lemma runnable_blocked:
  assumes k: "kq_ok s Q" and n: "next_ready s Q = Some p" and h: "handed (cur_cpu s) p s0 s'" "cur_cpu s' = p"
    and same: "cpu_id s0 = cpu_id s" "pcbs s0 = pcbs s" and q: "q \<noteq> ReadyQ"
  shows "runnable s' (moved ReadyQ (cur_cpu s) q NULL Q) = runnable s Q - {p}"
proof -
  note d = kq_okD[OF k]
  have st: "set (moved ReadyQ (cur_cpu s) q NULL Q ReadyQ) = set (Q ReadyQ) - {cur_cpu s}"
    using set_moved[OF d(1) q[symmetric], of NULL "cur_cpu s" ReadyQ] q by simp
  have "can_run (cpu_id s') (pcbs s' x) = can_run (cpu_id s) (pcbs s x)" if "x \<noteq> cur_cpu s" "x \<noteq> p" for x
  proof -
    have "same_pcb (pcbs s' x) (pcbs s x)" "status (pcbs s' x) = status (pcbs s x)" "cpu_id s' = cpu_id s"
      using h(1) same that handed_fields(5)[OF h(1)] by (simp_all add: handed_def)
    then show ?thesis by (simp add: can_run_def same_pcb_fields(5))
  qed
  then show ?thesis unfolding runnable_def st h(2) by auto
qed

lemma barrier_wait_blocks:
  assumes k: "kq_ok s Q" and sf: "spin_free s" and i: "i < 16" and ok: "barrier_ok s Q i" and x: "bopid (barriers s ! i) \<noteq> INVALID_PID"
    and g: "come (barriers s ! i) + 1 < goal (barriers s ! i)" and n: "next_ready s Q = Some p"
  shows "\<exists>s'. do_barrier_wait (int i) s = Some (Blocked, s') \<and> runnable s' (moved ReadyQ (cur_cpu s) (BarrierQ i) NULL Q) = runnable s Q - {p}"
proof -
  note f = spin_freeD[OF sf i]
  let ?x = "barriers s ! i"
  let ?v = "come ?x + 1"
  let ?s1 = "s\<lparr>barriers := (barriers s)[i := ?x\<lparr>bslock := LOCKED, come := ?v\<rparr>]\<rparr>" and ?Q = "moved ReadyQ (cur_cpu s) (BarrierQ i) NULL Q"
  have c: "c_int32 ?v = Some ?v" using ok x by (auto simp: c_int32_def barrier_ok_def Let_def)
  have k1: "kq_ok ?s1 Q" using k by simp
  obtain s2 where s2: "handed (cur_cpu s) p ?s1 s2" "cur_cpu s2 = p" "\<forall>l. do_block (BarrierQ i) (Some l) ?s1 = slock_release l s2"
    using do_block_spec[OF k1, of "BarrierQ i"] n by auto
  have se: "barriers s2 = (barriers s)[i := ?x\<lparr>bslock := LOCKED, come := ?v\<rparr>]" using handed_fields(3)[OF s2(1)] by simp
  let ?s = "s2\<lparr>barriers := (barriers s2)[i := ?x\<lparr>come := ?v, bslock := UNLOCKED\<rparr>]\<rparr>"
  have "do_barrier_wait (int i) s = Some (Blocked, ?s)"
    using i f(3,7) x c g s2(3) se by (simp add: do_barrier_wait_def slock_simps upd_barrier_def kconst Let_def)
  moreover have "runnable ?s ?Q = runnable s2 ?Q" by (simp add: runnable_def)
  moreover have "runnable s2 ?Q = runnable s Q - {p}"
    by (rule runnable_blocked[OF k n s2(1,2)]) simp_all
  ultimately show ?thesis by blast
qed

text \<open>The barrier has opened: \<open>ws\<close> are the processes that have blocked since the state \<open>s\<close>, and \<open>s'\<close> is the state afterwards.\<close>

definition opened :: "nat \<Rightarrow> 'd kstate \<Rightarrow> (qref \<Rightarrow> addr list) \<Rightarrow> addr list \<Rightarrow> 'd kstate \<Rightarrow> (qref \<Rightarrow> addr list) \<Rightarrow> bool" where
  "opened i s Q ws s' Q' \<longleftrightarrow> distinct (ws @ [cur_cpu s']) \<and> set (ws @ [cur_cpu s']) \<subseteq> set (Q ReadyQ) \<and>
     Q' (BarrierQ i) = [] \<and> set (Q' ReadyQ) = set (Q ReadyQ) \<union> set (Q (BarrierQ i)) \<and> (\<forall>q. q \<noteq> ReadyQ \<longrightarrow> q \<noteq> BarrierQ i \<longrightarrow> Q' q = Q q) \<and>
     (\<forall>p \<in> set (Q (BarrierQ i)) \<union> set ws. status (pcbs s' p) = TASK_READY) \<and> come (barriers s' ! i) = 0"

lemma opened_at_once:
  assumes k: "kq_ok s Q" and Q': "Q' = all_woken (cur_cpu s) (BarrierQ i) Q" and "come (barriers s' ! i) = 0" and "cur_cpu s' = cur_cpu s"
    and "\<forall>p \<in> set (Q (BarrierQ i)). status (pcbs s' p) = TASK_READY"
  shows "opened i s Q [] s' Q'"
  using assms(3-5) kq_okD(2)[OF k] fold_insert_after[OF kq_okD(2)[OF k], of "Q (BarrierQ i)"]
  by (auto simp: opened_def Q' all_woken_def)

lemma opened_later:
  assumes k: "kq_ok s Q" and o: "opened i s1 (moved ReadyQ (cur_cpu s) (BarrierQ i) NULL Q) ws s' Q'"
  shows "opened i s Q (cur_cpu s # ws) s' Q'"
proof -
  let ?Q = "moved ReadyQ (cur_cpu s) (BarrierQ i) NULL Q"
  note d = kq_okD[OF k]
  have r: "set (?Q ReadyQ) = set (Q ReadyQ) - {cur_cpu s}"
    using set_moved[OF d(1), of ReadyQ "BarrierQ i" NULL "cur_cpu s" ReadyQ] by simp
  have b: "?Q (BarrierQ i) = Q (BarrierQ i) @ [cur_cpu s]" by (simp add: moved_def)
  have "?Q q = Q q" if "q \<noteq> ReadyQ" "q \<noteq> BarrierQ i" for q using that by (simp add: moved_def)
  then show ?thesis using o d(2) unfolding opened_def r b by auto
qed

lemma barrier_waits_open:
  assumes "kq_ok s Q" and "spin_free s" and i: "i < 16" and "barrier_ok s Q i" and "bopid (barriers s ! i) \<noteq> INVALID_PID"
    and "goal (barriers s ! i) = come (barriers s ! i) + int (Suc n)" and "n \<le> card (runnable s Q)"
  shows "\<exists>ws s' Q'. barrier_waits (int i) (Suc n) s = Some (map (\<lambda>p. (p, Blocked)) ws @ [(cur_cpu s', Done (goal (barriers s ! i)))], s') \<and>
    length ws = n \<and> kq_ok s' Q' \<and> spin_free s' \<and> barrier_ok s' Q' i \<and> opened i s Q ws s' Q'"
  using assms(1,2,4-7)
proof (induction n arbitrary: s Q)
  case 0
  let ?Q = "all_woken (cur_cpu s) (BarrierQ i) Q"
  obtain s' where s': "do_barrier_wait (int i) s = Some (Done (goal (barriers s ! i)), s')" "kq_ok s' ?Q"
    "spin_free s'" "barrier_ok s' ?Q i" "come (barriers s' ! i) = 0"
    "cur_cpu s' = cur_cpu s" "\<forall>p \<in> set (Q (BarrierQ i)). status (pcbs s' p) = TASK_READY"
    using barrier_wait_spec[OF 0(1,2) i 0(3,4)] 0(5) by auto
  show ?case using s' opened_at_once[OF 0(1) refl s'(5-7)] by (intro exI[of _ "[]"] exI[of _ s'] exI[of _ ?Q]) simp
next
  case (Suc n)
  have "runnable s Q \<noteq> {}" using Suc(7) by auto
  then obtain p where p: "next_ready s Q = Some p" using next_ready_runnable(1)[OF Suc(2)] by auto
  have pr: "p \<in> runnable s Q" by (rule next_ready_runnable(2)[OF Suc(2) p])
  let ?Q = "moved ReadyQ (cur_cpu s) (BarrierQ i) NULL Q"
  have lt: "come (barriers s ! i) + 1 < goal (barriers s ! i)" using Suc(6) by simp
  obtain s1 where s1: "do_barrier_wait (int i) s = Some (Blocked, s1)" "runnable s1 ?Q = runnable s Q - {p}"
    using barrier_wait_blocks[OF Suc(2,3) i Suc(4,5) lt p] by blast
  have s1': "kq_ok s1 ?Q" "spin_free s1" "barrier_ok s1 ?Q i" "goal (barriers s1 ! i) = goal (barriers s ! i)"
    "bopid (barriers s1 ! i) = bopid (barriers s ! i)" "come (barriers s1 ! i) = come (barriers s ! i) + 1"
    using barrier_wait_spec[OF Suc(2,3) i Suc(4,5)] s1(1) lt p by auto
  have "finite (runnable s Q)" by (simp add: runnable_def)
  then have "n \<le> card (runnable s1 ?Q)" using Suc(7) pr s1(2) by simp
  then obtain ws s' Q' where s': "barrier_waits (int i) (Suc n) s1 = Some (map (\<lambda>p. (p, Blocked)) ws @ [(cur_cpu s', Done (goal (barriers s1 ! i)))], s')"
    "length ws = n" "kq_ok s' Q'" "spin_free s'" "barrier_ok s' Q' i" "opened i s1 ?Q ws s' Q'"
    using Suc(1)[OF s1'(1-3)] s1'(4-6) Suc(5,6) by auto
  have "barrier_waits (int i) (Suc (Suc n)) s =
      Some (map (\<lambda>p. (p, Blocked)) (cur_cpu s # ws) @ [(cur_cpu s', Done (goal (barriers s ! i)))], s')"
    using s1(1) s'(1) s1'(4) by (subst barrier_waits.simps) (simp del: barrier_waits.simps)
  then show ?case using s'(2-5) opened_later[OF Suc(2) s'(6)] by (intro exI[of _ "cur_cpu s # ws"] exI[of _ s'] exI[of _ Q']) simp
qed

section \<open>What the objects guarantee\<close>

definition demo_objs :: "(nat \<Rightarrow> u8 list) kstate" where
  "demo_objs = demo_ks\<lparr>mlocks := (mlocks demo_ks)[3 := \<lparr>mslock = UNLOCKED, mstatus = LOCKED, mkey = 0, mopid = 7\<rparr>],
     semaphores := (semaphores demo_ks)[1 := \<lparr>sslock = UNLOCKED, sopid = 2, svalue = 0\<rparr>],
     barriers := (barriers demo_ks)[2 := \<lparr>bslock = UNLOCKED, bopid = 2, goal = 2, come = 0\<rparr>]\<rparr>"

lemma demo_objs_ok: "kq_ok demo_objs demo_Q" "spin_free demo_objs" "next_ready demo_objs demo_Q = Some 0x40" "cur_cpu demo_objs = 0x20"
proof -
  have "spin_free demo_ks" by (simp add: spin_free_def demo_ks_def)
  from spin_free_upd(1)[OF this, of "\<lparr>mslock = UNLOCKED, mstatus = LOCKED, mkey = 0, mopid = 7\<rparr>" 3]
  have "spin_free (demo_ks\<lparr>mlocks := (mlocks demo_ks)[3 := \<lparr>mslock = UNLOCKED, mstatus = LOCKED, mkey = 0, mopid = 7\<rparr>]\<rparr>)" by simp
  from spin_free_upd(2)[OF this, of "\<lparr>sslock = UNLOCKED, sopid = 2, svalue = 0\<rparr>" 1]
  have "spin_free (demo_ks\<lparr>mlocks := (mlocks demo_ks)[3 := \<lparr>mslock = UNLOCKED, mstatus = LOCKED, mkey = 0, mopid = 7\<rparr>],
    semaphores := (semaphores demo_ks)[1 := \<lparr>sslock = UNLOCKED, sopid = 2, svalue = 0\<rparr>]\<rparr>)" by simp
  from spin_free_upd(3)[OF this, of "\<lparr>bslock = UNLOCKED, bopid = 2, goal = 2, come = 0\<rparr>" 2]
  show "spin_free demo_objs" by (simp add: demo_objs_def)
qed (use demo_kq_ok demo_next in \<open>simp_all add: demo_objs_def\<close>)

text \<open>
  C21: Mutual exclusion. A call of \<open>do_mutex_lock_acquire\<close> that comes back without blocking found the lock free or
  already owned by the process, which owns it afterwards; when another process owns it the caller is queued, the owner
  stays, and the spin lock is released. A release by a process that is not the owner is refused and changes nothing at all;
  a release by the owner frees the lock and makes the first waiting process ready. No other lock is touched.
\<close>
theorem mutex_exclusion:
  assumes "kq_ok s Q" and "spin_free s" and "i < 16" and "next_ready s Q \<noteq> None"
  shows "(\<exists>r s' Q'. do_mutex_lock_acquire (int i) s = Some (r, s') \<and> kq_ok s' Q' \<and> spin_free s' \<and>
      (\<forall>j < 16. j \<noteq> i \<longrightarrow> holder s' j = holder s j) \<and>
      (if holder s i \<in> {None, Some (pid (cur_pcb s))} then r = Done (int i) \<and> Q' = Q \<and> holder s' i = Some (pid (cur_pcb s))
       else r = Blocked \<and> Q' = moved ReadyQ (cur_cpu s) (MutexQ i) NULL Q \<and> holder s' i = holder s i \<and> Some (cur_cpu s') = next_ready s Q)) \<and>
    (\<exists>r s' Q'. do_mutex_lock_release (int i) s = Some (r, s') \<and> kq_ok s' Q' \<and> spin_free s' \<and>
      (\<forall>j < 16. j \<noteq> i \<longrightarrow> holder s' j = holder s j) \<and>
      (case holder s i of None \<Rightarrow> r = -3 \<and> s' = s \<and> Q' = Q
       | Some p \<Rightarrow> if p \<noteq> pid (cur_pcb s) then r = -2 \<and> s' = s \<and> Q' = Q
           else r = int i \<and> holder s' i = None \<and>
             Q' = (if Q (MutexQ i) = [] then Q else moved (MutexQ i) (hd (Q (MutexQ i))) ReadyQ (cur_cpu s) Q)))"
  using mutex_acquire_spec[OF assms(1-3)] mutex_release_spec[OF assms(1-3)] assms(4) by blast

theorem mutex_exclusion_witness:
  "(\<exists>s'. do_mutex_lock_acquire 3 demo_objs = Some (Blocked, s') \<and> holder s' 3 = Some 7) \<and>
   do_mutex_lock_release 3 demo_objs = Some (-2, demo_objs)"
proof -
  have h: "holder demo_objs 3 = Some 7" "pid (cur_pcb demo_objs) = 2" "next_ready demo_objs demo_Q \<noteq> None"
    using demo_objs_ok(3) by (simp_all add: holder_def cur_pcb_def demo_objs_ok(4)) (simp_all add: demo_objs_def demo_ks_def demo_pmem_def)
  show ?thesis using mutex_exclusion[OF demo_objs_ok(1,2) _ h(3), of 3] by (auto simp: h)
qed

text \<open>
  C22: A semaphore refines a counter with a waiting list. \<open>do_semaphore_up\<close> adds one and, when the value was
  negative, makes the process that has waited longest ready (a queue that a kill has emptied resets the value);
  \<open>do_semaphore_down\<close> subtracts one and queues the caller when the value becomes negative. The panic on a value that is not
  negative with processes waiting is never reached, and the bound on the queue is kept.
\<close>
theorem semaphore_refines:
  assumes "kq_ok s Q" and "spin_free s" and "i < 16" and "sema_ok s Q i" and "sopid (semaphores s ! i) \<noteq> INVALID_PID"
    and "-2147483648 < svalue (semaphores s ! i)" and "svalue (semaphores s ! i) < 2147483647" and "next_ready s Q \<noteq> None"
  shows "(\<exists>s' Q'. do_semaphore_up (int i) s = Some (fst (sema_V (sema_abs s Q i)), s') \<and> kq_ok s' Q' \<and> spin_free s' \<and>
      sema_ok s' Q' i \<and> sema_abs s' Q' i = sema_V (sema_abs s Q i)) \<and>
    (\<exists>r s' Q'. do_semaphore_down (int i) s = Some (r, s') \<and> kq_ok s' Q' \<and> spin_free s' \<and> sema_ok s' Q' i \<and>
      sema_abs s' Q' i = sema_P (cur_cpu s) (sema_abs s Q i) \<and>
      r = (if svalue (semaphores s ! i) > 0 then Done (svalue (semaphores s ! i) - 1) else Blocked))"
proof (intro conjI)
  show "\<exists>s' Q'. do_semaphore_up (int i) s = Some (fst (sema_V (sema_abs s Q i)), s') \<and> kq_ok s' Q' \<and> spin_free s' \<and>
      sema_ok s' Q' i \<and> sema_abs s' Q' i = sema_V (sema_abs s Q i)"
    using semaphore_up_spec[OF assms(1-5,7)] by blast
  have "svalue (semaphores s ! i) > 0 \<or> next_ready s Q \<noteq> None" using assms(8) by blast
  from semaphore_down_spec[OF assms(1-6) this] obtain r s' Q' where
    "do_semaphore_down (int i) s = Some (r, s')" "kq_ok s' Q'" "spin_free s'" "sema_ok s' Q' i"
    "sema_abs s' Q' i = sema_P (cur_cpu s) (sema_abs s Q i)"
    "r = (if svalue (semaphores s ! i) > 0 then Done (svalue (semaphores s ! i) - 1) else Blocked)"
    by (auto split: if_splits)
  then show "\<exists>r s' Q'. do_semaphore_down (int i) s = Some (r, s') \<and> kq_ok s' Q' \<and> spin_free s' \<and> sema_ok s' Q' i \<and>
      sema_abs s' Q' i = sema_P (cur_cpu s) (sema_abs s Q i) \<and>
      r = (if svalue (semaphores s ! i) > 0 then Done (svalue (semaphores s ! i) - 1) else Blocked)" by blast
qed

theorem semaphore_refines_witness:
  "(\<exists>s'. do_semaphore_up 1 demo_objs = Some (1, s')) \<and>
   (\<exists>s' Q'. do_semaphore_down 1 demo_objs = Some (Blocked, s') \<and> sema_abs s' Q' 1 = (-1, [0x20]))"
proof -
  have x: "semaphores demo_objs ! 1 = \<lparr>sslock = UNLOCKED, sopid = 2, svalue = 0\<rparr>" by (simp add: demo_objs_def demo_ks_def)
  have x': "semaphores demo_objs ! Suc 0 = \<lparr>sslock = UNLOCKED, sopid = 2, svalue = 0\<rparr>" using x by simp
  have "sema_ok demo_objs demo_Q 1" by (simp add: sema_ok_def x' Let_def demo_Q_def kconst)
  moreover have "sema_abs demo_objs demo_Q 1 = (0, [])" by (simp add: sema_abs_def x' demo_Q_def)
  ultimately show ?thesis
    using semaphore_refines[OF demo_objs_ok(1,2), of 1] by (auto simp: x' demo_objs_ok(3,4) kconst)
qed

text \<open>
  C23: A barrier opens. When as many processes as are missing wait at a barrier one after the other, each call but the
  last blocks its caller, and the last one returns the goal without blocking. Then nobody waits at the barrier: the processes that
  waited before and all those that have blocked are in the ready queue with the status \<^verbatim>\<open>TASK_READY\<close>, no process is lost from
  the ready queue, the other queues are as they were, and the count starts anew for the next round.
\<close>
theorem barrier_opens:
  assumes "kq_ok s Q" and "spin_free s" and "i < 16" and "barrier_ok s Q i" and "bopid (barriers s ! i) \<noteq> INVALID_PID"
    and "goal (barriers s ! i) = come (barriers s ! i) + int (Suc n)" and "n \<le> card (runnable s Q)"
  shows "\<exists>ws s' Q'. barrier_waits (int i) (Suc n) s = Some (map (\<lambda>p. (p, Blocked)) ws @ [(cur_cpu s', Done (goal (barriers s ! i)))], s') \<and>
    length ws = n \<and> kq_ok s' Q' \<and> spin_free s' \<and> barrier_ok s' Q' i \<and> opened i s Q ws s' Q'"
  by (rule barrier_waits_open[OF assms])

theorem barrier_opens_witness:
  "\<exists>p s' Q'. barrier_waits 2 2 demo_objs = Some ([(p, Blocked), (cur_cpu s', Done 2)], s') \<and> kq_ok s' Q' \<and> Q' (BarrierQ 2) = [] \<and>
     p \<in> set (Q' ReadyQ) \<and> status (pcbs s' p) = TASK_READY"
proof -
  have x: "barriers demo_objs ! 2 = \<lparr>bslock = UNLOCKED, bopid = 2, goal = 2, come = 0\<rparr>" by (simp add: demo_objs_def demo_ks_def)
  have ok: "barrier_ok demo_objs demo_Q 2" by (simp add: barrier_ok_def x Let_def demo_Q_def kconst)
  have "runnable demo_objs demo_Q \<noteq> {}" using next_ready_runnable(1)[OF demo_objs_ok(1)] demo_objs_ok(3) by auto
  then have c: "1 \<le> card (runnable demo_objs demo_Q)" by (simp add: Suc_le_eq card_gt_0_iff runnable_def)
  have g: "goal (barriers demo_objs ! 2) = come (barriers demo_objs ! 2) + int (Suc 1)" "bopid (barriers demo_objs ! 2) \<noteq> INVALID_PID"
    by (simp_all add: x kconst)
  obtain ws s' Q' where b: "barrier_waits (int 2) (Suc 1) demo_objs =
      Some (map (\<lambda>p. (p, Blocked)) ws @ [(cur_cpu s', Done (goal (barriers demo_objs ! 2)))], s')" "length ws = 1" "kq_ok s' Q'"
    "opened 2 demo_objs demo_Q ws s' Q'"
    using barrier_opens[OF demo_objs_ok(1,2) _ ok g(2,1) c] by auto
  obtain p where ws: "ws = [p]" using b(2) by (auto simp: length_Suc_conv)
  have "p \<in> set (Q' ReadyQ)" "status (pcbs s' p) = TASK_READY" "Q' (BarrierQ 2) = []" using b(4) by (auto simp: opened_def ws)
  then show ?thesis using b(1,3) unfolding x ws Suc_1 by (intro exI[of _ p] exI[of _ s'] exI[of _ Q']) (simp del: barrier_waits.simps)
qed

end
