(* ===== verification/Mbox.thy ===== *)
theory Mbox
  imports Lock
begin

text \<open>
  Mailboxes (\<^verbatim>\<open>kernel/locking/mbox.c\<close>) and the release of everything a killed process holds.

  The buffer of a mailbox is a ring of \<^verbatim>\<open>MAX_MBOX_LENGTH + 1\<close> bytes; \<open>contents\<close> is the byte sequence it stands
  for. The lemmas show that the ring refines a bounded queue of bytes and that what is sent is received in order;
  a process that blocks leaves the length it asks for in its PCB.
\<close>

section \<open>The ring buffer\<close>

definition len_of_queue :: "mailbox \<Rightarrow> u32" where
  "len_of_queue b =
     (if buf_tail b \<ge> buf_head b then buf_tail b - buf_head b
      else buf_tail b + MAX_MBOX_LENGTH + 1 - buf_head b)"

definition queue_enter :: "mailbox \<Rightarrow> u8 \<Rightarrow> (int \<times> mailbox) option" where
  "queue_enter b D =
     (if len_of_queue b < MAX_MBOX_LENGTH then do {
        buf \<leftarrow> upd_chk (xbuf b) (unat (buf_tail b)) D;
        let t = buf_tail b + 1;
        Some (uint D, b\<lparr>xbuf := buf, buf_tail := if t \<ge> MAX_MBOX_LENGTH + 1 then 0 else t\<rparr>)
      } else Some (-1, b))"

definition queue_depart :: "mailbox \<Rightarrow> (int \<times> mailbox) option" where
  "queue_depart b =
     (if len_of_queue b > 0 then do {
        d \<leftarrow> nth_chk (xbuf b) (unat (buf_head b));
        let h = buf_head b + 1;
        Some (uint d, b\<lparr>buf_head := if h \<ge> MAX_MBOX_LENGTH + 1 then 0 else h\<rparr>)
      } else Some (-1, b))"

section \<open>Operations\<close>

definition upd_mbox :: "nat \<Rightarrow> (mailbox \<Rightarrow> mailbox) \<Rightarrow> 'd kstate \<Rightarrow> 'd kstate" where
  "upd_mbox i f s = s\<lparr>mailboxes := (mailboxes s)[i := f (mailboxes s ! i)]\<rparr>"

definition init_mbox :: "'d kstate \<Rightarrow> 'd kstate" where
  "init_mbox s = s\<lparr>mailboxes := map (\<lambda>x. x\<lparr>xslock := spin_lock_init (xslock x), xopid := INVALID_PID\<rparr>) (mailboxes s)\<rparr>"

text \<open>The sum of the first \<open>n\<close> characters of the name.\<close>

fun name_sum :: "cbuf \<Rightarrow> nat \<Rightarrow> nat \<Rightarrow> u32 \<Rightarrow> u32 option" where
  "name_sum name i 0 acc = Some acc"
| "name_sum name i (Suc n) acc = do {
     c \<leftarrow> nth_chk name i;
     if c \<noteq> NUL then name_sum name (i + 1) n (acc + of_nat (of_char c)) else Some acc
   }"

definition do_mbox_open :: "cbuf \<Rightarrow> 'd kstate \<Rightarrow> (int \<times> 'd kstate) option" where
  "do_mbox_open name s = do {
     n \<leftarrow> name_sum name 0 20 0;
     let i = unat (n mod of_nat MBOX_NUM);
     s1 \<leftarrow> slock_acquire (MboxS i) s;
     b \<leftarrow> nth_chk (mailboxes s1) i;
     let s2 =
       (if xopid b = INVALID_PID then
          upd_mbox i (\<lambda>b. b\<lparr>xopid := pid (cur_pcb s1), buf_head := 0, buf_tail := 0\<rparr>)
            (set_head (SendQ i) NULL (set_head (RecvQ i) NULL s1))
        else s1);
     s3 \<leftarrow> slock_release (MboxS i) s2;
     Some (int i, s3)
   }"

definition mbox_wake_all :: "nat \<Rightarrow> 'd kstate \<Rightarrow> 'd kstate option" where
  "mbox_wake_all i s = do {
     s1 \<leftarrow> unblock_all (RecvQ i) (upd_mbox i (\<lambda>b. b\<lparr>xopid := INVALID_PID\<rparr>) s);
     unblock_all (SendQ i) s1
   }"

definition do_mbox_close :: "int \<Rightarrow> 'd kstate \<Rightarrow> (int \<times> 'd kstate) option" where
  "do_mbox_close midx s =
     (if midx < 0 \<or> midx \<ge> int MBOX_NUM then Some (INT32_MIN, s)
      else do {
        let i = nat midx;
        s1 \<leftarrow> slock_acquire (MboxS i) s;
        b \<leftarrow> nth_chk (mailboxes s1) i;
        (rt, s2) \<leftarrow> (if xopid b = INVALID_PID then Some (INT32_MIN, s1) else do { t \<leftarrow> mbox_wake_all i s1; Some (midx, t) });
        s3 \<leftarrow> slock_release (MboxS i) s2;
        Some (rt, s3)
      })"

text \<open>The byte loops of sending and receiving.\<close>

fun enter_bytes :: "mailbox \<Rightarrow> u8 list \<Rightarrow> mailbox option" where
  "enter_bytes b [] = Some b"
| "enter_bytes b (x # xs) = do {
     (r, b1) \<leftarrow> queue_enter b x;
     if r \<noteq> uint x then None else enter_bytes b1 xs
   }"

fun depart_bytes :: "mailbox \<Rightarrow> nat \<Rightarrow> (u8 list \<times> mailbox) option" where
  "depart_bytes b 0 = Some ([], b)"
| "depart_bytes b (Suc n) = do {
     (d, b1) \<leftarrow> queue_depart b;
     if d = -1 then None else do { (ds, b2) \<leftarrow> depart_bytes b1 n; Some (word_of_int d # ds, b2) }
   }"

text \<open>Waking receivers as long as the first one finds enough bytes.\<close>

partial_function (option) wake_receivers :: "nat \<Rightarrow> 'd kstate \<Rightarrow> 'd kstate option" where
  "wake_receivers i s = do {
     b \<leftarrow> nth_chk (mailboxes s) i;
     if heads s (RecvQ i) \<noteq> NULL \<and> len_of_queue b \<ge> req_len (pcbs s (heads s (RecvQ i))) then do {
       s1 \<leftarrow> unblock_head (RecvQ i) s; wake_receivers i s1 }
     else Some s
   }"

text \<open>
  Sending from the test of the loop on, with the spin lock held; \<open>y\<close> counts how often the process has blocked. A process
  that blocks stores its request in its PCB.
\<close>

definition send_loop :: "nat \<Rightarrow> u8 list \<Rightarrow> int \<Rightarrow> 'd kstate \<Rightarrow> (int outcome \<times> 'd kstate) option" where
  "send_loop i msg y s = do {
     b \<leftarrow> nth_chk (mailboxes s) i;
     if MAX_MBOX_LENGTH - len_of_queue b < of_nat (length msg) then do {
       s1 \<leftarrow> do_block (SendQ i) (Some (MboxS i)) (upd_pcb (cur_cpu s) (\<lambda>c. c\<lparr>req_len := of_nat (length msg)\<rparr>) s);
       Some (Blocked, s1)
     } else do {
       b1 \<leftarrow> enter_bytes b msg;
       s1 \<leftarrow> wake_receivers i (upd_mbox i (\<lambda>_. b1) s);
       s2 \<leftarrow> slock_release (MboxS i) s1;
       Some (Done y, s2)
     }
   }"

definition do_mbox_send :: "int \<Rightarrow> u8 list \<Rightarrow> 'd kstate \<Rightarrow> (int outcome \<times> 'd kstate) option" where
  "do_mbox_send midx msg s =
     (if midx < 0 \<or> midx \<ge> int MBOX_NUM \<or> length msg \<le> 0 \<or> length msg > unat MAX_MBOX_LENGTH then Some (Done INT32_MIN, s)
      else do {
        let i = nat midx;
        s1 \<leftarrow> slock_acquire (MboxS i) s;
        b \<leftarrow> nth_chk (mailboxes s1) i;
        if xopid b = INVALID_PID then do { s2 \<leftarrow> slock_release (MboxS i) s1; Some (Done INT32_MIN, s2) }
        else send_loop i msg 0 s1
      })"

text \<open>After the \<open>y\<close>-th time of being blocked.\<close>

definition do_mbox_send_resume :: "int \<Rightarrow> u8 list \<Rightarrow> int \<Rightarrow> 'd kstate \<Rightarrow> (int outcome \<times> 'd kstate) option" where
  "do_mbox_send_resume midx msg y s = do {
     let i = nat midx;
     s1 \<leftarrow> do_block_resume (Some (MboxS i)) s;
     b \<leftarrow> nth_chk (mailboxes s1) i;
     if xopid b = INVALID_PID then do { s2 \<leftarrow> slock_release (MboxS i) s1; Some (Done INT32_MIN, s2) }
     else send_loop i msg y s1
   }"

text \<open>Receiving \<open>n\<close> bytes; the bytes stored in the buffer of the user are part of the result.\<close>

definition recv_loop :: "nat \<Rightarrow> u32 \<Rightarrow> int \<Rightarrow> 'd kstate \<Rightarrow> (int outcome \<times> u8 list \<times> 'd kstate) option" where
  "recv_loop i n y s = do {
     b \<leftarrow> nth_chk (mailboxes s) i;
     if len_of_queue b < n then do {
       s1 \<leftarrow> do_block (RecvQ i) (Some (MboxS i)) (upd_pcb (cur_cpu s) (\<lambda>c. c\<lparr>req_len := n\<rparr>) s);
       Some (Blocked, [], s1)
     } else do {
       (ds, b1) \<leftarrow> depart_bytes b (unat n);
       s1 \<leftarrow> unblock_all (SendQ i) (upd_mbox i (\<lambda>_. b1) s);
       s2 \<leftarrow> slock_release (MboxS i) s1;
       Some (Done y, ds, s2)
     }
   }"

definition do_mbox_recv :: "int \<Rightarrow> u64 \<Rightarrow> u32 \<Rightarrow> 'd kstate \<Rightarrow> (int outcome \<times> u8 list \<times> 'd kstate) option" where
  "do_mbox_recv midx addr n s =
     (if midx < 0 \<or> midx \<ge> int MBOX_NUM \<or> n \<le> 0 \<or> n > MAX_MBOX_LENGTH then Some (Done INT32_MIN, [], s)
      else if addr \<ge> KVA_MIN then Some (Done INT32_MIN, [], s)
      else do {
        let i = nat midx;
        s1 \<leftarrow> slock_acquire (MboxS i) s;
        b \<leftarrow> nth_chk (mailboxes s1) i;
        if xopid b = INVALID_PID then do { s2 \<leftarrow> slock_release (MboxS i) s1; Some (Done INT32_MIN, [], s2) }
        else recv_loop i n 0 s1
      })"

definition do_mbox_recv_resume :: "int \<Rightarrow> u32 \<Rightarrow> int \<Rightarrow> 'd kstate \<Rightarrow> (int outcome \<times> u8 list \<times> 'd kstate) option" where
  "do_mbox_recv_resume midx n y s = do {
     let i = nat midx;
     s1 \<leftarrow> do_block_resume (Some (MboxS i)) s;
     b \<leftarrow> nth_chk (mailboxes s1) i;
     if xopid b = INVALID_PID then do { s2 \<leftarrow> slock_release (MboxS i) s1; Some (Done INT32_MIN, [], s2) }
     else recv_loop i n y s1
   }"

definition mbox_killed :: "int \<Rightarrow> nat \<Rightarrow> 'd kstate \<Rightarrow> 'd kstate option" where
  "mbox_killed kpid i s = do {
     s1 \<leftarrow> slock_acquire (MboxS i) s;
     b \<leftarrow> nth_chk (mailboxes s1) i;
     s2 \<leftarrow> (if xopid b = kpid then mbox_wake_all i s1 else Some s1);
     slock_release (MboxS i) s2
   }"

definition mbox_release_killed :: "int \<Rightarrow> 'd kstate \<Rightarrow> 'd kstate option" where
  "mbox_release_killed kpid = for_each [0..<MBOX_NUM] (mbox_killed kpid)"

definition ress_release_killed :: "int \<Rightarrow> 'd kstate \<Rightarrow> 'd kstate option" where
  "ress_release_killed kpid s = do {
     s1 \<leftarrow> for_each [0..<LOCK_NUM] (mutex_killed kpid) s;
     s2 \<leftarrow> for_each [0..<SEMAPHORE_NUM] (sema_killed kpid) s1;
     s3 \<leftarrow> for_each [0..<BARRIER_NUM] (barrier_killed kpid) s2;
     mbox_release_killed kpid s3
   }"

text \<open>The initialisation of all objects; the array of free spin locks has no elements.\<close>

definition init_locks :: "'d kstate \<Rightarrow> 'd kstate" where
  "init_locks s =
     (let s1 = s\<lparr>mlocks := map (\<lambda>l. l\<lparr>mslock := spin_lock_init (mslock l), mstatus := UNLOCKED, mkey := 0, mopid := INVALID_PID\<rparr>) (mlocks s),
            heads := (\<lambda>q. case q of MutexQ i \<Rightarrow> if i < LOCK_NUM then NULL else heads s q | _ \<Rightarrow> heads s q)\<rparr> in
      init_mbox (init_barriers (init_semaphores s1)))"

section \<open>The ring as a sequence of bytes\<close>

definition mbox_ok :: "mailbox \<Rightarrow> bool" where
  "mbox_ok b \<longleftrightarrow> length (xbuf b) = 72 \<and> unat (buf_head b) < 72 \<and> unat (buf_tail b) < 72"

definition ring_len :: "mailbox \<Rightarrow> nat" where
  "ring_len b = (if unat (buf_head b) \<le> unat (buf_tail b) then unat (buf_tail b) - unat (buf_head b)
     else unat (buf_tail b) + 72 - unat (buf_head b))"

definition contents :: "mailbox \<Rightarrow> u8 list" where
  "contents b = map (\<lambda>k. xbuf b ! ((unat (buf_head b) + k) mod 72)) [0..<ring_len b]"

lemma length_contents [simp]: "length (contents b) = ring_len b"
  by (simp add: contents_def)

lemma ring_len_le: "mbox_ok b \<Longrightarrow> ring_len b \<le> 71"
  by (auto simp: mbox_ok_def ring_len_def)

lemma len_of_queue_contents: "mbox_ok b \<Longrightarrow> unat (len_of_queue b) = length (contents b)"
  by (auto simp: mbox_ok_def len_of_queue_def ring_len_def kconst word_le_nat_alt unat_sub unat_word_ariths)

lemma ring_succ: "unat (x :: u32) < 72 \<Longrightarrow> unat (if x + 1 \<ge> MAX_MBOX_LENGTH + 1 then 0 else x + 1) = (if unat x = 71 then 0 else unat x + 1)"
  by (simp add: kconst word_le_nat_alt unat_word_ariths)

lemma ring_index:
  assumes "mbox_ok b"
  shows "(unat (buf_head b) + ring_len b) mod 72 = unat (buf_tail b)"
    "k < ring_len b \<Longrightarrow> (unat (buf_head b) + k) mod 72 \<noteq> unat (buf_tail b)"
proof -
  let ?h = "unat (buf_head b)" and ?t = "unat (buf_tail b)"
  have b: "?h < 72" "?t < 72" using assms by (simp_all add: mbox_ok_def)
  have m: "(?h + k) mod 72 = (if ?h + k < 72 then ?h + k else ?h + k - 72)" if "k \<le> 71" for k
    using b that by (simp add: mod_if)
  show "(?h + ring_len b) mod 72 = ?t" using b m[OF ring_len_le[OF assms]] by (auto simp: ring_len_def split: if_splits)
  show "k < ring_len b \<Longrightarrow> (?h + k) mod 72 \<noteq> ?t"
    using b m[of k] ring_len_le[OF assms] by (auto simp: ring_len_def split: if_splits)
qed

lemma queue_enter_spec [kspec]:
  assumes ok: "mbox_ok b" and n: "length (contents b) < 71"
  shows "\<exists>b'. queue_enter b D = Some (uint D, b') \<and> mbox_ok b' \<and> contents b' = contents b @ [D] \<and>
    xslock b' = xslock b \<and> xopid b' = xopid b"
proof -
  let ?t = "unat (buf_tail b)" and ?h = "unat (buf_head b)"
  have l: "len_of_queue b < MAX_MBOX_LENGTH" using len_of_queue_contents[OF ok] n by (simp add: word_less_nat_alt kconst)
  have t: "?t < length (xbuf b)" "?t < 72" using ok by (simp_all add: mbox_ok_def)
  let ?b = "b\<lparr>xbuf := (xbuf b)[?t := D], buf_tail := if buf_tail b + 1 \<ge> MAX_MBOX_LENGTH + 1 then 0 else buf_tail b + 1\<rparr>"
  have ok': "mbox_ok ?b" using ok ring_succ[OF t(2)] by (auto simp: mbox_ok_def)
  have rl: "ring_len ?b = Suc (ring_len b)" using ok n ring_succ[OF t(2)] by (auto simp: mbox_ok_def ring_len_def split: if_splits)
  have ne: "\<forall>k \<in> set [0..<ring_len b]. (xbuf b)[?t := D] ! ((?h + k) mod 72) = xbuf b ! ((?h + k) mod 72)"
    using ring_index(2)[OF ok] by (metis atLeastLessThan_iff nth_list_update_neq set_upt)
  have "contents ?b = contents b @ [D]"
    unfolding contents_def rl using ring_index(1)[OF ok] ne t(1) by simp
  moreover have "queue_enter b D = Some (uint D, ?b)" using l t by (simp add: queue_enter_def Let_def)
  ultimately show ?thesis using ok' by simp
qed

lemma queue_depart_spec [kspec]:
  assumes ok: "mbox_ok b" and n: "contents b = d # ds"
  shows "\<exists>b'. queue_depart b = Some (uint d, b') \<and> mbox_ok b' \<and> contents b' = ds \<and> xslock b' = xslock b \<and> xopid b' = xopid b"
proof -
  let ?h = "unat (buf_head b)"
  have r: "ring_len b = Suc (length ds)" using arg_cong[OF n, of length] by simp
  have l: "len_of_queue b > 0" using len_of_queue_contents[OF ok] r by (simp add: word_less_nat_alt)
  have h: "?h < length (xbuf b)" "?h < 72" using ok by (simp_all add: mbox_ok_def)
  let ?b = "b\<lparr>buf_head := if buf_head b + 1 \<ge> MAX_MBOX_LENGTH + 1 then 0 else buf_head b + 1\<rparr>"
  have ok': "mbox_ok ?b" using ok ring_succ[OF h(2)] by (auto simp: mbox_ok_def)
  have rl: "ring_len ?b = length ds" using ok r ring_succ[OF h(2)] by (auto simp: mbox_ok_def ring_len_def split: if_splits)
  have e: "map f [0..<Suc m] = f 0 # map (\<lambda>k. f (Suc k)) [0..<m]" for f :: "nat \<Rightarrow> u8" and m
    by (simp add: map_upt_Suc del: upt_Suc)
  have "xbuf b ! ?h = d" "map (\<lambda>k. xbuf b ! ((?h + Suc k) mod 72)) [0..<length ds] = ds"
    using n h(2) unfolding contents_def r e by simp_all
  moreover have "(unat (buf_head ?b) + k) mod 72 = (?h + Suc k) mod 72" for k
    using ring_succ[OF h(2)] by (auto simp: mod_simps)
  ultimately have "contents ?b = ds" "xbuf b ! ?h = d" unfolding contents_def rl by simp_all
  moreover have "queue_depart b = Some (uint (xbuf b ! ?h), ?b)" using l h by (simp add: queue_depart_def Let_def)
  ultimately show ?thesis using ok' by auto
qed


text \<open>What sending and receiving use of the ring: a bounded queue with room for \<open>cap\<close> items.\<close>

locale bounded_queue =
  fixes ok :: "'q \<Rightarrow> bool"
    and items :: "'q \<Rightarrow> 'a list"
    and cap :: nat
    and put :: "'q \<Rightarrow> 'a \<Rightarrow> 'q option"
    and get :: "'q \<Rightarrow> ('a \<times> 'q) option"
    and put_all :: "'q \<Rightarrow> 'a list \<Rightarrow> 'q option"
    and get_all :: "'q \<Rightarrow> nat \<Rightarrow> ('a list \<times> 'q) option"
    and frame :: "'q \<Rightarrow> 'b"
  assumes put_room: "ok b \<Longrightarrow> length (items b) < cap \<Longrightarrow>
      \<exists>b'. put b x = Some b' \<and> ok b' \<and> items b' = items b @ [x] \<and> frame b' = frame b"
    and get_first: "ok b \<Longrightarrow> items b = x # xs \<Longrightarrow> \<exists>b'. get b = Some (x, b') \<and> ok b' \<and> items b' = xs \<and> frame b' = frame b"
    and put_all_step: "put_all b [] = Some b" "put b x = Some b' \<Longrightarrow> put_all b (x # xs) = put_all b' xs"
    and get_all_step: "get_all b 0 = Some ([], b)"
      "get b = Some (x, b') \<Longrightarrow> get_all b' n = Some (xs, b'') \<Longrightarrow> get_all b (Suc n) = Some (x # xs, b'')"
begin

lemma put_all_appends:
  "ok b \<Longrightarrow> length (items b) + length xs \<le> cap \<Longrightarrow>
   \<exists>b'. put_all b xs = Some b' \<and> ok b' \<and> items b' = items b @ xs \<and> frame b' = frame b"
proof (induction xs arbitrary: b)
  case (Cons x xs)
  obtain b1 where b1: "put b x = Some b1" "ok b1" "items b1 = items b @ [x]" "frame b1 = frame b"
    using put_room[OF Cons(2), of x] Cons(3) by auto
  then show ?case using Cons(1)[OF b1(2)] Cons(3) by (simp add: put_all_step(2)[OF b1(1)])
qed (simp add: put_all_step)

lemma get_all_takes:
  "ok b \<Longrightarrow> n \<le> length (items b) \<Longrightarrow>
   \<exists>b'. get_all b n = Some (take n (items b), b') \<and> ok b' \<and> items b' = drop n (items b) \<and> frame b' = frame b"
proof (induction n arbitrary: b)
  case (Suc n)
  then obtain x xs where i: "items b = x # xs" by (cases "items b") auto
  obtain b1 where b1: "get b = Some (x, b1)" "ok b1" "items b1 = xs" "frame b1 = frame b"
    using get_first[OF Suc(2) i] by blast
  obtain b2 where b2: "get_all b1 n = Some (take n xs, b2)" "ok b2" "items b2 = drop n xs" "frame b2 = frame b"
    using Suc(1)[OF b1(2)] Suc(3) b1(3,4) i by auto
  show ?case using get_all_step(2)[OF b1(1) b2(1)] b2(2-4) i by auto
qed (simp add: get_all_step)

end

interpretation mq: bounded_queue mbox_ok contents 71
  "\<lambda>b x. case queue_enter b x of None \<Rightarrow> None | Some (r, b') \<Rightarrow> if r \<noteq> uint x then None else Some b'"
  "\<lambda>b. case queue_depart b of None \<Rightarrow> None | Some (d, b') \<Rightarrow> if d = -1 then None else Some (word_of_int d, b')" enter_bytes depart_bytes
  "\<lambda>b. (xslock b, xopid b)"
proof unfold_locales
  fix b x assume "mbox_ok b" "length (contents b) < 71"
  then show "\<exists>b'. (case queue_enter b x of None \<Rightarrow> None | Some (r, b') \<Rightarrow> if r \<noteq> uint x then None else Some b') = Some b' \<and> mbox_ok b' \<and> contents b' = contents b @ [x] \<and>
      (xslock b', xopid b') = (xslock b, xopid b)"
    using queue_enter_spec[of b x] by fastforce
next
  fix b x xs assume "mbox_ok b" "contents b = x # xs"
  then obtain b' where "queue_depart b = Some (uint x, b')" "mbox_ok b'" "contents b' = xs" "xslock b' = xslock b" "xopid b' = xopid b"
    using queue_depart_spec[of b x xs] by blast
  moreover have "uint x \<noteq> -1" using uint_ge_0[of x] by linarith
  ultimately show "\<exists>b'. (case queue_depart b of None \<Rightarrow> None | Some (d, b') \<Rightarrow> if d = -1 then None else Some (word_of_int d, b')) = Some (x, b') \<and>
      mbox_ok b' \<and> contents b' = xs \<and> (xslock b', xopid b') = (xslock b, xopid b)" by simp
qed (auto split: option.splits if_splits)


section \<open>Sending and receiving\<close>

text \<open>Waking the receivers that find enough bytes, in the order of the queue.\<close>

definition served :: "addr \<Rightarrow> nat \<Rightarrow> u32 \<Rightarrow> pmem \<Rightarrow> (qref \<Rightarrow> addr list) \<Rightarrow> qref \<Rightarrow> addr list" where
  "served c i n m Q = (let w = takeWhile (\<lambda>p. req_len (m p) \<le> n) (Q (RecvQ i)) in
     Q(RecvQ i := drop (length w) (Q (RecvQ i)), ReadyQ := fold (insert_after c) w (Q ReadyQ)))"

lemma wake_receivers_spec [kspec]:
  assumes "kq_ok s Q" and "i < length (mailboxes s)"
  shows "\<exists>s'. wake_receivers i s = Some s' \<and> kq_ok s' (served (cur_cpu s) i (len_of_queue (mailboxes s ! i)) (pcbs s) Q) \<and>
    (\<exists>A. woke A s s')"
  using assms
proof (induction "Q (RecvQ i)" arbitrary: s Q)
  case Nil
  then have "served (cur_cpu s) i (len_of_queue (mailboxes s ! i)) (pcbs s) Q = Q" by (auto simp: served_def fun_eq_iff)
  moreover have "heads s (RecvQ i) = NULL" using qs_okD(6)[OF kq_okD(1)[OF Nil(2)], of "RecvQ i"] Nil(1) by simp
  ultimately show ?case using Nil(2,3) woke_refl by (subst wake_receivers.simps) auto
next
  case (Cons p ps)
  note d = kq_okD[OF Cons(3)]
  let ?n = "len_of_queue (mailboxes s ! i)" and ?Q = "moved (RecvQ i) p ReadyQ (cur_cpu s) Q"
  have h: "heads s (RecvQ i) = p" "p \<noteq> NULL" using qs_okD(1)[OF d(1), of "RecvQ i"] by (auto simp: ring_def simp flip: Cons(2))
  show ?case
  proof (cases "req_len (pcbs s p) \<le> ?n")
    case False
    then have "served (cur_cpu s) i ?n (pcbs s) Q = Q" by (auto simp: served_def fun_eq_iff simp flip: Cons(2))
    moreover have "wake_receivers i s = Some s" using False h Cons(4) by (subst wake_receivers.simps) simp
    ultimately show ?thesis using Cons(3) woke_refl by auto
  next
    case True
    obtain s1 where s1: "unblock_head (RecvQ i) s = Some s1" "kq_ok s1 ?Q" "woke {p} s s1"
      using unblock_head_spec[OF Cons(3) _ Cons(2)[symmetric]] by auto
    have q: "ps = ?Q (RecvQ i)" by (simp add: moved_def flip: Cons(2))
    have l: "i < length (mailboxes s1)" using Cons(4) by (simp add: woke_fields[OF s1(3)])
    obtain s2 A where s2: "wake_receivers i s1 = Some s2" "kq_ok s2 (served (cur_cpu s1) i (len_of_queue (mailboxes s1 ! i)) (pcbs s1) ?Q)"
      "woke A s1 s2" using Cons(1)[OF q s1(2) l] by blast
    have "(\<lambda>x. req_len (pcbs s1 x)) = (\<lambda>x. req_len (pcbs s x))" by (simp add: same_pcb_fields(4)[OF wokeD(2)[OF s1(3)]])
    then have "served (cur_cpu s1) i (len_of_queue (mailboxes s1 ! i)) (pcbs s1) ?Q = served (cur_cpu s) i ?n (pcbs s) Q"
      using True d(3) by (auto simp: served_def moved_def Let_def fun_eq_iff woke_fields[OF s1(3)] simp flip: Cons(2))
    moreover have "wake_receivers i s = Some s2" using True h Cons(4) s1(1) s2(1) by (subst wake_receivers.simps) simp
    ultimately show ?thesis using s2(2) woke_trans[OF s1(3) s2(3)] by auto
  qed
qed

lemma kq_ok_req_len:
  assumes "kq_ok s Q"
  shows "kq_ok (upd_pcb p (\<lambda>c. c\<lparr>req_len := n\<rparr>) s) Q" "next_ready (upd_pcb p (\<lambda>c. c\<lparr>req_len := n\<rparr>) s) Q = next_ready s Q"
proof -
  let ?m = "(pcbs s)(p := (pcbs s p)\<lparr>req_len := n\<rparr>)"
  have "ring ?m h ps = ring (pcbs s) h ps" for h ps by (rule ring_cong) simp
  then have "qs_ok ?m (heads s) Q" using kq_okD(1)[OF assms] by (simp add: qs_ok_def)
  then show "kq_ok (upd_pcb p (\<lambda>c. c\<lparr>req_len := n\<rparr>) s) Q" using assms by (auto simp: kq_ok_def upd_pcb_def cur_cpu_def)
  have "can_run (cpu_id s) (?m x) = can_run (cpu_id s) (pcbs s x)" for x by (simp add: can_run_def)
  then show "next_ready (upd_pcb p (\<lambda>c. c\<lparr>req_len := n\<rparr>) s) Q = next_ready s Q"
    by (simp add: next_ready_def upd_pcb_def cur_cpu_def cong: if_cong)
qed


lemma mbox_lock_simps [simp]:
  "mbox_ok (b\<lparr>xslock := l\<rparr>) = mbox_ok b" "contents (b\<lparr>xslock := l\<rparr>) = contents b" "len_of_queue (b\<lparr>xslock := l\<rparr>) = len_of_queue b"
  "mbox_ok (b\<lparr>xopid := p\<rparr>) = mbox_ok b" "contents (b\<lparr>xopid := p\<rparr>) = contents b"
  by (simp_all add: mbox_ok_def contents_def ring_len_def len_of_queue_def)

lemma len_of_queue_eq: "mbox_ok b \<Longrightarrow> len_of_queue b = of_nat (length (contents b))"
  by (simp add: len_of_queue_contents[symmetric] del: length_contents)

lemma room_iff:
  assumes "mbox_ok b" and "n \<le> 71"
  shows "MAX_MBOX_LENGTH - len_of_queue b < of_nat n \<longleftrightarrow> \<not> length (contents b) + n \<le> 71"
    "len_of_queue b < of_nat n \<longleftrightarrow> \<not> n \<le> length (contents b)"
proof -
  have l: "unat (len_of_queue b) = length (contents b)" "length (contents b) \<le> 71"
    using len_of_queue_contents[OF assms(1)] ring_len_le[OF assms(1)] by simp_all
  have n: "unat (of_nat n :: u32) = n" using assms(2) by (simp add: unat_of_nat)
  have m: "unat (MAX_MBOX_LENGTH :: u32) = 71" by (simp add: kconst)
  have "len_of_queue b \<le> MAX_MBOX_LENGTH" using l m by (simp only: word_le_nat_alt)
  then have "unat (MAX_MBOX_LENGTH - len_of_queue b) = 71 - length (contents b)" using l m by (simp only: unat_sub)
  then show "MAX_MBOX_LENGTH - len_of_queue b < of_nat n \<longleftrightarrow> \<not> length (contents b) + n \<le> 71"
    using l(2) n by (simp only: word_less_nat_alt) linarith
  show "len_of_queue b < of_nat n \<longleftrightarrow> \<not> n \<le> length (contents b)" using l(1) n by (simp only: word_less_nat_alt) linarith
qed

text \<open>A process that has to wait at a mailbox hands the CPU over and the mailbox stays as it was.\<close>

lemma mbox_wait_spec:
  assumes k: "kq_ok s Q" and sf: "spin_free s" and i: "i < 16" and q: "q \<noteq> ReadyQ" and p: "next_ready s Q = Some p"
  shows "\<exists>s'. do_block q (Some (MboxS i)) (upd_pcb (cur_cpu s) (\<lambda>c. c\<lparr>req_len := n\<rparr>)
      (s\<lparr>mailboxes := (mailboxes s)[i := (mailboxes s ! i)\<lparr>xslock := LOCKED\<rparr>]\<rparr>)) = Some s' \<and>
    kq_ok s' (moved ReadyQ (cur_cpu s) q NULL Q) \<and> spin_free s' \<and> mailboxes s' = mailboxes s \<and> cur_cpu s' = p \<and>
    req_len (pcbs s' (cur_cpu s)) = n"
proof -
  let ?b = "mailboxes s ! i" and ?u = "upd_pcb (cur_cpu s) (\<lambda>c. c\<lparr>req_len := n\<rparr>)"
  let ?s1 = "?u (s\<lparr>mailboxes := (mailboxes s)[i := ?b\<lparr>xslock := LOCKED\<rparr>]\<rparr>)"
  note f = spin_freeD[OF sf i]
  have k0: "kq_ok (s\<lparr>mailboxes := (mailboxes s)[i := ?b\<lparr>xslock := LOCKED\<rparr>]\<rparr>) Q" using k by simp
  have n: "next_ready ?s1 Q = Some p" using kq_ok_req_len(2)[OF k0, of "cur_cpu s" n] p by simp
  have c: "cur_cpu ?s1 = cur_cpu s" by (simp add: cur_cpu_def upd_pcb_def)
  obtain s2 where s2: "kq_ok s2 (moved ReadyQ (cur_cpu s) q NULL Q)" "handed (cur_cpu s) p ?s1 s2" "cur_cpu s2 = p"
    "\<forall>l. do_block q (Some l) ?s1 = slock_release l s2"
    using do_block_spec[OF kq_ok_req_len(1)[OF k0, of "cur_cpu s" n] q] n unfolding c by auto
  have se: "mailboxes s2 = (mailboxes s)[i := ?b\<lparr>xslock := LOCKED\<rparr>]" using handed_fields(4)[OF s2(2)] by (simp add: upd_pcb_def)
  have "(mailboxes s)[i := ?b\<lparr>xslock := UNLOCKED\<rparr>] = mailboxes s"
  proof -
    have "?b\<lparr>xslock := UNLOCKED\<rparr> = ?b" using f(8) by (cases ?b) simp
    then show ?thesis by (simp only: list_update_id)
  qed
  then have r: "slock_release (MboxS i) s2 = Some (s2\<lparr>mailboxes := mailboxes s\<rparr>)" using f(4) se by (simp add: slock_simps)
  have "spin_free (s2\<lparr>mailboxes := mailboxes s\<rparr>)" using sf by (simp add: spin_free_def handed_fields[OF s2(2)] upd_pcb_def)
  moreover have "req_len (pcbs s2 (cur_cpu s)) = n"
  proof -
    have "same_pcb (pcbs s2 (cur_cpu s)) (pcbs ?s1 (cur_cpu s))" using s2(2) by (simp add: handed_def)
    from same_pcb_fields(4)[OF this] show ?thesis by (simp add: upd_pcb_def)
  qed
  ultimately show ?thesis using s2(1,3,4) r by (intro exI[of _ "s2\<lparr>mailboxes := mailboxes s\<rparr>"]) simp
qed

lemma mbox_send_spec [kspec]:
  assumes k: "kq_ok s Q" and sf: "spin_free s" and i: "i < 16" and ok: "mbox_ok (mailboxes s ! i)"
    and x: "xopid (mailboxes s ! i) \<noteq> INVALID_PID" and msg: "0 < length msg" "length msg \<le> 71"
    and n: "length (contents (mailboxes s ! i)) + length msg \<le> 71 \<or> next_ready s Q \<noteq> None"
  shows "\<exists>r s' Q'. do_mbox_send (int i) msg s = Some (r, s') \<and> kq_ok s' Q' \<and> spin_free s' \<and> mbox_ok (mailboxes s' ! i) \<and>
    xopid (mailboxes s' ! i) = xopid (mailboxes s ! i) \<and>
    (if length (contents (mailboxes s ! i)) + length msg \<le> 71
     then r = Done 0 \<and> contents (mailboxes s' ! i) = contents (mailboxes s ! i) @ msg \<and> cur_cpu s' = cur_cpu s \<and>
       Q' = served (cur_cpu s) i (of_nat (length (contents (mailboxes s ! i) @ msg))) (pcbs s) Q
     else r = Blocked \<and> contents (mailboxes s' ! i) = contents (mailboxes s ! i) \<and>
       Q' = moved ReadyQ (cur_cpu s) (SendQ i) NULL Q \<and> Some (cur_cpu s') = next_ready s Q \<and>
       req_len (pcbs s' (cur_cpu s)) = of_nat (length msg))"
proof -
  note f = spin_freeD[OF sf i]
  let ?b = "mailboxes s ! i"
  let ?l = "?b\<lparr>xslock := LOCKED\<rparr>"
  have g: "\<not> (int i < 0 \<or> int i \<ge> int MBOX_NUM \<or> length msg \<le> 0 \<or> length msg > unat MAX_MBOX_LENGTH)" using i msg by (simp add: kconst)
  have st: "do_mbox_send (int i) msg s = send_loop i msg 0 (s\<lparr>mailboxes := (mailboxes s)[i := ?l]\<rparr>)"
    using g f(4,8) x by (simp add: do_mbox_send_def slock_simps Let_def)
  note rm = room_iff(1)[OF ok msg(2)]
  show ?thesis
  proof (cases "length (contents ?b) + length msg \<le> 71")
    case False
    then obtain p where p: "next_ready s Q = Some p" using n by auto
    obtain s' where s': "do_block (SendQ i) (Some (MboxS i)) (upd_pcb (cur_cpu s) (\<lambda>c. c\<lparr>req_len := of_nat (length msg)\<rparr>)
        (s\<lparr>mailboxes := (mailboxes s)[i := ?l]\<rparr>)) = Some s'" "kq_ok s' (moved ReadyQ (cur_cpu s) (SendQ i) NULL Q)"
      "spin_free s'" "mailboxes s' = mailboxes s" "cur_cpu s' = p" "req_len (pcbs s' (cur_cpu s)) = of_nat (length msg)"
      using mbox_wait_spec[OF k sf i _ p, of "SendQ i"] by blast
    have "do_mbox_send (int i) msg s = Some (Blocked, s')" unfolding st using s'(1) rm False f(4) by (simp add: send_loop_def)
    then show ?thesis using s'(2-6) False ok p by auto
  next
    case True
    obtain b1 where b1: "enter_bytes ?l msg = Some b1" "mbox_ok b1" "contents b1 = contents ?b @ msg" "xslock b1 = LOCKED" "xopid b1 = xopid ?b"
      using mq.put_all_appends[of ?l msg] ok True by auto
    let ?s1 = "s\<lparr>mailboxes := (mailboxes s)[i := b1]\<rparr>"
    have k1: "kq_ok ?s1 Q" using k by simp
    have len: "len_of_queue b1 = of_nat (length (contents ?b @ msg))" using len_of_queue_eq[OF b1(2)] b1(3) by simp
    obtain s2 A where s2: "wake_receivers i ?s1 = Some s2"
      "kq_ok s2 (served (cur_cpu s) i (of_nat (length (contents ?b @ msg))) (pcbs s) Q)" "woke A ?s1 s2"
      using wake_receivers_spec[OF k1, of i] f(4) len by auto
    have se: "mailboxes s2 = (mailboxes s)[i := b1]" "cur_cpu s2 = cur_cpu s" using woke_fields(3,13)[OF s2(3)] by simp_all
    let ?s = "s2\<lparr>mailboxes := (mailboxes s2)[i := b1\<lparr>xslock := UNLOCKED\<rparr>]\<rparr>"
    have sf2: "spin_free ?s"
    proof -
      have "spin_free (s\<lparr>mailboxes := (mailboxes s)[i := b1\<lparr>xslock := UNLOCKED\<rparr>]\<rparr>)" by (rule spin_free_upd(4)[OF sf]) simp
      then show ?thesis using se by (simp add: spin_free_def woke_fields[OF s2(3)])
    qed
    have "do_mbox_send (int i) msg s = Some (Done 0, ?s)"
      unfolding st using rm True f(4) b1(1,4) s2(1) se by (simp add: send_loop_def upd_mbox_def slock_simps)
    then show ?thesis using s2(2) sf2 True f(4) b1 se
      by (intro exI[of _ "Done 0"] exI[of _ ?s] exI[of _ "served (cur_cpu s) i (of_nat (length (contents ?b @ msg))) (pcbs s) Q"]) simp
  qed
qed

lemma mbox_recv_spec [kspec]:
  assumes k: "kq_ok s Q" and sf: "spin_free s" and i: "i < 16" and ok: "mbox_ok (mailboxes s ! i)"
    and x: "xopid (mailboxes s ! i) \<noteq> INVALID_PID" and m: "0 < m" "m \<le> 71" and a: "addr < KVA_MIN"
    and n: "m \<le> length (contents (mailboxes s ! i)) \<or> next_ready s Q \<noteq> None"
  shows "\<exists>r ds s' Q'. do_mbox_recv (int i) addr (of_nat m) s = Some (r, ds, s') \<and> kq_ok s' Q' \<and> spin_free s' \<and> mbox_ok (mailboxes s' ! i) \<and>
    xopid (mailboxes s' ! i) = xopid (mailboxes s ! i) \<and>
    (if m \<le> length (contents (mailboxes s ! i))
     then r = Done 0 \<and> ds = take m (contents (mailboxes s ! i)) \<and> contents (mailboxes s' ! i) = drop m (contents (mailboxes s ! i)) \<and>
       Q' = all_woken (cur_cpu s) (SendQ i) Q
     else r = Blocked \<and> ds = [] \<and> contents (mailboxes s' ! i) = contents (mailboxes s ! i) \<and>
       Q' = moved ReadyQ (cur_cpu s) (RecvQ i) NULL Q \<and> Some (cur_cpu s') = next_ready s Q \<and>
       req_len (pcbs s' (cur_cpu s)) = of_nat m)"
proof -
  note f = spin_freeD[OF sf i]
  let ?b = "mailboxes s ! i"
  let ?l = "?b\<lparr>xslock := LOCKED\<rparr>"
  have um: "unat (of_nat m :: u32) = m" using m(2) by (simp add: unat_of_nat)
  have g: "\<not> (int i < 0 \<or> int i \<ge> int MBOX_NUM \<or> (of_nat m :: u32) \<le> 0 \<or> of_nat m > (MAX_MBOX_LENGTH :: u32))" "\<not> addr \<ge> KVA_MIN"
    using i m um a by (simp_all add: kconst word_le_nat_alt word_less_nat_alt)
  have st: "do_mbox_recv (int i) addr (of_nat m) s = recv_loop i (of_nat m) 0 (s\<lparr>mailboxes := (mailboxes s)[i := ?l]\<rparr>)"
    unfolding do_mbox_recv_def if_not_P[OF g(1)] if_not_P[OF g(2)] using f(4,8) x by (simp add: slock_simps Let_def)
  note rm = room_iff(2)[OF ok m(2)]
  show ?thesis
  proof (cases "m \<le> length (contents ?b)")
    case False
    then obtain p where p: "next_ready s Q = Some p" using n by auto
    obtain s' where s': "do_block (RecvQ i) (Some (MboxS i)) (upd_pcb (cur_cpu s) (\<lambda>c. c\<lparr>req_len := of_nat m\<rparr>)
        (s\<lparr>mailboxes := (mailboxes s)[i := ?l]\<rparr>)) = Some s'" "kq_ok s' (moved ReadyQ (cur_cpu s) (RecvQ i) NULL Q)"
      "spin_free s'" "mailboxes s' = mailboxes s" "cur_cpu s' = p" "req_len (pcbs s' (cur_cpu s)) = of_nat m"
      using mbox_wait_spec[OF k sf i _ p, of "RecvQ i"] by blast
    have "do_mbox_recv (int i) addr (of_nat m) s = Some (Blocked, [], s')" unfolding st using s'(1) rm False f(4) by (simp add: recv_loop_def)
    then show ?thesis using s'(2-6) False ok p by auto
  next
    case True
    obtain b1 where b1: "depart_bytes ?l m = Some (take m (contents ?b), b1)" "mbox_ok b1" "contents b1 = drop m (contents ?b)"
      "xslock b1 = LOCKED" "xopid b1 = xopid ?b"
      using mq.get_all_takes[of ?l m] ok True by auto
    let ?s1 = "s\<lparr>mailboxes := (mailboxes s)[i := b1]\<rparr>" and ?Q = "all_woken (cur_cpu s) (SendQ i) Q"
    have k1: "kq_ok ?s1 Q" using k by simp
    obtain s2 where s2: "unblock_all (SendQ i) ?s1 = Some s2" "kq_ok s2 ?Q" "woke (set (Q (SendQ i))) ?s1 s2"
      using wq.wake_all_empties[OF k1, of "SendQ i"] by auto
    have se: "mailboxes s2 = (mailboxes s)[i := b1]" using woke_fields(13)[OF s2(3)] by simp
    let ?s = "s2\<lparr>mailboxes := (mailboxes s2)[i := b1\<lparr>xslock := UNLOCKED\<rparr>]\<rparr>"
    have sf2: "spin_free ?s"
    proof -
      have "spin_free (s\<lparr>mailboxes := (mailboxes s)[i := b1\<lparr>xslock := UNLOCKED\<rparr>]\<rparr>)" by (rule spin_free_upd(4)[OF sf]) simp
      then show ?thesis using se by (simp add: spin_free_def woke_fields[OF s2(3)])
    qed
    have "do_mbox_recv (int i) addr (of_nat m) s = Some (Done 0, take m (contents ?b), ?s)"
      unfolding st using rm True f(4) b1(1,4) s2(1) se um by (simp add: recv_loop_def upd_mbox_def slock_simps)
    then show ?thesis using s2(2) sf2 True f(4) b1 se
      by (intro exI[of _ "Done 0"] exI[of _ "take m (contents ?b)"] exI[of _ ?s] exI[of _ ?Q]) simp
  qed
qed


section \<open>What mailboxes guarantee\<close>

definition demo_mbox :: "(nat \<Rightarrow> u8 list) kstate" where
  "demo_mbox = demo_ks\<lparr>mailboxes := (mailboxes demo_ks)[3 := \<lparr>xslock = UNLOCKED, xopid = 2, xbuf = replicate 72 7, buf_head = 70, buf_tail = 1\<rparr>]\<rparr>"

lemma demo_mbox_ok: "kq_ok demo_mbox demo_Q" "spin_free demo_mbox" "next_ready demo_mbox demo_Q = Some 0x40" "cur_cpu demo_mbox = 0x20"
  "mbox_ok (mailboxes demo_mbox ! 3)" "contents (mailboxes demo_mbox ! 3) = [7, 7, 7]" "xopid (mailboxes demo_mbox ! 3) \<noteq> INVALID_PID"
proof -
  have "spin_free demo_ks" by (simp add: spin_free_def demo_ks_def)
  from spin_free_upd(4)[OF this] show "spin_free demo_mbox" by (simp add: demo_mbox_def)
  have x: "mailboxes demo_mbox ! 3 = \<lparr>xslock = UNLOCKED, xopid = 2, xbuf = replicate 72 7, buf_head = 70, buf_tail = 1\<rparr>"
    by (simp add: demo_mbox_def demo_ks_def)
  show "mbox_ok (mailboxes demo_mbox ! 3)" "xopid (mailboxes demo_mbox ! 3) \<noteq> INVALID_PID" by (simp_all add: x mbox_ok_def kconst)
  have r: "[0..<3] = [0, 1, 2]" by (simp add: upt_rec)
  show "contents (mailboxes demo_mbox ! 3) = [7, 7, 7]" unfolding x contents_def by (simp add: ring_len_def r)
qed (use demo_kq_ok demo_next in \<open>simp_all add: demo_mbox_def\<close>)

text \<open>
  C24: The ring buffer of a mailbox is a bounded queue of 71 bytes. Its indices stay in the buffer, \<open>len_of_queue\<close>
  is the number of bytes stored, \<open>queue_enter\<close> appends a byte or answers -1 when 71 bytes are stored and changes nothing,
  \<open>queue_depart\<close> removes the oldest byte or answers -1 when there is none; both wrap around the end of the array.
\<close>
theorem mbox_ring_refines:
  assumes "mbox_ok b"
  shows "unat (len_of_queue b) = length (contents b) \<and> length (contents b) \<le> 71 \<and>
    (if length (contents b) < 71 then \<exists>b'. queue_enter b D = Some (uint D, b') \<and> mbox_ok b' \<and> contents b' = contents b @ [D]
     else queue_enter b D = Some (-1, b)) \<and>
    (case contents b of [] \<Rightarrow> queue_depart b = Some (-1, b)
     | d # ds \<Rightarrow> \<exists>b'. queue_depart b = Some (uint d, b') \<and> mbox_ok b' \<and> contents b' = ds)"
proof -
  have l: "unat (len_of_queue b) = length (contents b)" "length (contents b) \<le> 71"
    using len_of_queue_contents[OF assms] ring_len_le[OF assms] by simp_all
  then have "\<not> length (contents b) < 71 \<Longrightarrow> queue_enter b D = Some (-1, b)" "contents b = [] \<Longrightarrow> queue_depart b = Some (-1, b)"
    using l by (simp_all add: queue_enter_def queue_depart_def word_less_nat_alt kconst)
  then show ?thesis using l queue_enter_spec[OF assms, of D] queue_depart_spec[OF assms] by (auto split: list.split)
qed

theorem mbox_ring_refines_witness:
  "\<exists>b'. queue_enter (mailboxes demo_mbox ! 3) 9 = Some (9, b') \<and> contents b' = [7, 7, 7, 9]"
  using mbox_ring_refines[OF demo_mbox_ok(5), of 9] by (auto simp: demo_mbox_ok(6) simp del: length_contents)

text \<open>
  C25: Messages. A send of a message that fits appends its bytes without blocking, and exactly the longest run of receivers
  at the front of the queue whose requests the buffer now satisfies becomes ready; a message that does not
  fit blocks the sender, and the buffer is unchanged. A receive of \<open>m\<close> bytes takes the \<open>m\<close> oldest bytes in the order they were
  sent and wakes all senders, or blocks when fewer are stored. A process that blocks leaves the length of its request in its PCB, where
  a sender reads it. The panics of the byte loops are never reached.
\<close>
theorem mbox_messages:
  assumes "kq_ok s Q" and "spin_free s" and "i < 16" and "mbox_ok (mailboxes s ! i)" and "xopid (mailboxes s ! i) \<noteq> INVALID_PID"
    and "0 < length msg" and "length msg \<le> 71" and "0 < m" and "m \<le> 71" and "addr < KVA_MIN" and "next_ready s Q \<noteq> None"
  shows "(\<exists>r s' Q'. do_mbox_send (int i) msg s = Some (r, s') \<and> kq_ok s' Q' \<and> spin_free s' \<and> mbox_ok (mailboxes s' ! i) \<and>
      (if length (contents (mailboxes s ! i)) + length msg \<le> 71
       then r = Done 0 \<and> contents (mailboxes s' ! i) = contents (mailboxes s ! i) @ msg \<and>
         Q' = served (cur_cpu s) i (of_nat (length (contents (mailboxes s ! i) @ msg))) (pcbs s) Q
       else r = Blocked \<and> contents (mailboxes s' ! i) = contents (mailboxes s ! i) \<and>
         Q' = moved ReadyQ (cur_cpu s) (SendQ i) NULL Q \<and> Some (cur_cpu s') = next_ready s Q \<and>
       req_len (pcbs s' (cur_cpu s)) = of_nat (length msg))) \<and>
    (\<exists>r ds s' Q'. do_mbox_recv (int i) addr (of_nat m) s = Some (r, ds, s') \<and> kq_ok s' Q' \<and> spin_free s' \<and> mbox_ok (mailboxes s' ! i) \<and>
      (if m \<le> length (contents (mailboxes s ! i))
       then r = Done 0 \<and> ds = take m (contents (mailboxes s ! i)) \<and> contents (mailboxes s' ! i) = drop m (contents (mailboxes s ! i)) \<and>
         Q' = all_woken (cur_cpu s) (SendQ i) Q
       else r = Blocked \<and> ds = [] \<and> contents (mailboxes s' ! i) = contents (mailboxes s ! i) \<and>
         Q' = moved ReadyQ (cur_cpu s) (RecvQ i) NULL Q \<and> Some (cur_cpu s') = next_ready s Q \<and>
       req_len (pcbs s' (cur_cpu s)) = of_nat m))"
proof (intro conjI)
  have "length (contents (mailboxes s ! i)) + length msg \<le> 71 \<or> next_ready s Q \<noteq> None" using assms(11) by blast
  from mbox_send_spec[OF assms(1-7) this]
  show "\<exists>r s' Q'. do_mbox_send (int i) msg s = Some (r, s') \<and> kq_ok s' Q' \<and> spin_free s' \<and> mbox_ok (mailboxes s' ! i) \<and>
      (if length (contents (mailboxes s ! i)) + length msg \<le> 71
       then r = Done 0 \<and> contents (mailboxes s' ! i) = contents (mailboxes s ! i) @ msg \<and>
         Q' = served (cur_cpu s) i (of_nat (length (contents (mailboxes s ! i) @ msg))) (pcbs s) Q
       else r = Blocked \<and> contents (mailboxes s' ! i) = contents (mailboxes s ! i) \<and>
         Q' = moved ReadyQ (cur_cpu s) (SendQ i) NULL Q \<and> Some (cur_cpu s') = next_ready s Q \<and>
       req_len (pcbs s' (cur_cpu s)) = of_nat (length msg))" by metis
  have "m \<le> length (contents (mailboxes s ! i)) \<or> next_ready s Q \<noteq> None" using assms(11) by blast
  from mbox_recv_spec[OF assms(1-5,8-10) this]
  show "\<exists>r ds s' Q'. do_mbox_recv (int i) addr (of_nat m) s = Some (r, ds, s') \<and> kq_ok s' Q' \<and> spin_free s' \<and> mbox_ok (mailboxes s' ! i) \<and>
      (if m \<le> length (contents (mailboxes s ! i))
       then r = Done 0 \<and> ds = take m (contents (mailboxes s ! i)) \<and> contents (mailboxes s' ! i) = drop m (contents (mailboxes s ! i)) \<and>
         Q' = all_woken (cur_cpu s) (SendQ i) Q
       else r = Blocked \<and> ds = [] \<and> contents (mailboxes s' ! i) = contents (mailboxes s ! i) \<and>
         Q' = moved ReadyQ (cur_cpu s) (RecvQ i) NULL Q \<and> Some (cur_cpu s') = next_ready s Q \<and>
       req_len (pcbs s' (cur_cpu s)) = of_nat m)" by metis
qed

theorem mbox_messages_witness:
  "(\<exists>s'. do_mbox_send 3 [1, 2] demo_mbox = Some (Done 0, s') \<and> contents (mailboxes s' ! 3) = [7, 7, 7, 1, 2]) \<and>
   (\<exists>s'. do_mbox_recv 3 0x1000 4 demo_mbox = Some (Blocked, [], s') \<and> cur_cpu s' = 0x40 \<and> req_len (pcbs s' 0x20) = 4)"
proof -
  have a: "(0x1000 :: u64) < KVA_MIN" by (simp add: KVA_MIN_def)
  show ?thesis using mbox_messages[OF demo_mbox_ok(1,2) _ demo_mbox_ok(5,7), of "[1, 2]" 4 "0x1000"] a
    by (auto simp: demo_mbox_ok(3,4,6) simp del: length_contents)
qed

text \<open>
  Round trip through a mailbox. A message sent to an open mailbox with room for it comes out unchanged, behind
  the bytes that were there before, when the receiver asks for as many bytes as are stored; the mailbox is empty then.
\<close>
theorem mbox_roundtrip:
  assumes "kq_ok s Q" and "spin_free s" and "i < 16" and "mbox_ok (mailboxes s ! i)" and "xopid (mailboxes s ! i) \<noteq> INVALID_PID"
    and "0 < length msg" and "length (contents (mailboxes s ! i)) + length msg \<le> 71" and "addr < KVA_MIN"
  shows "\<exists>s1 s2. do_mbox_send (int i) msg s = Some (Done 0, s1) \<and>
    do_mbox_recv (int i) addr (of_nat (length (contents (mailboxes s ! i)) + length msg)) s1 =
      Some (Done 0, contents (mailboxes s ! i) @ msg, s2) \<and> contents (mailboxes s2 ! i) = []"
proof -
  let ?c = "contents (mailboxes s ! i)"
  have "length msg \<le> 71" "length ?c + length msg \<le> 71 \<or> next_ready s Q \<noteq> None" using assms(7) by auto
  from mbox_send_spec[OF assms(1-6) this] obtain s1 Q1 where s1: "do_mbox_send (int i) msg s = Some (Done 0, s1)" "kq_ok s1 Q1"
    "spin_free s1" "mbox_ok (mailboxes s1 ! i)" "xopid (mailboxes s1 ! i) \<noteq> INVALID_PID" "contents (mailboxes s1 ! i) = ?c @ msg"
    using assms(5,7) by auto
  have l: "length (contents (mailboxes s1 ! i)) = length ?c + length msg" unfolding s1(6) by (simp only: length_append)
  have "0 < length ?c + length msg" "length ?c + length msg \<le> length (contents (mailboxes s1 ! i)) \<or> next_ready s1 Q1 \<noteq> None"
    using assms(6) l by auto
  from mbox_recv_spec[OF s1(2,3) assms(3) s1(4,5) this(1) assms(7,8) this(2)] show ?thesis
    using s1(1) l unfolding s1(6) by (auto simp del: length_contents)
qed

theorem mbox_roundtrip_witness:
  "\<exists>s1 s2. do_mbox_send 3 [1, 2] demo_mbox = Some (Done 0, s1) \<and> do_mbox_recv 3 0x1000 5 s1 = Some (Done 0, [7, 7, 7, 1, 2], s2)"
proof -
  have a: "(0x1000 :: u64) < KVA_MIN" by (simp add: KVA_MIN_def)
  show ?thesis using mbox_roundtrip[OF demo_mbox_ok(1,2) _ demo_mbox_ok(5,7), of "[1, 2]" "0x1000"] a
    by (auto simp: demo_mbox_ok(6) simp del: length_contents)
qed

end
