(* ===== verification/PageWalk.thy ===== *)
theory PageWalk
  imports PageTable
begin

text \<open>
  Page tables as maps (properties of \<^verbatim>\<open>PageTable\<close>).

  The page tables of an address space form a tree: \<open>tab m d p\<close> is the table at position \<open>p\<close> below the root \<open>d\<close>.
  \<open>spaces_ok m D\<close> says that the trees of the roots \<open>D\<close> consist of tables in use, that no table is at two
  places, and that every directory entry is zero or points to a table. \<open>pte_of\<close> is the map from the three page numbers of a
  user address to the entry; the walk is shown to find and, when asked, to make room for exactly this entry.
\<close>

section \<open>Bits of an entry\<close>

lemma get_pa_pfn: "get_pa e = push_bit 12 (get_pfn e)"
  unfolding get_pa_def get_pfn_def PAGE_PPN_MASK_def by (rule bit_word_eqI) (auto simp: bit_simps)

lemma get_pfn_set_pfn: "p < 2 ^ 44 \<Longrightarrow> get_pfn (set_pfn e p) = p"
proof -
  assume "p < 2 ^ 44"
  then have "take_bit 44 p = p" by (simp add: word_unat_eq_iff unsigned_take_bit_eq take_bit_eq_mod word_less_nat_alt unat_mod)
  then have "n < 44" if "bit p n" for n using that by (metis bit_take_bit_iff)
  then show ?thesis unfolding get_pfn_def set_pfn_def PAGE_PPN_MASK_def
    by (intro bit_word_eqI) (fastforce simp: bit_simps)
qed

lemma attr_set_pfn [simp]: "get_attribute (set_pfn e p) a = get_attribute e a"
  unfolding get_attribute_def set_pfn_def PAGE_PPN_MASK_def PAGE_ATTRIBUTE_MASK_def by (rule bit_word_eqI) (auto simp: bit_simps)

lemma attr_set_attribute: "get_attribute (set_attribute e a) b = get_attribute e b OR get_attribute a b"
  unfolding get_attribute_def set_attribute_def by (rule bit_word_eqI) (auto simp: bit_simps)

lemma attr_clear_attribute: "get_attribute (clear_attribute e a) b = get_attribute e b AND NOT (get_attribute a b)"
  unfolding get_attribute_def clear_attribute_def by (rule bit_word_eqI) (auto simp: bit_simps)

lemma pfn_attribute [simp]: "get_pfn (set_attribute e a) = get_pfn e" "get_pfn (clear_attribute e a) = get_pfn e"
  unfolding get_pfn_def set_attribute_def clear_attribute_def PAGE_PPN_MASK_def PAGE_ATTRIBUTE_MASK_def
  by (rule bit_word_eqI; auto simp: bit_simps)+

lemma pa_attribute [simp]: "get_pa (set_attribute e a) = get_pa e" "get_pa (clear_attribute e a) = get_pa e"
  by (simp_all add: get_pa_pfn)

lemma attr_0 [simp]: "get_attribute 0 a = 0"
  by (simp add: get_attribute_def)

lemma unat_and_low: "unat (w AND 4095) = unat w mod 4096" "unat (w AND 7) = unat w mod 8" "unat (w AND 511) = unat w mod 512" for w :: u64
  using take_bit_eq_mask[of 12 "unat w"] take_bit_eq_mask[of 3 "unat w"] take_bit_eq_mask[of 9 "unat w"]
  by (simp_all add: unsigned_and_eq take_bit_eq_mod mask_eq_exp_minus_1)

lemma take_bit_12_0: "unat w mod 4096 = 0 \<Longrightarrow> take_bit 12 w = 0" for w :: u64
proof -
  assume "unat w mod 4096 = 0"
  then have "take_bit 12 (unat w) = 0" by (simp add: take_bit_eq_mod)
  then show ?thesis by (metis unsigned_0 unsigned_take_bit_eq word_unat_eq_iff)
qed

text \<open>An entry that is given the frame number of an aligned kernel address points back to this address.\<close>

lemma pa2kva_set_pfn:
  assumes "0xffffffc000000000 \<le> t" and "t AND 4095 = 0"
  shows "pa2kva (get_pa (set_pfn e (drop_bit NORMAL_PAGE_SHIFT (kva2pa t)))) = t"
proof -
  have l: "kva2pa t < 2 ^ 56"
    using assms(1) by (simp add: kva2pa_def push_bit_eq_mult word_less_nat_alt word_le_nat_alt unat_sub) (use unsigned_less[of t, where 'a=nat] in simp)
  have "drop_bit 12 (kva2pa t) < 2 ^ 44"
    using l by (simp add: word_less_nat_alt drop_bit_eq_div unat_div)
  then have p: "get_pa (set_pfn e (drop_bit 12 (kva2pa t))) = push_bit 12 (drop_bit 12 (kva2pa t))"
    by (simp add: get_pa_pfn get_pfn_set_pfn)
  have z: "take_bit 12 (kva2pa t) = 0"
  proof -
    have "unat t mod 4096 = 0"
      using arg_cong[OF assms(2), of unat] by (simp add: unat_and_low)
    moreover obtain x where x: "unat t = 18446743798831644672 + x"
      using assms(1) by (auto simp: word_le_nat_alt le_iff_add)
    moreover have "unat (kva2pa t) = x"
      using assms(1) x by (simp add: kva2pa_def push_bit_eq_mult word_le_nat_alt unat_sub)
    moreover have "x mod 4096 = (18446743798831644672 + x) mod 4096"
    proof -
      have "18446743798831644672 + x = x + 4096 * 0xffffffc000000" by simp
      then show ?thesis by (simp only: mod_mult_self2)
    qed
    ultimately have "unat (kva2pa t) mod 4096 = 0" by (simp only:)
    then show ?thesis by (rule take_bit_12_0)
  qed
  have "push_bit 12 (drop_bit 12 (kva2pa t)) = kva2pa t"
    using bits_ident[of 12 "kva2pa t"] z by simp
  then show ?thesis using p by (simp add: NORMAL_PAGE_SHIFT_def pa2kva_def kva2pa_def)
qed


section \<open>Addresses of tables and entries\<close>

definition tbl :: "nat \<Rightarrow> u64" where "tbl k = Pgtb_base + of_nat k * 4096"
definition frame :: "nat \<Rightarrow> u64" where "frame k = Pg_base + of_nat k * 4096"

lemma Pg_base_eq: "Pg_base = 0xffffffc052000000"
  by (simp add: Pg_base_def ROUND_def FREEMEM_KERNEL_def)

lemma unat_of_nat_small: "n < 2 ^ 64 \<Longrightarrow> unat (of_nat n :: u64) = n"
  by (simp add: unat_of_nat)

lemma unat_tbl: "k < 3840 \<Longrightarrow> unat (tbl k) = 0xffffffc051000000 + k * 4096"
proof -
  assume "k < 3840"
  then have "unat (of_nat (0xffffffc051000000 + k * 4096) :: u64) = 0xffffffc051000000 + k * 4096" by (intro unat_of_nat_small) simp
  then show ?thesis by (simp add: tbl_def Pgtb_base_def)
qed

lemma unat_frame: "k < 51200 \<Longrightarrow> unat (frame k) = 0xffffffc052000000 + k * 4096"
proof -
  assume "k < 51200"
  then have "unat (of_nat (0xffffffc052000000 + k * 4096) :: u64) = 0xffffffc052000000 + k * 4096" by (intro unat_of_nat_small) simp
  then show ?thesis by (simp add: frame_def Pg_base_eq)
qed

lemma tbl_aligned: "k < 3840 \<Longrightarrow> 0xffffffc000000000 \<le> tbl k" "k < 3840 \<Longrightarrow> tbl k AND 4095 = 0"
proof -
  assume k: "k < 3840"
  show "0xffffffc000000000 \<le> tbl k" using unat_tbl[OF k] by (simp add: word_le_nat_alt)
  have "unat (tbl k) = 4096 * (0xffffffc051000 + k)" using unat_tbl[OF k] by simp
  then have "unat (tbl k AND 4095) = 0" unfolding unat_and_low by (simp only: mod_mult_self1_is_0)
  then show "tbl k AND 4095 = 0" by (metis unsigned_0 word_unat_eq_iff)
qed

lemma frame_aligned: "k < 51200 \<Longrightarrow> 0xffffffc000000000 \<le> frame k" "k < 51200 \<Longrightarrow> frame k AND 4095 = 0"
proof -
  assume k: "k < 51200"
  show "0xffffffc000000000 \<le> frame k" using unat_frame[OF k] by (simp add: word_le_nat_alt)
  have "unat (frame k) = 4096 * (0xffffffc052000 + k)" using unat_frame[OF k] by simp
  then have "unat (frame k AND 4095) = 0" unfolding unat_and_low by (simp only: mod_mult_self1_is_0)
  then show "frame k AND 4095 = 0" by (metis unsigned_0 word_unat_eq_iff)
qed

lemma unat_slot: "k < 3840 \<Longrightarrow> i < 512 \<Longrightarrow> unat (tbl k + 8 * i) = 0xffffffc051000000 + k * 4096 + 8 * unat i"
proof -
  assume a: "k < 3840" "i < 512"
  then have "tbl k + 8 * i = of_nat (0xffffffc051000000 + k * 4096 + 8 * unat i)" by (simp add: tbl_def Pgtb_base_def)
  moreover have "unat i < 512" using a(2) by (simp add: word_less_nat_alt)
  ultimately show ?thesis using a(1) by (simp only:) (intro unat_of_nat_small, simp)
qed

lemma slot_inj: "k < 3840 \<Longrightarrow> k' < 3840 \<Longrightarrow> i < 512 \<Longrightarrow> i' < 512 \<Longrightarrow> tbl k + 8 * i = tbl k' + 8 * i' \<longleftrightarrow> k = k' \<and> i = i'"
proof -
  assume a: "k < 3840" "k' < 3840" "i < 512" "i' < 512"
  have "unat i < 512" "unat i' < 512" using a by (simp_all add: word_less_nat_alt)
  then have "k * 4096 + 8 * unat i = k' * 4096 + 8 * unat i' \<longleftrightarrow> k = k' \<and> unat i = unat i'" by (cases k k' rule: linorder_cases) linarith+
  then show ?thesis using unat_slot[of k i] unat_slot[of k' i'] a by (auto simp: word_unat_eq_iff)
qed

lemma VPN_less: "VPN va l < 512"
proof -
  have "unat (VPN va l) < 512" unfolding VPN_def pgconst by (simp add: push_bit_eq_mult unat_and_low)
  then show ?thesis by (simp add: word_less_nat_alt)
qed

text \<open>The address of an entry plus its level, and the two parts again.\<close>

lemma level_parts:
  assumes "k < 3840" and "i < 512" and "l \<le> 2"
  shows "(tbl k + 8 * i + of_nat l) AND 7 = of_nat l" "(tbl k + 8 * i + of_nat l) AND NOT 7 = tbl k + 8 * i"
proof -
  let ?a = "tbl k + 8 * i"
  have i: "unat i < 512" using assms(2) by (simp add: word_less_nat_alt)
  have u: "unat ?a = 8 * (0x1ffffff80a200000 + k * 512 + unat i)" using unat_slot[OF assms(1,2)] by simp
  have ul: "unat (?a + of_nat l) = unat ?a + l" using u assms i by (simp add: unat_word_ariths unat_of_nat)
  show low: "(?a + of_nat l) AND 7 = of_nat l"
  proof -
    have "(8 * (0x1ffffff80a200000 + k * 512 + unat i) + l) mod 8 = l" using assms(3) by (subst mod_mult_self4) simp
    moreover have "unat (of_nat l :: u64) = l" using assms(3) by (intro unat_of_nat_small) simp
    ultimately show ?thesis unfolding word_unat_eq_iff unat_and_low ul u by simp
  qed
  have "unat ((?a + of_nat l) AND NOT (mask 3)) = (unat ?a + l) div 8 * 8"
    unfolding unat_and_not_mask ul by simp
  moreover have "(8 * A + l) div 8 * 8 = 8 * A" for A using assms(3) by simp
  then have "(unat ?a + l) div 8 * 8 = unat ?a" unfolding u .
  ultimately have "(?a + of_nat l) AND NOT (mask 3) = ?a" by (simp only: word_unat_eq_iff)
  moreover have "(7 :: u64) = mask 3" by (simp add: mask_eq_exp_minus_1)
  ultimately show "(?a + of_nat l) AND NOT 7 = ?a" by (simp only:)
qed


section \<open>The tree of tables\<close>

datatype tpos = Root | Sub tpos u64

fun depth :: "tpos \<Rightarrow> nat" where
  "depth Root = 0"
| "depth (Sub p i) = Suc (depth p)"

text \<open>The entries of a table that belong to the user: the upper half of the root is the kernel's.\<close>

definition dir_slot :: "tpos \<Rightarrow> u64 \<Rightarrow> bool" where
  "dir_slot p i \<longleftrightarrow> (case depth p of 0 \<Rightarrow> i < 256 | Suc 0 \<Rightarrow> i < 512 | _ \<Rightarrow> False)"

definition child :: "mm \<Rightarrow> u64 \<Rightarrow> u64 \<Rightarrow> u64 option" where
  "child m t i = (let e = ptes m (t + 8 * i) in if get_attribute e PAGE_PRESENT \<noteq> 0 then Some (pa2kva (get_pa e)) else None)"

fun tab :: "mm \<Rightarrow> u64 \<Rightarrow> tpos \<Rightarrow> u64 option" where
  "tab m d Root = Some d"
| "tab m d (Sub p i) = (if dir_slot p i then do { t \<leftarrow> tab m d p; child m t i } else None)"

definition table_used :: "mm \<Rightarrow> u64 \<Rightarrow> bool" where
  "table_used m t \<longleftrightarrow> (\<exists>k < 3840. t = tbl k \<and> pgtb_charmap m ! k \<noteq> CMAP_FREE)"

definition good_dir :: "u64 \<Rightarrow> bool" where
  "good_dir e \<longleftrightarrow> e = 0 \<or> get_attribute e PAGE_PRESENT \<noteq> 0 \<and> get_attribute e PAGE_XWR = 0"

definition spaces_ok :: "mm \<Rightarrow> u64 set \<Rightarrow> bool" where
  "spaces_ok m D \<longleftrightarrow>
     (\<forall>d \<in> D. \<forall>p t. tab m d p = Some t \<longrightarrow> table_used m t) \<and>
     (\<forall>d \<in> D. \<forall>d' \<in> D. \<forall>p q t. tab m d p = Some t \<longrightarrow> tab m d' q = Some t \<longrightarrow> d = d' \<and> p = q) \<and>
     (\<forall>d \<in> D. \<forall>p t i. tab m d p = Some t \<longrightarrow> dir_slot p i \<longrightarrow> good_dir (ptes m (t + 8 * i)))"

lemma spaces_okD:
  assumes "spaces_ok m D" and "d \<in> D"
  shows "tab m d p = Some t \<Longrightarrow> table_used m t"
    "d' \<in> D \<Longrightarrow> tab m d p = Some t \<Longrightarrow> tab m d' q = Some t \<Longrightarrow> d = d' \<and> p = q"
    "tab m d p = Some t \<Longrightarrow> dir_slot p i \<Longrightarrow> good_dir (ptes m (t + 8 * i))"
  using assms unfolding spaces_ok_def by blast+

lemma dir_slot_less: "dir_slot p i \<Longrightarrow> i < 512"
  by (auto simp: dir_slot_def word_less_nat_alt split: nat.splits)

lemma tab_depth: "tab m d p = Some t \<Longrightarrow> depth p \<le> 2"
  by (cases p) (auto simp: dir_slot_def split: nat.splits if_splits)

text \<open>A free table put into an empty entry is the only change of the trees.\<close>

lemma tab_extend:
  assumes ok: "spaces_ok m D" and d: "d \<in> D" and u: "tab m d p = Some u" and i: "dir_slot p i" and e0: "ptes m (u + 8 * i) = 0"
    and t: "k < 3840" "pgtb_charmap m ! k = CMAP_FREE"
    and new: "ptes m' (u + 8 * i) = e" "get_attribute e PAGE_PRESENT \<noteq> 0" "pa2kva (get_pa e) = tbl k"
    and clr: "\<And>j. j < 512 \<Longrightarrow> ptes m' (tbl k + 8 * j) = 0"
    and same: "\<And>v j. table_used m v \<Longrightarrow> j < 512 \<Longrightarrow> (v, j) \<noteq> (u, i) \<Longrightarrow> ptes m' (v + 8 * j) = ptes m (v + 8 * j)"
    and d': "d' \<in> D"
  shows "tab m' d' q = (if d' = d \<and> q = Sub p i then Some (tbl k) else tab m d' q)"
proof (induction q)
  case (Sub q j)
  show ?case
  proof (cases "dir_slot q j")
    case True
    note j = dir_slot_less[OF True]
    have up: "tab m d (Sub p i) = None" using u i e0 by (simp add: child_def)
    consider (new) "d' = d" "q = Sub p i" | (old) v where "tab m' d' q = Some v" "tab m d' q = Some v" | (none) "tab m' d' q = None" "tab m d' q = None"
      using Sub by (cases "tab m d' q") (auto split: if_splits)
    then show ?thesis
    proof cases
      case new
      then have "tab m' d' q = Some (tbl k)" using Sub by simp
      then have "tab m' d' (Sub q j) = None" using True clr[OF j] by (simp add: child_def)
      moreover have "tab m d' (Sub q j) = None" "Sub q j \<noteq> Sub p i" using up new by auto
      ultimately show ?thesis by auto
    next
      case (old v)
      have vu: "table_used m v" by (rule spaces_okD(1)[OF ok d' old(2)])
      show ?thesis
      proof (cases "(v, j) = (u, i)")
        case True
        then have "d' = d \<and> q = p" using spaces_okD(2)[OF ok d' d] old(2) u by blast
        then show ?thesis using True old u i new by (simp add: child_def)
      next
        case False
        then have "\<not> (d' = d \<and> q = p \<and> j = i)" using old(2) u by auto
        then show ?thesis using same[OF vu j False] old True by (auto simp: child_def)
      qed
    next
      case none
      then have "\<not> (d' = d \<and> q = p)" using u by auto
      then show ?thesis using none by auto
    qed
  next
    case False
    then show ?thesis using i by auto
  qed
qed simp

lemma spaces_extend:
  assumes ok: "spaces_ok m D" and d: "d \<in> D" and u: "tab m d p = Some u" and i: "dir_slot p i" and e0: "ptes m (u + 8 * i) = 0"
    and t: "k < 3840" "pgtb_charmap m ! k = CMAP_FREE"
    and new: "ptes m' (u + 8 * i) = e" "get_attribute e PAGE_PRESENT \<noteq> 0" "get_attribute e PAGE_XWR = 0" "pa2kva (get_pa e) = tbl k"
    and clr: "\<And>j. j < 512 \<Longrightarrow> ptes m' (tbl k + 8 * j) = 0"
    and same: "\<And>v j. table_used m v \<Longrightarrow> j < 512 \<Longrightarrow> (v, j) \<noteq> (u, i) \<Longrightarrow> ptes m' (v + 8 * j) = ptes m (v + 8 * j)"
    and cm: "\<And>v. table_used m v \<Longrightarrow> table_used m' v" "table_used m' (tbl k)"
  shows "spaces_ok m' D"
proof -
  have ext: "tab m' d' q = (if d' = d \<and> q = Sub p i then Some (tbl k) else tab m d' q)" if "d' \<in> D" for d' q
    by (rule tab_extend[OF ok d u i e0 t new(1,2,4) _ _ that]) (fact clr, fact same)
  have nt: "\<not> table_used m (tbl k)"
  proof
    assume "table_used m (tbl k)"
    then obtain k' where "k' < 3840" "tbl k = tbl k'" "pgtb_charmap m ! k' \<noteq> CMAP_FREE" by (auto simp: table_used_def)
    then show False using slot_inj[of k k' 0 0] t by simp
  qed
  have fresh: "tab m d' q \<noteq> Some (tbl k)" if "d' \<in> D" for d' q using spaces_okD(1)[OF ok that] nt by blast
  have "table_used m' v" if "d' \<in> D" "tab m' d' q = Some v" for d' q v
    using that ext[OF that(1), of q] cm spaces_okD(1)[OF ok that(1)] by (auto split: if_splits)
  moreover have "d1 = d2 \<and> q1 = q2" if "d1 \<in> D" "d2 \<in> D" "tab m' d1 q1 = Some v" "tab m' d2 q2 = Some v" for d1 d2 q1 q2 v
    using that(3,4) ext[OF that(1), of q1] ext[OF that(2), of q2] fresh[OF that(1), of q1] fresh[OF that(2), of q2]
      spaces_okD(2)[OF ok that(1,2), of q1 v q2] by (auto split: if_splits)
  moreover have "good_dir (ptes m' (v + 8 * j))" if v: "d' \<in> D" "tab m' d' q = Some v" "dir_slot q j" for d' q v j
  proof -
    note j = dir_slot_less[OF v(3)]
    consider "v = tbl k" | "tab m d' q = Some v" using ext[OF v(1), of q] v(2) by (auto split: if_splits)
    then show ?thesis
    proof cases
      case 1
      then show ?thesis using clr[OF j] by (simp add: good_dir_def)
    next
      case 2
      then have "good_dir (ptes m (v + 8 * j))" "table_used m v" using spaces_okD[OF ok v(1)] v(3) by blast+
      then show ?thesis using same[of v j] j new(1-3) by (cases "(v, j) = (u, i)") (auto simp: good_dir_def)
    qed
  qed
  ultimately show ?thesis unfolding spaces_ok_def by blast
qed


section \<open>Char maps\<close>

text \<open>The index kept with a char map is that of its first free entry.\<close>

definition cmap_ok :: "nat \<Rightarrow> u8 list \<Rightarrow> nat \<Rightarrow> bool" where
  "cmap_ok n cm ff \<longleftrightarrow> length cm = n \<and> ff \<le> n \<and> (\<forall>k < ff. cm ! k \<noteq> CMAP_FREE) \<and> (ff < n \<longrightarrow> cm ! ff = CMAP_FREE)"

definition free_count :: "u8 list \<Rightarrow> nat" where
  "free_count cm = length (filter (\<lambda>c. c = CMAP_FREE) cm)"

lemma next_free_spec:
  "i \<le> length cm \<Longrightarrow> i \<le> next_free cm i \<and> next_free cm i \<le> length cm \<and> (\<forall>k. i \<le> k \<longrightarrow> k < next_free cm i \<longrightarrow> cm ! k \<noteq> CMAP_FREE) \<and>
   (next_free cm i < length cm \<longrightarrow> cm ! next_free cm i = CMAP_FREE)"
proof (induction cm i rule: next_free.induct)
  case (1 cm i)
  show ?case
  proof (cases "i < length cm \<and> cm ! i \<noteq> CMAP_FREE")
    case True
    then have "next_free cm i = next_free cm (i + 1)" by (subst next_free.simps) simp
    moreover have "cm ! k \<noteq> CMAP_FREE" if "i \<le> k" "k < next_free cm (i + 1)" for k
      using 1(1)[of] 1(2) True that by (cases "k = i") auto
    ultimately show ?thesis using 1 True by auto
  next
    case False
    then have "next_free cm i = i" by (subst next_free.simps) simp
    then show ?thesis using 1(2) False by auto
  qed
qed

lemma cmap_alloc:
  assumes "cmap_ok n cm ff" and "ff < n" and "c \<noteq> CMAP_FREE"
  shows "cmap_ok n (cm[ff := c]) (next_free (cm[ff := c]) ff)"
proof -
  have l: "length cm = n" "ff \<le> length (cm[ff := c])" using assms by (auto simp: cmap_ok_def)
  note s = next_free_spec[OF l(2)]
  have "cm[ff := c] ! k \<noteq> CMAP_FREE" if "k < next_free (cm[ff := c]) ff" for k
    using s that assms by (cases "k < ff") (auto simp: cmap_ok_def)
  then show ?thesis using s l(1) by (simp add: cmap_ok_def)
qed

lemma cmap_free:
  assumes "cmap_ok n cm ff" and "i < n"
  shows "cmap_ok n (cm[i := CMAP_FREE]) (if i < ff then i else ff)"
  using assms by (auto simp: cmap_ok_def nth_list_update)

lemma free_count_alloc:
  assumes "cmap_ok n cm ff" and "ff < n" and "c \<noteq> CMAP_FREE"
  shows "Suc (free_count (cm[ff := c])) = free_count cm"
proof -
  have f: "ff < length cm" "cm ! ff = CMAP_FREE" using assms by (simp_all add: cmap_ok_def)
  then obtain xs ys where "cm = xs @ CMAP_FREE # ys" "length xs = ff"
    by (metis id_take_nth_drop length_take min.absorb4)
  then show ?thesis using assms(3) by (auto simp: free_count_def)
qed

lemma free_count_pos: "cmap_ok n cm ff \<Longrightarrow> 0 < free_count cm \<Longrightarrow> ff < n"
proof (rule ccontr)
  assume a: "cmap_ok n cm ff" "0 < free_count cm" "\<not> ff < n"
  then have "c \<noteq> CMAP_FREE" if "c \<in> set cm" for c using that by (auto simp: cmap_ok_def in_set_conv_nth)
  then show False using a(2) by (auto simp: free_count_def filter_empty_conv)
qed

section \<open>A new page table\<close>

lemma clear_ptes_spec: "clear_ptes n a p x = (if \<exists>j < n. x = a + 8 * of_nat j then 0 else p x)"
  by (induction n arbitrary: p) (auto simp: less_Suc_eq)

lemma ptes_cleared:
  assumes "k < 3840" and "k' < 3840" and "j < 512"
  shows "ptes (clear_pgdir (tbl k) m) (tbl k' + 8 * j) = (if k' = k then 0 else ptes m (tbl k' + 8 * j))"
proof -
  have "tbl k' + 8 * j = tbl k + 8 * of_nat i \<longleftrightarrow> k' = k \<and> j = of_nat i" if "i < 512" for i
    using slot_inj[of k' k j "of_nat i"] assms that by (simp add: word_less_nat_alt unat_of_nat)
  moreover have "\<exists>i < 512. j = of_nat i" using assms(3) by (intro exI[of _ "unat j"]) (simp add: word_less_nat_alt)
  ultimately show ?thesis unfolding clear_pgdir_def by (auto simp: clear_ptes_spec)
qed

lemma alloc_pagetable_spec:
  assumes c: "cmap_ok 3840 (pgtb_charmap m) (pgtb_ffree m)" and f: "pgtb_ffree m < 3840" and p: "(word_of_int pid :: u8) \<noteq> CMAP_FREE"
  shows "\<exists>m'. alloc_pagetable pid m = Some (tbl (pgtb_ffree m), m') \<and>
    m' = m\<lparr>ptes := ptes (clear_pgdir (tbl (pgtb_ffree m)) m), pgtb_charmap := (pgtb_charmap m)[pgtb_ffree m := word_of_int pid],
      pgtb_ffree := next_free ((pgtb_charmap m)[pgtb_ffree m := word_of_int pid]) (pgtb_ffree m)\<rparr>"
proof -
  have "pgtb_ffree m < length (pgtb_charmap m)" using c f by (simp add: cmap_ok_def)
  then show ?thesis using f p by (simp add: alloc_pagetable_def Let_def pgconst tbl_def clear_pgdir_def mult.commute)
qed


section \<open>The walk\<close>

definition leaf_pos :: "u64 \<Rightarrow> u64 \<Rightarrow> tpos" where
  "leaf_pos a b = Sub (Sub Root a) b"

lemma leaf_pos_eq [simp]: "leaf_pos a b = leaf_pos a' b' \<longleftrightarrow> a = a' \<and> b = b'"
  by (simp add: leaf_pos_def)

definition pte_of :: "mm \<Rightarrow> u64 \<Rightarrow> u64 \<Rightarrow> u64 \<Rightarrow> u64 \<Rightarrow> u64" where
  "pte_of m d a b c = (case tab m d (leaf_pos a b) of None \<Rightarrow> 0 | Some t \<Rightarrow> ptes m (t + 8 * c))"

text \<open>Only page tables are added; no page table entry of any address space, and no entry of the kernel, changes.\<close>

definition grown :: "u64 set \<Rightarrow> mm \<Rightarrow> mm \<Rightarrow> bool" where
  "grown D m m' \<longleftrightarrow> m' = m\<lparr>ptes := ptes m', pgtb_charmap := pgtb_charmap m', pgtb_ffree := pgtb_ffree m'\<rparr> \<and>
     spaces_ok m' D \<and> cmap_ok 3840 (pgtb_charmap m') (pgtb_ffree m') \<and>
     (\<forall>d \<in> D. \<forall>q v. tab m d q = Some v \<longrightarrow> tab m' d q = Some v) \<and>
     (\<forall>d \<in> D. \<forall>a b c. c < 512 \<longrightarrow> pte_of m' d a b c = pte_of m d a b c) \<and>
     (\<forall>d \<in> D. \<forall>i. 256 \<le> i \<longrightarrow> i < 512 \<longrightarrow> ptes m' (d + 8 * i) = ptes m (d + 8 * i)) \<and>
     (\<forall>k < 3840. pgtb_charmap m ! k \<noteq> CMAP_FREE \<longrightarrow> pgtb_charmap m' ! k = pgtb_charmap m ! k)"

lemma grown_refl: "spaces_ok m D \<Longrightarrow> cmap_ok 3840 (pgtb_charmap m) (pgtb_ffree m) \<Longrightarrow> grown D m m"
  by (simp add: grown_def)

lemma grownD:
  assumes "grown D m m'"
  shows "m' = m\<lparr>ptes := ptes m', pgtb_charmap := pgtb_charmap m', pgtb_ffree := pgtb_ffree m'\<rparr>"
    "spaces_ok m' D" "cmap_ok 3840 (pgtb_charmap m') (pgtb_ffree m')"
    "d \<in> D \<Longrightarrow> tab m d q = Some v \<Longrightarrow> tab m' d q = Some v"
    "d \<in> D \<Longrightarrow> c < 512 \<Longrightarrow> pte_of m' d a b c = pte_of m d a b c"
    "d \<in> D \<Longrightarrow> 256 \<le> i \<Longrightarrow> i < 512 \<Longrightarrow> ptes m' (d + 8 * i) = ptes m (d + 8 * i)"
    "k < 3840 \<Longrightarrow> pgtb_charmap m ! k \<noteq> CMAP_FREE \<Longrightarrow> pgtb_charmap m' ! k = pgtb_charmap m ! k"
  using assms unfolding grown_def by blast+

lemma grown_trans:
  assumes a: "grown D m m1" and b: "grown D m1 m2"
  shows "grown D m m2"
  unfolding grown_def
proof (intro conjI ballI allI impI)
  show "m2 = m\<lparr>ptes := ptes m2, pgtb_charmap := pgtb_charmap m2, pgtb_ffree := pgtb_ffree m2\<rparr>"
    by (subst grownD(1)[OF b], subst grownD(1)[OF a]) simp
next
  fix k assume k: "k < 3840" "pgtb_charmap m ! k \<noteq> CMAP_FREE"
  note 1 = grownD(7)[OF a k]
  with k have "pgtb_charmap m1 ! k \<noteq> CMAP_FREE" by simp
  from grownD(7)[OF b k(1) this] 1 show "pgtb_charmap m2 ! k = pgtb_charmap m ! k" by simp
qed (use grownD[OF a] grownD[OF b] in simp_all)

lemma grow_step:
  assumes ok: "spaces_ok m D" and d: "d \<in> D" and u: "tab m d p = Some u" and i: "dir_slot p i" and e0: "ptes m (u + 8 * i) = 0"
    and c: "cmap_ok 3840 (pgtb_charmap m) (pgtb_ffree m)" and f: "0 < free_count (pgtb_charmap m)"
    and pd: "(word_of_int pid :: u8) \<noteq> CMAP_FREE"
  shows "\<exists>t m1 m3. alloc_pagetable pid m = Some (t, m1) \<and>
    m3 = set_pte (u + 8 * i) (set_attribute (set_pfn (ptes m1 (u + 8 * i)) (drop_bit NORMAL_PAGE_SHIFT (kva2pa t))) PAGE_PRESENT) m1 \<and>
    grown D m m3 \<and> tab m3 d (Sub p i) = Some t \<and> Suc (free_count (pgtb_charmap m3)) = free_count (pgtb_charmap m) \<and>
    (\<forall>d' \<in> D. \<forall>q. tab m3 d' q = (if d' = d \<and> q = Sub p i then Some t else tab m d' q))"
proof -
  let ?k = "pgtb_ffree m" and ?S = "u + 8 * i"
  let ?t = "tbl ?k"
  have k: "?k < 3840" by (rule free_count_pos[OF c f])
  have kf: "pgtb_charmap m ! ?k = CMAP_FREE" using c k by (simp add: cmap_ok_def)
  obtain m1 where m1: "alloc_pagetable pid m = Some (?t, m1)" "m1 = m\<lparr>ptes := ptes (clear_pgdir ?t m),
      pgtb_charmap := (pgtb_charmap m)[?k := word_of_int pid], pgtb_ffree := next_free ((pgtb_charmap m)[?k := word_of_int pid]) ?k\<rparr>"
    using alloc_pagetable_spec[OF c k pd] by blast
  have m1p: "ptes m1 = ptes (clear_pgdir ?t m)" "pgtb_charmap m1 = (pgtb_charmap m)[?k := word_of_int pid]"
    "pgtb_ffree m1 = next_free ((pgtb_charmap m)[?k := word_of_int pid]) ?k" by (simp_all add: m1(2))
  obtain ku where ku: "ku < 3840" "u = tbl ku" "pgtb_charmap m ! ku \<noteq> CMAP_FREE"
    using spaces_okD(1)[OF ok d u] by (auto simp: table_used_def)
  have i5: "i < 512" by (rule dir_slot_less[OF i])
  have ne: "ku \<noteq> ?k" using ku(3) kf by auto
  have s0: "ptes m1 ?S = 0" unfolding m1p ku(2) using ptes_cleared[OF k ku(1) i5] ne e0 ku(2) by simp
  let ?e = "set_attribute (set_pfn 0 (drop_bit NORMAL_PAGE_SHIFT (kva2pa ?t))) PAGE_PRESENT"
  let ?m3 = "set_pte ?S ?e m1"
  have p3: "ptes ?m3 (tbl k' + 8 * j) = (if k' = ku \<and> j = i then ?e else if k' = ?k then 0 else ptes m (tbl k' + 8 * j))"
    if "k' < 3840" "j < 512" for k' j
  proof -
    have x: "ptes ?m3 (tbl k' + 8 * j) = (if tbl k' + 8 * j = ?S then ?e else ptes (clear_pgdir ?t m) (tbl k' + 8 * j))"
      by (simp add: set_pte_def m1p)
    have s: "tbl k' + 8 * j = ?S \<longleftrightarrow> k' = ku \<and> j = i" unfolding ku(2) by (rule slot_inj[OF that(1) ku(1) that(2) i5])
    show ?thesis unfolding x s ptes_cleared[OF k that] by (rule refl)
  qed
  have ptr: "get_attribute ?e PAGE_PRESENT \<noteq> 0" "get_attribute ?e PAGE_XWR = 0" "pa2kva (get_pa ?e) = ?t"
  proof -
    show "get_attribute ?e PAGE_PRESENT \<noteq> 0" "get_attribute ?e PAGE_XWR = 0"
      unfolding attr_set_attribute attr_set_pfn attr_0
      by (simp_all add: get_attribute_def PAGE_XWR_def pgattr PAGE_ATTRIBUTE_MASK_def mask_eq_exp_minus_1)
    show "pa2kva (get_pa ?e) = ?t" using pa2kva_set_pfn[OF tbl_aligned[OF k]] by simp
  qed
  have clr: "ptes ?m3 (?t + 8 * j) = 0" if "j < 512" for j using p3[OF k that] ne by simp
  have same: "ptes ?m3 (v + 8 * j) = ptes m (v + 8 * j)" if "table_used m v" "j < 512" "(v, j) \<noteq> (u, i)" for v j
  proof -
    from that(1) obtain kv where kv: "kv < 3840" "v = tbl kv" "pgtb_charmap m ! kv \<noteq> CMAP_FREE" by (auto simp: table_used_def)
    then show ?thesis using p3[OF kv(1) that(2)] kf that(3) ku(2) by auto
  qed
  have cm: "pgtb_charmap ?m3 = (pgtb_charmap m)[?k := word_of_int pid]" by (simp add: set_pte_def m1p)
  have lk: "?k < length (pgtb_charmap m)" using c k by (simp add: cmap_ok_def)
  have used: "table_used ?m3 v" if "table_used m v" for v
    using that pd lk unfolding table_used_def cm by (auto simp: nth_list_update)
  have used_t: "table_used ?m3 ?t" using k pd lk unfolding table_used_def cm by auto
  have S3: "ptes ?m3 ?S = ?e" by (simp add: set_pte_def)
  have ext: "tab ?m3 d' q = (if d' = d \<and> q = Sub p i then Some ?t else tab m d' q)" if "d' \<in> D" for d' q
    by (rule tab_extend[OF ok d u i e0 k kf S3 ptr(1,3) _ _ that]) (fact clr, fact same)
  have sp: "spaces_ok ?m3 D"
    by (rule spaces_extend[OF ok d u i e0 k kf S3 ptr]) (fact clr, fact same, fact used, fact used_t)
  have none: "tab m d (Sub p i) = None" using u i e0 by (simp add: child_def)
  have pte: "pte_of ?m3 d' a b x = pte_of m d' a b x" if "d' \<in> D" "x < 512" for d' a b x
  proof (cases "d' = d \<and> leaf_pos a b = Sub p i")
    case True
    then show ?thesis using ext[OF that(1), of "leaf_pos a b"] none clr[OF that(2)] by (simp add: pte_of_def)
  next
    case False
    show ?thesis
    proof (cases "tab m d' (leaf_pos a b)")
      case None
      then show ?thesis using ext[OF that(1), of "leaf_pos a b"] False by (simp add: pte_of_def)
    next
      case (Some v)
      have "p \<noteq> leaf_pos a b" using i by (auto simp: leaf_pos_def dir_slot_def)
      then have "v \<noteq> u" using spaces_okD(2)[OF ok that(1) d Some] u by blast
      then show ?thesis using same[OF spaces_okD(1)[OF ok that(1) Some] that(2)] ext[OF that(1), of "leaf_pos a b"] False Some
        by (auto simp: pte_of_def)
    qed
  qed
  have kern: "ptes ?m3 (d' + 8 * j) = ptes m (d' + 8 * j)" if "d' \<in> D" "256 \<le> j" "j < 512" for d' j
  proof -
    have "table_used m d'" by (rule spaces_okD(1)[OF ok that(1), of Root]) simp
    moreover have "(d', j) \<noteq> (u, i)"
    proof
      assume a: "(d', j) = (u, i)"
      then have "d' = d \<and> Root = p" using spaces_okD(2)[OF ok that(1) d, of Root u p] u by simp
      then show False using i a that(2) by (auto simp: dir_slot_def word_less_nat_alt word_le_nat_alt)
    qed
    ultimately show ?thesis using same that(3) by blast
  qed
  have "grown D m ?m3"
    unfolding grown_def
  proof (intro conjI ballI allI impI)
    show "?m3 = m\<lparr>ptes := ptes ?m3, pgtb_charmap := pgtb_charmap ?m3, pgtb_ffree := pgtb_ffree ?m3\<rparr>"
      by (simp add: set_pte_def m1(2))
    show "spaces_ok ?m3 D" by (rule sp)
    show "cmap_ok 3840 (pgtb_charmap ?m3) (pgtb_ffree ?m3)" using cmap_alloc[OF c k pd] by (simp add: set_pte_def m1p)
    fix d' q v assume "d' \<in> D" "tab m d' q = Some v"
    then show "tab ?m3 d' q = Some v" using ext[of d' q] none by auto
  next
    fix d' a b x assume "d' \<in> D" "x < (512 :: u64)"
    then show "pte_of ?m3 d' a b x = pte_of m d' a b x" by (rule pte)
  next
    fix d' j assume "d' \<in> D" "256 \<le> j" "j < (512 :: u64)"
    then show "ptes ?m3 (d' + 8 * j) = ptes m (d' + 8 * j)" by (rule kern)
  next
    fix k' assume "k' < 3840" "pgtb_charmap m ! k' \<noteq> CMAP_FREE"
    then show "pgtb_charmap ?m3 ! k' = pgtb_charmap m ! k'" using kf cm by (cases "k' = ?k") auto
  qed
  moreover have "tab ?m3 d (Sub p i) = Some ?t" using ext[OF d, of "Sub p i"] by (simp del: tab.simps)
  moreover have "Suc (free_count (pgtb_charmap ?m3)) = free_count (pgtb_charmap m)" unfolding cm by (rule free_count_alloc[OF c k pd])
  moreover have "\<forall>d' \<in> D. \<forall>q. tab ?m3 d' q = (if d' = d \<and> q = Sub p i then Some ?t else tab m d' q)" using ext by blast
  ultimately show ?thesis using m1(1) s0 by (intro exI[of _ ?t] exI[of _ m1] exI[of _ ?m3] conjI) (simp_all del: tab.simps)
qed


text \<open>One level of the walk, at the table of position \<open>p\<close>.\<close>

lemma walk_down:
  assumes ok: "spaces_ok m D" and d: "d \<in> D" and u: "tab m d p = Some u" and i: "dir_slot p (VPN va level)"
    and t: "tab m d (Sub p (VPN va level)) = Some t"
  shows "va2pte_loop (Suc level) va u al pid m = va2pte_loop level va t al pid m"
proof -
  have "get_attribute (ptes m (u + 8 * VPN va level)) PAGE_PRESENT \<noteq> 0" "t = pa2kva (get_pa (ptes m (u + 8 * VPN va level)))"
    using t u i by (auto simp: child_def Let_def split: if_splits)
  moreover have "get_attribute (ptes m (u + 8 * VPN va level)) PAGE_XWR = 0"
    using spaces_okD(3)[OF ok d u i] calculation(1) by (auto simp: good_dir_def)
  ultimately show ?thesis by simp
qed

lemma no_child:
  assumes ok: "spaces_ok m D" and d: "d \<in> D" and u: "tab m d p = Some u" and i: "dir_slot p j" and t: "tab m d (Sub p j) = None"
  shows "ptes m (u + 8 * j) = 0"
  using t u i spaces_okD(3)[OF ok d u i] by (auto simp: child_def Let_def good_dir_def split: if_splits)

lemma walk_grow:
  assumes ok: "spaces_ok m D" and d: "d \<in> D" and u: "tab m d p = Some u" and i: "dir_slot p (VPN va (Suc l))"
    and c: "cmap_ok 3840 (pgtb_charmap m) (pgtb_ffree m)" and f: "0 < free_count (pgtb_charmap m)"
    and pd: "(word_of_int pid :: u8) \<noteq> CMAP_FREE"
  shows "\<exists>t m1. va2pte_loop (Suc (Suc l)) va u True pid m = va2pte_loop (Suc l) va t True pid m1 \<and> grown D m m1 \<and>
    tab m1 d (Sub p (VPN va (Suc l))) = Some t \<and> free_count (pgtb_charmap m) \<le> Suc (free_count (pgtb_charmap m1))"
proof (cases "tab m d (Sub p (VPN va (Suc l)))")
  case None
  let ?S = "u + 8 * VPN va (Suc l)"
  have e0: "ptes m ?S = 0" by (rule no_child[OF ok d u i None])
  obtain t m1 m3 where s: "alloc_pagetable pid m = Some (t, m1)"
    "m3 = set_pte ?S (set_attribute (set_pfn (ptes m1 ?S) (drop_bit NORMAL_PAGE_SHIFT (kva2pa t))) PAGE_PRESENT) m1"
    "grown D m m3" "tab m3 d (Sub p (VPN va (Suc l))) = Some t" "Suc (free_count (pgtb_charmap m3)) = free_count (pgtb_charmap m)"
    using grow_step[OF ok d u i e0 c f pd] by blast
  have "va2pte_loop (Suc (Suc l)) va u True pid m = va2pte_loop (Suc l) va t True pid m3"
    using e0 s(1) unfolding s(2) by (subst va2pte_loop.simps) (simp add: set_pte_def Let_def del: va2pte_loop.simps)
  then show ?thesis using s(3-5) by (metis le_refl)
next
  case (Some t)
  then show ?thesis using walk_down[OF ok d u i Some] grown_refl[OF ok c] by (metis le_SucI le_refl)
qed

definition va_pte :: "mm \<Rightarrow> u64 \<Rightarrow> u64 \<Rightarrow> u64" where
  "va_pte m d va = pte_of m d (VPN va 2) (VPN va 1) (VPN va 0)"

text \<open>An entry of the last level is never taken for a pointer to a further table.\<close>

definition leaf_ok :: "u64 \<Rightarrow> bool" where
  "leaf_ok e \<longleftrightarrow> get_attribute e PAGE_PRESENT = 0 \<or> get_attribute e PAGE_XWR \<noteq> 0"

lemma va2pte_alloc_spec:
  assumes ok: "spaces_ok m D" and d: "d \<in> D" and va: "VPN va 2 < 256" and c: "cmap_ok 3840 (pgtb_charmap m) (pgtb_ffree m)"
    and f: "2 \<le> free_count (pgtb_charmap m)" and pd: "(word_of_int pid :: u8) \<noteq> CMAP_FREE" and leaf: "leaf_ok (va_pte m d va)"
  shows "\<exists>t m'. va2pte va d True pid m = Some (t + 8 * VPN va 0, m') \<and> grown D m m' \<and> tab m' d (leaf_pos (VPN va 2) (VPN va 1)) = Some t \<and>
    free_count (pgtb_charmap m) \<le> free_count (pgtb_charmap m') + 2"
proof -
  have i2: "dir_slot Root (VPN va 2)" using va by (simp add: dir_slot_def)
  have i1: "dir_slot (Sub Root (VPN va 2)) (VPN va 1)" using VPN_less by (simp add: dir_slot_def)
  have f0: "0 < free_count (pgtb_charmap m)" using f by simp
  obtain t1 m1 where 1: "va2pte_loop (Suc (Suc 1)) va d True pid m = va2pte_loop (Suc 1) va t1 True pid m1" "grown D m m1"
    "tab m1 d (Sub Root (VPN va 2)) = Some t1" "free_count (pgtb_charmap m) \<le> Suc (free_count (pgtb_charmap m1))"
    using walk_grow[OF ok d _ _ c f0 pd, of Root d va 1] i2 unfolding Suc_1 by auto
  have f1: "0 < free_count (pgtb_charmap m1)" using 1(4) f by simp
  obtain t0 m2 where 2: "va2pte_loop (Suc (Suc 0)) va t1 True pid m1 = va2pte_loop (Suc 0) va t0 True pid m2" "grown D m1 m2"
    "tab m2 d (Sub (Sub Root (VPN va 2)) (VPN va 1)) = Some t0" "free_count (pgtb_charmap m1) \<le> Suc (free_count (pgtb_charmap m2))"
    using walk_grow[OF grownD(2)[OF 1(2)] d 1(3) _ grownD(3)[OF 1(2)] f1 pd, of va 0] i1 unfolding One_nat_def by auto
  have g: "grown D m m2" by (rule grown_trans[OF 1(2) 2(2)])
  have "ptes m2 (t0 + 8 * VPN va 0) = va_pte m d va"
    using grownD(5)[OF g d VPN_less, of "VPN va 2" "VPN va 1" va 0] 2(3) unfolding va_pte_def pte_of_def leaf_pos_def by simp
  then have "va2pte_loop (Suc 0) va t0 True pid m2 = Some (t0 + 8 * VPN va 0, m2)" using leaf by (auto simp: leaf_ok_def Let_def)
  then have "va2pte va d True pid m = Some (t0 + 8 * VPN va 0, m2)"
    using 1(1) 2(1) unfolding va2pte_def numeral_3_eq_3 One_nat_def by simp
  moreover have "free_count (pgtb_charmap m) \<le> free_count (pgtb_charmap m2) + 2" using 1(4) 2(4) by simp
  ultimately show ?thesis using g 2(3) unfolding leaf_pos_def by blast
qed

text \<open>Without allocation the walk ends at the entry, or at an empty entry of a directory, which the level shows.\<close>

lemma va2pte_find_spec:
  assumes ok: "spaces_ok m D" and d: "d \<in> D" and va: "VPN va 2 < 256" and leaf: "leaf_ok (va_pte m d va)"
  shows "\<exists>x. va2pte va d False pid m = Some (x, m) \<and>
    (case tab m d (leaf_pos (VPN va 2) (VPN va 1)) of Some t \<Rightarrow> x = t + 8 * VPN va 0 \<and> x AND 7 = 0 \<and> x AND NOT 7 = x \<and> ptes m x = va_pte m d va
     | None \<Rightarrow> x AND 7 \<noteq> 0 \<and> ptes m (x AND NOT 7) = 0 \<and> va_pte m d va = 0)"
proof -
  have i2: "dir_slot Root (VPN va 2)" using va by (simp add: dir_slot_def)
  have i1: "dir_slot (Sub Root (VPN va 2)) (VPN va 1)" using VPN_less by (simp add: dir_slot_def)
  have rt: "tab m d Root = Some d" by simp
  have lvl: "(v + 8 * VPN va n + of_nat l) AND 7 = of_nat l" "(v + 8 * VPN va n + of_nat l) AND NOT 7 = v + 8 * VPN va n"
    if "tab m d p = Some v" "l \<le> 2" for p v n l
  proof -
    from spaces_okD(1)[OF ok d that(1)] obtain k where "k < 3840" "v = tbl k" by (auto simp: table_used_def)
    then show "(v + 8 * VPN va n + of_nat l) AND 7 = of_nat l" "(v + 8 * VPN va n + of_nat l) AND NOT 7 = v + 8 * VPN va n"
      using level_parts[OF _ VPN_less that(2)] by simp_all
  qed
  have stop: "va2pte_loop (Suc l) va u False pid m = Some (u + 8 * VPN va l + of_nat l, m)" if "ptes m (u + 8 * VPN va l) = 0" for l u
    using that by simp
  show ?thesis
  proof (cases "tab m d (Sub Root (VPN va 2))")
    case None
    have e: "ptes m (d + 8 * VPN va 2) = 0" by (rule no_child[OF ok d rt i2 None])
    have "va2pte va d False pid m = Some (d + 8 * VPN va 2 + of_nat 2, m)" unfolding va2pte_def numeral_3_eq_3 using stop[of d 2] e by (simp add: numeral_2_eq_2)
    moreover have "tab m d (leaf_pos (VPN va 2) (VPN va 1)) = None" using None unfolding leaf_pos_def by (subst tab.simps) (simp del: tab.simps)
    ultimately show ?thesis using lvl[OF rt, of 2 2] e by (auto simp: va_pte_def pte_of_def)
  next
    case (Some t1)
    have w2: "va2pte va d False pid m = va2pte_loop (Suc 1) va t1 False pid m"
      unfolding va2pte_def numeral_3_eq_3 using walk_down[OF ok d rt i2 Some] by (simp add: numeral_2_eq_2 del: va2pte_loop.simps)
    show ?thesis
    proof (cases "tab m d (leaf_pos (VPN va 2) (VPN va 1))")
      case None
      have e: "ptes m (t1 + 8 * VPN va 1) = 0" by (rule no_child[OF ok d Some i1 None[unfolded leaf_pos_def]])
      have "va2pte va d False pid m = Some (t1 + 8 * VPN va 1 + of_nat 1, m)" unfolding w2 by (rule stop[OF e])
      then show ?thesis using lvl[OF Some, of 1 1] e None by (auto simp: va_pte_def pte_of_def)
    next
      case Some0: (Some t0)
      have "va2pte va d False pid m = va2pte_loop (Suc 0) va t0 False pid m"
        unfolding w2 One_nat_def using walk_down[OF ok d Some i1 Some0[unfolded leaf_pos_def]] by (simp del: va2pte_loop.simps)
      moreover have p: "ptes m (t0 + 8 * VPN va 0) = va_pte m d va" using Some0 by (simp add: va_pte_def pte_of_def)
      ultimately have "va2pte va d False pid m = Some (t0 + 8 * VPN va 0, m)" using leaf by (auto simp: leaf_ok_def Let_def)
      then show ?thesis using lvl[OF Some0, of 0 0] Some0 p by auto
    qed
  qed
qed


section \<open>Writing an entry\<close>

text \<open>A write to the entry of a page changes this entry and no other of any address space.\<close>

lemma pte_write:
  assumes ok: "spaces_ok m D" and d: "d \<in> D" and t: "tab m d (leaf_pos a b) = Some t" and c: "c < 512"
  shows "d' \<in> D \<Longrightarrow> tab (set_pte (t + 8 * c) e m) d' q = tab m d' q"
    "spaces_ok (set_pte (t + 8 * c) e m) D"
    "d' \<in> D \<Longrightarrow> c' < 512 \<Longrightarrow> pte_of (set_pte (t + 8 * c) e m) d' a' b' c' =
      (if d' = d \<and> a' = a \<and> b' = b \<and> c' = c then e else pte_of m d' a' b' c')"
proof -
  let ?m = "set_pte (t + 8 * c) e m"
  obtain k where k: "k < 3840" "t = tbl k" using spaces_okD(1)[OF ok d t] by (auto simp: table_used_def)
  have p: "ptes ?m (v + 8 * j) = (if v = t \<and> j = c then e else ptes m (v + 8 * j))" if "table_used m v" "j < 512" for v j
  proof -
    from that(1) obtain k' where k': "k' < 3840" "v = tbl k'" by (auto simp: table_used_def)
    have "v + 8 * j = t + 8 * c \<longleftrightarrow> v = t \<and> j = c"
      using slot_inj[OF k'(1) k(1) that(2) c] slot_inj[OF k'(1) k(1), of 0 0] by (simp add: k k')
    then show ?thesis by (simp add: set_pte_def)
  qed
  have dir: "ptes ?m (v + 8 * j) = ptes m (v + 8 * j)" if "d' \<in> D" "tab m d' q = Some v" "dir_slot q j" for d' q v j
  proof -
    have "q \<noteq> leaf_pos a b" using that(3) by (auto simp: dir_slot_def leaf_pos_def)
    then have "v \<noteq> t" using spaces_okD(2)[OF ok that(1) d that(2), of "leaf_pos a b"] t by blast
    then show ?thesis using p[OF spaces_okD(1)[OF ok that(1,2)] dir_slot_less[OF that(3)]] by simp
  qed
  have tab: "tab ?m d' q = tab m d' q" if "d' \<in> D" for d' q
  proof (induction q)
    case (Sub q j)
    then show ?case using dir[OF that, of q _ j] by (cases "tab m d' q") (auto simp: child_def)
  qed simp
  then show "d' \<in> D \<Longrightarrow> tab ?m d' q = tab m d' q" for d' q .
  have used: "table_used ?m v = table_used m v" for v by (simp add: table_used_def set_pte_def)
  show "spaces_ok ?m D"
    unfolding spaces_ok_def
  proof (intro conjI ballI allI impI)
    fix d' q v assume "d' \<in> D" "tab ?m d' q = Some v"
    then show "table_used ?m v" using tab spaces_okD(1)[OF ok] used by metis
  next
    fix d1 d2 q1 q2 v assume "d1 \<in> D" "d2 \<in> D" "tab ?m d1 q1 = Some v" "tab ?m d2 q2 = Some v"
    then show "d1 = d2" "q1 = q2" using tab spaces_okD(2)[OF ok] by metis+
  next
    fix d' q v j assume "d' \<in> D" "tab ?m d' q = Some v" "dir_slot q j"
    then show "good_dir (ptes ?m (v + 8 * j))" using tab dir spaces_okD(3)[OF ok] by metis
  qed
  show "pte_of ?m d' a' b' c' = (if d' = d \<and> a' = a \<and> b' = b \<and> c' = c then e else pte_of m d' a' b' c')"
    if "d' \<in> D" "c' < 512"
  proof (cases "tab m d' (leaf_pos a' b')")
    case None
    then have "\<not> (d' = d \<and> a' = a \<and> b' = b)" using t by auto
    then show ?thesis using None tab[OF that(1)] by (auto simp: pte_of_def)
  next
    case (Some v)
    have "v = t \<longleftrightarrow> d' = d \<and> leaf_pos a' b' = leaf_pos a b" using spaces_okD(2)[OF ok that(1) d Some, of "leaf_pos a b"] t Some by auto
    then show ?thesis using p[OF spaces_okD(1)[OF ok that(1) Some] that(2)] tab[OF that(1)] Some
      by (auto simp: pte_of_def)
  qed
qed

end
