(* ===== verification/Memory.thy ===== *)
theory Memory
  imports Mbox PageWalk
begin

text \<open>
  Memory of processes: page frames with swapping, mapping a page, shared pages, the heap of a process and the
  page-fault handler (\<^verbatim>\<open>kernel/mm/mm.c\<close>, \<^verbatim>\<open>mm-swap.c\<close>, \<^verbatim>\<open>mm-shared.c\<close>, \<^verbatim>\<open>handle_pagefault\<close> of \<^verbatim>\<open>kernel/irq/irq.c\<close>).

  The clock algorithm looks at all page frames in turn until it finds one to evict; when every frame is shared or
  belongs to a process on another CPU it would not end, so the scan is a partial function. Flushing the TLB and the
  instruction cache has no effect on this state.
\<close>

section \<open>Initialisation\<close>

text \<open>\<^verbatim>\<open>taskinfo_offset\<close> and \<^verbatim>\<open>tasknum\<close> are read from the boot loader; 64 is the size of \<^verbatim>\<open>task_info_t\<close>.\<close>

definition init_swap :: "u32 \<Rightarrow> u32 \<Rightarrow> 'd kstate \<Rightarrow> 'd kstate" where
  "init_swap taskinfo_offset tasknum s =
     (let st = lbytes2sectors (taskinfo_offset + tasknum * 64 - 1) + 1 in
      s\<lparr>vm := (vm s)\<lparr>swap_start := st, clock_pt := 0, spg_ffree := 0, spg_charmap := replicate NPSWAP CMAP_FREE\<rparr>,
        fs := (fs s)\<lparr>GFS_base_sec := ucast (ROUND (ucast (st + of_nat NPSWAP * SEC_PER_BLOCK)) (ucast SEC_PER_BLOCK))\<rparr>\<rparr>)"

definition init_mm :: "u64 \<Rightarrow> u32 \<Rightarrow> u32 \<Rightarrow> 'd kstate \<Rightarrow> 'd kstate option" where
  "init_mm bss_end taskinfo_offset tasknum s = do {
     h \<leftarrow> malloc_init bss_end (kh (fs s));
     let s1 = init_swap taskinfo_offset tasknum (s\<lparr>fs := (fs s)\<lparr>kh := h\<rparr>\<rparr>);
     let m = (vm s1)\<lparr>pg_ffree := 0, pg_charmap := replicate NPF CMAP_FREE, pgtb_ffree := 2,
       pgtb_charmap := [0, 0] @ replicate (NPT - 2) CMAP_FREE\<rparr>;
     (p, h1) \<leftarrow> kmalloc_g (8 * of_nat NPF) h;
     if p = NULL then None
     else Some (s1\<lparr>vm := m\<lparr>pg_uva := take NPF (pg_uva m @ replicate NPF 0)\<rparr>, fs := (fs s1)\<lparr>kh := h1\<rparr>\<rparr>)
   }"

definition upd_vm :: "(mm \<Rightarrow> mm) \<Rightarrow> 'd kstate \<Rightarrow> 'd kstate" where
  "upd_vm f s = s\<lparr>vm := f (vm s)\<rparr>"

section \<open>Swapping out\<close>

definition on_other_cpu :: "int \<Rightarrow> 'd kstate \<Rightarrow> bool" where
  "on_other_cpu i s \<longleftrightarrow>
     list_ex (\<lambda>k. k \<noteq> cpu_id s \<and> pid (pcbs s (current_running s ! k)) = i) [0..<length (current_running s)]"

definition clock_step :: "mm \<Rightarrow> mm" where
  "clock_step m = m\<lparr>clock_pt := if clock_pt m + 1 \<ge> NPF then 0 else clock_pt m + 1\<rparr>"

text \<open>
  The look at one frame: the address of the entry of a page to evict, or \<open>NULL\<close> with the accessed bit cleared. The other
  components are the process identifier and the PCB of its owner.
\<close>

definition clock_look :: "'d kstate \<Rightarrow> (u64 \<times> int \<times> addr \<times> 'd kstate) option" where
  "clock_look s = do {
     c \<leftarrow> nth_chk (pg_charmap (vm s)) (clock_pt (vm s));
     let i = uint c;
     let p = pcb_search i s;
     if p = NULL \<and> c \<noteq> CMAP_SHARED then None
     else if \<not> on_other_cpu i s \<and> c \<noteq> CMAP_SHARED then do {
       uva \<leftarrow> nth_chk (pg_uva (vm s)) (clock_pt (vm s));
       (lpte, m) \<leftarrow> va2pte uva (pgdir_kva (pcbs s p)) False 0 (vm s);
       let ppte = lpte AND NOT 7;
       let e = ptes (vm s) ppte;
       if lpte AND 7 \<noteq> 0 \<or> get_attribute e PAGE_PRESENT = 0 then None
       else if get_attribute e PAGE_ACCESSED \<noteq> 0 then Some (0, i, p, upd_vm (set_pte ppte (e AND NOT PAGE_ACCESSED)) s)
       else Some (ppte, i, p, s)
     } else Some (0, i, p, s)
   }"

partial_function (option) clock_scan :: "'d kstate \<Rightarrow> (u64 \<times> int \<times> addr \<times> 'd kstate) option" where
  "clock_scan s = do {
     r \<leftarrow> clock_look s;
     if fst r \<noteq> 0 then Some r else clock_scan (upd_vm clock_step (snd (snd (snd r))))
   }"

text \<open>The result is the index of the frame that is free now.\<close>

definition swap_to_disk :: "'d kstate \<Rightarrow> (nat \<times> 'd kstate) option" where
  "swap_to_disk s = do {
     (ppte, i, p, s1) \<leftarrow> clock_scan s;
     (spidx, m1) \<leftarrow> alloc_swap_page i (vm s1);
     if spidx \<ge> NPSWAP then None
     else do {
       let bs = frame_bytes (Pg_base + push_bit NORMAL_PAGE_SHIFT (of_nat (clock_pt m1))) m1;
       let f1 = (fs s1)\<lparr>dev := sd_write (fs s1) (dev (fs s1)) (NORMAL_PAGE_SIZE div SECTOR_SIZE) (unat (get_sec_idx spidx m1)) bs\<rparr>;
       let m2 = set_pte ppte (ptes m1 ppte AND NOT PAGE_PRESENT) m1;
       let m3 = set_pte ppte (set_pfn (ptes m2 ppte) (of_nat spidx)) m2;
       if ptes m3 ppte = 0 then None
       else Some (clock_pt m3, s1\<lparr>fs := f1, vm := clock_step m3\<rparr>)
     }
   }"

section \<open>Page frames\<close>

definition alloc_page :: "nat \<Rightarrow> int \<Rightarrow> u64 \<Rightarrow> 'd kstate \<Rightarrow> (u64 \<times> 'd kstate) option" where
  "alloc_page npages pd uva s =
     (if npages \<noteq> 1 then None
      else if (word_of_int pd :: u8) = CMAP_FREE then None
      else do {
        (i, n, s1) \<leftarrow> (if pg_ffree (vm s) \<ge> NPF then do { (i, s1) \<leftarrow> swap_to_disk s; Some (i, 0, s1) } else Some (pg_ffree (vm s), npages, s));
        cm \<leftarrow> upd_chk (pg_charmap (vm s1)) i (word_of_int pd);
        us \<leftarrow> upd_chk (pg_uva (vm s1)) i (push_bit NORMAL_PAGE_SHIFT (drop_bit NORMAL_PAGE_SHIFT uva));
        Some (Pg_base + of_nat i * of_nat NORMAL_PAGE_SIZE,
          upd_vm (\<lambda>m. m\<lparr>pg_charmap := cm, pg_uva := us, pg_ffree := if n \<noteq> 0 then next_free cm i else NPF\<rparr>) s1)
      })"

definition alloc_page_helper :: "u64 \<Rightarrow> u64 \<Rightarrow> int \<Rightarrow> 'd kstate \<Rightarrow> (u64 \<times> 'd kstate) option" where
  "alloc_page_helper va pgdir pd s = do {
     (lpte, m1) \<leftarrow> va2pte va pgdir True pd (vm s);
     let ppte = lpte AND NOT 7;
     if lpte AND 7 \<noteq> 0 then None
     else if ptes m1 ppte \<noteq> 0 then None
     else do {
       (kva, s2) \<leftarrow> alloc_page 1 pd va (s\<lparr>vm := m1\<rparr>);
       let m2 = set_pte ppte (set_pfn (ptes (vm s2) ppte) (drop_bit NORMAL_PAGE_SHIFT (kva2pa kva))) (vm s2);
       let m3 = set_pte ppte (set_attribute (ptes m2 ppte) PAGE_VURWXAD) m2;
       Some (kva, s2\<lparr>vm := m3\<rparr>)
     }
   }"

text \<open>The result 0 says that the entry is not that of a page on disk.\<close>

definition swap_from_disk :: "u64 \<Rightarrow> u64 \<Rightarrow> 'd kstate \<Rightarrow> (u64 \<times> 'd kstate) option" where
  "swap_from_disk ppte uva s =
     (let e = ptes (vm s) ppte; spidx = (ucast (get_pfn e) :: u32) in
      if get_attribute e PAGE_PRESENT \<noteq> 0 \<or> unat spidx \<ge> NPSWAP then Some (0, s)
      else do {
        (kva, s1) \<leftarrow> alloc_page 1 (pid (cur_pcb s)) uva s;
        if kva = 0 then None
        else do {
          let bs = sd_read (fs s1) (dev (fs s1)) (NORMAL_PAGE_SIZE div SECTOR_SIZE) (unat (get_sec_idx (unat spidx) (vm s1)));
          m1 \<leftarrow> free_swap_page spidx (store_page kva bs (vm s1));
          let m2 = set_pte ppte (set_attribute (ptes m1 ppte) (PAGE_PRESENT OR PAGE_ACCESSED OR PAGE_DIRTY)) m1;
          let m3 = set_pte ppte (set_pfn (ptes m2 ppte) (drop_bit NORMAL_PAGE_SHIFT (kva2pa kva))) m2;
          Some (kva, s1\<lparr>vm := m3\<rparr>)
        }
      })"

section \<open>The heap of a process\<close>

definition USEG_MAX :: u64 where "USEG_MAX = 8 * 1024 * 1024"

text \<open>All threads of a process have the same segment.\<close>

definition set_seg_end :: "addr list \<Rightarrow> (u64 \<Rightarrow> u64) \<Rightarrow> 'd kstate \<Rightarrow> 'd kstate" where
  "set_seg_end ps f s = fold (\<lambda>p. upd_pcb p (\<lambda>c. c\<lparr>seg_end := f (seg_end c)\<rparr>)) ps s"

definition do_sbrk :: "u64 \<Rightarrow> 'd kstate \<Rightarrow> u64 \<times> 'd kstate" where
  "do_sbrk size0 s =
     (let size = ROUND size0 8; c = cur_pcb s; rt = seg_end c in
      if size > USEG_MAX \<or> rt + size - seg_start c > USEG_MAX then (0, s)
      else (rt, set_seg_end (pcb_search_all (pid c) s) (\<lambda>e. e + size) s))"

section \<open>Shared pages\<close>

text \<open>The first process to use the page gets a cleared frame, a further one the frame that is there.\<close>

definition shm_first :: "nat \<Rightarrow> u64 \<Rightarrow> pcb \<Rightarrow> 'd kstate \<Rightarrow> (u64 \<times> 'd kstate) option" where
  "shm_first k uva c s = do {
     (kva, s1) \<leftarrow> alloc_page_helper uva (pgdir_kva c) (pid c) s;
     let m = clear_frame kva (vm s1);
     let i = (ucast (drop_bit NORMAL_PAGE_SHIFT (kva - Pg_base)) :: u32);
     cm \<leftarrow> upd_chk (pg_charmap m) (unat i) CMAP_SHARED;
     us \<leftarrow> upd_chk (pg_uva m) (unat i) 1;
     x \<leftarrow> nth_chk (shm_ctrls m) k;
     Some (kva, s1\<lparr>vm := m\<lparr>pg_charmap := cm, pg_uva := us,
       shm_ctrls := (shm_ctrls m)[k := x\<lparr>shm_pgidx := i, shm_opid := pid c # replicate (NPSHM - 1) (-1)\<rparr>]\<rparr>\<rparr>)
   }"

definition shm_join :: "nat \<Rightarrow> pcb \<Rightarrow> 'd kstate \<Rightarrow> (u64 \<times> 'd kstate) option" where
  "shm_join k c s = do {
     let m = vm s;
     x \<leftarrow> nth_chk (shm_ctrls m) k;
     let j = length (takeWhile (\<lambda>p. p \<noteq> -1) (shm_opid x));
     if j \<ge> NPSHM then None
     else do {
       u \<leftarrow> nth_chk (pg_uva m) (unat (shm_pgidx x));
       Some (Pg_base + ucast (push_bit NORMAL_PAGE_SHIFT (shm_pgidx x)),
         s\<lparr>vm := m\<lparr>pg_uva := (pg_uva m)[unat (shm_pgidx x) := u + 1],
           shm_ctrls := (shm_ctrls m)[k := x\<lparr>shm_opid := (shm_opid x)[j := pid c]\<rparr>]\<rparr>\<rparr>)
     }
   }"

definition shm_page_get :: "int \<Rightarrow> 'd kstate \<Rightarrow> (u64 \<times> 'd kstate) option" where
  "shm_page_get key s = do {
     let k = nat ((key mod 2 ^ 32) mod int NSHM);
     let c = cur_pcb s;
     x \<leftarrow> nth_chk (shm_ctrls (vm s)) k;
     if shm_nproc x \<ge> of_nat NPSHM then Some (0, s)
     else if shm_nproc x > 0 \<and> pid c \<in> set (shm_opid x) then Some (0, s)
     else do {
       let uva = ROUND (seg_end c) (of_nat NORMAL_PAGE_SIZE);
       if uva + of_nat NORMAL_PAGE_SIZE - seg_start c > USEG_MAX then Some (0, s)
       else do {
         let s1 = set_seg_end (pcb_search_all (pid c) s) (\<lambda>_. uva + of_nat NORMAL_PAGE_SIZE) (upd_pcb (cur_cpu s) (\<lambda>c. c\<lparr>seg_end := uva\<rparr>) s);
         (kva, s2) \<leftarrow> (if shm_nproc x = 0 then shm_first k uva c s1 else shm_join k c s1);
         y \<leftarrow> nth_chk (shm_ctrls (vm s2)) k;
         let n = shm_nproc y + 1;
         let m = (vm s2)\<lparr>shm_ctrls := (shm_ctrls (vm s2))[k := y\<lparr>shm_nproc := n\<rparr>]\<rparr>;
         (lpte, m1) \<leftarrow> (if n > 1 then va2pte uva (pgdir_kva c) True (pid c) m else va2pte uva (pgdir_kva c) False 0 m);
         let ppte = lpte AND NOT 7;
         if lpte AND 7 \<noteq> 0 then None
         else do {
           let m2 = set_pte ppte 0 m1;
           let m3 = set_pte ppte (set_attribute (ptes m2 ppte) (PAGE_SHARED OR PAGE_VURWXAD)) m2;
           let m4 = set_pte ppte (set_pfn (ptes m3 ppte) (drop_bit NORMAL_PAGE_SHIFT (kva2pa kva))) m3;
           Some (uva, s2\<lparr>vm := m4\<rparr>)
         }
       }
     }
   }"

definition shm_page_dt :: "u64 \<Rightarrow> int \<Rightarrow> u64 \<Rightarrow> 'd kstate \<Rightarrow> (int \<times> 'd kstate) option" where
  "shm_page_dt addr mpid pgdir s = do {
     (rt, m) \<leftarrow> (if mpid = INVALID_PID then shm_detach addr (pid (cur_pcb s)) (pgdir_kva (cur_pcb s)) (vm s)
       else shm_detach addr mpid pgdir (vm s));
     Some (rt, s\<lparr>vm := m\<rparr>)
   }"

definition do_shm_page_dt :: "u64 \<Rightarrow> 'd kstate \<Rightarrow> (int \<times> 'd kstate) option" where
  "do_shm_page_dt addr s = shm_page_dt addr INVALID_PID 0 s"


section \<open>Page faults\<close>

definition USTACK_NPG :: u64 where "USTACK_NPG = 16"
definition User_sp :: u64 where "User_sp = 0xf00010000"
definition SR_SPP :: u64 where "SR_SPP = 0x100"
definition EXC_STORE_PAGE_FAULT :: u64 where "EXC_STORE_PAGE_FAULT = 15"

text \<open>How often the same fault has come up in a short time.\<close>

definition pf_count :: "u64 \<Rightarrow> 'd kstate \<Rightarrow> 'd kstate" where
  "pf_count stval s =
     (let f = pf s; time = (ucast (get_timer s) :: u32) in
      s\<lparr>pf := if stval = last_stval f \<and> pid (cur_pcb s) = last_pid f \<and> time - last_time f \<le> 3
        then f\<lparr>pf_ymr := pf_ymr f + 1\<rparr>
        else \<lparr>pf_ymr = 1, last_stval = stval, last_pid = pid (cur_pcb s), last_time = time\<rparr>\<rparr>)"

definition in_segment :: "u64 \<Rightarrow> pcb \<Rightarrow> bool" where
  "in_segment stval c \<longleftrightarrow> stval < User_sp \<and> stval \<ge> User_sp - USTACK_NPG * of_nat NORMAL_PAGE_SIZE \<or> stval \<ge> seg_start c \<and> stval < seg_end c"

definition copy_on_write :: "u64 \<Rightarrow> u64 \<Rightarrow> 'd kstate \<Rightarrow> 'd kstate option" where
  "copy_on_write stval ppte s = do {
     let pgidx = get_pgidx (ptes (vm s) ppte);
     (kva, s1) \<leftarrow> alloc_page 1 (pid (cur_pcb s)) stval s;
     let m1 = copy_frame kva (pa2kva (get_pa (ptes (vm s1) ppte))) (vm s1);
     let m2 = set_pte ppte (set_pfn (ptes m1 ppte) (drop_bit NORMAL_PAGE_SHIFT (kva2pa kva))) m1;
     let m3 = set_pte ppte (set_attribute (ptes m2 ppte) PAGE_WRITE) m2;
     let m4 = set_pte ppte (clear_attribute (ptes m3 ppte) PAGE_COW) m3;
     u \<leftarrow> nth_chk (pg_uva m4) (unat pgidx);
     if u = 0 \<or> u > of_nat UPROC_MAX then None
     else do {
       let m5 = m4\<lparr>pg_uva := (pg_uva m4)[unat pgidx := u - 1]\<rparr>;
       m6 \<leftarrow> (if u - 1 = 0 then free_page (Pg_base + ucast (push_bit NORMAL_PAGE_SHIFT pgidx)) m5 else Some m5);
       Some (s1\<lparr>vm := m6\<rparr>)
     }
   }"

text \<open>The handler for an address of the process, with the entry the walk has found.\<close>

definition fix_page :: "u64 \<Rightarrow> u64 \<Rightarrow> u64 \<Rightarrow> 'd kstate \<Rightarrow> 'd kstate option" where
  "fix_page stval scause ppte s =
     (if ptes (vm s) ppte = 0 then do { (kva, s1) \<leftarrow> alloc_page_helper stval (pgdir_kva (cur_pcb s)) (pid (cur_pcb s)) s; Some s1 }
      else if get_attribute (ptes (vm s) ppte) PAGE_PRESENT \<noteq> 0 then do {
        s1 \<leftarrow> (if get_attribute (ptes (vm s) ppte) PAGE_COW \<noteq> 0 \<and> scause = EXC_STORE_PAGE_FAULT then copy_on_write stval ppte s else Some s);
        Some (upd_vm (\<lambda>m. set_pte ppte (set_attribute (ptes m ppte) (PAGE_ACCESSED OR PAGE_DIRTY)) m) s1)
      } else do {
        (kva, s1) \<leftarrow> swap_from_disk ppte stval s;
        if kva = 0 then None else Some s1
      })"

text \<open>The answer \<open>False\<close> is a segment fault: the process has to exit.\<close>

definition handle_pagefault :: "u64 \<Rightarrow> u64 \<Rightarrow> 'd kstate \<Rightarrow> (bool \<times> 'd kstate) option" where
  "handle_pagefault stval scause s0 = do {
     let s = pf_count stval s0;
     let c = cur_pcb s;
     if pid c < int NCPU then None
     else do {
       (lpte, m) \<leftarrow> va2pte stval (pgdir_kva c) False 0 (vm s);
       let ppte = lpte AND NOT 7;
       if csr_sstatus s AND SR_SPP \<noteq> 0 \<and> stval \<ge> KVA_MIN then None
       else if pf_ymr (pf s) \<ge> 3 then None
       else if in_segment stval c then do { s1 \<leftarrow> fix_page stval scause ppte s; Some (True, s1) }
       else Some (False, s)
     }
   }"

section \<open>Frames\<close>

definition frames_ok :: "mm \<Rightarrow> bool" where
  "frames_ok m \<longleftrightarrow> cmap_ok 51200 (pg_charmap m) (pg_ffree m) \<and> length (pg_uva m) = 51200"

text \<open>All the tables: the page tables of the address spaces \<open>D\<close> and the char maps.\<close>

definition vm_ok :: "mm \<Rightarrow> u64 set \<Rightarrow> bool" where
  "vm_ok m D \<longleftrightarrow> spaces_ok m D \<and> cmap_ok 3840 (pgtb_charmap m) (pgtb_ffree m) \<and> frames_ok m"

definition page_of :: "u64 \<Rightarrow> u64" where
  "page_of uva = push_bit NORMAL_PAGE_SHIFT (drop_bit NORMAL_PAGE_SHIFT uva)"

definition frame_index :: "u64 \<Rightarrow> nat" where
  "frame_index kva = unat (ucast (drop_bit NORMAL_PAGE_SHIFT (kva - Pg_base)) :: u32)"

lemma frame_index_frame: "k < 51200 \<Longrightarrow> frame_index (frame k) = k"
proof -
  assume k: "k < 51200"
  have "frame k - Pg_base = of_nat (k * 4096)" by (simp add: frame_def)
  moreover have "unat (of_nat (k * 4096) :: u64) = k * 4096" using k by (intro unat_of_nat_small) simp
  ultimately have "unat (drop_bit 12 (frame k - Pg_base)) = k" by (simp add: drop_bit_eq_div unat_div)
  then show ?thesis using k by (simp add: frame_index_def NORMAL_PAGE_SHIFT_def unsigned_ucast_eq take_bit_nat_eq_self)
qed

lemma free_page_spec [kspec]:
  assumes "frames_ok m" and "k < 51200" and "pg_charmap m ! k \<noteq> CMAP_FREE"
  shows "\<exists>m'. free_page (frame k) m = Some m' \<and> frames_ok m' \<and>
    m' = m\<lparr>pg_charmap := (pg_charmap m)[k := CMAP_FREE], pg_ffree := if k < pg_ffree m then k else pg_ffree m\<rparr>"
proof -
  have l: "k < length (pg_charmap m)" "length (pg_charmap m) = 51200" using assms by (simp_all add: frames_ok_def cmap_ok_def)
  have "\<not> frame k < Pg_base" using unat_frame[OF assms(2)] by (simp add: Pg_base_eq word_less_nat_alt)
  then have "free_page (frame k) m = Some (m\<lparr>pg_charmap := (pg_charmap m)[k := CMAP_FREE], pg_ffree := if k < pg_ffree m then k else pg_ffree m\<rparr>)"
    using l assms frame_index_frame[OF assms(2)] frame_aligned(2)[OF assms(2)]
    by (simp add: free_page_def Let_def frame_index_def NPF_def)
  moreover have "frames_ok (m\<lparr>pg_charmap := (pg_charmap m)[k := CMAP_FREE], pg_ffree := if k < pg_ffree m then k else pg_ffree m\<rparr>)"
    using cmap_free[of 51200 "pg_charmap m" "pg_ffree m" k] assms by (simp add: frames_ok_def)
  ultimately show ?thesis by blast
qed

text \<open>While a frame is free, the one with the lowest number is taken.\<close>

definition take_frame :: "int \<Rightarrow> u64 \<Rightarrow> mm \<Rightarrow> mm" where
  "take_frame pd uva m = (let k = pg_ffree m; cm = (pg_charmap m)[k := word_of_int pd] in
     m\<lparr>pg_charmap := cm, pg_uva := (pg_uva m)[k := page_of uva], pg_ffree := next_free cm k\<rparr>)"

lemma alloc_page_spec [kspec]:
  assumes "frames_ok (vm s)" and "pg_ffree (vm s) < 51200" and "(word_of_int pd :: u8) \<noteq> CMAP_FREE"
  shows "alloc_page 1 pd uva s = Some (frame (pg_ffree (vm s)), upd_vm (take_frame pd uva) s)" "frames_ok (take_frame pd uva (vm s))"
proof -
  have l: "pg_ffree (vm s) < length (pg_charmap (vm s))" "pg_ffree (vm s) < length (pg_uva (vm s))"
    using assms by (simp_all add: frames_ok_def cmap_ok_def)
  then show "alloc_page 1 pd uva s = Some (frame (pg_ffree (vm s)), upd_vm (take_frame pd uva) s)"
    using assms(2,3) by (simp add: alloc_page_def NPF_def upd_vm_def take_frame_def frame_def page_of_def NORMAL_PAGE_SIZE_def Let_def)
  show "frames_ok (take_frame pd uva (vm s))"
    using cmap_alloc[of 51200 "pg_charmap (vm s)" "pg_ffree (vm s)" "word_of_int pd"] assms
    by (simp add: frames_ok_def take_frame_def Let_def)
qed

lemma take_frame_simps [simp]:
  "ptes (take_frame pd uva m) = ptes m" "umem (take_frame pd uva m) = umem m" "pgtb_charmap (take_frame pd uva m) = pgtb_charmap m"
  "pgtb_ffree (take_frame pd uva m) = pgtb_ffree m" "spg_charmap (take_frame pd uva m) = spg_charmap m" "spg_ffree (take_frame pd uva m) = spg_ffree m"
  "swap_start (take_frame pd uva m) = swap_start m" "shm_ctrls (take_frame pd uva m) = shm_ctrls m" "clock_pt (take_frame pd uva m) = clock_pt m"
  by (simp_all add: take_frame_def Let_def)

lemma tab_cong: "ptes m' = ptes m \<Longrightarrow> tab m' d q = tab m d q"
  by (induction q) (simp_all add: child_def cong: option.case_cong)

lemma same_spaces: "ptes m' = ptes m \<Longrightarrow> pgtb_charmap m' = pgtb_charmap m \<Longrightarrow> spaces_ok m' D = spaces_ok m D \<and> pte_of m' d a b c = pte_of m d a b c"
  unfolding spaces_ok_def table_used_def pte_of_def using tab_cong[of m' m] by (simp cong: option.case_cong)

section \<open>Mapping a page\<close>

definition user_pte :: "nat \<Rightarrow> u64" where
  "user_pte k = set_attribute (set_pfn 0 (drop_bit NORMAL_PAGE_SHIFT (kva2pa (frame k)))) PAGE_VURWXAD"

lemma user_pte_simps:
  assumes "k < 51200"
  shows "pa2kva (get_pa (user_pte k)) = frame k" "get_attribute (user_pte k) a = get_attribute PAGE_VURWXAD a"
  using pa2kva_set_pfn[OF frame_aligned[OF assms], of 0] by (simp_all add: user_pte_def attr_set_attribute)

lemma vm_okD: "vm_ok m D \<Longrightarrow> spaces_ok m D" "vm_ok m D \<Longrightarrow> cmap_ok 3840 (pgtb_charmap m) (pgtb_ffree m)" "vm_ok m D \<Longrightarrow> frames_ok m"
  by (simp_all add: vm_ok_def)

lemma grown_fields:
  assumes "grown D m m'"
  shows "umem m' = umem m" "pg_charmap m' = pg_charmap m" "pg_ffree m' = pg_ffree m" "pg_uva m' = pg_uva m" "spg_charmap m' = spg_charmap m"
    "spg_ffree m' = spg_ffree m" "clock_pt m' = clock_pt m" "swap_start m' = swap_start m" "shm_ctrls m' = shm_ctrls m"
  by (subst grownD(1)[OF assms], simp)+

lemma leaf_ok_0 [simp]: "leaf_ok 0"
  by (simp add: leaf_ok_def)

lemma alloc_page_helper_spec [kspec]:
  assumes ok: "vm_ok (vm s) D" and d: "d \<in> D" and va: "VPN va 2 < 256" and f: "2 \<le> free_count (pgtb_charmap (vm s))"
    and pd: "(word_of_int pd :: u8) \<noteq> CMAP_FREE" and z: "va_pte (vm s) d va = 0" and k: "pg_ffree (vm s) < 51200"
  shows "\<exists>m'. alloc_page_helper va d pd s = Some (frame (pg_ffree (vm s)), s\<lparr>vm := m'\<rparr>) \<and> vm_ok m' D \<and>
    (\<forall>d' \<in> D. \<forall>a b c. c < 512 \<longrightarrow> pte_of m' d' a b c =
      (if d' = d \<and> a = VPN va 2 \<and> b = VPN va 1 \<and> c = VPN va 0 then user_pte (pg_ffree (vm s)) else pte_of (vm s) d' a b c)) \<and>
    umem m' = umem (vm s) \<and> pg_charmap m' = (pg_charmap (vm s))[pg_ffree (vm s) := word_of_int pd] \<and>
    pg_uva m' = (pg_uva (vm s))[pg_ffree (vm s) := page_of va] \<and>
    m' = (vm s)\<lparr>ptes := ptes m', pgtb_charmap := pgtb_charmap m', pgtb_ffree := pgtb_ffree m', pg_charmap := pg_charmap m', pg_ffree := pg_ffree m', pg_uva := pg_uva m'\<rparr> \<and>
    (\<exists>t. tab m' d (leaf_pos (VPN va 2) (VPN va 1)) = Some t) \<and> free_count (pgtb_charmap (vm s)) \<le> free_count (pgtb_charmap m') + 2"
proof -
  let ?k = "pg_ffree (vm s)" and ?c = "VPN va 0"
  have lf: "leaf_ok (va_pte (vm s) d va)" by (simp add: z)
  obtain t m1 where m1: "va2pte va d True pd (vm s) = Some (t + 8 * ?c, m1)" "grown D (vm s) m1" "tab m1 d (leaf_pos (VPN va 2) (VPN va 1)) = Some t"
    "free_count (pgtb_charmap (vm s)) \<le> free_count (pgtb_charmap m1) + 2"
    using va2pte_alloc_spec[OF vm_okD(1)[OF ok] d va vm_okD(2)[OF ok] f pd lf] by blast
  note g = grown_fields[OF m1(2)] and gd = grownD[OF m1(2)]
  obtain kt where kt: "kt < 3840" "t = tbl kt" using spaces_okD(1)[OF gd(2) d m1(3)] by (auto simp: table_used_def)
  have al: "(t + 8 * ?c) AND 7 = 0" "(t + 8 * ?c) AND NOT 7 = t + 8 * ?c"
    using level_parts[OF kt(1) VPN_less, of 0 va 0] by (simp_all add: kt(2))
  have z1: "ptes m1 (t + 8 * ?c) = 0"
    using gd(5)[OF d VPN_less, of "VPN va 2" "VPN va 1" va 0] z m1(3) by (simp add: va_pte_def pte_of_def)
  have fo: "frames_ok m1" using vm_okD(3)[OF ok] by (simp add: frames_ok_def g)
  have k1: "pg_ffree m1 = ?k" by (simp add: g)
  let ?s1 = "s\<lparr>vm := m1\<rparr>"
  have ap: "alloc_page 1 pd va ?s1 = Some (frame ?k, upd_vm (take_frame pd va) ?s1)" "frames_ok (take_frame pd va m1)"
    using alloc_page_spec[of ?s1 pd va] fo k pd k1 by simp_all
  let ?m = "set_pte (t + 8 * ?c) (user_pte ?k) (take_frame pd va m1)"
  have run: "alloc_page_helper va d pd s = Some (frame ?k, s\<lparr>vm := ?m\<rparr>)"
    using m1(1) al z1 ap(1) by (simp add: alloc_page_helper_def Let_def upd_vm_def set_pte_def user_pte_def)
  have sp: "spaces_ok (take_frame pd va m1) D" "pte_of (take_frame pd va m1) d' a b c = pte_of m1 d' a b c" for d' a b c
    using same_spaces[of "take_frame pd va m1" m1] gd(2) by simp_all
  have tt: "tab (take_frame pd va m1) d (leaf_pos (VPN va 2) (VPN va 1)) = Some t" using m1(3) tab_cong[of "take_frame pd va m1" m1] by simp
  note w = pte_write[OF sp(1) d tt VPN_less[of va 0], where e = "user_pte ?k"]
  have "vm_ok ?m D" using w(2) gd(3) ap(2) by (simp add: vm_ok_def set_pte_def frames_ok_def)
  moreover have "pte_of ?m d' a b c = (if d' = d \<and> a = VPN va 2 \<and> b = VPN va 1 \<and> c = ?c then user_pte ?k else pte_of (vm s) d' a b c)"
    if "d' \<in> D" "c < 512" for d' a b c
    using w(3)[OF that] gd(5)[OF that] sp(2) by simp
  moreover have "umem ?m = umem (vm s)" "pg_charmap ?m = (pg_charmap (vm s))[?k := word_of_int pd]" "pg_uva ?m = (pg_uva (vm s))[?k := page_of va]"
    by (simp_all add: set_pte_def g take_frame_def Let_def)
  moreover have "?m = (vm s)\<lparr>ptes := ptes ?m, pgtb_charmap := pgtb_charmap ?m, pgtb_ffree := pgtb_ffree ?m, pg_charmap := pg_charmap ?m, pg_ffree := pg_ffree ?m, pg_uva := pg_uva ?m\<rparr>"
    by (simp add: set_pte_def take_frame_def Let_def) (subst (2) gd(1), simp)
  moreover have "tab ?m d (leaf_pos (VPN va 2) (VPN va 1)) = Some t" using w(1)[OF d] tt by simp
  moreover have "pgtb_charmap ?m = pgtb_charmap m1" by (simp add: set_pte_def)
  ultimately show ?thesis using run m1(4) by metis
qed

section \<open>Contents of frames\<close>

lemma frame_off: "i < 51200 \<Longrightarrow> k < 51200 \<Longrightarrow> x < 4096 \<Longrightarrow> frame i + of_nat x - frame k < 4096 \<longleftrightarrow> i = k"
proof -
  assume a: "i < 51200" "k < 51200" "x < 4096"
  have "unat (of_nat x :: u64) = x" using a by (intro unat_of_nat_small) simp
  then have ui: "unat (frame i + of_nat x) = 0xffffffc052000000 + i * 4096 + x"
    using a unat_frame[OF a(1)] by (simp add: unat_word_ariths)
  note uk = unat_frame[OF a(2)]
  show ?thesis
  proof (cases "k \<le> i")
    case True
    then have "frame k \<le> frame i + of_nat x" by (simp add: word_le_nat_alt ui uk)
    then have "unat (frame i + of_nat x - frame k) = (i - k) * 4096 + x" using True by (simp add: unat_sub ui uk diff_mult_distrib)
    then show ?thesis using True a(3) by (auto simp: word_less_nat_alt)
  next
    case False
    have "frame i + of_nat x - frame k = - of_nat ((k - i) * 4096 - x)"
    proof -
      have "frame k = frame i + of_nat ((k - i) * 4096)" using False by (simp add: frame_def of_nat_diff algebra_simps)
      moreover have "(of_nat ((k - i) * 4096 - x) :: u64) = of_nat ((k - i) * 4096) - of_nat x" using False a(3) by (intro of_nat_diff) simp
      ultimately show ?thesis by simp
    qed
    moreover have "unat (- of_nat y :: u64) = 2 ^ 64 - y" if "0 < y" "y < 2 ^ 32" for y
    proof -
      have "(of_nat (2 ^ 64 - y) :: u64) = of_nat (2 ^ 64) - of_nat y" using that by (intro of_nat_diff) simp
      then have "- of_nat y = (of_nat (2 ^ 64 - y) :: u64)" by simp
      then show ?thesis using that(1) by (simp only:) (intro unat_of_nat_small, simp)
    qed
    moreover have "0 < (k - i) * 4096 - x" "(k - i) * 4096 - x < 2 ^ 32" using False a by simp_all
    ultimately have "unat (frame i + of_nat x - frame k) = 2 ^ 64 - ((k - i) * 4096 - x)" by (simp only:)
    then show ?thesis using False \<open>(k - i) * 4096 - x < 2 ^ 32\<close> by (auto simp: word_less_nat_alt)
  qed
qed

lemma copy_frame_bytes:
  assumes "k < 51200" and "j < 51200"
  shows "i < 51200 \<Longrightarrow> frame_bytes (frame i) (copy_frame (frame k) (frame j) m) = frame_bytes (frame (if i = k then j else i)) m"
proof -
  assume i: "i < 51200"
  show ?thesis unfolding frame_bytes_def
  proof (rule map_cong[OF refl])
    fix x assume "x \<in> set [0..<4096]"
    then have "x < 4096" by simp
    from frame_off[OF i assms(1) this]
    show "umem (copy_frame (frame k) (frame j) m) (frame i + of_nat x) = umem m (frame (if i = k then j else i) + of_nat x)"
      by (auto simp: copy_frame_def)
  qed
qed

lemma store_page_bytes:
  assumes "k < 51200" and "length bs = 4096" and "i < 51200"
  shows "frame_bytes (frame i) (store_page (frame k) bs m) = (if i = k then bs else frame_bytes (frame i) m)"
proof -
  have o: "umem (store_page (frame k) bs m) (frame i + of_nat x) = (if i = k then bs ! x else umem m (frame i + of_nat x))" if "x < 4096" for x
  proof -
    have "unat (of_nat x :: u64) = x" using that by (intro unat_of_nat_small) simp
    then show ?thesis using frame_off[OF assms(3,1) that] assms(2) by (auto simp: store_page_def word_less_nat_alt)
  qed
  show ?thesis
  proof (cases "i = k")
    case True
    then show ?thesis using o assms(2) by (auto simp: frame_bytes_def intro!: nth_equalityI)
  next
    case False
    then show ?thesis using o by (auto simp: frame_bytes_def)
  qed
qed

lemma frame_bytes_umem: "umem m' = umem m \<Longrightarrow> frame_bytes a m' = frame_bytes a m"
  by (simp add: frame_bytes_def)

section \<open>Copy on write\<close>

definition own_pte :: "nat \<Rightarrow> u64 \<Rightarrow> u64" where
  "own_pte k e = clear_attribute (set_attribute (set_pfn e (drop_bit NORMAL_PAGE_SHIFT (kva2pa (frame k)))) PAGE_WRITE) PAGE_COW"

lemma own_pte_simps:
  assumes "k < 51200"
  shows "pa2kva (get_pa (own_pte k e)) = frame k" "get_attribute (own_pte k e) PAGE_COW = 0" "get_attribute (own_pte k e) PAGE_WRITE \<noteq> 0"
    "get_attribute (own_pte k e) PAGE_PRESENT = get_attribute e PAGE_PRESENT"
proof -
  show "pa2kva (get_pa (own_pte k e)) = frame k" using pa2kva_set_pfn[OF frame_aligned[OF assms]] by (simp add: own_pte_def)
  show "get_attribute (own_pte k e) PAGE_COW = 0" unfolding own_pte_def attr_clear_attribute attr_set_attribute attr_set_pfn
    by (simp add: get_attribute_def pgattr PAGE_ATTRIBUTE_MASK_def) (rule bit_word_eqI, auto simp: bit_simps)
  show "get_attribute (own_pte k e) PAGE_PRESENT = get_attribute e PAGE_PRESENT" unfolding own_pte_def attr_clear_attribute attr_set_attribute attr_set_pfn
    by (simp add: get_attribute_def pgattr PAGE_ATTRIBUTE_MASK_def mask_eq_exp_minus_1)
  have "bit (get_attribute (own_pte k e) PAGE_WRITE) 2"
    unfolding own_pte_def attr_clear_attribute attr_set_attribute attr_set_pfn
    by (simp add: get_attribute_def pgattr PAGE_ATTRIBUTE_MASK_def bit_simps mask_eq_exp_minus_1)
  then show "get_attribute (own_pte k e) PAGE_WRITE \<noteq> 0" by auto
qed

lemma copy_on_write_spec [kspec]:
  assumes ok: "vm_ok (vm s) D" and d: "d \<in> D" and t: "tab (vm s) d (leaf_pos (VPN va 2) (VPN va 1)) = Some t"
    and k: "pg_ffree (vm s) < 51200" and pd: "(word_of_int (pid (cur_pcb s)) :: u8) \<noteq> CMAP_FREE"
    and j: "j < 51200" "pa2kva (get_pa (va_pte (vm s) d va)) = frame j" "pg_charmap (vm s) ! j \<noteq> CMAP_FREE"
    and u: "pg_uva (vm s) ! j \<noteq> 0" "pg_uva (vm s) ! j \<le> 16"
  shows "\<exists>m'. copy_on_write va (t + 8 * VPN va 0) s = Some (s\<lparr>vm := m'\<rparr>) \<and> vm_ok m' D \<and>
    (\<forall>d' \<in> D. \<forall>a b c. c < 512 \<longrightarrow> pte_of m' d' a b c =
      (if d' = d \<and> a = VPN va 2 \<and> b = VPN va 1 \<and> c = VPN va 0 then own_pte (pg_ffree (vm s)) (va_pte (vm s) d va) else pte_of (vm s) d' a b c)) \<and>
    (\<forall>i < 51200. frame_bytes (frame i) m' = frame_bytes (frame (if i = pg_ffree (vm s) then j else i)) (vm s)) \<and>
    pg_uva m' = (pg_uva (vm s))[pg_ffree (vm s) := page_of va, j := pg_uva (vm s) ! j - 1] \<and>
    pg_charmap m' = (if pg_uva (vm s) ! j = 1 then ((pg_charmap (vm s))[pg_ffree (vm s) := word_of_int (pid (cur_pcb s))])[j := CMAP_FREE]
      else (pg_charmap (vm s))[pg_ffree (vm s) := word_of_int (pid (cur_pcb s))]) \<and>
    (\<forall>d' \<in> D. \<forall>q. tab m' d' q = tab (vm s) d' q)"
proof -
  let ?k = "pg_ffree (vm s)" and ?p = "t + 8 * VPN va 0" and ?e = "va_pte (vm s) d va" and ?u = "pg_uva (vm s) ! j" and ?i = "pid (cur_pcb s)"
  note fo = vm_okD(3)[OF ok]
  have fk: "pg_charmap (vm s) ! ?k = CMAP_FREE" using fo k by (simp add: frames_ok_def cmap_ok_def)
  then have kj: "?k \<noteq> j" using j(3) by auto
  have e: "ptes (vm s) ?p = ?e" using t by (simp add: va_pte_def pte_of_def)
  have ji: "unat (get_pgidx ?e) = j" using j frame_index_frame[OF j(1)] by (simp add: get_pgidx_def frame_index_def)
  let ?m0 = "take_frame ?i va (vm s)"
  note ap = alloc_page_spec[OF fo k pd, of va]
  let ?m1 = "copy_frame (frame ?k) (frame j) ?m0"
  let ?m2 = "set_pte ?p (own_pte ?k ?e) ?m1"
  have us: "pg_uva ?m2 = (pg_uva (vm s))[?k := page_of va]" "pg_charmap ?m2 = (pg_charmap (vm s))[?k := word_of_int ?i]"
    by (simp_all add: set_pte_def copy_frame_def take_frame_def Let_def)
  have uj: "j < length (pg_uva (vm s))" "j < length (pg_charmap (vm s))" using fo j(1) by (simp_all add: frames_ok_def cmap_ok_def)
  let ?m3 = "?m2\<lparr>pg_uva := (pg_uva ?m2)[j := ?u - 1]\<rparr>"
  have f3: "frames_ok ?m3" using ap(2) by (simp add: frames_ok_def set_pte_def copy_frame_def)
  have fr: "Pg_base + ucast (push_bit NORMAL_PAGE_SHIFT (get_pgidx ?e)) = frame j"
  proof -
    have "get_pgidx ?e = of_nat j" using ji j(1) by (simp add: word_unat_eq_iff unat_of_nat)
    moreover have "unat (of_nat j * 4096 :: u32) = j * 4096" using j(1) by (simp add: unat_word_ariths unat_of_nat)
    then have "(ucast (of_nat j * 4096 :: u32) :: u64) = of_nat (j * 4096)" 
    proof -
      assume a: "unat (of_nat j * 4096 :: u32) = j * 4096"
      have b: "unat (of_nat (j * 4096) :: u64) = j * 4096" using j(1) by (intro unat_of_nat_small) simp
      show ?thesis unfolding word_unat_eq_iff b using a j(1) by (simp add: unsigned_ucast_eq take_bit_nat_eq_self)
    qed
    ultimately show ?thesis by (simp add: NORMAL_PAGE_SHIFT_def push_bit_eq_mult frame_def)
  qed
  have ap': "alloc_page (Suc 0) ?i va s = Some (frame ?k, upd_vm (take_frame ?i va) s)" using ap(1) by simp
  have run: "copy_on_write va ?p s = do { m \<leftarrow> (if ?u - 1 = 0 then free_page (frame j) ?m3 else Some ?m3); Some (s\<lparr>vm := m\<rparr>) }"
  proof -
    have c0: "ptes ?m1 = ptes (vm s)" by (simp add: copy_frame_def)
    have "set_pte ?p (clear_attribute (ptes (set_pte ?p (set_attribute (ptes (set_pte ?p (set_pfn (ptes ?m1 ?p) (drop_bit NORMAL_PAGE_SHIFT (kva2pa (frame ?k)))) ?m1) ?p) PAGE_WRITE)
        (set_pte ?p (set_pfn (ptes ?m1 ?p) (drop_bit NORMAL_PAGE_SHIFT (kva2pa (frame ?k)))) ?m1)) ?p) PAGE_COW)
        (set_pte ?p (set_attribute (ptes (set_pte ?p (set_pfn (ptes ?m1 ?p) (drop_bit NORMAL_PAGE_SHIFT (kva2pa (frame ?k)))) ?m1) ?p) PAGE_WRITE)
          (set_pte ?p (set_pfn (ptes ?m1 ?p) (drop_bit NORMAL_PAGE_SHIFT (kva2pa (frame ?k)))) ?m1)) = ?m2"
      by (simp add: set_pte_def own_pte_def c0 e)
    then show ?thesis
      using ap' e ji us uj kj u j(2) fr by (simp add: copy_on_write_def Let_def upd_vm_def UPROC_MAX_def nth_chk_def not_less)
  qed
  have sp0: "spaces_ok ?m1 D" "pte_of ?m1 d' a b c = pte_of (vm s) d' a b c" "tab ?m1 d' q = tab (vm s) d' q" for d' a b c q
    using same_spaces[of ?m1 "vm s"] tab_cong[of ?m1 "vm s"] vm_okD(1)[OF ok] by (simp_all add: copy_frame_def)
  have t1: "tab ?m1 d (leaf_pos (VPN va 2) (VPN va 1)) = Some t" using t sp0(3) by simp
  note w = pte_write[OF sp0(1) d t1 VPN_less[of va 0], where e = "own_pte ?k ?e"]
  have goal: "\<exists>m'. copy_on_write va ?p s = Some (s\<lparr>vm := m'\<rparr>) \<and> vm_ok m' D \<and>
    (\<forall>d' \<in> D. \<forall>a b c. c < 512 \<longrightarrow> pte_of m' d' a b c =
      (if d' = d \<and> a = VPN va 2 \<and> b = VPN va 1 \<and> c = VPN va 0 then own_pte ?k ?e else pte_of (vm s) d' a b c)) \<and>
    (\<forall>i < 51200. frame_bytes (frame i) m' = frame_bytes (frame (if i = ?k then j else i)) (vm s)) \<and>
    pg_uva m' = (pg_uva (vm s))[?k := page_of va, j := ?u - 1] \<and> pg_charmap m' = cm \<and> (\<forall>d' \<in> D. \<forall>q. tab m' d' q = tab (vm s) d' q)"
    if m: "(if ?u - 1 = 0 then free_page (frame j) ?m3 else Some ?m3) = Some m'" "ptes m' = ptes ?m2" "umem m' = umem ?m2" "pgtb_charmap m' = pgtb_charmap ?m2"
      "pgtb_ffree m' = pgtb_ffree ?m2" "frames_ok m'" "pg_uva m' = pg_uva ?m3" "pg_charmap m' = cm" for m' cm
  proof -
    have ss: "spaces_ok m' D" "pte_of m' d' a b c = pte_of ?m2 d' a b c" "tab m' d' q = tab ?m2 d' q" for d' a b c q
      using same_spaces[OF m(2,4)] tab_cong[OF m(2)] w(2) by simp_all
    have "vm_ok m' D" using ss(1) vm_okD(2)[OF ok] m(4-6) by (simp add: vm_ok_def set_pte_def copy_frame_def)
    moreover have "pte_of m' d' a b c = (if d' = d \<and> a = VPN va 2 \<and> b = VPN va 1 \<and> c = VPN va 0 then own_pte ?k ?e else pte_of (vm s) d' a b c)"
      if "d' \<in> D" "c < 512" for d' a b c using w(3)[OF that] sp0(2) ss(2) by simp
    moreover have "frame_bytes (frame i) m' = frame_bytes (frame (if i = ?k then j else i)) (vm s)" if "i < 51200" for i
    proof -
      have "frame_bytes (frame i) m' = frame_bytes (frame i) ?m1" by (rule frame_bytes_umem) (simp add: m(3) set_pte_def)
      also have "\<dots> = frame_bytes (frame (if i = ?k then j else i)) ?m0" by (rule copy_frame_bytes[OF k j(1) that])
      also have "\<dots> = frame_bytes (frame (if i = ?k then j else i)) (vm s)" by (rule frame_bytes_umem) simp
      finally show ?thesis .
    qed
    moreover have "tab m' d' q = tab (vm s) d' q" if "d' \<in> D" for d' q using w(1)[OF that] ss(3) sp0(3) by simp
    ultimately show ?thesis using m(1,7,8) run us(1) by (intro exI[of _ m']) simp
  qed
  show ?thesis
  proof (cases "?u = 1")
    case False
    then have "?u - 1 \<noteq> 0" by simp
    then show ?thesis using goal[of ?m3 "pg_charmap ?m3"] f3 us(2) False by simp
  next
    case True
    have "pg_charmap ?m3 ! j \<noteq> CMAP_FREE" using j(3) kj us(2) by simp
    then obtain m' where m': "free_page (frame j) ?m3 = Some m'" "frames_ok m'"
      "m' = ?m3\<lparr>pg_charmap := (pg_charmap ?m3)[j := CMAP_FREE], pg_ffree := if j < pg_ffree ?m3 then j else pg_ffree ?m3\<rparr>"
      using free_page_spec[OF f3 j(1)] by blast
    have "ptes m' = ptes ?m2" "umem m' = umem ?m2" "pgtb_charmap m' = pgtb_charmap ?m2" "pgtb_ffree m' = pgtb_ffree ?m2"
      "pg_uva m' = pg_uva ?m3" "pg_charmap m' = (pg_charmap ?m3)[j := CMAP_FREE]" by (simp_all add: m'(3))
    then show ?thesis using goal[of m' "(pg_charmap ?m3)[j := CMAP_FREE]"] m'(1,2) us(2) True by simp
  qed
qed

section \<open>The empty memory\<close>

lemma demo_tab: "tab demo_mm d q = (if q = Root then Some d else None)"
proof (induction q)
  case (Sub q i)
  have "child demo_mm x i = None" for x by (simp add: child_def demo_mm_def)
  then show ?case by (simp split: option.splits add: Option.bind_eq_None_conv)
qed simp

lemma demo_vm_ok: "vm_ok demo_mm {tbl 2}"
proof -
  have "cmap_ok 3840 (pgtb_charmap demo_mm) (pgtb_ffree demo_mm)"
    by (auto simp: demo_mm_def cmap_ok_def nth_append nth_Cons CMAP_FREE_def split: nat.splits)
  moreover have "frames_ok demo_mm" by (simp add: frames_ok_def demo_mm_def cmap_ok_def)
  moreover have "table_used demo_mm (tbl 2)"
    unfolding table_used_def by (rule exI[of _ 2]) (simp add: demo_mm_def CMAP_FREE_def)
  then have "spaces_ok demo_mm {tbl 2}" by (auto simp: spaces_ok_def demo_tab good_dir_def demo_mm_def[THEN arg_cong, of ptes] split: if_splits)
  ultimately show ?thesis by (simp add: vm_ok_def)
qed

lemma demo_pages: "2 \<le> free_count (pgtb_charmap demo_mm)" "va_pte demo_mm (tbl 2) va = 0" "pg_ffree demo_mm = 0"
  "pg_charmap demo_mm = replicate 51200 CMAP_FREE" "pg_uva demo_mm = replicate 51200 0" "clock_pt demo_mm = 0"
  "free_count (pgtb_charmap demo_mm) = 3837"
proof -
  show "2 \<le> free_count (pgtb_charmap demo_mm)" by (simp add: demo_mm_def free_count_def CMAP_FREE_def)
  show "free_count (pgtb_charmap demo_mm) = 3837" by (simp add: demo_mm_def free_count_def CMAP_FREE_def)
  show "va_pte demo_mm (tbl 2) va = 0" by (simp add: va_pte_def pte_of_def leaf_pos_def demo_tab del: tab.simps)
qed (simp_all add: demo_mm_def)

end
