(* ===== verification/Clock.thy ===== *)
theory Clock
  imports Memory
begin

text \<open>
  The clock algorithm of \<^verbatim>\<open>swap_to_disk\<close>: when every frame belongs to a process that maps it, or is shared, the scan ends
  within two rounds of the hand as soon as one frame may be evicted; what it changes on the way are accessed bits. A page
  that is swapped out and in again has its bytes and its rights.
\<close>

section \<open>What the hand changes\<close>

text \<open>The clock hand only clears accessed bits.\<close>

definition calm :: "u64 \<Rightarrow> u64 \<Rightarrow> bool" where
  "calm e e' \<longleftrightarrow> e' = e \<or> e' = e AND NOT PAGE_ACCESSED"

lemma calm_trans: "calm e f \<Longrightarrow> calm f g \<Longrightarrow> calm e g"
  by (auto simp: calm_def and.assoc)

lemma attr_and: "get_attribute (e AND f) a = get_attribute e a AND get_attribute f a"
  by (rule bit_word_eqI) (auto simp: get_attribute_def bit_simps)

lemma calm_attr:
  assumes "calm e e'"
  shows "get_attribute e' PAGE_PRESENT = get_attribute e PAGE_PRESENT" "get_attribute e' PAGE_XWR = get_attribute e PAGE_XWR"
    "get_attribute e PAGE_ACCESSED = 0 \<Longrightarrow> get_attribute e' PAGE_ACCESSED = 0"
proof -
  have "get_attribute (NOT PAGE_ACCESSED) PAGE_PRESENT = PAGE_PRESENT" "get_attribute (NOT PAGE_ACCESSED) PAGE_XWR = PAGE_XWR"
    "get_attribute (NOT PAGE_ACCESSED) PAGE_ACCESSED = 0"
    by (simp_all add: get_attribute_def PAGE_XWR_def pgattr PAGE_ATTRIBUTE_MASK_def mask_eq_exp_minus_1)
  moreover have "get_attribute e a AND a = get_attribute e a" for a
    by (rule bit_word_eqI) (auto simp: get_attribute_def bit_simps)
  ultimately show "get_attribute e' PAGE_PRESENT = get_attribute e PAGE_PRESENT" "get_attribute e' PAGE_XWR = get_attribute e PAGE_XWR"
    "get_attribute e PAGE_ACCESSED = 0 \<Longrightarrow> get_attribute e' PAGE_ACCESSED = 0"
    using assms by (auto simp: calm_def attr_and)
qed

definition aged :: "u64 set \<Rightarrow> mm \<Rightarrow> mm \<Rightarrow> bool" where
  "aged D m m' \<longleftrightarrow> m' = m\<lparr>ptes := ptes m', clock_pt := clock_pt m'\<rparr> \<and> spaces_ok m' D \<and>
     (\<forall>d \<in> D. \<forall>q. tab m' d q = tab m d q) \<and> (\<forall>d \<in> D. \<forall>a b c. c < 512 \<longrightarrow> calm (pte_of m d a b c) (pte_of m' d a b c))"

lemma agedD:
  assumes "aged D m m'"
  shows "m' = m\<lparr>ptes := ptes m', clock_pt := clock_pt m'\<rparr>" "spaces_ok m' D" "d \<in> D \<Longrightarrow> tab m' d q = tab m d q"
    "d \<in> D \<Longrightarrow> c < 512 \<Longrightarrow> calm (pte_of m d a b c) (pte_of m' d a b c)"
  using assms unfolding aged_def by blast+

lemma aged_fields:
  assumes "aged D m m'"
  shows "umem m' = umem m" "pg_charmap m' = pg_charmap m" "pg_ffree m' = pg_ffree m" "pg_uva m' = pg_uva m" "spg_charmap m' = spg_charmap m"
    "spg_ffree m' = spg_ffree m" "swap_start m' = swap_start m" "shm_ctrls m' = shm_ctrls m" "pgtb_charmap m' = pgtb_charmap m" "pgtb_ffree m' = pgtb_ffree m"
  by (subst agedD(1)[OF assms], simp)+

lemma aged_refl: "spaces_ok m D \<Longrightarrow> aged D m m"
  by (simp add: aged_def calm_def)

lemma aged_trans: "aged D m m1 \<Longrightarrow> aged D m1 m2 \<Longrightarrow> aged D m m2"
proof -
  assume a: "aged D m m1" and b: "aged D m1 m2"
  have "m2 = m\<lparr>ptes := ptes m2, clock_pt := clock_pt m2\<rparr>" by (subst agedD(1)[OF b], subst agedD(1)[OF a]) simp
  moreover have "calm (pte_of m d x y c) (pte_of m2 d x y c)" if "d \<in> D" "c < 512" for d x y c
    by (rule calm_trans[OF agedD(4)[OF a that] agedD(4)[OF b that]])
  ultimately show ?thesis using agedD(2,3)[OF b] agedD(3)[OF a] unfolding aged_def by simp
qed

lemma aged_step: "aged D m m' \<Longrightarrow> aged D m (clock_step m')"
proof -
  assume a: "aged D m m'"
  have "aged D m' (clock_step m')"
    using agedD(2)[OF a] same_spaces[of "clock_step m'" m'] tab_cong[of "clock_step m'" m']
    by (simp add: aged_def clock_step_def calm_def)
  then show ?thesis by (rule aged_trans[OF a])
qed

text \<open>Frame \<open>k\<close> may be evicted, and the entry of its owner.\<close>

definition candidate :: "'d kstate \<Rightarrow> nat \<Rightarrow> bool" where
  "candidate s k \<longleftrightarrow> pg_charmap (vm s) ! k \<noteq> CMAP_SHARED \<and> \<not> on_other_cpu (uint (pg_charmap (vm s) ! k)) s"

definition frame_owner :: "'d kstate \<Rightarrow> nat \<Rightarrow> addr" where
  "frame_owner s k = pcb_search (uint (pg_charmap (vm s) ! k)) s"

definition owner_pte :: "'d kstate \<Rightarrow> nat \<Rightarrow> u64" where
  "owner_pte s k = va_pte (vm s) (pgdir_kva (pcbs s (frame_owner s k))) (pg_uva (vm s) ! k)"

text \<open>Every frame is shared or is mapped by the process it belongs to at the address recorded for it.\<close>

definition evict_ok :: "'d kstate \<Rightarrow> u64 set \<Rightarrow> bool" where
  "evict_ok s D \<longleftrightarrow> spaces_ok (vm s) D \<and> length (pg_charmap (vm s)) = 51200 \<and> length (pg_uva (vm s)) = 51200 \<and>
     (\<forall>k < 51200. pg_charmap (vm s) ! k = CMAP_SHARED \<or>
        frame_owner s k \<noteq> NULL \<and> pgdir_kva (pcbs s (frame_owner s k)) \<in> D \<and> VPN (pg_uva (vm s) ! k) 2 < 256 \<and>
        get_attribute (owner_pte s k) PAGE_PRESENT \<noteq> 0 \<and> get_attribute (owner_pte s k) PAGE_XWR \<noteq> 0)"

lemma vm_simps [simp]:
  "pcb_search i (s\<lparr>vm := m\<rparr>) = pcb_search i s" "on_other_cpu i (s\<lparr>vm := m\<rparr>) = on_other_cpu i s" "cur_cpu (s\<lparr>vm := m\<rparr>) = cur_cpu s"
  "kq_ok (s\<lparr>vm := m\<rparr>) Q = kq_ok s Q" "cur_pcb (s\<lparr>vm := m\<rparr>) = cur_pcb s"
  by (simp_all add: pcb_search_def table_search_def table_index_def on_other_cpu_def cur_cpu_def kq_ok_def cur_pcb_def Let_def)

lemma evict_ok_aged:
  assumes ok: "evict_ok s D" and a: "aged D (vm s) m'"
  shows "evict_ok (s\<lparr>vm := m'\<rparr>) D" "candidate (s\<lparr>vm := m'\<rparr>) k = candidate s k" "frame_owner (s\<lparr>vm := m'\<rparr>) k = frame_owner s k"
    "k < 51200 \<Longrightarrow> pg_charmap (vm s) ! k \<noteq> CMAP_SHARED \<Longrightarrow> calm (owner_pte s k) (owner_pte (s\<lparr>vm := m'\<rparr>) k)"
proof -
  note f = aged_fields[OF a]
  show "candidate (s\<lparr>vm := m'\<rparr>) k = candidate s k" and o: "frame_owner (s\<lparr>vm := m'\<rparr>) k = frame_owner s k" for k
    by (simp_all add: candidate_def frame_owner_def f)
  show c: "calm (owner_pte s k) (owner_pte (s\<lparr>vm := m'\<rparr>) k)" if "k < 51200" "pg_charmap (vm s) ! k \<noteq> CMAP_SHARED" for k
  proof -
    have "pgdir_kva (pcbs s (frame_owner s k)) \<in> D" using ok that by (auto simp: evict_ok_def)
    from agedD(4)[OF a this VPN_less] show ?thesis unfolding owner_pte_def va_pte_def o by (simp add: f)
  qed
  have "frame_owner s k \<noteq> NULL \<and> pgdir_kva (pcbs s (frame_owner s k)) \<in> D \<and> VPN (pg_uva (vm s) ! k) 2 < 256 \<and>
      get_attribute (owner_pte (s\<lparr>vm := m'\<rparr>) k) PAGE_PRESENT \<noteq> 0 \<and> get_attribute (owner_pte (s\<lparr>vm := m'\<rparr>) k) PAGE_XWR \<noteq> 0"
    if "k < 51200" "pg_charmap (vm s) ! k \<noteq> CMAP_SHARED" for k
    using ok that calm_attr(1,2)[OF c[OF that]] by (auto simp: evict_ok_def)
  then show "evict_ok (s\<lparr>vm := m'\<rparr>) D"
    using ok agedD(2)[OF a] unfolding evict_ok_def o by (auto simp: f)
qed

section \<open>One look\<close>

lemma evict_okD:
  assumes "evict_ok s D" and "k < 51200" and "pg_charmap (vm s) ! k \<noteq> CMAP_SHARED"
  shows "frame_owner s k \<noteq> NULL" "pgdir_kva (pcbs s (frame_owner s k)) \<in> D" "VPN (pg_uva (vm s) ! k) 2 < 256"
    "get_attribute (owner_pte s k) PAGE_PRESENT \<noteq> 0" "get_attribute (owner_pte s k) PAGE_XWR \<noteq> 0"
  using assms by (auto simp: evict_ok_def)

lemma evict_ok_lengths: "evict_ok s D \<Longrightarrow> spaces_ok (vm s) D \<and> length (pg_charmap (vm s)) = 51200 \<and> length (pg_uva (vm s)) = 51200"
  by (simp add: evict_ok_def)

lemma clock_look_skip:
  assumes ok: "evict_ok s D" and k: "clock_pt (vm s) < 51200" and nc: "\<not> candidate s (clock_pt (vm s))"
  shows "\<exists>i p. clock_look s = Some (0, i, p, s)"
proof -
  let ?k = "clock_pt (vm s)"
  have "\<not> (frame_owner s ?k = NULL \<and> pg_charmap (vm s) ! ?k \<noteq> CMAP_SHARED)" using evict_okD(1)[OF ok k] by blast
  then show ?thesis using nc evict_ok_lengths[OF ok] k
    by (auto simp: clock_look_def candidate_def frame_owner_def nth_chk_def Let_def)
qed

text \<open>The hand stands at a frame that may be evicted: the walk finds the entry of its owner.\<close>

lemma clock_look_hit:
  assumes ok: "evict_ok s D" and k: "clock_pt (vm s) < 51200" and c: "candidate s (clock_pt (vm s))"
  defines "k' \<equiv> clock_pt (vm s)"
  defines "va \<equiv> pg_uva (vm s) ! k'" and "d \<equiv> pgdir_kva (pcbs s (frame_owner s k'))"
  shows "\<exists>t. tab (vm s) d (leaf_pos (VPN va 2) (VPN va 1)) = Some t \<and> t + 8 * VPN va 0 \<noteq> 0 \<and> ptes (vm s) (t + 8 * VPN va 0) = owner_pte s k' \<and>
    clock_look s = (if get_attribute (owner_pte s k') PAGE_ACCESSED \<noteq> 0
      then Some (0, uint (pg_charmap (vm s) ! k'), frame_owner s k', upd_vm (set_pte (t + 8 * VPN va 0) (owner_pte s k' AND NOT PAGE_ACCESSED)) s)
      else Some (t + 8 * VPN va 0, uint (pg_charmap (vm s) ! k'), frame_owner s k', s))"
proof -
  have ns: "pg_charmap (vm s) ! k' \<noteq> CMAP_SHARED" and no: "\<not> on_other_cpu (uint (pg_charmap (vm s) ! k')) s"
    using c by (simp_all add: candidate_def k'_def)
  have k2: "k' < 51200" using k by (simp add: k'_def)
  note e = evict_okD[OF ok k2 ns]
  note l = evict_ok_lengths[OF ok]
  have pe: "owner_pte s k' = va_pte (vm s) d va" by (simp add: owner_pte_def d_def va_def)
  have lf: "leaf_ok (va_pte (vm s) d va)" using e(5) by (simp add: leaf_ok_def pe)
  have dD: "d \<in> D" and v2: "VPN va 2 < 256" using e(2,3) by (simp_all add: d_def va_def)
  have nz: "va_pte (vm s) d va \<noteq> 0" using e(4) pe by auto
  obtain x where x: "va2pte va d False 0 (vm s) = Some (x, vm s)"
    "case tab (vm s) d (leaf_pos (VPN va 2) (VPN va 1)) of Some t \<Rightarrow> x = t + 8 * VPN va 0 \<and> x AND 7 = 0 \<and> x AND NOT 7 = x \<and> ptes (vm s) x = va_pte (vm s) d va
     | None \<Rightarrow> x AND 7 \<noteq> 0 \<and> ptes (vm s) (x AND NOT 7) = 0 \<and> va_pte (vm s) d va = 0"
    using va2pte_find_spec[OF conjunct1[OF l] dD v2 lf] by blast
  then obtain t where t: "tab (vm s) d (leaf_pos (VPN va 2) (VPN va 1)) = Some t" using nz by (auto split: option.splits)
  then have xt: "x = t + 8 * VPN va 0" "x AND 7 = 0" "x AND NOT 7 = x" "ptes (vm s) x = owner_pte s k'"
    using x(2) unfolding t pe option.case by blast+
  have x0: "x \<noteq> 0"
  proof -
    obtain kt where "kt < 3840" "t = tbl kt" using spaces_okD(1)[OF conjunct1[OF l] dD t] by (auto simp: table_used_def)
    then have "unat x \<noteq> 0" using unat_slot[OF _ VPN_less, of kt va 0] xt(1) by simp
    then show ?thesis by auto
  qed
  have "clock_look s = (if get_attribute (owner_pte s k') PAGE_ACCESSED \<noteq> 0
      then Some (0, uint (pg_charmap (vm s) ! k'), frame_owner s k', upd_vm (set_pte x (owner_pte s k' AND NOT PAGE_ACCESSED)) s)
      else Some (x, uint (pg_charmap (vm s) ! k'), frame_owner s k', s))"
    using x(1) xt e(1,4) no ns l k2 unfolding d_def va_def frame_owner_def k'_def
    by (simp add: clock_look_def nth_chk_def Let_def)
  then show ?thesis using t xt x0 by blast
qed

lemma clock_look_age:
  assumes ok: "evict_ok s D" and k: "clock_pt (vm s) < 51200" and c: "candidate s (clock_pt (vm s))"
    and a: "get_attribute (owner_pte s (clock_pt (vm s))) PAGE_ACCESSED \<noteq> 0"
  shows "\<exists>i p m'. clock_look s = Some (0, i, p, s\<lparr>vm := m'\<rparr>) \<and> aged D (vm s) m' \<and> clock_pt m' = clock_pt (vm s) \<and>
    get_attribute (owner_pte (s\<lparr>vm := m'\<rparr>) (clock_pt (vm s))) PAGE_ACCESSED = 0"
proof -
  let ?k = "clock_pt (vm s)" and ?e = "owner_pte s (clock_pt (vm s)) AND NOT PAGE_ACCESSED"
  let ?va = "pg_uva (vm s) ! ?k" and ?d = "pgdir_kva (pcbs s (frame_owner s ?k))"
  from clock_look_hit[OF ok k c] a obtain t where t: "tab (vm s) ?d (leaf_pos (VPN ?va 2) (VPN ?va 1)) = Some t"
    "clock_look s = Some (0, uint (pg_charmap (vm s) ! ?k), frame_owner s ?k, upd_vm (set_pte (t + 8 * VPN ?va 0) ?e) s)" by auto
  let ?m = "set_pte (t + 8 * VPN ?va 0) ?e (vm s)"
  have ns: "pg_charmap (vm s) ! ?k \<noteq> CMAP_SHARED" using c by (simp add: candidate_def)
  have dD: "?d \<in> D" by (rule evict_okD(2)[OF ok k ns])
  note sp = conjunct1[OF evict_ok_lengths[OF ok]]
  note w = pte_write[OF sp dD t(1) VPN_less[of ?va 0], where e = ?e]
  have "calm (pte_of (vm s) d' x y c) (pte_of ?m d' x y c)" if "d' \<in> D" "c < 512" for d' x y c
    using w(3)[OF that] by (auto simp: calm_def owner_pte_def va_pte_def)
  then have ag: "aged D (vm s) ?m" using w(1,2) by (simp add: aged_def) (simp add: set_pte_def)
  have "owner_pte (s\<lparr>vm := ?m\<rparr>) ?k = ?e"
    using w(3)[OF dD VPN_less, of "VPN ?va 2" "VPN ?va 1" ?va 0]
    by (simp add: owner_pte_def va_pte_def frame_owner_def set_pte_def[of _ _ "vm s"])
  then have "get_attribute (owner_pte (s\<lparr>vm := ?m\<rparr>) ?k) PAGE_ACCESSED = 0"
    by (simp add: attr_and) (simp add: get_attribute_def pgattr PAGE_ATTRIBUTE_MASK_def mask_eq_exp_minus_1)
  moreover have "clock_pt ?m = ?k" by (simp add: set_pte_def)
  ultimately show ?thesis using t(2) ag unfolding upd_vm_def by blast
qed

section \<open>The scan\<close>

text \<open>
  The answer for frame \<open>k\<close>: it may be evicted, its owner has not used it since the hand was there, and nothing but accessed
  bits has changed.
\<close>

definition victim :: "u64 set \<Rightarrow> 'd kstate \<Rightarrow> (u64 \<times> int \<times> addr \<times> 'd kstate) \<Rightarrow> nat \<Rightarrow> bool" where
  "victim D s r k \<longleftrightarrow> (\<exists>m' t. let va = pg_uva (vm s) ! k; d = pgdir_kva (pcbs s (frame_owner s k)) in
     r = (t + 8 * VPN va 0, uint (pg_charmap (vm s) ! k), frame_owner s k, s\<lparr>vm := m'\<rparr>) \<and> aged D (vm s) m' \<and> clock_pt m' = k \<and> k < 51200 \<and>
     candidate s k \<and> tab m' d (leaf_pos (VPN va 2) (VPN va 1)) = Some t \<and> ptes m' (t + 8 * VPN va 0) = owner_pte (s\<lparr>vm := m'\<rparr>) k \<and>
     get_attribute (owner_pte (s\<lparr>vm := m'\<rparr>) k) PAGE_ACCESSED = 0)"

lemma victim_aged:
  assumes ok: "evict_ok s D" and a: "aged D (vm s) m1" and v: "victim D (s\<lparr>vm := m1\<rparr>) r k"
  shows "victim D s r k"
proof -
  note f = aged_fields[OF a] and c = evict_ok_aged(2,3)[OF ok a]
  from v obtain m' t where m': "r = (t + 8 * VPN (pg_uva m1 ! k) 0, uint (pg_charmap m1 ! k), frame_owner s k, s\<lparr>vm := m'\<rparr>)" "aged D m1 m'"
    "clock_pt m' = k" "k < 51200" "candidate s k" "tab m' (pgdir_kva (pcbs s (frame_owner s k))) (leaf_pos (VPN (pg_uva m1 ! k) 2) (VPN (pg_uva m1 ! k) 1)) = Some t"
    "ptes m' (t + 8 * VPN (pg_uva m1 ! k) 0) = owner_pte (s\<lparr>vm := m'\<rparr>) k" "get_attribute (owner_pte (s\<lparr>vm := m'\<rparr>) k) PAGE_ACCESSED = 0"
    unfolding victim_def by (auto simp: c Let_def)
  show ?thesis unfolding victim_def Let_def
    by (rule exI[of _ m'], rule exI[of _ t]) (use m' aged_trans[OF a m'(2)] in \<open>simp add: f\<close>)
qed

lemma scan_here:
  assumes ok: "evict_ok s D" and k: "clock_pt (vm s) < 51200" and c: "candidate s (clock_pt (vm s))"
    and a: "get_attribute (owner_pte s (clock_pt (vm s))) PAGE_ACCESSED = 0"
  shows "\<exists>r. clock_scan s = Some r \<and> victim D s r (clock_pt (vm s))"
proof -
  let ?k = "clock_pt (vm s)" and ?va = "pg_uva (vm s) ! clock_pt (vm s)" and ?d = "pgdir_kva (pcbs s (frame_owner s (clock_pt (vm s))))"
  from clock_look_hit[OF ok k c] a obtain t where t: "tab (vm s) ?d (leaf_pos (VPN ?va 2) (VPN ?va 1)) = Some t" "t + 8 * VPN ?va 0 \<noteq> 0"
    "ptes (vm s) (t + 8 * VPN ?va 0) = owner_pte s ?k"
    "clock_look s = Some (t + 8 * VPN ?va 0, uint (pg_charmap (vm s) ! ?k), frame_owner s ?k, s)" by auto
  have "clock_scan s = Some (t + 8 * VPN ?va 0, uint (pg_charmap (vm s) ! ?k), frame_owner s ?k, s)"
    by (subst clock_scan.simps) (simp add: t(2,4))
  moreover have "victim D s (t + 8 * VPN ?va 0, uint (pg_charmap (vm s) ! ?k), frame_owner s ?k, s) ?k"
    unfolding victim_def Let_def
    by (rule exI[of _ "vm s"], rule exI[of _ t]) (use t(1,3) k c a aged_refl[OF conjunct1[OF evict_ok_lengths[OF ok]]] in simp)
  ultimately show ?thesis by blast
qed

text \<open>One step of the hand: it finds a page, or moves on.\<close>

lemma scan_step:
  assumes ok: "evict_ok s D" and k: "clock_pt (vm s) < 51200"
  shows "(\<exists>r. clock_scan s = Some r \<and> (\<exists>k. victim D s r k)) \<or>
    (\<exists>m'. clock_scan s = clock_scan (s\<lparr>vm := m'\<rparr>) \<and> aged D (vm s) m' \<and> clock_pt m' = (clock_pt (vm s) + 1) mod 51200 \<and>
      (candidate s (clock_pt (vm s)) \<longrightarrow> get_attribute (owner_pte (s\<lparr>vm := m'\<rparr>) (clock_pt (vm s))) PAGE_ACCESSED = 0))"
proof -
  let ?k = "clock_pt (vm s)"
  have nx: "clock_pt (clock_step m) = (?k + 1) mod 51200" if "clock_pt m = ?k" for m
  proof (cases "?k = 51199")
    case True
    then show ?thesis using that by (simp add: clock_step_def NPF_def)
  next
    case False
    then show ?thesis using that k by (simp add: clock_step_def NPF_def)
  qed
  have op: "owner_pte (s\<lparr>vm := clock_step m\<rparr>) ?k = owner_pte (s\<lparr>vm := m\<rparr>) ?k" for m
    using same_spaces[of "clock_step m" m] by (simp add: owner_pte_def va_pte_def frame_owner_def clock_step_def)
  consider "\<not> candidate s ?k" | "candidate s ?k" "get_attribute (owner_pte s ?k) PAGE_ACCESSED \<noteq> 0"
    | "candidate s ?k" "get_attribute (owner_pte s ?k) PAGE_ACCESSED = 0" by blast
  then show ?thesis
  proof cases
    case 1
    then obtain i p where "clock_look s = Some (0, i, p, s)" using clock_look_skip[OF ok k] by blast
    then have "clock_scan s = clock_scan (s\<lparr>vm := clock_step (vm s)\<rparr>)" by (subst clock_scan.simps) (simp add: upd_vm_def)
    moreover have "aged D (vm s) (clock_step (vm s))" using aged_refl[of "vm s" D] ok aged_step by (auto simp: evict_ok_def)
    ultimately show ?thesis using 1 nx by blast
  next
    case 2
    then obtain i p m' where m': "clock_look s = Some (0, i, p, s\<lparr>vm := m'\<rparr>)" "aged D (vm s) m'" "clock_pt m' = ?k"
      "get_attribute (owner_pte (s\<lparr>vm := m'\<rparr>) ?k) PAGE_ACCESSED = 0" using clock_look_age[OF ok k] by blast
    then have "clock_scan s = clock_scan (s\<lparr>vm := clock_step m'\<rparr>)" by (subst clock_scan.simps) (simp add: upd_vm_def)
    then show ?thesis using aged_step[OF m'(2)] nx[OF m'(3)] m'(4) op by metis
  next
    case 3
    then show ?thesis using scan_here[OF ok k] by blast
  qed
qed

lemma scan_reach:
  assumes "evict_ok s D" and "clock_pt (vm s) < 51200" and "(clock_pt (vm s) + n) mod 51200 = k0"
  shows "(\<exists>r. clock_scan s = Some r \<and> (\<exists>k. victim D s r k)) \<or>
    (\<exists>m'. clock_scan s = clock_scan (s\<lparr>vm := m'\<rparr>) \<and> aged D (vm s) m' \<and> clock_pt m' = k0)"
  using assms
proof (induction n arbitrary: s)
  case 0
  have "s\<lparr>vm := vm s\<rparr> = s" by simp
  moreover have "aged D (vm s) (vm s)" using aged_refl 0 by (auto simp: evict_ok_def)
  ultimately show ?case using 0 by (metis add_0_right mod_less)
next
  case (Suc n)
  from scan_step[OF Suc.prems(1,2)] show ?case
  proof (elim disjE exE conjE)
    fix m' assume m': "clock_scan s = clock_scan (s\<lparr>vm := m'\<rparr>)" "aged D (vm s) m'" "clock_pt m' = (clock_pt (vm s) + 1) mod 51200"
    let ?s = "s\<lparr>vm := m'\<rparr>"
    have "evict_ok ?s D" "clock_pt (vm ?s) < 51200" "(clock_pt (vm ?s) + n) mod 51200 = k0"
      using evict_ok_aged(1)[OF Suc.prems(1) m'(2)] m'(3) Suc.prems(3) by (simp_all add: mod_simps)
    from Suc.IH[OF this] show ?thesis
    proof (elim disjE exE conjE)
      fix r k assume "clock_scan ?s = Some r" "victim D ?s r k"
      then show ?thesis using victim_aged[OF Suc.prems(1) m'(2)] m'(1) by metis
    next
      fix m2 assume "clock_scan ?s = clock_scan (?s\<lparr>vm := m2\<rparr>)" "aged D (vm ?s) m2" "clock_pt m2 = k0"
      then show ?thesis using aged_trans[OF m'(2)] m'(1) by auto
    qed
  qed blast
qed

lemma clock_scan_spec:
  assumes ok: "evict_ok s D" and k: "clock_pt (vm s) < 51200" and k0: "k0 < 51200" "candidate s k0"
  shows "\<exists>r k. clock_scan s = Some r \<and> victim D s r k"
proof -
  have "\<exists>n. (c + n) mod 51200 = k0" if "c < 51200" for c :: nat
    by (rule exI[of _ "51200 - c + k0"]) (use that k0(1) in simp)
  then obtain n where n: "(clock_pt (vm s) + n) mod 51200 = k0" using k by blast
  from scan_reach[OF ok k n] show ?thesis
  proof (elim disjE exE conjE)
    fix m1 assume m1: "clock_scan s = clock_scan (s\<lparr>vm := m1\<rparr>)" "aged D (vm s) m1" "clock_pt m1 = k0"
    let ?s1 = "s\<lparr>vm := m1\<rparr>"
    note ok1 = evict_ok_aged(1)[OF ok m1(2)]
    have k1: "clock_pt (vm ?s1) < 51200" using m1(3) k0(1) by simp
    have c1: "candidate ?s1 k0" using evict_ok_aged(2)[OF ok m1(2)] k0(2) by simp
    from scan_step[OF ok1 k1] show ?thesis
    proof (elim disjE exE conjE)
      fix m2 assume m2: "clock_scan ?s1 = clock_scan (?s1\<lparr>vm := m2\<rparr>)" "aged D (vm ?s1) m2" "clock_pt m2 = (clock_pt (vm ?s1) + 1) mod 51200"
        "candidate ?s1 (clock_pt (vm ?s1)) \<longrightarrow> get_attribute (owner_pte (?s1\<lparr>vm := m2\<rparr>) (clock_pt (vm ?s1))) PAGE_ACCESSED = 0"
      let ?s2 = "s\<lparr>vm := m2\<rparr>"
      have a2: "aged D (vm s) m2" using aged_trans[OF m1(2)] m2(2) by simp
      note ok2 = evict_ok_aged(1)[OF ok a2]
      have k2: "clock_pt (vm ?s2) < 51200" "(clock_pt (vm ?s2) + 51199) mod 51200 = k0" using m2(3) m1(3) k0(1) by (simp_all add: mod_simps)
      have a0: "get_attribute (owner_pte ?s2 k0) PAGE_ACCESSED = 0" using m2(4) c1 m1(3) by simp
      have s12: "clock_scan s = clock_scan ?s2" using m1(1) m2(1) by simp
      from scan_reach[OF ok2 k2] show ?thesis
      proof (elim disjE exE conjE)
        fix m3 assume m3: "clock_scan ?s2 = clock_scan (?s2\<lparr>vm := m3\<rparr>)" "aged D (vm ?s2) m3" "clock_pt m3 = k0"
        let ?s3 = "s\<lparr>vm := m3\<rparr>"
        have a3: "aged D (vm s) m3" using aged_trans[OF a2] m3(2) by simp
        note ok3 = evict_ok_aged(1)[OF ok a3]
        have c3: "candidate ?s3 (clock_pt (vm ?s3))" using evict_ok_aged(2)[OF ok a3] k0(2) m3(3) by simp
        have c2: "candidate ?s2 k0" using evict_ok_aged(2)[OF ok a2] k0(2) by simp
        have "pg_charmap (vm ?s2) ! k0 \<noteq> CMAP_SHARED" using c2 by (simp add: candidate_def)
        from calm_attr(3)[OF evict_ok_aged(4)[OF ok2 m3(2) k0(1) this] a0]
        have "get_attribute (owner_pte ?s3 (clock_pt (vm ?s3))) PAGE_ACCESSED = 0" using m3(3) by simp
        from scan_here[OF ok3 _ c3 this] m3(3) k0(1) obtain r where "clock_scan ?s3 = Some r" "victim D ?s3 r k0" by auto
        moreover from this(2) have "victim D s r k0" by (rule victim_aged[OF ok a3])
        ultimately show ?thesis using s12 m3(1) by auto
      qed (use victim_aged[OF ok a2] s12 in metis)
    qed (use victim_aged[OF ok m1(2)] m1(1) in metis)
  qed blast
qed

section \<open>Swapping out\<close>

text \<open>The contents of a page of the swap partition, of eight sectors.\<close>

definition slot_bytes :: "'d kstate \<Rightarrow> nat \<Rightarrow> u8 list" where
  "slot_bytes s j = sd_read (fs s) (dev (fs s)) 8 (unat (get_sec_idx j (vm s)))"

definition swap_ok :: "mm \<Rightarrow> bool" where
  "swap_ok m \<longleftrightarrow> cmap_ok 128 (spg_charmap m) (spg_ffree m) \<and> unat (swap_start m) + 1024 \<le> 2 ^ 32"

definition swapped_pte :: "nat \<Rightarrow> u64 \<Rightarrow> u64" where
  "swapped_pte j e = set_pfn (e AND NOT PAGE_PRESENT) (of_nat j)"

lemma get_sec_idx_nat: "swap_ok m \<Longrightarrow> j < 128 \<Longrightarrow> unat (get_sec_idx j m) = unat (swap_start m) + 8 * j"
proof -
  assume a: "swap_ok m" "j < 128"
  have "unat (8 * of_nat j :: u32) = 8 * j" using a(2) by (simp add: unat_word_ariths unat_of_nat)
  then show ?thesis using a by (simp add: get_sec_idx_def NORMAL_PAGE_SIZE_def SECTOR_SIZE_def swap_ok_def unat_word_ariths)
qed

lemma slot_write:
  assumes "sd_laws (fs s)" and "swap_ok (vm s)" and "j < 128" and "length bs = 4096" and "i < 128"
  shows "sd_read (fs s) (sd_write (fs s) (dev (fs s)) 8 (unat (get_sec_idx j (vm s))) bs) 8 (unat (get_sec_idx i (vm s))) =
    (if i = j then bs else slot_bytes s i)"
proof (cases "i = j")
  case True
  then show ?thesis using sd_read_written[OF assms(1), of bs 8] assms(4) by simp
next
  case False
  then have "unat (get_sec_idx i (vm s)) + 8 \<le> unat (get_sec_idx j (vm s)) \<or> unat (get_sec_idx j (vm s)) + 8 \<le> unat (get_sec_idx i (vm s))"
    using get_sec_idx_nat[OF assms(2)] assms(3,5) by auto
  then show ?thesis using sd_read_frame[OF assms(1)] assms(4) False by (simp add: slot_bytes_def)
qed

lemma swapped_pte_simps:
  assumes "j < 128"
  shows "get_pfn (swapped_pte j e) = of_nat j" "get_attribute (swapped_pte j e) PAGE_PRESENT = 0"
    "get_attribute (swapped_pte j e) PAGE_XWR = get_attribute e PAGE_XWR"
proof -
  have "(of_nat j :: u64) < 2 ^ 44" using assms unat_of_nat_small[of j] by (simp add: word_less_nat_alt)
  then show "get_pfn (swapped_pte j e) = of_nat j" by (simp add: swapped_pte_def get_pfn_set_pfn)
  have "get_attribute (NOT PAGE_PRESENT) PAGE_XWR = PAGE_XWR" "get_attribute (NOT PAGE_PRESENT) PAGE_PRESENT = 0"
    by (simp_all add: get_attribute_def PAGE_XWR_def pgattr PAGE_ATTRIBUTE_MASK_def mask_eq_exp_minus_1)
  moreover have "get_attribute e a AND a = get_attribute e a" for a by (rule bit_word_eqI) (auto simp: get_attribute_def bit_simps)
  ultimately show "get_attribute (swapped_pte j e) PAGE_PRESENT = 0" "get_attribute (swapped_pte j e) PAGE_XWR = get_attribute e PAGE_XWR"
    by (simp_all add: swapped_pte_def attr_and)
qed

lemma alloc_swap_page_spec:
  assumes "swap_ok m" and "spg_ffree m < 128" and "(word_of_int i :: u8) \<noteq> CMAP_FREE"
  shows "\<exists>f. alloc_swap_page i m = Some (spg_ffree m, m\<lparr>spg_charmap := (spg_charmap m)[spg_ffree m := word_of_int i], spg_ffree := f\<rparr>) \<and>
    cmap_ok 128 ((spg_charmap m)[spg_ffree m := word_of_int i]) f"
proof -
  let ?cm = "(spg_charmap m)[spg_ffree m := word_of_int i]"
  have "cmap_ok 128 ?cm (next_free ?cm (spg_ffree m))" using assms cmap_alloc by (auto simp: swap_ok_def)
  moreover have "alloc_swap_page i m = Some (spg_ffree m, m\<lparr>spg_charmap := ?cm, spg_ffree := next_free ?cm (spg_ffree m)\<rparr>)"
    using assms by (simp add: alloc_swap_page_def swap_ok_def NPSWAP_def upd_chk_def cmap_ok_def Let_def)
  ultimately show ?thesis by blast
qed

lemma swap_to_disk_spec:
  assumes ok: "evict_ok s D" and fr: "frames_ok (vm s)" and full: "51200 \<le> pg_ffree (vm s)" and k: "clock_pt (vm s) < 51200"
    and k0: "k0 < 51200" "candidate s k0" and sw: "swap_ok (vm s)" "spg_ffree (vm s) < 128" and sd: "sd_laws (fs s)"
  shows "\<exists>k s1. swap_to_disk s = Some (k, s1) \<and> k < 51200 \<and> candidate s k \<and> s1 = s\<lparr>fs := fs s1, vm := vm s1\<rparr> \<and> fs s1 = (fs s)\<lparr>dev := dev (fs s1)\<rparr> \<and>
    spaces_ok (vm s1) D \<and> (\<forall>d \<in> D. \<forall>q. tab (vm s1) d q = tab (vm s) d q) \<and> umem (vm s1) = umem (vm s) \<and> pg_charmap (vm s1) = pg_charmap (vm s) \<and>
    pg_uva (vm s1) = pg_uva (vm s) \<and> pg_ffree (vm s1) = pg_ffree (vm s) \<and> pgtb_charmap (vm s1) = pgtb_charmap (vm s) \<and> pgtb_ffree (vm s1) = pgtb_ffree (vm s) \<and>
    clock_pt (vm s1) < 51200 \<and> swap_start (vm s1) = swap_start (vm s) \<and> shm_ctrls (vm s1) = shm_ctrls (vm s) \<and> swap_ok (vm s1) \<and>
    spg_charmap (vm s1) = (spg_charmap (vm s))[spg_ffree (vm s) := pg_charmap (vm s) ! k] \<and>
    (\<forall>j < 128. slot_bytes s1 j = (if j = spg_ffree (vm s) then frame_bytes (frame k) (vm s) else slot_bytes s j)) \<and>
    (\<exists>e. calm (owner_pte s k) e \<and> get_attribute e PAGE_ACCESSED = 0 \<and> owner_pte s1 k = swapped_pte (spg_ffree (vm s)) e) \<and>
    (\<forall>d \<in> D. \<forall>a b c. c < 512 \<longrightarrow> (let va = pg_uva (vm s) ! k in
      d = pgdir_kva (pcbs s (frame_owner s k)) \<and> a = VPN va 2 \<and> b = VPN va 1 \<and> c = VPN va 0 \<or> calm (pte_of (vm s) d a b c) (pte_of (vm s1) d a b c)))"
proof -
  obtain r k where r: "clock_scan s = Some r" "victim D s r k" using clock_scan_spec[OF ok k k0] by blast
  define va where "va = pg_uva (vm s) ! k"
  define d where "d = pgdir_kva (pcbs s (frame_owner s k))"
  define c where "c = pg_charmap (vm s) ! k"
  obtain m t where m: "r = (t + 8 * VPN va 0, uint c, frame_owner s k, s\<lparr>vm := m\<rparr>)" "aged D (vm s) m" "clock_pt m = k" "k < 51200"
    "candidate s k" "tab m d (leaf_pos (VPN va 2) (VPN va 1)) = Some t" "ptes m (t + 8 * VPN va 0) = owner_pte (s\<lparr>vm := m\<rparr>) k"
    "get_attribute (owner_pte (s\<lparr>vm := m\<rparr>) k) PAGE_ACCESSED = 0"
    using r(2) unfolding victim_def Let_def va_def d_def c_def by blast
  note f = aged_fields[OF m(2)]
  have ns: "c \<noteq> CMAP_SHARED" using m(5) by (simp add: candidate_def c_def)
  have nf: "(word_of_int (uint c) :: u8) \<noteq> CMAP_FREE" using fr full m(4) by (simp add: frames_ok_def cmap_ok_def c_def)
  have dD: "d \<in> D" using evict_okD(2)[OF ok m(4)] ns by (simp add: d_def c_def)
  let ?j = "spg_ffree (vm s)" and ?p = "t + 8 * VPN va 0" and ?e = "owner_pte (s\<lparr>vm := m\<rparr>) k"
  have sm: "swap_ok m" "spg_ffree m < 128" using sw by (simp_all add: swap_ok_def f)
  obtain ff where ff: "alloc_swap_page (uint c) m = Some (?j, m\<lparr>spg_charmap := (spg_charmap (vm s))[?j := c], spg_ffree := ff\<rparr>)"
    "cmap_ok 128 ((spg_charmap (vm s))[?j := c]) ff"
    using alloc_swap_page_spec[OF sm nf] by (auto simp: f)
  let ?m1 = "m\<lparr>spg_charmap := (spg_charmap (vm s))[?j := c], spg_ffree := ff\<rparr>"
  have e1: "ptes ?m1 ?p = ?e" using m(7) by simp
  have xw: "get_attribute ?e PAGE_XWR \<noteq> 0"
    using calm_attr(2)[OF evict_ok_aged(4)[OF ok m(2,4)]] evict_okD(5)[OF ok m(4)] ns by (simp add: c_def)
  have nz: "swapped_pte ?j ?e \<noteq> 0" using swapped_pte_simps(3)[OF sw(2), of ?e] xw by auto
  let ?m3 = "set_pte ?p (swapped_pte ?j ?e) ?m1"
  have m3: "set_pte ?p (set_pfn (ptes (set_pte ?p (ptes ?m1 ?p AND NOT PAGE_PRESENT) ?m1) ?p) (of_nat ?j)) (set_pte ?p (ptes ?m1 ?p AND NOT PAGE_PRESENT) ?m1) = ?m3"
    by (simp add: set_pte_def swapped_pte_def m(7))
  have p3: "ptes ?m3 ?p \<noteq> 0" "clock_pt ?m3 = k" using nz m(3) by (simp_all add: set_pte_def)
  define s1 where "s1 = s\<lparr>fs := (fs s)\<lparr>dev := sd_write (fs s) (dev (fs s)) 8 (unat (get_sec_idx ?j ?m1)) (frame_bytes (frame k) ?m1)\<rparr>, vm := clock_step ?m3\<rparr>"
  have fk: "Pg_base + push_bit NORMAL_PAGE_SHIFT (of_nat (clock_pt ?m1)) = frame k"
    using m(3) by (simp add: NORMAL_PAGE_SHIFT_def push_bit_eq_mult frame_def)
  have run: "swap_to_disk s = Some (k, s1)"
    using r(1) ff(1) sw(2) m3 p3 fk unfolding m(1) s1_def
    by (simp add: swap_to_disk_def Let_def NPSWAP_def NORMAL_PAGE_SIZE_def SECTOR_SIZE_def)
  have f1: "fs s1 = (fs s)\<lparr>dev := dev (fs s1)\<rparr>" "s1 = s\<lparr>fs := fs s1, vm := vm s1\<rparr>" by (simp_all add: s1_def)
  have t1: "tab ?m1 d (leaf_pos (VPN va 2) (VPN va 1)) = Some t" "spaces_ok ?m1 D" "pte_of ?m1 d' a b c = pte_of m d' a b c" "tab ?m1 d' q = tab m d' q" for d' a b c q
    using m(6) same_spaces[of ?m1 m] tab_cong[of ?m1 m] agedD(2)[OF m(2)] by simp_all
  note w = pte_write[OF t1(2) dD t1(1) VPN_less[of va 0], where e = "swapped_pte ?j ?e"]
  have st: "spaces_ok (clock_step m) D = spaces_ok m D" "pte_of (clock_step m) d' a b c = pte_of m d' a b c" "tab (clock_step m) d' q = tab m d' q" for m d' a b c q
    using same_spaces[of "clock_step m" m] tab_cong[of "clock_step m" m] by (simp_all add: clock_step_def)
  have v1: "vm s1 = clock_step ?m3" by (simp add: s1_def)
  have pt: "pte_of (vm s1) d' a b c' = (if d' = d \<and> a = VPN va 2 \<and> b = VPN va 1 \<and> c' = VPN va 0 then swapped_pte ?j ?e else pte_of m d' a b c')"
    if "d' \<in> D" "c' < 512" for d' a b c'
    using w(3)[OF that] st(2) t1(3) by (simp add: v1)
  have "tab (vm s1) d' q = tab (vm s) d' q" if "d' \<in> D" for d' q using w(1)[OF that] agedD(3)[OF m(2) that] st(3) t1(4) by (simp add: v1)
  moreover have "spaces_ok (vm s1) D" using w(2) st(1) by (simp add: v1)
  moreover have flds: "umem (vm s1) = umem (vm s)" "pg_charmap (vm s1) = pg_charmap (vm s)" "pg_uva (vm s1) = pg_uva (vm s)" "pg_ffree (vm s1) = pg_ffree (vm s)"
    "pgtb_charmap (vm s1) = pgtb_charmap (vm s)" "pgtb_ffree (vm s1) = pgtb_ffree (vm s)" "swap_start (vm s1) = swap_start (vm s)" "shm_ctrls (vm s1) = shm_ctrls (vm s)"
    "spg_charmap (vm s1) = (spg_charmap (vm s))[?j := c]" "spg_ffree (vm s1) = ff"
    by (simp_all add: v1 clock_step_def set_pte_def f)
  moreover have "clock_pt (vm s1) < 51200" using p3(2) m(4) by (simp add: v1 clock_step_def NPF_def)
  moreover have "swap_ok (vm s1)" using ff(2) sw(1) flds by (simp add: swap_ok_def)
  moreover have "slot_bytes s1 i = (if i = ?j then frame_bytes (frame k) (vm s) else slot_bytes s i)" if "i < 128" for i
  proof -
    have sec: "get_sec_idx i ?m1 = get_sec_idx i (vm s)" "get_sec_idx i (vm s1) = get_sec_idx i (vm s)" for i by (simp_all add: get_sec_idx_def flds f)
    have "frame_bytes (frame k) ?m1 = frame_bytes (frame k) (vm s)" by (rule frame_bytes_umem) (simp add: f)
    moreover have "length (frame_bytes (frame k) (vm s)) = 4096" by (simp add: frame_bytes_def)
    ultimately show ?thesis using slot_write[OF sd sw(1,2) _ that] unfolding slot_bytes_def[of s1] sec by (simp add: s1_def sec)
  qed
  moreover have "\<exists>e. calm (owner_pte s k) e \<and> get_attribute e PAGE_ACCESSED = 0 \<and> owner_pte s1 k = swapped_pte ?j e"
  proof (intro exI conjI)
    show "calm (owner_pte s k) ?e" using evict_ok_aged(4)[OF ok m(2,4)] ns by (simp add: c_def)
    show "get_attribute ?e PAGE_ACCESSED = 0" by (rule m(8))
    have "pcb_search i s1 = pcb_search i s" for i by (simp add: s1_def pcb_search_def table_search_def table_index_def Let_def)
    then have "frame_owner s1 k = frame_owner s k" by (simp add: frame_owner_def flds)
    moreover have "pcbs s1 = pcbs s" by (simp add: s1_def)
    ultimately have "owner_pte s1 k = va_pte (vm s1) d va" by (simp add: owner_pte_def flds va_def d_def)
    then show "owner_pte s1 k = swapped_pte ?j ?e" using pt[OF dD VPN_less] by (simp add: va_pte_def)
  qed
  moreover have "let va = pg_uva (vm s) ! k in d' = pgdir_kva (pcbs s (frame_owner s k)) \<and> a = VPN va 2 \<and> b = VPN va 1 \<and> c' = VPN va 0 \<or>
      calm (pte_of (vm s) d' a b c') (pte_of (vm s1) d' a b c')" if "d' \<in> D" "c' < 512" for d' a b c'
    using pt[OF that] agedD(4)[OF m(2) that] unfolding va_def[symmetric] d_def[symmetric] Let_def by (auto split: if_splits)
  ultimately show ?thesis using run m(4,5) f1 unfolding c_def by blast
qed

section \<open>Swapping in\<close>

definition loaded_pte :: "nat \<Rightarrow> u64 \<Rightarrow> u64" where
  "loaded_pte k e = set_pfn (set_attribute e (PAGE_PRESENT OR PAGE_ACCESSED OR PAGE_DIRTY)) (drop_bit NORMAL_PAGE_SHIFT (kva2pa (frame k)))"

lemma loaded_pte_simps:
  assumes "k < 51200"
  shows "pa2kva (get_pa (loaded_pte k e)) = frame k" "get_attribute (loaded_pte k e) PAGE_PRESENT \<noteq> 0"
    "get_attribute (loaded_pte k e) PAGE_XWR = get_attribute e PAGE_XWR"
proof -
  show "pa2kva (get_pa (loaded_pte k e)) = frame k" using pa2kva_set_pfn[OF frame_aligned[OF assms]] by (simp add: loaded_pte_def)
  have "get_attribute (PAGE_PRESENT OR PAGE_ACCESSED OR PAGE_DIRTY) PAGE_PRESENT = 1"
    "get_attribute (PAGE_PRESENT OR PAGE_ACCESSED OR PAGE_DIRTY) PAGE_XWR = 0"
    by (simp_all add: get_attribute_def PAGE_XWR_def pgattr PAGE_ATTRIBUTE_MASK_def mask_eq_exp_minus_1)
  then have a: "get_attribute (loaded_pte k e) PAGE_PRESENT = get_attribute e PAGE_PRESENT OR 1"
    "get_attribute (loaded_pte k e) PAGE_XWR = get_attribute e PAGE_XWR" by (simp_all add: loaded_pte_def attr_set_attribute)
  have "bit (get_attribute (loaded_pte k e) PAGE_PRESENT) 0" unfolding a(1) by (simp only: bit_or_iff bit_1_iff) simp
  then show "get_attribute (loaded_pte k e) PAGE_PRESENT \<noteq> 0" by auto
  show "get_attribute (loaded_pte k e) PAGE_XWR = get_attribute e PAGE_XWR" by (rule a(2))
qed

lemma free_swap_page_spec:
  assumes "swap_ok m" and "j < 128" and "spg_charmap m ! j \<noteq> CMAP_FREE"
  shows "\<exists>f. free_swap_page (of_nat j) m = Some (m\<lparr>spg_charmap := (spg_charmap m)[j := CMAP_FREE], spg_ffree := f\<rparr>) \<and>
    cmap_ok 128 ((spg_charmap m)[j := CMAP_FREE]) f"
proof -
  have "unat (of_nat j :: u32) = j" using assms(2) by (simp add: unat_of_nat)
  moreover have "length (spg_charmap m) = 128" "cmap_ok 128 (spg_charmap m) (spg_ffree m)" using assms(1) by (simp_all add: swap_ok_def cmap_ok_def)
  ultimately have "free_swap_page (of_nat j) m = Some (m\<lparr>spg_charmap := (spg_charmap m)[j := CMAP_FREE],
      spg_ffree := if j < spg_ffree m then j else spg_ffree m\<rparr>)" "cmap_ok 128 ((spg_charmap m)[j := CMAP_FREE]) (if j < spg_ffree m then j else spg_ffree m)"
    using assms(2,3) cmap_free by (simp_all add: free_swap_page_def NPSWAP_def nth_chk_def)
  then show ?thesis by blast
qed

lemma swap_from_disk_spec:
  assumes ok: "vm_ok (vm s) D" and sw: "swap_ok (vm s)" and sd: "sd_laws (fs s)" and d: "d \<in> D"
    and t: "tab (vm s) d (leaf_pos (VPN va 2) (VPN va 1)) = Some t" and k: "pg_ffree (vm s) < 51200"
    and pd: "(word_of_int (pid (cur_pcb s)) :: u8) \<noteq> CMAP_FREE"
    and e: "get_attribute (va_pte (vm s) d va) PAGE_PRESENT = 0" "get_pfn (va_pte (vm s) d va) = of_nat j" "j < 128" "spg_charmap (vm s) ! j \<noteq> CMAP_FREE"
  shows "\<exists>m'. swap_from_disk (t + 8 * VPN va 0) va s = Some (frame (pg_ffree (vm s)), s\<lparr>vm := m'\<rparr>) \<and> vm_ok m' D \<and> swap_ok m' \<and>
    (\<forall>d' \<in> D. \<forall>a b c. c < 512 \<longrightarrow> pte_of m' d' a b c =
      (if d' = d \<and> a = VPN va 2 \<and> b = VPN va 1 \<and> c = VPN va 0 then loaded_pte (pg_ffree (vm s)) (va_pte (vm s) d va) else pte_of (vm s) d' a b c)) \<and>
    (\<forall>i < 51200. frame_bytes (frame i) m' = (if i = pg_ffree (vm s) then slot_bytes s j else frame_bytes (frame i) (vm s))) \<and>
    spg_charmap m' = (spg_charmap (vm s))[j := CMAP_FREE]"
proof -
  let ?k = "pg_ffree (vm s)" and ?p = "t + 8 * VPN va 0" and ?e = "va_pte (vm s) d va" and ?i = "pid (cur_pcb s)"
  note fo = vm_okD(3)[OF ok]
  let ?m0 = "take_frame ?i va (vm s)"
  note ap = alloc_page_spec[OF fo k pd, of va]
  have ep: "ptes (vm s) ?p = ?e" using t by (simp add: va_pte_def pte_of_def)
  have sp: "(ucast (get_pfn ?e) :: u32) = of_nat j" "unat (of_nat j :: u32) = j"
    using e(3) unat_of_nat_small[of j] by (simp_all add: e(2) word_unat_eq_iff unsigned_ucast_eq unat_of_nat take_bit_nat_eq_self)
  have fk0: "frame ?k \<noteq> 0" using unat_frame[OF k] by auto
  define bs where "bs = slot_bytes s j"
  have lb: "length bs = 4096" using sd by (simp add: bs_def slot_bytes_def sd_laws_def)
  let ?m1 = "store_page (frame ?k) bs ?m0"
  have sm: "swap_ok ?m1" "spg_charmap ?m1 ! j \<noteq> CMAP_FREE" using sw e(4) by (simp_all add: swap_ok_def store_page_def)
  obtain f where f: "free_swap_page (of_nat j) ?m1 = Some (?m1\<lparr>spg_charmap := (spg_charmap (vm s))[j := CMAP_FREE], spg_ffree := f\<rparr>)"
    "cmap_ok 128 ((spg_charmap (vm s))[j := CMAP_FREE]) f"
    using free_swap_page_spec[OF sm(1) e(3) sm(2)] by (auto simp: store_page_def)
  let ?m2 = "?m1\<lparr>spg_charmap := (spg_charmap (vm s))[j := CMAP_FREE], spg_ffree := f\<rparr>"
  let ?m3 = "set_pte ?p (loaded_pte ?k ?e) ?m2"
  have bs: "sd_read (fs s) (dev (fs s)) 8 (unat (get_sec_idx j ?m0)) = bs" by (simp add: bs_def slot_bytes_def get_sec_idx_def)
  have e2: "ptes ?m2 ?p = ?e" using ep by (simp add: store_page_def)
  have "set_pte ?p (set_pfn (ptes (set_pte ?p (set_attribute (ptes ?m2 ?p) (PAGE_PRESENT OR PAGE_ACCESSED OR PAGE_DIRTY)) ?m2) ?p)
      (drop_bit NORMAL_PAGE_SHIFT (kva2pa (frame ?k)))) (set_pte ?p (set_attribute (ptes ?m2 ?p) (PAGE_PRESENT OR PAGE_ACCESSED OR PAGE_DIRTY)) ?m2) = ?m3"
    unfolding e2 by (simp add: set_pte_def loaded_pte_def)
  then have run: "swap_from_disk ?p va s = Some (frame ?k, s\<lparr>vm := ?m3\<rparr>)"
    using ap(1) ep sp e(1,3) fk0 f(1) bs
    by (simp add: swap_from_disk_def Let_def NPSWAP_def upd_vm_def NORMAL_PAGE_SIZE_def SECTOR_SIZE_def)
  have t2: "tab ?m2 d (leaf_pos (VPN va 2) (VPN va 1)) = Some t" "spaces_ok ?m2 D" "pte_of ?m2 d' a b c = pte_of (vm s) d' a b c" for d' a b c
    using t same_spaces[of ?m2 "vm s"] tab_cong[of ?m2 "vm s"] vm_okD(1)[OF ok] by (simp_all add: store_page_def)
  note w = pte_write[OF t2(2) d t2(1) VPN_less[of va 0], where e = "loaded_pte ?k ?e"]
  have "vm_ok ?m3 D" using w(2) vm_okD(2)[OF ok] ap(2) by (simp add: vm_ok_def set_pte_def store_page_def frames_ok_def)
  moreover have "swap_ok ?m3" using f(2) sw by (simp add: swap_ok_def set_pte_def store_page_def)
  moreover have "pte_of ?m3 d' a b c = (if d' = d \<and> a = VPN va 2 \<and> b = VPN va 1 \<and> c = VPN va 0 then loaded_pte ?k ?e else pte_of (vm s) d' a b c)"
    if "d' \<in> D" "c < 512" for d' a b c using w(3)[OF that] t2(3) by simp
  moreover have "frame_bytes (frame i) ?m3 = (if i = ?k then bs else frame_bytes (frame i) (vm s))" if "i < 51200" for i
  proof -
    have "frame_bytes (frame i) ?m3 = frame_bytes (frame i) ?m1" by (rule frame_bytes_umem) (simp add: set_pte_def)
    moreover have "frame_bytes (frame i) ?m0 = frame_bytes (frame i) (vm s)" by (rule frame_bytes_umem) simp
    ultimately show ?thesis using store_page_bytes[OF k lb that, of ?m0] by simp
  qed
  moreover have "spg_charmap ?m3 = (spg_charmap (vm s))[j := CMAP_FREE]" by (simp add: set_pte_def)
  ultimately show ?thesis using run unfolding bs_def by blast
qed

section \<open>A full memory\<close>

text \<open>The page of process 2 at \<open>0x10000\<close> is in frame 0, all other frames are shared.\<close>

lemma demo_swap_ok: "swap_ok demo_mm"
  by (simp add: swap_ok_def demo_mm_def cmap_ok_def)

definition demo_full :: "(nat \<Rightarrow> u8 list) kstate" where
  "demo_full = (case alloc_page_helper 0x10000 (tbl 2) 2 demo_ks of None \<Rightarrow> demo_ks
     | Some (_, s) \<Rightarrow> s\<lparr>vm := (vm s)\<lparr>pg_charmap := 2 # replicate 51199 CMAP_SHARED, pg_ffree := 51200\<rparr>\<rparr>)"

lemma demo_full_vm:
  "\<exists>m t. demo_full = demo_ks\<lparr>vm := m\<rparr> \<and> spaces_ok m {tbl 2} \<and> cmap_ok 3840 (pgtb_charmap m) (pgtb_ffree m) \<and> va_pte m (tbl 2) 0x10000 = user_pte 0 \<and>
     pg_charmap m = 2 # replicate 51199 CMAP_SHARED \<and> pg_ffree m = 51200 \<and> pg_uva m = (replicate 51200 0)[0 := 0x10000] \<and> clock_pt m = 0 \<and>
     swap_ok m \<and> spg_ffree m = 0 \<and> tab m (tbl 2) (leaf_pos (VPN 0x10000 2) (VPN 0x10000 1)) = Some t"
proof -
  have vd: "vm demo_ks = demo_mm" by (simp add: demo_ks_def)
  have v: "VPN 0x10000 2 < 256" by (simp add: VPN_def NORMAL_PAGE_SHIFT_def PPN_BITS_def)
  have c: "(word_of_int 2 :: u8) \<noteq> CMAP_FREE" by (simp add: CMAP_FREE_def)
  from alloc_page_helper_spec[of demo_ks "{tbl 2}" "tbl 2" "0x10000" 2, unfolded vd, OF demo_vm_ok _ v demo_pages(1) c demo_pages(2)]
  obtain m t where m: "alloc_page_helper 0x10000 (tbl 2) 2 demo_ks = Some (frame 0, demo_ks\<lparr>vm := m\<rparr>)" "vm_ok m {tbl 2}"
    "\<And>a b c. c < 512 \<Longrightarrow> pte_of m (tbl 2) a b c = (if a = VPN 0x10000 2 \<and> b = VPN 0x10000 1 \<and> c = VPN 0x10000 0 then user_pte 0 else pte_of demo_mm (tbl 2) a b c)"
    "pg_uva m = (pg_uva demo_mm)[0 := page_of 0x10000]"
    "m = demo_mm\<lparr>ptes := ptes m, pgtb_charmap := pgtb_charmap m, pgtb_ffree := pgtb_ffree m, pg_charmap := pg_charmap m, pg_ffree := pg_ffree m, pg_uva := pg_uva m\<rparr>"
    "tab m (tbl 2) (leaf_pos (VPN 0x10000 2) (VPN 0x10000 1)) = Some t"
    by (auto simp: demo_pages)
  let ?m = "m\<lparr>pg_charmap := 2 # replicate 51199 CMAP_SHARED, pg_ffree := 51200\<rparr>"
  have "demo_full = demo_ks\<lparr>vm := ?m\<rparr>" by (simp add: demo_full_def m(1))
  moreover have "spaces_ok ?m {tbl 2}" "va_pte ?m (tbl 2) 0x10000 = user_pte 0" "tab ?m (tbl 2) (leaf_pos (VPN 0x10000 2) (VPN 0x10000 1)) = Some t"
    using same_spaces[of ?m m] tab_cong[of ?m m] vm_okD(1)[OF m(2)] m(3)[OF VPN_less] m(6) by (simp_all add: va_pte_def)
  moreover have "cmap_ok 3840 (pgtb_charmap ?m) (pgtb_ffree ?m)" using vm_okD(2)[OF m(2)] by simp
  moreover have "clock_pt m = 0" "spg_ffree m = 0" "spg_charmap m = spg_charmap demo_mm" "swap_start m = swap_start demo_mm"
    by (subst m(5), simp add: demo_mm_def)+
  then have "clock_pt ?m = 0" "spg_ffree ?m = 0" "swap_ok ?m" using demo_swap_ok by (simp_all add: swap_ok_def demo_mm_def)
  moreover have "pg_uva ?m = (replicate 51200 0)[0 := 0x10000]" by (simp add: m(4) demo_pages page_of_def NORMAL_PAGE_SHIFT_def)
  ultimately show ?thesis by (intro exI[of _ ?m] exI[of _ t]) simp
qed

lemma user_pte_rights: "get_attribute (user_pte k) PAGE_PRESENT \<noteq> 0" "get_attribute (user_pte k) PAGE_XWR \<noteq> 0"
  unfolding user_pte_def attr_set_attribute attr_set_pfn
  by (simp_all add: get_attribute_def PAGE_XWR_def PAGE_VURWXAD_def pgattr PAGE_ATTRIBUTE_MASK_def mask_eq_exp_minus_1)

lemma demo_full_ok:
  "evict_ok demo_full {tbl 2}" "frames_ok (vm demo_full)" "51200 \<le> pg_ffree (vm demo_full)" "clock_pt (vm demo_full) < 51200"
  "candidate demo_full 0" "swap_ok (vm demo_full)" "spg_ffree (vm demo_full) < 128" "sd_laws (fs demo_full)"
  "candidate demo_full k \<Longrightarrow> k < 51200 \<Longrightarrow> k = 0" "pgdir_kva (pcbs demo_full (frame_owner demo_full 0)) = tbl 2" "pg_uva (vm demo_full) ! 0 = 0x10000"
proof -
  obtain m t where m: "demo_full = demo_ks\<lparr>vm := m\<rparr>" "spaces_ok m {tbl 2}" "cmap_ok 3840 (pgtb_charmap m) (pgtb_ffree m)" "va_pte m (tbl 2) 0x10000 = user_pte 0"
     "pg_charmap m = 2 # replicate 51199 CMAP_SHARED" "pg_ffree m = 51200" "pg_uva m = (replicate 51200 0)[0 := 0x10000]" "clock_pt m = 0"
     "swap_ok m" "spg_ffree m = 0" "tab m (tbl 2) (leaf_pos (VPN 0x10000 2) (VPN 0x10000 1)) = Some t"
    using demo_full_vm by blast
  have vm: "vm demo_full = m" by (simp add: m(1))
  have cm: "pg_charmap m ! k = (if k = 0 then 2 else CMAP_SHARED)" if "k < 51200" for k
    using that by (cases k) (simp_all add: m(5))
  have own: "frame_owner demo_full 0 = 0x20"
    by (simp add: frame_owner_def vm cm m(1)) (simp add: pcb_search_def table_search_def table_index_def demo_ks_def demo_pmem_def Let_def)
  have pg: "pgdir_kva (pcbs demo_full p) = tbl 2" for p by (simp add: m(1) demo_ks_def demo_pmem_def tbl_def Pgtb_base_def)
  show u0: "pg_uva (vm demo_full) ! 0 = 0x10000" by (simp add: vm m(7))
  show "pgdir_kva (pcbs demo_full (frame_owner demo_full 0)) = tbl 2" by (rule pg)
  have op: "owner_pte demo_full 0 = user_pte 0" by (simp add: owner_pte_def pg) (simp add: vm m(7) m(4))
  have v: "VPN 0x10000 2 < 256" by (simp add: VPN_def NORMAL_PAGE_SHIFT_def PPN_BITS_def)
  have "pg_charmap (vm demo_full) ! k = CMAP_SHARED \<or> frame_owner demo_full k \<noteq> NULL \<and> pgdir_kva (pcbs demo_full (frame_owner demo_full k)) \<in> {tbl 2} \<and>
    VPN (pg_uva (vm demo_full) ! k) 2 < 256 \<and> get_attribute (owner_pte demo_full k) PAGE_PRESENT \<noteq> 0 \<and> get_attribute (owner_pte demo_full k) PAGE_XWR \<noteq> 0"
    if "k < 51200" for k
  proof (cases "k = 0")
    case True
    then show ?thesis using own pg op user_pte_rights u0 v by simp
  next
    case False
    then show ?thesis using cm[OF that] by (simp add: vm)
  qed
  moreover have "length (pg_charmap m) = 51200" "length (pg_uva m) = 51200" by (simp_all add: m(5,7))
  ultimately show "evict_ok demo_full {tbl 2}" using m(2) by (auto simp: evict_ok_def vm)
  show "frames_ok (vm demo_full)" using cm \<open>length (pg_charmap m) = 51200\<close> \<open>length (pg_uva m) = 51200\<close>
    by (auto simp: vm frames_ok_def cmap_ok_def m(6) CMAP_FREE_def CMAP_SHARED_def)
  have "candidate demo_full k \<longleftrightarrow> k = 0" if "k < 51200" for k
    using cm[OF that] by (auto simp: candidate_def vm m(1) CMAP_SHARED_def) (simp add: on_other_cpu_def demo_ks_def demo_pmem_def upt_rec)
  then show "candidate demo_full 0" "candidate demo_full k \<Longrightarrow> k < 51200 \<Longrightarrow> k = 0" by auto
  show "sd_laws (fs demo_full)" using demo_sd_laws by (simp add: m(1) demo_ks_def)
  show "51200 \<le> pg_ffree (vm demo_full)" "clock_pt (vm demo_full) < 51200" "swap_ok (vm demo_full)" "spg_ffree (vm demo_full) < 128"
    by (simp_all add: vm m(6,8-10))
qed

text \<open>
  C26: Making room in a full memory. When every frame is shared or mapped by its owner, the scan of \<^verbatim>\<open>swap_to_disk\<close> ends as soon
  as one frame \<open>k0\<close> may be evicted at all, wherever the hand stands and whatever the accessed bits are: it never panics. The
  frame \<open>k\<close> it chooses is not shared and belongs to no process on another CPU; its bytes are in the first free page of the
  swap partition, the other pages of the partition are as before; its owner's entry is no longer valid and holds the number of
  that page; every other entry of every address space has at most lost its accessed bit.
\<close>

theorem swap_evicts:
  assumes "evict_ok s D" and "frames_ok (vm s)" and "51200 \<le> pg_ffree (vm s)" and "clock_pt (vm s) < 51200" and "k0 < 51200" and "candidate s k0"
    and "swap_ok (vm s)" and "spg_ffree (vm s) < 128" and "sd_laws (fs s)"
  shows "\<exists>k s1. swap_to_disk s = Some (k, s1) \<and> k < 51200 \<and> candidate s k \<and> spaces_ok (vm s1) D \<and> umem (vm s1) = umem (vm s) \<and> swap_ok (vm s1) \<and>
    spg_charmap (vm s1) = (spg_charmap (vm s))[spg_ffree (vm s) := pg_charmap (vm s) ! k] \<and>
    (\<forall>j < 128. slot_bytes s1 j = (if j = spg_ffree (vm s) then frame_bytes (frame k) (vm s) else slot_bytes s j)) \<and>
    get_attribute (owner_pte s1 k) PAGE_PRESENT = 0 \<and> get_pfn (owner_pte s1 k) = of_nat (spg_ffree (vm s)) \<and>
    (\<forall>d \<in> D. \<forall>a b c. c < 512 \<longrightarrow> (let va = pg_uva (vm s) ! k in
      d = pgdir_kva (pcbs s (frame_owner s k)) \<and> a = VPN va 2 \<and> b = VPN va 1 \<and> c = VPN va 0 \<or> calm (pte_of (vm s) d a b c) (pte_of (vm s1) d a b c)))"
proof -
  obtain k s1 e where s1: "swap_to_disk s = Some (k, s1)" "k < 51200" "candidate s k" "spaces_ok (vm s1) D" "umem (vm s1) = umem (vm s)" "swap_ok (vm s1)"
    "spg_charmap (vm s1) = (spg_charmap (vm s))[spg_ffree (vm s) := pg_charmap (vm s) ! k]"
    "\<forall>j < 128. slot_bytes s1 j = (if j = spg_ffree (vm s) then frame_bytes (frame k) (vm s) else slot_bytes s j)"
    "owner_pte s1 k = swapped_pte (spg_ffree (vm s)) e"
    "\<forall>d \<in> D. \<forall>a b c. c < 512 \<longrightarrow> (let va = pg_uva (vm s) ! k in
      d = pgdir_kva (pcbs s (frame_owner s k)) \<and> a = VPN va 2 \<and> b = VPN va 1 \<and> c = VPN va 0 \<or> calm (pte_of (vm s) d a b c) (pte_of (vm s1) d a b c))"
    using swap_to_disk_spec[OF assms] by blast
  have "get_attribute (owner_pte s1 k) PAGE_PRESENT = 0" "get_pfn (owner_pte s1 k) = of_nat (spg_ffree (vm s))"
    using swapped_pte_simps[OF assms(8)] by (simp_all add: s1(9))
  then show ?thesis using s1(1-8,10) by blast
qed

theorem swap_evicts_witness:
  "\<exists>s1. swap_to_disk demo_full = Some (0, s1) \<and> slot_bytes s1 (spg_ffree (vm demo_full)) = frame_bytes (frame 0) (vm demo_full)"
proof -
  obtain k s1 where s1: "swap_to_disk demo_full = Some (k, s1)" "k < 51200" "candidate demo_full k"
    "\<forall>j < 128. slot_bytes s1 j = (if j = spg_ffree (vm demo_full) then frame_bytes (frame k) (vm demo_full) else slot_bytes demo_full j)"
    using swap_evicts[OF demo_full_ok(1-4) _ demo_full_ok(5-8)] by auto
  have "k = 0" by (rule demo_full_ok(9)[OF s1(3,2)])
  then show ?thesis using s1(1,4) demo_full_ok(7) by auto
qed

text \<open>
  C27: A page that goes to the swap partition comes back as it was. Let frame \<open>k\<close> be evicted, and let anything happen to
  memory afterwards that leaves the page's entry, the card and the page's slot in the partition alone, so that there is a free
  frame. The page fault on the page then loads exactly the bytes it had into the free frame, the entry points there, is valid
  and gives the same read, write and execute rights as before the eviction, the slot is free again, and the bytes of all other
  frames and all other entries are unchanged.
\<close>

theorem swap_roundtrip:
  fixes s s1 s2 :: "'d kstate"
  defines "va \<equiv> \<lambda>k. pg_uva (vm s) ! k" and "d \<equiv> \<lambda>k. pgdir_kva (pcbs s (frame_owner s k))"
  assumes "evict_ok s D" and "frames_ok (vm s)" and "51200 \<le> pg_ffree (vm s)" and "clock_pt (vm s) < 51200" and "k0 < 51200" and "candidate s k0"
    and "swap_ok (vm s)" and "spg_ffree (vm s) < 128" and "sd_laws (fs s)" and run: "swap_to_disk s = Some (k, s1)"
    and s2: "vm_ok (vm s2) D" "swap_ok (vm s2)" "pg_ffree (vm s2) < 51200" "(word_of_int (pid (cur_pcb s2)) :: u8) \<noteq> CMAP_FREE"
      "fs s2 = fs s1" "swap_start (vm s2) = swap_start (vm s1)" "spg_charmap (vm s2) ! spg_ffree (vm s) \<noteq> CMAP_FREE"
      "tab (vm s2) (d k) (leaf_pos (VPN (va k) 2) (VPN (va k) 1)) = Some t" "va_pte (vm s2) (d k) (va k) = va_pte (vm s1) (d k) (va k)"
  shows "\<exists>m'. swap_from_disk (t + 8 * VPN (va k) 0) (va k) s2 = Some (frame (pg_ffree (vm s2)), s2\<lparr>vm := m'\<rparr>) \<and> vm_ok m' D \<and>
    (\<forall>i < 51200. frame_bytes (frame i) m' = (if i = pg_ffree (vm s2) then frame_bytes (frame k) (vm s) else frame_bytes (frame i) (vm s2))) \<and>
    pa2kva (get_pa (va_pte m' (d k) (va k))) = frame (pg_ffree (vm s2)) \<and> get_attribute (va_pte m' (d k) (va k)) PAGE_PRESENT \<noteq> 0 \<and>
    get_attribute (va_pte m' (d k) (va k)) PAGE_XWR = get_attribute (va_pte (vm s) (d k) (va k)) PAGE_XWR \<and>
    spg_charmap m' = (spg_charmap (vm s2))[spg_ffree (vm s) := CMAP_FREE] \<and>
    (\<forall>d' \<in> D. \<forall>a b c. c < 512 \<longrightarrow> d' = d k \<and> a = VPN (va k) 2 \<and> b = VPN (va k) 1 \<and> c = VPN (va k) 0 \<or> pte_of m' d' a b c = pte_of (vm s2) d' a b c)"
proof -
  let ?j = "spg_ffree (vm s)"
  obtain e where k: "k < 51200" "candidate s k" "s1 = s\<lparr>fs := fs s1, vm := vm s1\<rparr>" "fs s1 = (fs s)\<lparr>dev := dev (fs s1)\<rparr>"
    "pg_charmap (vm s1) = pg_charmap (vm s)" "pg_uva (vm s1) = pg_uva (vm s)" "swap_start (vm s1) = swap_start (vm s)"
    "\<forall>j < 128. slot_bytes s1 j = (if j = ?j then frame_bytes (frame k) (vm s) else slot_bytes s j)"
    "calm (owner_pte s k) e" "owner_pte s1 k = swapped_pte ?j e"
    using swap_to_disk_spec[OF assms(3-11)] run by auto
  have "pcb_search i s1 = pcb_search i s" "pcbs s1 = pcbs s" for i
    by (subst k(3), simp add: pcb_search_def table_search_def table_index_def Let_def)+
  then have op: "owner_pte s1 k = va_pte (vm s1) (d k) (va k)" "owner_pte s k = va_pte (vm s) (d k) (va k)"
    by (simp_all add: owner_pte_def frame_owner_def d_def va_def k(5,6))
  have ns: "pg_charmap (vm s) ! k \<noteq> CMAP_SHARED" using k(2) by (simp add: candidate_def)
  have dD: "d k \<in> D" using evict_okD(2)[OF assms(3) k(1) ns] by (simp add: d_def)
  have e2: "va_pte (vm s2) (d k) (va k) = swapped_pte ?j e" using s2(9) op k(10) by simp
  note sw = swapped_pte_simps[OF assms(10), of e]
  have sd2: "sd_laws (fs s2)" using assms(11) unfolding s2(5) by (subst k(4)) simp
  have sl: "slot_bytes s2 ?j = frame_bytes (frame k) (vm s)" using k(8) assms(10) s2(5,6) by (simp add: slot_bytes_def get_sec_idx_def)
  have pre: "get_attribute (va_pte (vm s2) (d k) (va k)) PAGE_PRESENT = 0" "get_pfn (va_pte (vm s2) (d k) (va k)) = of_nat ?j"
    using sw by (simp_all add: e2)
  obtain m' where m': "swap_from_disk (t + 8 * VPN (va k) 0) (va k) s2 = Some (frame (pg_ffree (vm s2)), s2\<lparr>vm := m'\<rparr>)" "vm_ok m' D"
    "\<forall>d' \<in> D. \<forall>a b c. c < 512 \<longrightarrow> pte_of m' d' a b c = (if d' = d k \<and> a = VPN (va k) 2 \<and> b = VPN (va k) 1 \<and> c = VPN (va k) 0
       then loaded_pte (pg_ffree (vm s2)) (va_pte (vm s2) (d k) (va k)) else pte_of (vm s2) d' a b c)"
    "\<forall>i < 51200. frame_bytes (frame i) m' = (if i = pg_ffree (vm s2) then slot_bytes s2 ?j else frame_bytes (frame i) (vm s2))"
    "spg_charmap m' = (spg_charmap (vm s2))[?j := CMAP_FREE]"
    using swap_from_disk_spec[OF s2(1,2) sd2 dD s2(8,3,4) pre assms(10) s2(7)] by blast
  have v: "va_pte m' (d k) (va k) = loaded_pte (pg_ffree (vm s2)) (swapped_pte ?j e)"
    using m'(3) dD VPN_less[of "va k" 0] e2 by (simp add: va_pte_def)
  note ld = loaded_pte_simps[OF s2(3), of "swapped_pte ?j e"]
  have "get_attribute (va_pte m' (d k) (va k)) PAGE_XWR = get_attribute (va_pte (vm s) (d k) (va k)) PAGE_XWR"
    using ld(3) sw(3) calm_attr(2)[OF k(9)] by (simp add: v op(2))
  moreover have "\<forall>d' \<in> D. \<forall>a b c. c < 512 \<longrightarrow> d' = d k \<and> a = VPN (va k) 2 \<and> b = VPN (va k) 1 \<and> c = VPN (va k) 0 \<or> pte_of m' d' a b c = pte_of (vm s2) d' a b c"
    using m'(3) by (auto split: if_splits)
  ultimately show ?thesis using m'(4) ld(1,2) sl unfolding v by (intro exI[of _ m'] conjI m'(1,2,5)) (simp_all add: v)
qed

theorem swap_roundtrip_witness:
  "\<exists>s1 m t m'. swap_to_disk demo_full = Some (0, s1) \<and> m = (vm s1)\<lparr>pg_charmap := (pg_charmap (vm s1))[5 := CMAP_FREE], pg_ffree := 5\<rparr> \<and>
    swap_from_disk (t + 8 * VPN 0x10000 0) 0x10000 (s1\<lparr>vm := m\<rparr>) = Some (frame 5, s1\<lparr>vm := m'\<rparr>) \<and>
    frame_bytes (frame 5) m' = frame_bytes (frame 0) (vm demo_full)"
proof -
  note dm = demo_full_ok
  obtain k s1 where s1: "swap_to_disk demo_full = Some (k, s1)" "k < 51200" "candidate demo_full k" "s1 = demo_full\<lparr>fs := fs s1, vm := vm s1\<rparr>"
    "spaces_ok (vm s1) {tbl 2}" "\<forall>d \<in> {tbl 2}. \<forall>q. tab (vm s1) d q = tab (vm demo_full) d q" "pg_charmap (vm s1) = pg_charmap (vm demo_full)"
    "pg_uva (vm s1) = pg_uva (vm demo_full)" "pgtb_charmap (vm s1) = pgtb_charmap (vm demo_full)" "pgtb_ffree (vm s1) = pgtb_ffree (vm demo_full)"
    "swap_ok (vm s1)" "spg_charmap (vm s1) = (spg_charmap (vm demo_full))[spg_ffree (vm demo_full) := pg_charmap (vm demo_full) ! k]"
    using swap_to_disk_spec[OF dm(1-4) _ dm(5-8)] by auto
  have k: "k = 0" by (rule dm(9)[OF s1(3,2)])
  obtain m0 t where m0: "demo_full = demo_ks\<lparr>vm := m0\<rparr>" "cmap_ok 3840 (pgtb_charmap m0) (pgtb_ffree m0)" "pg_charmap m0 = 2 # replicate 51199 CMAP_SHARED"
    "pg_uva m0 = (replicate 51200 0)[0 := 0x10000]" "swap_ok m0" "tab m0 (tbl 2) (leaf_pos (VPN 0x10000 2) (VPN 0x10000 1)) = Some t"
    using demo_full_vm by blast
  define m where "m = (vm s1)\<lparr>pg_charmap := (pg_charmap (vm s1))[5 := CMAP_FREE], pg_ffree := 5\<rparr>"
  have cm: "pg_charmap m0 ! k = (if k = 0 then 2 else CMAP_SHARED)" if "k < 51200" for k
    using that by (cases k) (simp_all add: m0(3))
  have sp: "spaces_ok m {tbl 2}" "va_pte m (tbl 2) 0x10000 = va_pte (vm s1) (tbl 2) 0x10000"
    "tab m (tbl 2) (leaf_pos (VPN 0x10000 2) (VPN 0x10000 1)) = Some t"
    using same_spaces[of m "vm s1"] tab_cong[of m "vm s1"] s1(5,6) m0(6) by (simp_all add: m_def va_pte_def m0(1))
  have "frames_ok m" using cm by (auto simp: frames_ok_def cmap_ok_def m_def s1(7,8) m0(1,4) nth_list_update CMAP_FREE_def CMAP_SHARED_def) (simp_all add: m0(3))
  then have ok: "vm_ok m {tbl 2}" using sp(1) m0(2) by (simp add: vm_ok_def m_def s1(9,10) m0(1))
  have sw: "swap_ok m" using s1(11) by (simp add: swap_ok_def m_def)
  have c2: "spg_charmap m ! spg_ffree (vm demo_full) \<noteq> CMAP_FREE"
    using m0(5) dm(7) cm[of 0] by (simp add: m_def s1(12) k m0(1) swap_ok_def cmap_ok_def CMAP_FREE_def)
  have "cur_pcb (s1\<lparr>vm := m\<rparr>) = cur_pcb demo_full" by (subst s1(4)) (simp add: cur_pcb_def cur_cpu_def)
  then have pd: "(word_of_int (pid (cur_pcb (s1\<lparr>vm := m\<rparr>))) :: u8) \<noteq> CMAP_FREE"
    by (simp add: m0(1) cur_pcb_def cur_cpu_def demo_ks_def demo_pmem_def CMAP_FREE_def)
  have "\<exists>m'. swap_from_disk (t + 8 * VPN 0x10000 0) 0x10000 (s1\<lparr>vm := m\<rparr>) = Some (frame 5, s1\<lparr>vm := m'\<rparr>) \<and>
    frame_bytes (frame 5) m' = frame_bytes (frame 0) (vm demo_full)"
    using swap_roundtrip[OF dm(1-4) _ dm(5-8) s1(1)[unfolded k], of "s1\<lparr>vm := m\<rparr>" t] ok sw pd c2 sp
    by (simp add: dm(10,11)) (auto simp: m_def)
  then show ?thesis using s1(1) unfolding k m_def by blast
qed

end
