(* ===== verification/PageFault.thy ===== *)
theory PageFault
  imports Clock
begin

text \<open>
  What a process sees of its memory: the translation of its addresses, the first access to a page, the write to a page that
  is shared after a fork, the access outside of its segment, and growing its heap.
\<close>

section \<open>Translation\<close>

text \<open>The bytes an address space has at a page that is in memory.\<close>

definition page_bytes :: "mm \<Rightarrow> u64 \<Rightarrow> u64 \<Rightarrow> u8 list" where
  "page_bytes m d va = frame_bytes (pa2kva (get_pa (va_pte m d va))) m"

lemma VA_MASK_eq: "VA_MASK = mask 39"
  by (simp add: VA_MASK_def mask_eq_decr_exp push_bit_eq_mult)

lemma VPN_masked: "l \<le> 2 \<Longrightarrow> VPN (va AND VA_MASK) l = VPN va l"
proof -
  assume l: "l \<le> 2"
  have m: "push_bit 9 1 - 1 = (mask 9 :: u64)" by (simp add: mask_eq_decr_exp push_bit_eq_mult)
  show ?thesis unfolding VPN_def VA_MASK_eq NORMAL_PAGE_SHIFT_def PPN_BITS_def m
    by (rule bit_word_eqI) (use l in \<open>auto simp: bit_simps\<close>)
qed

text \<open>
  C28: Translating a user address. For an address of the lower half, \<^verbatim>\<open>va2kva\<close> gives the kernel address of the byte at the
  offset of the address in the frame the entry of the page holds, and 0 if the page is not in memory, without changing
  anything. Every address of one page is translated through one entry.
\<close>

theorem va2kva_translates:
  assumes "spaces_ok m D" and "d \<in> D" and "VPN va 2 < 256" and "leaf_ok (va_pte m d va)"
  shows "va2kva va d m = Some (if get_attribute (va_pte m d va) PAGE_PRESENT \<noteq> 0 then pa2kva (get_pa (va_pte m d va)) + (va AND 4095) else 0)"
proof -
  let ?v = "va AND VA_MASK"
  have v: "VPN ?v 2 = VPN va 2" "VPN ?v 1 = VPN va 1" "VPN ?v 0 = VPN va 0" by (simp_all add: VPN_masked)
  then have e: "va_pte m d ?v = va_pte m d va" by (simp add: va_pte_def)
  have off: "?v AND (of_nat NORMAL_PAGE_SIZE - 1) = va AND 4095"
  proof -
    have m: "(4095 :: u64) = mask 12" "of_nat NORMAL_PAGE_SIZE - 1 = (mask 12 :: u64)" by (simp_all add: mask_eq_decr_exp NORMAL_PAGE_SIZE_def)
    show ?thesis unfolding m VA_MASK_eq by (rule bit_word_eqI) (auto simp: bit_simps)
  qed
  obtain x where x: "va2pte ?v d False 0 m = Some (x, m)"
    "case tab m d (leaf_pos (VPN va 2) (VPN va 1)) of Some t \<Rightarrow> x = t + 8 * VPN va 0 \<and> x AND 7 = 0 \<and> x AND NOT 7 = x \<and> ptes m x = va_pte m d va
     | None \<Rightarrow> x AND 7 \<noteq> 0 \<and> ptes m (x AND NOT 7) = 0 \<and> va_pte m d va = 0"
    using va2pte_find_spec[OF assms(1,2), of ?v 0, unfolded v e, OF assms(3,4)] by blast
  show ?thesis
  proof (cases "tab m d (leaf_pos (VPN va 2) (VPN va 1))")
    case None
    then have "ptes m (x AND NOT 7) = 0" "va_pte m d va = 0" using x(2) by simp_all
    then show ?thesis using x(1) by (simp add: va2kva_def Let_def)
  next
    case (Some t)
    then have "x AND 7 = 0" "ptes m (x AND NOT 7) = va_pte m d va" using x(2) unfolding Some option.case by auto
    then show ?thesis using x(1) by (simp add: va2kva_def Let_def off) (simp add: pa2kva_def)
  qed
qed

theorem va2kva_translates_witness:
  "va2kva 0x10ab4 (tbl 2) (vm demo_full) = Some (frame 0 + 0xab4) \<and> va2kva 0x20000 (tbl 2) demo_mm = Some 0"
proof
  obtain m where m: "demo_full = demo_ks\<lparr>vm := m\<rparr>" "spaces_ok m {tbl 2}" "va_pte m (tbl 2) 0x10000 = user_pte 0"
    using demo_full_vm by blast
  have v: "VPN 0x10ab4 2 = VPN 0x10000 2" "VPN 0x10ab4 1 = VPN 0x10000 1" "VPN 0x10ab4 0 = VPN 0x10000 0" "VPN 0x10ab4 2 < 256" "VPN 0x20000 2 < 256"
    by (simp_all add: VPN_def NORMAL_PAGE_SHIFT_def PPN_BITS_def)
  have e: "va_pte m (tbl 2) 0x10ab4 = user_pte 0" using m(3) unfolding va_pte_def v .
  have "va2kva 0x10ab4 (tbl 2) m = Some (pa2kva (get_pa (user_pte 0)) + (0x10ab4 AND 4095))"
    using va2kva_translates[OF m(2) _ v(4), of "tbl 2"] user_pte_rights by (simp add: e leaf_ok_def)
  then show "va2kva 0x10ab4 (tbl 2) (vm demo_full) = Some (frame 0 + 0xab4)" using user_pte_simps(1)[of 0] by (simp add: m(1))
  show "va2kva 0x20000 (tbl 2) demo_mm = Some 0"
    using va2kva_translates[OF vm_okD(1)[OF demo_vm_ok] _ v(5), of "tbl 2"] by (simp add: demo_pages)
qed

section \<open>Which pages a frame is for\<close>

definition points :: "u64 \<Rightarrow> nat \<Rightarrow> bool" where
  "points e j \<longleftrightarrow> get_attribute e PAGE_PRESENT \<noteq> 0 \<and> pa2kva (get_pa e) = frame j"

definition mapped :: "mm \<Rightarrow> u64 set \<Rightarrow> nat \<Rightarrow> (u64 \<times> u64 \<times> u64 \<times> u64) set" where
  "mapped m D j = {(d, a, b, c). d \<in> D \<and> c < 512 \<and> points (pte_of m d a b c) j}"

text \<open>
  A valid entry has rights and is for a frame that is in use. No address space uses a frame for two pages. A frame with an
  entry that is marked copy-on-write is shared and counts in \<^verbatim>\<open>pg_uva\<close> at least the pages that use it; a frame with an entry
  that is neither marked so nor a shared page has no other user.
\<close>

definition pages_ok :: "mm \<Rightarrow> u64 set \<Rightarrow> bool" where
  "pages_ok m D \<longleftrightarrow> finite D \<and>
     (\<forall>d \<in> D. \<forall>a b c. c < 512 \<longrightarrow> get_attribute (pte_of m d a b c) PAGE_PRESENT \<noteq> 0 \<longrightarrow>
        get_attribute (pte_of m d a b c) PAGE_XWR \<noteq> 0 \<and> (\<exists>j < 51200. points (pte_of m d a b c) j \<and> pg_charmap m ! j \<noteq> CMAP_FREE)) \<and>
     (\<forall>j < 51200. \<forall>(d, a, b, c) \<in> mapped m D j. get_attribute (pte_of m d a b c) PAGE_COW \<noteq> 0 \<longrightarrow>
        card (mapped m D j) \<le> unat (pg_uva m ! j) \<and> pg_uva m ! j \<le> 16) \<and>
     (\<forall>j < 51200. \<forall>(d, a, b, c) \<in> mapped m D j. get_attribute (pte_of m d a b c) PAGE_COW \<noteq> 0 \<longrightarrow> pg_charmap m ! j = CMAP_SHARED) \<and>
     (\<forall>j < 51200. \<forall>(d, a, b, c) \<in> mapped m D j. get_attribute (pte_of m d a b c) PAGE_COW = 0 \<longrightarrow>
        get_attribute (pte_of m d a b c) PAGE_SHARED = 0 \<longrightarrow> mapped m D j = {(d, a, b, c)}) \<and>
     (\<forall>j < 51200. \<forall>(d, a, b, c) \<in> mapped m D j. \<forall>a' b' c'. (d, a', b', c') \<in> mapped m D j \<longrightarrow> a' = a \<and> b' = b \<and> c' = c)"

lemma frame_inj: "j < 51200 \<Longrightarrow> k < 51200 \<Longrightarrow> frame j = frame k \<longleftrightarrow> j = k"
  by (metis add_left_cancel mult_right_cancel unat_frame zero_neq_numeral)

lemma points_unique: "points e j \<Longrightarrow> points e k \<Longrightarrow> j < 51200 \<Longrightarrow> k < 51200 \<Longrightarrow> j = k"
  using frame_inj by (auto simp: points_def)

lemma finite_mapped: "finite D \<Longrightarrow> finite (mapped m D j)"
proof -
  assume "finite D"
  then have "finite (D \<times> (UNIV :: (u64 \<times> u64 \<times> u64) set))" by (rule finite_cartesian_product) (rule finite)
  moreover have "mapped m D j \<subseteq> D \<times> UNIV" by (auto simp: mapped_def)
  ultimately show ?thesis by (rule finite_subset[rotated])
qed

lemma mapped_change:
  assumes "\<And>d' a' b' c'. d' \<in> D \<Longrightarrow> c' < 512 \<Longrightarrow> pte_of m' d' a' b' c' = (if d' = d \<and> a' = a \<and> b' = b \<and> c' = c then e else pte_of m d' a' b' c')"
    and "d \<in> D" and "c < 512"
  shows "mapped m' D j = (if points e j then insert (d, a, b, c) (mapped m D j) else mapped m D j - {(d, a, b, c)})"
  using assms by (auto simp: mapped_def split: if_splits)

lemma pages_okD:
  assumes "pages_ok m D" and "d \<in> D" and "c < 512"
  shows "get_attribute (pte_of m d a b c) PAGE_PRESENT \<noteq> 0 \<Longrightarrow> get_attribute (pte_of m d a b c) PAGE_XWR \<noteq> 0"
    "get_attribute (pte_of m d a b c) PAGE_PRESENT \<noteq> 0 \<Longrightarrow> \<exists>j < 51200. points (pte_of m d a b c) j \<and> pg_charmap m ! j \<noteq> CMAP_FREE"
    "j < 51200 \<Longrightarrow> points (pte_of m d a b c) j \<Longrightarrow> get_attribute (pte_of m d a b c) PAGE_COW \<noteq> 0 \<Longrightarrow>
       card (mapped m D j) \<le> unat (pg_uva m ! j) \<and> pg_uva m ! j \<le> 16"
  using assms unfolding pages_ok_def mapped_def by blast+

lemma pages_okM:
  assumes "pages_ok m D" and "j < 51200" and "(d, a, b, c) \<in> mapped m D j"
  shows "get_attribute (pte_of m d a b c) PAGE_COW \<noteq> 0 \<Longrightarrow> pg_charmap m ! j = CMAP_SHARED"
    "get_attribute (pte_of m d a b c) PAGE_COW = 0 \<Longrightarrow> get_attribute (pte_of m d a b c) PAGE_SHARED = 0 \<Longrightarrow> mapped m D j = {(d, a, b, c)}"
    "(d, a', b', c') \<in> mapped m D j \<Longrightarrow> a' = a \<and> b' = b \<and> c' = c"
proof -
  show "get_attribute (pte_of m d a b c) PAGE_COW \<noteq> 0 \<Longrightarrow> pg_charmap m ! j = CMAP_SHARED" using assms unfolding pages_ok_def by blast
  show "get_attribute (pte_of m d a b c) PAGE_COW = 0 \<Longrightarrow> get_attribute (pte_of m d a b c) PAGE_SHARED = 0 \<Longrightarrow> mapped m D j = {(d, a, b, c)}"
    using assms unfolding pages_ok_def by blast
  show "(d, a', b', c') \<in> mapped m D j \<Longrightarrow> a' = a \<and> b' = b \<and> c' = c" using assms unfolding pages_ok_def by blast
qed

lemma pages_okI:
  assumes "finite D"
    and "\<And>d a b c. d \<in> D \<Longrightarrow> c < 512 \<Longrightarrow> get_attribute (pte_of m d a b c) PAGE_PRESENT \<noteq> 0 \<Longrightarrow>
      get_attribute (pte_of m d a b c) PAGE_XWR \<noteq> 0 \<and> (\<exists>j < 51200. points (pte_of m d a b c) j \<and> pg_charmap m ! j \<noteq> CMAP_FREE)"
    and "\<And>j d a b c. j < 51200 \<Longrightarrow> (d, a, b, c) \<in> mapped m D j \<Longrightarrow> get_attribute (pte_of m d a b c) PAGE_COW \<noteq> 0 \<Longrightarrow>
      card (mapped m D j) \<le> unat (pg_uva m ! j) \<and> pg_uva m ! j \<le> 16 \<and> pg_charmap m ! j = CMAP_SHARED"
    and "\<And>j d a b c. j < 51200 \<Longrightarrow> (d, a, b, c) \<in> mapped m D j \<Longrightarrow> get_attribute (pte_of m d a b c) PAGE_COW = 0 \<Longrightarrow>
      get_attribute (pte_of m d a b c) PAGE_SHARED = 0 \<Longrightarrow> mapped m D j = {(d, a, b, c)}"
    and "\<And>j d a b c a' b' c'. j < 51200 \<Longrightarrow> (d, a, b, c) \<in> mapped m D j \<Longrightarrow> (d, a', b', c') \<in> mapped m D j \<Longrightarrow> a' = a \<and> b' = b \<and> c' = c"
  shows "pages_ok m D"
  unfolding pages_ok_def
  apply (intro conjI)
  subgoal by (rule assms(1))
  subgoal using assms(2) by blast
  subgoal using assms(3) by blast
  subgoal using assms(3) by blast
  subgoal using assms(4) by blast
  subgoal using assms(5) by blast
  done

lemma pages_leaf_ok: "pages_ok m D \<Longrightarrow> d \<in> D \<Longrightarrow> leaf_ok (va_pte m d va)"
  using pages_okD(1)[OF _ _ VPN_less] by (auto simp: va_pte_def leaf_ok_def)

lemma free_not_mapped: "pages_ok m D \<Longrightarrow> k < 51200 \<Longrightarrow> pg_charmap m ! k = CMAP_FREE \<Longrightarrow> mapped m D k = {}"
proof -
  assume a: "pages_ok m D" "k < 51200" "pg_charmap m ! k = CMAP_FREE"
  have False if "(d, x, y, c) \<in> mapped m D k" for d x y c
  proof -
    have t: "d \<in> D" "c < 512" "points (pte_of m d x y c) k" using that by (auto simp: mapped_def)
    then have "get_attribute (pte_of m d x y c) PAGE_PRESENT \<noteq> 0" by (simp add: points_def)
    then obtain j where "j < 51200" "points (pte_of m d x y c) j" "pg_charmap m ! j \<noteq> CMAP_FREE"
      using pages_okD(2)[OF a(1) t(1,2)] by blast
    then show False using points_unique t(3) a(2,3) by blast
  qed
  then show ?thesis by auto
qed

section \<open>The page-fault handler\<close>

lemma VPN_user: "VPN va 2 < 256 \<Longrightarrow> va < KVA_MIN"
proof (rule ccontr)
  assume a: "VPN va 2 < 256" and "\<not> va < KVA_MIN"
  then have "unat KVA_MIN \<le> unat va" by (simp only: not_less word_le_nat_alt)
  moreover have "unat va < 2 ^ LENGTH(64)" by (rule unsigned_less)
  then have "unat va < 2 ^ 64" by simp
  ultimately obtain r where r: "unat va = r + 17179868928 * 2 ^ 30" "r < 2 ^ 38"
    using that[of "unat va - 17179868928 * 2 ^ 30"] by (simp add: KVA_MIN_def)
  have q: "r div 2 ^ 30 < 256" using r(2) by (intro less_mult_imp_div_less) simp
  have "unat va div 2 ^ 30 = r div 2 ^ 30 + 17179868928" unfolding r(1) using div_mult_self1[of "2 ^ 30" r 17179868928] by simp
  also have "\<dots> = (r div 2 ^ 30 + 256) + 33554431 * 512" by simp
  finally have "unat va div 2 ^ 30 mod 512 = (r div 2 ^ 30 + 256) mod 512" by (simp only: mod_mult_self1)
  then have "unat va div 2 ^ 30 mod 512 \<ge> 256" using q by (simp only:) (simp add: mod_less)
  moreover have "unat (VPN va 2) = unat va div 2 ^ 30 mod 512"
    by (simp add: VPN_def NORMAL_PAGE_SHIFT_def PPN_BITS_def push_bit_eq_mult unat_and_low drop_bit_eq_div unat_div)
  ultimately show False using a by (simp add: word_less_nat_alt)
qed

lemma handle_user_fault:
  assumes "spaces_ok (vm s) D" and "pgdir_kva (cur_pcb s) \<in> D" and "VPN va 2 < 256" and "leaf_ok (va_pte (vm s) (pgdir_kva (cur_pcb s)) va)"
    and "2 \<le> pid (cur_pcb s)" and "pf_ymr (pf (pf_count va s)) < 3"
  shows "\<exists>x. handle_pagefault va scause s =
      (if in_segment va (cur_pcb s) then do { s1 \<leftarrow> fix_page va scause x (pf_count va s); Some (True, s1) } else Some (False, pf_count va s)) \<and>
    ptes (vm s) x = va_pte (vm s) (pgdir_kva (cur_pcb s)) va \<and>
    (va_pte (vm s) (pgdir_kva (cur_pcb s)) va \<noteq> 0 \<longrightarrow>
      (\<exists>t. tab (vm s) (pgdir_kva (cur_pcb s)) (leaf_pos (VPN va 2) (VPN va 1)) = Some t \<and> x = t + 8 * VPN va 0))"
proof -
  let ?d = "pgdir_kva (cur_pcb s)"
  obtain x where x: "va2pte va ?d False 0 (vm s) = Some (x, vm s)"
    "case tab (vm s) ?d (leaf_pos (VPN va 2) (VPN va 1)) of Some t \<Rightarrow> x = t + 8 * VPN va 0 \<and> x AND 7 = 0 \<and> x AND NOT 7 = x \<and> ptes (vm s) x = va_pte (vm s) ?d va
     | None \<Rightarrow> x AND 7 \<noteq> 0 \<and> ptes (vm s) (x AND NOT 7) = 0 \<and> va_pte (vm s) ?d va = 0"
    using va2pte_find_spec[OF assms(1-4), of 0] by blast
  have same: "vm (pf_count va s) = vm s" "cur_pcb (pf_count va s) = cur_pcb s" "csr_sstatus (pf_count va s) = csr_sstatus s"
    by (simp_all add: pf_count_def cur_pcb_def cur_cpu_def Let_def)
  have "\<not> KVA_MIN \<le> va" "\<not> 3 \<le> pf_ymr (pf (pf_count va s))" using VPN_user[OF assms(3)] assms(6) by (simp_all only: not_le)
  then have h: "handle_pagefault va scause s =
      (if in_segment va (cur_pcb s) then do { s1 \<leftarrow> fix_page va scause (x AND NOT 7) (pf_count va s); Some (True, s1) } else Some (False, pf_count va s))"
    using x(1) assms(5) by (simp add: handle_pagefault_def same NCPU_def Let_def)
  show ?thesis
  proof (cases "tab (vm s) ?d (leaf_pos (VPN va 2) (VPN va 1))")
    case None
    then show ?thesis using x(2) h by (intro exI[of _ "x AND NOT 7"]) simp
  next
    case (Some t)
    then have "x = t + 8 * VPN va 0" "x AND NOT 7 = x" "ptes (vm s) x = va_pte (vm s) ?d va" using x(2) unfolding Some option.case by blast+
    then show ?thesis using Some h by (intro exI[of _ x]) simp
  qed
qed

section \<open>Entries that change\<close>

definition marked :: "u64 \<Rightarrow> u64" where
  "marked e = set_attribute e (PAGE_ACCESSED OR PAGE_DIRTY)"

lemma marked_simps [simp]:
  "get_pa (marked e) = get_pa e" "get_attribute (marked e) PAGE_PRESENT = get_attribute e PAGE_PRESENT"
  "get_attribute (marked e) PAGE_XWR = get_attribute e PAGE_XWR" "get_attribute (marked e) PAGE_COW = get_attribute e PAGE_COW"
  "get_attribute (marked e) PAGE_WRITE = get_attribute e PAGE_WRITE" "get_attribute (marked e) PAGE_SHARED = get_attribute e PAGE_SHARED" "points (marked e) j = points e j"
  by (simp_all add: marked_def points_def attr_set_attribute)
    (simp_all add: get_attribute_def PAGE_XWR_def pgattr PAGE_ATTRIBUTE_MASK_def mask_eq_exp_minus_1)

lemma xwr_write: "get_attribute e PAGE_WRITE \<noteq> 0 \<Longrightarrow> get_attribute e PAGE_XWR \<noteq> 0"
proof -
  have "PAGE_XWR AND PAGE_WRITE = PAGE_WRITE" by (simp add: PAGE_XWR_def pgattr)
  then have "get_attribute e PAGE_XWR AND PAGE_WRITE = get_attribute e PAGE_WRITE"
    by (metis (no_types, lifting) and.assoc and.commute get_attribute_def)
  then show "get_attribute e PAGE_WRITE \<noteq> 0 \<Longrightarrow> get_attribute e PAGE_XWR \<noteq> 0" by auto
qed

lemma user_pte_cow: "get_attribute (user_pte k) PAGE_COW = 0"
  by (simp add: user_pte_def attr_set_attribute) (simp add: get_attribute_def PAGE_VURWXAD_def pgattr PAGE_ATTRIBUTE_MASK_def mask_eq_exp_minus_1)

lemma user_pte_points: "k < 51200 \<Longrightarrow> points (user_pte k) k"
  using user_pte_simps(1) user_pte_rights(1) by (simp add: points_def)

lemma pages_mark:
  assumes "pages_ok m D"
    and "\<And>d' a' b' c'. d' \<in> D \<Longrightarrow> c' < 512 \<Longrightarrow> pte_of m' d' a' b' c' = (if d' = d \<and> a' = a \<and> b' = b \<and> c' = c then marked (pte_of m d a b c) else pte_of m d' a' b' c')"
    and "pg_charmap m' = pg_charmap m" "pg_uva m' = pg_uva m"
  shows "pages_ok m' D"
proof -
  have at: "get_attribute (pte_of m' d' a' b' c') PAGE_PRESENT = get_attribute (pte_of m d' a' b' c') PAGE_PRESENT"
    "get_attribute (pte_of m' d' a' b' c') PAGE_XWR = get_attribute (pte_of m d' a' b' c') PAGE_XWR"
    "get_attribute (pte_of m' d' a' b' c') PAGE_COW = get_attribute (pte_of m d' a' b' c') PAGE_COW"
    "get_attribute (pte_of m' d' a' b' c') PAGE_SHARED = get_attribute (pte_of m d' a' b' c') PAGE_SHARED"
    "points (pte_of m' d' a' b' c') j = points (pte_of m d' a' b' c') j" if "d' \<in> D" "c' < 512" for d' a' b' c' j
    using assms(2)[OF that] by simp_all
  then have mp: "mapped m' D j = mapped m D j" for j by (auto simp: mapped_def)
  have in_D: "d' \<in> D" "c' < 512" if "(d', a', b', c') \<in> mapped m D j" for d' a' b' c' j using that by (simp_all add: mapped_def)
  show ?thesis
  proof (rule pages_okI)
    show "finite D" using assms(1) by (simp add: pages_ok_def)
  next
    fix d' a' b' c' assume dc: "d' \<in> D" "c' < (512 :: u64)" "get_attribute (pte_of m' d' a' b' c') PAGE_PRESENT \<noteq> 0"
    then show "get_attribute (pte_of m' d' a' b' c') PAGE_XWR \<noteq> 0 \<and> (\<exists>j < 51200. points (pte_of m' d' a' b' c') j \<and> pg_charmap m' ! j \<noteq> CMAP_FREE)"
      using pages_okD(1,2)[OF assms(1) dc(1,2)] unfolding at[OF dc(1,2)] assms(3) by blast
  next
    fix j d' a' b' c' assume j: "j < 51200" "(d', a', b', c') \<in> mapped m' D j" "get_attribute (pte_of m' d' a' b' c') PAGE_COW \<noteq> 0"
    note y = j(2)[unfolded mp]
    have "points (pte_of m d' a' b' c') j" using y by (simp add: mapped_def)
    then show "card (mapped m' D j) \<le> unat (pg_uva m' ! j) \<and> pg_uva m' ! j \<le> 16 \<and> pg_charmap m' ! j = CMAP_SHARED"
      using j(3) pages_okM(1)[OF assms(1) j(1) y] pages_okD(3)[OF assms(1) in_D[OF y] j(1)] unfolding at[OF in_D[OF y]] mp assms(3,4) by blast
  next
    fix j d' a' b' c' assume j: "j < 51200" "(d', a', b', c') \<in> mapped m' D j" "get_attribute (pte_of m' d' a' b' c') PAGE_COW = 0" "get_attribute (pte_of m' d' a' b' c') PAGE_SHARED = 0"
    note y = j(2)[unfolded mp]
    show "mapped m' D j = {(d', a', b', c')}" using j(3,4) pages_okM(2)[OF assms(1) j(1) y] unfolding at[OF in_D[OF y]] mp by blast
  next
    fix j d' a' b' c' x y z assume j: "j < 51200" "(d', a', b', c') \<in> mapped m' D j" "(d', x, y, z) \<in> mapped m' D j"
    show "x = a' \<and> y = b' \<and> z = c'" by (rule pages_okM(3)[OF assms(1) j(1) j(2,3)[unfolded mp]])
  qed
qed

lemma pages_retarget:
  assumes ok: "pages_ok m D"
    and ch: "\<And>d' a' b' c'. d' \<in> D \<Longrightarrow> c' < 512 \<Longrightarrow> pte_of m' d' a' b' c' = (if d' = d \<and> a' = a \<and> b' = b \<and> c' = c then e else pte_of m d' a' b' c')"
    and d: "d \<in> D" "c < 512" and k: "k < 51200" "pg_charmap m ! k = CMAP_FREE" "pg_charmap m' ! k \<noteq> CMAP_FREE"
    and e: "points e k" "get_attribute e PAGE_XWR \<noteq> 0" "get_attribute e PAGE_COW = 0"
    and cm: "\<And>j. j < 51200 \<Longrightarrow> j \<noteq> k \<Longrightarrow> mapped m D j - {(d, a, b, c)} \<noteq> {} \<Longrightarrow> pg_charmap m' ! j = pg_charmap m ! j"
    and uv: "\<And>j. j < 51200 \<Longrightarrow> j \<noteq> k \<Longrightarrow> pg_uva m' ! j = pg_uva m ! j \<or>
      (d, a, b, c) \<in> mapped m D j \<and> pg_uva m' ! j = pg_uva m ! j - 1 \<and> pg_uva m ! j \<noteq> 0"
  shows "pages_ok m' D"
proof -
  let ?x = "(d, a, b, c)"
  note mc = mapped_change[OF ch d]
  have fin: "finite (mapped m D j)" for j using ok finite_mapped by (auto simp: pages_ok_def)
  have n: "\<not> points e j" if "j < 51200" "j \<noteq> k" for j using points_unique e(1) k(1) that by blast
  have valid: "get_attribute (pte_of m' d' a' b' c') PAGE_XWR \<noteq> 0 \<and> (\<exists>j < 51200. points (pte_of m' d' a' b' c') j \<and> pg_charmap m' ! j \<noteq> CMAP_FREE)"
    if dc: "d' \<in> D" "c' < 512" and p: "get_attribute (pte_of m' d' a' b' c') PAGE_PRESENT \<noteq> 0" for d' a' b' c'
  proof (cases "(d', a', b', c') = ?x")
    case True
    then have "pte_of m' d' a' b' c' = e" using ch[OF dc] by simp
    then show ?thesis using e k by auto
  next
    case False
    then have s: "pte_of m' d' a' b' c' = pte_of m d' a' b' c'" using ch[OF dc] by auto
    obtain j where j: "j < 51200" "points (pte_of m d' a' b' c') j" "pg_charmap m ! j \<noteq> CMAP_FREE" using pages_okD(2)[OF ok dc] p s by auto
    have jk: "j \<noteq> k" using j(3) k(2) by auto
    have "(d', a', b', c') \<in> mapped m D j - {?x}" using dc j(2) False by (simp add: mapped_def)
    then have "pg_charmap m' ! j = pg_charmap m ! j" using cm[OF j(1) jk] by blast
    then show ?thesis using j pages_okD(1)[OF ok dc] p s by auto
  qed
  have other: "mapped m' D j = mapped m D j - {?x} \<and> pte_of m' d' a' b' c' = pte_of m d' a' b' c' \<and> (d', a', b', c') \<in> mapped m D j \<and>
      pg_charmap m' ! j = pg_charmap m ! j" if j: "j < 51200" "j \<noteq> k" and y: "(d', a', b', c') \<in> mapped m' D j" for j d' a' b' c'
  proof -
    have m': "mapped m' D j = mapped m D j - {?x}" using mc n[OF j] by simp
    have y1: "(d', a', b', c') \<in> mapped m D j - {?x}" using y by (simp only: m')
    then have "d' \<in> D" "c' < 512" "\<not> (d' = d \<and> a' = a \<and> b' = b \<and> c' = c)" by (simp_all add: mapped_def)
    then have "pte_of m' d' a' b' c' = pte_of m d' a' b' c'" by (simp only: ch if_False)
    then show ?thesis using m' y1 cm[OF j] by blast
  qed
  have at_k: "mapped m' D k = {?x}" using mc e(1) free_not_mapped[OF ok k(1,2)] by simp
  have at_x: "pte_of m' d a b c = e" using ch d by simp
  show ?thesis
  proof (rule pages_okI)
    show "finite D" using ok by (simp add: pages_ok_def)
  next
    fix d' a' b' c' assume "d' \<in> D" "c' < (512 :: u64)" "get_attribute (pte_of m' d' a' b' c') PAGE_PRESENT \<noteq> 0"
    then show "get_attribute (pte_of m' d' a' b' c') PAGE_XWR \<noteq> 0 \<and> (\<exists>j < 51200. points (pte_of m' d' a' b' c') j \<and> pg_charmap m' ! j \<noteq> CMAP_FREE)"
      by (rule valid)
  next
    fix j d' a' b' c' assume j: "j < 51200" and y: "(d', a', b', c') \<in> mapped m' D j" and cow: "get_attribute (pte_of m' d' a' b' c') PAGE_COW \<noteq> 0"
    have jk: "j \<noteq> k" using y at_k at_x cow e(3) by auto
    have m': "mapped m' D j = mapped m D j - {?x}" and y1: "pte_of m' d' a' b' c' = pte_of m d' a' b' c'" "(d', a', b', c') \<in> mapped m D j"
      "pg_charmap m' ! j = pg_charmap m ! j" using other[OF j jk y] by blast+
    have yd: "d' \<in> D" "c' < 512" "points (pte_of m d' a' b' c') j" using y1(2) by (simp_all add: mapped_def)
    have c1: "card (mapped m D j) \<le> unat (pg_uva m ! j)" "pg_uva m ! j \<le> 16" using pages_okD(3)[OF ok yd(1,2) j yd(3)] cow y1(1) by simp_all
    have sh: "pg_charmap m' ! j = CMAP_SHARED" using pages_okM(1)[OF ok j y1(2)] cow y1(1,3) by simp
    from uv[OF j jk] have "card (mapped m' D j) \<le> unat (pg_uva m' ! j) \<and> pg_uva m' ! j \<le> 16"
    proof (elim disjE conjE)
      assume "pg_uva m' ! j = pg_uva m ! j"
      then show ?thesis using c1 card_Diff1_le[of "mapped m D j" ?x] unfolding m' by simp
    next
      assume a: "?x \<in> mapped m D j" "pg_uva m' ! j = pg_uva m ! j - 1" "pg_uva m ! j \<noteq> 0"
      have "unat (pg_uva m' ! j) = unat (pg_uva m ! j) - 1" using a(2,3) by (simp add: unat_minus_one)
      moreover have "card (mapped m' D j) = card (mapped m D j) - 1" using a(1) fin unfolding m' by (intro card_Diff_singleton)
      moreover have "pg_uva m' ! j \<le> 16" using calculation(1) c1(2) by (simp add: word_le_nat_alt)
      ultimately show ?thesis using c1 by simp
    qed
    then show "card (mapped m' D j) \<le> unat (pg_uva m' ! j) \<and> pg_uva m' ! j \<le> 16 \<and> pg_charmap m' ! j = CMAP_SHARED" using sh by blast
  next
    fix j d' a' b' c' assume j: "j < 51200" and y: "(d', a', b', c') \<in> mapped m' D j" and q: "get_attribute (pte_of m' d' a' b' c') PAGE_COW = 0"
      "get_attribute (pte_of m' d' a' b' c') PAGE_SHARED = 0"
    show "mapped m' D j = {(d', a', b', c')}"
    proof (cases "j = k")
      case True
      then show ?thesis using y at_k by simp
    next
      case False
      have o: "mapped m' D j = mapped m D j - {?x}" "pte_of m' d' a' b' c' = pte_of m d' a' b' c'" "(d', a', b', c') \<in> mapped m D j"
        using other[OF j False y] by blast+
      have s: "mapped m D j = {(d', a', b', c')}" using pages_okM(2)[OF ok j o(3)] q unfolding o(2) by blast
      show ?thesis using y unfolding o(1) s by blast
    qed
  next
    fix j d' a' b' c' x y z assume j: "j < 51200" and y: "(d', a', b', c') \<in> mapped m' D j" "(d', x, y, z) \<in> mapped m' D j"
    show "x = a' \<and> y = b' \<and> z = c'"
    proof (cases "j = k")
      case True
      then show ?thesis using y at_k by simp
    next
      case False
      have o: "(d', a', b', c') \<in> mapped m D j" using other[OF j False y(1)] by blast
      have "(d', x, y, z) \<in> mapped m D j" using other[OF j False y(2)] by blast
      then show ?thesis by (rule pages_okM(3)[OF ok j o])
    qed
  qed
qed

section \<open>What a page fault does\<close>

definition same_page :: "u64 \<Rightarrow> u64 \<Rightarrow> bool" where
  "same_page va va' \<longleftrightarrow> VPN va 2 = VPN va' 2 \<and> VPN va 1 = VPN va' 1 \<and> VPN va 0 = VPN va' 0"

definition repaired :: "u64 set \<Rightarrow> u64 \<Rightarrow> u64 \<Rightarrow> u64 \<Rightarrow> mm \<Rightarrow> mm \<Rightarrow> bool" where
  "repaired D d va scause m m' \<longleftrightarrow> vm_ok m' D \<and> pages_ok m' D \<and> get_attribute (va_pte m' d va) PAGE_PRESENT \<noteq> 0 \<and>
     (va_pte m d va \<noteq> 0 \<longrightarrow> page_bytes m' d va = page_bytes m d va) \<and>
     (scause = EXC_STORE_PAGE_FAULT \<longrightarrow> get_attribute (va_pte m d va) PAGE_COW \<noteq> 0 \<longrightarrow> mapped m' D (pg_ffree m) = {(d, VPN va 2, VPN va 1, VPN va 0)} \<and>
        get_attribute (va_pte m' d va) PAGE_WRITE \<noteq> 0 \<and> get_attribute (va_pte m' d va) PAGE_COW = 0) \<and>
     (\<forall>d' \<in> D. \<forall>va'. \<not> (d' = d \<and> same_page va va') \<longrightarrow> va_pte m' d' va' = va_pte m d' va' \<and>
        (get_attribute (va_pte m d' va') PAGE_PRESENT \<noteq> 0 \<longrightarrow> page_bytes m' d' va' = page_bytes m d' va'))"

lemma same_others:
  assumes "\<And>d' a' b' c'. d' \<in> D \<Longrightarrow> c' < 512 \<Longrightarrow>
      pte_of m' d' a' b' c' = (if d' = d \<and> a' = VPN va 2 \<and> b' = VPN va 1 \<and> c' = VPN va 0 then e else pte_of m d' a' b' c')"
    and "\<And>i. i < 51200 \<Longrightarrow> pg_charmap m ! i \<noteq> CMAP_FREE \<Longrightarrow> frame_bytes (frame i) m' = frame_bytes (frame i) m" and "pages_ok m D"
  shows "\<forall>d' \<in> D. \<forall>va'. \<not> (d' = d \<and> same_page va va') \<longrightarrow> va_pte m' d' va' = va_pte m d' va' \<and>
        (get_attribute (va_pte m d' va') PAGE_PRESENT \<noteq> 0 \<longrightarrow> page_bytes m' d' va' = page_bytes m d' va')"
proof (intro ballI allI impI)
  fix d' va' assume d': "d' \<in> D" and n: "\<not> (d' = d \<and> same_page va va')"
  have v: "va_pte m' d' va' = va_pte m d' va'" using assms(1)[OF d' VPN_less] n by (auto simp: va_pte_def same_page_def)
  moreover have "page_bytes m' d' va' = page_bytes m d' va'" if p: "get_attribute (va_pte m d' va') PAGE_PRESENT \<noteq> 0"
  proof -
    obtain j where "j < 51200" "points (va_pte m d' va') j" "pg_charmap m ! j \<noteq> CMAP_FREE"
      using pages_okD(2)[OF assms(3) d' VPN_less] p unfolding va_pte_def by blast
    then show ?thesis using assms(2) v by (simp add: page_bytes_def points_def)
  qed
  ultimately show "va_pte m' d' va' = va_pte m d' va' \<and> (get_attribute (va_pte m d' va') PAGE_PRESENT \<noteq> 0 \<longrightarrow> page_bytes m' d' va' = page_bytes m d' va')"
    by blast
qed

lemma free_frame: "vm_ok m D \<Longrightarrow> pg_ffree m < 51200 \<Longrightarrow> pg_charmap m ! pg_ffree m = CMAP_FREE"
  by (simp add: vm_ok_def frames_ok_def cmap_ok_def)

lemma fix_touch:
  assumes ok: "vm_ok (vm s) D" "pages_ok (vm s) D" and d: "pgdir_kva (cur_pcb s) \<in> D" and va: "VPN va 2 < 256" and f: "2 \<le> free_count (pgtb_charmap (vm s))"
    and pd: "(word_of_int (pid (cur_pcb s)) :: u8) \<noteq> CMAP_FREE" and k: "pg_ffree (vm s) < 51200"
    and z: "va_pte (vm s) (pgdir_kva (cur_pcb s)) va = 0" and x: "ptes (vm s) x = 0"
  shows "\<exists>m'. fix_page va scause x s = Some (s\<lparr>vm := m'\<rparr>) \<and> repaired D (pgdir_kva (cur_pcb s)) va scause (vm s) m'"
proof -
  let ?d = "pgdir_kva (cur_pcb s)" and ?k = "pg_ffree (vm s)"
  obtain m' where m': "alloc_page_helper va ?d (pid (cur_pcb s)) s = Some (frame ?k, s\<lparr>vm := m'\<rparr>)" "vm_ok m' D"
    "\<And>d' a b c. d' \<in> D \<Longrightarrow> c < 512 \<Longrightarrow> pte_of m' d' a b c =
      (if d' = ?d \<and> a = VPN va 2 \<and> b = VPN va 1 \<and> c = VPN va 0 then user_pte ?k else pte_of (vm s) d' a b c)"
    "umem m' = umem (vm s)" "pg_charmap m' = (pg_charmap (vm s))[?k := word_of_int (pid (cur_pcb s))]" "pg_uva m' = (pg_uva (vm s))[?k := page_of va]"
    using alloc_page_helper_spec[OF ok(1) d va f pd z k] by blast
  note fk = free_frame[OF ok(1) k]
  have l: "length (pg_charmap (vm s)) = 51200" using ok(1) by (simp add: vm_ok_def frames_ok_def cmap_ok_def)
  have "pages_ok m' D"
    by (rule pages_retarget[OF ok(2) m'(3) d VPN_less k fk _ user_pte_points[OF k] user_pte_rights(2) user_pte_cow]) (use pd l k in \<open>simp_all add: m'(5,6)\<close>)
  moreover have "va_pte m' ?d va = user_pte ?k" using m'(3)[OF d VPN_less] by (simp add: va_pte_def)
  moreover note same_others[OF m'(3) frame_bytes_umem[OF m'(4)] ok(2)]
  ultimately have "repaired D ?d va scause (vm s) m'" using m'(2) user_pte_rights(1) z by (simp add: repaired_def)
  then show ?thesis using m'(1) x by (intro exI[of _ m']) (simp add: fix_page_def)
qed

lemma mark_write:
  assumes ok: "vm_ok m D" "pages_ok m D" and d: "d \<in> D" and t: "tab m d (leaf_pos (VPN va 2) (VPN va 1)) = Some t"
  defines "m' \<equiv> set_pte (t + 8 * VPN va 0) (marked (ptes m (t + 8 * VPN va 0))) m"
  shows "vm_ok m' D" "pages_ok m' D" "d' \<in> D \<Longrightarrow> c' < 512 \<Longrightarrow> pte_of m' d' a' b' c' =
      (if d' = d \<and> a' = VPN va 2 \<and> b' = VPN va 1 \<and> c' = VPN va 0 then marked (va_pte m d va) else pte_of m d' a' b' c')"
    "frame_bytes a m' = frame_bytes a m"
proof -
  have e: "ptes m (t + 8 * VPN va 0) = va_pte m d va" using t by (simp add: va_pte_def pte_of_def)
  note w = pte_write[OF vm_okD(1)[OF ok(1)] d t VPN_less[of va 0], where e = "marked (va_pte m d va)"]
  show ch: "pte_of m' d' a' b' c' =
      (if d' = d \<and> a' = VPN va 2 \<and> b' = VPN va 1 \<and> c' = VPN va 0 then marked (va_pte m d va) else pte_of m d' a' b' c')" if "d' \<in> D" "c' < 512" for d' a' b' c'
    using w(3)[OF that] by (simp add: m'_def e)
  show "vm_ok m' D" using ok(1) w(2) by (simp add: vm_ok_def m'_def e) (simp add: set_pte_def frames_ok_def)
  show "pages_ok m' D" by (rule pages_mark[OF ok(2) ch[unfolded va_pte_def]]) (simp_all add: m'_def set_pte_def)
  show "frame_bytes a m' = frame_bytes a m" by (rule frame_bytes_umem) (simp add: m'_def set_pte_def)
qed

lemma fix_mark:
  assumes ok: "vm_ok (vm s) D" "pages_ok (vm s) D" and d: "d \<in> D" and t: "tab (vm s) d (leaf_pos (VPN va 2) (VPN va 1)) = Some t"
    and p: "get_attribute (va_pte (vm s) d va) PAGE_PRESENT \<noteq> 0"
    and nc: "\<not> (get_attribute (va_pte (vm s) d va) PAGE_COW \<noteq> 0 \<and> scause = EXC_STORE_PAGE_FAULT)"
  shows "\<exists>m'. fix_page va scause (t + 8 * VPN va 0) s = Some (s\<lparr>vm := m'\<rparr>) \<and> repaired D d va scause (vm s) m'"
proof -
  let ?x = "t + 8 * VPN va 0" and ?e = "va_pte (vm s) d va"
  let ?m = "set_pte ?x (marked (ptes (vm s) ?x)) (vm s)"
  have e: "ptes (vm s) ?x = ?e" using t by (simp add: va_pte_def pte_of_def)
  note w = mark_write[OF ok d t]
  have v: "va_pte ?m d va = marked ?e" using w(3)[OF d VPN_less] by (simp add: va_pte_def)
  have "repaired D d va scause (vm s) ?m"
    using w(1,2) same_others[OF w(3) w(4) ok(2)] p nc v w(4) by (auto simp: repaired_def page_bytes_def)
  moreover have "fix_page va scause ?x s = Some (s\<lparr>vm := ?m\<rparr>)"
    using p nc e by (auto simp: fix_page_def upd_vm_def marked_def)
  ultimately show ?thesis by blast
qed

lemma fix_cow:
  assumes ok: "vm_ok (vm s) D" "pages_ok (vm s) D" and d: "d \<in> D" and t: "tab (vm s) d (leaf_pos (VPN va 2) (VPN va 1)) = Some t"
    and k: "pg_ffree (vm s) < 51200" and pd: "(word_of_int (pid (cur_pcb s)) :: u8) \<noteq> CMAP_FREE"
    and p: "get_attribute (va_pte (vm s) d va) PAGE_PRESENT \<noteq> 0" and c: "get_attribute (va_pte (vm s) d va) PAGE_COW \<noteq> 0" "scause = EXC_STORE_PAGE_FAULT"
  shows "\<exists>m'. fix_page va scause (t + 8 * VPN va 0) s = Some (s\<lparr>vm := m'\<rparr>) \<and> repaired D d va scause (vm s) m'"
proof -
  let ?x = "t + 8 * VPN va 0" and ?e = "va_pte (vm s) d va" and ?k = "pg_ffree (vm s)" and ?i = "pid (cur_pcb s)"
  have e: "ptes (vm s) ?x = ?e" using t by (simp add: va_pte_def pte_of_def)
  have "\<exists>j < 51200. points ?e j \<and> pg_charmap (vm s) ! j \<noteq> CMAP_FREE" using pages_okD(2)[OF ok(2) d VPN_less] p unfolding va_pte_def by blast
  then obtain j where j: "j < 51200" "points ?e j" "pg_charmap (vm s) ! j \<noteq> CMAP_FREE" by blast
  have jf: "pa2kva (get_pa ?e) = frame j" using j(2) by (simp add: points_def)
  have xj: "(d, VPN va 2, VPN va 1, VPN va 0) \<in> mapped (vm s) D j" using d j(2) VPN_less by (simp add: mapped_def va_pte_def)
  have uj: "card (mapped (vm s) D j) \<le> unat (pg_uva (vm s) ! j)" "pg_uva (vm s) ! j \<le> 16"
    using pages_okD(3)[OF ok(2) d VPN_less j(1)] j(2) c(1) unfolding va_pte_def by blast+
  have fin: "finite (mapped (vm s) D j)" using ok(2) finite_mapped by (auto simp: pages_ok_def)
  have "card (mapped (vm s) D j) > 0" using xj fin by (auto simp: card_gt_0_iff)
  then have u0: "pg_uva (vm s) ! j \<noteq> 0" using uj(1) by auto
  note fk = free_frame[OF ok(1) k]
  have kj: "?k \<noteq> j" using fk j(3) by auto
  obtain m1 where m1: "copy_on_write va ?x s = Some (s\<lparr>vm := m1\<rparr>)" "vm_ok m1 D"
    "\<And>d' a b c. d' \<in> D \<Longrightarrow> c < 512 \<Longrightarrow> pte_of m1 d' a b c = (if d' = d \<and> a = VPN va 2 \<and> b = VPN va 1 \<and> c = VPN va 0 then own_pte ?k ?e else pte_of (vm s) d' a b c)"
    "\<And>i. i < 51200 \<Longrightarrow> frame_bytes (frame i) m1 = frame_bytes (frame (if i = ?k then j else i)) (vm s)"
    "pg_uva m1 = (pg_uva (vm s))[?k := page_of va, j := pg_uva (vm s) ! j - 1]"
    "pg_charmap m1 = (if pg_uva (vm s) ! j = 1 then ((pg_charmap (vm s))[?k := word_of_int ?i])[j := CMAP_FREE] else (pg_charmap (vm s))[?k := word_of_int ?i])"
    "\<And>d' q. d' \<in> D \<Longrightarrow> tab m1 d' q = tab (vm s) d' q"
    using copy_on_write_spec[OF ok(1) d t k pd j(1) jf j(3) u0 uj(2)] by blast
  have l: "length (pg_charmap (vm s)) = 51200" "length (pg_uva (vm s)) = 51200" using ok(1) by (simp_all add: vm_ok_def frames_ok_def cmap_ok_def)
  have ow: "points (own_pte ?k ?e) ?k" "get_attribute (own_pte ?k ?e) PAGE_XWR \<noteq> 0"
    using own_pte_simps[OF k, of ?e] p xwr_write[of "own_pte ?k ?e"] unfolding points_def by metis+
  have cm: "pg_charmap m1 ! i = pg_charmap (vm s) ! i" if "i < 51200" "i \<noteq> ?k" "mapped (vm s) D i - {(d, VPN va 2, VPN va 1, VPN va 0)} \<noteq> {}" for i
  proof (cases "i = j \<and> pg_uva (vm s) ! j = 1")
    case True
    then have "card (mapped (vm s) D j) \<le> Suc 0" using uj(1) by simp
    then have "\<forall>y \<in> mapped (vm s) D j. y = (d, VPN va 2, VPN va 1, VPN va 0)" using xj unfolding card_le_Suc0_iff_eq[OF fin] by blast
    then show ?thesis using that(3) True by blast
  next
    case False
    then show ?thesis using that(2) l by (auto simp: m1(6))
  qed
  have uv: "pg_uva m1 ! i = pg_uva (vm s) ! i \<or>
      (d, VPN va 2, VPN va 1, VPN va 0) \<in> mapped (vm s) D i \<and> pg_uva m1 ! i = pg_uva (vm s) ! i - 1 \<and> pg_uva (vm s) ! i \<noteq> 0" if "i < 51200" "i \<noteq> ?k" for i
    using that xj u0 l j(1) by (cases "i = j") (simp_all add: m1(5))
  have k1: "pg_charmap m1 ! ?k \<noteq> CMAP_FREE" using pd k kj l by (simp add: m1(6))
  have pg1: "pages_ok m1 D"
    by (rule pages_retarget[OF ok(2) m1(3) d VPN_less k fk k1 ow own_pte_simps(2)[OF k] cm uv])
  have t1: "tab m1 d (leaf_pos (VPN va 2) (VPN va 1)) = Some t" using m1(7)[OF d] t by simp
  note w = mark_write[OF m1(2) pg1 d t1]
  let ?m = "set_pte ?x (marked (ptes m1 ?x)) m1"
  have v1: "va_pte m1 d va = own_pte ?k ?e" using m1(3)[OF d VPN_less] by (simp add: va_pte_def)
  have v: "va_pte ?m d va = marked (own_pte ?k ?e)" using w(3)[OF d VPN_less] by (simp add: va_pte_def[of ?m] v1)
  have ch: "pte_of ?m d' a b c = (if d' = d \<and> a = VPN va 2 \<and> b = VPN va 1 \<and> c = VPN va 0 then marked (own_pte ?k ?e) else pte_of (vm s) d' a b c)"
    if "d' \<in> D" "c < 512" for d' a b c using w(3)[OF that] m1(3)[OF that] v1 by simp
  have fb: "frame_bytes (frame i) ?m = frame_bytes (frame (if i = ?k then j else i)) (vm s)" if "i < 51200" for i
    using w(4) m1(4)[OF that] by simp
  have oth: "frame_bytes (frame i) ?m = frame_bytes (frame i) (vm s)" if "i < 51200" "pg_charmap (vm s) ! i \<noteq> CMAP_FREE" for i
    using fb[OF that(1)] that(2) fk by (cases "i = ?k") simp_all
  have mk: "mapped ?m D ?k = {(d, VPN va 2, VPN va 1, VPN va 0)}"
    using mapped_change[OF ch d VPN_less, of ?k] ow(1) free_not_mapped[OF ok(2) k fk] by simp
  have pb: "page_bytes ?m d va = page_bytes (vm s) d va" using fb[OF k] own_pte_simps(1)[OF k] by (simp add: page_bytes_def v jf)
  have "repaired D d va scause (vm s) ?m"
    unfolding repaired_def v marked_simps using w(1,2) mk pb same_others[OF ch oth ok(2)] own_pte_simps[OF k] p by simp
  moreover have "fix_page va scause ?x s = Some (s\<lparr>vm := ?m\<rparr>)"
  proof -
    have "?e \<noteq> 0" using p by auto
    then show ?thesis using p c e m1(1) by (simp add: fix_page_def upd_vm_def marked_def)
  qed
  ultimately show ?thesis by blast
qed

lemma user_fault_repairs:
  assumes "vm_ok (vm s) D" and "pages_ok (vm s) D" and "pgdir_kva (cur_pcb s) = d" and "d \<in> D" and "VPN va 2 < 256" and "in_segment va (cur_pcb s)"
    and "2 \<le> pid (cur_pcb s)" and "(word_of_int (pid (cur_pcb s)) :: u8) \<noteq> CMAP_FREE" and "pf_ymr (pf (pf_count va s)) < 3"
    and "va_pte (vm s) d va = 0 \<Longrightarrow> 2 \<le> free_count (pgtb_charmap (vm s))" and "pg_ffree (vm s) < 51200"
    and "va_pte (vm s) d va = 0 \<or> get_attribute (va_pte (vm s) d va) PAGE_PRESENT \<noteq> 0"
  shows "\<exists>m'. handle_pagefault va scause s = Some (True, (pf_count va s)\<lparr>vm := m'\<rparr>) \<and> repaired D d va scause (vm s) m'"
proof -
  let ?s = "pf_count va s"
  have same: "vm ?s = vm s" "cur_pcb ?s = cur_pcb s" by (simp_all add: pf_count_def cur_pcb_def cur_cpu_def Let_def)
  note lf = pages_leaf_ok[OF assms(2,4), of va]
  obtain x where x: "handle_pagefault va scause s = do { s1 \<leftarrow> fix_page va scause x ?s; Some (True, s1) }"
    "ptes (vm s) x = va_pte (vm s) d va"
    "va_pte (vm s) d va \<noteq> 0 \<longrightarrow> (\<exists>t. tab (vm s) d (leaf_pos (VPN va 2) (VPN va 1)) = Some t \<and> x = t + 8 * VPN va 0)"
    using handle_user_fault[of s D va scause, unfolded assms(3), OF vm_okD(1)[OF assms(1)] assms(4,5) lf assms(7,9)] assms(6) by auto
  have "\<exists>m'. fix_page va scause x ?s = Some (?s\<lparr>vm := m'\<rparr>) \<and> repaired D d va scause (vm s) m'"
  proof (cases "va_pte (vm s) d va = 0")
    case True
    then show ?thesis using fix_touch[of ?s D va x scause] assms x(2) by (simp add: same)
  next
    case False
    then obtain t where t: "tab (vm s) d (leaf_pos (VPN va 2) (VPN va 1)) = Some t" "x = t + 8 * VPN va 0" using x(3) by blast
    have p: "get_attribute (va_pte (vm s) d va) PAGE_PRESENT \<noteq> 0" using assms(12) False by simp
    show ?thesis
    proof (cases "get_attribute (va_pte (vm s) d va) PAGE_COW \<noteq> 0 \<and> scause = EXC_STORE_PAGE_FAULT")
      case True
      then show ?thesis using fix_cow[of ?s D d va t scause] assms t p by (simp add: same)
    next
      case False
      then show ?thesis using fix_mark[of ?s D d va t scause] assms t p by (simp add: same)
    qed
  qed
  then obtain m' where "fix_page va scause x ?s = Some (?s\<lparr>vm := m'\<rparr>)" "repaired D d va scause (vm s) m'" by blast
  then show ?thesis using x(1) by (intro exI[of _ m']) simp
qed

text \<open>
  C29: A page fault repairs the page and touches nothing else. A process accesses an address of its segment or stack whose page
  it has not used yet, or whose page is in memory (also as a page shared copy-on-write since a fork), while a frame is free. The
  handler returns; afterwards the page is valid, and unless it is new it has the bytes it had. After a write to a
  copy-on-write page it is writable and no longer marked, and its frame is used by no other page of any process. All other
  pages of all processes have the entries and the bytes they had, and the reference counts are right again.
\<close>

theorem fault_isolates:
  assumes "vm_ok (vm s) D" and "pages_ok (vm s) D" and "pgdir_kva (cur_pcb s) = d" and "d \<in> D" and "VPN va 2 < 256" and "in_segment va (cur_pcb s)"
    and "2 \<le> pid (cur_pcb s)" and "(word_of_int (pid (cur_pcb s)) :: u8) \<noteq> CMAP_FREE" and "pf_ymr (pf (pf_count va s)) < 3"
    and "va_pte (vm s) d va = 0 \<Longrightarrow> 2 \<le> free_count (pgtb_charmap (vm s))" and "pg_ffree (vm s) < 51200"
    and "va_pte (vm s) d va = 0 \<or> get_attribute (va_pte (vm s) d va) PAGE_PRESENT \<noteq> 0"
  shows "\<exists>m'. handle_pagefault va scause s = Some (True, (pf_count va s)\<lparr>vm := m'\<rparr>) \<and> vm_ok m' D \<and> pages_ok m' D \<and>
    get_attribute (va_pte m' d va) PAGE_PRESENT \<noteq> 0 \<and> (va_pte (vm s) d va \<noteq> 0 \<longrightarrow> page_bytes m' d va = page_bytes (vm s) d va) \<and>
    (scause = EXC_STORE_PAGE_FAULT \<longrightarrow> get_attribute (va_pte (vm s) d va) PAGE_COW \<noteq> 0 \<longrightarrow>
       mapped m' D (pg_ffree (vm s)) = {(d, VPN va 2, VPN va 1, VPN va 0)} \<and>
       get_attribute (va_pte m' d va) PAGE_WRITE \<noteq> 0 \<and> get_attribute (va_pte m' d va) PAGE_COW = 0) \<and>
    (\<forall>d' \<in> D. \<forall>va'. \<not> (d' = d \<and> same_page va va') \<longrightarrow> va_pte m' d' va' = va_pte (vm s) d' va' \<and>
       (get_attribute (va_pte (vm s) d' va') PAGE_PRESENT \<noteq> 0 \<longrightarrow> page_bytes m' d' va' = page_bytes (vm s) d' va'))"
  using user_fault_repairs[OF assms(1-9) _ assms(11,12), of scause] assms(10) unfolding repaired_def by blast

text \<open>
  A process that accesses an address outside of its segment and its stack is told so; memory, page tables and processes are
  as before, only the counter of repeated faults has moved.
\<close>

theorem fault_outside_refused:
  assumes "vm_ok (vm s) D" and "pages_ok (vm s) D" and "pgdir_kva (cur_pcb s) \<in> D" and "VPN va 2 < 256" and "\<not> in_segment va (cur_pcb s)"
    and "2 \<le> pid (cur_pcb s)" and "pf_ymr (pf (pf_count va s)) < 3"
  shows "handle_pagefault va scause s = Some (False, pf_count va s) \<and> pf_count va s = s\<lparr>pf := pf (pf_count va s)\<rparr>"
  using handle_user_fault[OF vm_okD(1)[OF assms(1)] assms(3,4) pages_leaf_ok[OF assms(2,3)] assms(6,7), of scause] assms(5)
  by (auto simp: pf_count_def Let_def)

text \<open>Page \<open>0x10000\<close> of process 2 is in frame 0 and marked copy-on-write; the other frames are free.\<close>

definition demo_cow_pte :: u64 where
  "demo_cow_pte = set_attribute (clear_attribute (user_pte 0) PAGE_WRITE) PAGE_COW"

lemma demo_cow_pte_simps:
  "points demo_cow_pte 0" "get_attribute demo_cow_pte PAGE_PRESENT \<noteq> 0" "get_attribute demo_cow_pte PAGE_XWR \<noteq> 0" "get_attribute demo_cow_pte PAGE_COW \<noteq> 0"
proof -
  have "get_pa demo_cow_pte = get_pa (user_pte 0)" by (simp add: demo_cow_pte_def)
  moreover show "get_attribute demo_cow_pte PAGE_PRESENT \<noteq> 0" "get_attribute demo_cow_pte PAGE_XWR \<noteq> 0" "get_attribute demo_cow_pte PAGE_COW \<noteq> 0"
    unfolding demo_cow_pte_def user_pte_def attr_set_attribute attr_clear_attribute attr_set_pfn
    by (simp_all add: get_attribute_def PAGE_XWR_def PAGE_VURWXAD_def pgattr PAGE_ATTRIBUTE_MASK_def mask_eq_exp_minus_1)
  ultimately show "points demo_cow_pte 0" using user_pte_simps(1)[of 0] by (simp add: points_def)
qed

lemma demo_cow_pte_attr: "get_attribute demo_cow_pte PAGE_READ \<noteq> 0" "get_attribute demo_cow_pte PAGE_SHARED = 0"
  unfolding demo_cow_pte_def user_pte_def attr_set_attribute attr_clear_attribute attr_set_pfn
  by (simp_all add: get_attribute_def PAGE_XWR_def PAGE_VURWXAD_def pgattr PAGE_ATTRIBUTE_MASK_def mask_eq_exp_minus_1)

lemma demo_pte_of: "pte_of demo_mm d a b c = 0"
  by (simp add: pte_of_def leaf_pos_def demo_tab del: tab.simps)

lemma demo_cow:
  "\<exists>m. vm_ok m {tbl 2} \<and> pages_ok m {tbl 2} \<and> va_pte m (tbl 2) 0x10000 = demo_cow_pte \<and> pg_ffree m < 51200 \<and>
    (\<forall>a b c. c < 512 \<longrightarrow> pte_of m (tbl 2) a b c = 0 \<or> pte_of m (tbl 2) a b c = demo_cow_pte) \<and> (\<forall>j < 51200. pg_uva m ! j < 16) \<and>
    3800 < free_count (pgtb_charmap m)"
proof -
  have vd: "vm demo_ks = demo_mm" by (simp add: demo_ks_def)
  have v: "VPN 0x10000 2 < 256" by (simp add: VPN_def NORMAL_PAGE_SHIFT_def PPN_BITS_def)
  have c: "(word_of_int 2 :: u8) \<noteq> CMAP_FREE" by (simp add: CMAP_FREE_def)
  let ?x = "\<lambda>a b c. a = VPN 0x10000 2 \<and> b = VPN 0x10000 1 \<and> c = VPN 0x10000 0"
  from alloc_page_helper_spec[of demo_ks "{tbl 2}" "tbl 2" "0x10000" 2, unfolded vd, OF demo_vm_ok _ v demo_pages(1) c demo_pages(2)]
  obtain m t where m: "vm_ok m {tbl 2}" "\<And>a b c. c < 512 \<Longrightarrow> pte_of m (tbl 2) a b c = (if ?x a b c then user_pte 0 else 0)"
    "pg_charmap m = (replicate 51200 CMAP_FREE)[0 := 2]" "pg_uva m = (replicate 51200 0)[0 := page_of 0x10000]" "tab m (tbl 2) (leaf_pos (VPN 0x10000 2) (VPN 0x10000 1)) = Some t"
    "free_count (pgtb_charmap demo_mm) \<le> free_count (pgtb_charmap m) + 2"
    by (auto simp: demo_pages demo_pte_of)
  define m1 where "m1 = m\<lparr>pg_charmap := (pg_charmap m)[0 := CMAP_SHARED], pg_ffree := 1, pg_uva := (pg_uva m)[0 := 1]\<rparr>"
  have s1: "spaces_ok m1 {tbl 2}" "tab m1 (tbl 2) (leaf_pos (VPN 0x10000 2) (VPN 0x10000 1)) = Some t" "pte_of m1 d a b c = pte_of m d a b c" for d a b c
    using same_spaces[of m1 m] tab_cong[of m1 m] vm_okD(1)[OF m(1)] m(5) by (simp_all add: m1_def)
  let ?m = "set_pte (t + 8 * VPN 0x10000 0) demo_cow_pte m1"
  note w = pte_write[OF s1(1) singletonI s1(2) VPN_less[of "0x10000" 0], where e = demo_cow_pte]
  have pt: "pte_of ?m (tbl 2) a b c = (if ?x a b c then demo_cow_pte else 0)" if "c < 512" for a b c
    using w(3)[OF singletonI that] m(2)[OF that] s1(3) by simp
  have fr: "frames_ok ?m" by (simp add: frames_ok_def cmap_ok_def set_pte_def m1_def m(3,4) CMAP_FREE_def CMAP_SHARED_def)
  then have vk: "vm_ok ?m {tbl 2}" using w(2) vm_okD(2)[OF m(1)] by (simp add: vm_ok_def) (simp add: set_pte_def m1_def)
  have cm: "pg_charmap ?m ! 0 \<noteq> CMAP_FREE" "pg_uva ?m ! 0 = 1"
    by (simp_all add: set_pte_def m1_def m(3,4) CMAP_FREE_def CMAP_SHARED_def)
  moreover have "mapped ?m {tbl 2} j = (if j = 0 then {(tbl 2, VPN 0x10000 2, VPN 0x10000 1, VPN 0x10000 0)} else {})" if "j < 51200" for j
  proof -
    have "points demo_cow_pte j \<longleftrightarrow> j = 0" using points_unique demo_cow_pte_simps(1) that by auto
    moreover have "\<not> points 0 j" by (simp add: points_def)
    ultimately show ?thesis using pt VPN_less[of "0x10000" 0] by (auto simp: mapped_def split: if_splits)
  qed
  ultimately have mp: "mapped ?m {tbl 2} j = (if j = 0 then {(tbl 2, VPN 0x10000 2, VPN 0x10000 1, VPN 0x10000 0)} else {})" if "j < 51200" for j
    using that by blast
  have xs: "j = 0 \<and> a = VPN 0x10000 2 \<and> b = VPN 0x10000 1 \<and> c = VPN 0x10000 0 \<and> d = tbl 2" if "j < 51200" "(d, a, b, c) \<in> mapped ?m {tbl 2} j" for j d a b c
    using that mp[OF that(1)] by (simp split: if_splits)
  have sh: "pg_charmap ?m ! 0 = CMAP_SHARED" by (simp add: set_pte_def m1_def m(3))
  have ex: "\<exists>j < 51200. points demo_cow_pte j \<and> pg_charmap ?m ! j \<noteq> CMAP_FREE" using cm demo_cow_pte_simps(1) by (intro exI[of _ 0]) simp
  have "pages_ok ?m {tbl 2}"
  proof (rule pages_okI)
    fix d a b c assume a: "d \<in> {tbl 2}" "c < (512 :: u64)" "get_attribute (pte_of ?m d a b c) PAGE_PRESENT \<noteq> 0"
    then have d: "d = tbl 2" by simp
    have "?x a b c" using a(3) pt[OF a(2), of a b] unfolding d by (auto split: if_splits)
    then have "pte_of ?m d a b c = demo_cow_pte" using pt[OF a(2), of a b] unfolding d by simp
    then show "get_attribute (pte_of ?m d a b c) PAGE_XWR \<noteq> 0 \<and> (\<exists>j < 51200. points (pte_of ?m d a b c) j \<and> pg_charmap ?m ! j \<noteq> CMAP_FREE)"
      using ex demo_cow_pte_simps(3) by simp
  next
    fix j d a b c assume a: "j < 51200" "(d, a, b, c) \<in> mapped ?m {tbl 2} j"
    then show "card (mapped ?m {tbl 2} j) \<le> unat (pg_uva ?m ! j) \<and> pg_uva ?m ! j \<le> 16 \<and> pg_charmap ?m ! j = CMAP_SHARED"
      using xs[OF a] mp[OF a(1)] cm(2) sh by simp
  next
    fix j d a b c assume a: "j < 51200" "(d, a, b, c) \<in> mapped ?m {tbl 2} j"
    then show "mapped ?m {tbl 2} j = {(d, a, b, c)}" using xs[OF a] mp[OF a(1)] by simp
  next
    fix j d a b c a' b' c' assume a: "j < 51200" "(d, a, b, c) \<in> mapped ?m {tbl 2} j" "(d, a', b', c') \<in> mapped ?m {tbl 2} j"
    show "a' = a \<and> b' = b \<and> c' = c" using xs[OF a(1,2)] xs[OF a(1,3)] by simp
  qed simp
  moreover have "va_pte ?m (tbl 2) 0x10000 = demo_cow_pte" using pt[OF VPN_less] by (simp add: va_pte_def)
  moreover have "pg_ffree ?m < 51200" by (simp add: set_pte_def m1_def)
  moreover have "\<forall>a b c. c < 512 \<longrightarrow> pte_of ?m (tbl 2) a b c = 0 \<or> pte_of ?m (tbl 2) a b c = demo_cow_pte" using pt by simp
  moreover have "\<forall>j < 51200. pg_uva ?m ! j < 16" by (auto simp: set_pte_def m1_def m(4) nth_list_update)
  moreover have "3800 < free_count (pgtb_charmap ?m)" using m(6) demo_pages(7) by (simp add: set_pte_def m1_def)
  ultimately show ?thesis using vk by blast
qed

lemma demo_fault:
  "pgdir_kva (cur_pcb (demo_ks\<lparr>vm := m\<rparr>)) = tbl 2" "pid (cur_pcb (demo_ks\<lparr>vm := m\<rparr>)) = 2" "in_segment 0x10000 (cur_pcb (demo_ks\<lparr>vm := m\<rparr>))"
  "\<not> in_segment 0x8000 (cur_pcb (demo_ks\<lparr>vm := m\<rparr>))" "pf_ymr (pf (pf_count va (demo_ks\<lparr>vm := m\<rparr>))) < 3"
  by (simp_all add: cur_pcb_def cur_cpu_def demo_ks_def demo_pmem_def tbl_def Pgtb_base_def in_segment_def User_sp_def USTACK_NPG_def NORMAL_PAGE_SIZE_def
      pf_count_def get_timer_def Let_def)

theorem fault_isolates_witness:
  "\<exists>m m'. get_attribute (va_pte m (tbl 2) 0x10000) PAGE_COW \<noteq> 0 \<and>
    handle_pagefault 0x10000 15 (demo_ks\<lparr>vm := m\<rparr>) = Some (True, (pf_count 0x10000 (demo_ks\<lparr>vm := m\<rparr>))\<lparr>vm := m'\<rparr>) \<and>
    get_attribute (va_pte m' (tbl 2) 0x10000) PAGE_COW = 0 \<and> page_bytes m' (tbl 2) 0x10000 = page_bytes m (tbl 2) 0x10000"
proof -
  obtain m where m: "vm_ok m {tbl 2}" "pages_ok m {tbl 2}" "va_pte m (tbl 2) 0x10000 = demo_cow_pte" "pg_ffree m < 51200" using demo_cow by blast
  have v: "VPN 0x10000 2 < 256" by (simp add: VPN_def NORMAL_PAGE_SHIFT_def PPN_BITS_def)
  have e0: "demo_cow_pte \<noteq> 0" using demo_cow_pte_simps(2) by auto
  obtain m' where "handle_pagefault 0x10000 15 (demo_ks\<lparr>vm := m\<rparr>) = Some (True, (pf_count 0x10000 (demo_ks\<lparr>vm := m\<rparr>))\<lparr>vm := m'\<rparr>)"
    "page_bytes m' (tbl 2) 0x10000 = page_bytes m (tbl 2) 0x10000" "get_attribute (va_pte m' (tbl 2) 0x10000) PAGE_COW = 0"
    using fault_isolates[of "demo_ks\<lparr>vm := m\<rparr>" "{tbl 2}" "tbl 2" "0x10000" 15] m v e0 demo_fault demo_cow_pte_simps(2,4)
    by (auto simp: EXC_STORE_PAGE_FAULT_def CMAP_FREE_def)
  then show ?thesis using m(3) demo_cow_pte_simps(4) by (intro exI[of _ m] exI[of _ m']) simp
qed

theorem fault_outside_refused_witness:
  "handle_pagefault 0x8000 13 demo_ks = Some (False, pf_count 0x8000 demo_ks)"
proof -
  have "pages_ok demo_mm {tbl 2}" by (simp add: pages_ok_def demo_pte_of mapped_def points_def)
  moreover have "VPN 0x8000 2 < 256" by (simp add: VPN_def NORMAL_PAGE_SHIFT_def PPN_BITS_def)
  moreover have s: "demo_ks\<lparr>vm := demo_mm\<rparr> = demo_ks" and "vm demo_ks = demo_mm" by (simp_all add: demo_ks_def)
  ultimately show ?thesis
    using fault_outside_refused[of demo_ks "{tbl 2}" "0x8000" 13] demo_vm_ok demo_fault(1,2,4)[of demo_mm, unfolded s] demo_fault(5)[of _ demo_mm, unfolded s]
    by simp
qed

section \<open>The heap of a process\<close>

lemma set_seg_end_spec:
  "distinct ps \<Longrightarrow> set_seg_end ps f s = s\<lparr>pcbs := \<lambda>p. if p \<in> set ps then (pcbs s p)\<lparr>seg_end := f (seg_end (pcbs s p))\<rparr> else pcbs s p\<rparr>"
proof (induction ps arbitrary: s)
  case (Cons p ps)
  have "set_seg_end (p # ps) f s = set_seg_end ps f (upd_pcb p (\<lambda>c. c\<lparr>seg_end := f (seg_end c)\<rparr>) s)" by (simp add: set_seg_end_def)
  then show ?case using Cons by (auto simp: upd_pcb_def fun_eq_iff intro!: arg_cong[of _ _ "\<lambda>x. s\<lparr>pcbs := x\<rparr>"])
qed (simp add: set_seg_end_def)

text \<open>
  C30: Growing the heap. \<^verbatim>\<open>do_sbrk\<close> rounds the request up to a multiple of 8; if it or the segment would exceed 8 MiB the answer is
  0 and nothing changes. Otherwise the answer is the old end, the ends of all threads of the process move by the rounded
  amount, the segment still is at most 8 MiB and does not wrap around, and no other process changes.
\<close>

theorem sbrk_bounds:
  fixes s :: "'d kstate"
  defines "c \<equiv> cur_pcb s" and "ps \<equiv> pcb_search_all (pid (cur_pcb s)) s"
  assumes "distinct (filter (\<lambda>p. p \<noteq> NULL) (take (free_pt s) (pcb_table s)))" and "\<forall>p \<in> set ps. seg_end (pcbs s p) = seg_end c \<and> seg_start (pcbs s p) = seg_start c"
    and "unat (seg_start c) \<le> unat (seg_end c)" and "unat (seg_end c) \<le> unat (seg_start c) + 0x800000" and "unat (seg_start c) + 0x800000 < 2 ^ 64" and "do_sbrk n s = (r, s')"
  shows "r = 0 \<and> s' = s \<and> (unat (ROUND n 8) > 0x800000 \<or> unat (seg_end c) + unat (ROUND n 8) > unat (seg_start c) + 0x800000) \<or>
    r = seg_end c \<and> unat (seg_end c) + unat (ROUND n 8) \<le> unat (seg_start c) + 0x800000 \<and>
    (\<forall>p. pcbs s' p = (if p \<in> set ps then (pcbs s p)\<lparr>seg_end := seg_end c + ROUND n 8\<rparr> else pcbs s p)) \<and>
    unat (seg_end c + ROUND n 8) = unat (seg_end c) + unat (ROUND n 8) \<and> s' = s\<lparr>pcbs := pcbs s'\<rparr>"
proof -
  let ?n = "ROUND n 8" and ?a = "seg_start c" and ?e = "seg_end c"
  have um: "USEG_MAX = 0x800000" by (simp add: USEG_MAX_def)
  have ps: "ps = filter (\<lambda>p. pid (pcbs s p) = pid c) (filter (\<lambda>p. p \<noteq> NULL) (take (free_pt s) (pcb_table s)))"
    by (simp add: ps_def c_def pcb_search_all_def conj_commute)
  have dp: "distinct ps" unfolding ps using assms(3) by (rule distinct_filter)
  have "unat (?e + ?n - ?a) = unat ?e + unat ?n - unat ?a" if "unat ?n \<le> 0x800000"
  proof -
    have e: "?e + ?n - ?a = (?e - ?a) + ?n" by simp
    have "unat (?e - ?a) = unat ?e - unat ?a" using assms(5) by (simp add: unat_sub word_le_nat_alt)
    moreover have "unat ((?e - ?a) + ?n) = unat (?e - ?a) + unat ?n" using calculation(1) assms(6) that by (intro unat_add_lem[THEN iffD1]) simp
    ultimately show ?thesis unfolding e using assms(5) by simp
  qed
  then have test: "(?n > USEG_MAX \<or> ?e + ?n - ?a > USEG_MAX) \<longleftrightarrow> (unat ?n > 0x800000 \<or> unat ?e + unat ?n > unat ?a + 0x800000)"
    using assms(5) by (cases "unat ?n \<le> 0x800000") (auto simp: um word_less_nat_alt)
  show ?thesis
  proof (cases "unat ?n > 0x800000 \<or> unat ?e + unat ?n > unat ?a + 0x800000")
    case True
    then show ?thesis using assms(8) test by (simp add: do_sbrk_def Let_def c_def[symmetric])
  next
    case False
    then have "(r, s') = (?e, set_seg_end ps (\<lambda>e. e + ?n) s)" using assms(8) test by (simp add: do_sbrk_def Let_def c_def[symmetric] ps_def)
    moreover have "unat (?e + ?n) = unat ?e + unat ?n" using False assms(7) by (intro unat_add_lem[THEN iffD1]) simp
    ultimately show ?thesis using False assms(4) by (simp add: set_seg_end_spec[OF dp])
  qed
qed

theorem sbrk_bounds_witness:
  "\<exists>s'. do_sbrk 5 demo_ks = (0x20000, s') \<and> seg_end (pcbs s' 0x20) = 0x20008 \<and> seg_end (pcbs s' 0x30) = 0x20000"
proof -
  obtain r s' where run: "do_sbrk 5 demo_ks = (r, s')" by (cases "do_sbrk 5 demo_ks")
  have r8: "ROUND 5 8 = 8" by (simp add: ROUND_def)
  have ps: "pcb_search_all (pid (cur_pcb demo_ks)) demo_ks = [0x20]"
    by (simp add: pcb_search_all_def cur_pcb_def cur_cpu_def demo_ks_def demo_pmem_def)
  have "distinct (filter (\<lambda>p. p \<noteq> NULL) (take (free_pt demo_ks) (pcb_table demo_ks)))" by (simp add: demo_ks_def)
  moreover have sg: "seg_end (pcbs demo_ks p) = 0x20000" "seg_start (pcbs demo_ks p) = 0x10000" "seg_end (cur_pcb demo_ks) = 0x20000" "seg_start (cur_pcb demo_ks) = 0x10000" for p
    by (simp_all add: cur_pcb_def demo_ks_def demo_pmem_def)
  ultimately show ?thesis using sbrk_bounds[OF _ _ _ _ _ run] run by (auto simp: ps r8)
qed

text \<open>A request of -1 to -7 bytes is rounded to 0 and answered by the end of the segment.\<close>

lemma sbrk_negative: "fst (do_sbrk (- 1) demo_ks) = 0x20000"
  by (simp add: do_sbrk_def ROUND_def USEG_MAX_def cur_pcb_def cur_cpu_def demo_ks_def demo_pmem_def Let_def)

end
