(* ===== verification/Process.thy ===== *)
theory Process
  imports PageFault
begin

text \<open>
  Creating, scheduling and ending processes and threads (\<^verbatim>\<open>kernel/sched/sched.c\<close>, \<^verbatim>\<open>sched-thread.c\<close>,
  \<^verbatim>\<open>kernel/loader/loader.c\<close>, \<^verbatim>\<open>check_sleeping_on_nic\<close> of \<^verbatim>\<open>kernel/net/net.c\<close>, \<^verbatim>\<open>start_glush\<close> of \<^verbatim>\<open>init/main.c\<close>).

  \<^verbatim>\<open>switch_to\<close> ends the part of the kernel that runs on behalf of the process; registers are not part of the state, apart from
  those the kernel puts on the stack of a new process. A process that kills itself never returns: the answer is \<open>Blocked\<close>.
\<close>

section \<open>Constants\<close>

definition Kstack_size :: u32 where "Kstack_size = 32 * 1024"
definition SP_ALIGN :: u64 where "SP_ALIGN = 16"
definition sizeof_regs_context :: u64 where "sizeof_regs_context = 288"
definition SR_SIE :: u64 where "SR_SIE = 0x2"
definition SR_SPIE :: u64 where "SR_SPIE = 0x20"
definition PGDIR_VA :: u64 where "PGDIR_VA = 0xffffffc051000000"
definition RXDESCS :: u32 where "RXDESCS = 64"
definition ARGC_MAX :: int where "ARGC_MAX = 8"
definition ARG_LEN :: nat where "ARG_LEN = 63"

definition ROUNDDOWN :: "u64 \<Rightarrow> u64 \<Rightarrow> u64" where
  "ROUNDDOWN a n = a AND NOT (n - 1)"

section \<open>Loading a program\<close>

fun find_task :: "cbuf \<Rightarrow> task_info list \<Rightarrow> task_info option option" where
  "find_task name [] = Some None"
| "find_task name (t # ts) = do { r \<leftarrow> strcmp name 0 (ti_name t) 0; if r = 0 then Some (Some t) else find_task name ts }"

text \<open>One byte of the program; the first of a page allocates the page.\<close>

definition load_byte :: "u64 \<Rightarrow> u64 \<Rightarrow> int \<Rightarrow> u8 list \<Rightarrow> nat \<Rightarrow> nat \<Rightarrow> u64 \<times> 'd kstate \<Rightarrow> (u64 \<times> 'd kstate) option" where
  "load_byte vaddr pgdir pd buf uoffset i r = do {
     (kva, s1) \<leftarrow> (if i mod 4096 = 0 then alloc_page_helper (vaddr + of_nat i) pgdir pd (snd r) else Some r);
     b \<leftarrow> nth_chk buf (uoffset + i);
     Some (kva, upd_vm (store_page (kva + of_nat (i mod 4096)) [b]) s1)
   }"

partial_function (option) load_bss :: "u64 \<Rightarrow> u64 \<Rightarrow> int \<Rightarrow> u32 \<Rightarrow> u32 \<Rightarrow> 'd kstate \<Rightarrow> 'd kstate option" where
  "load_bss vaddr pgdir pd msize i s =
     (if i < msize then do {
        (kva, s1) \<leftarrow> alloc_page_helper (vaddr + ucast i) pgdir pd s;
        load_bss vaddr pgdir pd msize (i + 4096) s1
      } else Some s)"

text \<open>The entry point, the bounds of the segment; the entry point 0 is a failure. More than 64 sectors panic.\<close>

definition load_task_img :: "cbuf \<Rightarrow> u64 \<Rightarrow> int \<Rightarrow> 'd kstate \<Rightarrow> (u64 \<times> u64 \<times> u64 \<times> 'd kstate) option" where
  "load_task_img name pgdir pd s = do {
     f \<leftarrow> find_task name (taskinfo s);
     case f of None \<Rightarrow> Some (0, 0, 0, s)
     | Some t \<Rightarrow>
       (if ti_vaddr t AND 4095 \<noteq> 0 then Some (0, 0, 0, s)
        else do {
          let st = lbytes2sectors (ti_offset t);
          let n = lbytes2sectors (ti_offset t + ti_fsize t) - st + 1;
          if n > 64 then None
          else do {
            (b, h1) \<leftarrow> kmalloc_g (n * of_nat SECTOR_SIZE) (kh (fs s));
            let s1 = s\<lparr>fs := (fs s)\<lparr>kh := h1\<rparr>\<rparr>;
            if b = NULL then Some (0, 0, 0, s1)
            else do {
              let buf = sd_read (fs s1) (dev (fs s1)) (unat n) (unat st);
              let uoffset = ti_offset t - st * of_nat SECTOR_SIZE;
              (_, s2) \<leftarrow> for_each [0..<unat (ti_fsize t)] (load_byte (ti_vaddr t) pgdir pd buf (unat uoffset)) (0, s1);
              let i = ti_fsize t;
              let i2 = (if i AND 4095 \<noteq> 0 then (i AND NOT 4095) + 4096 else i);
              s3 \<leftarrow> load_bss (ti_vaddr t) pgdir pd (ti_msize t) i2 s2;
              h3 \<leftarrow> kfree_g b (kh (fs s3));
              Some (ti_ventr t, ti_vaddr t, ROUND (ti_vaddr t + ucast (ti_msize t)) 8, s3\<lparr>fs := (fs s3)\<lparr>kh := h3\<rparr>\<rparr>)
            }
          }
        })
   }"

section \<open>Creating a process\<close>

definition init_pcb_stack :: "addr \<Rightarrow> u64 \<Rightarrow> addr \<Rightarrow> 'd kstate \<Rightarrow> 'd kstate" where
  "init_pcb_stack ks entry p s =
     (let sp = ROUNDDOWN (of_nat ks + ROUND (ucast Kstack_size) 8 - sizeof_regs_context) SP_ALIGN;
          s1 = upd_pcb p (\<lambda>c. c\<lparr>kernel_stack := ks, kernel_sp := sp, user_sp := User_sp, trapframe := sp,
            ctx_regs := (ctx_regs c)[0 := ret_from_exception s, 1 := sp]\<rparr>) s;
          r = trapframes s1 sp
      in s1\<lparr>trapframes := (trapframes s1)(sp := r\<lparr>tf_sepc := entry, tf_sstatus := (csr_sstatus s AND NOT SR_SIE AND NOT SR_SPP) OR SR_SPIE,
            tf_scause := push_bit 63 1, tf_regs := (tf_regs r)[4 := of_nat p, 2 := User_sp, 1 := addr_do_exit s]\<rparr>)\<rparr>)"

text \<open>
  The name and the working directory of a new PCB are copied into its buffers, which \<^verbatim>\<open>strncpy\<close> fills up, so that their former
  contents do not matter.
\<close>

definition copy_name :: "cbuf \<Rightarrow> cbuf option" where
  "copy_name src = do { b \<leftarrow> strncpy (replicate (TASK_NAMELEN + 1) NUL) 0 src 0 TASK_NAMELEN; Some (b[TASK_NAMELEN := NUL]) }"

definition create_fail :: "u64 \<Rightarrow> int \<Rightarrow> addr \<Rightarrow> 'd kstate \<Rightarrow> (int \<times> 'd kstate) option" where
  "create_fail pgdir pd pnew s = do {
     (_, m) \<leftarrow> free_pages_of_proc pgdir pd (vm s);
     (h, pdel, pm) \<leftarrow> lpcb_del_node (heads s ReadyQ) pnew (pcbs s);
     if pnew \<noteq> pdel then None
     else do {
       h1 \<leftarrow> kfree_g pdel (kh (fs s));
       let (rt, s1) = pcb_table_del pdel ((set_queue ReadyQ h pm s)\<lparr>vm := m, fs := (fs s)\<lparr>kh := h1\<rparr>\<rparr>);
       if rt < 0 then None else Some (INVALID_PID, s1)
     }
   }"

definition fill_pcb :: "cbuf \<Rightarrow> u32 \<Rightarrow> u64 \<Rightarrow> u64 \<Rightarrow> addr \<Rightarrow> 'd kstate \<Rightarrow> 'd kstate option" where
  "fill_pcb name msk st en p s = do {
     nm \<leftarrow> copy_name name;
     let c = cur_pcb s;
     cp \<leftarrow> strncpy (replicate (PATH_LEN + 1) NUL) 0 (cpath (pfiles c)) 0 PATH_LEN;
     (node, f1) \<leftarrow> flist_inc_fnode (cur_ino (pfiles c)) False (fs s);
     let f2 = (if node = NULL then GFS_panic f1 else f1);
     let (pf1, f3) = fd_init \<lparr>cpath = cp[PATH_LEN := NUL], cur_ino = cur_ino (pfiles c), fds = fds (pfiles (pcbs s p))\<rparr> None f2;
     Some (upd_pcb p (\<lambda>d. d\<lparr>seg_start := st, seg_end := en, pname := nm, status := TASK_READY, cursor_x := 0, cursor_y := 0,
       cylim_h := -1, cylim_l := -1, cpu_mask := msk, pfiles := pf1, tid := 0\<rparr>) (set_head (WaitQ p) NULL (s\<lparr>fs := f3\<rparr>)))
   }"

definition create_proc :: "cbuf option \<Rightarrow> u32 \<Rightarrow> 'd kstate \<Rightarrow> (int \<times> 'd kstate) option" where
  "create_proc taskname msk s =
     (case taskname of None \<Rightarrow> Some (INVALID_PID, s)
      | Some name \<Rightarrow>
        (if get_proc_num s \<ge> int (UPROC_MAX + NCPU) then Some (INVALID_PID, s)
         else if alloc_pid s = INVALID_PID then None
         else do {
           let pd = alloc_pid s;
           (pgdir, m) \<leftarrow> alloc_pagetable pd (vm s);
           let s1 = s\<lparr>vm := share_pgtable pgdir PGDIR_VA m\<rparr>;
           (qtemp, pnew, pm, h1) \<leftarrow> lpcb_add_node_to_tail (heads s1 ReadyQ) ReadyQ (pcbs s1) (kh (fs s1));
           let s2 = s1\<lparr>pcbs := pm, fs := (fs s1)\<lparr>kh := h1\<rparr>\<rparr>;
           if qtemp = NULL then do { (_, m2) \<leftarrow> free_pages_of_proc pgdir pd (vm s2); Some (INVALID_PID, s2\<lparr>vm := m2\<rparr>) }
           else do {
             (rt, s3) \<leftarrow> pcb_table_add pnew s2;
             if rt < 0 then None
             else do {
               let s4 = upd_pcb pnew (\<lambda>c. c\<lparr>pid := pd, pgdir_kva := pgdir\<rparr>) (set_head ReadyQ qtemp s3);
               (entry, st, en, s5) \<leftarrow> load_task_img name pgdir pd s4;
               if entry = 0 then create_fail pgdir pd pnew s5
               else do {
                 (_, s6) \<leftarrow> alloc_page_helper (User_sp - of_nat NORMAL_PAGE_SIZE) pgdir pd s5;
                 (ks, h6) \<leftarrow> kmalloc_g Kstack_size (kh (fs s6));
                 let s7 = s6\<lparr>fs := (fs s6)\<lparr>kh := h6\<rparr>\<rparr>;
                 if ks = NULL then create_fail pgdir pd pnew s7
                 else do { s8 \<leftarrow> fill_pcb name msk st en pnew s7; Some (pd, init_pcb_stack ks entry pnew s8) }
               }
             }
           }
         }))"

section \<open>Executing a program with arguments\<close>

text \<open>The arguments up to the first \<open>NULL\<close>, at most \<open>n\<close>; reading behind the array is \<open>None\<close>.\<close>

fun collect_args :: "nat \<Rightarrow> cbuf option list \<Rightarrow> cbuf list option" where
  "collect_args 0 as = Some []"
| "collect_args (Suc n) [] = None"
| "collect_args (Suc n) (None # as) = Some []"
| "collect_args (Suc n) (Some a # as) = do { r \<leftarrow> collect_args n as; Some (a # r) }"

fun exec_args :: "cbuf list \<Rightarrow> nat \<Rightarrow> u64 \<Rightarrow> addr \<Rightarrow> 'd kstate \<Rightarrow> 'd kstate option" where
  "exec_args [] i base p s = Some s"
| "exec_args (a # as) i base p s = do {
     l0 \<leftarrow> strlen a 0;
     let l = (if l0 > ARG_LEN then ARG_LEN else l0);
     let sp = user_sp (pcbs s p) - of_nat (l + 1);
     let s1 = upd_vm (store_page (base + 8 * of_nat i) (bytes_of_u64 sp)) (upd_pcb p (\<lambda>c. c\<lparr>user_sp := sp\<rparr>) s);
     kva \<leftarrow> va2kva sp (pgdir_kva (pcbs s1 p)) (vm s1);
     if kva = 0 then None
     else exec_args as (i + 1) base p (upd_vm (store_page kva (map of_char (take l a) @ [0])) s1)
   }"

definition do_exec :: "cbuf option \<Rightarrow> int \<Rightarrow> cbuf option list option \<Rightarrow> 'd kstate \<Rightarrow> (int \<times> 'd kstate) option" where
  "do_exec name argc argv s =
     (if argc > ARGC_MAX then Some (INVALID_PID, s)
      else do {
        (pd, s1) \<leftarrow> create_proc name (cpu_mask (cur_pcb s)) s;
        if pd = INVALID_PID then Some (INVALID_PID, s1)
        else do {
          args \<leftarrow> (case argv of None \<Rightarrow> Some [] | Some as \<Rightarrow> collect_args (nat (if argc < 0 then ARGC_MAX else argc)) as);
          p \<leftarrow> lpcb_search_node (heads s1 ReadyQ) pd (pcbs s1);
          if p = NULL then None
          else do {
            let base = user_sp (pcbs s1 p) - 8 * of_nat (length args + 1);
            let s2 = upd_pcb p (\<lambda>c. c\<lparr>user_sp := base\<rparr>) s1;
            kva \<leftarrow> va2kva base (pgdir_kva (pcbs s2 p)) (vm s2);
            if kva = 0 then None
            else do {
              s3 \<leftarrow> exec_args args 0 kva p (upd_vm (store_page (kva + 8 * of_nat (length args)) (replicate 8 0)) s2);
              let sp = ROUNDDOWN (user_sp (pcbs s3 p)) SP_ALIGN;
              let s4 = upd_pcb p (\<lambda>c. c\<lparr>user_sp := sp\<rparr>) s3;
              let tf = trapframe (pcbs s4 p);
              let r = trapframes s4 tf;
              Some (pd, s4\<lparr>trapframes := (trapframes s4)(tf := r\<lparr>tf_regs := (tf_regs r)[2 := sp, 10 := of_nat (length args), 11 := base]\<rparr>)\<rparr>)
            }
          }
        }
      })"

definition do_taskset :: "bool \<Rightarrow> cbuf option \<Rightarrow> int \<Rightarrow> u32 \<Rightarrow> 'd kstate \<Rightarrow> (int \<times> 'd kstate) option" where
  "do_taskset create name i msk s =
     (if create then do {
        (npid, s1) \<leftarrow> do_exec name 1 (Some [name]) s;
        if npid = INVALID_PID then Some (npid, s1)
        else (let p = pcb_search npid s1 in
          if p = NULL then None else Some (npid, upd_pcb p (\<lambda>c. c\<lparr>cpu_mask := msk\<rparr>) s1))
      } else Some (taskset_pid i msk s))"

definition start_glush :: "'d kstate \<Rightarrow> (int \<times> 'd kstate) option" where
  "start_glush s = do {
     (g, s1) \<leftarrow> do_exec (Some (''glush'' @ [NUL])) (-1) (Some [Some (''glush'' @ [NUL]), Some (''10'' @ [NUL]), Some (''23'' @ [NUL]), Some (''1'' @ [NUL]), None]) s;
     let s2 = s1\<lparr>pid_glush := g\<rparr>;
     if g = INVALID_PID then Some (INVALID_PID, s2)
     else do {
       (r, s3) \<leftarrow> do_taskset False None g (NOT 0) s2;
       if r \<noteq> g then None else Some (g, s3)
     }
   }"

section \<open>Ending a process\<close>

text \<open>
  The threads of a process: those that do not run are deleted, the others are marked. The first component of the loop's state
  is the page directory, 0 as long as it is not known.
\<close>

definition kill_thread :: "addr \<Rightarrow> u64 \<times> 'd kstate \<Rightarrow> (u64 \<times> 'd kstate) option" where
  "kill_thread t r = do {
     let (pgdir, s) = r;
     let d = pgdir_kva (pcbs s t);
     if pgdir \<noteq> 0 \<and> d \<noteq> pgdir then None
     else if status (pcbs s t) \<noteq> TASK_RUNNING \<and> status (pcbs s t) \<noteq> TASK_EXITING then do { s1 \<leftarrow> thread_kill t s; Some (d, s1) }
     else Some (d, set_status t TASK_EXITING s)
   }"

fun kill_threads :: "addr list \<Rightarrow> u64 \<times> 'd kstate \<Rightarrow> (u64 \<times> 'd kstate) option" where
  "kill_threads [] r = Some r"
| "kill_threads (t # ts) r = do { r1 \<leftarrow> kill_thread t r; kill_threads ts r1 }"

text \<open>When no thread is left, what the process holds is released.\<close>

definition kill_finish :: "int \<Rightarrow> u64 \<Rightarrow> 'd kstate \<Rightarrow> 'd kstate option" where
  "kill_finish i pgdir s =
     (if pcb_search_all i s = [] then do {
        s1 \<leftarrow> ress_release_killed i s;
        (_, m) \<leftarrow> free_pages_of_proc pgdir i (vm s1);
        let s2 = s1\<lparr>vm := m\<rparr>;
        if i = pid_glush s2 then do { (g, s3) \<leftarrow> start_glush s2; Some (s3\<lparr>pid_glush := g\<rparr>) } else Some s2
      } else Some s)"

text \<open>\<^verbatim>\<open>do_kill\<close> of another process than the current one; \<^verbatim>\<open>do_scheduler\<close> calls it only so.\<close>

definition kill_other :: "int \<Rightarrow> 'd kstate \<Rightarrow> (int \<times> 'd kstate) option" where
  "kill_other i s =
     (if i < int NCPU then Some (INVALID_PID, s)
      else if pcb_search_all i s = [] then Some (INVALID_PID, s)
      else do {
        (pgdir, s1) \<leftarrow> kill_threads (pcb_search_all i s) (0, s);
        s2 \<leftarrow> kill_finish i pgdir s1;
        Some (i, s2)
      })"

section \<open>The scheduler\<close>

partial_function (option) check_sleeping_on_nic :: "'d kstate \<Rightarrow> 'd kstate option" where
  "check_sleeping_on_nic s =
     (if heads s NicRecvQ \<noteq> NULL \<and> req_len (pcbs s (heads s NicRecvQ)) \<le> drop_bit 1 RXDESCS
      then do { s1 \<leftarrow> unblock_head NicRecvQ s; check_sleeping_on_nic s1 } else Some s)"

text \<open>The hand-over to \<open>p\<close>, up to \<^verbatim>\<open>switch_to\<close>.\<close>

definition switch :: "addr \<Rightarrow> addr \<Rightarrow> 'd kstate \<Rightarrow> 'd kstate" where
  "switch c p s =
     (let s1 = (if status (pcbs s c) = TASK_RUNNING then set_status c TASK_READY s else s) in
      set_status p TASK_RUNNING (s1\<lparr>current_running := (current_running s1)[cpu_id s1 := p]\<rparr>))"

text \<open>The search at \<open>p\<close>; the answer says whether another process runs now.\<close>

partial_function (option) sched_loop :: "addr \<Rightarrow> addr \<Rightarrow> 'd kstate \<Rightarrow> (bool \<times> 'd kstate) option" where
  "sched_loop c p s =
     (if p = c then (if pid (cur_pcb s) \<ge> int NCPU then None else Some (False, s))
      else do {
        let nextp = pnext (pcbs s p);
        if can_run (cpu_id s) (pcbs s p) then Some (True, switch c p s)
        else if status (pcbs s p) = TASK_EXITED then do {
          let kpid = pid (pcbs s p);
          if kpid = pid (pcbs s c) then None
          else do { (r, s1) \<leftarrow> kill_other kpid s; if r \<noteq> kpid then None else sched_loop c nextp s1 }
        }
        else if status (pcbs s p) = TASK_ZOMBIE then do { s1 \<leftarrow> thread_kill p s; sched_loop c nextp s1 }
        else sched_loop c nextp s
      })"

definition do_scheduler :: "'d kstate \<Rightarrow> (bool \<times> 'd kstate) option" where
  "do_scheduler s = do {
     let c = cur_cpu s;
     s1 \<leftarrow> check_sleeping s;
     s2 \<leftarrow> check_sleeping_on_nic s1;
     if c = NULL then None else sched_loop c (pnext (pcbs s2 c)) s2
   }"

definition do_kill :: "int \<Rightarrow> 'd kstate \<Rightarrow> (int outcome \<times> 'd kstate) option" where
  "do_kill i s =
     (if i < int NCPU then Some (Done INVALID_PID, s)
      else if pcb_search_all i s = [] then Some (Done INVALID_PID, s)
      else do {
        (pgdir, s1) \<leftarrow> kill_threads (pcb_search_all i s) (0, s);
        if pid (cur_pcb s1) = i then do {
          (sw, s2) \<leftarrow> do_scheduler (set_status (cur_cpu s1) TASK_EXITED s1);
          if sw then Some (Blocked, s2) else None
        } else do {
          s2 \<leftarrow> kill_finish i pgdir s1;
          Some (Done i, s2)
        }
      })"

definition do_exit :: "'d kstate \<Rightarrow> (unit outcome \<times> 'd kstate) option" where
  "do_exit s = do {
     (r, s1) \<leftarrow> do_kill (pid (cur_pcb s)) s;
     case r of Blocked \<Rightarrow> Some (Blocked, s1) | Done v \<Rightarrow> if v \<noteq> pid (cur_pcb s1) then None else Some (Done (), s1)
   }"

section \<open>Threads\<close>

text \<open>The PCB of a thread copies the process of its creator.\<close>

definition do_thread_create :: "u64 \<Rightarrow> u64 \<Rightarrow> u64 \<Rightarrow> u64 \<Rightarrow> 'd kstate \<Rightarrow> (int \<times> 'd kstate) option" where
  "do_thread_create entry arg sp exit s =
     (let t = alloc_tid s; c = cur_pcb s in
      if t = INVALID_TID \<or> get_proc_num s \<ge> int (UPROC_MAX + NCPU) then Some (INVALID_TID, s)
      else if \<not> (sp > seg_start c \<and> sp \<le> seg_end c \<or> sp > User_sp - USTACK_NPG * of_nat NORMAL_PAGE_SIZE \<and> sp \<le> User_sp) then Some (INVALID_TID, s)
      else if entry \<ge> KVA_MIN \<or> arg \<ge> KVA_MIN then Some (INVALID_TID, s)
      else do {
        (ks, h1) \<leftarrow> kmalloc_g Kstack_size (kh (fs s));
        if ks = NULL then Some (INVALID_TID, s\<lparr>fs := (fs s)\<lparr>kh := h1\<rparr>\<rparr>)
        else do {
          (qtemp, p, pm, h2) \<leftarrow> lpcb_add_node_to_tail (heads s ReadyQ) ReadyQ (pcbs s) h1;
          if qtemp = NULL then do { h3 \<leftarrow> kfree_g ks h2; Some (INVALID_TID, s\<lparr>pcbs := pm, fs := (fs s)\<lparr>kh := h3\<rparr>\<rparr>) }
          else do {
            let s1 = set_queue ReadyQ qtemp pm (s\<lparr>fs := (fs s)\<lparr>kh := h2\<rparr>\<rparr>);
            nm \<leftarrow> copy_name (pname c);
            cp \<leftarrow> strcpy (cpath (pfiles (pcbs s1 p))) 0 (cpath (pfiles c)) 0;
            let (pf1, f1) = fd_init \<lparr>cpath = cp, cur_ino = cur_ino (pfiles c), fds = fds (pfiles (pcbs s1 p))\<rparr> (Some (pfiles c)) (fs s1);
            (node, f2) \<leftarrow> flist_inc_fnode (cur_ino (pfiles c)) False f1;
            let f3 = (if node = NULL then GFS_panic f2 else f2);
            let s2 = upd_pcb p (\<lambda>d. d\<lparr>pid := pid c, tid := t, status := TASK_READY, cpu_mask := NOT 0, kernel_stack := ks, pname := nm, pfiles := pf1,
              pgdir_kva := pgdir_kva c, seg_start := seg_start c, seg_end := seg_end c, cursor_x := 0, cursor_y := 0, cylim_l := -1, cylim_h := -1\<rparr>)
              (set_head (WaitQ p) NULL (s1\<lparr>fs := f3\<rparr>));
            let s3 = init_pcb_stack ks entry p s2;
            let tf = trapframe (pcbs s3 p);
            let r = trapframes s3 tf;
            let s4 = s3\<lparr>trapframes := (trapframes s3)(tf := r\<lparr>tf_regs := (tf_regs r)[10 := arg]\<rparr>)\<rparr>;
            let s5 = upd_pcb p (\<lambda>d. d\<lparr>user_sp := ROUNDDOWN sp SP_ALIGN\<rparr>) s4;
            let r2 = trapframes s5 tf;
            let s6 = s5\<lparr>trapframes := (trapframes s5)(tf := r2\<lparr>tf_regs := (tf_regs r2)[1 := exit]\<rparr>)\<rparr>;
            (rt, s7) \<leftarrow> pcb_table_add p s6;
            if rt < 0 then None else Some (t, s7)
          }
        }
      })"

definition do_thread_exit :: "'d kstate \<Rightarrow> (unit outcome \<times> 'd kstate) option" where
  "do_thread_exit s = do {
     let c = cur_cpu s;
     s1 \<leftarrow> (if tid (pcbs s c) = 0 then do { (r, s1) \<leftarrow> do_exit s; Some (r, s1) } else Some (Done (), s));
     case s1 of (Blocked, s2) \<Rightarrow> Some (Blocked, s2)
     | (Done _, s2) \<Rightarrow> do {
         (sw, s3) \<leftarrow> do_scheduler (set_status c TASK_ZOMBIE s2);
         if sw then Some (Blocked, s3) else None
       }
   }"

section \<open>Fork\<close>

text \<open>One entry of an L0 page table of the parent, at \<open>pe\<close>, for the entry at \<open>ce\<close> of the child.\<close>

definition fork_pte :: "u64 \<Rightarrow> u64 \<Rightarrow> u64 \<Rightarrow> int \<Rightarrow> 'd kstate \<Rightarrow> 'd kstate option" where
  "fork_pte va ce pe pd s =
     (if ptes (vm s) pe = 0 then Some s
      else do {
        s1 \<leftarrow> (if get_attribute (ptes (vm s) pe) PAGE_PRESENT = 0 then do { (_, s1) \<leftarrow> swap_from_disk pe va s; Some s1 } else Some s);
        let e = ptes (vm s1) pe;
        if get_attribute e PAGE_XWR = 0 then None
        else if get_attribute e PAGE_SHARED \<noteq> 0 then
          (if get_attribute e PAGE_COW \<noteq> 0 then None
           else do {
             (kva, s2) \<leftarrow> alloc_page 1 pd va s1;
             let m1 = copy_frame kva (pa2kva (get_pa (ptes (vm s2) pe))) (vm s2);
             let m2 = set_pte ce (set_pfn (ptes m1 ce) (drop_bit NORMAL_PAGE_SHIFT (kva2pa kva))) m1;
             Some (s2\<lparr>vm := set_pte ce (set_attribute (ptes m2 ce) PAGE_VURWXAD) m2\<rparr>)
           })
        else if get_attribute e PAGE_COW \<noteq> 0 then do {
          let m1 = set_pte ce e (vm s1);
          let k = unat (get_pgidx (ptes m1 pe));
          c \<leftarrow> nth_chk (pg_charmap m1) k;
          u \<leftarrow> nth_chk (pg_uva m1) k;
          if c \<noteq> CMAP_SHARED \<or> u > of_nat UPROC_MAX then None
          else Some (s1\<lparr>vm := m1\<lparr>pg_uva := (pg_uva m1)[k := u + 1]\<rparr>\<rparr>)
        } else do {
          let m1 = set_pte pe (set_attribute e PAGE_COW) (vm s1);
          let m2 = set_pte pe (clear_attribute (ptes m1 pe) PAGE_WRITE) m1;
          let m3 = set_pte ce (ptes m2 pe) m2;
          let k = unat (get_pgidx (ptes m3 pe));
          cm \<leftarrow> upd_chk (pg_charmap m3) k CMAP_SHARED;
          us \<leftarrow> upd_chk (pg_uva m3) k 2;
          Some (s1\<lparr>vm := m3\<lparr>pg_charmap := cm, pg_uva := us\<rparr>\<rparr>)
        }
      })"

definition link_table :: "u64 \<Rightarrow> int \<Rightarrow> mm \<Rightarrow> (u64 \<times> mm) option" where
  "link_table ce pd m = do {
     (t, m1) \<leftarrow> alloc_pagetable pd m;
     let m2 = set_pte ce (set_pfn (ptes m1 ce) (drop_bit NORMAL_PAGE_SHIFT (kva2pa t))) m1;
     Some (t, set_pte ce (set_attribute (ptes m2 ce) PAGE_PRESENT) m2)
   }"

definition fork_l1_entry :: "nat \<Rightarrow> nat \<Rightarrow> u64 \<Rightarrow> u64 \<Rightarrow> int \<Rightarrow> 'd kstate \<Rightarrow> 'd kstate option" where
  "fork_l1_entry i j l1 l1p pd s =
     (let e = ptes (vm s) (l1p + 8 * of_nat j) in
      if get_attribute e PAGE_PRESENT \<noteq> 0 then
        if get_attribute e PAGE_XWR \<noteq> 0 then None
        else do {
          (l0, m) \<leftarrow> link_table (l1 + 8 * of_nat j) pd (vm s);
          let l0p = pa2kva (get_pa e);
          for_each [0..<512] (\<lambda>k. fork_pte (vpn2va (of_nat i) (of_nat j) (of_nat k)) (l0 + 8 * of_nat k) (l0p + 8 * of_nat k) pd) (s\<lparr>vm := m\<rparr>)
        }
      else Some s)"

definition fork_l2_entry :: "nat \<Rightarrow> u64 \<Rightarrow> u64 \<Rightarrow> int \<Rightarrow> 'd kstate \<Rightarrow> 'd kstate option" where
  "fork_l2_entry i d dp pd s =
     (let e = ptes (vm s) (dp + 8 * of_nat i) in
      if get_attribute e PAGE_PRESENT \<noteq> 0 then
        if get_attribute e PAGE_XWR \<noteq> 0 then None
        else do {
          (l1, m) \<leftarrow> link_table (d + 8 * of_nat i) pd (vm s);
          let l1p = pa2kva (get_pa e);
          for_each [0..<512] (\<lambda>j. fork_l1_entry i j l1 l1p pd) (s\<lparr>vm := m\<rparr>)
        }
      else Some s)"

definition fork_space :: "u64 \<Rightarrow> u64 \<Rightarrow> int \<Rightarrow> 'd kstate \<Rightarrow> 'd kstate option" where
  "fork_space d dp pd s = for_each [0..<256] (\<lambda>i. fork_l2_entry i d dp pd) s"

definition do_fork :: "'d kstate \<Rightarrow> (int \<times> 'd kstate) option" where
  "do_fork s =
     (let c = cur_pcb s in
      if csr_sstatus s AND SR_SPP \<noteq> 0 \<or> trapframe c \<noteq> kernel_sp c then None
      else if length (pcb_search_all (pid c) s) > 1 then Some (INVALID_PID, s)
      else if get_proc_num s \<ge> int (UPROC_MAX + NCPU) \<or> alloc_pid s = INVALID_PID then Some (INVALID_PID, s)
      else do {
        let pd = alloc_pid s;
        (ks, h1) \<leftarrow> kmalloc_g Kstack_size (kh (fs s));
        if ks = NULL then Some (INVALID_PID, s\<lparr>fs := (fs s)\<lparr>kh := h1\<rparr>\<rparr>)
        else do {
          (qtemp, p, pm, h2) \<leftarrow> lpcb_add_node_to_tail (heads s ReadyQ) ReadyQ (pcbs s) h1;
          if qtemp = NULL then do { h3 \<leftarrow> kfree_g ks h2; Some (INVALID_PID, s\<lparr>pcbs := pm, fs := (fs s)\<lparr>kh := h3\<rparr>\<rparr>) }
          else do {
            let s1 = set_queue ReadyQ qtemp pm (s\<lparr>fs := (fs s)\<lparr>kh := h2\<rparr>\<rparr>);
            let sp = of_nat ks + (kernel_sp c - of_nat (kernel_stack c));
            nm \<leftarrow> copy_name (pname c);
            cp \<leftarrow> strcpy (cpath (pfiles (pcbs s1 p))) 0 (cpath (pfiles c)) 0;
            let (pf1, f1) = fd_init \<lparr>cpath = cp, cur_ino = cur_ino (pfiles c), fds = fds (pfiles (pcbs s1 p))\<rparr> (Some (pfiles c)) (fs s1);
            (node, f2) \<leftarrow> flist_inc_fnode (cur_ino (pfiles c)) False f1;
            let f3 = (if node = NULL then GFS_panic f2 else f2);
            let s2 = upd_pcb p (\<lambda>d. d\<lparr>pid := pd, tid := 0, status := TASK_READY, cpu_mask := cpu_mask c, kernel_stack := ks, pname := nm, pfiles := pf1,
              kernel_sp := sp, user_sp := user_sp c, trapframe := sp, seg_start := seg_start c, seg_end := seg_end c,
              cursor_x := cursor_x c, cursor_y := cursor_y c, cylim_l := cylim_l c, cylim_h := cylim_h c\<rparr>)
              (set_head (WaitQ p) NULL (s1\<lparr>fs := f3\<rparr>));
            (rt, s3) \<leftarrow> pcb_table_add p s2;
            if rt < 0 then None
            else do {
              let r = trapframes s3 (trapframe c);
              let s4 = upd_pcb p (\<lambda>d. d\<lparr>ctx_regs := (ctx_regs d)[0 := ret_from_exception s3, 1 := sp]\<rparr>)
                (s3\<lparr>trapframes := (trapframes s3)(sp := r\<lparr>tf_regs := (tf_regs r)[4 := of_nat p, 10 := 0]\<rparr>)\<rparr>);
              (pgdir, m) \<leftarrow> alloc_pagetable pd (vm s4);
              let s5 = upd_pcb p (\<lambda>d. d\<lparr>pgdir_kva := pgdir\<rparr>) (s4\<lparr>vm := share_pgtable pgdir (pgdir_kva c) m\<rparr>);
              s6 \<leftarrow> fork_space pgdir (pgdir_kva c) pd s5;
              Some (pd, s6)
            }
          }
        }
      })"

end
