(* ===== verification/ForkSpace.thy ===== *)
theory ForkSpace
  imports Process
begin

text \<open>
  The address space of a forked process (properties of \<^verbatim>\<open>do_fork\<close> in \<^verbatim>\<open>kernel/sched/sched-fork.c\<close>).

  \<open>fork_space\<close> walks the page tables of the parent and builds those of the child. The loops share one invariant, \<open>copying\<close>:
  the pages up to the place the loops have reached are shared copy-on-write by both processes, the pages after it are as before,
  and the tables of the child are at the positions the parent has tables at.
\<close>

section \<open>An entry that is shared\<close>

definition forked :: "u64 \<Rightarrow> u64" where
  "forked e = (if e = 0 \<or> get_attribute e PAGE_COW \<noteq> 0 then e else clear_attribute (set_attribute e PAGE_COW) PAGE_WRITE)"

definition forkable :: "u64 \<Rightarrow> bool" where
  "forkable e \<longleftrightarrow> e = 0 \<or> get_attribute e PAGE_PRESENT \<noteq> 0 \<and> get_attribute e PAGE_READ \<noteq> 0 \<and> get_attribute e PAGE_SHARED = 0"

lemma forked_0 [simp]: "forked 0 = 0" "forkable 0"
  by (simp_all add: forked_def forkable_def)

lemma attr_bit: "get_attribute e (2 ^ n) \<noteq> 0 \<longleftrightarrow> n < 10 \<and> bit e n"
proof -
  have "bit (get_attribute e (2 ^ n)) k \<longleftrightarrow> k = n \<and> n < 10 \<and> bit e n" for k
    by (auto simp: get_attribute_def PAGE_ATTRIBUTE_MASK_def bit_simps)
  then show ?thesis by (metis bit_0_eq bit_eq_iff bot_apply bot_bool_def)
qed

lemma attr_bits:
  "get_attribute e PAGE_PRESENT \<noteq> 0 \<longleftrightarrow> bit e 0" "get_attribute e PAGE_READ \<noteq> 0 \<longleftrightarrow> bit e 1" "get_attribute e PAGE_WRITE \<noteq> 0 \<longleftrightarrow> bit e 2"
  "get_attribute e PAGE_EXEC \<noteq> 0 \<longleftrightarrow> bit e 3" "get_attribute e PAGE_SHARED \<noteq> 0 \<longleftrightarrow> bit e 8" "get_attribute e PAGE_COW \<noteq> 0 \<longleftrightarrow> bit e 9"
  using attr_bit[of e 0] attr_bit[of e 1] attr_bit[of e 2] attr_bit[of e 3] attr_bit[of e 8] attr_bit[of e 9] by (simp_all add: pgattr)

lemma attr_xwr: "get_attribute e PAGE_XWR \<noteq> 0 \<longleftrightarrow> bit e 1 \<or> bit e 2 \<or> bit e 3"
proof -
  have "get_attribute e PAGE_XWR = (get_attribute e PAGE_EXEC OR get_attribute e PAGE_WRITE) OR get_attribute e PAGE_READ"
    unfolding get_attribute_def PAGE_XWR_def by (rule bit_word_eqI) (auto simp: bit_simps)
  moreover have "v OR w = 0 \<longleftrightarrow> v = 0 \<and> w = 0" for v w :: u64 by (auto simp: bit_eq_iff bit_simps)
  ultimately show ?thesis using attr_bits(2-4)[of e] by metis
qed

lemma bit_set_attribute: "bit (set_attribute e (2 ^ n)) k \<longleftrightarrow> bit e k \<or> k = n \<and> n < 10"
  by (auto simp: set_attribute_def PAGE_ATTRIBUTE_MASK_def bit_simps)

lemma bit_clear_attribute: "bit (clear_attribute e (2 ^ n)) k \<longleftrightarrow> bit e k \<and> \<not> (k = n \<and> n < 10)"
  using bit_imp_le_length[of e k] by (auto simp: clear_attribute_def PAGE_ATTRIBUTE_MASK_def bit_simps)

lemma forked_bits:
  assumes "e \<noteq> 0" and "\<not> bit e 9"
  shows "bit (forked e) n \<longleftrightarrow> (bit e n \<or> n = 9) \<and> n \<noteq> 2"
proof -
  have a: "PAGE_COW = 2 ^ 9" "PAGE_WRITE = 2 ^ 2" by (simp_all add: pgattr)
  have "forked e = clear_attribute (set_attribute e PAGE_COW) PAGE_WRITE" using assms attr_bits(6)[of e] by (simp add: forked_def)
  then show ?thesis unfolding a by (auto simp only: bit_set_attribute bit_clear_attribute)
qed

lemma forked_simps:
  assumes "forkable e" and "e \<noteq> 0"
  shows "get_attribute (forked e) PAGE_PRESENT \<noteq> 0" "get_attribute (forked e) PAGE_COW \<noteq> 0" "get_attribute (forked e) PAGE_XWR \<noteq> 0"
    "get_attribute (forked e) PAGE_SHARED = 0" "points (forked e) j = points e j" "forkable (forked e)" "get_pa (forked e) = get_pa e"
    "get_attribute e PAGE_COW = 0 \<Longrightarrow> get_attribute (forked e) PAGE_WRITE = 0"
proof -
  have b: "bit e 0" "bit e 1" "\<not> bit e 8" using assms attr_bits[of e] by (auto simp: forkable_def)
  have f: "bit (forked e) 0" "bit (forked e) 1" "bit (forked e) 9" "\<not> bit (forked e) 8"
    using b forked_bits[OF assms(2)] assms(2) attr_bits(6)[of e] by (cases "bit e 9"; simp add: forked_def)+
  show p: "get_attribute (forked e) PAGE_PRESENT \<noteq> 0" "get_attribute (forked e) PAGE_COW \<noteq> 0" "get_attribute (forked e) PAGE_XWR \<noteq> 0"
    "get_attribute (forked e) PAGE_SHARED = 0" using f attr_bits[of "forked e"] attr_xwr[of "forked e"] by blast+
  show pa: "get_pa (forked e) = get_pa e" by (simp add: forked_def)
  show "points (forked e) j = points e j" using p(1) b(1) attr_bits(1)[of e] by (simp add: points_def pa)
  show "forkable (forked e)" using p f attr_bits[of "forked e"] by (simp add: forkable_def)
  show "get_attribute (forked e) PAGE_WRITE = 0" if "get_attribute e PAGE_COW = 0"
    using forked_bits[OF assms(2), of 2] attr_bits(3)[of "forked e"] attr_bits(6)[of e] that by blast
qed

lemma pages_fork:
  assumes ok: "pages_ok m D" and D: "d \<in> D" "dp \<in> D" "d \<noteq> dp" "c < 512" and e: "forkable (pte_of m dp a b c)" "pte_of m dp a b c \<noteq> 0"
    and j: "j < 51200" "points (pte_of m dp a b c) j" and new: "\<And>x y z. (d, x, y, z) \<notin> mapped m D j"
    and z: "pte_of m d a b c = 0"
    and ch: "\<And>d' a' b' c'. d' \<in> D \<Longrightarrow> c' < 512 \<Longrightarrow> pte_of m' d' a' b' c' =
      (if (d' = d \<or> d' = dp) \<and> a' = a \<and> b' = b \<and> c' = c then forked (pte_of m dp a b c) else pte_of m d' a' b' c')"
    and cm: "length (pg_charmap m) = 51200" "pg_charmap m' = (pg_charmap m)[j := CMAP_SHARED]"
    and uv: "length (pg_uva m) = 51200" "pg_uva m' = (pg_uva m)[j := if get_attribute (pte_of m dp a b c) PAGE_COW \<noteq> 0 then pg_uva m ! j + 1 else 2]"
    and u: "get_attribute (pte_of m dp a b c) PAGE_COW \<noteq> 0 \<Longrightarrow> pg_uva m ! j < 16"
  shows "pages_ok m' D"
proof -
  let ?e = "pte_of m dp a b c"
  note f = forked_simps[OF e]
  have pj: "points ?e i \<longleftrightarrow> i = j" if "i < 51200" for i using points_unique j that by blast
  have in_j: "(dp, a, b, c) \<in> mapped m D j" using D j by (simp add: mapped_def)
  have here: "pte_of m' d' a b c = forked ?e" if "d' = d \<or> d' = dp" for d' using ch[of d' c a b] D that by auto
  have elsewhere: "pte_of m' d' a' b' c' = pte_of m d' a' b' c'" if "d' \<in> D" "c' < 512" "\<not> ((d' = d \<or> d' = dp) \<and> a' = a \<and> b' = b \<and> c' = c)" for d' a' b' c'
    unfolding ch[OF that(1,2)] using that(3) by (rule if_not_P)
  have mem: "(d', a', b', c') \<in> mapped m' D i \<longleftrightarrow> (if i = j then (d', a', b', c') = (d, a, b, c) \<or> (d', a', b', c') \<in> mapped m D j else (d', a', b', c') \<in> mapped m D i)"
    if i: "i < 51200" for d' a' b' c' i
  proof (cases "d' \<in> D \<and> c' < 512 \<and> (d' = d \<or> d' = dp) \<and> a' = a \<and> b' = b \<and> c' = c")
    case True
    then have "(d', a', b', c') \<in> mapped m' D i \<longleftrightarrow> i = j" using here[of d'] f(5) pj[OF i] by (auto simp: mapped_def)
    moreover have "(d', a', b', c') \<in> mapped m D i \<longleftrightarrow> d' = dp \<and> i = j" using True z pj[OF i] D(3) by (auto simp: mapped_def points_def)
    ultimately show ?thesis using True in_j by auto
  next
    case False
    then show ?thesis using elsewhere[of d' c' a' b'] D by (auto simp: mapped_def)
  qed
  then have mj: "mapped m' D j = insert (d, a, b, c) (mapped m D j)" and mi: "\<And>i. i < 51200 \<Longrightarrow> i \<noteq> j \<Longrightarrow> mapped m' D i = mapped m D i"
    using j(1) by (auto split: if_splits)
  have in_D: "d' \<in> D" "c' < 512" "points (pte_of m d' a' b' c') i" if "(d', a', b', c') \<in> mapped m D i" for d' a' b' c' i
    using that by (simp_all add: mapped_def)
  have same: "pte_of m' d' a' b' c' = pte_of m d' a' b' c'" if "(d', a', b', c') \<in> mapped m D i" "i < 51200" "i \<noteq> j \<or> (d', a', b', c') \<noteq> (dp, a, b, c)" for d' a' b' c' i
  proof (rule elsewhere[OF in_D(1,2)[OF that(1)]])
    show "\<not> ((d' = d \<or> d' = dp) \<and> a' = a \<and> b' = b \<and> c' = c)"
      using in_D(3)[OF that(1)] z pj[OF that(2)] that(3) by (auto simp: points_def)
  qed
  have cm': "pg_charmap m' ! i = (if i = j then CMAP_SHARED else pg_charmap m ! i)" for i using cm j(1) by simp
  have uv': "pg_uva m' ! i = (if i = j then (if get_attribute ?e PAGE_COW \<noteq> 0 then pg_uva m ! j + 1 else 2) else pg_uva m ! i)" for i using uv j(1) by simp
  have fin: "finite (mapped m D j)" using ok finite_mapped by (auto simp: pages_ok_def)
  have e_shared: "get_attribute ?e PAGE_SHARED = 0" using e by (simp add: forkable_def)
  have count: "card (mapped m' D j) \<le> unat (pg_uva m' ! j) \<and> pg_uva m' ! j \<le> 16"
  proof (cases "get_attribute ?e PAGE_COW = 0")
    case True
    then have "mapped m D j = {(dp, a, b, c)}" using pages_okM(2)[OF ok j(1) in_j] e_shared by blast
    then show ?thesis using True D(3) unfolding mj uv' by simp
  next
    case False
    have n: "card (mapped m D j) \<le> unat (pg_uva m ! j)" using pages_okD(3)[OF ok D(2,4) j False] by blast
    have "unat (pg_uva m ! j + 1) = unat (pg_uva m ! j) + 1" using u[OF False] by (simp add: word_less_nat_alt unat_word_ariths)
    moreover have "unat (pg_uva m ! j) < 16" using u[OF False] by (simp add: word_less_nat_alt)
    ultimately show ?thesis using False n card_insert_le_m1[of "unat (pg_uva m ! j) + 1" "mapped m D j" "(d, a, b, c)"]
      unfolding mj uv' by (simp add: word_le_nat_alt)
  qed
  show ?thesis
  proof (rule pages_okI)
    show "finite D" using ok by (simp add: pages_ok_def)
  next
    fix d' a' b' c' assume dc: "d' \<in> D" "c' < (512 :: u64)" "get_attribute (pte_of m' d' a' b' c') PAGE_PRESENT \<noteq> 0"
    show "get_attribute (pte_of m' d' a' b' c') PAGE_XWR \<noteq> 0 \<and> (\<exists>i < 51200. points (pte_of m' d' a' b' c') i \<and> pg_charmap m' ! i \<noteq> CMAP_FREE)"
    proof (cases "(d' = d \<or> d' = dp) \<and> a' = a \<and> b' = b \<and> c' = c")
      case True
      then have "pte_of m' d' a' b' c' = forked ?e" using here by blast
      moreover have "pg_charmap m' ! j \<noteq> CMAP_FREE" by (simp add: cm' CMAP_SHARED_def CMAP_FREE_def)
      ultimately show ?thesis using f(3,5) j by auto
    next
      case False
      note s = elsewhere[OF dc(1,2) False]
      obtain i where i: "i < 51200" "points (pte_of m d' a' b' c') i" "pg_charmap m ! i \<noteq> CMAP_FREE" using pages_okD(2)[OF ok dc(1,2)] dc(3) s by auto
      have "pg_charmap m' ! i \<noteq> CMAP_FREE" using i(3) by (simp add: cm' CMAP_SHARED_def CMAP_FREE_def)
      then show ?thesis using pages_okD(1)[OF ok dc(1,2)] dc(3) i unfolding s by blast
    qed
  next
    fix i d' a' b' c' assume i: "i < 51200" and y: "(d', a', b', c') \<in> mapped m' D i" and cow: "get_attribute (pte_of m' d' a' b' c') PAGE_COW \<noteq> 0"
    show "card (mapped m' D i) \<le> unat (pg_uva m' ! i) \<and> pg_uva m' ! i \<le> 16 \<and> pg_charmap m' ! i = CMAP_SHARED"
    proof (cases "i = j")
      case True
      then show ?thesis using count cm' by simp
    next
      case False
      note y1 = y[unfolded mi[OF i False]]
      have cow1: "get_attribute (pte_of m d' a' b' c') PAGE_COW \<noteq> 0" using cow same[OF y1 i] False by simp
      then show ?thesis using pages_okD(3)[OF ok in_D(1,2)[OF y1] i in_D(3)[OF y1]] pages_okM(1)[OF ok i y1] False
        unfolding mi[OF i False] cm' uv' by simp
    qed
  next
    fix i d' a' b' c' assume i: "i < 51200" and y: "(d', a', b', c') \<in> mapped m' D i" and q: "get_attribute (pte_of m' d' a' b' c') PAGE_COW = 0"
      "get_attribute (pte_of m' d' a' b' c') PAGE_SHARED = 0"
    have nf: "(d', a', b', c') \<noteq> (d, a, b, c)" "(d', a', b', c') \<noteq> (dp, a, b, c)" using q(1) here f(2) by auto
    have y1: "(d', a', b', c') \<in> mapped m D i" using y nf(1) mj mi[OF i] by (cases "i = j") auto
    have s: "mapped m D i = {(d', a', b', c')}" using pages_okM(2)[OF ok i y1] q same[OF y1 i] nf(2) by auto
    show "mapped m' D i = {(d', a', b', c')}"
    proof (cases "i = j")
      case True
      then show ?thesis using s in_j nf(2) by auto
    next
      case False
      then show ?thesis using s mi[OF i] by simp
    qed
  next
    fix i d' a' b' c' x y z assume i: "i < 51200" and y: "(d', a', b', c') \<in> mapped m' D i" "(d', x, y, z) \<in> mapped m' D i"
    show "x = a' \<and> y = b' \<and> z = c'"
    proof (cases "i = j")
      case True
      then have "(d', a', b', c') \<in> mapped m D j \<and> (d', x, y, z) \<in> mapped m D j \<or> (d', a', b', c') = (d, a, b, c) \<and> (d', x, y, z) = (d, a, b, c)"
        using y new unfolding True mj by auto
      then show ?thesis using pages_okM(3)[OF ok j(1)] by blast
    next
      case False
      then show ?thesis using pages_okM(3)[OF ok i y(1)[unfolded mi[OF i False]] y(2)[unfolded mi[OF i False]]] by blast
    qed
  qed
qed

section \<open>The invariant of the loops\<close>

definition below :: "mm \<Rightarrow> u64 \<Rightarrow> tpos set" where
  "below m d = {q. q \<noteq> Root \<and> tab m d q \<noteq> None}"

definition fork_start :: "u64 set \<Rightarrow> u64 \<Rightarrow> u64 \<Rightarrow> mm \<Rightarrow> bool" where
  "fork_start D d dp m \<longleftrightarrow> vm_ok m D \<and> pages_ok m D \<and> d \<in> D \<and> dp \<in> D \<and> d \<noteq> dp \<and> below m d = {} \<and>
     card (below m dp) \<le> free_count (pgtb_charmap m) \<and>
     (\<forall>a b c. c < 512 \<longrightarrow> forkable (pte_of m dp a b c)) \<and>
     (\<forall>j < 51200. \<forall>a b c. c < 512 \<longrightarrow> points (pte_of m dp a b c) j \<longrightarrow> get_attribute (pte_of m dp a b c) PAGE_COW \<noteq> 0 \<longrightarrow> pg_uva m ! j < 16)"

text \<open>\<open>P\<close> are the pages that have been copied, \<open>T\<close> the positions of the tables the child has got.\<close>

definition copying :: "u64 set \<Rightarrow> u64 \<Rightarrow> u64 \<Rightarrow> mm \<Rightarrow> (u64 \<Rightarrow> u64 \<Rightarrow> u64 \<Rightarrow> bool) \<Rightarrow> tpos set \<Rightarrow> mm \<Rightarrow> bool" where
  "copying D d dp m0 P T m \<longleftrightarrow> vm_ok m D \<and> pages_ok m D \<and> umem m = umem m0 \<and>
     (\<forall>a b c. c < 512 \<longrightarrow> pte_of m dp a b c = (if P a b c then forked (pte_of m0 dp a b c) else pte_of m0 dp a b c)) \<and>
     (\<forall>a b c. c < 512 \<longrightarrow> pte_of m d a b c = (if P a b c then forked (pte_of m0 dp a b c) else 0)) \<and>
     (\<forall>d' \<in> D - {d, dp}. \<forall>a b c. c < 512 \<longrightarrow> pte_of m d' a b c = pte_of m0 d' a b c) \<and>
     (\<forall>j < 51200. (\<forall>a b c. c < 512 \<longrightarrow> P a b c \<longrightarrow> \<not> points (pte_of m0 dp a b c) j) \<longrightarrow> pg_uva m ! j = pg_uva m0 ! j) \<and>
     (\<forall>q. tab m dp q = tab m0 dp q) \<and> below m d = T \<and> T \<subseteq> below m0 dp \<and>
     free_count (pgtb_charmap m) + card T = free_count (pgtb_charmap m0) \<and> pg_ffree m = pg_ffree m0"

lemma fork_startD:
  assumes "fork_start D d dp m"
  shows "vm_ok m D" "pages_ok m D" "d \<in> D" "dp \<in> D" "d \<noteq> dp" "below m d = {}" "card (below m dp) \<le> free_count (pgtb_charmap m)"
    "c < 512 \<Longrightarrow> forkable (pte_of m dp a b c)"
    "j < 51200 \<Longrightarrow> c < 512 \<Longrightarrow> points (pte_of m dp a b c) j \<Longrightarrow> get_attribute (pte_of m dp a b c) PAGE_COW \<noteq> 0 \<Longrightarrow> pg_uva m ! j < 16"
  using assms unfolding fork_start_def by blast+

lemma copyingD:
  assumes "copying D d dp m0 P T m"
  shows "vm_ok m D" "pages_ok m D" "umem m = umem m0"
    "c < 512 \<Longrightarrow> pte_of m dp a b c = (if P a b c then forked (pte_of m0 dp a b c) else pte_of m0 dp a b c)"
    "c < 512 \<Longrightarrow> pte_of m d a b c = (if P a b c then forked (pte_of m0 dp a b c) else 0)"
    "d' \<in> D - {d, dp} \<Longrightarrow> c < 512 \<Longrightarrow> pte_of m d' a b c = pte_of m0 d' a b c"
    "j < 51200 \<Longrightarrow> (\<And>a b c. c < 512 \<Longrightarrow> P a b c \<Longrightarrow> \<not> points (pte_of m0 dp a b c) j) \<Longrightarrow> pg_uva m ! j = pg_uva m0 ! j"
    "tab m dp q = tab m0 dp q" "below m d = T" "T \<subseteq> below m0 dp" "free_count (pgtb_charmap m) + card T = free_count (pgtb_charmap m0)"
    "pg_ffree m = pg_ffree m0"
  using assms unfolding copying_def by blast+

lemma pte_of_none: "tab m d (leaf_pos a b) = None \<Longrightarrow> pte_of m d a b c = 0"
  by (simp add: pte_of_def)

lemma copying_start:
  assumes "fork_start D d dp m"
  shows "copying D d dp m (\<lambda>_ _ _. False) {} m"
proof -
  have "tab m d (leaf_pos a b) = None" for a b using fork_startD(6)[OF assms] by (auto simp: below_def leaf_pos_def simp del: tab.simps)
  then show ?thesis using fork_startD[OF assms] by (simp add: copying_def pte_of_none)
qed

text \<open>Empty entries need no copy.\<close>

lemma copying_skip:
  assumes c: "copying D d dp m0 P T m" and sub: "\<And>a b c. P a b c \<Longrightarrow> Q a b c" and z: "\<And>a b c. c < 512 \<Longrightarrow> Q a b c \<Longrightarrow> \<not> P a b c \<Longrightarrow> pte_of m0 dp a b c = 0"
  shows "copying D d dp m0 Q T m"
proof -
  have "pte_of m dp a b c = (if Q a b c then forked (pte_of m0 dp a b c) else pte_of m0 dp a b c)"
    "pte_of m d a b c = (if Q a b c then forked (pte_of m0 dp a b c) else 0)" if "c < 512" for a b c
    using copyingD(4,5)[OF c that, of a b] sub[of a b c] z[OF that, of a b] by (auto split: if_splits)
  moreover have "pg_uva m ! j = pg_uva m0 ! j" if "j < 51200" "\<forall>a b c. c < 512 \<longrightarrow> Q a b c \<longrightarrow> \<not> points (pte_of m0 dp a b c) j" for j
    using copyingD(7)[OF c that(1)] that(2) sub by blast
  ultimately show ?thesis using c unfolding copying_def by simp
qed

lemma frame_idx: "points e j \<Longrightarrow> j < 51200 \<Longrightarrow> unat (get_pgidx e) = j"
  using frame_index_frame[of j] by (simp add: points_def get_pgidx_def frame_index_def)

text \<open>Both entries of a page are written.\<close>

lemma pte_write_two:
  fixes e :: u64
  assumes ok: "spaces_ok m D" and D: "d \<in> D" "dp \<in> D" and t: "tab m d (leaf_pos a b) = Some t" "tab m dp (leaf_pos a b) = Some tp" and c: "c < 512"
  defines "m' \<equiv> set_pte (t + 8 * c) e (set_pte (tp + 8 * c) e m)"
  shows "d' \<in> D \<Longrightarrow> tab m' d' q = tab m d' q" "spaces_ok m' D"
    "d' \<in> D \<Longrightarrow> c' < 512 \<Longrightarrow> pte_of m' d' a' b' c' = (if (d' = d \<or> d' = dp) \<and> a' = a \<and> b' = b \<and> c' = c then e else pte_of m d' a' b' c')"
proof -
  note 1 = pte_write[OF ok D(2) t(2) c, where e = e]
  have t1: "tab (set_pte (tp + 8 * c) e m) d (leaf_pos a b) = Some t" using 1(1)[OF D(1)] t(1) by simp
  note 2 = pte_write[OF 1(2) D(1) t1 c, where e = e]
  show "d' \<in> D \<Longrightarrow> tab m' d' q = tab m d' q" using 1(1) 2(1) by (simp add: m'_def)
  show "spaces_ok m' D" using 2(2) by (simp add: m'_def)
  show "pte_of m' d' a' b' c' = (if (d' = d \<or> d' = dp) \<and> a' = a \<and> b' = b \<and> c' = c then e else pte_of m d' a' b' c')"
    if "d' \<in> D" "c' < 512" unfolding m'_def 2(3)[OF that] 1(3)[OF that] by auto
qed

lemma fork_pte_run:
  assumes ce: "ptes (vm s) ce = 0" and e: "ptes (vm s) pe = e" "forkable e" "e \<noteq> 0" and j: "points e j" "j < 51200"
    and l: "length (pg_charmap (vm s)) = 51200" "length (pg_uva (vm s)) = 51200"
    and cow: "get_attribute e PAGE_COW \<noteq> 0 \<Longrightarrow> pg_charmap (vm s) ! j = CMAP_SHARED \<and> pg_uva (vm s) ! j < 16"
  shows "fork_pte va ce pe pd s = Some (s\<lparr>vm := (set_pte ce (forked e) (set_pte pe (forked e) (vm s)))
    \<lparr>pg_charmap := (pg_charmap (vm s))[j := CMAP_SHARED],
     pg_uva := (pg_uva (vm s))[j := if get_attribute e PAGE_COW \<noteq> 0 then pg_uva (vm s) ! j + 1 else 2]\<rparr>\<rparr>)"
proof -
  have a: "get_attribute e PAGE_PRESENT \<noteq> 0" "get_attribute e PAGE_SHARED = 0" "get_attribute e PAGE_XWR \<noteq> 0"
    using e(2,3) attr_xwr[of e] attr_bits(2)[of e] by (auto simp: forkable_def)
  note ji = frame_idx[OF j]
  have ne: "ce \<noteq> pe" using ce e by auto
  show ?thesis
  proof (cases "get_attribute e PAGE_COW = 0")
    case True
    have f: "clear_attribute (set_attribute e PAGE_COW) PAGE_WRITE = forked e" using True e(3) by (simp add: forked_def)
    have "get_pgidx (forked e) = get_pgidx e" using forked_simps(7)[OF e(2,3)] by (simp add: get_pgidx_def)
    then show ?thesis using True a e ji j(2) l ne f
      by (simp add: fork_pte_def Let_def set_pte_def upd_chk_def)
  next
    case False
    have f: "forked e = e" using False by (simp add: forked_def)
    have u: "pg_uva (vm s) ! j \<le> 16" using cow[OF False] by (simp add: order.strict_implies_order)
    have s: "(pg_charmap (vm s))[j := CMAP_SHARED] = pg_charmap (vm s)" using cow[OF False] by (metis list_update_id)
    have p: "(ptes (vm s))(pe := e, ce := e) = (ptes (vm s))(ce := e)" using e(1) by (metis fun_upd_triv)
    show ?thesis using False a e(1,3) ji j(2) l ne u cow[OF False] unfolding f s
      by (simp add: fork_pte_def Let_def set_pte_def nth_chk_def UPROC_MAX_def not_less p)
  qed
qed

lemma cmap_mark: "cmap_ok n cm ff \<Longrightarrow> j < n \<Longrightarrow> cm ! j \<noteq> CMAP_FREE \<Longrightarrow> c \<noteq> CMAP_FREE \<Longrightarrow> cmap_ok n (cm[j := c]) ff"
  by (auto simp: cmap_ok_def nth_list_update)

lemma copy_page:
  assumes st: "fork_start D d dp m0" and cp: "copying D d dp m0 P T (vm s)" and np: "\<not> P a b c" and c: "c < 512"
    and t: "tab (vm s) d (leaf_pos a b) = Some t" "tab m0 dp (leaf_pos a b) = Some tp"
  shows "\<exists>m'. fork_pte va (t + 8 * c) (tp + 8 * c) pd s = Some (s\<lparr>vm := m'\<rparr>) \<and>
    copying D d dp m0 (\<lambda>x y z. P x y z \<or> x = a \<and> y = b \<and> z = c) T m' \<and> (\<forall>q. tab m' d q = tab (vm s) d q)"
proof -
  let ?e = "pte_of m0 dp a b c" and ?m = "vm s" and ?ce = "t + 8 * c" and ?pe = "tp + 8 * c"
  note D = fork_startD(3-5)[OF st] and ok = copyingD(1,2)[OF cp]
  have e: "pte_of ?m dp a b c = ?e" "forkable ?e" using copyingD(4)[OF cp c, of a b] np fork_startD(8)[OF st c] by simp_all
  have tp: "tab ?m dp (leaf_pos a b) = Some tp" using copyingD(8)[OF cp] t(2) by simp
  have slots: "ptes ?m ?pe = ?e" "ptes ?m ?ce = 0"
    using e(1) copyingD(5)[OF cp c, of a b] np t(1) tp by (simp_all add: pte_of_def)
  show ?thesis
  proof (cases "?e = 0")
    case True
    then have "fork_pte va ?ce ?pe pd s = Some (s\<lparr>vm := ?m\<rparr>)" using slots by (simp add: fork_pte_def)
    moreover have "copying D d dp m0 (\<lambda>x y z. P x y z \<or> x = a \<and> y = b \<and> z = c) T ?m"
      by (rule copying_skip[OF cp]) (use True in auto)
    ultimately show ?thesis by blast
  next
    case False
    have "get_attribute (pte_of ?m dp a b c) PAGE_PRESENT \<noteq> 0" using e False by (simp add: forkable_def)
    then obtain j where j: "j < 51200" "points ?e j" "pg_charmap ?m ! j \<noteq> CMAP_FREE" using pages_okD(2)[OF ok(2) D(2) c, of a b] e(1) by auto
    have in_j: "(dp, a, b, c) \<in> mapped ?m D j" using D c j(2) e(1) by (simp add: mapped_def)
    have other: "x = a \<and> y = b \<and> z = c" if "z < 512" "points (pte_of m0 dp x y z) j" for x y z
    proof -
      have "(dp, x, y, z) \<in> mapped m0 D j" "(dp, a, b, c) \<in> mapped m0 D j" using that D c j(2) by (simp_all add: mapped_def)
      then show ?thesis using pages_okM(3)[OF fork_startD(2)[OF st] j(1)] by blast
    qed
    have new: "(d, x, y, z) \<notin> mapped ?m D j" for x y z
    proof
      assume a: "(d, x, y, z) \<in> mapped ?m D j"
      then have z: "z < 512" and p: "points (pte_of ?m d x y z) j" by (simp_all add: mapped_def)
      have q: "P x y z" using p copyingD(5)[OF cp z, of x y] by (auto simp: points_def split: if_splits)
      then have f: "points (forked (pte_of m0 dp x y z)) j" using p copyingD(5)[OF cp z, of x y] by simp
      then have "pte_of m0 dp x y z \<noteq> 0" by (auto simp: points_def)
      then have "points (pte_of m0 dp x y z) j" using f forked_simps(5)[OF fork_startD(8)[OF st z]] by blast
      then show False using other[OF z] q np by blast
    qed
    have uva: "pg_uva ?m ! j = pg_uva m0 ! j" using copyingD(7)[OF cp j(1)] other np by blast
    have u: "pg_uva ?m ! j < 16" if "get_attribute ?e PAGE_COW \<noteq> 0" using fork_startD(9)[OF st j(1) c j(2) that] uva by simp
    have sh: "pg_charmap ?m ! j = CMAP_SHARED" if "get_attribute ?e PAGE_COW \<noteq> 0" using pages_okM(1)[OF ok(2) j(1) in_j] e(1) that by simp
    have l: "length (pg_charmap ?m) = 51200" "length (pg_uva ?m) = 51200" using vm_okD(3)[OF ok(1)] by (simp_all add: frames_ok_def cmap_ok_def)
    define m1 where "m1 = set_pte ?ce (forked ?e) (set_pte ?pe (forked ?e) ?m)"
    define m' where "m' = m1\<lparr>pg_charmap := (pg_charmap ?m)[j := CMAP_SHARED], pg_uva := (pg_uva ?m)[j := if get_attribute ?e PAGE_COW \<noteq> 0 then pg_uva ?m ! j + 1 else 2]\<rparr>"
    have run: "fork_pte va ?ce ?pe pd s = Some (s\<lparr>vm := m'\<rparr>)"
      unfolding m'_def m1_def by (rule fork_pte_run[OF slots(2,1) e(2) False j(2,1) l]) (use u sh in blast)
    note w = pte_write_two[OF vm_okD(1)[OF ok(1)] D(1,2) t(1) tp c, where e = "forked ?e", folded m1_def]
    have same: "spaces_ok m' D" "pte_of m' d' x y z = pte_of m1 d' x y z" "tab m' d' q = tab m1 d' q" for d' x y z q
      using same_spaces[of m' m1 D] tab_cong[of m' m1] w(2) by (simp_all add: m'_def)
    have ch: "pte_of m' d' x y z = (if (d' = d \<or> d' = dp) \<and> x = a \<and> y = b \<and> z = c then forked ?e else pte_of ?m d' x y z)" if "d' \<in> D" "z < 512" for d' x y z
      using w(3)[OF that] same(2) by simp
    have fields: "umem m' = umem ?m" "pgtb_charmap m' = pgtb_charmap ?m" "pgtb_ffree m' = pgtb_ffree ?m" "pg_ffree m' = pg_ffree ?m"
      "pg_charmap m' = (pg_charmap ?m)[j := CMAP_SHARED]" "pg_uva m' = (pg_uva ?m)[j := if get_attribute ?e PAGE_COW \<noteq> 0 then pg_uva ?m ! j + 1 else 2]"
      by (simp_all add: m'_def m1_def set_pte_def)
    have "pages_ok m' D"
    proof (rule pages_fork[OF ok(2) D c _ _ j(1) _ new _ _ l(1) fields(5) l(2)])
      show "pte_of ?m d a b c = 0" using copyingD(5)[OF cp c, of a b] np by simp
      show "pte_of m' d' x y z = (if (d' = d \<or> d' = dp) \<and> x = a \<and> y = b \<and> z = c then forked (pte_of ?m dp a b c) else pte_of ?m d' x y z)"
        if "d' \<in> D" "z < 512" for d' x y z unfolding e(1) by (rule ch[OF that])
    qed (use e False j(2) fields(6) u in simp_all)
    moreover have "frames_ok m'"
      using vm_okD(3)[OF ok(1)] cmap_mark[OF _ j(1,3)] unfolding frames_ok_def fields by (simp add: CMAP_SHARED_def CMAP_FREE_def)
    then have "vm_ok m' D" using same(1) vm_okD(2)[OF ok(1)] by (simp add: vm_ok_def fields)
    moreover have "pg_uva m' ! i = pg_uva m0 ! i"
      if i: "i < 51200" "\<forall>x y z. z < 512 \<longrightarrow> P x y z \<or> x = a \<and> y = b \<and> z = c \<longrightarrow> \<not> points (pte_of m0 dp x y z) i" for i
    proof -
      have "i \<noteq> j" using i(2) j(2) c by blast
      moreover have "pg_uva ?m ! i = pg_uva m0 ! i" using copyingD(7)[OF cp i(1)] i(2) by blast
      ultimately show ?thesis by (simp add: fields)
    qed
    moreover have tabs: "tab m' d' q = tab ?m d' q" if "d' \<in> D" for d' q using w(1)[OF that] same(3) by simp
    moreover have "below m' d = below ?m d" using tabs[OF D(1)] by (simp add: below_def)
    moreover have "pte_of m' dp x y z = (if P x y z \<or> x = a \<and> y = b \<and> z = c then forked (pte_of m0 dp x y z) else pte_of m0 dp x y z)"
      "pte_of m' d x y z = (if P x y z \<or> x = a \<and> y = b \<and> z = c then forked (pte_of m0 dp x y z) else 0)" if "z < 512" for x y z
      using ch[OF D(2) that, of x y] ch[OF D(1) that, of x y] copyingD(4,5)[OF cp that, of x y] by auto
    moreover have "pte_of m' d' x y z = pte_of m0 d' x y z" if "d' \<in> D - {d, dp}" "z < 512" for d' x y z
      using ch[of d' z x y] copyingD(6)[OF cp that] that by auto
    ultimately have "copying D d dp m0 (\<lambda>x y z. P x y z \<or> x = a \<and> y = b \<and> z = c) T m'"
      using copyingD(3,8-12)[OF cp] D unfolding copying_def by (simp add: fields)
    then show ?thesis using run tabs[OF D(1)] by blast
  qed
qed

section \<open>The tables of the child\<close>

lemma finite_below: "finite (below m d)"
proof -
  have "below m d \<subseteq> range (Sub Root) \<union> range (\<lambda>(a, b). leaf_pos a b)"
  proof
    fix q assume "q \<in> below m d"
    then have "q \<noteq> Root" "depth q \<le> 2" using tab_depth by (auto simp: below_def)
    then consider a where "q = Sub Root a" | a b where "q = Sub (Sub Root a) b"
      by (cases q; cases "case q of Sub p _ \<Rightarrow> p"; cases "case q of Sub (Sub p _) _ \<Rightarrow> p") auto
    then show "q \<in> range (Sub Root) \<union> range (\<lambda>(a, b). leaf_pos a b)" by cases (auto simp: leaf_pos_def)
  qed
  then show ?thesis by (rule finite_subset) simp
qed

lemma pages_cong:
  assumes ok: "pages_ok m D" and D': "D \<subseteq> D'" "finite D'"
    and p: "\<And>d a b c. d \<in> D' \<Longrightarrow> c < 512 \<Longrightarrow> pte_of m' d a b c = (if d \<in> D then pte_of m d a b c else 0)"
    and f: "pg_charmap m' = pg_charmap m" "pg_uva m' = pg_uva m"
  shows "pages_ok m' D'"
proof -
  have mp: "mapped m' D' j = mapped m D j" for j using p D'(1) by (auto simp: mapped_def points_def split: if_splits)
  have at: "pte_of m' d a b c = pte_of m d a b c" if "(d, a, b, c) \<in> mapped m D j" for d a b c j
    using that p[of d c a b] D'(1) by (auto simp: mapped_def)
  have in_D: "d \<in> D" "c < 512" "points (pte_of m d a b c) j" if "(d, a, b, c) \<in> mapped m D j" for d a b c j using that by (simp_all add: mapped_def)
  show ?thesis
  proof (rule pages_okI)
    show "finite D'" by (rule D'(2))
  next
    fix d a b c assume dc: "d \<in> D'" "c < (512 :: u64)" and pr: "get_attribute (pte_of m' d a b c) PAGE_PRESENT \<noteq> 0"
    have d: "d \<in> D" and e: "pte_of m' d a b c = pte_of m d a b c" using p[OF dc, of a b] pr by (auto split: if_splits)
    show "get_attribute (pte_of m' d a b c) PAGE_XWR \<noteq> 0 \<and> (\<exists>j < 51200. points (pte_of m' d a b c) j \<and> pg_charmap m' ! j \<noteq> CMAP_FREE)"
      using pages_okD(1,2)[OF ok d dc(2)] pr unfolding e f by blast
  next
    fix j d a b c assume j: "j < 51200" and x: "(d, a, b, c) \<in> mapped m' D' j" and q: "get_attribute (pte_of m' d a b c) PAGE_COW \<noteq> 0"
    note y = x[unfolded mp]
    show "card (mapped m' D' j) \<le> unat (pg_uva m' ! j) \<and> pg_uva m' ! j \<le> 16 \<and> pg_charmap m' ! j = CMAP_SHARED"
      using q pages_okD(3)[OF ok in_D(1,2)[OF y] j in_D(3)[OF y]] pages_okM(1)[OF ok j y] unfolding at[OF y] mp f by blast
  next
    fix j d a b c assume j: "j < 51200" and x: "(d, a, b, c) \<in> mapped m' D' j" and q: "get_attribute (pte_of m' d a b c) PAGE_COW = 0" "get_attribute (pte_of m' d a b c) PAGE_SHARED = 0"
    note y = x[unfolded mp]
    show "mapped m' D' j = {(d, a, b, c)}" using q pages_okM(2)[OF ok j y] unfolding at[OF y] mp by blast
  next
    fix j d a b c x y z assume "j < 51200" "(d, a, b, c) \<in> mapped m' D' j" "(d, x, y, z) \<in> mapped m' D' j"
    then show "x = a \<and> y = b \<and> z = c" unfolding mp by (rule pages_okM(3)[OF ok])
  qed
qed

lemma link_table_spec:
  assumes st: "fork_start D d dp m0" and cp: "copying D d dp m0 P T m" and u: "tab m d p = Some u" and i: "dir_slot p i"
    and n: "Sub p i \<notin> T" "Sub p i \<in> below m0 dp" and pd: "(word_of_int pd :: u8) \<noteq> CMAP_FREE"
  shows "\<exists>t m'. link_table (u + 8 * i) pd m = Some (t, m') \<and> copying D d dp m0 P (insert (Sub p i) T) m' \<and>
    (\<forall>q. tab m' d q = (if q = Sub p i then Some t else tab m d q))"
proof -
  note D = fork_startD(3-5)[OF st] and ok = copyingD(1,2)[OF cp]
  note sp = vm_okD(1)[OF ok(1)] and cm = vm_okD(2)[OF ok(1)]
  have none: "tab m d (Sub p i) = None" using copyingD(9)[OF cp] n(1) by (auto simp: below_def)
  note e0 = no_child[OF sp D(1) u i none]
  have T: "finite T" using copyingD(10)[OF cp] finite_below by (rule finite_subset)
  have "card T < card (below m0 dp)" using copyingD(10)[OF cp] n by (intro psubset_card_mono finite_below) auto
  then have f: "0 < free_count (pgtb_charmap m)" using copyingD(11)[OF cp] fork_startD(7)[OF st] by simp
  obtain t m1 m3 where g: "alloc_pagetable pd m = Some (t, m1)"
    "m3 = set_pte (u + 8 * i) (set_attribute (set_pfn (ptes m1 (u + 8 * i)) (drop_bit NORMAL_PAGE_SHIFT (kva2pa t))) PAGE_PRESENT) m1"
    "grown D m m3" "Suc (free_count (pgtb_charmap m3)) = free_count (pgtb_charmap m)"
    "\<And>d' q. d' \<in> D \<Longrightarrow> tab m3 d' q = (if d' = d \<and> q = Sub p i then Some t else tab m d' q)"
    using grow_step[OF sp D(1) u i e0 cm f pd] by blast
  have run: "link_table (u + 8 * i) pd m = Some (t, m3)" using g(1) unfolding link_table_def g(2) by (simp add: Let_def set_pte_def)
  note gf = grown_fields[OF g(3)]
  have "vm_ok m3 D" using grownD(2,3)[OF g(3)] vm_okD(3)[OF ok(1)] gf by (simp add: vm_ok_def frames_ok_def)
  moreover have "pages_ok m3 D" using ok(2) grownD(5)[OF g(3)] gf(2,4) by (intro pages_cong[OF ok(2)]) (simp_all add: pages_ok_def)
  moreover have "below m3 d = insert (Sub p i) T" using g(5)[OF D(1)] copyingD(9)[OF cp] by (auto simp: below_def simp del: tab.simps)
  moreover have "tab m3 dp q = tab m0 dp q" for q using g(5)[OF D(2), of q] D(3) copyingD(8)[OF cp, of q] by simp
  moreover have "pte_of m3 d' a b c = pte_of m d' a b c" if "d' \<in> D" "c < 512" for d' a b c by (rule grownD(5)[OF g(3) that])
  ultimately have "copying D d dp m0 P (insert (Sub p i) T) m3"
    using copyingD(3-7,10-12)[OF cp] D g(4) n T unfolding copying_def gf by simp
  moreover have "\<forall>q. tab m3 d q = (if q = Sub p i then Some t else tab m d q)" using g(5)[OF D(1)] by (simp del: tab.simps)
  ultimately show ?thesis using run by blast
qed

section \<open>The three loops\<close>

definition done_to :: "nat \<Rightarrow> nat \<Rightarrow> nat \<Rightarrow> u64 \<Rightarrow> u64 \<Rightarrow> u64 \<Rightarrow> bool" where
  "done_to i j k a b c \<longleftrightarrow> unat a < i \<or> unat a = i \<and> (unat b < j \<or> unat b = j \<and> unat c < k)"

lemma of_nat_unat: "n < 512 \<Longrightarrow> unat (of_nat n :: u64) = n" "n < 512 \<Longrightarrow> (of_nat n :: u64) < 512" "n < 512 \<Longrightarrow> x = of_nat n \<longleftrightarrow> unat (x :: u64) = n"
proof -
  show a: "unat (of_nat n :: u64) = n" if "n < 512" using that by (intro unat_of_nat_small) simp
  show "(of_nat n :: u64) < 512" if "n < 512" using a[OF that] that by (simp add: word_less_nat_alt)
  show "x = of_nat n \<longleftrightarrow> unat (x :: u64) = n" if "n < 512" using a[OF that] by (simp add: word_unat_eq_iff)
qed

lemma done_to_Suc:
  "i < 512 \<Longrightarrow> j < 512 \<Longrightarrow> k < 512 \<Longrightarrow> done_to i j (Suc k) = (\<lambda>a b c. done_to i j k a b c \<or> a = of_nat i \<and> b = of_nat j \<and> c = of_nat k)"
  by (intro ext) (auto simp: done_to_def of_nat_unat(3))

lemma less_512: "c < 512 \<Longrightarrow> unat (c :: u64) < 512"
  by (simp add: word_less_nat_alt)

lemma leaf_loop:
  assumes st: "fork_start D d dp m0" and cp: "copying D d dp m0 (done_to i j 0) T m" and ij: "i < 512" "j < 512"
    and t: "tab m d (leaf_pos (of_nat i) (of_nat j)) = Some l0" "tab m0 dp (leaf_pos (of_nat i) (of_nat j)) = Some l0p"
  shows "\<exists>m'. for_each [0..<512] (\<lambda>k. fork_pte (va k) (l0 + 8 * of_nat k) (l0p + 8 * of_nat k) pd) (s\<lparr>vm := m\<rparr>) = Some (s\<lparr>vm := m'\<rparr>) \<and>
    copying D d dp m0 (done_to i (Suc j) 0) T m' \<and> (\<forall>q. tab m' d q = tab m d q)"
proof -
  let ?I = "\<lambda>k s'. \<exists>m'. s' = s\<lparr>vm := m'\<rparr> \<and> copying D d dp m0 (done_to i j k) T m' \<and> (\<forall>q. tab m' d q = tab m d q)"
  have "\<exists>s2. fork_pte (va k) (l0 + 8 * of_nat k) (l0p + 8 * of_nat k) pd s1 = Some s2 \<and> ?I (Suc k) s2" if k: "k < 512" and I: "?I k s1" for k s1
  proof -
    obtain m1 where m1: "s1 = s\<lparr>vm := m1\<rparr>" "copying D d dp m0 (done_to i j k) T m1" "\<And>q. tab m1 d q = tab m d q" using I by blast
    have "\<not> done_to i j k (of_nat i) (of_nat j) (of_nat k)" using ij k by (simp add: done_to_def of_nat_unat)
    then obtain m2 where "fork_pte (va k) (l0 + 8 * of_nat k) (l0p + 8 * of_nat k) pd s1 = Some (s1\<lparr>vm := m2\<rparr>)"
      "copying D d dp m0 (\<lambda>a b c. done_to i j k a b c \<or> a = of_nat i \<and> b = of_nat j \<and> c = of_nat k) T m2" "\<forall>q. tab m2 d q = tab m1 d q"
      using copy_page[OF st, of "done_to i j k" T s1 "of_nat i" "of_nat j" "of_nat k" l0 l0p "va k" pd] m1 t of_nat_unat(2)[OF k] by auto
    then have "fork_pte (va k) (l0 + 8 * of_nat k) (l0p + 8 * of_nat k) pd s1 = Some (s\<lparr>vm := m2\<rparr>)"
      "copying D d dp m0 (done_to i j (Suc k)) T m2" "\<forall>q. tab m2 d q = tab m d q" using m1 by (simp_all add: done_to_Suc[OF ij k])
    then show ?thesis by blast
  qed
  moreover have "?I 0 (s\<lparr>vm := m\<rparr>)" using cp by blast
  ultimately have "\<exists>s'. for_each [0..<512] (\<lambda>k. fork_pte (va k) (l0 + 8 * of_nat k) (l0p + 8 * of_nat k) pd) (s\<lparr>vm := m\<rparr>) = Some s' \<and> ?I 512 s'"
    by (rule for_each_inv[where I = ?I])
  then obtain m' where m': "for_each [0..<512] (\<lambda>k. fork_pte (va k) (l0 + 8 * of_nat k) (l0p + 8 * of_nat k) pd) (s\<lparr>vm := m\<rparr>) = Some (s\<lparr>vm := m'\<rparr>)"
    "copying D d dp m0 (done_to i j 512) T m'" "\<forall>q. tab m' d q = tab m d q" by blast
  have "copying D d dp m0 (done_to i (Suc j) 0) T m'"
    by (rule copying_skip[OF m'(2)]) (auto simp: done_to_def dest: less_512)
  then show ?thesis using m'(1,3) by blast
qed

text \<open>The positions of the tables made before entry \<open>j\<close> of the table \<open>i\<close> is copied.\<close>

definition tables_to :: "mm \<Rightarrow> u64 \<Rightarrow> nat \<Rightarrow> nat \<Rightarrow> tpos set" where
  "tables_to m dp i j = {q \<in> below m dp. (\<exists>a. q = Sub Root a \<and> (unat a < i \<or> unat a = i \<and> 0 < j)) \<or>
     (\<exists>a b. q = leaf_pos a b \<and> (unat a < i \<or> unat a = i \<and> Suc (unat b) < j))}"

lemma leaf_slot: "leaf_pos a b \<in> below m d \<Longrightarrow> a < 256 \<and> b < 512 \<and> Sub Root a \<in> below m d"
  by (auto simp: below_def leaf_pos_def dir_slot_def bind_eq_Some_conv split: if_splits)

lemma root_slot: "Sub Root a \<in> below m d \<Longrightarrow> a < 256"
  by (auto simp: below_def dir_slot_def split: if_splits)

lemma parent_entry:
  assumes ok: "spaces_ok m D" and d: "dp \<in> D" and u: "tab m dp p = Some u" and i: "dir_slot p i"
  shows "get_attribute (ptes m (u + 8 * i)) PAGE_PRESENT \<noteq> 0 \<longleftrightarrow> Sub p i \<in> below m dp"
    "Sub p i \<in> below m dp \<Longrightarrow> get_attribute (ptes m (u + 8 * i)) PAGE_XWR = 0 \<and> tab m dp (Sub p i) = Some (pa2kva (get_pa (ptes m (u + 8 * i))))"
  using spaces_okD(3)[OF ok d u i] u i by (auto simp: below_def child_def good_dir_def Let_def split: if_splits)

lemma tables_to_steps:
  "i < 256 \<Longrightarrow> Sub Root (of_nat i) \<in> below m dp \<Longrightarrow> tables_to m dp i (Suc 0) = insert (Sub Root (of_nat i)) (tables_to m dp i 0)"
  "i < 256 \<Longrightarrow> j < 512 \<Longrightarrow> leaf_pos (of_nat i) (of_nat j) \<in> below m dp \<Longrightarrow>
    tables_to m dp i (Suc (Suc j)) = insert (leaf_pos (of_nat i) (of_nat j)) (tables_to m dp i (Suc j))"
  "i < 256 \<Longrightarrow> j < 512 \<Longrightarrow> leaf_pos (of_nat i) (of_nat j) \<notin> below m dp \<Longrightarrow> tables_to m dp i (Suc (Suc j)) = tables_to m dp i (Suc j)"
  "i < 256 \<Longrightarrow> Sub Root (of_nat i) \<notin> below m dp \<Longrightarrow> tables_to m dp (Suc i) 0 = tables_to m dp i 0"
  "tables_to m dp i 513 = tables_to m dp (Suc i) 0" "tables_to m dp 0 0 = {}"
proof -
  show "tables_to m dp i (Suc 0) = insert (Sub Root (of_nat i)) (tables_to m dp i 0)" if "i < 256" "Sub Root (of_nat i) \<in> below m dp"
    using that of_nat_unat(3)[of i] by (auto simp: tables_to_def leaf_pos_def)
  show "tables_to m dp i (Suc (Suc j)) = insert (leaf_pos (of_nat i) (of_nat j)) (tables_to m dp i (Suc j))"
    if "i < 256" "j < 512" "leaf_pos (of_nat i) (of_nat j) \<in> below m dp"
    using that of_nat_unat(3)[of i] of_nat_unat(3)[of j] of_nat_unat(1)[of i] of_nat_unat(1)[of j] by (auto simp: tables_to_def leaf_pos_def less_Suc_eq)
  show "tables_to m dp i (Suc (Suc j)) = tables_to m dp i (Suc j)" if "i < 256" "j < 512" "leaf_pos (of_nat i) (of_nat j) \<notin> below m dp"
    using that of_nat_unat(3)[of i] of_nat_unat(3)[of j] by (auto simp: tables_to_def leaf_pos_def less_Suc_eq)
  show "tables_to m dp (Suc i) 0 = tables_to m dp i 0" if "i < 256" "Sub Root (of_nat i) \<notin> below m dp"
    using that of_nat_unat(3)[of i] leaf_slot[of _ _ m dp] by (auto simp: tables_to_def less_Suc_eq)
  show "tables_to m dp i 513 = tables_to m dp (Suc i) 0"
    using leaf_slot[of _ _ m dp] less_512 by (fastforce simp: tables_to_def less_Suc_eq)
  show "tables_to m dp 0 0 = {}" by (simp add: tables_to_def)
qed

lemma l1_entry:
  assumes st: "fork_start D d dp m0" and ij: "i < 256" "j < 512" and pd: "(word_of_int pd :: u8) \<noteq> CMAP_FREE"
    and cp: "copying D d dp m0 (done_to i j 0) (tables_to m0 dp i (Suc j)) m"
    and t: "tab m d (Sub Root (of_nat i)) = Some l1" "tab m0 dp (Sub Root (of_nat i)) = Some l1p"
  shows "\<exists>m'. fork_l1_entry i j l1 l1p pd (s\<lparr>vm := m\<rparr>) = Some (s\<lparr>vm := m'\<rparr>) \<and>
    copying D d dp m0 (done_to i (Suc j) 0) (tables_to m0 dp i (Suc (Suc j))) m' \<and> tab m' d (Sub Root (of_nat i)) = Some l1"
proof -
  let ?q = "leaf_pos (of_nat i) (of_nat j)"
  let ?e = "ptes m (l1p + 8 * of_nat j)"
  have slot: "dir_slot (Sub Root (of_nat i)) (of_nat j)" using of_nat_unat(2)[OF ij(2)] by (simp add: dir_slot_def)
  have tp: "tab m dp (Sub Root (of_nat i)) = Some l1p" using t(2) unfolding copyingD(8)[OF cp] .
  have same: "below m dp = below m0 dp" using copyingD(8)[OF cp] by (simp add: below_def)
  note pe = parent_entry[OF vm_okD(1)[OF copyingD(1)[OF cp]] fork_startD(4)[OF st] tp slot, folded leaf_pos_def, unfolded same]
  show ?thesis
  proof (cases "?q \<in> below m0 dp")
    case False
    have "tab m0 dp ?q = None" using False by (simp add: below_def leaf_pos_def del: tab.simps)
    then have "pte_of m0 dp (of_nat i) (of_nat j) c = 0" for c by (rule pte_of_none)
    then have "copying D d dp m0 (done_to i (Suc j) 0) (tables_to m0 dp i (Suc j)) m"
      using ij by (intro copying_skip[OF cp]) (auto simp: done_to_def less_Suc_eq of_nat_unat(3)[symmetric])
    then show ?thesis using pe(1) False t(1) tables_to_steps(3)[OF ij False] by (intro exI[of _ m]) (simp add: fork_l1_entry_def Let_def)
  next
    case True
    have new: "?q \<notin> tables_to m0 dp i (Suc j)" using ij by (auto simp: tables_to_def leaf_pos_def of_nat_unat)
    obtain l0 m1 where m1: "link_table (l1 + 8 * of_nat j) pd m = Some (l0, m1)" "copying D d dp m0 (done_to i j 0) (insert ?q (tables_to m0 dp i (Suc j))) m1"
      "\<And>q. tab m1 d q = (if q = ?q then Some l0 else tab m d q)"
      using link_table_spec[OF st cp t(1) slot _ _ pd] new True unfolding leaf_pos_def by blast
    have l0: "tab m1 d ?q = Some l0" "tab m1 d (Sub Root (of_nat i)) = Some l1" using m1(3) t(1) by (simp_all add: leaf_pos_def del: tab.simps)
    have l0p: "tab m0 dp ?q = Some (pa2kva (get_pa ?e))" using pe(2)[OF True] copyingD(8)[OF cp] by (simp del: tab.simps)
    have i5: "i < 512" using ij(1) by simp
    obtain m2 where m2: "for_each [0..<512] (\<lambda>k. fork_pte (vpn2va (of_nat i) (of_nat j) (of_nat k)) (l0 + 8 * of_nat k) (pa2kva (get_pa ?e) + 8 * of_nat k) pd) (s\<lparr>vm := m1\<rparr>) = Some (s\<lparr>vm := m2\<rparr>)"
      "copying D d dp m0 (done_to i (Suc j) 0) (insert ?q (tables_to m0 dp i (Suc j))) m2" "\<And>q. tab m2 d q = tab m1 d q"
      using leaf_loop[OF st m1(2) i5 ij(2) l0(1) l0p, where va = "\<lambda>k. vpn2va (of_nat i) (of_nat j) (of_nat k)" and s = s and pd = pd] by blast
    have "fork_l1_entry i j l1 l1p pd (s\<lparr>vm := m\<rparr>) = Some (s\<lparr>vm := m2\<rparr>)"
      using pe True m1(1) m2(1) by (simp add: fork_l1_entry_def Let_def)
    then show ?thesis using m2(2,3) l0(2) tables_to_steps(2)[OF ij True] by (intro exI[of _ m2]) (simp del: tab.simps)
  qed
qed

lemma l2_entry:
  assumes st: "fork_start D d dp m0" and i: "i < 256" and pd: "(word_of_int pd :: u8) \<noteq> CMAP_FREE"
    and cp: "copying D d dp m0 (done_to i 0 0) (tables_to m0 dp i 0) m"
  shows "\<exists>m'. fork_l2_entry i d dp pd (s\<lparr>vm := m\<rparr>) = Some (s\<lparr>vm := m'\<rparr>) \<and>
    copying D d dp m0 (done_to (Suc i) 0 0) (tables_to m0 dp (Suc i) 0) m'"
proof -
  let ?q = "Sub Root (of_nat i)"
  let ?e = "ptes m (dp + 8 * of_nat i)"
  have slot: "dir_slot Root (of_nat i)" using i by (simp add: dir_slot_def word_less_nat_alt of_nat_unat)
  have same: "below m dp = below m0 dp" using copyingD(8)[OF cp] by (simp add: below_def)
  have rt: "tab m dp Root = Some dp" "tab m d Root = Some d" by simp_all
  note pe = parent_entry[OF vm_okD(1)[OF copyingD(1)[OF cp]] fork_startD(4)[OF st] rt(1) slot, unfolded same]
  have i5: "i < 512" using i by simp
  show ?thesis
  proof (cases "?q \<in> below m0 dp")
    case False
    have "leaf_pos (of_nat i) b \<notin> below m0 dp" for b using leaf_slot[of "of_nat i" b m0 dp] False by blast
    then have "pte_of m0 dp (of_nat i) b c = 0" for b c by (intro pte_of_none) (simp add: below_def leaf_pos_def del: tab.simps)
    then have "copying D d dp m0 (done_to (Suc i) 0 0) (tables_to m0 dp i 0) m"
      using i5 by (intro copying_skip[OF cp]) (auto simp: done_to_def less_Suc_eq of_nat_unat(3)[symmetric])
    then show ?thesis using pe(1) False tables_to_steps(4)[OF i False] by (intro exI[of _ m]) (simp add: fork_l2_entry_def Let_def)
  next
    case True
    have new: "?q \<notin> tables_to m0 dp i 0" using i5 by (auto simp: tables_to_def leaf_pos_def of_nat_unat)
    obtain l1 m1 where m1: "link_table (d + 8 * of_nat i) pd m = Some (l1, m1)" "copying D d dp m0 (done_to i 0 0) (insert ?q (tables_to m0 dp i 0)) m1"
      "\<And>q. tab m1 d q = (if q = ?q then Some l1 else tab m d q)"
      using link_table_spec[OF st cp rt(2) slot new True pd] by blast
    let ?l1p = "pa2kva (get_pa ?e)"
    have t: "tab m1 d ?q = Some l1" "tab m0 dp ?q = Some ?l1p"
      using m1(3) pe(2)[OF True] copyingD(8)[OF cp] by (simp_all del: tab.simps)
    let ?I = "\<lambda>j s'. \<exists>m'. s' = s\<lparr>vm := m'\<rparr> \<and> copying D d dp m0 (done_to i j 0) (tables_to m0 dp i (Suc j)) m' \<and> tab m' d ?q = Some l1"
    have "\<exists>s2. fork_l1_entry i j l1 ?l1p pd s1 = Some s2 \<and> ?I (Suc j) s2" if j: "j < 512" and I: "?I j s1" for j s1
    proof -
      obtain m' where "s1 = s\<lparr>vm := m'\<rparr>" "copying D d dp m0 (done_to i j 0) (tables_to m0 dp i (Suc j)) m'" "tab m' d ?q = Some l1" using I by blast
      then show ?thesis using l1_entry[OF st i j pd _ _ t(2), of m' l1 s] by blast
    qed
    moreover have "?I 0 (s\<lparr>vm := m1\<rparr>)" using m1(2) t(1) tables_to_steps(1)[OF i True] by (intro exI[of _ m1]) (simp del: tab.simps)
    ultimately have "\<exists>s'. for_each [0..<512] (\<lambda>j. fork_l1_entry i j l1 ?l1p pd) (s\<lparr>vm := m1\<rparr>) = Some s' \<and> ?I 512 s'"
      by (rule for_each_inv[where I = ?I])
    then obtain m2 where m2: "for_each [0..<512] (\<lambda>j. fork_l1_entry i j l1 ?l1p pd) (s\<lparr>vm := m1\<rparr>) = Some (s\<lparr>vm := m2\<rparr>)"
      "copying D d dp m0 (done_to i 512 0) (tables_to m0 dp i 513) m2" by auto
    have "copying D d dp m0 (done_to (Suc i) 0 0) (tables_to m0 dp i 513) m2"
    proof (rule copying_skip[OF m2(2)])
      fix a b c assume q: "done_to (Suc i) 0 0 a b c" "\<not> done_to i 512 0 a b c"
      then have "\<not> unat b < 512" by (auto simp: done_to_def)
      then have "\<not> dir_slot (Sub Root a) b" by (simp add: dir_slot_def word_less_nat_alt)
      then show "pte_of m0 dp a b c = 0" by (intro pte_of_none) (simp add: leaf_pos_def)
    qed (auto simp: done_to_def)
    then have "copying D d dp m0 (done_to (Suc i) 0 0) (tables_to m0 dp (Suc i) 0) m2" by (simp add: tables_to_steps(5))
    moreover have "fork_l2_entry i d dp pd (s\<lparr>vm := m\<rparr>) = Some (s\<lparr>vm := m2\<rparr>)" using pe True m1(1) m2(1) by (simp add: fork_l2_entry_def Let_def)
    ultimately show ?thesis by blast
  qed
qed

lemma fork_space_spec:
  assumes st: "fork_start D d dp m0" and pd: "(word_of_int pd :: u8) \<noteq> CMAP_FREE"
  shows "\<exists>m'. fork_space d dp pd (s\<lparr>vm := m0\<rparr>) = Some (s\<lparr>vm := m'\<rparr>) \<and> copying D d dp m0 (\<lambda>_ _ _. True) (below m0 dp) m'"
proof -
  let ?I = "\<lambda>i s'. \<exists>m'. s' = s\<lparr>vm := m'\<rparr> \<and> copying D d dp m0 (done_to i 0 0) (tables_to m0 dp i 0) m'"
  have "\<exists>s2. fork_l2_entry i d dp pd s1 = Some s2 \<and> ?I (Suc i) s2" if "i < 256" "?I i s1" for i s1
    using l2_entry[OF st that(1) pd, of _ s] that(2) by blast
  moreover have "?I 0 (s\<lparr>vm := m0\<rparr>)"
    by (intro exI[of _ m0] conjI refl, unfold tables_to_steps(6), rule copying_skip[OF copying_start[OF st]]) (simp_all add: done_to_def)
  ultimately have "\<exists>s'. fork_space d dp pd (s\<lparr>vm := m0\<rparr>) = Some s' \<and> ?I 256 s'" unfolding fork_space_def by (rule for_each_inv[where I = ?I])
  then obtain m' where m': "fork_space d dp pd (s\<lparr>vm := m0\<rparr>) = Some (s\<lparr>vm := m'\<rparr>)" "copying D d dp m0 (done_to 256 0 0) (tables_to m0 dp 256 0) m'" by auto
  have "copying D d dp m0 (\<lambda>_ _ _. True) (tables_to m0 dp 256 0) m'"
  proof (rule copying_skip[OF m'(2)])
    fix a b c assume "\<not> done_to 256 0 0 a b c"
    then have "\<not> a < 256" by (simp add: done_to_def word_less_nat_alt)
    then have "leaf_pos a b \<notin> below m0 dp" using leaf_slot by blast
    then show "pte_of m0 dp a b c = 0" by (intro pte_of_none) (simp add: below_def leaf_pos_def del: tab.simps)
  qed simp
  moreover have "tables_to m0 dp 256 0 = below m0 dp"
  proof -
    have "(\<exists>a. q = Sub Root a \<and> unat a < 256) \<or> (\<exists>a b. q = leaf_pos a b \<and> unat a < 256)" if "q \<in> below m0 dp" for q
    proof -
      have "q \<noteq> Root" "depth q \<le> 2" using that tab_depth by (auto simp: below_def)
      then consider a where "q = Sub Root a" | a b where "q = leaf_pos a b" unfolding leaf_pos_def
        by (cases q; cases "case q of Sub p _ \<Rightarrow> p"; cases "case q of Sub (Sub p _) _ \<Rightarrow> p") auto
      then show ?thesis using that root_slot leaf_slot by cases (auto simp: word_less_nat_alt)
    qed
    then show ?thesis by (auto simp: tables_to_def)
  qed
  ultimately show ?thesis using m'(1) by auto
qed

section \<open>The directory of the child\<close>

lemma tab_used:
  assumes ok: "spaces_ok m D" and d: "d \<in> D" and same: "\<And>v j. table_used m v \<Longrightarrow> j < 512 \<Longrightarrow> ptes m' (v + 8 * j) = ptes m (v + 8 * j)"
  shows "tab m' d q = tab m d q"
proof (induction q)
  case (Sub q j)
  show ?case
  proof (cases "dir_slot q j")
    case True
    have "child m' v j = child m v j" if "tab m d q = Some v" for v
      using same[OF spaces_okD(1)[OF ok d that] dir_slot_less[OF True]] by (simp add: child_def)
    then show ?thesis using Sub by (cases "tab m d q") simp_all
  qed simp
qed simp

lemma share_pgtable_ptes:
  assumes "k < 3840" and "k' < 3840" and "k \<noteq> k'" and "j < 512" and "x < 3840" and "set is \<subseteq> {..<512}"
  shows "ptes (fold (\<lambda>i m. set_pte (tbl k + 8 * of_nat i) (ptes m (tbl k' + 8 * of_nat i)) m) is m) (tbl x + 8 * j) =
    (if x = k \<and> unat j \<in> set is then ptes m (tbl k' + 8 * j) else ptes m (tbl x + 8 * j))"
  using assms(6)
proof (induction "is" arbitrary: m)
  case (Cons i "is")
  have i: "i < 512" "(of_nat i :: u64) < 512" using Cons.prems of_nat_unat(2) by auto
  have w: "ptes (set_pte (tbl k + 8 * of_nat i) e m) (tbl y + 8 * j) = (if y = k \<and> unat j = i then e else ptes m (tbl y + 8 * j))" if "y < 3840" for y e
    using slot_inj[OF that assms(1,4) i(2)] of_nat_unat(3)[OF i(1), of j] by (simp add: set_pte_def)
  show ?case using Cons assms(2,3,5) of_nat_unat(3)[OF i(1), of j] by (auto simp: w)
qed simp

lemma new_directory:
  assumes ok: "vm_ok m D" and dp: "dp \<in> D" and f: "0 < free_count (pgtb_charmap m)" and pd: "(word_of_int pd :: u8) \<noteq> CMAP_FREE"
  shows "\<exists>d m1. alloc_pagetable pd m = Some (d, m1) \<and> d \<notin> D \<and> vm_ok (share_pgtable d dp m1) (insert d D) \<and> below (share_pgtable d dp m1) d = {} \<and>
    (\<forall>d' \<in> D. \<forall>q. tab (share_pgtable d dp m1) d' q = tab m d' q) \<and> (\<forall>d' \<in> D. \<forall>a b c. c < 512 \<longrightarrow> pte_of (share_pgtable d dp m1) d' a b c = pte_of m d' a b c) \<and>
    Suc (free_count (pgtb_charmap (share_pgtable d dp m1))) = free_count (pgtb_charmap m) \<and> umem (share_pgtable d dp m1) = umem m \<and>
    pg_charmap (share_pgtable d dp m1) = pg_charmap m \<and> pg_uva (share_pgtable d dp m1) = pg_uva m \<and> pg_ffree (share_pgtable d dp m1) = pg_ffree m \<and>
    (\<forall>i. 256 \<le> i \<longrightarrow> i < 512 \<longrightarrow> ptes (share_pgtable d dp m1) (d + 8 * i) = ptes m (dp + 8 * i))"
proof -
  let ?k = "pgtb_ffree m"
  let ?d = "tbl ?k"
  note sp = vm_okD(1)[OF ok] and c = vm_okD(2)[OF ok]
  have k: "?k < 3840" by (rule free_count_pos[OF c f])
  have kf: "pgtb_charmap m ! ?k = CMAP_FREE" using c k by (simp add: cmap_ok_def)
  obtain m1 where m1: "alloc_pagetable pd m = Some (?d, m1)" "m1 = m\<lparr>ptes := ptes (clear_pgdir ?d m),
      pgtb_charmap := (pgtb_charmap m)[?k := word_of_int pd], pgtb_ffree := next_free ((pgtb_charmap m)[?k := word_of_int pd]) ?k\<rparr>"
    using alloc_pagetable_spec[OF c k pd] by blast
  obtain kp where kp: "kp < 3840" "dp = tbl kp" "pgtb_charmap m ! kp \<noteq> CMAP_FREE"
    using spaces_okD(1)[OF sp dp, of Root dp] by (auto simp: table_used_def)
  have ne: "?k \<noteq> kp" using kp(3) kf by auto
  let ?m = "share_pgtable ?d dp m1"
  have fold_eq: "?m = fold (\<lambda>i m. set_pte (tbl ?k + 8 * of_nat i) (ptes m (tbl kp + 8 * of_nat i)) m) [256..<512] m1" by (simp only: share_pgtable_def kp(2))
  have fields: "?m = m1\<lparr>ptes := ptes ?m\<rparr>"
  proof -
    have "fold (\<lambda>i m. set_pte (a i) (b i m) m) is x = x\<lparr>ptes := ptes (fold (\<lambda>i m. set_pte (a i) (b i m) m) is x)\<rparr>" for a b "is" x
    proof (induction "is" arbitrary: x)
      case (Cons i "is")
      show ?case by (simp, subst Cons.IH) (simp add: set_pte_def)
    qed simp
    then show ?thesis unfolding share_pgtable_def .
  qed
  have pt: "ptes ?m (tbl x + 8 * j) = (if x = ?k then if 256 \<le> j then ptes m (dp + 8 * j) else 0 else ptes m (tbl x + 8 * j))" if "x < 3840" "j < 512" for x j
  proof -
    have p1: "ptes m1 (tbl y + 8 * j) = (if y = ?k then 0 else ptes m (tbl y + 8 * j))" if "y < 3840" for y
      using ptes_cleared[OF k that \<open>j < 512\<close>] by (simp add: m1(2))
    have "unat j \<in> set [256..<512] \<longleftrightarrow> 256 \<le> unat j" using less_512[OF that(2)] by (simp only: set_upt atLeastLessThan_iff simp_thms)
    then have "unat j \<in> set [256..<512] \<longleftrightarrow> 256 \<le> j" by (simp only: word_le_nat_alt) simp
    moreover have ss: "set [256..<512] \<subseteq> {..<512::nat}" by (simp only: set_upt) auto
    ultimately show ?thesis unfolding fold_eq share_pgtable_ptes[OF k kp(1) ne that(2,1) ss]
      using p1[OF that(1)] p1[OF kp(1)] ne by (simp only: kp(2)) auto
  qed
  have used: "ptes ?m (v + 8 * j) = ptes m (v + 8 * j)" if v: "table_used m v" "j < 512" for v j
  proof -
    obtain x where "x < 3840" "v = tbl x" "pgtb_charmap m ! x \<noteq> CMAP_FREE" using v(1) by (auto simp: table_used_def)
    then show ?thesis using pt[of x j] v(2) kf by auto
  qed
  have tabs: "tab ?m d' q = tab m d' q" if "d' \<in> D" for d' q by (rule tab_used[OF sp that used])
  have nd: "\<not> table_used m ?d"
  proof
    assume "table_used m ?d"
    then obtain x where "x < 3840" "tbl ?k = tbl x" "pgtb_charmap m ! x \<noteq> CMAP_FREE" by (auto simp: table_used_def)
    then show False using slot_inj[of ?k x 0 0] k kf by simp
  qed
  have dD: "?d \<notin> D" using nd spaces_okD(1)[OF sp, of ?d Root ?d] by auto
  have dtab: "tab ?m ?d q = (if q = Root then Some ?d else None)" for q
  proof (induction q)
    case (Sub q j)
    show ?case
    proof (cases "q = Root \<and> dir_slot q j")
      case True
      then have j: "j < 256" by (auto simp: dir_slot_def)
      then have "j < 512" "\<not> 256 \<le> j" by (simp_all add: word_less_nat_alt not_le)
      then have "child ?m ?d j = None" using pt[OF k, of j] by (simp add: child_def)
      then show ?thesis using True by simp
    next
      case False
      then show ?thesis using Sub by auto
    qed
  qed simp
  have cm: "pgtb_charmap ?m = (pgtb_charmap m)[?k := word_of_int pd]" "pgtb_ffree ?m = next_free ((pgtb_charmap m)[?k := word_of_int pd]) ?k"
    by (subst fields, simp add: m1(2))+
  have rest: "umem ?m = umem m" "pg_charmap ?m = pg_charmap m" "pg_uva ?m = pg_uva m" "pg_ffree ?m = pg_ffree m" by (subst fields, simp add: m1(2))+
  have lk: "?k < length (pgtb_charmap m)" using c k by (simp add: cmap_ok_def)
  have tu: "table_used ?m v" if "table_used m v" for v using that pd lk unfolding table_used_def cm by (auto simp: nth_list_update)
  have tud: "table_used ?m ?d" using k pd lk unfolding table_used_def cm by auto
  have sp': "spaces_ok ?m (insert ?d D)"
    unfolding spaces_ok_def
  proof (intro conjI ballI allI impI)
    fix d' q v assume "d' \<in> insert ?d D" "tab ?m d' q = Some v"
    then show "table_used ?m v" using tud tu tabs spaces_okD(1)[OF sp] dtab by (auto split: if_splits)
  next
    fix d1 d2 q1 q2 v assume a: "d1 \<in> insert ?d D" "d2 \<in> insert ?d D" "tab ?m d1 q1 = Some v" "tab ?m d2 q2 = Some v"
    have b: "d' = ?d \<and> q = Root \<and> v = ?d \<or> d' \<in> D \<and> tab m d' q = Some v \<and> v \<noteq> ?d" if "d' \<in> insert ?d D" "tab ?m d' q = Some v" for d' q
      using that tabs dtab[of q] spaces_okD(1)[OF sp, of d' q v] nd by (auto split: if_splits)
    have "d1 = d2 \<and> q1 = q2" using b[OF a(1,3)] b[OF a(2,4)] spaces_okD(2)[OF sp] by blast
    then show "d1 = d2" "q1 = q2" by blast+
  next
    fix d' q v j assume a: "d' \<in> insert ?d D" "tab ?m d' q = Some v" "dir_slot q j"
    note j = dir_slot_less[OF a(3)]
    show "good_dir (ptes ?m (v + 8 * j))"
    proof (cases "d' = ?d")
      case True
      then have "q = Root" "v = ?d" using a(2) dtab[of q] by (auto split: if_splits)
      then have "\<not> 256 \<le> j" using a(3) by (simp add: dir_slot_def not_le)
      then show ?thesis using pt[OF k j] \<open>v = ?d\<close> by (simp add: good_dir_def)
    next
      case False
      then have "d' \<in> D" "tab m d' q = Some v" using a(1,2) tabs by auto
      then show ?thesis using used[OF _ j] spaces_okD(1,3)[OF sp] a(3) by metis
    qed
  qed
  have "vm_ok ?m (insert ?d D)"
    using sp' cmap_alloc[OF c k pd] vm_okD(3)[OF ok] unfolding vm_ok_def frames_ok_def cm rest by blast
  moreover have "below ?m ?d = {}" by (simp add: below_def dtab)
  moreover have "pte_of ?m d' a b x = pte_of m d' a b x" if "d' \<in> D" "x < 512" for d' a b x
  proof (cases "tab m d' (leaf_pos a b)")
    case (Some v)
    then show ?thesis using tabs[OF that(1)] used[OF spaces_okD(1)[OF sp that(1) Some] that(2)] by (simp add: pte_of_def)
  qed (simp add: pte_of_def tabs[OF that(1)])
  moreover have "Suc (free_count (pgtb_charmap ?m)) = free_count (pgtb_charmap m)" unfolding cm by (rule free_count_alloc[OF c k pd])
  moreover have "ptes ?m (?d + 8 * i) = ptes m (dp + 8 * i)" if "256 \<le> i" "i < 512" for i using pt[OF k that(2)] that(1) by simp
  ultimately show ?thesis using m1(1) dD tabs rest by (intro exI[of _ ?d] exI[of _ m1]) blast
qed

section \<open>Fork copies the address space\<close>

lemma fork_space_shares:
  assumes "vm_ok m D" and "pages_ok m D" and "dp \<in> D" and "(word_of_int pd :: u8) \<noteq> CMAP_FREE"
    and "card (below m dp) < free_count (pgtb_charmap m)" and "\<forall>a b c. c < 512 \<longrightarrow> forkable (pte_of m dp a b c)"
    and "\<forall>j < 51200. pg_charmap m ! j = CMAP_SHARED \<longrightarrow> pg_uva m ! j < 16"
  shows "\<exists>d m1 m'. alloc_pagetable pd m = Some (d, m1) \<and> d \<notin> D \<and>
    fork_space d dp pd (s\<lparr>vm := share_pgtable d dp m1\<rparr>) = Some (s\<lparr>vm := m'\<rparr>) \<and>
    vm_ok m' (insert d D) \<and> pages_ok m' (insert d D) \<and> pg_ffree m' = pg_ffree m \<and>
    (\<forall>va. va_pte m' d va = forked (va_pte m dp va) \<and> va_pte m' dp va = forked (va_pte m dp va) \<and>
       (va_pte m dp va \<noteq> 0 \<longrightarrow> get_attribute (va_pte m' d va) PAGE_COW \<noteq> 0 \<and>
          page_bytes m' d va = page_bytes m dp va \<and> page_bytes m' dp va = page_bytes m dp va)) \<and>
    (\<forall>d' \<in> D - {dp}. \<forall>va. va_pte m' d' va = va_pte m d' va \<and> page_bytes m' d' va = page_bytes m d' va)"
proof -
  have "0 < free_count (pgtb_charmap m)" using assms(5) by simp
  from new_directory[OF assms(1,3) this assms(4)] obtain d m1 where d: "alloc_pagetable pd m = Some (d, m1)" "d \<notin> D" "vm_ok (share_pgtable d dp m1) (insert d D)"
    "below (share_pgtable d dp m1) d = {}" "\<And>d' q. d' \<in> D \<Longrightarrow> tab (share_pgtable d dp m1) d' q = tab m d' q"
    "\<And>d' a b c. d' \<in> D \<Longrightarrow> c < 512 \<Longrightarrow> pte_of (share_pgtable d dp m1) d' a b c = pte_of m d' a b c"
    "Suc (free_count (pgtb_charmap (share_pgtable d dp m1))) = free_count (pgtb_charmap m)" "umem (share_pgtable d dp m1) = umem m"
    "pg_charmap (share_pgtable d dp m1) = pg_charmap m" "pg_uva (share_pgtable d dp m1) = pg_uva m"
    "pg_ffree (share_pgtable d dp m1) = pg_ffree m" by blast
  let ?m = "share_pgtable d dp m1" and ?D = "insert d D"
  have new: "pte_of ?m d a b c = 0" for a b c
    using d(4) by (intro pte_of_none) (auto simp: below_def leaf_pos_def simp del: tab.simps)
  have pg: "pages_ok ?m ?D" using assms(2) d(2,6,9,10) new by (intro pages_cong[OF assms(2)]) (auto simp: pages_ok_def)
  have same: "below ?m dp = below m dp" using d(5)[OF assms(3)] by (simp add: below_def)
  have u: "pg_uva ?m ! j < 16" if j: "j < 51200" "c < 512" "points (pte_of ?m dp a b c) j" "get_attribute (pte_of ?m dp a b c) PAGE_COW \<noteq> 0" for j a b c
  proof -
    have "(dp, a, b, c) \<in> mapped ?m ?D j" using assms(3) j by (simp add: mapped_def)
    then have "pg_charmap m ! j = CMAP_SHARED" using pages_okM(1)[OF pg j(1)] j(4) d(9) by simp
    then show ?thesis using assms(7) j(1) d(10) by simp
  qed
  have "fork_start ?D d dp ?m"
    unfolding fork_start_def using d(3) pg assms(3,5,6) d(2,4,6,7) u same by auto
  from fork_space_spec[OF this assms(4), of s] obtain m' where m': "fork_space d dp pd (s\<lparr>vm := ?m\<rparr>) = Some (s\<lparr>vm := m'\<rparr>)"
    "copying ?D d dp ?m (\<lambda>_ _ _. True) (below ?m dp) m'" by blast
  note c = copyingD[OF m'(2)]
  have um: "umem m' = umem m" using c(3) d(8) by simp
  have "va_pte m' d va = forked (va_pte m dp va)" "va_pte m' dp va = forked (va_pte m dp va)" for va
    using c(4,5)[OF VPN_less] d(6)[OF assms(3) VPN_less] by (simp_all add: va_pte_def)
  moreover have "forkable (va_pte m dp va)" for va unfolding va_pte_def by (rule assms(6)[rule_format, OF VPN_less])
  moreover have "va_pte m' d' va = va_pte m d' va" if "d' \<in> D - {dp}" for d' va
  proof -
    have "d' \<in> ?D - {d, dp}" "d' \<in> D" using that d(2) by auto
    then show ?thesis unfolding va_pte_def using c(6)[OF _ VPN_less] d(6)[OF _ VPN_less] by simp
  qed
  ultimately show ?thesis using d(1,2,11) m'(1) c(1,2,12) forked_simps(2,7) frame_bytes_umem[OF um]
    by (intro exI[of _ d] exI[of _ m1] exI[of _ m']) (simp add: page_bytes_def)
qed

text \<open>
  C31: When \<^verbatim>\<open>do_fork\<close> makes a page directory for the child and walks the tables of the parent, and all pages of the parent
  are in memory, not set up as shared memory and enough page tables are free, then it succeeds: the child has the same pages as
  the parent with the same bytes, every page of both is marked copy-on-write, a page that was not marked before loses
  the right to be written in both, no other address space changes, and the invariant of the page frames (reference counts that
  cover all users, no frame that is used twice by chance) still holds, so that a later write of one process is not seen by the other.
\<close>

theorem fork_copies_space:
  assumes "vm_ok m D" and "pages_ok m D" and "dp \<in> D" and "(word_of_int pd :: u8) \<noteq> CMAP_FREE"
    and "card (below m dp) < free_count (pgtb_charmap m)" and "\<forall>a b c. c < 512 \<longrightarrow> forkable (pte_of m dp a b c)"
    and "\<forall>j < 51200. pg_charmap m ! j = CMAP_SHARED \<longrightarrow> pg_uva m ! j < 16"
  shows "\<exists>d m1 m'. alloc_pagetable pd m = Some (d, m1) \<and> d \<notin> D \<and>
    fork_space d dp pd (s\<lparr>vm := share_pgtable d dp m1\<rparr>) = Some (s\<lparr>vm := m'\<rparr>) \<and>
    vm_ok m' (insert d D) \<and> pages_ok m' (insert d D) \<and>
    (\<forall>va. va_pte m' d va = forked (va_pte m dp va) \<and> va_pte m' dp va = forked (va_pte m dp va) \<and>
       (va_pte m dp va \<noteq> 0 \<longrightarrow> get_attribute (va_pte m' d va) PAGE_COW \<noteq> 0 \<and>
          page_bytes m' d va = page_bytes m dp va \<and> page_bytes m' dp va = page_bytes m dp va)) \<and>
    (\<forall>d' \<in> D - {dp}. \<forall>va. va_pte m' d' va = va_pte m d' va \<and> page_bytes m' d' va = page_bytes m d' va)"
  using fork_space_shares[OF assms, of s] by blast

lemma below_bound:
  assumes ok: "vm_ok m D" and d: "d \<in> D"
  shows "card (below m d) + free_count (pgtb_charmap m) \<le> 3840"
proof -
  let ?U = "{k. k < 3840 \<and> pgtb_charmap m ! k \<noteq> CMAP_FREE}" and ?t = "\<lambda>q. the (tab m d q)"
  note sp = vm_okD(1)[OF ok]
  have t: "tab m d q = Some (?t q)" if "q \<in> below m d" for q using that by (auto simp: below_def)
  have "inj_on ?t (below m d)" using t spaces_okD(2)[OF sp d d] by (intro inj_onI) metis
  moreover have "?t ` below m d \<subseteq> tbl ` ?U" using spaces_okD(1)[OF sp d] t by (fastforce simp: table_used_def)
  ultimately have "card (below m d) \<le> card (tbl ` ?U)" by (intro card_inj_on_le[of ?t]) simp_all
  also have "\<dots> \<le> card ?U" by (rule card_image_le) simp
  also have "\<dots> = length (filter (\<lambda>c. c \<noteq> CMAP_FREE) (pgtb_charmap m))"
    using vm_okD(2)[OF ok] unfolding length_filter_conv_card by (simp add: cmap_ok_def)
  finally have "card (below m d) \<le> length (filter (\<lambda>c. c \<noteq> CMAP_FREE) (pgtb_charmap m))" .
  moreover have "free_count (pgtb_charmap m) + length (filter (\<lambda>c. c \<noteq> CMAP_FREE) (pgtb_charmap m)) = 3840"
    using vm_okD(2)[OF ok] sum_length_filter_compl[of "\<lambda>c. c = CMAP_FREE" "pgtb_charmap m"] by (simp add: free_count_def cmap_ok_def)
  ultimately show ?thesis by simp
qed

theorem fork_copies_space_witness:
  "\<exists>m d m1 m'. vm_ok m {tbl 2} \<and> va_pte m (tbl 2) 0x10000 \<noteq> 0 \<and> alloc_pagetable 3 m = Some (d, m1) \<and>
     fork_space d (tbl 2) 3 (demo_ks\<lparr>vm := share_pgtable d (tbl 2) m1\<rparr>) = Some (demo_ks\<lparr>vm := m'\<rparr>) \<and>
     page_bytes m' d 0x10000 = page_bytes m (tbl 2) 0x10000 \<and> pages_ok m' {d, tbl 2}"
proof -
  obtain m where m: "vm_ok m {tbl 2}" "pages_ok m {tbl 2}" "va_pte m (tbl 2) 0x10000 = demo_cow_pte"
    "\<And>a b c. c < 512 \<Longrightarrow> pte_of m (tbl 2) a b c = 0 \<or> pte_of m (tbl 2) a b c = demo_cow_pte" "\<And>j. j < 51200 \<Longrightarrow> pg_uva m ! j < 16"
    "3800 < free_count (pgtb_charmap m)" using demo_cow by blast
  have e: "forkable demo_cow_pte" "demo_cow_pte \<noteq> 0"
    using demo_cow_pte_simps(2) by (auto simp: forkable_def demo_cow_pte_attr)
  have "\<forall>a b c. c < 512 \<longrightarrow> forkable (pte_of m (tbl 2) a b c)"
  proof (intro allI impI)
    fix a b c :: u64 assume "c < 512"
    then show "forkable (pte_of m (tbl 2) a b c)" using m(4)[of c a b] e by auto
  qed
  moreover have "card (below m (tbl 2)) < free_count (pgtb_charmap m)" using below_bound[OF m(1), of "tbl 2"] m(6) by simp
  moreover have "(word_of_int 3 :: u8) \<noteq> CMAP_FREE" by (simp add: CMAP_FREE_def)
  ultimately obtain d m1 m' where "alloc_pagetable 3 m = Some (d, m1)"
    "fork_space d (tbl 2) 3 (demo_ks\<lparr>vm := share_pgtable d (tbl 2) m1\<rparr>) = Some (demo_ks\<lparr>vm := m'\<rparr>)" "pages_ok m' {d, tbl 2}"
    "page_bytes m' d 0x10000 = page_bytes m (tbl 2) 0x10000"
    using fork_copies_space[of m "{tbl 2}" "tbl 2" 3 demo_ks] m(1-3,5) e by auto
  moreover have "va_pte m (tbl 2) 0x10000 \<noteq> 0" using m(3) e(2) by simp
  ultimately show ?thesis using m(1) by (intro exI[of _ m] exI[of _ d] exI[of _ m1] exI[of _ m'] conjI)
qed

end
