(* ===== verification/E1000.thy ===== *)
theory E1000
  imports Process
begin

text \<open>
  The driver of the network card (\<^verbatim>\<open>drivers/e1000.c\<close>, \<^verbatim>\<open>drivers/e1000.h\<close>): two rings of descriptors with one
  frame buffer per descriptor.

  The card is not part of the program. Its registers are behind \<open>reg_read\<close> and \<open>reg_write\<close>, functions of
  the card's own state \<open>hw\<close>; the descriptors and buffers, which the card changes as well, are the fields of the
  record. \<open>pending\<close> is the queue of frames between the head the card has told and the driver's tail, as the card reads them: through the
  address, the length and the command of each descriptor (\<open>tx_frame\<close>). \<open>tx_ok\<close>, which holds from the start on and is kept, says that these
  addresses are those of the buffers. \<open>arrived\<close> is the queue of frames the card has put into the receive ring.
\<close>

section \<open>Constants\<close>

definition TXDESCS :: u32 where "TXDESCS = 64"
definition TX_FRM_SIZE :: int where "TX_FRM_SIZE = 1024"
definition RX_FRM_SIZE :: nat where "RX_FRM_SIZE = 2048"
definition E1000_ICR :: u32 where "E1000_ICR = 0xC0"
definition E1000_IMS :: u32 where "E1000_IMS = 0xD0"
definition E1000_IMC :: u32 where "E1000_IMC = 0xD8"
definition E1000_RCTL :: u32 where "E1000_RCTL = 0x100"
definition E1000_TCTL :: u32 where "E1000_TCTL = 0x400"
definition E1000_RDBAL :: u32 where "E1000_RDBAL = 0x2800"
definition E1000_RDBAH :: u32 where "E1000_RDBAH = 0x2804"
definition E1000_RDLEN :: u32 where "E1000_RDLEN = 0x2808"
definition E1000_RDH :: u32 where "E1000_RDH = 0x2810"
definition E1000_RDT :: u32 where "E1000_RDT = 0x2818"
definition E1000_TDBAL :: u32 where "E1000_TDBAL = 0x3800"
definition E1000_TDBAH :: u32 where "E1000_TDBAH = 0x3804"
definition E1000_TDLEN :: u32 where "E1000_TDLEN = 0x3808"
definition E1000_TDH :: u32 where "E1000_TDH = 0x3810"
definition E1000_TDT :: u32 where "E1000_TDT = 0x3818"
definition E1000_RA :: u32 where "E1000_RA = 0x5400"
definition E1000_RAH_AV :: u32 where "E1000_RAH_AV = 0x80000000"
definition E1000_TXQE :: u32 where "E1000_TXQE = 0x2"
definition E1000_RXDMT0 :: u32 where "E1000_RXDMT0 = 0x10"
definition E1000_RXD_STAT_DD :: u8 where "E1000_RXD_STAT_DD = 0x1"
definition E1000_TXD_CMD_EOP :: u8 where "E1000_TXD_CMD_EOP = 0x1"
definition E1000_TXD_CMD_RS :: u8 where "E1000_TXD_CMD_RS = 0x8"
definition E1000_TXD_CMD_DEXT :: u8 where "E1000_TXD_CMD_DEXT = 0x20"
definition E1000_RCTL_EN :: u32 where "E1000_RCTL_EN = 0x2"
definition E1000_RCTL_RDMTS_HALF :: u32 where "E1000_RCTL_RDMTS_HALF = 0x0"
definition E1000_RCTL_BAM :: u32 where "E1000_RCTL_BAM = 0x8000"
definition E1000_RCTL_SZ_2048 :: u32 where "E1000_RCTL_SZ_2048 = 0x0"
definition E1000_RCTL_BSEX :: u32 where "E1000_RCTL_BSEX = 0x2000000"
definition E1000_TCTL_EN :: u32 where "E1000_TCTL_EN = 0x2"
definition E1000_TCTL_PSP :: u32 where "E1000_TCTL_PSP = 0x8"
definition E1000_TCTL_CT :: u32 where "E1000_TCTL_CT = 0xff0"
definition E1000_TCTL_COLD :: u32 where "E1000_TCTL_COLD = 0x3ff000"

section \<open>State\<close>

record tx_desc =
  tx_addr :: u64
  tx_length :: u16
  tx_cso :: u8
  tx_cmd :: u8
  tx_status :: u8
  tx_css :: u8
  tx_special :: u16

record rx_desc =
  rx_addr :: u64
  rx_length :: u16
  rx_csum :: u16
  rx_status :: u8
  rx_errors :: u8
  rx_special :: u16

text \<open>The last four fields are the addresses of the static arrays.\<close>

record 'h nic =
  hw :: 'h
  reg_read :: "'h \<Rightarrow> u32 \<Rightarrow> u32 \<times> 'h"
  reg_write :: "'h \<Rightarrow> u32 \<Rightarrow> u32 \<Rightarrow> 'h"
  tx_desc_cq :: "tx_desc list"
  rx_desc_cq :: "rx_desc list"
  tcq_head :: u32
  tcq_tail :: u32
  rcq_tail :: u32
  tx_frm_buffer :: "u8 list list"
  rx_frm_buffer :: "u8 list list"
  tx_desc_kva :: u64
  rx_desc_kva :: u64
  tx_frm_kva :: u64
  rx_frm_kva :: u64

definition Enetaddr :: "u8 list" where "Enetaddr = [0x00, 0x0a, 0x35, 0x00, 0x1e, 0x53]"

definition e1000_write_reg :: "u32 \<Rightarrow> u32 \<Rightarrow> 'h nic \<Rightarrow> 'h nic" where
  "e1000_write_reg reg val n = n\<lparr>hw := reg_write n (hw n) reg val\<rparr>"

definition e1000_read_reg :: "u32 \<Rightarrow> 'h nic \<Rightarrow> u32 \<times> 'h nic" where
  "e1000_read_reg reg n = (let (v, h) = reg_read n (hw n) reg in (v, n\<lparr>hw := h\<rparr>))"

definition e1000_write_reg_array :: "u32 \<Rightarrow> u32 \<Rightarrow> u32 \<Rightarrow> 'h nic \<Rightarrow> 'h nic" where
  "e1000_write_reg_array reg offset val n = n\<lparr>hw := reg_write n (hw n) (reg + push_bit 2 offset) val\<rparr>"

section \<open>Initialization\<close>

partial_function (option) clear_icr :: "'h nic \<Rightarrow> 'h nic option" where
  "clear_icr n = (let (v, n1) = e1000_read_reg E1000_ICR n in if v \<noteq> 0 then clear_icr n1 else Some n1)"

definition e1000_reset :: "'h nic \<Rightarrow> 'h nic option" where
  "e1000_reset n = do {
     let n1 = e1000_write_reg E1000_TCTL 0 (e1000_write_reg E1000_RCTL 0 n);
     let n2 = e1000_write_reg E1000_TDT 0 (e1000_write_reg E1000_TDH 0 n1);
     let n3 = e1000_write_reg E1000_RDT 0 (e1000_write_reg E1000_RDH 0 n2);
     clear_icr (e1000_write_reg E1000_IMC 0xffffffff n3)
   }"

definition e1000_configure_tx :: "'h nic \<Rightarrow> 'h nic" where
  "e1000_configure_tx n =
     (let n1 = n\<lparr>tcq_head := 0, tcq_tail := 0\<rparr>;
          n2 = e1000_write_reg E1000_TDBAL (ucast (kva2pa (tx_desc_kva n1))) n1;
          n3 = e1000_write_reg E1000_TDBAH (ucast (drop_bit 32 (kva2pa (tx_desc_kva n2)))) n2;
          n4 = e1000_write_reg E1000_TDH (tcq_head n3) n3;
          n5 = e1000_write_reg E1000_TDT (tcq_tail n4) n4;
          n6 = e1000_write_reg E1000_TDLEN (16 * TXDESCS) n5;
          (v, n7) = e1000_read_reg E1000_TCTL n6;
          v1 = v OR (E1000_TCTL_EN OR E1000_TCTL_PSP);
          v2 = v1 AND NOT (E1000_TCTL_CT OR E1000_TCTL_COLD);
          v3 = (v2 OR push_bit 4 0x10) OR push_bit 12 0x40
      in e1000_write_reg E1000_TCTL v3 n7)"

definition rx_row_kva :: "'h nic \<Rightarrow> nat \<Rightarrow> u64" where
  "rx_row_kva n i = rx_frm_kva n + of_nat (i * RX_FRM_SIZE)"

definition e1000_configure_rx :: "'h nic \<Rightarrow> 'h nic option" where
  "e1000_configure_rx n = do {
     let b = (\<lambda>k. (ucast (Enetaddr ! k) :: u32));
     let n1 = e1000_write_reg_array E1000_RA 0 (b 0 OR push_bit 8 (b 1) OR push_bit 16 (b 2) OR push_bit 24 (b 3)) n;
     let n2 = e1000_write_reg_array E1000_RA 1 ((b 4 OR push_bit 8 (b 5)) OR E1000_RAH_AV) n1;
     n3 \<leftarrow> for_each [0..<unat RXDESCS] (\<lambda>i n. do {
       d \<leftarrow> nth_chk (rx_desc_cq n) i;
       Some (n\<lparr>rx_desc_cq := (rx_desc_cq n)[i := d\<lparr>rx_addr := kva2pa (rx_row_kva n i)\<rparr>]\<rparr>) }) n2;
     let n4 = n3\<lparr>rcq_tail := RXDESCS - 1\<rparr>;
     let n5 = e1000_write_reg E1000_RDBAL (ucast (kva2pa (rx_desc_kva n4))) n4;
     let n6 = e1000_write_reg E1000_RDBAH (ucast (drop_bit 32 (kva2pa (rx_desc_kva n5)))) n5;
     let n7 = e1000_write_reg E1000_RDLEN (16 * RXDESCS) n6;
     let n8 = e1000_write_reg E1000_RDT (rcq_tail n7) (e1000_write_reg E1000_RDH 0 n7);
     Some (e1000_write_reg E1000_RCTL ((E1000_RCTL_RDMTS_HALF OR E1000_RCTL_EN OR E1000_RCTL_BAM OR E1000_RCTL_SZ_2048) AND NOT E1000_RCTL_BSEX) n8)
   }"

definition e1000_init :: "'h nic \<Rightarrow> 'h nic option" where
  "e1000_init n = do { n1 \<leftarrow> e1000_reset n; e1000_configure_rx (e1000_configure_tx n1) }"

section \<open>Transmission\<close>

definition tcq_len :: "'h nic \<Rightarrow> u32" where
  "tcq_len n = (if tcq_tail n \<ge> tcq_head n then tcq_tail n - tcq_head n else tcq_tail n + TXDESCS - tcq_head n)"

text \<open>A frame is put into the buffer and the descriptor at the tail; \<open>frm\<close> are the bytes of the caller.\<close>

definition put_frame :: "u8 list \<Rightarrow> int \<Rightarrow> 'h nic \<Rightarrow> 'h nic option" where
  "put_frame frm len n = do {
     let i = unat (tcq_tail n);
     row \<leftarrow> nth_chk (tx_frm_buffer n) i;
     d \<leftarrow> nth_chk (tx_desc_cq n) i;
     if nat len > length frm \<or> nat len > length row then None
     else do {
       let d1 = d\<lparr>tx_addr := kva2pa (tx_frm_kva n + of_nat i * of_int TX_FRM_SIZE), tx_length := word_of_int len,
         tx_cmd := (E1000_TXD_CMD_RS OR E1000_TXD_CMD_EOP) AND NOT E1000_TXD_CMD_DEXT\<rparr>;
       Some (n\<lparr>tx_frm_buffer := (tx_frm_buffer n)[i := take (nat len) frm @ drop (nat len) row], tx_desc_cq := (tx_desc_cq n)[i := d1],
         tcq_tail := if tcq_tail n + 1 \<ge> TXDESCS then 0 else tcq_tail n + 1\<rparr>)
     }
   }"

definition e1000_transmit :: "u8 list \<Rightarrow> int \<Rightarrow> 'h nic \<Rightarrow> (int \<times> 'h nic) option" where
  "e1000_transmit txframe len n =
     (if len > TX_FRM_SIZE \<or> len \<le> 0 then Some (0, n)
      else do {
        let (h, n0) = e1000_read_reg E1000_TDH n;
        let n1 = n0\<lparr>tcq_head := h\<rparr>;
        if tcq_len n1 \<ge> TXDESCS - 1 then Some (-1, n1)
        else do {
          n2 \<leftarrow> put_frame txframe len n1;
          Some (len, e1000_write_reg E1000_TDT (tcq_tail n2) n2)
        }
      })"

text \<open>The frames of the array with their lengths; \<open>nfrm\<close> is the number the caller claims.\<close>

definition e1000_transmit_array :: "(u8 list \<times> int) list \<Rightarrow> int \<Rightarrow> 'h nic \<Rightarrow> (int \<times> 'h nic) option" where
  "e1000_transmit_array v nfrm n =
     (if nfrm \<le> 0 \<or> nfrm > int (unat TXDESCS) - 1 then Some (0, n)
      else if nat nfrm > length v then None
      else if \<exists>i \<in> set [0..<nat nfrm]. snd (v ! i) \<le> 0 \<or> snd (v ! i) > TX_FRM_SIZE then Some (0, n)
      else do {
        let (h, n0) = e1000_read_reg E1000_TDH n;
        let n1 = n0\<lparr>tcq_head := h\<rparr>;
        if tcq_len n1 + word_of_int nfrm > TXDESCS - 1 then Some (-1, n1)
        else do {
          (y, n2) \<leftarrow> for_each [0..<nat nfrm] (\<lambda>i (y, n). do { n' \<leftarrow> put_frame (fst (v ! i)) (snd (v ! i)) n; Some (y + snd (v ! i), n') }) (0, n1);
          Some (y, e1000_write_reg E1000_TDT (tcq_tail n2) n2)
        }
      })"

section \<open>Reception\<close>

text \<open>The result is the length or -1, and the bytes that are stored in the buffer of the caller.\<close>

definition e1000_poll :: "'h nic \<Rightarrow> (int \<times> u8 list \<times> 'h nic) option" where
  "e1000_poll n = do {
     let tail_next = (rcq_tail n + 1) mod RXDESCS;
     let i = unat tail_next;
     d \<leftarrow> nth_chk (rx_desc_cq n) i;
     if rx_status d AND E1000_RXD_STAT_DD = 0 then Some (-1, [], n)
     else do {
       row \<leftarrow> nth_chk (rx_frm_buffer n) i;
       let len = unat (rx_length d);
       if len > length row then None
       else do {
         let d1 = \<lparr>rx_addr = kva2pa (rx_row_kva n i), rx_length = 0, rx_csum = 0, rx_status = 0, rx_errors = 0, rx_special = 0\<rparr>;
         let n1 = n\<lparr>rx_desc_cq := (rx_desc_cq n)[i := d1], rcq_tail := tail_next\<rparr>;
         Some (int len, take len row, e1000_write_reg E1000_RDT (rcq_tail n1) n1)
       }
     }
   }"

section \<open>Interrupts\<close>

definition handle_e1000_int_txqe :: "'d kstate \<Rightarrow> 'd kstate option" where
  "handle_e1000_int_txqe s = unblock_all NicSendQ s"

definition handle_e1000_int_rxdmt0 :: "'d kstate \<Rightarrow> 'd kstate option" where
  "handle_e1000_int_rxdmt0 s = unblock_all NicRecvQ s"

section \<open>The rings as queues\<close>

text \<open>The slots from \<open>h\<close> up to, not including, \<open>t\<close>.\<close>

definition slots :: "nat \<Rightarrow> nat \<Rightarrow> nat list" where
  "slots h t = map (\<lambda>k. (h + k) mod 64) [0..<(t + 64 - h) mod 64]"

lemma mod64: "x < 128 \<Longrightarrow> x mod 64 = (if x < 64 then x else x - 64)" for x :: nat
  using mod_less[of "x - 64" 64] by (simp add: le_mod_geq)

lemma ring_len: "h < 64 \<Longrightarrow> t < 64 \<Longrightarrow> (t + 64 - h) mod 64 = (if h \<le> t then t - h else t + 64 - h)" for h t :: nat
  by (subst mod64) auto

lemma slots_snoc:
  assumes "h < 64" and "t < 64" and "(t + 64 - h) mod 64 < 63"
  shows "slots h (if t + 1 \<ge> 64 then 0 else t + 1) = slots h t @ [t]" "t \<notin> set (slots h t)"
proof -
  let ?l = "(t + 64 - h) mod 64" and ?t = "if t + 1 \<ge> 64 then 0 else t + 1"
  note l = ring_len[OF assms(1,2)]
  have "?t < 64" using assms(2) by simp
  then have "(?t + 64 - h) mod 64 = (if h \<le> ?t then ?t - h else ?t + 64 - h)" by (rule ring_len[OF assms(1)])
  also have "\<dots> = Suc ?l" using assms unfolding l by (cases "h \<le> t"; cases "h = t + 1"; cases "t + 1 \<ge> 64") auto
  finally have "(?t + 64 - h) mod 64 = Suc ?l" .
  moreover have "(h + ?l) mod 64 = t" using assms(1,2) unfolding l by (subst mod64) auto
  ultimately show "slots h ?t = slots h t @ [t]" by (simp add: slots_def)
  show "t \<notin> set (slots h t)"
  proof
    assume "t \<in> set (slots h t)"
    then obtain k where k: "k < ?l" "t = (h + k) mod 64" by (auto simp: slots_def)
    have "h + k < 128" using k(1) assms(1,3) by simp
    then show False using k assms(1,2) l mod64[of "h + k"] by (simp split: if_splits)
  qed
qed

text \<open>The card has taken the first frames: the head is further.\<close>

lemma slots_drop:
  assumes "h < 64" and "t < 64" and "h' < 64" and "(h' + 64 - h) mod 64 \<le> (t + 64 - h) mod 64"
  shows "slots h' t = drop ((h' + 64 - h) mod 64) (slots h t)"
proof (rule nth_equalityI)
  let ?l = "(t + 64 - h) mod 64" and ?k = "(h' + 64 - h) mod 64" and ?l' = "(t + 64 - h') mod 64"
  note r = ring_len[OF assms(1,2)] ring_len[OF assms(1,3)] ring_len[OF assms(3,2)]
  have l: "?l' = ?l - ?k" using assms unfolding r by (simp split: if_splits)
  then show "length (slots h' t) = length (drop ?k (slots h t))" by (simp add: slots_def)
  fix i assume "i < length (slots h' t)"
  then have i: "i < ?l'" by (simp add: slots_def)
  have hk: "(h + ?k) mod 64 = h'" using assms(1,3) unfolding r by (subst mod64) auto
  have "(h + (?k + i)) mod 64 = ((h + ?k) mod 64 + i) mod 64" by (simp only: mod_add_left_eq add.assoc)
  then have "(h' + i) mod 64 = (h + (?k + i)) mod 64" by (simp only: hk)
  moreover have "?k + i < ?l" using i assms(4) unfolding l by linarith
  ultimately show "slots h' t ! i = drop ?k (slots h t) ! i" using i assms(4) by (simp add: slots_def)
qed

text \<open>
  What the card sends for a descriptor, by its manual: it reads as many bytes as the descriptor says from the physical address in the
  descriptor, and they are a whole frame if the command has EOP, in the format of these descriptors if it does not have DEXT, with
  the status reported if it has RS. A descriptor with another command sends nothing here. The buffers are one static array, so
  they follow each other in memory from the physical address of the first.
\<close>

definition dma_read :: "'h nic \<Rightarrow> u64 \<Rightarrow> nat \<Rightarrow> u8 list" where
  "dma_read n pa len = take len (drop (unat (pa - kva2pa (tx_frm_kva n))) (concat (tx_frm_buffer n)))"

definition tx_frame :: "'h nic \<Rightarrow> nat \<Rightarrow> u8 list" where
  "tx_frame n i = (let d = tx_desc_cq n ! i in
     if tx_cmd d AND (E1000_TXD_CMD_RS OR E1000_TXD_CMD_EOP OR E1000_TXD_CMD_DEXT) = E1000_TXD_CMD_RS OR E1000_TXD_CMD_EOP
     then dma_read n (tx_addr d) (unat (tx_length d)) else [])"

definition pending :: "'h nic \<Rightarrow> u8 list list" where
  "pending n = map (tx_frame n) (slots (unat (tcq_head n)) (unat (tcq_tail n)))"

definition nic_ok :: "'h nic \<Rightarrow> bool" where
  "nic_ok n \<longleftrightarrow> length (tx_desc_cq n) = 64 \<and> length (rx_desc_cq n) = 64 \<and> length (tx_frm_buffer n) = 64 \<and> length (rx_frm_buffer n) = 64 \<and>
     (\<forall>row \<in> set (tx_frm_buffer n). length row = 1024) \<and> (\<forall>row \<in> set (rx_frm_buffer n). length row = 2048) \<and>
     (\<forall>d \<in> set (rx_desc_cq n). unat (rx_length d) \<le> 2048) \<and>
     tcq_head n < 64 \<and> tcq_tail n < 64 \<and> rcq_tail n < 64"

text \<open>The pending descriptors lead to their own buffers.\<close>

definition tx_ok :: "'h nic \<Rightarrow> bool" where
  "tx_ok n \<longleftrightarrow> (\<forall>i \<in> set (slots (unat (tcq_head n)) (unat (tcq_tail n))).
     tx_addr (tx_desc_cq n ! i) = kva2pa (tx_frm_kva n + of_nat i * 1024) \<and> unat (tx_length (tx_desc_cq n ! i)) \<le> 1024)"

lemma nic_okD:
  assumes "nic_ok n"
  shows "length (tx_desc_cq n) = 64" "length (rx_desc_cq n) = 64" "length (tx_frm_buffer n) = 64" "length (rx_frm_buffer n) = 64"
    "i < 64 \<Longrightarrow> length (tx_frm_buffer n ! i) = 1024" "i < 64 \<Longrightarrow> length (rx_frm_buffer n ! i) = 2048" "i < 64 \<Longrightarrow> unat (rx_length (rx_desc_cq n ! i)) \<le> 2048"
    "unat (tcq_head n) < 64" "unat (tcq_tail n) < 64" "unat (rcq_tail n) < 64"
  using assms nth_mem[of i "tx_frm_buffer n"] nth_mem[of i "rx_frm_buffer n"] nth_mem[of i "rx_desc_cq n"]
  by (auto simp: nic_ok_def word_less_nat_alt)

lemma nic_regs [simp]:
  "nic_ok (e1000_write_reg r v n) = nic_ok n" "pending (e1000_write_reg r v n) = pending n" "nic_ok (n\<lparr>hw := w\<rparr>) = nic_ok n"
  "tcq_tail (e1000_write_reg r v n) = tcq_tail n" "hw (e1000_write_reg r v n) = reg_write n (hw n) r v" "tcq_head (e1000_write_reg r v n) = tcq_head n"
  "tx_frame (e1000_write_reg r v n) = tx_frame n" "rx_desc_cq (e1000_write_reg r v n) = rx_desc_cq n" "rx_frm_buffer (e1000_write_reg r v n) = rx_frm_buffer n"
  "rcq_tail (e1000_write_reg r v n) = rcq_tail n" "tx_ok (e1000_write_reg r v n) = tx_ok n"
  by (simp_all add: e1000_write_reg_def nic_ok_def tx_ok_def pending_def tx_frame_def dma_read_def fun_eq_iff Let_def)

text \<open>The driver starts with an empty ring.\<close>

lemma configure_tx_empty:
  fixes n :: "'h nic"
  assumes "nic_ok n"
  shows "nic_ok (e1000_configure_tx n) \<and> tx_ok (e1000_configure_tx n) \<and> pending (e1000_configure_tx n) = []"
proof -
  have "nic_ok (n\<lparr>tcq_head := 0, tcq_tail := 0\<rparr>)" using assms by (simp add: nic_ok_def)
  moreover have "tx_ok (m\<lparr>hw := w\<rparr>) = tx_ok m" "pending (m\<lparr>hw := w\<rparr>) = pending m" for m :: "'h nic" and w
    by (simp_all add: tx_ok_def pending_def tx_frame_def dma_read_def Let_def)
  moreover have "tx_ok (n\<lparr>tcq_head := 0, tcq_tail := 0\<rparr>)" "pending (n\<lparr>tcq_head := 0, tcq_tail := 0\<rparr>) = []"
    by (simp_all add: tx_ok_def pending_def slots_def)
  ultimately show ?thesis by (simp add: e1000_configure_tx_def e1000_read_reg_def Let_def split: prod.split)
qed

lemma tcq_len_eq: "nic_ok n \<Longrightarrow> unat (tcq_len n) = length (pending n)"
proof -
  assume ok: "nic_ok n"
  let ?h = "unat (tcq_head n)" and ?t = "unat (tcq_tail n)"
  have s: "unat (tcq_tail n + 64) = ?t + 64" using nic_okD(9)[OF ok] by (simp add: unat_word_ariths)
  have "tcq_head n \<le> tcq_tail n + 64" using nic_okD(8)[OF ok] s by (simp add: word_le_nat_alt)
  then have "unat (tcq_tail n + 64 - tcq_head n) = ?t + 64 - ?h" using s by (simp add: unat_sub word_le_nat_alt)
  then show ?thesis using nic_okD(8,9)[OF ok]
    by (auto simp: tcq_len_def TXDESCS_def pending_def slots_def word_le_nat_alt unat_sub mod_if)
qed

lemma concat_row:
  assumes "\<forall>r \<in> set xss. length r = m" and "i < length xss" and "k \<le> m"
  shows "take k (drop (i * m) (concat xss)) = take k (xss ! i)"
proof -
  have "concat xss = concat (take i xss) @ xss ! i @ concat (drop (Suc i) xss)"
    by (subst id_take_nth_drop[OF assms(2)]) simp
  moreover have "length (concat (take i xss)) = i * m"
    using length_concat_uniform[of "take i xss" "\<lambda>x. x" m] assms(1,2) by (auto dest: in_set_takeD)
  moreover have "length (xss ! i) = m" using assms(1,2) by simp
  ultimately show ?thesis using assms(3) by simp
qed

text \<open>A descriptor that leads to its buffer sends the beginning of the buffer.\<close>

lemma dma_row:
  assumes ok: "nic_ok n" and i: "i < 64" and k: "k \<le> 1024"
  shows "dma_read n (kva2pa (tx_frm_kva n + of_nat i * 1024)) k = take k (tx_frm_buffer n ! i)"
proof -
  have "kva2pa (tx_frm_kva n + of_nat i * 1024) - kva2pa (tx_frm_kva n) = of_nat (i * 1024)" by (simp add: kva2pa_def)
  moreover have "unat (of_nat (i * 1024) :: u64) = i * 1024" using i by (intro unat_of_nat_small) simp
  moreover have "take k (drop (i * 1024) (concat (tx_frm_buffer n))) = take k (tx_frm_buffer n ! i)"
    by (rule concat_row) (use ok i k in \<open>simp_all add: nic_ok_def\<close>)
  ultimately show ?thesis by (simp only: dma_read_def)
qed

lemma put_frame_spec:
  assumes ok: "nic_ok n" and room: "length (pending n) < 63" and len: "0 < len" "len \<le> 1024" "nat len \<le> length frm"
  shows "\<exists>n'. put_frame frm len n = Some n' \<and> nic_ok n' \<and> (tx_ok n \<longrightarrow> tx_ok n' \<and> pending n' = pending n @ [take (nat len) frm]) \<and> hw n' = hw n \<and>
    reg_write n' = reg_write n \<and> reg_read n' = reg_read n \<and> rx_desc_cq n' = rx_desc_cq n \<and> rx_frm_buffer n' = rx_frm_buffer n \<and> rcq_tail n' = rcq_tail n"
proof -
  let ?t = "unat (tcq_tail n)" and ?h = "unat (tcq_head n)"
  note d = nic_okD[OF ok]
  define row where "row = take (nat len) frm @ drop (nat len) (tx_frm_buffer n ! ?t)"
  define d' where "d' = (tx_desc_cq n ! ?t)\<lparr>tx_addr := kva2pa (tx_frm_kva n + of_nat ?t * of_int TX_FRM_SIZE), tx_length := word_of_int len,
         tx_cmd := (E1000_TXD_CMD_RS OR E1000_TXD_CMD_EOP) AND NOT E1000_TXD_CMD_DEXT\<rparr>"
  let ?row = row and ?d = d'
  define t' where "t' = (if tcq_tail n + 1 \<ge> TXDESCS then 0 else tcq_tail n + 1)"
  let ?n = "n\<lparr>tx_frm_buffer := (tx_frm_buffer n)[?t := ?row], tx_desc_cq := (tx_desc_cq n)[?t := ?d], tcq_tail := t'\<rparr>"
  have run: "put_frame frm len n = Some ?n" using d(1,3,9) d(5)[OF d(9)] len by (simp add: put_frame_def t'_def row_def d'_def Let_def)
  have t1: "unat (tcq_tail n + 1) = ?t + 1" using d(9) by (simp add: unat_word_ariths)
  have tail: "unat t' = (if ?t + 1 \<ge> 64 then 0 else ?t + 1)" using t1 by (simp add: TXDESCS_def t'_def word_le_nat_alt)
  have l: "(?t + 64 - ?h) mod 64 < 63" using room by (simp add: pending_def slots_def)
  have ul: "unat (word_of_int len :: u16) = nat len" using len(1,2) by (simp add: unat_eq_nat_uint uint_word_of_int_eq take_bit_int_eq_self)
  have lr: "length ?row = 1024" using len d(5)[OF d(9)] by (simp add: row_def)
  have "\<forall>row \<in> set ((tx_frm_buffer n)[?t := ?row]). length row = 1024"
    using ok lr set_update_subset_insert[of "tx_frm_buffer n" ?t ?row] unfolding nic_ok_def by blast
  moreover have "t' < 64" using tail d(9) by (simp add: word_less_nat_alt)
  ultimately have okn: "nic_ok ?n" using ok unfolding nic_ok_def by simp
  have sl: "slots ?h (unat t') = slots ?h ?t @ [?t]" "?t \<notin> set (slots ?h ?t)" unfolding tail by (rule slots_snoc[OF d(8,9) l])+
  have s64: "i < 64" if "i \<in> set (slots ?h ?t)" for i using that by (auto simp: slots_def)
  have "tx_ok ?n \<and> pending ?n = pending n @ [take (nat len) frm]" if tx: "tx_ok n"
  proof
    show "tx_ok ?n" using tx d(1,9) len(2) ul sl by (auto simp: tx_ok_def d'_def TX_FRM_SIZE_def nth_list_update)
    have same: "tx_frame ?n i = tx_frame n i" if i: "i \<in> set (slots ?h ?t)" for i
    proof -
      have di: "tx_addr (tx_desc_cq n ! i) = kva2pa (tx_frm_kva n + of_nat i * 1024)" "unat (tx_length (tx_desc_cq n ! i)) \<le> 1024"
        using tx i by (simp_all add: tx_ok_def)
      have "i \<noteq> ?t" using i sl(2) by auto
      then show ?thesis using dma_row[OF ok s64[OF i] di(2)] dma_row[OF okn s64[OF i] di(2)] by (simp add: tx_frame_def di(1) Let_def)
    qed
    have "tx_frame ?n ?t = take (nat len) frm"
    proof -
      have "tx_desc_cq ?n ! ?t = d'" "tx_frm_buffer ?n ! ?t = row" using d(1,3,9) by simp_all
      moreover have "tx_cmd d' AND (E1000_TXD_CMD_RS OR E1000_TXD_CMD_EOP OR E1000_TXD_CMD_DEXT) = E1000_TXD_CMD_RS OR E1000_TXD_CMD_EOP"
        by (simp add: d'_def E1000_TXD_CMD_RS_def E1000_TXD_CMD_EOP_def E1000_TXD_CMD_DEXT_def)
      moreover have "tx_addr d' = kva2pa (tx_frm_kva ?n + of_nat ?t * 1024)" "unat (tx_length d') = nat len" "take (nat len) row = take (nat len) frm"
        using ul len by (simp_all add: d'_def TX_FRM_SIZE_def row_def)
      ultimately show ?thesis using dma_row[OF okn d(9), of "nat len"] len(2) unfolding tx_frame_def Let_def by (simp only:) simp
    qed
    then show "pending ?n = pending n @ [take (nat len) frm]" using same by (simp add: pending_def sl(1))
  qed
  then show ?thesis using run okn by (intro exI[of _ ?n]) simp
qed

text \<open>Reading the head.\<close>

lemma head_read:
  assumes ok: "nic_ok n" and h: "unat h < 64" and k: "k = (unat h + 64 - unat (tcq_head n)) mod 64" "k \<le> length (pending n)"
  shows "nic_ok (n\<lparr>hw := w, tcq_head := h\<rparr>)" "pending (n\<lparr>hw := w, tcq_head := h\<rparr>) = drop k (pending n)"
    "tx_ok n \<Longrightarrow> tx_ok (n\<lparr>hw := w, tcq_head := h\<rparr>)"
proof -
  note d = nic_okD[OF ok]
  show "nic_ok (n\<lparr>hw := w, tcq_head := h\<rparr>)" using ok h by (simp add: nic_ok_def word_less_nat_alt)
  have sl: "slots (unat h) (unat (tcq_tail n)) = drop k (slots (unat (tcq_head n)) (unat (tcq_tail n)))"
    unfolding k(1) by (rule slots_drop[OF d(8,9) h]) (use k in \<open>simp add: pending_def slots_def\<close>)
  from sl show "pending (n\<lparr>hw := w, tcq_head := h\<rparr>) = drop k (pending n)"
    by (simp add: pending_def drop_map) (simp add: tx_frame_def dma_read_def Let_def)
  assume "tx_ok n"
  with sl show "tx_ok (n\<lparr>hw := w, tcq_head := h\<rparr>)" by (auto simp: tx_ok_def dest: in_set_dropD)
qed

lemma e1000_transmit_spec:
  assumes "nic_ok n" and "reg_read n (hw n) E1000_TDH = (h, w)" and "unat h < 64" and "k = (unat h + 64 - unat (tcq_head n)) mod 64" and "k \<le> length (pending n)"
    and "nat len \<le> length frm"
  shows "if len \<le> 0 \<or> len > 1024 then e1000_transmit frm len n = Some (0, n)
    else if length (pending n) - k \<ge> 63 then e1000_transmit frm len n = Some (-1, n\<lparr>hw := w, tcq_head := h\<rparr>)
    else \<exists>n'. e1000_transmit frm len n = Some (len, n') \<and> nic_ok n' \<and>
      (tx_ok n \<longrightarrow> tx_ok n' \<and> pending n' = drop k (pending n) @ [take (nat len) frm]) \<and> hw n' = reg_write n w E1000_TDT (tcq_tail n')"
proof -
  note hr = head_read[OF assms(1,3,4,5), of w]
  let ?n = "n\<lparr>hw := w, tcq_head := h\<rparr>"
  have "tcq_len ?n \<ge> TXDESCS - 1 \<longleftrightarrow> length (pending n) - k \<ge> 63"
    using tcq_len_eq[OF hr(1)] hr(2) by (simp add: TXDESCS_def word_le_nat_alt)
  then have run: "e1000_transmit frm len n = (if len > 1024 \<or> len \<le> 0 then Some (0, n) else if length (pending n) - k \<ge> 63 then Some (-1, ?n)
      else do { n2 \<leftarrow> put_frame frm len ?n; Some (len, e1000_write_reg E1000_TDT (tcq_tail n2) n2) })"
    using assms(2) by (simp add: e1000_transmit_def e1000_read_reg_def TX_FRM_SIZE_def Let_def)
  show ?thesis
  proof (cases "len \<le> 0 \<or> len > 1024 \<or> length (pending n) - k \<ge> 63")
    case False
    then have "length (pending ?n) < 63" using hr(2) by simp
    then obtain n' where "put_frame frm len ?n = Some n'" "nic_ok n'"
      "tx_ok n \<longrightarrow> tx_ok n' \<and> pending n' = drop k (pending n) @ [take (nat len) frm]" "hw n' = w" "reg_write n' = reg_write n"
      using put_frame_spec[OF hr(1) _ _ _ assms(6)] False hr(2,3) by auto
    then show ?thesis using False run by (simp add: not_le)
  qed (auto simp: run)
qed

text \<open>
  C33: The transmit ring is a bounded queue of 63 frames between driver and card; the frames that are pending are those the card
  finds behind the descriptors, at the physical addresses and with the commands that stand there. The card tells how far it has come
  (its head has passed \<open>k\<close> of the frames that were pending). \<^verbatim>\<open>e1000_transmit\<close> refuses a length that is not from 1 to 1024 without a
  change; while 63 frames are pending it answers -1 and adds nothing; otherwise it answers the length and exactly the bytes of the frame
  are appended to the frames that are pending, and the card is told the new tail.
\<close>

theorem e1000_transmit_queues:
  assumes "nic_ok n" and "tx_ok n" and "reg_read n (hw n) E1000_TDH = (h, w)" and "unat h < 64" and "k = (unat h + 64 - unat (tcq_head n)) mod 64" and "k \<le> length (pending n)"
    and "nat len \<le> length frm"
  shows "if len \<le> 0 \<or> len > 1024 then e1000_transmit frm len n = Some (0, n)
    else if length (pending n) - k \<ge> 63 then e1000_transmit frm len n = Some (-1, n\<lparr>hw := w, tcq_head := h\<rparr>)
    else \<exists>n'. e1000_transmit frm len n = Some (len, n') \<and> nic_ok n' \<and> tx_ok n' \<and> pending n' = drop k (pending n) @ [take (nat len) frm] \<and>
      hw n' = reg_write n w E1000_TDT (tcq_tail n')"
  using e1000_transmit_spec[OF assms(1,3-7)] assms(2) by (cases "len \<le> 0 \<or> len > 1024"; cases "length (pending n) - k \<ge> 63") auto

text \<open>A card whose registers hold what was written, with empty rings.\<close>

definition demo_nic :: "(u32 \<Rightarrow> u32) nic" where
  "demo_nic = \<lparr>hw = (\<lambda>_. 0), reg_read = (\<lambda>h r. (h r, h)), reg_write = (\<lambda>h r v. h(r := v)),
     tx_desc_cq = replicate 64 \<lparr>tx_addr = 0, tx_length = 0, tx_cso = 0, tx_cmd = 0, tx_status = 0, tx_css = 0, tx_special = 0\<rparr>,
     rx_desc_cq = replicate 64 \<lparr>rx_addr = 0, rx_length = 0, rx_csum = 0, rx_status = 0, rx_errors = 0, rx_special = 0\<rparr>,
     tcq_head = 0, tcq_tail = 0, rcq_tail = 63, tx_frm_buffer = replicate 64 (replicate 1024 0), rx_frm_buffer = replicate 64 (replicate 2048 0),
     tx_desc_kva = 0xffffffc050000000, rx_desc_kva = 0xffffffc050000400, tx_frm_kva = 0xffffffc050001000, rx_frm_kva = 0xffffffc050011000\<rparr>"

lemma demo_nic_ok: "nic_ok demo_nic" "pending demo_nic = []" "tx_ok demo_nic"
  by (simp_all add: nic_ok_def tx_ok_def demo_nic_def pending_def slots_def)

theorem e1000_transmit_queues_witness:
  "\<exists>n'. e1000_transmit [1, 2, 3, 4] 3 demo_nic = Some (3, n') \<and> pending n' = [[1, 2, 3]]"
proof -
  have "reg_read demo_nic (hw demo_nic) E1000_TDH = (0, \<lambda>_. 0)" "tcq_head demo_nic = 0" by (simp_all add: demo_nic_def)
  then show ?thesis using e1000_transmit_queues[of demo_nic 0 "\<lambda>_. 0" 0 3 "[1, 2, 3, 4]"] demo_nic_ok by (auto simp: numeral_eq_Suc)
qed

section \<open>Arrays of frames\<close>

lemma put_frames:
  assumes "nic_ok n \<and> tx_ok n" and "length (pending n) + k \<le> 63" and "k \<le> length v" and "\<And>i. i < k \<Longrightarrow> 0 < snd (v ! i) \<and> snd (v ! i) \<le> 1024 \<and> nat (snd (v ! i)) \<le> length (fst (v ! i))"
  shows "\<exists>n'. for_each [0..<k] (\<lambda>i (y, n). do { n' \<leftarrow> put_frame (fst (v ! i)) (snd (v ! i)) n; Some (y + snd (v ! i), n') }) (0, n) =
      Some (sum_list (map snd (take k v)), n') \<and> nic_ok n' \<and> tx_ok n' \<and> pending n' = pending n @ map (\<lambda>(f, l). take (nat l) f) (take k v) \<and> hw n' = hw n \<and> reg_write n' = reg_write n"
proof -
  let ?I = "\<lambda>j (y, m). y = sum_list (map snd (take j v)) \<and> nic_ok m \<and> tx_ok m \<and> pending m = pending n @ map (\<lambda>(f, l). take (nat l) f) (take j v) \<and> hw m = hw n \<and> reg_write m = reg_write n"
  have "\<exists>s'. (\<lambda>(y, n). do { n' \<leftarrow> put_frame (fst (v ! j)) (snd (v ! j)) n; Some (y + snd (v ! j), n') }) s = Some s' \<and> ?I (Suc j) s'"
    if j: "j < k" and I: "?I j s" for j s
  proof -
    obtain y m where s: "s = (y, m)" by (cases s)
    have m: "y = sum_list (map snd (take j v))" "nic_ok m" "pending m = pending n @ map (\<lambda>(f, l). take (nat l) f) (take j v)" "hw m = hw n" "reg_write m = reg_write n"
      "tx_ok m" using I by (simp_all add: s)
    have "length (pending m) < 63" using m(3) j assms(2,3) by simp
    then obtain m' where m': "put_frame (fst (v ! j)) (snd (v ! j)) m = Some m'" "nic_ok m'" "pending m' = pending m @ [take (nat (snd (v ! j))) (fst (v ! j))]"
      "hw m' = hw m" "reg_write m' = reg_write m" "tx_ok m'"
      using put_frame_spec[OF m(2)] assms(4)[OF j] m(6) by blast
    have tk: "take (Suc j) v = take j v @ [v ! j]" using j assms(3) by (simp add: take_Suc_conv_app_nth)
    show ?thesis using m m' by (simp add: s tk case_prod_beta)
  qed
  moreover have "?I 0 (0, n)" using assms(1) by simp
  ultimately have "\<exists>s'. for_each [0..<k] (\<lambda>i (y, n). do { n' \<leftarrow> put_frame (fst (v ! i)) (snd (v ! i)) n; Some (y + snd (v ! i), n') }) (0, n) = Some s' \<and> ?I k s'"
    by (rule for_each_inv[where I = ?I])
  then show ?thesis by auto
qed

text \<open>An array of frames is queued as a whole, in order, or not at all.\<close>

lemma e1000_transmit_array_queues:
  assumes "nic_ok n \<and> tx_ok n" and "reg_read n (hw n) E1000_TDH = (h, w)" and "unat h < 64" and "k = (unat h + 64 - unat (tcq_head n)) mod 64" and "k \<le> length (pending n)"
    and "0 < nfrm" and "nfrm \<le> 63" and "nat nfrm \<le> length v"
    and "\<And>i. i < nat nfrm \<Longrightarrow> 0 < snd (v ! i) \<and> snd (v ! i) \<le> 1024 \<and> nat (snd (v ! i)) \<le> length (fst (v ! i))"
  shows "if length (pending n) - k + nat nfrm > 63 then e1000_transmit_array v nfrm n = Some (-1, n\<lparr>hw := w, tcq_head := h\<rparr>)
    else \<exists>n'. e1000_transmit_array v nfrm n = Some (sum_list (map snd (take (nat nfrm) v)), n') \<and> nic_ok n' \<and> tx_ok n' \<and>
      pending n' = drop k (pending n) @ map (\<lambda>(f, l). take (nat l) f) (take (nat nfrm) v)"
proof -
  note hr = head_read[OF assms(1)[THEN conjunct1] assms(3,4,5), of w]
  let ?n = "n\<lparr>hw := w, tcq_head := h\<rparr>"
  have nu: "unat (word_of_int nfrm :: u32) = nat nfrm" using assms(6,7) by (simp add: unat_eq_nat_uint uint_word_of_int_eq take_bit_int_eq_self)
  have lp: "unat (tcq_len ?n) = length (pending n) - k" using tcq_len_eq[OF hr(1)] hr(2) by simp
  have "length (pending n) - k < 64" by (simp add: pending_def slots_def)
  then have "unat (tcq_len ?n + word_of_int nfrm) = length (pending n) - k + nat nfrm" using nu lp assms(7) by (simp add: unat_word_ariths)
  then have full: "tcq_len ?n + word_of_int nfrm > TXDESCS - 1 \<longleftrightarrow> length (pending n) - k + nat nfrm > 63"
    by (simp add: TXDESCS_def word_less_nat_alt)
  have good: "\<not> (\<exists>i \<in> set [0..<nat nfrm]. snd (v ! i) \<le> 0 \<or> snd (v ! i) > TX_FRM_SIZE)" using assms(9) by (fastforce simp: TX_FRM_SIZE_def)
  have guards: "\<not> (nfrm \<le> 0 \<or> nfrm > int (unat TXDESCS) - 1)" "\<not> nat nfrm > length v" using assms(6-8) by (simp_all add: TXDESCS_def)
  have rd: "e1000_read_reg E1000_TDH n = (h, n\<lparr>hw := w\<rparr>)" using assms(2) by (simp add: e1000_read_reg_def)
  show ?thesis
  proof (cases "length (pending n) - k + nat nfrm > 63")
    case True
    then show ?thesis unfolding e1000_transmit_array_def if_not_P[OF guards(1)] if_not_P[OF guards(2)] if_not_P[OF good] rd Let_def prod.case
      using full by simp
  next
    case False
    then have "length (pending ?n) + nat nfrm \<le> 63" using hr(2) by simp
    have "nic_ok ?n \<and> tx_ok ?n" using hr(1,3) assms(1) by blast
    from put_frames[OF this \<open>length (pending ?n) + nat nfrm \<le> 63\<close> assms(8,9)] obtain n' where n': "for_each [0..<nat nfrm] (\<lambda>i (y, n). do { n' \<leftarrow> put_frame (fst (v ! i)) (snd (v ! i)) n; Some (y + snd (v ! i), n') }) (0, ?n) =
        Some (sum_list (map snd (take (nat nfrm) v)), n')" "nic_ok n' \<and> tx_ok n'" "pending n' = drop k (pending n) @ map (\<lambda>(f, l). take (nat l) f) (take (nat nfrm) v)"
      using hr(2) by auto
    have "e1000_transmit_array v nfrm n = Some (sum_list (map snd (take (nat nfrm) v)), e1000_write_reg E1000_TDT (tcq_tail n') n')"
      unfolding e1000_transmit_array_def if_not_P[OF guards(1)] if_not_P[OF guards(2)] if_not_P[OF good] rd Let_def prod.case
      using full False n'(1) by simp
    then show ?thesis using False n'(2,3) by simp
  qed
qed

section \<open>The receive ring\<close>

definition rx_order :: "nat \<Rightarrow> nat list" where
  "rx_order t = map (\<lambda>k. (t + 1 + k) mod 64) [0..<64]"

definition rx_done :: "'h nic \<Rightarrow> nat \<Rightarrow> bool" where
  "rx_done n i \<longleftrightarrow> rx_status (rx_desc_cq n ! i) AND E1000_RXD_STAT_DD \<noteq> 0"

definition rx_frame :: "'h nic \<Rightarrow> nat \<Rightarrow> u8 list" where
  "rx_frame n i = take (unat (rx_length (rx_desc_cq n ! i))) (rx_frm_buffer n ! i)"

definition arrived :: "'h nic \<Rightarrow> u8 list list" where
  "arrived n = map (rx_frame n) (takeWhile (rx_done n) (rx_order (unat (rcq_tail n))))"

lemma arrived_regs: "arrived (e1000_write_reg r v n) = arrived n"
proof -
  have "rx_frame (e1000_write_reg r v n) = rx_frame n" "rx_done (e1000_write_reg r v n) = rx_done n" by (simp_all add: fun_eq_iff rx_frame_def rx_done_def)
  then show ?thesis by (simp add: arrived_def)
qed

lemma takeWhile_snoc:
  assumes "\<not> P a" and "\<And>x. x \<in> set xs \<Longrightarrow> P x = Q x"
  shows "takeWhile P (xs @ [a]) = takeWhile Q xs"
  using assms by (induction xs) auto

lemma rx_order_next:
  assumes "t < 64"
  shows "\<exists>xs. rx_order t = (t + 1) mod 64 # xs \<and> rx_order ((t + 1) mod 64) = xs @ [(t + 1) mod 64] \<and> (t + 1) mod 64 \<notin> set xs"
proof -
  let ?f = "\<lambda>k. (t + 1 + k) mod 64" and ?xs = "map (\<lambda>k. (t + 1 + k) mod 64) [1..<64]"
  have e1: "[0..<64] = 0 # [1..<64]" and e2: "[0..<64] = [0..<63] @ [63]" by (simp_all add: upt_conv_Cons upt_Suc_append[symmetric])
  have "rx_order t = (t + 1) mod 64 # ?xs" unfolding rx_order_def e1 by (simp only: list.map add_0_right)
  moreover have "rx_order ((t + 1) mod 64) = map (\<lambda>k. ((t + 1) mod 64 + 1 + k) mod 64) [0..<63] @ [((t + 1) mod 64 + 1 + 63) mod 64]"
    unfolding rx_order_def e2 by (simp only: list.map map_append)
  moreover have "map (\<lambda>k. ((t + 1) mod 64 + 1 + k) mod 64) [0..<63] = ?xs"
  proof (rule nth_equalityI)
    fix i assume "i < length (map (\<lambda>k. ((t + 1) mod 64 + 1 + k) mod 64) [0..<63])"
    then have i: "i < 63" by simp
    have "((t + 1) mod 64 + 1 + i) mod 64 = (t + 1 + (1 + i)) mod 64" by (simp only: add.assoc mod_add_left_eq)
    then show "map (\<lambda>k. ((t + 1) mod 64 + 1 + k) mod 64) [0..<63] ! i = ?xs ! i" using i by simp
  qed simp
  moreover have "((t + 1) mod 64 + 1 + 63) mod 64 = (t + 1) mod 64" by simp
  moreover have "(t + 1) mod 64 \<notin> set ?xs"
  proof
    assume "(t + 1) mod 64 \<in> set ?xs"
    then obtain k where k: "1 \<le> k" "k < 64" "(t + 1) mod 64 = (t + 1 + k) mod 64" by auto
    have e: "(t + 1) mod 64 = (if t + 1 < 64 then t + 1 else t + 1 - 64)" using assms by (intro mod64) simp
    have "((t + 1) mod 64 + k) mod 64 = (t + 1 + k) mod 64" by (simp only: mod_add_left_eq)
    moreover have "(t + 1) mod 64 + k < 128" using k(2) by (simp add: e assms)
    ultimately show False using k mod64[of "(t + 1) mod 64 + k"] by (auto split: if_splits)
  qed
  ultimately show ?thesis by auto
qed

lemma e1000_poll_spec:
  assumes "nic_ok n"
  shows "case arrived n of [] \<Rightarrow> e1000_poll n = Some (-1, [], n)
    | f # rest \<Rightarrow> \<exists>n'. e1000_poll n = Some (int (length f), f, n') \<and> nic_ok n' \<and> arrived n' = rest \<and> pending n' = pending n \<and>
        hw n' = reg_write n (hw n) E1000_RDT (rcq_tail n')"
proof -
  let ?t = "unat (rcq_tail n)" and ?w = "(rcq_tail n + 1) mod RXDESCS"
  note d = nic_okD[OF assms]
  have "unat (rcq_tail n + 1) = ?t + 1" using d(10) by (simp add: unat_word_ariths)
  then have w: "unat ?w = (?t + 1) mod 64" by (simp add: RXDESCS_def unat_mod)
  let ?i = "(?t + 1) mod 64"
  have i: "?i < 64" by simp
  obtain xs where xs: "rx_order ?t = ?i # xs" "rx_order ?i = xs @ [?i]" "?i \<notin> set xs" using rx_order_next[OF d(10)] by blast
  show ?thesis
  proof (cases "rx_done n ?i")
    case False
    then have "arrived n = []" by (simp add: arrived_def xs(1))
    moreover have "e1000_poll n = Some (-1, [], n)" using False d(2) by (simp add: e1000_poll_def w rx_done_def Let_def)
    ultimately show ?thesis by simp
  next
    case True
    define d1 where "d1 = \<lparr>rx_addr = kva2pa (rx_row_kva n ?i), rx_length = 0, rx_csum = 0, rx_status = 0, rx_errors = 0, rx_special = 0\<rparr>"
    let ?n = "n\<lparr>rx_desc_cq := (rx_desc_cq n)[?i := d1], rcq_tail := ?w\<rparr>"
    let ?n' = "e1000_write_reg E1000_RDT (rcq_tail ?n) ?n"
    have ar: "arrived n = rx_frame n ?i # map (rx_frame n) (takeWhile (rx_done n) xs)" using True by (simp add: arrived_def xs(1))
    have len: "length (rx_frame n ?i) = unat (rx_length (rx_desc_cq n ! ?i))" using d(6,7)[OF i] by (simp add: rx_frame_def)
    have run: "e1000_poll n = Some (int (length (rx_frame n ?i)), rx_frame n ?i, ?n')"
      using True d(2,4) d(6,7)[OF i] len by (simp add: e1000_poll_def w rx_done_def rx_frame_def d1_def Let_def)
    have w64: "?w < 64" using w i by (simp add: word_less_nat_alt)
    have "unat (rx_length x) \<le> 2048" if "x \<in> set ((rx_desc_cq n)[?i := d1])" for x
      using assms that set_update_subset_insert[of "rx_desc_cq n" ?i d1] unfolding nic_ok_def d1_def by fastforce
    then have ok: "nic_ok ?n" using assms w64 unfolding nic_ok_def by simp
    have same: "rx_frame ?n j = rx_frame n j" "rx_done ?n j = rx_done n j" if "j \<in> set xs" for j
    proof -
      have "j \<noteq> ?i" using that xs(3) by auto
      then show "rx_frame ?n j = rx_frame n j" "rx_done ?n j = rx_done n j" by (simp_all add: rx_frame_def rx_done_def)
    qed
    have last: "\<not> rx_done ?n ?i" using d(2) by (simp add: rx_done_def d1_def)
    have tw: "takeWhile (rx_done ?n) (xs @ [?i]) = takeWhile (rx_done n) xs"
      using last same(2) by (rule takeWhile_snoc)
    have "rcq_tail ?n = ?w" by simp
    then have "arrived ?n = map (rx_frame ?n) (takeWhile (rx_done ?n) (rx_order (unat ?w)))" unfolding arrived_def by (rule arg_cong)
    also have "\<dots> = map (rx_frame ?n) (takeWhile (rx_done n) xs)" unfolding w xs(2) tw ..
    also have "\<dots> = map (rx_frame n) (takeWhile (rx_done n) xs)" using same(1) by (intro map_cong refl) (blast dest: set_takeWhileD)
    finally have "arrived ?n = map (rx_frame n) (takeWhile (rx_done n) xs)" .
    then have "arrived ?n' = map (rx_frame n) (takeWhile (rx_done n) xs)" by (simp only: arrived_regs)
    moreover have "pending ?n' = pending n" by (simp add: pending_def tx_frame_def dma_read_def Let_def)
    ultimately show ?thesis unfolding ar using run ok by (auto simp: e1000_write_reg_def)
  qed
qed

text \<open>
  C34: The receive ring is a queue from the card to the driver: when no frame has arrived, \<^verbatim>\<open>e1000_poll\<close> answers -1 and
  changes nothing; otherwise it answers the length and the bytes of the frame that arrived first, which leaves the queue, and gives
  its descriptor back to the card.
\<close>

theorem e1000_poll_dequeues:
  assumes "nic_ok n"
  shows "case arrived n of [] \<Rightarrow> e1000_poll n = Some (-1, [], n)
    | f # rest \<Rightarrow> \<exists>n'. e1000_poll n = Some (int (length f), f, n') \<and> nic_ok n' \<and> arrived n' = rest \<and> pending n' = pending n \<and>
        hw n' = reg_write n (hw n) E1000_RDT (rcq_tail n')"
  by (rule e1000_poll_spec[OF assms])

text \<open>The card has put a frame of three bytes into the first buffer.\<close>

definition demo_frame :: "(u32 \<Rightarrow> u32) nic" where
  "demo_frame = demo_nic\<lparr>rx_desc_cq := (rx_desc_cq demo_nic)[0 := \<lparr>rx_addr = 0, rx_length = 3, rx_csum = 0, rx_status = 1, rx_errors = 0, rx_special = 0\<rparr>],
     rx_frm_buffer := (rx_frm_buffer demo_nic)[0 := [7, 8, 9] @ replicate 2045 0]\<rparr>"

lemma demo_frame_ok: "nic_ok demo_frame"
  by (auto simp: nic_ok_def demo_frame_def demo_nic_def dest!: set_update_subset_insert[THEN subsetD])

lemma demo_frame_arrived: "arrived demo_frame = [[7, 8, 9]]"
proof -
  have "[0..<64] = 0 # Suc 0 # [Suc (Suc 0)..<64]" by (subst upt_conv_Cons, simp, subst upt_conv_Cons, simp, rule refl)
  then have o: "rx_order 63 = 0 # 1 # map (\<lambda>k. (63 + 1 + k) mod 64) [Suc (Suc 0)..<64]"
    unfolding rx_order_def by (simp only: list.map) simp
  have "rx_done demo_frame 0" "\<not> rx_done demo_frame 1" by (simp_all add: rx_done_def demo_frame_def demo_nic_def E1000_RXD_STAT_DD_def)
  moreover have "rx_frame demo_frame 0 = [7, 8, 9]" by (simp add: rx_frame_def demo_frame_def demo_nic_def)
  moreover have "unat (rcq_tail demo_frame) = 63" by (simp add: demo_frame_def demo_nic_def)
  ultimately show ?thesis unfolding arrived_def using o by simp
qed

theorem e1000_poll_dequeues_witness:
  "\<exists>n'. e1000_poll demo_frame = Some (3, [7, 8, 9], n') \<and> arrived n' = []"
  using e1000_poll_dequeues[OF demo_frame_ok] by (auto simp: demo_frame_arrived)

end
