(* ===== verification/Gntp.thy ===== *)
theory Gntp
  imports E1000 Mbox
begin

text \<open>
  Sending and receiving frames (\<^verbatim>\<open>kernel/net/net.c\<close>), and the header and the list of the stream protocol GNTP (\<^verbatim>\<open>kernel/net/net-gntp.c\<close>).

  The state \<open>net\<close> puts the kernel and the card together with the static variables of the protocol: the header that was
  read or is to be sent, the frame buffer (its address and its bytes; an allocation does not clear them) and the nodes of the list of
  the ranges that have been received, with the static node \<open>dlh\<close> at its head.

  A call that blocks is cut into the parts before and after. This theory holds the operations on packets, the header and the list;
  the lemmas show that the header survives the byte orders and that the list implements the set of the received positions. The
  stream itself is in the theory \<open>GntpStream\<close>.
\<close>

section \<open>State\<close>

definition GNTP_MAGIC :: u8 where "GNTP_MAGIC = 0x45"
definition GNTP_TIMEOUT :: u32 where "GNTP_TIMEOUT = 100"
definition GNTP_HEADER_START :: nat where "GNTP_HEADER_START = 54"
definition GNTP_WINSIZE :: u32 where "GNTP_WINSIZE = 10000"
definition LOCK_IDX :: int where "LOCK_IDX = 15"
definition GNTP_ACK :: u8 where "GNTP_ACK = 4"
definition GNTP_RSD :: u8 where "GNTP_RSD = 2"
definition GNTP_DAT :: u8 where "GNTP_DAT = 1"

record gntp_header =
  g_magic :: u8
  g_type :: u8
  g_length :: u16
  g_seq :: u32

record dlist_node =
  dn_next :: addr
  dn_start :: u32
  dn_end :: u32

record ('d, 'h) net =
  nk :: "'d kstate"
  ncard :: "'h nic"
  header_temp :: gntp_header
  fb :: addr
  fb_mem :: "u8 list"
  dnodes :: "addr \<Rightarrow> dlist_node"
  dlh :: addr

abbreviation net_heap :: "('d, 'h) net \<Rightarrow> kheap" where
  "net_heap s \<equiv> kh (fs (nk s))"

definition set_heap :: "kheap \<Rightarrow> ('d, 'h) net \<Rightarrow> ('d, 'h) net" where
  "set_heap h s = s\<lparr>nk := (nk s)\<lparr>fs := (fs (nk s))\<lparr>kh := h\<rparr>\<rparr>\<rparr>"

definition sizeof_dlist_node :: u32 where "sizeof_dlist_node = 16"

section \<open>Packets\<close>

definition net_block :: "qref \<Rightarrow> u32 \<Rightarrow> ('d, 'h) net \<Rightarrow> ('d, 'h) net option" where
  "net_block q irq s = do {
     k \<leftarrow> do_block q None (nk s);
     Some (s\<lparr>ncard := e1000_write_reg E1000_IMS irq (ncard s), nk := k\<rparr>)
   }"

text \<open>From the test of the loop on. A process that is scheduled again after it has been blocked goes on here.\<close>

definition net_send_loop :: "u8 list \<Rightarrow> int \<Rightarrow> ('d, 'h) net \<Rightarrow> (int outcome \<times> ('d, 'h) net) option" where
  "net_send_loop txpacket len s = do {
     (rt, n) \<leftarrow> e1000_transmit txpacket len (ncard s);
     if rt = -1 then do { s1 \<leftarrow> net_block NicSendQ E1000_TXQE (s\<lparr>ncard := n\<rparr>); Some (Blocked, s1) }
     else Some (Done rt, s\<lparr>ncard := n\<rparr>)
   }"

definition do_net_send :: "u64 \<Rightarrow> u8 list \<Rightarrow> int \<Rightarrow> ('d, 'h) net \<Rightarrow> (int outcome \<times> ('d, 'h) net) option" where
  "do_net_send a txpacket len s =
     (if a \<ge> KVA_MIN \<or> len \<le> 0 then Some (Done 0, s) else net_send_loop txpacket len s)"

definition net_send_array_loop :: "(u8 list \<times> int) list \<Rightarrow> int \<Rightarrow> ('d, 'h) net \<Rightarrow> (int outcome \<times> ('d, 'h) net) option" where
  "net_send_array_loop v npkt s = do {
     (rt, n) \<leftarrow> e1000_transmit_array v npkt (ncard s);
     if rt = -1 then do { s1 \<leftarrow> net_block NicSendQ E1000_TXQE (s\<lparr>ncard := n\<rparr>); Some (Blocked, s1) }
     else Some (Done rt, s\<lparr>ncard := n\<rparr>)
   }"

definition do_net_send_array :: "u64 \<Rightarrow> u64 \<Rightarrow> (u8 list \<times> int) list \<Rightarrow> int \<Rightarrow> ('d, 'h) net \<Rightarrow> (int outcome \<times> ('d, 'h) net) option" where
  "do_net_send_array vpkt vlen v npkt s =
     (if vpkt \<ge> KVA_MIN \<or> vlen \<ge> KVA_MIN then Some (Done 0, s) else net_send_array_loop v npkt s)"

text \<open>
  Receiving: \<open>k\<close> packets are missing, \<open>r\<close> bytes and the frames \<open>fr\<close> have been stored. The frames are stored one behind
  the other and their lengths in the array of the caller.
\<close>

fun net_recv_loop :: "nat \<Rightarrow> int \<Rightarrow> u8 list list \<Rightarrow> ('d, 'h) net \<Rightarrow> (int outcome \<times> nat \<times> int \<times> u8 list list \<times> ('d, 'h) net) option" where
  "net_recv_loop 0 r fr s = Some (Done r, 0, r, fr, s)"
| "net_recv_loop (Suc k) r fr s = do {
     (rt, bs, n) \<leftarrow> e1000_poll (ncard s);
     if rt = -1 then do {
       let s1 = s\<lparr>ncard := n, nk := upd_pcb (cur_cpu (nk s)) (\<lambda>c. c\<lparr>req_len := of_nat (Suc k)\<rparr>) (nk s)\<rparr>;
       s2 \<leftarrow> net_block NicRecvQ E1000_RXDMT0 s1;
       Some (Blocked, Suc k, r, fr, s2)
     } else do { r1 \<leftarrow> c_int32 (r + rt); net_recv_loop k r1 (fr @ [bs]) (s\<lparr>ncard := n\<rparr>) }
   }"

definition do_net_recv :: "u64 \<Rightarrow> int \<Rightarrow> u64 \<Rightarrow> ('d, 'h) net \<Rightarrow> (int outcome \<times> nat \<times> int \<times> u8 list list \<times> ('d, 'h) net) option" where
  "do_net_recv rxbuffer pkt_num pkt_lens s =
     (if rxbuffer \<ge> KVA_MIN \<or> pkt_num \<le> 0 \<or> pkt_lens \<ge> KVA_MIN then Some (Done 0, 0, 0, [], s)
      else net_recv_loop (nat pkt_num) 0 [] s)"

section \<open>The header\<close>

text \<open>A store of some bytes at an offset of a buffer.\<close>

definition store_bytes :: "u8 list \<Rightarrow> nat \<Rightarrow> u8 list \<Rightarrow> u8 list option" where
  "store_bytes bs off b = (if off + length bs \<le> length b then Some (take off b @ bs @ drop (off + length bs) b) else None)"

text \<open>The machine is little-endian, so \<open>bytes_of_u16\<close> and \<open>bytes_of_u32\<close> are what its stores write.\<close>

definition copy_header_to_buffer :: "gntp_header \<Rightarrow> nat \<Rightarrow> u8 list \<Rightarrow> u8 list option" where
  "copy_header_to_buffer h off b = do {
     b1 \<leftarrow> upd_chk b off (g_magic h);
     b2 \<leftarrow> upd_chk b1 (off + 1) (g_type h);
     b3 \<leftarrow> store_bytes (bytes_of_u16 (ucast (drop_bit 8 (ucast (g_length h) :: u32) OR push_bit 8 (ucast (g_length h) :: u32)))) (off + 2) b2;
     store_bytes (bytes_of_u32
       ((drop_bit 24 (g_seq h) AND 0xff) OR (drop_bit 8 (g_seq h) AND push_bit 8 0xff) OR
        (push_bit 8 (g_seq h) AND push_bit 16 0xff) OR (push_bit 24 (g_seq h) AND push_bit 24 0xff))) (off + 4) b3
   }"

definition copy_header_from_buffer :: "nat \<Rightarrow> u8 list \<Rightarrow> gntp_header option" where
  "copy_header_from_buffer off b =
     (if off + 8 \<le> length b then
        (let c = (\<lambda>k. (ucast (b ! (off + k)) :: u32)) in
         Some \<lparr>g_magic = b ! off, g_type = b ! (off + 1), g_length = ucast (push_bit 8 (c 2) OR c 3),
           g_seq = push_bit 24 (c 4) OR push_bit 16 (c 5) OR push_bit 8 (c 6) OR c 7\<rparr>)
      else None)"

section \<open>The list of received ranges\<close>

definition upd_dnode :: "addr \<Rightarrow> (dlist_node \<Rightarrow> dlist_node) \<Rightarrow> ('d, 'h) net \<Rightarrow> ('d, 'h) net" where
  "upd_dnode p f s = s\<lparr>dnodes := (dnodes s)(p := f (dnodes s p))\<rparr>"

definition dnext :: "('d, 'h) net \<Rightarrow> addr \<Rightarrow> addr" where
  "dnext s p = dn_next (dnodes s p)"

definition lfr :: "('d, 'h) net \<Rightarrow> u32" where
  "lfr s = dn_end (dnodes s (dlh s))"

partial_function (option) dlist_free_all :: "addr \<Rightarrow> ('d, 'h) net \<Rightarrow> ('d, 'h) net option" where
  "dlist_free_all p s =
     (if p \<noteq> NULL then do {
        let q = dnext s p;
        h \<leftarrow> kfree_g p (net_heap s);
        dlist_free_all q (set_heap h s)
      } else Some s)"

definition dlist_clear :: "('d, 'h) net \<Rightarrow> ('d, 'h) net option" where
  "dlist_clear s = do {
     s1 \<leftarrow> dlist_free_all (dnext s (dlh s)) s;
     Some (upd_dnode (dlh s1) (\<lambda>n. n\<lparr>dn_start := 0, dn_end := 0, dn_next := NULL\<rparr>) s1)
   }"

text \<open>The loop that stops at the last node that does not start behind \<open>start\<close>.\<close>

partial_function (option) dlist_before :: "('d, 'h) net \<Rightarrow> u32 \<Rightarrow> addr \<Rightarrow> addr option" where
  "dlist_before s start p =
     (if dnext s p \<noteq> NULL \<and> dn_start (dnodes s (dnext s p)) \<le> start then dlist_before s start (dnext s p) else Some p)"

definition dlist_insert :: "u32 \<Rightarrow> u32 \<Rightarrow> ('d, 'h) net \<Rightarrow> (int \<times> ('d, 'h) net) option" where
  "dlist_insert start en s =
     (if start \<ge> en \<or> en \<ge> lfr s + GNTP_WINSIZE then Some (1, s)
      else do {
        p \<leftarrow> dlist_before s start (dlh s);
        let q = dnext s p;
        if \<not> (dn_start (dnodes s p) \<le> start \<and> (q = NULL \<or> dn_start (dnodes s q) > start)) then None
        else if start < dn_end (dnodes s p) \<or> q \<noteq> NULL \<and> en > dn_start (dnodes s q) then Some (1, s)
        else if start = dn_end (dnodes s p) then
          (let s1 = upd_dnode p (\<lambda>n. n\<lparr>dn_end := en\<rparr>) s in
           if q \<noteq> NULL \<and> en = dn_start (dnodes s1 q) then do {
             let s2 = upd_dnode p (\<lambda>n. n\<lparr>dn_end := dn_end (dnodes s1 q)\<rparr>) s1;
             let r = dnext s2 q;
             h \<leftarrow> kfree_g q (net_heap s2);
             Some (0, upd_dnode p (\<lambda>n. n\<lparr>dn_next := r\<rparr>) (set_heap h s2))
           } else Some (0, s1))
        else if q \<noteq> NULL \<and> en = dn_start (dnodes s q) then Some (0, upd_dnode q (\<lambda>n. n\<lparr>dn_start := start\<rparr>) s)
        else do {
          (n, h) \<leftarrow> kmalloc_g sizeof_dlist_node (net_heap s);
          let s1 = set_heap h s;
          if n = NULL then Some (-1, s1)
          else Some (0, upd_dnode p (\<lambda>m. m\<lparr>dn_next := n\<rparr>)
            (upd_dnode n (\<lambda>_. \<lparr>dn_next = dnext s1 p, dn_start = start, dn_end = en\<rparr>) s1))
        }
      })"

section \<open>The header\<close>

lemma header_word_swap:
  "(ucast (drop_bit 8 (ucast w :: u32) OR push_bit 8 (ucast w :: u32)) :: u16) = u16_of_bytes (ucast (drop_bit 8 w)) (ucast w)" for w :: u16
  unfolding u16_of_bytes_def by (rule bit_word_eqI) (auto simp: bit_simps dest: bit_imp_le_length)

lemma header_seq_swap:
  "(drop_bit 24 w AND 0xff) OR (drop_bit 8 w AND push_bit 8 0xff) OR (push_bit 8 w AND push_bit 16 0xff) OR (push_bit 24 w AND push_bit 24 0xff) =
   u32_of_bytes (ucast (drop_bit 24 w)) (ucast (drop_bit 16 w)) (ucast (drop_bit 8 w)) (ucast w)" for w :: u32
proof (rule bit_word_eqI)
  have m: "(0xff :: u32) = mask 8" by (simp add: mask_eq_decr_exp)
  fix n assume "n < LENGTH(32)"
  then consider "n < 8" | "8 \<le> n" "n < 16" | "16 \<le> n" "n < 24" | "24 \<le> n" "n < 32" by fastforce
  then show "bit ((drop_bit 24 w AND 0xff) OR (drop_bit 8 w AND push_bit 8 0xff) OR (push_bit 8 w AND push_bit 16 0xff) OR (push_bit 24 w AND push_bit 24 0xff)) n =
    bit (u32_of_bytes (ucast (drop_bit 24 w)) (ucast (drop_bit 16 w)) (ucast (drop_bit 8 w)) (ucast w)) n"
    unfolding u32_of_bytes_def m by cases (auto simp: bit_simps dest: bit_imp_le_length)
qed

lemma bytes_of_u16_of_bytes: "bytes_of_u16 (u16_of_bytes a b) = [a, b]"
proof -
  have "(ucast (u16_of_bytes a b) :: u8) = a" "(ucast (drop_bit 8 (u16_of_bytes a b)) :: u8) = b"
    unfolding u16_of_bytes_def by (rule bit_word_eqI, auto simp: bit_simps)+
  then show ?thesis by (simp add: bytes_of_u16_def)
qed

definition header_bytes :: "gntp_header \<Rightarrow> u8 list" where
  "header_bytes h = [g_magic h, g_type h, ucast (drop_bit 8 (g_length h)), ucast (g_length h),
     ucast (drop_bit 24 (g_seq h)), ucast (drop_bit 16 (g_seq h)), ucast (drop_bit 8 (g_seq h)), ucast (g_seq h)]"

lemma split8:
  assumes "off + 8 \<le> length b"
  obtains pre a0 a1 a2 a3 a4 a5 a6 a7 post where "b = pre @ [a0, a1, a2, a3, a4, a5, a6, a7] @ post" "length pre = off"
proof -
  obtain c where c: "drop off b = c" "8 \<le> length c" using assms by simp
  then obtain a0 a1 a2 a3 a4 a5 a6 a7 d where "c = [a0, a1, a2, a3, a4, a5, a6, a7] @ d"
    by (auto simp: numeral_eq_Suc Suc_le_length_iff)
  then show thesis using that[of "take off b" a0 a1 a2 a3 a4 a5 a6 a7 d] c assms append_take_drop_id[of off b] by simp
qed

lemma header_to_buffer:
  assumes "off + 8 \<le> length b"
  shows "copy_header_to_buffer h off b = Some (take off b @ header_bytes h @ drop (off + 8) b)"
proof -
  obtain pre a0 a1 a2 a3 a4 a5 a6 a7 post where b: "b = pre @ [a0, a1, a2, a3, a4, a5, a6, a7] @ post" "length pre = off" by (rule split8[OF assms])
  have l: "length b = off + 8 + length post" using b by simp
  have u: "upd_chk b off (g_magic h) = Some (pre @ [g_magic h, a1, a2, a3, a4, a5, a6, a7] @ post)"
    "upd_chk (pre @ [g_magic h, a1, a2, a3, a4, a5, a6, a7] @ post) (off + 1) (g_type h) = Some (pre @ [g_magic h, g_type h, a2, a3, a4, a5, a6, a7] @ post)"
    using b by (simp_all add: upd_chk_def list_update_append)
  have p: "store_bytes [c2, c3] (off + 2) (pre @ [g_magic h, g_type h, a2, a3, a4, a5, a6, a7] @ post) = Some (pre @ [g_magic h, g_type h, c2, c3, a4, a5, a6, a7] @ post)"
    "store_bytes [c4, c5, c6, c7] (off + 4) (pre @ [g_magic h, g_type h, c2, c3, a4, a5, a6, a7] @ post) = Some (pre @ [g_magic h, g_type h, c2, c3, c4, c5, c6, c7] @ post)" for c2 c3 c4 c5 c6 c7
    using b by (simp_all add: store_bytes_def)
  show ?thesis
    unfolding copy_header_to_buffer_def header_word_swap header_seq_swap bytes_of_u32_of_bytes bytes_of_u16_of_bytes u bind.bind_lunit p
    using b by (simp add: header_bytes_def)
qed

lemma header_from_buffer:
  assumes "length pre = off"
  shows "copy_header_from_buffer off (pre @ header_bytes h @ post) = Some h"
proof -
  have l: "(ucast (push_bit 8 (ucast (ucast (drop_bit 8 w) :: u8)) OR ucast (ucast w :: u8) :: u32) :: u16) = w" for w :: u16
    by (rule bit_word_eqI) (auto simp: bit_simps)
  have q: "push_bit 24 (ucast (ucast (drop_bit 24 w) :: u8)) OR push_bit 16 (ucast (ucast (drop_bit 16 w) :: u8)) OR
      push_bit 8 (ucast (ucast (drop_bit 8 w) :: u8)) OR ucast (ucast w :: u8) = (w :: u32)" for w
    using u32_roundtrip[of w] unfolding u32_of_bytes_def by (simp only: or.assoc or.commute or.left_commute)
  show ?thesis using assms by (simp add: copy_header_from_buffer_def header_bytes_def nth_append l q Let_def)
qed

text \<open>
  The header of a frame survives: \<^verbatim>\<open>copy_header_to_buffer\<close> writes the eight bytes of the header in network byte order
  (the highest byte of length and sequence number first) and no other byte, and \<^verbatim>\<open>copy_header_from_buffer\<close> reads the
  same header back from the buffer.
\<close>

theorem header_roundtrip:
  assumes "off + 8 \<le> length b"
  shows "\<exists>b'. copy_header_to_buffer h off b = Some b' \<and> copy_header_from_buffer off b' = Some h \<and>
    b' = take off b @ [g_magic h, g_type h, ucast (drop_bit 8 (g_length h)), ucast (g_length h),
      ucast (drop_bit 24 (g_seq h)), ucast (drop_bit 16 (g_seq h)), ucast (drop_bit 8 (g_seq h)), ucast (g_seq h)] @ drop (off + 8) b"
  using header_to_buffer[OF assms, of h] header_from_buffer[of "take off b" off h "drop (off + 8) b"] assms
  by (simp add: header_bytes_def)

theorem header_roundtrip_witness:
  "\<exists>b'. copy_header_to_buffer \<lparr>g_magic = 0x45, g_type = 4, g_length = 0x102, g_seq = 0x30405\<rparr> 1 [0, 0, 0, 0, 0, 0, 0, 0, 0, 9] = Some b' \<and>
     b' = [0, 0x45, 4, 1, 2, 0, 3, 4, 5, 9]"
proof -
  have c: "(ucast (drop_bit 8 (0x102 :: u16)) :: u8) = 1" "(ucast (0x102 :: u16) :: u8) = 2" "(ucast (drop_bit 24 (0x30405 :: u32)) :: u8) = 0"
    "(ucast (drop_bit 16 (0x30405 :: u32)) :: u8) = 3" "(ucast (drop_bit 8 (0x30405 :: u32)) :: u8) = 4" "(ucast (0x30405 :: u32) :: u8) = 5"
    by code_simp+
  show ?thesis
    using header_roundtrip[of 1 "[0, 0, 0, 0, 0, 0, 0, 0, 0, 9]" "\<lparr>g_magic = 0x45, g_type = 4, g_length = 0x102, g_seq = 0x30405\<rparr>"]
    unfolding gntp_header.select_convs c by simp
qed

section \<open>Sorted ranges\<close>

text \<open>The positions in ranges from \<open>a\<close> up to, not including, \<open>b\<close>; all but the first range are non-empty, and between two ranges is a gap.\<close>

definition cover :: "(nat \<times> nat) list \<Rightarrow> nat set" where
  "cover ivs = (\<Union>(a, b) \<in> set ivs. {a..<b})"

definition separated :: "(nat \<times> nat) list \<Rightarrow> bool" where
  "separated ivs \<longleftrightarrow> sorted_wrt (\<lambda>x y. snd x < fst y) ivs \<and> (\<forall>(a, b) \<in> set ivs. a \<le> b) \<and> (\<forall>(a, b) \<in> set (tl ivs). a < b)"

lemma cover_simps [simp]: "cover [] = {}" "cover ((a, b) # xs) = {a..<b} \<union> cover xs" "cover (xs @ ys) = cover xs \<union> cover ys"
  by (auto simp: cover_def)

lemma cover_above: "x \<in> cover xs \<Longrightarrow> \<forall>v \<in> set xs. a < fst v \<Longrightarrow> a < x"
  by (force simp: cover_def)

lemma cover_below: "x \<in> cover xs \<Longrightarrow> \<forall>v \<in> set xs. snd v \<le> a \<Longrightarrow> x < a"
  by (force simp: cover_def)

lemma separated_split:
  assumes "separated (us @ (s, e) # vs)"
  shows "\<forall>u \<in> set us. snd u < s" "\<forall>v \<in> set vs. e < fst v" "s \<le> e" "\<forall>v \<in> set vs. fst v < snd v" "sorted_wrt (\<lambda>x y. snd x < fst y) us"
    "sorted_wrt (\<lambda>x y. snd x < fst y) vs" "\<forall>u \<in> set us. \<forall>v \<in> set vs. snd u < fst v" "\<forall>u \<in> set us. fst u \<le> snd u" "us \<noteq> [] \<Longrightarrow> s < e \<and> (\<forall>u \<in> set (tl us). fst u < snd u)"
  using assms by (cases us; fastforce simp: separated_def sorted_wrt_append)+

lemma ranges_overlap:
  assumes "separated (us @ (s, e) # vs)" and "s \<le> a" and "a < b" and "\<forall>v \<in> set vs. a < fst v"
  shows "cover (us @ (s, e) # vs) \<inter> {a..<b} = {} \<longleftrightarrow> e \<le> a \<and> (vs = [] \<or> b \<le> fst (hd vs))"
proof -
  note sp = separated_split[OF assms(1)]
  have us: "cover us \<inter> {a..<b} = {}" using cover_below[of _ us s] sp(1) assms(2) by fastforce
  have vs: "cover vs \<inter> {a..<b} = {} \<longleftrightarrow> vs = [] \<or> b \<le> fst (hd vs)"
  proof (cases vs)
    case (Cons v vs')
    obtain c d where v: "v = (c, d)" by (cases v)
    have "\<forall>x \<in> set vs'. d < fst x" "c < d" "a < c" using sp(4,6) assms(4) by (auto simp: Cons v)
    moreover have "x \<in> cover vs' \<Longrightarrow> d < x" for x using calculation(1) by (rule cover_above[rotated])
    ultimately show ?thesis by (auto simp: Cons v) (metis order.strict_trans less_le_not_le linorder_not_less)+
  qed simp
  have "{s..<e} \<inter> {a..<b} = {} \<longleftrightarrow> e \<le> a" using assms(2,3) by auto
  then show ?thesis using us vs by (simp only: cover_simps Int_Un_distrib2 Un_empty) blast
qed

text \<open>The four ways a range without an overlap is added.\<close>

lemma ranges_extend:
  assumes "separated (us @ (s, e) # vs)" and "e < b" and "vs = [] \<or> b < fst (hd vs)"
  shows "separated (us @ (s, b) # vs)" "cover (us @ (s, b) # vs) = cover (us @ (s, e) # vs) \<union> {e..<b}"
proof -
  note sp = separated_split[OF assms(1)]
  have v: "\<forall>v \<in> set vs. b < fst v" using assms(3) sp(4,6) by (cases vs) fastforce+
  then show "separated (us @ (s, b) # vs)" using sp assms(2) by (cases us) (fastforce simp: separated_def sorted_wrt_append)+
  show "cover (us @ (s, b) # vs) = cover (us @ (s, e) # vs) \<union> {e..<b}" using sp(3) assms(2) by auto
qed

lemma ranges_join:
  assumes "separated (us @ (s, e) # (b, d) # vs)" and "e < b"
  shows "separated (us @ (s, d) # vs)" "cover (us @ (s, d) # vs) = cover (us @ (s, e) # (b, d) # vs) \<union> {e..<b}"
proof -
  note sp = separated_split[OF assms(1)]
  show "separated (us @ (s, d) # vs)" using sp assms(2) by (cases us) (fastforce simp: separated_def sorted_wrt_append)+
  show "cover (us @ (s, d) # vs) = cover (us @ (s, e) # (b, d) # vs) \<union> {e..<b}" using sp(3,4) assms(2) by fastforce
qed

lemma ranges_before:
  assumes "separated (us @ (s, e) # (b, d) # vs)" and "e < a" and "a < b"
  shows "separated (us @ (s, e) # (a, d) # vs)" "cover (us @ (s, e) # (a, d) # vs) = cover (us @ (s, e) # (b, d) # vs) \<union> {a..<b}"
proof -
  note sp = separated_split[OF assms(1)]
  show "separated (us @ (s, e) # (a, d) # vs)" using sp assms(2,3) by (cases us) (fastforce simp: separated_def sorted_wrt_append)+
  show "cover (us @ (s, e) # (a, d) # vs) = cover (us @ (s, e) # (b, d) # vs) \<union> {a..<b}" using sp(4) assms(2,3) by fastforce
qed

lemma ranges_between:
  assumes "separated (us @ (s, e) # vs)" and "e < a" and "a < b" and "vs = [] \<or> b < fst (hd vs)"
  shows "separated (us @ (s, e) # (a, b) # vs)" "cover (us @ (s, e) # (a, b) # vs) = cover (us @ (s, e) # vs) \<union> {a..<b}"
proof -
  note sp = separated_split[OF assms(1)]
  have v: "\<forall>v \<in> set vs. b < fst v" using assms(4) sp(4,6) by (cases vs) fastforce+
  then show "separated (us @ (s, e) # (a, b) # vs)" using sp assms(2,3) by (cases us) (fastforce simp: separated_def sorted_wrt_append)+
  show "cover (us @ (s, e) # (a, b) # vs) = cover (us @ (s, e) # vs) \<union> {a..<b}" by auto
qed

text \<open>The end of the first range is the first missing position.\<close>

lemma first_missing:
  assumes "separated ((0, e) # vs)"
  shows "e \<notin> cover ((0, e) # vs)" "{0..<e} \<subseteq> cover ((0, e) # vs)"
proof -
  have "\<forall>v \<in> set vs. e < fst v" using separated_split(2)[of "[]" 0 e vs] assms by simp
  then show "e \<notin> cover ((0, e) # vs)" using cover_above[of e vs e] by auto
qed auto

section \<open>The list implements the set of received positions\<close>

definition ivl :: "('d, 'h) net \<Rightarrow> addr \<Rightarrow> nat \<times> nat" where
  "ivl s n = (unat (dn_start (dnodes s n)), unat (dn_end (dnodes s n)))"

definition dl_ok :: "('d, 'h) net \<Rightarrow> addr list \<Rightarrow> bool" where
  "dl_ok s ns \<longleftrightarrow> lpath (dnext s) (dlh s) ns \<and> distinct ns \<and> set ns \<subseteq> fst ` live (net_heap s) \<and> heap_ok (net_heap s) \<and>
     dlh s \<noteq> NULL \<and> dlh s \<notin> heap_area (net_heap s) \<and> dn_start (dnodes s (dlh s)) = 0 \<and> separated (map (ivl s) (dlh s # ns))"

definition received :: "('d, 'h) net \<Rightarrow> addr list \<Rightarrow> nat set" where
  "received s ns = cover (map (ivl s) (dlh s # ns))"

lemma net_simps [simp]:
  "dnext (upd_dnode p f s) x = (if x = p then dn_next (f (dnodes s p)) else dnext s x)"
  "dnodes (upd_dnode p f s) x = (if x = p then f (dnodes s p) else dnodes s x)"
  "dlh (upd_dnode p f s) = dlh s" "nk (upd_dnode p f s) = nk s" "ncard (upd_dnode p f s) = ncard s" "fb (upd_dnode p f s) = fb s"
  "fb_mem (upd_dnode p f s) = fb_mem s" "header_temp (upd_dnode p f s) = header_temp s"
  "dnext (set_heap h s) = dnext s" "dnodes (set_heap h s) = dnodes s" "dlh (set_heap h s) = dlh s" "net_heap (set_heap h s) = h"
  "ncard (set_heap h s) = ncard s" "fb (set_heap h s) = fb s" "fb_mem (set_heap h s) = fb_mem s" "header_temp (set_heap h s) = header_temp s"
  "ivl (set_heap h s) = ivl s"
  by (simp_all add: dnext_def upd_dnode_def set_heap_def ivl_def fun_eq_iff)

lemma ivl_upd: "ivl (upd_dnode p f s) x = (if x = p then (unat (dn_start (f (dnodes s p))), unat (dn_end (f (dnodes s p)))) else ivl s x)"
  by (simp add: ivl_def)

lemma dl_head: "dl_ok s ns \<Longrightarrow> dlh s \<notin> set ns \<and> NULL \<notin> set ns"
  unfolding dl_ok_def using km.live_pool[of "net_heap s"] km.pool_nonnull[of "net_heap s"] by blast

lemma dlist_before_spec:
  assumes "lpath (dnext s) p ns" and "sorted_wrt (\<lambda>x y. fst x < fst y) (map (ivl s) ns)"
  shows "\<exists>xs ys. ns = xs @ ys \<and> dlist_before s a p = Some (last (p # xs)) \<and> (\<forall>x \<in> set xs. fst (ivl s x) \<le> unat a) \<and> (\<forall>y \<in> set ys. unat a < fst (ivl s y))"
  using assms
proof (induction ns arbitrary: p)
  case Nil
  then show ?case by (simp add: dlist_before.simps)
next
  case (Cons n ns)
  then have n: "dnext s p = n" "n \<noteq> NULL" "lpath (dnext s) n ns" by simp_all
  show ?case
  proof (cases "dn_start (dnodes s n) \<le> a")
    case True
    obtain xs ys where "ns = xs @ ys" "dlist_before s a n = Some (last (n # xs))" "\<forall>x \<in> set xs. fst (ivl s x) \<le> unat a" "\<forall>y \<in> set ys. unat a < fst (ivl s y)"
      using Cons.IH[OF n(3)] Cons.prems(2) by auto
    moreover have "dlist_before s a p = dlist_before s a n" using n True by (subst dlist_before.simps) simp
    ultimately show ?thesis using True by (intro exI[of _ "n # xs"] exI[of _ ys]) (auto simp: ivl_def word_le_nat_alt)
  next
    case False
    then have "dlist_before s a p = Some p" using n by (simp add: dlist_before.simps)
    moreover have "unat a < fst (ivl s n)" using False by (simp add: ivl_def word_le_nat_alt)
    then have "\<forall>y \<in> set (n # ns). unat a < fst (ivl s y)" using Cons.prems(2) by auto
    ultimately show ?thesis by (intro exI[of _ "[]"] exI[of _ "n # ns"]) simp
  qed
qed

lemma lpath_behind:
  "lpath nx p0 (xs @ ys) \<Longrightarrow> case ys of [] \<Rightarrow> nx (last (p0 # xs)) = NULL | y # ys' \<Rightarrow> nx (last (p0 # xs)) = y \<and> y \<noteq> NULL"
  by (induction xs arbitrary: p0) (auto split: list.splits)

lemma lpath_insert:
  assumes "lpath nx p0 (xs @ ys)" and "p0 # xs = bs @ [p]" and "p \<notin> set bs" and "p \<notin> set ys" and "n \<noteq> NULL"
    and "\<And>x. x \<in> set (bs @ ys) \<Longrightarrow> nx' x = nx x" and "nx' p = n" and "nx' n = nx p"
  shows "lpath nx' p0 (xs @ n # ys)"
  using assms
proof (induction xs arbitrary: p0 bs)
  case Nil
  then have "p0 = p" "lpath nx p ys" by simp_all
  moreover have "lpath nx' n ys"
  proof (cases ys)
    case (Cons y zs)
    then have y: "nx p = y" "y \<noteq> NULL" "lpath nx y zs" using calculation(2) by simp_all
    from y(3) have "lpath nx' y zs" by (rule lpath_frame) (use Nil(6) Cons in auto)
    then show ?thesis using Cons y Nil(8) by simp
  qed (use calculation(2) Nil(8) in simp)
  ultimately show ?case using Nil by simp
next
  case (Cons x xs)
  then obtain cs where cs: "bs = p0 # cs" "x # xs = cs @ [p]" by (cases bs) auto
  have x: "nx p0 = x" "x \<noteq> NULL" "lpath nx x (xs @ ys)" using Cons.prems(1) by simp_all
  have "lpath nx' x (xs @ n # ys)" by (rule Cons.IH[OF x(3) cs(2)]) (use Cons.prems cs in auto)
  moreover have "nx' p0 = nx p0" using Cons.prems(6) cs(1) by simp
  ultimately show ?case using x by simp
qed

lemma separated_starts:
  assumes "separated ivs"
  shows "sorted_wrt (\<lambda>x y. fst x < fst y) ivs"
proof (rule sorted_wrt_mono_rel[of ivs "\<lambda>x y. snd x < fst y"])
  fix x y assume "x \<in> set ivs" "snd x < fst y"
  then show "fst x < fst y" using assms by (fastforce simp: separated_def)
qed (use assms in \<open>simp add: separated_def\<close>)

text \<open>The nodes up to \<open>p\<close> and behind it.\<close>

lemma dl_split:
  assumes ok: "dl_ok s (xs @ ys)"
  obtains bs where "dlh s # xs = bs @ [last (dlh s # xs)]" "last (dlh s # xs) \<notin> set bs" "last (dlh s # xs) \<notin> set ys" "set bs \<inter> set ys = {}"
proof -
  define b l where "b = butlast (dlh s # xs)" and "l = last (dlh s # xs)"
  have e: "dlh s # xs = b @ [l]" unfolding b_def l_def by (rule append_butlast_last_id[symmetric]) simp
  have "distinct ((dlh s # xs) @ ys)" using ok dl_head[OF ok] by (simp add: dl_ok_def)
  then have "l \<notin> set b" "l \<notin> set ys" "set b \<inter> set ys = {}" unfolding e by auto
  then show thesis using that[of b] e unfolding l_def by blast
qed

definition dl_frame :: "('d, 'h) net \<Rightarrow> addr list \<Rightarrow> ('d, 'h) net \<Rightarrow> addr list \<Rightarrow> bool" where
  "dl_frame s ns s' ns' \<longleftrightarrow> s' = (set_heap (net_heap s') s)\<lparr>dnodes := dnodes s'\<rparr> \<and> heap_area (net_heap s') = heap_area (net_heap s) \<and>
     (\<forall>x \<in> fst ` live (net_heap s) - set ns. x \<in> fst ` live (net_heap s') - set ns')"

lemma dl_frame_refl: "dl_frame s ns s ns"
  by (simp add: dl_frame_def set_heap_def)

lemma set_heap_same [simp]: "set_heap (net_heap s) s = s"
  by (simp add: set_heap_def)

lemma ivl_map_cong: "(\<And>x. x \<in> set xs \<Longrightarrow> dnodes s' x = dnodes s x) \<Longrightarrow> map (ivl s') xs = map (ivl s) xs"
  by (simp add: ivl_def)

text \<open>The counts of a node change, the list stays.\<close>

lemma dl_change:
  assumes ok: "dl_ok s ns" and q: "q \<in> set (dlh s # ns)" and f: "\<And>n. dn_next (f n) = dn_next n" "q = dlh s \<Longrightarrow> dn_start (f (dnodes s q)) = 0"
    and sep: "separated (map (ivl (upd_dnode q f s)) (dlh s # ns))"
  shows "dl_ok (upd_dnode q f s) ns" "dl_frame s ns (upd_dnode q f s) ns"
proof -
  have "dnext (upd_dnode q f s) = dnext s" by (simp add: fun_eq_iff f(1)) (simp add: dnext_def)
  then show "dl_ok (upd_dnode q f s) ns" using ok f(2) sep by (auto simp: dl_ok_def)
  show "dl_frame s ns (upd_dnode q f s) ns" by (simp add: dl_frame_def upd_dnode_def set_heap_def)
qed

lemma dlist_extend:
  assumes ok: "dl_ok s (xs @ ys)" and p: "p = last (dlh s # xs)" and e: "dn_end (dnodes s p) < en" "ys = [] \<or> unat en < fst (ivl s (hd ys))"
  defines "s' \<equiv> upd_dnode p (\<lambda>n. n\<lparr>dn_end := en\<rparr>) s"
  shows "dl_ok s' (xs @ ys) \<and> dl_frame s (xs @ ys) s' (xs @ ys) \<and> received s' (xs @ ys) = received s (xs @ ys) \<union> {unat (dn_end (dnodes s p))..<unat en}"
proof -
  obtain bs where bs: "dlh s # xs = bs @ [p]" "p \<notin> set bs" "p \<notin> set ys" using dl_split[OF ok] p by metis
  have l: "dlh s # xs @ ys = bs @ p # ys" using bs(1) by simp
  have m: "map (ivl s') bs = map (ivl s) bs" "map (ivl s') ys = map (ivl s) ys" using bs by (auto simp: s'_def ivl_def)
  have ip: "ivl s' p = (fst (ivl s p), unat en)" by (simp add: s'_def ivl_upd) (simp add: ivl_def)
  have old: "map (ivl s) (dlh s # xs @ ys) = map (ivl s) bs @ (fst (ivl s p), unat (dn_end (dnodes s p))) # map (ivl s) ys" unfolding l by (simp add: ivl_def)
  have new: "map (ivl s') (dlh s # xs @ ys) = map (ivl s) bs @ (fst (ivl s p), unat en) # map (ivl s) ys" unfolding l by (simp add: m ip)
  have sep: "separated (map (ivl s) bs @ (fst (ivl s p), unat (dn_end (dnodes s p))) # map (ivl s) ys)" using ok old by (simp only: dl_ok_def)
  note r = ranges_extend[OF sep, of "unat en"]
  have h: "map (ivl s) ys = [] \<or> unat en < fst (hd (map (ivl s) ys))" using e(2) by (cases ys) auto
  have "p \<in> set (dlh s # xs @ ys)" unfolding l by simp
  moreover have "p = dlh s \<Longrightarrow> dn_start (dnodes s p) = 0" using ok by (simp add: dl_ok_def)
  moreover have "separated (map (ivl s') (dlh s # xs @ ys))" unfolding new using r(1) e(1) h by (simp add: word_less_nat_alt)
  ultimately have "dl_ok s' (xs @ ys)" "dl_frame s (xs @ ys) s' (xs @ ys)" unfolding s'_def by (intro dl_change[OF ok]; simp)+
  moreover have "dlh s' = dlh s" by (simp add: s'_def)
  then have "received s' (xs @ ys) = received s (xs @ ys) \<union> {unat (dn_end (dnodes s p))..<unat en}"
    unfolding received_def using new old r(2) e(1) h by (simp only: word_less_nat_alt)
  ultimately show ?thesis by blast
qed

lemma dlist_before_next:
  assumes ok: "dl_ok s (xs @ q # ys)" and p: "p = last (dlh s # xs)" and e: "dn_end (dnodes s p) < a" "a < dn_start (dnodes s q)"
  defines "s' \<equiv> upd_dnode q (\<lambda>n. n\<lparr>dn_start := a\<rparr>) s"
  shows "dl_ok s' (xs @ q # ys) \<and> dl_frame s (xs @ q # ys) s' (xs @ q # ys) \<and>
    received s' (xs @ q # ys) = received s (xs @ q # ys) \<union> {unat a..<unat (dn_start (dnodes s q))}"
proof -
  obtain bs where bs: "dlh s # xs = bs @ [p]" "p \<notin> set bs" "p \<notin> set (q # ys)" "set bs \<inter> set (q # ys) = {}" using dl_split[OF ok] p by metis
  have q: "q \<notin> set ys" "q \<noteq> dlh s" using ok dl_head[OF ok] by (auto simp: dl_ok_def)
  have l: "dlh s # xs @ q # ys = bs @ p # q # ys" using bs(1) by simp
  have m: "map (ivl s') bs = map (ivl s) bs" "map (ivl s') ys = map (ivl s) ys" "ivl s' p = ivl s p" using bs q by (auto simp: s'_def ivl_def)
  have iq: "ivl s' q = (unat a, snd (ivl s q))" by (simp add: s'_def ivl_upd) (simp add: ivl_def)
  have old: "map (ivl s) (dlh s # xs @ q # ys) = map (ivl s) bs @ (fst (ivl s p), unat (dn_end (dnodes s p))) # (unat (dn_start (dnodes s q)), snd (ivl s q)) # map (ivl s) ys"
    unfolding l by (simp add: ivl_def)
  have new: "map (ivl s') (dlh s # xs @ q # ys) = map (ivl s) bs @ (fst (ivl s p), unat (dn_end (dnodes s p))) # (unat a, snd (ivl s q)) # map (ivl s) ys"
    unfolding l using m iq by (simp add: ivl_def)
  have sep: "separated (map (ivl s) bs @ (fst (ivl s p), unat (dn_end (dnodes s p))) # (unat (dn_start (dnodes s q)), snd (ivl s q)) # map (ivl s) ys)" using ok old by (simp only: dl_ok_def)
  note r = ranges_before[OF sep, of "unat a"]
  have "separated (map (ivl s') (dlh s # xs @ q # ys))" unfolding new using r(1) e by (simp add: word_less_nat_alt)
  then have "dl_ok s' (xs @ q # ys)" "dl_frame s (xs @ q # ys) s' (xs @ q # ys)" unfolding s'_def using q(2) by (intro dl_change[OF ok]; simp)+
  moreover have "dlh s' = dlh s" by (simp add: s'_def)
  then have "received s' (xs @ q # ys) = received s (xs @ q # ys) \<union> {unat a..<unat (dn_start (dnodes s q))}"
    unfolding received_def using new old r(2) e by (simp only: word_less_nat_alt)
  ultimately show ?thesis by blast
qed

lemma dlist_join:
  assumes ok: "dl_ok s (xs @ q # ys)" and p: "p = last (dlh s # xs)" and e: "dn_end (dnodes s p) < dn_start (dnodes s q)"
    and h: "heap_ok h" "fst ` live h = fst ` live (net_heap s) - {q}" "heap_area h = heap_area (net_heap s)"
  defines "s' \<equiv> upd_dnode p (\<lambda>n. n\<lparr>dn_end := dn_end (dnodes s q), dn_next := dnext s q\<rparr>) (set_heap h s)"
  shows "dl_ok s' (xs @ ys) \<and> dl_frame s (xs @ q # ys) s' (xs @ ys) \<and>
    received s' (xs @ ys) = received s (xs @ q # ys) \<union> {unat (dn_end (dnodes s p))..<unat (dn_start (dnodes s q))}"
proof -
  obtain bs where bs: "dlh s # xs = bs @ [p]" "p \<notin> set bs" "p \<notin> set (q # ys)" "set bs \<inter> set (q # ys) = {}" using dl_split[OF ok] p by metis
  have q: "q \<notin> set ys" "q \<noteq> dlh s" "q \<notin> set xs" using ok dl_head[OF ok] by (auto simp: dl_ok_def)
  have lx: "dlh s # xs @ q # ys = bs @ p # q # ys" "dlh s # xs @ ys = bs @ p # ys" using bs(1) by simp_all
  have m: "map (ivl s') bs = map (ivl s) bs" "map (ivl s') ys = map (ivl s) ys" using bs by (auto simp: s'_def ivl_def)
  have ip: "ivl s' p = (fst (ivl s p), snd (ivl s q))" by (simp add: s'_def ivl_upd) (simp add: ivl_def)
  have old: "map (ivl s) (dlh s # xs @ q # ys) = map (ivl s) bs @ (fst (ivl s p), unat (dn_end (dnodes s p))) # (unat (dn_start (dnodes s q)), snd (ivl s q)) # map (ivl s) ys"
    unfolding lx by (simp add: ivl_def)
  have new: "map (ivl s') (dlh s # xs @ ys) = map (ivl s) bs @ (fst (ivl s p), snd (ivl s q)) # map (ivl s) ys" unfolding lx using m ip by simp
  have sep: "separated (map (ivl s) bs @ (fst (ivl s p), unat (dn_end (dnodes s p))) # (unat (dn_start (dnodes s q)), snd (ivl s q)) # map (ivl s) ys)" using ok old by (simp only: dl_ok_def)
  note r = ranges_join[OF sep]
  have e': "unat (dn_end (dnodes s p)) < unat (dn_start (dnodes s q))" using e by (simp add: word_less_nat_alt)
  have d: "distinct (dlh s # xs @ q # ys)" using ok dl_head[OF ok] by (simp add: dl_ok_def)
  have "lpath (dnext s) (dlh s) (xs @ q # ys)" using ok by (simp add: dl_ok_def)
  then have "lpath (dnext s') (dlh s) (xs @ ys)" by (rule lpath_remove[OF _ d]) (auto simp: s'_def p simp del: last.simps)
  moreover have "separated (map (ivl s') (dlh s # xs @ ys))" unfolding new using r(1) e' by blast
  moreover have "set (xs @ ys) \<subseteq> fst ` live h" using ok h(2) q by (auto simp: dl_ok_def)
  moreover have st: "dlh s' = dlh s" "net_heap s' = h" by (simp_all add: s'_def)
  moreover have "dn_start (dnodes s' (dlh s)) = 0" using ok by (auto simp: dl_ok_def s'_def)
  ultimately have "dl_ok s' (xs @ ys)" using ok h(1,3) unfolding dl_ok_def by simp
  moreover have "dl_frame s (xs @ q # ys) s' (xs @ ys)" unfolding dl_frame_def st using h(2,3) by (auto simp: s'_def upd_dnode_def)
  moreover have "received s' (xs @ ys) = received s (xs @ q # ys) \<union> {unat (dn_end (dnodes s p))..<unat (dn_start (dnodes s q))}"
    unfolding received_def st(1) new old using r(2)[OF e'] .
  ultimately show ?thesis by blast
qed

lemma dlist_new:
  assumes ok: "dl_ok s (xs @ ys)" and p: "p = last (dlh s # xs)" and e: "dn_end (dnodes s p) < a" "a < b" "ys = [] \<or> unat b < fst (ivl s (hd ys))"
    and h: "heap_ok h" "n \<notin> fst ` live (net_heap s)" "fst ` live h = insert n (fst ` live (net_heap s))" "n \<in> heap_area (net_heap s)" "heap_area h = heap_area (net_heap s)" "n \<noteq> NULL"
  defines "s' \<equiv> upd_dnode p (\<lambda>m. m\<lparr>dn_next := n\<rparr>) (upd_dnode n (\<lambda>_. \<lparr>dn_next = dnext s p, dn_start = a, dn_end = b\<rparr>) (set_heap h s))"
  shows "dl_ok s' (xs @ n # ys) \<and> dl_frame s (xs @ ys) s' (xs @ n # ys) \<and> received s' (xs @ n # ys) = received s (xs @ ys) \<union> {unat a..<unat b}"
proof -
  obtain bs where bs: "dlh s # xs = bs @ [p]" "p \<notin> set bs" "p \<notin> set ys" "set bs \<inter> set ys = {}" using dl_split[OF ok] p by metis
  have "set (xs @ ys) \<subseteq> fst ` live (net_heap s)" "dlh s \<notin> heap_area (net_heap s)" using ok by (simp_all add: dl_ok_def)
  then have n1: "n \<notin> set (dlh s # xs @ ys)" using h(2,4) by auto
  have eq: "dlh s # xs @ ys = bs @ p # ys" using bs(1) by simp
  have "n \<notin> set (bs @ p # ys)" using n1 unfolding eq .
  moreover have "n \<noteq> dlh s" "n \<notin> set xs" using n1 by auto
  ultimately have n: "n \<notin> set (bs @ p # ys)" "n \<noteq> dlh s" "n \<notin> set xs" by blast+
  have lx: "dlh s # xs @ ys = bs @ p # ys" "dlh s # xs @ n # ys = bs @ p # n # ys" using bs(1) by simp_all
  have m: "map (ivl s') bs = map (ivl s) bs" "map (ivl s') ys = map (ivl s) ys" "ivl s' p = ivl s p" "ivl s' n = (unat a, unat b)" using bs n by (auto simp: s'_def ivl_def)
  have old: "map (ivl s) (dlh s # xs @ ys) = map (ivl s) bs @ (fst (ivl s p), unat (dn_end (dnodes s p))) # map (ivl s) ys" unfolding lx by (simp add: ivl_def)
  have new: "map (ivl s') (dlh s # xs @ n # ys) = map (ivl s) bs @ (fst (ivl s p), unat (dn_end (dnodes s p))) # (unat a, unat b) # map (ivl s) ys" unfolding lx using m by (simp add: ivl_def)
  have sep: "separated (map (ivl s) bs @ (fst (ivl s p), unat (dn_end (dnodes s p))) # map (ivl s) ys)" using ok old by (simp only: dl_ok_def)
  have hd: "map (ivl s) ys = [] \<or> unat b < fst (hd (map (ivl s) ys))" using e(3) by (cases ys) auto
  have e': "unat (dn_end (dnodes s p)) < unat a" "unat a < unat b" using e by (simp_all add: word_less_nat_alt)
  note r = ranges_between[OF sep e' hd]
  have "lpath (dnext s) (dlh s) (xs @ ys)" using ok by (simp add: dl_ok_def)
  moreover have "dnext s' x = dnext s x" if "x \<in> set (bs @ ys)" for x using that bs n by (auto simp: s'_def)
  moreover have "dnext s' p = n" "dnext s' n = dnext s p" using n by (auto simp: s'_def)
  ultimately have "lpath (dnext s') (dlh s) (xs @ n # ys)" using lpath_insert[of "dnext s" "dlh s" xs ys bs p n "dnext s'"] bs h(6) by simp
  moreover have "separated (map (ivl s') (dlh s # xs @ n # ys))" unfolding new by (rule r(1))
  moreover have "set (xs @ n # ys) \<subseteq> fst ` live h" using ok h(3) by (auto simp: dl_ok_def)
  moreover have st: "dlh s' = dlh s" "net_heap s' = h" by (simp_all add: s'_def)
  moreover have "dn_start (dnodes s' (dlh s)) = 0" using ok n(2) by (auto simp: dl_ok_def s'_def)
  moreover have "distinct (xs @ n # ys)" using ok n by (simp add: dl_ok_def)
  ultimately have "dl_ok s' (xs @ n # ys)" using ok h(1,5) unfolding dl_ok_def by simp
  moreover have "dl_frame s (xs @ ys) s' (xs @ n # ys)" unfolding dl_frame_def st using h(2,3,5) by (auto simp: s'_def upd_dnode_def)
  moreover have "received s' (xs @ n # ys) = received s (xs @ ys) \<union> {unat a..<unat b}" unfolding received_def st(1) new old using r(2) .
  ultimately show ?thesis by blast
qed

lemma fits_dnode: "kmalloc_fits sizeof_dlist_node"
  by (simp add: kmalloc_fits_def sizeof_dlist_node_def)

lemma upd_dnode_twice: "upd_dnode p f (upd_dnode p g s) = upd_dnode p (\<lambda>n. f (g n)) s"
  by (simp add: upd_dnode_def)

lemma upd_dnode_heap: "upd_dnode p f (set_heap h (upd_dnode p g s)) = upd_dnode p (\<lambda>n. f (g n)) (set_heap h s)"
  by (simp add: upd_dnode_def set_heap_def)

text \<open>\<open>dlist_insert\<close> with the node \<open>p\<close> before and \<open>q\<close> behind the range.\<close>

lemma dlist_insert_at:
  assumes ok: "dl_ok s (xs @ ys)" and p: "p = last (dlh s # xs)" and ab: "a < b"
    and bef: "dn_start (dnodes s p) \<le> a" and beh: "\<forall>y \<in> set ys. unat a < fst (ivl s y)"
    and gap: "dn_end (dnodes s p) \<le> a" "ys = [] \<or> unat b \<le> fst (ivl s (hd ys))"
    and run: "dlist_insert a b s = (let q = dnext s p in
        if a = dn_end (dnodes s p) then
          (let s1 = upd_dnode p (\<lambda>n. n\<lparr>dn_end := b\<rparr>) s in
           if q \<noteq> NULL \<and> b = dn_start (dnodes s1 q) then do {
             let s2 = upd_dnode p (\<lambda>n. n\<lparr>dn_end := dn_end (dnodes s1 q)\<rparr>) s1;
             let r = dnext s2 q;
             h \<leftarrow> kfree_g q (net_heap s2);
             Some (0, upd_dnode p (\<lambda>n. n\<lparr>dn_next := r\<rparr>) (set_heap h s2))
           } else Some (0, s1))
        else if q \<noteq> NULL \<and> b = dn_start (dnodes s q) then Some (0, upd_dnode q (\<lambda>n. n\<lparr>dn_start := a\<rparr>) s)
        else do {
          (n, h) \<leftarrow> kmalloc_g sizeof_dlist_node (net_heap s);
          let s1 = set_heap h s;
          if n = NULL then Some (-1, s1)
          else Some (0, upd_dnode p (\<lambda>m. m\<lparr>dn_next := n\<rparr>)
            (upd_dnode n (\<lambda>_. \<lparr>dn_next = dnext s1 p, dn_start = a, dn_end = b\<rparr>) s1))
        })"
  shows "(\<exists>s' ns'. dlist_insert a b s = Some (0, s') \<and> dl_ok s' ns' \<and> dl_frame s (xs @ ys) s' ns' \<and> received s' ns' = received s (xs @ ys) \<union> {unat a..<unat b}) \<or>
    dlist_insert a b s = Some (-1, s) \<and> kmalloc_g sizeof_dlist_node (net_heap s) = Some (NULL, net_heap s) \<and> a \<noteq> dn_end (dnodes s p)"
proof -
  have lp: "lpath (dnext s) (dlh s) (xs @ ys)" and hk: "heap_ok (net_heap s)" using ok by (simp_all add: dl_ok_def)
  have q: "case ys of [] \<Rightarrow> dnext s p = NULL | y # ys' \<Rightarrow> dnext s p = y \<and> y \<noteq> NULL" unfolding p by (rule lpath_behind[OF lp])
  have pn: "p \<notin> set ys" using dl_split[OF ok] p by metis
  show ?thesis
  proof (cases "\<exists>q ys'. ys = q # ys' \<and> b = dn_start (dnodes s q)")
    case True
    then obtain r ys' where y: "ys = r # ys'" "b = dn_start (dnodes s r)" by blast
    then have q: "dnext s p = r" "r \<noteq> NULL" "r \<noteq> p" using q pn by auto
    show ?thesis
    proof (cases "a = dn_end (dnodes s p)")
      case True
      have "r \<in> fst ` live (net_heap s)" using ok y by (auto simp: dl_ok_def)
      with hk obtain h where h: "kfree_g r (net_heap s) = Some h" "heap_ok h" "fst ` live h = fst ` live (net_heap s) - {r}" "heap_area h = heap_area (net_heap s)"
        by (rule km.free_addr)
      have "dn_end (dnodes s p) < dn_start (dnodes s r)" using True ab y(2) by simp
      note j = dlist_join[OF ok[unfolded y(1)] p this h(2-4)]
      have "dlist_insert a b s = Some (0, upd_dnode p (\<lambda>n. n\<lparr>dn_end := dn_end (dnodes s r), dn_next := dnext s r\<rparr>) (set_heap h s))"
        unfolding run q(1) using True y(2) q(2,3) h(1) by (simp add: upd_dnode_twice upd_dnode_heap Let_def)
      then show ?thesis using j True y by auto
    next
      case False
      then have "dn_end (dnodes s p) < a" "a < dn_start (dnodes s r)" using gap(1) ab y(2) by simp_all
      note j = dlist_before_next[OF ok[unfolded y(1)] p this]
      have "dlist_insert a b s = Some (0, upd_dnode r (\<lambda>n. n\<lparr>dn_start := a\<rparr>) s)" unfolding run q(1) using False y(2) q(2,3) by simp
      then show ?thesis using j y by auto
    qed
  next
    case False
    then have nq: "\<not> (dnext s p \<noteq> NULL \<and> b = dn_start (dnodes s (dnext s p)))" using q by (cases ys) auto
    have lt: "ys = [] \<or> unat b < fst (ivl s (hd ys))" using gap(2) False by (cases ys) (auto simp: ivl_def order_le_less word_unat_eq_iff)
    show ?thesis
    proof (cases "a = dn_end (dnodes s p)")
      case True
      have "dn_end (dnodes s p) < b" using True ab by simp
      note j = dlist_extend[OF ok p this lt]
      have "dn_start (dnodes (upd_dnode p (\<lambda>n. n\<lparr>dn_end := b\<rparr>) s) x) = dn_start (dnodes s x)" for x by simp
      then have "dlist_insert a b s = Some (0, upd_dnode p (\<lambda>n. n\<lparr>dn_end := b\<rparr>) s)" unfolding run Let_def using True nq by (simp only: if_True if_False simp_thms)
      then show ?thesis using j True by auto
    next
      case F: False
      then have lt2: "dn_end (dnodes s p) < a" using gap(1) by simp
      from hk fits_dnode show ?thesis
      proof (cases rule: km.alloc_cases)
        case none
        then have "dlist_insert a b s = Some (-1, s)" unfolding run using F nq by (simp add: Let_def)
        then show ?thesis using none F by simp
      next
        case (some n h)
        note j = dlist_new[OF ok p lt2 ab lt some(3-7) some(2)]
        have "dlist_insert a b s = Some (0, upd_dnode p (\<lambda>m. m\<lparr>dn_next := n\<rparr>) (upd_dnode n (\<lambda>_. \<lparr>dn_next = dnext s p, dn_start = a, dn_end = b\<rparr>) (set_heap h s)))"
          unfolding run Let_def if_not_P[OF F] if_not_P[OF nq] using some(1,2) by simp
        then show ?thesis using j by auto
      qed
    qed
  qed
qed

lemma lfr_first_missing:
  assumes "dl_ok s ns"
  shows "{0..<unat (lfr s)} \<subseteq> received s ns" "unat (lfr s) \<notin> received s ns"
proof -
  have "ivl s (dlh s) = (0, unat (lfr s))" using assms by (simp add: ivl_def lfr_def dl_ok_def)
  then have "map (ivl s) (dlh s # ns) = (0, unat (lfr s)) # map (ivl s) ns" by simp
  moreover have "separated (map (ivl s) (dlh s # ns))" using assms by (simp add: dl_ok_def)
  ultimately show "{0..<unat (lfr s)} \<subseteq> received s ns" "unat (lfr s) \<notin> received s ns"
    using first_missing[of "unat (lfr s)" "map (ivl s) ns"] unfolding received_def by simp_all
qed

definition acceptable :: "('d, 'h) net \<Rightarrow> addr list \<Rightarrow> u32 \<Rightarrow> u32 \<Rightarrow> bool" where
  "acceptable s ns a b \<longleftrightarrow> a < b \<and> unat b < unat (lfr s) + 10000 \<and> received s ns \<inter> {unat a..<unat b} = {}"

lemma dlist_insert_spec:
  assumes ok: "dl_ok s ns" and nw: "unat (lfr s) + 10000 < 2 ^ 32"
  shows "if acceptable s ns a b
    then (\<exists>s' ns'. dlist_insert a b s = Some (0, s') \<and> dl_ok s' ns' \<and> dl_frame s ns s' ns' \<and> received s' ns' = received s ns \<union> {unat a..<unat b}) \<or>
      dlist_insert a b s = Some (-1, s) \<and> kmalloc_g sizeof_dlist_node (net_heap s) = Some (NULL, net_heap s) \<and> a \<noteq> lfr s
    else dlist_insert a b s = Some (1, s)"
proof (cases "a < b \<and> unat b < unat (lfr s) + 10000")
  case False
  have "unat (lfr s + GNTP_WINSIZE) = unat (lfr s) + 10000" using nw by (simp add: GNTP_WINSIZE_def unat_word_ariths)
  then have "a \<ge> b \<or> b \<ge> lfr s + GNTP_WINSIZE" using False by (auto simp: word_le_nat_alt word_less_nat_alt)
  then show ?thesis using False by (auto simp: dlist_insert_def acceptable_def)
next
  case T: True
  have "unat (lfr s + GNTP_WINSIZE) = unat (lfr s) + 10000" using nw by (simp add: GNTP_WINSIZE_def unat_word_ariths)
  then have g1: "\<not> (a \<ge> b \<or> b \<ge> lfr s + GNTP_WINSIZE)" using T by (auto simp: word_le_nat_alt word_less_nat_alt)
  have lp: "lpath (dnext s) (dlh s) ns" and sep: "separated (map (ivl s) (dlh s # ns))" using ok by (simp_all add: dl_ok_def)
  have "sorted_wrt (\<lambda>x y. fst x < fst y) (map (ivl s) ns)" using separated_starts[OF sep] by simp
  from dlist_before_spec[OF lp this, of a] obtain xs ys where d: "ns = xs @ ys" "dlist_before s a (dlh s) = Some (last (dlh s # xs))"
    "\<forall>x \<in> set xs. fst (ivl s x) \<le> unat a" "\<forall>y \<in> set ys. unat a < fst (ivl s y)" by blast
  define p where p: "p = last (dlh s # xs)"
  obtain bs where bs: "dlh s # xs = bs @ [p]" "p \<notin> set ys" using dl_split[OF ok[unfolded d(1)]] unfolding p by blast
  have "p \<in> set (dlh s # xs)" unfolding p by (rule last_in_set) simp
  then have st: "dn_start (dnodes s p) \<le> a" using d(3) ok by (auto simp: dl_ok_def ivl_def word_le_nat_alt)
  have q: "case ys of [] \<Rightarrow> dnext s p = NULL | y # ys' \<Rightarrow> dnext s p = y \<and> y \<noteq> NULL" unfolding p by (rule lpath_behind[OF lp[unfolded d(1)]])
  have qn: "dnext s p = NULL \<or> dn_start (dnodes s (dnext s p)) > a" using q d(4) by (cases ys) (auto simp: ivl_def word_less_nat_alt)
  then have g2: "\<not> (\<not> (dn_start (dnodes s p) \<le> a \<and> (dnext s p = NULL \<or> dn_start (dnodes s (dnext s p)) > a)))" using st by blast
  have l: "map (ivl s) (dlh s # ns) = map (ivl s) bs @ (fst (ivl s p), unat (dn_end (dnodes s p))) # map (ivl s) ys" using bs(1) d(1) by (simp add: ivl_def flip: append_Cons)
  let ?o = "a < dn_end (dnodes s p) \<or> dnext s p \<noteq> NULL \<and> b > dn_start (dnodes s (dnext s p))"
  have "received s ns \<inter> {unat a..<unat b} = {} \<longleftrightarrow> unat (dn_end (dnodes s p)) \<le> unat a \<and> (map (ivl s) ys = [] \<or> unat b \<le> fst (hd (map (ivl s) ys)))"
    unfolding received_def l by (rule ranges_overlap) (use sep l st T d(4) in \<open>auto simp: ivl_def word_le_nat_alt word_less_nat_alt\<close>)
  also have "\<dots> \<longleftrightarrow> \<not> ?o" using q by (cases ys) (auto simp: ivl_def word_le_nat_alt word_less_nat_alt)
  finally have ov: "received s ns \<inter> {unat a..<unat b} = {} \<longleftrightarrow> \<not> ?o" .
  note step = dlist_insert_def[of a b s, unfolded if_not_P[OF g1] d(2) bind.bind_lunit Let_def, folded p, unfolded if_not_P[OF g2]]
  show ?thesis
  proof (cases ?o)
    case True
    then have "dlist_insert a b s = Some (1, s)" unfolding step by (rule if_P)
    moreover have "\<not> acceptable s ns a b" using ov True by (simp add: acceptable_def)
    ultimately show ?thesis by simp
  next
    case False
    have g1: "dn_end (dnodes s p) \<le> a" using False by (simp add: not_less)
    have g2: "ys = [] \<or> unat b \<le> fst (ivl s (hd ys))"
    proof (cases ys)
      case (Cons y zs)
      then have "dnext s p = y" "y \<noteq> NULL" using q by simp_all
      then show ?thesis using False Cons by (simp add: ivl_def not_less word_le_nat_alt)
    qed simp
    note g = g1 g2
    have "acceptable s ns a b" using ov False T by (simp add: acceptable_def)
    moreover note dlist_insert_at[OF ok[unfolded d(1)] p conjunct1[OF T] st d(4) g, unfolded Let_def, OF step[unfolded if_not_P[OF False]]]
    moreover have "a \<noteq> lfr s" if "a \<noteq> dn_end (dnodes s p)"
    proof
      assume a: "a = lfr s"
      then have pd: "p \<noteq> dlh s" using that by (auto simp: lfr_def)
      then have "p \<in> set ns" using \<open>p \<in> set (dlh s # xs)\<close> d(1) by auto
      then have "snd (ivl s (dlh s)) < fst (ivl s p)" using sep by (auto simp: separated_def)
      then show False using st a by (simp add: ivl_def lfr_def word_le_nat_alt)
    qed
    ultimately show ?thesis using d(1) by auto
  qed
qed

text \<open>
  C37: The list of ranges implements the set of the positions that have been received. \<^verbatim>\<open>dlist_insert\<close> never panics. A range that is
  empty, ends outside of the window of 10000 bytes behind the first missing position or overlaps what is there is
  refused (1) without a change. Any other range is added exactly (0), or the request for memory failed and nothing
  changes (-1), which cannot happen when the range begins with the first missing position. The end of the head node is always the first position that is missing.
\<close>

theorem dlist_insert_refines:
  assumes "dl_ok s ns" and "unat (lfr s) + 10000 < 2 ^ 32"
  shows "(if a < b \<and> unat b < unat (lfr s) + 10000 \<and> received s ns \<inter> {unat a..<unat b} = {}
      then (\<exists>s' ns'. dlist_insert a b s = Some (0, s') \<and> dl_ok s' ns' \<and> received s' ns' = received s ns \<union> {unat a..<unat b}) \<or>
        dlist_insert a b s = Some (-1, s) \<and> kmalloc_g sizeof_dlist_node (net_heap s) = Some (NULL, net_heap s) \<and> a \<noteq> lfr s
      else dlist_insert a b s = Some (1, s)) \<and>
    {0..<unat (lfr s)} \<subseteq> received s ns \<and> unat (lfr s) \<notin> received s ns"
  using dlist_insert_spec[OF assms, of a b] lfr_first_missing[OF assms(1)] unfolding acceptable_def by (auto split: if_splits)

text \<open>A kernel and a card that are idle, and an empty list.\<close>

definition demo_net :: "(nat \<Rightarrow> u8 list, u32 \<Rightarrow> u32) net" where
  "demo_net = \<lparr>nk = demo_ks, ncard = demo_nic, header_temp = \<lparr>g_magic = 0, g_type = 0, g_length = 0, g_seq = 0\<rparr>, fb = NULL,
     fb_mem = replicate 2304 0, dnodes = \<lambda>_. \<lparr>dn_next = NULL, dn_start = 0, dn_end = 0\<rparr>, dlh = 0xffffffc050200000\<rparr>"

lemma demo_net_ok: "dl_ok demo_net []" "lfr demo_net = 0" "received demo_net [] = {}" "net_heap demo_net = demo_heap"
  using heap_reach_ok[OF demo_heap_reach]
  by (simp_all add: dl_ok_def demo_net_def demo_ks_def demo_kallocbuf heap_area_def dnext_def separated_def ivl_def lfr_def received_def)

lemma demo_heap_gives:
  assumes "unat (kmalloc_size n) \<le> 10000" and "kmalloc_fits n"
  shows "kmalloc_g n demo_heap \<noteq> Some (NULL, demo_heap)"
proof -
  have ok: "heap_ok demo_heap" by (rule heap_reach_ok[OF demo_heap_reach])
  show ?thesis using kmalloc_g_correct[OF ok, of n] heap_ok_empty[OF ok demo_heap_empty] assms
    by (auto simp: KSL_def kmalloc_fits_def)
qed

lemma demo_dnode: "kmalloc_g sizeof_dlist_node demo_heap \<noteq> Some (NULL, demo_heap)"
  by (rule demo_heap_gives) (simp_all add: kmalloc_fits_def kmalloc_size_def ROUND_def sizeof_header_def ADDR_ALIGN_def sizeof_dlist_node_def)

theorem dlist_insert_refines_witness:
  "\<exists>s' ns'. dlist_insert 5 10 demo_net = Some (0, s') \<and> received s' ns' = {5..<10}"
  using dlist_insert_refines[OF demo_net_ok(1), of 5 10] demo_dnode by (auto simp: demo_net_ok split: if_splits)

end
