(* ===== verification/GntpStream.thy ===== *)
theory GntpStream
  imports Gntp
begin

text \<open>
  The stream protocol GNTP (\<^verbatim>\<open>do_net_recv_stream\<close> and \<^verbatim>\<open>reply\<close> of \<^verbatim>\<open>kernel/net/net-gntp.c\<close>).

  \<^verbatim>\<open>do_net_recv_stream\<close> is a machine whose points (\<open>spoint\<close>) are the places between which nothing blocks;
  \<open>stream_step\<close> runs from one point to the next, and \<open>stream_run\<close> adds what the card and the other processes do meanwhile.
  The invariant says that the bytes at all received positions are in the buffer of the user; so a stream of honest frames is delivered
  without a gap, whatever the order of the frames.
\<close>

section \<open>The stream\<close>

text \<open>The arguments and local variables; \<open>temp\<close> is the result.\<close>

record stream =
  ubuf_addr :: u64
  ubuf :: "u8 list"
  slen :: int
  seq_max :: u32
  recv_started :: bool
  stime :: u32
  tcp_header :: "u8 list"
  temp :: u32

text \<open>
  The points: the call, waiting for the mutex, the mutex is held, the poll of the loop, the loop that sends a reply (and where it
  goes on), the test of the time, before and after the process is blocked.
\<close>

datatype cont = ToTimeout | ToBlock | ToEnd
datatype spoint = AtStart | AtLock | AtInit | AtPoll | AtReply cont | AtTimeout | AtBlock | AtWoken
datatype sout = Goto spoint | Wait spoint | Ret u32

text \<open>The header of a reply in the frame buffer, and one attempt to send it.\<close>

definition reply_header :: "u8 \<Rightarrow> u32 \<Rightarrow> ('d, 'h) net \<Rightarrow> ('d, 'h) net option" where
  "reply_header ty q s = do {
     let h = \<lparr>g_magic = GNTP_MAGIC, g_type = ty, g_length = 0, g_seq = q\<rparr>;
     m \<leftarrow> copy_header_to_buffer h GNTP_HEADER_START (fb_mem s);
     Some (s\<lparr>header_temp := h, fb_mem := m\<rparr>)
   }"

text \<open>The end of a transmission: the nodes and the buffer are given back, and the mutex.\<close>

definition stream_close :: "('d, 'h) net \<Rightarrow> ('d, 'h) net option" where
  "stream_close s = do {
     s1 \<leftarrow> dlist_clear s;
     h \<leftarrow> kfree_g (fb s1) (net_heap s1);
     let s2 = (set_heap h s1)\<lparr>fb := NULL\<rparr>;
     (_, k) \<leftarrow> do_mutex_lock_release LOCK_IDX (nk s2);
     Some (s2\<lparr>nk := k\<rparr>)
   }"

definition stream_init :: "stream \<Rightarrow> ('d, 'h) net \<Rightarrow> (sout \<times> stream \<times> ('d, 'h) net) option" where
  "stream_init l s = do {
     s1 \<leftarrow> dlist_clear s;
     s2 \<leftarrow> (if fb s1 = NULL then do {
       (p, h) \<leftarrow> kmalloc_g (of_nat (RX_FRM_SIZE + 256)) (net_heap s1);
       Some ((set_heap h s1)\<lparr>fb := p\<rparr>) } else Some s1);
     if fb s2 = NULL then Some (Ret 0, l, s2)
     else Some (Goto AtPoll, l\<lparr>stime := 0, recv_started := False, seq_max := 0\<rparr>, upd_dnode (dlh s2) (\<lambda>n. n\<lparr>dn_end := 0\<rparr>) s2)
   }"

text \<open>The loop that copies the data, from the position \<open>seq\<close> of the stream on.\<close>

definition copy_data :: "u32 \<Rightarrow> u32 \<Rightarrow> u32 \<Rightarrow> u8 list \<Rightarrow> u8 list \<Rightarrow> u8 list option" where
  "copy_data sq n len frm b =
     for_each [0..<unat (min len (sq + n)) - unat sq]
       (\<lambda>k b. do { x \<leftarrow> nth_chk frm (GNTP_HEADER_START + 8 + k); upd_chk b (unat sq + k) x }) b"

text \<open>A frame has been received into the buffer.\<close>

definition stream_packet :: "stream \<Rightarrow> ('d, 'h) net \<Rightarrow> (sout \<times> stream \<times> ('d, 'h) net) option" where
  "stream_packet l s = do {
     h \<leftarrow> copy_header_from_buffer GNTP_HEADER_START (fb_mem s);
     let s1 = s\<lparr>header_temp := h\<rparr>;
     if g_magic h \<noteq> GNTP_MAGIC \<or> g_type h AND GNTP_DAT = 0 then
       Some (Goto AtPoll, l, if recv_started l then s1\<lparr>fb_mem := tcp_header l @ drop GNTP_HEADER_START (fb_mem s1)\<rparr> else s1)
     else do {
       let l1 = (if recv_started l then l else l\<lparr>tcp_header := take GNTP_HEADER_START (fb_mem s1), recv_started := True\<rparr>);
       (rt, s2) \<leftarrow> dlist_insert (g_seq h) (g_seq h + ucast (g_length h)) s1;
       let l2 = (if g_seq h > seq_max l1 then l1\<lparr>seq_max := g_seq h\<rparr> else l1);
       if rt = 0 then do {
         ub \<leftarrow> copy_data (g_seq h) (ucast (g_length h)) (word_of_int (slen l)) (fb_mem s2) (ubuf l1);
         if lfr s2 \<ge> word_of_int (slen l) then do {
           s3 \<leftarrow> reply_header GNTP_ACK (lfr s2) s2;
           Some (Goto (AtReply ToEnd), l1\<lparr>ubuf := ub, temp := lfr s2\<rparr>, s3)
         } else Some (Goto AtPoll, l2\<lparr>ubuf := ub, stime := 0\<rparr>, s2)
       } else if rt = -1 then do { s3 \<leftarrow> stream_close s2; Some (Ret 0, l1, s3) }
       else Some (Goto AtPoll, l2, s2)
     }
   }"

text \<open>The poll: nothing has arrived, or a frame.\<close>

definition stream_poll :: "stream \<Rightarrow> ('d, 'h) net \<Rightarrow> (sout \<times> stream \<times> ('d, 'h) net) option" where
  "stream_poll l s = do {
     (flen, bs, n) \<leftarrow> e1000_poll (ncard s);
     let s1 = s\<lparr>ncard := n\<rparr>;
     if flen = -1 then
       (if lfr s1 > 0 \<and> stime l = 0 then do { s2 \<leftarrow> reply_header GNTP_ACK (lfr s1) s1; Some (Goto (AtReply ToTimeout), l, s2) }
        else Some (Goto AtTimeout, l, s1))
     else do { m \<leftarrow> store_bytes bs 0 (fb_mem s1); stream_packet l (s1\<lparr>fb_mem := m\<rparr>) }
   }"

definition stream_reply :: "cont \<Rightarrow> stream \<Rightarrow> ('d, 'h) net \<Rightarrow> (sout \<times> stream \<times> ('d, 'h) net) option" where
  "stream_reply c l s = do {
     (rt, n) \<leftarrow> e1000_transmit (fb_mem s) (int GNTP_HEADER_START + 8) (ncard s);
     let s1 = s\<lparr>ncard := n\<rparr>;
     if rt = -1 then do { s2 \<leftarrow> net_block NicSendQ E1000_TXQE s1; Some (Wait (AtReply c), l, s2) }
     else (case c of ToTimeout \<Rightarrow> Some (Goto AtTimeout, l, s1)
       | ToBlock \<Rightarrow> Some (Goto AtBlock, l\<lparr>stime := 0\<rparr>, s1)
       | ToEnd \<Rightarrow> do { s2 \<leftarrow> stream_close s1; Some (Ret (temp l), l, s2) })
   }"

definition stream_timeout :: "stream \<Rightarrow> ('d, 'h) net \<Rightarrow> (sout \<times> stream \<times> ('d, 'h) net) option" where
  "stream_timeout l s =
     (if stime l > GNTP_TIMEOUT \<and> (seq_max l > lfr s \<or> stime l > GNTP_TIMEOUT * 2)
      then do { s1 \<leftarrow> reply_header GNTP_RSD (lfr s) s; Some (Goto (AtReply ToBlock), l, s1) }
      else Some (Goto AtBlock, l, s))"

definition stream_lock :: "(int outcome \<times> 'd kstate) option \<Rightarrow> stream \<Rightarrow> ('d, 'h) net \<Rightarrow> (sout \<times> stream \<times> ('d, 'h) net) option" where
  "stream_lock r l s = do {
     (oc, k) \<leftarrow> r;
     Some (case oc of Blocked \<Rightarrow> Wait AtLock | Done _ \<Rightarrow> Goto AtInit, l, s\<lparr>nk := k\<rparr>)
   }"

text \<open>The time is counted in wake-ups once the first frame is there.\<close>

fun stream_step :: "spoint \<Rightarrow> stream \<Rightarrow> ('d, 'h) net \<Rightarrow> (sout \<times> stream \<times> ('d, 'h) net) option" where
  "stream_step AtStart l s =
     (if ubuf_addr l \<ge> KVA_MIN \<or> slen l \<le> 0 then Some (Ret 0, l, s)
      else stream_lock (do_mutex_lock_acquire LOCK_IDX (nk s)) l s)"
| "stream_step AtLock l s = stream_lock (do_mutex_lock_acquire_resume LOCK_IDX (nk s)) l s"
| "stream_step AtInit l s = stream_init l s"
| "stream_step AtPoll l s = stream_poll l s"
| "stream_step (AtReply c) l s = stream_reply c l s"
| "stream_step AtTimeout l s = stream_timeout l s"
| "stream_step AtBlock l s = do {
     let k = upd_pcb (cur_cpu (nk s)) (\<lambda>c. c\<lparr>req_len := 1\<rparr>) (nk s);
     k1 \<leftarrow> do_block NicRecvQ None k;
     Some (Wait AtWoken, l, s\<lparr>nk := k1\<rparr>) }"
| "stream_step AtWoken l s = Some (Goto AtPoll, if recv_started l then l\<lparr>stime := stime l + 1\<rparr> else l, s)"

section \<open>The parts of the stream\<close>

lemma dlist_free_all_spec:
  assumes "lpath (dnext s) p ns" and "distinct ns" and "set ns \<subseteq> fst ` live (net_heap s)" and "heap_ok (net_heap s)"
  shows "\<exists>h. dlist_free_all (dnext s p) s = Some (set_heap h s) \<and> heap_ok h \<and> heap_area h = heap_area (net_heap s) \<and>
    fst ` live h = fst ` live (net_heap s) - set ns"
  using assms
proof (induction ns arbitrary: p s)
  case Nil
  then show ?case by (intro exI[of _ "net_heap s"]) (simp add: dlist_free_all.simps)
next
  case (Cons n ns)
  then have nx: "dnext s p = n" "n \<noteq> NULL" "lpath (dnext s) n ns" by simp_all
  have "n \<in> fst ` live (net_heap s)" using Cons(4) by simp
  with Cons(5) obtain h where h: "kfree_g n (net_heap s) = Some h" "heap_ok h"
    "fst ` live h = fst ` live (net_heap s) - {n}" "heap_area h = heap_area (net_heap s)" by (rule km.free_addr)
  have 1: "lpath (dnext (set_heap h s)) n ns" using nx(3) by simp
  have 2: "distinct ns" "set ns \<subseteq> fst ` live (net_heap (set_heap h s))" "heap_ok (net_heap (set_heap h s))" using Cons(3,4) h(2,3) by auto
  obtain h' where h': "dlist_free_all (dnext (set_heap h s) n) (set_heap h s) = Some (set_heap h' (set_heap h s))"
    "heap_ok h'" "heap_area h' = heap_area h" "fst ` live h' = fst ` live h - set ns"
    using Cons(1)[OF 1 2] by auto
  have "set_heap h' (set_heap h s) = set_heap h' s" by (simp add: set_heap_def)
  then have "dlist_free_all (dnext s p) s = Some (set_heap h' s)"
    using nx h h'(1) by (subst dlist_free_all.simps) simp
  then show ?case using h h' by (intro exI[of _ h']) auto
qed

lemma dlist_clear_spec:
  assumes ok: "dl_ok s ns"
  shows "\<exists>s'. dlist_clear s = Some s' \<and> dl_ok s' [] \<and> dl_frame s ns s' [] \<and> received s' [] = {} \<and> lfr s' = 0"
proof -
  obtain h where h: "dlist_free_all (dnext s (dlh s)) s = Some (set_heap h s)" "heap_ok h"
    "heap_area h = heap_area (net_heap s)" "fst ` live h = fst ` live (net_heap s) - set ns"
    using dlist_free_all_spec[of s "dlh s" ns] ok by (auto simp: dl_ok_def)
  let ?s = "upd_dnode (dlh s) (\<lambda>n. n\<lparr>dn_start := 0, dn_end := 0, dn_next := NULL\<rparr>) (set_heap h s)"
  have "dlist_clear s = Some ?s" using h(1) by (simp add: dlist_clear_def)
  moreover have "dl_ok ?s []" using ok h by (simp add: dl_ok_def separated_def ivl_def)
  moreover have "dl_frame s ns ?s []" using h(3,4) by (simp add: dl_frame_def upd_dnode_def set_heap_def)
  moreover have "received ?s [] = {}" "lfr ?s = 0" by (simp_all add: received_def lfr_def ivl_def)
  ultimately show ?thesis by blast
qed

text \<open>What the call holds: the list, the frame buffer, and a card in order.\<close>

definition stream_mem :: "('d, 'h) net \<Rightarrow> addr list \<Rightarrow> bool" where
  "stream_mem s ns \<longleftrightarrow> dl_ok s ns \<and> fb s \<noteq> NULL \<and> fb s \<in> fst ` live (net_heap s) \<and> fb s \<notin> set ns \<and> length (fb_mem s) = 2304 \<and> nic_ok (ncard s)"

definition idle :: "('d, 'h) net \<Rightarrow> bool" where
  "idle s \<longleftrightarrow> (\<exists>ns. dl_ok s ns \<and> (fb s = NULL \<or> fb s \<in> fst ` live (net_heap s) \<and> fb s \<notin> set ns)) \<and> length (fb_mem s) = 2304 \<and> nic_ok (ncard s)"

text \<open>Nothing of the kernel changes but its heap.\<close>

definition same_kernel :: "('d, 'h) net \<Rightarrow> ('d, 'h) net \<Rightarrow> bool" where
  "same_kernel s s' \<longleftrightarrow> nk s' = (nk s)\<lparr>fs := (fs (nk s))\<lparr>kh := net_heap s'\<rparr>\<rparr>"

lemma dl_frame_rest:
  assumes "dl_frame s ns s' ns'"
  shows "fb s' = fb s" "fb_mem s' = fb_mem s" "ncard s' = ncard s" "dlh s' = dlh s" "header_temp s' = header_temp s" "same_kernel s s'"
proof -
  have e: "s' = (set_heap (net_heap s') s)\<lparr>dnodes := dnodes s'\<rparr>" using assms unfolding dl_frame_def by (elim conjE)
  show "fb s' = fb s" "fb_mem s' = fb_mem s" "ncard s' = ncard s" "dlh s' = dlh s" "header_temp s' = header_temp s" by (subst e, simp)+
  show "same_kernel s s'" unfolding same_kernel_def by (subst e) (simp add: set_heap_def)
qed

lemma stream_init_spec:
  assumes "idle s"
  shows "(\<exists>s1 s'. stream_init l s = Some (Ret 0, l, s') \<and> dlist_clear s = Some s1 \<and> kmalloc_g (of_nat (RX_FRM_SIZE + 256)) (net_heap s1) = Some (NULL, net_heap s1)) \<or>
    (\<exists>s'. stream_init l s = Some (Goto AtPoll, l\<lparr>stime := 0, recv_started := False, seq_max := 0\<rparr>, s') \<and> stream_mem s' [] \<and> received s' [] = {} \<and> lfr s' = 0 \<and>
      same_kernel s s' \<and> ncard s' = ncard s)"
proof -
  obtain ns where ns: "dl_ok s ns" "fb s = NULL \<or> fb s \<in> fst ` live (net_heap s) \<and> fb s \<notin> set ns" and m: "length (fb_mem s) = 2304" "nic_ok (ncard s)"
    using assms by (auto simp: idle_def)
  obtain s1 where s1: "dlist_clear s = Some s1" "dl_ok s1 []" "dl_frame s ns s1 []" "received s1 [] = {}" "lfr s1 = 0" using dlist_clear_spec[OF ns(1)] by blast
  note r = dl_frame_rest[OF s1(3)]
  have e0: "upd_dnode (dlh s') (\<lambda>n. n\<lparr>dn_end := 0\<rparr>) s' = s'" if "lfr s' = 0" for s' :: "('a, 'b) net"
  proof -
    have "(dnodes s' (dlh s'))\<lparr>dn_end := 0\<rparr> = dnodes s' (dlh s')" using that by (simp add: lfr_def)
    then show ?thesis by (simp add: upd_dnode_def fun_upd_idem)
  qed
  show ?thesis
  proof (cases "fb s = NULL")
    case False
    have "fb s \<in> fst ` live (net_heap s1)" using ns(2) False s1(3) unfolding dl_frame_def by blast
    then have "stream_mem s1 []" using s1(2) False m r by (simp add: stream_mem_def)
    moreover have "stream_init l s = Some (Goto AtPoll, l\<lparr>stime := 0, recv_started := False, seq_max := 0\<rparr>, s1)"
      using s1(1) r(1) False e0[OF s1(5)] by (simp add: stream_init_def)
    ultimately show ?thesis using s1(4,5) r by blast
  next
    case True
    have hk: "heap_ok (net_heap s1)" using s1(2) by (simp add: dl_ok_def)
    have fits: "kmalloc_fits (of_nat (RX_FRM_SIZE + 256))" by (simp add: kmalloc_fits_def RX_FRM_SIZE_def)
    from hk fits show ?thesis
    proof (cases rule: km.alloc_cases)
      case none
      then have "stream_init l s = Some (Ret 0, l, (set_heap (net_heap s1) s1)\<lparr>fb := NULL\<rparr>)" using s1(1) r(1) True by (simp add: stream_init_def)
      then show ?thesis using none s1(1) by auto
    next
      case (some p h)
      let ?s2 = "(set_heap h s1)\<lparr>fb := p\<rparr>"
      have l2: "lfr ?s2 = 0" "received ?s2 [] = {}" using s1(4,5) by (simp_all add: lfr_def received_def ivl_def set_heap_def)
      have "dl_ok ?s2 []" using s1(2) some(3,7) by (auto simp: dl_ok_def ivl_def dnext_def set_heap_def)
      then have "stream_mem ?s2 []" using some(2,5) m r by (simp add: stream_mem_def set_heap_def)
      moreover have "stream_init l s = Some (Goto AtPoll, l\<lparr>stime := 0, recv_started := False, seq_max := 0\<rparr>, ?s2)"
        using s1(1) r(1) True some(1,2) e0[OF l2(1)] by (simp add: stream_init_def)
      moreover obtain x where "nk s1 = (nk s)\<lparr>fs := (fs (nk s))\<lparr>kh := x\<rparr>\<rparr>" using r(6) unfolding same_kernel_def by blast
      then have "nk ?s2 = (nk s)\<lparr>fs := (fs (nk s))\<lparr>kh := h\<rparr>\<rparr>" by (simp add: set_heap_def)
      then have "same_kernel s ?s2" by (simp add: same_kernel_def)
      moreover have "ncard ?s2 = ncard s" using r by (simp add: set_heap_def)
      ultimately show ?thesis using l2 by blast
    qed
  qed
qed

section \<open>One frame of the stream\<close>

text \<open>The data of the stream is \<open>D\<close>. An honest frame is long enough for its header, and if it is a data frame it carries the bytes its header says.\<close>

definition data_header :: "gntp_header \<Rightarrow> bool" where
  "data_header h \<longleftrightarrow> g_magic h = GNTP_MAGIC \<and> g_type h AND GNTP_DAT \<noteq> 0"

definition honest :: "(nat \<Rightarrow> u8) \<Rightarrow> u8 list \<Rightarrow> bool" where
  "honest D f \<longleftrightarrow> (\<exists>h. copy_header_from_buffer GNTP_HEADER_START f = Some h \<and>
     (data_header h \<longrightarrow> 62 + unat (g_length h) \<le> length f \<and> (\<forall>k < unat (g_length h). f ! (62 + k) = D (unat (g_seq h) + k))))"

text \<open>The buffer of the user holds the data at every position that has been received.\<close>

definition filled :: "(nat \<Rightarrow> u8) \<Rightarrow> stream \<Rightarrow> ('d, 'h) net \<Rightarrow> addr list \<Rightarrow> bool" where
  "filled D l s ns \<longleftrightarrow> 0 < slen l \<and> slen l < 2 ^ 31 \<and> nat (slen l) \<le> length (ubuf l) \<and>
     (\<forall>i \<in> received s ns. i < nat (slen l) \<longrightarrow> ubuf l ! i = D i) \<and> (recv_started l \<longrightarrow> length (tcp_header l) = 54)"

lemma copy_data_spec:
  assumes "62 + unat n \<le> length frm" and "unat sq + unat n < 2 ^ 32" and "unat len \<le> length b"
  shows "\<exists>b'. copy_data sq n len frm b = Some b' \<and> length b' = length b \<and>
    (\<forall>i < length b. b' ! i = (if unat sq \<le> i \<and> i < unat sq + unat n \<and> i < unat len then frm ! (62 + (i - unat sq)) else b ! i))"
proof -
  define m where "m = unat (min len (sq + n)) - unat sq"
  have sn: "unat (sq + n) = unat sq + unat n" using assms(2) by (simp add: unat_word_ariths)
  have mn: "unat (min len (sq + n)) = min (unat len) (unat sq + unat n)" by (simp only: min_def word_le_nat_alt sn if_distrib[of unat])
  let ?I = "\<lambda>k b'. length b' = length b \<and> (\<forall>i < length b. b' ! i = (if unat sq \<le> i \<and> i < unat sq + k then frm ! (62 + (i - unat sq)) else b ! i))"
  have "\<exists>b'. for_each [0..<m] (\<lambda>k b. do { x \<leftarrow> nth_chk frm (GNTP_HEADER_START + 8 + k); upd_chk b (unat sq + k) x }) b = Some b' \<and> ?I m b'"
  proof (rule for_each_inv[where I = ?I])
    fix k b' assume k: "k < m" and I: "?I k b'"
    have "k < unat n" "unat sq + k < length b'" using k I assms(3) unfolding m_def mn by auto
    moreover have "?I (Suc k) (b'[unat sq + k := frm ! (62 + k)])" using I by (auto simp: nth_list_update less_Suc_eq)
    ultimately show "\<exists>s'. (do { x \<leftarrow> nth_chk frm (GNTP_HEADER_START + 8 + k); upd_chk b' (unat sq + k) x }) = Some s' \<and> ?I (Suc k) s'"
      using assms(1) by (simp add: GNTP_HEADER_START_def)
  qed auto
  then obtain b' where b': "copy_data sq n len frm b = Some b'" "?I m b'" unfolding copy_data_def m_def by blast
  have "i < unat sq + m \<longleftrightarrow> i < unat sq + unat n \<and> i < unat len" if "unat sq \<le> i" for i using that unfolding m_def mn by auto
  then show ?thesis using b' by (intro exI[of _ b']) auto
qed

text \<open>The header of the frame that arrives is read from the frame, and the rest of the buffer does not matter.\<close>

lemma header_of_frame:
  assumes "copy_header_from_buffer off f = Some h"
  shows "copy_header_from_buffer off (f @ r) = Some h"
  using assms by (auto simp: copy_header_from_buffer_def nth_append Let_def split: if_splits)

lemma reply_header_spec:
  assumes "length (fb_mem s) = 2304"
  shows "\<exists>m h. reply_header ty q s = Some (s\<lparr>header_temp := h, fb_mem := m\<rparr>) \<and> length m = 2304"
  using header_to_buffer[of GNTP_HEADER_START "fb_mem s"] assms by (auto simp: reply_header_def GNTP_HEADER_START_def header_bytes_def Let_def)

lemma net_funs:
  "dnext (s\<lparr>header_temp := h\<rparr>) = dnext s" "dnext (s\<lparr>fb_mem := m\<rparr>) = dnext s" "dnext (s\<lparr>ncard := c\<rparr>) = dnext s"
  "ivl (s\<lparr>header_temp := h\<rparr>) = ivl s" "ivl (s\<lparr>fb_mem := m\<rparr>) = ivl s" "ivl (s\<lparr>ncard := c\<rparr>) = ivl s"
  by (simp_all add: fun_eq_iff dnext_def ivl_def)

lemma dl_only:
  "dl_ok (s\<lparr>header_temp := h\<rparr>) ns = dl_ok s ns" "dl_ok (s\<lparr>fb_mem := m\<rparr>) ns = dl_ok s ns" "dl_ok (s\<lparr>ncard := c\<rparr>) ns = dl_ok s ns"
  "received (s\<lparr>header_temp := h\<rparr>) ns = received s ns" "received (s\<lparr>fb_mem := m\<rparr>) ns = received s ns" "received (s\<lparr>ncard := c\<rparr>) ns = received s ns"
  "lfr (s\<lparr>header_temp := h\<rparr>) = lfr s" "lfr (s\<lparr>fb_mem := m\<rparr>) = lfr s" "lfr (s\<lparr>ncard := c\<rparr>) = lfr s"
  by (simp_all add: dl_ok_def received_def net_funs lfr_def)

lemma stream_only:
  "stream_mem (s\<lparr>header_temp := h\<rparr>) ns = stream_mem s ns" "length m = 2304 \<Longrightarrow> length (fb_mem s) = 2304 \<Longrightarrow> stream_mem (s\<lparr>fb_mem := m\<rparr>) ns = stream_mem s ns"
  "nic_ok c \<Longrightarrow> stream_mem s ns \<Longrightarrow> stream_mem (s\<lparr>ncard := c\<rparr>) ns"
  "filled D l (s\<lparr>header_temp := h\<rparr>) ns = filled D l s ns" "filled D l (s\<lparr>fb_mem := m\<rparr>) ns = filled D l s ns" "filled D l (s\<lparr>ncard := c\<rparr>) ns = filled D l s ns"
  by (simp_all add: stream_mem_def filled_def dl_only)

lemma below_window: "u32 < 2 ^ 31 \<Longrightarrow> u32 + 10000 < 2 ^ 32" for u32 :: nat
  by simp

lemma unat_len: "unat (ucast w :: u32) = unat w" for w :: u16
proof -
  have "unat w < 2 ^ 16" using unsigned_less[of w] by simp
  then show ?thesis by (simp add: unsigned_ucast_eq take_bit_nat_eq_self)
qed

lemma slen_word: "0 < n \<Longrightarrow> n < 2 ^ 31 \<Longrightarrow> unat (word_of_int n :: u32) = nat n"
  by (simp add: unat_eq_nat_uint uint_word_of_int_eq take_bit_int_eq_self)

text \<open>A data frame that fits into the window and overlaps nothing; \<open>h\<close> is its header.\<close>

definition wanted :: "('d, 'h) net \<Rightarrow> addr list \<Rightarrow> gntp_header \<Rightarrow> bool" where
  "wanted s ns h \<longleftrightarrow> data_header h \<and> acceptable s ns (g_seq h) (g_seq h + ucast (g_length h))"

lemma wanted_bounds:
  assumes "wanted s ns h" and "unat (lfr s) < 2 ^ 31"
  shows "unat (g_seq h + ucast (g_length h)) = unat (g_seq h) + unat (g_length h)" "unat (g_seq h) + unat (g_length h) < 2 ^ 32"
proof -
  let ?n = "ucast (g_length h) :: u32"
  have n: "unat ?n = unat (g_length h)" by (rule unat_len)
  have a: "g_seq h < g_seq h + ?n" using assms(1) by (simp add: wanted_def acceptable_def)
  then have "unat (g_seq h + ?n) = unat (g_seq h) + unat ?n" by (metis no_olen_add_nat unat_plus_simple less_imp_le word_le_nat_alt)
  moreover have "unat (g_seq h + ?n) < 2 ^ 32" using unsigned_less[of "g_seq h + ?n"] by simp
  then have "unat (g_seq h) + unat ?n < 2 ^ 32" using calculation by simp
  ultimately show "unat (g_seq h + ?n) = unat (g_seq h) + unat (g_length h)" "unat (g_seq h) + unat (g_length h) < 2 ^ 32" unfolding n by blast+
qed

text \<open>The frame is in the buffer.\<close>

lemma stream_packet_spec:
  assumes mem: "stream_mem s ns" and fil: "filled D l s ns" and lf: "unat (lfr s) < nat (slen l)"
    and hon: "honest D f" and buf: "fb_mem s = f @ r" and h: "copy_header_from_buffer GNTP_HEADER_START f = Some h"
  shows "(\<exists>p l' s' ns'. stream_packet l s = Some (Goto p, l', s') \<and> stream_mem s' ns' \<and> filled D l' s' ns' \<and> same_kernel s s' \<and> slen l' = slen l \<and>
    ncard s' = ncard s \<and> received s' ns' = received s ns \<union> (if wanted s ns h then {unat (g_seq h)..<unat (g_seq h) + unat (g_length h)} else {}) \<and>
    (if nat (slen l) \<le> unat (lfr s') then p = AtReply ToEnd \<and> temp l' = lfr s' else p = AtPoll)) \<or>
    wanted s ns h \<and> g_seq h \<noteq> lfr s \<and> kmalloc_g sizeof_dlist_node (net_heap s) = Some (NULL, net_heap s) \<and> (\<exists>l' s1. stream_packet l s = do { s3 \<leftarrow> stream_close s1; Some (Ret 0, l', s3) })"
proof -
  have ok: "dl_ok s ns" and lb: "length (fb_mem s) = 2304" using mem by (simp_all add: stream_mem_def)
  have sl: "0 < slen l" "slen l < 2 ^ 31" using fil by (simp_all add: filled_def)
  then have "nat (slen l) < 2 ^ 31" by simp
  then have lf31: "unat (lfr s) < 2 ^ 31" using lf by linarith
  have hb: "copy_header_from_buffer GNTP_HEADER_START (fb_mem s) = Some h" unfolding buf by (rule header_of_frame[OF h])
  let ?s1 = "s\<lparr>header_temp := h\<rparr>" and ?n = "ucast (g_length h) :: u32"
  have n: "unat ?n = unat (g_length h)" by (rule unat_len)
  show ?thesis
  proof (cases "data_header h")
    case False
    let ?s2 = "if recv_started l then ?s1\<lparr>fb_mem := tcp_header l @ drop GNTP_HEADER_START (fb_mem ?s1)\<rparr> else ?s1"
    have "stream_packet l s = Some (Goto AtPoll, l, ?s2)" using False hb by (auto simp: stream_packet_def data_header_def)
    moreover have "length (tcp_header l @ drop GNTP_HEADER_START (fb_mem ?s1)) = 2304" if "recv_started l"
      using that fil lb by (simp add: filled_def GNTP_HEADER_START_def)
    then have "stream_mem ?s2 ns" using mem lb by (simp add: stream_only)
    moreover have "filled D l ?s2 ns" using fil by (simp add: stream_only)
    moreover have "received ?s2 ns = received s ns" "lfr ?s2 = lfr s" "ncard ?s2 = ncard s" "same_kernel s ?s2" by (simp_all add: dl_only same_kernel_def)
    ultimately show ?thesis using False lf by (intro disjI1 exI[of _ AtPoll] exI[of _ l] exI[of _ ?s2] exI[of _ ns]) (simp add: wanted_def)
  next
    case data: True
    define l1 where "l1 = (if recv_started l then l else l\<lparr>tcp_header := take GNTP_HEADER_START (fb_mem ?s1), recv_started := True\<rparr>)"
    define l2 where "l2 = (if g_seq h > seq_max l1 then l1\<lparr>seq_max := g_seq h\<rparr> else l1)"
    have l12: "slen l1 = slen l" "ubuf l1 = ubuf l" "slen l2 = slen l" "ubuf l2 = ubuf l" "length (tcp_header l1) = 54" "length (tcp_header l2) = 54"
      using fil lb by (auto simp: l1_def l2_def filled_def GNTP_HEADER_START_def)
    have nd: "\<not> (g_magic h \<noteq> GNTP_MAGIC \<or> g_type h AND GNTP_DAT = 0)" using data by (simp add: data_header_def)
    have run: "stream_packet l s = do {
        (rt, s2) \<leftarrow> dlist_insert (g_seq h) (g_seq h + ?n) ?s1;
        if rt = 0 then do {
          ub \<leftarrow> copy_data (g_seq h) ?n (word_of_int (slen l)) (fb_mem s2) (ubuf l1);
          if lfr s2 \<ge> word_of_int (slen l) then do {
            s3 \<leftarrow> reply_header GNTP_ACK (lfr s2) s2;
            Some (Goto (AtReply ToEnd), l1\<lparr>ubuf := ub, temp := lfr s2\<rparr>, s3)
          } else Some (Goto AtPoll, l2\<lparr>ubuf := ub, stime := 0\<rparr>, s2)
        } else if rt = -1 then do { s3 \<leftarrow> stream_close s2; Some (Ret 0, l1, s3) }
        else Some (Goto AtPoll, l2, s2) }"
      unfolding stream_packet_def hb bind.bind_lunit Let_def if_not_P[OF nd] l2_def l1_def by (rule refl)
    have acc: "acceptable ?s1 ns (g_seq h) (g_seq h + ?n) = wanted s ns h" using data by (simp add: wanted_def acceptable_def dl_only)
    note ins = dlist_insert_spec[of ?s1 ns "g_seq h" "g_seq h + ?n", unfolded dl_only acc, OF ok below_window[OF lf31]]
    have mem1: "stream_mem ?s1 ns" using mem by (simp add: stream_only)
    show ?thesis
    proof (cases "wanted s ns h")
      case False
      then have "stream_packet l s = Some (Goto AtPoll, l2, ?s1)" using run ins by simp
      moreover have "filled D l2 ?s1 ns" using fil l12 by (simp add: filled_def dl_only)
      ultimately show ?thesis using mem1 False lf l12 by (intro disjI1 exI[of _ AtPoll] exI[of _ l2] exI[of _ ?s1] exI[of _ ns]) (simp add: dl_only same_kernel_def)
    next
      case True
      show ?thesis
      proof (cases "dlist_insert (g_seq h) (g_seq h + ?n) ?s1 = Some (-1, ?s1)")
        case full: True
        have "stream_packet l s = do { s3 \<leftarrow> stream_close ?s1; Some (Ret 0, l1, s3) }" unfolding run full by simp
        moreover have "kmalloc_g sizeof_dlist_node (net_heap s) = Some (NULL, net_heap s) \<and> g_seq h \<noteq> lfr s" using ins True full by auto
        ultimately show ?thesis using True by blast
      next
      case room: False
      then obtain s2 ns' where s2: "dlist_insert (g_seq h) (g_seq h + ?n) ?s1 = Some (0, s2)" "dl_ok s2 ns'" "dl_frame ?s1 ns s2 ns'"
        "received s2 ns' = received s ns \<union> {unat (g_seq h)..<unat (g_seq h + ?n)}" using ins True by auto
      note r = dl_frame_rest[OF s2(3)]
      note wb = wanted_bounds[OF True lf31]
      have m2: "stream_mem s2 ns'" using s2(2,3) mem r unfolding stream_mem_def dl_frame_def by simp
      have len: "unat (word_of_int (slen l) :: u32) = nat (slen l)" using slen_word[OF sl] l12 by simp
      have fr: "62 + unat (g_length h) \<le> length f" "\<forall>k < unat (g_length h). f ! (62 + k) = D (unat (g_seq h) + k)" using hon h data by (auto simp: honest_def)
      obtain ub where ub: "copy_data (g_seq h) ?n (word_of_int (slen l)) (fb_mem s2) (ubuf l1) = Some ub" "length ub = length (ubuf l)"
        "\<forall>i < length (ubuf l). ub ! i = (if unat (g_seq h) \<le> i \<and> i < unat (g_seq h) + unat (g_length h) \<and> i < nat (slen l) then fb_mem s2 ! (62 + (i - unat (g_seq h))) else ubuf l ! i)"
        using copy_data_spec[of ?n "fb_mem s2" "g_seq h" "word_of_int (slen l)" "ubuf l1"] wb(2) fr(1) fil r(2) l12 unfolding n len by (auto simp: buf filled_def)
      have D: "ub ! i = D i" if "i \<in> received s2 ns'" "i < nat (slen l)" for i
      proof -
        have il: "i < length (ubuf l)" using that fil by (simp add: filled_def)
        show ?thesis
        proof (cases "unat (g_seq h) \<le> i \<and> i < unat (g_seq h) + unat (g_length h)")
          case True
          then obtain k where k: "i = unat (g_seq h) + k" "k < unat (g_length h)" by (metis le_iff_add nat_add_left_cancel_less)
          then have "ub ! i = fb_mem s2 ! (62 + k)" using ub(3) il that(2) by simp
          also have "\<dots> = f ! (62 + k)" using r(2) fr(1) k(2) by (simp add: buf nth_append)
          finally show ?thesis using fr(2) k by simp
        next
          case False
          then have "i \<in> received s ns" using that(1) s2(4) wb(1) by auto
          then show ?thesis using ub(3) il False fil that(2) by (auto simp: filled_def)
        qed
      qed
      have done_iff: "lfr s2 \<ge> word_of_int (slen l) \<longleftrightarrow> nat (slen l) \<le> unat (lfr s2)" using len by (simp add: word_le_nat_alt)
      have rc: "received s2 ns' = received s ns \<union> (if wanted s ns h then {unat (g_seq h)..<unat (g_seq h) + unat (g_length h)} else {})" using s2(4) True wb(1) by simp
      have lu: "nat (slen l) \<le> length ub" using ub(2) fil by (simp add: filled_def)
      have sk: "same_kernel s s2" using r(6) by (simp add: same_kernel_def)
      show ?thesis
      proof (cases "nat (slen l) \<le> unat (lfr s2)")
        case fin: True
        obtain m h' where rp: "reply_header GNTP_ACK (lfr s2) s2 = Some (s2\<lparr>header_temp := h', fb_mem := m\<rparr>)" "length m = 2304"
          using reply_header_spec[of s2] m2 unfolding stream_mem_def by blast
        let ?s3 = "s2\<lparr>header_temp := h', fb_mem := m\<rparr>" and ?l = "l1\<lparr>ubuf := ub, temp := lfr s2\<rparr>"
        have "stream_packet l s = Some (Goto (AtReply ToEnd), ?l, ?s3)" using run s2(1) ub(1) done_iff fin rp(1) by simp
        moreover have "stream_mem ?s3 ns'" using m2 rp(2) by (simp add: stream_only stream_mem_def dl_only)
        moreover have "filled D ?l ?s3 ns'" using D lu sl l12 by (simp add: filled_def dl_only)
        moreover have "same_kernel s ?s3" using sk by (simp add: same_kernel_def)
        ultimately show ?thesis using rc fin r(3) l12 by (intro disjI1 exI[of _ "AtReply ToEnd"] exI[of _ ?l] exI[of _ ?s3] exI[of _ ns']) (simp add: dl_only)
      next
        case go: False
        let ?l = "l2\<lparr>ubuf := ub, stime := 0\<rparr>"
        have "stream_packet l s = Some (Goto AtPoll, ?l, s2)" using run s2(1) ub(1) done_iff go by simp
        moreover have "filled D ?l s2 ns'" using D lu sl l12 by (simp add: filled_def)
        ultimately show ?thesis using rc go r(3) l12 m2 sk by (intro disjI1 exI[of _ AtPoll] exI[of _ ?l] exI[of _ s2] exI[of _ ns']) simp
      qed
      qed
    qed
  qed
qed

text \<open>The poll. The frames that wait in the receive ring are honest.\<close>

definition tx_same :: "'h nic \<Rightarrow> 'h nic \<Rightarrow> bool" where
  "tx_same n n' \<longleftrightarrow> reg_read n' = reg_read n \<and> reg_write n' = reg_write n \<and> tcq_head n' = tcq_head n \<and> hw n' = reg_write n (hw n) E1000_RDT (rcq_tail n')"

lemma e1000_poll_tx: "e1000_poll n = Some (r, bs, n') \<Longrightarrow> r \<noteq> -1 \<Longrightarrow> tx_same n n'"
  by (auto simp: e1000_poll_def bind_eq_Some_conv Let_def tx_same_def e1000_write_reg_def split: if_splits)

lemma arrived_length: "nic_ok n \<Longrightarrow> f \<in> set (arrived n) \<Longrightarrow> length f \<le> 2048"
proof -
  assume ok: "nic_ok n" and "f \<in> set (arrived n)"
  then obtain i where "i \<in> set (rx_order (unat (rcq_tail n)))" "f = rx_frame n i" by (auto simp: arrived_def dest: set_takeWhileD)
  moreover from this have "i < 64" by (auto simp: rx_order_def)
  ultimately show ?thesis using nic_okD(6)[OF ok, of i] by (simp add: rx_frame_def)
qed

lemma stream_poll_spec:
  assumes mem: "stream_mem s ns" and fil: "filled D l s ns" and lf: "unat (lfr s) < nat (slen l)" and hon: "\<forall>f \<in> set (arrived (ncard s)). honest D f"
  shows "case arrived (ncard s) of
      [] \<Rightarrow> (\<exists>p s'. stream_poll l s = Some (Goto p, l, s') \<and> (p = AtReply ToTimeout \<or> p = AtTimeout) \<and> stream_mem s' ns \<and> same_kernel s s' \<and>
        received s' ns = received s ns \<and> lfr s' = lfr s)
    | f # rest \<Rightarrow> (\<exists>h. copy_header_from_buffer GNTP_HEADER_START f = Some h \<and>
        ((\<exists>p l' s' ns'. stream_poll l s = Some (Goto p, l', s') \<and> stream_mem s' ns' \<and> filled D l' s' ns' \<and> same_kernel s s' \<and> slen l' = slen l \<and>
           arrived (ncard s') = rest \<and> pending (ncard s') = pending (ncard s) \<and> tx_same (ncard s) (ncard s') \<and>
           received s' ns' = received s ns \<union> (if wanted s ns h then {unat (g_seq h)..<unat (g_seq h) + unat (g_length h)} else {}) \<and>
           (if nat (slen l) \<le> unat (lfr s') then p = AtReply ToEnd \<and> temp l' = lfr s' else p = AtPoll)) \<or>
         wanted s ns h \<and> g_seq h \<noteq> lfr s \<and> kmalloc_g sizeof_dlist_node (net_heap s) = Some (NULL, net_heap s) \<and> (\<exists>l' s1. stream_poll l s = do { s3 \<leftarrow> stream_close s1; Some (Ret 0, l', s3) })))"
proof -
  have nic: "nic_ok (ncard s)" and lb: "length (fb_mem s) = 2304" using mem by (simp_all add: stream_mem_def)
  show ?thesis
  proof (cases "arrived (ncard s)")
    case Nil
    then have poll: "e1000_poll (ncard s) = Some (-1, [], ncard s)" using e1000_poll_spec[OF nic] by simp
    then have run: "stream_poll l s = (if lfr s > 0 \<and> stime l = 0 then do { s2 \<leftarrow> reply_header GNTP_ACK (lfr s) s; Some (Goto (AtReply ToTimeout), l, s2) } else Some (Goto AtTimeout, l, s))"
      by (simp add: stream_poll_def)
    obtain m h where rp: "reply_header GNTP_ACK (lfr s) s = Some (s\<lparr>header_temp := h, fb_mem := m\<rparr>)" "length m = 2304" using reply_header_spec[OF lb] by blast
    have "stream_mem (s\<lparr>header_temp := h, fb_mem := m\<rparr>) ns" using mem rp(2) lb by (simp add: stream_only)
    then show ?thesis using Nil run rp(1) mem by (cases "lfr s > 0 \<and> stime l = 0") (auto simp: dl_only same_kernel_def)
  next
    case (Cons f rest)
    then obtain n' where n': "e1000_poll (ncard s) = Some (int (length f), f, n')" "nic_ok n'" "arrived n' = rest" "pending n' = pending (ncard s)"
      using e1000_poll_spec[OF nic] by auto
    have tx: "tx_same (ncard s) n'" using e1000_poll_tx[OF n'(1)] by simp
    have f: "length f \<le> 2048" "honest D f" using arrived_length[OF nic, of f] hon Cons by simp_all
    obtain h where h: "copy_header_from_buffer GNTP_HEADER_START f = Some h" using f(2) by (auto simp: honest_def)
    define s1 where "s1 = s\<lparr>ncard := n', fb_mem := f @ drop (length f) (fb_mem s)\<rparr>"
    have "length (f @ drop (length f) (fb_mem s)) = 2304" using f(1) lb by simp
    then have m1: "stream_mem s1 ns" using mem n'(2) lb by (simp add: s1_def stream_only)
    have st: "received s1 ns = received s ns" "lfr s1 = lfr s" "net_heap s1 = net_heap s" "nk s1 = nk s" "ncard s1 = n'" "wanted s1 ns h = wanted s ns h"
      by (simp_all add: s1_def dl_only wanted_def acceptable_def)
    have fil1: "filled D l s1 ns" using fil by (simp add: s1_def stream_only)
    have fm: "fb_mem s1 = f @ drop (length f) (fb_mem s)" by (simp add: s1_def)
    have "store_bytes f 0 (fb_mem (s\<lparr>ncard := n'\<rparr>)) = Some (f @ drop (length f) (fb_mem s))" using f(1) lb by (simp add: store_bytes_def)
    then have run: "stream_poll l s = stream_packet l s1" using n'(1) by (simp add: stream_poll_def s1_def)
    have sk: "same_kernel s1 s' = same_kernel s s'" for s' by (simp add: same_kernel_def st(4))
    note spec = stream_packet_spec[OF m1 fil1, unfolded st(1-5), OF lf f(2) fm h, unfolded st(6), folded run, unfolded sk]
    let ?B = "wanted s ns h \<and> g_seq h \<noteq> lfr s \<and> kmalloc_g sizeof_dlist_node (net_heap s) = Some (NULL, net_heap s) \<and> (\<exists>l' s1. stream_poll l s = do { s3 \<leftarrow> stream_close s1; Some (Ret 0, l', s3) })"
    show ?thesis unfolding Cons list.case
    proof (rule exI[of _ h], rule conjI[OF h], cases ?B)
      case False
      then obtain p l' s' ns' where r: "stream_poll l s = Some (Goto p, l', s')" "stream_mem s' ns'" "filled D l' s' ns'" "same_kernel s s'" "slen l' = slen l"
        "ncard s' = n'" "received s' ns' = received s ns \<union> (if wanted s ns h then {unat (g_seq h)..<unat (g_seq h) + unat (g_length h)} else {})"
        "if nat (slen l) \<le> unat (lfr s') then p = AtReply ToEnd \<and> temp l' = lfr s' else p = AtPoll" using spec by blast
      show "(\<exists>p l' s' ns'. stream_poll l s = Some (Goto p, l', s') \<and> stream_mem s' ns' \<and> filled D l' s' ns' \<and> same_kernel s s' \<and> slen l' = slen l \<and>
           arrived (ncard s') = rest \<and> pending (ncard s') = pending (ncard s) \<and> tx_same (ncard s) (ncard s') \<and>
           received s' ns' = received s ns \<union> (if wanted s ns h then {unat (g_seq h)..<unat (g_seq h) + unat (g_length h)} else {}) \<and>
           (if nat (slen l) \<le> unat (lfr s') then p = AtReply ToEnd \<and> temp l' = lfr s' else p = AtPoll)) \<or> ?B"
        by (rule disjI1, rule exI[of _ p], rule exI[of _ l'], rule exI[of _ s'], rule exI[of _ ns']) (use r n' tx in simp)
    qed (rule disjI2)
  qed
qed

section \<open>Runs of the stream\<close>

lemma e1000_transmit_ok:
  assumes "nic_ok n" and "unat (fst (reg_read n (hw n) E1000_TDH)) < 64" and "e1000_transmit f len n = Some (rt, n')"
  shows "nic_ok n'"
proof (cases "len > TX_FRM_SIZE \<or> len \<le> 0")
  case True
  then show ?thesis using assms(1,3) by (simp add: e1000_transmit_def)
next
  case len: False
  obtain h w where hw: "reg_read n (hw n) E1000_TDH = (h, w)" by fastforce
  let ?n = "n\<lparr>hw := w, tcq_head := h\<rparr>"
  have ok: "nic_ok ?n" using assms(1,2) hw by (simp add: nic_ok_def word_less_nat_alt)
  have rd: "e1000_read_reg E1000_TDH n = (h, n\<lparr>hw := w\<rparr>)" using hw by (simp add: e1000_read_reg_def)
  show ?thesis
  proof (cases "tcq_len ?n \<ge> TXDESCS - 1")
    case True
    then show ?thesis using assms(3) ok len rd by (simp add: e1000_transmit_def)
  next
    case False
    then have "length (pending ?n) < 63" using tcq_len_eq[OF ok] by (simp add: TXDESCS_def word_le_nat_alt)
    moreover obtain n2 where n2: "put_frame f len ?n = Some n2" "n' = e1000_write_reg E1000_TDT (tcq_tail n2) n2"
      using assms(3) len False rd by (auto simp: e1000_transmit_def bind_eq_Some_conv)
    moreover have "nat len \<le> length f" using n2(1) by (auto simp: put_frame_def bind_eq_Some_conv Let_def split: if_splits)
    ultimately show ?thesis using put_frame_spec[OF ok, of len f] len by (auto simp: TX_FRM_SIZE_def)
  qed
qed

lemma do_block_heap: "do_block q None k = Some k' \<Longrightarrow> fs k' = fs k"
  by (auto simp: do_block_def bind_eq_Some_conv Let_def set_status_def set_queue_def set_head_def upd_pcb_def split: if_splits prod.splits)

text \<open>
  What the card owes the driver: the head it tells is in the ring and the frames it has stored are honest. The other processes and
  the card may do anything else between two steps, but they leave the memory of the call alone.
\<close>

definition card_sane :: "(nat \<Rightarrow> u8) \<Rightarrow> ('d, 'h) net \<Rightarrow> bool" where
  "card_sane D s \<longleftrightarrow> unat (fst (reg_read (ncard s) (hw (ncard s)) E1000_TDH)) < 64 \<and> (\<forall>f \<in> set (arrived (ncard s)). honest D f)"

definition others :: "('d, 'h) net \<Rightarrow> ('d, 'h) net \<Rightarrow> bool" where
  "others s s' \<longleftrightarrow> s' = s\<lparr>nk := nk s', ncard := ncard s'\<rparr> \<and> heap_ok (net_heap s') \<and> heap_area (net_heap s') = heap_area (net_heap s) \<and> nic_ok (ncard s') \<and>
     (\<forall>ns. lpath (dnext s) (dlh s) ns \<longrightarrow> insert (fb s) (set ns) \<inter> fst ` live (net_heap s) \<subseteq> fst ` live (net_heap s'))"

text \<open>The states a call for \<open>n\<close> bytes of the stream \<open>D\<close> gets into once it holds the mutex.\<close>

inductive stream_run :: "(nat \<Rightarrow> u8) \<Rightarrow> int \<Rightarrow> spoint \<Rightarrow> stream \<Rightarrow> ('d, 'h) net \<Rightarrow> bool" for D n where
  run_init: "idle s \<Longrightarrow> slen l = n \<Longrightarrow> 0 < n \<Longrightarrow> n < 2 ^ 31 \<Longrightarrow> nat n \<le> length (ubuf l) \<Longrightarrow> stream_run D n AtInit l s"
| run_step: "stream_run D n p l s \<Longrightarrow> card_sane D s \<Longrightarrow> stream_step p l s = Some (Goto p', l', s') \<Longrightarrow> stream_run D n p' l' s'"
| run_wait: "stream_run D n p l s \<Longrightarrow> card_sane D s \<Longrightarrow> stream_step p l s = Some (Wait p', l', s') \<Longrightarrow> stream_run D n p' l' s'"
| run_others: "stream_run D n p l s \<Longrightarrow> others s s' \<Longrightarrow> stream_run D n p l s'"

text \<open>The invariant at the points.\<close>

definition running :: "(nat \<Rightarrow> u8) \<Rightarrow> stream \<Rightarrow> ('d, 'h) net \<Rightarrow> bool" where
  "running D l s \<longleftrightarrow> (\<exists>ns. stream_mem s ns \<and> filled D l s ns) \<and> unat (lfr s) < nat (slen l)"

definition complete :: "(nat \<Rightarrow> u8) \<Rightarrow> stream \<Rightarrow> ('d, 'h) net \<Rightarrow> bool" where
  "complete D l s \<longleftrightarrow> (\<exists>ns. stream_mem s ns \<and> filled D l s ns) \<and> nat (slen l) \<le> unat (lfr s) \<and> temp l = lfr s"

fun stream_inv :: "(nat \<Rightarrow> u8) \<Rightarrow> spoint \<Rightarrow> stream \<Rightarrow> ('d, 'h) net \<Rightarrow> bool" where
  "stream_inv D AtStart l s \<longleftrightarrow> False"
| "stream_inv D AtLock l s \<longleftrightarrow> False"
| "stream_inv D AtInit l s \<longleftrightarrow> idle s \<and> 0 < slen l \<and> slen l < 2 ^ 31 \<and> nat (slen l) \<le> length (ubuf l)"
| "stream_inv D (AtReply ToEnd) l s \<longleftrightarrow> complete D l s"
| "stream_inv D p l s \<longleftrightarrow> running D l s"

text \<open>Only these parts of the state count.\<close>

lemma stream_mem_cong:
  assumes "stream_mem s ns" and "net_heap s' = net_heap s" and "dnodes s' = dnodes s" and "dlh s' = dlh s" and "fb s' = fb s"
    and "length (fb_mem s') = 2304" and "nic_ok (ncard s')"
  shows "stream_mem s' ns" "received s' ns = received s ns" "lfr s' = lfr s"
proof -
  have e: "dnext s' = dnext s" "ivl s' = ivl s" using assms(3) by (simp_all add: fun_eq_iff dnext_def ivl_def)
  then show "stream_mem s' ns" using assms unfolding stream_mem_def dl_ok_def by simp
  show "received s' ns = received s ns" "lfr s' = lfr s" using assms(3,4) e by (simp_all add: received_def lfr_def)
qed

lemma running_cong:
  assumes "net_heap s' = net_heap s" and "dnodes s' = dnodes s" and "dlh s' = dlh s" and "fb s' = fb s" and "length (fb_mem s') = 2304" and "nic_ok (ncard s')"
    and "slen l' = slen l" "ubuf l' = ubuf l" "tcp_header l' = tcp_header l" "recv_started l' = recv_started l"
  shows "running D l s \<Longrightarrow> running D l' s'" "complete D l s \<Longrightarrow> temp l' = temp l \<Longrightarrow> complete D l' s'"
proof -
  have key: "stream_mem s' ns \<and> filled D l' s' ns \<and> lfr s' = lfr s" if "stream_mem s ns" "filled D l s ns" for ns
    using that stream_mem_cong[OF that(1) assms(1-6)] assms(7-10) by (simp add: filled_def)
  show "running D l s \<Longrightarrow> running D l' s'" "complete D l s \<Longrightarrow> temp l' = temp l \<Longrightarrow> complete D l' s'"
    using key assms(7) unfolding running_def complete_def by (metis (no_types))+
qed

lemma close_returns [simp]: "stream_close s1 \<bind> (\<lambda>s3. Some (Ret 0, l', s3)) \<noteq> Some (Goto p, x)" "Some (Goto p, x) \<noteq> stream_close s1 \<bind> (\<lambda>s3. Some (Ret 0, l', s3))"
  by (cases "stream_close s1"; simp)+

lemma runningD: "running D l s \<or> complete D l s \<Longrightarrow> length (fb_mem s) = 2304 \<and> nic_ok (ncard s)"
  by (auto simp: running_def complete_def stream_mem_def)

lemma reply_running:
  assumes "running D l s" and "reply_header ty q s = Some s'"
  shows "running D l s'"
proof -
  obtain m h where "s' = s\<lparr>header_temp := h, fb_mem := m\<rparr>" "length m = 2304" using reply_header_spec[of s ty q] assms runningD[of D l s] by auto
  then show ?thesis using running_cong(1)[of s' s l l D] assms(1) runningD[of D l s] by simp
qed

lemma stream_poll_inv:
  assumes run: "running D l s" and sane: "card_sane D s" and st: "stream_poll l s = Some (Goto p, l', s')"
  shows "stream_inv D p l' s' \<and> slen l' = slen l"
proof -
  obtain ns where ns: "stream_mem s ns" "filled D l s ns" "unat (lfr s) < nat (slen l)" using run by (auto simp: running_def)
  have hon: "\<forall>f \<in> set (arrived (ncard s)). honest D f" using sane by (simp add: card_sane_def)
  note spec = stream_poll_spec[OF ns hon]
  show ?thesis
  proof (cases "arrived (ncard s)")
    case Nil
    then obtain p1 s1 where "stream_poll l s = Some (Goto p1, l, s1)" "p1 = AtReply ToTimeout \<or> p1 = AtTimeout" "stream_mem s1 ns" "received s1 ns = received s ns" "lfr s1 = lfr s"
      using spec by auto
    then have "running D l s1" "p = p1" "l' = l" "s' = s1" using ns st by (auto simp: running_def filled_def)
    then show ?thesis using \<open>p1 = AtReply ToTimeout \<or> p1 = AtTimeout\<close> by auto
  next
    case (Cons f rest)
    then obtain h where "(\<exists>p l' s' ns'. stream_poll l s = Some (Goto p, l', s') \<and> stream_mem s' ns' \<and> filled D l' s' ns' \<and> slen l' = slen l \<and>
           (if nat (slen l) \<le> unat (lfr s') then p = AtReply ToEnd \<and> temp l' = lfr s' else p = AtPoll)) \<or>
         (\<exists>l' s1. stream_poll l s = do { s3 \<leftarrow> stream_close s1; Some (Ret 0, l', s3) })"
      using spec by (simp only: list.case) blast
    then obtain p1 l1 s1 ns' where r: "stream_poll l s = Some (Goto p1, l1, s1)" "stream_mem s1 ns'" "filled D l1 s1 ns'" "slen l1 = slen l"
      "if nat (slen l) \<le> unat (lfr s1) then p1 = AtReply ToEnd \<and> temp l1 = lfr s1 else p1 = AtPoll" using st by auto
    have "p = p1" "l' = l1" "s' = s1" using r(1) st by simp_all
    then show ?thesis using r by (cases "nat (slen l) \<le> unat (lfr s1)") (auto simp: running_def complete_def)
  qed
qed

text \<open>A step to another point, or to a point where the process waits, keeps the invariant.\<close>

lemma stream_reply_inv:
  assumes inv: "stream_inv D (AtReply c) l s" and sane: "card_sane D s" and st: "stream_reply c l s = Some (r, l', s')" and r: "r = Goto p \<or> r = Wait p"
  shows "stream_inv D p l' s' \<and> slen l' = slen l"
proof -
  have rc: "if c = ToEnd then complete D l s else running D l s" using inv by (cases c) auto
  then have b: "length (fb_mem s) = 2304" "nic_ok (ncard s)" using runningD[of D l s] by (auto split: if_splits)
  obtain rt n where tx: "e1000_transmit (fb_mem s) (int GNTP_HEADER_START + 8) (ncard s) = Some (rt, n)" using st by (auto simp: stream_reply_def bind_eq_Some_conv)
  have n: "nic_ok n" using e1000_transmit_ok[OF b(2) _ tx] sane by (simp add: card_sane_def)
  show ?thesis
  proof (cases "rt = -1")
    case True
    then obtain k where k: "do_block NicSendQ None (nk s) = Some k" and s': "s' = s\<lparr>ncard := e1000_write_reg E1000_IMS E1000_TXQE n, nk := k\<rparr>" and "r = Wait (AtReply c)" "l' = l"
      using st tx by (auto simp: stream_reply_def net_block_def bind_eq_Some_conv)
    then have "p = AtReply c" using r by auto
    moreover have "net_heap s' = net_heap s" using do_block_heap[OF k] s' by simp
    ultimately show ?thesis using running_cong[of s' s l' l D] rc b n s' \<open>l' = l\<close> by (cases c) simp_all
  next
    case False
    then have "c \<noteq> ToEnd" using st tx r by (auto simp: stream_reply_def bind_eq_Some_conv)
    then have "running D l s" using rc by simp
    then have "running D l (s\<lparr>ncard := n\<rparr>)" "running D (l\<lparr>stime := 0\<rparr>) (s\<lparr>ncard := n\<rparr>)" using running_cong(1)[of "s\<lparr>ncard := n\<rparr>" s _ l D] b n by simp_all
    then show ?thesis using \<open>c \<noteq> ToEnd\<close> st tx r False by (cases c) (auto simp: stream_reply_def)
  qed
qed

lemma stream_step_inv:
  assumes inv: "stream_inv D p l s" and sane: "card_sane D s" and st: "stream_step p l s = Some (r, l', s')" and r: "r = Goto p' \<or> r = Wait p'"
  shows "stream_inv D p' l' s' \<and> slen l' = slen l"
proof (cases p)
  case AtInit
  then have i: "idle s" "0 < slen l" "slen l < 2 ^ 31" "nat (slen l) \<le> length (ubuf l)" "stream_init l s = Some (r, l', s')" using inv st by simp_all
  then have "r = Goto AtPoll" "l' = l\<lparr>stime := 0, recv_started := False, seq_max := 0\<rparr>" "stream_mem s' []" "received s' [] = {}" "lfr s' = 0"
    using stream_init_spec[OF i(1), of l] r by auto
  then show ?thesis using i r by (auto simp: running_def filled_def intro!: exI[of _ "[]"])
next
  case AtPoll
  then have "running D l s" "stream_poll l s = Some (r, l', s')" using inv st by simp_all
  moreover have "r = Goto p'"
  proof (cases "r = Wait p'")
    case True
    then show ?thesis using calculation(2) by (auto simp: stream_poll_def stream_packet_def Let_def bind_eq_Some_conv split: if_splits prod.splits)
  qed (use r in simp)
  ultimately show ?thesis using stream_poll_inv[OF _ sane] by simp
next
  case (AtReply c)
  then show ?thesis using stream_reply_inv[OF _ sane _ r] inv st by simp
next
  case AtTimeout
  then have "running D l s" "stream_timeout l s = Some (r, l', s')" using inv st by simp_all
  then show ?thesis using r by (auto simp: stream_timeout_def bind_eq_Some_conv dest: reply_running split: if_splits)
next
  case AtBlock
  then obtain k where k: "do_block NicRecvQ None (upd_pcb (cur_cpu (nk s)) (\<lambda>c. c\<lparr>req_len := 1\<rparr>) (nk s)) = Some k" "r = Wait AtWoken" "l' = l" "s' = s\<lparr>nk := k\<rparr>"
    using st by (auto simp: bind_eq_Some_conv)
  then have "net_heap s' = net_heap s" using do_block_heap[OF k(1)] by (simp add: upd_pcb_def)
  then have "running D l s'" using running_cong(1)[of s' s l l D] runningD[of D l s] inv AtBlock k(4) by simp
  then show ?thesis using k r by auto
next
  case AtWoken
  then have "running D l s" "r = Goto AtPoll" "l' = (if recv_started l then l\<lparr>stime := stime l + 1\<rparr> else l)" "s' = s" using inv st by auto
  then show ?thesis using r running_cong(1)[of s s l' l D] runningD[of D l s] by auto
qed (use inv in auto)

lemma others_mem:
  assumes "others s s'" and "dl_ok s ns"
  shows "dl_ok s' ns" "received s' ns = received s ns" "lfr s' = lfr s" "fb s' = fb s" "fb_mem s' = fb_mem s" "nic_ok (ncard s')"
    "fb s \<in> fst ` live (net_heap s) \<Longrightarrow> fb s \<in> fst ` live (net_heap s')"
proof -
  note o = assms(1)[unfolded others_def]
  have e: "s' = s\<lparr>nk := nk s', ncard := ncard s'\<rparr>" using o by (elim conjE)
  have d: "dnodes s' = dnodes s" "dlh s' = dlh s" "fb s' = fb s" "fb_mem s' = fb_mem s" by (subst e, simp)+
  then have i: "dnext s' = dnext s" "ivl s' = ivl s" by (simp_all add: fun_eq_iff dnext_def ivl_def)
  have lp: "lpath (dnext s) (dlh s) ns" using assms(2) by (simp add: dl_ok_def)
  then have lv: "insert (fb s) (set ns) \<inter> fst ` live (net_heap s) \<subseteq> fst ` live (net_heap s')" using o by blast
  then have "set ns \<subseteq> fst ` live (net_heap s')" using assms(2) unfolding dl_ok_def by blast
  then show "dl_ok s' ns" using assms(2) o d i unfolding dl_ok_def by (elim conjE) (simp only: simp_thms)
  show "received s' ns = received s ns" "lfr s' = lfr s" "fb s' = fb s" "fb_mem s' = fb_mem s" using d i by (simp_all add: received_def lfr_def)
  show "nic_ok (ncard s')" using o by (elim conjE)
  show "fb s \<in> fst ` live (net_heap s) \<Longrightarrow> fb s \<in> fst ` live (net_heap s')" using lv by blast
qed

lemma others_inv:
  assumes o: "others s s'" and inv: "stream_inv D p l s"
  shows "stream_inv D p l s'"
proof -
  have mem: "stream_mem s' ns \<and> filled D l s' ns \<and> lfr s' = lfr s" if "stream_mem s ns" "filled D l s ns" for ns
  proof -
    have ok: "dl_ok s ns" using that(1) by (simp add: stream_mem_def)
    show ?thesis using that others_mem[OF o ok] by (simp add: stream_mem_def filled_def)
  qed
  have run: "running D l s \<Longrightarrow> running D l s'" "complete D l s \<Longrightarrow> complete D l s'" using mem unfolding running_def complete_def by (metis (no_types))+
  have "idle s'" if i: "idle s"
  proof -
    obtain ns where ns: "dl_ok s ns" "fb s = NULL \<or> fb s \<in> fst ` live (net_heap s) \<and> fb s \<notin> set ns" "length (fb_mem s) = 2304" using i by (auto simp: idle_def)
    then show ?thesis using others_mem[OF o ns(1)] unfolding idle_def by (metis (no_types))
  qed
  then show ?thesis using inv run by (cases "(D, p, l, s)" rule: stream_inv.cases) auto
qed

lemma stream_run_inv: "stream_run D n p l s \<Longrightarrow> stream_inv D p l s \<and> slen l = n"
  by (induction rule: stream_run.induct) (auto dest: stream_step_inv others_inv)

text \<open>
  C35: What the stream delivers. Let the frames that arrive carry the bytes of a stream \<open>D\<close>, in any order, with losses and repetitions, among
  frames of other protocols, and let the other processes do what they like while the call is blocked. Then, whenever the
  call of \<^verbatim>\<open>do_net_recv_stream\<close> for \<open>n\<close> bytes returns a number other than 0, that number is at least \<open>n\<close> and the buffer
  of the user holds exactly the first \<open>n\<close> bytes of the stream.
\<close>

theorem stream_delivers:
  assumes "stream_run D n p l s" and "card_sane D s" and "stream_step p l s = Some (Ret r, l', s')" and "r \<noteq> 0"
  shows "n \<le> int (unat r) \<and> take (nat n) (ubuf l') = map D [0..<nat n]"
proof -
  have inv: "stream_inv D p l s" "slen l = n" using stream_run_inv[OF assms(1)] by simp_all
  have "p = AtReply ToEnd \<and> l' = l \<and> r = temp l"
  proof (cases p)
    case (AtReply c)
    then show ?thesis using assms(3) by (cases c) (auto simp: stream_reply_def bind_eq_Some_conv Let_def split: if_splits)
  next
    case AtInit
    then show ?thesis using assms(3,4) by (auto simp: stream_init_def bind_eq_Some_conv Let_def split: if_splits)
  next
    case AtPoll
    then show ?thesis using assms(3,4) by (auto simp: stream_poll_def stream_packet_def bind_eq_Some_conv Let_def split: if_splits prod.splits)
  qed (use assms(3,4) inv(1) in \<open>auto simp: stream_timeout_def bind_eq_Some_conv Let_def split: if_splits\<close>)
  then have "complete D l s" "l' = l" "r = temp l" using inv by simp_all
  then obtain ns where ns: "stream_mem s ns" "filled D l s ns" "nat n \<le> unat (lfr s)" "r = lfr s" using inv(2) by (auto simp: complete_def)
  then have ok: "dl_ok s ns" by (simp add: stream_mem_def)
  have "ubuf l ! i = D i" if "i < nat n" for i
  proof -
    have "i \<in> {0..<unat (lfr s)}" using that ns(3) by simp
    then have "i \<in> received s ns" using lfr_first_missing(1)[OF ok] by blast
    then show ?thesis using ns(2) that inv(2) by (simp add: filled_def)
  qed
  moreover have "nat n \<le> length (ubuf l)" "0 < n" using ns(2) inv(2) by (auto simp: filled_def)
  ultimately show ?thesis using ns(3,4) \<open>l' = l\<close> by (auto simp: nat_le_iff intro!: nth_equalityI)
qed

text \<open>
  C36: One frame of the stream. When a frame has arrived, the call takes exactly that frame from the ring and does not get stuck. If it is a data
  frame whose range fits into the window and overlaps nothing, the range becomes received and its bytes are in the buffer of the user;
  otherwise nothing is received. The call goes on to acknowledge and return exactly when all bytes it was asked for are there. It can
  only fail when the kernel has no memory for a node, and never on a frame that begins with the first missing byte.
\<close>

theorem stream_takes_frame:
  assumes "stream_mem s ns" and "filled D l s ns" and "unat (lfr s) < nat (slen l)" and "\<forall>f \<in> set (arrived (ncard s)). honest D f"
    and "arrived (ncard s) = f # rest" and "copy_header_from_buffer GNTP_HEADER_START f = Some h"
  shows "(\<exists>p l' s' ns'. stream_step AtPoll l s = Some (Goto p, l', s') \<and> stream_mem s' ns' \<and> filled D l' s' ns' \<and> slen l' = slen l \<and> arrived (ncard s') = rest \<and>
      received s' ns' = received s ns \<union> (if data_header h \<and> acceptable s ns (g_seq h) (g_seq h + ucast (g_length h))
        then {unat (g_seq h)..<unat (g_seq h) + unat (g_length h)} else {}) \<and>
      (if nat (slen l) \<le> unat (lfr s') then p = AtReply ToEnd \<and> temp l' = lfr s' else p = AtPoll)) \<or>
    g_seq h \<noteq> lfr s \<and> kmalloc_g sizeof_dlist_node (net_heap s) = Some (NULL, net_heap s)"
  using stream_poll_spec[OF assms(1-4)] unfolding assms(5) list.case assms(6) wanted_def stream_step.simps option.inject by blast

text \<open>The end: the acknowledgement goes out, everything is given back, and the number of bytes is returned.\<close>

lemma stream_ends:
  assumes mem: "stream_mem s ns" and tx: "reg_read (ncard s) (hw (ncard s)) E1000_TDH = (tcq_head (ncard s), w)" "length (pending (ncard s)) < 63"
    and lock: "\<And>h. do_mutex_lock_release LOCK_IDX ((nk s)\<lparr>fs := (fs (nk s))\<lparr>kh := h\<rparr>\<rparr>) \<noteq> None"
  shows "\<exists>s'. stream_step (AtReply ToEnd) l s = Some (Ret (temp l), l, s') \<and> fb s' = NULL"
proof -
  have nic: "nic_ok (ncard s)" and lb: "length (fb_mem s) = 2304" using mem by (simp_all add: stream_mem_def)
  have h: "unat (tcq_head (ncard s)) < 64" using nic_okD(8)[OF nic] .
  obtain n where n: "e1000_transmit (fb_mem s) 62 (ncard s) = Some (62, n)" "nic_ok n"
    using e1000_transmit_spec[OF nic tx(1) h refl, of 62 "fb_mem s"] tx(2) lb by auto
  let ?s1 = "s\<lparr>ncard := n\<rparr>"
  have m1: "stream_mem ?s1 ns" using n(2) mem by (rule stream_only(3))
  then have ok: "dl_ok ?s1 ns" by (simp add: stream_mem_def)
  obtain s2 where s2: "dlist_clear ?s1 = Some s2" "dl_ok s2 []" "dl_frame ?s1 ns s2 []" using dlist_clear_spec[OF ok] by blast
  note r = dl_frame_rest[OF s2(3)]
  have "fb s2 \<in> fst ` live (net_heap s2)" using s2(3) m1 r(1) unfolding dl_frame_def stream_mem_def by auto
  moreover have "heap_ok (net_heap s2)" using s2(2) by (simp add: dl_ok_def)
  ultimately obtain x where x: "kfree_g (fb s2) (net_heap s2) = Some x" using km.free_addr by metis
  obtain y where "nk s2 = (nk s)\<lparr>fs := (fs (nk s))\<lparr>kh := y\<rparr>\<rparr>" using r(6) unfolding same_kernel_def by auto
  then have "nk ((set_heap x s2)\<lparr>fb := NULL\<rparr>) = (nk s)\<lparr>fs := (fs (nk s))\<lparr>kh := x\<rparr>\<rparr>" by (simp add: set_heap_def)
  then obtain rt k where "do_mutex_lock_release LOCK_IDX (nk ((set_heap x s2)\<lparr>fb := NULL\<rparr>)) = Some (rt, k)" using lock by fastforce
  then have "stream_close ?s1 = Some ((set_heap x s2)\<lparr>fb := NULL, nk := k\<rparr>)" using s2(1) x by (simp add: stream_close_def)
  moreover have "stream_step (AtReply ToEnd) l s = do { s2 \<leftarrow> stream_close ?s1; Some (Ret (temp l), l, s2) }"
    using n(1) by (simp add: stream_reply_def GNTP_HEADER_START_def)
  ultimately show ?thesis by simp
qed

text \<open>A process that holds the mutex, and a data frame with the three bytes of the stream in the ring.\<close>

definition demo_gframe :: "u8 list" where
  "demo_gframe = replicate 54 0 @ header_bytes \<lparr>g_magic = 0x45, g_type = 1, g_length = 3, g_seq = 0\<rparr> @ [7, 8, 9]"

definition demo_D :: "nat \<Rightarrow> u8" where "demo_D i = (if i < 3 then [7, 8, 9] ! i else 0)"

definition demo_snet :: "(nat \<Rightarrow> u8 list, u32 \<Rightarrow> u32) net" where
  "demo_snet = demo_net\<lparr>nk := demo_ks\<lparr>mlocks := (mlocks demo_ks)[15 := \<lparr>mslock = UNLOCKED, mstatus = LOCKED, mkey = 0, mopid = 2\<rparr>]\<rparr>,
     ncard := demo_nic\<lparr>rx_desc_cq := (rx_desc_cq demo_nic)[0 := \<lparr>rx_addr = 0, rx_length = 65, rx_csum = 0, rx_status = 1, rx_errors = 0, rx_special = 0\<rparr>],
       rx_frm_buffer := (rx_frm_buffer demo_nic)[0 := demo_gframe @ replicate 1983 0]\<rparr>\<rparr>"

definition demo_call :: stream where
  "demo_call = \<lparr>ubuf_addr = 0x10000, ubuf = [0, 0, 0], slen = 3, seq_max = 0, recv_started = False, stime = 0, tcp_header = [], temp = 0\<rparr>"

lemma demo_gframe_length: "length demo_gframe = 65"
  by (simp add: demo_gframe_def header_bytes_def)

lemma demo_gframe_header: "copy_header_from_buffer GNTP_HEADER_START demo_gframe = Some \<lparr>g_magic = 0x45, g_type = 1, g_length = 3, g_seq = 0\<rparr>"
  unfolding demo_gframe_def GNTP_HEADER_START_def by (rule header_from_buffer) simp

lemma demo_gframe_honest: "honest demo_D demo_gframe"
proof -
  have "demo_gframe ! (62 + k) = demo_D k" if "k < 3" for k
    using that by (simp add: demo_gframe_def header_bytes_def nth_append demo_D_def nth_Cons')
  then show ?thesis unfolding honest_def demo_gframe_header by (simp add: demo_gframe_length)
qed

lemma demo_snet_card:
  "nic_ok (ncard demo_snet)" "arrived (ncard demo_snet) = [demo_gframe]" "pending (ncard demo_snet) = []"
  "tcq_head (ncard demo_snet) = 0" "reg_read (ncard demo_snet) w r = (w r, w)" "hw (ncard demo_snet) = (\<lambda>_. 0)" "reg_write (ncard demo_snet) w r v = w(r := v)"
proof -
  let ?n = "ncard demo_snet"
  show "nic_ok ?n" by (auto simp: nic_ok_def demo_snet_def demo_net_def demo_nic_def demo_gframe_length dest!: set_update_subset_insert[THEN subsetD])
  have "[0..<64] = 0 # Suc 0 # [Suc (Suc 0)..<64]" by (subst upt_conv_Cons, simp, subst upt_conv_Cons, simp, rule refl)
  then have o: "rx_order 63 = 0 # 1 # map (\<lambda>k. (63 + 1 + k) mod 64) [Suc (Suc 0)..<64]"
    unfolding rx_order_def by (simp only: list.map) simp
  have "rx_done ?n 0" "\<not> rx_done ?n 1" by (simp_all add: rx_done_def demo_snet_def demo_net_def demo_nic_def E1000_RXD_STAT_DD_def)
  moreover have "rx_frame ?n 0 = demo_gframe" by (simp add: rx_frame_def demo_snet_def demo_net_def demo_nic_def demo_gframe_length)
  moreover have "unat (rcq_tail ?n) = 63" by (simp add: demo_snet_def demo_net_def demo_nic_def)
  ultimately show "arrived ?n = [demo_gframe]" unfolding arrived_def using o by simp
qed (simp_all add: demo_snet_def demo_net_def demo_nic_def pending_def slots_def)

lemma demo_snet_idle: "idle demo_snet" "dl_ok demo_snet []" "lfr demo_snet = 0" "received demo_snet [] = {}"
proof -
  have nh: "net_heap demo_snet = demo_heap" by (simp add: demo_snet_def demo_net_def demo_ks_def)
  have ok: "heap_ok demo_heap" by (rule heap_reach_ok[OF demo_heap_reach])
  then show "dl_ok demo_snet []" unfolding dl_ok_def nh
    by (simp add: demo_snet_def demo_net_def demo_kallocbuf heap_area_def dnext_def separated_def ivl_def)
  then show "idle demo_snet" using demo_snet_card(1) unfolding idle_def by (intro conjI exI[of _ "[]"]) (simp_all add: demo_snet_def demo_net_def)
  show "lfr demo_snet = 0" "received demo_snet [] = {}" by (simp_all add: demo_snet_def demo_net_def lfr_def received_def ivl_def)
qed

lemma demo_start:
  "\<exists>l s. stream_step AtInit demo_call demo_snet = Some (Goto AtPoll, l, s) \<and> stream_mem s [] \<and> filled demo_D l s [] \<and> slen l = 3 \<and> lfr s = 0 \<and> received s [] = {} \<and>
    ncard s = ncard demo_snet \<and> same_kernel demo_snet s"
proof -
  have "dlist_clear demo_snet = Some s1 \<Longrightarrow> net_heap s1 = demo_heap" for s1
    by (auto simp: dlist_clear_def dlist_free_all.simps demo_snet_def demo_net_def demo_ks_def dnext_def)
  moreover have "kmalloc_g (of_nat (RX_FRM_SIZE + 256)) demo_heap \<noteq> Some (NULL, demo_heap)"
    by (rule demo_heap_gives) (simp_all add: kmalloc_fits_def kmalloc_size_def ROUND_def sizeof_header_def ADDR_ALIGN_def RX_FRM_SIZE_def)
  ultimately obtain s where s: "stream_init demo_call demo_snet = Some (Goto AtPoll, demo_call\<lparr>stime := 0, recv_started := False, seq_max := 0\<rparr>, s)"
    "stream_mem s []" "received s [] = {}" "lfr s = 0" "same_kernel demo_snet s" "ncard s = ncard demo_snet"
    using stream_init_spec[OF demo_snet_idle(1), of demo_call] by metis
  have "filled demo_D (demo_call\<lparr>stime := 0, recv_started := False, seq_max := 0\<rparr>) s []" using s(3) by (simp add: filled_def demo_call_def)
  then show ?thesis using s by (intro exI) (auto simp: demo_call_def)
qed

lemma demo_takes:
  assumes s: "stream_mem s []" "filled demo_D l s []" "slen l = 3" "lfr s = 0" "received s [] = {}" "ncard s = ncard demo_snet"
  shows "\<exists>l' s' ns'. stream_step AtPoll l s = Some (Goto (AtReply ToEnd), l', s') \<and> stream_mem s' ns' \<and> filled demo_D l' s' ns' \<and> slen l' = 3 \<and>
    arrived (ncard s') = [] \<and> pending (ncard s') = [] \<and> tx_same (ncard demo_snet) (ncard s') \<and> same_kernel s s' \<and> temp l' \<noteq> 0"
proof -
  define h where "h = \<lparr>g_magic = 0x45, g_type = 1 :: u8, g_length = 3 :: u16, g_seq = 0 :: u32\<rparr>"
  have hd: "copy_header_from_buffer GNTP_HEADER_START demo_gframe = Some h" unfolding h_def by (rule demo_gframe_header)
  have lf: "unat (lfr s) < nat (slen l)" using s(3,4) by simp
  have hon: "\<forall>f \<in> set (arrived (ncard s)). honest demo_D f" using demo_gframe_honest unfolding s(6) demo_snet_card(2) by simp
  have w: "wanted s [] h" using s(4,5) by (simp add: wanted_def data_header_def acceptable_def h_def GNTP_MAGIC_def GNTP_DAT_def)
  obtain p l' s' ns' where r: "stream_poll l s = Some (Goto p, l', s')" "stream_mem s' ns'" "filled demo_D l' s' ns'" "same_kernel s s'" "slen l' = slen l"
    "arrived (ncard s') = []" "pending (ncard s') = pending (ncard s)" "tx_same (ncard s) (ncard s')" "received s' ns' = {0..<3}"
    "if nat (slen l) \<le> unat (lfr s') then p = AtReply ToEnd \<and> temp l' = lfr s' else p = AtPoll"
    using stream_poll_spec[OF s(1,2) lf hon] unfolding s(6) demo_snet_card(2) list.case hd option.inject
    using s(4,5) w by (auto simp: h_def)
  have "dl_ok s' ns'" using r(2) by (simp add: stream_mem_def)
  then have "unat (lfr s') \<notin> {0..<3}" using lfr_first_missing(2)[of s' ns'] r(9) by simp
  then have "3 \<le> unat (lfr s')" by simp
  then have "p = AtReply ToEnd" "temp l' = lfr s'" "lfr s' \<noteq> 0" using r(10) s(3) by auto
  then show ?thesis using r s(3,6) demo_snet_card(3) by auto
qed

theorem stream_takes_frame_witness:
  "\<exists>l s l' s' ns'. stream_step AtInit demo_call demo_snet = Some (Goto AtPoll, l, s) \<and> stream_step AtPoll l s = Some (Goto (AtReply ToEnd), l', s') \<and> received s' ns' = {0..<3}"
proof -
  obtain l s where s: "stream_step AtInit demo_call demo_snet = Some (Goto AtPoll, l, s)" "stream_mem s []" "filled demo_D l s []" "slen l = 3" "lfr s = 0" "received s [] = {}"
    "ncard s = ncard demo_snet" using demo_start by blast
  obtain l1 s1 where e: "stream_step AtPoll l s = Some (Goto (AtReply ToEnd), l1, s1)" using demo_takes[OF s(2-7)] by blast
  have ar: "arrived (ncard s) = demo_gframe # []" "\<forall>f \<in> set (arrived (ncard s)). honest demo_D f" using demo_gframe_honest unfolding s(7) demo_snet_card(2) by simp_all
  have lf: "unat (lfr s) < nat (slen l)" using s(4,5) by simp
  have "\<exists>ns'. received s1 ns' = {0..<3}"
    using stream_takes_frame[OF s(2,3) lf ar(2,1) demo_gframe_header] s(5,6) e by (auto simp: data_header_def acceptable_def GNTP_MAGIC_def GNTP_DAT_def)
  then show ?thesis using s(1) e by blast
qed

theorem stream_delivers_witness:
  "\<exists>l (s :: (nat \<Rightarrow> u8 list, u32 \<Rightarrow> u32) net) r l' s'. stream_run demo_D 3 (AtReply ToEnd) l s \<and> stream_step (AtReply ToEnd) l s = Some (Ret r, l', s') \<and> r \<noteq> 0 \<and> take 3 (ubuf l') = [7, 8, 9]"
proof -
  have sane: "card_sane demo_D demo_snet" using demo_snet_card demo_gframe_honest by (simp add: card_sane_def)
  have "stream_run demo_D 3 AtInit demo_call demo_snet" by (rule run_init[OF demo_snet_idle(1)]) (simp_all add: demo_call_def)
  moreover obtain l s where s: "stream_step AtInit demo_call demo_snet = Some (Goto AtPoll, l, s)" "stream_mem s []" "filled demo_D l s []" "slen l = 3" "lfr s = 0" "received s [] = {}"
    "ncard s = ncard demo_snet" "same_kernel demo_snet s" using demo_start by blast
  ultimately have run1: "stream_run demo_D 3 AtPoll l s" using run_step sane by metis
  obtain l1 s1 ns1 where s1: "stream_step AtPoll l s = Some (Goto (AtReply ToEnd), l1, s1)" "stream_mem s1 ns1" "arrived (ncard s1) = []" "pending (ncard s1) = []"
    "tx_same (ncard demo_snet) (ncard s1)" "same_kernel s s1" "temp l1 \<noteq> 0" using demo_takes[OF s(2-7)] by blast
  have "card_sane demo_D s" using sane s(7) by (simp add: card_sane_def)
  with run1 have run2: "stream_run demo_D 3 (AtReply ToEnd) l1 s1" using s1(1) by (rule run_step)
  have tdh: "reg_read (ncard s1) (hw (ncard s1)) E1000_TDH = (tcq_head (ncard s1), hw (ncard s1))"
    using s1(5) demo_snet_card by (simp add: tx_same_def E1000_RDT_def E1000_TDH_def)
  then have sane1: "card_sane demo_D s1" using s1(3,5) demo_snet_card(4) by (simp add: card_sane_def tx_same_def)
  obtain z where z: "nk s = (nk demo_snet)\<lparr>fs := (fs (nk demo_snet))\<lparr>kh := z\<rparr>\<rparr>" using s(8) unfolding same_kernel_def by blast
  obtain y where "nk s1 = (nk s)\<lparr>fs := (fs (nk s))\<lparr>kh := y\<rparr>\<rparr>" using s1(6) unfolding same_kernel_def by blast
  then have y: "nk s1 = (nk demo_snet)\<lparr>fs := (fs (nk demo_snet))\<lparr>kh := y\<rparr>\<rparr>" by (simp add: z)
  have "do_mutex_lock_release LOCK_IDX ((nk s1)\<lparr>fs := (fs (nk s1))\<lparr>kh := x\<rparr>\<rparr>) \<noteq> None" for x
    unfolding y by (simp add: do_mutex_lock_release_def LOCK_IDX_def demo_snet_def demo_ks_def cur_pcb_def cur_cpu_def demo_pmem_def upd_mutex_def LOCK_NUM_def)
  then obtain s2 where s2: "stream_step (AtReply ToEnd) l1 s1 = Some (Ret (temp l1), l1, s2)" using stream_ends[OF s1(2) tdh] s1(4) by auto
  have "take (nat 3) (ubuf l1) = map demo_D [0..<nat 3]" using stream_delivers[OF run2 sane1 s2 s1(7)] by blast
  moreover have "map demo_D [0..<nat 3] = [7, 8, 9]" by (simp add: demo_D_def upt_rec)
  ultimately have "take 3 (ubuf l1) = [7, 8, 9]" by simp
  then show ?thesis using run2 s2 s1(7) by blast
qed

end
