(* ===== verification/Trap.thy ===== *)
theory Trap
  imports E1000
begin

text \<open>
  Traps (\<^verbatim>\<open>kernel/irq/irq.c\<close>, \<^verbatim>\<open>kernel/syscall/syscall.c\<close>), the global lock of the kernel (\<^verbatim>\<open>kernel/smp/smp.c\<close>), and what the timer
  interrupt does to the processes (properties of \<^verbatim>\<open>do_scheduler\<close>).

  A trap runs on the registers that entry.S has saved (\<open>regs\<close>, an address of \<open>trapframes\<close>). The array \<^verbatim>\<open>syscall[]\<close> that
  \<^verbatim>\<open>init_syscall\<close> fills is an argument, \<open>None\<close> standing for \<^verbatim>\<open>invalid_syscall\<close>; so is what the interrupt controller answers
  (\<open>claim\<close>). The answer \<open>Blocked\<close> means that another process runs when the trap is left.
\<close>

section \<open>System calls\<close>

definition NUM_SYSCALLS :: int where "NUM_SYSCALLS = 96"

type_synonym 'd sysfun = "u64 list \<Rightarrow> 'd kstate \<Rightarrow> (u64 outcome \<times> 'd kstate) option"

definition invalid_syscall :: "'d kstate \<Rightarrow> (unit outcome \<times> 'd kstate) option" where
  "invalid_syscall s = (if pid (cur_pcb s) \<ge> int NCPU then do_exit s else None)"

text \<open>
  \<open>sysno\<close> is a signed number: for a negative one, an element before the array would be read. \<open>invalid_syscall\<close> does not
  come back.
\<close>

definition handle_syscall :: "'d sysfun option list \<Rightarrow> u64 \<Rightarrow> 'd kstate \<Rightarrow> (unit outcome \<times> 'd kstate) option" where
  "handle_syscall fns regs s = do {
     let r = tf_regs (trapframes s regs);
     let sysno = sint (r ! 17);
     let args = take 5 (drop 10 r);
     entry \<leftarrow> (if sysno \<ge> NUM_SYSCALLS then Some None else if sysno < 0 then None else nth_chk fns (nat sysno));
     case entry of
       None \<Rightarrow> do { (out, s1) \<leftarrow> invalid_syscall s; case out of Blocked \<Rightarrow> Some (Blocked, s1) | Done _ \<Rightarrow> None }
     | Some func \<Rightarrow> do {
         (out, s1) \<leftarrow> func args s;
         case out of
           Blocked \<Rightarrow> Some (Blocked, s1)
         | Done rt \<Rightarrow> Some (Done (), s1\<lparr>trapframes := (trapframes s1)(regs := (trapframes s1 regs)\<lparr>tf_regs := (tf_regs (trapframes s1 regs))[10 := rt]\<rparr>)\<rparr>)
       }
   }"

section \<open>Handlers\<close>

datatype handler = H_syscall | H_pagefault | H_irq_timer | H_soft | H_irq_ext | H_other

definition IRQC_S_SOFT :: nat where "IRQC_S_SOFT = 1"
definition IRQC_S_TIMER :: nat where "IRQC_S_TIMER = 5"
definition IRQC_S_EXT :: nat where "IRQC_S_EXT = 9"
definition IRQC_COUNT :: nat where "IRQC_COUNT = 12"
definition EXCC_SYSCALL :: nat where "EXCC_SYSCALL = 8"
definition EXCC_INST_PAGE_FAULT :: nat where "EXCC_INST_PAGE_FAULT = 12"
definition EXCC_LOAD_PAGE_FAULT :: nat where "EXCC_LOAD_PAGE_FAULT = 13"
definition EXCC_STORE_PAGE_FAULT :: nat where "EXCC_STORE_PAGE_FAULT = 15"
definition EXCC_COUNT :: nat where "EXCC_COUNT = 16"

text \<open>The tables \<^verbatim>\<open>init_exception\<close> fills.\<close>

definition exc_table :: "handler list" where
  "exc_table = (replicate EXCC_COUNT H_other)[EXCC_SYSCALL := H_syscall, EXCC_INST_PAGE_FAULT := H_pagefault,
     EXCC_LOAD_PAGE_FAULT := H_pagefault, EXCC_STORE_PAGE_FAULT := H_pagefault]"

definition irq_table :: "handler list" where
  "irq_table = (replicate IRQC_COUNT H_other)[IRQC_S_TIMER := H_irq_timer, IRQC_S_SOFT := H_soft, IRQC_S_EXT := H_irq_ext]"

definition E1000_ICR_TXQE :: u32 where "E1000_ICR_TXQE = 0x2"
definition E1000_ICR_RXDMT0 :: u32 where "E1000_ICR_RXDMT0 = 0x10"
definition PLIC_E1000_PYNQ_IRQ :: int where "PLIC_E1000_PYNQ_IRQ = 3"
definition PLIC_E1000_QEMU_IRQ :: int where "PLIC_E1000_QEMU_IRQ = 33"

definition handle_irq_timer :: "'d kstate \<Rightarrow> (unit outcome \<times> 'd kstate) option" where
  "handle_irq_timer s = do { (sw, s1) \<leftarrow> do_scheduler s; Some (if sw then Blocked else Done (), s1) }"

definition handle_irq_ext :: "int \<Rightarrow> 'd kstate \<times> 'h nic \<Rightarrow> ('d kstate \<times> 'h nic) option" where
  "handle_irq_ext claim st = (case st of (s, n) \<Rightarrow>
     if claim = PLIC_E1000_PYNQ_IRQ \<or> claim = PLIC_E1000_QEMU_IRQ then do {
       let (icr, n1) = e1000_read_reg E1000_ICR n;
       s1 \<leftarrow> (if icr AND E1000_ICR_TXQE \<noteq> 0 then handle_e1000_int_txqe s else Some s);
       s2 \<leftarrow> (if icr AND E1000_ICR_RXDMT0 \<noteq> 0 then handle_e1000_int_rxdmt0 s1 else Some s1);
       Some (s2, e1000_write_reg E1000_IMC icr n1)
     } else Some (s, n))"

definition handle_other :: "u64 \<Rightarrow> 'd kstate \<Rightarrow> (unit outcome \<times> 'd kstate) option" where
  "handle_other regs s = (if tf_sstatus (trapframes s regs) AND SR_SPP \<noteq> 0 then None else do_exit s)"

text \<open>A page fault that is not repaired is a segment fault, which ends the process.\<close>

definition run_handler :: "handler \<Rightarrow> 'd sysfun option list \<Rightarrow> int \<Rightarrow> u64 \<Rightarrow> u64 \<Rightarrow> u64 \<Rightarrow> 'd kstate \<times> 'h nic \<Rightarrow> (unit outcome \<times> 'd kstate \<times> 'h nic) option" where
  "run_handler h fns claim regs stval scause st = (case st of (s, n) \<Rightarrow> (case h of
     H_syscall \<Rightarrow> do { (out, s1) \<leftarrow> handle_syscall fns regs s; Some (out, s1, n) }
   | H_pagefault \<Rightarrow> do {
       (repaired, s1) \<leftarrow> handle_pagefault stval scause s;
       if repaired then Some (Done (), s1, n) else do { (out, s2) \<leftarrow> do_exit s1; Some (out, s2, n) } }
   | H_irq_timer \<Rightarrow> do { (out, s1) \<leftarrow> handle_irq_timer s; Some (out, s1, n) }
   | H_soft \<Rightarrow> Some (Done (), s, n)
   | H_irq_ext \<Rightarrow> do { st1 \<leftarrow> handle_irq_ext claim (s, n); Some (Done (), st1) }
   | H_other \<Rightarrow> do { (out, s1) \<leftarrow> handle_other regs s; Some (out, s1, n) }))"

definition interrupt_helper :: "'d sysfun option list \<Rightarrow> int \<Rightarrow> u64 \<Rightarrow> u64 \<Rightarrow> u64 \<Rightarrow> 'd kstate \<times> 'h nic \<Rightarrow> (unit outcome \<times> 'd kstate \<times> 'h nic) option" where
  "interrupt_helper fns claim regs stval scause st = (case st of (s, n) \<Rightarrow>
     if status (cur_pcb s) = TASK_EXITING then do {
       (out, s1) \<leftarrow> do_exit s;
       case out of Blocked \<Rightarrow> Some (Blocked, s1, n) | Done _ \<Rightarrow> None
     }
     else if sint scause < 0 then do {
       let code = scause AND drop_bit 1 (NOT 0);
       if code \<ge> of_nat IRQC_COUNT then None
       else do { h \<leftarrow> nth_chk irq_table (unat code); run_handler h fns claim regs stval code (s, n) }
     }
     else do { h \<leftarrow> nth_chk exc_table (unat scause); run_handler h fns claim regs stval scause (s, n) })"

section \<open>The lock of the kernel\<close>

text \<open>A CPU waits in \<open>lock_kernel\<close> until the lock is free; then it is taken.\<close>

definition lock_kernel :: "lock_status \<Rightarrow> lock_status option" where
  "lock_kernel l = (let (old, l1) = test_and_set l in if old = LOCKED then None else Some l1)"

definition unlock_kernel :: "lock_status \<Rightarrow> lock_status option" where
  "unlock_kernel l = (if l = UNLOCKED then None else Some UNLOCKED)"

section \<open>The scheduler\<close>

text \<open>The senders and receivers that wait for the card; those whose frames have probably come are woken.\<close>

definition wants_little :: "'d kstate \<Rightarrow> addr \<Rightarrow> bool" where
  "wants_little s p \<longleftrightarrow> req_len (pcbs s p) \<le> drop_bit 1 RXDESCS"

definition nic_woken :: "addr \<Rightarrow> addr list \<Rightarrow> (qref \<Rightarrow> addr list) \<Rightarrow> qref \<Rightarrow> addr list" where
  "nic_woken c ps Q = Q(NicRecvQ := drop (length ps) (Q NicRecvQ), ReadyQ := fold (insert_after c) ps (Q ReadyQ))"

lemma check_sleeping_on_nic_spec:
  assumes "kq_ok s Q"
  shows "\<exists>s'. check_sleeping_on_nic s = Some s' \<and> kq_ok s' (nic_woken (cur_cpu s) (takeWhile (wants_little s) (Q NicRecvQ)) Q) \<and>
    woke (set (takeWhile (wants_little s) (Q NicRecvQ))) s s'"
  using assms
proof (induction "Q NicRecvQ" arbitrary: s Q)
  case Nil
  then have "nic_woken (cur_cpu s) [] Q = Q" by (auto simp: nic_woken_def fun_eq_iff)
  then show ?case using Nil qs_okD(6)[OF kq_okD(1)[OF Nil(2)], of NicRecvQ]
    by (subst check_sleeping_on_nic.simps) (simp add: woke_refl flip: Nil(1))
next
  case (Cons p ps)
  note d = kq_okD[OF Cons(3)]
  have h: "heads s NicRecvQ = p" "p \<noteq> NULL" using qs_okD(1)[OF d(1), of NicRecvQ] by (auto simp: ring_def simp flip: Cons(2))
  show ?case
  proof (cases "wants_little s p")
    case False
    have "nic_woken (cur_cpu s) [] Q = Q" by (auto simp: nic_woken_def fun_eq_iff)
    then show ?thesis using False Cons(3) h
      by (subst check_sleeping_on_nic.simps) (simp add: woke_refl wants_little_def flip: Cons(2))
  next
    case True
    obtain s1 where s1: "unblock_head NicRecvQ s = Some s1" "kq_ok s1 (moved NicRecvQ p ReadyQ (cur_cpu s) Q)" "woke {p} s s1"
      using unblock_head_spec[OF Cons(3), of NicRecvQ p ps] Cons(2) by auto
    let ?Q = "moved NicRecvQ p ReadyQ (cur_cpu s) Q"
    have q: "?Q NicRecvQ = ps" by (simp add: moved_def flip: Cons(2))
    have w: "wants_little s1 = wants_little s"
      by (auto simp: wants_little_def fun_eq_iff same_pcb_fields(4)[OF wokeD(2)[OF s1(3)]])
    obtain s2 where s2: "check_sleeping_on_nic s1 = Some s2" "kq_ok s2 (nic_woken (cur_cpu s) (takeWhile (wants_little s) ps) ?Q)"
      "woke (set (takeWhile (wants_little s) ps)) s1 s2"
      using Cons(1)[OF q[symmetric] s1(2)] unfolding w q woke_fields(3)[OF s1(3)] by blast
    have "nic_woken (cur_cpu s) (takeWhile (wants_little s) ps) ?Q = nic_woken (cur_cpu s) (takeWhile (wants_little s) (p # ps)) Q"
      using True d(3) by (auto simp: nic_woken_def moved_def fun_eq_iff simp flip: Cons(2))
    moreover have "woke (set (takeWhile (wants_little s) (p # ps))) s s2" using woke_trans[OF s1(3) s2(3)] True by simp
    moreover have "check_sleeping_on_nic s = Some s2"
      using h True s1(1) s2(1) by (subst check_sleeping_on_nic.simps) (simp add: wants_little_def)
    ultimately show ?thesis using s2(2) by (simp flip: Cons(2))
  qed
qed

text \<open>The search passes over the processes that may not run, as long as none of them is to be removed.\<close>

definition keeps :: "'d kstate \<Rightarrow> addr \<Rightarrow> bool" where
  "keeps s p \<longleftrightarrow> status (pcbs s p) \<noteq> TASK_EXITED \<and> status (pcbs s p) \<noteq> TASK_ZOMBIE"

lemma sched_loop_spec:
  assumes "follows (pcbs s) (xs @ [c])" and "c \<notin> set xs" and "\<forall>p \<in> set xs. keeps s p"
  shows "sched_loop c (hd (xs @ [c])) s =
    (case find (\<lambda>p. can_run (cpu_id s) (pcbs s p)) xs of Some p \<Rightarrow> Some (True, switch c p s)
     | None \<Rightarrow> if pid (cur_pcb s) \<ge> int NCPU then None else Some (False, s))"
  using assms
proof (induction xs)
  case Nil
  then show ?case by (subst sched_loop.simps) simp
next
  case (Cons x xs)
  have n: "pnext (pcbs s x) = hd (xs @ [c])" "follows (pcbs s) (xs @ [c])" using Cons(2) by (cases xs; simp)+
  show ?case using Cons(1)[OF n(2)] Cons(3,4) n(1)
    by (subst sched_loop.simps) (simp add: keeps_def)
qed

text \<open>The state in which the search starts, and the queues then.\<close>

definition sched_queues :: "'d kstate \<Rightarrow> (qref \<Rightarrow> addr list) \<Rightarrow> qref \<Rightarrow> addr list" where
  "sched_queues s Q = nic_woken (cur_cpu s) (takeWhile (wants_little s) (Q NicRecvQ))
     (Q(SleepQ := filter (\<lambda>p. \<not> due (get_timer s) s p) (Q SleepQ),
        ReadyQ := fold (insert_after (cur_cpu s)) (filter (due (get_timer s) s) (Q SleepQ)) (Q ReadyQ)))"

definition sched_woken :: "'d kstate \<Rightarrow> (qref \<Rightarrow> addr list) \<Rightarrow> addr set" where
  "sched_woken s Q = set (filter (due (get_timer s) s) (Q SleepQ)) \<union> set (takeWhile (wants_little s) (Q NicRecvQ))"

lemma switch_fields:
  assumes "kq_ok s Q" and "p \<in> set (Q ReadyQ)" and "p \<noteq> cur_cpu s"
  shows "kq_ok (switch (cur_cpu s) p s) Q" "cur_cpu (switch (cur_cpu s) p s) = p" "cpu_id (switch (cur_cpu s) p s) = cpu_id s"
    "status (pcbs (switch (cur_cpu s) p s) x) = (if x = p then TASK_RUNNING
       else if x = cur_cpu s \<and> status (pcbs s x) = TASK_RUNNING then TASK_READY else status (pcbs s x))"
    "same_pcb (pcbs (switch (cur_cpu s) p s) x) (pcbs s x)"
    "switch (cur_cpu s) p s = s\<lparr>pcbs := pcbs (switch (cur_cpu s) p s), current_running := (current_running s)[cpu_id s := p]\<rparr>"
proof -
  let ?s = "switch (cur_cpu s) p s" and ?c = "cur_cpu s"
  note d = kq_okD[OF assms(1)]
  have i: "cpu_id s < length (current_running s)" using assms(1) by (simp add: kq_ok_def)
  show st: "status (pcbs ?s x) = (if x = p then TASK_RUNNING
       else if x = ?c \<and> status (pcbs s x) = TASK_RUNNING then TASK_READY else status (pcbs s x))" for x
    using assms(3) by (auto simp: switch_def Let_def set_status_def upd_pcb_def)
  show "same_pcb (pcbs ?s x) (pcbs s x)" by (auto simp: switch_def Let_def set_status_def upd_pcb_def same_pcb_def)
  show e: "?s = s\<lparr>pcbs := pcbs ?s, current_running := (current_running s)[cpu_id s := p]\<rparr>"
    by (simp add: switch_def Let_def set_status_def upd_pcb_def)
  show c: "cur_cpu ?s = p" "cpu_id ?s = cpu_id s" using i by (subst e, simp add: cur_cpu_def)+
  have n: "pnext (pcbs ?s x) = pnext (pcbs s x)" "phead (pcbs ?s x) = phead (pcbs s x)" for x
    by (auto simp: switch_def Let_def set_status_def upd_pcb_def)
  have "ring (pcbs ?s) h ps = ring (pcbs s) h ps" for h ps by (rule ring_cong) (rule n(1))
  moreover have "heads ?s = heads s" by (subst e) simp
  ultimately have "qs_ok (pcbs ?s) (heads ?s) Q" using d(1) n(2) by (simp add: qs_ok_def)
  moreover have "status (pcbs ?s x) = TASK_SLEEPING" if "q \<noteq> ReadyQ" "x \<in> set (Q q)" for q x
    using d(4)[OF that] qs_okD(2)[OF d(1) that(1) that(2)] assms(2) d(2) unfolding st by auto
  moreover have "cpu_id ?s < length (current_running ?s)" using i by (subst (2) e) (simp add: c)
  ultimately show "kq_ok ?s Q" using assms(2) unfolding kq_ok_def c by blast
qed

lemma do_scheduler_spec:
  assumes k: "kq_ok s Q" and z: "\<forall>p \<in> set (Q ReadyQ). keeps s p"
  shows "\<exists>s1. kq_ok s1 (sched_queues s Q) \<and> woke (sched_woken s Q) s s1 \<and> (case next_ready s1 (sched_queues s Q) of
      Some p \<Rightarrow> do_scheduler s = Some (True, switch (cur_cpu s) p s1) \<and> p \<in> set (sched_queues s Q ReadyQ) \<and> p \<noteq> cur_cpu s
    | None \<Rightarrow> do_scheduler s = (if pid (cur_pcb s) \<ge> int NCPU then None else Some (False, s1)))"
proof -
  let ?D = "filter (due (get_timer s) s) (Q SleepQ)" and ?N = "takeWhile (wants_little s) (Q NicRecvQ)" and ?c = "cur_cpu s"
  let ?Q1 = "Q(SleepQ := filter (\<lambda>p. \<not> due (get_timer s) s p) (Q SleepQ), ReadyQ := fold (insert_after ?c) ?D (Q ReadyQ))"
  obtain s0 where s0: "check_sleeping s = Some s0" "kq_ok s0 ?Q1" "woke (set ?D) s s0" using check_sleeping_spec[OF k] by blast
  have w: "wants_little s0 = wants_little s" "cur_cpu s0 = ?c"
    using woke_fields(3)[OF s0(3)] by (auto simp: wants_little_def fun_eq_iff same_pcb_fields(4)[OF wokeD(2)[OF s0(3)]])
  obtain s1 where s1: "check_sleeping_on_nic s0 = Some s1" "kq_ok s1 (sched_queues s Q)" "woke (set ?N) s0 s1"
    using check_sleeping_on_nic_spec[OF s0(2)] by (auto simp: w sched_queues_def)
  have wk: "woke (sched_woken s Q) s s1" using woke_trans[OF s0(3) s1(3)] by (simp add: sched_woken_def)
  let ?Q = "sched_queues s Q"
  note d = kq_okD[OF s1(2)]
  have c: "cur_cpu s1 = ?c" "cpu_id s1 = cpu_id s" using woke_fields[OF wk] by simp_all
  obtain xs ys where sp: "?Q ReadyQ = xs @ ?c # ys" using d(2) unfolding c by (auto dest: split_list)
  have r: "ring (pcbs s1) (heads s1 ReadyQ) (xs @ ?c # ys)" using qs_okD(1)[OF d(1), of ReadyQ] sp by simp
  have ot: "others ?c (?Q ReadyQ) = ys @ xs" unfolding sp by (rule others_append) (use ring_distinct[OF r] in simp)
  have rd: "set (?Q ReadyQ) \<subseteq> set (Q ReadyQ) \<union> sched_woken s Q"
  proof -
    have c0: "?c \<in> set (Q ReadyQ)" using kq_okD(2)[OF k] .
    have f: "set (fold (insert_after ?c) ?D (Q ReadyQ)) = set ?D \<union> set (Q ReadyQ)" using fold_insert_after[OF c0] by simp
    then have "?c \<in> set (fold (insert_after ?c) ?D (Q ReadyQ))" using c0 by simp
    then show ?thesis using fold_insert_after[of ?c "fold (insert_after ?c) ?D (Q ReadyQ)" ?N] f
      by (auto simp: sched_queues_def nic_woken_def sched_woken_def)
  qed
  have kp: "keeps s1 p" if "p \<in> set (?Q ReadyQ)" for p
    using that rd z wokeD(3)[OF wk, of p] by (auto simp: keeps_def)
  have "\<forall>p \<in> set (ys @ xs). keeps s1 p" using kp sp by auto
  then have loop: "sched_loop ?c (pnext (pcbs s1 ?c)) s1 = (case next_ready s1 ?Q of Some p \<Rightarrow> Some (True, switch ?c p s1)
     | None \<Rightarrow> if pid (cur_pcb s1) \<ge> int NCPU then None else Some (False, s1))"
    using sched_loop_spec[OF ring_rotate(1,3)[OF r]] ring_rotate(2)[OF r] unfolding next_ready_def c(1) ot by simp
  have "pid (cur_pcb s1) = pid (cur_pcb s)" using same_pcb_fields(1)[OF wokeD(2)[OF wk]] c by (simp add: cur_pcb_def)
  moreover have "do_scheduler s = sched_loop ?c (pnext (pcbs s1 ?c)) s1"
    using s0(1) s1(1) kq_okD(3)[OF k] by (simp add: do_scheduler_def Let_def)
  moreover have "p \<in> set (?Q ReadyQ) \<and> p \<noteq> ?c" if "next_ready s1 ?Q = Some p" for p
    using find_SomeD[OF that[unfolded next_ready_def]] ring_rotate(3)[OF r] sp unfolding c ot by auto
  ultimately show ?thesis using s1(2) wk loop by (intro exI[of _ s1]) (auto split: option.splits)
qed

section \<open>Taking turns\<close>

text \<open>The ready queue seen from the running process, after another process has got the CPU.\<close>

lemma others_rotate:
  assumes "distinct r" and "c \<in> set r" and "others c r = xs @ p # ys"
  shows "others p r = ys @ c # xs"
proof -
  obtain as bs where r: "r = as @ c # bs" using assms(2) by (auto dest: split_list)
  then have "c \<notin> set as" using assms(1) by simp
  then have o: "bs @ as = xs @ p # ys" using assms(3) others_append[of c as bs] r by simp
  then consider zs where "bs = xs @ p # zs" "ys = zs @ as" | zs where "as = zs @ p # ys" "xs = bs @ zs"
    by (auto simp: append_eq_append_conv2 append_eq_Cons_conv Cons_eq_append_conv)
  then show ?thesis
  proof cases
    case 1
    then have "r = (as @ c # xs) @ p # zs" using r by simp
    then show ?thesis using others_append[of p "as @ c # xs" zs] assms(1) 1 by simp
  next
    case 2
    then have "r = zs @ p # (ys @ c # bs)" using r by simp
    then show ?thesis using others_append[of p zs "ys @ c # bs"] assms(1) 2 by simp
  qed
qed

fun sched_times :: "nat \<Rightarrow> 'd kstate \<Rightarrow> 'd kstate option" where
  "sched_times 0 s = Some s"
| "sched_times (Suc n) s = do { (_, s1) \<leftarrow> do_scheduler s; sched_times n s1 }"

lemma find_split: "find P xs = Some x \<Longrightarrow> \<exists>as bs. xs = as @ x # bs \<and> P x \<and> (\<forall>a \<in> set as. \<not> P a)"
proof (induction xs)
  case (Cons a xs)
  show ?case
  proof (cases "P a")
    case True
    then show ?thesis using Cons(2) by (intro exI[of _ "[]"] exI[of _ xs]) simp
  next
    case False
    then obtain as bs where "xs = as @ x # bs" "P x" "\<forall>a \<in> set as. \<not> P a" using Cons by auto
    then show ?thesis using False by (intro exI[of _ "a # as"] exI[of _ bs]) simp
  qed
qed simp

lemma calm_scheduler:
  assumes k: "kq_ok s Q" and z: "\<forall>p \<in> set (Q ReadyQ). keeps s p" and e: "Q SleepQ = []" "Q NicRecvQ = []"
    and p: "p \<in> set (others (cur_cpu s) (Q ReadyQ))" "can_run (cpu_id s) (pcbs s p)"
  shows "\<exists>q as bs s'. do_scheduler s = Some (True, s') \<and> others (cur_cpu s) (Q ReadyQ) = as @ q # bs \<and> (\<forall>a \<in> set as. \<not> can_run (cpu_id s) (pcbs s a)) \<and>
    kq_ok s' Q \<and> cur_cpu s' = q \<and> cpu_id s' = cpu_id s \<and> (\<forall>x \<in> set (Q ReadyQ). keeps s' x) \<and>
    (\<forall>x. x \<noteq> q \<longrightarrow> can_run (cpu_id s) (pcbs s x) \<longrightarrow> can_run (cpu_id s) (pcbs s' x))"
proof -
  have Q: "sched_queues s Q = Q" "sched_woken s Q = {}" using e by (auto simp: sched_queues_def sched_woken_def nic_woken_def fun_eq_iff)
  obtain s1 where s1: "kq_ok s1 Q" "woke {} s s1" "case next_ready s1 Q of
      Some p \<Rightarrow> do_scheduler s = Some (True, switch (cur_cpu s) p s1) \<and> p \<in> set (Q ReadyQ) \<and> p \<noteq> cur_cpu s
    | None \<Rightarrow> do_scheduler s = (if pid (cur_pcb s) \<ge> int NCPU then None else Some (False, s1))"
    using do_scheduler_spec[OF k z] unfolding Q by blast
  note w = woke_fields[OF s1(2)] and st = wokeD(3)[OF s1(2), simplified] and sp = wokeD(2)[OF s1(2)]
  have run: "can_run i (pcbs s1 x) = can_run i (pcbs s x)" for i x by (simp add: can_run_def st same_pcb_fields(5)[OF sp])
  have "next_ready s1 Q \<noteq> None" using p unfolding next_ready_def w run by (auto simp: find_None_iff)
  then obtain q where q: "next_ready s1 Q = Some q" by blast
  then have d: "do_scheduler s = Some (True, switch (cur_cpu s) q s1)" "q \<in> set (Q ReadyQ)" "q \<noteq> cur_cpu s" using s1(3) by simp_all
  obtain as bs where ab: "others (cur_cpu s) (Q ReadyQ) = as @ q # bs" "can_run (cpu_id s) (pcbs s q)" "\<forall>a \<in> set as. \<not> can_run (cpu_id s) (pcbs s a)"
    using find_split[OF q[unfolded next_ready_def w run]] by blast
  define s' where "s' = switch (cur_cpu s) q s1"
  have ds: "do_scheduler s = Some (True, s')" using d(1) by (simp add: s'_def)
  note f = switch_fields[OF s1(1) d(2), unfolded w(3), OF d(3), folded s'_def]
  have kp: "keeps s' x" if x: "x \<in> set (Q ReadyQ)" for x
    using x z f(4)[of x] st[of x] by (auto simp: keeps_def)
  have cr: "can_run (cpu_id s) (pcbs s' x)" if x: "x \<noteq> q" "can_run (cpu_id s) (pcbs s x)" for x
    using x f(4)[of x] st[of x] same_pcb_fields(5)[OF f(5)[of x]] same_pcb_fields(5)[OF sp[of x]] by (auto simp: can_run_def)
  have ci: "cpu_id s' = cpu_id s" using f(3) w(2) by simp
  show ?thesis
    by (rule exI[of _ q], rule exI[of _ as], rule exI[of _ bs], rule exI[of _ s'], intro conjI allI impI ballI ds ab f(1,2) ci)
      (use ab(3) kp cr in blast)+
qed

lemma turn_spec:
  assumes "kq_ok s Q" and "\<forall>p \<in> set (Q ReadyQ). keeps s p" and "Q SleepQ = []" "Q NicRecvQ = []"
    and "others (cur_cpu s) (Q ReadyQ) = xs @ p # ys" and "can_run (cpu_id s) (pcbs s p)"
  shows "\<exists>n s'. n \<le> length xs \<and> sched_times (Suc n) s = Some s' \<and> cur_cpu s' = p \<and> cpu_id s' = cpu_id s \<and> kq_ok s' Q"
  using assms
proof (induction "length xs" arbitrary: s xs ys rule: less_induct)
  case less
  have pin: "p \<in> set (others (cur_cpu s) (Q ReadyQ))" using less(6) by simp
  obtain q as bs s1 where s1: "do_scheduler s = Some (True, s1)" "others (cur_cpu s) (Q ReadyQ) = as @ q # bs" "\<forall>a \<in> set as. \<not> can_run (cpu_id s) (pcbs s a)"
    "kq_ok s1 Q" "cur_cpu s1 = q" "cpu_id s1 = cpu_id s" "\<forall>x \<in> set (Q ReadyQ). keeps s1 x"
    "\<forall>x. x \<noteq> q \<longrightarrow> can_run (cpu_id s) (pcbs s x) \<longrightarrow> can_run (cpu_id s) (pcbs s1 x)"
    using calm_scheduler[OF less(2-5) pin less(7)] by blast
  show ?case
  proof (cases "q = p")
    case True
    then show ?thesis using s1 by (intro exI[of _ 0] exI[of _ s1]) simp
  next
    case False
    have rd: "distinct (Q ReadyQ)" "cur_cpu s \<in> set (Q ReadyQ)" using qs_okD(5)[OF kq_okD(1)[OF less(2)]] kq_okD(2)[OF less(2)] by auto
    have "p \<notin> set as" using s1(3) less(7) by blast
    then obtain zs where b: "bs = zs @ p # ys" "xs = as @ q # zs"
      using s1(2) less(6) False by (auto simp: append_eq_append_conv2 Cons_eq_append_conv append_eq_Cons_conv)
    have o: "others (cur_cpu s1) (Q ReadyQ) = zs @ p # (ys @ cur_cpu s # as)" using others_rotate[OF rd s1(2)] s1(5) b(1) by simp
    have "can_run (cpu_id s1) (pcbs s1 p)" using s1(6,8) less(7) False by auto
    then obtain n s' where "n \<le> length zs" "sched_times (Suc n) s1 = Some s'" "cur_cpu s' = p" "cpu_id s' = cpu_id s1" "kq_ok s' Q"
      using less(1)[OF _ s1(4,7) less(4,5) o] b(2) by auto
    then show ?thesis using s1(1,6) b(2) by (intro exI[of _ "Suc n"] exI[of _ s']) simp
  qed
qed

section \<open>Properties\<close>

text \<open>The number of a system call is signed and only compared with the upper bound: a negative one is looked up before the array.\<close>

lemma negative_syscall: "sint (tf_regs (trapframes s regs) ! 17) < 0 \<Longrightarrow> handle_syscall fns regs s = None"
  by (simp add: handle_syscall_def Let_def NUM_SYSCALLS_def)

lemma syscall_returns:
  assumes "tf_regs (trapframes s regs) ! 17 = of_nat k" and "k < 96" and "length fns = 96" and "fns ! k = Some f"
    and "f (take 5 (drop 10 (tf_regs (trapframes s regs)))) s = Some (Done rt, s1)"
  shows "handle_syscall fns regs s = Some (Done (), s1\<lparr>trapframes := (trapframes s1)(regs := (trapframes s1 regs)\<lparr>tf_regs := (tf_regs (trapframes s1 regs))[10 := rt]\<rparr>)\<rparr>)"
proof -
  have "sint (of_nat k :: u64) = int k" using assms(2) by (simp add: signed_of_nat signed_take_bit_int_eq_self)
  then show ?thesis using assms by (simp add: handle_syscall_def Let_def NUM_SYSCALLS_def)
qed

lemma timer_trap:
  assumes "status (cur_pcb s) \<noteq> TASK_EXITING"
  shows "interrupt_helper fns claim regs stval 0x8000000000000005 (s, n) = do { (out, s1) \<leftarrow> handle_irq_timer s; Some (out, s1, n) }"
proof -
  have c: "sint (0x8000000000000005 :: u64) < 0" "(0x8000000000000005 AND drop_bit 1 (NOT 0)) = (5 :: u64)" by code_simp+
  have h: "nth_chk irq_table 5 = Some H_irq_timer" by code_simp
  have u: "unat (5 :: u64) = 5" by simp
  show ?thesis unfolding interrupt_helper_def prod.case Let_def c(2) using assms c(1) h
    by (simp add: IRQC_COUNT_def run_handler_def)
qed

text \<open>
  C18: The timer interrupt. When it interrupts a running process and no process waits for its removal, the sleeping processes whose time has
  come and the first receivers at the card become ready, behind the interrupted process. The search begins behind it: the first process that is ready and allowed
  on this CPU gets the CPU, the interrupted process is ready again, and nothing else of any process changes. When there is none, the
  idle process goes on; another process would be a panic.
\<close>

theorem timer_preempts:
  assumes "kq_ok s Q" and "\<forall>p \<in> set (Q ReadyQ). keeps s p" and "status (cur_pcb s) = TASK_RUNNING"
  shows "\<exists>s1. kq_ok s1 (sched_queues s Q) \<and> woke (sched_woken s Q) s s1 \<and> (case next_ready s1 (sched_queues s Q) of
      Some p \<Rightarrow> \<exists>s2. interrupt_helper fns claim regs stval 0x8000000000000005 (s, n) = Some (Blocked, s2, n) \<and> kq_ok s2 (sched_queues s Q) \<and>
        p \<noteq> cur_cpu s \<and> s2 = s1\<lparr>pcbs := pcbs s2, current_running := (current_running s1)[cpu_id s1 := p]\<rparr> \<and>
        (\<forall>x. same_pcb (pcbs s2 x) (pcbs s1 x) \<and>
          status (pcbs s2 x) = (if x = p then TASK_RUNNING else if x = cur_cpu s then TASK_READY else status (pcbs s1 x)))
    | None \<Rightarrow> interrupt_helper fns claim regs stval 0x8000000000000005 (s, n) = (if pid (cur_pcb s) \<ge> int NCPU then None else Some (Done (), s1, n)))"
proof -
  have t: "interrupt_helper fns claim regs stval 0x8000000000000005 (s, n) = do { (out, s1) \<leftarrow> handle_irq_timer s; Some (out, s1, n) }"
    by (rule timer_trap) (simp add: assms(3))
  obtain s1 where s1: "kq_ok s1 (sched_queues s Q)" "woke (sched_woken s Q) s s1" "case next_ready s1 (sched_queues s Q) of
      Some p \<Rightarrow> do_scheduler s = Some (True, switch (cur_cpu s) p s1) \<and> p \<in> set (sched_queues s Q ReadyQ) \<and> p \<noteq> cur_cpu s
    | None \<Rightarrow> do_scheduler s = (if pid (cur_pcb s) \<ge> int NCPU then None else Some (False, s1))"
    using do_scheduler_spec[OF assms(1,2)] by blast
  have c: "cur_cpu s1 = cur_cpu s" by (rule woke_fields(3)[OF s1(2)])
  have cq: "cur_cpu s \<notin> sched_woken s Q"
    using qs_okD(2)[OF kq_okD(1)[OF assms(1)] _ kq_okD(2)[OF assms(1)]] by (auto simp: sched_woken_def dest: set_takeWhileD)
  then have st: "status (pcbs s1 (cur_cpu s)) = TASK_RUNNING"
    using wokeD(3)[OF s1(2), of "cur_cpu s"] assms(3) by (simp add: cur_pcb_def)
  show ?thesis
  proof (cases "next_ready s1 (sched_queues s Q)")
    case None
    then show ?thesis using s1 unfolding t by (intro exI[of _ s1]) (simp add: handle_irq_timer_def)
  next
    case (Some p)
    then have d: "do_scheduler s = Some (True, switch (cur_cpu s) p s1)" "p \<in> set (sched_queues s Q ReadyQ)" "p \<noteq> cur_cpu s" using s1(3) by simp_all
    note f = switch_fields[OF s1(1) d(2), unfolded c, OF d(3)]
    have "status (pcbs (switch (cur_cpu s) p s1) x) = (if x = p then TASK_RUNNING else if x = cur_cpu s then TASK_READY else status (pcbs s1 x))" for x
      unfolding f(4) using st by simp
    then show ?thesis using s1(1,2) Some d f(1,5,6) unfolding t
      by (intro exI[of _ s1]) (auto simp: handle_irq_timer_def intro!: exI[of _ "switch (cur_cpu s) p s1"])
  qed
qed

lemma demo_keeps: "\<forall>p \<in> set (demo_Q ReadyQ). keeps demo_ks p"
  by (simp add: demo_Q_def keeps_def demo_ks_def demo_pmem_def)

theorem timer_preempts_witness:
  "\<exists>s2. interrupt_helper [] 0 0 0 0x8000000000000005 (demo_ks, demo_nic) = Some (Blocked, s2, demo_nic) \<and> cur_cpu s2 = 0x50 \<and>
     status (pcbs s2 0x20) = TASK_READY \<and> kq_ok s2 (demo_Q(SleepQ := [], ReadyQ := [0x20, 0x50, 0x30, 0x40]))"
proof -
  have due: "due (get_timer demo_ks) demo_ks 0x50" by (simp add: due_def get_timer_def demo_ks_def demo_pmem_def)
  have Q: "sched_queues demo_ks demo_Q = demo_Q(SleepQ := [], ReadyQ := [0x20, 0x50, 0x30, 0x40])" "sched_woken demo_ks demo_Q = {0x50}"
    using due by (auto simp: sched_queues_def sched_woken_def nic_woken_def demo_Q_def demo_next fun_eq_iff)
  have r: "status (cur_pcb demo_ks) = TASK_RUNNING" by (simp add: cur_pcb_def demo_next) (simp add: demo_ks_def demo_pmem_def)
  obtain s1 where s1: "woke {0x50} demo_ks s1" "case next_ready s1 (demo_Q(SleepQ := [], ReadyQ := [0x20, 0x50, 0x30, 0x40])) of
      Some p \<Rightarrow> \<exists>s2. interrupt_helper [] 0 0 0 0x8000000000000005 (demo_ks, demo_nic) = Some (Blocked, s2, demo_nic) \<and> kq_ok s2 (demo_Q(SleepQ := [], ReadyQ := [0x20, 0x50, 0x30, 0x40])) \<and>
        p \<noteq> cur_cpu demo_ks \<and> s2 = s1\<lparr>pcbs := pcbs s2, current_running := (current_running s1)[cpu_id s1 := p]\<rparr> \<and>
        (\<forall>x. same_pcb (pcbs s2 x) (pcbs s1 x) \<and>
          status (pcbs s2 x) = (if x = p then TASK_RUNNING else if x = cur_cpu demo_ks then TASK_READY else status (pcbs s1 x)))
    | None \<Rightarrow> interrupt_helper [] 0 0 0 0x8000000000000005 (demo_ks, demo_nic) = (if pid (cur_pcb demo_ks) \<ge> int NCPU then None else Some (Done (), s1, demo_nic))"
    using timer_preempts[OF demo_kq_ok demo_keeps r, of "[]" 0 0 0 demo_nic] unfolding Q by blast
  have "can_run (cpu_id s1) (pcbs s1 0x50)"
    using wokeD(3)[OF s1(1), where x = "0x50"] same_pcb_fields(5)[OF wokeD(2)[OF s1(1), where x = "0x50"]] woke_fields(2)[OF s1(1)]
    by (simp add: can_run_def demo_ks_def demo_pmem_def)
  then have p: "next_ready s1 (demo_Q(SleepQ := [], ReadyQ := [0x20, 0x50, 0x30, 0x40])) = Some 0x50"
    using woke_fields(3)[OF s1(1)] by (simp add: next_ready_def others_def demo_next)
  obtain s2 where s2: "interrupt_helper [] 0 0 0 0x8000000000000005 (demo_ks, demo_nic) = Some (Blocked, s2, demo_nic)"
    "kq_ok s2 (demo_Q(SleepQ := [], ReadyQ := [0x20, 0x50, 0x30, 0x40]))" "s2 = s1\<lparr>pcbs := pcbs s2, current_running := (current_running s1)[cpu_id s1 := 0x50]\<rparr>"
    "\<forall>x. status (pcbs s2 x) = (if x = 0x50 then TASK_RUNNING else if x = cur_cpu demo_ks then TASK_READY else status (pcbs s1 x))"
    using s1(2) unfolding p by auto
  have "cur_cpu s2 = 0x50"
    unfolding cur_cpu_def by (subst s2(3), subst (2) s2(3)) (simp add: woke_fields(1,2)[OF s1(1)], simp add: demo_ks_def)
  then show ?thesis using s2(1,2,4) by (auto simp: demo_next)
qed

text \<open>
  C19: Every process gets its turn. While nobody is woken and nobody waits for removal, a process that is ready and allowed on this CPU
  runs after at most as many calls of the scheduler as it has places before it in the ready queue, seen from the
  running process, and one more; the queues stay as they are.
\<close>

theorem everyone_gets_a_turn:
  assumes "kq_ok s Q" and "\<forall>p \<in> set (Q ReadyQ). keeps s p" and "Q SleepQ = []" "Q NicRecvQ = []"
    and "others (cur_cpu s) (Q ReadyQ) = xs @ p # ys" and "can_run (cpu_id s) (pcbs s p)"
  shows "\<exists>n s'. n \<le> length xs \<and> sched_times (Suc n) s = Some s' \<and> cur_cpu s' = p \<and> cpu_id s' = cpu_id s \<and> kq_ok s' Q"
  by (rule turn_spec[OF assms])

definition demo_calm :: "(nat \<Rightarrow> u8 list) kstate" where
  "demo_calm = demo_ks\<lparr>heads := (heads demo_ks)(SleepQ := NULL)\<rparr>"

theorem everyone_gets_a_turn_witness:
  "\<exists>n s'. n \<le> 1 \<and> sched_times (Suc n) demo_calm = Some s' \<and> cur_cpu s' = 0x40 \<and> kq_ok s' (demo_Q(SleepQ := []))"
proof -
  have k: "kq_ok demo_calm (demo_Q(SleepQ := []))"
    by (auto simp: kq_ok_def qs_ok_def demo_calm_def demo_ks_def demo_Q_def demo_pmem_def ring_def cur_cpu_def)
  have z: "\<forall>p \<in> set ((demo_Q(SleepQ := [])) ReadyQ). keeps demo_calm p"
    by (simp add: demo_Q_def keeps_def demo_calm_def demo_ks_def demo_pmem_def)
  have o: "others (cur_cpu demo_calm) ((demo_Q(SleepQ := [])) ReadyQ) = [0x30] @ 0x40 # []" "can_run (cpu_id demo_calm) (pcbs demo_calm 0x40)"
    by (simp_all add: others_def cur_cpu_def demo_Q_def can_run_def demo_calm_def demo_ks_def demo_pmem_def)
  have e: "(demo_Q(SleepQ := [])) SleepQ = []" "(demo_Q(SleepQ := [])) NicRecvQ = []" by (simp_all add: demo_Q_def)
  obtain n s' where "n \<le> length [0x30 :: addr]" "sched_times (Suc n) demo_calm = Some s'" "cur_cpu s' = 0x40" "kq_ok s' (demo_Q(SleepQ := []))"
    using everyone_gets_a_turn[OF k z e o] by (elim exE conjE) (rule that)
  then show ?thesis by (intro exI[of _ n] exI[of _ s'] conjI) simp_all
qed

end
