(* ===== verification/Screen.thy ===== *)
theory Screen
  imports PcbTable
begin

text \<open>
  The screen (\<^verbatim>\<open>drivers/screen.c\<close>): a buffer of 50 lines of 80 characters, the copy of what the terminal shows, and the
  cursor and the scroll region of each process.

  What goes to the serial line is a list of events: the escape sequences \<^verbatim>\<open>printv\<close> sends and the characters of
  \<^verbatim>\<open>bios_putchar\<close>. \<open>term_run\<close> is a terminal that obeys them. The lemmas show that a write stays in the buffer as long as the
  scroll region does, what it changes, and that after a flush the terminal shows the buffer.
\<close>

section \<open>State\<close>

definition SCREEN_WIDTH :: int where "SCREEN_WIDTH = 80"
definition SCREEN_HEIGHT :: int where "SCREEN_HEIGHT = 50"
definition SCR_WRITE_MAX :: nat where "SCR_WRITE_MAX = 256"

definition SCREEN_LOC :: "int \<Rightarrow> int \<Rightarrow> int" where
  "SCREEN_LOC x y = y * SCREEN_WIDTH + x"

text \<open>Coordinates of the terminal start with 1.\<close>

datatype vt100 = MoveCursor int int | ClearScreen | HideCursor | ShowCursor | PutChar u8

record 'd scr =
  sk :: "'d kstate"
  new_screen :: "u8 list"
  old_screen :: "u8 list"
  serial :: "vt100 list"

definition vt100_send :: "vt100 \<Rightarrow> 'd scr \<Rightarrow> 'd scr" where
  "vt100_send e s = s\<lparr>serial := serial s @ [e]\<rparr>"

definition vt100_move_cursor :: "int \<Rightarrow> int \<Rightarrow> 'd scr \<Rightarrow> 'd scr" where
  "vt100_move_cursor x y s = vt100_send (MoveCursor x y) s"

definition vt100_clear :: "'d scr \<Rightarrow> 'd scr" where
  "vt100_clear s = vt100_send ClearScreen s"

definition vt100_hidden_cursor :: "'d scr \<Rightarrow> 'd scr" where
  "vt100_hidden_cursor s = vt100_send HideCursor s"

definition vt100_show_cursor :: "'d scr \<Rightarrow> 'd scr" where
  "vt100_show_cursor s = vt100_send ShowCursor s"

text \<open>Accesses to the arrays; outside of the array there is no result.\<close>

definition get_cell :: "u8 list \<Rightarrow> int \<Rightarrow> u8 option" where
  "get_cell m i = (if i < 0 then None else nth_chk m (nat i))"

definition set_cell :: "u8 list \<Rightarrow> int \<Rightarrow> u8 \<Rightarrow> u8 list option" where
  "set_cell m i v = (if i < 0 then None else upd_chk m (nat i) v)"

abbreviation on_pcb :: "(pcb \<Rightarrow> pcb) \<Rightarrow> 'd scr \<Rightarrow> 'd scr" where
  "on_pcb f s \<equiv> s\<lparr>sk := upd_pcb (cur_cpu (sk s)) f (sk s)\<rparr>"

section \<open>Writing\<close>

text \<open>The lines from \<open>l\<close> on move up by one, the line \<open>h\<close> becomes blank.\<close>

definition copy_line :: "int \<Rightarrow> u8 list \<Rightarrow> u8 list option" where
  "copy_line y m = for_each [0..<nat SCREEN_WIDTH] (\<lambda>x m. do {
     v \<leftarrow> get_cell m (SCREEN_LOC (int x) (y + 1)); set_cell m (SCREEN_LOC (int x) y) v }) m"

definition clear_line :: "int \<Rightarrow> u8 list \<Rightarrow> u8 list option" where
  "clear_line y m = for_each [0..<nat SCREEN_WIDTH] (\<lambda>x m. set_cell m (SCREEN_LOC (int x) y) 32) m"

definition scroll :: "int \<Rightarrow> int \<Rightarrow> u8 list \<Rightarrow> u8 list option" where
  "scroll l h m = do { m1 \<leftarrow> for_each [nat l..<nat h] (\<lambda>y. copy_line (int y)) m; clear_line h m1 }"

definition write_lf :: "'d scr \<Rightarrow> 'd scr option" where
  "write_lf s = (let
     s1 = on_pcb (\<lambda>p. p\<lparr>cursor_x := 0\<rparr>) s;
     p = cur_pcb (sk s1);
     limited = \<not> cursor_y p < SCREEN_HEIGHT - 1;
     s2 = (if cursor_y p < SCREEN_HEIGHT - 1 then on_pcb (\<lambda>p. p\<lparr>cursor_y := cursor_y p + 1\<rparr>) s1 else s1);
     q = cur_pcb (sk s2)
   in if cylim_l q \<ge> 0 \<and> cylim_h q \<ge> cylim_l q \<and> (cursor_y q > cylim_h q \<or> limited) then do {
        m \<leftarrow> scroll (cylim_l q) (cylim_h q) (new_screen s2);
        Some (on_pcb (\<lambda>p. p\<lparr>cursor_y := cylim_h q\<rparr>) (s2\<lparr>new_screen := m\<rparr>))
      } else Some s2)"

definition screen_write_ch :: "u8 \<Rightarrow> 'd scr \<Rightarrow> 'd scr option" where
  "screen_write_ch ch s = (let p = cur_pcb (sk s) in
     if ch = 10 then write_lf s
     else if ch = 8 \<or> ch = 127 then
       Some (if cursor_x p > 0 then on_pcb (\<lambda>p. p\<lparr>cursor_x := cursor_x p - 1\<rparr>) s
         else if cursor_y p > 0 then on_pcb (\<lambda>p. p\<lparr>cursor_y := cursor_y p - 1, cursor_x := SCREEN_WIDTH - 1\<rparr>) s
         else s)
     else do {
       m \<leftarrow> set_cell (new_screen s) (SCREEN_LOC (cursor_x p) (cursor_y p)) ch;
       let s1 = on_pcb (\<lambda>p. p\<lparr>cursor_x := cursor_x p + 1\<rparr>) (s\<lparr>new_screen := m\<rparr>);
       if cursor_x p + 1 \<ge> SCREEN_WIDTH then write_lf s1 else Some s1
     })"

section \<open>Flushing\<close>

text \<open>One cell; \<open>i0\<close> and \<open>j0\<close> are the last cell that was sent.\<close>

definition flush_cell :: "nat \<Rightarrow> nat \<Rightarrow> int \<times> int \<times> 'd scr \<Rightarrow> (int \<times> int \<times> 'd scr) option" where
  "flush_cell i j st = (case st of (i0, j0, s) \<Rightarrow> do {
     a \<leftarrow> get_cell (new_screen s) (SCREEN_LOC (int j) (int i));
     b \<leftarrow> get_cell (old_screen s) (SCREEN_LOC (int j) (int i));
     if a \<noteq> b then do {
       let s1 = (if \<not> (int i = i0 \<and> int j = j0 + 1) then vt100_move_cursor (int j + 1) (int i + 1) s else s);
       let s2 = vt100_send (PutChar a) s1;
       m \<leftarrow> set_cell (old_screen s2) (SCREEN_LOC (int j) (int i)) a;
       Some (int i, int j, s2\<lparr>old_screen := m\<rparr>)
     } else Some (i0, j0, s) })"

definition screen_reflush :: "'d scr \<Rightarrow> 'd scr option" where
  "screen_reflush s = do {
     (i0, j0, s1) \<leftarrow> for_each [0..<nat SCREEN_HEIGHT] (\<lambda>i. for_each [0..<nat SCREEN_WIDTH] (flush_cell i)) (-1, -2, s);
     Some (vt100_move_cursor (cursor_x (cur_pcb (sk s1)) + 1) (cursor_y (cur_pcb (sk s1)) + 1) s1)
   }"

definition screen_clear :: "'d scr \<Rightarrow> 'd scr option" where
  "screen_clear s = do {
     (m, n) \<leftarrow> for_each [0..<nat SCREEN_HEIGHT] (\<lambda>i. for_each [0..<nat SCREEN_WIDTH] (\<lambda>j (m, n). do {
       m1 \<leftarrow> set_cell m (SCREEN_LOC (int j) (int i)) 32; n1 \<leftarrow> set_cell n (SCREEN_LOC (int j) (int i)) 32; Some (m1, n1) }))
       (new_screen s, old_screen s);
     screen_reflush (on_pcb (\<lambda>p. p\<lparr>cursor_x := 0, cursor_y := 0\<rparr>) ((vt100_clear s)\<lparr>new_screen := m, old_screen := n\<rparr>))
   }"

definition init_screen :: "'d scr \<Rightarrow> 'd scr option" where
  "init_screen s = do { s1 \<leftarrow> screen_clear (vt100_hidden_cursor s); Some (vt100_show_cursor s1) }"

definition screen_rclear :: "int \<Rightarrow> int \<Rightarrow> 'd scr \<Rightarrow> 'd scr option" where
  "screen_rclear ybegin yend s = do {
     m \<leftarrow> (if ybegin \<ge> 0 \<and> ybegin < SCREEN_HEIGHT \<and> yend \<ge> 0 \<and> yend < SCREEN_HEIGHT
       then for_each [nat ybegin..<nat yend] (\<lambda>y. clear_line (int y)) (new_screen s) else Some (new_screen s));
     screen_reflush (s\<lparr>new_screen := m\<rparr>)
   }"

definition screen_move_cursor :: "int \<Rightarrow> int \<Rightarrow> 'd scr \<Rightarrow> 'd scr" where
  "screen_move_cursor x y s = (let
     x1 = (if x \<ge> SCREEN_WIDTH then SCREEN_WIDTH - 1 else if x < 0 then 0 else x);
     y1 = (if y \<ge> SCREEN_HEIGHT then SCREEN_HEIGHT - 1 else if y < 0 then 0 else y)
   in vt100_move_cursor (x1 + 1) (y1 + 1) (on_pcb (\<lambda>p. p\<lparr>cursor_x := x1, cursor_y := y1\<rparr>) s))"

fun write_chars :: "u8 list \<Rightarrow> 'd scr \<Rightarrow> 'd scr option" where
  "write_chars [] s = Some s"
| "write_chars (c # cs) s = do { s1 \<leftarrow> screen_write_ch c s; write_chars cs s1 }"

definition screen_write :: "u8 list \<Rightarrow> nat \<Rightarrow> 'd scr \<Rightarrow> (nat \<times> 'd scr) option" where
  "screen_write buff len s = (let n = (if len > SCR_WRITE_MAX then SCR_WRITE_MAX else len) in
     if n > length buff then None
     else do { s1 \<leftarrow> write_chars (take n buff) s; s2 \<leftarrow> screen_reflush s1; Some (n, s2) })"

definition do_screen_write :: "u64 \<Rightarrow> u8 list \<Rightarrow> nat \<Rightarrow> 'd scr \<Rightarrow> (nat \<times> 'd scr) option" where
  "do_screen_write a buff len s = (if a \<ge> KVA_MIN then Some (0, s) else screen_write buff len s)"

definition screen_set_cylim :: "int \<Rightarrow> int \<Rightarrow> 'd scr \<Rightarrow> 'd scr" where
  "screen_set_cylim l h s = on_pcb (\<lambda>p. p\<lparr>cylim_h := h\<rparr>) (on_pcb (\<lambda>p. p\<lparr>cylim_l := l\<rparr>) s)"

section \<open>The buffer\<close>

text \<open>The character in column \<open>x\<close> of line \<open>y\<close>.\<close>

definition cell :: "u8 list \<Rightarrow> nat \<Rightarrow> nat \<Rightarrow> u8" where
  "cell m x y = m ! (80 * y + x)"

lemma loc: "SCREEN_LOC (int x) (int y) = int (80 * y + x)"
  by (simp add: SCREEN_LOC_def SCREEN_WIDTH_def)

lemma loc_less: "x < 80 \<Longrightarrow> y < 50 \<Longrightarrow> 80 * y + x < 4000" for x y :: nat
  by simp

lemma loc_inj: "x < 80 \<Longrightarrow> x' < 80 \<Longrightarrow> 80 * y + x = 80 * y' + x' \<longleftrightarrow> x = x' \<and> y = y'" for x y :: nat
proof -
  assume x: "x < 80" "x' < 80"
  have "(80 * y + x) div 80 = y" "(80 * y + x) mod 80 = x" "(80 * y' + x') div 80 = y'" "(80 * y' + x') mod 80 = x'" using x by auto
  then show ?thesis by metis
qed

lemma get_cell_int: "k < length m \<Longrightarrow> get_cell m (int k) = Some (m ! k)"
  by (simp add: get_cell_def)

lemma set_cell_int: "k < length m \<Longrightarrow> set_cell m (int k) v = Some (m[k := v])"
  by (simp add: set_cell_def)

lemma cells:
  assumes "length m = 4000" and "x < 80" and "y < 50"
  shows "get_cell m (SCREEN_LOC (int x) (int y)) = Some (cell m x y)" "set_cell m (SCREEN_LOC (int x) (int y)) v = Some (m[80 * y + x := v])"
  using assms by (simp_all add: cell_def loc get_cell_int set_cell_int del: of_nat_add of_nat_mult)

lemma cell_upd:
  assumes "length m = 4000" and "x < 80" and "y < 50" and "a < 80" and "b < 50"
  shows "cell (m[80 * y + x := v]) a b = (if a = x \<and> b = y then v else cell m a b)"
  using assms loc_inj[of x a y b] by (auto simp: cell_def nth_list_update)

lemma for_each_range:
  assumes "\<And>k s. a \<le> k \<Longrightarrow> k < b \<Longrightarrow> I k s \<Longrightarrow> \<exists>s'. f k s = Some s' \<and> I (Suc k) s'" and "I a s" and "a \<le> b"
  shows "\<exists>s'. for_each [a..<b] f s = Some s' \<and> I b s'"
  using assms
proof (induction "b - a" arbitrary: a s)
  case 0
  then show ?case by simp
next
  case (Suc n)
  have ab: "a < b" using Suc(2) by simp
  then have u: "[a..<b] = a # [Suc a..<b]" by (simp add: upt_conv_Cons)
  obtain s1 where s1: "f a s = Some s1" "I (Suc a) s1" using Suc(3)[OF order_refl ab Suc(4)] by blast
  have "\<exists>s'. for_each [Suc a..<b] f s1 = Some s' \<and> I b s'"
    by (rule Suc(1)) (use Suc(2,3) s1(2) ab in auto)
  then show ?case unfolding u using s1(1) by simp
qed

lemma copy_line_spec:
  assumes "length m = 4000" and "y < 49"
  shows "\<exists>m'. copy_line (int y) m = Some m' \<and> length m' = 4000 \<and>
    (\<forall>a < 80. \<forall>b < 50. cell m' a b = (if b = y then cell m a (Suc y) else cell m a b))"
proof -
  let ?I = "\<lambda>k m'. length m' = 4000 \<and> (\<forall>a < 80. \<forall>b < 50. cell m' a b = (if b = y \<and> a < k then cell m a (Suc y) else cell m a b))"
  have "\<exists>m'. for_each [0..<80] (\<lambda>x m. do { v \<leftarrow> get_cell m (SCREEN_LOC (int x) (int y + 1)); set_cell m (SCREEN_LOC (int x) (int y)) v }) m = Some m' \<and> ?I 80 m'"
  proof (rule for_each_range[where I = ?I])
    fix k m' assume k: "k < 80" and I: "?I k m'"
    have "get_cell m' (SCREEN_LOC (int k) (int y + 1)) = Some (cell m' k (Suc y))" using cells(1)[of m' k "Suc y"] I k assms(2) by (simp add: add.commute)
    moreover have "?I (Suc k) (m'[80 * y + k := cell m' k (Suc y)])"
      using I k assms(2) by (auto simp: cell_upd less_Suc_eq)
    ultimately show "\<exists>s'. (do { v \<leftarrow> get_cell m' (SCREEN_LOC (int k) (int y + 1)); set_cell m' (SCREEN_LOC (int k) (int y)) v }) = Some s' \<and> ?I (Suc k) s'"
      using cells(2)[of m' k y] I k assms(2) by simp
  qed (use assms in simp_all)
  then show ?thesis by (simp add: copy_line_def SCREEN_WIDTH_def)
qed

lemma clear_line_spec:
  assumes "length m = 4000" and "y < 50"
  shows "\<exists>m'. clear_line (int y) m = Some m' \<and> length m' = 4000 \<and> (\<forall>a < 80. \<forall>b < 50. cell m' a b = (if b = y then 32 else cell m a b))"
proof -
  let ?I = "\<lambda>k m'. length m' = 4000 \<and> (\<forall>a < 80. \<forall>b < 50. cell m' a b = (if b = y \<and> a < k then 32 else cell m a b))"
  have "\<exists>m'. for_each [0..<80] (\<lambda>x m. set_cell m (SCREEN_LOC (int x) (int y)) 32) m = Some m' \<and> ?I 80 m'"
  proof (rule for_each_range[where I = ?I])
    fix k m' assume k: "k < 80" and I: "?I k m'"
    have "?I (Suc k) (m'[80 * y + k := 32])" using I k assms(2) by (auto simp: cell_upd less_Suc_eq)
    then show "\<exists>s'. set_cell m' (SCREEN_LOC (int k) (int y)) 32 = Some s' \<and> ?I (Suc k) s'" using cells(2)[of m' k y] I k assms(2) by simp
  qed (use assms in simp_all)
  then show ?thesis by (simp add: clear_line_def SCREEN_WIDTH_def)
qed

text \<open>Scrolling moves the lines of the region up.\<close>

lemma scroll_spec:
  assumes "length m = 4000" and "0 \<le> l" and "l \<le> h" and "h < 50"
  shows "\<exists>m'. scroll l h m = Some m' \<and> length m' = 4000 \<and>
    (\<forall>a < 80. \<forall>b < 50. cell m' a b = (if int b = h then 32 else if l \<le> int b \<and> int b < h then cell m a (Suc b) else cell m a b))"
proof -
  let ?I = "\<lambda>k m'. length m' = 4000 \<and> (\<forall>a < 80. \<forall>b < 50. cell m' a b = (if nat l \<le> b \<and> b < k then cell m a (Suc b) else cell m a b))"
  have "\<exists>m'. for_each [nat l..<nat h] (\<lambda>y. copy_line (int y)) m = Some m' \<and> ?I (nat h) m'"
  proof (rule for_each_range[where I = ?I])
    fix k m' assume k: "nat l \<le> k" "k < nat h" and I: "?I k m'"
    then have k49: "k < 49" using assms(4) by linarith
    then obtain m2 where m2: "copy_line (int k) m' = Some m2" "length m2 = 4000" "\<forall>a < 80. \<forall>b < 50. cell m2 a b = (if b = k then cell m' a (Suc k) else cell m' a b)"
      using copy_line_spec[of m' k] I by blast
    moreover have "?I (Suc k) m2" using m2(2,3) I k k49 by (auto simp: less_Suc_eq)
    ultimately show "\<exists>s'. copy_line (int k) m' = Some s' \<and> ?I (Suc k) s'" by blast
  qed (use assms in auto)
  then obtain m1 where m1: "for_each [nat l..<nat h] (\<lambda>y. copy_line (int y)) m = Some m1" "?I (nat h) m1" by blast
  have h50: "nat h < 50" using assms by linarith
  obtain m2 where m2: "clear_line h m1 = Some m2" "length m2 = 4000" "\<forall>a < 80. \<forall>b < 50. cell m2 a b = (if b = nat h then 32 else cell m1 a b)"
    using clear_line_spec[of m1 "nat h"] m1(2) assms h50 by auto
  have "scroll l h m = Some m2" using m1(1) m2(1) by (simp add: scroll_def)
  moreover have "cell m2 a b = (if int b = h then 32 else if l \<le> int b \<and> int b < h then cell m a (Suc b) else cell m a b)" if "a < 80" "b < 50" for a b
    using m1(2) m2(3) that assms by (auto simp: nat_le_iff zless_nat_eq_int_zless)
  ultimately show ?thesis using m2(2) by blast
qed


lemma scroll_outside: "length m = 4000 \<Longrightarrow> scroll 49 50 m = None"
proof -
  assume "length m = 4000"
  then have "get_cell m (SCREEN_LOC 0 50) = None" by (simp add: get_cell_def SCREEN_LOC_def SCREEN_WIDTH_def nth_chk_def)
  moreover have "[0..<nat SCREEN_WIDTH] = 0 # [1..<80]" by (simp add: SCREEN_WIDTH_def upt_rec)
  ultimately show ?thesis by (simp add: scroll_def copy_line_def)
qed

section \<open>A window of text\<close>

text \<open>
  What a process may expect of its screen: lines of text, a cursor and, when \<open>0 \<le> top \<le> bot\<close>, a region that is scrolled
  when the text goes below it.
\<close>

record win =
  rows :: "u8 list list"
  wx :: int
  wy :: int
  top :: int
  bot :: int

definition roll :: "nat \<Rightarrow> nat \<Rightarrow> u8 list list \<Rightarrow> u8 list list" where
  "roll t b R = take t R @ drop (Suc t) (take (Suc b) R) @ replicate 80 32 # drop (Suc b) R"

definition newline :: "win \<Rightarrow> win" where
  "newline w = (if 0 \<le> top w \<and> top w \<le> bot w \<and> bot w \<le> wy w
     then w\<lparr>rows := roll (nat (top w)) (nat (bot w)) (rows w), wx := 0, wy := bot w\<rparr>
     else w\<lparr>wx := 0, wy := min (wy w + 1) 49\<rparr>)"

definition backspace :: "win \<Rightarrow> win" where
  "backspace w = (if 0 < wx w then w\<lparr>wx := wx w - 1\<rparr> else if 0 < wy w then w\<lparr>wx := 79, wy := wy w - 1\<rparr> else w)"

definition put :: "u8 \<Rightarrow> win \<Rightarrow> win" where
  "put c w = (let w1 = w\<lparr>rows := (rows w)[nat (wy w) := (rows w ! nat (wy w))[nat (wx w) := c]]\<rparr>
     in if wx w = 79 then newline w1 else w1\<lparr>wx := wx w + 1\<rparr>)"

definition type_char :: "u8 \<Rightarrow> win \<Rightarrow> win" where
  "type_char c w = (if c = 10 then newline w else if c = 8 \<or> c = 127 then backspace w else put c w)"

text \<open>The window the buffer stands for.\<close>

definition text_of :: "u8 list \<Rightarrow> u8 list list" where
  "text_of m = map (\<lambda>y. map (\<lambda>x. cell m x y) [0..<80]) [0..<50]"

definition view :: "'d scr \<Rightarrow> win" where
  "view s = (let p = cur_pcb (sk s) in
     \<lparr>rows = text_of (new_screen s), wx = cursor_x p, wy = cursor_y p, top = cylim_l p, bot = cylim_h p\<rparr>)"

definition scr_ok :: "'d scr \<Rightarrow> bool" where
  "scr_ok s \<longleftrightarrow> (let p = cur_pcb (sk s) in length (new_screen s) = 4000 \<and> length (old_screen s) = 4000 \<and>
     0 \<le> cursor_x p \<and> cursor_x p < 80 \<and> 0 \<le> cursor_y p \<and> cursor_y p < 50 \<and> cylim_h p < 50)"

lemma text_of_simps: "length (text_of m) = 50" "y < 50 \<Longrightarrow> text_of m ! y = map (\<lambda>x. cell m x y) [0..<80]"
  by (simp_all add: text_of_def)

lemma text_ofI:
  assumes "length R = 50" and "\<And>b. b < 50 \<Longrightarrow> length (R ! b) = 80" and "\<And>a b. a < 80 \<Longrightarrow> b < 50 \<Longrightarrow> cell m a b = R ! b ! a"
  shows "text_of m = R"
proof (rule nth_equalityI)
  show "length (text_of m) = length R" using assms(1) by (simp add: text_of_simps)
  fix b assume "b < length (text_of m)"
  then have b: "b < 50" by (simp add: text_of_simps)
  show "text_of m ! b = R ! b" unfolding text_of_simps(2)[OF b]
    by (rule nth_equalityI) (use assms b in auto)
qed

lemma text_of_upd:
  assumes "length m = 4000" and "x < 80" and "y < 50"
  shows "text_of (m[80 * y + x := v]) = (text_of m)[y := (text_of m ! y)[x := v]]"
proof (rule text_ofI)
  fix a b :: nat assume "a < 80" "b < 50"
  then show "cell (m[80 * y + x := v]) a b = (text_of m)[y := (text_of m ! y)[x := v]] ! b ! a"
    using assms by (auto simp: cell_upd text_of_simps nth_list_update)
qed (use assms in \<open>auto simp: text_of_simps nth_list_update\<close>)

lemma roll_nth:
  assumes "length R = 50" and "t \<le> b" and "b < 50" and "k < 50"
  shows "length (roll t b R) = 50" "roll t b R ! k = (if k = b then replicate 80 32 else if t \<le> k \<and> k < b then R ! Suc k else R ! k)"
  using assms by (auto simp: roll_def nth_append nth_Cons' min_def)

lemma scroll_rows:
  assumes "length m = 4000" and "0 \<le> l" and "l \<le> h" and "h < 50"
  shows "\<exists>m'. scroll l h m = Some m' \<and> length m' = 4000 \<and> text_of m' = roll (nat l) (nat h) (text_of m)"
proof -
  obtain m' where m': "scroll l h m = Some m'" "length m' = 4000"
    "\<forall>a < 80. \<forall>b < 50. cell m' a b = (if int b = h then 32 else if l \<le> int b \<and> int b < h then cell m a (Suc b) else cell m a b)"
    using scroll_spec[OF assms] by blast
  have t: "length (text_of m) = 50" "nat l \<le> nat h" "nat h < 50" using assms by (auto simp: text_of_simps)
  note r = roll_nth[OF t]
  have "text_of m' = roll (nat l) (nat h) (text_of m)"
  proof (rule text_ofI)
    fix b :: nat assume b: "b < 50"
    show "length (roll (nat l) (nat h) (text_of m) ! b) = 80" using r(2)[OF b] b t(3) by (auto simp: text_of_simps)
    fix a :: nat assume a: "a < 80"
    have q: "int b = h \<longleftrightarrow> b = nat h" "l \<le> int b \<longleftrightarrow> nat l \<le> b" "int b < h \<longleftrightarrow> b < nat h" using assms by auto
    show "cell m' a b = roll (nat l) (nat h) (text_of m) ! b ! a"
      using m'(3)[rule_format, OF a b] a b t(3) unfolding r(2)[OF b] q by (auto simp: text_of_simps)
  qed (use r(1)[of 0] in auto)
  then show ?thesis using m'(1,2) by blast
qed

section \<open>Writing refines the window\<close>

lemma on_pcb_simps:
  "cur_pcb (upd_pcb p f k) = (if p = cur_cpu k then f (cur_pcb k) else cur_pcb k)" "cur_cpu (upd_pcb p f k) = cur_cpu k"
  by (simp_all add: cur_pcb_def upd_pcb_def cur_cpu_def)

lemma write_lf_spec:
  assumes "length (new_screen s) = 4000" and "length (old_screen s) = 4000" and "0 \<le> cursor_y (cur_pcb (sk s))"
    and "cursor_y (cur_pcb (sk s)) < 50" and "cylim_h (cur_pcb (sk s)) < 50"
  shows "\<exists>s'. write_lf s = Some s' \<and> scr_ok s' \<and> view s' = newline (view s) \<and> old_screen s' = old_screen s \<and> serial s' = serial s"
proof -
  let ?p = "cur_pcb (sk s)"
  define s2 where "s2 = (if cursor_y ?p < 49 then on_pcb (\<lambda>p. p\<lparr>cursor_y := cursor_y p + 1\<rparr>) (on_pcb (\<lambda>p. p\<lparr>cursor_x := 0\<rparr>) s)
     else on_pcb (\<lambda>p. p\<lparr>cursor_x := 0\<rparr>) s)"
  have s2: "cur_pcb (sk s2) = ?p\<lparr>cursor_x := 0, cursor_y := min (cursor_y ?p + 1) 49\<rparr>" "new_screen s2 = new_screen s"
    "old_screen s2 = old_screen s" "serial s2 = serial s"
    using assms(4) by (auto simp: s2_def on_pcb_simps)
  have w: "write_lf s = (if 0 \<le> cylim_l ?p \<and> cylim_l ?p \<le> cylim_h ?p \<and> cylim_h ?p \<le> cursor_y ?p then do {
        m \<leftarrow> scroll (cylim_l ?p) (cylim_h ?p) (new_screen s2);
        Some (on_pcb (\<lambda>p. p\<lparr>cursor_y := cylim_h ?p\<rparr>) (s2\<lparr>new_screen := m\<rparr>))
      } else Some s2)"
    using assms(4,5) s2(1) unfolding write_lf_def Let_def SCREEN_HEIGHT_def by (auto simp: on_pcb_simps s2_def)
  show ?thesis
  proof (cases "0 \<le> cylim_l ?p \<and> cylim_l ?p \<le> cylim_h ?p \<and> cylim_h ?p \<le> cursor_y ?p")
    case True
    obtain m' where "scroll (cylim_l ?p) (cylim_h ?p) (new_screen s) = Some m'" "length m' = 4000"
      "text_of m' = roll (nat (cylim_l ?p)) (nat (cylim_h ?p)) (text_of (new_screen s))"
      using scroll_rows[OF assms(1), of "cylim_l ?p" "cylim_h ?p"] True assms(5) by blast
    then show ?thesis using True assms s2 unfolding w
      by (simp add: scr_ok_def view_def newline_def Let_def on_pcb_simps)
  next
    case False
    then show ?thesis using assms s2 unfolding w
      by (auto simp: scr_ok_def view_def newline_def Let_def)
  qed
qed

lemma screen_write_ch_spec:
  assumes "scr_ok s"
  shows "\<exists>s'. screen_write_ch c s = Some s' \<and> scr_ok s' \<and> view s' = type_char c (view s) \<and> old_screen s' = old_screen s \<and> serial s' = serial s"
proof -
  let ?p = "cur_pcb (sk s)"
  have ok: "length (new_screen s) = 4000" "length (old_screen s) = 4000" "0 \<le> cursor_x ?p" "cursor_x ?p < 80"
    "0 \<le> cursor_y ?p" "cursor_y ?p < 50" "cylim_h ?p < 50" using assms by (auto simp: scr_ok_def Let_def)
  consider "c = 10" | "c \<noteq> 10" "c = 8 \<or> c = 127" | "c \<noteq> 10" "\<not> (c = 8 \<or> c = 127)" by blast
  then show ?thesis
  proof cases
    case 1
    then show ?thesis using write_lf_spec[OF ok(1,2,5,6,7)] by (simp add: screen_write_ch_def type_char_def Let_def)
  next
    case 2
    then show ?thesis using ok
      by (auto simp: screen_write_ch_def type_char_def Let_def backspace_def view_def scr_ok_def on_pcb_simps SCREEN_WIDTH_def)
  next
    case 3
    let ?x = "nat (cursor_x ?p)" and ?y = "nat (cursor_y ?p)"
    define m where "m = (new_screen s)[80 * ?y + ?x := c]"
    define s1 where "s1 = on_pcb (\<lambda>p. p\<lparr>cursor_x := cursor_x p + 1\<rparr>) (s\<lparr>new_screen := m\<rparr>)"
    have "set_cell (new_screen s) (SCREEN_LOC (cursor_x ?p) (cursor_y ?p)) c = Some m"
      using cells(2)[OF ok(1), of ?x ?y c] ok by (simp add: m_def)
    then have w: "screen_write_ch c s = (if cursor_x ?p = 79 then write_lf s1 else Some s1)"
      using 3 ok(4) by (auto simp: screen_write_ch_def Let_def s1_def SCREEN_WIDTH_def)
    have m: "length m = 4000" "text_of m = (text_of (new_screen s))[?y := (text_of (new_screen s) ! ?y)[?x := c]]"
      using text_of_upd[OF ok(1), of ?x ?y c] ok by (auto simp: m_def)
    have s1: "cur_pcb (sk s1) = ?p\<lparr>cursor_x := cursor_x ?p + 1\<rparr>" "new_screen s1 = m" "old_screen s1 = old_screen s" "serial s1 = serial s"
      by (simp_all add: s1_def on_pcb_simps)
    show ?thesis
    proof (cases "cursor_x ?p = 79")
      case True
      have "newline (view s1) = put c (view s)" using True m(2) by (simp add: put_def view_def s1 Let_def newline_def)
      then show ?thesis using True 3 write_lf_spec[of s1] ok m(1) unfolding w by (simp add: s1 type_char_def)
    next
      case False
      then show ?thesis using 3 ok m unfolding w
        by (simp add: s1 type_char_def put_def view_def Let_def scr_ok_def)
    qed
  qed
qed

lemma write_chars_spec:
  "scr_ok s \<Longrightarrow> \<exists>s'. write_chars cs s = Some s' \<and> scr_ok s' \<and> view s' = fold type_char cs (view s) \<and> old_screen s' = old_screen s \<and> serial s' = serial s"
proof (induction cs arbitrary: s)
  case (Cons c cs)
  obtain s1 where s1: "screen_write_ch c s = Some s1" "scr_ok s1" "view s1 = type_char c (view s)" "old_screen s1 = old_screen s" "serial s1 = serial s"
    using screen_write_ch_spec[OF Cons(2)] by blast
  then show ?case using Cons(1)[OF s1(2)] by simp
qed simp

section \<open>The terminal\<close>

text \<open>
  A terminal of 80 columns and 50 lines. After the last column the position of the cursor is not known, and what it does
  with a character that is not printable is left open: then there is no result.
\<close>

record terminal =
  tcell :: "nat \<Rightarrow> nat \<Rightarrow> u8"
  tpos :: "(nat \<times> nat) option"

definition printable :: "u8 \<Rightarrow> bool" where
  "printable c \<longleftrightarrow> 32 \<le> c \<and> c < 127"

definition term_step :: "vt100 \<Rightarrow> terminal \<Rightarrow> terminal option" where
  "term_step e t = (case e of
     MoveCursor x y \<Rightarrow> if 1 \<le> x \<and> x \<le> 80 \<and> 1 \<le> y \<and> y \<le> 50 then Some (t\<lparr>tpos := Some (nat (x - 1), nat (y - 1))\<rparr>) else None
   | ClearScreen \<Rightarrow> Some (t\<lparr>tcell := (\<lambda>_ _. 32)\<rparr>)
   | HideCursor \<Rightarrow> Some t
   | ShowCursor \<Rightarrow> Some t
   | PutChar c \<Rightarrow> (case tpos t of None \<Rightarrow> None | Some (x, y) \<Rightarrow> if printable c
       then Some (t\<lparr>tcell := (tcell t)(x := (tcell t x)(y := c)), tpos := (if x + 1 < 80 then Some (x + 1, y) else None)\<rparr>)
       else None))"

fun term_run :: "vt100 list \<Rightarrow> terminal \<Rightarrow> terminal option" where
  "term_run [] t = Some t"
| "term_run (e # es) t = do { t1 \<leftarrow> term_step e t; term_run es t1 }"

definition shows_text :: "terminal \<Rightarrow> u8 list list \<Rightarrow> bool" where
  "shows_text t R \<longleftrightarrow> (\<forall>x < 80. \<forall>y < 50. tcell t x y = R ! y ! x)"

lemma term_run_append: "term_run (es @ ds) t = do { t1 \<leftarrow> term_run es t; term_run ds t1 }"
proof (induction es arbitrary: t)
  case (Cons e es)
  then show ?case by (cases "term_step e t") auto
qed simp

lemma shows_cell: "shows_text t (text_of m) \<longleftrightarrow> (\<forall>x < 80. \<forall>y < 50. tcell t x y = cell m x y)"
  by (simp add: shows_text_def text_of_simps)

section \<open>Flushing\<close>

text \<open>What the loops of the flush keep: the cells before the place they have reached are sent.\<close>

definition sent :: "bool \<Rightarrow> 'd scr \<Rightarrow> terminal \<Rightarrow> nat \<Rightarrow> nat \<Rightarrow> int \<times> int \<times> 'd scr \<Rightarrow> bool" where
  "sent P s t i k st = (case st of (i0, j0, s') \<Rightarrow>
     length (old_screen s') = 4000 \<and>
     (\<forall>a < 80. \<forall>b < 50. cell (old_screen s') a b = cell (if b < i \<or> b = i \<and> a < k then new_screen s else old_screen s) a b) \<and>
     (\<exists>es. s' = s\<lparr>old_screen := old_screen s', serial := serial s @ es\<rparr> \<and> (P \<longrightarrow> (\<exists>t'. term_run es t = Some t' \<and> shows_text t' (text_of (old_screen s')) \<and>
       (i0 = -1 \<or> (\<exists>a b. i0 = int b \<and> j0 = int a \<and> tpos t' = (if a + 1 < 80 then Some (a + 1, b) else None)))))))"

lemma flush_cell_spec:
  assumes "length (new_screen s) = 4000" and "P \<Longrightarrow> \<forall>c \<in> set (new_screen s). printable c" and "i < 50" and "k < 80" and "sent P s t i k st"
  shows "\<exists>st'. flush_cell i k st = Some st' \<and> sent P s t i (Suc k) st'"
proof -
  obtain i0 j0 s' where st: "st = (i0, j0, s')" by (cases st) auto
  obtain es t' where I: "length (old_screen s') = 4000"
    "\<And>a b. a < 80 \<Longrightarrow> b < 50 \<Longrightarrow> cell (old_screen s') a b = cell (if b < i \<or> b = i \<and> a < k then new_screen s else old_screen s) a b"
    "s' = s\<lparr>old_screen := old_screen s', serial := serial s @ es\<rparr>" "P \<Longrightarrow> term_run es t = Some t'" "P \<Longrightarrow> shows_text t' (text_of (old_screen s'))"
    "P \<Longrightarrow> i0 = -1 \<or> (\<exists>a b. i0 = int b \<and> j0 = int a \<and> tpos t' = (if a + 1 < 80 then Some (a + 1, b) else None))"
    using assms(5) unfolding sent_def st by (cases P) auto
  let ?o = "old_screen s'" and ?c = "cell (new_screen s) k i"
  have n: "new_screen s' = new_screen s" "serial s' = serial s @ es" by (subst I(3), simp)+
  have g: "get_cell (new_screen s') (SCREEN_LOC (int k) (int i)) = Some ?c" "get_cell ?o (SCREEN_LOC (int k) (int i)) = Some (cell ?o k i)"
    using cells(1)[OF assms(1,4,3)] cells(1)[OF I(1) assms(4,3)] n by simp_all
  have next_row: "cell (if b < i \<or> b = i \<and> a < Suc k then new_screen s else old_screen s) a b = (if a = k \<and> b = i then ?c
      else cell (if b < i \<or> b = i \<and> a < k then new_screen s else old_screen s) a b)" for a b
    by (auto simp: less_Suc_eq)
  show ?thesis
  proof (cases "?c = cell ?o k i")
    case True
    have "flush_cell i k st = Some st" by (simp add: flush_cell_def st g True)
    moreover have "sent P s t i (Suc k) st" unfolding sent_def st prod.case next_row
      using I True assms(3,4) by (intro conjI exI[of _ es] exI[of _ t']) auto
    ultimately show ?thesis by blast
  next
    case False
    define ms where "ms = (if \<not> (int i = i0 \<and> int k = j0 + 1) then [MoveCursor (int k + 1) (int i + 1)] else [])"
    define o' where "o' = ?o[80 * i + k := ?c]"
    define s2 where "s2 = s\<lparr>old_screen := o', serial := serial s @ (es @ ms @ [PutChar ?c])\<rparr>"
    have o': "set_cell ?o (SCREEN_LOC (int k) (int i)) ?c = Some o'" "length o' = 4000"
      "\<And>a b. a < 80 \<Longrightarrow> b < 50 \<Longrightarrow> cell o' a b = (if a = k \<and> b = i then ?c else cell ?o a b)"
      using cells(2)[OF I(1) assms(4,3)] cell_upd[OF I(1) assms(4,3)] I(1) by (simp_all add: o'_def)
    have "vt100_send (PutChar ?c) (if \<not> (int i = i0 \<and> int k = j0 + 1) then vt100_move_cursor (int k + 1) (int i + 1) s' else s')
        = s'\<lparr>serial := serial s @ (es @ ms @ [PutChar ?c])\<rparr>"
      by (simp add: vt100_send_def vt100_move_cursor_def ms_def n)
    moreover have "s'\<lparr>serial := serial s @ (es @ ms @ [PutChar ?c])\<rparr>\<lparr>old_screen := o'\<rparr> = s2"
      by (subst I(3)) (simp add: s2_def)
    ultimately have f: "flush_cell i k st = Some (int i, int k, s2)"
      using False o'(1) by (simp add: flush_cell_def st g Let_def)
    have "\<exists>t2. term_run (es @ ms @ [PutChar ?c]) t = Some t2 \<and> shows_text t2 (text_of o') \<and> tpos t2 = (if k + 1 < 80 then Some (k + 1, i) else None)" if P
    proof -
      have "\<exists>t1. term_run ms t' = Some t1 \<and> tpos t1 = Some (k, i) \<and> tcell t1 = tcell t'"
      proof (cases "int i = i0 \<and> int k = j0 + 1")
        case True
        then have "tpos t' = Some (k, i)" using I(6)[OF that] assms(4) by auto
        then show ?thesis using True by (simp add: ms_def)
      next
        case False
        then show ?thesis using assms(3,4)
          by (intro exI[of _ "t'\<lparr>tpos := Some (k, i)\<rparr>"]) (auto simp: ms_def term_step_def)
      qed
      then obtain t1 where t1: "term_run ms t' = Some t1" "tpos t1 = Some (k, i)" "tcell t1 = tcell t'" by blast
      have "printable ?c" using assms(1) assms(2)[OF that] loc_less[OF assms(4,3)] by (simp add: cell_def)
      moreover define t2 where "t2 = t1\<lparr>tcell := (tcell t')(k := (tcell t' k)(i := ?c)), tpos := (if k + 1 < 80 then Some (k + 1, i) else None)\<rparr>"
      ultimately have t2: "term_step (PutChar ?c) t1 = Some t2" "tcell t2 = (tcell t')(k := (tcell t' k)(i := ?c))"
        "tpos t2 = (if k + 1 < 80 then Some (k + 1, i) else None)" using t1 by (auto simp: term_step_def)
      have "term_run (es @ ms @ [PutChar ?c]) t = Some t2" using I(4)[OF that] t1(1) t2(1) by (simp add: term_run_append)
      moreover have "shows_text t2 (text_of o')" using I(5)[OF that] t2(2) o'(3) by (simp add: shows_cell)
      ultimately show ?thesis using t2(3) by blast
    qed
    moreover have "cell o' a b = cell (if b < i \<or> b = i \<and> a < Suc k then new_screen s else old_screen s) a b" if "a < 80" "b < 50" for a b
      unfolding next_row using o'(3)[OF that] I(2)[OF that] by simp
    moreover have "s2 = s\<lparr>old_screen := old_screen s2, serial := serial s @ (es @ ms @ [PutChar ?c])\<rparr>" "old_screen s2 = o'" by (simp_all add: s2_def)
    ultimately have "sent P s t i (Suc k) (int i, int k, s2)"
      using o'(2) unfolding sent_def prod.case by blast
    then show ?thesis using f by blast
  qed
qed

lemma flush_loop:
  assumes "length (new_screen s) = 4000" and "P \<Longrightarrow> \<forall>c \<in> set (new_screen s). printable c" and "length (old_screen s) = 4000"
    and "P \<Longrightarrow> shows_text t (text_of (old_screen s))"
  shows "\<exists>st'. for_each [0..<50] (\<lambda>i. for_each [0..<80] (flush_cell i)) (-1, -2, s) = Some st' \<and> sent P s t 50 0 st'"
proof (rule for_each_inv[where I = "\<lambda>i st. sent P s t i 0 st"])
  fix i st assume i: "i < 50" and I: "sent P s t i 0 st"
  have "\<exists>st'. for_each [0..<80] (flush_cell i) st = Some st' \<and> sent P s t i 80 st'"
    by (rule for_each_inv[where I = "sent P s t i"]) (use flush_cell_spec[OF assms(1,2) i] I in blast)+
  moreover have "sent P s t i 80 st' = sent P s t (Suc i) 0 st'" for st'
    by (auto simp: sent_def less_Suc_eq)
  ultimately show "\<exists>st'. for_each [0..<80] (flush_cell i) st = Some st' \<and> sent P s t (Suc i) 0 st'" by simp
next
  show "sent P s t 0 0 (-1, -2, s)" using assms(3,4) by (auto simp: sent_def intro!: exI[of _ "[]"])
qed

lemma screen_reflush_spec:
  assumes "scr_ok s" and "P \<Longrightarrow> (\<forall>c \<in> set (new_screen s). printable c) \<and> shows_text t (text_of (old_screen s))"
  shows "\<exists>es. screen_reflush s = Some (s\<lparr>old_screen := new_screen s, serial := serial s @ es\<rparr>) \<and>
    (P \<longrightarrow> (\<exists>t'. term_run es t = Some t' \<and> shows_text t' (text_of (new_screen s)) \<and>
      tpos t' = Some (nat (cursor_x (cur_pcb (sk s))), nat (cursor_y (cur_pcb (sk s))))))"
proof -
  let ?p = "cur_pcb (sk s)"
  have ok: "length (new_screen s) = 4000" "length (old_screen s) = 4000" "0 \<le> cursor_x ?p" "cursor_x ?p < 80"
    "0 \<le> cursor_y ?p" "cursor_y ?p < 50" using assms(1) by (auto simp: scr_ok_def Let_def)
  obtain st where st: "for_each [0..<50] (\<lambda>i. for_each [0..<80] (flush_cell i)) (-1, -2, s) = Some st" "sent P s t 50 0 st"
    using flush_loop[OF ok(1) _ ok(2), of P t] assms(2) by blast
  obtain i0 j0 s' where st_eq: "st = (i0, j0, s')" by (cases st) auto
  obtain es where I: "length (old_screen s') = 4000" "\<And>a b. a < 80 \<Longrightarrow> b < 50 \<Longrightarrow> cell (old_screen s') a b = cell (new_screen s) a b"
    "s' = s\<lparr>old_screen := old_screen s', serial := serial s @ es\<rparr>" "P \<longrightarrow> (\<exists>t'. term_run es t = Some t' \<and> shows_text t' (text_of (old_screen s')))"
    using st(2) unfolding sent_def st_eq by auto
  have "old_screen s' ! q = new_screen s ! q" if q: "q < 4000" for q
  proof -
    have "80 * (q div 80) + q mod 80 = q" "q mod 80 < 80" "q div 80 < 50" using q by auto
    then show ?thesis using I(2)[of "q mod 80" "q div 80"] by (simp add: cell_def)
  qed
  then have o: "old_screen s' = new_screen s" using I(1) ok(1) by (intro nth_equalityI) auto
  define e where "e = MoveCursor (cursor_x ?p + 1) (cursor_y ?p + 1)"
  have "s' = s\<lparr>old_screen := new_screen s, serial := serial s @ es\<rparr>" using I(3) unfolding o .
  then have "screen_reflush s = Some (s\<lparr>old_screen := new_screen s, serial := serial s @ (es @ [e])\<rparr>)"
    using st(1) by (simp add: st_eq screen_reflush_def SCREEN_HEIGHT_def SCREEN_WIDTH_def vt100_move_cursor_def vt100_send_def e_def)
  moreover have "\<exists>t2. term_run (es @ [e]) t = Some t2 \<and> shows_text t2 (text_of (new_screen s)) \<and> tpos t2 = Some (nat (cursor_x ?p), nat (cursor_y ?p))" if p: P
  proof -
    obtain t' where t': "term_run es t = Some t'" "shows_text t' (text_of (new_screen s))" using I(4) p o by auto
    have "term_run (es @ [e]) t = Some (t'\<lparr>tpos := Some (nat (cursor_x ?p), nat (cursor_y ?p))\<rparr>)"
      using t'(1) ok by (simp add: term_run_append e_def term_step_def)
    then show ?thesis using t'(2) by (simp add: shows_text_def)
  qed
  ultimately show ?thesis by blast
qed

text \<open>A blank screen: both buffers and the terminal.\<close>

lemma screen_clear_spec:
  assumes "length (new_screen s) = 4000" and "length (old_screen s) = 4000" and "cylim_h (cur_pcb (sk s)) < 50"
  shows "\<exists>s' es t'. screen_clear s = Some s' \<and> serial s' = serial s @ es \<and> term_run es t = Some t' \<and> scr_ok s' \<and>
    new_screen s' = replicate 4000 32 \<and> old_screen s' = replicate 4000 32 \<and> shows_text t' (text_of (new_screen s')) \<and> tpos t' = Some (0, 0)"
proof -
  let ?f = "\<lambda>i j (m, n). do { m1 \<leftarrow> set_cell m (SCREEN_LOC (int j) (int i)) 32; n1 \<leftarrow> set_cell n (SCREEN_LOC (int j) (int i)) 32; Some (m1, n1) }"
  let ?I = "\<lambda>q (m :: u8 list, n :: u8 list). length m = 4000 \<and> length n = 4000 \<and> (\<forall>r < q. m ! r = 32 \<and> n ! r = (32 :: u8))"
  have "\<exists>mn. for_each [0..<50] (\<lambda>i. for_each [0..<80] (?f i)) (new_screen s, old_screen s) = Some mn \<and> ?I (80 * 50) mn"
  proof (rule for_each_inv[where I = "\<lambda>i. ?I (80 * i)"])
    fix i mn assume i: "i < 50" and I: "?I (80 * i) mn"
    have "\<exists>mn'. for_each [0..<80] (?f i) mn = Some mn' \<and> ?I (80 * i + 80) mn'"
    proof (rule for_each_inv[where I = "\<lambda>j. ?I (80 * i + j)"])
      fix j mn assume j: "j < 80" and I: "?I (80 * i + j) mn"
      then show "\<exists>mn'. ?f i j mn = Some mn' \<and> ?I (80 * i + Suc j) mn'"
        using cells(2)[of _ j i "32 :: u8"] i by (cases mn) (auto simp: less_Suc_eq nth_list_update)
    qed (use I in simp)
    then show "\<exists>mn'. for_each [0..<80] (?f i) mn = Some mn' \<and> ?I (80 * Suc i) mn'" by (simp add: add.commute)
  qed (use assms in simp)
  then obtain mn where mn0: "for_each [0..<50] (\<lambda>i. for_each [0..<80] (?f i)) (new_screen s, old_screen s) = Some mn" "?I (80 * 50) mn" by (elim exE conjE)
  obtain m n where mn_eq: "mn = (m, n)" by (cases mn)
  note mn = mn0[unfolded mn_eq]
  have b: "m = replicate 4000 32" "n = replicate 4000 32" using mn(2) by (auto intro!: nth_equalityI)
  define s1 where "s1 = on_pcb (\<lambda>p. p\<lparr>cursor_x := 0, cursor_y := 0\<rparr>) ((vt100_clear s)\<lparr>new_screen := m, old_screen := n\<rparr>)"
  have s1: "new_screen s1 = m" "old_screen s1 = n" "serial s1 = serial s @ [ClearScreen]"
    "cur_pcb (sk s1) = (cur_pcb (sk s))\<lparr>cursor_x := 0, cursor_y := 0\<rparr>"
    by (simp_all add: s1_def vt100_clear_def vt100_send_def on_pcb_simps)
  have c: "screen_clear s = screen_reflush s1"
    using mn(1) by (simp add: screen_clear_def SCREEN_HEIGHT_def SCREEN_WIDTH_def s1_def)
  have "scr_ok s1" "\<forall>c \<in> set (new_screen s1). printable c" "shows_text (t\<lparr>tcell := (\<lambda>_ _. 32)\<rparr>) (text_of (old_screen s1))"
    using assms(3) b by (simp_all add: scr_ok_def s1 Let_def printable_def shows_cell cell_def)
  then obtain es t' where r: "screen_reflush s1 = Some (s1\<lparr>old_screen := new_screen s1, serial := serial s1 @ es\<rparr>)" "term_run es (t\<lparr>tcell := (\<lambda>_ _. 32)\<rparr>) = Some t'"
    "shows_text t' (text_of (new_screen s1))" "tpos t' = Some (nat (cursor_x (cur_pcb (sk s1))), nat (cursor_y (cur_pcb (sk s1))))"
    using screen_reflush_spec[of s1 True] by blast
  have "term_run (ClearScreen # es) t = Some t'" using r(2) by (simp add: term_step_def)
  moreover have "scr_ok (s1\<lparr>old_screen := new_screen s1, serial := serial s1 @ es\<rparr>)" using \<open>scr_ok s1\<close> by (simp add: scr_ok_def Let_def)
  ultimately show ?thesis unfolding c r(1)
    by (intro exI[of _ "s1\<lparr>old_screen := new_screen s1, serial := serial s1 @ es\<rparr>"] exI[of _ "ClearScreen # es"] exI[of _ t'])
      (use r(3,4) in \<open>simp add: s1 b\<close>)
qed

text \<open>\<^verbatim>\<open>screen_set_cylim\<close> takes any numbers: with a region below the buffer, the next line feed at the bottom leaves the buffer.\<close>

lemma cylim_leaves_buffer:
  assumes "length (new_screen s) = 4000" and "cursor_y (cur_pcb (sk s)) = 49"
  shows "screen_write_ch 10 (screen_set_cylim 49 50 s) = None"
  using assms scroll_outside by (simp add: screen_write_ch_def write_lf_def screen_set_cylim_def on_pcb_simps Let_def SCREEN_HEIGHT_def)

text \<open>Characters that leave the window printable.\<close>

definition typeable :: "u8 \<Rightarrow> bool" where
  "typeable c \<longleftrightarrow> printable c \<or> c = 10 \<or> c = 8 \<or> c = 127"

definition text_ok :: "win \<Rightarrow> bool" where
  "text_ok w \<longleftrightarrow> (\<forall>r \<in> set (rows w). \<forall>c \<in> set r. printable c)"

lemma text_ok_view:
  assumes "length (new_screen s) = 4000"
  shows "text_ok (view s) \<longleftrightarrow> (\<forall>c \<in> set (new_screen s). printable c)"
proof
  assume "text_ok (view s)"
  then have c: "printable (cell (new_screen s) x y)" if "x < 80" "y < 50" for x y
    using that by (auto simp: text_ok_def view_def Let_def text_of_def)
  show "\<forall>c \<in> set (new_screen s). printable c"
  proof
    fix c assume "c \<in> set (new_screen s)"
    then obtain q where q: "q < 4000" "c = new_screen s ! q" using assms by (auto simp: in_set_conv_nth)
    have "80 * (q div 80) + q mod 80 = q" "q mod 80 < 80" "q div 80 < 50" using q(1) by auto
    then show "printable c" using c[of "q mod 80" "q div 80"] q(2) by (simp add: cell_def)
  qed
next
  assume p: "\<forall>c \<in> set (new_screen s). printable c"
  have "printable (cell (new_screen s) x y)" if "x < 80" "y < 50" for x y
    using p assms loc_less[OF that] by (simp add: cell_def)
  then show "text_ok (view s)" by (auto simp: text_ok_def view_def Let_def text_of_def)
qed

lemma newline_text: "text_ok w \<Longrightarrow> text_ok (newline w)"
  by (auto simp: text_ok_def newline_def roll_def printable_def dest!: in_set_takeD in_set_dropD)

lemma type_char_text:
  assumes "text_ok w" and "typeable c" and "0 \<le> wy w" and "wy w < int (length (rows w))"
  shows "text_ok (type_char c w)"
proof -
  have "text_ok (put c w)" if "printable c"
  proof -
    define r where "r = (rows w ! nat (wy w))[nat (wx w) := c]"
    define w1 where "w1 = w\<lparr>rows := (rows w)[nat (wy w) := r]\<rparr>"
    have "rows w ! nat (wy w) \<in> set (rows w)" using assms(3,4) by simp
    then have "set r \<subseteq> {d. printable d}" using assms(1) that set_update_subset_insert[of "rows w ! nat (wy w)" "nat (wx w)" c]
      unfolding text_ok_def r_def by blast
    moreover have "set (rows w1) \<subseteq> insert r (set (rows w))" unfolding w1_def by (simp add: set_update_subset_insert)
    ultimately have "text_ok w1" using assms(1) unfolding text_ok_def by blast
    moreover have "put c w = (if wx w = 79 then newline w1 else w1\<lparr>wx := wx w + 1\<rparr>)" by (simp add: put_def Let_def w1_def r_def)
    ultimately show ?thesis using newline_text[of w1] by (cases "wx w = 79") (simp_all add: text_ok_def)
  qed
  moreover have "text_ok (backspace w)" using assms(1) by (simp add: backspace_def text_ok_def)
  ultimately show ?thesis using assms(2) newline_text[OF assms(1)] unfolding type_char_def typeable_def by presburger
qed

lemma write_chars_printable:
  assumes "scr_ok s" and "text_ok (view s)" and "\<forall>c \<in> set cs. typeable c"
  shows "text_ok (fold type_char cs (view s))"
  using assms
proof (induction cs arbitrary: s)
  case (Cons c cs)
  obtain s1 where s1: "scr_ok s1" "view s1 = type_char c (view s)" and w: "screen_write_ch c s = Some s1"
    using screen_write_ch_spec[OF Cons(2), of c] by blast
  have y: "0 \<le> wy (view s)" "wy (view s) < int (length (rows (view s)))"
    using Cons(2) by (simp_all add: scr_ok_def view_def Let_def text_of_simps)
  have "typeable c" using Cons(4) by simp
  then have "text_ok (view s1)" unfolding s1(2) by (rule type_char_text[OF Cons(3) _ y])
  then show ?case using Cons(1)[OF s1(1)] Cons(4) s1(2) by simp
qed simp

lemma screen_write_spec:
  assumes "scr_ok s" and "len \<le> length buff"
  shows "\<exists>s' es. screen_write buff len s = Some (min len 256, s') \<and> scr_ok s' \<and>
    view s' = fold type_char (take (min len 256) buff) (view s) \<and> serial s' = serial s @ es \<and>
    (text_ok (view s) \<and> (\<forall>c \<in> set buff. typeable c) \<and> shows_text t (text_of (old_screen s)) \<longrightarrow>
      (\<exists>t'. term_run es t = Some t' \<and> shows_text t' (rows (view s')) \<and> tpos t' = Some (nat (wx (view s')), nat (wy (view s'))) \<and>
        old_screen s' = new_screen s' \<and> text_ok (view s')))"
proof -
  let ?cs = "take (min len 256) buff" and ?P = "text_ok (view s) \<and> (\<forall>c \<in> set buff. typeable c) \<and> shows_text t (text_of (old_screen s))"
  obtain s1 where s1: "write_chars ?cs s = Some s1" "scr_ok s1" "view s1 = fold type_char ?cs (view s)" "old_screen s1 = old_screen s" "serial s1 = serial s"
    using write_chars_spec[OF assms(1)] by blast
  have p: "text_ok (view s1)" if ?P
    unfolding s1(3) by (rule write_chars_printable[OF assms(1)]) (use that in \<open>auto dest: in_set_takeD\<close>)
  have "(\<forall>c \<in> set (new_screen s1). printable c) \<and> shows_text t (text_of (old_screen s1))" if ?P
    using that p[OF that] text_ok_view[of s1] s1(2,4) by (simp add: scr_ok_def Let_def)
  then obtain es where es: "screen_reflush s1 = Some (s1\<lparr>old_screen := new_screen s1, serial := serial s1 @ es\<rparr>)"
    "?P \<longrightarrow> (\<exists>t'. term_run es t = Some t' \<and> shows_text t' (text_of (new_screen s1)) \<and>
      tpos t' = Some (nat (cursor_x (cur_pcb (sk s1))), nat (cursor_y (cur_pcb (sk s1)))))"
    using screen_reflush_spec[OF s1(2), of ?P t] by blast
  define s' where "s' = s1\<lparr>old_screen := new_screen s1, serial := serial s1 @ es\<rparr>"
  have s': "view s' = view s1" "scr_ok s'" "old_screen s' = new_screen s'" "serial s' = serial s @ es"
    using s1(2,5) by (simp_all add: s'_def view_def scr_ok_def Let_def)
  have "screen_write buff len s = Some (min len 256, s')"
    using assms(2) s1(1) es(1) by (simp add: screen_write_def Let_def SCR_WRITE_MAX_def min_def s'_def split: if_splits)
  moreover have "rows (view s1) = text_of (new_screen s1)" "wx (view s1) = cursor_x (cur_pcb (sk s1))" "wy (view s1) = cursor_y (cur_pcb (sk s1))"
    by (simp_all add: view_def Let_def)
  ultimately show ?thesis using s' s1(3) es(2) p by (intro exI[of _ s'] exI[of _ es]) simp
qed

lemma screen_write_total:
  "scr_ok s \<Longrightarrow> len \<le> length buff \<Longrightarrow> \<exists>s'. screen_write buff len s = Some (min len 256, s') \<and> scr_ok s' \<and>
    view s' = fold type_char (take (min len 256) buff) (view s)"
  using screen_write_spec by blast

section \<open>Properties\<close>

text \<open>
  C38: Writing to the screen. \<^verbatim>\<open>screen_write\<close> of any bytes returns the number it wrote, at most 256, and stays in the buffer:
  the window of text behaves as lines with a cursor and a scroll region do. When the text is printable, the terminal
  that showed the text of the last flush shows the new text and its cursor stands where the process has it.
\<close>

theorem screen_write_shows:
  assumes "scr_ok s" and "len \<le> length buff"
  shows "\<exists>s' es. screen_write buff len s = Some (min len 256, s') \<and> scr_ok s' \<and>
    view s' = fold type_char (take (min len 256) buff) (view s) \<and> serial s' = serial s @ es \<and>
    (text_ok (view s) \<and> (\<forall>c \<in> set buff. typeable c) \<and> shows_text t (text_of (old_screen s)) \<longrightarrow>
      (\<exists>t'. term_run es t = Some t' \<and> shows_text t' (rows (view s')) \<and> tpos t' = Some (nat (wx (view s')), nat (wy (view s'))) \<and>
        old_screen s' = new_screen s' \<and> text_ok (view s')))"
  by (rule screen_write_spec[OF assms])

text \<open>A blank screen on which ``Hi'' is written.\<close>

definition demo_scr :: "(nat \<Rightarrow> u8 list) scr" where
  "demo_scr = \<lparr>sk = demo_ks, new_screen = replicate 4000 32, old_screen = replicate 4000 32, serial = []\<rparr>"

definition demo_term :: terminal where
  "demo_term = \<lparr>tcell = (\<lambda>_ _. 32), tpos = None\<rparr>"

lemma demo_view: "view demo_scr = \<lparr>rows = replicate 50 (replicate 80 32), wx = 0, wy = 0, top = -1, bot = -1\<rparr>"
proof -
  have "text_of (replicate 4000 32) = replicate 50 (replicate 80 32)"
    by (rule text_ofI) (simp_all add: cell_def)
  then show ?thesis by (simp add: view_def demo_scr_def demo_ks_def cur_pcb_def cur_cpu_def demo_pmem_def Let_def)
qed

lemma upd_demo: "(replicate 80 32)[0 := 72, Suc 0 := 105] = [72, 105] @ replicate 78 (32 :: u8)"
  by (simp add: numeral_eq_Suc)

theorem screen_write_shows_witness:
  "\<exists>s' t'. screen_write [72, 105, 10] 3 demo_scr = Some (3, s') \<and> term_run (serial s') demo_term = Some t' \<and>
     tcell t' 0 0 = 72 \<and> tcell t' 1 0 = 105 \<and> tcell t' 2 0 = 32 \<and> tpos t' = Some (0, 1)"
proof -
  have ok: "scr_ok demo_scr" by (simp add: scr_ok_def demo_scr_def demo_ks_def cur_pcb_def cur_cpu_def demo_pmem_def Let_def)
  have c: "text_ok (view demo_scr)" by (simp add: demo_view text_ok_def printable_def)
  have d: "shows_text demo_term (text_of (old_screen demo_scr))"
    by (simp add: demo_term_def shows_cell demo_scr_def cell_def)
  have b: "\<forall>c \<in> set [72, 105, 10]. typeable c" by (simp add: typeable_def printable_def)
  have l: "3 \<le> length ([72, 105, 10] :: u8 list)" by simp
  obtain s' es where w: "screen_write [72, 105, 10] 3 demo_scr = Some (min 3 256, s')"
    "view s' = fold type_char (take (min 3 256) [72, 105, 10]) (view demo_scr)" "serial s' = serial demo_scr @ es"
    and t: "text_ok (view demo_scr) \<and> (\<forall>c \<in> set [72, 105, 10]. typeable c) \<and> shows_text demo_term (text_of (old_screen demo_scr)) \<longrightarrow>
      (\<exists>t'. term_run es demo_term = Some t' \<and> shows_text t' (rows (view s')) \<and> tpos t' = Some (nat (wx (view s')), nat (wy (view s'))) \<and>
        old_screen s' = new_screen s' \<and> text_ok (view s'))"
    using screen_write_shows[OF ok l, of demo_term] by (elim exE conjE) (rule that)
  obtain t' where t': "term_run es demo_term = Some t'"
    "shows_text t' (rows (view s'))" "tpos t' = Some (nat (wx (view s')), nat (wy (view s')))"
    using mp[OF t conjI[OF c conjI[OF b d]]] by (elim exE conjE) (rule that)
  have v: "wx (view s') = 0" "wy (view s') = 1" "rows (view s') ! 0 = [72, 105] @ replicate 78 32"
    by (simp_all add: w(2) demo_view type_char_def put_def newline_def Let_def upd_demo)
  have "tcell t' 0 0 = 72 \<and> tcell t' 1 0 = 105 \<and> tcell t' 2 0 = 32"
    using t'(2) by (simp add: shows_text_def v(3))
  then show ?thesis using w(1,3) t'(1,3)
    by (intro exI[of _ s'] exI[of _ t']) (simp add: v(1,2) demo_scr_def)
qed

end
