(* ===== verification/Printk.thy ===== *)
theory Printk
  imports Screen "HOL-Library.Signed_Division"
begin

text \<open>
  Formatted output (\<^verbatim>\<open>libs/printk.c\<close>): \<^verbatim>\<open>mini_itoa\<close>, \<^verbatim>\<open>mini_vsnprintf\<close> and \<^verbatim>\<open>printk\<close>.

  The variable arguments are a list of numbers (the 64 bits of a register) and strings. The local arrays \<^verbatim>\<open>bf\<close> and \<^verbatim>\<open>buff\<close>
  start with unknown characters, which are arguments. A write outside of an array has no result.

  The lemmas show that a number is printed as its numeral and can be read back, and that the output is the text the format
  stands for, cut off at 255 characters. What a format stands for is said on its abstract syntax, a list of \<open>fmt_item\<close>s, without the
  code that reads the directives: \<open>format_string\<close> writes the list as a string, \<open>format_text\<close> is its text for given arguments.
\<close>

section \<open>Numbers\<close>

datatype varg = VNum u64 | VStr cbuf

fun mini_strlen :: "cbuf \<Rightarrow> nat option" where
  "mini_strlen [] = None"
| "mini_strlen (c # s) = (if c \<noteq> NUL then map_option Suc (mini_strlen s) else Some 0)"

definition digit_char :: "bool \<Rightarrow> int \<Rightarrow> char" where
  "digit_char uppercase d = (if d < 10 then char_of (48 + d) else char_of ((if uppercase then 65 else 97) + d - 10))"

text \<open>The string is built back to front.\<close>

function itoa_digits :: "u32 \<Rightarrow> bool \<Rightarrow> bool \<Rightarrow> u64 \<Rightarrow> cbuf \<Rightarrow> nat \<Rightarrow> (cbuf \<times> nat) option" where
  "itoa_digits radix uppercase unsig v b p =
     (if radix = 0 then None
      else if p < length b then
        let d = (if unsig then uint (v mod ucast radix) else sint v smod uint radix);
            b1 = b[p := digit_char uppercase d];
            v1 = (if unsig then v div ucast radix else word_of_int (sint v sdiv uint radix))
        in if v1 \<noteq> 0 then itoa_digits radix uppercase unsig v1 b1 (p + 1) else Some (b1, p + 1)
      else None)"
  by pat_completeness auto
termination by (relation "measure (\<lambda>(_, _, _, _, b, p). length b - p)") auto

declare itoa_digits.simps [simp del]

definition itoa_pad :: "u32 \<Rightarrow> char \<Rightarrow> nat \<Rightarrow> cbuf \<Rightarrow> cbuf option" where
  "itoa_pad n_pad cpad p b = for_each [p..<unat n_pad] (\<lambda>i b. upd_chk b i cpad) b"

definition itoa_reverse :: "nat \<Rightarrow> cbuf \<Rightarrow> cbuf option" where
  "itoa_reverse len b = for_each [0..<len div 2] (\<lambda>i b. do {
     j \<leftarrow> nth_chk b i; v \<leftarrow> nth_chk b (len - i - 1);
     b1 \<leftarrow> upd_chk b i v; upd_chk b1 (len - i - 1) j }) b"

definition mini_itoa :: "u64 \<Rightarrow> u32 \<Rightarrow> bool \<Rightarrow> bool \<Rightarrow> cbuf \<Rightarrow> u32 \<Rightarrow> char \<Rightarrow> (nat \<times> cbuf) option" where
  "mini_itoa v radix uppercase unsig b n_pad cpad =
     (if radix > 16 then Some (0, b)
      else let negative = (sint v < 0 \<and> \<not> unsig); v1 = (if negative then - v else v) in do {
        (b1, p1) \<leftarrow> itoa_digits radix uppercase unsig v1 b 0;
        b2 \<leftarrow> itoa_pad n_pad cpad p1 b1;
        let p2 = max p1 (unat n_pad);
        (b3, p3) \<leftarrow> (if negative then do { b' \<leftarrow> upd_chk b2 p2 (CHR ''-''); Some (b', p2 + 1) } else Some (b2, p2));
        b4 \<leftarrow> upd_chk b3 p3 NUL;
        b5 \<leftarrow> itoa_reverse p3 b4;
        Some (p3, b5)
      })"

section \<open>The formatting loop\<close>

record mini_buff =
  buffer :: cbuf
  pbuffer :: nat
  buffer_len :: nat

definition mini_putc :: "char \<Rightarrow> mini_buff \<Rightarrow> mini_buff option" where
  "mini_putc ch b = (if pbuffer b + 1 \<ge> buffer_len b then Some b
     else do {
       x \<leftarrow> upd_chk (buffer b) (pbuffer b) ch;
       y \<leftarrow> upd_chk x (pbuffer b + 1) NUL;
       Some (b\<lparr>buffer := y, pbuffer := pbuffer b + 1\<rparr>)
     })"

text \<open>\<open>None\<close> is the pointer \<^verbatim>\<open>NULL\<close>, which stands for spaces.\<close>

definition mini_puts :: "cbuf option \<Rightarrow> nat \<Rightarrow> mini_buff \<Rightarrow> mini_buff option" where
  "mini_puts s len b = (let
     p = pbuffer b;
     room = int (buffer_len b) - int p - 1;
     len1 = (if room < int len then unat (word_of_int room :: u32) else len)
   in do {
     x \<leftarrow> for_each [0..<len1] (\<lambda>i x. do {
       c \<leftarrow> (case s of None \<Rightarrow> Some (CHR '' '') | Some t \<Rightarrow> nth_chk t i); upd_chk x (p + i) c }) (buffer b);
     y \<leftarrow> upd_chk x (p + len1) NUL;
     Some (b\<lparr>buffer := y, pbuffer := p + len1\<rparr>)
   })"

definition isdigit :: "char \<Rightarrow> bool" where
  "isdigit c \<longleftrightarrow> 48 \<le> c_int c \<and> c_int c \<le> 57"

text \<open>\<^verbatim>\<open>*(fmt++)\<close> on the characters before the \<^verbatim>\<open>NUL\<close>.\<close>

definition next_char :: "string \<Rightarrow> char \<times> string" where
  "next_char f = (case f of [] \<Rightarrow> (NUL, []) | c # f' \<Rightarrow> (c, f'))"

fun read_pad :: "string \<Rightarrow> u32 \<Rightarrow> char \<times> string \<times> u32" where
  "read_pad [] n = (NUL, [], n)"
| "read_pad (c # f) n = (if isdigit c then read_pad f (n * 10 + word_of_int (c_int c) - 48) else (c, f, n))"

text \<open>What stands behind a \<^verbatim>\<open>%\<close>: the padding, the flag \<^verbatim>\<open>l\<close> and the character that says what to print.\<close>

definition directive :: "string \<Rightarrow> char \<times> bool \<times> u32 \<times> char \<times> string" where
  "directive f = (let
     (ch, f1) = next_char f;
     c_pad = (if isdigit ch then (if ch = CHR ''0'' then CHR ''0'' else CHR '' '') else CHR '' '');
     (ch1, f2, n_pad) = (if isdigit ch then read_pad f 0 else (ch, f1, 0));
     (ch2, f3) = (if ch1 = CHR ''l'' then next_char f2 else (ch1, f2))
   in (ch2, ch1 = CHR ''l'', n_pad, c_pad, f3))"

definition print_num :: "u64 \<Rightarrow> u32 \<Rightarrow> bool \<Rightarrow> bool \<Rightarrow> u32 \<Rightarrow> char \<Rightarrow> cbuf \<times> mini_buff \<Rightarrow> (cbuf \<times> mini_buff) option" where
  "print_num v radix uppercase unsig n_pad c_pad st = (case st of (bf, b) \<Rightarrow> do {
     (len, bf1) \<leftarrow> mini_itoa v radix uppercase unsig bf n_pad c_pad;
     b1 \<leftarrow> mini_puts (Some bf1) len b;
     Some (bf1, b1) })"

definition arg_u :: "bool \<Rightarrow> u64 \<Rightarrow> u64" where
  "arg_u longflag w = (if longflag then w else ucast (ucast w :: u32))"

definition arg_d :: "bool \<Rightarrow> u64 \<Rightarrow> u64" where
  "arg_d longflag w = (if longflag then w else scast (ucast w :: u32))"

text \<open>The \<^verbatim>\<open>switch\<close>; an argument of the wrong kind has no result.\<close>

definition print_arg :: "char \<Rightarrow> bool \<Rightarrow> u32 \<Rightarrow> char \<Rightarrow> varg list \<Rightarrow> cbuf \<times> mini_buff \<Rightarrow> (varg list \<times> cbuf \<times> mini_buff) option" where
  "print_arg ch longflag n_pad c_pad va st =
     (if ch = CHR ''l'' then Some (va, st)
      else if ch = CHR ''u'' then (case va of VNum w # va' \<Rightarrow>
        map_option (Pair va') (print_num (arg_u longflag w) 10 False True n_pad c_pad st) | _ \<Rightarrow> None)
      else if ch = CHR ''d'' then (case va of VNum w # va' \<Rightarrow>
        map_option (Pair va') (print_num (arg_d longflag w) 10 False False n_pad c_pad st) | _ \<Rightarrow> None)
      else if ch = CHR ''x'' \<or> ch = CHR ''X'' then (case va of VNum w # va' \<Rightarrow>
        map_option (Pair va') (print_num (arg_u longflag w) 16 (ch = CHR ''X'') True n_pad c_pad st) | _ \<Rightarrow> None)
      else if ch = CHR ''c'' then (case va of VNum w # va' \<Rightarrow> do {
        b1 \<leftarrow> mini_putc (char_of_u8 (ucast w)) (snd st); Some (va', fst st, b1) } | _ \<Rightarrow> None)
      else if ch = CHR ''s'' then (case va of VStr s # va' \<Rightarrow> do {
        len \<leftarrow> mini_strlen s;
        b1 \<leftarrow> mini_puts (Some s) len (snd st);
        b2 \<leftarrow> (if len < unat n_pad then mini_puts None (unat n_pad - len) b1 else Some b1);
        Some (va', fst st, b2) } | _ \<Rightarrow> None)
      else do { b1 \<leftarrow> mini_putc ch (snd st); Some (va, fst st, b1) })"

lemma read_pad_length: "length (fst (snd (read_pad f n))) \<le> length f"
  by (induction f n rule: read_pad.induct) auto

lemma directive_length: "directive f = (ch, l, n, c, f') \<Longrightarrow> length f' \<le> length f"
  using read_pad_length[of f 0]
  by (auto simp: directive_def next_char_def Let_def split: prod.splits list.splits if_splits)

function vsn_loop :: "string \<Rightarrow> varg list \<Rightarrow> cbuf \<times> mini_buff \<Rightarrow> (cbuf \<times> mini_buff) option" where
  "vsn_loop [] va st = Some st"
| "vsn_loop (ch # fmt) va st =
     (if pbuffer (snd st) + 1 \<ge> buffer_len (snd st) then Some st
      else if ch \<noteq> CHR ''%'' then do { b1 \<leftarrow> mini_putc ch (snd st); vsn_loop fmt va (fst st, b1) }
      else (case directive fmt of (ch1, longflag, n_pad, c_pad, fmt1) \<Rightarrow>
        if ch1 = NUL then Some st
        else do { (va1, st1) \<leftarrow> print_arg ch1 longflag n_pad c_pad va st; vsn_loop fmt1 va1 st1 }))"
  by pat_completeness auto
termination by (relation "measure (\<lambda>(f, _, _). length f)") (auto dest: directive_length[OF sym] simp: less_Suc_eq_le)

definition mini_vsnprintf :: "cbuf \<Rightarrow> nat \<Rightarrow> cbuf \<Rightarrow> varg list \<Rightarrow> cbuf \<Rightarrow> (nat \<times> cbuf) option" where
  "mini_vsnprintf buf len fmt va bf = do {
     n \<leftarrow> mini_strlen fmt;
     (_, b) \<leftarrow> vsn_loop (take n fmt) va (bf, \<lparr>buffer = buf, pbuffer = 0, buffer_len = len\<rparr>);
     Some (pbuffer b, buffer b) }"

text \<open>The string that is given to the output function.\<close>

definition vprint :: "cbuf \<Rightarrow> varg list \<Rightarrow> cbuf \<Rightarrow> cbuf \<Rightarrow> (nat \<times> cbuf) option" where
  "vprint fmt va buff bf = do {
     (ret, buff1) \<leftarrow> mini_vsnprintf buff 256 fmt va bf;
     buff2 \<leftarrow> upd_chk buff1 ret NUL;
     Some (ret, buff2) }"

definition printk :: "cbuf \<Rightarrow> varg list \<Rightarrow> cbuf \<Rightarrow> cbuf \<Rightarrow> 'd scr \<Rightarrow> (nat \<times> 'd scr) option" where
  "printk fmt va buff bf s = do {
     (ret, x) \<leftarrow> vprint fmt va buff bf;
     n \<leftarrow> mini_strlen x;
     (_, s1) \<leftarrow> screen_write (map u8_of_char x) n s;
     Some (ret, s1) }"

section \<open>Numerals\<close>

text \<open>The digits of a number, the last one first, and the numeral.\<close>

function num_digits :: "nat \<Rightarrow> nat \<Rightarrow> nat list" where
  "num_digits r n = (if r < 2 \<or> n < r then [n] else (n mod r) # num_digits r (n div r))"
  by pat_completeness auto
termination by (relation "measure (\<lambda>(r, n). n)") auto

declare num_digits.simps [simp del]

definition numeral_char :: "bool \<Rightarrow> nat \<Rightarrow> char" where
  "numeral_char uppercase d = (if uppercase then ''0123456789ABCDEF'' else ''0123456789abcdef'') ! d"

definition num_text :: "bool \<Rightarrow> nat \<Rightarrow> nat \<Rightarrow> string" where
  "num_text uppercase r n = rev (map (numeral_char uppercase) (num_digits r n))"

definition itoa_text :: "u64 \<Rightarrow> nat \<Rightarrow> bool \<Rightarrow> bool \<Rightarrow> nat \<Rightarrow> char \<Rightarrow> string" where
  "itoa_text v r uppercase unsig n c = (let
     t = num_text uppercase r (if unsig then unat v else nat \<bar>sint v\<bar>)
   in (if \<not> unsig \<and> sint v < 0 then ''-'' else []) @ replicate (n - length t) c @ t)"

lemma num_digits_nonempty: "num_digits r n \<noteq> []"
  by (subst num_digits.simps) simp

lemma num_digits_less: "2 \<le> r \<Longrightarrow> d \<in> set (num_digits r n) \<Longrightarrow> d < r"
proof (induction r n rule: num_digits.induct)
  case (1 r n)
  then show ?case by (cases "n < r") (auto simp: num_digits.simps[of r n])
qed

lemma numeral_char_digit: "d < 16 \<Longrightarrow> numeral_char up d = digit_char up (int d)"
proof -
  have "list_all (\<lambda>(up, d). numeral_char up d = digit_char up (int d)) (List.product [True, False] [0..<16])" by code_simp
  then show "d < 16 \<Longrightarrow> numeral_char up d = digit_char up (int d)" by (cases up) (auto simp: list_all_iff)
qed

lemma num_text_digits:
  assumes "2 \<le> r" and "r \<le> 16"
  shows "num_text up r n = rev (map (\<lambda>d. digit_char up (int d)) (num_digits r n))"
proof -
  have "numeral_char up d = digit_char up (int d)" if "d \<in> set (num_digits r n)" for d
    using num_digits_less[OF assms(1) that] assms(2) by (intro numeral_char_digit) simp
  then show ?thesis by (simp add: num_text_def)
qed

lemma num_digits_length: "n < r ^ k \<Longrightarrow> 0 < k \<Longrightarrow> length (num_digits r n) \<le> k"
proof (induction r n arbitrary: k rule: num_digits.induct)
  case (1 r n)
  show ?case
  proof (cases "r < 2 \<or> n < r")
    case True
    then show ?thesis using 1(3) by (subst num_digits.simps) simp
  next
    case False
    then obtain k' where k: "k = Suc k'" "0 < k'" using 1(2,3) by (cases k; cases "k - 1") auto
    have "n div r < r ^ k'" using 1(2) False k(1) by (simp add: less_mult_imp_div_less mult.commute)
    then show ?thesis using 1(1)[OF False _ k(2)] False k(1) by (subst num_digits.simps) simp
  qed
qed

lemma uint_ucast_up: "uint (ucast (r :: u32) :: u64) = uint r"
proof -
  have "uint r < 2 ^ 64" using unsigned_less[of r, where 'a = int] by simp
  then show ?thesis by (simp add: unsigned_ucast_eq take_bit_int_eq_self)
qed

lemma sint_cases: "sint (v :: u64) = (if uint v < 2 ^ 63 then uint v else uint v - 2 ^ 64)"
proof -
  define q where "q = uint v div 2 ^ 63"
  have v: "0 \<le> uint v" "uint v < 2 ^ 64" using unsigned_less[of v, where 'a = int] by simp_all
  have q: "q = (if uint v < 2 ^ 63 then 0 else 1)"
  proof (cases "uint v < 2 ^ 63")
    case False
    then have "uint v = (uint v - 2 ^ 63) + 2 ^ 63" "0 \<le> uint v - 2 ^ 63" "uint v - 2 ^ 63 < 2 ^ 63" using v(2) by simp_all
    then have "q = 1" unfolding q_def by (metis add.commute div_pos_pos_trivial div_add_self1 add.right_neutral zero_neq_numeral power_not_zero)
    then show ?thesis using False by simp
  qed (use v in \<open>simp add: q_def\<close>)
  have b: "bit (uint v) 63 \<longleftrightarrow> \<not> uint v < 2 ^ 63" unfolding bit_iff_odd q_def[symmetric] using q by simp
  have "sint v = take_bit (Suc 63) (uint v) - 2 ^ Suc 63 * of_bool (bit (uint v) 63)"
    by (simp add: sint_uint signed_take_bit_eq_take_bit_minus)
  moreover have "take_bit (Suc 63) (uint v) = uint v" using v by (simp add: take_bit_int_eq_self)
  ultimately show ?thesis using b by simp
qed

lemma smod_pos: "0 \<le> a \<Longrightarrow> 0 < b \<Longrightarrow> a smod b = a mod b" and sdiv_pos: "0 \<le> a \<Longrightarrow> 0 < b \<Longrightarrow> a sdiv b = a div b" for a b :: int
  by (cases "a = 0"; simp add: signed_modulo_int_def signed_divide_int_def)+

lemma div_uints:
  assumes "2 \<le> (r :: u32)" and "unsig \<or> 0 \<le> sint (v :: u64)"
  shows "(if unsig then uint (v mod ucast r) else sint v smod uint r) = int (unat v mod unat r)"
    "(if unsig then v div ucast r else word_of_int (sint v sdiv uint r)) = v div ucast r"
    "unat (v div ucast r) = unat v div unat r"
proof -
  have ur: "0 < uint r" using assms(1) by (simp add: word_le_def)
  have m: "uint (v mod ucast r) = int (unat v mod unat r)" by (simp add: uint_mod uint_ucast_up zmod_int)
  have d: "v div ucast r = word_of_int (uint v div uint r)" by (simp add: word_div_def uint_ucast_up)
  have s: "sint v smod uint r = uint v mod uint r" "sint v sdiv uint r = uint v div uint r" if "\<not> unsig"
  proof -
    have v: "sint v = uint v" using assms(2) that unsigned_less[of v, where 'a = int] by (auto simp: sint_cases split: if_splits)
    show "sint v smod uint r = uint v mod uint r" "sint v sdiv uint r = uint v div uint r"
      unfolding v by (rule smod_pos sdiv_pos; use ur in simp)+
  qed
  show "(if unsig then uint (v mod ucast r) else sint v smod uint r) = int (unat v mod unat r)"
    using s m by (cases unsig) (simp_all add: zmod_int)
  show "(if unsig then v div ucast r else word_of_int (sint v sdiv uint r)) = v div ucast r"
    using s(2) by (cases unsig) (simp_all add: d)
  have "unat (ucast r :: u64) = unat r" by (metis uint_ucast_up unat_eq_nat_uint)
  then show "unat (v div ucast r) = unat v div unat r" by (simp add: unat_div)
qed

lemma itoa_digits_spec:
  assumes "2 \<le> r" and "r \<le> 16" and "unsig \<or> 0 \<le> sint v" and "p + length (num_digits (unat r) (unat v)) \<le> length b"
  shows "itoa_digits r up unsig v b p =
    Some (take p b @ map (\<lambda>d. digit_char up (int d)) (num_digits (unat r) (unat v)) @ drop (p + length (num_digits (unat r) (unat v))) b,
      p + length (num_digits (unat r) (unat v)))"
  using assms(3,4)
proof (induction "unat v" arbitrary: v b p rule: less_induct)
  case less
  let ?v1 = "v div ucast r" and ?D = "num_digits (unat r) (unat v)" and ?c = "\<lambda>d. digit_char up (int d)"
  have r: "2 \<le> unat r" "r \<noteq> 0" using assms(1) by (auto simp: word_le_nat_alt)
  note d = div_uints[OF assms(1) less(2)]
  have p: "p < length b" using less(3) num_digits_nonempty[of "unat r" "unat v"] by (cases ?D) auto
  have step: "itoa_digits r up unsig v b p = (if ?v1 \<noteq> 0 then itoa_digits r up unsig ?v1 (b[p := ?c (unat v mod unat r)]) (p + 1)
      else Some (b[p := ?c (unat v mod unat r)], p + 1))"
    unfolding itoa_digits.simps[of r up unsig v b p] Let_def d(1,2) using r(2) p by simp
  have z: "?v1 = 0 \<longleftrightarrow> unat v < unat r" using d(3) r(1) by (metis div_less div_eq_0_iff not_numeral_le_zero unat_0 unat_eq_0)
  have u: "take (Suc p) (b[p := x]) = take p b @ [x]" "drop (Suc p + k) (b[p := x]) = drop (p + Suc k) b" for x k
    using p by (simp_all add: take_Suc_conv_app_nth)
  show ?case
  proof (cases "unat v < unat r")
    case True
    then have "?D = [unat v]" by (simp add: num_digits.simps)
    then show ?thesis using True p z unfolding step by (simp add: upd_conv_take_nth_drop)
  next
    case False
    then have D: "?D = (unat v mod unat r) # num_digits (unat r) (unat ?v1)" using r(1) d(3) by (subst num_digits.simps) simp
    have lt: "unat ?v1 < unat v" using d(3) r(1) False by simp
    have pos: "unsig \<or> 0 \<le> sint ?v1"
    proof (cases unsig)
      case False
      then have "uint v < 2 ^ 63" using less(2) unsigned_less[of v, where 'a = int] by (auto simp: sint_cases split: if_splits)
      moreover have "uint ?v1 < uint v" using lt unfolding word_less_nat_alt[symmetric] word_less_def .
      ultimately have "uint ?v1 < 2 ^ 63" by (rule less_trans[rotated])
      then show ?thesis by (simp add: sint_cases)
    qed simp
    have "itoa_digits r up unsig ?v1 (b[p := ?c (unat v mod unat r)]) (p + 1) = Some (take (p + 1) (b[p := ?c (unat v mod unat r)]) @
       map ?c (num_digits (unat r) (unat ?v1)) @ drop (p + 1 + length (num_digits (unat r) (unat ?v1))) (b[p := ?c (unat v mod unat r)]),
       p + 1 + length (num_digits (unat r) (unat ?v1)))"
      by (rule less(1)[OF lt pos]) (use less(3) D in simp)
    then show ?thesis using False z u unfolding step D by simp
  qed
qed

text \<open>Padding and reversing.\<close>

lemma itoa_pad_spec:
  assumes "length b = N" and "unat n \<le> N" and "p \<le> N"
  shows "itoa_pad n c p b = Some (take p b @ replicate (unat n - p) c @ drop (max p (unat n)) b)"
proof (cases "p \<le> unat n")
  case True
  have "\<exists>b'. for_each [p..<unat n] (\<lambda>i b. upd_chk b i c) b = Some b' \<and> b' = take p b @ replicate (unat n - p) c @ drop (unat n) b"
  proof (rule for_each_range[where I = "\<lambda>k b'. b' = take p b @ replicate (k - p) c @ drop k b"])
    fix k b' assume k: "p \<le> k" "k < unat n" and b': "b' = take p b @ replicate (k - p) c @ drop k b"
    have "b'[k := c] = take p b @ replicate (Suc k - p) c @ drop (Suc k) b"
      using k assms by (simp add: b' list_update_append Suc_diff_le replicate_append_same flip: Cons_nth_drop_Suc)
    then show "\<exists>s'. upd_chk b' k c = Some s' \<and> s' = take p b @ replicate (Suc k - p) c @ drop (Suc k) b"
      using k assms by (simp add: b')
  qed (use True in simp_all)
  then show ?thesis using True by (simp add: itoa_pad_def max_absorb2)
qed (simp add: itoa_pad_def max_def)

lemma itoa_reverse_spec:
  assumes "len \<le> length b"
  shows "itoa_reverse len b = Some (rev (take len b) @ drop len b)"
proof -
  let ?I = "\<lambda>k b'. length b' = length b \<and> (\<forall>j < length b. b' ! j = (if j < k \<or> len \<le> j + k \<and> j < len then b ! (len - j - 1) else b ! j))"
  have "\<exists>b'. for_each [0..<len div 2] (\<lambda>i b. do { j \<leftarrow> nth_chk b i; v \<leftarrow> nth_chk b (len - i - 1);
     b1 \<leftarrow> upd_chk b i v; upd_chk b1 (len - i - 1) j }) b = Some b' \<and> ?I (len div 2) b'"
  proof (rule for_each_inv[where I = ?I])
    fix k b' assume k: "k < len div 2" and I: "?I k b'"
    have lt: "k < length b'" "len - k - 1 < length b'" "k \<noteq> len - k - 1" using k assms I by auto
    have v: "b' ! k = b ! k" "b' ! (len - k - 1) = b ! (len - k - 1)" using I k assms by auto
    have "?I (Suc k) (b'[k := b ! (len - k - 1), len - k - 1 := b ! k])"
    proof (intro conjI allI impI)
      fix j assume j: "j < length b"
      consider "j = k" | "j = len - k - 1" | "j \<noteq> k" "j \<noteq> len - k - 1" by blast
      then show "b'[k := b ! (len - k - 1), len - k - 1 := b ! k] ! j = (if j < Suc k \<or> len \<le> j + Suc k \<and> j < len then b ! (len - j - 1) else b ! j)"
        using I lt k j assms by cases (auto simp: nth_list_update)
    qed (use I in simp)
    then show "\<exists>s'. (do { j \<leftarrow> nth_chk b' k; v \<leftarrow> nth_chk b' (len - k - 1); b1 \<leftarrow> upd_chk b' k v; upd_chk b1 (len - k - 1) j }) = Some s' \<and> ?I (Suc k) s'"
      using lt v by simp
  qed auto
  then obtain b' where b': "itoa_reverse len b = Some b'" "?I (len div 2) b'" by (auto simp: itoa_reverse_def)
  have "b' = rev (take len b) @ drop len b"
  proof (rule nth_equalityI)
    show "length b' = length (rev (take len b) @ drop len b)" using b'(2) assms by simp
    fix j assume "j < length b'"
    then have j: "j < length b" using b'(2) by simp
    show "b' ! j = (rev (take len b) @ drop len b) ! j"
    proof (cases "j < len")
      case True
      have "b' ! j = b ! (len - j - 1)"
      proof (cases "j < len div 2 \<or> len \<le> j + len div 2")
        case False
        then have "len - j - 1 = j" using True by linarith
        then show ?thesis using b'(2) j False by simp
      qed (use b'(2) j True in auto)
      then show ?thesis using True assms by (simp add: nth_append rev_nth)
    next
      case False
      then have "\<not> j < len div 2" by linarith
      then show ?thesis using False b'(2) j assms by (simp add: nth_append)
    qed
  qed
  then show ?thesis using b'(1) by simp
qed

text \<open>A number that fits is printed as its numeral.\<close>

lemma abs_value: "\<not> unsig \<Longrightarrow> v \<noteq> 2 ^ 63 \<Longrightarrow> sint v < 0 \<Longrightarrow> unat (- v) = nat \<bar>sint v\<bar> \<and> 0 \<le> sint (- v)" for v :: u64
proof -
  assume a: "v \<noteq> 2 ^ 63" "sint v < 0"
  have u: "0 \<le> uint v" "uint v < 2 ^ 64" using unsigned_less[of v, where 'a = int] by simp_all
  have s: "sint v = uint v - 2 ^ 64" "2 ^ 63 \<le> uint v" using a(2) u by (auto simp: sint_cases split: if_splits)
  have "uint v \<noteq> 2 ^ 63" using a(1) by (metis word_of_int_uint of_int_power of_int_numeral)
  have "(2 ^ 64 - uint v) mod 2 ^ 64 = (- uint v) mod 2 ^ 64" using mod_add_self2[of "- uint v" "2 ^ 64 :: int"] by simp
  moreover have "(2 ^ 64 - uint v) mod 2 ^ 64 = 2 ^ 64 - uint v" by (rule mod_pos_pos_trivial) (use s(2) u in simp_all)
  moreover have "uint (- v) = (- uint v) mod 2 ^ 64" using uint_word_ariths(4)[of v] by simp
  ultimately have n: "uint (- v) = 2 ^ 64 - uint v" by simp
  have "uint (- v) < 2 ^ 63" using n s(2) \<open>uint v \<noteq> 2 ^ 63\<close> by simp
  then show ?thesis using n s(1) u by (simp add: sint_cases unat_eq_nat_uint)
qed

lemma upd_at_end: "k = length xs \<Longrightarrow> k < length b \<Longrightarrow> upd_chk (xs @ drop k b) k c = Some (xs @ c # drop (Suc k) b)"
  by (simp flip: Cons_nth_drop_Suc)

lemma mini_itoa_spec:
  assumes "10 \<le> r" and "r \<le> 16" and "length b = 24" and "unat n \<le> 22" and "unsig \<or> v \<noteq> 2 ^ 63"
  shows "\<exists>b'. mini_itoa v r up unsig b n c = Some (length (itoa_text v (unat r) up unsig (unat n) c), b') \<and> length b' = 24 \<and>
    length (itoa_text v (unat r) up unsig (unat n) c) < 24 \<and>
    take (length (itoa_text v (unat r) up unsig (unat n) c)) b' = itoa_text v (unat r) up unsig (unat n) c"
proof -
  let ?neg = "sint v < 0 \<and> \<not> unsig"
  define w where "w = (if ?neg then - v else v)"
  have w: "unsig \<or> 0 \<le> sint w" "unat w = (if unsig then unat v else nat \<bar>sint v\<bar>)"
  proof -
    have "unat v = nat (sint v)" if "0 \<le> sint v"
    proof -
      have "sint v = uint v" using that unsigned_less[of v, where 'a = int] by (auto simp: sint_cases split: if_splits)
      then show ?thesis using unat_eq_nat_uint[of v] by simp
    qed
    then show "unsig \<or> 0 \<le> sint w" "unat w = (if unsig then unat v else nat \<bar>sint v\<bar>)"
      using abs_value[of unsig v] assms(5) by (auto simp: w_def)
  qed
  define D where "D = num_digits (unat r) (unat w)"
  define ds where "ds = map (\<lambda>d. digit_char up (int d)) D"
  have r: "2 \<le> r" "10 \<le> unat r" using assms(1) by (auto simp: word_le_nat_alt)
  have "(10 :: nat) ^ 20 \<le> unat r ^ 20" using r(2) by (rule power_mono) simp
  moreover have "unat w < 10 ^ 20" using unsigned_less[of w, where 'a = nat] by simp
  ultimately have "unat w < unat r ^ 20" by linarith
  then have D: "length D \<le> 20" unfolding D_def by (rule num_digits_length) simp
  have T: "itoa_text v (unat r) up unsig (unat n) c = (if ?neg then ''-'' else []) @ replicate (unat n - length D) c @ rev ds"
    using num_text_digits[of "unat r" up] r assms(2) by (simp add: itoa_text_def w(2)[symmetric] D_def ds_def conj_commute word_le_nat_alt)
  define m where "m = max (length D) (unat n)"
  define b2 where "b2 = ds @ replicate (unat n - length D) c @ drop m b"
  define e where "e = ds @ replicate (unat n - length D) c @ (if ?neg then ''-'' else [])"
  have le: "length e = (if ?neg then m + 1 else m)" "length e < 24" using D assms(4) by (auto simp: e_def ds_def m_def)
  have m: "length (ds @ replicate (unat n - length D) c) = m" "m < length b" using D assms(3,4) by (auto simp: ds_def m_def)
  have 1: "itoa_digits r up unsig w b 0 = Some (ds @ drop (length D) b, length D)"
    using itoa_digits_spec[OF r(1) assms(2) w(1), of 0 b up] D assms(3) by (simp add: D_def ds_def)
  have 2: "itoa_pad n c (length D) (ds @ drop (length D) b) = Some b2"
    using itoa_pad_spec[of "ds @ drop (length D) b" 24 n "length D" c] D assms(3,4) by (simp add: ds_def m_def b2_def max_def)
  have 3: "(if ?neg then do { b' \<leftarrow> upd_chk b2 m (CHR ''-''); Some (b', m + 1) } else Some (b2, m)) = Some (e @ drop (length e) b, length e)"
  proof (cases ?neg)
    case True
    have "b2 = (ds @ replicate (unat n - length D) c) @ drop m b" by (simp add: b2_def)
    then have "upd_chk b2 m (CHR ''-'') = Some ((ds @ replicate (unat n - length D) c) @ CHR ''-'' # drop (Suc m) b)"
      using upd_at_end[OF m(1)[symmetric] m(2)] by simp
    then show ?thesis using True le(1) by (simp add: e_def)
  qed (use le(1) in \<open>auto simp: b2_def e_def\<close>)
  have 4: "upd_chk (e @ drop (length e) b) (length e) NUL = Some (e @ NUL # drop (Suc (length e)) b)"
    by (rule upd_at_end) (use le(2) assms(3) in simp_all)
  have 5: "itoa_reverse (length e) (e @ NUL # drop (Suc (length e)) b) = Some (rev e @ NUL # drop (Suc (length e)) b)"
    by (simp add: itoa_reverse_spec)
  have "\<not> 16 < r" using assms(2) by (simp add: not_less)
  then have "mini_itoa v r up unsig b n c = Some (length e, rev e @ NUL # drop (Suc (length e)) b)"
    unfolding mini_itoa_def Let_def w_def[symmetric] by (simp only: if_False 1 bind.bind_lunit prod.case m_def[symmetric] 2 3 4 5)
  moreover have "rev e = itoa_text v (unat r) up unsig (unat n) c" unfolding T e_def by simp
  moreover have "length (rev e @ NUL # drop (Suc (length e)) b) = 24" using le(2) assms(3) by simp
  ultimately show ?thesis using le(2)
    by (intro exI[of _ "rev e @ NUL # drop (Suc (length e)) b"]) (metis append_eq_conv_conj length_rev)
qed

text \<open>Reading a number: the sign, and digits with spaces between them.\<close>

definition digit_value :: "char \<Rightarrow> nat" where
  "digit_value c = (let k = of_char c in if k < 58 then k - 48 else if k < 71 then k - 55 else k - 87)"

definition read_digits :: "nat \<Rightarrow> string \<Rightarrow> nat" where
  "read_digits r s = foldl (\<lambda>a c. a * r + digit_value c) 0 (filter (\<lambda>c. c \<noteq> CHR '' '') s)"

definition read_int :: "nat \<Rightarrow> string \<Rightarrow> int" where
  "read_int r s = (case s of [] \<Rightarrow> 0 | c # t \<Rightarrow> if c = CHR ''-'' then - int (read_digits r t) else int (read_digits r s))"

lemma digit_char_value:
  assumes "d < 16"
  shows "digit_value (digit_char up (int d)) = d" "digit_char up (int d) \<noteq> CHR '' ''" "digit_char up (int d) \<noteq> CHR ''-''" "digit_char up (int d) \<noteq> NUL"
proof -
  have "list_all (\<lambda>(up, d). digit_value (digit_char up (int d)) = d \<and> digit_char up (int d) \<noteq> CHR '' '' \<and> digit_char up (int d) \<noteq> CHR ''-'' \<and> digit_char up (int d) \<noteq> NUL)
      (List.product [True, False] [0..<16])" by code_simp
  then have "\<forall>d < 16. digit_value (digit_char up (int d)) = d \<and> digit_char up (int d) \<noteq> CHR '' '' \<and> digit_char up (int d) \<noteq> CHR ''-'' \<and> digit_char up (int d) \<noteq> NUL"
    by (cases up) (auto simp: list_all_iff)
  then show "digit_value (digit_char up (int d)) = d" "digit_char up (int d) \<noteq> CHR '' ''" "digit_char up (int d) \<noteq> CHR ''-''" "digit_char up (int d) \<noteq> NUL"
    using assms by blast+
qed

lemma num_text_chars:
  assumes "2 \<le> r" and "r \<le> 16" and "c \<in> set (num_text up r n)"
  shows "c \<noteq> CHR '' ''" "c \<noteq> CHR ''-''" "c \<noteq> NUL"
proof -
  obtain d where d: "d \<in> set (num_digits r n)" "c = digit_char up (int d)" using assms(3) by (auto simp: num_text_digits[OF assms(1,2)])
  have "d < 16" using num_digits_less[OF assms(1) d(1)] assms(2) by simp
  then show "c \<noteq> CHR '' ''" "c \<noteq> CHR ''-''" "c \<noteq> NUL" unfolding d(2) by (rule digit_char_value)+
qed

lemma filter_digits: "2 \<le> r \<Longrightarrow> r \<le> 16 \<Longrightarrow> filter (\<lambda>c. c \<noteq> CHR '' '') (num_text up r n) = num_text up r n"
  using num_text_chars(1) by (auto simp: filter_id_conv)

lemma read_num_text:
  assumes "2 \<le> r" and "r \<le> 16"
  shows "foldl (\<lambda>a c. a * r + digit_value c) 0 (num_text up r n) = n"
  using assms
proof (induction r n rule: num_digits.induct)
  case (1 r n)
  show ?case
  proof (cases "n < r")
    case True
    then show ?thesis using 1(2,3) by (simp add: num_text_digits num_digits.simps[of r n] digit_char_value)
  next
    case False
    have "n mod r < 16" using 1(2,3) by (meson mod_less_divisor order.strict_trans2 less_le_trans zero_less_numeral)
    then show ?thesis using False 1 by (simp add: num_text_digits num_digits.simps[of r n] digit_char_value)
  qed
qed

lemma read_digits_padded:
  assumes "2 \<le> r" and "r \<le> 16" and "c = CHR '' '' \<or> c = CHR ''0''"
  shows "read_digits r (replicate k c @ num_text up r n) = n"
proof -
  have z: "foldl (\<lambda>a c. a * r + digit_value c) 0 (replicate k (CHR ''0'')) = 0"
    by (induction k) (simp_all add: digit_value_def)
  show ?thesis using assms z by (auto simp: read_digits_def filter_digits read_num_text)
qed

lemma itoa_text_value:
  assumes "2 \<le> r" and "r \<le> 16" and "c = CHR '' '' \<or> c = CHR ''0''"
  shows "read_int r (itoa_text v r up unsig n c) = (if unsig then uint v else sint v)"
proof -
  let ?m = "if unsig then unat v else nat \<bar>sint v\<bar>"
  let ?s = "replicate (n - length (num_text up r ?m)) c @ num_text up r ?m"
  have d: "d \<noteq> CHR ''-''" if "d \<in> set ?s" for d
    using that assms(3) num_text_chars(2)[OF assms(1,2)] by auto
  have ne: "?s \<noteq> []" using num_digits_nonempty by (simp add: num_text_def)
  have v: "read_digits r ?s = ?m" using read_digits_padded[OF assms] .
  show ?thesis
  proof (cases "\<not> unsig \<and> sint v < 0")
    case True
    then show ?thesis using v by (simp add: itoa_text_def Let_def read_int_def)
  next
    case False
    then have "itoa_text v r up unsig n c = ?s" by (auto simp: itoa_text_def Let_def)
    moreover obtain x xs where x: "?s = x # xs" using ne by (cases ?s) auto
    moreover have "x \<noteq> CHR ''-''" using d x by (metis list.set_intros(1))
    ultimately have "read_int r (itoa_text v r up unsig n c) = int (read_digits r ?s)" by (simp add: read_int_def)
    then show ?thesis using v False by auto
  qed
qed

section \<open>Printing without a buffer\<close>

text \<open>
  The output of the loop without the buffer and without its end, still directive by directive: what the proofs about the loop
  need. The arguments must be of the right kinds, paddings at most 22 (the local
  array has 24 characters), and the least number of 64 bits is not printed as a signed one.
\<close>

definition arg_text :: "char \<Rightarrow> bool \<Rightarrow> u32 \<Rightarrow> char \<Rightarrow> varg list \<Rightarrow> (string \<times> varg list) option" where
  "arg_text ch l n c va =
     (if ch = CHR ''l'' then Some ([], va)
      else if ch \<in> {CHR ''u'', CHR ''d'', CHR ''x'', CHR ''X''} then (case va of VNum w # va' \<Rightarrow>
        let unsig = (ch \<noteq> CHR ''d''); v = (if unsig then arg_u l w else arg_d l w)
        in if unat n \<le> 22 \<and> (unsig \<or> v \<noteq> 2 ^ 63)
           then Some (itoa_text v (if ch = CHR ''u'' \<or> ch = CHR ''d'' then 10 else 16) (ch = CHR ''X'') unsig (unat n) c, va') else None | _ \<Rightarrow> None)
      else if ch = CHR ''c'' then (case va of VNum w # va' \<Rightarrow> Some ([char_of_u8 (ucast w)], va') | _ \<Rightarrow> None)
      else if ch = CHR ''s'' then (case va of VStr s # va' \<Rightarrow>
        if NUL \<in> set s then Some (cstr s 0 @ replicate (unat n - length (cstr s 0)) (CHR '' ''), va') else None | _ \<Rightarrow> None)
      else Some ([ch], va))"

function fmt_text :: "string \<Rightarrow> varg list \<Rightarrow> string option" where
  "fmt_text [] va = Some []"
| "fmt_text (c # f) va =
     (if c \<noteq> CHR ''%'' then map_option (Cons c) (fmt_text f va)
      else (case directive f of (ch, l, n, cp, f') \<Rightarrow>
        if ch = NUL then Some []
        else do { (t, va') \<leftarrow> arg_text ch l n cp va; map_option (append t) (fmt_text f' va') }))"
  by pat_completeness auto
termination by (relation "measure (\<lambda>(f, _). length f)") (auto dest: directive_length[OF sym] simp: less_Suc_eq_le)

text \<open>The buffer holds the text \<open>u\<close>, cut off where the buffer ends.\<close>

definition holds :: "nat \<Rightarrow> mini_buff \<Rightarrow> string \<Rightarrow> bool" where
  "holds N b u \<longleftrightarrow> buffer_len b = N \<and> length (buffer b) = N \<and> pbuffer b = min (length u) (N - 1) \<and> take (pbuffer b) (buffer b) = take (N - 1) u"

lemma mini_putc_spec:
  assumes "holds N b u" and "0 < N"
  shows "\<exists>b'. mini_putc c b = Some b' \<and> holds N b' (u @ [c])"
proof (cases "length u < N - 1")
  case True
  then have p: "pbuffer b = length u" "take (length u) (buffer b) = u" using assms(1) by (auto simp: holds_def)
  have "take (Suc (length u)) ((buffer b)[length u := c, Suc (length u) := NUL]) = u @ [c]"
    using True assms(1) p(2) by (simp add: holds_def take_Suc_conv_app_nth)
  moreover have "\<not> N \<le> Suc (length u)" using True by linarith
  ultimately show ?thesis using True assms p by (simp add: mini_putc_def holds_def)
next
  case False
  then show ?thesis using assms by (auto simp: mini_putc_def holds_def min_def)
qed

text \<open>Characters copied to the position \<open>p\<close>.\<close>

lemma copy_loop:
  assumes "p + k \<le> length x" and "\<And>i. i < k \<Longrightarrow> g i = Some (t i)"
  shows "for_each [0..<k] (\<lambda>i x. do { c \<leftarrow> g i; upd_chk x (p + i) c }) x = Some (take p x @ map t [0..<k] @ drop (p + k) x)"
proof -
  have "\<exists>x'. for_each [0..<k] (\<lambda>i x. do { c \<leftarrow> g i; upd_chk x (p + i) c }) x = Some x' \<and> x' = take p x @ map t [0..<k] @ drop (p + k) x"
  proof (rule for_each_inv[where I = "\<lambda>j x'. x' = take p x @ map t [0..<j] @ drop (p + j) x"])
    fix j x' assume j: "j < k" and x': "x' = take p x @ map t [0..<j] @ drop (p + j) x"
    have "upd_chk ((take p x @ map t [0..<j]) @ drop (p + j) x) (p + j) (t j) = Some ((take p x @ map t [0..<j]) @ t j # drop (Suc (p + j)) x)"
      by (rule upd_at_end) (use j assms(1) in simp_all)
    then show "\<exists>s'. (do { c \<leftarrow> g j; upd_chk x' (p + j) c }) = Some s' \<and> s' = take p x @ map t [0..<Suc j] @ drop (p + Suc j) x"
      using assms(2)[OF j] by (simp add: x')
  qed simp
  then show ?thesis by blast
qed

lemma mini_puts_spec:
  assumes "holds N b u" and "0 < N" and "case s of None \<Rightarrow> t = replicate len (CHR '' '') | Some x \<Rightarrow> len \<le> length x \<and> t = take len x" and "N < 2 ^ 31"
  shows "\<exists>b'. mini_puts s len b = Some b' \<and> holds N b' (u @ t)"
proof -
  let ?p = "pbuffer b" and ?room = "int (buffer_len b) - int (pbuffer b) - 1"
  define k where "k = min len (N - 1 - ?p)"
  have b: "buffer_len b = N" "length (buffer b) = N" "?p \<le> N - 1" "take ?p (buffer b) = take (N - 1) u" "?p = min (length u) (N - 1)"
    using assms(1) by (auto simp: holds_def)
  have t: "length t = len" "\<And>i. i < len \<Longrightarrow> (case s of None \<Rightarrow> Some (CHR '' '') | Some t \<Rightarrow> nth_chk t i) = Some (t ! i)"
    using assms(3) by (auto split: option.splits)
  have room: "?room = int (N - 1 - ?p)" using b(1,3) assms(2) by simp
  have "unat (word_of_int ?room :: u32) = N - 1 - ?p" unfolding room using assms(4) by (simp add: unat_of_nat take_bit_nat_eq_self)
  then have k: "(if ?room < int len then unat (word_of_int ?room :: u32) else len) = k"
    unfolding room k_def by (simp add: min_def)
  have pk: "?p + k \<le> N - 1" "k \<le> len" using b(3) by (auto simp: k_def)
  have loop: "for_each [0..<k] (\<lambda>i x. do { c \<leftarrow> (case s of None \<Rightarrow> Some (CHR '' '') | Some t \<Rightarrow> nth_chk t i); upd_chk x (?p + i) c }) (buffer b)
     = Some (take ?p (buffer b) @ map ((!) t) [0..<k] @ drop (?p + k) (buffer b))"
    by (rule copy_loop) (use pk assms(2) b(2) t(2) in auto)
  have m: "map ((!) t) [0..<k] = take k t" using t(1) pk(2) by (intro nth_equalityI) auto
  define y where "y = take (N - 1) u @ take k t @ NUL # drop (Suc (?p + k)) (buffer b)"
  have l: "length (take (N - 1) u) = ?p" using b(5) by simp
  have up: "upd_chk (take ?p (buffer b) @ map ((!) t) [0..<k] @ drop (?p + k) (buffer b)) (?p + k) NUL = Some y"
    using upd_at_end[of "?p + k" "take (N - 1) u @ take k t" "buffer b" NUL] l t(1) pk b(2,4) assms(2) by (simp add: m y_def)
  have "mini_puts s len b = Some (b\<lparr>buffer := y, pbuffer := ?p + k\<rparr>)"
    unfolding mini_puts_def Let_def k using loop up by simp
  moreover have "take (?p + k) y = take (N - 1) u @ take k t"
  proof -
    have "length (take (N - 1) u @ take k t) = ?p + k" using l t(1) pk(2) by simp
    then show ?thesis unfolding y_def by (metis append.assoc append_eq_conv_conj)
  qed
  moreover have "take (N - 1) u @ take k t = take (N - 1) (u @ t)"
  proof (cases "length u \<le> N - 1")
    case True
    then have "take k t = take (N - 1 - length u) t" using b(5) t(1) by (simp add: k_def min_def)
    then show ?thesis by simp
  next
    case False
    then show ?thesis using b(5) by (simp add: k_def)
  qed
  moreover have "?p + k = min (length (u @ t)) (N - 1)" using b(5) t(1) unfolding k_def length_append by linarith
  moreover have "length y = N" using l t(1) pk b(2) assms(2) by (simp add: y_def)
  ultimately show ?thesis using b(1) by (simp add: holds_def)
qed

lemma print_num_spec:
  assumes "holds N b u" and "0 < N" and "N < 2 ^ 31" and "length bf = 24" and "unat n \<le> 22" and "unsig \<or> v \<noteq> 2 ^ 63" and "r = 10 \<or> r = 16"
  shows "\<exists>bf' b'. print_num v r up unsig n c (bf, b) = Some (bf', b') \<and> length bf' = 24 \<and> holds N b' (u @ itoa_text v (unat r) up unsig (unat n) c)"
proof -
  let ?T = "itoa_text v (unat r) up unsig (unat n) c"
  have r: "10 \<le> r" "r \<le> 16" using assms(7) by auto
  obtain bf' where bf': "mini_itoa v r up unsig bf n c = Some (length ?T, bf')" "length bf' = 24" "length ?T < 24" "take (length ?T) bf' = ?T"
    using mini_itoa_spec[OF r assms(4,5,6)] by blast
  obtain b' where "mini_puts (Some bf') (length ?T) b = Some b'" "holds N b' (u @ ?T)"
    using mini_puts_spec[OF assms(1,2) _ assms(3), of ?T "length ?T" "Some bf'"] bf'(2-4) by auto
  then show ?thesis using bf'(1,2) by (simp add: print_num_def)
qed

lemma mini_strlen_spec: "NUL \<in> set s \<Longrightarrow> mini_strlen s = Some (length (cstr s 0)) \<and> length (cstr s 0) \<le> length s \<and> take (length (cstr s 0)) s = cstr s 0"
  by (induction s) (auto simp: cstr_def)

lemma print_arg_spec:
  assumes "holds N b u" and "0 < N" and "N < 2 ^ 31" and "length bf = 24" and "arg_text ch l n c va = Some (t, va')"
  shows "\<exists>bf' b'. print_arg ch l n c va (bf, b) = Some (va', bf', b') \<and> length bf' = 24 \<and> holds N b' (u @ t)"
proof -
  consider "ch = CHR ''l''" | "ch \<in> {CHR ''u'', CHR ''d'', CHR ''x'', CHR ''X''}" | "ch = CHR ''c''" | "ch = CHR ''s''"
    | "ch \<notin> {CHR ''l'', CHR ''u'', CHR ''d'', CHR ''x'', CHR ''X'', CHR ''c'', CHR ''s''}" by blast
  then show ?thesis
  proof cases
    case 1
    then show ?thesis using assms by (auto simp: print_arg_def arg_text_def)
  next
    case 2
    then obtain w where va: "va = VNum w # va'" using assms(5) by (auto simp: arg_text_def Let_def split: list.splits varg.splits if_splits)
    define unsig where "unsig = (ch \<noteq> CHR ''d'')"
    define v where "v = (if unsig then arg_u l w else arg_d l w)"
    define r :: u32 where "r = (if ch = CHR ''u'' \<or> ch = CHR ''d'' then 10 else 16)"
    have r: "unat r = (if ch = CHR ''u'' \<or> ch = CHR ''d'' then 10 else 16)" "r = 10 \<or> r = 16" by (auto simp: r_def)
    have t: "unat n \<le> 22" "unsig \<or> v \<noteq> 2 ^ 63" "t = itoa_text v (unat r) (ch = CHR ''X'') unsig (unat n) c"
      using assms(5) 2 unfolding va r(1) by (auto simp: arg_text_def Let_def unsig_def v_def split: if_splits)
    have "print_arg ch l n c va (bf, b) = map_option (Pair va') (print_num v r (ch = CHR ''X'') unsig n c (bf, b))"
      using 2 by (auto simp: print_arg_def va unsig_def v_def r_def)
    then show ?thesis using print_num_spec[OF assms(1-4) t(1,2) r(2)] t(3) by fastforce
  next
    case 3
    then obtain w where "va = VNum w # va'" "t = [char_of_u8 (ucast w)]"
      using assms(5) by (auto simp: arg_text_def split: list.splits varg.splits)
    moreover obtain b' where "mini_putc (char_of_u8 (ucast w)) b = Some b'" "holds N b' (u @ [char_of_u8 (ucast w)])"
      using mini_putc_spec[OF assms(1,2)] by blast
    ultimately show ?thesis using 3 assms(4) by (auto simp: print_arg_def)
  next
    case 4
    then obtain s where s: "va = VStr s # va'" "NUL \<in> set s" "t = cstr s 0 @ replicate (unat n - length (cstr s 0)) (CHR '' '')"
      using assms(5) by (auto simp: arg_text_def split: list.splits varg.splits if_splits)
    let ?l = "length (cstr s 0)"
    note len = mini_strlen_spec[OF s(2)]
    obtain b1 where b1: "mini_puts (Some s) ?l b = Some b1" "holds N b1 (u @ cstr s 0)"
      using mini_puts_spec[OF assms(1,2) _ assms(3), of "cstr s 0" ?l "Some s"] len by auto
    obtain b2 where b2: "mini_puts None (unat n - ?l) b1 = Some b2" "holds N b2 ((u @ cstr s 0) @ replicate (unat n - ?l) (CHR '' ''))"
      using mini_puts_spec[OF b1(2) assms(2) _ assms(3), of "replicate (unat n - ?l) (CHR '' '')" "unat n - ?l" None] by auto
    show ?thesis
    proof (cases "?l < unat n")
      case True
      then show ?thesis using 4 s len b1 b2 assms(4) by (auto simp: print_arg_def)
    next
      case False
      then show ?thesis using 4 s len b1 assms(4) by (auto simp: print_arg_def)
    qed
  next
    case 5
    then have "t = [ch]" "va' = va" using assms(5) by (auto simp: arg_text_def)
    moreover obtain b' where "mini_putc ch b = Some b'" "holds N b' (u @ [ch])"
      using mini_putc_spec[OF assms(1,2)] by blast
    ultimately show ?thesis using 5 assms(4) by (auto simp: print_arg_def)
  qed
qed

lemma holds_full: "holds N b u \<Longrightarrow> N \<le> pbuffer b + 1 \<Longrightarrow> 0 < N \<Longrightarrow> holds N b (u @ t)"
proof -
  assume h: "holds N b u" "N \<le> pbuffer b + 1" "0 < N"
  then have "N - 1 \<le> length u" unfolding holds_def by linarith
  then show ?thesis using h by (auto simp: holds_def)
qed

lemma vsn_loop_spec:
  assumes "holds N b u" and "0 < N" and "N < 2 ^ 31" and "length bf = 24" and "fmt_text f va = Some t"
  shows "\<exists>bf' b'. vsn_loop f va (bf, b) = Some (bf', b') \<and> holds N b' (u @ t)"
  using assms
proof (induction f va arbitrary: b u bf t rule: fmt_text.induct)
  case (1 va)
  then show ?case by auto
next
  case (2 c f va)
  have len: "buffer_len b = N" using 2(3) by (simp add: holds_def)
  show ?case
  proof (cases "N \<le> pbuffer b + 1")
    case True
    then show ?thesis using holds_full[OF 2(3) True 2(4)] len by auto
  next
    case room: False
    show ?thesis
    proof (cases "c = CHR ''%''")
      case False
      then obtain t1 where t: "fmt_text f va = Some t1" "t = c # t1" using 2(7) by auto
      obtain b1 where b1: "mini_putc c b = Some b1" "holds N b1 (u @ [c])" using mini_putc_spec[OF 2(3,4)] by blast
      obtain bf' b' where "vsn_loop f va (bf, b1) = Some (bf', b')" "holds N b' ((u @ [c]) @ t1)"
        using 2(1)[OF False b1(2) 2(4-6) t(1)] by blast
      then show ?thesis using False room len b1(1) t(2) by auto
    next
      case True
      obtain ch l n cp f' where d: "directive f = (ch, l, n, cp, f')" by (cases "directive f") auto
      show ?thesis
      proof (cases "ch = NUL")
        case True
        then show ?thesis using 2(3,7) \<open>c = CHR ''%''\<close> d len by auto
      next
        case False
        obtain t1 va' t2 where t: "arg_text ch l n cp va = Some (t1, va')" "fmt_text f' va' = Some t2" "t = t1 @ t2"
          using 2(7) \<open>c = CHR ''%''\<close> False d by (auto simp: bind_eq_Some_conv)
        obtain bf1 b1 where b1: "print_arg ch l n cp va (bf, b) = Some (va', bf1, b1)" "length bf1 = 24" "holds N b1 (u @ t1)"
          using print_arg_spec[OF 2(3-6) t(1)] by blast
        obtain bf' b' where "vsn_loop f' va' (bf1, b1) = Some (bf', b')" "holds N b' ((u @ t1) @ t2)"
          using 2(2)[OF _ d[symmetric] refl refl refl False t(1) refl b1(3) 2(4,5) b1(2) t(2)] \<open>c = CHR ''%''\<close> by blast
        then show ?thesis using False room len b1(1) t(3) d \<open>c = CHR ''%''\<close> by auto
      qed
    qed
  qed
qed

lemma vprint_spec:
  assumes "NUL \<in> set fmt" and "fmt_text (cstr fmt 0) va = Some t" and "length buff = 256" and "length bf = 24"
  shows "\<exists>x. vprint fmt va buff bf = Some (min (length t) 255, x) \<and> length x = 256 \<and> take (min (length t) 255) x = take 255 t \<and>
    x ! min (length t) 255 = NUL"
proof -
  have "holds 256 \<lparr>buffer = buff, pbuffer = 0, buffer_len = 256\<rparr> []" using assms(3) by (simp add: holds_def)
  then obtain bf' b' where b': "vsn_loop (cstr fmt 0) va (bf, \<lparr>buffer = buff, pbuffer = 0, buffer_len = 256\<rparr>) = Some (bf', b')" "holds 256 b' ([] @ t)"
    using vsn_loop_spec[of 256 _ "[]" bf "cstr fmt 0" va t] assms(2,4) by fastforce
  have p: "pbuffer b' = min (length t) 255" "length (buffer b') = 256" "take (min (length t) 255) (buffer b') = take 255 t"
    using b'(2) by (auto simp: holds_def)
  have "vprint fmt va buff bf = Some (min (length t) 255, (buffer b')[min (length t) 255 := NUL])"
    using mini_strlen_spec[OF assms(1)] b'(1) p by (simp add: vprint_def mini_vsnprintf_def)
  then show ?thesis using p by simp
qed

text \<open>The escape sequence that moves the cursor of the terminal is what \<^verbatim>\<open>vt100_move_cursor\<close> means to send.\<close>

lemma small_int_arg: "k < 81 \<Longrightarrow> sint (arg_d False (of_nat k)) = int k"
proof -
  have "list_all (\<lambda>k. sint (arg_d False (of_nat k)) = int k) [0..<81]" by code_simp
  then show "k < 81 \<Longrightarrow> sint (arg_d False (of_nat k)) = int k" by (auto simp: list_all_iff)
qed

lemma move_cursor_sequence:
  assumes "x \<le> 80" and "y \<le> 50"
  shows "fmt_text ''%c[%d;%dH'' [VNum 27, VNum (of_nat y), VNum (of_nat x)] =
     Some (CHR 0x1B # ''['' @ num_text False 10 y @ '';'' @ num_text False 10 x @ ''H'')"
proof -
  have d: "directive ''c[%d;%dH'' = (CHR ''c'', False, 0, CHR '' '', ''[%d;%dH'')" "directive ''d;%dH'' = (CHR ''d'', False, 0, CHR '' '', '';%dH'')"
    "directive ''dH'' = (CHR ''d'', False, 0, CHR '' '', ''H'')" by code_simp+
  have a: "arg_text (CHR ''d'') False 0 (CHR '' '') (VNum (of_nat k) # va) = Some (num_text False 10 k, va)" if "k < 81" for k va
  proof -
    have "sint (2 ^ 63 :: u64) < 0" by code_simp
    then have "arg_d False (of_nat k) \<noteq> 2 ^ 63" using small_int_arg[OF that] by (metis of_nat_0_le_iff not_less)
    then show ?thesis using small_int_arg[OF that] by (simp add: arg_text_def itoa_text_def Let_def)
  qed
  have c: "arg_text (CHR ''c'') False 0 (CHR '' '') (VNum 27 # va) = Some ([CHR 0x1B], va)" for va
  proof -
    have "char_of_u8 (ucast (27 :: u64)) = CHR 0x1B" by code_simp
    then show ?thesis by (simp add: arg_text_def)
  qed
  show ?thesis using assms by (simp add: d a c)
qed

section \<open>The text of a format\<close>

text \<open>
  A format is a list of items: a character, a percent sign, a number (padded with zeros or spaces, the width, with the flag
  \<^verbatim>\<open>l\<close> or without, signed decimal, unsigned decimal or hexadecimal), a character argument or a string argument with a width.
\<close>

datatype num_kind = KDec | KUns | KHex bool

datatype fmt_item = FLit char | FPercent | FNum bool nat bool num_kind | FChar | FStr nat

text \<open>How it is written: \<^verbatim>\<open>%\<close>, a zero, the width, \<^verbatim>\<open>l\<close>, and the letter.\<close>

definition width_string :: "bool \<Rightarrow> nat \<Rightarrow> string" where
  "width_string z w = (if z then ''0'' else []) @ (if w = 0 then [] else num_text False 10 w)"

fun kind_letter :: "num_kind \<Rightarrow> char" where
  "kind_letter KDec = CHR ''d''"
| "kind_letter KUns = CHR ''u''"
| "kind_letter (KHex uppercase) = (if uppercase then CHR ''X'' else CHR ''x'')"

fun item_string :: "fmt_item \<Rightarrow> string" where
  "item_string (FLit c) = [c]"
| "item_string FPercent = ''%%''"
| "item_string (FNum z w l k) = CHR ''%'' # width_string z w @ (if l then ''l'' else []) @ [kind_letter k]"
| "item_string FChar = ''%c''"
| "item_string (FStr w) = CHR ''%'' # width_string False w @ ''s''"

definition format_string :: "fmt_item list \<Rightarrow> string" where
  "format_string is = concat (map item_string is)"

text \<open>
  What it stands for. A number without \<^verbatim>\<open>l\<close> is the low word of the argument, signed for \<^verbatim>\<open>d\<close>; the sign stands before the padding, and the
  width counts the digits. A string is padded on the right with spaces. There is no text when an argument is missing or of the wrong
  kind, when a width is more than 22 for a number (the local array has 24 characters), or for the least signed number of 64 bits.
\<close>

fun kind_value :: "num_kind \<Rightarrow> bool \<Rightarrow> u64 \<Rightarrow> int" where
  "kind_value KDec l a = (if l then sint a else sint (ucast a :: u32))"
| "kind_value _ l a = (if l then uint a else uint (ucast a :: u32))"

fun kind_numeral :: "num_kind \<Rightarrow> nat \<Rightarrow> string" where
  "kind_numeral (KHex uppercase) n = num_text uppercase 16 n"
| "kind_numeral _ n = num_text False 10 n"

definition padded :: "bool \<Rightarrow> nat \<Rightarrow> string \<Rightarrow> string" where
  "padded z w t = replicate (w - length t) (if z then CHR ''0'' else CHR '' '') @ t"

fun item_text :: "fmt_item \<Rightarrow> varg list \<Rightarrow> (string \<times> varg list) option" where
  "item_text (FLit c) va = (if c = CHR ''%'' \<or> c = NUL then None else Some ([c], va))"
| "item_text FPercent va = Some (''%'', va)"
| "item_text (FNum z w l k) (VNum a # va) = (let v = kind_value k l a in
     if w \<le> 22 \<and> v \<noteq> - (2 ^ 63) then Some ((if v < 0 then ''-'' else []) @ padded z w (kind_numeral k (nat \<bar>v\<bar>)), va) else None)"
| "item_text FChar (VNum a # va) = Some ([char_of_u8 (ucast a)], va)"
| "item_text (FStr w) (VStr s # va) =
     (if NUL \<in> set s \<and> w < 2 ^ 32 then Some (cstr s 0 @ replicate (w - length (cstr s 0)) (CHR '' ''), va) else None)"
| "item_text _ _ = None"

fun format_text :: "fmt_item list \<Rightarrow> varg list \<Rightarrow> string option" where
  "format_text [] va = Some []"
| "format_text (i # is) va = do { (t, va') \<leftarrow> item_text i va; map_option (append t) (format_text is va') }"

subsection \<open>The code reads what is written\<close>

lemma digit_read:
  assumes "d < 10"
  shows "isdigit (numeral_char False d)" "(word_of_int (c_int (numeral_char False d)) :: u32) - 48 = of_nat d" "numeral_char False d \<noteq> NUL"
    "numeral_char False d = CHR ''0'' \<longleftrightarrow> d = 0"
proof -
  have "list_all (\<lambda>d. isdigit (numeral_char False d) \<and> (word_of_int (c_int (numeral_char False d)) :: u32) - 48 = of_nat d \<and>
    numeral_char False d \<noteq> NUL \<and> (numeral_char False d = CHR ''0'' \<longleftrightarrow> d = 0)) [0..<10]" by code_simp
  then show "isdigit (numeral_char False d)" "(word_of_int (c_int (numeral_char False d)) :: u32) - 48 = of_nat d" "numeral_char False d \<noteq> NUL"
    "numeral_char False d = CHR ''0'' \<longleftrightarrow> d = 0" using assms by (auto simp: list_all_iff)
qed

lemma read_pad_digits:
  "\<forall>d \<in> set ds. d < 10 \<Longrightarrow> \<not> isdigit c \<Longrightarrow>
   read_pad (map (numeral_char False) ds @ c # f) n = (c, f, foldl (\<lambda>a d. a * 10 + of_nat d) n ds)"
proof (induction ds arbitrary: n)
  case (Cons d ds)
  have "n * 10 + word_of_int (c_int (numeral_char False d)) - 48 = n * 10 + of_nat d"
    using digit_read(2)[of d] Cons(2) by (simp add: algebra_simps)
  moreover have "isdigit (numeral_char False d)" using digit_read(1)[of d] Cons(2) by simp
  ultimately show ?case using Cons by (simp del: diff_add_eq add: add_diff_eq[symmetric] digit_read(2))
qed simp

lemma foldl_digits: "foldl (\<lambda>a d. a * 10 + of_nat d) (0 :: u32) (rev (num_digits 10 n)) = of_nat n"
proof (induction "10 :: nat" n rule: num_digits.induct)
  case (1 n)
  show ?case
  proof (cases "n < 10")
    case False
    have "of_nat (n div 10) * 10 + of_nat (n mod 10) = (of_nat (n div 10 * 10 + n mod 10) :: u32)" by (simp only: of_nat_add of_nat_mult of_nat_numeral)
    then show ?thesis using False 1 by (simp add: num_digits.simps[of 10 n])
  qed (simp add: num_digits.simps)
qed

lemma num_digits_top: "0 < n \<Longrightarrow> 0 < last (num_digits 10 n)"
proof (induction "10 :: nat" n rule: num_digits.induct)
  case (1 n)
  then show ?case using num_digits_nonempty[of 10 "n div 10"]
    by (cases "n < 10") (simp_all add: num_digits.simps[of 10 n])
qed

text \<open>The digits of a width, read from the front.\<close>

lemma width_digits:
  obtains ds where "width_string z w = map (numeral_char False) ds" "\<forall>d \<in> set ds. d < 10" "foldl (\<lambda>a d. a * 10 + of_nat d) (0 :: u32) ds = of_nat w"
    "ds = [] \<longleftrightarrow> \<not> z \<and> w = 0" "ds \<noteq> [] \<Longrightarrow> hd ds = 0 \<longleftrightarrow> z"
proof -
  define es where "es = (if w = 0 then [] else rev (num_digits 10 w))"
  have "numeral_char False 0 = CHR ''0''" by (simp add: numeral_char_def)
  then have "width_string z w = map (numeral_char False) ((if z then [0] else []) @ es)"
    by (simp add: width_string_def es_def num_text_def rev_map)
  moreover have "\<forall>d \<in> set ((if z then [0] else []) @ es). d < 10" using num_digits_less[of 10] by (auto simp: es_def)
  moreover have "foldl (\<lambda>a d. a * 10 + of_nat d) (0 :: u32) ((if z then [0] else []) @ es) = of_nat w"
    using foldl_digits[of w] by (simp add: es_def)
  moreover have "(if z then [0] else []) @ es = [] \<longleftrightarrow> \<not> z \<and> w = 0" using num_digits_nonempty by (simp add: es_def)
  moreover have "hd ((if z then [0] else []) @ es) = 0 \<longleftrightarrow> z" if "(if z then [0] else []) @ es \<noteq> []"
    using that num_digits_top[of w] num_digits_nonempty[of 10 w] by (auto simp: es_def hd_rev)
  ultimately show thesis by (rule that)
qed

lemma directive_string:
  assumes "\<not> isdigit c" and "c \<noteq> CHR ''l''"
  shows "directive (width_string z w @ (if l then ''l'' else []) @ c # f) = (c, l, of_nat w, if z then CHR ''0'' else CHR '' '', f)"
proof -
  obtain ds where ds: "width_string z w = map (numeral_char False) ds" "\<forall>d \<in> set ds. d < 10" "foldl (\<lambda>a d. a * 10 + of_nat d) (0 :: u32) ds = of_nat w"
    "ds = [] \<longleftrightarrow> \<not> z \<and> w = 0" "ds \<noteq> [] \<Longrightarrow> hd ds = 0 \<longleftrightarrow> z" by (rule width_digits[of z w]) blast
  have nl: "\<not> isdigit (CHR ''l'')" by code_simp
  have tl: "(if l then ''l'' else []) @ c # f = (if l then CHR ''l'' # c # f else c # f)" by simp
  show ?thesis
  proof (cases ds)
    case Nil
    then have "\<not> z" "w = 0" using ds(4) by simp_all
    then show ?thesis using assms nl ds(1) Nil unfolding tl by (simp add: directive_def next_char_def)
  next
    case (Cons d es)
    have d: "d < 10" "d = 0 \<longleftrightarrow> z" using ds(2,5) Cons by auto
    have "read_pad (map (numeral_char False) ds @ (if l then CHR ''l'' # c # f else c # f)) 0 =
        (if l then CHR ''l'' else c, if l then c # f else f, of_nat w)"
      using read_pad_digits[OF ds(2), of _ _ 0] nl assms(1) ds(3) by simp
    then show ?thesis using assms(2) digit_read(1,4)[OF d(1)] d(2) unfolding tl ds(1) Cons
      by (simp add: directive_def next_char_def)
  qed
qed

lemma kind_letter_simps: "\<not> isdigit (kind_letter k)" "kind_letter k \<noteq> CHR ''l''" "kind_letter k \<noteq> NUL"
proof -
  have "list_all (\<lambda>k. \<not> isdigit (kind_letter k) \<and> kind_letter k \<noteq> CHR ''l'' \<and> kind_letter k \<noteq> NUL) [KDec, KUns, KHex True, KHex False]" by code_simp
  then show "\<not> isdigit (kind_letter k)" "kind_letter k \<noteq> CHR ''l''" "kind_letter k \<noteq> NUL"
    by (cases k; auto)+
qed

lemma arg_value:
  "sint (arg_d l a) = kind_value KDec l a" "k \<noteq> KDec \<Longrightarrow> kind_value k l a = int (unat (arg_u l a))"
  by (simp_all add: arg_d_def sint_up_scast is_up) (cases k; simp add: arg_u_def uint_up_ucast is_up)

lemma num_item:
  assumes "item_text (FNum z w l k) va = Some (t, va')"
  shows "arg_text (kind_letter k) l (of_nat w) (if z then CHR ''0'' else CHR '' '') va = Some (t, va')"
proof -
  obtain a where va: "va = VNum a # va'" and v: "w \<le> 22" "kind_value k l a \<noteq> - (2 ^ 63)"
    and t: "t = (if kind_value k l a < 0 then ''-'' else []) @ padded z w (kind_numeral k (nat \<bar>kind_value k l a\<bar>))"
    using assms by (cases va; cases "hd va") (auto simp: Let_def split: if_splits)
  have w: "unat (of_nat w :: u32) = w" using v(1) by (simp add: unat_of_nat)
  have m: "sint (2 ^ 63 :: u64) = - (2 ^ 63)" by code_simp
  show ?thesis
  proof (cases "k = KDec")
    case True
    then have "arg_d l a \<noteq> 2 ^ 63" using v(2) m arg_value(1)[of l a] by metis
    then show ?thesis using True v(1) w t unfolding va
      by (simp add: arg_text_def itoa_text_def Let_def arg_value(1) padded_def)
  next
    case False
    show ?thesis using False v(1) w t arg_value(2)[OF False, of l a] unfolding va
      by (cases k) (simp_all del: kind_value.simps add: arg_text_def itoa_text_def Let_def padded_def)
  qed
qed

text \<open>An item in front of a format.\<close>

lemma item_spec:
  assumes "item_text i va = Some (t, va')" and "fmt_text f va' = Some t'"
  shows "fmt_text (item_string i @ f) va = Some (t @ t')"
proof (cases i)
  case (FLit c)
  then show ?thesis using assms by (auto split: if_splits)
next
  case FPercent
  have "\<not> isdigit (CHR ''%'')" by code_simp
  from directive_string[OF this, of False 0 False f] show ?thesis using FPercent assms by (auto simp: width_string_def arg_text_def)
next
  case (FNum z w l k)
  have d: "directive (width_string z w @ (if l then ''l'' else []) @ kind_letter k # f) = (kind_letter k, l, of_nat w, if z then CHR ''0'' else CHR '' '', f)"
    by (rule directive_string[OF kind_letter_simps(1,2)])
  show ?thesis using num_item[OF assms(1)[unfolded FNum]] assms(2) d kind_letter_simps(3)[of k] unfolding FNum
    by (simp only: item_string.simps append.simps append_assoc fmt_text.simps) simp
next
  case FChar
  obtain a where va: "va = VNum a # va'" "t = [char_of_u8 (ucast a)]" using assms(1) FChar by (cases va; cases "hd va") auto
  have "\<not> isdigit (CHR ''c'')" by code_simp
  from directive_string[OF this, of False 0 False f] show ?thesis using FChar assms(2) va by (simp add: width_string_def arg_text_def)
next
  case (FStr w)
  obtain s where va: "va = VStr s # va'" "NUL \<in> set s" "w < 2 ^ 32" "t = cstr s 0 @ replicate (w - length (cstr s 0)) (CHR '' '')"
    using assms(1) FStr by (cases va; cases "hd va") (auto split: if_splits)
  have w: "unat (of_nat w :: u32) = w" using va(3) by (simp add: unat_of_nat)
  have "\<not> isdigit (CHR ''s'')" by code_simp
  from directive_string[OF this, of False w False f] show ?thesis using FStr assms(2) va w by (simp add: arg_text_def)
qed

lemma item_string_chars: "item_text i va = Some r \<Longrightarrow> NUL \<notin> set (item_string i)"
proof -
  have "NUL \<notin> set (width_string z w)" for z w
  proof -
    obtain ds where "width_string z w = map (numeral_char False) ds" "\<forall>d \<in> set ds. d < 10" by (rule width_digits)
    then show ?thesis using digit_read(3) by fastforce
  qed
  then show "item_text i va = Some r \<Longrightarrow> NUL \<notin> set (item_string i)"
    using kind_letter_simps(3)[symmetric] by (cases i) (auto split: if_splits)
qed

lemma format_spec:
  "format_text is va = Some t \<Longrightarrow> fmt_text (format_string is) va = Some t \<and> NUL \<notin> set (format_string is)"
proof (induction "is" arbitrary: va t)
  case (Cons i "is")
  obtain u va' t' where i: "item_text i va = Some (u, va')" "format_text is va' = Some t'" "t = u @ t'"
    using Cons(2) by (auto simp: bind_eq_Some_conv)
  show ?case using item_spec[OF i(1)] Cons(1)[OF i(2)] item_string_chars[OF i(1)] i(3) by (simp add: format_string_def)
qed (simp add: format_string_def)

section \<open>Properties\<close>

text \<open>
  C40: Printing numbers. With one of the radixes the kernel uses and a padding of at most 22, \<^verbatim>\<open>mini_itoa\<close> stays in its array
  of 24 characters and returns the length of the string it leaves there, which is the numeral with its sign and padding; read
  back, it is the number again. (The least signed number is the exception: its negation overflows.)
\<close>

theorem mini_itoa_roundtrip:
  assumes "10 \<le> r" and "r \<le> 16" and "length b = 24" and "unat n \<le> 22" and "unsig \<or> v \<noteq> 2 ^ 63" and "c = CHR '' '' \<or> c = CHR ''0''"
  shows "\<exists>len b'. mini_itoa v r up unsig b n c = Some (len, b') \<and> unat n \<le> len \<and> len < 24 \<and> length b' = 24 \<and>
    take len b' = itoa_text v (unat r) up unsig (unat n) c \<and>
    read_int (unat r) (take len b') = (if unsig then uint v else sint v)"
proof -
  have r: "2 \<le> unat r" "unat r \<le> 16" using assms(1,2) by (simp_all add: word_le_nat_alt)
  let ?T = "itoa_text v (unat r) up unsig (unat n) c"
  obtain b' where b': "mini_itoa v r up unsig b n c = Some (length ?T, b')" "length b' = 24" "length ?T < 24" "take (length ?T) b' = ?T"
    using mini_itoa_spec[OF assms(1-5)] by blast
  moreover have "unat n \<le> length ?T" by (simp add: itoa_text_def Let_def)
  ultimately show ?thesis using itoa_text_value[OF r assms(6)] by (intro exI[of _ "length ?T"] exI[of _ b']) simp
qed

theorem mini_itoa_roundtrip_witness:
  "\<exists>b'. mini_itoa (- 42) 10 False False (replicate 24 CHR ''?'') 5 (CHR ''0'') = Some (6, b') \<and> take 6 b' = ''-00042'' \<and> read_int 10 ''-00042'' = -42"
proof -
  have t: "itoa_text (- 42) 10 False False 5 (CHR ''0'') = ''-00042''" by code_simp
  have s: "sint (- 42 :: u64) = -42" "(- 42 :: u64) \<noteq> 2 ^ 63" by code_simp+
  obtain len b' where b': "mini_itoa (- 42) 10 False False (replicate 24 CHR ''?'') 5 (CHR ''0'') = Some (len, b')" "length b' = 24" "len < 24"
    "take len b' = ''-00042''" "read_int 10 (take len b') = -42"
    using mini_itoa_roundtrip[of 10 "replicate 24 CHR ''?''" 5 False "- 42" "CHR ''0''" False] t s by auto
  have "len = length (take len b')" using b'(2,3) by simp
  also have "\<dots> = 6" unfolding b'(4) by simp
  finally show ?thesis using b'(1,4,5) by auto
qed

text \<open>
  C39: \<^verbatim>\<open>printk\<close> writes the text the format stands for. For a format written from its items (widths padded with zeros or spaces,
  the flag \<^verbatim>\<open>l\<close>, the conversions \<^verbatim>\<open>d\<close>, \<^verbatim>\<open>u\<close>, \<^verbatim>\<open>x\<close>, \<^verbatim>\<open>X\<close>, \<^verbatim>\<open>c\<close>, \<^verbatim>\<open>s\<close> and \<^verbatim>\<open>%\<close>) and arguments that fit them, it returns the length of the text, at
  most 255, and the window on the screen is the one after the characters of the text, cut off at 255, have been typed.
\<close>

theorem printk_types_text:
  assumes "scr_ok s" and "format_text is va = Some t" and "NUL \<notin> set t" and "length buff = 256" and "length bf = 24"
  shows "\<exists>s'. printk (format_string is @ NUL # junk) va buff bf s = Some (min (length t) 255, s') \<and> scr_ok s' \<and>
    view s' = fold type_char (map u8_of_char (take 255 t)) (view s)"
proof -
  let ?r = "min (length t) 255" and ?fmt = "format_string is @ NUL # junk"
  have f: "fmt_text (cstr ?fmt 0) va = Some t"
    using format_spec[OF assms(2)] cstr_eqI[of 0 ?fmt "format_string is" junk] by simp
  obtain x where x: "vprint ?fmt va buff bf = Some (?r, x)" "length x = 256" "take ?r x = take 255 t" "x ! ?r = NUL"
    using vprint_spec[OF _ f assms(4,5)] by auto
  have e: "x = take 255 t @ NUL # drop (Suc ?r) x"
    using id_take_nth_drop[of ?r x] x(2-4) by simp
  have "cstr x 0 = take 255 t" using assms(3) by (subst e) (auto simp: cstr_def takeWhile_append dest: in_set_takeD)
  moreover have "NUL \<in> set x" by (subst e) simp
  ultimately have n: "mini_strlen x = Some ?r" using mini_strlen_spec[of x] by (simp add: min.commute)
  have "\<exists>s1. screen_write (map u8_of_char x) ?r s = Some (?r, s1) \<and> scr_ok s1 \<and>
      view s1 = fold type_char (take ?r (map u8_of_char x)) (view s)"
    using screen_write_total[OF assms(1), of ?r "map u8_of_char x"] x(2) by (simp add: min_def)
  then show ?thesis using x(1,3) n by (auto simp: printk_def take_map)
qed

text \<open>Printing on the blank screen: the format is \<^verbatim>\<open>p%03d %lx\<close>.\<close>

theorem printk_types_text_witness:
  "\<exists>s'. printk (''p%03d %lx'' @ [NUL]) [VNum 7, VNum 0x100000000a] (replicate 256 NUL) (replicate 24 NUL) demo_scr = Some (15, s') \<and> scr_ok s' \<and>
     wx (view s') = 15 \<and> wy (view s') = 0"
proof -
  let ?is = "[FLit (CHR ''p''), FNum True 3 False KDec, FLit (CHR '' ''), FNum False 0 True (KHex False)]" and ?t = "''p007 100000000a''"
  have ok: "scr_ok demo_scr" by (simp add: scr_ok_def demo_scr_def demo_ks_def cur_pcb_def cur_cpu_def demo_pmem_def Let_def)
  have f: "format_string ?is = ''p%03d %lx''" by code_simp
  have t: "format_text ?is [VNum 7, VNum 0x100000000a] = Some ?t"
  proof -
    have "replicate 2 (CHR ''0'') = ''00''" by (simp add: numeral_2_eq_2)
    then show ?thesis by (simp add: padded_def num_text_def numeral_char_def num_digits.simps)
  qed
  have c: "map u8_of_char (take 255 ?t) = [112, 48, 48, 55, 32, 49, 48, 48, 48, 48, 48, 48, 48, 48, 97]" by code_simp
  obtain s' where "printk (''p%03d %lx'' @ [NUL]) [VNum 7, VNum 0x100000000a] (replicate 256 NUL) (replicate 24 NUL) demo_scr = Some (min (length ?t) 255, s')"
    "scr_ok s'" "view s' = fold type_char (map u8_of_char (take 255 ?t)) (view demo_scr)"
    using printk_types_text[OF ok t, of "replicate 256 NUL" "replicate 24 NUL" "[]"] unfolding f by auto
  then show ?thesis unfolding c by (intro exI[of _ s']) (simp add: demo_view type_char_def put_def Let_def)
qed

text \<open>A padding as wide as the array makes \<^verbatim>\<open>mini_itoa\<close> write behind it.\<close>

lemma wide_padding_overflows: "mini_itoa 5 10 False False (replicate 24 NUL) 24 (CHR '' '') = None"
  by code_simp

text \<open>The flag \<^verbatim>\<open>ll\<close> is lost: the letter behind it is printed as it is.\<close>

lemma long_long_prints_letter:
  "map_option (\<lambda>(n, b). take n b) (mini_vsnprintf (replicate 8 NUL) 8 (''%lld'' @ [NUL]) [VNum 5] (replicate 24 NUL)) = Some ''d''"
  by code_simp

text \<open>The least number: its digits are negative.\<close>

lemma least_number_garbled:
  "map_option (\<lambda>(len, b). (len, map c_int (take 4 b))) (mini_itoa (2 ^ 63) 10 False False (replicate 24 NUL) 0 (CHR '' '')) =
     Some (20, [45, 39, 46, 46])"
  by code_simp

end
