(* ===== verification/Spec2Isabelle.thy ===== *)
theory Spec2Isabelle
  imports ForkSpace GntpStream Trap Printk
begin

text \<open>
  A verification development for the kernel of OpenGlucOS (GlucOS), an operating system for RISC-V written in C: two CPUs, virtual
  memory with swapping, a file system of its own (GFS), a network card and a stream protocol. The development models the kernel
  proper, the directories \<^verbatim>\<open>kernel\<close>, \<^verbatim>\<open>drivers\<close> and \<^verbatim>\<open>libs\<close> under \<^verbatim>\<open>src\<close>, with the types of \<^verbatim>\<open>include\<close>.

  \<^bold>\<open>How the kernel works.\<close> entry.S saves the registers and takes the global lock, so one CPU at a time runs kernel code.
  \<^verbatim>\<open>interrupt_helper\<close> sends a trap to its handler: a system call, a page fault, the timer, the network card. System
  calls work on processes (PCBs in circular lists, one ready queue, one queue for each thing a process can wait for), on
  memory (page tables, frames, the swap partition), on files (GFS over a cache of disk blocks), on locks, semaphores, barriers and
  mailboxes, on the screen and on the network. A system call that has to wait moves its PCB to a queue with \<^verbatim>\<open>do_block\<close> and
  gives the CPU away; whoever can go on with the work wakes it with \<^verbatim>\<open>do_unblock\<close>. PCBs, kernel stacks, file nodes, frame buffers and
  list nodes come from one heap.

  \<^bold>\<open>How it is modelled.\<close> A C function is a function from the state to the result and the new state, in \<open>option\<close>. \<open>None\<close> means
  that the kernel does not come back: a panic, an access outside of an object, a spin lock that stays locked, a loop without
  end. Error codes are results. An operation that waits is cut at the call of \<^verbatim>\<open>do_block\<close>: it answers \<open>Blocked\<close>, and the
  rest is an operation of its own (\<open>_resume\<close>). C integers are words of their width, where an operation can
  wrap around; \<^verbatim>\<open>pid_t\<close>, \<^verbatim>\<open>int\<close> results and counters the code keeps small are \<open>int\<close>. Pointers are addresses, structures
  are records in maps from addresses, arrays are lists whose accesses are checked. The configuration is the one of the Makefile: two CPUs, threads,
  network card and log enabled.

  \<^bold>\<open>Theories.\<close>
  \<^item> \<open>Prelude\<close>: word types, checked array accesses, loops over a range (\<open>for_each\<close>, with its invariant rule), paths
    through linked lists, the collection \<open>kspec\<close> of the lemmas that say what an operation does.
  \<^item> \<open>KMalloc\<close> (\<^verbatim>\<open>kernel/mm/malloc-g.c\<close>): the boundary-tag heap. The blocks tile the area, the free list is the set of free
    blocks, no two neighbours are free; requests and releases keep this and do to the set of live regions what they should. The locale
    \<open>allocator\<close> carries histories of requests.
  \<^item> \<open>CString\<close> (\<^verbatim>\<open>libs/string.c\<close>, \<^verbatim>\<open>split\<close> of \<^verbatim>\<open>libs/glucose.c\<close>): each loop is an operation on strings, within bounds.
  \<^item> \<open>GfsTypes\<close>, \<open>GfsDemo\<close> (\<^verbatim>\<open>include/os/gfs.h\<close>): the state of the file system, the structures on the card and their encodings; a
    small file system on which the properties are applied.
  \<^item> \<open>GfsCache\<close> (\<^verbatim>\<open>gfs-io.c\<close>, \<^verbatim>\<open>gfs-cache.c\<close>): the write-through cache with LRU replacement is transparent (locale \<open>block_store\<close>).
  \<^item> \<open>GfsFlist\<close> (\<^verbatim>\<open>gfs-flist.c\<close>): the list of open files is a table of reference counts; a node goes back to the heap with its last holder.
  \<^item> \<open>GfsMeta\<close> (\<^verbatim>\<open>gfs0.c\<close>): bitmaps, inode table, superblock, making and mounting; allocation takes the first clear bits, memory and
    card agree, and a card that is mounted again by a kernel whose memory holds anything gives back what was on it.
  \<^item> \<open>GfsPath\<close> (\<^verbatim>\<open>gfs-path.c\<close>), \<open>GfsDir\<close> and \<open>GfsRemove\<close> (\<^verbatim>\<open>gfs-dir.c\<close>): a search is a lookup in the entries of a directory, a path
    a walk; a name is added whenever there is room, and then it is found, a name that is removed is not, other names keep their meaning.
  \<^item> \<open>GfsFile\<close> (\<^verbatim>\<open>gfs-file.c\<close>): a read returns the bytes of the file through all levels of pointers; the count of blocks is exact.
  \<^item> \<open>PcbList\<close> (\<^verbatim>\<open>pcb-list-g.c\<close>), \<open>PcbTable\<close> (\<^verbatim>\<open>pcb-table.c\<close>): circular lists and the process table as lists.
  \<^item> \<open>KState\<close>: the state of the kernel, spin locks. \<open>PageTable\<close> precedes it, because the memory is part of this state.
  \<^item> \<open>Sched\<close> (\<^verbatim>\<open>sched.c\<close>, \<^verbatim>\<open>sched-thread.c\<close>, \<^verbatim>\<open>time.c\<close>): blocking, waking, sleeping; the queues stay disjoint well-formed lists
    (locale \<open>wait_queues\<close>), histories of such steps are an inductive relation.
  \<^item> \<open>Lock\<close> (\<^verbatim>\<open>lock.c\<close>), \<open>Mbox\<close> (\<^verbatim>\<open>mbox.c\<close>): mutex locks exclude, semaphores count, barriers open and let everyone go on; the mailbox is a bounded
    queue of bytes (locale \<open>bounded_queue\<close>), and messages arrive in order.
  \<^item> \<open>PageTable\<close>, \<open>PageWalk\<close> (\<^verbatim>\<open>mm.c\<close>, \<^verbatim>\<open>pgtable.h\<close>): the tables of an address space form a tree and are a map from page numbers to
    entries. \<open>Memory\<close> (\<^verbatim>\<open>mm.c\<close>, \<^verbatim>\<open>mm-swap.c\<close>, \<^verbatim>\<open>mm-shared.c\<close>, \<^verbatim>\<open>handle_pagefault\<close>): frames, swapping, shared pages.
    \<open>Clock\<close>: the search for a frame to evict ends and a page comes back as it was. \<open>PageFault\<close>: what a process sees of its memory.
  \<^item> \<open>Process\<close> (\<^verbatim>\<open>sched.c\<close>, \<^verbatim>\<open>sched-thread.c\<close>, \<^verbatim>\<open>loader.c\<close>, \<^verbatim>\<open>sched-fork.c\<close>, \<^verbatim>\<open>start_glush\<close>): creating, scheduling, forking and ending
    processes and threads. \<open>ForkSpace\<close>: a forked process has the pages of its parent, copy-on-write.
  \<^item> \<open>E1000\<close> (\<^verbatim>\<open>drivers/e1000.c\<close>): the rings of the network card are queues of frames, read as the card reads them. \<open>Gntp\<close>, \<open>GntpStream\<close> (\<^verbatim>\<open>net.c\<close>, \<^verbatim>\<open>net-gntp.c\<close>): the
    headers, the list of received ranges, and the stream, a machine of program points with the card and the other processes as its environment.
  \<^item> \<open>Trap\<close> (\<^verbatim>\<open>irq.c\<close>, \<^verbatim>\<open>syscall.c\<close>, \<^verbatim>\<open>smp.c\<close>): the dispatch of traps; the timer interrupt passes the CPU on, and every process
    gets its turn.
  \<^item> \<open>Screen\<close> (\<^verbatim>\<open>drivers/screen.c\<close>), \<open>Printk\<close> (\<^verbatim>\<open>libs/printk.c\<close>): what the terminal shows is the window of text a process writes to;
    \<^verbatim>\<open>printk\<close> writes the text its format stands for, where a format is a list of items with a written form and a text.
  \<^item> This theory joins forking and page faults: a write after a fork changes the memory of the writer alone.

  \<^bold>\<open>What is outside.\<close> The hardware is a parameter. The card for the disk is a state with a read and a write function that obey
  \<open>sd_laws\<close> (what is written to a sector is read back, other sectors keep their contents); the registers of the network card are behind
  \<open>reg_read\<close> and \<open>reg_write\<close>, of which only the transmit head is assumed to lie within the ring. User
  memory is what the page tables map, or the bytes given to an operation. Local arrays a function does not clear are arguments.
  Each assumption is shown to hold in the small systems the theorems are applied to (\<open>demo_\<close>\<dots>).

  \<^bold>\<open>Termination.\<close> Loops over arrays are structural or have a measure. Loops over lists that must be circular, the search for a frame to evict, the
  loops that wake, and the resetting of the card are partial functions, and the theorems show that they return. Calls of the file
  system that recur (removing a directory, padding a file with zeros) have a bound on their depth as an argument: a directory tree is as deep as its
  fuel, and \<^verbatim>\<open>do_write\<close> calls itself once.

  \<^bold>\<open>Not modelled.\<close> Assembly (entry, \<^verbatim>\<open>switch_to\<close>) and booting; the translation by the hardware, TLB and caches (every access sees the
  tables as they are); the interrupt controller and the timer registers; the table of system calls, which is an argument of the
  dispatch; \<^verbatim>\<open>getchar\<close> and \<^verbatim>\<open>getline\<close>, which the kernel does not use; the text of log messages; the user library, the test
  programs and the tools that build the image, among them the compression library.
\<close>

section \<open>Fork and page faults\<close>

lemma same_page_pte: "same_page va va' \<Longrightarrow> va_pte m d va' = va_pte m d va \<and> page_bytes m d va' = page_bytes m d va"
  by (simp add: same_page_def va_pte_def page_bytes_def)

text \<open>
  C32: Fork and the page-fault handler together separate the memories of parent and child. After \<^verbatim>\<open>do_fork\<close> has copied the page
  tables, let the child or the parent write to a page that both share. The handler succeeds and makes the page writable in a
  frame that no other page of any process uses, with the bytes it had; and all pages of both processes still have the bytes of the
  parent's pages at the time of the fork, so that the write that follows changes the memory of the writer alone.
\<close>

theorem fork_write_isolated:
  fixes s c :: "'d kstate"
  assumes "vm_ok m D" and "pages_ok m D" and "dp \<in> D" and "(word_of_int pd :: u8) \<noteq> CMAP_FREE"
    and "card (below m dp) < free_count (pgtb_charmap m)" and "\<forall>a b c. c < 512 \<longrightarrow> forkable (pte_of m dp a b c)"
    and "\<forall>j < 51200. pg_charmap m ! j = CMAP_SHARED \<longrightarrow> pg_uva m ! j < 16"
    and "pg_ffree m < 51200" and "va_pte m dp va \<noteq> 0" and "VPN va 2 < 256"
  shows "\<exists>d m1 m'. alloc_pagetable pd m = Some (d, m1) \<and> fork_space d dp pd (s\<lparr>vm := share_pgtable d dp m1\<rparr>) = Some (s\<lparr>vm := m'\<rparr>) \<and>
    (\<forall>c p. vm c = m' \<and> p \<in> {d, dp} \<and> pgdir_kva (cur_pcb c) = p \<and> in_segment va (cur_pcb c) \<and> 2 \<le> pid (cur_pcb c) \<and>
       (word_of_int (pid (cur_pcb c)) :: u8) \<noteq> CMAP_FREE \<and> pf_ymr (pf (pf_count va c)) < 3 \<longrightarrow>
     (\<exists>m2. handle_pagefault va EXC_STORE_PAGE_FAULT c = Some (True, (pf_count va (c :: 'd kstate))\<lparr>vm := m2\<rparr>) \<and>
        get_attribute (va_pte m2 p va) PAGE_WRITE \<noteq> 0 \<and> mapped m2 (insert d D) (pg_ffree m) = {(p, VPN va 2, VPN va 1, VPN va 0)} \<and>
        (\<forall>q \<in> {d, dp}. \<forall>va'. va_pte m dp va' \<noteq> 0 \<longrightarrow> page_bytes m2 q va' = page_bytes m dp va')))"
proof -
  obtain d m1 m' where f: "alloc_pagetable pd m = Some (d, m1)" "fork_space d dp pd (s\<lparr>vm := share_pgtable d dp m1\<rparr>) = Some (s\<lparr>vm := m'\<rparr>)"
    "vm_ok m' (insert d D)" "pages_ok m' (insert d D)" "pg_ffree m' = pg_ffree m"
    and e: "\<And>va. va_pte m' d va = forked (va_pte m dp va) \<and> va_pte m' dp va = forked (va_pte m dp va)"
    and b: "\<And>va. va_pte m dp va \<noteq> 0 \<Longrightarrow> get_attribute (va_pte m' d va) PAGE_COW \<noteq> 0 \<and>
          page_bytes m' d va = page_bytes m dp va \<and> page_bytes m' dp va = page_bytes m dp va"
    using fork_space_shares[OF assms(1-7), of s] by blast
  have pr: "get_attribute (va_pte m' q va') PAGE_PRESENT \<noteq> 0" "get_attribute (va_pte m' q va') PAGE_COW \<noteq> 0" "page_bytes m' q va' = page_bytes m dp va'"
    if "q \<in> {d, dp}" "va_pte m dp va' \<noteq> 0" for q va'
  proof -
    have "forkable (va_pte m dp va')" unfolding va_pte_def by (rule assms(6)[rule_format, OF VPN_less])
    then show "get_attribute (va_pte m' q va') PAGE_PRESENT \<noteq> 0" "get_attribute (va_pte m' q va') PAGE_COW \<noteq> 0"
      using forked_simps(1,2)[OF _ that(2)] e[of va'] that(1) by auto
    show "page_bytes m' q va' = page_bytes m dp va'" using b[OF that(2)] that(1) by blast
  qed
  have step: "\<exists>m2. handle_pagefault va EXC_STORE_PAGE_FAULT c = Some (True, (pf_count va c)\<lparr>vm := m2\<rparr>) \<and>
        get_attribute (va_pte m2 p va) PAGE_WRITE \<noteq> 0 \<and> mapped m2 (insert d D) (pg_ffree m) = {(p, VPN va 2, VPN va 1, VPN va 0)} \<and>
        (\<forall>q \<in> {d, dp}. \<forall>va'. va_pte m dp va' \<noteq> 0 \<longrightarrow> page_bytes m2 q va' = page_bytes m dp va')"
    if c: "vm c = m'" "p \<in> {d, dp}" "pgdir_kva (cur_pcb c) = p" "in_segment va (cur_pcb c)" "2 \<le> pid (cur_pcb c)"
      "(word_of_int (pid (cur_pcb c)) :: u8) \<noteq> CMAP_FREE" "pf_ymr (pf (pf_count va c)) < 3" for c :: "'d kstate" and p
  proof -
    have p: "p \<in> insert d D" using c(2) assms(3) by auto
    note pv = pr[OF c(2) assms(9)]
    have nz: "va_pte m' p va \<noteq> 0" using pv(1) by auto
    obtain m2 where m2: "handle_pagefault va EXC_STORE_PAGE_FAULT c = Some (True, (pf_count va c)\<lparr>vm := m2\<rparr>)" "repaired (insert d D) p va EXC_STORE_PAGE_FAULT m' m2"
      using user_fault_repairs[of c "insert d D" p va EXC_STORE_PAGE_FAULT, unfolded c(1), OF f(3,4) c(3) p assms(10) c(4-7)] nz pv(1) f(5) assms(8) by auto
    have "page_bytes m2 q va' = page_bytes m dp va'" if q: "q \<in> {d, dp}" "va_pte m dp va' \<noteq> 0" for q va'
    proof (cases "q = p \<and> same_page va va'")
      case True
      have "page_bytes m2 p va = page_bytes m' p va" using m2(2) nz by (simp add: repaired_def)
      then show ?thesis using True pr(3)[OF q] same_page_pte[of va va'] by simp
    next
      case False
      have "q \<in> insert d D" using q(1) assms(3) by auto
      then have "page_bytes m2 q va' = page_bytes m' q va'" using m2(2) False pr(1)[OF q] unfolding repaired_def by blast
      then show ?thesis using pr(3)[OF q] by simp
    qed
    moreover have "get_attribute (va_pte m2 p va) PAGE_WRITE \<noteq> 0" "mapped m2 (insert d D) (pg_ffree m) = {(p, VPN va 2, VPN va 1, VPN va 0)}"
      using m2(2) pv(2) by (simp_all add: repaired_def f(5))
    ultimately show ?thesis using m2(1) by (intro exI[of _ m2]) simp
  qed
  show ?thesis
    by (rule exI[of _ d], rule exI[of _ m1], rule exI[of _ m'], intro conjI f(1,2) allI impI, elim conjE, rule step; assumption)
qed

theorem fork_write_isolated_witness:
  "\<exists>m d m1 m' m2. fork_space d (tbl 2) 3 (demo_ks\<lparr>vm := share_pgtable d (tbl 2) m1\<rparr>) = Some (demo_ks\<lparr>vm := m'\<rparr>) \<and>
     handle_pagefault 0x10000 15 (demo_ks\<lparr>vm := m'\<rparr>) = Some (True, (pf_count 0x10000 (demo_ks\<lparr>vm := m'\<rparr>))\<lparr>vm := m2\<rparr>) \<and>
     va_pte m (tbl 2) 0x10000 = demo_cow_pte \<and> page_bytes m2 d 0x10000 = page_bytes m (tbl 2) 0x10000"
proof -
  obtain m where m: "vm_ok m {tbl 2}" "pages_ok m {tbl 2}" "va_pte m (tbl 2) 0x10000 = demo_cow_pte" "pg_ffree m < 51200"
    "\<And>a b c. c < 512 \<Longrightarrow> pte_of m (tbl 2) a b c = 0 \<or> pte_of m (tbl 2) a b c = demo_cow_pte" "\<And>j. j < 51200 \<Longrightarrow> pg_uva m ! j < 16"
    "3800 < free_count (pgtb_charmap m)" using demo_cow by blast
  have e: "forkable demo_cow_pte" "demo_cow_pte \<noteq> 0"
    using demo_cow_pte_simps(2) by (auto simp: forkable_def demo_cow_pte_attr)
  have fk: "\<forall>a b c. c < 512 \<longrightarrow> forkable (pte_of m (tbl 2) a b c)"
  proof (intro allI impI)
    fix a b c :: u64 assume "c < 512"
    then show "forkable (pte_of m (tbl 2) a b c)" using m(5)[of c a b] e by auto
  qed
  have uv: "\<forall>j < 51200. pg_charmap m ! j = CMAP_SHARED \<longrightarrow> pg_uva m ! j < 16" using m(6) by blast
  have cd: "card (below m (tbl 2)) < free_count (pgtb_charmap m)" using below_bound[OF m(1), of "tbl 2"] m(7) by simp
  have p3: "(word_of_int 3 :: u8) \<noteq> CMAP_FREE" by (simp add: CMAP_FREE_def)
  have v: "VPN 0x10000 2 < 256" by (simp add: VPN_def NORMAL_PAGE_SHIFT_def PPN_BITS_def)
  have nz: "va_pte m (tbl 2) 0x10000 \<noteq> 0" using m(3) e(2) by simp
  obtain d m1 m' where f: "fork_space d (tbl 2) 3 (demo_ks\<lparr>vm := share_pgtable d (tbl 2) m1\<rparr>) = Some (demo_ks\<lparr>vm := m'\<rparr>)"
    and w: "\<forall>(c :: (nat \<Rightarrow> u8 list) kstate) p. vm c = m' \<and> p \<in> {d, tbl 2} \<and> pgdir_kva (cur_pcb c) = p \<and> in_segment 0x10000 (cur_pcb c) \<and> 2 \<le> pid (cur_pcb c) \<and>
       (word_of_int (pid (cur_pcb c)) :: u8) \<noteq> CMAP_FREE \<and> pf_ymr (pf (pf_count 0x10000 c)) < 3 \<longrightarrow>
     (\<exists>m2. handle_pagefault 0x10000 EXC_STORE_PAGE_FAULT c = Some (True, (pf_count 0x10000 c)\<lparr>vm := m2\<rparr>) \<and>
        get_attribute (va_pte m2 p 0x10000) PAGE_WRITE \<noteq> 0 \<and> mapped m2 (insert d {tbl 2}) (pg_ffree m) = {(p, VPN 0x10000 2, VPN 0x10000 1, VPN 0x10000 0)} \<and>
        (\<forall>q \<in> {d, tbl 2}. \<forall>va'. va_pte m (tbl 2) va' \<noteq> 0 \<longrightarrow> page_bytes m2 q va' = page_bytes m (tbl 2) va'))"
    using fork_write_isolated[OF m(1,2) singletonI p3 cd fk uv m(4) nz v, of demo_ks] by (elim exE conjE) (rule that)
  obtain m2 where "handle_pagefault 0x10000 15 (demo_ks\<lparr>vm := m'\<rparr>) = Some (True, (pf_count 0x10000 (demo_ks\<lparr>vm := m'\<rparr>))\<lparr>vm := m2\<rparr>)"
    "\<forall>q \<in> {d, tbl 2}. \<forall>va'. va_pte m (tbl 2) va' \<noteq> 0 \<longrightarrow> page_bytes m2 q va' = page_bytes m (tbl 2) va'"
    using w[rule_format, of "demo_ks\<lparr>vm := m'\<rparr>" "tbl 2"] demo_fault(1-3,5) by (auto simp: EXC_STORE_PAGE_FAULT_def CMAP_FREE_def)
  then have "page_bytes m2 d 0x10000 = page_bytes m (tbl 2) 0x10000" using m(3) e(2) by simp
  then show ?thesis using f m(3) \<open>handle_pagefault 0x10000 15 _ = _\<close> by (intro exI[of _ m] exI[of _ d] exI[of _ m1] exI[of _ m'] exI[of _ m2] conjI)
qed

end
